(* ===== verification/Prelude.thy ===== *)
theory Prelude
  imports Main "HOL-Library.Word"
begin

text \<open>
  What the components share: the algorithms of the C++ standard library that the
  sources call on sorted sequences, the operations of \<^verbatim>\<open>std::deque\<close> that insert and
  erase at a position, the contract of a comparison object (a strict weak order), and
  the generic lemmas on lists the component proofs rest on.

  Iterators are positions: \<open>0\<close> is \<^verbatim>\<open>begin()\<close>, \<open>length xs\<close> is \<^verbatim>\<open>end()\<close>.
\<close>

named_theorems flat_ops \<open>definitions of the operations of the flat containers\<close>
named_theorems std_ops \<open>definitions of the standard algorithms\<close>

section \<open>Standard algorithms on sequences\<close>

text \<open>
  The C++ standard defines \<^verbatim>\<open>std::lower_bound\<close> as the furthermost position before which
  every element compares less than the value, and \<^verbatim>\<open>std::upper_bound\<close> as the furthermost
  position before which the value compares less than no element: both are the length
  of a prefix.
\<close>

definition partition_point :: "('a \<Rightarrow> bool) \<Rightarrow> 'a list \<Rightarrow> nat" where
  "partition_point P xs = length (takeWhile P xs)"

definition lower_bound :: "('a \<Rightarrow> 'b \<Rightarrow> bool) \<Rightarrow> 'a list \<Rightarrow> 'b \<Rightarrow> nat" where
  "lower_bound lt xs v = partition_point (\<lambda>e. lt e v) xs"

definition upper_bound :: "('b \<Rightarrow> 'a \<Rightarrow> bool) \<Rightarrow> 'a list \<Rightarrow> 'b \<Rightarrow> nat" where
  "upper_bound lt xs v = partition_point (\<lambda>e. \<not> lt v e) xs"

definition equal_range :: "('a \<Rightarrow> 'a \<Rightarrow> bool) \<Rightarrow> 'a list \<Rightarrow> 'a \<Rightarrow> nat \<times> nat" where
  "equal_range lt xs v = (lower_bound lt xs v, upper_bound lt xs v)"

text \<open>
  \<^verbatim>\<open>std::sort\<close> is modelled by a stable insertion sort, which is one of the results the
  standard allows; on a linear order it is the only one.
\<close>

fun insort_by :: "('a \<Rightarrow> 'a \<Rightarrow> bool) \<Rightarrow> 'a \<Rightarrow> 'a list \<Rightarrow> 'a list" where
  "insort_by lt x [] = [x]"
| "insort_by lt x (y # ys) = (if lt y x then y # insort_by lt x ys else x # y # ys)"

fun sort_by :: "('a \<Rightarrow> 'a \<Rightarrow> bool) \<Rightarrow> 'a list \<Rightarrow> 'a list" where
  "sort_by lt [] = []"
| "sort_by lt (x # xs) = insort_by lt x (sort_by lt xs)"

text \<open>\<^verbatim>\<open>std::unique\<close> followed by the erasure of the tail: the first element of every run stays.\<close>

fun unique_from :: "('a \<Rightarrow> 'a \<Rightarrow> bool) \<Rightarrow> 'a \<Rightarrow> 'a list \<Rightarrow> 'a list" where
  "unique_from same x [] = [x]"
| "unique_from same x (y # ys) =
     (if same x y then unique_from same x ys else x # unique_from same y ys)"

fun unique_by :: "('a \<Rightarrow> 'a \<Rightarrow> bool) \<Rightarrow> 'a list \<Rightarrow> 'a list" where
  "unique_by same [] = []"
| "unique_by same (x # xs) = unique_from same x xs"

definition insert_at :: "nat \<Rightarrow> 'a \<Rightarrow> 'a list \<Rightarrow> 'a list" where
  "insert_at i x xs = take i xs @ x # drop i xs"

definition erase_range :: "nat \<Rightarrow> nat \<Rightarrow> 'a list \<Rightarrow> 'a list" where
  "erase_range i j xs = take i xs @ drop j xs"

definition erase_at :: "nat \<Rightarrow> 'a list \<Rightarrow> 'a list" where
  "erase_at i xs = erase_range i (Suc i) xs"

definition swap_at :: "nat \<Rightarrow> nat \<Rightarrow> 'a list \<Rightarrow> 'a list" where
  "swap_at i j xs = xs[i := xs ! j, j := xs ! i]"

lemmas [std_ops] = lower_bound_def upper_bound_def equal_range_def partition_point_def
  insert_at_def erase_range_def erase_at_def swap_at_def

lemma partition_point_le [simp]: "partition_point P xs \<le> length xs"
  by (simp add: partition_point_def length_takeWhile_le)

lemma lower_bound_le [simp]: "lower_bound lt xs v \<le> length xs"
  by (simp add: lower_bound_def)

lemma upper_bound_le [simp]: "upper_bound lt xs v \<le> length xs"
  by (simp add: upper_bound_def)

lemma take_partition_point: "take (partition_point P xs) xs = takeWhile P xs"
  by (simp only: partition_point_def takeWhile_eq_take [symmetric])

lemma drop_partition_point: "drop (partition_point P xs) xs = dropWhile P xs"
  by (simp only: partition_point_def dropWhile_eq_drop [symmetric])

lemma partition_point_nth:
  assumes "i < partition_point P xs"
  shows "P (xs ! i)"
proof -
  have i: "i < length (takeWhile P xs)" using assms by (simp add: partition_point_def)
  then have "takeWhile P xs ! i \<in> set (takeWhile P xs)" by (rule nth_mem)
  then have "P (takeWhile P xs ! i)" by (auto dest: set_takeWhileD)
  with i show ?thesis by (simp add: takeWhile_nth)
qed

lemma partition_point_stop: "partition_point P xs < length xs \<Longrightarrow> \<not> P (xs ! partition_point P xs)"
  by (simp add: partition_point_def nth_length_takeWhile)

lemma partition_point_eqI:
  assumes "n \<le> length xs" and "\<And>i. i < n \<Longrightarrow> P (xs ! i)"
    and "n < length xs \<Longrightarrow> \<not> P (xs ! n)"
  shows "partition_point P xs = n"
proof (rule antisym)
  show "partition_point P xs \<le> n"
    using assms(1,3) partition_point_nth [of n P xs] partition_point_le [of P xs]
    by (metis leI le_less_trans less_imp_le_nat order_le_less)
  show "n \<le> partition_point P xs"
    using assms(1,2) partition_point_stop [of P xs] by (metis leI less_le_trans)
qed

text \<open>On a sequence along which a predicate never comes back, it ends at the partition point.\<close>

lemma partition_point_drop:
  assumes "sorted_wrt (\<lambda>x y. P y \<longrightarrow> P x) xs" and "e \<in> set (drop (partition_point P xs) xs)"
  shows "\<not> P e"
  using assms by (induction xs) (auto simp: partition_point_def split: if_splits)

lemma partition_point_take: "e \<in> set (take (partition_point P xs) xs) \<Longrightarrow> P e"
  by (auto simp: take_partition_point dest: set_takeWhileD)

lemma length_swap_at [simp]: "length (swap_at i j xs) = length xs"
  by (simp add: swap_at_def)

lemma length_insert_at [simp]: "length (insert_at i x xs) = Suc (length xs)"
  by (simp add: insert_at_def)

lemma set_insert_at [simp]: "set (insert_at i x xs) = insert x (set xs)"
  by (simp add: insert_at_def) (metis append_take_drop_id set_append)

lemma insert_at_0 [simp]: "insert_at 0 x xs = x # xs"
  by (simp add: insert_at_def)

lemma insert_at_length [simp]: "insert_at (length xs) x xs = xs @ [x]"
  by (simp add: insert_at_def)

lemma nth_insert_at: "i \<le> length xs \<Longrightarrow> insert_at i x xs ! i = x"
  by (simp add: insert_at_def nth_append)

lemma length_erase_at: "i < length xs \<Longrightarrow> length (erase_at i xs) = length xs - 1"
  by (simp add: erase_at_def erase_range_def)

lemma set_erase_range_subset: "set (erase_range i j xs) \<subseteq> set xs"
  by (auto simp: erase_range_def dest: in_set_takeD in_set_dropD)

lemma sorted_wrt_erase_range:
  "sorted_wrt R xs \<Longrightarrow> i \<le> j \<Longrightarrow> sorted_wrt R (erase_range i j xs)"
proof -
  assume s: "sorted_wrt R xs" and ij: "i \<le> j"
  have "drop i xs = take (j - i) (drop i xs) @ drop j xs"
    by (metis append_take_drop_id drop_drop ij le_add_diff_inverse2)
  with s have "sorted_wrt R (take i xs @ take (j - i) (drop i xs) @ drop j xs)"
    by (metis append_take_drop_id)
  then show ?thesis by (simp add: erase_range_def sorted_wrt_append)
qed

lemma sorted_wrt_erase_at: "sorted_wrt R xs \<Longrightarrow> sorted_wrt R (erase_at i xs)"
  by (simp add: erase_at_def sorted_wrt_erase_range)

lemma last_conv_nth_pos: "xs \<noteq> [] \<Longrightarrow> last xs = xs ! (length xs - 1)"
  by (rule last_conv_nth)

section \<open>The contract of a comparison object\<close>

text \<open>
  Every \<^verbatim>\<open>Compare\<close> parameter of the flat containers is a strict weak order; that is what
  \<^verbatim>\<open>std::sort\<close> and the binary searches require. \<open>alike\<close> is the equivalence it induces.
\<close>

locale strict_weak_order =
  fixes lt :: "'a \<Rightarrow> 'a \<Rightarrow> bool"
  assumes irrefl: "\<not> lt x x"
    and trans: "lt x y \<Longrightarrow> lt y z \<Longrightarrow> lt x z"
    and split: "lt x z \<Longrightarrow> lt x y \<or> lt y z"
begin

lemma asym: "lt x y \<Longrightarrow> \<not> lt y x"
  using irrefl trans by blast

lemma less_alike_right: "lt x y \<Longrightarrow> \<not> lt z y \<Longrightarrow> lt x z"
  using split by blast

lemma less_alike_left: "lt x y \<Longrightarrow> \<not> lt x z \<Longrightarrow> lt z y"
  using split by blast

lemma not_less_trans: "\<not> lt y x \<Longrightarrow> \<not> lt z y \<Longrightarrow> \<not> lt z x"
  using split by blast

lemma sorted_weaken: "sorted_wrt lt xs \<Longrightarrow> sorted_wrt (\<lambda>a b. \<not> lt b a) xs"
  by (rule sorted_wrt_mono_rel) (auto dest: asym)

lemma lower_bound_prefix: "e \<in> set (take (lower_bound lt xs v) xs) \<Longrightarrow> lt e v"
  by (auto simp: lower_bound_def take_partition_point dest: set_takeWhileD)

lemma lower_bound_suffix:
  assumes "sorted_wrt (\<lambda>a b. \<not> lt b a) xs" and "e \<in> set (drop (lower_bound lt xs v) xs)"
  shows "\<not> lt e v"
  using assms
proof (induction xs)
  case Nil
  then show ?case by (simp add: lower_bound_def partition_point_def)
next
  case (Cons x xs)
  show ?case
  proof (cases "lt x v")
    case True
    with Cons show ?thesis by (simp add: lower_bound_def partition_point_def)
  next
    case False
    with Cons.prems have "e = x \<or> \<not> lt e x"
      by (auto simp: lower_bound_def partition_point_def)
    with False show ?thesis using not_less_trans by blast
  qed
qed

lemma upper_bound_prefix: "e \<in> set (take (upper_bound lt xs v) xs) \<Longrightarrow> \<not> lt v e"
  by (auto simp: upper_bound_def take_partition_point dest: set_takeWhileD)

lemma upper_bound_suffix:
  assumes "sorted_wrt (\<lambda>a b. \<not> lt b a) xs" and "e \<in> set (drop (upper_bound lt xs v) xs)"
  shows "lt v e"
  using assms
proof (induction xs)
  case Nil
  then show ?case by (simp add: upper_bound_def partition_point_def)
next
  case (Cons x xs)
  show ?case
  proof (cases "lt v x")
    case True
    with Cons.prems have "e = x \<or> \<not> lt e x"
      by (auto simp: upper_bound_def partition_point_def)
    with True show ?thesis using less_alike_right by blast
  next
    case False
    with Cons show ?thesis by (simp add: upper_bound_def partition_point_def)
  qed
qed

lemma sorted_insert_lower:
  assumes "sorted_wrt lt xs" and "\<And>e. e \<in> set xs \<Longrightarrow> lt v e \<or> lt e v"
  shows "sorted_wrt lt (insert_at (lower_bound lt xs v) v xs)"
proof -
  let ?n = "lower_bound lt xs v"
  have s: "sorted_wrt lt (take ?n xs @ drop ?n xs)" using assms(1) by simp
  have "lt v e" if "e \<in> set (drop ?n xs)" for e
    using that assms(2) lower_bound_suffix [OF sorted_weaken [OF assms(1)] that]
    by (meson in_set_dropD)
  then show ?thesis
    using s by (auto simp: insert_at_def sorted_wrt_append simp del: append_take_drop_id
        dest: lower_bound_prefix)
qed

lemma set_insort_by [simp]: "set (insort_by lt x xs) = insert x (set xs)"
  by (induction xs) auto

lemma set_sort_by [simp]: "set (sort_by lt xs) = set xs"
  by (induction xs) auto

lemma sorted_insort_by:
  "sorted_wrt (\<lambda>a b. \<not> lt b a) xs \<Longrightarrow> sorted_wrt (\<lambda>a b. \<not> lt b a) (insort_by lt x xs)"
  by (induction xs) (auto dest: asym not_less_trans)

lemma sorted_sort_by: "sorted_wrt (\<lambda>a b. \<not> lt b a) (sort_by lt xs)"
  by (induction xs) (simp_all add: sorted_insort_by)

lemma length_sort_by [simp]: "length (sort_by lt xs) = length xs"
proof -
  have "length (insort_by lt y ys) = Suc (length ys)" for y ys
    by (induction ys) auto
  then show ?thesis by (induction xs) auto
qed

lemma set_unique_from_subset: "set (unique_from same x xs) \<subseteq> insert x (set xs)"
  by (induction xs arbitrary: x) (auto split: if_splits)

lemma sorted_unique_from:
  assumes "sorted_wrt (\<lambda>a b. \<not> lt b a) (x # xs)"
  shows "sorted_wrt lt (unique_from (\<lambda>a b. \<not> lt a b) x xs)"
    and "\<forall>e \<in> set (unique_from (\<lambda>a b. \<not> lt a b) x xs). \<not> lt e x"
    and "\<forall>e \<in> insert x (set xs). \<exists>k \<in> set (unique_from (\<lambda>a b. \<not> lt a b) x xs).
      \<not> lt e k \<and> \<not> lt k e"
  using assms
proof (induction xs arbitrary: x)
  case Nil
  { case 1 then show ?case by simp }
  { case 2 then show ?case by (simp add: irrefl) }
  { case 3 then show ?case by (simp add: irrefl) }
next
  case (Cons y ys)
  { case 1
    show ?case
    proof (cases "lt x y")
      case True
      have "lt x e" if "e \<in> set (unique_from (\<lambda>a b. \<not> lt a b) y ys)" for e
        using Cons.IH(2) [of y] 1 that less_alike_right [OF True] by simp
      with True Cons.IH(1) [of y] 1 show ?thesis by auto
    next
      case False
      with Cons.IH(1) [of x] 1 show ?thesis by auto
    qed }
  { case 2
    show ?case
    proof (cases "lt x y")
      case True
      have "\<not> lt e x" if "e \<in> set (unique_from (\<lambda>a b. \<not> lt a b) y ys)" for e
      proof
        assume "lt e x"
        then have "lt e y" using True trans by blast
        then show False using Cons.IH(2) [of y] 2 that by simp
      qed
      with True show ?thesis by (simp add: irrefl)
    next
      case False
      with Cons.IH(2) [of x] 2 show ?thesis by auto
    qed }
  { case 3
    show ?case
    proof (cases "lt x y")
      case True
      with Cons.IH(3) [of y] 3 show ?thesis by (auto simp: irrefl)
    next
      case False
      have x: "\<exists>k \<in> set (unique_from (\<lambda>a b. \<not> lt a b) x ys). \<not> lt e k \<and> \<not> lt k e"
        if "e \<in> insert x (set ys)" for e
        using Cons.IH(3) [of x] 3 that by auto
      obtain k where "k \<in> set (unique_from (\<lambda>a b. \<not> lt a b) x ys)"
        and "\<not> lt x k" and "\<not> lt k x"
        using x by blast
      moreover have "\<not> lt y x" using 3 by simp
      ultimately have "\<exists>k \<in> set (unique_from (\<lambda>a b. \<not> lt a b) x ys). \<not> lt y k \<and> \<not> lt k y"
        using False not_less_trans by blast
      with x False show ?thesis by auto
    qed }
qed

end

text \<open>A total comparison: alike elements are equal, as with \<^verbatim>\<open>std::lt\<close> on numbers.\<close>

locale strict_linear_order = strict_weak_order +
  assumes total: "\<not> lt x y \<Longrightarrow> \<not> lt y x \<Longrightarrow> x = y"
begin

lemma sorted_distinct: "sorted_wrt lt xs \<Longrightarrow> distinct xs"
  by (induction xs) (auto simp: irrefl)

lemma sorted_set_unique:
  "sorted_wrt lt xs \<Longrightarrow> sorted_wrt lt ys \<Longrightarrow> set xs = set ys \<Longrightarrow> xs = ys"
proof (induction xs arbitrary: ys)
  case Nil
  then show ?case by simp
next
  case (Cons x xs)
  then obtain y zs where ys: "ys = y # zs" by (cases ys) auto
  have "x = y"
  proof (rule ccontr)
    assume "x \<noteq> y"
    then have "x \<in> set zs" and "y \<in> set xs" using Cons.prems(3) ys by auto
    then have "lt y x" and "lt x y" using Cons.prems(1,2) ys by auto
    then show False using asym by blast
  qed
  moreover have "x \<notin> set xs" and "y \<notin> set zs"
    using Cons.prems ys by (auto simp: irrefl)
  ultimately have "set xs = set zs"
    using Cons.prems(3) ys by (metis insert_ident list.simps(15))
  with Cons ys \<open>x = y\<close> show ?case by simp
qed

end

interpretation lin: strict_linear_order "(<) :: 'a::linorder \<Rightarrow> 'a \<Rightarrow> bool"
  by unfold_locales auto

end
