(* ===== verification/DataTypes.thy ===== *)
theory DataTypes
  imports Prelude
begin

text \<open>
  The identifiers of \<^verbatim>\<open>data/data_types.h\<close> and \<^verbatim>\<open>data/data_messages.h\<close>: peers, messages,
  ranges of messages and positions in a list of messages. A \<^verbatim>\<open>PeerId\<close> is the 64-bit word it
  is in the code. \<^verbatim>\<open>MsgId\<close>, \<^verbatim>\<open>ChannelId\<close> and \<^verbatim>\<open>TimeId\<close> are 32-bit signed numbers that are
  only compared, and added where the sum stays in range; they are \<open>int\<close>.
\<close>

unbundle bit_operations_syntax

section \<open>Peers\<close>

type_synonym PeerId = "64 word"

definition PeerIdMask :: PeerId where "PeerIdMask = 0xFFFFFFFF"
definition PeerIdTypeMask :: PeerId where "PeerIdTypeMask = 0x300000000"
definition PeerIdUserShift :: PeerId where "PeerIdUserShift = 0x000000000"
definition PeerIdChatShift :: PeerId where "PeerIdChatShift = 0x100000000"
definition PeerIdChannelShift :: PeerId where "PeerIdChannelShift = 0x200000000"

definition peerIsUser :: "PeerId \<Rightarrow> bool" where
  "peerIsUser peer \<longleftrightarrow> peer AND PeerIdTypeMask = PeerIdUserShift"

definition peerIsChat :: "PeerId \<Rightarrow> bool" where
  "peerIsChat peer \<longleftrightarrow> peer AND PeerIdTypeMask = PeerIdChatShift"

definition peerIsChannel :: "PeerId \<Rightarrow> bool" where
  "peerIsChannel peer \<longleftrightarrow> peer AND PeerIdTypeMask = PeerIdChannelShift"

text \<open>\<^verbatim>\<open>uint64(uint32(id))\<close> keeps the 32 bits of a signed id and clears the upper half.\<close>

definition uint64_uint32 :: "int \<Rightarrow> PeerId" where
  "uint64_uint32 i = ucast (word_of_int i :: 32 word)"

definition peerFromUser :: "int \<Rightarrow> PeerId" where
  "peerFromUser user_id = PeerIdUserShift OR uint64_uint32 user_id"

definition peerFromChat :: "int \<Rightarrow> PeerId" where
  "peerFromChat chat_id = PeerIdChatShift OR uint64_uint32 chat_id"

definition peerFromChannel :: "int \<Rightarrow> PeerId" where
  "peerFromChannel channel_id = PeerIdChannelShift OR uint64_uint32 channel_id"

definition peerToBareInt :: "PeerId \<Rightarrow> int" where
  "peerToBareInt peer = sint (ucast (peer AND PeerIdMask) :: 32 word)"

definition peerToUser :: "PeerId \<Rightarrow> int" where
  "peerToUser peer = (if peerIsUser peer then peerToBareInt peer else 0)"

definition peerToChat :: "PeerId \<Rightarrow> int" where
  "peerToChat peer = (if peerIsChat peer then peerToBareInt peer else 0)"

definition NoChannel :: int where "NoChannel = 0"

definition peerToChannel :: "PeerId \<Rightarrow> int" where
  "peerToChannel peer = (if peerIsChannel peer then peerToBareInt peer else NoChannel)"

section \<open>Messages and ranges\<close>

type_synonym MsgId = int

definition StartClientMsgId :: MsgId where "StartClientMsgId = - 0x7FFFFFFF"
definition EndClientMsgId :: MsgId where "EndClientMsgId = - 0x40000000"
definition ServerMaxMsgId :: MsgId where "ServerMaxMsgId = 0x3FFFFFFF"

definition IsClientMsgId :: "MsgId \<Rightarrow> bool" where
  "IsClientMsgId mid \<longleftrightarrow> StartClientMsgId \<le> mid \<and> mid < EndClientMsgId"

definition IsServerMsgId :: "MsgId \<Rightarrow> bool" where
  "IsServerMsgId mid \<longleftrightarrow> 0 < mid \<and> mid < ServerMaxMsgId"

text \<open>\<^verbatim>\<open>MsgRange\<close> and \<^verbatim>\<open>MessagesRange\<close> differ only in what they bound.\<close>

record 'k range =
  range_from :: 'k
  range_till :: 'k

type_synonym MsgRange = "MsgId range"

section \<open>Ordered identifiers\<close>

datatype FullMsgId = FullMsgId (channel: int) (msg: MsgId)

definition FullMsgId_less :: "FullMsgId \<Rightarrow> FullMsgId \<Rightarrow> bool" where
  "FullMsgId_less a b =
     (if channel a < channel b then True
      else if channel b < channel a then False
      else msg a < msg b)"

definition FullMsgId_less_eq :: "FullMsgId \<Rightarrow> FullMsgId \<Rightarrow> bool" where
  "FullMsgId_less_eq a b \<longleftrightarrow> \<not> FullMsgId_less b a"

instantiation FullMsgId :: linorder
begin

definition less_FullMsgId :: "FullMsgId \<Rightarrow> FullMsgId \<Rightarrow> bool" where
  "less_FullMsgId a b = FullMsgId_less a b"

definition less_eq_FullMsgId :: "FullMsgId \<Rightarrow> FullMsgId \<Rightarrow> bool" where
  "less_eq_FullMsgId a b = FullMsgId_less_eq a b"

instance
  by standard
    (auto simp: less_FullMsgId_def less_eq_FullMsgId_def FullMsgId_less_def FullMsgId_less_eq_def
      FullMsgId.expand split: if_splits)

end

datatype MessagePosition = MessagePosition (date: int) (fullId: FullMsgId)

definition MessagePosition_valid :: "MessagePosition \<Rightarrow> bool" where
  "MessagePosition_valid p \<longleftrightarrow> msg (fullId p) \<noteq> 0"

definition MessagePosition_less :: "MessagePosition \<Rightarrow> MessagePosition \<Rightarrow> bool" where
  "MessagePosition_less a b =
     (if date a < date b then True
      else if date b < date a then False
      else FullMsgId_less (fullId a) (fullId b))"

definition MessagePosition_less_eq :: "MessagePosition \<Rightarrow> MessagePosition \<Rightarrow> bool" where
  "MessagePosition_less_eq a b \<longleftrightarrow> \<not> MessagePosition_less b a"

instantiation MessagePosition :: linorder
begin

definition less_MessagePosition :: "MessagePosition \<Rightarrow> MessagePosition \<Rightarrow> bool" where
  "less_MessagePosition a b = MessagePosition_less a b"

definition less_eq_MessagePosition :: "MessagePosition \<Rightarrow> MessagePosition \<Rightarrow> bool" where
  "less_eq_MessagePosition a b = MessagePosition_less_eq a b"

instance
proof
  fix a b c :: MessagePosition
  note defs = less_MessagePosition_def less_eq_MessagePosition_def MessagePosition_less_def
    MessagePosition_less_eq_def less_FullMsgId_def [symmetric]
  show "(a < b) = (a \<le> b \<and> \<not> b \<le> a)" by (auto simp: defs split: if_splits)
  show "a \<le> a" by (simp add: defs)
  show "a \<le> b \<Longrightarrow> b \<le> c \<Longrightarrow> a \<le> c" by (auto simp: defs split: if_splits)
  show "a \<le> b \<Longrightarrow> b \<le> a \<Longrightarrow> a = b"
    by (auto simp: defs MessagePosition.expand split: if_splits)
  show "a \<le> b \<or> b \<le> a" by (auto simp: defs)
qed

end

definition MinDate :: int where "MinDate = 0"
definition MaxDate :: int where "MaxDate = 0x7FFFFFFF"

definition MinMessagePosition :: MessagePosition where
  "MinMessagePosition = MessagePosition MinDate (FullMsgId NoChannel 1)"

definition MaxMessagePosition :: MessagePosition where
  "MaxMessagePosition = MessagePosition MaxDate (FullMsgId NoChannel (ServerMaxMsgId - 1))"

definition FullMessagesRange :: "MessagePosition range" where
  "FullMessagesRange = \<lparr>range_from = MinMessagePosition, range_till = MaxMessagePosition\<rparr>"

section \<open>Properties\<close>

lemma uint64_uint32_bits: "bit (uint64_uint32 i) n \<longleftrightarrow> n < 32 \<and> bit (word_of_int i :: 32 word) n"
  by (auto simp: uint64_uint32_def bit_simps dest: bit_imp_le_length)

lemma PeerIdMask_mask: "PeerIdMask = mask 32"
  by (simp add: PeerIdMask_def mask_eq_exp_minus_1)

lemma PeerIdTypeMask_shift: "PeerIdTypeMask = push_bit 32 3"
  by (simp add: PeerIdTypeMask_def)

lemma bit_PeerIdMask: "bit PeerIdMask n \<longleftrightarrow> n < 32"
  unfolding PeerIdMask_mask bit_mask_iff by auto

lemma bit_PeerIdTypeMask: "n < 32 \<Longrightarrow> \<not> bit PeerIdTypeMask n"
  unfolding PeerIdTypeMask_shift bit_push_bit_iff by simp

lemma bare_of_shifted:
  assumes "shift AND PeerIdMask = 0"
  shows "ucast ((shift OR uint64_uint32 i) AND PeerIdMask) = (word_of_int i :: 32 word)"
proof -
  have "(shift OR uint64_uint32 i) AND PeerIdMask = uint64_uint32 i AND PeerIdMask"
    by (simp add: assms bit.conj_disj_distrib2)
  also have "ucast (uint64_uint32 i AND PeerIdMask) = (word_of_int i :: 32 word)"
  proof (rule bit_word_eqI)
    fix n assume n: "n < LENGTH(32)"
    with bit_PeerIdMask [of n] show "bit (ucast (uint64_uint32 i AND PeerIdMask) :: 32 word) n = bit (word_of_int i :: 32 word) n"
      by (auto simp: bit_simps uint64_uint32_bits)
  qed
  finally show ?thesis .
qed

lemma type_of_shifted: "(shift OR uint64_uint32 i) AND PeerIdTypeMask = shift AND PeerIdTypeMask"
proof -
  have "uint64_uint32 i AND PeerIdTypeMask = 0"
    using bit_PeerIdTypeMask by (auto intro!: bit_word_eqI simp: bit_simps uint64_uint32_bits)
  then show ?thesis by (simp add: bit.conj_disj_distrib2)
qed

lemma peer_id_facts:
  assumes "- (2 ^ 31) \<le> i" and "i < 2 ^ 31"
  shows "peerToBareInt (peerFromUser i) = i" and "peerToBareInt (peerFromChat i) = i"
    and "peerToBareInt (peerFromChannel i) = i"
    and "peerIsUser (peerFromUser i)" and "\<not> peerIsChat (peerFromUser i)" and "\<not> peerIsChannel (peerFromUser i)"
    and "\<not> peerIsUser (peerFromChat i)" and "peerIsChat (peerFromChat i)" and "\<not> peerIsChannel (peerFromChat i)"
    and "\<not> peerIsUser (peerFromChannel i)" and "\<not> peerIsChat (peerFromChannel i)" and "peerIsChannel (peerFromChannel i)"
proof -
  have s: "sint (word_of_int i :: 32 word) = i"
    using assms by (simp add: sint_sbintrunc' signed_take_bit_int_eq_self)
  have m: "PeerIdUserShift AND PeerIdMask = 0" "PeerIdChatShift AND PeerIdMask = 0"
    "PeerIdChannelShift AND PeerIdMask = 0"
    by (simp_all add: PeerIdUserShift_def PeerIdChatShift_def PeerIdChannelShift_def PeerIdMask_def)
  show "peerToBareInt (peerFromUser i) = i" "peerToBareInt (peerFromChat i) = i"
    "peerToBareInt (peerFromChannel i) = i"
    by (simp_all add: peerToBareInt_def peerFromUser_def peerFromChat_def peerFromChannel_def
        bare_of_shifted [OF m(1)] bare_of_shifted [OF m(2)] bare_of_shifted [OF m(3)] s)
  show "peerIsUser (peerFromUser i)" "\<not> peerIsChat (peerFromUser i)" "\<not> peerIsChannel (peerFromUser i)"
    "\<not> peerIsUser (peerFromChat i)" "peerIsChat (peerFromChat i)" "\<not> peerIsChannel (peerFromChat i)"
    "\<not> peerIsUser (peerFromChannel i)" "\<not> peerIsChat (peerFromChannel i)" "peerIsChannel (peerFromChannel i)"
    by (simp_all add: peerIsUser_def peerIsChat_def peerIsChannel_def peerFromUser_def peerFromChat_def
        peerFromChannel_def type_of_shifted)
      (simp_all add: PeerIdTypeMask_def PeerIdUserShift_def PeerIdChatShift_def PeerIdChannelShift_def)
qed

text \<open>
  C35: a peer id keeps its kind and its bare id. For every 32-bit id, the peer made from a user,
  a chat or a channel is recognised as that kind and as no other, and gives the signed id back.
\<close>

theorem peer_id_roundtrip:
  assumes "- (2 ^ 31) \<le> i" and "i < 2 ^ 31"
  shows "peerToUser (peerFromUser i) = i \<and> peerToChat (peerFromChat i) = i
    \<and> peerToChannel (peerFromChannel i) = i
    \<and> peerIsUser (peerFromUser i) \<and> \<not> peerIsChat (peerFromUser i) \<and> \<not> peerIsChannel (peerFromUser i)
    \<and> \<not> peerIsUser (peerFromChat i) \<and> \<not> peerIsChannel (peerFromChat i)
    \<and> \<not> peerIsUser (peerFromChannel i) \<and> \<not> peerIsChat (peerFromChannel i)"
  using peer_id_facts [OF assms] by (simp add: peerToUser_def peerToChat_def peerToChannel_def)

theorem peer_id_roundtrip_witness:
  "peerToChannel (peerFromChannel (- 5)) = - 5"
  using peer_id_roundtrip [of "- 5"] by simp

end
