(* ===== verification/FlatSet.thy ===== *)
theory FlatSet
  imports Prelude
begin

text \<open>
  The sorted containers \<^verbatim>\<open>base::flat_multi_set\<close> and \<^verbatim>\<open>base::flat_set\<close>
  (\<^verbatim>\<open>base/flat_set.h\<close>). The state is the deque \<^verbatim>\<open>_data.elements\<close>, a list; the comparison
  object of the class is the first argument of every operation. An iterator is a
  position, and an operation that returns an iterator returns it beside the new deque.
  The copying and moving overloads of an operation have one definition.
\<close>

section \<open>\<^verbatim>\<open>flat_multi_set\<close>\<close>

definition flat_multi_set_make :: "('a \<Rightarrow> 'a \<Rightarrow> bool) \<Rightarrow> 'a list \<Rightarrow> 'a list" where
  "flat_multi_set_make lt xs = sort_by lt xs"

definition getLowerBound :: "('a \<Rightarrow> 'a \<Rightarrow> bool) \<Rightarrow> 'a \<Rightarrow> 'a list \<Rightarrow> nat" where
  "getLowerBound lt v xs = lower_bound lt xs v"

definition getUpperBound :: "('a \<Rightarrow> 'a \<Rightarrow> bool) \<Rightarrow> 'a \<Rightarrow> 'a list \<Rightarrow> nat" where
  "getUpperBound lt v xs = upper_bound lt xs v"

definition getEqualRange :: "('a \<Rightarrow> 'a \<Rightarrow> bool) \<Rightarrow> 'a \<Rightarrow> 'a list \<Rightarrow> nat \<times> nat" where
  "getEqualRange lt v xs = equal_range lt xs v"

definition flat_multi_set_insert :: "('a \<Rightarrow> 'a \<Rightarrow> bool) \<Rightarrow> 'a \<Rightarrow> 'a list \<Rightarrow> 'a list \<times> nat" where
  "flat_multi_set_insert lt v xs =
     (if xs = [] \<or> lt v (hd xs) then (v # xs, 0)
      else if \<not> lt v (last xs) then (xs @ [v], length xs)
      else let pos = getUpperBound lt v xs in (insert_at pos v xs, pos))"

definition flat_set_out_of_range :: "('a \<Rightarrow> 'a \<Rightarrow> bool) \<Rightarrow> 'a \<Rightarrow> 'a list \<Rightarrow> bool" where
  "flat_set_out_of_range lt v xs \<longleftrightarrow> xs = [] \<or> lt v (hd xs) \<or> lt (last xs) v"

definition flat_multi_set_removeOne ::
    "('a \<Rightarrow> 'a \<Rightarrow> bool) \<Rightarrow> 'a \<Rightarrow> 'a list \<Rightarrow> 'a list \<times> bool" where
  "flat_multi_set_removeOne lt v xs =
     (if flat_set_out_of_range lt v xs then (xs, False)
      else let pos = getLowerBound lt v xs in
        if lt v (xs ! pos) then (xs, False) else (erase_at pos xs, True))"

definition flat_multi_set_removeAll ::
    "('a \<Rightarrow> 'a \<Rightarrow> bool) \<Rightarrow> 'a \<Rightarrow> 'a list \<Rightarrow> 'a list \<times> nat" where
  "flat_multi_set_removeAll lt v xs =
     (if flat_set_out_of_range lt v xs then (xs, 0)
      else let (first, second) = getEqualRange lt v xs in
        if first = second then (xs, 0) else (erase_range first second xs, second - first))"

text \<open>Erasing at an iterator returns the iterator of the element that follows.\<close>

definition flat_set_erase :: "nat \<Rightarrow> 'a list \<Rightarrow> 'a list \<times> nat" where
  "flat_set_erase pos xs = (erase_at pos xs, pos)"

definition flat_set_erase_range :: "nat \<Rightarrow> nat \<Rightarrow> 'a list \<Rightarrow> 'a list \<times> nat" where
  "flat_set_erase_range from_pos till_pos xs = (erase_range from_pos till_pos xs, from_pos)"

definition flat_set_findFirst :: "('a \<Rightarrow> 'a \<Rightarrow> bool) \<Rightarrow> 'a \<Rightarrow> 'a list \<Rightarrow> nat" where
  "flat_set_findFirst lt v xs =
     (if flat_set_out_of_range lt v xs then length xs
      else let pos = getLowerBound lt v xs in
        if lt v (xs ! pos) then length xs else pos)"

definition flat_set_contains :: "('a \<Rightarrow> 'a \<Rightarrow> bool) \<Rightarrow> 'a \<Rightarrow> 'a list \<Rightarrow> bool" where
  "flat_set_contains lt v xs \<longleftrightarrow> flat_set_findFirst lt v xs \<noteq> length xs"

definition flat_multi_set_count :: "('a \<Rightarrow> 'a \<Rightarrow> bool) \<Rightarrow> 'a \<Rightarrow> 'a list \<Rightarrow> nat" where
  "flat_multi_set_count lt v xs =
     (if flat_set_out_of_range lt v xs then 0
      else let (first, second) = getEqualRange lt v xs in second - first)"

text \<open>
  The two loops of \<open>flat_multi_set::modify\<close>. Both compare against \<^verbatim>\<open>*which\<close>, the element
  at the fixed position \<open>w\<close>, while the changed element travels with the swaps.
\<close>

function flat_multi_set_modify_forward ::
    "('a \<Rightarrow> 'a \<Rightarrow> bool) \<Rightarrow> nat \<Rightarrow> nat \<Rightarrow> 'a list \<Rightarrow> 'a list" where
  "flat_multi_set_modify_forward lt w i xs =
     (if i < length xs then
        if lt (xs ! i) (xs ! w) then flat_multi_set_modify_forward lt w (Suc i) (swap_at i w xs)
        else xs
      else xs)"
  by pat_completeness auto
termination
  by (relation "measure (\<lambda>(lt, w, i, xs). length xs - i)") auto

fun flat_multi_set_modify_backward ::
    "('a \<Rightarrow> 'a \<Rightarrow> bool) \<Rightarrow> nat \<Rightarrow> nat \<Rightarrow> 'a list \<Rightarrow> 'a list" where
  "flat_multi_set_modify_backward lt w 0 xs = xs"
| "flat_multi_set_modify_backward lt w (Suc i) xs =
     (if lt (xs ! w) (xs ! i) then flat_multi_set_modify_backward lt w i (swap_at i w xs)
      else xs)"

definition flat_multi_set_modify ::
    "('a \<Rightarrow> 'a \<Rightarrow> bool) \<Rightarrow> nat \<Rightarrow> ('a \<Rightarrow> 'a \<times> 'r) \<Rightarrow> 'a list \<Rightarrow> 'a list \<times> 'r" where
  "flat_multi_set_modify lt w action xs =
     (let (changed, result) = action (xs ! w);
          forward = flat_multi_set_modify_forward lt w (w + 1) (xs[w := changed])
      in (flat_multi_set_modify_backward lt w w forward, result))"

definition flat_multi_set_merge :: "('a \<Rightarrow> 'a \<Rightarrow> bool) \<Rightarrow> 'a list \<Rightarrow> 'a list \<Rightarrow> 'a list" where
  "flat_multi_set_merge lt more xs = sort_by lt (xs @ more)"

section \<open>\<^verbatim>\<open>flat_set\<close>\<close>

definition flat_set_finalize :: "('a \<Rightarrow> 'a \<Rightarrow> bool) \<Rightarrow> 'a list \<Rightarrow> 'a list" where
  "flat_set_finalize lt xs = unique_by (\<lambda>a b. \<not> lt a b) xs"

definition flat_set_make :: "('a \<Rightarrow> 'a \<Rightarrow> bool) \<Rightarrow> 'a list \<Rightarrow> 'a list" where
  "flat_set_make lt xs = flat_set_finalize lt (flat_multi_set_make lt xs)"

definition flat_set_insert ::
    "('a \<Rightarrow> 'a \<Rightarrow> bool) \<Rightarrow> 'a \<Rightarrow> 'a list \<Rightarrow> 'a list \<times> nat \<times> bool" where
  "flat_set_insert lt v xs =
     (if xs = [] \<or> lt v (hd xs) then (v # xs, 0, True)
      else if lt (last xs) v then (xs @ [v], length xs, True)
      else let pos = getLowerBound lt v xs in
        if lt v (xs ! pos) then (insert_at pos v xs, pos, True) else (xs, pos, False))"

definition flat_set_remove :: "('a \<Rightarrow> 'a \<Rightarrow> bool) \<Rightarrow> 'a \<Rightarrow> 'a list \<Rightarrow> 'a list \<times> bool" where
  "flat_set_remove lt v xs = flat_multi_set_removeOne lt v xs"

definition flat_set_find :: "('a \<Rightarrow> 'a \<Rightarrow> bool) \<Rightarrow> 'a \<Rightarrow> 'a list \<Rightarrow> nat" where
  "flat_set_find lt v xs = flat_set_findFirst lt v xs"

text \<open>
  \<open>flat_set::modify\<close> also erases \<^verbatim>\<open>*which\<close> when a neighbour has become equivalent to it;
  the flag says that it returned early after that erasure.
\<close>

function flat_set_modify_forward ::
    "('a \<Rightarrow> 'a \<Rightarrow> bool) \<Rightarrow> nat \<Rightarrow> nat \<Rightarrow> 'a list \<Rightarrow> 'a list \<times> bool" where
  "flat_set_modify_forward lt w i xs =
     (if i < length xs then
        if lt (xs ! i) (xs ! w) then flat_set_modify_forward lt w (Suc i) (swap_at i w xs)
        else if \<not> lt (xs ! w) (xs ! i) then (fst (flat_set_erase w xs), True)
        else (xs, False)
      else (xs, False))"
  by pat_completeness auto
termination
  by (relation "measure (\<lambda>(lt, w, i, xs). length xs - i)") auto

fun flat_set_modify_backward ::
    "('a \<Rightarrow> 'a \<Rightarrow> bool) \<Rightarrow> nat \<Rightarrow> nat \<Rightarrow> 'a list \<Rightarrow> 'a list" where
  "flat_set_modify_backward lt w 0 xs = xs"
| "flat_set_modify_backward lt w (Suc i) xs =
     (if lt (xs ! w) (xs ! i) then flat_set_modify_backward lt w i (swap_at i w xs)
      else if \<not> lt (xs ! i) (xs ! w) then fst (flat_set_erase w xs)
      else xs)"

definition flat_set_modify ::
    "('a \<Rightarrow> 'a \<Rightarrow> bool) \<Rightarrow> nat \<Rightarrow> ('a \<Rightarrow> 'a) \<Rightarrow> 'a list \<Rightarrow> 'a list" where
  "flat_set_modify lt w action xs =
     (let (forward, erased) = flat_set_modify_forward lt w (w + 1) (xs[w := action (xs ! w)])
      in if erased then forward else flat_set_modify_backward lt w w forward)"

definition flat_set_merge :: "('a \<Rightarrow> 'a \<Rightarrow> bool) \<Rightarrow> 'a list \<Rightarrow> 'a list \<Rightarrow> 'a list" where
  "flat_set_merge lt more xs = flat_set_finalize lt (flat_multi_set_merge lt more xs)"

declare flat_multi_set_modify_forward.simps [simp del] flat_set_modify_forward.simps [simp del]

lemmas [flat_ops] = flat_multi_set_make_def getLowerBound_def getUpperBound_def getEqualRange_def
  flat_set_out_of_range_def flat_set_erase_def flat_set_erase_range_def flat_set_contains_def
  flat_set_find_def flat_set_remove_def

section \<open>What every operation does on a sorted deque\<close>

context strict_weak_order
begin

abbreviation (input) alike :: "'a \<Rightarrow> 'a \<Rightarrow> bool" where
  "alike x y \<equiv> \<not> lt x y \<and> \<not> lt y x"

abbreviation (input) weakly_sorted :: "'a list \<Rightarrow> bool" where
  "weakly_sorted xs \<equiv> sorted_wrt (\<lambda>a b. \<not> lt b a) xs"

lemma before_hd: "weakly_sorted xs \<Longrightarrow> xs \<noteq> [] \<Longrightarrow> lt v (hd xs) \<Longrightarrow> e \<in> set xs \<Longrightarrow> lt v e"
  by (cases xs) (auto intro: less_alike_right)

lemma after_last: "weakly_sorted xs \<Longrightarrow> xs \<noteq> [] \<Longrightarrow> lt (last xs) v \<Longrightarrow> e \<in> set xs \<Longrightarrow> lt e v"
  by (cases xs rule: rev_cases) (auto simp: sorted_wrt_append dest: split)

lemma lower_bound_before: "weakly_sorted xs \<Longrightarrow> xs \<noteq> [] \<Longrightarrow> lt v (hd xs) \<Longrightarrow> lower_bound lt xs v = 0"
  by (cases xs) (auto simp: lower_bound_def partition_point_def dest: asym)

lemma lower_bound_after:
  "weakly_sorted xs \<Longrightarrow> xs \<noteq> [] \<Longrightarrow> lt (last xs) v \<Longrightarrow> lower_bound lt xs v = length xs"
  by (simp add: lower_bound_def partition_point_def) (metis after_last takeWhile_eq_all_conv)

lemma lower_bound_inside: "xs \<noteq> [] \<Longrightarrow> \<not> lt (last xs) v \<Longrightarrow> lower_bound lt xs v < length xs"
proof (rule ccontr)
  assume ne: "xs \<noteq> []" and nl: "\<not> lt (last xs) v" and "\<not> lower_bound lt xs v < length xs"
  then have "length xs - 1 < lower_bound lt xs v" by (cases xs) auto
  then have "lt (xs ! (length xs - 1)) v"
    unfolding lower_bound_def by (rule partition_point_nth)
  with ne nl show False by (simp add: last_conv_nth)
qed

lemma lower_bound_alike:
  assumes "weakly_sorted xs"
  shows "lower_bound lt xs v < length xs \<and> \<not> lt v (xs ! lower_bound lt xs v)
    \<longleftrightarrow> (\<exists>e \<in> set xs. alike e v)"
proof
  assume "lower_bound lt xs v < length xs \<and> \<not> lt v (xs ! lower_bound lt xs v)"
  then show "\<exists>e \<in> set xs. alike e v"
    using partition_point_stop [of "\<lambda>e. lt e v" xs] nth_mem by (metis lower_bound_def)
next
  let ?p = "lower_bound lt xs v"
  assume "\<exists>e \<in> set xs. alike e v"
  then obtain e where e: "e \<in> set xs" "\<not> lt e v" "\<not> lt v e" by blast
  have "e \<in> set (drop ?p xs)"
    using e lower_bound_prefix by (metis Un_iff append_take_drop_id set_append)
  moreover from this have p: "?p < length xs" by (cases "?p < length xs") auto
  ultimately have "e = xs ! ?p \<or> e \<in> set (drop (Suc ?p) xs)"
    by (metis Cons_nth_drop_Suc set_ConsD)
  moreover have "weakly_sorted (xs ! ?p # drop (Suc ?p) xs)"
    using assms p by (metis Cons_nth_drop_Suc sorted_wrt_drop)
  ultimately have "\<not> lt e (xs ! ?p)" using irrefl by auto
  with e split p show "?p < length xs \<and> \<not> lt v (xs ! ?p)" by blast
qed

lemma insert_canonical:
  assumes "weakly_sorted xs"
  shows "flat_set_insert lt v xs =
    (let p = lower_bound lt xs v in
      if p < length xs \<and> \<not> lt v (xs ! p) then (xs, p, False) else (insert_at p v xs, p, True))"
proof -
  consider "xs = []" | "xs \<noteq> []" "lt v (hd xs)" | "xs \<noteq> []" "\<not> lt v (hd xs)" "lt (last xs) v"
    | "xs \<noteq> []" "\<not> lt v (hd xs)" "\<not> lt (last xs) v" by blast
  then show ?thesis
  proof cases
    case 1
    then show ?thesis by (simp add: flat_set_insert_def lower_bound_def partition_point_def)
  next
    case 2
    with lower_bound_before [OF assms 2] show ?thesis
      by (simp add: flat_set_insert_def hd_conv_nth [OF 2(1)])
  next
    case 3
    then show ?thesis using lower_bound_after [OF assms 3(1,3)] by (simp add: flat_set_insert_def)
  next
    case 4
    then show ?thesis using lower_bound_inside [OF 4(1,3)]
      by (simp add: flat_set_insert_def getLowerBound_def Let_def)
  qed
qed

lemma out_of_range_not_alike:
  "weakly_sorted xs \<Longrightarrow> flat_set_out_of_range lt v xs \<Longrightarrow> e \<in> set xs \<Longrightarrow> \<not> alike e v"
  unfolding flat_set_out_of_range_def by (metis before_hd after_last empty_iff list.set(1))

lemma find_canonical:
  assumes "weakly_sorted xs"
  shows "flat_set_findFirst lt v xs =
    (if \<exists>e \<in> set xs. alike e v then lower_bound lt xs v else length xs)"
proof (cases "flat_set_out_of_range lt v xs")
  case True
  then show ?thesis using out_of_range_not_alike [OF assms True] by (auto simp: flat_set_findFirst_def)
next
  case False
  then have "lower_bound lt xs v < length xs"
    by (auto simp: flat_set_out_of_range_def intro: lower_bound_inside)
  then show ?thesis using False lower_bound_alike [OF assms, of v]
    by (auto simp: flat_set_findFirst_def getLowerBound_def Let_def)
qed

lemma contains_iff: "weakly_sorted xs \<Longrightarrow> flat_set_contains lt v xs \<longleftrightarrow> (\<exists>e \<in> set xs. alike e v)"
  using lower_bound_alike [of xs v] by (auto simp: flat_set_contains_def find_canonical)

lemma remove_canonical:
  assumes "weakly_sorted xs"
  shows "flat_multi_set_removeOne lt v xs =
    (if \<exists>e \<in> set xs. alike e v then (erase_at (lower_bound lt xs v) xs, True) else (xs, False))"
proof (cases "flat_set_out_of_range lt v xs")
  case True
  then show ?thesis using out_of_range_not_alike [OF assms True]
    by (auto simp: flat_multi_set_removeOne_def)
next
  case False
  then have "lower_bound lt xs v < length xs"
    by (auto simp: flat_set_out_of_range_def intro: lower_bound_inside)
  then show ?thesis using False lower_bound_alike [OF assms, of v]
    by (auto simp: flat_multi_set_removeOne_def getLowerBound_def Let_def)
qed

lemma insert_sorted: "sorted_wrt lt xs \<Longrightarrow> sorted_wrt lt (fst (flat_set_insert lt v xs))"
  using sorted_insert_lower [of xs v] lower_bound_alike [OF sorted_weaken, of xs v]
  by (auto simp: insert_canonical [OF sorted_weaken] Let_def)

lemma insert_set:
  "weakly_sorted xs \<Longrightarrow> set (fst (flat_set_insert lt v xs)) =
    (if \<exists>e \<in> set xs. alike e v then set xs else insert v (set xs))"
  using lower_bound_alike [of xs v] by (auto simp: insert_canonical Let_def)

lemma insert_position:
  assumes "weakly_sorted xs" and "flat_set_insert lt v xs = (ys, pos, fresh)"
  shows "pos < length ys \<and> alike (ys ! pos) v \<and> (fresh \<longleftrightarrow> \<not> (\<exists>e \<in> set xs. alike e v))"
  using assms lower_bound_alike [of xs v] partition_point_stop [of "\<lambda>e. lt e v" xs]
  by (auto simp: insert_canonical Let_def nth_insert_at irrefl lower_bound_def less_Suc_eq_le
      split: if_splits)

lemma remove_sorted: "sorted_wrt lt xs \<Longrightarrow> sorted_wrt lt (fst (flat_multi_set_removeOne lt v xs))"
  by (simp add: remove_canonical [OF sorted_weaken] sorted_wrt_erase_at)

lemma remove_set:
  assumes "sorted_wrt lt xs"
  shows "set (fst (flat_multi_set_removeOne lt v xs)) = {e \<in> set xs. \<not> alike e v}"
proof (cases "\<exists>e \<in> set xs. alike e v")
  case True
  let ?p = "lower_bound lt xs v"
  have p: "?p < length xs" "alike (xs ! ?p) v"
    using lower_bound_alike [OF sorted_weaken [OF assms], of v] True
      partition_point_stop [of "\<lambda>e. lt e v" xs] by (auto simp: lower_bound_def)
  have xs: "xs = take ?p xs @ xs ! ?p # drop (Suc ?p) xs"
    using p(1) by (rule id_take_nth_drop)
  then have "sorted_wrt lt (xs ! ?p # drop (Suc ?p) xs)"
    using assms by (metis sorted_wrt_append)
  then have "\<forall>e \<in> set (drop (Suc ?p) xs). \<not> alike e v"
    using p(2) by (auto intro: less_alike_right dest: less_alike_left)
  moreover have "\<forall>e \<in> set (take ?p xs). \<not> alike e v" using lower_bound_prefix by blast
  moreover have "set xs = set (take ?p xs) \<union> insert (xs ! ?p) (set (drop (Suc ?p) xs))"
    using xs by (metis list.simps(15) set_append)
  ultimately have "set (take ?p xs) \<union> set (drop (Suc ?p) xs) = {e \<in> set xs. \<not> alike e v}"
    using p(2) by blast
  with True show ?thesis
    by (simp add: remove_canonical [OF sorted_weaken [OF assms]] erase_at_def erase_range_def)
next
  case False
  then show ?thesis by (auto simp: remove_canonical [OF sorted_weaken [OF assms]])
qed

lemma finalize_sorted: "weakly_sorted xs \<Longrightarrow> sorted_wrt lt (flat_set_finalize lt xs)"
  by (cases xs) (simp_all add: flat_set_finalize_def sorted_unique_from(1))

lemma finalize_subset: "set (flat_set_finalize lt xs) \<subseteq> set xs"
  by (cases xs) (auto simp: flat_set_finalize_def dest: subsetD [OF set_unique_from_subset])

lemma finalize_alike:
  "weakly_sorted xs \<Longrightarrow> e \<in> set xs \<Longrightarrow> \<exists>k \<in> set (flat_set_finalize lt xs). alike e k"
  by (cases xs) (use sorted_unique_from(3) in \<open>auto simp: flat_set_finalize_def\<close>)

lemma make_sorted [simp]: "sorted_wrt lt (flat_set_make lt xs)"
  by (simp add: flat_set_make_def flat_multi_set_make_def finalize_sorted sorted_sort_by)

lemma merge_sorted [simp]: "sorted_wrt lt (flat_set_merge lt more xs)"
  by (simp add: flat_set_merge_def flat_multi_set_merge_def finalize_sorted sorted_sort_by)

lemma modify_in_place:
  assumes "w < length xs" and "sorted_wrt lt (xs[w := action (xs ! w)])"
  shows "flat_set_modify lt w action xs = xs[w := action (xs ! w)]"
proof -
  let ?ys = "xs[w := action (xs ! w)]"
  have "flat_set_modify_forward lt w (w + 1) ?ys = (?ys, False)"
  proof (cases "w + 1 < length ?ys")
    case True
    with assms(2) have "lt (?ys ! w) (?ys ! (w + 1))" by (intro sorted_wrt_nth_less) auto
    with asym True show ?thesis by (subst flat_set_modify_forward.simps) auto
  next
    case False
    then show ?thesis by (subst flat_set_modify_forward.simps) simp
  qed
  moreover have "flat_set_modify_backward lt w w ?ys = ?ys"
  proof (cases w)
    case (Suc v)
    with assms have "lt (?ys ! v) (?ys ! w)" by (intro sorted_wrt_nth_less) auto
    with asym Suc show ?thesis by auto
  qed simp
  ultimately show ?thesis by (simp add: flat_set_modify_def Let_def)
qed

end

context strict_linear_order
begin

lemma alike_eq: "alike x y \<longleftrightarrow> x = y"
  using total irrefl by blast

lemma make_set [simp]: "set (flat_set_make lt xs) = set xs"
proof
  show "set (flat_set_make lt xs) \<subseteq> set xs"
    using finalize_subset [of "sort_by lt xs"]
    by (simp add: flat_set_make_def flat_multi_set_make_def)
  show "set xs \<subseteq> set (flat_set_make lt xs)"
    using finalize_alike [OF sorted_sort_by, of _ xs]
    by (auto simp: flat_set_make_def flat_multi_set_make_def alike_eq)
qed

lemma merge_set [simp]: "set (flat_set_merge lt more xs) = set xs \<union> set more"
proof
  show "set (flat_set_merge lt more xs) \<subseteq> set xs \<union> set more"
    using finalize_subset [of "sort_by lt (xs @ more)"]
    by (simp add: flat_set_merge_def flat_multi_set_merge_def)
  show "set xs \<union> set more \<subseteq> set (flat_set_merge lt more xs)"
    using finalize_alike [OF sorted_sort_by, of _ "xs @ more"]
    by (auto simp: flat_set_merge_def flat_multi_set_merge_def alike_eq)
qed

lemma contains_set: "sorted_wrt lt xs \<Longrightarrow> flat_set_contains lt v xs \<longleftrightarrow> v \<in> set xs"
  by (simp add: contains_iff [OF sorted_weaken] alike_eq)

lemma remove_set_eq:
  "sorted_wrt lt xs \<Longrightarrow> set (fst (flat_multi_set_removeOne lt v xs)) = set xs - {v}"
  by (auto simp: remove_set alike_eq)

lemma find_position:
  assumes "sorted_wrt lt xs" and "i < length xs"
  shows "flat_set_findFirst lt (xs ! i) xs = i"
proof -
  have "lower_bound lt xs (xs ! i) = i"
    unfolding lower_bound_def
    by (rule partition_point_eqI) (use assms irrefl in \<open>auto simp: sorted_wrt_iff_nth_less\<close>)
  moreover have "\<exists>e \<in> set xs. alike e (xs ! i)" using nth_mem [OF assms(2)] irrefl by blast
  ultimately show ?thesis by (simp add: find_canonical [OF sorted_weaken [OF assms(1)]])
qed

lemma find_end: "sorted_wrt lt xs \<Longrightarrow> v \<notin> set xs \<Longrightarrow> flat_set_findFirst lt v xs = length xs"
  by (auto simp: find_canonical [OF sorted_weaken] alike_eq)

end

context strict_linear_order
begin

lemma remove_find:
  assumes "sorted_wrt lt xs"
  shows "sorted_wrt lt (fst (flat_set_remove lt v xs))
    \<and> set (fst (flat_set_remove lt v xs)) = set xs - {v}
    \<and> (snd (flat_set_remove lt v xs) \<longleftrightarrow> v \<in> set xs)
    \<and> (v \<notin> set xs \<longrightarrow> flat_set_find lt v xs = length xs)
    \<and> (\<forall>i < length xs. flat_set_find lt (xs ! i) xs = i)"
proof -
  have "snd (flat_set_remove lt v xs) \<longleftrightarrow> v \<in> set xs"
    by (auto simp: flat_set_remove_def remove_canonical [OF sorted_weaken [OF assms]] alike_eq)
  then show ?thesis
    using remove_sorted [OF assms] remove_set_eq [OF assms] find_end [OF assms] find_position [OF assms]
    by (simp add: flat_set_remove_def flat_set_find_def)
qed

end

section \<open>The set interface\<close>

text \<open>
  What a client of \<^verbatim>\<open>flat_set\<close> relies on: the operations act on the set of the elements as the
  mathematical ones do, and keep the invariant of the deque. Every flat set over a linear
  order provides it.
\<close>

locale sorted_set_interface =
  fixes invariant :: "'a list \<Rightarrow> bool"
    and ins :: "'a \<Rightarrow> 'a list \<Rightarrow> 'a list"
    and del :: "'a \<Rightarrow> 'a list \<Rightarrow> 'a list"
    and has :: "'a \<Rightarrow> 'a list \<Rightarrow> bool"
    and join :: "'a list \<Rightarrow> 'a list \<Rightarrow> 'a list"
  assumes invariant_empty: "invariant []"
    and invariant_ins: "invariant xs \<Longrightarrow> invariant (ins v xs)"
    and invariant_del: "invariant xs \<Longrightarrow> invariant (del v xs)"
    and invariant_join: "invariant xs \<Longrightarrow> invariant (join more xs)"
    and set_ins: "invariant xs \<Longrightarrow> set (ins v xs) = insert v (set xs)"
    and set_del: "invariant xs \<Longrightarrow> set (del v xs) = set xs - {v}"
    and set_join: "invariant xs \<Longrightarrow> set (join more xs) = set xs \<union> set more"
    and has_iff: "invariant xs \<Longrightarrow> has v xs \<longleftrightarrow> v \<in> set xs"
begin

lemma has_after_ins: "invariant xs \<Longrightarrow> has u (ins v xs) \<longleftrightarrow> u = v \<or> has u xs"
  by (simp add: has_iff invariant_ins set_ins)

lemma has_after_del: "invariant xs \<Longrightarrow> has u (del v xs) \<longleftrightarrow> u \<noteq> v \<and> has u xs"
  by (auto simp: has_iff invariant_del set_del)

lemma fold_ins: "invariant xs \<Longrightarrow> invariant (fold ins vs xs) \<and> set (fold ins vs xs) = set xs \<union> set vs"
  by (induction vs arbitrary: xs) (auto simp: invariant_ins set_ins)

end

context strict_linear_order
begin

lemma insert_set_eq: "sorted_wrt lt xs \<Longrightarrow> set (fst (flat_set_insert lt v xs)) = insert v (set xs)"
  by (auto simp: insert_set [OF sorted_weaken] alike_eq)

end

sublocale strict_linear_order \<subseteq> flat: sorted_set_interface "sorted_wrt lt"
    "\<lambda>v xs. fst (flat_set_insert lt v xs)" "\<lambda>v xs. fst (flat_set_remove lt v xs)"
    "flat_set_contains lt" "flat_set_merge lt"
  by unfold_locales
    (simp_all add: insert_sorted insert_set_eq flat_set_remove_def remove_sorted remove_set_eq contains_set)

section \<open>Multisets: equal ranges\<close>

context strict_weak_order
begin

lemma bounds_ordered: "lower_bound lt xs v \<le> upper_bound lt xs v"
proof (rule ccontr)
  assume "\<not> ?thesis"
  then have l: "upper_bound lt xs v < lower_bound lt xs v" by simp
  then have u: "upper_bound lt xs v < length xs" using lower_bound_le [of lt xs v] by linarith
  from l have "lt (xs ! upper_bound lt xs v) v"
    unfolding lower_bound_def by (rule partition_point_nth)
  moreover have "lt v (xs ! upper_bound lt xs v)"
    using partition_point_stop [of "\<lambda>e. \<not> lt v e" xs] u by (simp add: upper_bound_def)
  ultimately show False using asym by blast
qed

lemma three_parts:
  assumes "weakly_sorted xs"
  shows "filter (\<lambda>e. alike e v) xs = drop (lower_bound lt xs v) (take (upper_bound lt xs v) xs)"
    and "filter (\<lambda>e. \<not> alike e v) xs = erase_range (lower_bound lt xs v) (upper_bound lt xs v) xs"
proof -
  let ?l = "lower_bound lt xs v" and ?u = "upper_bound lt xs v"
  define A where "A = take ?l xs"
  define B where "B = drop ?l (take ?u xs)"
  define C where "C = drop ?u xs"
  have xs: "xs = A @ B @ C"
    unfolding A_def B_def C_def using bounds_ordered [of xs v]
    by (metis append_assoc append_take_drop_id min.absorb1 take_take)
  have A: "\<forall>e \<in> set A. lt e v" unfolding A_def using lower_bound_prefix by blast
  have C: "\<forall>e \<in> set C. lt v e" unfolding C_def using upper_bound_suffix [OF assms] by blast
  have "\<forall>e \<in> set B. \<not> lt v e" unfolding B_def using upper_bound_prefix in_set_dropD by fast
  moreover have "\<forall>e \<in> set B. \<not> lt e v"
  proof
    fix e assume "e \<in> set B"
    then have "e \<in> set (drop ?l xs)" by (simp add: B_def drop_take) (meson in_set_takeD)
    then show "\<not> lt e v" using lower_bound_suffix [OF assms] by blast
  qed
  ultimately have B: "\<forall>e \<in> set B. alike e v" by blast
  have "filter (\<lambda>e. alike e v) A = []" "filter (\<lambda>e. alike e v) C = []"
    "filter (\<lambda>e. \<not> alike e v) B = []"
    using A B C by (auto simp: filter_empty_conv)
  moreover have "filter (\<lambda>e. alike e v) B = B" "filter (\<lambda>e. \<not> alike e v) A = A"
    "filter (\<lambda>e. \<not> alike e v) C = C"
    using A B C by (auto intro: filter_True)
  ultimately have "filter (\<lambda>e. alike e v) (A @ B @ C) = B"
    and "filter (\<lambda>e. \<not> alike e v) (A @ B @ C) = A @ C"
    by (simp_all only: filter_append append_Nil append_Nil2)
  then show "filter (\<lambda>e. alike e v) xs = B"
    and "filter (\<lambda>e. \<not> alike e v) xs = erase_range ?l ?u xs"
    unfolding xs [symmetric] by (simp_all add: A_def C_def erase_range_def)
qed

lemma count_alike:
  assumes "weakly_sorted xs"
  shows "flat_multi_set_count lt v xs = length (filter (\<lambda>e. alike e v) xs)"
proof (cases "flat_set_out_of_range lt v xs")
  case True
  then have "filter (\<lambda>e. alike e v) xs = []"
    using out_of_range_not_alike [OF assms True] by (auto simp: filter_empty_conv)
  with True show ?thesis by (simp only: flat_multi_set_count_def if_True list.size)
next
  case False
  have "length (filter (\<lambda>e. alike e v) xs) = upper_bound lt xs v - lower_bound lt xs v"
    by (simp only: three_parts [OF assms]) simp
  with False show ?thesis
    by (simp add: flat_multi_set_count_def getEqualRange_def equal_range_def)
qed

lemma removeAll_alike:
  assumes "weakly_sorted xs"
  shows "flat_multi_set_removeAll lt v xs =
    (filter (\<lambda>e. \<not> alike e v) xs, length (filter (\<lambda>e. alike e v) xs))"
proof (cases "flat_set_out_of_range lt v xs")
  case True
  then have "filter (\<lambda>e. alike e v) xs = []" "filter (\<lambda>e. \<not> alike e v) xs = xs"
    using out_of_range_not_alike [OF assms True] by (auto simp: filter_empty_conv intro: filter_True)
  with True show ?thesis by (simp only: flat_multi_set_removeAll_def if_True list.size)
next
  case False
  have "length (filter (\<lambda>e. alike e v) xs) = upper_bound lt xs v - lower_bound lt xs v"
    by (simp only: three_parts [OF assms]) simp
  moreover have "erase_range n n xs = xs" for n by (simp add: erase_range_def)
  ultimately show ?thesis using False bounds_ordered [of xs v]
    by (simp only: three_parts [OF assms])
      (auto simp: flat_multi_set_removeAll_def getEqualRange_def equal_range_def Let_def)
qed

lemma multi_insert:
  assumes "weakly_sorted xs"
  shows "fst (flat_multi_set_insert lt v xs) = insert_at (upper_bound lt xs v) v xs"
proof -
  consider "xs = []" | "xs \<noteq> []" "lt v (hd xs)" | "xs \<noteq> []" "\<not> lt v (hd xs)" "\<not> lt v (last xs)"
    | "xs \<noteq> []" "\<not> lt v (hd xs)" "lt v (last xs)" by blast
  then show ?thesis
  proof cases
    case 1
    then show ?thesis
      by (simp add: flat_multi_set_insert_def upper_bound_def partition_point_def)
  next
    case 2
    then have "upper_bound lt xs v = 0"
      by (cases xs) (simp_all add: upper_bound_def partition_point_def)
    with 2 show ?thesis by (simp add: flat_multi_set_insert_def)
  next
    case 3
    have "upper_bound lt xs v = length xs"
    proof (rule ccontr)
      assume "upper_bound lt xs v \<noteq> length xs"
      then have "drop (upper_bound lt xs v) xs \<noteq> []"
        by (metis upper_bound_le drop_eq_Nil le_antisym)
      then have "last xs \<in> set (drop (upper_bound lt xs v) xs)" by (metis last_drop last_in_set
            drop_eq_Nil not_le)
      then show False using upper_bound_suffix [OF assms] 3(3) by blast
    qed
    with 3 show ?thesis by (simp add: flat_multi_set_insert_def)
  next
    case 4
    then show ?thesis by (simp add: flat_multi_set_insert_def getUpperBound_def Let_def)
  qed
qed

lemma multi_insert_sorted:
  assumes "weakly_sorted xs"
  shows "weakly_sorted (fst (flat_multi_set_insert lt v xs))"
proof -
  let ?u = "upper_bound lt xs v"
  have "weakly_sorted (take ?u xs @ drop ?u xs)" using assms by simp
  then show ?thesis
    unfolding multi_insert [OF assms] insert_at_def sorted_wrt_append
    using upper_bound_prefix upper_bound_suffix [OF assms] asym by fastforce
qed

end

section \<open>Properties\<close>

text \<open>
  Inserting into a \<^verbatim>\<open>flat_set\<close> keeps it strictly sorted, reports a fresh element exactly
  when nothing equivalent was there, returns an iterator to an element equivalent to the
  value, and changes the contents by at most that value. It holds on all three paths
  (front, back, binary search) and for every strict weak order.
\<close>

theorem flat_set_insert_correct:
  assumes "strict_weak_order lt" and "sorted_wrt lt xs"
    and "flat_set_insert lt v xs = (ys, pos, fresh)"
  shows "sorted_wrt lt ys \<and> pos < length ys \<and> \<not> lt (ys ! pos) v \<and> \<not> lt v (ys ! pos)
    \<and> (fresh \<longleftrightarrow> (\<forall>e \<in> set xs. lt e v \<or> lt v e))
    \<and> set ys = (if fresh then insert v (set xs) else set xs)"
proof -
  note weak = strict_weak_order.sorted_weaken [OF assms(1,2)]
  have "sorted_wrt lt ys"
    using strict_weak_order.insert_sorted [OF assms(1,2), of v] assms(3) by simp
  moreover have "set ys = (if \<exists>e \<in> set xs. \<not> lt e v \<and> \<not> lt v e then set xs else insert v (set xs))"
    using strict_weak_order.insert_set [OF assms(1) weak, of v] assms(3) by simp
  ultimately show ?thesis
    using strict_weak_order.insert_position [OF assms(1) weak assms(3)] by auto
qed

theorem flat_set_insert_correct_witness:
  "sorted_wrt (<) [2, 4, 5, 7 :: int] \<and> flat_set_insert (<) 5 [2, 4, 7 :: int] = ([2, 4, 5, 7], 2, True)"
proof -
  have i: "flat_set_insert (<) 5 [2, 4, 7 :: int] = ([2, 4, 5, 7], 2, True)"
    by (simp add: flat_set_insert_def getLowerBound_def std_ops)
  from flat_set_insert_correct [OF lin.strict_weak_order_axioms _ i] i show ?thesis by simp
qed

text \<open>
  On a \<^verbatim>\<open>flat_multi_set\<close>, \<open>insert\<close> keeps the order, \<open>count\<close> is the number of the elements
  equivalent to the value, and \<open>removeAll\<close> removes exactly those and returns how many they
  were; the early exits on the first and the last element change nothing of that.
\<close>

theorem flat_multi_set_count_removeAll:
  assumes "strict_weak_order lt" and "sorted_wrt (\<lambda>a b. \<not> lt b a) xs"
  shows "flat_multi_set_count lt v xs = length (filter (\<lambda>e. \<not> lt e v \<and> \<not> lt v e) xs)
    \<and> flat_multi_set_removeAll lt v xs =
        (filter (\<lambda>e. \<not> (\<not> lt e v \<and> \<not> lt v e)) xs, flat_multi_set_count lt v xs)
    \<and> sorted_wrt (\<lambda>a b. \<not> lt b a) (fst (flat_multi_set_insert lt v xs))"
  unfolding strict_weak_order.count_alike [OF assms] strict_weak_order.removeAll_alike [OF assms]
  by (intro conjI refl strict_weak_order.multi_insert_sorted [OF assms])

theorem flat_multi_set_count_removeAll_witness:
  "flat_multi_set_removeAll (<) 4 [2, 4, 4, 7 :: int] = ([2, 7], 2)"
  using flat_multi_set_count_removeAll [OF lin.strict_weak_order_axioms, of "[2, 4, 4, 7 :: int]" 4]
  by simp

text \<open>
  Removing a value from a \<^verbatim>\<open>flat_set\<close> over a linear order deletes it and nothing else,
  says whether it was there, and keeps the order; and \<open>find\<close> returns the position of an
  element that is there and \<^verbatim>\<open>end()\<close> otherwise.
\<close>

theorem flat_set_remove_find_correct:
  assumes "strict_linear_order lt" and "sorted_wrt lt xs"
  shows "sorted_wrt lt (fst (flat_set_remove lt v xs))
    \<and> set (fst (flat_set_remove lt v xs)) = set xs - {v}
    \<and> (snd (flat_set_remove lt v xs) \<longleftrightarrow> v \<in> set xs)
    \<and> (v \<notin> set xs \<longrightarrow> flat_set_find lt v xs = length xs)
    \<and> (\<forall>i < length xs. flat_set_find lt (xs ! i) xs = i)"
  using assms(2) strict_linear_order.remove_find [OF assms(1)] by blast

theorem flat_set_remove_find_correct_witness:
  "sorted_wrt (<) [2, 4, 7 :: int] \<and> set (fst (flat_set_remove (<) 4 [2, 4, 7 :: int])) = {2, 7}"
proof -
  have s: "sorted_wrt (<) [2, 4, 7 :: int]" by simp
  from flat_set_remove_find_correct [OF lin.strict_linear_order_axioms s, of 4, THEN conjunct2,
      THEN conjunct1] have "set (fst (flat_set_remove (<) 4 [2, 4, 7 :: int])) = {2, 4, 7} - {4}"
    by (simp only: list.set)
  moreover have "{2, 4, 7} - {4} = {2, 7 :: int}" by (simp add: insert_Diff_if)
  ultimately show ?thesis using s by (simp only: simp_thms)
qed

text \<open>
  A \<^verbatim>\<open>flat_set\<close> built from any range, and one merged with any range, is strictly sorted
  (so it holds no duplicate) and holds exactly the elements of the range, or of both.
\<close>

theorem flat_set_make_merge_correct:
  fixes xs more :: "'a::linorder list"
  shows "sorted_wrt (<) (flat_set_make (<) xs) \<and> set (flat_set_make (<) xs) = set xs
    \<and> sorted_wrt (<) (flat_set_merge (<) more xs)
    \<and> set (flat_set_merge (<) more xs) = set xs \<union> set more"
  by simp

text \<open>
  \<open>flat_set::modify\<close> changes the element in place, and nothing else, when the change
  leaves the set strictly sorted: neither loop moves or erases anything then. This is what
  every caller of the program relies on.
\<close>

theorem flat_set_modify_in_place:
  assumes "strict_weak_order lt" and "w < length xs" and "sorted_wrt lt (xs[w := f (xs ! w)])"
  shows "flat_set_modify lt w f xs = xs[w := f (xs ! w)]"
  using assms(2,3) by (rule strict_weak_order.modify_in_place [OF assms(1)])

theorem flat_set_modify_in_place_witness:
  "flat_set_modify (<) 1 (\<lambda>x. x + 2) [2, 4, 7 :: int] = [2, 6, 7]"
  using flat_set_modify_in_place [OF lin.strict_weak_order_axioms, of 1 "[2, 4, 7 :: int]"
      "\<lambda>x. x + 2"] by simp


end
