(* ===== verification/SparseIdsList.thy ===== *)
theory SparseIdsList
  imports DataTypes FlatSet
begin

text \<open>
  \<^verbatim>\<open>Storage::SparseIdsList\<close> (\<^verbatim>\<open>storage/storage_sparse_ids_list.cpp\<close>): the sorted list of the
  known stretches ("slices") of a long list of message ids. A slice says that between
  \<^verbatim>\<open>range.from\<close> and \<^verbatim>\<open>range.till\<close> exactly its messages exist.

  The slice and the algorithm that unites slices do not depend on the kind of the ids, so
  they are written over any linear order; \<^verbatim>\<open>Data::MessagesList\<close> has the same slices over
  positions. An \<^verbatim>\<open>Expects\<close> that fails is the result \<open>None\<close>. The event stream is modelled by
  the update that each operation fires, returned beside the state.
\<close>

section \<open>Slices\<close>

record 'k slice =
  messages :: "'k list"
  srange :: "'k range"

definition slice_less :: "'k::linorder slice \<Rightarrow> 'k slice \<Rightarrow> bool" where
  "slice_less a b \<longleftrightarrow> range_from (srange a) < range_from (srange b)"

definition Slice_merge :: "'k::linorder list \<Rightarrow> 'k range \<Rightarrow> 'k slice \<Rightarrow> 'k slice option" where
  "Slice_merge moreMessages moreNoSkipRange s =
     (if \<not> range_from moreNoSkipRange \<le> range_till (srange s) then None
      else if \<not> range_from (srange s) \<le> range_till moreNoSkipRange then None
      else Some (s\<lparr>messages := flat_set_merge (<) moreMessages (messages s),
        srange := \<lparr>range_from = min (range_from (srange s)) (range_from moreNoSkipRange),
          range_till = max (range_till (srange s)) (range_till moreNoSkipRange)\<rparr>\<rparr>))"

text \<open>\<^verbatim>\<open>_slices.modify(where, ...)\<close> with a change that may fail its contract.\<close>

definition slices_modify ::
    "nat \<Rightarrow> ('k::linorder slice \<Rightarrow> 'k slice option) \<Rightarrow> 'k slice list \<Rightarrow> 'k slice list option" where
  "slices_modify pos change slices =
     (case change (slices ! pos) of
        None \<Rightarrow> None
      | Some changed \<Rightarrow> Some (flat_set_modify slice_less pos (\<lambda>_. changed) slices))"

record 'k slice_update =
  upd_messages :: "'k list option"
  upd_range :: "'k range"
  upd_count :: "int option"

record AddResult =
  inslice :: int
  added :: int

text \<open>The loop over the slices between \<^verbatim>\<open>firstToErase\<close> and \<^verbatim>\<open>uniteTill\<close>: \<open>n\<close> of them are left.\<close>

fun unite_following :: "nat \<Rightarrow> nat \<Rightarrow> nat \<Rightarrow> 'k::linorder slice list \<Rightarrow> 'k slice list option" where
  "unite_following uniteFrom it 0 slices = Some slices"
| "unite_following uniteFrom it (Suc n) slices =
     (case slices_modify uniteFrom (Slice_merge (messages (slices ! it)) (srange (slices ! it))) slices of
        None \<Rightarrow> None
      | Some slices' \<Rightarrow> unite_following uniteFrom (Suc it) n slices')"

definition uniteAndAdd ::
    "nat \<Rightarrow> nat \<Rightarrow> 'k::linorder list \<Rightarrow> 'k range \<Rightarrow> 'k slice list \<Rightarrow>
      ('k slice list \<times> 'k slice \<times> AddResult) option" where
  "uniteAndAdd uniteFrom uniteTill msgs noSkipRange slices =
     (let was = int (length (messages (slices ! uniteFrom))) in
      case slices_modify uniteFrom (Slice_merge msgs noSkipRange) slices of
        None \<Rightarrow> None
      | Some merged \<Rightarrow>
          (let firstToErase = uniteFrom + 1 in
           case (if firstToErase \<noteq> uniteTill
                 then map_option (\<lambda>united. fst (flat_set_erase_range firstToErase uniteTill united))
                   (unite_following uniteFrom firstToErase (uniteTill - firstToErase) merged)
                 else Some merged) of
             None \<Rightarrow> None
           | Some result \<Rightarrow>
               (let count = int (length (messages (result ! uniteFrom)))
                in Some (result, result ! uniteFrom, \<lparr>inslice = count, added = count - was\<rparr>))))"

definition addRangeItemsAndCountNew ::
    "'k::linorder list \<Rightarrow> 'k range \<Rightarrow> 'k slice list \<Rightarrow>
      ('k slice list \<times> 'k slice \<times> AddResult) option" where
  "addRangeItemsAndCountNew msgs noSkipRange slices =
     (if \<not> range_from noSkipRange \<le> range_till noSkipRange then None
      else
        let uniteFrom = lower_bound (\<lambda>s v. range_till (srange s) < v) slices (range_from noSkipRange);
            uniteTill = upper_bound (\<lambda>v s. v < range_from (srange s)) slices (range_till noSkipRange)
        in if uniteFrom < uniteTill then uniteAndAdd uniteFrom uniteTill msgs noSkipRange slices
           else
             let sliceMessages = flat_set_make (<) msgs;
                 (slices', pos, _) = flat_set_insert slice_less
                   \<lparr>messages = sliceMessages, srange = noSkipRange\<rparr> slices;
                 count = int (length (messages (slices' ! pos)))
             in Some (slices', slices' ! pos, \<lparr>inslice = count, added = count\<rparr>))"

section \<open>The list\<close>

record SparseIdsList =
  ids_count :: "int option"
  ids_slices :: "MsgId slice list"

definition SparseIdsList_init :: SparseIdsList where
  "SparseIdsList_init = \<lparr>ids_count = None, ids_slices = []\<rparr>"

definition SparseIdsList_addRange ::
    "MsgId list \<Rightarrow> MsgRange \<Rightarrow> int option \<Rightarrow> bool \<Rightarrow> SparseIdsList \<Rightarrow>
      (SparseIdsList \<times> MsgId slice_update) option" where
  "SparseIdsList_addRange msgs noSkipRange count incrementCount st =
     (if count \<noteq> None \<and> incrementCount then None
      else case addRangeItemsAndCountNew msgs noSkipRange (ids_slices st) of
        None \<Rightarrow> None
      | Some (slices, changed, result) \<Rightarrow>
          (let count1 =
                 (if count \<noteq> None then count
                  else if incrementCount \<and> ids_count st \<noteq> None \<and> 0 < added result
                  then Some (the (ids_count st) + added result)
                  else ids_count st);
               count2 =
                 (if length slices = 1
                    \<and> srange (hd slices) = \<lparr>range_from = 0, range_till = ServerMaxMsgId\<rparr>
                  then Some (int (length (messages (hd slices)))) else count1);
               count3 = map_option (\<lambda>c. max c (inslice result)) count2
           in Some (\<lparr>ids_count = count3, ids_slices = slices\<rparr>,
                \<lparr>upd_messages = Some (messages changed), upd_range = srange changed,
                  upd_count = count3\<rparr>)))"

definition SparseIdsList_addNew ::
    "MsgId \<Rightarrow> SparseIdsList \<Rightarrow> (SparseIdsList \<times> MsgId slice_update) option" where
  "SparseIdsList_addNew messageId st =
     SparseIdsList_addRange [messageId]
       \<lparr>range_from = messageId, range_till = ServerMaxMsgId\<rparr> None True st"

definition SparseIdsList_addExisting ::
    "MsgId \<Rightarrow> MsgRange \<Rightarrow> SparseIdsList \<Rightarrow> (SparseIdsList \<times> MsgId slice_update) option" where
  "SparseIdsList_addExisting messageId noSkipRange st =
     SparseIdsList_addRange [messageId] noSkipRange None False st"

definition SparseIdsList_addSlice ::
    "MsgId list \<Rightarrow> MsgRange \<Rightarrow> int option \<Rightarrow> SparseIdsList \<Rightarrow>
      (SparseIdsList \<times> MsgId slice_update) option" where
  "SparseIdsList_addSlice messageIds noSkipRange count st =
     SparseIdsList_addRange messageIds noSkipRange count False st"

text \<open>The position of the first slice whose range ends at or after \<open>v\<close>, or \<^verbatim>\<open>end()\<close>.\<close>

definition slice_at :: "'k::linorder \<Rightarrow> 'k slice list \<Rightarrow> nat" where
  "slice_at v slices = lower_bound (\<lambda>s v. range_till (srange s) < v) slices v"

definition slices_removeOne :: "'k::linorder \<Rightarrow> 'k slice list \<Rightarrow> 'k slice list" where
  "slices_removeOne messageId slices =
     (let pos = slice_at messageId slices
      in if pos \<noteq> length slices \<and> range_from (srange (slices ! pos)) \<le> messageId
         then flat_set_modify slice_less pos
           (\<lambda>s. s\<lparr>messages := fst (flat_set_remove (<) messageId (messages s))\<rparr>) slices
         else slices)"

definition SparseIdsList_removeOne :: "MsgId \<Rightarrow> SparseIdsList \<Rightarrow> SparseIdsList" where
  "SparseIdsList_removeOne messageId st =
     \<lparr>ids_count = map_option (\<lambda>c. c - 1) (ids_count st),
      ids_slices = slices_removeOne messageId (ids_slices st)\<rparr>"

definition SparseIdsList_removeAll :: "SparseIdsList \<Rightarrow> SparseIdsList" where
  "SparseIdsList_removeAll st =
     \<lparr>ids_count = Some 0,
      ids_slices = fst (flat_set_insert slice_less
        \<lparr>messages = [], srange = \<lparr>range_from = 0, range_till = ServerMaxMsgId\<rparr>\<rparr> [])\<rparr>"

definition slice_cut_bottom :: "'k slice \<Rightarrow> 'k slice" where
  "slice_cut_bottom s =
     s\<lparr>srange := (srange s)\<lparr>range_till :=
       (if messages s = [] then range_from (srange s) else last (messages s))\<rparr>\<rparr>"

definition slices_invalidateBottom :: "'k::linorder \<Rightarrow> 'k slice list \<Rightarrow> 'k slice list" where
  "slices_invalidateBottom bottom slices =
     (if slices \<noteq> [] \<and> range_till (srange (last slices)) = bottom
      then flat_set_modify slice_less (length slices - 1) slice_cut_bottom slices
      else slices)"

definition SparseIdsList_invalidateBottom :: "SparseIdsList \<Rightarrow> SparseIdsList" where
  "SparseIdsList_invalidateBottom st =
     \<lparr>ids_count = None, ids_slices = slices_invalidateBottom ServerMaxMsgId (ids_slices st)\<rparr>"

section \<open>Queries\<close>

record 'k list_query =
  aroundId :: 'k
  limitBefore :: int
  limitAfter :: int

record 'k list_result =
  res_count :: "int option"
  res_skippedBefore :: "int option"
  res_skippedAfter :: "int option"
  res_messageIds :: "'k list"

definition query_slice :: "'k::linorder range \<Rightarrow> int option \<Rightarrow> 'k list_query \<Rightarrow> 'k slice \<Rightarrow> 'k list_result" where
  "query_slice full count query s =
     (let position = lower_bound (<) (messages s) (aroundId query);
          haveBefore = int position;
          haveEqualOrAfter = int (length (messages s)) - int position;
          before = min haveBefore (limitBefore query);
          equalOrAfter = min haveEqualOrAfter (limitAfter query + 1);
          ids = take (nat (before + equalOrAfter)) (drop (nat (int position - before)) (messages s));
          messageIds = flat_set_merge (<) ids [];
          skippedBefore1 =
            (if range_from (srange s) = range_from full then Some (haveBefore - before) else None);
          skippedAfter1 =
            (if range_till (srange s) = range_till full then Some (haveEqualOrAfter - equalOrAfter)
             else None);
          (skippedBefore2, skippedAfter2) =
            (case count of
               None \<Rightarrow> (skippedBefore1, skippedAfter1)
             | Some c \<Rightarrow>
                 (case (skippedBefore1, skippedAfter1) of
                    (None, Some after) \<Rightarrow> (Some (c - after - int (length messageIds)), Some after)
                  | (Some bef, None) \<Rightarrow> (Some bef, Some (c - bef - int (length messageIds)))
                  | both \<Rightarrow> both))
      in \<lparr>res_count = count, res_skippedBefore = skippedBefore2,
          res_skippedAfter = skippedAfter2, res_messageIds = messageIds\<rparr>)"

definition FullMsgRange :: MsgRange where
  "FullMsgRange = \<lparr>range_from = 0, range_till = ServerMaxMsgId\<rparr>"

definition SparseIdsList_queryFromSlice ::
    "MsgId list_query \<Rightarrow> MsgId slice \<Rightarrow> SparseIdsList \<Rightarrow> MsgId list_result" where
  "SparseIdsList_queryFromSlice query s st = query_slice FullMsgRange (ids_count st) query s"

text \<open>The producer puts at most one result and is done: \<open>None\<close> if it puts none.\<close>

definition SparseIdsList_query :: "MsgId list_query \<Rightarrow> SparseIdsList \<Rightarrow> MsgId list_result option" where
  "SparseIdsList_query query st =
     (let pos = (if aroundId query \<noteq> 0 then slice_at (aroundId query) (ids_slices st)
                 else length (ids_slices st))
      in if pos \<noteq> length (ids_slices st)
           \<and> range_from (srange (ids_slices st ! pos)) \<le> aroundId query
         then Some (SparseIdsList_queryFromSlice query (ids_slices st ! pos) st)
         else if ids_count st \<noteq> None
         then Some \<lparr>res_count = ids_count st, res_skippedBefore = None, res_skippedAfter = None,
           res_messageIds = []\<rparr>
         else None)"

section \<open>What a list of slices knows\<close>

definition range_set :: "'k::linorder range \<Rightarrow> 'k set" where
  "range_set r = {range_from r..range_till r}"

definition slice_ok :: "'k::linorder slice \<Rightarrow> bool" where
  "slice_ok s \<longleftrightarrow> range_from (srange s) \<le> range_till (srange s) \<and> sorted_wrt (<) (messages s)
     \<and> list_all (\<lambda>m. range_from (srange s) \<le> m \<and> m \<le> range_till (srange s)) (messages s)"

definition slice_before :: "'k::linorder slice \<Rightarrow> 'k slice \<Rightarrow> bool" where
  "slice_before a b \<longleftrightarrow> range_till (srange a) < range_from (srange b)"

definition slices_inv :: "'k::linorder slice list \<Rightarrow> bool" where
  "slices_inv slices \<longleftrightarrow> sorted_wrt slice_before slices \<and> list_all slice_ok slices"

definition slices_messages :: "'k slice list \<Rightarrow> 'k set" where
  "slices_messages slices = (\<Union>s \<in> set slices. set (messages s))"

definition slices_known :: "'k::linorder slice list \<Rightarrow> 'k set" where
  "slices_known slices = (\<Union>s \<in> set slices. range_set (srange s))"

named_theorems slice_defs \<open>the predicates on slices\<close>
lemmas [slice_defs] = slice_ok_def slice_before_def slices_inv_def list_all_iff

interpretation slice_order: strict_weak_order "slice_less :: 'k::linorder slice \<Rightarrow> _"
  by unfold_locales (auto simp: slice_less_def)

lemma slices_messages_simps [simp]:
  "slices_messages [] = {}" "slices_messages (s # xs) = set (messages s) \<union> slices_messages xs"
  "slices_messages (xs @ ys) = slices_messages xs \<union> slices_messages ys"
  by (auto simp: slices_messages_def)

lemma slices_known_simps [simp]:
  "slices_known [] = {}" "slices_known (s # xs) = range_set (srange s) \<union> slices_known xs"
  "slices_known (xs @ ys) = slices_known xs \<union> slices_known ys"
  by (auto simp: slices_known_def)

lemma before_trans: "slice_before a b \<Longrightarrow> slice_ok b \<Longrightarrow> slice_before b c \<Longrightarrow> slice_before a c"
  by (auto simp: slice_defs)

lemma inv_slice_less: "slices_inv xs \<Longrightarrow> sorted_wrt slice_less xs"
  unfolding slices_inv_def
  by (induction xs) (auto simp: slice_less_def slice_defs)

lemma slices_invI:
  assumes "slices_inv A" and "slice_ok s" and "slices_inv B"
    and "\<forall>a \<in> set A. slice_before a s" and "\<forall>b \<in> set B. slice_before s b"
  shows "slices_inv (A @ s # B)"
  using assms before_trans [of _ s]
  by (auto simp: slices_inv_def sorted_wrt_append list_all_iff)

lemma slices_inv_append: "slices_inv (A @ B) \<Longrightarrow> slices_inv A \<and> slices_inv B
    \<and> (\<forall>a \<in> set A. \<forall>b \<in> set B. slice_before a b)"
  by (auto simp: slices_inv_def sorted_wrt_append)

lemma slices_inv_Cons: "slices_inv (s # B) \<Longrightarrow> slice_ok s \<and> slices_inv B \<and> (\<forall>b \<in> set B. slice_before s b)"
  by (auto simp: slices_inv_def)

section \<open>Uniting slices\<close>

definition slice_join :: "'k::linorder list \<Rightarrow> 'k range \<Rightarrow> 'k slice \<Rightarrow> 'k slice" where
  "slice_join extra r s =
     s\<lparr>messages := flat_set_merge (<) extra (messages s),
       srange := \<lparr>range_from = min (range_from (srange s)) (range_from r),
         range_till = max (range_till (srange s)) (range_till r)\<rparr>\<rparr>"

lemma Slice_merge_join:
  "range_from r \<le> range_till (srange s) \<Longrightarrow> range_from (srange s) \<le> range_till r \<Longrightarrow>
    Slice_merge extra r s = Some (slice_join extra r s)"
  by (simp add: Slice_merge_def slice_join_def)

lemma slice_join_simps [simp]:
  "set (messages (slice_join extra r s)) = set (messages s) \<union> set extra"
  "range_from (srange (slice_join extra r s)) = min (range_from (srange s)) (range_from r)"
  "range_till (srange (slice_join extra r s)) = max (range_till (srange s)) (range_till r)"
  by (simp_all add: slice_join_def)

lemma slice_join_ok:
  "slice_ok s \<Longrightarrow> \<forall>m \<in> set extra. range_from r \<le> m \<and> m \<le> range_till r \<Longrightarrow> range_from r \<le> range_till r \<Longrightarrow>
    slice_ok (slice_join extra r s)"
  by (auto simp: slice_ok_def list_all_iff min_def max_def)
    (auto simp: slice_join_def)

lemma slice_join_known:
  "range_from r \<le> range_till (srange s) \<Longrightarrow> range_from (srange s) \<le> range_till r \<Longrightarrow>
    range_from (srange s) \<le> range_till (srange s) \<Longrightarrow> range_from r \<le> range_till r \<Longrightarrow>
    range_set (srange (slice_join extra r s)) = range_set (srange s) \<union> range_set r"
  by (auto simp: range_set_def min_def max_def split: if_splits)

lemma slices_modify_at:
  assumes "change s = Some s'" and "sorted_wrt slice_less (A @ s' # B)"
  shows "slices_modify (length A) change (A @ s # B) = Some (A @ s' # B)"
  using slice_order.modify_in_place [of "length A" "A @ s # B" "\<lambda>_. s'"] assms
  by (simp add: slices_modify_def)

lemma sorted_slice_less_same_from:
  "range_from (srange W') = range_from (srange W) \<Longrightarrow>
    sorted_wrt slice_less (A @ W' # C) = sorted_wrt slice_less (A @ W # C)"
  by (simp add: sorted_wrt_append slice_less_def)

lemma unite_following_join:
  assumes "\<forall>q \<in> set Q. range_from (srange q) \<le> range_till (srange W)
      \<and> range_from (srange W) \<le> range_till (srange q) \<and> range_from (srange W) \<le> range_from (srange q)"
    and "sorted_wrt slice_less (A @ W # P @ Q @ B)"
  shows "unite_following (length A) (length A + 1 + length P) (length Q) (A @ W # P @ Q @ B) =
    Some (A @ fold (\<lambda>q. slice_join (messages q) (srange q)) Q W # P @ Q @ B)"
  using assms
proof (induction Q arbitrary: W P)
  case Nil
  then show ?case by simp
next
  case (Cons q Q)
  let ?W = "slice_join (messages q) (srange q) W"
  have q: "range_from (srange q) \<le> range_till (srange W)" "range_from (srange W) \<le> range_till (srange q)"
    and same: "range_from (srange ?W) = range_from (srange W)"
    using Cons.prems(1) by (simp_all add: min_def)
  have it: "(A @ W # P @ (q # Q) @ B) ! (length A + 1 + length P) = q"
    by (simp add: nth_append)
  have sorted: "sorted_wrt slice_less (A @ ?W # P @ (q # Q) @ B)"
    using Cons.prems(2) sorted_slice_less_same_from [OF same] by blast
  have "unite_following (length A) (length A + 1 + length (P @ [q])) (length Q) (A @ ?W # (P @ [q]) @ Q @ B)
    = Some (A @ fold (\<lambda>q. slice_join (messages q) (srange q)) Q ?W # (P @ [q]) @ Q @ B)"
    by (rule Cons.IH) (use Cons.prems(1) sorted in \<open>auto simp: min_def le_max_iff_disj\<close>)
  moreover have "slices_modify (length A) (Slice_merge (messages q) (srange q)) (A @ W # P @ (q # Q) @ B)
    = Some (A @ ?W # P @ (q # Q) @ B)"
    by (rule slices_modify_at) (use Slice_merge_join [OF q] sorted in simp_all)
  ultimately show ?case using it by simp
qed

definition slices_united :: "'k::linorder slice list \<Rightarrow> 'k slice \<Rightarrow> 'k slice" where
  "slices_united Q W = fold (\<lambda>q. slice_join (messages q) (srange q)) Q W"

lemma slices_united_facts:
  assumes "slice_ok W" and "\<forall>q \<in> set Q. slice_ok q \<and> range_from (srange q) \<le> range_till (srange W)
      \<and> range_from (srange W) \<le> range_from (srange q)"
  shows "slice_ok (slices_united Q W)"
    and "range_from (srange (slices_united Q W)) = range_from (srange W)"
    and "range_till (srange (slices_united Q W)) \<in> insert (range_till (srange W)) ((\<lambda>q. range_till (srange q)) ` set Q)"
    and "range_till (srange W) \<le> range_till (srange (slices_united Q W))"
    and "set (messages (slices_united Q W)) = set (messages W) \<union> slices_messages Q"
    and "range_set (srange (slices_united Q W)) = range_set (srange W) \<union> slices_known Q"
proof -
  have "slice_ok (slices_united Q W)
    \<and> range_from (srange (slices_united Q W)) = range_from (srange W)
    \<and> range_till (srange (slices_united Q W)) \<in> insert (range_till (srange W)) ((\<lambda>q. range_till (srange q)) ` set Q)
    \<and> range_till (srange W) \<le> range_till (srange (slices_united Q W))
    \<and> set (messages (slices_united Q W)) = set (messages W) \<union> slices_messages Q
    \<and> range_set (srange (slices_united Q W)) = range_set (srange W) \<union> slices_known Q"
    using assms
  proof (induction Q arbitrary: W)
    case Nil
    then show ?case by (simp add: slices_united_def)
  next
    case (Cons q Q)
    let ?W = "slice_join (messages q) (srange q) W"
    have q: "slice_ok q" "range_from (srange q) \<le> range_till (srange W)"
      "range_from (srange W) \<le> range_from (srange q)" using Cons.prems(2) by simp_all
    have ok: "slice_ok ?W"
      by (rule slice_join_ok [OF Cons.prems(1)]) (use q(1) in \<open>auto simp: slice_defs\<close>)
    have "\<forall>p \<in> set Q. slice_ok p \<and> range_from (srange p) \<le> range_till (srange ?W)
      \<and> range_from (srange ?W) \<le> range_from (srange p)"
      using Cons.prems(2) by (auto simp: min_def le_max_iff_disj)
    note IH = Cons.IH [OF ok this]
    have known: "range_set (srange ?W) = range_set (srange W) \<union> range_set (srange q)"
      by (rule slice_join_known) (use q Cons.prems(1) in \<open>auto simp: slice_defs intro: order_trans\<close>)
    have "slices_united (q # Q) W = slices_united Q ?W" by (simp add: slices_united_def)
    with IH known q show ?case by (auto simp: min_def max_def split: if_splits)
  qed
  then show "slice_ok (slices_united Q W)"
    and "range_from (srange (slices_united Q W)) = range_from (srange W)"
    and "range_till (srange (slices_united Q W)) \<in> insert (range_till (srange W)) ((\<lambda>q. range_till (srange q)) ` set Q)"
    and "range_till (srange W) \<le> range_till (srange (slices_united Q W))"
    and "set (messages (slices_united Q W)) = set (messages W) \<union> slices_messages Q"
    and "range_set (srange (slices_united Q W)) = range_set (srange W) \<union> slices_known Q"
    by simp_all
qed

text \<open>A list of slices as \<open>addRangeItemsAndCountNew\<close> finds it, cut by the new range \<open>r\<close>.\<close>

definition cut_by :: "'k::linorder range \<Rightarrow> 'k slice list \<Rightarrow> 'k slice list \<Rightarrow> 'k slice list \<Rightarrow> bool" where
  "cut_by r A M B \<longleftrightarrow> slices_inv (A @ M @ B) \<and> range_from r \<le> range_till r
     \<and> (\<forall>a \<in> set A. range_till (srange a) < range_from r)
     \<and> (\<forall>m \<in> set M. range_from r \<le> range_till (srange m) \<and> range_from (srange m) \<le> range_till r)
     \<and> (\<forall>b \<in> set B. range_till r < range_from (srange b))"

lemma cut_first_join:
  assumes "cut_by r A (m # Q) B" and "\<forall>x \<in> set msgs. range_from r \<le> x \<and> x \<le> range_till r"
  defines "W \<equiv> slice_join msgs r m"
  shows "slice_ok W"
    and "\<forall>q \<in> set Q. slice_ok q \<and> range_from (srange q) \<le> range_till (srange W)
      \<and> range_from (srange W) \<le> range_from (srange q)"
    and "range_set (srange W) = range_set (srange m) \<union> range_set r"
    and "sorted_wrt slice_less (A @ W # Q @ B)"
    and "slices_modify (length A) (Slice_merge msgs r) (A @ m # Q @ B) = Some (A @ W # Q @ B)"
proof -
  have inv: "slices_inv (A @ m # Q @ B)" and r: "range_from r \<le> range_till r"
    and m: "range_from r \<le> range_till (srange m)" "range_from (srange m) \<le> range_till r"
    using assms(1) by (simp_all add: cut_by_def)
  have ok: "slice_ok m" using inv by (simp add: slices_inv_def)
  show "slice_ok W" unfolding W_def by (rule slice_join_ok [OF ok assms(2) r])
  show "\<forall>q \<in> set Q. slice_ok q \<and> range_from (srange q) \<le> range_till (srange W)
      \<and> range_from (srange W) \<le> range_from (srange q)"
  proof
    fix q assume q: "q \<in> set Q"
    have "slice_ok q" and "slice_before m q"
      using inv q by (auto simp: slices_inv_def sorted_wrt_append list_all_iff)
    moreover have "range_from (srange q) \<le> range_till r" using assms(1) q by (simp add: cut_by_def)
    ultimately show "slice_ok q \<and> range_from (srange q) \<le> range_till (srange W)
      \<and> range_from (srange W) \<le> range_from (srange q)"
      using ok by (auto simp: W_def slice_ok_def slice_before_def le_max_iff_disj min_le_iff_disj)
  qed
  show "range_set (srange W) = range_set (srange m) \<union> range_set r"
    unfolding W_def by (rule slice_join_known) (use m r ok in \<open>simp_all add: slice_defs\<close>)
  show s: "sorted_wrt slice_less (A @ W # Q @ B)"
  proof -
    have "\<forall>a \<in> set A. slice_less a W"
      using assms(1) by (auto simp: cut_by_def W_def slice_defs sorted_wrt_append slice_less_def
          intro: le_less_trans)
    moreover have "slice_less W x" if "slice_less m x" for x
      using that by (auto simp: slice_less_def W_def min_less_iff_disj)
    ultimately show ?thesis
      using inv_slice_less [OF inv] by (auto simp: sorted_wrt_append)
  qed
  show "slices_modify (length A) (Slice_merge msgs r) (A @ m # Q @ B) = Some (A @ W # Q @ B)"
    by (rule slices_modify_at [OF _ s]) (simp add: W_def Slice_merge_join m)
qed

lemma uniteAndAdd_cut:
  assumes "cut_by r A (m # Q) B" and "\<forall>x \<in> set msgs. range_from r \<le> x \<and> x \<le> range_till r"
  defines "W \<equiv> slices_united Q (slice_join msgs r m)"
  shows "uniteAndAdd (length A) (length A + 1 + length Q) msgs r (A @ m # Q @ B) =
    Some (A @ W # B, W, \<lparr>inslice = int (length (messages W)),
      added = int (length (messages W)) - int (length (messages m))\<rparr>)"
proof -
  let ?W = "slice_join msgs r m"
  note first = cut_first_join [OF assms(1,2)]
  have loop: "unite_following (length A) (Suc (length A)) (length Q) (A @ ?W # Q @ B)
    = Some (A @ W # Q @ B)"
  proof -
    have "\<forall>q \<in> set Q. range_from (srange q) \<le> range_till (srange ?W)
      \<and> range_from (srange ?W) \<le> range_till (srange q) \<and> range_from (srange ?W) \<le> range_from (srange q)"
      using first(2) unfolding slice_ok_def by (meson order_trans)
    from unite_following_join [OF this, of A "[]" B] first(4) show ?thesis
      by (simp add: W_def slices_united_def)
  qed
  have erase: "erase_range (Suc (length A)) (Suc (length A + length Q)) (A @ W # Q @ B) = A @ W # B"
    by (simp add: erase_range_def)
  show ?thesis
  proof (cases "Q = []")
    case True
    then have "W = ?W" by (simp add: W_def slices_united_def)
    with True first(5) show ?thesis by (simp add: uniteAndAdd_def nth_append Let_def)
  next
    case False
    with erase show ?thesis
      by (simp add: uniteAndAdd_def first(5) loop flat_set_erase_range_def nth_append Let_def)
  qed
qed

section \<open>Adding a range\<close>

lemma cut_exists:
  assumes "slices_inv xs" and "range_from r \<le> range_till r"
  defines "u \<equiv> lower_bound (\<lambda>s v. range_till (srange s) < v) xs (range_from r)"
    and "t \<equiv> upper_bound (\<lambda>v s. v < range_from (srange s)) xs (range_till r)"
  obtains A M B where "xs = A @ M @ B" and "cut_by r A M B" and "u = length A" and "t = length A + length M"
proof -
  have sep: "sorted_wrt slice_before xs" and ok: "\<And>x. x \<in> set xs \<Longrightarrow> slice_ok x"
    using assms(1) by (auto simp: slices_inv_def list_all_iff)
  have chain: "range_till (srange x) < range_from (srange y)" "range_from (srange y) \<le> range_till (srange y)"
    "range_from (srange x) \<le> range_till (srange x)"
    if "x \<in> set xs" "y \<in> set xs" "slice_before x y" for x y
    using that ok by (simp_all add: slice_before_def slice_ok_def)
  have mono: "sorted_wrt (\<lambda>x y. range_till (srange y) < range_from r \<longrightarrow> range_till (srange x) < range_from r) xs"
    by (rule sorted_wrt_mono_rel [OF _ sep]) (meson chain less_le_trans less_trans)
  have mono': "sorted_wrt (\<lambda>x y. \<not> range_till r < range_from (srange y) \<longrightarrow> \<not> range_till r < range_from (srange x)) xs"
    by (rule sorted_wrt_mono_rel [OF _ sep]) (meson chain less_le_trans less_trans le_less_trans)
  have u: "\<forall>a \<in> set (take u xs). range_till (srange a) < range_from r"
    "\<forall>a \<in> set (drop u xs). \<not> range_till (srange a) < range_from r"
    unfolding u_def lower_bound_def
    by (metis partition_point_take) (metis partition_point_drop [OF mono])
  have t: "\<forall>a \<in> set (take t xs). \<not> range_till r < range_from (srange a)"
    "\<forall>a \<in> set (drop t xs). range_till r < range_from (srange a)"
    unfolding t_def upper_bound_def
    by (metis partition_point_take) (metis partition_point_drop [OF mono'])
  have ul: "u \<le> length xs" and tl: "t \<le> length xs" by (simp_all add: u_def t_def)
  have ut: "u \<le> t"
  proof (rule ccontr)
    assume "\<not> u \<le> t"
    then have "xs ! t \<in> set (take u xs)" and "xs ! t \<in> set (drop t xs)"
      using ul by (auto simp: in_set_conv_nth intro: exI [of _ t] exI [of _ 0])
    then have "range_till (srange (xs ! t)) < range_from r" "range_till r < range_from (srange (xs ! t))"
      using u(1) t(2) by blast+
    moreover have "slice_ok (xs ! t)"
      using assms(1) \<open>xs ! t \<in> set (drop t xs)\<close> by (auto simp: slices_inv_def list_all_iff dest: in_set_dropD)
    ultimately show False using assms(2) by (auto simp: slice_ok_def)
  qed
  have xs: "xs = take u xs @ take (t - u) (drop u xs) @ drop t xs"
    using ut by (metis append_take_drop_id drop_drop le_add_diff_inverse2)
  have M: "m \<in> set (take t xs) \<and> m \<in> set (drop u xs)" if "m \<in> set (take (t - u) (drop u xs))" for m
    using that by (metis drop_take in_set_dropD in_set_takeD)
  show thesis
  proof
    show "xs = take u xs @ take (t - u) (drop u xs) @ drop t xs" by (rule xs)
    show "cut_by r (take u xs) (take (t - u) (drop u xs)) (drop t xs)"
      unfolding cut_by_def using u t M assms(1,2) xs by (metis linorder_not_le)
    show "u = length (take u xs)" using ul by simp
    show "t = length (take u xs) + length (take (t - u) (drop u xs))" using ul tl ut by simp
  qed
qed

lemma cut_inv:
  assumes "cut_by r A M B" and "slice_ok W"
    and "range_from (srange W) = range_from r \<or> (\<exists>m \<in> set M. range_from (srange W) = range_from (srange m))"
    and "range_till (srange W) = range_till r \<or> (\<exists>m \<in> set M. range_till (srange W) = range_till (srange m))"
  shows "slices_inv (A @ W # B)"
proof (rule slices_invI)
  have inv: "slices_inv (A @ M @ B)" using assms(1) by (simp add: cut_by_def)
  note parts = slices_inv_append [OF inv] slices_inv_append [of M B]
  show "slices_inv A" and "slices_inv B" and "slice_ok W" using parts assms(2) by simp_all
  have AM: "slice_before a m" if "a \<in> set A" "m \<in> set M" for a m using parts(1) that by simp
  have MB: "slice_before m b" if "m \<in> set M" "b \<in> set B" for m b using parts that by simp
  show "\<forall>a \<in> set A. slice_before a W"
    using assms(1,3) AM by (auto simp: cut_by_def slice_before_def)
  show "\<forall>b \<in> set B. slice_before W b"
    using assms(1,4) MB by (auto simp: cut_by_def slice_before_def)
qed

lemma addRange_insert:
  fixes msgs :: "'k::linorder list"
  assumes "cut_by r A [] B"
  defines "W \<equiv> \<lparr>messages = flat_set_make (<) msgs, srange = r\<rparr>"
  shows "flat_set_insert slice_less W (A @ B) = (A @ W # B, length A, True)"
proof -
  have inv: "slices_inv (A @ B)" using assms(1) by (simp add: cut_by_def)
  have A: "slice_less a W" if "a \<in> set A" for a
    using that assms(1) inv by (force simp: cut_by_def W_def slice_less_def slice_defs)
  have B: "slice_less W b" if "b \<in> set B" for b
    using that assms(1) by (force simp: cut_by_def W_def slice_less_def)
  have B0: "\<not> slice_less (B ! 0) W" if "B \<noteq> []"
    using B [of "B ! 0"] that slice_order.asym by auto
  have "lower_bound slice_less (A @ B) W = length A"
    unfolding lower_bound_def
    by (rule partition_point_eqI) (use A B0 in \<open>auto simp: nth_append\<close>)
  moreover have "slice_less W ((A @ B) ! length A)" if "length A < length (A @ B)"
    using that B by (auto simp: nth_append)
  ultimately show ?thesis
    using slice_order.insert_canonical [OF slice_order.sorted_weaken [OF inv_slice_less [OF inv]], of W]
    by (auto simp: Let_def insert_at_def)
qed

lemma addRangeItems_cut:
  assumes "cut_by r A M B" and "\<forall>x \<in> set msgs. range_from r \<le> x \<and> x \<le> range_till r"
    and "lower_bound (\<lambda>s v. range_till (srange s) < v) (A @ M @ B) (range_from r) = length A"
    and "upper_bound (\<lambda>v s. v < range_from (srange s)) (A @ M @ B) (range_till r) = length A + length M"
  obtains W where "addRangeItemsAndCountNew msgs r (A @ M @ B) =
      Some (A @ W # B, W, \<lparr>inslice = int (length (messages W)),
        added = int (length (messages W)) - (case M of [] \<Rightarrow> 0 | m # _ \<Rightarrow> int (length (messages m)))\<rparr>)"
    and "slices_inv (A @ W # B)" and "set (messages W) = slices_messages M \<union> set msgs"
    and "range_set (srange W) = slices_known M \<union> range_set r"
proof (cases M)
  case Nil
  let ?W = "\<lparr>messages = flat_set_make (<) msgs, srange = r\<rparr>"
  have r: "range_from r \<le> range_till r" using assms(1) by (simp add: cut_by_def)
  have ok: "slice_ok ?W" using assms(2) r by (simp add: slice_ok_def list_all_iff)
  show thesis
  proof
    show "addRangeItemsAndCountNew msgs r (A @ M @ B) =
      Some (A @ ?W # B, ?W, \<lparr>inslice = int (length (messages ?W)),
        added = int (length (messages ?W)) - (case M of [] \<Rightarrow> 0 | m # _ \<Rightarrow> int (length (messages m)))\<rparr>)"
      using addRange_insert [OF assms(1) [unfolded Nil], of msgs] assms(3,4) Nil r
      by (simp add: addRangeItemsAndCountNew_def Let_def)
    show "slices_inv (A @ ?W # B)" by (rule cut_inv [OF assms(1) ok]) simp_all
  qed (use Nil in simp_all)
next
  case (Cons m Q)
  let ?W = "slices_united Q (slice_join msgs r m)"
  have r: "range_from r \<le> range_till r" using assms(1) by (simp add: cut_by_def)
  note first = cut_first_join [OF assms(1) [unfolded Cons] assms(2)]
  note facts = slices_united_facts [OF first(1,2)]
  show thesis
  proof
    show "addRangeItemsAndCountNew msgs r (A @ M @ B) =
      Some (A @ ?W # B, ?W, \<lparr>inslice = int (length (messages ?W)),
        added = int (length (messages ?W)) - (case M of [] \<Rightarrow> 0 | m # _ \<Rightarrow> int (length (messages m)))\<rparr>)"
      using uniteAndAdd_cut [OF assms(1) [unfolded Cons] assms(2)] assms(3,4) Cons r
      by (simp add: addRangeItemsAndCountNew_def)
    show "slices_inv (A @ ?W # B)"
      by (rule cut_inv [OF assms(1) facts(1)])
        (use facts(2,3) Cons in \<open>auto simp: min_def max_def split: if_splits\<close>)
    show "set (messages ?W) = slices_messages M \<union> set msgs" using facts(5) Cons by auto
    show "range_set (srange ?W) = slices_known M \<union> range_set r" using facts(6) first(3) Cons by auto
  qed
qed

lemma addRangeItems_spec:
  assumes "slices_inv xs" and "range_from r \<le> range_till r"
    and "\<forall>x \<in> set msgs. range_from r \<le> x \<and> x \<le> range_till r"
  obtains ys W res where "addRangeItemsAndCountNew msgs r xs = Some (ys, W, res)"
    and "slices_inv ys" and "slices_messages ys = slices_messages xs \<union> set msgs"
    and "slices_known ys = slices_known xs \<union> range_set r"
    and "W \<in> set ys" and "set msgs \<subseteq> set (messages W)" and "range_set r \<subseteq> range_set (srange W)"
    and "inslice res = int (length (messages W))"
proof -
  from cut_exists [OF assms(1,2)] obtain A M B where xs: "xs = A @ M @ B" and cut: "cut_by r A M B"
    and u: "lower_bound (\<lambda>s v. range_till (srange s) < v) (A @ M @ B) (range_from r) = length A"
    and t: "upper_bound (\<lambda>v s. v < range_from (srange s)) (A @ M @ B) (range_till r) = length A + length M"
    by metis
  from addRangeItems_cut [OF cut assms(3) u t] obtain W
    where "addRangeItemsAndCountNew msgs r xs =
      Some (A @ W # B, W, \<lparr>inslice = int (length (messages W)),
        added = int (length (messages W)) - (case M of [] \<Rightarrow> 0 | m # _ \<Rightarrow> int (length (messages m)))\<rparr>)"
      "slices_inv (A @ W # B)" "set (messages W) = slices_messages M \<union> set msgs"
      "range_set (srange W) = slices_known M \<union> range_set r"
    unfolding xs by metis
  then show thesis using xs by (intro that) auto
qed

section \<open>The operations of the list\<close>

lemma addRange_spec:
  assumes "slices_inv (ids_slices st)" and "range_from r \<le> range_till r"
    and "\<forall>x \<in> set msgs. range_from r \<le> x \<and> x \<le> range_till r" and "count = None \<or> \<not> incrementCount"
  obtains st' upd W where "SparseIdsList_addRange msgs r count incrementCount st = Some (st', upd)"
    and "slices_inv (ids_slices st')"
    and "slices_messages (ids_slices st') = slices_messages (ids_slices st) \<union> set msgs"
    and "slices_known (ids_slices st') = slices_known (ids_slices st) \<union> range_set r"
    and "W \<in> set (ids_slices st')" and "upd_messages upd = Some (messages W)" and "upd_range upd = srange W"
    and "set msgs \<subseteq> set (messages W)" and "range_set r \<subseteq> range_set (srange W)"
    and "upd_count upd = ids_count st'"
    and "\<And>c. ids_count st' = Some c \<Longrightarrow> int (length (messages W)) \<le> c"
    and "\<And>s. ids_slices st' = [s] \<Longrightarrow> srange s = \<lparr>range_from = 0, range_till = ServerMaxMsgId\<rparr> \<Longrightarrow>
      ids_count st' = Some (int (length (messages s)))"
proof -
  from addRangeItems_spec [OF assms(1-3)] obtain ys W res
    where ys: "addRangeItemsAndCountNew msgs r (ids_slices st) = Some (ys, W, res)"
      "slices_inv ys" "slices_messages ys = slices_messages (ids_slices st) \<union> set msgs"
      "slices_known ys = slices_known (ids_slices st) \<union> range_set r"
      "W \<in> set ys" "set msgs \<subseteq> set (messages W)" "range_set r \<subseteq> range_set (srange W)"
      "inslice res = int (length (messages W))" by metis
  have pass: "\<not> (count \<noteq> None \<and> incrementCount)" using assms(4) by blast
  obtain st' upd where add: "SparseIdsList_addRange msgs r count incrementCount st = Some (st', upd)"
    unfolding SparseIdsList_addRange_def if_not_P [OF pass] ys(1) option.case prod.case Let_def by blast
  note add' = add [unfolded SparseIdsList_addRange_def if_not_P [OF pass] ys(1) option.case prod.case
      Let_def option.inject prod.inject]
  have st': "ids_slices st' = ys" "upd_messages upd = Some (messages W)" "upd_range upd = srange W"
    "upd_count upd = ids_count st'"
    using add' by auto
  have "int (length (messages W)) \<le> c" if "ids_count st' = Some c" for c
    using add' that ys(8) by (auto simp: map_option_case split: option.splits)
  moreover have "ids_count st' = Some (int (length (messages s)))"
    if "ids_slices st' = [s]" "srange s = \<lparr>range_from = 0, range_till = ServerMaxMsgId\<rparr>" for s
  proof -
    have "ys = [s]" and "inslice res = int (length (messages s))" using that st'(1) ys(5,8) by auto
    with add' that(2) show ?thesis by auto
  qed
  ultimately show thesis using add st' ys by (intro that [of st' upd W]) simp_all
qed

lemma slice_at_cases:
  assumes "slices_inv xs"
  shows "slice_at v xs \<noteq> length xs \<and> range_from (srange (xs ! slice_at v xs)) \<le> v \<longleftrightarrow> v \<in> slices_known xs"
    and "v \<in> slices_known xs \<Longrightarrow> slice_at v xs < length xs \<and> v \<in> range_set (srange (xs ! slice_at v xs))"
    and "s \<in> set xs \<Longrightarrow> v \<in> range_set (srange s) \<Longrightarrow> s = xs ! slice_at v xs"
proof -
  let ?r = "\<lparr>range_from = v, range_till = v\<rparr>"
  have "range_from ?r \<le> range_till ?r" by simp
  from cut_exists [OF assms this] obtain A M B where xs: "xs = A @ M @ B" and cut: "cut_by ?r A M B"
    and "lower_bound (\<lambda>s v. range_till (srange s) < v) xs (range_from ?r) = length A" by metis
  then have at: "slice_at v xs = length A" by (simp add: slice_at_def)
  have A: "v \<notin> range_set (srange a)" if "a \<in> set A" for a
    using cut that by (auto simp: cut_by_def range_set_def)
  have B: "v \<notin> range_set (srange b)" if "b \<in> set B" for b
    using cut that by (auto simp: cut_by_def range_set_def)
  have M: "v \<in> range_set (srange m)" if "m \<in> set M" for m
    using cut that by (auto simp: cut_by_def range_set_def)
  have one: "M = [] \<or> (\<exists>m. M = [m])"
  proof (cases M)
    case (Cons m Q)
    have "Q = []"
    proof (rule ccontr)
      assume "Q \<noteq> []"
      then obtain q where q: "q \<in> set Q" by (cases Q) auto
      have "slice_before m q"
        using cut q Cons by (auto simp: cut_by_def slices_inv_def sorted_wrt_append)
      with M [of m] M [of q] q Cons show False by (auto simp: slice_before_def range_set_def)
    qed
    with Cons show ?thesis by simp
  qed simp
  have known: "v \<in> slices_known xs \<longleftrightarrow> M \<noteq> []"
    using A B M one by (auto simp: xs slices_known_def)
  have B0: "\<not> range_from (srange (B ! 0)) \<le> v" if "B \<noteq> []"
  proof -
    have "B ! 0 \<in> set B" using that by simp
    then have "v < range_from (srange (B ! 0))" using cut by (simp add: cut_by_def)
    then show ?thesis by simp
  qed
  have hit: "M \<noteq> [] \<Longrightarrow> length A < length xs \<and> M = [xs ! length A]"
    using one by (auto simp: xs nth_append)
  have miss: "M = [] \<Longrightarrow> length A = length xs \<or> \<not> range_from (srange (xs ! length A)) \<le> v"
    using B0 by (cases B) (auto simp: xs nth_append)
  have inside: "v \<in> range_set (srange (xs ! length A))" if "M \<noteq> []"
    using M hit [OF that] by (metis list.set_intros(1))
  show "slice_at v xs \<noteq> length xs \<and> range_from (srange (xs ! slice_at v xs)) \<le> v \<longleftrightarrow> v \<in> slices_known xs"
    unfolding at known using hit miss inside by (auto simp: range_set_def)
  show "v \<in> slices_known xs \<Longrightarrow> slice_at v xs < length xs \<and> v \<in> range_set (srange (xs ! slice_at v xs))"
    unfolding at known using hit inside by blast
  show "s = xs ! slice_at v xs" if "s \<in> set xs" "v \<in> range_set (srange s)"
  proof -
    have "s \<in> set M" using that A B by (auto simp: xs)
    moreover from this have "M \<noteq> []" by auto
    then have "M = [xs ! length A]" using hit by blast
    ultimately show ?thesis unfolding at by (metis empty_iff empty_set set_ConsD)
  qed
qed

text \<open>Changing one slice without widening its range or adding messages.\<close>

lemma modify_narrow:
  assumes "slices_inv xs" and "w < length xs" and "slice_ok (f (xs ! w))"
    and "range_from (srange (f (xs ! w))) = range_from (srange (xs ! w))"
    and "range_till (srange (f (xs ! w))) \<le> range_till (srange (xs ! w))"
  shows "flat_set_modify slice_less w f xs = xs[w := f (xs ! w)]" and "slices_inv (xs[w := f (xs ! w)])"
proof -
  let ?s = "xs ! w" and ?A = "take w xs" and ?B = "drop (Suc w) xs"
  have xs: "xs = ?A @ ?s # ?B" and upd: "xs[w := f ?s] = ?A @ f ?s # ?B"
    using assms(2) by (simp_all add: id_take_nth_drop upd_conv_take_nth_drop)
  have inv: "slices_inv (?A @ ?s # ?B)" using assms(1) xs by simp
  show i: "slices_inv (xs[w := f ?s])"
    unfolding upd
  proof (rule slices_invI [OF _ assms(3)])
    show "slices_inv ?A" "slices_inv ?B"
      using slices_inv_append [OF inv] slices_inv_Cons by blast+
    show "\<forall>a \<in> set ?A. slice_before a (f ?s)"
      using slices_inv_append [OF inv] assms(4) by (simp add: slice_before_def)
    show "\<forall>b \<in> set ?B. slice_before (f ?s) b"
      using slices_inv_append [OF inv] slices_inv_Cons [of ?s ?B] assms(5)
      by (auto simp: slice_before_def intro: le_less_trans)
  qed
  show "flat_set_modify slice_less w f xs = xs[w := f ?s]"
    by (rule slice_order.modify_in_place [where action = f, OF assms(2) inv_slice_less [OF i]])
qed

section \<open>Windows of a slice\<close>

text \<open>The part of a sorted list that a query around \<open>a\<close> wants: the nearest ids on each side.\<close>

definition window :: "'k::linorder \<Rightarrow> int \<Rightarrow> int \<Rightarrow> 'k list \<Rightarrow> 'k list" where
  "window a before after ms =
     (let below = filter (\<lambda>m. m < a) ms; above = filter (\<lambda>m. a \<le> m) ms
      in drop (length below - nat before) below @ take (nat (after + 1)) above)"

lemma sorted_cut:
  assumes "sorted_wrt (<) (ms :: 'k::linorder list)"
  shows "take (lower_bound (<) ms a) ms = filter (\<lambda>m. m < a) ms"
    and "drop (lower_bound (<) ms a) ms = filter (\<lambda>m. a \<le> m) ms"
    and "lower_bound (<) ms a = length (filter (\<lambda>m. m < a) ms)"
proof -
  define A where "A = take (lower_bound (<) ms a) ms"
  define B where "B = drop (lower_bound (<) ms a) ms"
  have ms: "A @ B = ms" by (simp add: A_def B_def)
  have A: "\<forall>x \<in> set A. x < a" using lin.lower_bound_prefix by (auto simp: A_def)
  have B: "\<forall>x \<in> set B. a \<le> x"
    using lin.lower_bound_suffix [OF lin.sorted_weaken [OF assms]] by (auto simp: B_def not_less)
  have f: "filter (\<lambda>m. m < a) A = A" "filter (\<lambda>m. m < a) B = []"
    "filter (\<lambda>m. a \<le> m) A = []" "filter (\<lambda>m. a \<le> m) B = B"
    using A B by (auto simp: filter_empty_conv filter_id_conv not_less not_le)
  show t: "take (lower_bound (<) ms a) ms = filter (\<lambda>m. m < a) ms"
    unfolding A_def [symmetric] using f by (metis append_Nil2 filter_append ms)
  show "drop (lower_bound (<) ms a) ms = filter (\<lambda>m. a \<le> m) ms"
    unfolding B_def [symmetric] using f by (metis append_Nil filter_append ms)
  show "lower_bound (<) ms a = length (filter (\<lambda>m. m < a) ms)"
    by (simp flip: t)
qed

lemma window_take_drop:
  fixes ms :: "'k::linorder list" and a :: 'k
  assumes "sorted_wrt (<) ms" and "0 \<le> before" and "0 \<le> after"
  defines "p \<equiv> int (lower_bound (<) ms a)"
  shows "take (nat (min p before + min (int (length ms) - p) (after + 1)))
      (drop (nat (p - min p before)) ms) = window a before after ms"
proof -
  define A where "A = filter (\<lambda>m. m < a) ms"
  define B where "B = filter (\<lambda>m. a \<le> m) ms"
  note cut = sorted_cut [OF assms(1), of a]
  have ms: "ms = A @ B" using cut(1,2) by (metis A_def B_def append_take_drop_id)
  have p: "p = int (length A)" by (simp add: p_def cut(3) A_def)
  have "take (nat (min p before + min (int (length ms) - p) (after + 1)))
      (drop (nat (p - min p before)) ms)
    = drop (length A - nat before) A @ take (nat (min (int (length B)) (after + 1))) B"
    using assms(2,3) by (auto simp: ms p min_def nat_diff_distrib nat_add_distrib)
  also have "take (nat (min (int (length B)) (after + 1))) B = take (nat (after + 1)) B"
    by (auto simp: min_def)
  finally show ?thesis by (simp add: window_def A_def B_def Let_def)
qed

lemma window_sublist:
  assumes "sorted_wrt (<) (ms :: 'k::linorder list)"
  shows "sorted_wrt (<) (window a before after ms)" and "set (window a before after ms) \<subseteq> set ms"
proof -
  have "sorted_wrt (<) (filter (\<lambda>m. m < a) ms)" "sorted_wrt (<) (filter (\<lambda>m. a \<le> m) ms)"
    using assms by (auto intro: sorted_wrt_filter)
  then show "sorted_wrt (<) (window a before after ms)"
    by (auto simp: window_def Let_def sorted_wrt_append intro!: sorted_wrt_drop sorted_wrt_take
        dest!: in_set_dropD in_set_takeD)
  show "set (window a before after ms) \<subseteq> set ms"
    by (auto simp: window_def Let_def dest!: in_set_dropD in_set_takeD)
qed

lemma merge_sorted_id: "sorted_wrt (<) (ms :: 'k::linorder list) \<Longrightarrow> flat_set_merge (<) ms [] = ms"
  by (rule lin.sorted_set_unique) simp_all

lemma query_slice_window:
  assumes "sorted_wrt (<) (messages s)" and "0 \<le> limitBefore q" and "0 \<le> limitAfter q"
  shows "res_messageIds (query_slice full count q s) =
      window (aroundId q) (limitBefore q) (limitAfter q) (messages s)"
    and "res_count (query_slice full count q s) = count"
proof -
  note w = window_take_drop [OF assms, of "aroundId q"]
  note id = merge_sorted_id [OF window_sublist(1) [OF assms(1)]]
  show "res_messageIds (query_slice full count q s) =
      window (aroundId q) (limitBefore q) (limitAfter q) (messages s)"
    unfolding query_slice_def Let_def w id by (simp split: prod.split)
  show "res_count (query_slice full count q s) = count"
    by (simp add: query_slice_def Let_def split: prod.split)
qed

lemma query_window:
  assumes "sorted_wrt (<) (messages s)" and "0 \<le> limitBefore q" and "0 \<le> limitAfter q"
  shows "res_messageIds (SparseIdsList_queryFromSlice q s st) =
      window (aroundId q) (limitBefore q) (limitAfter q) (messages s)"
    and "res_count (SparseIdsList_queryFromSlice q s st) = ids_count st"
  using query_slice_window [OF assms] by (simp_all add: SparseIdsList_queryFromSlice_def)

section \<open>The abstract list and its steps\<close>

text \<open>
  The state changing operations as the callers use them. The contract of a caller: added ids
  lie in the range they come with. (\<^verbatim>\<open>Expects\<close> checks only that the range is not empty.)
\<close>

datatype list_op =
    AddNew MsgId
  | AddExisting MsgId MsgRange
  | AddSlice "MsgId list" MsgRange "int option"
  | RemoveOne MsgId
  | RemoveAll
  | InvalidateBottom

fun op_valid :: "list_op \<Rightarrow> bool" where
  "op_valid (AddNew m) \<longleftrightarrow> m \<le> ServerMaxMsgId"
| "op_valid (AddExisting m r) \<longleftrightarrow> range_from r \<le> m \<and> m \<le> range_till r"
| "op_valid (AddSlice ms r c) \<longleftrightarrow> range_from r \<le> range_till r
     \<and> list_all (\<lambda>m. range_from r \<le> m \<and> m \<le> range_till r) ms"
| "op_valid _ \<longleftrightarrow> True"

fun list_exec :: "list_op \<Rightarrow> SparseIdsList \<Rightarrow> SparseIdsList option" where
  "list_exec (AddNew m) st = map_option fst (SparseIdsList_addNew m st)"
| "list_exec (AddExisting m r) st = map_option fst (SparseIdsList_addExisting m r st)"
| "list_exec (AddSlice ms r c) st = map_option fst (SparseIdsList_addSlice ms r c st)"
| "list_exec (RemoveOne m) st = Some (SparseIdsList_removeOne m st)"
| "list_exec RemoveAll st = Some (SparseIdsList_removeAll st)"
| "list_exec InvalidateBottom st = Some (SparseIdsList_invalidateBottom st)"

inductive list_reachable :: "SparseIdsList \<Rightarrow> bool" where
  list_init: "list_reachable SparseIdsList_init"
| list_step: "list_reachable st \<Longrightarrow> op_valid op \<Longrightarrow> list_exec op st = Some st' \<Longrightarrow> list_reachable st'"

text \<open>
  The abstract state: the ids that are messages, and the ids for which the list knows
  whether they are.
\<close>

type_synonym knowledge = "MsgId set \<times> MsgId set"

fun abs_step :: "list_op \<Rightarrow> knowledge \<Rightarrow> knowledge \<Rightarrow> bool" where
  "abs_step (AddNew m) (M, K) (M', K') \<longleftrightarrow> M' = insert m M \<and> K' = K \<union> {m..ServerMaxMsgId}"
| "abs_step (AddExisting m r) (M, K) (M', K') \<longleftrightarrow> M' = insert m M \<and> K' = K \<union> range_set r"
| "abs_step (AddSlice ms r c) (M, K) (M', K') \<longleftrightarrow> M' = M \<union> set ms \<and> K' = K \<union> range_set r"
| "abs_step (RemoveOne m) (M, K) (M', K') \<longleftrightarrow> M' = M - {m} \<and> K' = K"
| "abs_step RemoveAll (M, K) (M', K') \<longleftrightarrow> M' = {} \<and> K' = {0..ServerMaxMsgId}"
| "abs_step InvalidateBottom (M, K) (M', K') \<longleftrightarrow> M' = M \<and> K' \<subseteq> K \<and> (\<forall>x \<in> K - K'. \<forall>m \<in> M. m < x)"

definition knowledge_of :: "SparseIdsList \<Rightarrow> knowledge" where
  "knowledge_of st = (slices_messages (ids_slices st), slices_known (ids_slices st))"

lemma slices_messages_update:
  "w < length xs \<Longrightarrow> slices_messages (xs[w := s]) =
    slices_messages (take w xs) \<union> set (messages s) \<union> slices_messages (drop (Suc w) xs)"
  by (auto simp: upd_conv_take_nth_drop)

lemma slices_known_update:
  "w < length xs \<Longrightarrow> slices_known (xs[w := s]) =
    slices_known (take w xs) \<union> range_set (srange s) \<union> slices_known (drop (Suc w) xs)"
  by (auto simp: upd_conv_take_nth_drop)

lemma slice_message_known: "slice_ok s \<Longrightarrow> m \<in> set (messages s) \<Longrightarrow> m \<in> range_set (srange s)"
  by (simp add: slice_ok_def range_set_def list_all_iff)

lemma messages_known: "slices_inv xs \<Longrightarrow> slices_messages xs \<subseteq> slices_known xs"
  by (auto simp: slices_messages_def slices_known_def slices_inv_def list_all_iff
      dest: slice_message_known)

lemma slices_inv_ok: "slices_inv xs \<Longrightarrow> w < length xs \<Longrightarrow> slice_ok (xs ! w)"
  by (simp add: slices_inv_def list_all_iff)

lemma slices_inv_around:
  assumes "slices_inv xs" and "w < length xs"
  shows "\<forall>a \<in> set (take w xs). slice_ok a \<and> slice_before a (xs ! w)"
    and "\<forall>b \<in> set (drop (Suc w) xs). slice_ok b \<and> slice_before (xs ! w) b"
proof -
  have "slices_inv (take w xs @ xs ! w # drop (Suc w) xs)"
    using assms by (simp add: id_take_nth_drop [symmetric])
  then show "\<forall>a \<in> set (take w xs). slice_ok a \<and> slice_before a (xs ! w)"
    and "\<forall>b \<in> set (drop (Suc w) xs). slice_ok b \<and> slice_before (xs ! w) b"
    by (simp_all add: slices_inv_def sorted_wrt_append list_all_iff)
qed

lemma slices_removeOne_spec:
  fixes xs :: "'k::linorder slice list"
  assumes inv: "slices_inv xs"
  shows "slices_inv (slices_removeOne m xs)"
    and "slices_messages (slices_removeOne m xs) = slices_messages xs - {m}"
    and "slices_known (slices_removeOne m xs) = slices_known xs"
proof -
  let ?w = "slice_at m xs"
  let ?f = "\<lambda>s :: 'k slice. s\<lparr>messages := fst (flat_set_remove (<) m (messages s))\<rparr>"
  note cases = slice_at_cases [where v = m, OF inv]
  have goal: "slices_inv (slices_removeOne m xs)
    \<and> slices_messages (slices_removeOne m xs) = slices_messages xs - {m}
    \<and> slices_known (slices_removeOne m xs) = slices_known xs"
  proof (cases "m \<in> slices_known xs")
    case False
    then have "slices_removeOne m xs = xs"
      using cases(1) by (auto simp: slices_removeOne_def Let_def)
    with False inv messages_known [OF inv] show ?thesis by auto
  next
    case True
    then have w: "?w < length xs" and mw: "m \<in> range_set (srange (xs ! ?w))"
      using cases(2) by blast+
    note ok = slices_inv_ok [OF inv w]
    have sorted: "sorted_wrt (<) (messages (xs ! ?w))" using ok by (simp add: slice_ok_def)
    have f: "set (messages (?f (xs ! ?w))) = set (messages (xs ! ?w)) - {m}"
      "sorted_wrt (<) (messages (?f (xs ! ?w)))"
      using lin.remove_find [OF sorted, of m] by simp_all
    have "slice_ok (?f (xs ! ?w))"
      unfolding slice_ok_def list_all_iff f(1) using ok f(2) by (simp add: slice_ok_def list_all_iff)
    note upd = modify_narrow [where f = ?f, OF inv w this, simplified]
    have res: "slices_removeOne m xs = xs[?w := ?f (xs ! ?w)]"
      using upd(1) cases(1) True by (simp add: slices_removeOne_def Let_def)
    have other: "m \<notin> slices_messages (take ?w xs) \<union> slices_messages (drop (Suc ?w) xs)"
      using slices_inv_around [OF inv w] mw
      by (force simp: slices_messages_def slice_ok_def slice_before_def range_set_def list_all_iff)
    have "slices_messages (xs[?w := xs ! ?w]) = slices_messages xs" by simp
    then have "slices_messages (xs[?w := ?f (xs ! ?w)]) = slices_messages xs - {m}"
      unfolding slices_messages_update [OF w] f(1) using other by blast
    moreover have "slices_known (xs[?w := ?f (xs ! ?w)]) = slices_known (xs[?w := xs ! ?w])"
      unfolding slices_known_update [OF w] by simp
    ultimately show ?thesis using res upd(2) by simp
  qed
  then show "slices_inv (slices_removeOne m xs)"
    and "slices_messages (slices_removeOne m xs) = slices_messages xs - {m}"
    and "slices_known (slices_removeOne m xs) = slices_known xs"
    by blast+
qed

lemma removeOne_spec:
  assumes inv: "slices_inv (ids_slices st)"
  shows "slices_inv (ids_slices (SparseIdsList_removeOne m st))"
    and "slices_messages (ids_slices (SparseIdsList_removeOne m st)) = slices_messages (ids_slices st) - {m}"
    and "slices_known (ids_slices (SparseIdsList_removeOne m st)) = slices_known (ids_slices st)"
  using slices_removeOne_spec [OF inv, of m] by (simp_all add: SparseIdsList_removeOne_def)

lemma removeAll_spec:
  "ids_slices (SparseIdsList_removeAll st) =
    [\<lparr>messages = [], srange = \<lparr>range_from = 0, range_till = ServerMaxMsgId\<rparr>\<rparr>]"
  "slices_inv (ids_slices (SparseIdsList_removeAll st))"
proof -
  show e: "ids_slices (SparseIdsList_removeAll st) =
    [\<lparr>messages = [], srange = \<lparr>range_from = 0, range_till = ServerMaxMsgId\<rparr>\<rparr>]"
    using slice_order.insert_canonical [of "[] :: MsgId slice list"]
    by (simp add: SparseIdsList_removeAll_def Let_def lower_bound_def insert_at_def)
  show "slices_inv (ids_slices (SparseIdsList_removeAll st))"
    by (simp add: e slice_defs ServerMaxMsgId_def)
qed

lemma cut_bottom_same [simp]:
  "messages (slice_cut_bottom s) = messages s"
  "range_from (srange (slice_cut_bottom s)) = range_from (srange s)"
  by (simp_all add: slice_cut_bottom_def)

lemma cut_bottom_facts:
  assumes "slice_ok s"
  shows "slice_ok (slice_cut_bottom s)" and "messages (slice_cut_bottom s) = messages s"
    and "range_from (srange (slice_cut_bottom s)) = range_from (srange s)"
    and "range_till (srange (slice_cut_bottom s)) \<le> range_till (srange s)"
    and "m \<in> set (messages s) \<Longrightarrow> m \<le> range_till (srange (slice_cut_bottom s))"
proof -
  have l: "\<forall>m \<in> set (messages s). m \<le> last (messages s)"
    using assms by (cases "messages s" rule: rev_cases)
      (auto simp: slice_ok_def sorted_wrt_append less_imp_le)
  show "m \<in> set (messages s) \<Longrightarrow> m \<le> range_till (srange (slice_cut_bottom s))"
    using l by (auto simp: slice_cut_bottom_def)
  show "slice_ok (slice_cut_bottom s)"
    using assms l by (auto simp: slice_cut_bottom_def slice_ok_def list_all_iff)
  show "range_till (srange (slice_cut_bottom s)) \<le> range_till (srange s)"
    using assms by (auto simp: slice_cut_bottom_def slice_ok_def list_all_iff)
qed (simp_all add: slice_cut_bottom_def)

lemma slices_invalidateBottom_spec:
  fixes xs :: "'k::linorder slice list" and top :: 'k
  assumes inv: "slices_inv xs"
  defines "ys \<equiv> slices_invalidateBottom top xs"
  shows "slices_inv ys" and "slices_messages ys = slices_messages xs"
    and "slices_known ys \<subseteq> slices_known xs"
    and "x \<in> slices_known xs - slices_known ys \<Longrightarrow> m \<in> slices_messages ys \<Longrightarrow> m < x"
proof -
  let ?w = "length xs - 1"
  have all: "slices_inv ys \<and> slices_messages ys = slices_messages xs
    \<and> slices_known ys \<subseteq> slices_known xs
    \<and> (\<forall>x \<in> slices_known xs - slices_known ys. \<forall>m \<in> slices_messages ys. m < x)"
  proof (cases "xs \<noteq> [] \<and> range_till (srange (last xs)) = top")
    case False
    then have "ys = xs" by (auto simp: ys_def slices_invalidateBottom_def)
    with inv show ?thesis by simp
  next
    case True
    then have w: "?w < length xs" by simp
    let ?s = "xs ! ?w" and ?A = "take ?w xs"
    have parts: "xs = ?A @ [?s]"
      using True by (metis append_butlast_last_id butlast_conv_take last_conv_nth)
    note cut = cut_bottom_facts [OF slices_inv_ok [OF inv w]]
    note upd = modify_narrow [where f = slice_cut_bottom, OF inv w cut(1,3,4)]
    have ys: "ys = ?A @ [slice_cut_bottom ?s]"
      using upd(1) True w
      by (simp add: ys_def slices_invalidateBottom_def upd_conv_take_nth_drop)
    have msgs: "slices_messages ys = slices_messages xs"
      using arg_cong [OF parts, of slices_messages] by (simp add: ys cut(2))
    have before: "\<forall>a \<in> set ?A. slice_before a ?s \<and> slice_ok a"
      using slices_inv_around [OF inv w] by simp
    have known: "slices_known xs = slices_known ?A \<union> range_set (srange ?s)"
      using arg_cong [OF parts, of slices_known] by simp
    have msgs': "slices_messages xs = slices_messages ?A \<union> set (messages ?s)"
      using arg_cong [OF parts, of slices_messages] by simp
    have lost: "x \<in> range_set (srange ?s) - range_set (srange (slice_cut_bottom ?s))"
      if "x \<in> slices_known xs - slices_known ys" for x
      using that known by (auto simp: ys)
    have "m < x" if "x \<in> slices_known xs - slices_known ys" "m \<in> slices_messages xs" for x m
    proof -
      have x: "range_from (srange ?s) \<le> x" "range_till (srange (slice_cut_bottom ?s)) < x"
        using lost [OF that(1)] cut(3) by (auto simp: range_set_def)
      have mm: "m \<in> slices_messages ?A \<union> set (messages ?s)" using that(2) msgs' by simp
      consider "m \<in> set (messages ?s)" | a where "a \<in> set ?A" "m \<in> set (messages a)"
        using mm by (auto simp: slices_messages_def)
      then show ?thesis
      proof cases
        case 1
        then show ?thesis using cut(5) x by fastforce
      next
        case 2
        then have "m \<le> range_till (srange a)" "range_till (srange a) < range_from (srange ?s)"
          using before by (auto simp: slice_ok_def slice_before_def list_all_iff)
        then show ?thesis using x by simp
      qed
    qed
    moreover have "slices_known ys \<subseteq> slices_known xs"
      using cut(3,4) by (auto simp: known ys range_set_def)
    moreover have "slices_inv ys"
      using upd(2) w by (simp add: ys upd_conv_take_nth_drop)
    ultimately show ?thesis using msgs by simp
  qed
  then show "slices_inv ys" and "slices_messages ys = slices_messages xs"
    and "slices_known ys \<subseteq> slices_known xs"
    and "x \<in> slices_known xs - slices_known ys \<Longrightarrow> m \<in> slices_messages ys \<Longrightarrow> m < x"
    by blast+
qed

lemma invalidateBottom_spec:
  assumes inv: "slices_inv (ids_slices st)"
  defines "ys \<equiv> ids_slices (SparseIdsList_invalidateBottom st)"
  shows "slices_inv ys" and "slices_messages ys = slices_messages (ids_slices st)"
    and "slices_known ys \<subseteq> slices_known (ids_slices st)"
    and "x \<in> slices_known (ids_slices st) - slices_known ys \<Longrightarrow> m \<in> slices_messages ys \<Longrightarrow> m < x"
  using slices_invalidateBottom_spec [where top = ServerMaxMsgId, OF inv]
  by (simp_all add: ys_def SparseIdsList_invalidateBottom_def)

lemma exec_add:
  assumes "slices_inv (ids_slices st)" and "range_from r \<le> range_till r"
    and "\<forall>x \<in> set msgs. range_from r \<le> x \<and> x \<le> range_till r" and "count = None \<or> \<not> inc"
  shows "\<exists>st'. map_option fst (SparseIdsList_addRange msgs r count inc st) = Some st'
    \<and> slices_inv (ids_slices st')
    \<and> knowledge_of st' = (slices_messages (ids_slices st) \<union> set msgs,
        slices_known (ids_slices st) \<union> range_set r)"
  using addRange_spec [OF assms] unfolding knowledge_of_def
  by (metis (no_types, lifting) fst_conv option.simps(9))

lemma exec_spec:
  assumes inv: "slices_inv (ids_slices st)" and "op_valid op"
  shows "\<exists>st'. list_exec op st = Some st' \<and> slices_inv (ids_slices st')
    \<and> abs_step op (knowledge_of st) (knowledge_of st')"
proof (cases op)
  case (AddNew m)
  then show ?thesis
    using exec_add [OF inv, of "\<lparr>range_from = m, range_till = ServerMaxMsgId\<rparr>" "[m]" None True] assms(2)
    by (auto simp: SparseIdsList_addNew_def knowledge_of_def range_set_def)
next
  case (AddExisting m r)
  then show ?thesis
    using exec_add [OF inv, of r "[m]" None False] assms(2)
    by (auto simp: SparseIdsList_addExisting_def knowledge_of_def)
next
  case (AddSlice ms r c)
  then show ?thesis
    using exec_add [OF inv, of r ms c False] assms(2)
    by (auto simp: SparseIdsList_addSlice_def knowledge_of_def list_all_iff)
next
  case (RemoveOne m)
  then show ?thesis using removeOne_spec [OF inv] by (simp add: knowledge_of_def)
next
  case RemoveAll
  then show ?thesis using removeAll_spec [of st] by (simp add: knowledge_of_def range_set_def)
next
  case InvalidateBottom
  then show ?thesis using invalidateBottom_spec [OF inv] by (simp add: knowledge_of_def)
qed

lemma reachable_inv: "list_reachable st \<Longrightarrow> slices_inv (ids_slices st)"
proof (induction rule: list_reachable.induct)
  case list_init
  then show ?case by (simp add: SparseIdsList_init_def slices_inv_def)
next
  case (list_step st op st')
  then show ?case using exec_spec [of st op] by auto
qed

lemma cut_length:
  "p \<le> length ms \<Longrightarrow> 0 \<le> b \<Longrightarrow> 0 \<le> a \<Longrightarrow>
    int (length (take (nat (min (int p) b + min (int (length ms) - int p) (a + 1)))
      (drop (nat (int p - min (int p) b)) ms))) =
    min (int p) b + min (int (length ms) - int p) (a + 1)"
  by (simp only: length_take length_drop)

lemma query_slice_skips:
  fixes s :: "'k::linorder slice" and c :: int
  assumes "slice_ok s" and "range_from (srange s) = range_from full \<or> range_till (srange s) = range_till full"
    and "0 \<le> limitBefore q" and "0 \<le> limitAfter q"
  defines "res \<equiv> query_slice full (Some c) q s"
  obtains b a where "res_skippedBefore res = Some b" and "res_skippedAfter res = Some a"
    and "b + int (length (res_messageIds res)) + a =
      (if range_from (srange s) = range_from full \<and> range_till (srange s) = range_till full
       then int (length (messages s)) else c)"
proof -
  have sorted: "sorted_wrt (<) (messages s)" using assms(1) by (simp add: slice_ok_def)
  define p n where "p = lower_bound (<) (messages s) (aroundId q)" and "n = int (length (messages s))"
  define bef where "bef = min (int p) (limitBefore q)"
  define aft where "aft = min (n - int p) (limitAfter q + 1)"
  define ids where "ids = take (nat (bef + aft)) (drop (nat (int p - bef)) (messages s))"
  have "p \<le> length (messages s)" by (simp add: p_def)
  then have len: "int (length ids) = bef + aft"
    unfolding ids_def bef_def aft_def n_def by (rule cut_length [OF _ assms(3,4)])
  have "sorted_wrt (<) ids" unfolding ids_def using sorted by (auto intro: sorted_wrt_take sorted_wrt_drop)
  then have merged: "flat_set_merge (<) ids [] = ids" by (rule merge_sorted_id)
  note res = res_def [unfolded query_slice_def Let_def, folded p_def n_def,
      folded bef_def aft_def, folded ids_def, unfolded merged]
  show thesis
  proof (cases "range_from (srange s) = range_from full")
    case True
    note from0 = this
    show thesis
    proof (cases "range_till (srange s) = range_till full")
      case True
      with from0 len n_def show thesis
        by (intro that [of "int p - bef" "n - int p - aft"]) (simp_all add: res)
    next
      case False
      with from0 show thesis
        by (intro that [of "int p - bef" "c - (int p - bef) - int (length ids)"]) (simp_all add: res)
    qed
  next
    case False
    with assms(2) show thesis
      by (intro that [of "c - (n - int p - aft) - int (length ids)" "n - int p - aft"]) (simp_all add: res)
  qed
qed

lemma query_found:
  assumes "slices_inv (ids_slices st)" and "aroundId q \<noteq> 0" and "s \<in> set (ids_slices st)"
    and "aroundId q \<in> range_set (srange s)"
  shows "SparseIdsList_query q st = Some (SparseIdsList_queryFromSlice q s st)"
proof -
  have "aroundId q \<in> slices_known (ids_slices st)"
    using assms(3,4) by (auto simp: slices_known_def)
  then show ?thesis
    using slice_at_cases [where v = "aroundId q", OF assms(1)] assms(2,3,4)
    by (simp add: SparseIdsList_query_def Let_def)
qed

lemma query_missed:
  assumes "slices_inv (ids_slices st)" and "aroundId q = 0 \<or> aroundId q \<notin> slices_known (ids_slices st)"
  shows "SparseIdsList_query q st = map_option (\<lambda>c. \<lparr>res_count = Some c, res_skippedBefore = None,
      res_skippedAfter = None, res_messageIds = []\<rparr>) (ids_count st)"
proof -
  have "\<not> (let pos = (if aroundId q \<noteq> 0 then slice_at (aroundId q) (ids_slices st) else length (ids_slices st))
      in pos \<noteq> length (ids_slices st) \<and> range_from (srange (ids_slices st ! pos)) \<le> aroundId q)"
    using slice_at_cases(1) [where v = "aroundId q", OF assms(1)] assms(2) by (auto simp: Let_def)
  then show ?thesis by (auto simp: SparseIdsList_query_def Let_def)
qed

lemma slice_messages_alt:
  assumes "slices_inv xs" and "s \<in> set xs"
  shows "set (messages s) = slices_messages xs \<inter> range_set (srange s)"
    and "messages s = sorted_list_of_set (slices_messages xs \<inter> range_set (srange s))"
proof -
  have ok: "\<And>x. x \<in> set xs \<Longrightarrow> slice_ok x" using assms(1) by (simp add: slices_inv_def list_all_iff)
  have "m \<in> set (messages s)" if "x \<in> set xs" "m \<in> set (messages x)" "m \<in> range_set (srange s)" for m x
    using slice_at_cases(3) [where v = m, OF assms] slice_at_cases(3) [where v = m, OF assms(1) that(1)]
      slice_message_known [OF ok [OF that(1)] that(2)] that by metis
  then show e: "set (messages s) = slices_messages xs \<inter> range_set (srange s)"
    using slice_message_known [OF ok [OF assms(2)]] assms(2) by (auto simp: slices_messages_def)
  have "sorted_wrt (<) (messages s)" using ok [OF assms(2)] by (simp add: slice_ok_def)
  then show "messages s = sorted_list_of_set (slices_messages xs \<inter> range_set (srange s))"
    unfolding e [symmetric] by (simp add: strict_sorted_equal)
qed

section \<open>Properties\<close>

text \<open>
  C1: Every valid operation on a reachable list passes its \<^verbatim>\<open>Expects\<close> and does to the known
  ids exactly what the abstract list does: adding unites messages and knowledge, \<^verbatim>\<open>removeOne\<close>
  forgets one message, \<^verbatim>\<open>removeAll\<close> leaves nothing but full knowledge and \<^verbatim>\<open>invalidateBottom\<close>
  loses knowledge only above every message.
\<close>

theorem sparse_ids_ops_refine:
  assumes "list_reachable st" and "op_valid op"
  shows "\<exists>st'. list_exec op st = Some st' \<and> list_reachable st'
    \<and> abs_step op (knowledge_of st) (knowledge_of st')"
  using exec_spec [OF reachable_inv [OF assms(1)] assms(2)] list_step [OF assms] by blast

theorem sparse_ids_ops_refine_witness:
  "\<exists>st'. list_exec (AddNew 5) SparseIdsList_init = Some st' \<and> list_reachable st'
    \<and> abs_step (AddNew 5) (knowledge_of SparseIdsList_init) (knowledge_of st')"
  using sparse_ids_ops_refine [OF list_init, of "AddNew 5"] by (simp add: ServerMaxMsgId_def)

text \<open>
  C30: In every reachable list the slices are disjoint and in order, each keeps its ids
  sorted, distinct and inside its range, so that what the slice holds is exactly what the
  list knows of its range.
\<close>

theorem sparse_ids_reachable_wellformed:
  assumes "list_reachable st"
  shows "sorted_wrt slice_before (ids_slices st) \<and> list_all slice_ok (ids_slices st)
    \<and> slices_messages (ids_slices st) \<subseteq> slices_known (ids_slices st)
    \<and> (\<forall>s \<in> set (ids_slices st). messages s =
        sorted_list_of_set (slices_messages (ids_slices st) \<inter> range_set (srange s)))"
  using reachable_inv [OF assms] messages_known slice_messages_alt(2) by (auto simp: slices_inv_def)

theorem sparse_ids_reachable_wellformed_witness:
  "list_all slice_ok (ids_slices (SparseIdsList_removeAll SparseIdsList_init))"
proof -
  have "list_reachable (SparseIdsList_removeAll SparseIdsList_init)"
    by (rule list_step [OF list_init, of RemoveAll]) simp_all
  from sparse_ids_reachable_wellformed [OF this] show ?thesis by blast
qed


text \<open>A small list for the witnesses: the ids 3, 5 and 9 of the stretch from 1 to 20, of 7 in all.\<close>

definition sample_list :: SparseIdsList where
  "sample_list = \<lparr>ids_count = Some 7,
    ids_slices = [\<lparr>messages = [3, 5, 9], srange = \<lparr>range_from = 1, range_till = 20\<rparr>\<rparr>]\<rparr>"

lemma sample_list_exec:
  "list_exec (AddSlice [9, 3, 5] \<lparr>range_from = 1, range_till = 20\<rparr> (Some 7)) SparseIdsList_init = Some sample_list"
  by code_simp

lemma sample_list_reachable: "list_reachable sample_list"
  by (rule list_step [OF list_init _ sample_list_exec]) simp


text \<open>
  What adding a range reports: the update that is fired carries a slice that covers the
  added range and its ids and is one of the list's slices, with the count of the list; a
  known count is never below the number of ids of that slice, and of a list whose one slice
  is the full range it is the exact number.
\<close>

theorem sparse_ids_add_reports:
  assumes "list_reachable st" and "range_from r \<le> range_till r"
    and "\<forall>x \<in> set msgs. range_from r \<le> x \<and> x \<le> range_till r" and "count = None \<or> \<not> inc"
  shows "\<exists>st' upd W. SparseIdsList_addRange msgs r count inc st = Some (st', upd)
    \<and> W \<in> set (ids_slices st') \<and> upd_messages upd = Some (messages W) \<and> upd_range upd = srange W
    \<and> set msgs \<subseteq> set (messages W) \<and> range_set r \<subseteq> range_set (srange W)
    \<and> upd_count upd = ids_count st'
    \<and> (\<forall>c. ids_count st' = Some c \<longrightarrow> int (length (messages W)) \<le> c)
    \<and> (\<forall>s. ids_slices st' = [s] \<longrightarrow> srange s = \<lparr>range_from = 0, range_till = ServerMaxMsgId\<rparr> \<longrightarrow>
        ids_count st' = Some (int (card (slices_messages (ids_slices st')))))"
proof -
  note inv = reachable_inv [OF assms(1)]
  from addRange_spec [OF inv assms(2-4)] obtain st' upd W
    where add: "SparseIdsList_addRange msgs r count inc st = Some (st', upd)"
      and W: "slices_inv (ids_slices st')" "W \<in> set (ids_slices st')" "upd_messages upd = Some (messages W)"
      "upd_range upd = srange W" "set msgs \<subseteq> set (messages W)" "range_set r \<subseteq> range_set (srange W)"
      "upd_count upd = ids_count st'" "\<And>c. ids_count st' = Some c \<Longrightarrow> int (length (messages W)) \<le> c"
      and full_count: "\<And>s. ids_slices st' = [s] \<Longrightarrow> srange s = \<lparr>range_from = 0, range_till = ServerMaxMsgId\<rparr> \<Longrightarrow>
        ids_count st' = Some (int (length (messages s)))"
    by metis
  have "ids_count st' = Some (int (card (slices_messages (ids_slices st'))))"
    if one: "ids_slices st' = [s]" and full: "srange s = \<lparr>range_from = 0, range_till = ServerMaxMsgId\<rparr>" for s
  proof -
    have "sorted_wrt (<) (messages s)" using W(1) one by (simp add: slice_defs)
    then have card: "card (set (messages s)) = length (messages s)"
      by (simp add: distinct_card strict_sorted_iff)
    with full_count [OF one full] one show ?thesis by simp
  qed
  with add W show ?thesis by blast
qed

theorem sparse_ids_add_reports_witness:
  "\<exists>st' upd W. SparseIdsList_addRange [30] \<lparr>range_from = 18, range_till = 40\<rparr> None False sample_list = Some (st', upd)
    \<and> W \<in> set (ids_slices st') \<and> upd_range upd = srange W \<and> {18..40} \<subseteq> range_set (srange W)"
  using sparse_ids_add_reports [OF sample_list_reachable,
      of "\<lparr>range_from = 18, range_till = 40\<rparr>" "[30]" None False]
  by (simp add: range_set_def; blast)

text \<open>
  A query into a stretch that touches the start or the end of the list, with the count
  known, knows how many ids it skipped on both sides: with the returned ids they add up to
  the count, or to the ids of the slice if it touches both.
\<close>

theorem sparse_ids_query_skips_add_up:
  assumes "list_reachable st" and "s \<in> set (ids_slices st)" and "aroundId q \<noteq> 0"
    and "aroundId q \<in> range_set (srange s)" and "ids_count st = Some c"
    and "range_from (srange s) = 0 \<or> range_till (srange s) = ServerMaxMsgId"
    and "0 \<le> limitBefore q" and "0 \<le> limitAfter q"
  shows "\<exists>res b a. SparseIdsList_query q st = Some res
    \<and> res_skippedBefore res = Some b \<and> res_skippedAfter res = Some a
    \<and> b + int (length (res_messageIds res)) + a =
      (if range_from (srange s) = 0 \<and> range_till (srange s) = ServerMaxMsgId
       then int (length (messages s)) else c)"
proof -
  note inv = reachable_inv [OF assms(1)]
  have ok: "slice_ok s" using inv assms(2) by (simp add: slice_defs)
  from query_slice_skips [OF ok, of FullMsgRange q c] assms(6-8) query_found [OF inv assms(3,2,4)] assms(5)
  show ?thesis unfolding SparseIdsList_queryFromSlice_def by (metis FullMsgRange_def range.select_convs)
qed

definition sample_bottom :: SparseIdsList where
  "sample_bottom = \<lparr>ids_count = Some 9,
    ids_slices = [\<lparr>messages = [30, 31], srange = \<lparr>range_from = 30, range_till = ServerMaxMsgId\<rparr>\<rparr>]\<rparr>"

lemma sample_bottom_reachable: "list_reachable sample_bottom"
proof (rule list_step [OF list_init])
  show "list_exec (AddSlice [30, 31] \<lparr>range_from = 30, range_till = ServerMaxMsgId\<rparr> (Some 9)) SparseIdsList_init
    = Some sample_bottom" by code_simp
  show "op_valid (AddSlice [30, 31] \<lparr>range_from = 30, range_till = ServerMaxMsgId\<rparr> (Some 9))"
    by (simp add: ServerMaxMsgId_def)
qed

theorem sparse_ids_query_skips_add_up_witness:
  "\<exists>res b a. SparseIdsList_query \<lparr>aroundId = 31, limitBefore = 0, limitAfter = 5\<rparr> sample_bottom = Some res
    \<and> res_skippedBefore res = Some b \<and> res_skippedAfter res = Some a
    \<and> b + int (length (res_messageIds res)) + a = 9"
  using sparse_ids_query_skips_add_up [OF sample_bottom_reachable,
      of "\<lparr>messages = [30, 31], srange = \<lparr>range_from = 30, range_till = ServerMaxMsgId\<rparr>\<rparr>"
        "\<lparr>aroundId = 31, limitBefore = 0, limitAfter = 5\<rparr>" 9]
  by (simp add: sample_bottom_def range_set_def ServerMaxMsgId_def)


end
