(* ===== verification/SliceBuilder.thy ===== *)
theory SliceBuilder
  imports SparseIdsList
begin

text \<open>
  The builder of the part of a long list of ids that a viewer shows. The code has it twice,
  line for line: \<^verbatim>\<open>SparseIdsSliceBuilder\<close> (\<^verbatim>\<open>data/data_sparse_ids.cpp\<close>) over message ids and
  \<^verbatim>\<open>Data::MessagesSliceBuilder\<close> (\<^verbatim>\<open>data/data_messages.cpp\<close>) over positions. The common part
  is written here over any linear order, with the few constants in which the two differ as a
  record; the theories of the two components instantiate it.

  An operation returns the new builder and the \<^verbatim>\<open>AroundData\<close> requests it fires, in order. An
  \<^verbatim>\<open>Assert\<close> that fails is \<open>None\<close>. Limits are not negative, as all callers have them.
\<close>

section \<open>State\<close>

datatype LoadDirection = Around | Before | After

datatype RequestDirection = RequestBefore | RequestAfter

type_synonym 'k AroundData = "'k \<times> LoadDirection"

record 'k slice_builder =
  bkey :: 'k
  bids :: "'k list"
  brange :: "'k range"
  bfullCount :: "int option"
  bskippedBefore :: "int option"
  bskippedAfter :: "int option"
  blimitBefore :: int
  blimitAfter :: int

text \<open>The constants of a kind of ids: \<^verbatim>\<open>Key()\<close>, \<^verbatim>\<open>!key\<close>, the test whether an old first or last
  id was real, and the ends of the full range.\<close>

record 'k id_kind =
  null_key :: 'k
  is_null :: "'k \<Rightarrow> bool"
  was_real :: "'k \<Rightarrow> bool"
  full_range :: "'k range"

section \<open>Operations\<close>

definition builder_requestMessages :: "RequestDirection \<Rightarrow> 'k slice_builder \<Rightarrow> 'k AroundData" where
  "builder_requestMessages direction b =
     (if bids b = [] then (bkey b, Around)
      else if direction = RequestBefore then (hd (bids b), Before)
      else (last (bids b), After))"

definition builder_requestMessagesCount :: "('k, 'x) id_kind_scheme \<Rightarrow> 'k AroundData" where
  "builder_requestMessagesCount kind = (null_key kind, Around)"

definition builder_sliceToLimits ::
    "('k::linorder, 'x) id_kind_scheme \<Rightarrow> 'k slice_builder \<Rightarrow> 'k slice_builder \<times> 'k AroundData list" where
  "builder_sliceToLimits kind b =
     (if is_null kind (bkey b)
      then (b, if bfullCount b = None then [builder_requestMessagesCount kind] else [])
      else
        let aroundIt = lower_bound (<) (bids b) (bkey b);
            removeFromBegin = int aroundIt - blimitBefore b;
            removeFromEnd = int (length (bids b)) - int aroundIt - blimitAfter b - 1;
            (b1, fired1) =
              (if 0 < removeFromBegin
               then (b\<lparr>bids := fst (flat_set_erase_range 0 (nat removeFromBegin) (bids b)),
                   bskippedBefore := map_option (\<lambda>n. n + removeFromBegin) (bskippedBefore b)\<rparr>, [])
               else if removeFromBegin < 0 \<and> (bskippedBefore b = None \<or> 0 < the (bskippedBefore b))
               then (b, [builder_requestMessages RequestBefore b])
               else (b, []));
            (b2, fired2) =
              (if 0 < removeFromEnd
               then (b1\<lparr>bids := fst (flat_set_erase_range (length (bids b1) - nat removeFromEnd)
                     (length (bids b1)) (bids b1)),
                   bskippedAfter := map_option (\<lambda>n. n + removeFromEnd) (bskippedAfter b1)\<rparr>, [])
               else if removeFromEnd < 0 \<and> (bskippedAfter b1 = None \<or> 0 < the (bskippedAfter b1))
               then (b1, [builder_requestMessages RequestAfter b1])
               else (b1, []));
            fired3 = (if bfullCount b2 = None \<and> fired1 = [] \<and> fired2 = []
              then [builder_requestMessagesCount kind] else [])
        in (b2, fired1 @ fired2 @ fired3))"

definition builder_fillSkipped :: "'k slice_builder \<Rightarrow> 'k slice_builder" where
  "builder_fillSkipped b =
     (case bfullCount b of
        None \<Rightarrow> b
      | Some full \<Rightarrow>
          (case (bskippedBefore b, bskippedAfter b) of
             (Some bef, None) \<Rightarrow> b\<lparr>bskippedAfter := Some (full - bef - int (length (bids b)))\<rparr>
           | (None, Some aft) \<Rightarrow> b\<lparr>bskippedBefore := Some (full - aft - int (length (bids b)))\<rparr>
           | _ \<Rightarrow> b))"

definition builder_fillSkippedAndSliceToLimits ::
    "('k::linorder, 'x) id_kind_scheme \<Rightarrow> 'k slice_builder \<Rightarrow> 'k slice_builder \<times> 'k AroundData list" where
  "builder_fillSkippedAndSliceToLimits kind b = builder_sliceToLimits kind (builder_fillSkipped b)"

text \<open>
  The two local functions of \<^verbatim>\<open>mergeSliceData\<close>, with the merged ids. The comparison
  \<^verbatim>\<open>*_fullCount <= _ids.size()\<close> is one of unsigned numbers: a negative count is not below.
\<close>

definition adjustSkippedBefore :: "'k::linorder list \<Rightarrow> 'k \<Rightarrow> int \<Rightarrow> int option" where
  "adjustSkippedBefore ids oldId oldSkippedBefore =
     (let it = flat_set_find (<) oldId ids
      in if it \<noteq> length ids then Some (max (oldSkippedBefore - int it) 0) else None)"

definition adjustSkippedAfter :: "'k::linorder list \<Rightarrow> 'k \<Rightarrow> int \<Rightarrow> int option" where
  "adjustSkippedAfter ids oldId oldSkippedAfter =
     (let it = flat_set_find (<) oldId ids
      in if it \<noteq> length ids
         then Some (max (oldSkippedAfter - (int (length ids) - int it - 1)) 0) else None)"

definition builder_mergeSliceData ::
    "('k::linorder, 'x) id_kind_scheme \<Rightarrow> int option \<Rightarrow> 'k list \<Rightarrow> int option \<Rightarrow> int option \<Rightarrow>
      'k slice_builder \<Rightarrow> ('k slice_builder \<times> 'k AroundData list) option" where
  "builder_mergeSliceData kind count messageIds skippedBefore skippedAfter b =
     (if messageIds = [] then
        Some (builder_fillSkippedAndSliceToLimits kind
          (case count of
             None \<Rightarrow> b
           | Some c \<Rightarrow>
               if bfullCount b \<noteq> Some c then
                 (if 0 \<le> c \<and> c \<le> int (length (bids b))
                  then b\<lparr>bfullCount := Some (int (length (bids b))), bskippedBefore := Some 0,
                    bskippedAfter := Some 0\<rparr>
                  else b\<lparr>bfullCount := Some c\<rparr>)
               else b))
      else
        let ids = flat_set_merge (<) messageIds (bids b);
            b1 = b\<lparr>bfullCount := (if count \<noteq> None then count else bfullCount b), bids := ids\<rparr>;
            before =
              (case skippedBefore of
                 Some n \<Rightarrow> map_option Some (adjustSkippedBefore ids (hd messageIds) n)
               | None \<Rightarrow>
                   if bids b \<noteq> [] \<and> was_real kind (hd (bids b)) \<and> bskippedBefore b \<noteq> None
                   then map_option Some (adjustSkippedBefore ids (hd (bids b)) (the (bskippedBefore b)))
                   else Some None);
            after =
              (case skippedAfter of
                 Some n \<Rightarrow> map_option Some (adjustSkippedAfter ids (last messageIds) n)
               | None \<Rightarrow>
                   if bids b \<noteq> [] \<and> was_real kind (last (bids b)) \<and> bskippedAfter b \<noteq> None
                   then map_option Some (adjustSkippedAfter ids (last (bids b)) (the (bskippedAfter b)))
                   else Some None)
        in case (before, after) of
             (Some bef, Some aft) \<Rightarrow>
               Some (builder_fillSkippedAndSliceToLimits kind
                 (b1\<lparr>bskippedBefore := bef, bskippedAfter := aft\<rparr>))
           | _ \<Rightarrow> None)"

definition builder_init :: "'k range \<Rightarrow> 'k \<Rightarrow> int \<Rightarrow> int \<Rightarrow> 'k slice_builder" where
  "builder_init range0 key before after =
     \<lparr>bkey = key, bids = [], brange = range0, bfullCount = None, bskippedBefore = None,
       bskippedAfter = None, blimitBefore = before, blimitAfter = after\<rparr>"

definition builder_applyInitial ::
    "('k::linorder, 'x) id_kind_scheme \<Rightarrow> 'k list_result \<Rightarrow> 'k slice_builder \<Rightarrow>
      (bool \<times> 'k slice_builder \<times> 'k AroundData list) option" where
  "builder_applyInitial kind res b =
     map_option (Pair True)
       (builder_mergeSliceData kind (res_count res) (res_messageIds res) (res_skippedBefore res)
         (res_skippedAfter res) b)"

definition ranges_intersect :: "'k::linorder range \<Rightarrow> 'k range \<Rightarrow> bool" where
  "ranges_intersect range1 range2 \<longleftrightarrow>
     range_from range1 \<le> range_till range2 \<and> range_from range2 \<le> range_till range1"

definition builder_applyUpdate ::
    "('k::linorder, 'x) id_kind_scheme \<Rightarrow> 'k slice_update \<Rightarrow> 'k slice_builder \<Rightarrow>
      (bool \<times> 'k slice_builder \<times> 'k AroundData list) option" where
  "builder_applyUpdate kind upd b =
     (let needMergeMessages = (upd_messages upd \<noteq> None
            \<and> ranges_intersect (upd_range upd)
                \<lparr>range_from = (if bids b = [] then bkey b else hd (bids b)),
                 range_till = (if bids b = [] then bkey b else last (bids b))\<rparr>)
      in if \<not> needMergeMessages \<and> upd_count upd = None then Some (False, b, [])
         else
           let skippedBefore = (if range_from (upd_range upd) = range_from (full_range kind)
                 then Some 0 else None);
               skippedAfter = (if range_till (upd_range upd) = range_till (full_range kind)
                 then Some 0 else None)
           in map_option (Pair True)
                (builder_mergeSliceData kind (upd_count upd)
                  (if needMergeMessages then the (upd_messages upd) else [])
                  skippedBefore skippedAfter b))"

text \<open>\<^verbatim>\<open>removeOne\<close> before it checks for insufficient data.\<close>

definition builder_removeOne :: "'k::linorder \<Rightarrow> 'k slice_builder \<Rightarrow> bool \<times> 'k slice_builder" where
  "builder_removeOne messageId b =
     (let counted = (bfullCount b \<noteq> None \<and> 0 < the (bfullCount b));
          b1 = (if counted then b\<lparr>bfullCount := map_option (\<lambda>n. n - 1) (bfullCount b)\<rparr> else b)
      in if flat_set_contains (<) messageId (bids b1)
         then (True, b1\<lparr>bids := fst (flat_set_remove (<) messageId (bids b1))\<rparr>)
         else if bids b1 \<noteq> [] then
           (if messageId < hd (bids b1) \<and> bskippedBefore b1 \<noteq> None \<and> 0 < the (bskippedBefore b1)
            then (True, b1\<lparr>bskippedBefore := map_option (\<lambda>n. n - 1) (bskippedBefore b1)\<rparr>)
            else if last (bids b1) < messageId \<and> bskippedAfter b1 \<noteq> None \<and> 0 < the (bskippedAfter b1)
            then (True, b1\<lparr>bskippedAfter := map_option (\<lambda>n. n - 1) (bskippedAfter b1)\<rparr>)
            else (counted, b1))
         else (counted, b1))"

definition builder_removeAll :: "('k, 'x) id_kind_scheme \<Rightarrow> 'k slice_builder \<Rightarrow> bool \<times> 'k slice_builder" where
  "builder_removeAll kind b =
     (True, b\<lparr>bids := [], brange := full_range kind, bfullCount := Some 0,
       bskippedBefore := Some 0, bskippedAfter := Some 0\<rparr>)"

section \<open>The part of a set of ids that a builder shows\<close>

definition segment_of :: "'k::linorder set \<Rightarrow> 'k list \<Rightarrow> bool" where
  "segment_of T ids \<longleftrightarrow> sorted_wrt (<) ids \<and> set ids \<subseteq> T
     \<and> (\<forall>t \<in> T. ids \<noteq> [] \<longrightarrow> hd ids \<le> t \<longrightarrow> t \<le> last ids \<longrightarrow> t \<in> set ids)"

definition ids_below :: "'k::linorder set \<Rightarrow> 'k \<Rightarrow> int" where
  "ids_below T k = int (card {t \<in> T. t < k})"

definition ids_above :: "'k::linorder set \<Rightarrow> 'k \<Rightarrow> int" where
  "ids_above T k = int (card {t \<in> T. k < t})"

text \<open>A builder tells the truth about the ids \<open>T\<close>: what it shows is a gapless part of them,
  and each number it knows is the right one.\<close>

definition truthful :: "'k::linorder set \<Rightarrow> 'k slice_builder \<Rightarrow> bool" where
  "truthful T b \<longleftrightarrow> finite T \<and> segment_of T (bids b)
     \<and> (\<forall>c. bfullCount b = Some c \<longrightarrow> c = int (card T))
     \<and> (\<forall>n. bids b \<noteq> [] \<longrightarrow> bskippedBefore b = Some n \<longrightarrow> n = ids_below T (hd (bids b)))
     \<and> (\<forall>n. bids b \<noteq> [] \<longrightarrow> bskippedAfter b = Some n \<longrightarrow> n = ids_above T (last (bids b)))"

lemma sorted_hd_last:
  assumes "sorted_wrt (<) (ids :: 'k::linorder list)" and "x \<in> set ids"
  shows "hd ids \<le> x" and "x \<le> last ids"
proof -
  show "hd ids \<le> x" using assms by (cases ids) auto
  show "x \<le> last ids" using assms
    by (cases ids rule: rev_cases) (auto simp: sorted_wrt_append less_imp_le)
qed

lemma segment_split:
  assumes "segment_of T (A @ B)"
  shows "segment_of T A" and "segment_of T B"
proof -
  have sorted: "sorted_wrt (<) (A @ B)" and sub: "set (A @ B) \<subseteq> T"
    and all: "\<And>t. t \<in> T \<Longrightarrow> A @ B \<noteq> [] \<Longrightarrow> hd (A @ B) \<le> t \<Longrightarrow> t \<le> last (A @ B) \<Longrightarrow> t \<in> set (A @ B)"
    using assms by (auto simp: segment_of_def)
  have AB: "\<forall>a \<in> set A. \<forall>b \<in> set B. a < b" and sA: "sorted_wrt (<) A" and sB: "sorted_wrt (<) B"
    using sorted by (auto simp: sorted_wrt_append)
  show "segment_of T A" unfolding segment_of_def
  proof (intro conjI ballI impI sA)
    show "set A \<subseteq> T" using sub by simp
    fix t assume t: "t \<in> T" "A \<noteq> []" "hd A \<le> t" "t \<le> last A"
    have "t \<le> last (A @ B)"
    proof (cases "B = []")
      case False
      then have "last A < last B" using AB t(2) by simp
      with t(4) False show ?thesis by simp
    qed (use t in simp)
    then have "t \<in> set (A @ B)" using all t by simp
    then show "t \<in> set A" using t AB by (fastforce dest: leD)
  qed
  show "segment_of T B" unfolding segment_of_def
  proof (intro conjI ballI impI sB)
    show "set B \<subseteq> T" using sub by simp
    fix t assume t: "t \<in> T" "B \<noteq> []" "hd B \<le> t" "t \<le> last B"
    have "hd (A @ B) \<le> t"
    proof (cases "A = []")
      case False
      then have "hd A < hd B" using AB t(2) by simp
      with t(3) False show ?thesis by simp
    qed (use t in simp)
    then have "t \<in> set (A @ B)" using all t by simp
    then show "t \<in> set B" using t AB by (fastforce dest: leD)
  qed
qed

lemma card_below_split:
  assumes "segment_of T (A @ B)" and "finite T" and "A \<noteq> []" and "B \<noteq> []"
  shows "ids_below T (hd B) = ids_below T (hd A) + int (length A)"
    and "ids_above T (last A) = ids_above T (last B) + int (length B)"
proof -
  have sorted: "sorted_wrt (<) (A @ B)" and sub: "set (A @ B) \<subseteq> T"
    and all: "\<And>t. t \<in> T \<Longrightarrow> hd A \<le> t \<Longrightarrow> t \<le> last B \<Longrightarrow> t \<in> set (A @ B)"
    using assms by (auto simp: segment_of_def)
  have AB: "\<And>a b. a \<in> set A \<Longrightarrow> b \<in> set B \<Longrightarrow> a < b"
    and sA: "sorted_wrt (<) A" and sB: "sorted_wrt (<) B"
    using sorted by (auto simp: sorted_wrt_append)
  note hA = sorted_hd_last [OF sA] and hB = sorted_hd_last [OF sB]
  have len: "card (set A) = length A" "card (set B) = length B"
    using sA sB by (simp_all add: strict_sorted_iff distinct_card)
  have hm: "hd A \<in> set A" "last A \<in> set A" "hd B \<in> set B" "last B \<in> set B" using assms(3,4) by simp_all
  have "{t \<in> T. t < hd B} = {t \<in> T. t < hd A} \<union> set A"
  proof (intro set_eqI iffI)
    fix t assume t: "t \<in> {t \<in> T. t < hd B}"
    show "t \<in> {t \<in> T. t < hd A} \<union> set A"
    proof (cases "t < hd A")
      case False
      have "t \<le> last B" using t hB(2) [OF hm(3)] by auto
      then have "t \<in> set (A @ B)" using all t False by simp
      then show ?thesis using t hB(1) by (auto dest: leD)
    qed (use t in simp)
  next
    fix t assume "t \<in> {t \<in> T. t < hd A} \<union> set A"
    then show "t \<in> {t \<in> T. t < hd B}" using sub AB hm(1,3) less_trans by (auto intro: less_trans)
  qed
  moreover have "{t \<in> T. t < hd A} \<inter> set A = {}" using hA(1) by (auto dest: leD)
  ultimately show "ids_below T (hd B) = ids_below T (hd A) + int (length A)"
    using assms(2) by (simp add: ids_below_def card_Un_disjoint len)
  have "{t \<in> T. last A < t} = {t \<in> T. last B < t} \<union> set B"
  proof (intro set_eqI iffI)
    fix t assume t: "t \<in> {t \<in> T. last A < t}"
    show "t \<in> {t \<in> T. last B < t} \<union> set B"
    proof (cases "last B < t")
      case False
      have "hd A \<le> t" using t hA(1) [OF hm(2)] by auto
      then have "t \<in> set (A @ B)" using all t False by simp
      then show ?thesis using t hA(2) by (auto dest: leD)
    qed (use t in simp)
  next
    fix t assume "t \<in> {t \<in> T. last B < t} \<union> set B"
    then show "t \<in> {t \<in> T. last A < t}" using sub AB hm(2,4) by (auto intro: less_trans)
  qed
  moreover have "{t \<in> T. last B < t} \<inter> set B = {}" using hB(2) by (auto dest: leD)
  ultimately show "ids_above T (last A) = ids_above T (last B) + int (length B)"
    using assms(2) by (simp add: ids_above_def card_Un_disjoint len)
qed

lemma card_segment:
  assumes "segment_of T ids" and "finite T" and "ids \<noteq> []"
  shows "int (card T) = ids_below T (hd ids) + int (length ids) + ids_above T (last ids)"
proof -
  have sorted: "sorted_wrt (<) ids" and sub: "set ids \<subseteq> T"
    and all: "\<And>t. t \<in> T \<Longrightarrow> hd ids \<le> t \<Longrightarrow> t \<le> last ids \<Longrightarrow> t \<in> set ids"
    using assms by (auto simp: segment_of_def)
  note h = sorted_hd_last [OF sorted]
  have "t \<in> set ids" if "t \<in> T" "\<not> t < hd ids" "\<not> last ids < t" for t
    using all that by simp
  then have "T = {t \<in> T. t < hd ids} \<union> (set ids \<union> {t \<in> T. last ids < t})" using sub by blast
  moreover have "{t \<in> T. t < hd ids} \<inter> (set ids \<union> {t \<in> T. last ids < t}) = {}"
    using h(1) h(2) [OF hd_in_set [OF assms(3)]] by (auto dest: leD order.strict_trans)
  moreover have "set ids \<inter> {t \<in> T. last ids < t} = {}" using h(2) by (auto dest: leD)
  moreover have "card (set ids) = length ids" using sorted by (simp add: strict_sorted_iff distinct_card)
  ultimately show ?thesis
    unfolding ids_below_def ids_above_def using assms(2)
    by (metis (no_types, lifting) List.finite_set card_Un_disjoint finite_Un of_nat_add add.assoc)
qed

section \<open>Cutting to the limits\<close>

lemma erase_range_front: "erase_range 0 n xs = drop n xs"
  by (simp add: erase_range_def)

lemma erase_range_back: "n \<le> length xs \<Longrightarrow> erase_range n (length xs) xs = take n xs"
  by (simp add: erase_range_def)

lemma truthful_drop:
  assumes "truthful T b" and "n \<le> length (bids b)"
  shows "truthful T (b\<lparr>bids := drop n (bids b),
    bskippedBefore := map_option (\<lambda>k. k + int n) (bskippedBefore b)\<rparr>)"
proof -
  let ?A = "take n (bids b)" and ?B = "drop n (bids b)"
  have seg: "segment_of T (?A @ ?B)" and fin: "finite T" using assms(1) by (simp_all add: truthful_def)
  have last: "?B \<noteq> [] \<Longrightarrow> last ?B = last (bids b)" by (metis drop_eq_Nil last_drop not_le)
  have hd: "ids_below T (hd ?B) = ids_below T (hd (bids b)) + int n" if "?B \<noteq> []"
  proof (cases "n = 0")
    case False
    then have "?A \<noteq> []" using that by auto
    moreover from this have "hd ?A = hd (bids b)" by simp
    ultimately show ?thesis using card_below_split(1) [OF seg fin _ that] assms(2) by simp
  qed simp
  have "?B \<noteq> [] \<Longrightarrow> bids b \<noteq> []" by auto
  then show ?thesis
    using assms(1) segment_split(2) [OF seg] last hd by (auto simp: truthful_def)
qed

lemma truthful_take:
  assumes "truthful T b" and "n \<le> length (bids b)"
  shows "truthful T (b\<lparr>bids := take (length (bids b) - n) (bids b),
    bskippedAfter := map_option (\<lambda>k. k + int n) (bskippedAfter b)\<rparr>)"
proof -
  let ?A = "take (length (bids b) - n) (bids b)" and ?B = "drop (length (bids b) - n) (bids b)"
  have seg: "segment_of T (?A @ ?B)" and fin: "finite T" using assms(1) by (simp_all add: truthful_def)
  have hd: "?A \<noteq> [] \<Longrightarrow> hd ?A = hd (bids b)" by simp
  have last: "ids_above T (last ?A) = ids_above T (last (bids b)) + int n" if "?A \<noteq> []"
  proof (cases "n = 0")
    case False
    then have "?B \<noteq> []" using that by auto
    moreover from this have "last ?B = last (bids b)" by (metis drop_eq_Nil last_drop not_le)
    ultimately show ?thesis using card_below_split(2) [OF seg fin that] assms(2) by simp
  qed simp
  have "?A \<noteq> [] \<Longrightarrow> bids b \<noteq> []" by auto
  then show ?thesis
    using assms(1) segment_split(1) [OF seg] last hd by (auto simp: truthful_def)
qed

text \<open>What \<open>sliceToLimits\<close> does to the state, without the requests.\<close>

definition cut_counts :: "'k::linorder slice_builder \<Rightarrow> int \<times> int" where
  "cut_counts b = (int (lower_bound (<) (bids b) (bkey b)) - blimitBefore b,
     int (length (bids b)) - int (lower_bound (<) (bids b) (bkey b)) - blimitAfter b - 1)"

definition cut_before :: "int \<Rightarrow> 'k slice_builder \<Rightarrow> 'k slice_builder" where
  "cut_before n b = (if 0 < n then b\<lparr>bids := drop (nat n) (bids b),
     bskippedBefore := map_option (\<lambda>k. k + n) (bskippedBefore b)\<rparr> else b)"

definition cut_after :: "int \<Rightarrow> 'k slice_builder \<Rightarrow> 'k slice_builder" where
  "cut_after n b = (if 0 < n then b\<lparr>bids := take (length (bids b) - nat n) (bids b),
     bskippedAfter := map_option (\<lambda>k. k + n) (bskippedAfter b)\<rparr> else b)"

lemma sliceToLimits_state:
  "fst (builder_sliceToLimits kind b) =
    (if is_null kind (bkey b) then b
     else cut_after (snd (cut_counts b)) (cut_before (fst (cut_counts b)) b))"
  by (simp add: builder_sliceToLimits_def Let_def cut_counts_def cut_before_def cut_after_def
      flat_set_erase_range_def erase_range_front erase_range_back)

lemma sliceToLimits_fixed:
  "bkey (fst (builder_sliceToLimits kind b)) = bkey b"
  "bfullCount (fst (builder_sliceToLimits kind b)) = bfullCount b"
  "blimitBefore (fst (builder_sliceToLimits kind b)) = blimitBefore b"
  "blimitAfter (fst (builder_sliceToLimits kind b)) = blimitAfter b"
  "brange (fst (builder_sliceToLimits kind b)) = brange b"
  by (simp_all add: sliceToLimits_state cut_after_def cut_before_def)

lemma truthful_sliceToLimits:
  assumes "truthful T b" and "0 \<le> blimitBefore b" and "0 \<le> blimitAfter b"
  shows "truthful T (fst (builder_sliceToLimits kind b))"
proof (cases "is_null kind (bkey b)")
  case False
  let ?n = "fst (cut_counts b)" and ?m = "snd (cut_counts b)"
  have p: "lower_bound (<) (bids b) (bkey b) \<le> length (bids b)" by simp
  have "nat ?n \<le> length (bids b)" using p assms(2) unfolding cut_counts_def by (simp only: fst_conv nat_le_iff; linarith)
  then have "truthful T (cut_before ?n b)"
    using truthful_drop [OF assms(1), of "nat ?n"] assms(1) by (auto simp: cut_before_def)
  moreover have "0 < ?m \<Longrightarrow> nat ?m \<le> length (bids (cut_before ?n b))"
    using p assms(2,3) by (auto simp: cut_before_def cut_counts_def)
  ultimately have "truthful T (cut_after ?m (cut_before ?n b))"
    using truthful_take [of T "cut_before ?n b" "nat ?m"] by (auto simp: cut_after_def)
  with False show ?thesis by (simp add: sliceToLimits_state)
qed (simp add: sliceToLimits_state assms)

lemma cut_window:
  assumes "sorted_wrt (<) (bids b)" and "0 \<le> blimitBefore b" and "0 \<le> blimitAfter b"
  shows "bids (cut_after (snd (cut_counts b)) (cut_before (fst (cut_counts b)) b)) =
    window (bkey b) (blimitBefore b) (blimitAfter b) (bids b)"
proof -
  define p where "p = lower_bound (<) (bids b) (bkey b)"
  have p: "p \<le> length (bids b)" by (simp add: p_def)
  have "bids (cut_after (snd (cut_counts b)) (cut_before (fst (cut_counts b)) b)) =
    take (nat (min (int p) (blimitBefore b) + min (int (length (bids b)) - int p) (blimitAfter b + 1)))
      (drop (nat (int p - min (int p) (blimitBefore b))) (bids b))"
    using p assms(2,3)
    by (auto simp: cut_after_def cut_before_def cut_counts_def p_def [symmetric] min_def nat_diff_distrib' nat_add_distrib)
  then show ?thesis using window_take_drop [OF assms, of "bkey b"] by (simp add: p_def)
qed

section \<open>Merging\<close>

lemma truthful_fillSkipped:
  assumes "truthful T b"
  shows "truthful T (builder_fillSkipped b)"
proof -
  have "bids b \<noteq> [] \<Longrightarrow> int (card T) = ids_below T (hd (bids b)) + int (length (bids b)) + ids_above T (last (bids b))"
    using card_segment [of T "bids b"] assms by (simp add: truthful_def)
  then show ?thesis
    using assms
    by (auto simp: builder_fillSkipped_def truthful_def split: option.splits)
qed

lemma fillSkipped_fixed [simp]:
  "bids (builder_fillSkipped b) = bids b" "bkey (builder_fillSkipped b) = bkey b"
  "blimitBefore (builder_fillSkipped b) = blimitBefore b"
  "blimitAfter (builder_fillSkipped b) = blimitAfter b"
  "bfullCount (builder_fillSkipped b) = bfullCount b"
  by (simp_all add: builder_fillSkipped_def split: option.splits)

lemma truthful_fillAndSlice:
  "truthful T b \<Longrightarrow> 0 \<le> blimitBefore b \<Longrightarrow> 0 \<le> blimitAfter b \<Longrightarrow>
    truthful T (fst (builder_fillSkippedAndSliceToLimits kind b))"
  unfolding builder_fillSkippedAndSliceToLimits_def
  by (rule truthful_sliceToLimits [OF truthful_fillSkipped]) simp_all

lemma find_in_segment:
  assumes "segment_of T ids" and "finite T" and "x \<in> set ids"
  shows "flat_set_find (<) x ids < length ids"
    and "ids_below T x = ids_below T (hd ids) + int (flat_set_find (<) x ids)"
    and "ids_above T x = ids_above T (last ids) + (int (length ids) - int (flat_set_find (<) x ids) - 1)"
proof -
  have sorted: "sorted_wrt (<) ids" using assms(1) by (simp add: segment_of_def)
  from assms(3) obtain i where i: "i < length ids" "ids ! i = x" by (auto simp: in_set_conv_nth)
  then have f: "flat_set_find (<) x ids = i" using lin.remove_find [OF sorted] by blast
  with i(1) show "flat_set_find (<) x ids < length ids" by simp
  have parts: "take i ids @ drop i ids = ids" "take (Suc i) ids @ drop (Suc i) ids = ids" by simp_all
  have hd: "hd (drop i ids) = x" using i by (simp add: hd_drop_conv_nth)
  have last: "last (take (Suc i) ids) = x" using i by (simp add: take_Suc_conv_app_nth)
  show "ids_below T x = ids_below T (hd ids) + int (flat_set_find (<) x ids)"
  proof (cases "i = 0")
    case True
    then show ?thesis using i f by (cases ids) auto
  next
    case False
    then have "hd (take i ids) = hd ids" "take i ids \<noteq> []" "drop i ids \<noteq> []" using i(1) by auto
    with card_below_split(1) [of T "take i ids" "drop i ids"] assms parts hd f i(1) show ?thesis by simp
  qed
  show "ids_above T x = ids_above T (last ids) + (int (length ids) - int (flat_set_find (<) x ids) - 1)"
  proof (cases "drop (Suc i) ids = []")
    case True
    then have len: "length ids = Suc i" using i(1) by simp
    then have "last ids = x" using i by (cases ids rule: rev_cases) (auto simp: nth_append)
    then show ?thesis using f len by simp
  next
    case False
    then have "last (drop (Suc i) ids) = last ids" "take (Suc i) ids \<noteq> []" using i(1) by auto
    with card_below_split(2) [of T "take (Suc i) ids" "drop (Suc i) ids"] assms parts last f i(1) False
    show ?thesis by simp
  qed
qed

lemma ids_nonneg [simp]: "0 \<le> ids_below T k" "0 \<le> ids_above T k"
  by (simp_all add: ids_below_def ids_above_def)

lemma adjust_in_segment:
  assumes "segment_of T ids" and "finite T" and "x \<in> set ids"
  shows "adjustSkippedBefore ids x (ids_below T x) = Some (ids_below T (hd ids))"
    and "adjustSkippedAfter ids x (ids_above T x) = Some (ids_above T (last ids))"
proof -
  note f = find_in_segment [OF assms]
  show "adjustSkippedBefore ids x (ids_below T x) = Some (ids_below T (hd ids))"
    using f(1) by (simp add: adjustSkippedBefore_def f(2))
  show "adjustSkippedAfter ids x (ids_above T x) = Some (ids_above T (last ids))"
    using f(1) by (simp add: adjustSkippedAfter_def f(3))
qed

text \<open>What the merged data must be for the builder to stay right.\<close>

definition truthful_data :: "'k::linorder set \<Rightarrow> int option \<Rightarrow> 'k list \<Rightarrow> int option \<Rightarrow> int option \<Rightarrow> bool" where
  "truthful_data T count ms before after \<longleftrightarrow> (\<forall>c. count = Some c \<longrightarrow> c = int (card T))
     \<and> segment_of T ms
     \<and> (\<forall>n. ms \<noteq> [] \<longrightarrow> before = Some n \<longrightarrow> n = ids_below T (hd ms))
     \<and> (\<forall>n. ms \<noteq> [] \<longrightarrow> after = Some n \<longrightarrow> n = ids_above T (last ms))"

lemma merge_empty_truthful:
  assumes "truthful T b" and "c = int (card T)" and "c \<le> int (length (bids b))"
  shows "truthful T (b\<lparr>bfullCount := Some (int (length (bids b))), bskippedBefore := Some 0,
    bskippedAfter := Some 0\<rparr>)"
proof -
  have fin: "finite T" and seg: "segment_of T (bids b)" using assms(1) by (simp_all add: truthful_def)
  have "sorted_wrt (<) (bids b)" "set (bids b) \<subseteq> T" using seg by (simp_all add: segment_of_def)
  then have card: "card (set (bids b)) = length (bids b)" by (simp add: strict_sorted_iff distinct_card)
  have "set (bids b) = T"
    using card_seteq [OF fin \<open>set (bids b) \<subseteq> T\<close>] assms(2,3) card by simp
  moreover from this have "int (card T) = int (length (bids b))" using card by simp
  moreover have "bids b \<noteq> [] \<Longrightarrow> ids_below T (hd (bids b)) = 0 \<and> ids_above T (last (bids b)) = 0"
    using card_segment [OF seg fin] \<open>int (card T) = int (length (bids b))\<close>
      ids_nonneg [of T "hd (bids b)"] ids_nonneg [of T "last (bids b)"] by linarith
  ultimately show ?thesis using fin seg by (auto simp: truthful_def)
qed

lemma truthful_resultI:
  "r = Some p \<Longrightarrow> truthful T (fst p) \<Longrightarrow> \<exists>b' fired. r = Some (b', fired) \<and> truthful T b'"
  by (cases p) auto

lemma truthful_merge:
  assumes b: "truthful T b" and limits: "0 \<le> blimitBefore b" "0 \<le> blimitAfter b"
    and data: "truthful_data T count ms before after"
    and seg: "ms \<noteq> [] \<Longrightarrow> segment_of T (flat_set_merge (<) ms (bids b))"
  shows "\<exists>b' fired. builder_mergeSliceData kind count ms before after b = Some (b', fired) \<and> truthful T b'"
proof (cases "ms = []")
  case True
  let ?b = "case count of None \<Rightarrow> b
    | Some c \<Rightarrow> if bfullCount b \<noteq> Some c then
        (if 0 \<le> c \<and> c \<le> int (length (bids b))
         then b\<lparr>bfullCount := Some (int (length (bids b))), bskippedBefore := Some 0, bskippedAfter := Some 0\<rparr>
         else b\<lparr>bfullCount := Some c\<rparr>) else b"
  have "truthful T ?b"
  proof (cases count)
    case (Some c)
    with data have c: "c = int (card T)" by (simp add: truthful_data_def)
    have "truthful T (b\<lparr>bfullCount := Some c\<rparr>)" using b c by (simp add: truthful_def)
    with Some b merge_empty_truthful [OF b c] show ?thesis by simp
  qed (use b in simp)
  moreover have "0 \<le> blimitBefore ?b" "0 \<le> blimitAfter ?b"
    using limits by (simp_all split: option.splits)
  ultimately have t: "truthful T (fst (builder_fillSkippedAndSliceToLimits kind ?b))"
    by (rule truthful_fillAndSlice)
  have "builder_mergeSliceData kind count ms before after b =
    Some (builder_fillSkippedAndSliceToLimits kind ?b)"
    using True by (simp add: builder_mergeSliceData_def)
  then show ?thesis using t by (rule truthful_resultI)
next
  case False
  let ?ids = "flat_set_merge (<) ms (bids b)"
  have fin: "finite T" using b by (simp add: truthful_def)
  have ids: "set ?ids = set (bids b) \<union> set ms" by simp
  note seg' = seg [OF False]
  have adjB: "adjustSkippedBefore ?ids x (ids_below T x) = Some (ids_below T (hd ?ids))"
    and adjA: "adjustSkippedAfter ?ids x (ids_above T x) = Some (ids_above T (last ?ids))"
    if "x \<in> set (bids b) \<union> set ms" for x
    using adjust_in_segment [OF seg' fin] that ids by blast+
  have msh: "hd ms \<in> set ms" "last ms \<in> set ms" using False by simp_all
  have bh: "bids b \<noteq> [] \<Longrightarrow> hd (bids b) \<in> set (bids b)" "bids b \<noteq> [] \<Longrightarrow> last (bids b) \<in> set (bids b)" by simp_all
  define before_opt where "before_opt = (case before of
      Some n \<Rightarrow> map_option Some (adjustSkippedBefore ?ids (hd ms) n)
    | None \<Rightarrow> if bids b \<noteq> [] \<and> was_real kind (hd (bids b)) \<and> bskippedBefore b \<noteq> None
        then map_option Some (adjustSkippedBefore ?ids (hd (bids b)) (the (bskippedBefore b))) else Some None)"
  define after_opt where "after_opt = (case after of
      Some n \<Rightarrow> map_option Some (adjustSkippedAfter ?ids (last ms) n)
    | None \<Rightarrow> if bids b \<noteq> [] \<and> was_real kind (last (bids b)) \<and> bskippedAfter b \<noteq> None
        then map_option Some (adjustSkippedAfter ?ids (last (bids b)) (the (bskippedAfter b))) else Some None)"
  have "\<exists>bef. before_opt = Some bef \<and> (bef = None \<or> bef = Some (ids_below T (hd ?ids)))"
  proof (cases before)
    case None
    have "the (bskippedBefore b) = ids_below T (hd (bids b))" if "bids b \<noteq> []" "bskippedBefore b \<noteq> None"
      using b that by (auto simp: truthful_def)
    then show ?thesis using None adjB [of "hd (bids b)"] bh(1) by (simp add: before_opt_def)
  next
    case (Some n)
    then have "n = ids_below T (hd ms)" using data False by (simp add: truthful_data_def)
    then show ?thesis using Some adjB [of "hd ms"] msh by (simp add: before_opt_def)
  qed
  then obtain bef where bef: "before_opt = Some bef" "bef = None \<or> bef = Some (ids_below T (hd ?ids))" by blast
  have "\<exists>aft. after_opt = Some aft \<and> (aft = None \<or> aft = Some (ids_above T (last ?ids)))"
  proof (cases after)
    case None
    have "the (bskippedAfter b) = ids_above T (last (bids b))" if "bids b \<noteq> []" "bskippedAfter b \<noteq> None"
      using b that by (auto simp: truthful_def)
    then show ?thesis using None adjA [of "last (bids b)"] bh(2) by (simp add: after_opt_def)
  next
    case (Some n)
    then have "n = ids_above T (last ms)" using data False by (simp add: truthful_data_def)
    then show ?thesis using Some adjA [of "last ms"] msh by (simp add: after_opt_def)
  qed
  then obtain aft where aft: "after_opt = Some aft" "aft = None \<or> aft = Some (ids_above T (last ?ids))" by blast
  let ?b = "b\<lparr>bfullCount := (if count \<noteq> None then count else bfullCount b), bids := ?ids,
    bskippedBefore := bef, bskippedAfter := aft\<rparr>"
  have "builder_mergeSliceData kind count ms before after b = Some (builder_fillSkippedAndSliceToLimits kind ?b)"
    unfolding builder_mergeSliceData_def before_opt_def [symmetric] after_opt_def [symmetric] Let_def
    using False bef(1) aft(1) by simp
  moreover have "truthful T ?b"
    using fin seg' bef(2) aft(2) b data by (auto simp: truthful_def truthful_data_def)
  then have "truthful T (fst (builder_fillSkippedAndSliceToLimits kind ?b))"
    by (rule truthful_fillAndSlice) (simp_all add: limits)
  ultimately show ?thesis by (rule truthful_resultI)
qed

section \<open>Initial results and updates\<close>

lemma segment_of_interval:
  assumes "finite T" and "range_from r \<le> range_till r"
  shows "segment_of T (sorted_list_of_set (T \<inter> range_set r))"
proof -
  let ?ms = "sorted_list_of_set (T \<inter> range_set r)"
  have set: "set ?ms = T \<inter> range_set r" using assms(1) by simp
  have "t \<in> range_set r" if "?ms \<noteq> []" "hd ?ms \<le> t" "t \<le> last ?ms" for t
  proof -
    have "hd ?ms \<in> range_set r" "last ?ms \<in> range_set r"
      using that(1) set hd_in_set [OF that(1)] last_in_set [OF that(1)] by blast+
    with that show ?thesis by (auto simp: range_set_def intro: order_trans)
  qed
  then show ?thesis using set by (auto simp: segment_of_def)
qed

text \<open>Two gapless parts that meet are one.\<close>

lemma segment_merge:
  fixes T :: "'k::linorder set"
  assumes fin: "finite T" and ids: "segment_of T ids" "ids \<noteq> []"
    and r: "range_from r \<le> last ids" "hd ids \<le> range_till r" "range_from r \<le> range_till r"
    and ms: "set ms = T \<inter> range_set r"
  shows "segment_of T (flat_set_merge (<) ms ids)"
proof -
  let ?all = "flat_set_merge (<) ms ids"
  have sorted: "sorted_wrt (<) ids" and sub: "set ids \<subseteq> T"
    and gap: "\<And>t. t \<in> T \<Longrightarrow> hd ids \<le> t \<Longrightarrow> t \<le> last ids \<Longrightarrow> t \<in> set ids"
    using ids by (auto simp: segment_of_def)
  note h = sorted_hd_last [OF sorted]
  have set: "set ?all = set ids \<union> set ms" by simp
  have low: "min (range_from r) (hd ids) \<le> x" and high: "x \<le> max (range_till r) (last ids)" if "x \<in> set ?all" for x
    using that set ms h by (auto simp: range_set_def min_le_iff_disj le_max_iff_disj)
  have "t \<in> set ids \<union> set ms" if "t \<in> T" "min (range_from r) (hd ids) \<le> t" "t \<le> max (range_till r) (last ids)" for t
  proof (cases "hd ids \<le> t \<and> t \<le> last ids")
    case True
    then show ?thesis using gap that(1) by blast
  next
    case False
    then have "range_from r \<le> t \<and> t \<le> range_till r"
      using that(2,3) r by (auto simp: min_le_iff_disj le_max_iff_disj)
    then show ?thesis using that(1) ms by (simp add: range_set_def)
  qed
  then have "t \<in> set ?all" if "t \<in> T" "?all \<noteq> []" "hd ?all \<le> t" "t \<le> last ?all" for t
    using that low [OF hd_in_set [OF that(2)]] high [OF last_in_set [OF that(2)]] set by auto
  then show ?thesis using sub ms set by (auto simp: segment_of_def)
qed

text \<open>An update that carries all ids of \<open>T\<close> in its range, and the right count.\<close>

definition truthful_update :: "'k::linorder set \<Rightarrow> 'k slice_update \<Rightarrow> bool" where
  "truthful_update T upd \<longleftrightarrow> range_from (upd_range upd) \<le> range_till (upd_range upd)
     \<and> (\<forall>c. upd_count upd = Some c \<longrightarrow> c = int (card T))
     \<and> (\<forall>ms. upd_messages upd = Some ms \<longrightarrow> ms = sorted_list_of_set (T \<inter> range_set (upd_range upd)))"

definition within :: "'k::linorder range \<Rightarrow> 'k set \<Rightarrow> bool" where
  "within r T \<longleftrightarrow> (\<forall>t \<in> T. range_from r \<le> t \<and> t \<le> range_till r)"

lemma update_skips:
  assumes "finite T" and "within (full_range kind) T" and "range_from r \<le> range_till r"
  defines "ms \<equiv> sorted_list_of_set (T \<inter> range_set r)"
  shows "ms \<noteq> [] \<Longrightarrow> range_from r = range_from (full_range kind) \<Longrightarrow> ids_below T (hd ms) = 0"
    and "ms \<noteq> [] \<Longrightarrow> range_till r = range_till (full_range kind) \<Longrightarrow> ids_above T (last ms) = 0"
proof -
  have set: "set ms = T \<inter> range_set r" and sorted: "sorted_wrt (<) ms" using assms(1) by (simp_all add: ms_def)
  note h = sorted_hd_last [OF sorted]
  show "ids_below T (hd ms) = 0" if "ms \<noteq> []" "range_from r = range_from (full_range kind)"
  proof -
    have "t \<in> set ms" if t: "t \<in> T" "t < hd ms" for t
      using t assms(2) hd_in_set [OF \<open>ms \<noteq> []\<close>] \<open>range_from r = _\<close> unfolding set
      by (auto simp: within_def range_set_def)
    then have "{t \<in> T. t < hd ms} = {}" using h(1) by (auto dest: leD)
    then show ?thesis by (simp only: ids_below_def card.empty of_nat_0)
  qed
  show "ids_above T (last ms) = 0" if "ms \<noteq> []" "range_till r = range_till (full_range kind)"
  proof -
    have "t \<in> set ms" if t: "t \<in> T" "last ms < t" for t
      using t assms(2) last_in_set [OF \<open>ms \<noteq> []\<close>] \<open>range_till r = _\<close> unfolding set
      by (auto simp: within_def range_set_def)
    then have "{t \<in> T. last ms < t} = {}" using h(2) by (auto dest: leD)
    then show ?thesis by (simp only: ids_above_def card.empty of_nat_0)
  qed
qed

lemma truthful_applyUpdate:
  assumes b: "truthful T b" and limits: "0 \<le> blimitBefore b" "0 \<le> blimitAfter b"
    and T: "within (full_range kind) T" and upd: "truthful_update T upd"
  shows "\<exists>changed b' fired. builder_applyUpdate kind upd b = Some (changed, b', fired) \<and> truthful T b'"
proof -
  have fin: "finite T" and seg: "segment_of T (bids b)" using b by (simp_all add: truthful_def)
  let ?r = "upd_range upd" and ?key = "\<lparr>range_from = (if bids b = [] then bkey b else hd (bids b)),
                 range_till = (if bids b = [] then bkey b else last (bids b))\<rparr>"
  let ?need = "upd_messages upd \<noteq> None \<and> ranges_intersect ?r ?key"
  have r: "range_from ?r \<le> range_till ?r" using upd by (simp add: truthful_update_def)
  show ?thesis
  proof (cases "\<not> ?need \<and> upd_count upd = None")
    case True
    then show ?thesis using b by (auto simp: builder_applyUpdate_def Let_def)
  next
    case False
    define ms where "ms = (if ?need then the (upd_messages upd) else [])"
    let ?sb = "if range_from ?r = range_from (full_range kind) then Some 0 else None :: int option"
    let ?sa = "if range_till ?r = range_till (full_range kind) then Some 0 else None :: int option"
    have ms: "ms \<noteq> [] \<Longrightarrow> ms = sorted_list_of_set (T \<inter> range_set ?r)"
      using upd by (auto simp: ms_def truthful_update_def split: if_splits)
    have "truthful_data T (upd_count upd) ms ?sb ?sa"
    proof (cases "ms = []")
      case True
      then show ?thesis using upd by (simp add: truthful_data_def truthful_update_def segment_of_def)
    next
      case False
      note e = ms [OF False]
      then show ?thesis
        unfolding e using upd segment_of_interval [OF fin r] update_skips [OF fin T r]
        by (auto simp: truthful_data_def truthful_update_def)
    qed
    moreover have "segment_of T (flat_set_merge (<) ms (bids b))" if "ms \<noteq> []"
    proof -
      have need: "?need" using that unfolding ms_def by (meson)
      have set: "set ms = T \<inter> range_set ?r" unfolding ms [OF that] using fin by simp
      show ?thesis
      proof (cases "bids b = []")
        case True
        have "sorted_wrt (<) ms" unfolding ms [OF that] by simp
        then have "flat_set_merge (<) ms [] = ms" by (rule merge_sorted_id)
        then show ?thesis using segment_of_interval [OF fin r] True ms [OF that] by simp
      next
        case False
        then show ?thesis
          using segment_merge [OF fin seg False _ _ r set] need by (simp add: ranges_intersect_def)
      qed
    qed
    ultimately have "\<exists>b' fired. builder_mergeSliceData kind (upd_count upd) ms ?sb ?sa b = Some (b', fired) \<and> truthful T b'"
      by (rule truthful_merge [OF b limits])
    then obtain b' fired where
      merge: "builder_mergeSliceData kind (upd_count upd) ms ?sb ?sa b = Some (b', fired)" and b': "truthful T b'"
      by (elim exE conjE)
    have "builder_applyUpdate kind upd b = Some (True, b', fired)"
      by (simp only: builder_applyUpdate_def Let_def if_not_P [OF False] ms_def [symmetric] merge option.map)
    with b' show ?thesis by (intro exI conjI)
  qed
qed

text \<open>The result of a query that is right about \<open>T\<close>.\<close>

definition truthful_result :: "'k::linorder set \<Rightarrow> 'k list_result \<Rightarrow> bool" where
  "truthful_result T res \<longleftrightarrow>
     truthful_data T (res_count res) (res_messageIds res) (res_skippedBefore res) (res_skippedAfter res)"

lemma truthful_init: "finite T \<Longrightarrow> truthful T (builder_init r key before after)"
  by (simp add: truthful_def builder_init_def segment_of_def)

lemma truthful_applyInitial:
  assumes "finite T" and "truthful_result T res" and "0 \<le> before" and "0 \<le> after"
  shows "\<exists>b' fired. builder_applyInitial kind res (builder_init r key before after) = Some (True, b', fired)
    \<and> truthful T b'"
proof -
  let ?b = "builder_init r key before after"
  have ids: "bids ?b = []" by (simp add: builder_init_def)
  have data: "truthful_data T (res_count res) (res_messageIds res) (res_skippedBefore res) (res_skippedAfter res)"
    using assms(2) by (simp add: truthful_result_def)
  have "segment_of T (flat_set_merge (<) (res_messageIds res) (bids ?b))"
    unfolding ids using data merge_sorted_id [of "res_messageIds res"]
    by (simp add: truthful_data_def segment_of_def)
  from truthful_merge [where kind = kind, OF truthful_init [OF assms(1)] _ _ data this] assms(3,4)
  obtain b' fired where "builder_mergeSliceData kind (res_count res) (res_messageIds res)
      (res_skippedBefore res) (res_skippedAfter res) ?b = Some (b', fired)" "truthful T b'"
    by (metis builder_init_def slice_builder.select_convs(7,8))
  then show ?thesis by (simp add: builder_applyInitial_def)
qed

lemma card_filter_remove:
  assumes "finite T" and "m \<in> T"
  shows "int (card {t \<in> T - {m}. P t}) = int (card {t \<in> T. P t}) - (if P m then 1 else 0)"
proof -
  have e: "{t \<in> T - {m}. P t} = {t \<in> T. P t} - {m}" by auto
  show ?thesis
  proof (cases "P m")
    case True
    then have "Suc (card ({t \<in> T. P t} - {m})) = card {t \<in> T. P t}"
      using assms by (intro card_Suc_Diff1) auto
    then have "int (card ({t \<in> T. P t} - {m})) = int (card {t \<in> T. P t}) - 1" by linarith
    with True show ?thesis unfolding e by simp
  next
    case False
    then have "{t \<in> T. P t} - {m} = {t \<in> T. P t}" by auto
    with False show ?thesis unfolding e by simp
  qed
qed

lemma ids_below_remove:
  "finite T \<Longrightarrow> m \<in> T \<Longrightarrow> ids_below (T - {m}) k = ids_below T k - (if m < k then 1 else 0)"
  unfolding ids_below_def by (rule card_filter_remove)

lemma ids_above_remove:
  "finite T \<Longrightarrow> m \<in> T \<Longrightarrow> ids_above (T - {m}) k = ids_above T k - (if k < m then 1 else 0)"
  unfolding ids_above_def by (rule card_filter_remove)

lemma segment_remove:
  assumes seg: "segment_of T (A @ m # B)" and fin: "finite T"
  shows "segment_of (T - {m}) (A @ B)"
    and "A @ B \<noteq> [] \<Longrightarrow> ids_below (T - {m}) (hd (A @ B)) = ids_below T (hd (A @ m # B))"
    and "A @ B \<noteq> [] \<Longrightarrow> ids_above (T - {m}) (last (A @ B)) = ids_above T (last (A @ m # B))"
proof -
  have m: "m \<in> T" and sub: "set (A @ B) \<subseteq> T"
    and gap: "\<And>t. t \<in> T \<Longrightarrow> hd (A @ m # B) \<le> t \<Longrightarrow> t \<le> last (A @ m # B) \<Longrightarrow> t \<in> set (A @ m # B)"
    and sorted: "sorted_wrt (<) (A @ m # B)" using seg by (auto simp: segment_of_def)
  have A: "\<forall>a \<in> set A. a < m" and B: "\<forall>b \<in> set B. m < b" and AB: "sorted_wrt (<) (A @ B)"
    using sorted by (auto simp: sorted_wrt_append)
  note h = sorted_hd_last [OF sorted]
  show "segment_of (T - {m}) (A @ B)" unfolding segment_of_def
  proof (intro conjI ballI impI AB)
    show "set (A @ B) \<subseteq> T - {m}" using sub A B by auto
    fix t assume t: "t \<in> T - {m}" "A @ B \<noteq> []" "hd (A @ B) \<le> t" "t \<le> last (A @ B)"
    have "hd (A @ B) \<in> set (A @ m # B)" "last (A @ B) \<in> set (A @ m # B)"
      using hd_in_set [OF t(2)] last_in_set [OF t(2)] by auto
    then have "hd (A @ m # B) \<le> t" "t \<le> last (A @ m # B)" using t(3,4) h by (meson order_trans)+
    then show "t \<in> set (A @ B)" using gap t(1) by auto
  qed
  show "ids_below (T - {m}) (hd (A @ B)) = ids_below T (hd (A @ m # B))" if "A @ B \<noteq> []"
  proof (cases "A = []")
    case True
    then show ?thesis
      using card_below_split(1) [of T "[m]" B] seg fin that B m by (simp add: ids_below_remove)
  next
    case False
    then have "\<not> m < hd A" using A by (auto dest: less_asym)
    with False show ?thesis using fin m by (simp add: ids_below_remove)
  qed
  show "ids_above (T - {m}) (last (A @ B)) = ids_above T (last (A @ m # B))" if "A @ B \<noteq> []"
  proof (cases "B = []")
    case True
    then show ?thesis
      using card_below_split(2) [of T A "[m]"] seg fin that A m by (simp add: ids_above_remove)
  next
    case False
    then have "\<not> last B < m" using B by (auto dest: less_asym)
    with False show ?thesis using fin m by (simp add: ids_above_remove)
  qed
qed

lemma remove_split:
  assumes "sorted_wrt (<) (ids :: 'k::linorder list)" and "m \<in> set ids"
  obtains A B where "ids = A @ m # B" and "fst (flat_set_remove (<) m ids) = A @ B"
proof -
  from assms(2) obtain A B where ids: "ids = A @ m # B" by (meson split_list)
  note rem = lin.remove_find [OF assms(1), of m]
  have "sorted_wrt (<) (A @ B)" "m \<notin> set (A @ B)" using assms(1) ids by (auto simp: sorted_wrt_append)
  moreover from this have "set (A @ B) = set ids - {m}" using ids by auto
  ultimately have "fst (flat_set_remove (<) m ids) = A @ B"
    using rem by (intro lin.sorted_set_unique) simp_all
  with ids show thesis by (rule that)
qed

lemma removeOne_counted:
  assumes "truthful T b" and "m \<in> T"
  shows "(if bfullCount b \<noteq> None \<and> 0 < the (bfullCount b)
      then b\<lparr>bfullCount := map_option (\<lambda>n. n - 1) (bfullCount b)\<rparr> else b) =
    b\<lparr>bfullCount := map_option (\<lambda>n. n - 1) (bfullCount b)\<rparr>"
proof (cases "bfullCount b")
  case None
  then show ?thesis by (cases b) simp
next
  case (Some c)
  have "0 < card T" using assms card_gt_0_iff [of T] by (auto simp: truthful_def)
  with Some assms(1) show ?thesis by (auto simp: truthful_def)
qed

lemma truthful_removeOne:
  assumes b: "truthful T b" and m: "m \<in> T"
  shows "truthful (T - {m}) (snd (builder_removeOne m b))"
proof -
  have fin: "finite T" and seg: "segment_of T (bids b)" using b by (simp_all add: truthful_def)
  have sorted: "sorted_wrt (<) (bids b)" using seg by (simp add: segment_of_def)
  have card: "int (card (T - {m})) = int (card T) - 1"
    using fin m card_gt_0_iff [of T] by (auto simp: of_nat_diff Suc_le_eq)
  define b1 where "b1 = b\<lparr>bfullCount := map_option (\<lambda>n. n - 1) (bfullCount b)\<rparr>"
  have b1: "bids b1 = bids b" "bskippedBefore b1 = bskippedBefore b" "bskippedAfter b1 = bskippedAfter b"
    and full: "\<forall>c. bfullCount b1 = Some c \<longrightarrow> c = int (card (T - {m}))"
    using b card by (auto simp: b1_def truthful_def)
  note rem = builder_removeOne_def [of m b, unfolded Let_def removeOne_counted [OF b m], folded b1_def]
  have tB: "\<And>n. bids b \<noteq> [] \<Longrightarrow> bskippedBefore b = Some n \<Longrightarrow> n = ids_below T (hd (bids b))"
    and tA: "\<And>n. bids b \<noteq> [] \<Longrightarrow> bskippedAfter b = Some n \<Longrightarrow> n = ids_above T (last (bids b))"
    using b by (simp_all add: truthful_def)
  show ?thesis
  proof (cases "m \<in> set (bids b)")
    case True
    then obtain A B where AB: "bids b = A @ m # B" "fst (flat_set_remove (<) m (bids b)) = A @ B"
      by (rule remove_split [OF sorted])
    have "flat_set_contains (<) m (bids b1)" using True lin.contains_set [OF sorted] b1 by simp
    then have e: "snd (builder_removeOne m b) = b1\<lparr>bids := A @ B\<rparr>" using AB(2) b1 by (simp add: rem)
    have ne: "bids b \<noteq> []" using AB(1) by simp
    note s = segment_remove [OF seg [unfolded AB(1)] fin, folded AB(1)]
    show ?thesis
      unfolding e truthful_def using fin s full tB [OF ne] tA [OF ne] b1 by simp
  next
    case False
    then have no: "\<not> flat_set_contains (<) m (bids b1)" using lin.contains_set [OF sorted] b1 by simp
    have seg': "segment_of (T - {m}) (bids b)" using seg False by (auto simp: segment_of_def)
    show ?thesis
    proof (cases "bids b = []")
      case True
      then have "snd (builder_removeOne m b) = b1" using no b1 by (simp add: rem)
      then show ?thesis using fin full seg' True b1 by (simp add: truthful_def)
    next
      case ne: False
      have "m < hd (bids b) \<or> last (bids b) < m"
        using seg m False ne by (auto simp: segment_of_def not_less)
      moreover have hl: "hd (bids b) \<le> last (bids b)" using sorted_hd_last(1) [OF sorted] ne by simp
      ultimately consider (low) "m < hd (bids b)" "\<not> last (bids b) < m" | (high) "last (bids b) < m" "\<not> m < hd (bids b)"
        by (meson less_le_trans less_asym)
      then show ?thesis
      proof cases
        case low
        have pos: "0 < ids_below T (hd (bids b))"
          using ids_below_remove [OF fin m, of "hd (bids b)"] low ids_nonneg(1) [of "T - {m}" "hd (bids b)"] by simp
        have e: "snd (builder_removeOne m b) = b1\<lparr>bskippedBefore := map_option (\<lambda>n. n - 1) (bskippedBefore b)\<rparr>"
        proof (cases "bskippedBefore b")
          case None
          then show ?thesis using no ne b1 low by (simp add: rem)
        next
          case (Some n)
          then show ?thesis using no ne b1 low pos tB [OF ne Some] by (simp add: rem)
        qed
        show ?thesis
          unfolding e truthful_def
          using fin seg' full tB [OF ne] tA [OF ne] b1 low ids_below_remove [OF fin m] ids_above_remove [OF fin m] by auto
      next
        case high
        have pos: "0 < ids_above T (last (bids b))"
          using ids_above_remove [OF fin m, of "last (bids b)"] high ids_nonneg(2) [of "T - {m}" "last (bids b)"] by simp
        have e: "snd (builder_removeOne m b) = b1\<lparr>bskippedAfter := map_option (\<lambda>n. n - 1) (bskippedAfter b)\<rparr>"
        proof (cases "bskippedAfter b")
          case None
          then show ?thesis using no ne b1 high by (simp add: rem)
        next
          case (Some n)
          then show ?thesis using no ne b1 high pos tA [OF ne Some] by (simp add: rem)
        qed
        show ?thesis
          unfolding e truthful_def
          using fin seg' full tB [OF ne] tA [OF ne] b1 high ids_below_remove [OF fin m] ids_above_remove [OF fin m] by auto
      qed
    qed
  qed
qed

section \<open>When nothing more is requested\<close>

lemma window_segment:
  fixes key :: "'k::linorder"
  assumes sorted: "sorted_wrt (<) (P @ ids @ S)"
    and bef: "P = [] \<or> before \<le> int (length (filter (\<lambda>m. m < key) ids))" "1 \<le> before"
    and aft: "S = [] \<or> after + 1 \<le> int (length (filter (\<lambda>m. key \<le> m) ids))" "0 \<le> after"
  shows "window key before after (P @ ids @ S) = window key before after ids"
proof -
  have order: "\<forall>p \<in> set P. \<forall>i \<in> set ids. p < i" "\<forall>i \<in> set ids. \<forall>s \<in> set S. i < s"
    using sorted by (auto simp: sorted_wrt_append)
  have P: "\<forall>p \<in> set P. p < key"
  proof (cases "P = []")
    case False
    then have "filter (\<lambda>m. m < key) ids \<noteq> []" using bef by auto
    then obtain i where "i \<in> set ids" "i < key" by (auto simp: filter_empty_conv)
    then show ?thesis using order(1) by (meson less_trans)
  qed simp
  have S: "\<forall>s \<in> set S. key \<le> s"
  proof (cases "S = []")
    case False
    then have "filter (\<lambda>m. key \<le> m) ids \<noteq> []" using aft by auto
    then obtain i where "i \<in> set ids" "key \<le> i" by (auto simp: filter_empty_conv)
    then show ?thesis using order(2) by (meson less_imp_le order_trans)
  qed simp
  have f: "filter (\<lambda>m. m < key) P = P" "filter (\<lambda>m. key \<le> m) P = []"
    "filter (\<lambda>m. m < key) S = []" "filter (\<lambda>m. key \<le> m) S = S"
    using P S by (auto simp: filter_empty_conv filter_id_conv not_less not_le)
  let ?below = "filter (\<lambda>m. m < key) ids" and ?above = "filter (\<lambda>m. key \<le> m) ids"
  have "drop (length (P @ ?below) - nat before) (P @ ?below) = drop (length ?below - nat before) ?below"
    using bef by (auto simp: nat_le_iff)
  moreover have "take (nat (after + 1)) (?above @ S) = take (nat (after + 1)) ?above"
    using aft by (auto simp: nat_le_iff)
  ultimately show ?thesis by (simp add: window_def f Let_def)
qed

lemma segment_in_sorted_list:
  assumes "segment_of T ids" and "finite T" and "ids \<noteq> []"
  obtains P S where "sorted_list_of_set T = P @ ids @ S"
    and "int (length P) = ids_below T (hd ids)" and "int (length S) = ids_above T (last ids)"
proof -
  let ?P = "sorted_list_of_set {t \<in> T. t < hd ids}" and ?S = "sorted_list_of_set {t \<in> T. last ids < t}"
  have ids: "sorted_wrt (<) ids" "set ids \<subseteq> T"
    and gap: "\<And>t. t \<in> T \<Longrightarrow> hd ids \<le> t \<Longrightarrow> t \<le> last ids \<Longrightarrow> t \<in> set ids"
    using assms by (auto simp: segment_of_def)
  note h = sorted_hd_last [OF ids(1)]
  have hl: "hd ids \<le> last ids" using h(1) assms(3) by simp
  have fin: "finite {t \<in> T. t < hd ids}" "finite {t \<in> T. last ids < t}" using assms(2) by simp_all
  have "sorted_wrt (<) (?P @ ids @ ?S)"
    using ids(1) fin h hl by (auto simp: sorted_wrt_append intro: less_le_trans le_less_trans)
  moreover have "set (?P @ ids @ ?S) = T"
  proof -
    have "t \<in> {t \<in> T. t < hd ids} \<union> set ids \<union> {t \<in> T. last ids < t}" if "t \<in> T" for t
      using gap [OF that] that by (cases "hd ids \<le> t"; cases "t \<le> last ids") auto
    then show ?thesis using fin ids(2) by auto
  qed
  ultimately have "sorted_list_of_set T = ?P @ ids @ ?S"
    using assms(2) by (intro lin.sorted_set_unique) simp_all
  then show thesis using fin by (intro that [of ?P ?S]) (simp_all add: ids_below_def ids_above_def)
qed

lemma fired_nothing:
  assumes "snd (builder_sliceToLimits kind b) = []" and "\<not> is_null kind (bkey b)"
  shows "fst (cut_counts b) < 0 \<Longrightarrow> \<exists>n. bskippedBefore b = Some n \<and> n \<le> 0"
    and "snd (cut_counts b) < 0 \<Longrightarrow> \<exists>n. bskippedAfter b = Some n \<and> n \<le> 0"
    and "bfullCount b \<noteq> None"
  using assms
  by (auto simp: builder_sliceToLimits_def Let_def cut_counts_def not_less split: if_splits)

lemma slice_complete:
  assumes b: "truthful T b" and quiet: "snd (builder_sliceToLimits kind b) = []"
    and key: "\<not> is_null kind (bkey b)" and limits: "1 \<le> blimitBefore b" "0 \<le> blimitAfter b"
    and ids: "bids b \<noteq> []"
  shows "bids (fst (builder_sliceToLimits kind b)) =
      window (bkey b) (blimitBefore b) (blimitAfter b) (sorted_list_of_set T)"
    and "bfullCount (fst (builder_sliceToLimits kind b)) = Some (int (card T))"
proof -
  have fin: "finite T" and seg: "segment_of T (bids b)" using b by (simp_all add: truthful_def)
  have sorted: "sorted_wrt (<) (bids b)" using seg by (simp add: segment_of_def)
  note fired = fired_nothing [OF quiet key]
  from segment_in_sorted_list [OF seg fin ids] obtain P S
    where T: "sorted_list_of_set T = P @ bids b @ S"
      and P: "int (length P) = ids_below T (hd (bids b))" and S: "int (length S) = ids_above T (last (bids b))" .
  note cut = sorted_cut [OF sorted, of "bkey b"]
  have len: "length (bids b) = length (filter (\<lambda>m. m < bkey b) (bids b)) + length (filter (\<lambda>m. bkey b \<le> m) (bids b))"
    by (metis cut(1,2) append_take_drop_id length_append)
  have counts: "fst (cut_counts b) = int (length (filter (\<lambda>m. m < bkey b) (bids b))) - blimitBefore b"
    "snd (cut_counts b) = int (length (filter (\<lambda>m. bkey b \<le> m) (bids b))) - blimitAfter b - 1"
    using len by (simp_all add: cut_counts_def cut(3))
  have "P = [] \<or> blimitBefore b \<le> int (length (filter (\<lambda>m. m < bkey b) (bids b)))"
  proof (rule disjCI)
    assume "\<not> blimitBefore b \<le> int (length (filter (\<lambda>m. m < bkey b) (bids b)))"
    then obtain n where "bskippedBefore b = Some n" "n \<le> 0" using fired(1) counts by auto
    then have "int (length P) \<le> 0" using b P ids by (simp add: truthful_def)
    then show "P = []" by simp
  qed
  moreover have "S = [] \<or> blimitAfter b + 1 \<le> int (length (filter (\<lambda>m. bkey b \<le> m) (bids b)))"
  proof (rule disjCI)
    assume "\<not> blimitAfter b + 1 \<le> int (length (filter (\<lambda>m. bkey b \<le> m) (bids b)))"
    then obtain n where "bskippedAfter b = Some n" "n \<le> 0" using fired(2) counts by auto
    then have "int (length S) \<le> 0" using b S ids by (simp add: truthful_def)
    then show "S = []" by simp
  qed
  moreover have "sorted_wrt (<) (P @ bids b @ S)" unfolding T [symmetric] by simp
  ultimately have "window (bkey b) (blimitBefore b) (blimitAfter b) (P @ bids b @ S) =
      window (bkey b) (blimitBefore b) (blimitAfter b) (bids b)"
    using limits by (intro window_segment)
  then show "bids (fst (builder_sliceToLimits kind b)) =
      window (bkey b) (blimitBefore b) (blimitAfter b) (sorted_list_of_set T)"
    using cut_window [OF sorted] limits key by (simp add: sliceToLimits_state T)
  show "bfullCount (fst (builder_sliceToLimits kind b)) = Some (int (card T))"
    using fired(3) b by (auto simp: sliceToLimits_fixed truthful_def)
qed

lemma builder_removeOne_limits:
  "blimitBefore (snd (builder_removeOne m b)) = blimitBefore b"
  "blimitAfter (snd (builder_removeOne m b)) = blimitAfter b"
  by (simp_all add: builder_removeOne_def Let_def)

text \<open>Newer ids do not make a builder wrong that knows neither the count nor what it skipped after.\<close>

lemma truthful_newer:
  assumes "truthful T b" and "finite T'" and "T \<subseteq> T'" and "\<forall>t \<in> T' - T. \<forall>i \<in> T. i < t"
  shows "truthful T' (b\<lparr>bfullCount := None, bskippedAfter := None\<rparr>)"
proof -
  have ids: "set (bids b) \<subseteq> T" and sorted: "sorted_wrt (<) (bids b)"
    using assms(1) by (auto simp: truthful_def segment_of_def)
  have "segment_of T' (bids b)"
  proof -
    have "t \<in> T" if "t \<in> T'" "bids b \<noteq> []" "t \<le> last (bids b)" for t
    proof (rule ccontr)
      assume "t \<notin> T"
      then have "last (bids b) < t" using assms(4) that(1) ids last_in_set [OF that(2)] by blast
      then show False using that(3) by simp
    qed
    then show ?thesis using assms(1,3) by (auto simp: truthful_def segment_of_def)
  qed
  moreover have "ids_below T' (hd (bids b)) = ids_below T (hd (bids b))" if "bids b \<noteq> []"
  proof -
    have "hd (bids b) \<in> T" using ids hd_in_set [OF that] by blast
    then have "{t \<in> T'. t < hd (bids b)} = {t \<in> T. t < hd (bids b)}"
      using assms(3,4) by (auto dest: less_asym)
    then show ?thesis by (simp add: ids_below_def)
  qed
  ultimately show ?thesis using assms(1,2) by (simp add: truthful_def)
qed

end
