(* ===== verification/SparseIdsSlice.thy ===== *)
theory SparseIdsSlice
  imports SliceBuilder "HOL-Library.Monad_Syntax"
begin

text \<open>
  \<^verbatim>\<open>SparseIdsSlice\<close>, \<^verbatim>\<open>SparseIdsMergedSlice\<close> and \<^verbatim>\<open>SparseIdsSliceBuilder\<close>
  (\<^verbatim>\<open>data/data_sparse_ids.cpp\<close>, \<^verbatim>\<open>data/data_sparse_ids.h\<close>): the part of a list of message
  ids that a media viewer shows, and the view of a group's part and the part of the group it
  was migrated from as one list.

  A failed \<^verbatim>\<open>Expects\<close> and a dereferenced empty \<^verbatim>\<open>std::optional\<close> are the result \<open>None\<close> of the
  outer option.
\<close>

section \<open>A slice\<close>

record SparseIdsSlice =
  sids :: "MsgId list"
  ssrange :: MsgRange
  sfullCount :: "int option"
  sskippedBefore :: "int option"
  sskippedAfter :: "int option"

definition SparseIdsSlice_empty :: SparseIdsSlice where
  "SparseIdsSlice_empty = \<lparr>sids = [], ssrange = \<lparr>range_from = 0, range_till = 0\<rparr>, sfullCount = None,
     sskippedBefore = None, sskippedAfter = None\<rparr>"

definition SparseIdsSlice_indexOf :: "MsgId \<Rightarrow> SparseIdsSlice \<Rightarrow> int option" where
  "SparseIdsSlice_indexOf msgId s =
     (let it = flat_set_find (<) msgId (sids s)
      in if it \<noteq> length (sids s) then Some (int it) else None)"

definition SparseIdsSlice_size :: "SparseIdsSlice \<Rightarrow> int" where
  "SparseIdsSlice_size s = int (length (sids s))"

definition SparseIdsSlice_at :: "int \<Rightarrow> SparseIdsSlice \<Rightarrow> MsgId option" where
  "SparseIdsSlice_at index s =
     (if 0 \<le> index \<and> index < SparseIdsSlice_size s then Some (sids s ! nat index) else None)"

definition SparseIdsSlice_distance :: "MsgId \<Rightarrow> MsgId \<Rightarrow> SparseIdsSlice \<Rightarrow> int option" where
  "SparseIdsSlice_distance a b s =
     (case SparseIdsSlice_indexOf a s of
        Some i \<Rightarrow> (case SparseIdsSlice_indexOf b s of Some j \<Rightarrow> Some (j - i) | None \<Rightarrow> None)
      | None \<Rightarrow> None)"

definition SparseIdsSlice_nearest :: "MsgId \<Rightarrow> SparseIdsSlice \<Rightarrow> MsgId option" where
  "SparseIdsSlice_nearest msgId s =
     (let it = lower_bound (<) (sids s) msgId
      in if it \<noteq> length (sids s) then Some (sids s ! it)
         else if sids s = [] then None
         else Some (last (sids s)))"

section \<open>Two slices as one\<close>

record MergedKey =
  peerId :: PeerId
  migratedPeerId :: PeerId
  universalId :: MsgId

record SparseIdsMergedSlice =
  mkey :: MergedKey
  mpart :: SparseIdsSlice
  mmigrated :: "SparseIdsSlice option"

definition PartKey :: "MergedKey \<Rightarrow> MsgId" where
  "PartKey key = (if universalId key < 0 then 1 else universalId key)"

definition MigratedKey :: "MergedKey \<Rightarrow> MsgId" where
  "MigratedKey key =
     (if universalId key < 0 then ServerMaxMsgId + universalId key
      else if 0 < universalId key then ServerMaxMsgId - 1 else 0)"

definition MigratedSlice :: "MergedKey \<Rightarrow> SparseIdsSlice option" where
  "MigratedSlice key = (if migratedPeerId key \<noteq> 0 then Some SparseIdsSlice_empty else None)"

definition SparseIdsMergedSlice_of_key :: "MergedKey \<Rightarrow> SparseIdsMergedSlice" where
  "SparseIdsMergedSlice_of_key key =
     \<lparr>mkey = key, mpart = SparseIdsSlice_empty, mmigrated = MigratedSlice key\<rparr>"

definition IsFromSlice :: "PeerId \<Rightarrow> FullMsgId \<Rightarrow> bool" where
  "IsFromSlice peer fid =
     (if peerIsChannel peer then peer = peerFromChannel (channel fid) else channel fid = 0)"

definition ComputeId :: "PeerId \<Rightarrow> MsgId \<Rightarrow> FullMsgId" where
  "ComputeId peer msgId = FullMsgId (if peerIsChannel peer then peerToBareInt peer else 0) msgId"

definition ComputeKeyId :: "MergedKey \<Rightarrow> FullMsgId" where
  "ComputeKeyId key =
     (if 0 \<le> universalId key then ComputeId (peerId key) (universalId key)
      else ComputeId (migratedPeerId key) (ServerMaxMsgId + universalId key))"

definition AddOptional :: "int option \<Rightarrow> int option \<Rightarrow> int option" where
  "AddOptional a b = (case (a, b) of (Some x, Some y) \<Rightarrow> Some (x + y) | _ \<Rightarrow> None)"

definition isFromPart :: "SparseIdsMergedSlice \<Rightarrow> FullMsgId \<Rightarrow> bool" where
  "isFromPart m fid = IsFromSlice (peerId (mkey m)) fid"

definition isFromMigrated :: "SparseIdsMergedSlice \<Rightarrow> FullMsgId \<Rightarrow> bool" where
  "isFromMigrated m fid =
     (if mmigrated m \<noteq> None then IsFromSlice (migratedPeerId (mkey m)) fid else False)"

definition isolatedInPart :: "SparseIdsMergedSlice \<Rightarrow> bool" where
  "isolatedInPart m \<longleftrightarrow> IsServerMsgId (universalId (mkey m))
     \<and> (mmigrated m = None \<or> sskippedBefore (mpart m) \<noteq> Some 0)"

definition isolatedInMigrated :: "SparseIdsMergedSlice \<Rightarrow> bool option" where
  "isolatedInMigrated m =
     (if IsServerMsgId (ServerMaxMsgId + universalId (mkey m))
      then map_option (\<lambda>s. sskippedAfter s \<noteq> Some 0) (mmigrated m)
      else Some False)"

definition migratedSize :: "SparseIdsMergedSlice \<Rightarrow> int option" where
  "migratedSize m = (if isolatedInPart m then Some 0 else map_option SparseIdsSlice_size (mmigrated m))"

definition merged_fullCount :: "SparseIdsMergedSlice \<Rightarrow> int option" where
  "merged_fullCount m =
     AddOptional (sfullCount (mpart m))
       (case mmigrated m of Some s \<Rightarrow> sfullCount s | None \<Rightarrow> Some 0)"

definition merged_skippedBefore :: "SparseIdsMergedSlice \<Rightarrow> int option option" where
  "merged_skippedBefore m =
     do {
       inMigrated \<leftarrow> isolatedInMigrated m;
       Some (AddOptional
         (if inMigrated then Some 0 else sskippedBefore (mpart m))
         (case mmigrated m of
            Some s \<Rightarrow> (if isolatedInPart m then sfullCount s else sskippedBefore s)
          | None \<Rightarrow> Some 0))
     }"

definition merged_skippedAfter :: "SparseIdsMergedSlice \<Rightarrow> int option option" where
  "merged_skippedAfter m =
     do {
       inMigrated \<leftarrow> isolatedInMigrated m;
       after \<leftarrow> (if isolatedInPart m then Some (Some 0) else map_option sskippedAfter (mmigrated m));
       Some (AddOptional (if inMigrated then sfullCount (mpart m) else sskippedAfter (mpart m)) after)
     }"

definition merged_indexOf :: "FullMsgId \<Rightarrow> SparseIdsMergedSlice \<Rightarrow> int option option" where
  "merged_indexOf fid m =
     (if isFromPart m fid then
        do {
          size \<leftarrow> migratedSize m;
          Some (map_option (\<lambda>i. i + size) (SparseIdsSlice_indexOf (msg fid) (mpart m)))
        }
      else if isolatedInPart m then Some None
      else if isFromMigrated m fid
      then map_option (SparseIdsSlice_indexOf (msg fid)) (mmigrated m)
      else Some None)"

definition merged_size :: "SparseIdsMergedSlice \<Rightarrow> int option" where
  "merged_size m =
     do {
       size \<leftarrow> (if isolatedInPart m then Some 0 else migratedSize m);
       inMigrated \<leftarrow> isolatedInMigrated m;
       Some (size + (if inMigrated then 0 else SparseIdsSlice_size (mpart m)))
     }"

definition merged_at :: "int \<Rightarrow> SparseIdsMergedSlice \<Rightarrow> FullMsgId option" where
  "merged_at index m =
     do {
       total \<leftarrow> merged_size m;
       if 0 \<le> index \<and> index < total then do {
         size \<leftarrow> migratedSize m;
         if size \<noteq> 0 \<and> index < size then do {
           s \<leftarrow> mmigrated m;
           id \<leftarrow> SparseIdsSlice_at index s;
           Some (ComputeId (migratedPeerId (mkey m)) id)
         } else do {
           id \<leftarrow> SparseIdsSlice_at (index - size) (mpart m);
           Some (ComputeId (peerId (mkey m)) id)
         }
       } else None
     }"

definition merged_distance :: "MergedKey \<Rightarrow> MergedKey \<Rightarrow> SparseIdsMergedSlice \<Rightarrow> int option option" where
  "merged_distance a b m =
     do {
       i \<leftarrow> merged_indexOf (ComputeKeyId a) m;
       case i of
         None \<Rightarrow> Some None
       | Some i' \<Rightarrow>
           do {
             j \<leftarrow> merged_indexOf (ComputeKeyId b) m;
             Some (map_option (\<lambda>j'. j' - i') j)
           }
     }"

definition merged_nearest :: "MsgId \<Rightarrow> SparseIdsMergedSlice \<Rightarrow> FullMsgId option option" where
  "merged_nearest uid m =
     (if IsServerMsgId uid then
        (case SparseIdsSlice_nearest uid (mpart m) of
           Some partNearestId \<Rightarrow> Some (Some (ComputeId (peerId (mkey m)) partNearestId))
         | None \<Rightarrow>
             if isolatedInPart m then Some None
             else map_option (\<lambda>s. map_option (ComputeId (migratedPeerId (mkey m)))
               (SparseIdsSlice_nearest (ServerMaxMsgId - 1) s)) (mmigrated m))
      else
        (case Option.bind (mmigrated m) (SparseIdsSlice_nearest (uid + ServerMaxMsgId)) of
           Some migratedNearestId \<Rightarrow> Some (Some (ComputeId (migratedPeerId (mkey m)) migratedNearestId))
         | None \<Rightarrow>
             do {
               inMigrated \<leftarrow> isolatedInMigrated m;
               Some (if inMigrated then None
                 else map_option (ComputeId (peerId (mkey m))) (SparseIdsSlice_nearest 0 (mpart m)))
             }))"

text \<open>The contract of \<^verbatim>\<open>CreateViewer\<close> and what it puts, given what the two simple viewers put.\<close>

definition CreateViewer_expects :: "MergedKey \<Rightarrow> int \<Rightarrow> int \<Rightarrow> bool" where
  "CreateViewer_expects key before after \<longleftrightarrow>
     (IsServerMsgId (universalId key) \<or> universalId key = 0
       \<or> IsServerMsgId (ServerMaxMsgId + universalId key) \<and> migratedPeerId key \<noteq> 0)
     \<and> (universalId key \<noteq> 0 \<or> before = 0 \<and> after = 0)"

definition CreateViewer_put :: "MergedKey \<Rightarrow> SparseIdsSlice \<Rightarrow> SparseIdsSlice \<Rightarrow> SparseIdsMergedSlice" where
  "CreateViewer_put key part migrated =
     \<lparr>mkey = key, mpart = part, mmigrated = (if migratedPeerId key = 0 then None else Some migrated)\<rparr>"

section \<open>The builder\<close>

definition MsgId_kind :: "MsgId id_kind" where
  "MsgId_kind = \<lparr>null_key = 0, is_null = (\<lambda>k. k = 0), was_real = (\<lambda>k. 0 \<le> k),
     full_range = \<lparr>range_from = 0, range_till = ServerMaxMsgId\<rparr>\<rparr>"

definition SparseIdsSliceBuilder_init :: "MsgId \<Rightarrow> int \<Rightarrow> int \<Rightarrow> MsgId slice_builder" where
  "SparseIdsSliceBuilder_init key before after =
     builder_init \<lparr>range_from = 0, range_till = 0\<rparr> key before after"

definition SparseIdsSliceBuilder_checkInsufficient ::
    "MsgId slice_builder \<Rightarrow> MsgId slice_builder \<times> MsgId AroundData list" where
  "SparseIdsSliceBuilder_checkInsufficient b = builder_sliceToLimits MsgId_kind b"

definition SparseIdsSliceBuilder_applyInitial ::
    "MsgId list_result \<Rightarrow> MsgId slice_builder \<Rightarrow> (bool \<times> MsgId slice_builder \<times> MsgId AroundData list) option" where
  "SparseIdsSliceBuilder_applyInitial = builder_applyInitial MsgId_kind"

definition SparseIdsSliceBuilder_applyUpdate ::
    "MsgId slice_update \<Rightarrow> MsgId slice_builder \<Rightarrow> (bool \<times> MsgId slice_builder \<times> MsgId AroundData list) option" where
  "SparseIdsSliceBuilder_applyUpdate = builder_applyUpdate MsgId_kind"

definition SparseIdsSliceBuilder_removeOne ::
    "MsgId \<Rightarrow> MsgId slice_builder \<Rightarrow> bool \<times> MsgId slice_builder \<times> MsgId AroundData list" where
  "SparseIdsSliceBuilder_removeOne messageId b =
     (let (changed, b') = builder_removeOne messageId b
      in if changed then (True, SparseIdsSliceBuilder_checkInsufficient b') else (False, b', []))"

definition SparseIdsSliceBuilder_removeAll :: "MsgId slice_builder \<Rightarrow> bool \<times> MsgId slice_builder" where
  "SparseIdsSliceBuilder_removeAll = builder_removeAll MsgId_kind"

definition SparseIdsSliceBuilder_invalidateBottom ::
    "MsgId slice_builder \<Rightarrow> bool \<times> MsgId slice_builder \<times> MsgId AroundData list" where
  "SparseIdsSliceBuilder_invalidateBottom b =
     (let b1 = b\<lparr>bfullCount := None, bskippedAfter := None\<rparr>;
          b2 = (if range_till (brange b1) = ServerMaxMsgId
            then b1\<lparr>brange := (brange b1)\<lparr>range_till :=
              (if bids b1 = [] then range_from (brange b1) else last (bids b1))\<rparr>\<rparr>
            else b1)
      in (True, SparseIdsSliceBuilder_checkInsufficient b2))"

definition SparseIdsSliceBuilder_snapshot :: "MsgId slice_builder \<Rightarrow> SparseIdsSlice" where
  "SparseIdsSliceBuilder_snapshot b =
     \<lparr>sids = bids b, ssrange = brange b, sfullCount = bfullCount b,
       sskippedBefore = bskippedBefore b, sskippedAfter = bskippedAfter b\<rparr>"

section \<open>Lemmas on merged slices\<close>

lemma valid_key_cases:
  assumes "CreateViewer_expects key before after" and "universalId key \<noteq> 0"
  shows "IsServerMsgId (universalId key) \<and> \<not> IsServerMsgId (ServerMaxMsgId + universalId key)
    \<or> IsServerMsgId (ServerMaxMsgId + universalId key) \<and> \<not> IsServerMsgId (universalId key)
      \<and> migratedPeerId key \<noteq> 0"
  using assms by (auto simp: CreateViewer_expects_def IsServerMsgId_def)

lemma put_simps [simp]:
  "mkey (CreateViewer_put key part migrated) = key"
  "mpart (CreateViewer_put key part migrated) = part"
  "mmigrated (CreateViewer_put key part migrated) = None \<longleftrightarrow> migratedPeerId key = 0"
  by (simp_all add: CreateViewer_put_def)

lemma put_migrated:
  "migratedPeerId key \<noteq> 0 \<Longrightarrow> mmigrated (CreateViewer_put key part migrated) = Some migrated"
  "migratedPeerId key = 0 \<Longrightarrow> mmigrated (CreateViewer_put key part migrated) = None"
  by (simp_all add: CreateViewer_put_def)

text \<open>The three shapes of a merged slice: only the part, only the migrated part, or both.\<close>

lemma merged_shapes:
  fixes part migrated :: SparseIdsSlice
  assumes "CreateViewer_expects key before after" and "universalId key \<noteq> 0"
  defines "m \<equiv> CreateViewer_put key part migrated"
  obtains (part) "isolatedInPart m" "isolatedInMigrated m = Some False" "migratedSize m = Some 0"
  | (migrated) "\<not> isolatedInPart m" "isolatedInMigrated m = Some True" "mmigrated m = Some migrated"
      "migratedSize m = Some (SparseIdsSlice_size migrated)" "migratedPeerId key \<noteq> 0"
  | (both) "\<not> isolatedInPart m" "isolatedInMigrated m = Some False" "mmigrated m = Some migrated"
      "migratedSize m = Some (SparseIdsSlice_size migrated)" "migratedPeerId key \<noteq> 0"
proof (cases "isolatedInPart m")
  case True
  then have "isolatedInMigrated m = Some False"
    using valid_key_cases [OF assms(1,2)] by (auto simp: isolatedInPart_def isolatedInMigrated_def m_def)
  with True show thesis by (intro part) (simp_all add: migratedSize_def)
next
  case False
  have mig: "migratedPeerId key \<noteq> 0"
    using False valid_key_cases [OF assms(1,2)] by (auto simp: isolatedInPart_def m_def)
  then have some: "mmigrated m = Some migrated" by (simp add: m_def put_migrated)
  then have "isolatedInMigrated m = Some True \<or> isolatedInMigrated m = Some False"
    by (simp add: isolatedInMigrated_def)
  with False mig some show thesis
    using migrated both by (auto simp: migratedSize_def)
qed

definition slice_complete_counts :: "SparseIdsSlice \<Rightarrow> bool" where
  "slice_complete_counts s \<longleftrightarrow> (\<exists>b a. sskippedBefore s = Some b \<and> sskippedAfter s = Some a
     \<and> sfullCount s = Some (b + SparseIdsSlice_size s + a))"

lemma indexOf_at:
  assumes "sorted_wrt (<) (sids s)" and "0 \<le> i" and "i < SparseIdsSlice_size s"
  shows "SparseIdsSlice_at i s = Some (sids s ! nat i)"
    and "SparseIdsSlice_indexOf (sids s ! nat i) s = Some i"
proof -
  have i: "nat i < length (sids s)" using assms(2,3) by (simp add: SparseIdsSlice_size_def)
  show "SparseIdsSlice_at i s = Some (sids s ! nat i)" using assms(2,3) by (simp add: SparseIdsSlice_at_def)
  have "flat_set_find (<) (sids s ! nat i) (sids s) = nat i" using lin.remove_find [OF assms(1)] i by blast
  then show "SparseIdsSlice_indexOf (sids s ! nat i) s = Some i"
    using i assms(2) by (simp add: SparseIdsSlice_indexOf_def Let_def)
qed

text \<open>The peers of a channel and of the group it was migrated from.\<close>

definition channel_key :: "MergedKey \<Rightarrow> bool" where
  "channel_key key \<longleftrightarrow> (\<exists>ch. 0 < ch \<and> ch < 2 ^ 31 \<and> peerId key = peerFromChannel ch)
     \<and> (migratedPeerId key = 0 \<or> (\<exists>c. 0 < c \<and> c < 2 ^ 31 \<and> migratedPeerId key = peerFromChat c))"

lemma channel_peer:
  assumes "0 < ch" and "ch < 2 ^ 31"
  shows "peerIsChannel (peerFromChannel ch)" and "peerToBareInt (peerFromChannel ch) = ch"
    and "\<not> peerIsChannel (peerFromChat ch)" and "peerFromChannel ch \<noteq> peerFromChannel 0"
proof -
  note facts = peer_id_facts [of ch]
  show "peerIsChannel (peerFromChannel ch)" and "\<not> peerIsChannel (peerFromChat ch)"
    using facts assms by simp_all
  show bare: "peerToBareInt (peerFromChannel ch) = ch" using facts assms by simp
  show "peerFromChannel ch \<noteq> peerFromChannel 0"
    using bare assms(1) peer_id_facts [of 0] by auto
qed

section \<open>Properties\<close>

text \<open>
  On every merged slice that a viewer puts for a real key, no operation fails: an empty
  \<^verbatim>\<open>_migrated\<close> is never dereferenced. If the parts know their counts, then so does the merged
  slice, and what is skipped on both sides and what is shown add up to the full count.
\<close>

theorem merged_counts_add_up:
  assumes "CreateViewer_expects key before after" and "universalId key \<noteq> 0"
    and "slice_complete_counts part" and "slice_complete_counts migrated"
  shows "\<exists>b n a. merged_skippedBefore (CreateViewer_put key part migrated) = Some (Some b)
    \<and> merged_size (CreateViewer_put key part migrated) = Some n
    \<and> merged_skippedAfter (CreateViewer_put key part migrated) = Some (Some a)
    \<and> merged_fullCount (CreateViewer_put key part migrated) = Some (b + n + a)"
proof -
  obtain b1 a1 where p: "sskippedBefore part = Some b1" "sskippedAfter part = Some a1"
    "sfullCount part = Some (b1 + SparseIdsSlice_size part + a1)"
    using assms(3) by (auto simp: slice_complete_counts_def)
  obtain b2 a2 where m: "sskippedBefore migrated = Some b2" "sskippedAfter migrated = Some a2"
    "sfullCount migrated = Some (b2 + SparseIdsSlice_size migrated + a2)"
    using assms(4) by (auto simp: slice_complete_counts_def)
  note defs = merged_skippedBefore_def merged_size_def merged_skippedAfter_def merged_fullCount_def AddOptional_def
  show ?thesis
    using assms(1,2)
  proof (cases rule: merged_shapes [where part = part and migrated = migrated])
    case part
    then show ?thesis
      using p m by (cases "migratedPeerId key = 0") (simp_all add: defs put_migrated)
  qed (use p m in \<open>simp_all add: defs\<close>)
qed

definition sample_part :: SparseIdsSlice where
  "sample_part = \<lparr>sids = [5, 9], ssrange = \<lparr>range_from = 0, range_till = ServerMaxMsgId\<rparr>,
     sfullCount = Some 4, sskippedBefore = Some 0, sskippedAfter = Some 2\<rparr>"

definition sample_migrated :: SparseIdsSlice where
  "sample_migrated = \<lparr>sids = [3, 7], ssrange = \<lparr>range_from = 0, range_till = ServerMaxMsgId\<rparr>,
     sfullCount = Some 3, sskippedBefore = Some 1, sskippedAfter = Some 0\<rparr>"

definition sample_key :: MergedKey where
  "sample_key = \<lparr>peerId = peerFromChannel 7, migratedPeerId = peerFromChat 3, universalId = 9\<rparr>"

lemma sample_key_expects: "CreateViewer_expects sample_key 2 2" "universalId sample_key \<noteq> 0"
  by (simp_all add: CreateViewer_expects_def sample_key_def IsServerMsgId_def ServerMaxMsgId_def)

lemma sample_counts: "slice_complete_counts sample_part" "slice_complete_counts sample_migrated"
  by (simp_all add: slice_complete_counts_def sample_part_def sample_migrated_def SparseIdsSlice_size_def)

theorem merged_counts_add_up_witness:
  "\<exists>b n a. merged_skippedBefore (CreateViewer_put sample_key sample_part sample_migrated) = Some (Some b)
    \<and> merged_size (CreateViewer_put sample_key sample_part sample_migrated) = Some n
    \<and> merged_skippedAfter (CreateViewer_put sample_key sample_part sample_migrated) = Some (Some a)
    \<and> merged_fullCount (CreateViewer_put sample_key sample_part sample_migrated) = Some (b + n + a)"
  by (rule merged_counts_add_up [OF sample_key_expects sample_counts])

text \<open>
  In the merged slice of a channel and the group it was migrated from, every shown index
  has an id, and \<^verbatim>\<open>indexOf\<close> of that id is the index.
\<close>

theorem merged_index_roundtrip:
  assumes "CreateViewer_expects key before after" and "universalId key \<noteq> 0" and "channel_key key"
    and "sorted_wrt (<) (sids part)" and "sorted_wrt (<) (sids migrated)"
  shows "\<exists>n. merged_size (CreateViewer_put key part migrated) = Some n
    \<and> (\<forall>i. 0 \<le> i \<and> i < n \<longrightarrow> (\<exists>fid. merged_at i (CreateViewer_put key part migrated) = Some fid
        \<and> merged_indexOf fid (CreateViewer_put key part migrated) = Some (Some i)))"
proof -
  let ?m = "CreateViewer_put key part migrated"
  obtain ch where ch: "0 < ch" "ch < 2 ^ 31" "peerId key = peerFromChannel ch"
    using assms(3) by (auto simp: channel_key_def)
  note channel = channel_peer [OF ch(1,2)]
  have chat: "\<not> peerIsChannel (migratedPeerId key)" if "migratedPeerId key \<noteq> 0"
    using assms(3) that channel_peer(3) by (auto simp: channel_key_def)
  have id: "ComputeId (peerId key) x = FullMsgId ch x" for x
    using ch(3) channel by (simp add: ComputeId_def)
  have part_id: "isFromPart ?m (FullMsgId ch x)" for x
    using ch(3) channel by (simp add: isFromPart_def IsFromSlice_def)
  have mig_id: "ComputeId (migratedPeerId key) x = FullMsgId 0 x" "\<not> isFromPart ?m (FullMsgId 0 x)"
    "isFromMigrated ?m (FullMsgId 0 x)" if "migratedPeerId key \<noteq> 0" for x
    using chat [OF that] that ch(3) channel
    by (simp_all add: ComputeId_def isFromPart_def isFromMigrated_def IsFromSlice_def)
  note at = indexOf_at [OF assms(4)] indexOf_at [OF assms(5)]
  note defs = merged_at_def merged_indexOf_def merged_size_def
  show ?thesis
    using assms(1,2)
  proof (cases rule: merged_shapes [where part = part and migrated = migrated])
    case part
    then show ?thesis by (intro exI [of _ "SparseIdsSlice_size part"]) (simp add: defs at id part_id)
  next
    case migrated
    then show ?thesis
      by (intro exI [of _ "SparseIdsSlice_size migrated"]) (auto simp: defs at mig_id)
  next
    case both
    have "\<exists>fid. merged_at i ?m = Some fid \<and> merged_indexOf fid ?m = Some (Some i)"
      if "0 \<le> i" "i < SparseIdsSlice_size migrated + SparseIdsSlice_size part" for i
    proof (cases "i < SparseIdsSlice_size migrated")
      case True
      then show ?thesis using both that by (auto simp: defs at mig_id)
    next
      case False
      then show ?thesis
        using both that at(1,2) [of "i - SparseIdsSlice_size migrated"] by (auto simp: defs id part_id)
    qed
    moreover have "merged_size ?m = Some (SparseIdsSlice_size migrated + SparseIdsSlice_size part)"
      using both by (simp add: merged_size_def)
    ultimately show ?thesis by blast
  qed
qed

theorem merged_index_roundtrip_witness:
  "\<exists>n. merged_size (CreateViewer_put sample_key sample_part sample_migrated) = Some n
    \<and> (\<forall>i. 0 \<le> i \<and> i < n \<longrightarrow> (\<exists>fid. merged_at i (CreateViewer_put sample_key sample_part sample_migrated) = Some fid
        \<and> merged_indexOf fid (CreateViewer_put sample_key sample_part sample_migrated) = Some (Some i)))"
proof (rule merged_index_roundtrip [OF sample_key_expects])
  show "channel_key sample_key"
    unfolding channel_key_def sample_key_def
    by (rule conjI, rule exI [of _ 7], simp, rule disjI2, rule exI [of _ 3], simp)
qed (simp_all add: sample_part_def sample_migrated_def)


definition sample_builder :: "MsgId slice_builder" where
  "sample_builder = \<lparr>bkey = 5, bids = [3, 5], brange = \<lparr>range_from = 0, range_till = 0\<rparr>,
     bfullCount = Some 4, bskippedBefore = Some 0, bskippedAfter = Some 2,
     blimitBefore = 1, blimitAfter = 2\<rparr>"

lemma sample_builder_truthful: "truthful {3, 5, 8, 9} sample_builder"
proof -
  have "{t \<in> {3, 5, 8, 9 :: int}. t < 3} = {}" "{t \<in> {3, 5, 8, 9 :: int}. 5 < t} = {8, 9}" by auto
  then show ?thesis
    by (simp add: truthful_def segment_of_def sample_builder_def ids_below_def ids_above_def)
qed


text \<open>
  When a right builder requests nothing more, it shows exactly the \<^verbatim>\<open>limitBefore\<close> ids
  below its key and the \<^verbatim>\<open>limitAfter + 1\<close> ids from it on that there are, and knows their number.
\<close>

theorem sparse_builder_quiet_is_complete:
  assumes "truthful T b" and "bkey b \<noteq> 0" and "bids b \<noteq> []"
    and "1 \<le> blimitBefore b" and "0 \<le> blimitAfter b"
    and "snd (SparseIdsSliceBuilder_checkInsufficient b) = []"
  shows "bids (fst (SparseIdsSliceBuilder_checkInsufficient b)) =
      window (bkey b) (blimitBefore b) (blimitAfter b) (sorted_list_of_set T)
    \<and> bfullCount (fst (SparseIdsSliceBuilder_checkInsufficient b)) = Some (int (card T))"
  using slice_complete [OF assms(1) assms(6) [unfolded SparseIdsSliceBuilder_checkInsufficient_def]] assms(2-5)
  by (simp add: SparseIdsSliceBuilder_checkInsufficient_def MsgId_kind_def)

definition sample_full_builder :: "MsgId slice_builder" where
  "sample_full_builder = sample_builder\<lparr>bids := [3, 5, 8, 9], bskippedAfter := Some 0\<rparr>"

theorem sparse_builder_quiet_is_complete_witness:
  "bids (fst (SparseIdsSliceBuilder_checkInsufficient sample_full_builder)) =
    window 5 1 2 (sorted_list_of_set {3, 5, 8, 9})"
proof -
  have "{t \<in> {3, 5, 8, 9 :: int}. t < 3} = {}" "{t \<in> {3, 5, 8, 9 :: int}. 9 < t} = {}" by auto
  then have t: "truthful {3, 5, 8, 9} sample_full_builder"
    by (simp add: truthful_def segment_of_def sample_full_builder_def sample_builder_def ids_below_def ids_above_def)
  have "snd (SparseIdsSliceBuilder_checkInsufficient sample_full_builder) = []" by code_simp
  from sparse_builder_quiet_is_complete [OF t _ _ _ _ this] show ?thesis
    by (simp add: sample_full_builder_def sample_builder_def)
qed

end
