(* ===== verification/MessagesList.thy ===== *)
theory MessagesList
  imports SliceBuilder
begin

text \<open>
  \<^verbatim>\<open>Data::MessagesList\<close> and \<^verbatim>\<open>Data::MessagesSliceBuilder\<close> (\<^verbatim>\<open>data/data_messages.cpp\<close>): the same
  list of slices and the same builder over positions, that is, over a date and a full message
  id, as the feeds use it. Where the code repeats that of \<^verbatim>\<open>storage_sparse_ids_list.cpp\<close> and
  \<^verbatim>\<open>data_sparse_ids.cpp\<close>, a definition here is the generic one at this kind of ids; where it
  differs (how the count is kept, the removal of a channel, the invalidations) it is written out.
\<close>

section \<open>The list\<close>

record MessagesList =
  ml_count :: "int option"
  ml_slices :: "MessagePosition slice list"

definition MessagesList_Slice_merge ::
    "MessagePosition list \<Rightarrow> MessagePosition range \<Rightarrow> MessagePosition slice \<Rightarrow> MessagePosition slice option" where
  "MessagesList_Slice_merge = Slice_merge"

text \<open>Here the two return only the number of added messages.\<close>

definition MessagesList_uniteAndAdd ::
    "nat \<Rightarrow> nat \<Rightarrow> MessagePosition list \<Rightarrow> MessagePosition range \<Rightarrow> MessagePosition slice list \<Rightarrow>
      (MessagePosition slice list \<times> MessagePosition slice \<times> int) option" where
  "MessagesList_uniteAndAdd uniteFrom uniteTill msgs noSkipRange slices =
     map_option (\<lambda>(slices', changed, result). (slices', changed, added result))
       (uniteAndAdd uniteFrom uniteTill msgs noSkipRange slices)"

definition MessagesList_addRangeItemsAndCountNew ::
    "MessagePosition list \<Rightarrow> MessagePosition range \<Rightarrow> MessagePosition slice list \<Rightarrow>
      (MessagePosition slice list \<times> MessagePosition slice \<times> int) option" where
  "MessagesList_addRangeItemsAndCountNew msgs noSkipRange slices =
     map_option (\<lambda>(slices', changed, result). (slices', changed, added result))
       (addRangeItemsAndCountNew msgs noSkipRange slices)"

definition MessagesList_init :: MessagesList where
  "MessagesList_init = \<lparr>ml_count = None, ml_slices = []\<rparr>"

definition MessagesList_addRange ::
    "MessagePosition list \<Rightarrow> MessagePosition range \<Rightarrow> int option \<Rightarrow> bool \<Rightarrow> MessagesList \<Rightarrow>
      (MessagesList \<times> MessagePosition slice_update) option" where
  "MessagesList_addRange msgs noSkipRange count incrementCount st =
     (if count \<noteq> None \<and> incrementCount then None
      else case MessagesList_addRangeItemsAndCountNew msgs noSkipRange (ml_slices st) of
        None \<Rightarrow> None
      | Some (slices, changed, result) \<Rightarrow>
          (let count1 =
                 (if count \<noteq> None then count
                  else if incrementCount \<and> ml_count st \<noteq> None \<and> 0 < result
                  then Some (the (ml_count st) + result)
                  else ml_count st);
               count2 =
                 (if length slices = 1 \<and> srange (hd slices) = FullMessagesRange
                  then Some (int (length (messages (hd slices)))) else count1)
           in Some (\<lparr>ml_count = count2, ml_slices = slices\<rparr>,
                \<lparr>upd_messages = Some (messages changed), upd_range = srange changed,
                  upd_count = count2\<rparr>)))"

definition MessagesList_addNew ::
    "MessagePosition \<Rightarrow> MessagesList \<Rightarrow> (MessagesList \<times> MessagePosition slice_update) option" where
  "MessagesList_addNew messageId st =
     MessagesList_addRange [messageId]
       \<lparr>range_from = messageId, range_till = MaxMessagePosition\<rparr> None True st"

definition MessagesList_addSlice ::
    "MessagePosition list \<Rightarrow> MessagePosition range \<Rightarrow> int option \<Rightarrow> MessagesList \<Rightarrow>
      (MessagesList \<times> MessagePosition slice_update) option" where
  "MessagesList_addSlice messageIds noSkipRange count st =
     MessagesList_addRange messageIds noSkipRange count False st"

definition MessagesList_removeOne :: "MessagePosition \<Rightarrow> MessagesList \<Rightarrow> MessagesList" where
  "MessagesList_removeOne messageId st =
     \<lparr>ml_count = map_option (\<lambda>c. c - 1) (ml_count st),
      ml_slices = slices_removeOne messageId (ml_slices st)\<rparr>"

text \<open>\<^verbatim>\<open>removeAll(channelId)\<close>: the loop over the messages of a slice and the loop over the slices,
  with \<open>n\<close> slices left and the messages removed so far.\<close>

fun remove_channel :: "int \<Rightarrow> MessagePosition list \<Rightarrow> MessagePosition list \<times> int" where
  "remove_channel channelId [] = ([], 0)"
| "remove_channel channelId (j # rest) =
     (let (kept, removed) = remove_channel channelId rest
      in if channel (fullId j) = channelId then (kept, removed + 1) else (j # kept, removed))"

fun remove_channel_slices ::
    "int \<Rightarrow> nat \<Rightarrow> nat \<Rightarrow> MessagePosition slice list \<Rightarrow> int \<Rightarrow> MessagePosition slice list \<times> int" where
  "remove_channel_slices channelId i 0 slices removed = (slices, removed)"
| "remove_channel_slices channelId i (Suc n) slices removed =
     remove_channel_slices channelId (Suc i) n
       (flat_set_modify slice_less i
         (\<lambda>s. s\<lparr>messages := fst (remove_channel channelId (messages s))\<rparr>) slices)
       (removed + snd (remove_channel channelId (messages (slices ! i))))"

definition MessagesList_removeAll :: "int \<Rightarrow> MessagesList \<Rightarrow> MessagesList" where
  "MessagesList_removeAll channelId st =
     (let (slices, removed) = remove_channel_slices channelId 0 (length (ml_slices st)) (ml_slices st) 0
      in \<lparr>ml_count = (if removed \<noteq> 0 then map_option (\<lambda>c. c - removed) (ml_count st) else ml_count st),
          ml_slices = slices\<rparr>)"

definition MessagesList_invalidate :: "MessagesList \<Rightarrow> MessagesList" where
  "MessagesList_invalidate st = \<lparr>ml_count = None, ml_slices = []\<rparr>"

definition MessagesList_invalidateBottom :: "MessagesList \<Rightarrow> MessagesList" where
  "MessagesList_invalidateBottom st =
     \<lparr>ml_count = None, ml_slices = slices_invalidateBottom MaxMessagePosition (ml_slices st)\<rparr>"

definition MessagesList_queryFromSlice ::
    "MessagePosition list_query \<Rightarrow> MessagePosition slice \<Rightarrow> MessagesList \<Rightarrow> MessagePosition list_result" where
  "MessagesList_queryFromSlice query s st = query_slice FullMessagesRange (ml_count st) query s"

text \<open>Unlike \<^verbatim>\<open>SparseIdsList::query\<close> it puts nothing when the position is not known.\<close>

definition MessagesList_query ::
    "MessagePosition list_query \<Rightarrow> MessagesList \<Rightarrow> MessagePosition list_result option" where
  "MessagesList_query query st =
     (let pos = (if MessagePosition_valid (aroundId query) then slice_at (aroundId query) (ml_slices st)
                 else length (ml_slices st))
      in if pos \<noteq> length (ml_slices st)
           \<and> range_from (srange (ml_slices st ! pos)) \<le> aroundId query
         then Some (MessagesList_queryFromSlice query (ml_slices st ! pos) st)
         else None)"

section \<open>The builder\<close>

definition impossible_position :: MessagePosition where
  "impossible_position = MessagePosition (- 1) (FullMsgId 0 0)"

definition MessagePosition_kind :: "MessagePosition id_kind" where
  "MessagePosition_kind =
     \<lparr>null_key = MessagePosition 0 (FullMsgId 0 0), is_null = (\<lambda>k. \<not> MessagePosition_valid k),
      was_real = (\<lambda>k. k \<noteq> impossible_position), full_range = FullMessagesRange\<rparr>"

definition MessagesSliceBuilder_init :: "MessagePosition \<Rightarrow> int \<Rightarrow> int \<Rightarrow> MessagePosition slice_builder" where
  "MessagesSliceBuilder_init key before after =
     builder_init \<lparr>range_from = MessagePosition 0 (FullMsgId 0 0), range_till = MessagePosition 0 (FullMsgId 0 0)\<rparr>
       key before after"

definition MessagesSliceBuilder_sliceToLimits ::
    "MessagePosition slice_builder \<Rightarrow> MessagePosition slice_builder \<times> MessagePosition AroundData list" where
  "MessagesSliceBuilder_sliceToLimits = builder_sliceToLimits MessagePosition_kind"

definition MessagesSliceBuilder_fillSkippedAndSliceToLimits ::
    "MessagePosition slice_builder \<Rightarrow> MessagePosition slice_builder \<times> MessagePosition AroundData list" where
  "MessagesSliceBuilder_fillSkippedAndSliceToLimits b =
     MessagesSliceBuilder_sliceToLimits (builder_fillSkipped b)"

definition MessagesSliceBuilder_requestMessages ::
    "RequestDirection \<Rightarrow> MessagePosition slice_builder \<Rightarrow> MessagePosition AroundData" where
  "MessagesSliceBuilder_requestMessages = builder_requestMessages"

definition MessagesSliceBuilder_mergeSliceData ::
    "int option \<Rightarrow> MessagePosition list \<Rightarrow> int option \<Rightarrow> int option \<Rightarrow> MessagePosition slice_builder \<Rightarrow>
      (MessagePosition slice_builder \<times> MessagePosition AroundData list) option" where
  "MessagesSliceBuilder_mergeSliceData = builder_mergeSliceData MessagePosition_kind"

definition MessagesSliceBuilder_applyInitial ::
    "MessagePosition list_result \<Rightarrow> MessagePosition slice_builder \<Rightarrow>
      (bool \<times> MessagePosition slice_builder \<times> MessagePosition AroundData list) option" where
  "MessagesSliceBuilder_applyInitial = builder_applyInitial MessagePosition_kind"

definition MessagesSliceBuilder_applyUpdate ::
    "MessagePosition slice_update \<Rightarrow> MessagePosition slice_builder \<Rightarrow>
      (bool \<times> MessagePosition slice_builder \<times> MessagePosition AroundData list) option" where
  "MessagesSliceBuilder_applyUpdate = builder_applyUpdate MessagePosition_kind"

text \<open>Unlike \<^verbatim>\<open>SparseIdsSliceBuilder::removeOne\<close> it does not check for insufficient data.\<close>

definition MessagesSliceBuilder_removeOne ::
    "MessagePosition \<Rightarrow> MessagePosition slice_builder \<Rightarrow> bool \<times> MessagePosition slice_builder" where
  "MessagesSliceBuilder_removeOne = builder_removeOne"

definition MessagesSliceBuilder_removeAll ::
    "MessagePosition slice_builder \<Rightarrow> bool \<times> MessagePosition slice_builder" where
  "MessagesSliceBuilder_removeAll = builder_removeAll MessagePosition_kind"

text \<open>The loop of \<^verbatim>\<open>removeFromChannel\<close> counts down with each id it erases.\<close>

definition MessagesSliceBuilder_removeFromChannel ::
    "int \<Rightarrow> MessagePosition slice_builder \<Rightarrow>
      bool \<times> MessagePosition slice_builder \<times> MessagePosition AroundData list" where
  "MessagesSliceBuilder_removeFromChannel channelId b =
     (let (ids, removed) = remove_channel channelId (bids b)
      in (True, MessagesSliceBuilder_sliceToLimits
            (b\<lparr>bids := ids, bfullCount := map_option (\<lambda>c. c - removed) (bfullCount b),
              bskippedBefore := None, bskippedAfter := None\<rparr>)))"

definition MessagesSliceBuilder_invalidated ::
    "MessagePosition slice_builder \<Rightarrow> bool \<times> MessagePosition slice_builder \<times> MessagePosition AroundData list" where
  "MessagesSliceBuilder_invalidated b =
     (False, MessagesSliceBuilder_sliceToLimits
       (b\<lparr>bfullCount := None, bskippedBefore := None, bskippedAfter := None, bids := []\<rparr>))"

definition MessagesSliceBuilder_bottomInvalidated ::
    "MessagePosition slice_builder \<Rightarrow> bool \<times> MessagePosition slice_builder \<times> MessagePosition AroundData list" where
  "MessagesSliceBuilder_bottomInvalidated b =
     (True, MessagesSliceBuilder_sliceToLimits (b\<lparr>bfullCount := None, bskippedAfter := None\<rparr>))"

record MessagesSlice =
  ms_ids :: "FullMsgId list"
  ms_skippedBefore :: "int option"
  ms_skippedAfter :: "int option"
  ms_fullCount :: "int option"

definition MessagesSliceBuilder_snapshot :: "MessagePosition slice_builder \<Rightarrow> MessagesSlice" where
  "MessagesSliceBuilder_snapshot b =
     \<lparr>ms_ids = map fullId (bids b), ms_skippedBefore = bskippedBefore b,
      ms_skippedAfter = bskippedAfter b, ms_fullCount = bfullCount b\<rparr>"

section \<open>Lemmas\<close>

lemma remove_channel_eq:
  "fst (remove_channel c ms) = filter (\<lambda>p. channel (fullId p) \<noteq> c) ms"
  "snd (remove_channel c ms) = int (length (filter (\<lambda>p. channel (fullId p) = c) ms))"
  by (induction ms) (auto simp: Let_def split: prod.splits)

definition drop_channel :: "int \<Rightarrow> MessagePosition slice \<Rightarrow> MessagePosition slice" where
  "drop_channel c s = s\<lparr>messages := fst (remove_channel c (messages s))\<rparr>"

lemma drop_channel_simps [simp]:
  "srange (drop_channel c s) = srange s"
  "messages (drop_channel c s) = filter (\<lambda>p. channel (fullId p) \<noteq> c) (messages s)"
  by (simp_all add: drop_channel_def remove_channel_eq)

lemma drop_channel_ok: "slice_ok s \<Longrightarrow> slice_ok (drop_channel c s)"
  by (auto simp: slice_ok_def list_all_iff intro: sorted_wrt_filter)

definition channel_count :: "int \<Rightarrow> MessagePosition slice list \<Rightarrow> int" where
  "channel_count c slices = sum_list (map (\<lambda>s. snd (remove_channel c (messages s))) slices)"

lemma remove_channel_slices_map:
  assumes "slices_inv (A @ B)"
  shows "remove_channel_slices c (length A) (length B) (A @ B) removed =
    (A @ map (drop_channel c) B, removed + channel_count c B)"
  using assms
proof (induction B arbitrary: A removed)
  case Nil
  then show ?case by (simp add: channel_count_def)
next
  case (Cons s B)
  let ?xs = "A @ s # B"
  have inv: "slices_inv ?xs" and len: "length A < length ?xs" and at: "?xs ! length A = s"
    using Cons.prems by (simp_all add: nth_append)
  have "slice_ok s" using slices_inv_ok [OF inv len] at by simp
  then have ok: "slice_ok (drop_channel c (?xs ! length A))" using at drop_channel_ok by simp
  note upd = modify_narrow [where f = "drop_channel c", OF inv len ok]
  have m: "flat_set_modify slice_less (length A) (drop_channel c) ?xs = (A @ [drop_channel c s]) @ B"
    "slices_inv ((A @ [drop_channel c s]) @ B)"
    using upd at by simp_all
  have "remove_channel_slices c (length A) (length (s # B)) ?xs removed =
    remove_channel_slices c (length (A @ [drop_channel c s])) (length B) ((A @ [drop_channel c s]) @ B)
      (removed + snd (remove_channel c (messages s)))"
    using m(1) by (simp add: drop_channel_def [abs_def] nth_append)
  also have "\<dots> = ((A @ [drop_channel c s]) @ map (drop_channel c) B,
      removed + snd (remove_channel c (messages s)) + channel_count c B)"
    by (rule Cons.IH [OF m(2)])
  finally show ?case by (simp add: channel_count_def)
qed

lemma removeAll_channel_spec:
  assumes "slices_inv (ml_slices st)"
  shows "ml_slices (MessagesList_removeAll c st) = map (drop_channel c) (ml_slices st)"
    and "slices_inv (ml_slices (MessagesList_removeAll c st))"
    and "slices_messages (ml_slices (MessagesList_removeAll c st)) =
      {p \<in> slices_messages (ml_slices st). channel (fullId p) \<noteq> c}"
    and "slices_known (ml_slices (MessagesList_removeAll c st)) = slices_known (ml_slices st)"
    and "ml_count (MessagesList_removeAll c st) =
      map_option (\<lambda>k. k - channel_count c (ml_slices st)) (ml_count st)"
proof -
  have run: "remove_channel_slices c 0 (length (ml_slices st)) (ml_slices st) 0 =
    (map (drop_channel c) (ml_slices st), channel_count c (ml_slices st))"
    using remove_channel_slices_map [of "[]" "ml_slices st" c 0] assms by simp
  show e: "ml_slices (MessagesList_removeAll c st) = map (drop_channel c) (ml_slices st)"
    by (simp add: MessagesList_removeAll_def run)
  show "slices_inv (ml_slices (MessagesList_removeAll c st))"
    using assms drop_channel_ok unfolding e slices_inv_def
    by (auto simp: sorted_wrt_map slice_before_def [abs_def] list_all_iff)
  show "slices_messages (ml_slices (MessagesList_removeAll c st)) =
      {p \<in> slices_messages (ml_slices st). channel (fullId p) \<noteq> c}"
    unfolding e slices_messages_def by auto
  show "slices_known (ml_slices (MessagesList_removeAll c st)) = slices_known (ml_slices st)"
    unfolding e slices_known_def by auto
  show "ml_count (MessagesList_removeAll c st) =
      map_option (\<lambda>k. k - channel_count c (ml_slices st)) (ml_count st)"
    by (cases "ml_count st") (auto simp: MessagesList_removeAll_def run)
qed

lemma messages_addRange_spec:
  assumes "slices_inv (ml_slices st)" and "range_from r \<le> range_till r"
    and "\<forall>x \<in> set msgs. range_from r \<le> x \<and> x \<le> range_till r" and "count = None \<or> \<not> inc"
  shows "\<exists>st' upd. MessagesList_addRange msgs r count inc st = Some (st', upd)
    \<and> slices_inv (ml_slices st')
    \<and> slices_messages (ml_slices st') = slices_messages (ml_slices st) \<union> set msgs
    \<and> slices_known (ml_slices st') = slices_known (ml_slices st) \<union> range_set r
    \<and> (\<exists>W \<in> set (ml_slices st'). upd_messages upd = Some (messages W) \<and> upd_range upd = srange W
        \<and> set msgs \<subseteq> set (messages W) \<and> range_set r \<subseteq> range_set (srange W))
    \<and> upd_count upd = ml_count st'"
proof -
  from addRangeItems_spec [OF assms(1-3)] obtain ys W res
    where ys: "addRangeItemsAndCountNew msgs r (ml_slices st) = Some (ys, W, res)"
      "slices_inv ys" "slices_messages ys = slices_messages (ml_slices st) \<union> set msgs"
      "slices_known ys = slices_known (ml_slices st) \<union> range_set r"
      "W \<in> set ys" "set msgs \<subseteq> set (messages W)" "range_set r \<subseteq> range_set (srange W)" by metis
  have pass: "\<not> (count \<noteq> None \<and> inc)" using assms(4) by blast
  have items: "MessagesList_addRangeItemsAndCountNew msgs r (ml_slices st) = Some (ys, W, added res)"
    by (simp add: MessagesList_addRangeItemsAndCountNew_def ys(1))
  obtain st' upd where add: "MessagesList_addRange msgs r count inc st = Some (st', upd)"
    unfolding MessagesList_addRange_def if_not_P [OF pass] items option.case prod.case Let_def by blast
  have "ml_slices st' = ys \<and> upd_messages upd = Some (messages W) \<and> upd_range upd = srange W
    \<and> upd_count upd = ml_count st'"
    using add [unfolded MessagesList_addRange_def if_not_P [OF pass] items option.case prod.case
      Let_def option.inject prod.inject] by auto
  with add ys show ?thesis by auto
qed

lemma truthful_filter:
  assumes "truthful T b" and c: "\<forall>t \<in> T. channel (fullId t) = c \<longrightarrow> t \<in> set (bids b)"
  shows "truthful {t \<in> T. channel (fullId t) \<noteq> c}
    (b\<lparr>bids := fst (remove_channel c (bids b)),
      bfullCount := map_option (\<lambda>k. k - snd (remove_channel c (bids b))) (bfullCount b),
      bskippedBefore := None, bskippedAfter := None\<rparr>)"
proof -
  let ?P = "\<lambda>p. channel (fullId p) \<noteq> c" and ?T = "{t \<in> T. channel (fullId t) \<noteq> c}"
  have fin: "finite T" and sorted: "sorted_wrt (<) (bids b)" and sub: "set (bids b) \<subseteq> T"
    and gap: "\<And>t. t \<in> T \<Longrightarrow> bids b \<noteq> [] \<Longrightarrow> hd (bids b) \<le> t \<Longrightarrow> t \<le> last (bids b) \<Longrightarrow> t \<in> set (bids b)"
    using assms(1) by (auto simp: truthful_def segment_of_def)
  note h = sorted_hd_last [OF sorted]
  let ?ids = "filter ?P (bids b)"
  have seg: "segment_of ?T ?ids"
    unfolding segment_of_def
  proof (intro conjI ballI impI)
    show "sorted_wrt (<) ?ids" using sorted by (rule sorted_wrt_filter)
    show "set ?ids \<subseteq> ?T" using sub by auto
    fix t assume t: "t \<in> ?T" "?ids \<noteq> []" "hd ?ids \<le> t" "t \<le> last ?ids"
    have "hd ?ids \<in> set (bids b)" "last ?ids \<in> set (bids b)" "bids b \<noteq> []"
      using hd_in_set [OF t(2)] last_in_set [OF t(2)] t(2) by auto
    then have "hd (bids b) \<le> t" "t \<le> last (bids b)" using t(3,4) h by (meson order_trans)+
    then show "t \<in> set ?ids" using gap t(1) \<open>bids b \<noteq> []\<close> by simp
  qed
  have "T = ?T \<union> set (filter (\<lambda>p. channel (fullId p) = c) (bids b))" using c sub by auto
  then have "card T = card ?T + card (set (filter (\<lambda>p. channel (fullId p) = c) (bids b)))"
    using fin by (subst card_Un_disjoint [symmetric]) auto
  moreover have "sorted_wrt (<) (filter (\<lambda>p. channel (fullId p) = c) (bids b))"
    using sorted by (rule sorted_wrt_filter)
  then have "card (set (filter (\<lambda>p. channel (fullId p) = c) (bids b))) =
      length (filter (\<lambda>p. channel (fullId p) = c) (bids b))"
    by (simp add: strict_sorted_iff distinct_card del: set_filter)
  ultimately show ?thesis
    using assms(1) seg by (auto simp: truthful_def remove_channel_eq)
qed

section \<open>The abstract list and its steps\<close>

datatype messages_op =
    MAddNew MessagePosition
  | MAddSlice "MessagePosition list" "MessagePosition range" "int option"
  | MRemoveOne MessagePosition
  | MRemoveAll int
  | MInvalidate
  | MInvalidateBottom

fun messages_op_valid :: "messages_op \<Rightarrow> bool" where
  "messages_op_valid (MAddNew p) \<longleftrightarrow> p \<le> MaxMessagePosition"
| "messages_op_valid (MAddSlice ms r c) \<longleftrightarrow> range_from r \<le> range_till r
     \<and> list_all (\<lambda>m. range_from r \<le> m \<and> m \<le> range_till r) ms"
| "messages_op_valid _ \<longleftrightarrow> True"

fun messages_exec :: "messages_op \<Rightarrow> MessagesList \<Rightarrow> MessagesList option" where
  "messages_exec (MAddNew p) st = map_option fst (MessagesList_addNew p st)"
| "messages_exec (MAddSlice ms r c) st = map_option fst (MessagesList_addSlice ms r c st)"
| "messages_exec (MRemoveOne p) st = Some (MessagesList_removeOne p st)"
| "messages_exec (MRemoveAll c) st = Some (MessagesList_removeAll c st)"
| "messages_exec MInvalidate st = Some (MessagesList_invalidate st)"
| "messages_exec MInvalidateBottom st = Some (MessagesList_invalidateBottom st)"

inductive messages_reachable :: "MessagesList \<Rightarrow> bool" where
  messages_init: "messages_reachable MessagesList_init"
| messages_step: "messages_reachable st \<Longrightarrow> messages_op_valid op \<Longrightarrow> messages_exec op st = Some st' \<Longrightarrow>
    messages_reachable st'"

fun messages_abs_step :: "messages_op \<Rightarrow> MessagePosition set \<times> MessagePosition set \<Rightarrow>
    MessagePosition set \<times> MessagePosition set \<Rightarrow> bool" where
  "messages_abs_step (MAddNew p) (M, K) (M', K') \<longleftrightarrow> M' = insert p M \<and> K' = K \<union> {p..MaxMessagePosition}"
| "messages_abs_step (MAddSlice ms r c) (M, K) (M', K') \<longleftrightarrow> M' = M \<union> set ms \<and> K' = K \<union> range_set r"
| "messages_abs_step (MRemoveOne p) (M, K) (M', K') \<longleftrightarrow> M' = M - {p} \<and> K' = K"
| "messages_abs_step (MRemoveAll c) (M, K) (M', K') \<longleftrightarrow> M' = {p \<in> M. channel (fullId p) \<noteq> c} \<and> K' = K"
| "messages_abs_step MInvalidate (M, K) (M', K') \<longleftrightarrow> M' = {} \<and> K' = {}"
| "messages_abs_step MInvalidateBottom (M, K) (M', K') \<longleftrightarrow>
     M' = M \<and> K' \<subseteq> K \<and> (\<forall>x \<in> K - K'. \<forall>m \<in> M. m < x)"

definition messages_knowledge :: "MessagesList \<Rightarrow> MessagePosition set \<times> MessagePosition set" where
  "messages_knowledge st = (slices_messages (ml_slices st), slices_known (ml_slices st))"

lemma messages_exec_spec:
  assumes inv: "slices_inv (ml_slices st)" and valid: "messages_op_valid op"
  shows "\<exists>st'. messages_exec op st = Some st' \<and> slices_inv (ml_slices st')
    \<and> messages_abs_step op (messages_knowledge st) (messages_knowledge st')"
proof (cases op)
  case (MAddNew p)
  then show ?thesis
    using messages_addRange_spec [OF inv, of "\<lparr>range_from = p, range_till = MaxMessagePosition\<rparr>" "[p]" None True] valid
    by (auto simp: MessagesList_addNew_def messages_knowledge_def range_set_def)
next
  case (MAddSlice ms r c)
  then show ?thesis
    using messages_addRange_spec [OF inv, of r ms c False] valid
    by (auto simp: MessagesList_addSlice_def messages_knowledge_def list_all_iff)
next
  case (MRemoveOne p)
  then show ?thesis
    using slices_removeOne_spec [OF inv, of p] by (simp add: MessagesList_removeOne_def messages_knowledge_def)
next
  case (MRemoveAll c)
  then show ?thesis using removeAll_channel_spec [OF inv, of c] by (simp add: messages_knowledge_def)
next
  case MInvalidate
  then show ?thesis by (simp add: MessagesList_invalidate_def messages_knowledge_def slices_inv_def)
next
  case MInvalidateBottom
  then show ?thesis
    using slices_invalidateBottom_spec [where top = MaxMessagePosition, OF inv]
    by (simp add: MessagesList_invalidateBottom_def messages_knowledge_def)
qed

lemma messages_reachable_inv: "messages_reachable st \<Longrightarrow> slices_inv (ml_slices st)"
proof (induction rule: messages_reachable.induct)
  case messages_init
  then show ?case by (simp add: MessagesList_init_def slices_inv_def)
next
  case (messages_step st op st')
  then show ?case using messages_exec_spec [of st op] by auto
qed

section \<open>Properties\<close>

text \<open>
  C27: Every valid operation on a reachable list of messages passes its \<^verbatim>\<open>Expects\<close>, keeps the
  slices disjoint, in order and sorted, and does to the known positions what the abstract list
  does; removing a channel takes exactly the positions of that channel away.
\<close>

theorem messages_list_ops_refine:
  assumes "messages_reachable st" and "messages_op_valid op"
  shows "\<exists>st'. messages_exec op st = Some st' \<and> messages_reachable st' \<and> slices_inv (ml_slices st')
    \<and> messages_abs_step op (messages_knowledge st) (messages_knowledge st')"
  using messages_exec_spec [OF messages_reachable_inv [OF assms(1)] assms(2)] messages_step [OF assms] by blast

theorem messages_list_ops_refine_witness:
  "\<exists>st'. messages_exec (MRemoveAll 7) MessagesList_init = Some st' \<and> messages_reachable st'
    \<and> messages_abs_step (MRemoveAll 7) (messages_knowledge MessagesList_init) (messages_knowledge st')"
  using messages_list_ops_refine [OF messages_init, of "MRemoveAll 7"] by auto

text \<open>
  A query puts a result exactly when its position is one the list knows about; then it is
  the window of the list's messages of that stretch around it.
\<close>

theorem messages_query_correct:
  assumes "messages_reachable st" and "0 \<le> limitBefore q" and "0 \<le> limitAfter q"
  shows "(\<forall>s \<in> set (ml_slices st). MessagePosition_valid (aroundId q) \<longrightarrow> aroundId q \<in> range_set (srange s) \<longrightarrow>
      (\<exists>res. MessagesList_query q st = Some res \<and> res_count res = ml_count st
        \<and> res_messageIds res = window (aroundId q) (limitBefore q) (limitAfter q)
            (sorted_list_of_set (slices_messages (ml_slices st) \<inter> range_set (srange s)))))
    \<and> (\<not> MessagePosition_valid (aroundId q) \<or> aroundId q \<notin> slices_known (ml_slices st) \<longrightarrow>
      MessagesList_query q st = None)"
proof -
  note inv = messages_reachable_inv [OF assms(1)]
  note at = slice_at_cases [where v = "aroundId q", OF inv]
  have "\<exists>res. MessagesList_query q st = Some res \<and> res_count res = ml_count st
      \<and> res_messageIds res = window (aroundId q) (limitBefore q) (limitAfter q)
          (sorted_list_of_set (slices_messages (ml_slices st) \<inter> range_set (srange s)))"
    if s: "s \<in> set (ml_slices st)" "MessagePosition_valid (aroundId q)" "aroundId q \<in> range_set (srange s)" for s
  proof -
    have "sorted_wrt (<) (messages s)" using inv s(1) by (simp add: slice_defs)
    note w = query_slice_window [OF this assms(2,3), of FullMessagesRange "ml_count st"]
    have "aroundId q \<in> slices_known (ml_slices st)" using s by (auto simp: slices_known_def)
    then have "MessagesList_query q st = Some (MessagesList_queryFromSlice q s st)"
      using at s by (simp add: MessagesList_query_def Let_def)
    with w show ?thesis
      unfolding slice_messages_alt(2) [OF inv s(1), symmetric] by (simp add: MessagesList_queryFromSlice_def)
  qed
  moreover have "MessagesList_query q st = None"
    if "\<not> MessagePosition_valid (aroundId q) \<or> aroundId q \<notin> slices_known (ml_slices st)"
    using at(1) that by (auto simp: MessagesList_query_def Let_def)
  ultimately show ?thesis by blast
qed


definition sample_position :: "int \<Rightarrow> MessagePosition" where
  "sample_position d = MessagePosition d (FullMsgId 7 d)"

definition sample_messages :: MessagesList where
  "sample_messages = \<lparr>ml_count = Some 5, ml_slices =
    [\<lparr>messages = [sample_position 3, sample_position 5],
      srange = \<lparr>range_from = sample_position 1, range_till = sample_position 9\<rparr>\<rparr>]\<rparr>"

lemma sample_less [simp]:
  "sample_position a < sample_position b \<longleftrightarrow> a < b" "sample_position a \<le> sample_position b \<longleftrightarrow> a \<le> b"
  by (auto simp: sample_position_def less_MessagePosition_def less_eq_MessagePosition_def
      MessagePosition_less_def MessagePosition_less_eq_def less_FullMsgId_def less_eq_FullMsgId_def
      FullMsgId_less_def FullMsgId_less_eq_def)

lemma sample_messages_reachable: "messages_reachable sample_messages"
proof (rule messages_step [OF messages_init])
  let ?r = "\<lparr>range_from = sample_position 1, range_till = sample_position 9\<rparr>"
  show "messages_exec (MAddSlice [sample_position 5, sample_position 3] ?r (Some 5)) MessagesList_init
    = Some sample_messages" by code_simp
  show "messages_op_valid (MAddSlice [sample_position 5, sample_position 3] ?r (Some 5))" by simp
qed

theorem messages_query_correct_witness:
  "\<exists>res. MessagesList_query \<lparr>aroundId = sample_position 4, limitBefore = 1, limitAfter = 0\<rparr> sample_messages
      = Some res \<and> res_count res = Some 5"
proof -
  let ?s = "\<lparr>messages = [sample_position 3, sample_position 5],
      srange = \<lparr>range_from = sample_position 1, range_till = sample_position 9\<rparr>\<rparr>"
  have s: "?s \<in> set (ml_slices sample_messages)" by (simp add: sample_messages_def)
  from messages_query_correct [OF sample_messages_reachable,
      of "\<lparr>aroundId = sample_position 4, limitBefore = 1, limitAfter = 0\<rparr>", THEN conjunct1, rule_format, OF _ _ s]
  show ?thesis
    by (simp add: range_set_def sample_messages_def MessagePosition_valid_def) (auto simp: sample_position_def)
qed

definition sample_messages_builder :: "MessagePosition slice_builder" where
  "sample_messages_builder = (MessagesSliceBuilder_init (sample_position 5) 1 2)\<lparr>
     bids := [sample_position 3, sample_position 5], bfullCount := Some 2\<rparr>"

lemma sample_messages_truthful: "truthful {sample_position 3, sample_position 5} sample_messages_builder"
proof -
  have "sample_position 3 \<noteq> sample_position 5" by (simp add: sample_position_def)
  then show ?thesis
    by (simp add: truthful_def segment_of_def sample_messages_builder_def MessagesSliceBuilder_init_def builder_init_def)
qed


end
