(* ===== verification/FlatMap.thy ===== *)
theory FlatMap
  imports FlatSet
begin

text \<open>
  The sorted associative containers \<^verbatim>\<open>base::flat_multi_map\<close> and \<^verbatim>\<open>base::flat_map\<close>
  (\<^verbatim>\<open>base/flat_map.h\<close>). The state is the deque of pairs \<^verbatim>\<open>_data.elements\<close>; the comparison
  object compares keys (\<^verbatim>\<open>transparent_compare\<close> unwraps the pairs). The contents seen by a
  client are the map \<open>map_of xs\<close>.
\<close>

section \<open>\<^verbatim>\<open>flat_multi_map\<close>\<close>

definition flat_map_pair_less :: "('k \<Rightarrow> 'k \<Rightarrow> bool) \<Rightarrow> 'k \<times> 'v \<Rightarrow> 'k \<times> 'v \<Rightarrow> bool" where
  "flat_map_pair_less lt a b = lt (fst a) (fst b)"

definition flat_multi_map_make :: "('k \<Rightarrow> 'k \<Rightarrow> bool) \<Rightarrow> ('k \<times> 'v) list \<Rightarrow> ('k \<times> 'v) list" where
  "flat_multi_map_make lt xs = sort_by (flat_map_pair_less lt) xs"

definition flat_map_getLowerBound :: "('k \<Rightarrow> 'k \<Rightarrow> bool) \<Rightarrow> 'k \<Rightarrow> ('k \<times> 'v) list \<Rightarrow> nat" where
  "flat_map_getLowerBound lt k xs = lower_bound (\<lambda>e key. lt (fst e) key) xs k"

definition flat_map_getUpperBound :: "('k \<Rightarrow> 'k \<Rightarrow> bool) \<Rightarrow> 'k \<Rightarrow> ('k \<times> 'v) list \<Rightarrow> nat" where
  "flat_map_getUpperBound lt k xs = upper_bound (\<lambda>key e. lt key (fst e)) xs k"

definition flat_map_getEqualRange ::
    "('k \<Rightarrow> 'k \<Rightarrow> bool) \<Rightarrow> 'k \<Rightarrow> ('k \<times> 'v) list \<Rightarrow> nat \<times> nat" where
  "flat_map_getEqualRange lt k xs = (flat_map_getLowerBound lt k xs, flat_map_getUpperBound lt k xs)"

definition flat_multi_map_insert ::
    "('k \<Rightarrow> 'k \<Rightarrow> bool) \<Rightarrow> 'k \<times> 'v \<Rightarrow> ('k \<times> 'v) list \<Rightarrow> ('k \<times> 'v) list \<times> nat" where
  "flat_multi_map_insert lt value xs =
     (if xs = [] \<or> lt (fst value) (fst (hd xs)) then (value # xs, 0)
      else if \<not> lt (fst value) (fst (last xs)) then (xs @ [value], length xs)
      else let pos = flat_map_getUpperBound lt (fst value) xs in (insert_at pos value xs, pos))"

definition flat_map_out_of_range :: "('k \<Rightarrow> 'k \<Rightarrow> bool) \<Rightarrow> 'k \<Rightarrow> ('k \<times> 'v) list \<Rightarrow> bool" where
  "flat_map_out_of_range lt k xs \<longleftrightarrow> xs = [] \<or> lt k (fst (hd xs)) \<or> lt (fst (last xs)) k"

definition flat_multi_map_removeOne ::
    "('k \<Rightarrow> 'k \<Rightarrow> bool) \<Rightarrow> 'k \<Rightarrow> ('k \<times> 'v) list \<Rightarrow> ('k \<times> 'v) list \<times> bool" where
  "flat_multi_map_removeOne lt k xs =
     (if flat_map_out_of_range lt k xs then (xs, False)
      else let pos = flat_map_getLowerBound lt k xs in
        if lt k (fst (xs ! pos)) then (xs, False) else (erase_at pos xs, True))"

definition flat_multi_map_removeAll ::
    "('k \<Rightarrow> 'k \<Rightarrow> bool) \<Rightarrow> 'k \<Rightarrow> ('k \<times> 'v) list \<Rightarrow> ('k \<times> 'v) list \<times> nat" where
  "flat_multi_map_removeAll lt k xs =
     (if flat_map_out_of_range lt k xs then (xs, 0)
      else let (first, second) = flat_map_getEqualRange lt k xs in
        if first = second then (xs, 0) else (erase_range first second xs, second - first))"

definition flat_map_erase :: "nat \<Rightarrow> ('k \<times> 'v) list \<Rightarrow> ('k \<times> 'v) list \<times> nat" where
  "flat_map_erase pos xs = (erase_at pos xs, pos)"

definition flat_map_findFirst :: "('k \<Rightarrow> 'k \<Rightarrow> bool) \<Rightarrow> 'k \<Rightarrow> ('k \<times> 'v) list \<Rightarrow> nat" where
  "flat_map_findFirst lt k xs =
     (if flat_map_out_of_range lt k xs then length xs
      else let pos = flat_map_getLowerBound lt k xs in
        if lt k (fst (xs ! pos)) then length xs else pos)"

definition flat_map_contains :: "('k \<Rightarrow> 'k \<Rightarrow> bool) \<Rightarrow> 'k \<Rightarrow> ('k \<times> 'v) list \<Rightarrow> bool" where
  "flat_map_contains lt k xs \<longleftrightarrow> flat_map_findFirst lt k xs \<noteq> length xs"

definition flat_multi_map_count :: "('k \<Rightarrow> 'k \<Rightarrow> bool) \<Rightarrow> 'k \<Rightarrow> ('k \<times> 'v) list \<Rightarrow> nat" where
  "flat_multi_map_count lt k xs =
     (if flat_map_out_of_range lt k xs then 0
      else let (first, second) = flat_map_getEqualRange lt k xs in second - first)"

section \<open>\<^verbatim>\<open>flat_map\<close>\<close>

definition flat_map_finalize :: "('k \<Rightarrow> 'k \<Rightarrow> bool) \<Rightarrow> ('k \<times> 'v) list \<Rightarrow> ('k \<times> 'v) list" where
  "flat_map_finalize lt xs = unique_by (\<lambda>a b. \<not> flat_map_pair_less lt a b) xs"

definition flat_map_make :: "('k \<Rightarrow> 'k \<Rightarrow> bool) \<Rightarrow> ('k \<times> 'v) list \<Rightarrow> ('k \<times> 'v) list" where
  "flat_map_make lt xs = flat_map_finalize lt (flat_multi_map_make lt xs)"

definition flat_map_insert ::
    "('k \<Rightarrow> 'k \<Rightarrow> bool) \<Rightarrow> 'k \<times> 'v \<Rightarrow> ('k \<times> 'v) list \<Rightarrow> ('k \<times> 'v) list \<times> nat \<times> bool" where
  "flat_map_insert lt value xs =
     (if xs = [] \<or> lt (fst value) (fst (hd xs)) then (value # xs, 0, True)
      else if lt (fst (last xs)) (fst value) then (xs @ [value], length xs, True)
      else let pos = flat_map_getLowerBound lt (fst value) xs in
        if lt (fst value) (fst (xs ! pos)) then (insert_at pos value xs, pos, True)
        else (xs, pos, False))"

definition flat_map_insert_or_assign ::
    "('k \<Rightarrow> 'k \<Rightarrow> bool) \<Rightarrow> 'k \<Rightarrow> 'v \<Rightarrow> ('k \<times> 'v) list \<Rightarrow> ('k \<times> 'v) list \<times> nat \<times> bool" where
  "flat_map_insert_or_assign lt k v xs =
     (if xs = [] \<or> lt k (fst (hd xs)) then ((k, v) # xs, 0, True)
      else if lt (fst (last xs)) k then (xs @ [(k, v)], length xs, True)
      else let pos = flat_map_getLowerBound lt k xs in
        if lt k (fst (xs ! pos)) then (insert_at pos (k, v) xs, pos, True)
        else (xs[pos := (fst (xs ! pos), v)], pos, False))"

definition flat_map_try_emplace ::
    "('k \<Rightarrow> 'k \<Rightarrow> bool) \<Rightarrow> 'k \<Rightarrow> 'v \<Rightarrow> ('k \<times> 'v) list \<Rightarrow> ('k \<times> 'v) list \<times> nat \<times> bool" where
  "flat_map_try_emplace lt k v xs =
     (if xs = [] \<or> lt k (fst (hd xs)) then ((k, v) # xs, 0, True)
      else if lt (fst (last xs)) k then (xs @ [(k, v)], length xs, True)
      else let pos = flat_map_getLowerBound lt k xs in
        if lt k (fst (xs ! pos)) then (insert_at pos (k, v) xs, pos, True)
        else (xs, pos, False))"

definition flat_map_remove ::
    "('k \<Rightarrow> 'k \<Rightarrow> bool) \<Rightarrow> 'k \<Rightarrow> ('k \<times> 'v) list \<Rightarrow> ('k \<times> 'v) list \<times> bool" where
  "flat_map_remove lt k xs = flat_multi_map_removeOne lt k xs"

definition flat_map_find :: "('k \<Rightarrow> 'k \<Rightarrow> bool) \<Rightarrow> 'k \<Rightarrow> ('k \<times> 'v) list \<Rightarrow> nat" where
  "flat_map_find lt k xs = flat_map_findFirst lt k xs"

text \<open>
  \<^verbatim>\<open>operator[]\<close> returns a reference: the model returns the new deque and the position the
  reference is bound to. \<open>dflt\<close> is the value \<^verbatim>\<open>Type()\<close> makes.
\<close>

definition flat_map_index ::
    "('k \<Rightarrow> 'k \<Rightarrow> bool) \<Rightarrow> 'v \<Rightarrow> 'k \<Rightarrow> ('k \<times> 'v) list \<Rightarrow> ('k \<times> 'v) list \<times> nat" where
  "flat_map_index lt dflt k xs =
     (if xs = [] \<or> lt k (fst (hd xs)) then ((k, dflt) # xs, 0)
      else if lt (fst (last xs)) k then (xs @ [(k, dflt)], length xs)
      else let pos = flat_map_getLowerBound lt k xs in
        if lt k (fst (xs ! pos)) then (insert_at pos (k, dflt) xs, pos)
        else (xs, pos))"

definition flat_map_take ::
    "('k \<Rightarrow> 'k \<Rightarrow> bool) \<Rightarrow> 'k \<Rightarrow> ('k \<times> 'v) list \<Rightarrow> ('k \<times> 'v) list \<times> 'v option" where
  "flat_map_take lt k xs =
     (let it = flat_map_find lt k xs in
      if it = length xs then (xs, None)
      else (fst (flat_map_erase it xs), Some (snd (xs ! it))))"

section \<open>Keys behave as in a flat set\<close>

abbreviation keys :: "('k \<times> 'v) list \<Rightarrow> 'k list" where
  "keys \<equiv> map fst"

lemma partition_point_map: "partition_point P (map f xs) = partition_point (\<lambda>x. P (f x)) xs"
  by (simp add: partition_point_def takeWhile_map comp_def)

lemma map_lower_bound: "flat_map_getLowerBound lt k xs = lower_bound lt (keys xs) k"
  by (simp add: flat_map_getLowerBound_def lower_bound_def partition_point_map)

lemma map_upper_bound: "flat_map_getUpperBound lt k xs = upper_bound lt (keys xs) k"
  by (simp add: flat_map_getUpperBound_def upper_bound_def partition_point_map)

lemma map_out_of_range: "flat_map_out_of_range lt k xs = flat_set_out_of_range lt k (keys xs)"
  by (cases xs) (auto simp: flat_map_out_of_range_def flat_set_out_of_range_def last_map hd_map)

lemma keys_insert_at [simp]: "keys (insert_at i x xs) = insert_at i (fst x) (keys xs)"
  by (simp add: insert_at_def take_map drop_map)

lemma keys_erase_at [simp]: "keys (erase_at i xs) = erase_at i (keys xs)"
  by (simp add: erase_at_def erase_range_def take_map drop_map)

lemma keys_assign: "i < length xs \<Longrightarrow> keys (xs[i := (fst (xs ! i), v)]) = keys xs"
  by (simp add: map_update) (metis list_update_id nth_map)

lemma try_emplace_insert: "flat_map_try_emplace lt k v xs = flat_map_insert lt (k, v) xs"
  by (simp add: flat_map_try_emplace_def flat_map_insert_def)

lemma insert_or_assign_insert:
  "flat_map_insert_or_assign lt k v xs =
    (case flat_map_insert lt (k, v) xs of (ys, pos, fresh) \<Rightarrow>
      (if fresh then ys else ys[pos := (fst (ys ! pos), v)], pos, fresh))"
  by (simp add: flat_map_insert_or_assign_def flat_map_insert_def Let_def)

lemma index_insert:
  "flat_map_index lt dflt k xs =
    (case flat_map_insert lt (k, dflt) xs of (ys, pos, fresh) \<Rightarrow> (ys, pos))"
  by (simp add: flat_map_index_def flat_map_insert_def Let_def)

context strict_weak_order
begin

lemma map_insert_canonical:
  assumes "sorted_wrt (\<lambda>a b. \<not> lt b a) (keys xs)"
  shows "flat_map_insert lt (k, v) xs =
    (let p = lower_bound lt (keys xs) k in
      if p < length xs \<and> \<not> lt k (fst (xs ! p)) then (xs, p, False)
      else (insert_at p (k, v) xs, p, True))"
proof -
  consider "xs = []" | "xs \<noteq> []" "lt k (hd (keys xs))"
    | "xs \<noteq> []" "\<not> lt k (hd (keys xs))" "lt (last (keys xs)) k"
    | "xs \<noteq> []" "\<not> lt k (hd (keys xs))" "\<not> lt (last (keys xs)) k" by blast
  then show ?thesis
  proof cases
    case 1
    then show ?thesis by (simp add: flat_map_insert_def lower_bound_def partition_point_def)
  next
    case 2
    with lower_bound_before [OF assms _ 2(2)] show ?thesis
      by (simp add: flat_map_insert_def hd_map hd_conv_nth)
  next
    case 3
    with lower_bound_after [OF assms _ 3(3)] show ?thesis
      by (simp add: flat_map_insert_def hd_map last_map insert_at_def)
  next
    case 4
    with lower_bound_inside [OF _ 4(3)] show ?thesis
      by (simp add: flat_map_insert_def map_lower_bound hd_map last_map Let_def)
  qed
qed

lemma map_find_canonical:
  assumes "sorted_wrt (\<lambda>a b. \<not> lt b a) (keys xs)"
  shows "flat_map_findFirst lt k xs = flat_set_findFirst lt k (keys xs)"
proof (cases "flat_set_out_of_range lt k (keys xs)")
  case False
  then have "lower_bound lt (keys xs) k < length (keys xs)"
    by (intro lower_bound_inside) (auto simp: flat_set_out_of_range_def)
  with False show ?thesis
    by (simp add: flat_map_findFirst_def flat_set_findFirst_def map_out_of_range map_lower_bound
        getLowerBound_def Let_def)
qed (simp add: flat_map_findFirst_def flat_set_findFirst_def map_out_of_range)

lemma map_remove_canonical:
  assumes "sorted_wrt (\<lambda>a b. \<not> lt b a) (keys xs)"
  shows "flat_multi_map_removeOne lt k xs =
    (if flat_set_contains lt k (keys xs) then (erase_at (flat_map_findFirst lt k xs) xs, True)
     else (xs, False))"
proof (cases "flat_set_out_of_range lt k (keys xs)")
  case False
  then have "lower_bound lt (keys xs) k < length (keys xs)"
    by (intro lower_bound_inside) (auto simp: flat_set_out_of_range_def)
  with False show ?thesis
    by (auto simp: flat_multi_map_removeOne_def flat_map_findFirst_def flat_set_contains_def
        flat_set_findFirst_def map_out_of_range map_lower_bound getLowerBound_def Let_def)
qed (simp add: flat_multi_map_removeOne_def flat_set_contains_def flat_set_findFirst_def
    map_out_of_range)

end

section \<open>The map interface\<close>

text \<open>
  What a client of \<^verbatim>\<open>flat_map\<close> relies on: each operation acts on the map of the pairs, and
  keeps the keys strictly sorted.
\<close>

locale sorted_map_interface =
  fixes invariant :: "('k \<times> 'v) list \<Rightarrow> bool"
    and add :: "'k \<Rightarrow> 'v \<Rightarrow> ('k \<times> 'v) list \<Rightarrow> ('k \<times> 'v) list"
    and assign :: "'k \<Rightarrow> 'v \<Rightarrow> ('k \<times> 'v) list \<Rightarrow> ('k \<times> 'v) list"
    and del :: "'k \<Rightarrow> ('k \<times> 'v) list \<Rightarrow> ('k \<times> 'v) list"
  assumes inv_empty: "invariant []"
    and inv_add: "invariant xs \<Longrightarrow> invariant (add k v xs)"
    and inv_assign: "invariant xs \<Longrightarrow> invariant (assign k v xs)"
    and inv_del: "invariant xs \<Longrightarrow> invariant (del k xs)"
    and map_add: "invariant xs \<Longrightarrow>
      map_of (add k v xs) = (if k \<in> dom (map_of xs) then map_of xs else (map_of xs)(k \<mapsto> v))"
    and map_assign: "invariant xs \<Longrightarrow> map_of (assign k v xs) = (map_of xs)(k \<mapsto> v)"
    and map_del: "invariant xs \<Longrightarrow> map_of (del k xs) = (map_of xs)(k := None)"
begin

lemma lookup_after_assign:
  "invariant xs \<Longrightarrow> map_of (assign k v xs) j = (if j = k then Some v else map_of xs j)"
  by (simp add: map_assign)

lemma add_after_del: "invariant xs \<Longrightarrow> map_of (add k v (del k xs)) = (map_of xs)(k \<mapsto> v)"
  by (simp add: map_add map_del inv_del)

lemma assign_after_add: "invariant xs \<Longrightarrow> map_of (assign k v (add k u xs)) = (map_of xs)(k \<mapsto> v)"
  by (simp add: map_add map_assign inv_add)

end

lemma map_of_middle:
  assumes "k \<notin> set (keys A)" and "k \<notin> set (keys B)"
  shows "map_of (A @ (k, v) # B) = (map_of (A @ B))(k \<mapsto> v)" and "map_of (A @ B) k = None"
proof -
  have "map_of A k = None" and "map_of B k = None"
    using assms by (auto simp: map_of_eq_None_iff)
  then show "map_of (A @ (k, v) # B) = (map_of (A @ B))(k \<mapsto> v)" and "map_of (A @ B) k = None"
    by (auto simp: map_of_append map_add_def fun_eq_iff split: option.splits)
qed

lemma map_of_insert_at:
  assumes "k \<notin> set (keys xs)"
  shows "map_of (insert_at p (k, v) xs) = (map_of xs)(k \<mapsto> v)"
proof -
  have "k \<notin> set (keys (take p xs))" and "k \<notin> set (keys (drop p xs))"
    using assms by (auto dest: in_set_takeD in_set_dropD)
  from map_of_middle(1) [OF this] show ?thesis by (simp add: insert_at_def)
qed

lemma distinct_keys_split:
  assumes "distinct (keys xs)" and "p < length xs"
  obtains A B where "xs = A @ (fst (xs ! p), snd (xs ! p)) # B" and "erase_at p xs = A @ B"
    and "\<And>v. xs[p := (fst (xs ! p), v)] = A @ (fst (xs ! p), v) # B"
    and "fst (xs ! p) \<notin> set (keys A)" and "fst (xs ! p) \<notin> set (keys B)"
proof
  show xs: "xs = take p xs @ (fst (xs ! p), snd (xs ! p)) # drop (Suc p) xs"
    using assms(2) by (simp add: id_take_nth_drop)
  show "erase_at p xs = take p xs @ drop (Suc p) xs" by (simp add: erase_at_def erase_range_def)
  show "xs[p := (fst (xs ! p), v)] = take p xs @ (fst (xs ! p), v) # drop (Suc p) xs" for v
    using assms(2) by (simp add: upd_conv_take_nth_drop)
  have "distinct (keys (take p xs) @ fst (xs ! p) # keys (drop (Suc p) xs))"
    using assms(1) xs by (metis fst_conv list.simps(9) map_append)
  then show "fst (xs ! p) \<notin> set (keys (take p xs))" and "fst (xs ! p) \<notin> set (keys (drop (Suc p) xs))"
    by auto
qed

lemma map_of_erase_at:
  assumes "distinct (keys xs)" and "p < length xs"
  shows "map_of (erase_at p xs) = (map_of xs)(fst (xs ! p) := None)"
proof -
  obtain A B where ab: "xs = A @ (fst (xs ! p), snd (xs ! p)) # B" "erase_at p xs = A @ B"
    and k: "fst (xs ! p) \<notin> set (keys A)" "fst (xs ! p) \<notin> set (keys B)"
    using distinct_keys_split [OF assms] by metis
  have "(map_of (A @ (fst (xs ! p), snd (xs ! p)) # B))(fst (xs ! p) := None) = map_of (A @ B)"
    using map_of_middle [OF k] by (simp add: fun_upd_idem)
  with ab show ?thesis by simp
qed

lemma map_of_assign_at:
  assumes "distinct (keys xs)" and "p < length xs"
  shows "map_of (xs[p := (fst (xs ! p), v)]) = (map_of xs)(fst (xs ! p) \<mapsto> v)"
proof -
  obtain A B where ab: "xs = A @ (fst (xs ! p), snd (xs ! p)) # B"
    "xs[p := (fst (xs ! p), v)] = A @ (fst (xs ! p), v) # B"
    and k: "fst (xs ! p) \<notin> set (keys A)" "fst (xs ! p) \<notin> set (keys B)"
    using distinct_keys_split [OF assms] by metis
  have "(map_of (A @ (fst (xs ! p), snd (xs ! p)) # B))(fst (xs ! p) \<mapsto> v)
      = map_of (A @ (fst (xs ! p), v) # B)"
    using map_of_middle [OF k] by simp
  with ab show ?thesis by simp
qed

context strict_linear_order
begin

lemma map_insert_spec:
  assumes "sorted_wrt lt (keys xs)" and "flat_map_insert lt (k, v) xs = (ys, p, fresh)"
  shows "sorted_wrt lt (keys ys)" and "p < length ys" and "fst (ys ! p) = k"
    and "fresh \<longleftrightarrow> k \<notin> set (keys xs)"
    and "map_of ys = (if fresh then (map_of xs)(k \<mapsto> v) else map_of xs)"
    and "fresh \<Longrightarrow> snd (ys ! p) = v" and "\<not> fresh \<Longrightarrow> ys = xs"
proof -
  let ?l = "lower_bound lt (keys xs) k"
  note weak = sorted_weaken [OF assms(1)]
  have found: "(?l < length xs \<and> \<not> lt k (fst (xs ! ?l))) \<longleftrightarrow> k \<in> set (keys xs)"
    using lower_bound_alike [OF weak, of k] by (auto simp: alike_eq)
  have fresh: "fresh \<longleftrightarrow> k \<notin> set (keys xs)"
    and p: "p = ?l" and ys: "ys = (if fresh then insert_at ?l (k, v) xs else xs)"
    using assms(2) found by (auto simp: map_insert_canonical [OF weak] Let_def split: if_splits)
  have old: "fst (xs ! ?l) = k" if "\<not> fresh"
    using that found fresh partition_point_stop [of "\<lambda>e. lt e k" "keys xs"]
    by (auto simp: lower_bound_def intro: total)
  have len: "?l \<le> length xs" using lower_bound_le [of lt "keys xs" k] by simp
  show "fresh \<longleftrightarrow> k \<notin> set (keys xs)" by (rule fresh)
  show "\<not> fresh \<Longrightarrow> ys = xs" by (simp add: ys)
  show "p < length ys" using len fresh found by (auto simp: p ys)
  show "fst (ys ! p) = k" using old len by (simp add: p ys nth_insert_at)
  show "fresh \<Longrightarrow> snd (ys ! p) = v" using len by (simp add: p ys nth_insert_at)
  show "map_of ys = (if fresh then (map_of xs)(k \<mapsto> v) else map_of xs)"
    using fresh by (auto simp: ys map_of_insert_at)
  show "sorted_wrt lt (keys ys)"
    using assms(1) fresh sorted_insert_lower [OF assms(1), of k] total
    by (auto simp: ys)
qed

lemma map_assign_spec:
  assumes "sorted_wrt lt (keys xs)"
  shows "sorted_wrt lt (keys (fst (flat_map_insert_or_assign lt k v xs)))"
    and "map_of (fst (flat_map_insert_or_assign lt k v xs)) = (map_of xs)(k \<mapsto> v)"
proof -
  obtain ys p fresh where i: "flat_map_insert lt (k, v) xs = (ys, p, fresh)"
    by (cases "flat_map_insert lt (k, v) xs") auto
  note spec = map_insert_spec [OF assms i]
  show "sorted_wrt lt (keys (fst (flat_map_insert_or_assign lt k v xs)))"
    using spec(1,2) by (simp add: insert_or_assign_insert i keys_assign)
  show "map_of (fst (flat_map_insert_or_assign lt k v xs)) = (map_of xs)(k \<mapsto> v)"
    using spec(3,5,6,7) map_of_assign_at [OF sorted_distinct [OF spec(1)] spec(2), of v]
    by (cases fresh) (simp_all add: insert_or_assign_insert i)
qed

lemma map_find_spec:
  assumes "sorted_wrt lt (keys xs)"
  shows "map_of xs k = (let p = flat_map_find lt k xs in
    if p = length xs then None else Some (snd (xs ! p)))"
    and "k \<in> set (keys xs) \<Longrightarrow> flat_map_find lt k xs < length xs \<and> fst (xs ! flat_map_find lt k xs) = k"
    and "k \<notin> set (keys xs) \<Longrightarrow> flat_map_find lt k xs = length xs"
proof -
  have p: "flat_map_find lt k xs = flat_set_findFirst lt k (keys xs)"
    by (simp add: flat_map_find_def map_find_canonical [OF sorted_weaken [OF assms]])
  show out: "flat_map_find lt k xs = length xs" if "k \<notin> set (keys xs)"
    using find_end [OF assms that] p by simp
  show inside: "flat_map_find lt k xs < length xs \<and> fst (xs ! flat_map_find lt k xs) = k"
    if "k \<in> set (keys xs)"
    using that find_position [OF assms] p by (metis in_set_conv_nth length_map nth_map)
  show "map_of xs k = (let p = flat_map_find lt k xs in
    if p = length xs then None else Some (snd (xs ! p)))"
  proof (cases "k \<in> set (keys xs)")
    case True
    with inside have "(k, snd (xs ! flat_map_find lt k xs)) \<in> set xs"
      by (metis nth_mem prod.collapse)
    with True inside show ?thesis
      using map_of_is_SomeI [OF sorted_distinct [OF assms]] by (auto simp: Let_def)
  next
    case False
    with out show ?thesis by (simp add: map_of_eq_None_iff)
  qed
qed

lemma map_remove_spec:
  assumes "sorted_wrt lt (keys xs)"
  shows "sorted_wrt lt (keys (fst (flat_map_remove lt k xs)))"
    and "map_of (fst (flat_map_remove lt k xs)) = (map_of xs)(k := None)"
    and "snd (flat_map_remove lt k xs) \<longleftrightarrow> k \<in> set (keys xs)"
    and "flat_map_take lt k xs = (fst (flat_map_remove lt k xs), map_of xs k)"
proof -
  note r = map_remove_canonical [OF sorted_weaken [OF assms], of k]
  show "sorted_wrt lt (keys (fst (flat_map_remove lt k xs)))"
    using assms by (simp add: flat_map_remove_def r sorted_wrt_erase_at)
  show "snd (flat_map_remove lt k xs) \<longleftrightarrow> k \<in> set (keys xs)"
    by (simp add: flat_map_remove_def r contains_set [OF assms])
  show "map_of (fst (flat_map_remove lt k xs)) = (map_of xs)(k := None)"
    using map_find_spec(2) [OF assms, of k] map_of_erase_at [OF sorted_distinct [OF assms]]
    by (auto simp: flat_map_remove_def r contains_set [OF assms] flat_map_find_def
        simp flip: map_of_eq_None_iff)
  show "flat_map_take lt k xs = (fst (flat_map_remove lt k xs), map_of xs k)"
    using map_find_spec [OF assms, of k]
    by (auto simp: flat_map_take_def flat_map_remove_def r contains_set [OF assms] flat_map_find_def
        flat_map_erase_def Let_def erase_at_def erase_range_def)
qed

end

context strict_linear_order
begin

lemma fmap_interface:
  "sorted_map_interface (\<lambda>xs. sorted_wrt lt (keys xs))
    (\<lambda>k v xs. fst (flat_map_insert lt (k, v) xs))
    (\<lambda>k v xs. fst (flat_map_insert_or_assign lt k v xs)) (\<lambda>k xs. fst (flat_map_remove lt k xs))"
proof (unfold_locales, goal_cases)
  case (2 xs k v)
  then show ?case using map_insert_spec(1) [OF 2, of k v] by (metis prod.collapse)
next
  case (5 xs k v)
  obtain ys p fresh where "flat_map_insert lt (k, v) xs = (ys, p, fresh)"
    by (cases "flat_map_insert lt (k, v) xs") auto
  with map_insert_spec(4,5) [OF 5 this] show ?case by (simp add: dom_map_of_conv_image_fst)
qed (simp_all add: map_assign_spec map_remove_spec)

end

sublocale strict_linear_order \<subseteq> fmap: sorted_map_interface "\<lambda>xs. sorted_wrt lt (keys xs)"
    "\<lambda>k v xs. fst (flat_map_insert lt (k, v) xs)"
    "\<lambda>k v xs. fst (flat_map_insert_or_assign lt k v xs)"
    "\<lambda>k xs. fst (flat_map_remove lt k xs)"
  by (rule fmap_interface)

section \<open>Properties\<close>



text \<open>
  Lookup in a \<^verbatim>\<open>flat_map\<close> is lookup in the map of its pairs: \<open>find\<close> returns the position
  of the pair with the key, or \<^verbatim>\<open>end()\<close>; \<open>contains\<close> tells the two apart; and \<^verbatim>\<open>operator[]\<close>
  yields the stored value, or a default value it has stored for a missing key.
\<close>

theorem flat_map_lookup_correct:
  assumes "strict_linear_order lt" and "sorted_wrt lt (keys xs)"
    and "flat_map_index lt dflt k xs = (ys, pos)"
  shows "map_of xs k =
      (if flat_map_find lt k xs = length xs then None else Some (snd (xs ! flat_map_find lt k xs)))
    \<and> (flat_map_contains lt k xs \<longleftrightarrow> k \<in> dom (map_of xs))
    \<and> ys ! pos = (k, case map_of xs k of None \<Rightarrow> dflt | Some v \<Rightarrow> v)
    \<and> map_of ys = (map_of xs)(k \<mapsto> snd (ys ! pos)) \<and> sorted_wrt lt (keys ys)"
proof -
  have find: "map_of xs k =
      (if flat_map_find lt k xs = length xs then None else Some (snd (xs ! flat_map_find lt k xs)))"
    using strict_linear_order.map_find_spec(1) [OF assms(1,2), of k] by (simp add: Let_def)
  then have "flat_map_contains lt k xs \<longleftrightarrow> k \<in> dom (map_of xs)"
    by (auto simp: flat_map_contains_def flat_map_find_def)
  moreover obtain fresh where "flat_map_insert lt (k, dflt) xs = (ys, pos, fresh)"
    using assms(3) by (auto simp: index_insert split: prod.splits)
  note spec = strict_linear_order.map_insert_spec [OF assms(1,2) this]
  have "ys ! pos = (k, case map_of xs k of None \<Rightarrow> dflt | Some v \<Rightarrow> v)"
  proof (cases fresh)
    case True
    with spec(4) have "map_of xs k = None" by (simp add: map_of_eq_None_iff)
    with True spec(3,6) show ?thesis by (simp add: prod_eq_iff)
  next
    case False
    then have "(k, snd (ys ! pos)) \<in> set xs"
      using spec(2,3,7) by (metis nth_mem prod.collapse)
    then have "map_of xs k = Some (snd (ys ! pos))"
      using strict_linear_order.sorted_distinct [OF assms(1,2)] by simp
    with spec(3) show ?thesis by (simp add: prod_eq_iff)
  qed
  moreover have "map_of ys = (map_of xs)(k \<mapsto> snd (ys ! pos))"
    using calculation(2) spec(4,5,6) by (cases fresh) (auto simp: map_of_eq_None_iff fun_eq_iff
        split: option.splits)
  ultimately show ?thesis using find spec(1) by simp
qed

theorem flat_map_lookup_correct_witness:
  "flat_map_index (<) [] 3 [(1 :: int, ''a'')] = ([(1, ''a''), (3, [])], 1)
    \<and> map_of [(1 :: int, ''a''), (3, [])] = (map_of [(1, ''a'')])(3 \<mapsto> [])"
proof -
  have s: "sorted_wrt (<) (keys [(1 :: int, ''a'')])" by simp
  have i: "flat_map_index (<) [] 3 [(1 :: int, ''a'')] = ([(1, ''a''), (3, [])], 1)"
    by (simp add: flat_map_index_def)
  from flat_map_lookup_correct [OF lin.strict_linear_order_axioms s i] i show ?thesis by simp
qed

end
