(* ===== verification/PtsWaiter.thy ===== *)
theory PtsWaiter
  imports FlatMap "HOL-Library.Word"
begin

text \<open>
  \<^verbatim>\<open>PtsWaiter\<close> (\<^verbatim>\<open>data/data_pts_waiter.cpp\<close>): keeps the server's sequence number \<^verbatim>\<open>pts\<close> of a chat
  or of the account. Updates that leave a gap wait in a queue until the gap is closed, and then
  all go to the api in the order of their \<^verbatim>\<open>pts\<close>.

  The updates are of any types \<open>'u\<close> and \<open>'us\<close>. An operation returns the new state and the calls
  it makes, in order: timers started at the main widget, if there is one (\<open>hasMain\<close>), and
  updates applied by the api. A \<^verbatim>\<open>QMap\<close> is a list of pairs with ascending keys. Sequence numbers
  are \<^verbatim>\<open>int32\<close> values that do not overflow.
\<close>

unbundle bit_operations_syntax

section \<open>State\<close>

datatype PtsSkippedQueue = SkippedUpdate | SkippedUpdates

datatype ('u, 'us) pts_call =
    StartTimerFor int
  | ApplyUpdateNoPtsCheck "'u option"
  | ApplyUpdatesNoPtsCheck "'us option"

record ('u, 'us) PtsWaiter =
  pw_queue :: "(64 word \<times> PtsSkippedQueue) list"
  pw_updateQueue :: "(64 word \<times> 'u) list"
  pw_updatesQueue :: "(64 word \<times> 'us) list"
  pw_good :: int
  pw_last :: int
  pw_count :: int
  pw_applySkippedLevel :: int
  pw_requesting :: bool
  pw_waitingForSkipped :: bool
  pw_waitingForShortPoll :: bool
  pw_skippedKey :: "32 word"

definition PtsWaiter_new :: "('u, 'us) PtsWaiter" where
  "PtsWaiter_new = \<lparr>pw_queue = [], pw_updateQueue = [], pw_updatesQueue = [], pw_good = 0, pw_last = 0,
     pw_count = 0, pw_applySkippedLevel = 0, pw_requesting = False, pw_waitingForSkipped = False,
     pw_waitingForShortPoll = False, pw_skippedKey = 0\<rparr>"

definition kWaitForSkippedTimeout :: int where "kWaitForSkippedTimeout = 1000"

section \<open>Operations\<close>

definition QMap_insert :: "64 word \<Rightarrow> 'v \<Rightarrow> (64 word \<times> 'v) list \<Rightarrow> (64 word \<times> 'v) list" where
  "QMap_insert k v m = fst (flat_map_insert_or_assign (<) k v m)"

definition clearSkippedUpdates :: "('u, 'us) PtsWaiter \<Rightarrow> ('u, 'us) PtsWaiter" where
  "clearSkippedUpdates w =
     w\<lparr>pw_queue := [], pw_updateQueue := [], pw_updatesQueue := [], pw_applySkippedLevel := 0\<rparr>"

definition pts_init :: "int \<Rightarrow> ('u, 'us) PtsWaiter \<Rightarrow> ('u, 'us) PtsWaiter" where
  "pts_init pts w = clearSkippedUpdates (w\<lparr>pw_good := pts, pw_last := pts, pw_count := pts\<rparr>)"

definition pts_inited :: "('u, 'us) PtsWaiter \<Rightarrow> bool" where
  "pts_inited w \<longleftrightarrow> 0 < pw_good w"

definition setRequesting :: "bool \<Rightarrow> ('u, 'us) PtsWaiter \<Rightarrow> ('u, 'us) PtsWaiter" where
  "setRequesting isRequesting w =
     (let w1 = w\<lparr>pw_requesting := isRequesting\<rparr>
      in if pw_requesting w1 then clearSkippedUpdates w1 else w1)"

text \<open>\<^verbatim>\<open>uint64(uint32(pts)) << 32 | (++_skippedKey)\<close>\<close>

definition pts_key_of :: "int \<Rightarrow> 32 word \<Rightarrow> 64 word" where
  "pts_key_of pts skippedKey = push_bit 32 (ucast (word_of_int pts :: 32 word)) OR ucast skippedKey"

definition ptsKey :: "PtsSkippedQueue \<Rightarrow> int \<Rightarrow> ('u, 'us) PtsWaiter \<Rightarrow> 64 word \<times> ('u, 'us) PtsWaiter" where
  "ptsKey queue pts w =
     (let skippedKey = pw_skippedKey w + 1;
          key = pts_key_of pts skippedKey
      in (key, w\<lparr>pw_skippedKey := skippedKey, pw_queue := QMap_insert key queue (pw_queue w)\<rparr>))"

definition checkForWaiting :: "bool \<Rightarrow> ('u, 'us) PtsWaiter \<Rightarrow> ('u, 'us) pts_call list" where
  "checkForWaiting hasMain w =
     (if \<not> pw_waitingForSkipped w \<and> \<not> pw_waitingForShortPoll w \<and> hasMain then [StartTimerFor (- 1)] else [])"

definition setWaitingForSkipped ::
    "bool \<Rightarrow> int \<Rightarrow> ('u, 'us) PtsWaiter \<Rightarrow> ('u, 'us) PtsWaiter \<times> ('u, 'us) pts_call list" where
  "setWaitingForSkipped hasMain ms w =
     (if 0 \<le> ms then (w\<lparr>pw_waitingForSkipped := True\<rparr>, if hasMain then [StartTimerFor ms] else [])
      else let w1 = w\<lparr>pw_waitingForSkipped := False\<rparr> in (w1, checkForWaiting hasMain w1))"

definition setWaitingForShortPoll ::
    "bool \<Rightarrow> int \<Rightarrow> ('u, 'us) PtsWaiter \<Rightarrow> ('u, 'us) PtsWaiter \<times> ('u, 'us) pts_call list" where
  "setWaitingForShortPoll hasMain ms w =
     (if 0 \<le> ms then (w\<lparr>pw_waitingForShortPoll := True\<rparr>, if hasMain then [StartTimerFor ms] else [])
      else let w1 = w\<lparr>pw_waitingForShortPoll := False\<rparr> in (w1, checkForWaiting hasMain w1))"

text \<open>The loop over the queue in the order of its keys.\<close>

fun apply_queue ::
    "(64 word \<times> PtsSkippedQueue) list \<Rightarrow> ('u, 'us) PtsWaiter \<Rightarrow> ('u, 'us) pts_call list" where
  "apply_queue [] w = []"
| "apply_queue ((k, kind) # rest) w =
     (case kind of
        SkippedUpdate \<Rightarrow> ApplyUpdateNoPtsCheck (map_of (pw_updateQueue w) k)
      | SkippedUpdates \<Rightarrow> ApplyUpdatesNoPtsCheck (map_of (pw_updatesQueue w) k)) # apply_queue rest w"

definition applySkippedUpdates ::
    "bool \<Rightarrow> ('u, 'us) PtsWaiter \<Rightarrow> ('u, 'us) PtsWaiter \<times> ('u, 'us) pts_call list" where
  "applySkippedUpdates hasMain w =
     (if \<not> pw_waitingForSkipped w then (w, [])
      else
        let (w1, calls) = setWaitingForSkipped hasMain (- 1) w
        in if pw_queue w1 = [] then (w1, calls)
           else (clearSkippedUpdates w1, calls @ apply_queue (pw_queue w1) w1))"

text \<open>\<^verbatim>\<open>check\<close> returns false if the update has to be saved and applied later.\<close>

definition pts_check ::
    "bool \<Rightarrow> int \<Rightarrow> int \<Rightarrow> ('u, 'us) PtsWaiter \<Rightarrow> bool \<times> ('u, 'us) PtsWaiter \<times> ('u, 'us) pts_call list" where
  "pts_check hasMain pts count w =
     (if \<not> pts_inited w then (True, pts_init pts w, [])
      else
        let w1 = w\<lparr>pw_last := max (pw_last w) pts, pw_count := pw_count w + count\<rparr>
        in if pw_last w1 = pw_count w1 then (True, w1\<lparr>pw_good := pw_last w1\<rparr>, [])
           else
             let (w2, calls) = setWaitingForSkipped hasMain
                   (if pw_last w1 < pw_count w1 then 1 else kWaitForSkippedTimeout) w1
             in (count = 0, w2, calls))"

text \<open>The three overloads of \<^verbatim>\<open>updated\<close>: without payload, with updates, with an update.\<close>

definition pts_updated ::
    "bool \<Rightarrow> int \<Rightarrow> int \<Rightarrow> ('u, 'us) PtsWaiter \<Rightarrow> bool \<times> ('u, 'us) PtsWaiter \<times> ('u, 'us) pts_call list" where
  "pts_updated hasMain pts count w =
     (if pw_requesting w \<or> pw_applySkippedLevel w \<noteq> 0 then (True, w, [])
      else if pts \<le> pw_good w \<and> 0 < count then (False, w, [])
      else pts_check hasMain pts count w)"

definition pts_updated_updates ::
    "bool \<Rightarrow> int \<Rightarrow> int \<Rightarrow> 'us \<Rightarrow> ('u, 'us) PtsWaiter \<Rightarrow>
      bool \<times> ('u, 'us) PtsWaiter \<times> ('u, 'us) pts_call list" where
  "pts_updated_updates hasMain pts count updates w =
     (if pw_requesting w \<or> pw_applySkippedLevel w \<noteq> 0 then (True, w, [])
      else if pts \<le> pw_good w \<and> 0 < count then (False, w, [])
      else
        let (checked, w1, calls) = pts_check hasMain pts count w
        in if checked then (True, w1, calls)
           else let (key, w2) = ptsKey SkippedUpdates pts w1
             in (False, w2\<lparr>pw_updatesQueue := QMap_insert key updates (pw_updatesQueue w2)\<rparr>, calls))"

definition pts_updated_update ::
    "bool \<Rightarrow> int \<Rightarrow> int \<Rightarrow> 'u \<Rightarrow> ('u, 'us) PtsWaiter \<Rightarrow>
      bool \<times> ('u, 'us) PtsWaiter \<times> ('u, 'us) pts_call list" where
  "pts_updated_update hasMain pts count update w =
     (if pw_requesting w \<or> pw_applySkippedLevel w \<noteq> 0 then (True, w, [])
      else if pts \<le> pw_good w \<and> 0 < count then (False, w, [])
      else
        let (checked, w1, calls) = pts_check hasMain pts count w
        in if checked then (True, w1, calls)
           else let (key, w2) = ptsKey SkippedUpdate pts w1
             in (False, w2\<lparr>pw_updateQueue := QMap_insert key update (pw_updateQueue w2)\<rparr>, calls))"

definition updateAndApply_updates ::
    "bool \<Rightarrow> int \<Rightarrow> int \<Rightarrow> 'us \<Rightarrow> ('u, 'us) PtsWaiter \<Rightarrow>
      bool \<times> ('u, 'us) PtsWaiter \<times> ('u, 'us) pts_call list" where
  "updateAndApply_updates hasMain pts count updates w =
     (let (now, w1, calls) = pts_updated_updates hasMain pts count updates w
      in if \<not> now then (False, w1, calls)
         else if \<not> pw_waitingForSkipped w1 \<or> pw_queue w1 = []
         then (True, w1, calls @ [ApplyUpdatesNoPtsCheck (Some updates)])
         else
           let (key, w2) = ptsKey SkippedUpdates pts w1;
               w3 = w2\<lparr>pw_updatesQueue := QMap_insert key updates (pw_updatesQueue w2)\<rparr>;
               (w4, calls') = applySkippedUpdates hasMain w3
           in (True, w4, calls @ calls'))"

definition updateAndApply_update ::
    "bool \<Rightarrow> int \<Rightarrow> int \<Rightarrow> 'u \<Rightarrow> ('u, 'us) PtsWaiter \<Rightarrow>
      bool \<times> ('u, 'us) PtsWaiter \<times> ('u, 'us) pts_call list" where
  "updateAndApply_update hasMain pts count update w =
     (let (now, w1, calls) = pts_updated_update hasMain pts count update w
      in if \<not> now then (False, w1, calls)
         else if \<not> pw_waitingForSkipped w1 \<or> pw_queue w1 = []
         then (True, w1, calls @ [ApplyUpdateNoPtsCheck (Some update)])
         else
           let (key, w2) = ptsKey SkippedUpdate pts w1;
               w3 = w2\<lparr>pw_updateQueue := QMap_insert key update (pw_updateQueue w2)\<rparr>;
               (w4, calls') = applySkippedUpdates hasMain w3
           in (True, w4, calls @ calls'))"

definition updateAndApply ::
    "bool \<Rightarrow> int \<Rightarrow> int \<Rightarrow> ('u, 'us) PtsWaiter \<Rightarrow> bool \<times> ('u, 'us) PtsWaiter \<times> ('u, 'us) pts_call list" where
  "updateAndApply hasMain pts count w =
     (let (now, w1, calls) = pts_updated hasMain pts count w
      in if \<not> now then (False, w1, calls)
         else let (w2, calls') = applySkippedUpdates hasMain w1 in (True, w2, calls @ calls'))"

section \<open>Keys\<close>

lemma drop_pts_key: "drop_bit 32 (pts_key_of pts k) = ucast (word_of_int pts :: 32 word)"
  by (rule bit_word_eqI) (auto simp: pts_key_of_def bit_simps dest: bit_imp_le_length)

lemma word_less_if_drop_bit_less:
  fixes a b :: "'a::len word"
  assumes "drop_bit n a < drop_bit n b"
  shows "a < b"
proof (rule ccontr)
  assume "\<not> a < b"
  then have "uint b \<le> uint a" by (simp add: word_less_def not_less)
  then have "uint b div 2 ^ n \<le> uint a div 2 ^ n" by (rule zdiv_mono1) simp
  then have "uint (drop_bit n b) \<le> uint (drop_bit n a)"
    by (simp add: unsigned_drop_bit_eq take_bit_int_eq_self flip: drop_bit_eq_div)
  with assms show False by (simp add: word_less_def)
qed

lemma pts_key_less:
  assumes "0 \<le> p" and "p < q" and "q < 2 ^ 31"
  shows "pts_key_of p k < pts_key_of q l"
proof (rule word_less_if_drop_bit_less [of 32])
  have "uint (word_of_int p :: 32 word) = p" "uint (word_of_int q :: 32 word) = q"
    using assms by (simp_all add: uint_word_of_int_eq take_bit_int_eq_self)
  then show "drop_bit 32 (pts_key_of p k) < drop_bit 32 (pts_key_of q l)"
    using assms(2) by (simp add: drop_pts_key word_less_def uint_up_ucast is_up)
qed

section \<open>The queue\<close>

text \<open>An update as it arrives: its \<^verbatim>\<open>pts\<close>, its count, and one update or several.\<close>

datatype ('u, 'us) entry = Entry (entry_pts: int) (entry_count: int) (entry_payload: "'u + 'us")

definition deliver ::
    "bool \<Rightarrow> ('u, 'us) entry \<Rightarrow> ('u, 'us) PtsWaiter \<Rightarrow> bool \<times> ('u, 'us) PtsWaiter \<times> ('u, 'us) pts_call list" where
  "deliver hasMain e w =
     (case entry_payload e of
        Inl update \<Rightarrow> updateAndApply_update hasMain (entry_pts e) (entry_count e) update w
      | Inr updates \<Rightarrow> updateAndApply_updates hasMain (entry_pts e) (entry_count e) updates w)"

definition entry_kind :: "('u, 'us) entry \<Rightarrow> PtsSkippedQueue" where
  "entry_kind e = (case entry_payload e of Inl _ \<Rightarrow> SkippedUpdate | Inr _ \<Rightarrow> SkippedUpdates)"

definition entry_call :: "('u, 'us) entry \<Rightarrow> ('u, 'us) pts_call" where
  "entry_call e = (case entry_payload e of
     Inl update \<Rightarrow> ApplyUpdateNoPtsCheck (Some update) | Inr updates \<Rightarrow> ApplyUpdatesNoPtsCheck (Some updates))"

definition enqueue :: "('u, 'us) entry \<Rightarrow> ('u, 'us) PtsWaiter \<Rightarrow> ('u, 'us) PtsWaiter" where
  "enqueue e w =
     (let (key, w2) = ptsKey (entry_kind e) (entry_pts e) w
      in case entry_payload e of
           Inl update \<Rightarrow> w2\<lparr>pw_updateQueue := QMap_insert key update (pw_updateQueue w2)\<rparr>
         | Inr updates \<Rightarrow> w2\<lparr>pw_updatesQueue := QMap_insert key updates (pw_updatesQueue w2)\<rparr>)"

lemma deliver_eq:
  assumes "\<not> pw_requesting w" and "pw_applySkippedLevel w = 0"
    and "\<not> (entry_pts e \<le> pw_good w \<and> 0 < entry_count e)"
  shows "deliver hasMain e w =
    (let (checked, w1, calls) = pts_check hasMain (entry_pts e) (entry_count e) w
     in if \<not> checked then (False, enqueue e w1, calls)
        else if \<not> pw_waitingForSkipped w1 \<or> pw_queue w1 = [] then (True, w1, calls @ [entry_call e])
        else let (w4, calls') = applySkippedUpdates hasMain (enqueue e w1) in (True, w4, calls @ calls'))"
  using assms
  by (cases "entry_payload e")
    (auto simp: deliver_def updateAndApply_update_def updateAndApply_updates_def pts_updated_update_def
      pts_updated_updates_def enqueue_def entry_kind_def entry_call_def Let_def split: prod.splits)

lemma QMap_insert_set:
  assumes "sorted_wrt (<) (keys m)" and "k \<notin> set (keys m)"
  shows "set (QMap_insert k v m) = insert (k, v) (set m)" and "sorted_wrt (<) (keys (QMap_insert k v m))"
proof -
  note spec = lin.map_assign_spec [OF assms(1), of k v]
  show sorted: "sorted_wrt (<) (keys (QMap_insert k v m))" using spec(1) by (simp add: QMap_insert_def)
  have d: "distinct (keys (QMap_insert k v m))" "distinct (keys m)"
    using sorted assms(1) by (simp_all add: strict_sorted_iff)
  have "map_of (QMap_insert k v m) = (map_of m)(k \<mapsto> v)" using spec(2) by (simp add: QMap_insert_def)
  moreover have "map_of m k = None" using assms(2) by (simp add: map_of_eq_None_iff)
  ultimately show "set (QMap_insert k v m) = insert (k, v) (set m)"
    unfolding set_map_of_compr [OF d(1)] set_map_of_compr [OF d(2)] by (auto split: if_splits)
qed

text \<open>The three queues hold exactly the entries \<open>Q\<close>, under keys made with the numbers \<open>key\<close>.\<close>

definition entry_key :: "(('u, 'us) entry \<Rightarrow> 32 word) \<Rightarrow> ('u, 'us) entry \<Rightarrow> 64 word" where
  "entry_key key e = pts_key_of (entry_pts e) (key e)"

definition pending :: "('u, 'us) entry set \<Rightarrow> (('u, 'us) entry \<Rightarrow> 32 word) \<Rightarrow> ('u, 'us) PtsWaiter \<Rightarrow> bool" where
  "pending Q key w \<longleftrightarrow>
     sorted_wrt (<) (keys (pw_queue w)) \<and> sorted_wrt (<) (keys (pw_updateQueue w))
     \<and> sorted_wrt (<) (keys (pw_updatesQueue w))
     \<and> set (pw_queue w) = (\<lambda>e. (entry_key key e, entry_kind e)) ` Q
     \<and> set (pw_updateQueue w) = {(entry_key key e, u) | e u. e \<in> Q \<and> entry_payload e = Inl u}
     \<and> set (pw_updatesQueue w) = {(entry_key key e, us) | e us. e \<in> Q \<and> entry_payload e = Inr us}"

text \<open>Distinct, not negative numbers that fit an \<^verbatim>\<open>int32\<close>.\<close>

definition pts_ok :: "('u, 'us) entry set \<Rightarrow> bool" where
  "pts_ok Q \<longleftrightarrow> inj_on entry_pts Q \<and> (\<forall>e \<in> Q. 0 \<le> entry_pts e \<and> entry_pts e < 2 ^ 31)"

lemma entry_key_less:
  "pts_ok Q \<Longrightarrow> a \<in> Q \<Longrightarrow> b \<in> Q \<Longrightarrow> entry_pts a < entry_pts b \<Longrightarrow> entry_key key a < entry_key key' b"
  unfolding entry_key_def pts_ok_def by (rule pts_key_less) auto

lemma entry_key_neq:
  assumes "pts_ok Q" and "a \<in> Q" and "b \<in> Q" and "a \<noteq> b"
  shows "entry_key key a \<noteq> entry_key key' b"
proof -
  have "entry_pts a \<noteq> entry_pts b" using assms by (auto simp: pts_ok_def inj_on_def)
  then show ?thesis
    using entry_key_less [OF assms(1), of a b key key'] entry_key_less [OF assms(1), of b a key' key] assms(2,3)
    by (cases "entry_pts a < entry_pts b") auto
qed

lemma pending_enqueue:
  assumes pend: "pending Q key w" and ok: "pts_ok (insert e Q)" and e: "e \<notin> Q"
  shows "pending (insert e Q) (key(e := pw_skippedKey w + 1)) (enqueue e w)"
proof -
  let ?key = "key(e := pw_skippedKey w + 1)" and ?k = "pts_key_of (entry_pts e) (pw_skippedKey w + 1)"
  have k: "entry_key ?key e = ?k" by (simp add: entry_key_def)
  have same: "entry_key ?key q = entry_key key q" if "q \<in> Q" for q
    using that e by (auto simp: entry_key_def)
  have neq: "entry_key key q \<noteq> ?k" if "q \<in> Q" for q
    using entry_key_neq [OF ok, of q e ?key ?key] that e same by (auto simp: k)
  have fresh: "?k \<notin> set (keys (pw_queue w))" "?k \<notin> set (keys (pw_updateQueue w))" "?k \<notin> set (keys (pw_updatesQueue w))"
    using pend neq by (force simp: pending_def)+
  note ins = QMap_insert_set [OF _ fresh(1)] QMap_insert_set [OF _ fresh(2)] QMap_insert_set [OF _ fresh(3)]
  have Q: "(\<lambda>q. (entry_key ?key q, entry_kind q)) ` insert e Q =
      insert (?k, entry_kind e) ((\<lambda>q. (entry_key key q, entry_kind q)) ` Q)"
    using same k by auto
  have U: "{(entry_key ?key q, u) | q u. q \<in> insert e Q \<and> entry_payload q = Inl u} =
      {(?k, u) | u. entry_payload e = Inl u} \<union> {(entry_key key q, u) | q u. q \<in> Q \<and> entry_payload q = Inl u}"
    using same k by (auto; metis)
  have S: "{(entry_key ?key q, u) | q u. q \<in> insert e Q \<and> entry_payload q = Inr u} =
      {(?k, u) | u. entry_payload e = Inr u} \<union> {(entry_key key q, u) | q u. q \<in> Q \<and> entry_payload q = Inr u}"
    using same k by (auto; metis)
  show ?thesis
    unfolding pending_def Q U S
    using pend ins
    by (cases "entry_payload e") (simp_all add: pending_def enqueue_def ptsKey_def Let_def)
qed

lemma assoc_sorted_unique:
  fixes xs ys :: "('k::linorder \<times> 'v) list"
  assumes "sorted_wrt (<) (keys xs)" and "sorted_wrt (<) (keys ys)" and "set xs = set ys"
  shows "xs = ys"
proof -
  have "keys xs = keys ys" by (rule lin.sorted_set_unique) (use assms in simp_all)
  moreover have "distinct (keys xs)" "distinct (keys ys)"
    using assms(1,2) by (simp_all add: strict_sorted_iff)
  ultimately show ?thesis using assms(1,3)
    by (intro map_sorted_distinct_set_unique [of fst])
      (auto simp: strict_sorted_iff distinct_map)
qed

lemma apply_pending:
  assumes pend: "pending Q key w" and ok: "pts_ok Q" and L: "sorted_wrt (\<lambda>a b. entry_pts a < entry_pts b) L" "set L = Q"
  shows "apply_queue (pw_queue w) w = map entry_call L"
proof -
  have "pw_queue w = map (\<lambda>e. (entry_key key e, entry_kind e)) L"
  proof (rule assoc_sorted_unique)
    have "sorted_wrt (\<lambda>a b. entry_key key a < entry_key key b) L"
      by (rule sorted_wrt_mono_rel [OF _ L(1)]) (use entry_key_less [OF ok] L(2) in auto)
    then show "sorted_wrt (<) (keys (map (\<lambda>e. (entry_key key e, entry_kind e)) L))"
      by (simp add: sorted_wrt_map comp_def)
  qed (use pend L(2) in \<open>simp_all add: pending_def\<close>)
  moreover have "apply_queue (map (\<lambda>e. (entry_key key e, entry_kind e)) K) w = map entry_call K" if "set K \<subseteq> Q" for K
    using that
  proof (induction K)
    case (Cons e K)
    have d: "distinct (keys (pw_updateQueue w))" "distinct (keys (pw_updatesQueue w))"
      using pend by (simp_all add: pending_def strict_sorted_iff)
    have "map_of (pw_updateQueue w) (entry_key key e) = Some u" if "entry_payload e = Inl u" for u
      using that pend Cons.prems by (intro map_of_is_SomeI [OF d(1)]) (auto simp: pending_def)
    moreover have "map_of (pw_updatesQueue w) (entry_key key e) = Some u" if "entry_payload e = Inr u" for u
      using that pend Cons.prems by (intro map_of_is_SomeI [OF d(2)]) (auto simp: pending_def)
    ultimately show ?case
      using Cons by (cases "entry_payload e") (simp_all add: entry_kind_def entry_call_def)
  qed simp
  ultimately show ?thesis using L(2) by simp
qed

section \<open>A gapless sequence of updates\<close>

fun contiguous :: "int \<Rightarrow> ('u, 'us) entry list \<Rightarrow> bool" where
  "contiguous g [] \<longleftrightarrow> True"
| "contiguous g (e # es) \<longleftrightarrow> 0 < entry_count e \<and> entry_pts e = g + entry_count e \<and> contiguous (entry_pts e) es"

definition end_pts :: "int \<Rightarrow> ('u, 'us) entry list \<Rightarrow> int" where
  "end_pts g es = g + (\<Sum>e \<leftarrow> es. entry_count e)"

lemma contiguous_append: "contiguous g (A @ B) \<longleftrightarrow> contiguous g A \<and> contiguous (end_pts g A) B"
proof (induction A arbitrary: g)
  case (Cons a A)
  have "end_pts g (a # A) = end_pts (g + entry_count a) A" by (simp add: end_pts_def)
  then show ?case using Cons [of "g + entry_count a"] by (simp cong: conj_cong)
qed (simp add: end_pts_def)

lemma contiguous_above: "contiguous g es \<Longrightarrow> e \<in> set es \<Longrightarrow> g < entry_pts e"
proof (induction es arbitrary: g)
  case (Cons a es)
  show ?case using Cons.prems Cons.IH [of "g + entry_count a"] by auto
qed simp

lemma contiguous_sorted: "contiguous g es \<Longrightarrow> sorted_wrt (\<lambda>a b. entry_pts a < entry_pts b) es"
proof (induction es arbitrary: g)
  case (Cons a es)
  then show ?case using contiguous_above [of "entry_pts a" es] by auto
qed simp

lemma contiguous_distinct: "contiguous g es \<Longrightarrow> distinct es"
proof (induction es arbitrary: g)
  case (Cons a es)
  then show ?case using contiguous_above [of "entry_pts a" es a] by auto
qed simp

lemma contiguous_end: "contiguous g es \<Longrightarrow> es \<noteq> [] \<Longrightarrow> end_pts g es = entry_pts (last es)"
proof (induction es arbitrary: g)
  case (Cons a es)
  show ?case using Cons.prems Cons.IH [of "g + entry_count a"] by (auto simp: end_pts_def)
qed simp

lemma contiguous_positive: "contiguous g es \<Longrightarrow> e \<in> set es \<Longrightarrow> 0 < entry_count e"
  by (induction es arbitrary: g) auto

lemma contiguous_below: "contiguous g es \<Longrightarrow> e \<in> set es \<Longrightarrow> entry_pts e \<le> end_pts g es"
proof (induction es arbitrary: g)
  case (Cons a es)
  have "0 \<le> entry_count e" if "e \<in> set es" for e
    using contiguous_positive [OF Cons.prems(1), of e] that by simp
  then have nonneg: "0 \<le> (\<Sum>e \<leftarrow> es. entry_count e)" by (intro sum_list_nonneg) auto
  show ?case
  proof (cases "e = a")
    case True
    then show ?thesis using Cons.prems(1) nonneg by (simp add: end_pts_def)
  next
    case False
    then show ?thesis using Cons.IH [of "entry_pts a"] Cons.prems by (auto simp: end_pts_def)
  qed
qed simp

definition arrived_total :: "int \<Rightarrow> ('u, 'us) entry set \<Rightarrow> int" where
  "arrived_total g S = g + (\<Sum>e \<in> S. entry_count e)"

definition arrived_top :: "int \<Rightarrow> ('u, 'us) entry set \<Rightarrow> int" where
  "arrived_top g S = Max (insert g (entry_pts ` S))"

lemma arrived_insert:
  "finite S \<Longrightarrow> e \<notin> S \<Longrightarrow> arrived_total g (insert e S) = arrived_total g S + entry_count e"
  "finite S \<Longrightarrow> e \<notin> S \<Longrightarrow> arrived_top g (insert e S) = max (arrived_top g S) (entry_pts e)"
  by (simp_all add: arrived_total_def arrived_top_def insert_commute [of g] max.commute)

lemma prefix_total:
  assumes "contiguous g A"
  shows "arrived_total g (set A) = end_pts g A" and "arrived_top g (set A) = end_pts g A"
proof -
  show "arrived_total g (set A) = end_pts g A"
    using contiguous_distinct [OF assms] by (simp add: arrived_total_def end_pts_def sum_list_distinct_conv_sum_set)
  show "arrived_top g (set A) = end_pts g A"
  proof (cases "A = []")
    case False
    have "\<And>x. x \<in> insert g (entry_pts ` set A) \<Longrightarrow> x \<le> end_pts g A"
      using contiguous_below [OF assms] contiguous_above [OF assms hd_in_set [OF False]] hd_in_set [OF False]
      by (fastforce intro: order_trans less_imp_le)
    moreover have "end_pts g A \<in> insert g (entry_pts ` set A)"
      using contiguous_end [OF assms False] False by simp
    ultimately show ?thesis unfolding arrived_top_def by (intro Max_eqI) simp_all
  qed (simp add: arrived_top_def end_pts_def)
qed

lemma contiguous_take: "contiguous g us \<Longrightarrow> contiguous g (take k us)"
  using contiguous_append [of g "take k us" "drop k us"] by simp

lemma arrived_complete:
  assumes us: "contiguous g us" and S: "S \<subseteq> set us"
  shows "arrived_total g S = arrived_top g S \<longleftrightarrow> (\<exists>k \<le> length us. S = set (take k us))"
proof
  assume "\<exists>k \<le> length us. S = set (take k us)"
  then show "arrived_total g S = arrived_top g S" using prefix_total [OF contiguous_take [OF us]] by auto
next
  assume eq: "arrived_total g S = arrived_top g S"
  show "\<exists>k \<le> length us. S = set (take k us)"
  proof (cases "S = {}")
    case True
    then show ?thesis by (intro exI [of _ 0]) simp
  next
    case False
    have fin: "finite S" using S finite_subset by blast
    have "Max (entry_pts ` S) \<in> entry_pts ` S" using fin False by simp
    then obtain e where e: "e \<in> S" "entry_pts e = Max (entry_pts ` S)" by auto
    have "e \<in> set us" using e(1) S by blast
    then obtain i where i: "i < length us" "us ! i = e" by (auto simp: in_set_conv_nth)
    let ?A = "take (Suc i) us"
    have A: "contiguous g ?A" by (rule contiguous_take [OF us])
    have "last ?A = e" "?A \<noteq> []" using i by (auto simp: take_Suc_conv_app_nth)
    then have top: "end_pts g ?A = entry_pts e" using contiguous_end [OF A] by simp
    have "arrived_top g S = entry_pts e"
      using fin False e contiguous_above [OF us, of e] S by (auto simp: arrived_top_def max_def)
    then have total: "arrived_total g S = arrived_total g (set ?A)"
      using eq top prefix_total(1) [OF A] by simp
    have sub: "S \<subseteq> set ?A"
    proof
      fix x assume x: "x \<in> S"
      then have "x \<in> set us" using S by blast
      then obtain j where j: "j < length us" "us ! j = x" by (auto simp: in_set_conv_nth)
      have "entry_pts x \<le> entry_pts e" using x e(2) fin by simp
      then have "\<not> i < j"
        using contiguous_sorted [OF us] i j by (auto simp: sorted_wrt_iff_nth_less dest: leD)
      then show "x \<in> set ?A" using j by (auto simp: in_set_conv_nth intro!: exI [of _ j])
    qed
    have "S = set ?A"
    proof (rule ccontr)
      assume "S \<noteq> set ?A"
      then obtain b where "b \<in> set ?A" "b \<notin> S" using sub by auto
      moreover have pos: "\<And>x. x \<in> set ?A \<Longrightarrow> 0 < entry_count x" using contiguous_positive [OF A] .
      ultimately have "sum entry_count S < sum entry_count (set ?A)"
        using sub by (intro sum_strict_mono2 [where b = b]) (auto intro: less_imp_le)
      with total show False by (simp add: arrived_total_def)
    qed
    then show ?thesis using i(1) by (intro exI [of _ "Suc i"]) simp
  qed
qed

section \<open>Arrival in any order\<close>

definition is_apply :: "('u, 'us) pts_call \<Rightarrow> bool" where
  "is_apply call = (case call of StartTimerFor _ \<Rightarrow> False | _ \<Rightarrow> True)"

lemma is_apply_simps [simp]:
  "\<not> is_apply (StartTimerFor ms)" "is_apply (ApplyUpdateNoPtsCheck u)" "is_apply (ApplyUpdatesNoPtsCheck us)"
  by (simp_all add: is_apply_def)

lemma is_apply_entry [simp]: "is_apply (entry_call e)"
  by (cases "entry_payload e") (simp_all add: entry_call_def)

lemma filter_entry_calls [simp]: "filter is_apply (map entry_call es) = map entry_call es"
  by (induction es) simp_all

text \<open>
  The state after the entries \<open>S\<close> of the gapless sequence \<open>us\<close> have arrived: the first \<open>m\<close> are
  applied, the others wait.
\<close>

definition pts_state ::
    "('u, 'us) entry list \<Rightarrow> int \<Rightarrow> ('u, 'us) entry set \<Rightarrow> nat \<Rightarrow> ('u, 'us) PtsWaiter \<Rightarrow>
      ('u, 'us) pts_call list \<Rightarrow> bool" where
  "pts_state us g S m w log \<longleftrightarrow> m \<le> length us \<and> set (take m us) \<subseteq> S \<and> S \<subseteq> set us
     \<and> ((\<exists>k \<le> length us. S = set (take k us)) \<longrightarrow> S = set (take m us))
     \<and> (\<exists>key. pending (S - set (take m us)) key w)
     \<and> pw_good w = end_pts g (take m us) \<and> pw_last w = arrived_top g S \<and> pw_count w = arrived_total g S
     \<and> (pw_waitingForSkipped w \<longleftrightarrow> S \<noteq> set (take m us))
     \<and> \<not> pw_requesting w \<and> pw_applySkippedLevel w = 0
     \<and> log = map entry_call (take m us)"

lemma check_inited:
  assumes "0 < pw_good w"
  shows "pts_check hasMain p c w =
    (let w1 = w\<lparr>pw_last := max (pw_last w) p, pw_count := pw_count w + c\<rparr>
     in if pw_last w1 = pw_count w1 then (True, w1\<lparr>pw_good := pw_last w1\<rparr>, [])
        else (c = 0, w1\<lparr>pw_waitingForSkipped := True\<rparr>,
          if hasMain then [StartTimerFor (if pw_last w1 < pw_count w1 then 1 else 1000)] else []))"
  using assms
  by (simp add: pts_check_def pts_inited_def setWaitingForSkipped_def kWaitForSkippedTimeout_def Let_def)

lemma pending_only_queues:
  "pw_queue w' = pw_queue w \<Longrightarrow> pw_updateQueue w' = pw_updateQueue w \<Longrightarrow> pw_updatesQueue w' = pw_updatesQueue w \<Longrightarrow>
    pending Q key w' = pending Q key w"
  by (simp add: pending_def)

lemma pending_empty: "pending Q key w \<Longrightarrow> pw_queue w = [] \<longleftrightarrow> Q = {}"
  by (auto simp: pending_def)

lemma enqueue_other:
  "pw_good (enqueue e w) = pw_good w" "pw_last (enqueue e w) = pw_last w"
  "pw_count (enqueue e w) = pw_count w" "pw_applySkippedLevel (enqueue e w) = pw_applySkippedLevel w"
  "pw_requesting (enqueue e w) = pw_requesting w"
  "pw_waitingForSkipped (enqueue e w) = pw_waitingForSkipped w"
  "pw_waitingForShortPoll (enqueue e w) = pw_waitingForShortPoll w"
  by (cases "entry_payload e"; simp add: enqueue_def ptsKey_def Let_def)+

lemma applySkipped_queue:
  assumes "pw_waitingForSkipped w" and "pw_queue w \<noteq> []"
  shows "applySkippedUpdates hasMain w =
    (clearSkippedUpdates (w\<lparr>pw_waitingForSkipped := False\<rparr>),
     checkForWaiting hasMain (w\<lparr>pw_waitingForSkipped := False\<rparr>) @
       apply_queue (pw_queue w) (w\<lparr>pw_waitingForSkipped := False\<rparr>))"
  using assms by (simp add: applySkippedUpdates_def setWaitingForSkipped_def Let_def)

lemma apply_queue_only_queues:
  "pw_updateQueue w' = pw_updateQueue w \<Longrightarrow> pw_updatesQueue w' = pw_updatesQueue w \<Longrightarrow>
    apply_queue xs w' = apply_queue xs w"
  by (induction xs) (auto split: PtsSkippedQueue.splits)

lemma filter_checkForWaiting [simp]: "filter is_apply (checkForWaiting hasMain w) = []"
  by (simp add: checkForWaiting_def)

text \<open>A gapless sequence after the positive \<open>g\<close>, in the range of \<^verbatim>\<open>int32\<close>.\<close>

definition pts_sequence :: "int \<Rightarrow> ('u, 'us) entry list \<Rightarrow> bool" where
  "pts_sequence g us \<longleftrightarrow> contiguous g us \<and> 0 < g \<and> end_pts g us < 2 ^ 31"

lemma sequence_pts_ok:
  assumes seq: "pts_sequence g us" and S: "S \<subseteq> set us"
  shows "pts_ok S"
proof -
  have us: "contiguous g us" and g: "0 < g" and fits: "end_pts g us < 2 ^ 31"
    using seq by (simp_all add: pts_sequence_def)
  have "entry_pts x \<noteq> entry_pts y" if xy: "x \<in> set us" "y \<in> set us" "x \<noteq> y" for x y
  proof -
    obtain i j where "i < length us" "us ! i = x" "j < length us" "us ! j = y"
      using xy(1,2) by (auto simp: in_set_conv_nth)
    then show ?thesis
      using sorted_wrt_nth_less [OF contiguous_sorted [OF us], of i j]
        sorted_wrt_nth_less [OF contiguous_sorted [OF us], of j i] xy(3)
      by (cases i j rule: linorder_cases) auto
  qed
  then have "inj_on entry_pts (set us)" unfolding inj_on_def by blast
  then have "inj_on entry_pts S" using S by (rule inj_on_subset)
  moreover have "0 \<le> entry_pts e \<and> entry_pts e < 2 ^ 31" if "e \<in> S" for e
  proof -
    have "e \<in> set us" using that S by blast
    then show ?thesis using contiguous_below [OF us] contiguous_above [OF us] fits g by fastforce
  qed
  ultimately show ?thesis by (simp add: pts_ok_def)
qed

lemma new_not_dropped:
  assumes seq: "pts_sequence g us" and st: "pts_state us g S m w log" and e: "e \<in> set us" "e \<notin> S"
  shows "pw_good w < entry_pts e" and "0 < pw_good w"
proof -
  have us: "contiguous g us" and g: "0 < g" using seq by (simp_all add: pts_sequence_def)
  have take: "set (take m us) \<subseteq> S" "pw_good w = end_pts g (take m us)" using st by (simp_all add: pts_state_def)
  have "e \<in> set (take m us) \<union> set (drop m us)" using e(1) by (metis append_take_drop_id set_append)
  then have "e \<in> set (drop m us)" using take(1) e(2) by blast
  moreover have "contiguous (end_pts g (take m us)) (drop m us)"
    using us contiguous_append [of g "take m us" "drop m us"] by simp
  ultimately show "pw_good w < entry_pts e" using take(2) contiguous_above by metis
  have "0 \<le> entry_count x" if "x \<in> set (take m us)" for x
    using contiguous_positive [OF us] in_set_takeD [OF that] by (simp add: less_imp_le)
  then have "0 \<le> (\<Sum>x \<leftarrow> take m us. entry_count x)" by (intro sum_list_nonneg) auto
  then show "0 < pw_good w" using take(2) g by (simp add: end_pts_def)
qed

lemma step_waits:
  assumes seq: "pts_sequence g us" and st: "pts_state us g S m w log" and e: "e \<in> set us" "e \<notin> S"
    and gap: "\<not> (\<exists>k \<le> length us. insert e S = set (take k us))"
  shows "\<exists>w' calls. deliver hasMain e w = (False, w', calls) \<and> filter is_apply calls = []
    \<and> pts_state us g (insert e S) m w' log"
proof -
  have us: "contiguous g us" using seq by (simp add: pts_sequence_def)
  note new = new_not_dropped [OF seq st e]
  have fin: "finite S" and sub: "insert e S \<subseteq> set us"
    using st e(1) finite_subset by (auto simp: pts_state_def)
  let ?w1 = "w\<lparr>pw_last := max (pw_last w) (entry_pts e), pw_count := pw_count w + entry_count e,
    pw_waitingForSkipped := True\<rparr>"
  have neq: "max (pw_last w) (entry_pts e) \<noteq> pw_count w + entry_count e"
    using arrived_complete [OF us sub] gap arrived_insert [OF fin e(2), of g] st by (simp add: pts_state_def)
  have pos: "entry_count e \<noteq> 0" using contiguous_positive [OF us e(1)] by simp
  obtain calls where check: "pts_check hasMain (entry_pts e) (entry_count e) w = (False, ?w1, calls)"
    and calls: "filter is_apply calls = []"
    unfolding check_inited [OF new(2)] using neq pos by (auto simp: Let_def)
  have d: "deliver hasMain e w = (False, enqueue e ?w1, calls)"
    using st new(1) by (subst deliver_eq) (simp_all add: pts_state_def check)
  from st obtain key where pend: "pending (S - set (take m us)) key w" by (auto simp: pts_state_def)
  have "pending (insert e (S - set (take m us))) (key(e := pw_skippedKey ?w1 + 1)) (enqueue e ?w1)"
  proof (rule pending_enqueue)
    show "pending (S - set (take m us)) key ?w1" using pend by (simp add: pending_def)
    show "pts_ok (insert e (S - set (take m us)))" by (rule sequence_pts_ok [OF seq]) (use sub in auto)
  qed (use e(2) in simp)
  moreover have "insert e (S - set (take m us)) = insert e S - set (take m us)"
    using e(2) st by (auto simp: pts_state_def)
  ultimately have "\<exists>key. pending (insert e S - set (take m us)) key (enqueue e ?w1)" by auto
  then have "pts_state us g (insert e S) m (enqueue e ?w1) log"
    using st e(2) sub gap arrived_insert [OF fin e(2), of g] by (auto simp: pts_state_def enqueue_other)
  with d calls show ?thesis by blast
qed

lemma sorted_segment:
  assumes "contiguous g us" and "m \<le> k"
  shows "set (take k us) - set (take m us) = set (drop m (take k us))"
    and "sorted_wrt (\<lambda>a b. entry_pts a < entry_pts b) (drop m (take k us))"
proof -
  have split: "take k us = take m us @ drop m (take k us)"
    using assms(2) by (metis append_take_drop_id min.absorb1 take_take)
  have "distinct (take m us @ drop m (take k us))"
    unfolding split [symmetric] using contiguous_distinct [OF assms(1)] by simp
  then have "set (take m us) \<inter> set (drop m (take k us)) = {}" by simp
  moreover have "set (take k us) = set (take m us) \<union> set (drop m (take k us))"
    by (subst split) (simp only: set_append)
  ultimately show "set (take k us) - set (take m us) = set (drop m (take k us))" by blast
  show "sorted_wrt (\<lambda>a b. entry_pts a < entry_pts b) (drop m (take k us))"
    by (intro sorted_wrt_drop sorted_wrt_take contiguous_sorted [OF assms(1)])
qed

lemma take_subset_le:
  assumes "distinct us" and "m \<le> length us" and "set (take m us) \<subseteq> set (take k us)" and "k \<le> length us"
  shows "m \<le> k"
proof -
  have "card (set (take m us)) \<le> card (set (take k us))" using assms(3) by (intro card_mono) auto
  then show ?thesis using assms(1,2,4) by (simp add: distinct_card)
qed

lemma step_closes:
  assumes seq: "pts_sequence g us" and st: "pts_state us g S m w log" and e: "e \<in> set us" "e \<notin> S"
    and k: "k \<le> length us" "insert e S = set (take k us)"
  shows "\<exists>w' calls. deliver hasMain e w = (True, w', calls)
    \<and> pts_state us g (insert e S) k w' (log @ filter is_apply calls)"
proof -
  have us: "contiguous g us" using seq by (simp add: pts_sequence_def)
  note new = new_not_dropped [OF seq st e]
  have fin: "finite S" and sub: "insert e S \<subseteq> set us" and m: "m \<le> length us" "set (take m us) \<subseteq> S"
    using st e(1) finite_subset by (auto simp: pts_state_def)
  have dist: "distinct us" by (rule contiguous_distinct [OF us])
  have mk: "m \<le> k" by (rule take_subset_le [OF dist m(1) _ k(1)]) (use m(2) k(2) in blast)
  let ?top = "arrived_top g (insert e S)"
  let ?w1 = "w\<lparr>pw_last := ?top, pw_count := arrived_total g (insert e S), pw_good := ?top\<rparr>"
  have top: "?top = end_pts g (take k us)" unfolding k(2) by (rule prefix_total(2) [OF contiguous_take [OF us]])
  have "\<exists>k \<le> length us. insert e S = set (take k us)" using k by blast
  then have eq: "?top = arrived_total g (insert e S)" using arrived_complete [OF us sub] by simp
  have check: "pts_check hasMain (entry_pts e) (entry_count e) w = (True, ?w1, [])"
    unfolding check_inited [OF new(2)] using st eq arrived_insert [OF fin e(2), of g]
    by (simp add: pts_state_def Let_def)
  from st obtain key where pend: "pending (S - set (take m us)) key w" by (auto simp: pts_state_def)
  note seg = sorted_segment [OF us mk]
  have new_part: "insert e S - set (take m us) = set (drop m (take k us))" using seg(1) k(2) by simp
  have log: "map entry_call (take k us) = map entry_call (take m us) @ map entry_call (drop m (take k us))"
    using mk by (metis append_take_drop_id map_append min.absorb1 take_take)
  have queue: "pw_queue ?w1 = [] \<longleftrightarrow> S = set (take m us)"
    using pending_empty [OF pend] m(2) by auto
  show ?thesis
  proof (cases "S = set (take m us)")
    case True
    then have "\<not> pw_waitingForSkipped w" using st by (simp add: pts_state_def)
    then have d: "deliver hasMain e w = (True, ?w1, [entry_call e])"
      using st new(1) by (subst deliver_eq) (simp_all add: pts_state_def check)
    have "set (drop m (take k us)) = {e}" using new_part True e(2) by auto
    moreover have "distinct (drop m (take k us))" using dist by simp
    ultimately have "drop m (take k us) = [e]"
      by (metis distinct_card length_0_conv length_Suc_conv card_1_singleton_iff One_nat_def is_singleton_altdef
          is_singletonI set_ConsD empty_iff empty_set list.set_intros(1) singletonD)
    then have "pts_state us g (insert e S) k ?w1 (log @ [entry_call e])"
      using st k top eq True e(2) pend log sub [unfolded k(2)] \<open>\<not> pw_waitingForSkipped w\<close>
      by (auto simp: pts_state_def pending_def)
    with d show ?thesis by auto
  next
    case False
    then have waiting: "pw_waitingForSkipped ?w1" using st by (simp add: pts_state_def)
    have "pending (insert e (S - set (take m us))) (key(e := pw_skippedKey ?w1 + 1)) (enqueue e ?w1)"
    proof (rule pending_enqueue)
      show "pending (S - set (take m us)) key ?w1" using pend by (simp add: pending_def)
      show "pts_ok (insert e (S - set (take m us)))" by (rule sequence_pts_ok [OF seq]) (use sub in auto)
    qed (use e(2) in simp)
    moreover have "insert e (S - set (take m us)) = set (drop m (take k us))"
      using e(2) m(2) new_part by auto
    ultimately have pend': "pending (set (drop m (take k us))) (key(e := pw_skippedKey ?w1 + 1)) (enqueue e ?w1)"
      by simp
    have applied: "apply_queue (pw_queue (enqueue e ?w1)) (enqueue e ?w1) = map entry_call (drop m (take k us))"
      by (rule apply_pending [OF pend' sequence_pts_ok [OF seq] seg(2) refl])
        (use set_drop_subset [of m "take k us"] set_take_subset [of k us] in blast)
    have "e \<in> set (drop m (take k us))" using new_part e(2) m(2) by blast
    then have ne: "pw_queue (enqueue e ?w1) \<noteq> []" using pending_empty [OF pend'] by auto
    let ?w' = "clearSkippedUpdates ((enqueue e ?w1)\<lparr>pw_waitingForSkipped := False\<rparr>)"
    let ?calls = "checkForWaiting hasMain ((enqueue e ?w1)\<lparr>pw_waitingForSkipped := False\<rparr>) @
      map entry_call (drop m (take k us))"
    have skip: "applySkippedUpdates hasMain (enqueue e ?w1) = (?w', ?calls)"
      using applySkipped_queue [of "enqueue e ?w1" hasMain] waiting ne applied
        apply_queue_only_queues [of "(enqueue e ?w1)\<lparr>pw_waitingForSkipped := False\<rparr>" "enqueue e ?w1"]
      by (simp add: enqueue_other)
    have d: "deliver hasMain e w = (True, ?w', ?calls)"
      using st new(1) waiting queue False
      by (subst deliver_eq) (simp_all add: pts_state_def check skip)
    have "pending {} key ?w'" by (simp add: pending_def clearSkippedUpdates_def)
    then have "pts_state us g (insert e S) k ?w' (log @ filter is_apply ?calls)"
      using st k top eq log sub [unfolded k(2)] by (auto simp: pts_state_def clearSkippedUpdates_def enqueue_other)
    with d show ?thesis by blast
  qed
qed

lemma deliver_step:
  assumes "pts_sequence g us" and "pts_state us g S m w log" and "e \<in> set us" and "e \<notin> S"
  shows "\<exists>m' now w' calls. deliver hasMain e w = (now, w', calls)
    \<and> pts_state us g (insert e S) m' w' (log @ filter is_apply calls)"
proof (cases "\<exists>k \<le> length us. insert e S = set (take k us)")
  case True
  then show ?thesis using step_closes [OF assms] by blast
next
  case False
  then show ?thesis using step_waits [OF assms] by (metis append_Nil2)
qed

fun deliver_all ::
    "bool \<Rightarrow> ('u, 'us) entry list \<Rightarrow> ('u, 'us) PtsWaiter \<Rightarrow> ('u, 'us) PtsWaiter \<times> ('u, 'us) pts_call list" where
  "deliver_all hasMain [] w = (w, [])"
| "deliver_all hasMain (e # es) w =
     (let (_, w1, calls) = deliver hasMain e w; (w2, calls') = deliver_all hasMain es w1
      in (w2, calls @ calls'))"

lemma deliver_all_state:
  assumes "pts_sequence g us" and "pts_state us g S m w log"
    and "distinct arr" and "set arr \<subseteq> set us" and "set arr \<inter> S = {}"
  shows "\<exists>m'. pts_state us g (S \<union> set arr) m' (fst (deliver_all hasMain arr w))
    (log @ filter is_apply (snd (deliver_all hasMain arr w)))"
  using assms(2-)
proof (induction arr arbitrary: S m w log)
  case (Cons e arr)
  from deliver_step [OF assms(1) Cons.prems(1), of e hasMain] Cons.prems obtain m' now w' calls
    where d: "deliver hasMain e w = (now, w', calls)"
      and st: "pts_state us g (insert e S) m' w' (log @ filter is_apply calls)" by auto
  have "\<exists>m''. pts_state us g (insert e S \<union> set arr) m'' (fst (deliver_all hasMain arr w'))
    ((log @ filter is_apply calls) @ filter is_apply (snd (deliver_all hasMain arr w')))"
    by (rule Cons.IH [OF st]) (use Cons.prems in auto)
  then show ?case using d by (simp add: split_beta Let_def)
qed auto

lemma init_state: "pts_sequence g us \<Longrightarrow> pts_state us g {} 0 (pts_init g PtsWaiter_new) []"
  by (auto simp: pts_state_def pts_init_def PtsWaiter_new_def clearSkippedUpdates_def end_pts_def
      arrived_top_def arrived_total_def pending_def)

section \<open>Properties\<close>

text \<open>
  C25: However the updates of a gapless sequence arrive, at every moment the api has been given
  a first part of the sequence, in its order and each update once; when all have arrived it was
  given all of them, nothing waits and \<^verbatim>\<open>pts\<close> is that of the last one.
\<close>

theorem pts_any_order_applied_in_order:
  assumes "pts_sequence g us" and "distinct arr" and "set arr = set us"
  shows "(\<forall>n. \<exists>m. filter is_apply (snd (deliver_all hasMain (take n arr) (pts_init g PtsWaiter_new)))
        = map entry_call (take m us))
    \<and> filter is_apply (snd (deliver_all hasMain arr (pts_init g PtsWaiter_new))) = map entry_call us
    \<and> pw_queue (fst (deliver_all hasMain arr (pts_init g PtsWaiter_new))) = []
    \<and> \<not> pw_waitingForSkipped (fst (deliver_all hasMain arr (pts_init g PtsWaiter_new)))
    \<and> pw_good (fst (deliver_all hasMain arr (pts_init g PtsWaiter_new))) = end_pts g us"
proof -
  note init = init_state [OF assms(1)]
  have prefix: "\<exists>m. pts_state us g (set (take n arr)) m
      (fst (deliver_all hasMain (take n arr) (pts_init g PtsWaiter_new)))
      (filter is_apply (snd (deliver_all hasMain (take n arr) (pts_init g PtsWaiter_new))))" for n
  proof -
    have "distinct (take n arr)" "set (take n arr) \<subseteq> set us" using assms set_take_subset [of n arr] by auto
    from deliver_all_state [OF assms(1) init this] show ?thesis by simp
  qed
  from prefix [of "length arr"] obtain m
    where st: "pts_state us g (set us) m (fst (deliver_all hasMain arr (pts_init g PtsWaiter_new)))
      (filter is_apply (snd (deliver_all hasMain arr (pts_init g PtsWaiter_new))))"
    using assms(3) by auto
  have dist: "distinct us" using assms(1) contiguous_distinct by (auto simp: pts_sequence_def)
  have "set us = set (take (length us) us)" by simp
  then have eq: "set us = set (take m us)" using st unfolding pts_state_def by (metis order_refl)
  have "length us \<le> m"
  proof (rule take_subset_le [OF dist order_refl])
    show "m \<le> length us" using st unfolding pts_state_def by blast
    show "set (take (length us) us) \<subseteq> set (take m us)" by (simp only: take_all order_refl eq [symmetric])
  qed
  then have all: "take m us = us" by simp
  have "pw_queue (fst (deliver_all hasMain arr (pts_init g PtsWaiter_new))) = []"
  proof -
    from st obtain key where
      "pending (set us - set (take m us)) key (fst (deliver_all hasMain arr (pts_init g PtsWaiter_new)))"
      unfolding pts_state_def by blast
    moreover have "set us - set (take m us) = {}" unfolding eq by blast
    ultimately show ?thesis using pending_empty by metis
  qed
  moreover have "\<exists>m. filter is_apply (snd (deliver_all hasMain (take n arr) (pts_init g PtsWaiter_new)))
      = map entry_call (take m us)" for n
    using prefix [of n] unfolding pts_state_def by blast
  moreover have "\<not> pw_waitingForSkipped (fst (deliver_all hasMain arr (pts_init g PtsWaiter_new)))"
    using st eq unfolding pts_state_def by blast
  moreover have "pw_good (fst (deliver_all hasMain arr (pts_init g PtsWaiter_new))) = end_pts g us"
    "filter is_apply (snd (deliver_all hasMain arr (pts_init g PtsWaiter_new))) = map entry_call us"
    using st unfolding pts_state_def all by blast+
  ultimately show ?thesis by blast
qed

definition sample_entries :: "(string, string) entry list" where
  "sample_entries = [Entry 12 2 (Inl ''a''), Entry 13 1 (Inr ''b''), Entry 16 3 (Inl ''c'')]"

theorem pts_any_order_applied_in_order_witness:
  "filter is_apply (snd (deliver_all True (rev sample_entries) (pts_init 10 PtsWaiter_new))) =
    [ApplyUpdateNoPtsCheck (Some ''a''), ApplyUpdatesNoPtsCheck (Some ''b''), ApplyUpdateNoPtsCheck (Some ''c'')]"
proof -
  have seq: "pts_sequence 10 sample_entries"
    by (simp add: pts_sequence_def sample_entries_def end_pts_def)
  have "distinct (rev sample_entries)" "set (rev sample_entries) = set sample_entries"
    by (auto simp: sample_entries_def)
  from pts_any_order_applied_in_order [OF seq this, THEN conjunct2, THEN conjunct1, of True]
  show ?thesis by (simp add: sample_entries_def entry_call_def)
qed

text \<open>
  An update that is already covered is dropped without any change, and while a difference
  is being requested every update goes to the api at once and moves no counter.
\<close>

theorem pts_covered_or_requesting:
  assumes "pw_applySkippedLevel w = 0"
  shows "(\<not> pw_requesting w \<and> entry_pts e \<le> pw_good w \<and> 0 < entry_count e \<longrightarrow>
      deliver hasMain e w = (False, w, []))
    \<and> deliver hasMain e (setRequesting True w) = (True, setRequesting True w, [entry_call e])"
  using assms
  by (cases "entry_payload e")
    (auto simp: deliver_def updateAndApply_update_def updateAndApply_updates_def pts_updated_update_def
      pts_updated_updates_def entry_call_def setRequesting_def clearSkippedUpdates_def Let_def)

theorem pts_covered_or_requesting_witness:
  "deliver True (Entry 9 1 (Inl ''a'')) (pts_init 10 PtsWaiter_new :: (string, string) PtsWaiter) =
    (False, pts_init 10 PtsWaiter_new, [])"
  using pts_covered_or_requesting [of "pts_init 10 PtsWaiter_new :: (string, string) PtsWaiter"
      "Entry 9 1 (Inl ''a'')" True, THEN conjunct1]
  by (simp add: pts_init_def PtsWaiter_new_def clearSkippedUpdates_def)

end
