(* ===== verification/StreamingSlice.thy ===== *)
theory StreamingSlice
  imports FlatMap "HOL-Library.Word" "HOL-Library.Monad_Syntax"
begin

text \<open>
  One slice of a streamed file (\<^verbatim>\<open>Media::Streaming::Reader::Slice\<close>,
  \<^verbatim>\<open>media/streaming/media_streaming_reader.cpp\<close>): the downloaded parts, how a read copies bytes
  out of them, which parts are asked for next, and how the slice is written to the cache and
  read back.

  A failed \<^verbatim>\<open>Expects\<close> or \<^verbatim>\<open>Assert\<close> is the result \<open>None\<close>. Offsets are mathematical integers: the
  program keeps them in \<^verbatim>\<open>int\<close>, and they stay below the size of the file plus a slice. The
  integers of a cache entry are the 32-bit little-endian ones of the x86 and ARM targets.
\<close>

section \<open>Constants\<close>

type_synonym byte_array = "8 word list"
type_synonym parts_map = "(int \<times> byte_array) list"

definition kPartSize :: int where "kPartSize = 128 * 1024"
definition kPartsInSlice :: int where "kPartsInSlice = 64"
definition kInSlice :: int where "kInSlice = kPartsInSlice * kPartSize"
definition kMaxPartsInHeader :: nat where "kMaxPartsInHeader = 64"
definition kMaxOnlyInHeader :: int where "kMaxOnlyInHeader = 80 * kPartSize"
definition kPartsOutsideFirstSliceGood :: nat where "kPartsOutsideFirstSliceGood = 8"
definition kSlicesInMemory :: nat where "kSlicesInMemory = 2"
definition kPreloadPartsAhead :: int where "kPreloadPartsAhead = 8"
definition kLoadFromRemoteMax :: nat where "kLoadFromRemoteMax = 8"

definition IsContiguousSerialization :: "int \<Rightarrow> int \<Rightarrow> bool" where
  "IsContiguousSerialization serializedSize maxSliceSize \<longleftrightarrow>
     serializedSize mod kPartSize = 0 \<or> serializedSize = maxSliceSize"

section \<open>Copying out of the parts\<close>

fun FindNotLoadedStart :: "parts_map \<Rightarrow> int \<Rightarrow> int" where
  "FindNotLoadedStart [] result = result"
| "FindNotLoadedStart ((partStart, bytes) # ps) result =
     (let partEnd = partStart + int (length bytes)
      in if partStart \<le> result \<and> result \<le> partEnd then FindNotLoadedStart ps partEnd else result)"

text \<open>
  The buffer is what \<^verbatim>\<open>bytes::copy\<close> overwrites from its front; it expects the room to be there.
\<close>

fun CopyLoaded :: "byte_array \<Rightarrow> parts_map \<Rightarrow> int \<Rightarrow> int \<Rightarrow> byte_array option" where
  "CopyLoaded buffer [] filled till = Some buffer"
| "CopyLoaded buffer ((partStart, bytes) # ps) filled till =
     (let partEnd = partStart + int (length bytes);
          copyTill = min partEnd till;
          start = filled - partStart;
          copy = copyTill - filled
      in if \<not> (partStart \<le> filled \<and> filled < copyTill) then None
         else if int (length buffer) < copy then None
         else map_option (append (take (nat copy) (drop (nat start) bytes)))
           (CopyLoaded (drop (nat copy) buffer) ps (filled + copy) till))"

section \<open>\<^verbatim>\<open>StackIntVector\<close>\<close>

text \<open>
  The storage is an array of the given size that starts as \<open>-1\<close> followed by zeros; the values
  are those before the first negative one.
\<close>

definition StackIntVector_new :: "nat \<Rightarrow> int list" where
  "StackIntVector_new n = (if n = 0 then [] else (-1) # replicate (n - 1) 0)"

definition StackIntVector_add :: "int \<Rightarrow> int list \<Rightarrow> bool \<times> int list" where
  "StackIntVector_add value storage =
     (let i = partition_point (\<lambda>v. \<not> v < 0) storage
      in if i = length storage then (False, storage)
         else
           let storage1 = storage[i := value];
               next_i = i + 1
           in (True, if next_i \<noteq> length storage1 then storage1[next_i := -1] else storage1))"

definition StackIntVector_values :: "int list \<Rightarrow> int list" where
  "StackIntVector_values storage = takeWhile (\<lambda>v. 0 \<le> v) storage"

section \<open>A slice and its parts\<close>

record Slice =
  s_parts :: parts_map
  s_loadingFromCache :: bool
  s_loadedFromCache :: bool
  s_changedSinceCache :: bool

definition Slice_new :: Slice where
  "Slice_new = \<lparr>s_parts = [], s_loadingFromCache = False, s_loadedFromCache = False,
     s_changedSinceCache = False\<rparr>"

abbreviation part_emplace :: "int \<Rightarrow> byte_array \<Rightarrow> parts_map \<Rightarrow> parts_map" where
  "part_emplace offset bytes parts \<equiv> fst (flat_map_try_emplace (<) offset bytes parts)"

definition addPart :: "int \<Rightarrow> byte_array \<Rightarrow> Slice \<Rightarrow> Slice option" where
  "addPart offset bytes s =
     (if flat_map_contains (<) offset (s_parts s) then None
      else
        let s1 = s\<lparr>s_parts := fst (flat_map_insert (<) (offset, bytes) (s_parts s))\<rparr>
        in Some (if s_loadedFromCache s1 then s1\<lparr>s_changedSinceCache := True\<rparr> else s1))"

text \<open>The loop of \<^verbatim>\<open>offsetsFromLoader\<close>; \<open>check\<close> is the rest of the parts from the iterator on.\<close>

function offsets_loop :: "int \<Rightarrow> parts_map \<Rightarrow> int \<Rightarrow> int list \<Rightarrow> int list" where
  "offsets_loop till check offset result =
     (if offset = till then result
      else
        let check' = dropWhile (\<lambda>p. fst p < offset) check
        in if check' \<noteq> [] \<and> fst (hd check') = offset
           then offsets_loop till check' (offset + kPartSize) result
           else
             let (added, result') = StackIntVector_add offset result
             in if \<not> added then result'
                else offsets_loop till check' (offset + kPartSize) result')"
  by auto

definition offsetsFromLoader :: "int \<Rightarrow> int \<Rightarrow> Slice \<Rightarrow> int list" where
  "offsetsFromLoader start till s =
     (let after = flat_map_getUpperBound (<) start (s_parts s);
          check = (if after = 0 then after else after - 1)
      in offsets_loop till (drop check (s_parts s)) start (StackIntVector_new kLoadFromRemoteMax))"

text \<open>The iterators of the result are positions in the parts.\<close>

record PrepareFillResult =
  pf_offsetsFromLoader :: "int list"
  pf_start :: nat
  pf_finish :: nat
  pf_ready :: bool

definition PrepareFillResult_new :: PrepareFillResult where
  "PrepareFillResult_new = \<lparr>pf_offsetsFromLoader = StackIntVector_new kLoadFromRemoteMax,
     pf_start = 0, pf_finish = 0, pf_ready = True\<rparr>"

definition parts_between :: "parts_map \<Rightarrow> nat \<Rightarrow> nat \<Rightarrow> parts_map" where
  "parts_between parts start finish = take (finish - start) (drop start parts)"

definition prepareFill :: "int \<Rightarrow> int \<Rightarrow> Slice \<Rightarrow> PrepareFillResult" where
  "prepareFill start_from till s =
     (let result = PrepareFillResult_new\<lparr>pf_ready := False\<rparr>;
          fromOffset = (start_from div kPartSize) * kPartSize;
          tillPart = (till + kPartSize - 1) div kPartSize;
          preloadTillOffset = (tillPart + kPreloadPartsAhead) * kPartSize;
          after = flat_map_getUpperBound (<) start_from (s_parts s)
      in if after = 0
         then result\<lparr>pf_offsetsFromLoader := offsetsFromLoader fromOffset preloadTillOffset s\<rparr>
         else
           let start = after - 1;
               finish = start + flat_map_getLowerBound (<) till (drop start (s_parts s));
               haveTill = FindNotLoadedStart (parts_between (s_parts s) start finish) fromOffset
           in if haveTill < till
              then result\<lparr>pf_offsetsFromLoader := offsetsFromLoader haveTill preloadTillOffset s\<rparr>
              else \<lparr>pf_offsetsFromLoader = offsetsFromLoader (tillPart * kPartSize) preloadTillOffset s,
                    pf_start = start, pf_finish = finish, pf_ready = True\<rparr>)"

section \<open>Reading a cache entry\<close>

function add_contiguous :: "byte_array \<Rightarrow> int \<Rightarrow> parts_map \<Rightarrow> parts_map" where
  "add_contiguous data offset parts =
     (if offset < int (length data)
      then add_contiguous data (offset + kPartSize)
        (part_emplace offset
          (take (nat (min kPartSize (int (length data) - offset))) (drop (nat offset) data)) parts)
      else parts)"
  by auto
termination
  by (relation "measure (\<lambda>(data, offset, parts). nat (int (length data) - offset))")
    (auto simp: kPartSize_def)

definition int32_of_bytes :: "byte_array \<Rightarrow> int" where
  "int32_of_bytes bs =
     signed_take_bit 31 (uint (bs ! 0) + 2 ^ 8 * uint (bs ! 1) + 2 ^ 16 * uint (bs ! 2) + 2 ^ 24 * uint (bs ! 3))"

definition bytes_of_int32 :: "int \<Rightarrow> byte_array" where
  "bytes_of_int32 v =
     [word_of_int v, word_of_int (v div 2 ^ 8), word_of_int (v div 2 ^ 16), word_of_int (v div 2 ^ 24)]"

definition takeInt :: "byte_array \<Rightarrow> int option \<times> byte_array" where
  "takeInt data =
     (if length data < 4 then (None, data) else (Some (int32_of_bytes (take 4 data)), drop 4 data))"

definition takeBytes :: "int \<Rightarrow> byte_array \<Rightarrow> byte_array \<times> byte_array" where
  "takeBytes count data =
     (if count \<le> 0 \<or> int (length data) < count then ([], data)
      else (take (nat count) data, drop (nat count) data))"

definition value_or :: "int option \<Rightarrow> int \<Rightarrow> int" where
  "value_or v dflt = (case v of None \<Rightarrow> dflt | Some x \<Rightarrow> x)"

text \<open>The loop of \<^verbatim>\<open>processComplexCacheData\<close>: the remaining data and the parts.\<close>

fun take_parts :: "nat \<Rightarrow> int \<Rightarrow> byte_array \<Rightarrow> parts_map \<Rightarrow> byte_array \<times> parts_map" where
  "take_parts 0 maxSize data parts = (data, parts)"
| "take_parts (Suc count) maxSize data parts =
     (let (takenOffset, data1) = takeInt data;
          offset = value_or takenOffset 0;
          (takenSize, data2) = takeInt data1;
          size = value_or takenSize 0;
          (bytes, data3) = takeBytes size data2
      in if offset < 0 \<or> maxSize \<le> offset \<or> size \<le> 0 \<or> maxSize < size
           \<or> maxSize < offset + size \<or> int (length bytes) \<noteq> size
         then ([], parts)
         else take_parts count maxSize data3 (part_emplace offset bytes parts))"

definition processComplexCacheData ::
    "byte_array \<Rightarrow> int \<Rightarrow> parts_map \<Rightarrow> byte_array \<times> parts_map" where
  "processComplexCacheData data maxSize parts =
     (case takeInt data of
        (None, data1) \<Rightarrow> ([], parts)
      | (Some count, data1) \<Rightarrow>
          if count < 0 then ([], parts)
          else if count = 0 then (data1, parts)
          else take_parts (nat count) maxSize data1 parts)"

text \<open>What the entry leaves for the next slice, and the slice.\<close>

definition processCacheData :: "byte_array \<Rightarrow> int \<Rightarrow> Slice \<Rightarrow> (byte_array \<times> Slice) option" where
  "processCacheData data maxSize s =
     (if \<not> s_loadingFromCache s \<or> s_loadedFromCache s then None
      else
        let size = int (length data);
            (remaining, parts) =
              (if IsContiguousSerialization size maxSize
               then if maxSize < size then ([], s_parts s)
                    else ([], add_contiguous data 0 (s_parts s))
               else processComplexCacheData data maxSize (s_parts s))
        in Some (remaining,
             s\<lparr>s_parts := parts, s_loadingFromCache := False, s_loadedFromCache := True\<rparr>))"

section \<open>Writing a cache entry\<close>

definition serializeComplexSlice :: "Slice \<Rightarrow> byte_array" where
  "serializeComplexSlice s =
     bytes_of_int32 (int (length (s_parts s)))
     @ concat (map (\<lambda>(offset, part). bytes_of_int32 offset @ bytes_of_int32 (int (length part)) @ part)
         (s_parts s))"

text \<open>The loop that keeps a complex entry from being taken for a contiguous one.\<close>

function pad_serialization :: "int \<Rightarrow> byte_array \<Rightarrow> byte_array" where
  "pad_serialization maxSize data =
     (if IsContiguousSerialization (int (length data)) maxSize
      then pad_serialization maxSize (data @ [0]) else data)"
  by auto
termination
proof (relation "measures [\<lambda>(maxSize, data). if int (length data) \<le> maxSize then 1 else 0,
    \<lambda>(maxSize, data). if int (length data) mod kPartSize = 0 then 1 else 0]")
  fix maxSize :: int and data :: byte_array
  assume c: "IsContiguousSerialization (int (length data)) maxSize"
  let ?n = "int (length data)"
  have step: "(1 + ?n) mod kPartSize \<noteq> 0" if "?n mod kPartSize = 0"
  proof -
    have "(1 + ?n) mod kPartSize = 1 mod kPartSize" using that by (metis add.right_neutral mod_add_right_eq)
    then show ?thesis by (simp add: kPartSize_def)
  qed
  show "((maxSize, data @ [0]), maxSize, data) \<in>
    measures [\<lambda>(maxSize, data). if int (length data) \<le> maxSize then 1 else 0,
      \<lambda>(maxSize, data). if int (length data) mod kPartSize = 0 then 1 else 0]"
  proof (cases "?n mod kPartSize = 0")
    case True
    with step show ?thesis by simp
  next
    case False
    with c have "?n = maxSize" by (simp add: IsContiguousSerialization_def)
    then show ?thesis by simp
  qed
qed simp

declare add_contiguous.simps [simp del] pad_serialization.simps [simp del]

section \<open>The loops end\<close>

lemma kPartSize_pos [simp]: "0 < kPartSize" "0 \<le> kPartSize" "kPartSize \<noteq> 0"
  by (simp_all add: kPartSize_def)

lemma add_values:
  assumes "0 \<le> v"
  shows "length (snd (StackIntVector_add v st)) = length st"
    and "fst (StackIntVector_add v st) \<longleftrightarrow> length (StackIntVector_values st) < length st"
    and "StackIntVector_values (snd (StackIntVector_add v st)) =
      (if length (StackIntVector_values st) < length st then StackIntVector_values st @ [v]
       else StackIntVector_values st)"
proof -
  let ?i = "partition_point (\<lambda>v. \<not> v < 0) st"
  have i: "?i = length (StackIntVector_values st)" 
    by (simp add: partition_point_def StackIntVector_values_def not_less)
  have le: "?i \<le> length st" by simp
  show "length (snd (StackIntVector_add v st)) = length st"
    by (simp add: StackIntVector_add_def Let_def)
  show "fst (StackIntVector_add v st) \<longleftrightarrow> length (StackIntVector_values st) < length st"
  proof -
    have "?i < length st \<longleftrightarrow> ?i \<noteq> length st" using le by linarith
    then show ?thesis unfolding i [symmetric] by (simp add: StackIntVector_add_def Let_def)
  qed
  have pre: "StackIntVector_values st = take ?i st"
    by (simp add: StackIntVector_values_def take_partition_point not_less)
  show "StackIntVector_values (snd (StackIntVector_add v st)) =
      (if length (StackIntVector_values st) < length st then StackIntVector_values st @ [v]
       else StackIntVector_values st)"
  proof (cases "?i < length st")
    case True
    let ?ys = "drop (Suc ?i) st"
    have "\<forall>x \<in> set (take ?i st). 0 \<le> x"
    proof
      fix x assume "x \<in> set (take ?i st)"
      then have "\<not> x < 0" by (rule partition_point_take)
      then show "0 \<le> x" by simp
    qed
    then have tw: "takeWhile (\<lambda>v. 0 \<le> v) (take ?i st @ zs) = take ?i st @ takeWhile (\<lambda>v. 0 \<le> v) zs" for zs
      by simp
    have upd: "st[?i := v] = take ?i st @ v # ?ys" using True by (rule upd_conv_take_nth_drop)
    have len: "length (take ?i st) = ?i" using True by simp
    have "snd (StackIntVector_add v st) = take ?i st @ v # (case ?ys of [] \<Rightarrow> [] | _ # zs \<Rightarrow> -1 # zs)"
    proof (cases ?ys)
      case Nil
      then have "Suc ?i = length st" using True by simp
      then show ?thesis using True Nil upd by (simp add: StackIntVector_add_def)
    next
      case (Cons z zs)
      then have "Suc ?i < length st" using True by (metis drop_all list.discI not_less)
      moreover have "(take ?i st @ v # z # zs)[Suc ?i := -1] = take ?i st @ v # -1 # zs"
        using list_update_append [of "take ?i st" "v # z # zs" "Suc ?i" "-1"] len by simp
      ultimately show ?thesis using True Cons upd by (simp add: StackIntVector_add_def Let_def)
    qed
    then have "StackIntVector_values (snd (StackIntVector_add v st)) = take ?i st @ [v]"
      using assms unfolding StackIntVector_values_def by (simp add: tw split: list.splits)
    moreover have "length (StackIntVector_values st) < length st" using True i by simp
    ultimately show ?thesis by (simp only: if_True pre)
  next
    case False
    then show ?thesis using le unfolding i [symmetric] by (simp add: StackIntVector_add_def)
  qed
qed

lemma values_new: "StackIntVector_values (StackIntVector_new n) = []" "length (StackIntVector_new n) = n"
  by (simp_all add: StackIntVector_values_def StackIntVector_new_def)

text \<open>
  A part that is there is passed by the iterator, a part that is not there takes a place of
  the eight, and only offsets below zero take none.
\<close>

termination offsets_loop
proof (relation "measures [\<lambda>(till, check, offset, result). nat (- offset),
    \<lambda>(till, check, offset, result). length (dropWhile (\<lambda>p. fst p < offset) check),
    \<lambda>(till, check, offset, result). length result - length (StackIntVector_values result)]", goal_cases)
  case (2 till check offset result check')
  show ?case
  proof (cases "offset < 0")
    case False
    obtain p ps where p: "check' = p # ps" "fst p = offset"
      using 2(3) by (cases check') simp_all
    then have "length (dropWhile (\<lambda>p. fst p < offset + kPartSize) check') < length check'"
      using length_dropWhile_le [of "\<lambda>p. fst p < offset + kPartSize" ps] by simp
    moreover have "nat (- (offset + kPartSize)) = 0" "nat (- offset) = 0"
      using False kPartSize_pos(1) by linarith+
    ultimately show ?thesis unfolding 2(2) by simp
  qed (simp add: kPartSize_def)
next
  case (3 till check offset result check' x added result')
  show ?case
  proof (cases "offset < 0")
    case False
    have "length (dropWhile (\<lambda>p. fst p < offset + kPartSize) check') \<le> length check'"
      by (rule length_dropWhile_le)
    moreover have r: "StackIntVector_add offset result = (True, result')" using 3(4,5,6) by simp
    have "length (StackIntVector_values result') = Suc (length (StackIntVector_values result))"
      and "length result' = length result" and "length (StackIntVector_values result) < length result"
      using add_values [of offset result] False unfolding r by simp_all
    moreover have "nat (- (offset + kPartSize)) = 0" "nat (- offset) = 0"
      using False kPartSize_pos(1) by linarith+
    ultimately show ?thesis unfolding 3(2) by auto
  qed (simp add: kPartSize_def)
qed simp

declare offsets_loop.simps [simp del]

section \<open>Segments of a file\<close>

definition segment :: "byte_array \<Rightarrow> int \<Rightarrow> int \<Rightarrow> byte_array" where
  "segment c a b = take (nat (b - a)) (drop (nat a) c)"

lemma segment_length: "0 \<le> a \<Longrightarrow> int (length (segment c a b)) = max 0 (min (b - a) (int (length c) - a))"
  by (auto simp: segment_def)

lemma segment_empty [simp]: "b \<le> a \<Longrightarrow> segment c a b = []"
  by (simp add: segment_def)

lemma segment_append:
  assumes "0 \<le> a" and "a \<le> b" and "b \<le> d"
  shows "segment c a b @ segment c b d = segment c a d"
proof -
  have "nat (d - a) = nat (b - a) + nat (d - b)" and "nat b = nat (b - a) + nat a" using assms by simp_all
  then show ?thesis by (simp add: segment_def take_add)
qed

lemma segment_segment:
  assumes "0 \<le> a" and "a \<le> e" and "e \<le> d" and "d \<le> b"
  shows "take (nat (d - e)) (drop (nat (e - a)) (segment c a b)) = segment c e d"
proof -
  have "nat (e - a) + nat a = nat e" and "min (nat (d - e)) (nat (b - a) - nat (e - a)) = nat (d - e)"
    using assms by simp_all
  then show ?thesis by (simp only: segment_def drop_take drop_drop take_take)
qed

lemma segment_all: "segment c 0 (int (length c)) = c"
  by (simp add: segment_def)

text \<open>
  A part of the contents \<open>c\<close> of a slice: it starts at a multiple of the part size and holds
  the bytes of \<open>c\<close> from there, as many as a part has or as are left.
\<close>

definition part_ok :: "byte_array \<Rightarrow> int \<times> byte_array \<Rightarrow> bool" where
  "part_ok c p \<longleftrightarrow> 0 \<le> fst p \<and> fst p mod kPartSize = 0 \<and> fst p < int (length c)
     \<and> snd p = segment c (fst p) (fst p + kPartSize)"

definition parts_ok :: "byte_array \<Rightarrow> parts_map \<Rightarrow> bool" where
  "parts_ok c ps \<longleftrightarrow> sorted_wrt (<) (keys ps) \<and> (\<forall>p \<in> set ps. part_ok c p)"

lemma part_end:
  assumes "part_ok c (a, b)"
  shows "a + int (length b) = min (a + kPartSize) (int (length c))"
  using assms segment_length [of a c "a + kPartSize"] by (auto simp: part_ok_def)

lemma multiple_apart:
  assumes "a mod kPartSize = 0" and "b mod kPartSize = 0" and "a < b"
  shows "a + kPartSize \<le> b"
proof -
  obtain i j where "a = kPartSize * i" "b = kPartSize * j"
    using assms(1,2) by (metis mod_0_imp_dvd dvdE)
  with assms(3) have "i + 1 \<le> j" by (simp add: mult_less_cancel_left)
  then have "kPartSize * (i + 1) \<le> kPartSize * j" by (rule mult_left_mono) simp
  with \<open>a = _\<close> \<open>b = _\<close> show ?thesis by (simp add: algebra_simps)
qed

lemma multiple_step: "a mod kPartSize = 0 \<Longrightarrow> (a + kPartSize) mod kPartSize = 0"
  by simp

lemma parts_ok_Cons:
  assumes "parts_ok c ((a, b) # ps)"
  shows "part_ok c (a, b)" and "parts_ok c ps" and "\<forall>p \<in> set ps. a + kPartSize \<le> fst p"
proof -
  show ab: "part_ok c (a, b)" and ps: "parts_ok c ps" using assms by (simp_all add: parts_ok_def)
  show "\<forall>p \<in> set ps. a + kPartSize \<le> fst p"
  proof
    fix p assume p: "p \<in> set ps"
    then have "a < fst p" using assms by (simp add: parts_ok_def)
    moreover have "fst p mod kPartSize = 0" using p ps by (simp add: parts_ok_def part_ok_def)
    moreover have "a mod kPartSize = 0" using ab by (simp add: part_ok_def)
    ultimately show "a + kPartSize \<le> fst p" by (intro multiple_apart)
  qed
qed

text \<open>How far the parts reach without a hole.\<close>

lemma FindNotLoadedStart_spec:
  assumes "parts_ok c ps" and "0 \<le> r" and "r mod kPartSize = 0" and "r \<le> int (length c)"
    and "\<forall>p \<in> set ps. r \<le> fst p"
  shows "r \<le> FindNotLoadedStart ps r \<and> FindNotLoadedStart ps r \<le> int (length c)
    \<and> (\<forall>a. r \<le> a \<and> a < FindNotLoadedStart ps r \<and> a mod kPartSize = 0 \<longrightarrow> a \<in> set (keys ps))
    \<and> (FindNotLoadedStart ps r < int (length c) \<longrightarrow>
        FindNotLoadedStart ps r mod kPartSize = 0 \<and> FindNotLoadedStart ps r \<notin> set (keys ps))"
  using assms
proof (induction ps arbitrary: r)
  case (Cons p ps)
  obtain a b where p: "p = (a, b)" by (cases p)
  note c = parts_ok_Cons [OF Cons.prems(1) [unfolded p]]
  have ra: "r \<le> a" using Cons.prems(5) by (simp add: p)
  have a: "a mod kPartSize = 0" "a < int (length c)" using c(1) by (simp_all add: part_ok_def)
  show ?case
  proof (cases "a = r")
    case False
    have "r < fst q" if "q \<in> set ps" for q
    proof -
      have "a + kPartSize \<le> fst q" using c(3) that by blast
      then show ?thesis using ra kPartSize_pos(1) by linarith
    qed
    then have "r \<notin> set (keys (p # ps))" using False by (force simp: p)
    moreover have "FindNotLoadedStart (p # ps) r = r" using False ra by (simp add: p)
    ultimately show ?thesis using Cons.prems by auto
  next
    case True
    let ?e = "a + int (length b)"
    have e: "?e = min (a + kPartSize) (int (length c))" by (rule part_end [OF c(1)])
    have f: "FindNotLoadedStart (p # ps) r = FindNotLoadedStart ps ?e" using True by (simp add: p)
    show ?thesis
    proof (cases "a + kPartSize \<le> int (length c)")
      case full: True
      then have e': "?e = a + kPartSize" using e by simp
      have IH: "?e \<le> FindNotLoadedStart ps ?e \<and> FindNotLoadedStart ps ?e \<le> int (length c)
        \<and> (\<forall>a. ?e \<le> a \<and> a < FindNotLoadedStart ps ?e \<and> a mod kPartSize = 0 \<longrightarrow> a \<in> set (keys ps))
        \<and> (FindNotLoadedStart ps ?e < int (length c) \<longrightarrow>
            FindNotLoadedStart ps ?e mod kPartSize = 0 \<and> FindNotLoadedStart ps ?e \<notin> set (keys ps))"
        using Cons.IH [OF c(2), of ?e] c(3) Cons.prems(2) True full a multiple_step [OF a(1)]
        unfolding e' by simp
      have "x \<in> set (keys (p # ps))"
        if "r \<le> x" "x < FindNotLoadedStart ps ?e" "x mod kPartSize = 0" for x
      proof (cases "x = a")
        case False
        then have "?e \<le> x" using that(1,3) True a multiple_apart [of a x] e' by simp
        then show ?thesis using IH that by simp
      qed (simp add: p)
      moreover have "FindNotLoadedStart ps ?e \<noteq> a" using IH e' kPartSize_pos(1) by linarith
      ultimately show ?thesis using IH True e' kPartSize_pos(1) unfolding f
        by (auto simp: p)
    next
      case cut: False
      then have e': "?e = int (length c)" using e by simp
      have "ps = []"
      proof (rule ccontr)
        assume "ps \<noteq> []"
        then have "part_ok c (hd ps)" "a + kPartSize \<le> fst (hd ps)"
          using c(2,3) by (simp_all add: parts_ok_def)
        with cut show False by (simp add: part_ok_def)
      qed
      moreover have "x = a" if "r \<le> x" "x < ?e" "x mod kPartSize = 0" for x
        using that True a multiple_apart [of a x] cut unfolding e' by linarith
      ultimately show ?thesis using Cons.prems(4) e' True unfolding f by (auto simp: p)
    qed
  qed
qed simp

lemma parts_ok_rest_empty:
  assumes "\<forall>p \<in> set ps. a + kPartSize \<le> fst p" and "\<forall>p \<in> set ps. fst p < till"
    and "till \<le> a + kPartSize"
  shows "ps = []"
proof (rule ccontr)
  assume "ps \<noteq> []"
  then have "a + kPartSize \<le> fst (hd ps)" "fst (hd ps) < till" using assms(1,2) by simp_all
  with assms(3) show False by simp
qed

text \<open>The parts that reach \<open>till\<close> without a hole hold the bytes up to it.\<close>

lemma CopyLoaded_chain:
  assumes "parts_ok c ps" and "0 \<le> r" and "r mod kPartSize = 0"
    and "\<forall>p \<in> set ps. r \<le> fst p \<and> fst p < till" and "till \<le> FindNotLoadedStart ps r"
    and "r \<le> filled" and "filled < till" and "filled < r + kPartSize" and "till \<le> int (length c)"
    and "till - filled \<le> int (length buffer)"
  shows "CopyLoaded buffer ps filled till = Some (segment c filled till @ drop (nat (till - filled)) buffer)"
  using assms
proof (induction ps arbitrary: r filled buffer)
  case (Cons p ps)
  obtain a b where p: "p = (a, b)" by (cases p)
  note c = parts_ok_Cons [OF Cons.prems(1) [unfolded p]]
  let ?e = "a + int (length b)"
  have ra: "a = r"
    using Cons.prems(4,5,6,7) by (auto simp: p Let_def split: if_splits)
  have e: "?e = min (a + kPartSize) (int (length c))" by (rule part_end [OF c(1)])
  have fe: "filled < ?e" using Cons.prems(7-9) e ra by simp
  have b: "b = segment c a (a + kPartSize)" using c(1) by (simp add: part_ok_def)
  have chunk: "take (nat (min ?e till - filled)) (drop (nat (filled - a)) b) = segment c filled (min ?e till)"
  proof -
    have "take (nat (min ?e till - filled)) (drop (nat (filled - a)) (segment c a (a + kPartSize)))
      = segment c filled (min ?e till)"
      by (rule segment_segment) (use Cons.prems(2,6,7) ra fe e in auto)
    then show ?thesis unfolding b [symmetric] .
  qed
  have step: "CopyLoaded buffer (p # ps) filled till =
    map_option (append (segment c filled (min ?e till)))
      (CopyLoaded (drop (nat (min ?e till - filled)) buffer) ps (min ?e till) till)"
  proof -
    have "\<not> int (length buffer) < min ?e till - filled" using Cons.prems(10) by linarith
    then show ?thesis using Cons.prems(6,7) ra fe chunk by (simp add: p Let_def)
  qed
  show ?case
  proof (cases "till \<le> ?e")
    case True
    have "ps = []"
      by (rule parts_ok_rest_empty [OF c(3), of till]) (use Cons.prems(4) True e in auto)
    then show ?thesis using True unfolding step by simp
  next
    case False
    then have e': "?e = a + kPartSize" using Cons.prems(9) e by simp
    have "CopyLoaded (drop (nat (?e - filled)) buffer) ps ?e till =
      Some (segment c ?e till @ drop (nat (till - ?e)) (drop (nat (?e - filled)) buffer))"
    proof (rule Cons.IH [OF c(2), of ?e])
      show "0 \<le> ?e" using Cons.prems(2) ra by simp
      show "?e mod kPartSize = 0" using Cons.prems(3) ra e' by simp
      show "\<forall>p \<in> set ps. ?e \<le> fst p \<and> fst p < till" using c(3) Cons.prems(4) e' by simp
      show "till \<le> FindNotLoadedStart ps ?e" using Cons.prems(5) ra by (simp add: p)
      show "?e < ?e + kPartSize" by simp
      show "till - ?e \<le> int (length (drop (nat (?e - filled)) buffer))" using Cons.prems(10) fe by simp
    qed (use False Cons.prems(9) in simp_all)
    moreover have "nat (till - ?e) + nat (?e - filled) = nat (till - filled)" using False fe by simp
    moreover have "segment c filled ?e @ segment c ?e till = segment c filled till"
      by (rule segment_append) (use Cons.prems(2,6) False fe in auto)
    ultimately show ?thesis using False unfolding step by (simp add: add.commute)
  qed
qed simp

text \<open>The two iterators of \<^verbatim>\<open>prepareFill\<close>.\<close>

lemma parts_around:
  assumes "parts_ok c ps" and "flat_map_getUpperBound (<) a ps = Suc n"
  obtains p rest where "drop n ps = p # rest" and "fst p \<le> a" and "\<forall>q \<in> set rest. a < fst q"
    and "parts_ok c (p # rest)" and "\<forall>q \<in> set (take n ps). fst q < fst p"
proof -
  have sorted: "sorted_wrt (<) (keys ps)" using assms(1) by (simp add: parts_ok_def)
  have ub: "upper_bound (<) (keys ps) a = Suc n" using assms(2) by (simp add: map_upper_bound)
  then have n: "n < length ps" using upper_bound_le [of "(<)" "keys ps" a] by simp
  then have d: "drop n ps = ps ! n # drop (Suc n) ps" by (rule Cons_nth_drop_Suc [symmetric])
  have "keys ps ! n \<in> set (take (upper_bound (<) (keys ps) a) (keys ps))"
    using n unfolding ub by (simp add: take_Suc_conv_app_nth)
  then have "\<not> a < keys ps ! n" by (rule lin.upper_bound_prefix)
  then have "fst (ps ! n) \<le> a" using n by simp
  moreover have "\<forall>q \<in> set (drop (Suc n) ps). a < fst q"
  proof
    fix q assume "q \<in> set (drop (Suc n) ps)"
    then have "fst q \<in> set (drop (upper_bound (<) (keys ps) a) (keys ps))" unfolding ub by (auto simp: drop_map)
    then show "a < fst q" by (rule lin.upper_bound_suffix [OF lin.sorted_weaken [OF sorted]])
  qed
  moreover have ps: "ps = take n ps @ ps ! n # drop (Suc n) ps" using n by (rule id_take_nth_drop)
  then have sp: "sorted_wrt (<) (keys (take n ps @ ps ! n # drop (Suc n) ps))" using sorted by simp
  then have "sorted_wrt (<) (keys (ps ! n # drop (Suc n) ps))" by (simp add: sorted_wrt_append)
  then have "parts_ok c (ps ! n # drop (Suc n) ps)"
    using assms(1) n by (auto simp: parts_ok_def dest: in_set_dropD)
  moreover have "\<forall>q \<in> set (take n ps). fst q < fst (ps ! n)" using sp by (simp add: sorted_wrt_append)
  ultimately show ?thesis using that [OF d] by blast
qed

text \<open>A range is ready exactly when all its parts are there; then copying gives its bytes.\<close>

definition floor_part :: "int \<Rightarrow> int" where
  "floor_part a = (a div kPartSize) * kPartSize"

lemma floor_part:
  shows "floor_part a mod kPartSize = 0" and "floor_part a \<le> a" and "a < floor_part a + kPartSize"
    and "0 \<le> a \<Longrightarrow> 0 \<le> floor_part a"
    and "b mod kPartSize = 0 \<Longrightarrow> b \<le> a \<Longrightarrow> b \<le> floor_part a"
proof -
  have a: "a = floor_part a + a mod kPartSize" by (simp add: floor_part_def)
  have m: "0 \<le> a mod kPartSize" "a mod kPartSize < kPartSize" by simp_all
  show f: "floor_part a mod kPartSize = 0" by (simp add: floor_part_def)
  show "floor_part a \<le> a" and u: "a < floor_part a + kPartSize" using a m by linarith+
  show "0 \<le> a \<Longrightarrow> 0 \<le> floor_part a" by (simp add: floor_part_def pos_imp_zdiv_nonneg_iff)
  show "b mod kPartSize = 0 \<Longrightarrow> b \<le> a \<Longrightarrow> b \<le> floor_part a"
    using multiple_apart [OF f, of b] u by linarith
qed

definition have_till :: "int \<Rightarrow> int \<Rightarrow> parts_map \<Rightarrow> int" where
  "have_till a till ps =
     (if flat_map_getUpperBound (<) a ps = 0 then floor_part a
      else
        let start = flat_map_getUpperBound (<) a ps - 1
        in FindNotLoadedStart
          (parts_between ps start (start + flat_map_getLowerBound (<) till (drop start ps))) (floor_part a))"

lemma prepareFill_ready:
  assumes "a < till"
  shows "pf_ready (prepareFill a till s) \<longleftrightarrow> till \<le> have_till a till (s_parts s)"
    and "pf_offsetsFromLoader (prepareFill a till s) =
      offsetsFromLoader (if till \<le> have_till a till (s_parts s) then floor_part (till + kPartSize - 1)
        else have_till a till (s_parts s)) (floor_part (till + kPartSize - 1) + kPreloadPartsAhead * kPartSize) s"
proof -
  have "floor_part a < till" using assms floor_part(2) [of a] by simp
  then show "pf_ready (prepareFill a till s) \<longleftrightarrow> till \<le> have_till a till (s_parts s)"
    and "pf_offsetsFromLoader (prepareFill a till s) =
      offsetsFromLoader (if till \<le> have_till a till (s_parts s) then floor_part (till + kPartSize - 1)
        else have_till a till (s_parts s)) (floor_part (till + kPartSize - 1) + kPreloadPartsAhead * kPartSize) s"
    unfolding prepareFill_def have_till_def Let_def
    by (simp_all add: PrepareFillResult_new_def floor_part_def [symmetric] distrib_right not_le)
qed

lemma FindNotLoadedStart_stuck:
  assumes "\<forall>p \<in> set ps. r < fst p"
  shows "FindNotLoadedStart ps r = r"
  using assms by (cases ps) (auto simp: Let_def)

lemma sub_parts:
  assumes "parts_ok c (p # rest)" and "fst p < till"
  defines "n \<equiv> flat_map_getLowerBound (<) till (p # rest)"
  shows "take n (p # rest) = p # take (n - 1) rest" and "parts_ok c (take n (p # rest))"
    and "\<forall>q \<in> set (take n (p # rest)). fst q < till" and "\<forall>q \<in> set (drop n (p # rest)). till \<le> fst q"
proof -
  have sorted: "sorted_wrt (<) (keys (p # rest))" using assms(1) by (simp add: parts_ok_def)
  have n: "n = lower_bound (<) (keys (p # rest)) till" by (simp add: n_def map_lower_bound)
  then have "0 < n" using assms(2) by (simp add: lower_bound_def partition_point_def)
  then show "take n (p # rest) = p # take (n - 1) rest" by (cases n) simp_all
  have "sorted_wrt (<) (keys (take n (p # rest)))" using sorted by (metis sorted_wrt_take take_map)
  moreover have "\<forall>q \<in> set (take n (p # rest)). part_ok c q"
    using assms(1) by (meson in_set_takeD parts_ok_def)
  ultimately show "parts_ok c (take n (p # rest))" by (simp only: parts_ok_def)
  show "\<forall>q \<in> set (take n (p # rest)). fst q < till"
  proof
    fix q assume "q \<in> set (take n (p # rest))"
    then have "fst q \<in> set (take (lower_bound (<) (keys (p # rest)) till) (keys (p # rest)))"
      unfolding n [symmetric] by (metis imageI list.set_map take_map)
    then show "fst q < till" by (rule lin.lower_bound_prefix)
  qed
  show "\<forall>q \<in> set (drop n (p # rest)). till \<le> fst q"
  proof
    fix q assume "q \<in> set (drop n (p # rest))"
    then have "fst q \<in> set (drop (lower_bound (<) (keys (p # rest)) till) (keys (p # rest)))"
      unfolding n [symmetric] by (metis imageI list.set_map drop_map)
    then have "\<not> fst q < till" by (rule lin.lower_bound_suffix [OF lin.sorted_weaken [OF sorted]])
    then show "till \<le> fst q" by simp
  qed
qed

lemma no_parts_before:
  assumes "parts_ok c ps" and "flat_map_getUpperBound (<) a ps = 0"
  shows "\<forall>q \<in> set ps. a < fst q"
proof
  fix q assume "q \<in> set ps"
  then have "fst q \<in> set (drop (upper_bound (<) (keys ps) a) (keys ps))"
    using assms(2) by (simp add: map_upper_bound)
  moreover have "sorted_wrt (<) (keys ps)" using assms(1) by (simp add: parts_ok_def)
  ultimately show "a < fst q" using lin.upper_bound_suffix [OF lin.sorted_weaken] by blast
qed

definition reach_spec :: "byte_array \<Rightarrow> parts_map \<Rightarrow> int \<Rightarrow> int \<Rightarrow> int \<Rightarrow> bool" where
  "reach_spec c ps till r e \<longleftrightarrow> r \<le> e \<and> e \<le> int (length c)
    \<and> (\<forall>b. r \<le> b \<and> b < e \<and> b mod kPartSize = 0 \<longrightarrow> b \<in> set (keys ps))
    \<and> (e < till \<longrightarrow> e mod kPartSize = 0 \<and> e \<notin> set (keys ps))"

lemma have_till_cases:
  assumes "parts_ok c ps" and "0 \<le> a" and "a < till" and "till \<le> int (length c)"
  shows "reach_spec c ps till (floor_part a) (have_till a till ps)"
    and "till \<le> have_till a till ps \<Longrightarrow> till - a \<le> int (length buffer) \<Longrightarrow>
      (let start = flat_map_getUpperBound (<) a ps - 1
       in CopyLoaded buffer
          (parts_between ps start (start + flat_map_getLowerBound (<) till (drop start ps))) a till) =
      Some (segment c a till @ drop (nat (till - a)) buffer)"
proof -
  let ?r = "floor_part a" and ?H = "have_till a till ps"
  note r = floor_part(1,2,3) [of a] floor_part(4) [OF assms(2)]
  have stuck: "reach_spec c ps till ?r ?H" and "\<not> till \<le> ?H" if "?H = ?r" "?r \<notin> set (keys ps)"
    using that r assms(3,4) by (auto simp: reach_spec_def)
  have "reach_spec c ps till ?r ?H \<and> (till \<le> ?H \<longrightarrow> till - a \<le> int (length buffer) \<longrightarrow>
      (let start = flat_map_getUpperBound (<) a ps - 1
       in CopyLoaded buffer
          (parts_between ps start (start + flat_map_getLowerBound (<) till (drop start ps))) a till) =
      Some (segment c a till @ drop (nat (till - a)) buffer))"
  proof (cases "flat_map_getUpperBound (<) a ps")
    case 0
    have "?H = ?r" by (simp add: have_till_def 0)
    moreover have "?r \<notin> set (keys ps)" using no_parts_before [OF assms(1) 0] r(2) by fastforce
    ultimately show ?thesis using stuck \<open>?H = ?r \<Longrightarrow> ?r \<notin> set (keys ps) \<Longrightarrow> \<not> till \<le> ?H\<close> by blast
  next
    case (Suc n)
    obtain p rest where d: "drop n ps = p # rest" and p: "fst p \<le> a" and rest: "\<forall>q \<in> set rest. a < fst q"
      and ok: "parts_ok c (p # rest)" and before: "\<forall>q \<in> set (take n ps). fst q < fst p"
      by (rule parts_around [OF assms(1) Suc])
    define m where "m = flat_map_getLowerBound (<) till (p # rest)"
    have "fst p < till" using p assms(3) by simp
    note sub = sub_parts [OF ok this, folded m_def]
    have H: "?H = FindNotLoadedStart (take m (p # rest)) ?r"
      by (simp add: have_till_def Suc d parts_between_def m_def)
    have keys: "set (keys ps) = set (keys (take n ps)) \<union> set (keys (take m (p # rest))) \<union> set (keys (drop m (p # rest)))"
      using d by (metis append_take_drop_id map_append set_append Un_assoc)
    have pm: "fst p mod kPartSize = 0" using ok by (simp add: parts_ok_def part_ok_def)
    show ?thesis
    proof (cases "?r \<le> fst p")
      case True
      then have pr: "fst p = ?r" using floor_part(5) [OF pm p] by simp
      have ge: "\<forall>q \<in> set (take m (p # rest)). ?r \<le> fst q"
        using rest r(2) pr unfolding sub(1) by (force dest: in_set_takeD)
      have "?r \<le> int (length c)" using r assms(3,4) by simp
      from FindNotLoadedStart_spec [OF sub(2) r(4) r(1) this ge]
      have spec: "?r \<le> ?H \<and> ?H \<le> int (length c)
        \<and> (\<forall>b. ?r \<le> b \<and> b < ?H \<and> b mod kPartSize = 0 \<longrightarrow> b \<in> set (keys (take m (p # rest))))
        \<and> (?H < int (length c) \<longrightarrow> ?H mod kPartSize = 0 \<and> ?H \<notin> set (keys (take m (p # rest))))"
        unfolding H .
      have "?H \<notin> set (keys ps)" if "?H < till"
      proof -
        have "?H \<notin> set (keys (take n ps))" using before spec pr by auto
        moreover have "?H \<notin> set (keys (drop m (p # rest)))" using sub(4) that by auto
        ultimately show ?thesis using spec that assms(4) unfolding keys by simp
      qed
      then have "reach_spec c ps till ?r ?H"
        using spec assms(4) unfolding reach_spec_def keys by simp
      moreover have "CopyLoaded buffer (take m (p # rest)) a till =
        Some (segment c a till @ drop (nat (till - a)) buffer)"
        if "till \<le> ?H" "till - a \<le> int (length buffer)"
        by (rule CopyLoaded_chain [OF sub(2) r(4) r(1) _ _ r(2) assms(3) r(3) assms(4) that(2)])
          (use ge sub(3) that(1) H in auto)
      ultimately show ?thesis by (simp add: Suc d parts_between_def m_def)
    next
      case False
      have "FindNotLoadedStart (take (m - 1) rest) ?r = ?r"
        by (rule FindNotLoadedStart_stuck) (use rest r(2) in \<open>force dest: in_set_takeD\<close>)
      moreover have "fst p + int (length (snd p)) \<le> ?r"
        using False part_end [of c "fst p" "snd p"] ok multiple_apart [OF pm r(1)]
        by (simp add: parts_ok_def)
      ultimately have "?H = ?r" unfolding H sub(1) by (cases p) (auto simp: Let_def)
      moreover have "?r \<notin> set (keys ps)"
      proof -
        have "\<forall>q \<in> set ps. fst q \<noteq> ?r"
        proof
          fix q assume "q \<in> set ps"
          then have "q \<in> set (take n ps) \<or> q = p \<or> q \<in> set rest"
            using d by (metis Un_iff append_take_drop_id set_ConsD set_append)
          then show "fst q \<noteq> ?r" using before False rest r(2) by force
        qed
        then show ?thesis by auto
      qed
      ultimately show ?thesis using stuck \<open>?H = ?r \<Longrightarrow> ?r \<notin> set (keys ps) \<Longrightarrow> \<not> till \<le> ?H\<close> by blast
    qed
  qed
  then show "reach_spec c ps till ?r ?H"
    and "till \<le> ?H \<Longrightarrow> till - a \<le> int (length buffer) \<Longrightarrow>
      (let start = flat_map_getUpperBound (<) a ps - 1
       in CopyLoaded buffer
          (parts_between ps start (start + flat_map_getLowerBound (<) till (drop start ps))) a till) =
      Some (segment c a till @ drop (nat (till - a)) buffer)" by blast+
qed

text \<open>What a ready range copies.\<close>

lemma prepareFill_copies:
  assumes "parts_ok c (s_parts s)" and "0 \<le> a" and "a < till" and "till \<le> int (length c)"
    and "pf_ready (prepareFill a till s)" and "till - a \<le> int (length buffer)"
  shows "CopyLoaded buffer (parts_between (s_parts s) (pf_start (prepareFill a till s))
      (pf_finish (prepareFill a till s))) a till = Some (segment c a till @ drop (nat (till - a)) buffer)"
proof -
  have h: "till \<le> have_till a till (s_parts s)" using assms(5) prepareFill_ready(1) [OF assms(3)] by blast
  have "flat_map_getUpperBound (<) a (s_parts s) \<noteq> 0"
  proof
    assume "flat_map_getUpperBound (<) a (s_parts s) = 0"
    then have "have_till a till (s_parts s) = floor_part a" by (simp add: have_till_def)
    with h floor_part(2) [of a] assms(3) show False by simp
  qed
  then have "pf_start (prepareFill a till s) = flat_map_getUpperBound (<) a (s_parts s) - 1"
    and "pf_finish (prepareFill a till s) = flat_map_getUpperBound (<) a (s_parts s) - 1
      + flat_map_getLowerBound (<) till (drop (flat_map_getUpperBound (<) a (s_parts s) - 1) (s_parts s))"
    using h by (simp_all add: prepareFill_def have_till_def Let_def floor_part_def [symmetric] not_less)
  then show ?thesis using have_till_cases(2) [OF assms(1-4) h assms(6)] by (simp add: Let_def)
qed

section \<open>What is asked for next\<close>

text \<open>The offsets of the parts from \<open>a\<close> up to \<open>b\<close>.\<close>

definition offset_steps :: "int \<Rightarrow> int \<Rightarrow> int list" where
  "offset_steps a b = map (\<lambda>i. a + int i * kPartSize) [0..<nat ((b - a) div kPartSize)]"

lemma offset_steps_empty [simp]: "b \<le> a \<Longrightarrow> offset_steps a b = []"
proof -
  assume "b \<le> a"
  then have "(b - a) div kPartSize \<le> 0" by (simp add: div_nonpos_pos_le0)
  then show ?thesis by (simp add: offset_steps_def)
qed

lemma steps_count:
  assumes "a + kPartSize \<le> b"
  shows "nat ((b - a) div kPartSize) = Suc (nat ((b - (a + kPartSize)) div kPartSize))"
proof -
  have "(b - a) div kPartSize = 1 + (b - (a + kPartSize)) div kPartSize"
    using div_add_self2 [of kPartSize "b - (a + kPartSize)"] by simp
  moreover have "0 \<le> (b - (a + kPartSize)) div kPartSize" using assms by (simp add: pos_imp_zdiv_nonneg_iff)
  ultimately show ?thesis by simp
qed

lemma offset_steps_rec:
  assumes "a + kPartSize \<le> b"
  shows "offset_steps a b = a # offset_steps (a + kPartSize) b"
  unfolding offset_steps_def steps_count [OF assms] map_upt_Suc
  by (simp add: distrib_right add.assoc)

lemma offset_steps_member:
  assumes "a mod kPartSize = 0" and "b mod kPartSize = 0"
  shows "x \<in> set (offset_steps a b) \<longleftrightarrow> a \<le> x \<and> x < b \<and> x mod kPartSize = 0"
  using assms
proof (induction "nat ((b - a) div kPartSize)" arbitrary: a)
  case 0
  have "\<not> a < b"
  proof
    assume "a < b"
    from steps_count [OF multiple_apart [OF "0.prems" this]] "0.hyps" show False by simp
  qed
  then show ?case by simp
next
  case (Suc n)
  have ab: "a < b"
  proof (rule ccontr)
    assume "\<not> a < b"
    then have "(b - a) div kPartSize \<le> 0" by (simp add: div_nonpos_pos_le0)
    with Suc.hyps(2) show False by simp
  qed
  then have le: "a + kPartSize \<le> b" by (rule multiple_apart [OF Suc.prems])
  then have "n = nat ((b - (a + kPartSize)) div kPartSize)" using Suc.hyps(2) steps_count by simp
  from Suc.hyps(1) [OF this] Suc.prems
  have IH: "x \<in> set (offset_steps (a + kPartSize) b) \<longleftrightarrow> a + kPartSize \<le> x \<and> x < b \<and> x mod kPartSize = 0"
    by simp
  have "x \<in> set (offset_steps a b) \<longleftrightarrow> x = a \<or> a + kPartSize \<le> x \<and> x < b \<and> x mod kPartSize = 0"
    unfolding offset_steps_rec [OF le] list.set insert_iff IH ..
  moreover have "x mod kPartSize = 0 \<Longrightarrow> a < x \<Longrightarrow> a + kPartSize \<le> x"
    by (rule multiple_apart [OF Suc.prems(1)])
  moreover have "a + kPartSize \<le> x \<Longrightarrow> a < x" using kPartSize_pos(1) by linarith
  ultimately show ?case using ab Suc.prems(1) by (cases "x = a") (auto simp: le_less)
qed

lemma keys_dropWhile:
  assumes "(offset :: int) \<le> x"
  shows "x \<in> set (keys (dropWhile (\<lambda>p. fst p < offset) ps)) \<longleftrightarrow> x \<in> set (keys ps)"
  using assms by (induction ps) auto

lemma head_key:
  assumes "sorted_wrt (<) (keys xs)" and "\<forall>p \<in> set xs. (a :: int) \<le> fst p"
  shows "xs \<noteq> [] \<and> fst (hd xs) = a \<longleftrightarrow> a \<in> set (keys xs)"
proof (cases xs)
  case (Cons p ps)
  then have "a \<le> fst p" and "\<forall>q \<in> set ps. fst p < fst q" using assms by simp_all
  then have "a \<notin> set (keys ps)" by force
  then show ?thesis by (auto simp: Cons)
qed simp

lemma offsets_loop_values:
  assumes "sorted_wrt (<) (keys check)" and "0 \<le> offset" and "offset \<le> till"
    and "offset mod kPartSize = 0" and "till mod kPartSize = 0"
  shows "StackIntVector_values (offsets_loop till check offset result) =
    StackIntVector_values result @ take (length result - length (StackIntVector_values result))
      (filter (\<lambda>x. x \<notin> set (keys check)) (offset_steps offset till))"
  using assms
proof (induction till check offset result rule: offsets_loop.induct)
  case (1 till check offset result)
  let ?check' = "dropWhile (\<lambda>p. fst p < offset) check"
  have keys: "filter (\<lambda>x. x \<notin> set (keys ?check')) (offset_steps b till) =
      filter (\<lambda>x. x \<notin> set (keys check)) (offset_steps b till)" if "offset \<le> b" "b mod kPartSize = 0" for b
  proof (rule filter_cong [OF refl])
    fix x assume "x \<in> set (offset_steps b till)"
    then have "offset \<le> x" using that offset_steps_member [OF that(2) "1.prems"(5)] by simp
    then show "(x \<notin> set (keys ?check')) = (x \<notin> set (keys check))" by (simp only: keys_dropWhile)
  qed
  show ?case
  proof (cases "offset = till")
    case True
    then show ?thesis by (simp add: offsets_loop.simps)
  next
    case False
    then have le: "offset + kPartSize \<le> till" using multiple_apart "1.prems" by simp
    have steps: "offset_steps offset till = offset # offset_steps (offset + kPartSize) till"
      by (rule offset_steps_rec [OF le])
    have sorted: "sorted_wrt (<) (keys ?check')"
      using "1.prems"(1) by (metis dropWhile_map sorted_wrt_dropWhile comp_def dropWhile_eq_drop drop_map sorted_wrt_drop)
    have head: "?check' \<noteq> [] \<and> fst (hd ?check') = offset \<longleftrightarrow> offset \<in> set (keys check)"
    proof -
      have "offset \<le> fst p" if "p \<in> set ?check'" for p
      proof (cases ?check')
        case Nil
        then show ?thesis using that by (simp only: list.set empty_iff)
      next
        case (Cons q qs)
        then have "\<not> fst q < offset" by (metis hd_dropWhile list.distinct(1) list.sel(1))
        then show ?thesis using that sorted unfolding Cons by auto
      qed
      then have "?check' \<noteq> [] \<and> fst (hd ?check') = offset \<longleftrightarrow> offset \<in> set (keys ?check')"
        by (intro head_key [OF sorted]) blast
      then show ?thesis by (simp only: keys_dropWhile [OF order_refl])
    qed
    note next_ok = sorted _ le multiple_step [OF "1.prems"(4)] "1.prems"(5)
    have pos: "0 \<le> offset + kPartSize" using "1.prems"(2) by simp
    have keysN: "filter (\<lambda>x. x \<notin> set (keys ?check')) (offset_steps (offset + kPartSize) till) =
        filter (\<lambda>x. x \<notin> set (keys check)) (offset_steps (offset + kPartSize) till)"
      by (rule keys) (use "1.prems"(4) in simp_all)
    show ?thesis
    proof (cases "offset \<in> set (keys check)")
      case True
      then have "offsets_loop till check offset result = offsets_loop till ?check' (offset + kPartSize) result"
        using False head by (subst offsets_loop.simps) (simp add: Let_def)
      then show ?thesis
        using "1.IH"(1) [OF False refl _ sorted pos le multiple_step [OF "1.prems"(4)] "1.prems"(5)] head True keysN
        by (simp add: steps)
    next
      case missing: False
      obtain added result' where r: "StackIntVector_add offset result = (added, result')" by fastforce
      note v = add_values [OF "1.prems"(2), of result, unfolded r, simplified]
      show ?thesis
      proof (cases added)
        case True
        then have "offsets_loop till check offset result = offsets_loop till ?check' (offset + kPartSize) result'"
          using False head missing r by (subst offsets_loop.simps) (auto simp: Let_def)
        moreover have "StackIntVector_values (offsets_loop till ?check' (offset + kPartSize) result') =
          StackIntVector_values result' @ take (length result' - length (StackIntVector_values result'))
            (filter (\<lambda>x. x \<notin> set (keys ?check')) (offset_steps (offset + kPartSize) till))"
        proof -
          have "\<not> (?check' \<noteq> [] \<and> fst (hd ?check') = offset)" using head missing by blast
          moreover have "\<not> \<not> added" using True by simp
          ultimately show ?thesis
            by (rule "1.IH"(2) [OF False refl _ r [symmetric] refl _ sorted pos le
                multiple_step [OF "1.prems"(4)] "1.prems"(5)])
        qed
        moreover have v1: "length result' = length result"
          and v2: "length (StackIntVector_values result) < length result"
          and v3: "StackIntVector_values result' = StackIntVector_values result @ [offset]"
          using v True by simp_all
        moreover have "length result - length (StackIntVector_values result) =
          Suc (length result - Suc (length (StackIntVector_values result)))" using v2 by simp
        ultimately show ?thesis using missing unfolding keysN by (simp add: steps)
      next
        case full: False
        then have "offsets_loop till check offset result = result'"
          using False head missing r by (subst offsets_loop.simps) (auto simp: Let_def)
        then show ?thesis using v full by simp
      qed
    qed
  qed
qed

lemma offsetsFromLoader_values:
  assumes "sorted_wrt (<) (keys (s_parts s))" and "0 \<le> a" and "a \<le> till"
    and "a mod kPartSize = 0" and "till mod kPartSize = 0"
  shows "StackIntVector_values (offsetsFromLoader a till s) =
    take kLoadFromRemoteMax (filter (\<lambda>x. x \<notin> set (keys (s_parts s))) (offset_steps a till))"
proof -
  let ?after = "flat_map_getUpperBound (<) a (s_parts s)"
  let ?check = "if ?after = 0 then ?after else ?after - 1"
  have sorted: "sorted_wrt (<) (keys (drop ?check (s_parts s)))"
    using assms(1) by (metis drop_map sorted_wrt_drop)
  have "x \<in> set (keys (drop ?check (s_parts s))) \<longleftrightarrow> x \<in> set (keys (s_parts s))" if "a \<le> x" for x
  proof (cases ?after)
    case (Suc n)
    then have n: "n < length (s_parts s)"
      using upper_bound_le [of "(<)" "keys (s_parts s)" a] by (simp add: map_upper_bound)
    have "keys (s_parts s) ! n \<in> set (take (upper_bound (<) (keys (s_parts s)) a) (keys (s_parts s)))"
      using n Suc by (simp add: map_upper_bound [symmetric] take_Suc_conv_app_nth)
    then have "\<not> a < keys (s_parts s) ! n" by (rule lin.upper_bound_prefix)
    moreover have "\<forall>y \<in> set (take n (keys (s_parts s))). y < keys (s_parts s) ! n"
    proof -
      have "keys (s_parts s) = take n (keys (s_parts s)) @ keys (s_parts s) ! n # drop (Suc n) (keys (s_parts s))"
        by (rule id_take_nth_drop) (use n in simp)
      with assms(1) have "sorted_wrt (<) (take n (keys (s_parts s)) @ keys (s_parts s) ! n # drop (Suc n) (keys (s_parts s)))"
        by (simp only:)
      then show ?thesis unfolding sorted_wrt_append by simp
    qed
    ultimately have "x \<notin> set (take n (keys (s_parts s)))" using that by force
    then have "x \<in> set (drop n (keys (s_parts s))) \<longleftrightarrow> x \<in> set (keys (s_parts s))"
      by (metis Un_iff append_take_drop_id set_append)
    then show ?thesis using Suc by (simp add: drop_map)
  qed simp
  then have "filter (\<lambda>x. x \<notin> set (keys (drop ?check (s_parts s)))) (offset_steps a till) =
      filter (\<lambda>x. x \<notin> set (keys (s_parts s))) (offset_steps a till)"
    using offset_steps_member [OF assms(4,5)] by (intro filter_cong) auto
  then show ?thesis
    using offsets_loop_values [OF sorted assms(2-5), of "StackIntVector_new kLoadFromRemoteMax"]
    by (simp add: offsetsFromLoader_def values_new Let_def)
qed

end
