(* ===== verification/StreamingCache.thy ===== *)
theory StreamingCache
  imports StreamingSlice
begin

text \<open>
  Writing a slice of a streamed file to the cache and reading it back
  (\<^verbatim>\<open>processCacheData\<close>, \<^verbatim>\<open>serializeComplexSlice\<close> and the padding loop of
  \<^verbatim>\<open>serializeAndUnloadSlice\<close> in \<^verbatim>\<open>media/streaming/media_streaming_reader.cpp\<close>). The lemmas
  here are those the reader's theorems rest on: what a cache entry holds does not depend on
  the parts a slice already has, and both formats give back the parts that were written.
\<close>

section \<open>32-bit integers as bytes\<close>

lemma int32_bytes:
  assumes "- (2 ^ 31) \<le> v" and "v < 2 ^ 31"
  shows "int32_of_bytes (bytes_of_int32 v) = v"
proof -
  have "v mod 4294967296 = 256 * (v div 256 mod 16777216) + v mod 256"
    using zmod_zmult2_eq [of 16777216 v 256] by simp
  moreover have "v div 256 mod 16777216 = 256 * (v div 65536 mod 65536) + v div 256 mod 256"
    using zmod_zmult2_eq [of 65536 "v div 256" 256] zdiv_zmult2_eq [of 256 v 256] by simp
  moreover have "v div 65536 mod 65536 = 256 * (v div 16777216 mod 256) + v div 65536 mod 256"
    using zmod_zmult2_eq [of 256 "v div 65536" 256] zdiv_zmult2_eq [of 256 v 65536] by simp
  ultimately have sum: "v mod 256 + 256 * (v div 256 mod 256) + 65536 * (v div 65536 mod 256)
      + 16777216 * (v div 16777216 mod 256) = v mod 4294967296" by linarith
  have "int32_of_bytes (bytes_of_int32 v) = signed_take_bit 31 (v mod 256 + 256 * (v div 256 mod 256)
      + 65536 * (v div 65536 mod 256) + 16777216 * (v div 16777216 mod 256))"
    by (simp add: int32_of_bytes_def bytes_of_int32_def uint_word_of_int)
  also have "\<dots> = signed_take_bit 31 (take_bit 32 v)"
    unfolding sum by (simp add: take_bit_eq_mod del: signed_take_bit_take_bit)
  also have "\<dots> = v" using assms by (simp add: signed_take_bit_take_bit signed_take_bit_int_eq_self)
  finally show ?thesis .
qed

lemma length_bytes_of_int32 [simp]: "length (bytes_of_int32 v) = 4"
  by (simp add: bytes_of_int32_def)

lemma takeInt_bytes:
  "- (2 ^ 31) \<le> v \<Longrightarrow> v < 2 ^ 31 \<Longrightarrow> takeInt (bytes_of_int32 v @ rest) = (Some v, rest)"
  by (simp add: takeInt_def int32_bytes)

lemma takeBytes_append:
  "bs \<noteq> [] \<Longrightarrow> takeBytes (int (length bs)) (bs @ rest) = (bs, rest)"
  by (simp add: takeBytes_def)

section \<open>What a cache entry holds\<close>

text \<open>The parts of an entry in the order they are emplaced, and what it leaves.\<close>

function contiguous_entries :: "byte_array \<Rightarrow> int \<Rightarrow> parts_map" where
  "contiguous_entries data offset =
     (if offset < int (length data)
      then (offset, take (nat (min kPartSize (int (length data) - offset))) (drop (nat offset) data))
        # contiguous_entries data (offset + kPartSize)
      else [])"
  by auto
termination
  by (relation "measure (\<lambda>(data, offset). nat (int (length data) - offset))")
    (auto simp: kPartSize_def)

declare contiguous_entries.simps [simp del]

fun complex_entries :: "nat \<Rightarrow> int \<Rightarrow> byte_array \<Rightarrow> byte_array \<times> parts_map" where
  "complex_entries 0 maxSize data = (data, [])"
| "complex_entries (Suc count) maxSize data =
     (let offset = value_or (fst (takeInt data)) 0;
          data1 = snd (takeInt data);
          psize = value_or (fst (takeInt data1)) 0;
          data2 = snd (takeInt data1);
          bytes = fst (takeBytes psize data2)
      in if offset < 0 \<or> maxSize \<le> offset \<or> psize \<le> 0 \<or> maxSize < psize
           \<or> maxSize < offset + psize \<or> int (length bytes) \<noteq> psize
         then ([], [])
         else apsnd (Cons (offset, bytes)) (complex_entries count maxSize (snd (takeBytes psize data2))))"

definition read_entry :: "byte_array \<Rightarrow> int \<Rightarrow> byte_array \<times> parts_map" where
  "read_entry data maxSize =
     (if IsContiguousSerialization (int (length data)) maxSize
      then ([], if maxSize < int (length data) then [] else contiguous_entries data 0)
      else case takeInt data of
        (None, _) \<Rightarrow> ([], [])
      | (Some count, data1) \<Rightarrow> if count < 0 then ([], []) else complex_entries (nat count) maxSize data1)"

definition emplace_all :: "parts_map \<Rightarrow> parts_map \<Rightarrow> parts_map" where
  "emplace_all ps es = foldl (\<lambda>ps e. part_emplace (fst e) (snd e) ps) ps es"

lemma emplace_all_simps [simp]:
  "emplace_all ps [] = ps"
  "emplace_all ps (e # es) = emplace_all (part_emplace (fst e) (snd e) ps) es"
  by (simp_all add: emplace_all_def)

lemma add_contiguous_eq: "add_contiguous data offset ps = emplace_all ps (contiguous_entries data offset)"
proof (induction data offset ps rule: add_contiguous.induct)
  case (1 data offset ps)
  then show ?case
    by (simp add: add_contiguous.simps [of data offset ps] contiguous_entries.simps [of data offset])
qed

lemma take_parts_eq:
  "take_parts n maxSize data ps =
    (fst (complex_entries n maxSize data), emplace_all ps (snd (complex_entries n maxSize data)))"
  by (induction n arbitrary: data ps) (simp_all add: Let_def split_beta)

lemma processCacheData_eq:
  assumes "s_loadingFromCache s" and "\<not> s_loadedFromCache s"
  shows "processCacheData data maxSize s = Some (fst (read_entry data maxSize),
    s\<lparr>s_parts := emplace_all (s_parts s) (snd (read_entry data maxSize)),
      s_loadingFromCache := False, s_loadedFromCache := True\<rparr>)"
proof -
  obtain t data1 where t: "takeInt data = (t, data1)" by fastforce
  show ?thesis
    using assms by (cases t)
      (auto simp: processCacheData_def read_entry_def processComplexCacheData_def add_contiguous_eq
        take_parts_eq t Let_def)
qed

section \<open>Emplacing parts\<close>

lemma emplace_spec:
  assumes "sorted_wrt (<) (keys ps)"
  shows "sorted_wrt (<) (keys (part_emplace a b ps))"
    and "set (part_emplace a b ps) = (if a \<in> set (keys ps) then set ps else insert (a, b) (set ps))"
proof -
  obtain ys p fresh where i: "flat_map_insert (<) (a, b) ps = (ys, p, fresh)"
    by (cases "flat_map_insert (<) (a, b) ps") auto
  note spec = lin.map_insert_spec [OF assms i]
  have e: "part_emplace a b ps = ys" by (simp add: try_emplace_insert i)
  show "sorted_wrt (<) (keys (part_emplace a b ps))" unfolding e by (rule spec(1))
  have "ys = ps \<or> ys = insert_at p (a, b) ps"
    using i by (auto simp: lin.map_insert_canonical [OF lin.sorted_weaken [OF assms]] Let_def split: if_splits)
  moreover have "ys = insert_at p (a, b) ps" if fresh
    using i that by (auto simp: lin.map_insert_canonical [OF lin.sorted_weaken [OF assms]] Let_def split: if_splits)
  ultimately show "set (part_emplace a b ps) = (if a \<in> set (keys ps) then set ps else insert (a, b) (set ps))"
    unfolding e using spec(4,7) by (cases fresh) simp_all
qed

lemma part_ok_unique: "part_ok c p \<Longrightarrow> part_ok c q \<Longrightarrow> fst p = fst q \<Longrightarrow> p = q"
  by (simp add: part_ok_def prod_eq_iff)

lemma parts_ok_unique:
  assumes "parts_ok c ps" and "parts_ok c qs" and "set (keys ps) = set (keys qs)"
  shows "ps = qs"
proof -
  have "keys ps = keys qs"
    by (rule lin.sorted_set_unique) (use assms in \<open>simp_all add: parts_ok_def\<close>)
  moreover have "map snd rs = map (\<lambda>a. segment c a (a + kPartSize)) (keys rs)" if "parts_ok c rs" for rs
    using that by (auto simp: parts_ok_def part_ok_def)
  ultimately show ?thesis using assms(1,2) by (metis zip_map_fst_snd)
qed

lemma emplace_part_ok:
  assumes "parts_ok c ps" and "part_ok c (a, b)"
  shows "parts_ok c (part_emplace a b ps)" and "set (part_emplace a b ps) = insert (a, b) (set ps)"
proof -
  have sorted: "sorted_wrt (<) (keys ps)" using assms(1) by (simp add: parts_ok_def)
  note spec = emplace_spec [OF sorted, of a b]
  have "(a, b) \<in> set ps" if "a \<in> set (keys ps)"
  proof -
    from that obtain e where e: "e \<in> set ps" "fst e = a" by (metis imageE list.set_map)
    then have "part_ok c e" using assms(1) by (simp add: parts_ok_def)
    then have "e = (a, b)" by (rule part_ok_unique [OF _ assms(2)]) (simp add: e(2))
    then show ?thesis using e(1) by simp
  qed
  then show set: "set (part_emplace a b ps) = insert (a, b) (set ps)" using spec(2) by (auto simp: insert_absorb)
  show "parts_ok c (part_emplace a b ps)"
    using assms spec(1) unfolding parts_ok_def set by simp
qed

lemma emplace_all_ok:
  assumes "parts_ok c ps" and "\<forall>e \<in> set es. part_ok c e"
  shows "parts_ok c (emplace_all ps es)" and "set (emplace_all ps es) = set ps \<union> set es"
proof -
  have "parts_ok c (emplace_all ps es) \<and> set (emplace_all ps es) = set ps \<union> set es"
    using assms
  proof (induction es arbitrary: ps)
    case (Cons e es)
    obtain a b where e: "e = (a, b)" by (cases e)
    have "part_ok c (a, b)" using Cons.prems(2) by (simp add: e)
    note step = emplace_part_ok [OF Cons.prems(1) this]
    show ?case using Cons.IH [OF step(1)] Cons.prems(2) step(2) by (auto simp: e)
  qed simp
  then show "parts_ok c (emplace_all ps es)" and "set (emplace_all ps es) = set ps \<union> set es" by simp_all
qed

lemma emplace_all_fresh:
  assumes "parts_ok c es"
  shows "emplace_all [] es = es"
proof -
  have e: "parts_ok c []" by (simp add: parts_ok_def)
  have p: "\<forall>e \<in> set es. part_ok c e" using assms by (simp add: parts_ok_def)
  show ?thesis
    by (rule parts_ok_unique [OF emplace_all_ok(1) [OF e p] assms]) (simp add: emplace_all_ok(2) [OF e p])
qed

section \<open>The contiguous format\<close>

text \<open>Parts without a hole up to the last one are the bytes from the first one on.\<close>

lemma contiguous_parts:
  assumes "parts_ok c ps" and "0 \<le> r" and "r mod kPartSize = 0" and "\<forall>p \<in> set ps. r \<le> fst p"
    and "ps \<noteq> []" and "fst (last ps) < FindNotLoadedStart ps r"
  shows "concat (map snd ps) = segment c r (r + int (length ps) * kPartSize)"
    and "keys ps = map (\<lambda>i. r + int i * kPartSize) [0..<length ps]"
proof -
  have "concat (map snd ps) = segment c r (r + int (length ps) * kPartSize)
    \<and> keys ps = map (\<lambda>i. r + int i * kPartSize) [0..<length ps]"
    using assms
  proof (induction ps arbitrary: r)
    case (Cons p ps)
    obtain a b where p: "p = (a, b)" by (cases p)
    note c = parts_ok_Cons [OF Cons.prems(1) [unfolded p]]
    have last: "a \<le> fst (last (p # ps))"
    proof (cases "ps = []")
      case False
      then have "a + kPartSize \<le> fst (last ps)" using c(3) by simp
      then have "a \<le> fst (last ps)" using kPartSize_pos(1) by linarith
      with False show ?thesis by simp
    qed (simp add: p)
    have ra: "a = r"
    proof (rule ccontr)
      assume "a \<noteq> r"
      then have "r < a" using Cons.prems(4) by (simp add: p)
      then have "FindNotLoadedStart (p # ps) r = r" by (simp add: p)
      with Cons.prems(6) last \<open>r < a\<close> show False by simp
    qed
    have b: "b = segment c r (r + kPartSize)" using c(1) ra by (simp add: part_ok_def)
    show ?case
    proof (cases "ps = []")
      case True
      then show ?thesis using b ra by (simp add: p)
    next
      case False
      have le: "a + kPartSize \<le> fst (last ps)" using c(3) False by simp
      moreover have "fst (last ps) < int (length c)" using c(2) False by (simp add: parts_ok_def part_ok_def)
      ultimately have e: "a + int (length b) = a + kPartSize" using part_end [OF c(1)] by simp
      have "fst (last ps) < FindNotLoadedStart ps (r + kPartSize)"
        using Cons.prems(6) False ra e by (simp add: p)
      then have IH: "concat (map snd ps) = segment c (r + kPartSize) (r + kPartSize + int (length ps) * kPartSize)"
        "keys ps = map (\<lambda>i. r + kPartSize + int i * kPartSize) [0..<length ps]"
        using Cons.IH [OF c(2), of "r + kPartSize"] Cons.prems(2,3) c(3) ra False by simp_all
      have "segment c r (r + kPartSize) @ segment c (r + kPartSize) (r + kPartSize + int (length ps) * kPartSize)
        = segment c r (r + kPartSize + int (length ps) * kPartSize)"
        by (rule segment_append) (use Cons.prems(2) in simp_all)
      then have "concat (map snd (p # ps)) = segment c r (r + int (length (p # ps)) * kPartSize)"
        using b IH(1) by (simp add: p distrib_right add.assoc)
      moreover have "keys (p # ps) = map (\<lambda>i. r + int i * kPartSize) [0..<length (p # ps)]"
        unfolding list.map IH(2) list.size add_Suc_right add_0_right map_upt_Suc
        using ra by (simp add: p distrib_right add.assoc)
      ultimately show ?thesis by blast
    qed
  qed simp
  then show "concat (map snd ps) = segment c r (r + int (length ps) * kPartSize)"
    and "keys ps = map (\<lambda>i. r + int i * kPartSize) [0..<length ps]" by blast+
qed

lemma contiguous_entries_segment:
  assumes "parts_ok c ps" and "0 \<le> r" and "keys ps = map (\<lambda>i. r + int i * kPartSize) [0..<length ps]"
    and "data = segment c 0 (r + int (length ps) * kPartSize)"
  shows "contiguous_entries data r = ps"
  using assms
proof (induction ps arbitrary: r)
  case Nil
  then have "int (length data) \<le> r" using segment_length [of 0 c r] by simp
  then show ?case by (subst contiguous_entries.simps) simp
next
  case (Cons p ps)
  obtain a b where p: "p = (a, b)" by (cases p)
  note c = parts_ok_Cons [OF Cons.prems(1) [unfolded p]]
  have k: "a = r" "keys ps = map (\<lambda>i. r + kPartSize + int i * kPartSize) [0..<length ps]"
    using Cons.prems(3) unfolding list.size add_Suc_right add_0_right map_upt_Suc
    by (simp_all add: p distrib_right add.assoc)
  have E: "r + int (length (p # ps)) * kPartSize = r + kPartSize + int (length ps) * kPartSize"
    by (simp add: distrib_right)
  have tail: "contiguous_entries data (r + kPartSize) = ps"
    using Cons.IH [OF c(2) _ k(2)] Cons.prems(2,4) unfolding E by simp
  have "r < int (length c)" using c(1) k(1) by (simp add: part_ok_def)
  have "0 \<le> int (length ps) * kPartSize" by simp
  then have "r < r + kPartSize + int (length ps) * kPartSize" using kPartSize_pos(1) by linarith
  then have len: "r < int (length data)"
    using segment_length [of 0 c "r + int (length (p # ps)) * kPartSize"] Cons.prems(2)
      \<open>r < int (length c)\<close> unfolding Cons.prems(4) E by simp
  have "take (nat (min kPartSize (int (length data) - r))) (drop (nat r) data) = take (nat kPartSize) (drop (nat r) data)"
    using Cons.prems(2) by (simp add: min_def)
  also have "\<dots> = take (nat ((r + kPartSize) - r)) (drop (nat (r - 0)) data)" by simp
  also have "\<dots> = segment c r (r + kPartSize)"
    unfolding Cons.prems(4) by (rule segment_segment) (use Cons.prems(2) in simp_all)
  also have "\<dots> = b" using c(1) k(1) by (simp add: part_ok_def)
  finally have "take (nat (min kPartSize (int (length data) - r))) (drop (nat r) data) = b" .
  with tail show ?case using len k(1) by (subst contiguous_entries.simps) (simp add: p)
qed

lemma contiguous_roundtrip:
  assumes "parts_ok c ps" and "ps \<noteq> []" and "fst (last ps) < FindNotLoadedStart ps 0"
  shows "read_entry (concat (map snd ps)) (int (length c)) = ([], ps)"
proof -
  have ge: "\<forall>p \<in> set ps. 0 \<le> fst p" using assms(1) by (simp add: parts_ok_def part_ok_def)
  have r: "(0 :: int) mod kPartSize = 0" by simp
  note k = contiguous_parts [OF assms(1) order_refl r ge assms(2,3)]
  let ?data = "concat (map snd ps)"
  have len: "int (length ?data) = min (int (length ps) * kPartSize) (int (length c))"
    unfolding k(1) using segment_length [of 0 c "0 + int (length ps) * kPartSize"] by simp
  have "contiguous_entries ?data 0 = ps"
    by (rule contiguous_entries_segment [OF assms(1) order_refl k(2)]) (simp add: k(1))
  moreover have "IsContiguousSerialization (int (length ?data)) (int (length c))"
    unfolding IsContiguousSerialization_def len by (auto simp: min_def)
  ultimately show ?thesis using len by (simp add: read_entry_def)
qed

section \<open>The complex format\<close>

definition write_part :: "int \<times> byte_array \<Rightarrow> byte_array" where
  "write_part p = bytes_of_int32 (fst p) @ bytes_of_int32 (int (length (snd p))) @ snd p"

lemma serializeComplexSlice_eq:
  "serializeComplexSlice s = bytes_of_int32 (int (length (s_parts s))) @ concat (map write_part (s_parts s))"
  unfolding serializeComplexSlice_def write_part_def [abs_def] case_prod_unfold ..

lemma complex_entries_write:
  assumes "\<forall>p \<in> set ps. part_ok c p" and "int (length c) < 2 ^ 31"
  shows "complex_entries (length ps) (int (length c)) (concat (map write_part ps) @ rest) = (rest, ps)"
  using assms(1)
proof (induction ps)
  case (Cons p ps)
  obtain a b where p: "p = (a, b)" by (cases p)
  have ok: "part_ok c (a, b)" using Cons.prems by (simp add: p)
  have a: "0 \<le> a" "a < int (length c)" using ok by (simp_all add: part_ok_def)
  have e: "a + int (length b) = min (a + kPartSize) (int (length c))" by (rule part_end [OF ok])
  have b: "0 < int (length b)" "a + int (length b) \<le> int (length c)" using e a kPartSize_pos(1) by linarith+
  have small: "- (2 ^ 31) \<le> a" "a < 2 ^ 31" "- (2 ^ 31) \<le> int (length b)" "int (length b) < 2 ^ 31"
    using a b assms(2) by linarith+
  let ?rest = "concat (map write_part ps) @ rest"
  have data: "concat (map write_part (p # ps)) @ rest =
      bytes_of_int32 a @ bytes_of_int32 (int (length b)) @ b @ ?rest"
    by (simp add: p write_part_def)
  have "b \<noteq> []" using b(1) by auto
  note t = takeInt_bytes [OF small(1,2), of "bytes_of_int32 (int (length b)) @ b @ ?rest"]
    takeInt_bytes [OF small(3,4), of "b @ ?rest"] takeBytes_append [OF this, of ?rest]
  have "\<not> (a < 0 \<or> int (length c) \<le> a \<or> int (length b) \<le> 0 \<or> int (length c) < int (length b)
    \<or> int (length c) < a + int (length b))" using a b by linarith
  then show ?case
    unfolding data list.size add_Suc_right add_0_right complex_entries.simps t fst_conv snd_conv Let_def value_or_def
    using Cons by (simp add: p t(3))
qed simp

lemma parts_count:
  assumes "parts_ok c ps"
  shows "length ps \<le> length c"
proof -
  have "distinct (keys ps)" using assms by (simp add: parts_ok_def lin.sorted_distinct)
  then have "length ps = card (set (keys ps))" by (metis distinct_card length_map)
  also have "set (keys ps) \<subseteq> {0..<int (length c)}" using assms by (auto simp: parts_ok_def part_ok_def)
  then have "card (set (keys ps)) \<le> card {0..<int (length c)}" by (intro card_mono) simp_all
  finally show ?thesis by simp
qed

lemma complex_roundtrip:
  assumes "parts_ok c (s_parts s)" and "int (length c) < 2 ^ 31"
    and "\<not> IsContiguousSerialization (int (length (serializeComplexSlice s @ rest))) (int (length c))"
  shows "read_entry (serializeComplexSlice s @ rest) (int (length c)) = (rest, s_parts s)"
proof -
  have n: "- (2 ^ 31) \<le> int (length (s_parts s))" "int (length (s_parts s)) < 2 ^ 31"
    using parts_count [OF assms(1)] assms(2) by linarith+
  have "takeInt (serializeComplexSlice s @ rest) =
      (Some (int (length (s_parts s))), concat (map write_part (s_parts s)) @ rest)"
    using takeInt_bytes [OF n] by (simp add: serializeComplexSlice_eq)
  moreover have "complex_entries (length (s_parts s)) (int (length c)) (concat (map write_part (s_parts s)) @ rest)
      = (rest, s_parts s)"
    by (rule complex_entries_write) (use assms(1,2) in \<open>simp_all add: parts_ok_def\<close>)
  ultimately show ?thesis using assms(3) by (simp add: read_entry_def)
qed

text \<open>The padding adds at most two bytes, and after it the entry is not taken for a contiguous one.\<close>

lemma pad_spec:
  shows "\<not> IsContiguousSerialization (int (length (pad_serialization maxSize data))) maxSize"
    and "\<exists>n \<le> 2. pad_serialization maxSize data = data @ replicate n 0"
proof -
  show "\<not> IsContiguousSerialization (int (length (pad_serialization maxSize data))) maxSize"
  proof (induction maxSize data rule: pad_serialization.induct)
    case (1 maxSize data)
    then show ?case by (cases "IsContiguousSerialization (int (length data)) maxSize")
        (simp_all add: pad_serialization.simps [of maxSize data])
  qed
  let ?n = "int (length data)"
  have far: "\<not> ((?n + a) mod kPartSize = 0 \<and> (?n + b) mod kPartSize = 0)" if "a < b" "b \<le> a + 2" for a b
    using multiple_apart [of "?n + a" "?n + b"] that by (auto simp: kPartSize_def)
  have s: "pad_serialization maxSize d =
    (if IsContiguousSerialization (int (length d)) maxSize then pad_serialization maxSize (d @ [0]) else d)" for d
    by (rule pad_serialization.simps)
  have "\<not> IsContiguousSerialization ?n maxSize \<or> \<not> IsContiguousSerialization (?n + 1) maxSize
    \<or> \<not> IsContiguousSerialization (?n + 2) maxSize"
    using far [of 0 1] far [of 0 2] far [of 1 2] unfolding IsContiguousSerialization_def by auto
  then consider "pad_serialization maxSize data = data @ replicate 0 0"
    | "pad_serialization maxSize data = data @ replicate 1 0" | "pad_serialization maxSize data = data @ replicate 2 0"
    using s [of data] s [of "data @ [0]"] s [of "data @ [0, 0]"]
    by (auto simp: numeral_2_eq_2 add.commute split: if_splits)
  then show "\<exists>n \<le> 2. pad_serialization maxSize data = data @ replicate n 0"
  proof cases
    case 1
    then show ?thesis by (intro exI [of _ 0]) simp
  next
    case 2
    then show ?thesis by (intro exI [of _ 1]) simp
  next
    case 3
    then show ?thesis by (intro exI [of _ 2]) simp
  qed
qed

end
