(* ===== verification/StreamingSlices.thy ===== *)
theory StreamingSlices
  imports StreamingCache
begin

text \<open>
  The slices of a streamed file and its header
  (\<^verbatim>\<open>Media::Streaming::Reader::Slices\<close>, \<^verbatim>\<open>media/streaming/media_streaming_reader.cpp\<close>):
  filling a buffer, taking in downloaded parts and cache answers, and unloading to the
  cache. A failed \<^verbatim>\<open>Expects\<close> or \<^verbatim>\<open>Assert\<close>, and an index outside \<^verbatim>\<open>_data\<close>, is the result \<open>None\<close>.
\<close>

section \<open>State\<close>

datatype HeaderMode = Unknown | Small | Good | Full | NoCache

record Slices =
  sl_data :: "Slice list"
  sl_header :: Slice
  sl_usedSlices :: "int list"
  sl_size :: int
  sl_headerMode :: HeaderMode

record SerializedSlice =
  ser_number :: int
  ser_data :: byte_array

definition SerializedSlice_new :: SerializedSlice where
  "SerializedSlice_new = \<lparr>ser_number = -1, ser_data = []\<rparr>"

definition kReadFromCacheMax :: nat where "kReadFromCacheMax = 2"

record FillResult =
  fr_sliceNumbersFromCache :: "int list"
  fr_offsetsFromLoader :: "int list"
  fr_toCache :: SerializedSlice
  fr_filled :: bool

definition FillResult_new :: FillResult where
  "FillResult_new = \<lparr>fr_sliceNumbersFromCache = StackIntVector_new kReadFromCacheMax,
     fr_offsetsFromLoader = StackIntVector_new kLoadFromRemoteMax,
     fr_toCache = SerializedSlice_new, fr_filled = False\<rparr>"

definition headerModeUnknown :: "Slices \<Rightarrow> bool" where
  "headerModeUnknown st \<longleftrightarrow> sl_headerMode st = Unknown"

definition isFullInHeader :: "Slices \<Rightarrow> bool" where
  "isFullInHeader st \<longleftrightarrow> sl_size st \<le> kMaxOnlyInHeader"

definition isGoodHeader :: "Slices \<Rightarrow> bool" where
  "isGoodHeader st \<longleftrightarrow> sl_headerMode st = Good"

definition Slices_new :: "int \<Rightarrow> bool \<Rightarrow> Slices option" where
  "Slices_new fileSize useCache =
     (if \<not> 0 < fileSize then None
      else
        let st = \<lparr>sl_data = [], sl_header = Slice_new, sl_usedSlices = [], sl_size = fileSize,
              sl_headerMode = Unknown\<rparr>;
            st1 = (if useCache then st\<lparr>sl_header := (sl_header st)\<lparr>s_loadingFromCache := True\<rparr>\<rparr>
              else st\<lparr>sl_headerMode := NoCache\<rparr>)
        in Some (if \<not> isFullInHeader st1
            then st1\<lparr>sl_data := replicate (nat ((sl_size st1 + kInSlice - 1) div kInSlice)) Slice_new\<rparr>
            else st1))"

definition computeIsGoodHeader :: "Slices \<Rightarrow> bool" where
  "computeIsGoodHeader st =
     (if isFullInHeader st then False
      else
        let outsideFirstSliceIt = flat_map_getLowerBound (<) kInSlice (s_parts (sl_header st));
            outsideFirstSlice = length (s_parts (sl_header st)) - outsideFirstSliceIt
        in outsideFirstSlice \<le> kPartsOutsideFirstSliceGood)"

definition Slices_headerDone :: "bool \<Rightarrow> Slices \<Rightarrow> Slices option" where
  "Slices_headerDone fromCache st =
     (if sl_headerMode st \<noteq> Unknown then Some st
      else
        let st1 = st\<lparr>sl_headerMode :=
              (if isFullInHeader st then Full else if computeIsGoodHeader st then Good else Small)\<rparr>
        in if fromCache then Some st1
           else if \<exists>s \<in> set (sl_data st1). s_loadingFromCache s \<or> s_loadedFromCache s then None
           else Some (st1\<lparr>sl_data := map (\<lambda>s. s\<lparr>s_loadedFromCache := True\<rparr>) (sl_data st1)\<rparr>))"

definition headerWontBeFilled :: "Slices \<Rightarrow> bool" where
  "headerWontBeFilled st \<longleftrightarrow>
     headerModeUnknown st \<and> kMaxPartsInHeader \<le> length (s_parts (sl_header st))"

section \<open>Cache answers and downloaded parts\<close>

definition addPart_at :: "nat \<Rightarrow> int \<Rightarrow> byte_array \<Rightarrow> Slice list \<Rightarrow> Slice list option" where
  "addPart_at index offset bytes data =
     (if length data \<le> index then None
      else map_option (\<lambda>s. data[index := s]) (addPart offset bytes (data ! index)))"

fun apply_while :: "(int \<Rightarrow> bool) \<Rightarrow> parts_map \<Rightarrow> Slice list \<Rightarrow> Slice list option" where
  "apply_while predicate [] data = Some data"
| "apply_while predicate ((offset, part) # ps) data =
     (let index = offset div kInSlice
      in if \<not> predicate index then Some data
         else Option.bind (addPart_at (nat index) (offset - index * kInSlice) part data)
           (apply_while predicate ps))"

definition applyHeaderCacheData :: "Slices \<Rightarrow> Slices option" where
  "applyHeaderCacheData st =
     (let applyWhile = (\<lambda>predicate. map_option (\<lambda>data. st\<lparr>sl_data := data\<rparr>)
            (apply_while predicate (s_parts (sl_header st)) (sl_data st)))
      in if s_parts (sl_header st) = [] then Some st
         else if sl_headerMode st = Good then applyWhile (\<lambda>index. index = 0)
         else if sl_headerMode st \<noteq> Unknown then Some st
         else if isFullInHeader st then Slices_headerDone True st
         else Option.bind (applyWhile (\<lambda>index. index < int (length (sl_data st))))
           (Slices_headerDone True))"

definition maxSliceSize :: "int \<Rightarrow> Slices \<Rightarrow> int" where
  "maxSliceSize sliceNumber st =
     (if sliceNumber = 0 then sl_size st
      else if sliceNumber = int (length (sl_data st)) then sl_size st - (sliceNumber - 1) * kInSlice
      else kInSlice)"

definition slice_of :: "int \<Rightarrow> Slices \<Rightarrow> Slice" where
  "slice_of sliceNumber st =
     (if sliceNumber \<noteq> 0 then sl_data st ! nat (sliceNumber - 1) else sl_header st)"

definition put_slice :: "int \<Rightarrow> Slice \<Rightarrow> Slices \<Rightarrow> Slices" where
  "put_slice sliceNumber s st =
     (if sliceNumber \<noteq> 0 then st\<lparr>sl_data := (sl_data st)[nat (sliceNumber - 1) := s]\<rparr>
      else st\<lparr>sl_header := s\<rparr>)"

text \<open>
  \<^verbatim>\<open>processCacheResult\<close> for a slice other than the header; the header's own code below ends
  by calling it for the first slice.
\<close>

definition processSliceResult :: "int \<Rightarrow> byte_array \<Rightarrow> Slices \<Rightarrow> Slices option" where
  "processSliceResult sliceNumber result st =
     (if \<not> (0 \<le> sliceNumber \<and> sliceNumber \<le> int (length (sl_data st))) then None
      else if \<not> s_loadingFromCache (slice_of sliceNumber st) then Some st
      else map_option (\<lambda>(remaining, s). put_slice sliceNumber s st)
        (processCacheData result (maxSliceSize sliceNumber st) (slice_of sliceNumber st)))"

definition processHeaderResult :: "byte_array \<Rightarrow> Slices \<Rightarrow> Slices option" where
  "processHeaderResult result st =
     (if isGoodHeader st \<and> sl_data st = [] then None
      else if isGoodHeader st \<and> \<not> s_loadingFromCache (sl_data st ! 0) then Some st
      else
        let slice = (if isGoodHeader st
              then (sl_header st)\<lparr>s_loadingFromCache := True, s_loadedFromCache := False\<rparr>
              else sl_header st)
        in if \<not> s_loadingFromCache slice then Some st
           else case processCacheData result (maxSliceSize 0 st) slice of
             None \<Rightarrow> None
           | Some (remaining, slice_read) \<Rightarrow>
               (case applyHeaderCacheData (st\<lparr>sl_header := slice_read\<rparr>) of
                 None \<Rightarrow> None
               | Some st1 \<Rightarrow>
                   if isGoodHeader st1
                   then if sl_data st1 = [] then None
                     else processSliceResult 1 remaining
                       (st1\<lparr>sl_data := (sl_data st1)[0 := (sl_data st1 ! 0)\<lparr>s_loadingFromCache := True\<rparr>]\<rparr>)
                   else Some st1))"

definition processCacheResult :: "int \<Rightarrow> byte_array \<Rightarrow> Slices \<Rightarrow> Slices option" where
  "processCacheResult sliceNumber result st =
     (if sliceNumber = 0 then processHeaderResult result st else processSliceResult sliceNumber result st)"

text \<open>
  \<^verbatim>\<open>_data[index].addPart\<close> runs after the header took the same part.
\<close>

definition processPart :: "int \<Rightarrow> byte_array \<Rightarrow> Slices \<Rightarrow> Slices option" where
  "processPart offset bytes st =
     (if \<not> (isFullInHeader st \<or> 0 \<le> offset \<and> offset div kInSlice < int (length (sl_data st))) then None
      else if isFullInHeader st
      then map_option (\<lambda>s. st\<lparr>sl_header := s\<rparr>) (addPart offset bytes (sl_header st))
      else
        let addToData = (\<lambda>st1. let index = offset div kInSlice
              in map_option (\<lambda>data. st1\<lparr>sl_data := data\<rparr>)
                (addPart_at (nat index) (offset - index * kInSlice) bytes (sl_data st1)))
        in if sl_headerMode st = Unknown
           then if flat_map_contains (<) offset (s_parts (sl_header st)) then Some st
             else if length (s_parts (sl_header st)) < kMaxPartsInHeader
             then Option.bind (addPart offset bytes (sl_header st)) (\<lambda>s. addToData (st\<lparr>sl_header := s\<rparr>))
             else addToData st
           else addToData st)"

section \<open>Unloading to the cache\<close>

text \<open>\<^verbatim>\<open>slice.parts.erase(offset)\<close> for every part of the header.\<close>

definition erase_parts :: "parts_map \<Rightarrow> parts_map \<Rightarrow> parts_map" where
  "erase_parts header parts = foldl (\<lambda>ps p. fst (flat_multi_map_removeAll (<) (fst p) ps)) parts header"

definition serializeAndUnloadFirstSliceNoHeader :: "Slices \<Rightarrow> (byte_array \<times> Slices) option" where
  "serializeAndUnloadFirstSliceNoHeader st =
     (if sl_data st = [] \<or> \<not> s_loadedFromCache (sl_data st ! 0) then None
      else
        let s = sl_data st ! 0;
            s1 = s\<lparr>s_parts := erase_parts (s_parts (sl_header st)) (s_parts s)\<rparr>
        in Some (serializeComplexSlice s1, st\<lparr>sl_data := (sl_data st)[0 := Slice_new]\<rparr>))"

text \<open>The first call of the code for the first slice of a good header is one for the header.\<close>

definition serializeAndUnloadSlice :: "int \<Rightarrow> Slices \<Rightarrow> (SerializedSlice \<times> Slices) option" where
  "serializeAndUnloadSlice requested st =
     (if sl_headerMode st = Unknown \<or> sl_headerMode st = NoCache
        \<or> \<not> (0 \<le> requested \<and> requested \<le> int (length (sl_data st))) then None
      else
        let sliceNumber = (if isGoodHeader st \<and> requested = 1 then 0 else requested);
            writeHeaderAndSlice = (isGoodHeader st \<and> sliceNumber = 0);
            s = slice_of sliceNumber st
        in if s_parts s = [] then None
           else
             let continuousTill = (if writeHeaderAndSlice then 0 else FindNotLoadedStart (s_parts s) 0);
                 continuous = (fst (last (s_parts s)) < continuousTill);
                 finish = (\<lambda>data st1. (\<lparr>ser_number = sliceNumber, ser_data = data\<rparr>,
                   if sliceNumber \<noteq> 0 then put_slice sliceNumber Slice_new st1
                   else st1\<lparr>sl_header := (sl_header st1)\<lparr>s_changedSinceCache := False\<rparr>\<rparr>))
             in if continuous then Some (finish (concat (map snd (s_parts s))) st)
                else
                  map_option (\<lambda>(rest, st1).
                      finish (pad_serialization (maxSliceSize sliceNumber st1) (serializeComplexSlice s @ rest)) st1)
                    (if writeHeaderAndSlice then serializeAndUnloadFirstSliceNoHeader st else Some ([], st)))"

definition serializeAndUnloadUnused :: "Slices \<Rightarrow> (SerializedSlice \<times> Slices) option" where
  "serializeAndUnloadUnused st =
     (if sl_headerMode st = Unknown \<or> length (sl_usedSlices st) \<le> kSlicesInMemory
      then Some (SerializedSlice_new, st)
      else
        let purgeSlice = hd (sl_usedSlices st);
            st1 = st\<lparr>sl_usedSlices := tl (sl_usedSlices st)\<rparr>
        in if \<not> (0 \<le> purgeSlice \<and> purgeSlice < int (length (sl_data st1))) then None
           else
             let s = sl_data st1 ! nat purgeSlice
             in if \<not> s_loadedFromCache s then Some (SerializedSlice_new, st1)
                else
                  let noNeedToSaveToCache =
                    (if sl_headerMode st1 = NoCache then True
                     else if \<not> s_changedSinceCache s
                     then \<not> isGoodHeader st1 \<or> 0 < purgeSlice \<or> \<not> s_changedSinceCache (sl_header st1)
                     else False)
                  in if noNeedToSaveToCache
                     then Some (SerializedSlice_new, st1\<lparr>sl_data := (sl_data st1)[nat purgeSlice := Slice_new]\<rparr>)
                     else serializeAndUnloadSlice (purgeSlice + 1) st1)"

definition unloadToCache :: "Slices \<Rightarrow> (SerializedSlice \<times> Slices) option" where
  "unloadToCache st =
     (if sl_headerMode st = Unknown \<or> sl_headerMode st = NoCache then Some (SerializedSlice_new, st)
      else if s_changedSinceCache (sl_header st) then serializeAndUnloadSlice 0 st
      else
        let i = partition_point (\<lambda>s. \<not> s_changedSinceCache s) (sl_data st)
        in if i \<noteq> length (sl_data st) then serializeAndUnloadSlice (int i + 1) st
           else Some (SerializedSlice_new, st))"

section \<open>Filling a buffer\<close>

text \<open>The slice at position \<open>i\<close> moves to the end, or is put there.\<close>

definition markSliceUsed :: "int \<Rightarrow> Slices \<Rightarrow> Slices" where
  "markSliceUsed sliceIndex st =
     (let i = partition_point (\<lambda>x. x \<noteq> sliceIndex) (sl_usedSlices st);
          used = sl_usedSlices st
      in if i = length used then st\<lparr>sl_usedSlices := used @ [sliceIndex]\<rparr>
         else
           let next_i = i + 1
           in if next_i \<noteq> length used
              then st\<lparr>sl_usedSlices := take i used @ drop next_i used @ [used ! i]\<rparr>
              else st)"

definition add_values_if :: "(int \<Rightarrow> int option) \<Rightarrow> int list \<Rightarrow> int list \<Rightarrow> int list" where
  "add_values_if f offsets storage =
     foldl (\<lambda>acc v. case f v of None \<Rightarrow> acc | Some w \<Rightarrow> snd (StackIntVector_add w acc)) storage offsets"

definition fillFromHeader :: "int \<Rightarrow> byte_array \<Rightarrow> Slices \<Rightarrow> (FillResult \<times> byte_array) option" where
  "fillFromHeader offset buffer st =
     (let result = FillResult_new;
          till = offset + int (length buffer);
          prepared = prepareFill offset till (sl_header st);
          result1 = result\<lparr>fr_offsetsFromLoader :=
            add_values_if (\<lambda>full. if full < sl_size st then Some full else None)
              (StackIntVector_values (pf_offsetsFromLoader prepared)) (fr_offsetsFromLoader result)\<rparr>
      in if pf_ready prepared
         then map_option (\<lambda>copied. (result1\<lparr>fr_filled := True\<rparr>, copied))
           (CopyLoaded buffer (parts_between (s_parts (sl_header st)) (pf_start prepared) (pf_finish prepared))
             offset till)
         else Some (result1, buffer))"

definition cacheNotLoaded :: "Slices \<Rightarrow> nat \<Rightarrow> bool" where
  "cacheNotLoaded st sliceIndex \<longleftrightarrow>
     sl_headerMode st \<noteq> NoCache \<and> sl_headerMode st \<noteq> Unknown
     \<and> \<not> s_loadedFromCache (sl_data st ! sliceIndex)"

definition handlePrepareResult :: "Slices \<Rightarrow> nat \<Rightarrow> PrepareFillResult \<Rightarrow> FillResult \<Rightarrow> FillResult" where
  "handlePrepareResult st sliceIndex prepared result =
     (if cacheNotLoaded st sliceIndex then result
      else result\<lparr>fr_offsetsFromLoader :=
        add_values_if
          (\<lambda>offset. let full = offset + int sliceIndex * kInSlice
            in if offset < kInSlice \<and> full < sl_size st then Some full else None)
          (StackIntVector_values (pf_offsetsFromLoader prepared)) (fr_offsetsFromLoader result)\<rparr>)"

definition handleReadFromCache :: "nat \<Rightarrow> FillResult \<times> Slices \<Rightarrow> FillResult \<times> Slices" where
  "handleReadFromCache sliceIndex rs =
     (let (result, st) = rs
      in if cacheNotLoaded st sliceIndex \<and> \<not> s_loadingFromCache (sl_data st ! sliceIndex)
         then (result\<lparr>fr_sliceNumbersFromCache :=
                 snd (StackIntVector_add (int sliceIndex + 1) (fr_sliceNumbersFromCache result))\<rparr>,
               st\<lparr>sl_data := (sl_data st)[sliceIndex :=
                 (sl_data st ! sliceIndex)\<lparr>s_loadingFromCache := True\<rparr>]\<rparr>)
         else (result, st))"

definition Slices_fill :: "int \<Rightarrow> byte_array \<Rightarrow> Slices \<Rightarrow> (FillResult \<times> byte_array \<times> Slices) option" where
  "Slices_fill offset buffer st =
     (if buffer = [] \<or> \<not> (0 \<le> offset \<and> offset < sl_size st)
        \<or> \<not> offset + int (length buffer) \<le> sl_size st \<or> \<not> int (length buffer) \<le> kInSlice then None
      else if sl_headerMode st \<noteq> NoCache \<and> \<not> s_loadedFromCache (sl_header st)
      then if \<not> s_loadingFromCache (sl_header st) then None else Some (FillResult_new, buffer, st)
      else if isFullInHeader st
      then map_option (\<lambda>(result, copied). (result, copied, st)) (fillFromHeader offset buffer st)
      else
        let till = offset + int (length buffer);
            fromSlice = offset div kInSlice;
            tillSlice = (till + kInSlice - 1) div kInSlice;
            two = (fromSlice + 1 < tillSlice)
        in if \<not> (0 \<le> fromSlice \<and> (fromSlice + 1 = tillSlice \<or> fromSlice + 2 = tillSlice)
             \<and> tillSlice \<le> int (length (sl_data st))) then None
           else
             let i = nat fromSlice;
                 firstFrom = offset - fromSlice * kInSlice;
                 firstTill = min kInSlice (till - fromSlice * kInSlice);
                 secondTill = till - (fromSlice + 1) * kInSlice;
                 first = prepareFill firstFrom firstTill (sl_data st ! i);
                 second = (if two then prepareFill 0 secondTill (sl_data st ! (i + 1)) else PrepareFillResult_new);
                 result1 = handlePrepareResult st i first FillResult_new;
                 result2 = (if two then handlePrepareResult st (i + 1) second result1 else result1)
             in if pf_ready first \<and> pf_ready second
                then
                  Option.bind (CopyLoaded buffer
                      (parts_between (s_parts (sl_data st ! i)) (pf_start first) (pf_finish first)) firstFrom firstTill)
                    (\<lambda>buffer1.
                  Option.bind (if two
                      then map_option (append (take (nat (firstTill - firstFrom)) buffer1))
                        (CopyLoaded (drop (nat (firstTill - firstFrom)) buffer1)
                          (parts_between (s_parts (sl_data st ! (i + 1))) (pf_start second) (pf_finish second))
                          0 secondTill)
                      else Some buffer1)
                    (\<lambda>buffer2.
                  map_option (\<lambda>(toCache, st2). (result2\<lparr>fr_toCache := toCache, fr_filled := True\<rparr>, buffer2, st2))
                    (serializeAndUnloadUnused
                      (if two then markSliceUsed (fromSlice + 1) (markSliceUsed fromSlice st)
                       else markSliceUsed fromSlice st))))
                else
                  let (result3, st3) = handleReadFromCache i (result2, st);
                      (result4, st4) = (if two then handleReadFromCache (i + 1) (result3, st3) else (result3, st3))
                  in Some (result4, buffer, st4))"

end
