(* ===== verification/StreamingInvariant.thy ===== *)
theory StreamingInvariant
  imports StreamingSlices
begin

text \<open>
  The invariant of the slices of a streamed file: whatever they hold are bytes of the file, and
  their flags never run into an assertion of \<^verbatim>\<open>fill\<close> or \<^verbatim>\<open>unloadToCache\<close>. The properties say
  that a filled buffer holds the bytes of the file, that what is written to the cache is read
  back, and what is asked of the loader.
\<close>

section \<open>The file as slices\<close>

lemma kInSlice_facts [simp]:
  "0 < kInSlice" "0 \<le> kInSlice" "kInSlice \<noteq> 0" "kInSlice mod kPartSize = 0"
  by (simp_all add: kInSlice_def kPartsInSlice_def kPartSize_def)

lemma kInSlice_value: "kInSlice = 64 * kPartSize"
  by (simp add: kInSlice_def kPartsInSlice_def)

definition slice_content :: "byte_array \<Rightarrow> int \<Rightarrow> byte_array" where
  "slice_content file i = segment file (i * kInSlice) ((i + 1) * kInSlice)"

definition slice_total :: "byte_array \<Rightarrow> int" where
  "slice_total file = (int (length file) + kInSlice - 1) div kInSlice"

lemma slice_ceil_less: "i < (x + kInSlice - 1) div kInSlice \<longleftrightarrow> i * kInSlice < x"
proof -
  let ?t = "(x + kInSlice - 1) div kInSlice"
  have "i < ?t \<longleftrightarrow> i + 1 \<le> ?t" by linarith
  also have "\<dots> \<longleftrightarrow> (i + 1) * kInSlice \<le> x + kInSlice - 1"
  proof
    assume "i + 1 \<le> ?t"
    then have "(i + 1) * kInSlice \<le> ?t * kInSlice" by (rule mult_right_mono) simp
    also have "\<dots> \<le> x + kInSlice - 1"
      by (metis kInSlice_facts(1) le_add_same_cancel1 div_mult_mod_eq pos_mod_sign)
    finally show "(i + 1) * kInSlice \<le> x + kInSlice - 1" .
  next
    assume "(i + 1) * kInSlice \<le> x + kInSlice - 1"
    then have "((i + 1) * kInSlice) div kInSlice \<le> ?t" by (rule zdiv_mono1) simp
    then show "i + 1 \<le> ?t" by simp
  qed
  also have "\<dots> \<longleftrightarrow> i * kInSlice < x" by (simp add: distrib_right)
  finally show ?thesis .
qed

lemma slice_total_iff: "i < slice_total file \<longleftrightarrow> i * kInSlice < int (length file)"
  unfolding slice_total_def by (rule slice_ceil_less)

lemma length_slice_content:
  assumes "0 \<le> i" and "i < slice_total file"
  shows "int (length (slice_content file i)) = min kInSlice (int (length file) - i * kInSlice)"
proof -
  have "0 \<le> i * kInSlice" using assms(1) by simp
  moreover have "i * kInSlice < int (length file)" using assms slice_total_iff by simp
  ultimately show ?thesis
    unfolding slice_content_def using segment_length [of "i * kInSlice" "file" "(i + 1) * kInSlice"]
    by (simp add: distrib_right)
qed

lemma segment_of_segment:
  assumes "0 \<le> a" and "0 \<le> x" and "x \<le> y" and "a + y \<le> b"
  shows "segment (segment c a b) x y = segment c (a + x) (a + y)"
proof -
  have "take (nat (a + y - (a + x))) (drop (nat (a + x - a)) (segment c a b)) = segment c (a + x) (a + y)"
    by (rule segment_segment) (use assms in simp_all)
  then show ?thesis by (simp add: segment_def)
qed

lemma segment_slice:
  assumes "0 \<le> i" and "0 \<le> x" and "x \<le> y" and "y \<le> kInSlice"
  shows "segment (slice_content file i) x y = segment file (i * kInSlice + x) (i * kInSlice + y)"
  unfolding slice_content_def
  by (rule segment_of_segment) (use assms in \<open>simp_all add: distrib_right\<close>)

text \<open>Where a part of the file lies in its slice.\<close>

lemma part_in_slice:
  assumes "part_ok file (a, b)"
  defines "i \<equiv> a div kInSlice"
  shows "0 \<le> i" and "i < slice_total file" and "part_ok (slice_content file i) (a - i * kInSlice, b)"
proof -
  have a: "0 \<le> a" "a < int (length file)" "a mod kPartSize = 0" "b = segment file a (a + kPartSize)"
    using assms(1) by (simp_all add: part_ok_def)
  show i: "0 \<le> i" using a(1) by (simp add: i_def pos_imp_zdiv_nonneg_iff)
  let ?x = "a - i * kInSlice"
  have x: "?x = a mod kInSlice" by (simp add: i_def minus_div_mult_eq_mod)
  then have x_bounds: "0 \<le> ?x" "?x < kInSlice" by simp_all
  then have le: "i * kInSlice \<le> a" by simp
  then show t: "i < slice_total file" using a(2) slice_total_iff by simp
  have xm: "?x mod kPartSize = 0"
    using a(3) unfolding x by (simp add: kInSlice_value mod_mod_cancel)
  then have xk: "?x + kPartSize \<le> kInSlice" using multiple_apart x_bounds(2) by simp
  have "?x < int (length (slice_content file i))"
    unfolding length_slice_content [OF i t] using x_bounds a(2) by simp
  moreover have "segment (slice_content file i) ?x (?x + kPartSize) = b"
    using segment_slice [OF i x_bounds(1) _ xk, of "file"] a(4) by simp
  ultimately show "part_ok (slice_content file i) (?x, b)" using x_bounds xm by (simp add: part_ok_def)
qed

section \<open>The invariant\<close>

definition slices_ok :: "byte_array \<Rightarrow> Slices \<Rightarrow> bool" where
  "slices_ok file st \<longleftrightarrow> file \<noteq> [] \<and> sl_size st = int (length file)
     \<and> int (length (sl_data st)) = (if isFullInHeader st then 0 else slice_total file)
     \<and> parts_ok file (s_parts (sl_header st))
     \<and> (\<forall>i < length (sl_data st). parts_ok (slice_content file (int i)) (s_parts (sl_data st ! i)))"

definition slice_flags_ok :: "Slice \<Rightarrow> bool" where
  "slice_flags_ok s \<longleftrightarrow> \<not> (s_loadingFromCache s \<and> s_loadedFromCache s)
     \<and> (s_changedSinceCache s \<longrightarrow> s_loadedFromCache s \<and> s_parts s \<noteq> [])"

definition flags_ok :: "Slices \<Rightarrow> bool" where
  "flags_ok st \<longleftrightarrow> slice_flags_ok (sl_header st) \<and> (\<forall>s \<in> set (sl_data st). slice_flags_ok s)
     \<and> (sl_headerMode st = NoCache \<or> s_loadedFromCache (sl_header st) \<or> s_loadingFromCache (sl_header st))
     \<and> (sl_headerMode st = Unknown \<longrightarrow>
         (\<forall>s \<in> set (sl_data st). \<not> s_loadingFromCache s \<and> \<not> s_loadedFromCache s))
     \<and> (sl_headerMode st = Good \<longrightarrow> sl_data st \<noteq> [] \<and> s_parts (sl_header st) \<noteq> []
         \<and> (s_changedSinceCache (sl_header st) \<longrightarrow> s_loadedFromCache (sl_data st ! 0)))
     \<and> (\<forall>u \<in> set (sl_usedSlices st). 0 \<le> u \<and> u < int (length (sl_data st)))"

definition slices_inv :: "byte_array \<Rightarrow> Slices \<Rightarrow> bool" where
  "slices_inv file st \<longleftrightarrow> slices_ok file st \<and> flags_ok st"

lemma maxSliceSize_content:
  assumes "slices_ok file st" and "1 \<le> n" and "n \<le> int (length (sl_data st))"
  shows "maxSliceSize n st = int (length (slice_content file (n - 1)))"
proof -
  have len: "int (length (sl_data st)) = slice_total file" and size: "sl_size st = int (length file)"
    using assms by (auto simp: slices_ok_def split: if_splits)
  have i: "0 \<le> n - 1" "n - 1 < slice_total file" using assms(2,3) len by simp_all
  show ?thesis
  proof (cases "n = slice_total file")
    case True
    then have "\<not> n * kInSlice < int (length file)" using slice_total_iff [of n "file"] i by simp
    then have "int (length file) - (n - 1) * kInSlice \<le> kInSlice" by (simp add: left_diff_distrib)
    then show ?thesis using True i len size unfolding length_slice_content [OF i] by (simp add: maxSliceSize_def)
  next
    case False
    then have "n * kInSlice < int (length file)" using slice_total_iff [of n "file"] i by simp
    then have "kInSlice < int (length file) - (n - 1) * kInSlice" by (simp add: left_diff_distrib)
    then show ?thesis using False i len unfolding length_slice_content [OF i] by (simp add: maxSliceSize_def)
  qed
qed

text \<open>\<^verbatim>\<open>addPart\<close> keeps both, if it does not fail.\<close>

lemma addPart_ok:
  assumes "parts_ok c (s_parts s)" and "part_ok c (a, b)" and "addPart a b s = Some s'"
  shows "parts_ok c (s_parts s')" and "set (s_parts s') = insert (a, b) (set (s_parts s))"
    and "slice_flags_ok s \<Longrightarrow> slice_flags_ok s'" and "s_parts s' \<noteq> []"
    and "s_loadedFromCache s' = s_loadedFromCache s" and "s_loadingFromCache s' = s_loadingFromCache s"
    and "s_changedSinceCache s' = (s_loadedFromCache s \<or> s_changedSinceCache s)"
proof -
  have e: "fst (flat_map_insert (<) (a, b) (s_parts s)) = part_emplace a b (s_parts s)"
    by (simp add: try_emplace_insert)
  have s': "s' = (let s1 = s\<lparr>s_parts := part_emplace a b (s_parts s)\<rparr>
      in if s_loadedFromCache s1 then s1\<lparr>s_changedSinceCache := True\<rparr> else s1)"
    using assms(3) by (auto simp: addPart_def e Let_def split: if_splits)
  have p: "s_parts s' = part_emplace a b (s_parts s)" by (simp add: s' Let_def)
  note ok = emplace_part_ok [OF assms(1,2)]
  show "parts_ok c (s_parts s')" unfolding p by (rule ok(1))
  show set: "set (s_parts s') = insert (a, b) (set (s_parts s))" unfolding p by (rule ok(2))
  then show ne: "s_parts s' \<noteq> []" by auto
  show "s_loadedFromCache s' = s_loadedFromCache s" and "s_loadingFromCache s' = s_loadingFromCache s"
    and "s_changedSinceCache s' = (s_loadedFromCache s \<or> s_changedSinceCache s)"
    by (simp_all add: s' Let_def)
  then show "slice_flags_ok s \<Longrightarrow> slice_flags_ok s'" using ne by (auto simp: slice_flags_ok_def)
qed

lemma addPart_at_ok:
  assumes "addPart_at i a b data = Some data'" and "parts_ok c (s_parts (data ! i))" and "part_ok c (a, b)"
  shows "i < length data" and "data' = data[i := data' ! i]" and "length data' = length data"
    and "addPart a b (data ! i) = Some (data' ! i)"
proof -
  obtain s where i: "i < length data" and s: "addPart a b (data ! i) = Some s" "data' = data[i := s]"
    using assms(1) by (auto simp: addPart_at_def split: if_splits)
  show "i < length data" and "data' = data[i := data' ! i]" and "length data' = length data"
    and "addPart a b (data ! i) = Some (data' ! i)" using i s by simp_all
qed

section \<open>Updates of one slice\<close>

lemma data_update_inv:
  assumes "slices_inv file st" and "i < length (sl_data st)"
    and "parts_ok (slice_content file (int i)) (s_parts s)" and "slice_flags_ok s"
    and "sl_headerMode st = Unknown \<Longrightarrow> \<not> s_loadingFromCache s \<and> \<not> s_loadedFromCache s"
    and "sl_headerMode st = Good \<Longrightarrow> i = 0 \<Longrightarrow> s_changedSinceCache (sl_header st) \<Longrightarrow> s_loadedFromCache s"
  shows "slices_inv file (st\<lparr>sl_data := (sl_data st)[i := s]\<rparr>)"
proof -
  have "slices_ok file (st\<lparr>sl_data := (sl_data st)[i := s]\<rparr>)"
    using assms(1-3) by (auto simp: slices_inv_def slices_ok_def isFullInHeader_def nth_list_update)
  moreover have in_set: "x = s \<or> x \<in> set (sl_data st)" if "x \<in> set ((sl_data st)[i := s])" for x
    using that set_update_subset_insert [of "sl_data st" i s] by blast
  have "flags_ok (st\<lparr>sl_data := (sl_data st)[i := s]\<rparr>)"
    unfolding flags_ok_def
  proof (intro conjI impI)
    show "\<forall>x \<in> set (sl_data (st\<lparr>sl_data := (sl_data st)[i := s]\<rparr>)). slice_flags_ok x"
      using assms(1,4) in_set by (auto simp: slices_inv_def flags_ok_def)
    show "\<forall>x \<in> set (sl_data (st\<lparr>sl_data := (sl_data st)[i := s]\<rparr>)). \<not> s_loadingFromCache x \<and> \<not> s_loadedFromCache x"
      if "sl_headerMode (st\<lparr>sl_data := (sl_data st)[i := s]\<rparr>) = Unknown"
      using that assms(1,5) in_set by (auto simp: slices_inv_def flags_ok_def)
    show "s_loadedFromCache (sl_data (st\<lparr>sl_data := (sl_data st)[i := s]\<rparr>) ! 0)"
      if "sl_headerMode (st\<lparr>sl_data := (sl_data st)[i := s]\<rparr>) = Good"
        "s_changedSinceCache (sl_header (st\<lparr>sl_data := (sl_data st)[i := s]\<rparr>))"
      using that assms(1,2,6) by (cases "i = 0") (auto simp: slices_inv_def flags_ok_def)
  qed (use assms(1) in \<open>auto simp: slices_inv_def flags_ok_def\<close>)
  ultimately show ?thesis by (simp add: slices_inv_def)
qed

lemma header_update_inv:
  assumes "slices_inv file st" and "parts_ok file (s_parts h)" and "slice_flags_ok h"
    and "sl_headerMode st = NoCache \<or> s_loadedFromCache h \<or> s_loadingFromCache h"
    and "sl_headerMode st = Good \<Longrightarrow> s_parts h \<noteq> []
      \<and> (s_changedSinceCache h \<longrightarrow> s_loadedFromCache (sl_data st ! 0))"
  shows "slices_inv file (st\<lparr>sl_header := h\<rparr>)"
  using assms by (auto simp: slices_inv_def slices_ok_def flags_ok_def isFullInHeader_def)

lemma slices_inv_parts:
  assumes "slices_inv file st"
  shows "parts_ok file (s_parts (sl_header st))"
    and "i < length (sl_data st) \<Longrightarrow> parts_ok (slice_content file (int i)) (s_parts (sl_data st ! i))"
    and "slice_flags_ok (sl_header st)" and "i < length (sl_data st) \<Longrightarrow> slice_flags_ok (sl_data st ! i)"
    and "sl_headerMode st = Unknown \<Longrightarrow> i < length (sl_data st) \<Longrightarrow>
      \<not> s_loadingFromCache (sl_data st ! i) \<and> \<not> s_loadedFromCache (sl_data st ! i)"
    and "sl_headerMode st = Good \<Longrightarrow> sl_data st \<noteq> [] \<and> s_parts (sl_header st) \<noteq> []
      \<and> (s_changedSinceCache (sl_header st) \<longrightarrow> s_loadedFromCache (sl_data st ! 0))"
  using assms by (simp_all add: slices_inv_def slices_ok_def flags_ok_def)

section \<open>Downloaded parts\<close>

lemma addPart_at_inv:
  assumes "slices_inv file st" and "part_ok file (a, b)"
    and "addPart_at (nat (a div kInSlice)) (a - a div kInSlice * kInSlice) b (sl_data st) = Some data"
  shows "slices_inv file (st\<lparr>sl_data := data\<rparr>)" and "length data = length (sl_data st)"
    and "map s_loadedFromCache data = map s_loadedFromCache (sl_data st)"
    and "map s_loadingFromCache data = map s_loadingFromCache (sl_data st)"
proof -
  let ?i = "nat (a div kInSlice)"
  note part = part_in_slice [OF assms(2)]
  have i: "int ?i = a div kInSlice" using part(1) by simp
  have len: "?i < length (sl_data st)" using assms(3) by (auto simp: addPart_at_def split: if_splits)
  note old = slices_inv_parts(2) [OF assms(1) len, unfolded i]
  note at = addPart_at_ok [OF assms(3) old part(3)]
  note new = addPart_ok [OF old part(3) at(4)]
  have "slices_inv file (st\<lparr>sl_data := (sl_data st)[?i := data ! ?i]\<rparr>)"
  proof (rule data_update_inv [OF assms(1) len])
    show "parts_ok (slice_content file (int ?i)) (s_parts (data ! ?i))" unfolding i by (rule new(1))
    show "slice_flags_ok (data ! ?i)" by (rule new(3) [OF slices_inv_parts(4) [OF assms(1) len]])
  qed (use slices_inv_parts(5) [OF assms(1) _ len] slices_inv_parts(6) [OF assms(1)] new(5,6) in auto)
  then show "slices_inv file (st\<lparr>sl_data := data\<rparr>)" using at(2) by simp
  show "length data = length (sl_data st)" by (rule at(3))
  show "map s_loadedFromCache data = map s_loadedFromCache (sl_data st)"
    by (subst at(2)) (simp add: map_update new(5) list_update_same_conv len)
  show "map s_loadingFromCache data = map s_loadingFromCache (sl_data st)"
    by (subst at(2)) (simp add: map_update new(6) list_update_same_conv len)
qed

lemma processPart_inv:
  assumes "slices_inv file st" and "part_ok file (a, b)" and "processPart a b st = Some st'"
  shows "slices_inv file st'"
proof -
  have to_header: "slices_inv file (st\<lparr>sl_header := h\<rparr>)" if h: "addPart a b (sl_header st) = Some h"
    and mode: "sl_headerMode st \<noteq> Good" for h
  proof -
    note new = addPart_ok [OF slices_inv_parts(1) [OF assms(1)] assms(2) h]
    show ?thesis
    proof (rule header_update_inv [OF assms(1) new(1) new(3) [OF slices_inv_parts(3) [OF assms(1)]]])
      show "sl_headerMode st = NoCache \<or> s_loadedFromCache h \<or> s_loadingFromCache h"
        using assms(1) new(5,6) by (simp add: slices_inv_def flags_ok_def)
    qed (use mode in simp)
  qed
  have full: "\<not> isFullInHeader st" if "sl_headerMode st = Good"
  proof
    assume "isFullInHeader st"
    then have "sl_data st = []" using assms(1) by (auto simp: slices_inv_def slices_ok_def)
    with slices_inv_parts(6) [OF assms(1) that] show False by simp
  qed
  show ?thesis
  proof (cases "isFullInHeader st")
    case True
    then show ?thesis using assms(3) to_header full by (auto simp: processPart_def)
  next
    case not_full: False
    note to_data = addPart_at_inv(1) [OF _ assms(2)]
    show ?thesis
    proof (cases "sl_headerMode st = Unknown")
      case False
      then show ?thesis using assms(1,3) not_full to_data [OF assms(1)]
        by (auto simp: processPart_def Let_def split: if_splits)
    next
      case True
      show ?thesis
      proof (cases "flat_map_contains (<) a (s_parts (sl_header st))
          \<or> \<not> length (s_parts (sl_header st)) < kMaxPartsInHeader")
        case old: True
        then show ?thesis using assms(1,3) not_full True to_data [OF assms(1)]
          by (auto simp: processPart_def Let_def split: if_splits)
      next
        case new: False
        then obtain h where h: "addPart a b (sl_header st) = Some h"
          and rest: "\<exists>data. addPart_at (nat (a div kInSlice)) (a - a div kInSlice * kInSlice) b (sl_data st) = Some data
            \<and> st' = st\<lparr>sl_header := h, sl_data := data\<rparr>"
          using assms(3) not_full True
          by (auto simp: processPart_def Let_def bind_eq_Some_conv split: if_splits)
        have "slices_inv file (st\<lparr>sl_header := h\<rparr>)" using to_header [OF h] True by simp
        then show ?thesis using to_data [of "st\<lparr>sl_header := h\<rparr>"] rest by auto
      qed
    qed
  qed
qed

section \<open>Cache answers\<close>

text \<open>
  What is required of a cache entry: the parts it is read as are parts of the file. The entry
  of the header may go on with one for the first slice.
\<close>

definition entry_ok :: "byte_array \<Rightarrow> int \<Rightarrow> byte_array \<Rightarrow> bool" where
  "entry_ok file n bs \<longleftrightarrow>
     (if n = 0
      then (\<forall>e \<in> set (snd (read_entry bs (int (length file)))). part_ok file e)
        \<and> (kMaxOnlyInHeader < int (length file) \<longrightarrow>
            (\<forall>e \<in> set (snd (read_entry (fst (read_entry bs (int (length file)))) (int (length (slice_content file 0))))).
              part_ok (slice_content file 0) e))
      else \<forall>e \<in> set (snd (read_entry bs (int (length (slice_content file (n - 1)))))).
        part_ok (slice_content file (n - 1)) e)"

lemma processSliceResult_inv:
  assumes "slices_inv file st" and "1 \<le> n" and "processSliceResult n bs st = Some st'"
    and "\<forall>e \<in> set (snd (read_entry bs (int (length (slice_content file (n - 1)))))).
        part_ok (slice_content file (n - 1)) e"
  shows "slices_inv file st'"
proof -
  let ?i = "nat (n - 1)"
  have le: "n \<le> int (length (sl_data st))" using assms(3) by (simp add: processSliceResult_def split: if_splits)
  then have i: "?i < length (sl_data st)" and int_i: "int ?i = n - 1" using assms(2) by linarith+
  have n: "slice_of n st = sl_data st ! ?i" "\<And>s. put_slice n s st = st\<lparr>sl_data := (sl_data st)[?i := s]\<rparr>"
    using assms(2) by (simp_all add: slice_of_def put_slice_def)
  have max: "maxSliceSize n st = int (length (slice_content file (n - 1)))"
    using assms(1) by (intro maxSliceSize_content [OF _ assms(2) le]) (simp add: slices_inv_def)
  let ?s = "sl_data st ! ?i"
  show ?thesis
  proof (cases "s_loadingFromCache ?s")
    case False
    then show ?thesis using assms(1,3) le by (auto simp: processSliceResult_def n split: if_splits)
  next
    case True
    have fl: "slice_flags_ok ?s" by (rule slices_inv_parts(4) [OF assms(1) i])
    then have nl: "\<not> s_loadedFromCache ?s" using True by (simp add: slice_flags_ok_def)
    let ?s' = "?s\<lparr>s_parts := emplace_all (s_parts ?s) (snd (read_entry bs (maxSliceSize n st))),
      s_loadingFromCache := False, s_loadedFromCache := True\<rparr>"
    have st': "st' = st\<lparr>sl_data := (sl_data st)[?i := ?s']\<rparr>"
      using assms(2,3) le True unfolding processSliceResult_def n processCacheData_eq [OF True nl] by simp
    note old = slices_inv_parts(2) [OF assms(1) i, unfolded int_i]
    show ?thesis unfolding st'
    proof (rule data_update_inv [OF assms(1) i])
      show "parts_ok (slice_content file (int ?i)) (s_parts ?s')"
        using emplace_all_ok(1) [OF old assms(4)] unfolding int_i max by simp
      show "slice_flags_ok ?s'" using fl nl by (simp add: slice_flags_ok_def)
    qed (use slices_inv_parts(5) [OF assms(1) _ i] True in auto)
  qed
qed

lemma apply_while_inv:
  assumes "slices_inv file st" and "\<forall>p \<in> set ps. part_ok file p"
    and "apply_while predicate ps (sl_data st) = Some data"
  shows "slices_inv file (st\<lparr>sl_data := data\<rparr>) \<and> length data = length (sl_data st)
    \<and> map s_loadedFromCache data = map s_loadedFromCache (sl_data st)
    \<and> map s_loadingFromCache data = map s_loadingFromCache (sl_data st)"
  using assms
proof (induction ps arbitrary: st)
  case (Cons p ps)
  obtain a b where p: "p = (a, b)" by (cases p)
  show ?case
  proof (cases "predicate (a div kInSlice)")
    case False
    then show ?thesis using Cons.prems(1,3) by (auto simp: p Let_def)
  next
    case True
    then obtain data1 where d: "addPart_at (nat (a div kInSlice)) (a - a div kInSlice * kInSlice) b (sl_data st) = Some data1"
      and rest: "apply_while predicate ps data1 = Some data"
      using Cons.prems(3) by (auto simp: p Let_def bind_eq_Some_conv)
    have ok: "part_ok file (a, b)" using Cons.prems(2) by (simp add: p)
    note step = addPart_at_inv [OF Cons.prems(1) ok d]
    have "\<forall>q \<in> set ps. part_ok file q" using Cons.prems(2) by simp
    moreover have "apply_while predicate ps (sl_data (st\<lparr>sl_data := data1\<rparr>)) = Some data" using rest by simp
    ultimately have "slices_inv file (st\<lparr>sl_data := data1, sl_data := data\<rparr>) \<and> length data = length data1
      \<and> map s_loadedFromCache data = map s_loadedFromCache data1
      \<and> map s_loadingFromCache data = map s_loadingFromCache data1"
      using Cons.IH [OF step(1)] by simp
    then show ?thesis using step(2-4) by simp
  qed
qed auto

text \<open>The header is done from the cache or because the reader has seen enough of the file.\<close>

lemma good_not_full:
  assumes "slices_inv file st" and "\<not> isFullInHeader st"
  shows "sl_data st \<noteq> []"
proof -
  have "file \<noteq> []" and len: "int (length (sl_data st)) = slice_total file"
    using assms by (simp_all add: slices_inv_def slices_ok_def)
  then have "0 < slice_total file" using slice_total_iff [of 0 "file"] by simp
  then show ?thesis using len by auto
qed

lemma headerDone_from_cache_inv:
  assumes "slices_inv file st" and "Slices_headerDone True st = Some st'"
    and "s_parts (sl_header st) \<noteq> []" and "\<not> s_changedSinceCache (sl_header st)"
  shows "slices_inv file st'" and "sl_data st' = sl_data st" and "sl_header st' = sl_header st"
    and "sl_headerMode st \<noteq> Unknown \<Longrightarrow> st' = st"
proof -
  show "sl_headerMode st \<noteq> Unknown \<Longrightarrow> st' = st" and d: "sl_data st' = sl_data st" and "sl_header st' = sl_header st"
    using assms(2) by (auto simp: Slices_headerDone_def Let_def split: if_splits)
  show "slices_inv file st'"
  proof (cases "sl_headerMode st = Unknown")
    case True
    then obtain m where st': "st' = st\<lparr>sl_headerMode := m\<rparr>" and m: "m \<noteq> Unknown" "m \<noteq> NoCache"
      and good: "m = Good \<Longrightarrow> \<not> isFullInHeader st"
      using assms(2) by (auto simp: Slices_headerDone_def Let_def split: if_splits)
    have "m = Good \<Longrightarrow> sl_data st \<noteq> []" using good good_not_full [OF assms(1)] by blast
    then have "flags_ok st'" using assms(1,3,4) m True
      unfolding st' slices_inv_def flags_ok_def by simp
    moreover have "slices_ok file st'"
      using assms(1) unfolding st' slices_inv_def slices_ok_def isFullInHeader_def by simp
    ultimately show ?thesis by (simp add: slices_inv_def)
  next
    case False
    then show ?thesis using assms(1,2) by (simp add: Slices_headerDone_def)
  qed
qed

lemma headerDone_inv:
  assumes "slices_inv file st" and "Slices_headerDone False st = Some st'"
    and "isFullInHeader st \<or> s_parts (sl_header st) \<noteq> []"
  shows "slices_inv file st'"
proof (cases "sl_headerMode st = Unknown")
  case True
  let ?data = "map (\<lambda>s. s\<lparr>s_loadedFromCache := True\<rparr>) (sl_data st)"
  obtain m where st': "st' = st\<lparr>sl_headerMode := m, sl_data := ?data\<rparr>" and m: "m \<noteq> Unknown" "m \<noteq> NoCache"
    and good: "m = Good \<Longrightarrow> \<not> isFullInHeader st"
    using assms(2) True by (auto simp: Slices_headerDone_def Let_def split: if_splits)
  have "m = Good \<Longrightarrow> sl_data st \<noteq> []" using good good_not_full [OF assms(1)] by blast
  moreover have "\<forall>s \<in> set (sl_data st). slice_flags_ok (s\<lparr>s_loadedFromCache := True\<rparr>)"
    using assms(1) True by (auto simp: slices_inv_def flags_ok_def slice_flags_ok_def)
  ultimately show ?thesis using assms(1,3) m good True
    unfolding st' slices_inv_def slices_ok_def flags_ok_def isFullInHeader_def by (auto simp: hd_conv_nth [symmetric] hd_map)
next
  case False
  then show ?thesis using assms(1,2) by (simp add: Slices_headerDone_def)
qed

lemma headerDone_total:
  assumes "slices_inv file st"
  shows "\<exists>st'. Slices_headerDone fromCache st = Some st'"
  using assms by (auto simp: Slices_headerDone_def Let_def slices_inv_def flags_ok_def)

lemma applyHeaderCacheData_inv:
  assumes "slices_inv file st" and "applyHeaderCacheData st = Some st'"
    and "\<not> s_changedSinceCache (sl_header st) \<or> sl_headerMode st \<noteq> Unknown"
  shows "slices_inv file st'" and "sl_header st' = sl_header st"
    and "map s_loadedFromCache (sl_data st') = map s_loadedFromCache (sl_data st)"
    and "map s_loadingFromCache (sl_data st') = map s_loadingFromCache (sl_data st)"
    and "length (sl_data st') = length (sl_data st)"
proof -
  have "slices_inv file st' \<and> sl_header st' = sl_header st
    \<and> map s_loadedFromCache (sl_data st') = map s_loadedFromCache (sl_data st)
    \<and> map s_loadingFromCache (sl_data st') = map s_loadingFromCache (sl_data st)
    \<and> length (sl_data st') = length (sl_data st)"
  proof -
    have parts: "\<forall>p \<in> set (s_parts (sl_header st)). part_ok file p"
      using slices_inv_parts(1) [OF assms(1)] by (simp add: parts_ok_def)
    consider (none) "s_parts (sl_header st) = []" | (good) "s_parts (sl_header st) \<noteq> []" "sl_headerMode st = Good"
      | (other) "s_parts (sl_header st) \<noteq> []" "sl_headerMode st \<noteq> Good" "sl_headerMode st \<noteq> Unknown"
      | (full) "s_parts (sl_header st) \<noteq> []" "sl_headerMode st = Unknown" "isFullInHeader st"
      | (first) "s_parts (sl_header st) \<noteq> []" "sl_headerMode st = Unknown" "\<not> isFullInHeader st" by blast
    then show ?thesis
    proof cases
      case good
      then obtain data where "apply_while (\<lambda>index. index = 0) (s_parts (sl_header st)) (sl_data st) = Some data"
        and st': "st' = st\<lparr>sl_data := data\<rparr>"
        using assms(2) by (auto simp: applyHeaderCacheData_def Let_def)
      from apply_while_inv [OF assms(1) parts this(1)] show ?thesis by (simp add: st')
    next
      case full
      then have "Slices_headerDone True st = Some st'" using assms(2) by (simp add: applyHeaderCacheData_def Let_def)
      from headerDone_from_cache_inv [OF assms(1) this full(1)] full assms(3) show ?thesis by simp
    next
      case first
      then obtain data where d: "apply_while (\<lambda>index. index < int (length (sl_data st))) (s_parts (sl_header st)) (sl_data st) = Some data"
        and finished: "Slices_headerDone True (st\<lparr>sl_data := data\<rparr>) = Some st'"
        using assms(2) by (auto simp: applyHeaderCacheData_def Let_def bind_eq_Some_conv)
      note aw = apply_while_inv [OF assms(1) parts d]
      from headerDone_from_cache_inv [OF conjunct1 [OF aw] finished] first assms(3) aw show ?thesis by simp
    qed (use assms(1,2) in \<open>simp_all add: applyHeaderCacheData_def Let_def\<close>)
  qed
  then show "slices_inv file st'" and "sl_header st' = sl_header st"
    and "map s_loadedFromCache (sl_data st') = map s_loadedFromCache (sl_data st)"
    and "map s_loadingFromCache (sl_data st') = map s_loadingFromCache (sl_data st)"
    and "length (sl_data st') = length (sl_data st)" by blast+
qed

lemma processHeaderResult_inv:
  assumes "slices_inv file st" and "processHeaderResult bs st = Some st'" and "entry_ok file 0 bs"
  shows "slices_inv file st'"
proof -
  have size: "sl_size st = int (length file)" using assms(1) by (simp add: slices_inv_def slices_ok_def)
  have entries: "\<forall>e \<in> set (snd (read_entry bs (int (length file)))). part_ok file e"
    using assms(3) by (simp add: entry_ok_def)
  let ?h = "if isGoodHeader st then (sl_header st)\<lparr>s_loadingFromCache := True, s_loadedFromCache := False\<rparr>
    else sl_header st"
  show ?thesis
  proof (cases "isGoodHeader st \<and> \<not> s_loadingFromCache (sl_data st ! 0) \<or> \<not> s_loadingFromCache ?h")
    case True
    then show ?thesis using assms(1,2) by (auto simp: processHeaderResult_def Let_def split: if_splits)
  next
    case False
    have hl: "s_loadingFromCache ?h" "\<not> s_loadedFromCache ?h"
      using False slices_inv_parts(3) [OF assms(1)] by (auto simp: slice_flags_ok_def)
    have unchanged: "\<not> s_changedSinceCache (sl_header st)"
    proof (cases "isGoodHeader st")
      case True
      then have g: "sl_headerMode st = Good" "sl_data st \<noteq> []" using slices_inv_parts(6) [OF assms(1)]
        by (auto simp: isGoodHeader_def)
      have "slice_flags_ok (sl_data st ! 0)" using slices_inv_parts(4) [OF assms(1), of 0] g(2) by simp
      then have "\<not> s_loadedFromCache (sl_data st ! 0)" using False True by (simp add: slice_flags_ok_def)
      then show ?thesis using slices_inv_parts(6) [OF assms(1) g(1)] by blast
    next
      case False
      then show ?thesis using hl slices_inv_parts(3) [OF assms(1)] by (auto simp: slice_flags_ok_def)
    qed
    let ?h' = "?h\<lparr>s_parts := emplace_all (s_parts ?h) (snd (read_entry bs (int (length file)))),
      s_loadingFromCache := False, s_loadedFromCache := True\<rparr>"
    let ?rem = "fst (read_entry bs (int (length file)))"
    have read: "processCacheData bs (maxSliceSize 0 st) ?h = Some (?rem, ?h')"
      using processCacheData_eq [OF hl] by (simp add: maxSliceSize_def size)
    have hp: "s_parts ?h = s_parts (sl_header st)" "s_changedSinceCache ?h = s_changedSinceCache (sl_header st)" by simp_all
    note em = emplace_all_ok [OF slices_inv_parts(1) [OF assms(1)] entries]
    have inv1: "slices_inv file (st\<lparr>sl_header := ?h'\<rparr>)"
    proof (rule header_update_inv [OF assms(1)])
      show "parts_ok file (s_parts ?h')" using em(1) by simp
      show "slice_flags_ok ?h'" using unchanged by (simp add: slice_flags_ok_def)
      show "s_parts ?h' \<noteq> [] \<and> (s_changedSinceCache ?h' \<longrightarrow> s_loadedFromCache (sl_data st ! 0))"
        if "sl_headerMode st = Good"
        using slices_inv_parts(6) [OF assms(1) that] em(2) unchanged by auto
    qed simp
    obtain st1 where st1: "applyHeaderCacheData (st\<lparr>sl_header := ?h'\<rparr>) = Some st1"
      and rest: "Some st' = (if isGoodHeader st1
        then if sl_data st1 = [] then None
          else processSliceResult 1 ?rem
            (st1\<lparr>sl_data := (sl_data st1)[0 := (sl_data st1 ! 0)\<lparr>s_loadingFromCache := True\<rparr>]\<rparr>)
        else Some st1)"
      using assms(2) False unfolding processHeaderResult_def Let_def read
      by (auto split: if_splits option.splits)
    have uc: "\<not> s_changedSinceCache (sl_header (st\<lparr>sl_header := ?h'\<rparr>))
      \<or> sl_headerMode (st\<lparr>sl_header := ?h'\<rparr>) \<noteq> Unknown" using unchanged by simp
    note inv2 = applyHeaderCacheData_inv [OF inv1 st1 uc]
    show ?thesis
    proof (cases "isGoodHeader st1")
      case False
      then show ?thesis using rest inv2(1) by simp
    next
      case True
      then have g: "sl_headerMode st1 = Good" by (simp add: isGoodHeader_def)
      have ne: "sl_data st1 \<noteq> []" using slices_inv_parts(6) [OF inv2(1) g] by blast
      let ?s = "(sl_data st1 ! 0)\<lparr>s_loadingFromCache := True\<rparr>"
      have p1: "processSliceResult 1 ?rem (st1\<lparr>sl_data := (sl_data st1)[0 := ?s]\<rparr>) = Some st'"
        using rest True ne by simp
      have nl: "\<not> s_loadedFromCache (sl_data st1 ! 0)"
      proof
        assume l: "s_loadedFromCache (sl_data st1 ! 0)"
        have "processSliceResult 1 ?rem (st1\<lparr>sl_data := (sl_data st1)[0 := ?s]\<rparr>) = None"
          using ne l by (simp add: processSliceResult_def slice_of_def processCacheData_def)
        with p1 show False by simp
      qed
      have zero: "0 < length (sl_data st1)" using ne by simp
      have fl: "slice_flags_ok (sl_data st1 ! 0)" by (rule slices_inv_parts(4) [OF inv2(1) zero])
      have inv3: "slices_inv file (st1\<lparr>sl_data := (sl_data st1)[0 := ?s]\<rparr>)"
      proof (rule data_update_inv [OF inv2(1) zero])
        show "parts_ok (slice_content file (int 0)) (s_parts ?s)"
          using slices_inv_parts(2) [OF inv2(1) zero] by simp
        show "slice_flags_ok ?s" using fl nl by (simp add: slice_flags_ok_def)
        show "s_loadedFromCache ?s" if "s_changedSinceCache (sl_header st1)"
          using slices_inv_parts(6) [OF inv2(1) g] that nl by simp
      qed (use g in simp)
      have "\<not> isFullInHeader st1"
        using inv2(1) ne by (auto simp: slices_inv_def slices_ok_def)
      then have "kMaxOnlyInHeader < int (length file)"
        using inv2(1) by (simp add: isFullInHeader_def slices_inv_def slices_ok_def)
      then have "\<forall>e \<in> set (snd (read_entry ?rem (int (length (slice_content file 0))))). part_ok (slice_content file 0) e"
        using assms(3) by (simp add: entry_ok_def)
      then show ?thesis using processSliceResult_inv [OF inv3 _ p1] by simp
    qed
  qed
qed

lemma processCacheResult_inv:
  assumes "slices_inv file st" and "processCacheResult n bs st = Some st'" and "entry_ok file n bs"
  shows "slices_inv file st'"
proof (cases "n = 0")
  case True
  then show ?thesis using assms processHeaderResult_inv by (simp add: processCacheResult_def)
next
  case False
  then have p: "processSliceResult n bs st = Some st'" using assms(2) by (simp add: processCacheResult_def)
  then have "1 \<le> n" using False by (auto simp: processSliceResult_def split: if_splits)
  then show ?thesis using processSliceResult_inv [OF assms(1) _ p] assms(3) False by (simp add: entry_ok_def)
qed

end
