(* ===== verification/StreamingFill.thy ===== *)
theory StreamingFill
  imports StreamingInvariant
begin

text \<open>
  Unloading slices to the cache and filling buffers: both always succeed on a state of the
  invariant and keep it, what is unloaded is a cache entry that is read back as the parts it
  was made of, and a filled buffer holds the bytes of the file.
\<close>

section \<open>Erasing the parts of the header\<close>

lemma removeAll_parts:
  assumes "sorted_wrt (<) (keys (xs :: (int \<times> 'v) list))"
  shows "sorted_wrt (<) (keys (fst (flat_multi_map_removeAll (<) k xs)))"
    and "set (fst (flat_multi_map_removeAll (<) k xs)) = {p \<in> set xs. fst p \<noteq> k}"
proof -
  let ?l = "flat_map_getLowerBound (<) k xs" and ?u = "flat_map_getUpperBound (<) k xs"
  have below: "fst p < k" if "p \<in> set (take ?l xs)" for p
  proof (rule lin.lower_bound_prefix)
    show "fst p \<in> set (take (lower_bound (<) (keys xs) k) (keys xs))"
      using that by (auto simp: map_lower_bound take_map)
  qed
  have from_l: "\<not> fst p < k" if "p \<in> set (drop ?l xs)" for p
  proof (rule lin.lower_bound_suffix [OF lin.sorted_weaken [OF assms]])
    show "fst p \<in> set (drop (lower_bound (<) (keys xs) k) (keys xs))"
      using that by (auto simp: map_lower_bound drop_map)
  qed
  have to_u: "\<not> k < fst p" if "p \<in> set (take ?u xs)" for p
  proof (rule lin.upper_bound_prefix)
    show "fst p \<in> set (take (upper_bound (<) (keys xs) k) (keys xs))"
      using that by (auto simp: map_upper_bound take_map)
  qed
  have above: "k < fst p" if "p \<in> set (drop ?u xs)" for p
  proof (rule lin.upper_bound_suffix [OF lin.sorted_weaken [OF assms]])
    show "fst p \<in> set (drop (upper_bound (<) (keys xs) k) (keys xs))"
      using that by (auto simp: map_upper_bound drop_map)
  qed
  have split: "p \<in> set (take n xs) \<or> p \<in> set (drop n xs)" if "p \<in> set xs" for p n
    using that by (metis Un_iff append_take_drop_id set_append)
  have erased: "set (erase_range ?l ?u xs) = {p \<in> set xs. fst p \<noteq> k}"
  proof
    show "set (erase_range ?l ?u xs) \<subseteq> {p \<in> set xs. fst p \<noteq> k}"
      using below above by (fastforce simp: erase_range_def dest: in_set_takeD in_set_dropD)
    show "{p \<in> set xs. fst p \<noteq> k} \<subseteq> set (erase_range ?l ?u xs)"
    proof
      fix p assume "p \<in> {p \<in> set xs. fst p \<noteq> k}"
      then have "p \<in> set xs" "fst p < k \<or> k < fst p" by auto
      then show "p \<in> set (erase_range ?l ?u xs)"
        using split [of p ?l] split [of p ?u] from_l [of p] to_u [of p] by (auto simp: erase_range_def)
    qed
  qed
  have out: "\<forall>p \<in> set xs. fst p \<noteq> k" if "flat_map_out_of_range (<) k xs"
  proof (cases "xs = []")
    case False
    have "fst (hd xs) \<le> fst p \<and> fst p \<le> fst (last xs)" if "p \<in> set xs" for p
    proof
      show "fst (hd xs) \<le> fst p" using that assms False by (cases xs) auto
      have xs: "butlast xs @ [last xs] = xs" using False by simp
      then have "sorted_wrt (<) (keys (butlast xs @ [last xs]))" using assms by (simp only:)
      then have "\<forall>q \<in> set (butlast xs). fst q < fst (last xs)" by (simp add: sorted_wrt_append)
      moreover have "p \<in> set (butlast xs) \<or> p = last xs"
        using that xs by (metis Un_iff empty_iff list.set(1) set_ConsD set_append)
      ultimately show "fst p \<le> fst (last xs)" by force
    qed
    then show ?thesis using that False by (force simp: flat_map_out_of_range_def)
  qed simp
  have "sorted_wrt (<) (keys (erase_range ?l ?u xs))"
    unfolding erase_range_def map_append sorted_wrt_append
  proof (intro conjI ballI)
    show "sorted_wrt (<) (keys (take ?l xs))" using assms by (metis sorted_wrt_take take_map)
    show "sorted_wrt (<) (keys (drop ?u xs))" using assms by (metis sorted_wrt_drop drop_map)
    fix x y assume "x \<in> set (keys (take ?l xs))" "y \<in> set (keys (drop ?u xs))"
    then show "x < y" using below above by force
  qed
  then show "sorted_wrt (<) (keys (fst (flat_multi_map_removeAll (<) k xs)))"
    using assms by (simp add: flat_multi_map_removeAll_def flat_map_getEqualRange_def)
  show "set (fst (flat_multi_map_removeAll (<) k xs)) = {p \<in> set xs. fst p \<noteq> k}"
  proof (cases "flat_map_out_of_range (<) k xs")
    case True
    then show ?thesis using out by (auto simp: flat_multi_map_removeAll_def)
  next
    case False
    have "fst (flat_multi_map_removeAll (<) k xs) = (if ?l = ?u then xs else erase_range ?l ?u xs)"
      using False by (simp add: flat_multi_map_removeAll_def flat_map_getEqualRange_def)
    moreover have "erase_range ?l ?u xs = xs" if "?l = ?u" using that by (simp add: erase_range_def)
    ultimately show ?thesis using erased by (cases "?l = ?u") simp_all
  qed
qed

lemma erase_parts_ok:
  assumes "parts_ok c ps"
  shows "parts_ok c (erase_parts hs ps)"
    and "set (erase_parts hs ps) = {p \<in> set ps. fst p \<notin> set (keys hs)}"
proof -
  have "parts_ok c (erase_parts hs ps) \<and> set (erase_parts hs ps) = {p \<in> set ps. fst p \<notin> set (keys hs)}"
    using assms
  proof (induction hs arbitrary: ps)
    case Nil
    then show ?case by (simp add: erase_parts_def)
  next
    case (Cons h hs)
    let ?ps = "fst (flat_multi_map_removeAll (<) (fst h) ps)"
    have "sorted_wrt (<) (keys ps)" using Cons.prems by (simp add: parts_ok_def)
    note r = removeAll_parts [OF this, of "fst h"]
    have "parts_ok c ?ps" using Cons.prems r by (auto simp: parts_ok_def)
    from Cons.IH [OF this] show ?case by (auto simp: erase_parts_def r(2))
  qed
  then show "parts_ok c (erase_parts hs ps)"
    and "set (erase_parts hs ps) = {p \<in> set ps. fst p \<notin> set (keys hs)}" by blast+
qed

section \<open>Sizes of cache entries\<close>

text \<open>A slice of a whole number of parts has full parts, and at most 64 of them.\<close>

lemma full_slice_parts:
  assumes "parts_ok c ps" and "int (length c) = kInSlice"
  shows "length ps \<le> 64" and "\<forall>p \<in> set ps. int (length (snd p)) = kPartSize"
proof -
  show "\<forall>p \<in> set ps. int (length (snd p)) = kPartSize"
  proof
    fix p assume "p \<in> set ps"
    then have ok: "part_ok c (fst p, snd p)" using assms(1) by (simp add: parts_ok_def)
    then have "fst p + kPartSize \<le> kInSlice"
      using multiple_apart [of "fst p" kInSlice] assms(2) by (simp add: part_ok_def)
    then show "int (length (snd p)) = kPartSize" using part_end [OF ok] assms(2) by simp
  qed
  have "distinct (keys ps)" using assms(1) by (simp add: parts_ok_def lin.sorted_distinct)
  then have "length ps = card (set (keys ps))" by (metis distinct_card length_map)
  also have "\<dots> \<le> card ((\<lambda>i. int i * kPartSize) ` {0..<64 :: nat})"
  proof (rule card_mono)
    show "set (keys ps) \<subseteq> (\<lambda>i. int i * kPartSize) ` {0..<64}"
    proof
      fix a assume "a \<in> set (keys ps)"
      then have a: "0 \<le> a" "a mod kPartSize = 0" "a < 64 * kPartSize"
        using assms by (auto simp: parts_ok_def part_ok_def kInSlice_value)
      have "a = a div kPartSize * kPartSize" using a(2) by (metis add.right_neutral div_mult_mod_eq)
      moreover from this have "a div kPartSize < 64" using a(3) by (metis kPartSize_pos(1) mult_less_cancel_right_pos)
      moreover have "0 \<le> a div kPartSize" using a(1) by (simp add: pos_imp_zdiv_nonneg_iff)
      ultimately show "a \<in> (\<lambda>i. int i * kPartSize) ` {0..<64}"
        by (intro image_eqI [of _ _ "nat (a div kPartSize)"]) auto
    qed
  qed simp
  also have "\<dots> \<le> 64" using card_image_le [of "{0..<64 :: nat}" "\<lambda>i. int i * kPartSize"] by simp
  finally show "length ps \<le> 64" .
qed

lemma complex_size:
  assumes "\<forall>p \<in> set (s_parts s). int (length (snd p)) = kPartSize"
  shows "int (length (serializeComplexSlice s)) = 4 + 8 * int (length (s_parts s)) + int (length (s_parts s)) * kPartSize"
proof -
  have "int (length (concat (map write_part ps))) = 8 * int (length ps) + int (length ps) * kPartSize"
    if "\<forall>p \<in> set ps. int (length (snd p)) = kPartSize" for ps
    using that by (induction ps) (simp_all add: write_part_def distrib_right)
  from this [OF assms] show ?thesis by (simp add: serializeComplexSlice_eq)
qed

text \<open>So the part of a good header's entry for the first slice is never taken for contiguous data.\<close>

lemma first_slice_not_contiguous:
  assumes "parts_ok c (s_parts s)" and "int (length c) = kInSlice" and "j \<le> 2"
  shows "\<not> IsContiguousSerialization (int (length (serializeComplexSlice s @ replicate j 0))) kInSlice"
proof -
  note full = full_slice_parts [OF assms(1,2)]
  let ?n = "int (length (s_parts s))"
  have n: "0 \<le> ?n" "?n \<le> 64" using full(1) by simp_all
  have len: "int (length (serializeComplexSlice s @ replicate j 0)) = (4 + 8 * ?n + int j) + ?n * kPartSize"
    using complex_size [OF full(2)] by simp
  have small: "0 < 4 + 8 * ?n + int j" "4 + 8 * ?n + int j < kPartSize"
    using n assms(3) by (simp_all add: kPartSize_def)
  have "((4 + 8 * ?n + int j) + ?n * kPartSize) mod kPartSize = 4 + 8 * ?n + int j"
    using small by simp
  then have "int (length (serializeComplexSlice s @ replicate j 0)) mod kPartSize \<noteq> 0"
    using small(1) unfolding len by linarith
  then show ?thesis unfolding IsContiguousSerialization_def using kInSlice_facts(4) by metis
qed

lemma read_zeros:
  assumes "j \<le> 2" and "2 < m"
  shows "snd (read_entry (replicate j 0) m) = []"
proof -
  have "contiguous_entries [] 0 = []" by (simp add: contiguous_entries.simps)
  moreover have "\<not> IsContiguousSerialization (int j) m" if "0 < j"
    using that assms by (simp add: IsContiguousSerialization_def kPartSize_def)
  ultimately show ?thesis using assms by (cases "j = 0") (simp_all add: read_entry_def takeInt_def)
qed

section \<open>Unloading one slice\<close>

definition unload_target :: "int \<Rightarrow> Slices \<Rightarrow> int" where
  "unload_target n st = (if isGoodHeader st \<and> n = 1 then 0 else n)"

definition target_content :: "byte_array \<Rightarrow> int \<Rightarrow> byte_array" where
  "target_content file t = (if t = 0 then file else slice_content file (t - 1))"

lemma target_facts:
  assumes "slices_inv file st" and "0 \<le> t" and "t \<le> int (length (sl_data st))"
  shows "parts_ok (target_content file t) (s_parts (slice_of t st))"
    and "maxSliceSize t st = int (length (target_content file t))"
    and "length (target_content file t) \<le> length file"
proof -
  have ok: "slices_ok file st" using assms(1) by (simp add: slices_inv_def)
  show "maxSliceSize t st = int (length (target_content file t))"
  proof (cases "t = 0")
    case True
    then show ?thesis using ok by (simp add: maxSliceSize_def target_content_def slices_ok_def)
  next
    case False
    then show ?thesis using maxSliceSize_content [OF ok] assms(2,3) by (simp add: target_content_def)
  qed
  show "length (target_content file t) \<le> length file"
    by (auto simp: target_content_def slice_content_def segment_def intro: min.coboundedI1)
  show "parts_ok (target_content file t) (s_parts (slice_of t st))"
  proof (cases "t = 0")
    case True
    then show ?thesis using slices_inv_parts(1) [OF assms(1)] by (simp add: target_content_def slice_of_def)
  next
    case False
    then have "nat (t - 1) < length (sl_data st)" "int (nat (t - 1)) = t - 1" using assms(2,3) by linarith+
    then show ?thesis using slices_inv_parts(2) [OF assms(1), of "nat (t - 1)"] False
      by (simp add: target_content_def slice_of_def)
  qed
qed

text \<open>The entry of one slice alone.\<close>

definition single_entry :: "int \<Rightarrow> Slice \<Rightarrow> byte_array" where
  "single_entry maxSize s =
     (if fst (last (s_parts s)) < FindNotLoadedStart (s_parts s) 0 then concat (map snd (s_parts s))
      else pad_serialization maxSize (serializeComplexSlice s))"

lemma single_entry_read:
  assumes "parts_ok c (s_parts s)" and "s_parts s \<noteq> []" and "int (length c) < 2 ^ 31"
  shows "\<exists>j \<le> 2. read_entry (single_entry (int (length c)) s) (int (length c)) = (replicate j 0, s_parts s)"
proof (cases "fst (last (s_parts s)) < FindNotLoadedStart (s_parts s) 0")
  case True
  then have "read_entry (single_entry (int (length c)) s) (int (length c)) = (replicate 0 0, s_parts s)"
    using contiguous_roundtrip [OF assms(1,2)] by (simp add: single_entry_def)
  then show ?thesis by blast
next
  case False
  obtain j where j: "j \<le> 2"
    and e: "pad_serialization (int (length c)) (serializeComplexSlice s) = serializeComplexSlice s @ replicate j 0"
    using pad_spec(2) by blast
  have "\<not> IsContiguousSerialization (int (length (serializeComplexSlice s @ replicate j 0))) (int (length c))"
    unfolding e [symmetric] by (rule pad_spec(1))
  from complex_roundtrip [OF assms(1,3) this] show ?thesis using j False by (auto simp: single_entry_def e)
qed

lemma header_unchanged_inv:
  assumes "slices_inv file st"
  shows "slices_inv file (st\<lparr>sl_header := (sl_header st)\<lparr>s_changedSinceCache := False\<rparr>\<rparr>)"
proof (rule header_update_inv [OF assms])
  show "parts_ok file (s_parts ((sl_header st)\<lparr>s_changedSinceCache := False\<rparr>))"
    using slices_inv_parts(1) [OF assms] by simp
  show "slice_flags_ok ((sl_header st)\<lparr>s_changedSinceCache := False\<rparr>)"
    using slices_inv_parts(3) [OF assms] by (simp add: slice_flags_ok_def)
  show "sl_headerMode st = NoCache \<or> s_loadedFromCache ((sl_header st)\<lparr>s_changedSinceCache := False\<rparr>)
      \<or> s_loadingFromCache ((sl_header st)\<lparr>s_changedSinceCache := False\<rparr>)"
    using assms by (simp add: slices_inv_def flags_ok_def)
qed (use slices_inv_parts(6) [OF assms] in simp)

lemma Slice_new_facts [simp]:
  "s_parts Slice_new = []" "\<not> s_loadingFromCache Slice_new" "\<not> s_loadedFromCache Slice_new"
  "\<not> s_changedSinceCache Slice_new" "slice_flags_ok Slice_new" "parts_ok c []"
  by (simp_all add: Slice_new_def slice_flags_ok_def parts_ok_def)

lemma content_zero:
  assumes "slices_inv file st" and "sl_data st \<noteq> []"
  shows "int (length (slice_content file 0)) = kInSlice" and "kMaxOnlyInHeader < int (length file)"
proof -
  have ok: "slices_ok file st" using assms(1) by (simp add: slices_inv_def)
  then have "\<not> isFullInHeader st" using assms(2) by (auto simp: slices_ok_def)
  then show l: "kMaxOnlyInHeader < int (length file)" using ok by (simp add: isFullInHeader_def slices_ok_def)
  have "file \<noteq> []" using ok by (simp add: slices_ok_def)
  then have "0 < slice_total file" using slice_total_iff [of 0 "file"] by simp
  then show "int (length (slice_content file 0)) = kInSlice"
    using length_slice_content [of 0 "file"] l by (simp add: kMaxOnlyInHeader_def kInSlice_value kPartSize_def)
qed

lemma serialize_single:
  assumes inv: "slices_inv file st" and small: "int (length file) < 2 ^ 31"
    and mode: "sl_headerMode st \<noteq> Unknown" "sl_headerMode st \<noteq> NoCache"
    and n: "0 \<le> n" "n \<le> int (length (sl_data st))" and t: "t = unload_target n st"
    and alone: "\<not> (isGoodHeader st \<and> t = 0)" and ne: "s_parts (slice_of t st) \<noteq> []"
  defines "data \<equiv> single_entry (maxSliceSize t st) (slice_of t st)"
    and "st' \<equiv> (if t \<noteq> 0 then put_slice t Slice_new st
      else st\<lparr>sl_header := (sl_header st)\<lparr>s_changedSinceCache := False\<rparr>\<rparr>)"
  shows "serializeAndUnloadSlice n st = Some (\<lparr>ser_number = t, ser_data = data\<rparr>, st')"
    and "slices_inv file st'" and "entry_ok file t data"
    and "\<exists>j \<le> 2. read_entry data (maxSliceSize t st) = (replicate j 0, s_parts (slice_of t st))"
proof -
  have t0: "0 \<le> t" "t \<le> int (length (sl_data st))" using n t by (auto simp: unload_target_def split: if_splits)
  note f = target_facts [OF inv t0]
  have tn: "t = n" using t alone by (auto simp: unload_target_def split: if_splits)
  show "serializeAndUnloadSlice n st = Some (\<lparr>ser_number = t, ser_data = data\<rparr>, st')"
    using mode n alone ne t tn
    by (auto simp: serializeAndUnloadSlice_def Let_def unload_target_def data_def st'_def single_entry_def)
  show inv': "slices_inv file st'"
  proof (cases "t = 0")
    case True
    then show ?thesis using header_unchanged_inv [OF inv] by (simp add: st'_def)
  next
    case False
    then have i: "nat (t - 1) < length (sl_data st)" using t0 by linarith
    have "slices_inv file (st\<lparr>sl_data := (sl_data st)[nat (t - 1) := Slice_new]\<rparr>)"
    proof (rule data_update_inv [OF inv i])
      assume "sl_headerMode st = Good" "nat (t - 1) = 0"
      then have "t \<noteq> 1" using t by (auto simp: unload_target_def isGoodHeader_def split: if_splits)
      with \<open>nat (t - 1) = 0\<close> False t0(1) show "s_loadedFromCache Slice_new" by linarith
    qed simp_all
    then show ?thesis using False by (simp add: st'_def put_slice_def)
  qed
  have "int (length (target_content file t)) < 2 ^ 31" using f(3) small by linarith
  from single_entry_read [OF f(1) ne this]
  obtain j where j: "j \<le> 2" and read: "read_entry data (maxSliceSize t st) = (replicate j 0, s_parts (slice_of t st))"
    unfolding data_def f(2) by blast
  then show "\<exists>j \<le> 2. read_entry data (maxSliceSize t st) = (replicate j 0, s_parts (slice_of t st))" by blast
  show "entry_ok file t data"
  proof (cases "t = 0")
    case False
    then show ?thesis using read f(1) unfolding f(2) by (simp add: entry_ok_def target_content_def parts_ok_def)
  next
    case True
    have "snd (read_entry (replicate j 0) (int (length (slice_content file 0)))) = []" if "kMaxOnlyInHeader < int (length file)"
    proof -
      have "\<not> isFullInHeader st" using inv that by (simp add: isFullInHeader_def slices_inv_def slices_ok_def)
      then have "sl_data st \<noteq> []" by (rule good_not_full [OF inv])
      then show ?thesis using content_zero(1) [OF inv] read_zeros [OF j] by (simp add: kInSlice_value kPartSize_def)
    qed
    then show ?thesis using read f(1) True unfolding f(2) by (simp add: entry_ok_def target_content_def parts_ok_def)
  qed
qed

lemma serialize_good:
  assumes inv: "slices_inv file st" and small: "int (length file) < 2 ^ 31"
    and good: "isGoodHeader st" and n: "n = 0 \<or> n = 1" and loaded: "s_loadedFromCache (sl_data st ! 0)"
  defines "first \<equiv> (sl_data st ! 0)\<lparr>s_parts := erase_parts (s_parts (sl_header st)) (s_parts (sl_data st ! 0))\<rparr>"
  defines "data \<equiv> pad_serialization (sl_size st) (serializeComplexSlice (sl_header st) @ serializeComplexSlice first)"
    and "st' \<equiv> st\<lparr>sl_data := (sl_data st)[0 := Slice_new],
      sl_header := (sl_header st)\<lparr>s_changedSinceCache := False\<rparr>\<rparr>"
  shows "serializeAndUnloadSlice n st = Some (\<lparr>ser_number = 0, ser_data = data\<rparr>, st')"
    and "slices_inv file st'" and "entry_ok file 0 data"
    and "\<exists>j \<le> 2. \<exists>rest. read_entry data (int (length file)) = (rest, s_parts (sl_header st))
      \<and> read_entry rest (int (length (slice_content file 0))) = (replicate j 0, s_parts first)"
proof -
  have mode: "sl_headerMode st = Good" using good by (simp add: isGoodHeader_def)
  note g = slices_inv_parts(6) [OF inv mode]
  have zero: "0 < length (sl_data st)" using g by simp
  have size: "sl_size st = int (length file)" using inv by (simp add: slices_inv_def slices_ok_def)
  note c0 = content_zero [OF inv conjunct1 [OF g]]
  have first_ok: "parts_ok (slice_content file 0) (s_parts first)"
    using erase_parts_ok(1) [OF slices_inv_parts(2) [OF inv zero]] by (simp add: first_def)
  have header_ok: "parts_ok file (s_parts (sl_header st))" by (rule slices_inv_parts(1) [OF inv])
  have first_key: "\<not> fst (last (s_parts (sl_header st))) < 0"
  proof -
    have "last (s_parts (sl_header st)) \<in> set (s_parts (sl_header st))" using g by simp
    then show ?thesis using header_ok by (auto simp: parts_ok_def part_ok_def)
  qed
  have len1: "1 \<le> int (length (sl_data st))" using zero by linarith
  show "serializeAndUnloadSlice n st = Some (\<lparr>ser_number = 0, ser_data = data\<rparr>, st')"
    using n good mode g loaded first_key len1
    by (auto simp: serializeAndUnloadSlice_def Let_def slice_of_def isGoodHeader_def
        serializeAndUnloadFirstSliceNoHeader_def maxSliceSize_def data_def st'_def first_def)
  show "slices_inv file st'"
  proof -
    note h = header_unchanged_inv [OF inv]
    have "slices_inv file (st\<lparr>sl_header := (sl_header st)\<lparr>s_changedSinceCache := False\<rparr>,
      sl_data := (sl_data (st\<lparr>sl_header := (sl_header st)\<lparr>s_changedSinceCache := False\<rparr>\<rparr>))[0 := Slice_new]\<rparr>)"
      by (rule data_update_inv [OF h]) (use zero mode in simp_all)
    moreover have "st' = st\<lparr>sl_header := (sl_header st)\<lparr>s_changedSinceCache := False\<rparr>,
      sl_data := (sl_data (st\<lparr>sl_header := (sl_header st)\<lparr>s_changedSinceCache := False\<rparr>\<rparr>))[0 := Slice_new]\<rparr>"
      unfolding st'_def by (rule Slices.equality) simp_all
    ultimately show ?thesis by simp
  qed
  obtain j where j: "j \<le> 2"
    and e: "data = (serializeComplexSlice (sl_header st) @ serializeComplexSlice first) @ replicate j 0"
    using pad_spec(2) unfolding data_def by blast
  have "\<not> IsContiguousSerialization (int (length data)) (int (length file))"
    unfolding data_def size by (rule pad_spec(1))
  then have nc: "\<not> IsContiguousSerialization
      (int (length (serializeComplexSlice (sl_header st) @ serializeComplexSlice first @ replicate j 0))) (int (length file))"
    by (simp add: e)
  have r1: "read_entry data (int (length file)) = (serializeComplexSlice first @ replicate j 0, s_parts (sl_header st))"
    using complex_roundtrip [OF header_ok small nc] by (simp add: e)
  have small0: "int (length (slice_content file 0)) < 2 ^ 31" using c0(1) by (simp add: kInSlice_value kPartSize_def)
  have nc0: "\<not> IsContiguousSerialization (int (length (serializeComplexSlice first @ replicate j 0)))
      (int (length (slice_content file 0)))"
    using first_slice_not_contiguous [OF first_ok c0(1) j] c0(1) by simp
  have r2: "read_entry (serializeComplexSlice first @ replicate j 0) (int (length (slice_content file 0))) =
      (replicate j 0, s_parts first)"
    by (rule complex_roundtrip [OF first_ok small0 nc0])
  show "\<exists>j \<le> 2. \<exists>rest. read_entry data (int (length file)) = (rest, s_parts (sl_header st))
      \<and> read_entry rest (int (length (slice_content file 0))) = (replicate j 0, s_parts first)"
    using j r1 r2 by blast
  show "entry_ok file 0 data"
    using r1 r2 header_ok first_ok by (simp add: entry_ok_def parts_ok_def)
qed

section \<open>Unloading always succeeds\<close>

definition ser_ok :: "byte_array \<Rightarrow> SerializedSlice \<Rightarrow> bool" where
  "ser_ok file ser \<longleftrightarrow> ser_number ser = -1 \<or> 0 \<le> ser_number ser \<and> entry_ok file (ser_number ser) (ser_data ser)"

lemma serialize_ok:
  assumes inv: "slices_inv file st" and small: "int (length file) < 2 ^ 31"
    and mode: "sl_headerMode st \<noteq> Unknown" "sl_headerMode st \<noteq> NoCache"
    and n: "0 \<le> n" "n \<le> int (length (sl_data st))"
    and ne: "s_parts (slice_of (unload_target n st) st) \<noteq> []"
    and loaded: "isGoodHeader st \<Longrightarrow> unload_target n st = 0 \<Longrightarrow> s_loadedFromCache (sl_data st ! 0)"
  shows "\<exists>ser st'. serializeAndUnloadSlice n st = Some (ser, st') \<and> slices_inv file st' \<and> ser_ok file ser
    \<and> length (sl_data st') = length (sl_data st)"
proof (cases "isGoodHeader st \<and> unload_target n st = 0")
  case True
  then have "n = 0 \<or> n = 1" by (auto simp: unload_target_def split: if_splits)
  note g = serialize_good [OF inv small conjunct1 [OF True] this]
  show ?thesis using g(1-3) True loaded by (auto simp: ser_ok_def)
next
  case False
  note g = serialize_single [OF inv small mode n refl False ne]
  have "0 \<le> unload_target n st" using n by (simp add: unload_target_def)
  then show ?thesis using g(1-3) by (auto simp: ser_ok_def put_slice_def)
qed

lemma used_update_inv:
  "slices_inv file st \<Longrightarrow> \<forall>u \<in> set us. 0 \<le> u \<and> u < int (length (sl_data st)) \<Longrightarrow>
    slices_inv file (st\<lparr>sl_usedSlices := us\<rparr>)"
  by (simp add: slices_inv_def slices_ok_def flags_ok_def isFullInHeader_def)

lemma used_in_range:
  "slices_inv file st \<Longrightarrow> u \<in> set (sl_usedSlices st) \<Longrightarrow> 0 \<le> u \<and> u < int (length (sl_data st))"
  by (simp add: slices_inv_def flags_ok_def)

lemma markSliceUsed_inv:
  assumes "slices_inv file st" and "0 \<le> i" and "i < int (length (sl_data st))"
  shows "slices_inv file (markSliceUsed i st)" and "sl_data (markSliceUsed i st) = sl_data st"
    and "sl_header (markSliceUsed i st) = sl_header st" and "sl_headerMode (markSliceUsed i st) = sl_headerMode st"
proof -
  show "sl_data (markSliceUsed i st) = sl_data st" and "sl_header (markSliceUsed i st) = sl_header st"
    and "sl_headerMode (markSliceUsed i st) = sl_headerMode st"
    by (simp_all add: markSliceUsed_def Let_def)
  let ?p = "partition_point (\<lambda>x. x \<noteq> i) (sl_usedSlices st)"
  have at: "?p \<noteq> length (sl_usedSlices st) \<Longrightarrow> sl_usedSlices st ! ?p \<in> set (sl_usedSlices st)"
    using partition_point_le [of "\<lambda>x. x \<noteq> i" "sl_usedSlices st"] by (metis le_neq_implies_less nth_mem)
  have "set (sl_usedSlices (markSliceUsed i st)) \<subseteq> insert i (set (sl_usedSlices st))"
    using at
    by (auto simp: markSliceUsed_def Let_def dest: in_set_takeD in_set_dropD)
  then have "\<forall>u \<in> set (sl_usedSlices (markSliceUsed i st)). 0 \<le> u \<and> u < int (length (sl_data st))"
    using used_in_range [OF assms(1)] assms(2,3) by blast
  moreover have "markSliceUsed i st = st\<lparr>sl_usedSlices := sl_usedSlices (markSliceUsed i st)\<rparr>"
    by (rule Slices.equality) (simp_all add: markSliceUsed_def Let_def)
  ultimately show "slices_inv file (markSliceUsed i st)" using used_update_inv [OF assms(1)] by metis
qed

lemma unused_ok:
  assumes inv: "slices_inv file st" and small: "int (length file) < 2 ^ 31"
  shows "\<exists>ser st'. serializeAndUnloadUnused st = Some (ser, st') \<and> slices_inv file st' \<and> ser_ok file ser"
proof (cases "sl_headerMode st = Unknown \<or> length (sl_usedSlices st) \<le> kSlicesInMemory")
  case True
  then show ?thesis using inv by (simp add: serializeAndUnloadUnused_def ser_ok_def SerializedSlice_new_def)
next
  case False
  then obtain u us where used: "sl_usedSlices st = u # us" by (cases "sl_usedSlices st") auto
  have u: "0 \<le> u" "u < int (length (sl_data st))" using used_in_range [OF inv, of u] used by simp_all
  have i: "nat u < length (sl_data st)" "int (nat u) = u" using u by linarith+
  let ?st1 = "st\<lparr>sl_usedSlices := us\<rparr>"
  have inv1: "slices_inv file ?st1"
    by (rule used_update_inv [OF inv]) (use used_in_range [OF inv] used in simp)
  let ?s = "sl_data st ! nat u"
  show ?thesis
  proof (cases "s_loadedFromCache ?s")
    case False
    then show ?thesis using \<open>\<not> (sl_headerMode st = Unknown \<or> _)\<close> used u inv1
      by (simp add: serializeAndUnloadUnused_def ser_ok_def SerializedSlice_new_def)
  next
    case loaded: True
    let ?drop = "if sl_headerMode st = NoCache then True
      else if \<not> s_changedSinceCache ?s
      then \<not> isGoodHeader st \<or> 0 < u \<or> \<not> s_changedSinceCache (sl_header st) else False"
    have eq: "serializeAndUnloadUnused st = (if ?drop
      then Some (SerializedSlice_new, ?st1\<lparr>sl_data := (sl_data ?st1)[nat u := Slice_new]\<rparr>)
      else serializeAndUnloadSlice (u + 1) ?st1)"
      using \<open>\<not> (sl_headerMode st = Unknown \<or> _)\<close> used u loaded
      by (auto simp: serializeAndUnloadUnused_def isGoodHeader_def Let_def)
    show ?thesis
    proof (cases ?drop)
      case True
      have "slices_inv file (?st1\<lparr>sl_data := (sl_data ?st1)[nat u := Slice_new]\<rparr>)"
      proof (rule data_update_inv [OF inv1])
        show "s_loadedFromCache Slice_new" if "sl_headerMode ?st1 = Good" "nat u = 0" "s_changedSinceCache (sl_header ?st1)"
        proof -
          have "u = 0" using that(2) u(1) by linarith
          then have "s_changedSinceCache ?s"
            using True that by (auto simp: isGoodHeader_def split: if_splits)
          then show ?thesis using True that \<open>u = 0\<close> by (simp add: isGoodHeader_def)
        qed
      qed (use i in simp_all)
      moreover have "serializeAndUnloadUnused st =
          Some (SerializedSlice_new, ?st1\<lparr>sl_data := (sl_data ?st1)[nat u := Slice_new]\<rparr>)"
        unfolding eq using True by (rule if_P)
      ultimately show ?thesis by (auto simp: ser_ok_def SerializedSlice_new_def)
    next
      case keep: False
      have mode: "sl_headerMode ?st1 \<noteq> Unknown" "sl_headerMode ?st1 \<noteq> NoCache"
        using keep \<open>\<not> (sl_headerMode st = Unknown \<or> _)\<close> by auto
      have ne: "s_parts (slice_of (unload_target (u + 1) ?st1) ?st1) \<noteq> []"
      proof (cases "isGoodHeader st \<and> u = 0")
        case True
        then show ?thesis using slices_inv_parts(6) [OF inv]
          by (simp add: unload_target_def slice_of_def isGoodHeader_def)
      next
        case False
        then have "s_changedSinceCache ?s" using keep u(1) by (auto split: if_splits)
        then have "s_parts ?s \<noteq> []"
          using slices_inv_parts(4) [OF inv i(1)] by (simp add: slice_flags_ok_def)
        then show ?thesis using False u(1) by (auto simp: unload_target_def slice_of_def isGoodHeader_def)
      qed
      have ld: "s_loadedFromCache (sl_data ?st1 ! 0)" if "isGoodHeader ?st1" "unload_target (u + 1) ?st1 = 0"
        using that u(1) loaded by (auto simp: unload_target_def split: if_splits)
      have bounds: "0 \<le> u + 1" "u + 1 \<le> int (length (sl_data ?st1))" using u by simp_all
      have "\<exists>ser st'. serializeAndUnloadSlice (u + 1) ?st1 = Some (ser, st') \<and> slices_inv file st' \<and> ser_ok file ser
        \<and> length (sl_data st') = length (sl_data ?st1)"
        by (rule serialize_ok [OF inv1 small mode bounds ne ld])
      then show ?thesis unfolding eq using keep by (simp only: if_False) blast
    qed
  qed
qed

lemma unload_ok:
  assumes inv: "slices_inv file st" and small: "int (length file) < 2 ^ 31"
  shows "\<exists>ser st'. unloadToCache st = Some (ser, st') \<and> slices_inv file st' \<and> ser_ok file ser"
proof (cases "sl_headerMode st = Unknown \<or> sl_headerMode st = NoCache")
  case True
  then show ?thesis using inv by (auto simp: unloadToCache_def ser_ok_def SerializedSlice_new_def)
next
  case False
  then have mode: "sl_headerMode st \<noteq> Unknown" "sl_headerMode st \<noteq> NoCache" by simp_all
  show ?thesis
  proof (cases "s_changedSinceCache (sl_header st)")
    case True
    have ne: "s_parts (slice_of (unload_target 0 st) st) \<noteq> []"
      using slices_inv_parts(3) [OF inv] True by (simp add: unload_target_def slice_of_def slice_flags_ok_def)
    have "\<exists>ser st'. serializeAndUnloadSlice 0 st = Some (ser, st') \<and> slices_inv file st' \<and> ser_ok file ser
        \<and> length (sl_data st') = length (sl_data st)"
      by (rule serialize_ok [OF inv small mode _ _ ne])
        (use slices_inv_parts(6) [OF inv] True in \<open>auto simp: isGoodHeader_def\<close>)
    then show ?thesis using False True by (auto simp: unloadToCache_def)
  next
    case unchanged: False
    let ?i = "partition_point (\<lambda>s. \<not> s_changedSinceCache s) (sl_data st)"
    show ?thesis
    proof (cases "?i = length (sl_data st)")
      case True
      then show ?thesis using inv False unchanged by (auto simp: unloadToCache_def ser_ok_def SerializedSlice_new_def)
    next
      case some: False
      then have i: "?i < length (sl_data st)" using partition_point_le [of _ "sl_data st"] by (metis le_neq_implies_less)
      then have changed: "s_changedSinceCache (sl_data st ! ?i)" using partition_point_stop by blast
      have fl: "s_loadedFromCache (sl_data st ! ?i)" "s_parts (sl_data st ! ?i) \<noteq> []"
        using slices_inv_parts(4) [OF inv i] changed by (simp_all add: slice_flags_ok_def)
      have ne: "s_parts (slice_of (unload_target (int ?i + 1) st) st) \<noteq> []"
        using fl(2) slices_inv_parts(6) [OF inv] by (auto simp: unload_target_def slice_of_def isGoodHeader_def)
      have ld: "s_loadedFromCache (sl_data st ! 0)" if "isGoodHeader st" "unload_target (int ?i + 1) st = 0"
        using that fl(1) by (auto simp: unload_target_def split: if_splits)
      have bounds: "0 \<le> int ?i + 1" "int ?i + 1 \<le> int (length (sl_data st))" using i by linarith+
      have "\<exists>ser st'. serializeAndUnloadSlice (int ?i + 1) st = Some (ser, st') \<and> slices_inv file st' \<and> ser_ok file ser
        \<and> length (sl_data st') = length (sl_data st)"
        by (rule serialize_ok [OF inv small mode bounds ne ld])
      then show ?thesis using False unchanged some by (auto simp: unloadToCache_def Let_def)
    qed
  qed
qed

end
