(* ===== verification/StreamingReads.thy ===== *)
theory StreamingReads
  imports StreamingFill
begin

text \<open>
  \<^verbatim>\<open>Slices::fill\<close> on the states of the invariant: it never fails, a filled buffer holds the
  bytes of the file, and a buffer that is not filled makes progress, by asking the cache or
  the loader for something that is missing. The states that can be reached are those of the
  inductive relation at the end.
\<close>

section \<open>What is asked of the loader\<close>

lemma values_length: "length (StackIntVector_values st) \<le> length st"
  by (simp add: StackIntVector_values_def length_takeWhile_le)

lemma add_values_if_values:
  assumes "\<And>v w. v \<in> set os \<Longrightarrow> f v = Some w \<Longrightarrow> 0 \<le> w"
  shows "length (add_values_if f os storage) = length storage"
    and "StackIntVector_values (add_values_if f os storage) =
      take (length storage) (StackIntVector_values storage @ List.map_filter f os)"
proof -
  have "length (add_values_if f os storage) = length storage \<and>
    StackIntVector_values (add_values_if f os storage) =
      take (length storage) (StackIntVector_values storage @ List.map_filter f os)"
    using assms
  proof (induction os arbitrary: storage)
    case Nil
    then show ?case using values_length [of storage] by (simp add: add_values_if_def map_filter_simps)
  next
    case (Cons v os)
    have IH: "length (add_values_if f os st) = length st \<and> StackIntVector_values (add_values_if f os st) =
      take (length st) (StackIntVector_values st @ List.map_filter f os)" for st
      by (rule Cons.IH) (meson Cons.prems list.set_intros(2))
    show ?case
    proof (cases "f v")
      case None
      then show ?thesis using IH [of storage] by (simp add: add_values_if_def map_filter_simps)
    next
      case (Some w)
      then have "0 \<le> w" using Cons.prems [of v w] by simp
      note a = add_values [OF this, of storage]
      have step: "add_values_if f (v # os) storage = add_values_if f os (snd (StackIntVector_add w storage))"
        by (simp add: add_values_if_def Some)
      show ?thesis
        using IH [of "snd (StackIntVector_add w storage)"] a(1,3) values_length [of storage]
        unfolding step by (simp add: map_filter_simps Some take_Cons')
    qed
  qed
  then show "length (add_values_if f os storage) = length storage"
    and "StackIntVector_values (add_values_if f os storage) =
      take (length storage) (StackIntVector_values storage @ List.map_filter f os)" by blast+
qed

lemma map_filter_if:
  "List.map_filter (\<lambda>v. if P v then Some (g v) else None) xs = map g (filter P xs)"
  by (induction xs) (simp_all add: map_filter_simps)

lemma preload_bounds:
  shows "floor_part (till + kPartSize - 1) mod kPartSize = 0"
    and "(floor_part (till + kPartSize - 1) + kPreloadPartsAhead * kPartSize) mod kPartSize = 0"
    and "till \<le> floor_part (till + kPartSize - 1)"
proof -
  show f: "floor_part (till + kPartSize - 1) mod kPartSize = 0" by (rule floor_part(1))
  then show "(floor_part (till + kPartSize - 1) + kPreloadPartsAhead * kPartSize) mod kPartSize = 0"
    by simp
  show "till \<le> floor_part (till + kPartSize - 1)" using floor_part(3) [of "till + kPartSize - 1"] by linarith
qed

lemma prepared_offsets:
  assumes "parts_ok c (s_parts s)" and "0 \<le> a" and "a < till" and "till \<le> int (length c)"
  defines "vs \<equiv> StackIntVector_values (pf_offsetsFromLoader (prepareFill a till s))"
  shows "\<forall>x \<in> set vs. floor_part a \<le> x \<and> x mod kPartSize = 0 \<and> x \<notin> set (keys (s_parts s))"
    and "\<not> pf_ready (prepareFill a till s) \<Longrightarrow> vs \<noteq> [] \<and> hd vs < till"
    and "pf_ready (prepareFill a till s) \<Longrightarrow> \<forall>x \<in> set vs. till \<le> x"
    and "length vs \<le> kLoadFromRemoteMax"
proof -
  let ?H = "have_till a till (s_parts s)" and ?T = "floor_part (till + kPartSize - 1)"
  let ?P = "?T + kPreloadPartsAhead * kPartSize"
  let ?e = "if till \<le> ?H then ?T else ?H"
  note r = have_till_cases(1) [OF assms(1-4), unfolded reach_spec_def]
  note b = preload_bounds [of till]
  have sorted: "sorted_wrt (<) (keys (s_parts s))" using assms(1) by (simp add: parts_ok_def)
  have P: "?T < ?P" by (simp add: kPreloadPartsAhead_def)
  have e: "?e mod kPartSize = 0" "floor_part a \<le> ?e"
    using r b floor_part(2) [of a] assms(3) by auto
  have "?e \<le> ?T" using b(3) by auto
  then have e3: "?e < ?P" using P by linarith
  note e = e e3
  have "0 \<le> floor_part a" by (rule floor_part(4) [OF assms(2)])
  then have vs: "vs = take kLoadFromRemoteMax (filter (\<lambda>x. x \<notin> set (keys (s_parts s))) (offset_steps ?e ?P))"
    unfolding vs_def prepareFill_ready(2) [OF assms(3)]
    by (rule offsetsFromLoader_values [OF sorted order_trans [OF _ e(2)] less_imp_le [OF e(3)] e(1) b(2)])
  have steps: "x \<in> set (offset_steps ?e ?P) \<longleftrightarrow> ?e \<le> x \<and> x < ?P \<and> x mod kPartSize = 0" for x
    by (rule offset_steps_member [OF e(1) b(2)])
  have mem: "?e \<le> x \<and> x mod kPartSize = 0 \<and> x \<notin> set (keys (s_parts s))" if "x \<in> set vs" for x
  proof -
    have "x \<in> set (filter (\<lambda>x. x \<notin> set (keys (s_parts s))) (offset_steps ?e ?P))"
      using that unfolding vs by (rule in_set_takeD)
    then show ?thesis unfolding set_filter mem_Collect_eq steps by blast
  qed
  show "\<forall>x \<in> set vs. floor_part a \<le> x \<and> x mod kPartSize = 0 \<and> x \<notin> set (keys (s_parts s))"
    using mem e(2) order_trans by blast
  show "length vs \<le> kLoadFromRemoteMax" by (simp add: vs)
  show "\<forall>x \<in> set vs. till \<le> x" if "pf_ready (prepareFill a till s)"
  proof
    have "?e = ?T" using that prepareFill_ready(1) [OF assms(3), of s] by simp
    then show "till \<le> x" if "x \<in> set vs" for x using mem [OF that] b(3) by linarith
  qed
  show "vs \<noteq> [] \<and> hd vs < till" if "\<not> pf_ready (prepareFill a till s)"
  proof -
    have h: "?H < till" using that prepareFill_ready(1) [OF assms(3), of s] by simp
    then have "?H \<notin> set (keys (s_parts s))" using r by blast
    moreover have eH: "?e = ?H" using h by simp
    moreover have "offset_steps ?e ?P = ?e # offset_steps (?e + kPartSize) ?P"
      by (rule offset_steps_rec [OF multiple_apart [OF e(1) b(2) e(3)]])
    ultimately show ?thesis using h unfolding vs eH by (simp add: kLoadFromRemoteMax_def)
  qed
qed

definition held :: "Slices \<Rightarrow> int \<Rightarrow> bool" where
  "held st x \<longleftrightarrow>
     (if isFullInHeader st then x \<in> set (keys (s_parts (sl_header st)))
      else x - x div kInSlice * kInSlice \<in> set (keys (s_parts (sl_data st ! nat (x div kInSlice)))))"

text \<open>
  Every offset asked for is the start of a part of the file that is not there, and of a slice
  that the cache has nothing more for.
\<close>

definition requests_ok :: "byte_array \<Rightarrow> Slices \<Rightarrow> int list \<Rightarrow> bool" where
  "requests_ok file st vs \<longleftrightarrow>
     (\<forall>x \<in> set vs. 0 \<le> x \<and> x < int (length file) \<and> x mod kPartSize = 0 \<and> \<not> held st x
        \<and> (isFullInHeader st \<or> \<not> cacheNotLoaded st (nat (x div kInSlice))))"

section \<open>Filling from the header\<close>

lemma fillFromHeader_ok:
  assumes inv: "slices_inv file st" and full: "isFullInHeader st"
    and range: "buffer \<noteq> []" "0 \<le> offset" "offset + int (length buffer) \<le> int (length file)"
  shows "\<exists>r copied. fillFromHeader offset buffer st = Some (r, copied)
    \<and> (if fr_filled r then copied = segment file offset (offset + int (length buffer)) else copied = buffer)
    \<and> requests_ok file st (StackIntVector_values (fr_offsetsFromLoader r))
    \<and> (fr_filled r \<or> (\<exists>x \<in> set (StackIntVector_values (fr_offsetsFromLoader r)). x < offset + int (length buffer)))
    \<and> fr_toCache r = SerializedSlice_new"
proof -
  let ?till = "offset + int (length buffer)" and ?h = "sl_header st"
  let ?prep = "prepareFill offset ?till ?h"
  let ?vs = "StackIntVector_values (pf_offsetsFromLoader ?prep)"
  let ?f = "\<lambda>full. if full < sl_size st then Some full else None"
  have size: "sl_size st = int (length file)" using inv by (simp add: slices_inv_def slices_ok_def)
  have lt: "offset < ?till" using range(1) by simp
  note ok = slices_inv_parts(1) [OF inv]
  note prep = prepared_offsets [OF ok range(2) lt range(3)]
  have "0 \<le> floor_part offset" by (rule floor_part(4) [OF range(2)])
  then have nonneg: "\<And>v w. v \<in> set ?vs \<Longrightarrow> ?f v = Some w \<Longrightarrow> 0 \<le> w"
    using prep(1) by (fastforce split: if_splits)
  define offs where "offs = add_values_if ?f ?vs (StackIntVector_new kLoadFromRemoteMax)"
  have offs: "StackIntVector_values offs = filter (\<lambda>x. x < int (length file)) ?vs"
  proof -
    have "List.map_filter ?f ?vs = filter (\<lambda>x. x < int (length file)) ?vs"
      unfolding size by (simp add: map_filter_if [where g = "\<lambda>x. x"])
    moreover have "length (filter (\<lambda>x. x < int (length file)) ?vs) \<le> kLoadFromRemoteMax"
      using prep(4) length_filter_le le_trans by blast
    ultimately show ?thesis
      unfolding offs_def by (simp add: add_values_if_values(2) [OF nonneg] values_new)
  qed
  have req: "requests_ok file st (StackIntVector_values offs)"
    using prep(1) \<open>0 \<le> floor_part offset\<close> full unfolding offs by (fastforce simp: requests_ok_def held_def)
  show ?thesis
  proof (cases "pf_ready ?prep")
    case True
    have "CopyLoaded buffer (parts_between (s_parts ?h) (pf_start ?prep) (pf_finish ?prep)) offset ?till =
      Some (segment file offset ?till @ drop (nat (?till - offset)) buffer)"
      by (rule prepareFill_copies [OF ok range(2) lt range(3) True]) simp
    then show ?thesis using True req
      by (simp add: fillFromHeader_def FillResult_new_def offs_def [symmetric])
  next
    case False
    have "hd ?vs \<in> set ?vs \<and> hd ?vs < ?till" using prep(2) [OF False] by simp
    then have "hd ?vs \<in> set (StackIntVector_values offs) \<and> hd ?vs < ?till" using range(3) unfolding offs by simp
    then show ?thesis using False req
      by (auto simp: fillFromHeader_def FillResult_new_def offs_def [symmetric])
  qed
qed

section \<open>Filling from the slices\<close>

lemma ceil_slices: "(x + kInSlice - 1) div kInSlice \<le> j \<longleftrightarrow> x \<le> j * kInSlice"
  using slice_ceil_less [of j x] by linarith

text \<open>What one slice adds to the offsets to load.\<close>

definition slice_requests :: "Slices \<Rightarrow> nat \<Rightarrow> PrepareFillResult \<Rightarrow> int list" where
  "slice_requests st i prepared =
     (if cacheNotLoaded st i then []
      else map (\<lambda>a. a + int i * kInSlice)
        (filter (\<lambda>a. a < kInSlice \<and> a + int i * kInSlice < sl_size st)
          (StackIntVector_values (pf_offsetsFromLoader prepared))))"

lemma handlePrepareResult_values:
  assumes "\<forall>x \<in> set (StackIntVector_values (pf_offsetsFromLoader prepared)). 0 \<le> x"
  shows "length (fr_offsetsFromLoader (handlePrepareResult st i prepared r)) = length (fr_offsetsFromLoader r)"
    and "StackIntVector_values (fr_offsetsFromLoader (handlePrepareResult st i prepared r)) =
      take (length (fr_offsetsFromLoader r))
        (StackIntVector_values (fr_offsetsFromLoader r) @ slice_requests st i prepared)"
    and "fr_toCache (handlePrepareResult st i prepared r) = fr_toCache r"
    and "fr_filled (handlePrepareResult st i prepared r) = fr_filled r"
    and "fr_sliceNumbersFromCache (handlePrepareResult st i prepared r) = fr_sliceNumbersFromCache r"
proof -
  let ?f = "\<lambda>a. if a < kInSlice \<and> a + int i * kInSlice < sl_size st then Some (a + int i * kInSlice) else None"
  have nonneg: "\<And>v w. v \<in> set (StackIntVector_values (pf_offsetsFromLoader prepared)) \<Longrightarrow> ?f v = Some w \<Longrightarrow> 0 \<le> w"
    using assms by (auto split: if_splits)
  note v = add_values_if_values [where f = ?f and storage = "fr_offsetsFromLoader r", OF nonneg]
  show "length (fr_offsetsFromLoader (handlePrepareResult st i prepared r)) = length (fr_offsetsFromLoader r)"
    using v(1) by (simp add: handlePrepareResult_def Let_def)
  show "StackIntVector_values (fr_offsetsFromLoader (handlePrepareResult st i prepared r)) =
      take (length (fr_offsetsFromLoader r))
        (StackIntVector_values (fr_offsetsFromLoader r) @ slice_requests st i prepared)"
    using v(2) values_length [of "fr_offsetsFromLoader r"] unfolding map_filter_if
    by (simp add: handlePrepareResult_def slice_requests_def Let_def)
  show "fr_toCache (handlePrepareResult st i prepared r) = fr_toCache r"
    and "fr_filled (handlePrepareResult st i prepared r) = fr_filled r"
    and "fr_sliceNumbersFromCache (handlePrepareResult st i prepared r) = fr_sliceNumbersFromCache r"
    by (simp_all add: handlePrepareResult_def)
qed

lemma slice_requests_ok:
  assumes inv: "slices_inv file st" and i: "i < length (sl_data st)" and r: "0 \<le> a" "a < b"
    and b: "b \<le> int (length (slice_content file (int i)))"
  shows "requests_ok file st (slice_requests st i (prepareFill a b (sl_data st ! i)))"
    and "length (slice_requests st i (prepareFill a b (sl_data st ! i))) \<le> kLoadFromRemoteMax"
    and "\<forall>x \<in> set (StackIntVector_values (pf_offsetsFromLoader (prepareFill a b (sl_data st ! i)))). 0 \<le> x"
    and "\<not> pf_ready (prepareFill a b (sl_data st ! i)) \<Longrightarrow> \<not> cacheNotLoaded st i \<Longrightarrow>
      \<exists>x \<in> set (slice_requests st i (prepareFill a b (sl_data st ! i))). x < b + int i * kInSlice"
    and "pf_ready (prepareFill a b (sl_data st ! i)) \<Longrightarrow> b = kInSlice \<Longrightarrow>
      slice_requests st i (prepareFill a b (sl_data st ! i)) = []"
proof -
  let ?p = "prepareFill a b (sl_data st ! i)"
  let ?vs = "StackIntVector_values (pf_offsetsFromLoader ?p)"
  note ok = slices_inv_parts(2) [OF inv i]
  note prep = prepared_offsets [OF ok r b]
  have so: "slices_ok file st" using inv by (simp add: slices_inv_def)
  then have size: "sl_size st = int (length file)" and nf: "\<not> isFullInHeader st"
    and len: "int (length (sl_data st)) = slice_total file"
    using i by (auto simp: slices_ok_def split: if_splits)
  have it: "0 \<le> int i" "int i < slice_total file" using i len by simp_all
  have "0 \<le> floor_part a" by (rule floor_part(4) [OF r(1)])
  then show nonneg: "\<forall>x \<in> set ?vs. 0 \<le> x" using prep(1) order_trans by blast
  have mult: "(int i * kInSlice) mod kPartSize = 0" using kInSlice_facts(4) by (simp add: mod_mult_right_eq [symmetric])
  show "requests_ok file st (slice_requests st i ?p)"
    unfolding requests_ok_def
  proof (intro ballI conjI)
    fix x assume "x \<in> set (slice_requests st i ?p)"
    then obtain y where y: "y \<in> set ?vs" "x = y + int i * kInSlice" "y < kInSlice" "x < int (length file)"
      by (auto simp: slice_requests_def size split: if_splits)
    have nc: "\<not> cacheNotLoaded st i" using \<open>x \<in> _\<close> by (auto simp: slice_requests_def split: if_splits)
    have y0: "0 \<le> y" "y mod kPartSize = 0" "y \<notin> set (keys (s_parts (sl_data st ! i)))"
      using y(1) nonneg prep(1) by simp_all
    show "0 \<le> x" using y(2) y0(1) by simp
    show "x < int (length file)" by (rule y(4))
    show "x mod kPartSize = 0" unfolding y(2) using y0(2) mult by (metis add.right_neutral mod_add_eq mod_0)
    have d: "x div kInSlice = int i" using y(2,3) y0(1) by simp
    then show "\<not> held st x" using nf y(2) y0(3) unfolding held_def d by simp
    show "isFullInHeader st \<or> \<not> cacheNotLoaded st (nat (x div kInSlice))" using nc unfolding d by simp
  qed
  have "length (slice_requests st i ?p) \<le> length ?vs" by (simp add: slice_requests_def)
  then show "length (slice_requests st i ?p) \<le> kLoadFromRemoteMax" using prep(4) by simp
  have b_le: "b \<le> kInSlice" "b + int i * kInSlice \<le> int (length file)"
    using b unfolding length_slice_content [OF it] by simp_all
  show "\<exists>x \<in> set (slice_requests st i ?p). x < b + int i * kInSlice"
    if "\<not> pf_ready ?p" "\<not> cacheNotLoaded st i"
  proof -
    have h: "hd ?vs \<in> set ?vs" "hd ?vs < b" using prep(2) [OF that(1)] by simp_all
    then have "hd ?vs + int i * kInSlice \<in> set (slice_requests st i ?p)"
      using that(2) b_le by (simp add: slice_requests_def size)
    then show ?thesis using h(2) by force
  qed
  show "slice_requests st i ?p = []" if "pf_ready ?p" "b = kInSlice"
    using prep(3) [OF that(1)] that(2) by (auto simp: slice_requests_def filter_empty_conv)
qed

lemma requests_ok_append: "requests_ok file st vs \<Longrightarrow> requests_ok file st ws \<Longrightarrow> requests_ok file st (take n (vs @ ws))"
  by (auto simp: requests_ok_def dest!: in_set_takeD)

lemma handleReadFromCache_ok:
  assumes inv: "slices_inv file st" and i: "i < length (sl_data st)"
  shows "slices_inv file (snd (handleReadFromCache i (r, st)))"
    and "length (sl_data (snd (handleReadFromCache i (r, st)))) = length (sl_data st)"
    and "fr_toCache (fst (handleReadFromCache i (r, st))) = fr_toCache r"
    and "fr_filled (fst (handleReadFromCache i (r, st))) = fr_filled r"
    and "fr_offsetsFromLoader (fst (handleReadFromCache i (r, st))) = fr_offsetsFromLoader r"
    and "cacheNotLoaded st i \<Longrightarrow> s_loadingFromCache (sl_data (snd (handleReadFromCache i (r, st))) ! i)"
    and "s_loadingFromCache (sl_data st ! j) \<Longrightarrow> s_loadingFromCache (sl_data (snd (handleReadFromCache i (r, st))) ! j)"
    and "j \<noteq> i \<Longrightarrow> cacheNotLoaded (snd (handleReadFromCache i (r, st))) j = cacheNotLoaded st j"
proof -
  let ?c = "cacheNotLoaded st i \<and> \<not> s_loadingFromCache (sl_data st ! i)"
  let ?s = "(sl_data st ! i)\<lparr>s_loadingFromCache := True\<rparr>"
  show "slices_inv file (snd (handleReadFromCache i (r, st)))"
  proof (cases ?c)
    case True
    have "slices_inv file (st\<lparr>sl_data := (sl_data st)[i := ?s]\<rparr>)"
    proof (rule data_update_inv [OF inv i])
      show "slice_flags_ok ?s" using True slices_inv_parts(4) [OF inv i]
        by (simp add: slice_flags_ok_def cacheNotLoaded_def)
    qed (use True slices_inv_parts(2,6) [OF inv] i in \<open>auto simp: cacheNotLoaded_def\<close>)
    then show ?thesis using True by (simp add: handleReadFromCache_def)
  qed (use inv in \<open>auto simp: handleReadFromCache_def\<close>)
  show "s_loadingFromCache (sl_data st ! j) \<Longrightarrow> s_loadingFromCache (sl_data (snd (handleReadFromCache i (r, st))) ! j)"
    using i by (cases "j = i") (simp_all add: handleReadFromCache_def)
qed (use i in \<open>auto simp: handleReadFromCache_def cacheNotLoaded_def\<close>)

text \<open>The one or two slices a read touches.\<close>

lemma read_slices:
  assumes inv: "slices_inv file st" and nf: "\<not> isFullInHeader st"
    and range: "0 < n" "0 \<le> offset" "offset + n \<le> int (length file)" "n \<le> kInSlice"
  defines "F \<equiv> offset div kInSlice" and "T \<equiv> (offset + n + kInSlice - 1) div kInSlice"
  shows "0 \<le> F" and "F + 1 = T \<or> F + 2 = T" and "T \<le> int (length (sl_data st))"
    and "nat F < length (sl_data st)" and "int (nat F) = F"
    and "0 \<le> offset - F * kInSlice" and "offset - F * kInSlice < min kInSlice (offset + n - F * kInSlice)"
    and "min kInSlice (offset + n - F * kInSlice) \<le> int (length (slice_content file F))"
    and "F + 1 < T \<Longrightarrow> nat F + 1 < length (sl_data st) \<and> int (nat F + 1) = F + 1
      \<and> 0 < offset + n - (F + 1) * kInSlice
      \<and> offset + n - (F + 1) * kInSlice \<le> int (length (slice_content file (F + 1)))
      \<and> min kInSlice (offset + n - F * kInSlice) = kInSlice"
    and "\<not> F + 1 < T \<Longrightarrow> min kInSlice (offset + n - F * kInSlice) = offset + n - F * kInSlice"
proof -
  have len: "int (length (sl_data st)) = slice_total file"
    using inv nf by (simp add: slices_inv_def slices_ok_def)
  show F0: "0 \<le> F" using range(2) by (simp add: F_def pos_imp_zdiv_nonneg_iff)
  have off: "offset = F * kInSlice + offset mod kInSlice" by (simp add: F_def)
  have m: "0 \<le> offset mod kInSlice" "offset mod kInSlice < kInSlice" by simp_all
  have lo: "F * kInSlice \<le> offset" and hi: "offset < (F + 1) * kInSlice" using off m by (simp_all only: distrib_right mult_1)
  have T_le: "T \<le> j \<longleftrightarrow> offset + n \<le> j * kInSlice" for j unfolding T_def by (rule ceil_slices)
  have "\<not> T \<le> F" using T_le [of F] lo range(1) by simp
  moreover have T2: "T \<le> F + 2" using T_le [of "F + 2"] hi range(4) by (simp add: distrib_right)
  ultimately show "F + 1 = T \<or> F + 2 = T" by linarith
  show TN: "T \<le> int (length (sl_data st))"
    unfolding len slice_total_def T_def by (rule zdiv_mono1) (use range(3) in simp_all)
  then have FN: "F < int (length (sl_data st))" using \<open>\<not> T \<le> F\<close> by linarith
  show "nat F < length (sl_data st)" "int (nat F) = F" using FN F0 by linarith+
  show "0 \<le> offset - F * kInSlice" using lo by simp
  show "offset - F * kInSlice < min kInSlice (offset + n - F * kInSlice)"
    using hi range(1) by (simp add: distrib_right)
  have "int (length (slice_content file F)) = min kInSlice (int (length file) - F * kInSlice)"
    by (rule length_slice_content [OF F0]) (use FN len in simp)
  then show "min kInSlice (offset + n - F * kInSlice) \<le> int (length (slice_content file F))"
    using range(3) by simp
  show "nat F + 1 < length (sl_data st) \<and> int (nat F + 1) = F + 1
      \<and> 0 < offset + n - (F + 1) * kInSlice
      \<and> offset + n - (F + 1) * kInSlice \<le> int (length (slice_content file (F + 1)))
      \<and> min kInSlice (offset + n - F * kInSlice) = kInSlice" if two: "F + 1 < T"
  proof (intro conjI)
    have FN1: "F + 1 < int (length (sl_data st))" using two TN by linarith
    then show "nat F + 1 < length (sl_data st)" "int (nat F + 1) = F + 1" using F0 by linarith+
    have "\<not> T \<le> F + 1" using two by simp
    then have gt: "(F + 1) * kInSlice < offset + n" using T_le [of "F + 1"] by simp
    then show "0 < offset + n - (F + 1) * kInSlice" by simp
    show "min kInSlice (offset + n - F * kInSlice) = kInSlice" using gt by (simp add: distrib_right)
    have "int (length (slice_content file (F + 1))) = min kInSlice (int (length file) - (F + 1) * kInSlice)"
      by (rule length_slice_content) (use F0 FN1 len in simp_all)
    moreover have "offset + n \<le> (F + 2) * kInSlice" using T2 T_le [of "F + 2"] by simp
    ultimately show "offset + n - (F + 1) * kInSlice \<le> int (length (slice_content file (F + 1)))"
      using range(3) by (simp add: distrib_right)
  qed
  show "min kInSlice (offset + n - F * kInSlice) = offset + n - F * kInSlice" if "\<not> F + 1 < T"
  proof -
    have "T \<le> F + 1" using that by simp
    then have "offset + n \<le> (F + 1) * kInSlice" using T_le by blast
    then show ?thesis by (simp add: distrib_right)
  qed
qed

definition read_ok :: "byte_array \<Rightarrow> Slices \<Rightarrow> int \<Rightarrow> byte_array \<Rightarrow> FillResult \<Rightarrow> byte_array \<Rightarrow> Slices \<Rightarrow> bool" where
  "read_ok file st offset buffer r copied st' \<longleftrightarrow> slices_inv file st' \<and> ser_ok file (fr_toCache r)
     \<and> (if fr_filled r then copied = segment file offset (offset + int (length buffer)) else copied = buffer)
     \<and> requests_ok file st (StackIntVector_values (fr_offsetsFromLoader r))
     \<and> (fr_filled r \<or> (\<exists>x \<in> set (StackIntVector_values (fr_offsetsFromLoader r)). x < offset + int (length buffer))
        \<or> (\<exists>s \<in> set (sl_header st' # sl_data st'). s_loadingFromCache s))"

lemma Slices_fill_data:
  assumes inv: "slices_inv file st" and small: "int (length file) < 2 ^ 31" and nf: "\<not> isFullInHeader st"
    and queried: "\<not> (sl_headerMode st \<noteq> NoCache \<and> \<not> s_loadedFromCache (sl_header st))"
    and range: "buffer \<noteq> []" "0 \<le> offset" "offset + int (length buffer) \<le> int (length file)"
      "int (length buffer) \<le> kInSlice"
  shows "\<exists>r copied st'. Slices_fill offset buffer st = Some (r, copied, st') \<and> read_ok file st offset buffer r copied st'"
proof -
  define n where "n = int (length buffer)"
  define till where "till = offset + n"
  define F where "F = offset div kInSlice"
  define T where "T = (till + kInSlice - 1) div kInSlice"
  define i where "i = nat F"
  define two where "two = (F + 1 < T)"
  define ff where "ff = offset - F * kInSlice"
  define ft where "ft = min kInSlice (till - F * kInSlice)"
  define s2 where "s2 = till - (F + 1) * kInSlice"
  define P1 where "P1 = prepareFill ff ft (sl_data st ! i)"
  define P2 where "P2 = (if two then prepareFill 0 s2 (sl_data st ! (i + 1)) else PrepareFillResult_new)"
  define R1 where "R1 = handlePrepareResult st i P1 FillResult_new"
  define R2 where "R2 = (if two then handlePrepareResult st (i + 1) P2 R1 else R1)"
  have size: "sl_size st = int (length file)" using inv by (simp add: slices_inv_def slices_ok_def)
  have n: "0 < n" using range(1) by (simp add: n_def)
  note g = read_slices [OF inv nf n range(2) range(3) [folded n_def] range(4) [folded n_def],
      folded till_def, folded F_def T_def, folded i_def ff_def ft_def s2_def two_def]
  have eq: "Slices_fill offset buffer st =
    (if pf_ready P1 \<and> pf_ready P2
     then Option.bind (CopyLoaded buffer (parts_between (s_parts (sl_data st ! i)) (pf_start P1) (pf_finish P1)) ff ft)
       (\<lambda>buffer1. Option.bind (if two
            then map_option (append (take (nat (ft - ff)) buffer1))
              (CopyLoaded (drop (nat (ft - ff)) buffer1)
                (parts_between (s_parts (sl_data st ! (i + 1))) (pf_start P2) (pf_finish P2)) 0 s2)
            else Some buffer1)
       (\<lambda>buffer2. map_option (\<lambda>(toCache, st2). (R2\<lparr>fr_toCache := toCache, fr_filled := True\<rparr>, buffer2, st2))
         (serializeAndUnloadUnused (if two then markSliceUsed (F + 1) (markSliceUsed F st) else markSliceUsed F st))))
     else
       let (result3, st3) = handleReadFromCache i (R2, st);
           (result4, st4) = (if two then handleReadFromCache (i + 1) (result3, st3) else (result3, st3))
       in Some (result4, buffer, st4))"
    using range n g(1-3) queried nf
    unfolding Slices_fill_def Let_def n_def [symmetric] till_def [symmetric] F_def [symmetric] T_def [symmetric]
      i_def [symmetric] ff_def [symmetric] ft_def [symmetric] s2_def [symmetric] two_def [symmetric]
      P1_def [symmetric] P2_def [symmetric] R1_def [symmetric] R2_def [symmetric]
    by (auto simp: size till_def)
  have ci: "parts_ok (slice_content file F) (s_parts (sl_data st ! i))"
    using slices_inv_parts(2) [OF inv g(4)] g(5) by simp
  have ft_le: "ft \<le> kInSlice" by (simp add: ft_def)
  have s2_le: "s2 \<le> kInSlice"
    using g(7) ft_le range(4) by (simp add: s2_def ff_def till_def n_def distrib_right)
  have req1: "requests_ok file st (slice_requests st i P1)" "length (slice_requests st i P1) \<le> kLoadFromRemoteMax"
    "\<forall>x \<in> set (StackIntVector_values (pf_offsetsFromLoader P1)). 0 \<le> x"
    "\<not> pf_ready P1 \<Longrightarrow> \<not> cacheNotLoaded st i \<Longrightarrow> \<exists>x \<in> set (slice_requests st i P1). x < ft + F * kInSlice"
    "pf_ready P1 \<Longrightarrow> ft = kInSlice \<Longrightarrow> slice_requests st i P1 = []"
    using slice_requests_ok [OF inv g(4,6,7)] g(5,8) unfolding P1_def by simp_all
  have vals1: "length (fr_offsetsFromLoader R1) = kLoadFromRemoteMax"
    "StackIntVector_values (fr_offsetsFromLoader R1) = slice_requests st i P1"
    "fr_toCache R1 = SerializedSlice_new" "\<not> fr_filled R1"
    using handlePrepareResult_values [OF req1(3), of st i FillResult_new] req1(2)
    unfolding R1_def by (simp_all add: FillResult_new_def values_new)
  have req2: "requests_ok file st (slice_requests st (i + 1) P2)" "length (slice_requests st (i + 1) P2) \<le> kLoadFromRemoteMax"
    "\<forall>x \<in> set (StackIntVector_values (pf_offsetsFromLoader P2)). 0 \<le> x"
    "\<not> pf_ready P2 \<Longrightarrow> \<not> cacheNotLoaded st (i + 1) \<Longrightarrow>
      \<exists>x \<in> set (slice_requests st (i + 1) P2). x < s2 + (F + 1) * kInSlice" if two
  proof -
    have i1: "i + 1 < length (sl_data st)" and i2: "int (i + 1) = F + 1" and pos: "0 < s2"
      and le: "s2 \<le> int (length (slice_content file (F + 1)))" using g(9) [OF that] by blast+
    have p2: "prepareFill 0 s2 (sl_data st ! (i + 1)) = P2" using that by (simp only: P2_def if_True)
    note r = slice_requests_ok [OF inv i1 order_refl pos, unfolded i2, OF le, unfolded p2]
    show "requests_ok file st (slice_requests st (i + 1) P2)" by (rule r(1))
    show "length (slice_requests st (i + 1) P2) \<le> kLoadFromRemoteMax" by (rule r(2))
    show "\<forall>x \<in> set (StackIntVector_values (pf_offsetsFromLoader P2)). 0 \<le> x" by (rule r(3))
    show "\<not> pf_ready P2 \<Longrightarrow> \<not> cacheNotLoaded st (i + 1) \<Longrightarrow>
      \<exists>x \<in> set (slice_requests st (i + 1) P2). x < s2 + (F + 1) * kInSlice" by (rule r(4))
  qed
  have vals2: "StackIntVector_values (fr_offsetsFromLoader R2) =
      (if two then take kLoadFromRemoteMax (slice_requests st i P1 @ slice_requests st (i + 1) P2)
       else slice_requests st i P1)"
    "fr_toCache R2 = SerializedSlice_new" "\<not> fr_filled R2"
    using vals1 handlePrepareResult_values [OF req2(3), of st "i + 1" R1] unfolding R2_def by simp_all
  have req: "requests_ok file st (StackIntVector_values (fr_offsetsFromLoader R2))"
    using req1(1) req2(1) requests_ok_append unfolding vals2(1) by simp
  have first_kept: "set (slice_requests st i P1) \<subseteq> set (StackIntVector_values (fr_offsetsFromLoader R2))"
    using req1(2) unfolding vals2(1) by simp
  show ?thesis
  proof (cases "pf_ready P1 \<and> pf_ready P2")
    case True
    define buffer1 where "buffer1 = segment file offset (F * kInSlice + ft) @ drop (nat (ft - ff)) buffer"
    have room: "ft - ff \<le> int (length buffer)" by (simp add: ft_def ff_def till_def n_def)
    have "CopyLoaded buffer (parts_between (s_parts (sl_data st ! i)) (pf_start P1) (pf_finish P1)) ff ft =
      Some (segment (slice_content file F) ff ft @ drop (nat (ft - ff)) buffer)"
      unfolding P1_def by (rule prepareFill_copies [OF ci g(6,7,8)]) (use True room P1_def in simp_all)
    also have "segment (slice_content file F) ff ft = segment file offset (F * kInSlice + ft)"
      using segment_slice [OF g(1,6) less_imp_le [OF g(7)] ft_le, of "file"] by (simp add: ff_def)
    finally have copy1: "CopyLoaded buffer (parts_between (s_parts (sl_data st ! i)) (pf_start P1) (pf_finish P1)) ff ft =
      Some buffer1" unfolding buffer1_def .
    have len1: "length (segment file offset (F * kInSlice + ft)) = nat (ft - ff)"
      using segment_length [OF range(2), of "file" "F * kInSlice + ft"] g(7) range(3)
      by (simp add: ft_def ff_def till_def n_def)
    have copy2: "(if two then map_option (append (take (nat (ft - ff)) buffer1))
        (CopyLoaded (drop (nat (ft - ff)) buffer1)
          (parts_between (s_parts (sl_data st ! (i + 1))) (pf_start P2) (pf_finish P2)) 0 s2)
        else Some buffer1) = Some (segment file offset till)"
    proof (cases two)
      case True
      note h = g(9) [OF True]
      have ft: "ft = kInSlice" using h by simp
      have c2: "parts_ok (slice_content file (F + 1)) (s_parts (sl_data st ! (i + 1)))"
      proof -
        have "int (i + 1) = F + 1" using h by blast
        from slices_inv_parts(2) [OF inv conjunct1 [OF h], unfolded this] show ?thesis .
      qed
      have rest: "int (length (drop (nat (ft - ff)) buffer)) = s2"
      proof -
        have "ft - ff = (F + 1) * kInSlice - offset" unfolding ft by (simp add: ff_def distrib_right)
        moreover have "0 \<le> ft - ff" using g(7) h by simp
        ultimately show ?thesis using room unfolding length_drop s2_def till_def n_def by linarith
      qed
      have "CopyLoaded (drop (nat (ft - ff)) buffer)
          (parts_between (s_parts (sl_data st ! (i + 1))) (pf_start P2) (pf_finish P2)) 0 s2 =
        Some (segment (slice_content file (F + 1)) 0 s2 @ drop (nat (s2 - 0)) (drop (nat (ft - ff)) buffer))"
        using prepareFill_copies [OF c2 order_refl, of s2 "drop (nat (ft - ff)) buffer"] h rest
          \<open>pf_ready P1 \<and> pf_ready P2\<close> True unfolding P2_def by simp
      also have "drop (nat (s2 - 0)) (drop (nat (ft - ff)) buffer) = []" using rest by simp
      also have "segment (slice_content file (F + 1)) 0 s2 = segment file ((F + 1) * kInSlice) till"
        using segment_slice [of "F + 1" 0 s2 "file"] g(1) h s2_le by (simp add: s2_def)
      finally have c: "CopyLoaded (drop (nat (ft - ff)) buffer)
          (parts_between (s_parts (sl_data st ! (i + 1))) (pf_start P2) (pf_finish P2)) 0 s2 =
        Some (segment file ((F + 1) * kInSlice) till)" by simp
      have e: "F * kInSlice + ft = (F + 1) * kInSlice" unfolding ft by (simp add: distrib_right)
      have "segment file offset ((F + 1) * kInSlice) @ segment file ((F + 1) * kInSlice) till = segment file offset till"
        by (rule segment_append [OF range(2)]) (use g(7) h e in \<open>simp_all add: ff_def s2_def\<close>)
      then show ?thesis using True len1 c unfolding buffer1_def e by simp
    next
      case False
      have "F * kInSlice + ft = till" using g(10) [OF False] by simp
      moreover have "drop (nat (ft - ff)) buffer = []"
        using g(10) [OF False] by (simp add: ff_def till_def n_def)
      ultimately show ?thesis using False by (simp add: buffer1_def)
    qed
    have FN: "F < int (length (sl_data st))" using g(4,5) by linarith
    note m1 = markSliceUsed_inv [OF inv g(1) FN]
    have "slices_inv file (if two then markSliceUsed (F + 1) (markSliceUsed F st) else markSliceUsed F st)"
    proof (cases two)
      case True
      have "F + 1 < int (length (sl_data (markSliceUsed F st)))" using g(9) [OF True] unfolding m1(2) by linarith
      then show ?thesis using True markSliceUsed_inv(1) [OF m1(1), of "F + 1"] g(1) by simp
    qed (simp add: m1(1))
    from unused_ok [OF this small] obtain ser st' where
      u: "serializeAndUnloadUnused (if two then markSliceUsed (F + 1) (markSliceUsed F st) else markSliceUsed F st) =
        Some (ser, st')" "slices_inv file st'" "ser_ok file ser" by blast
    have "Slices_fill offset buffer st =
      Some (R2\<lparr>fr_toCache := ser, fr_filled := True\<rparr>, segment file offset till, st')"
      unfolding eq copy1 using True copy2 u(1) by simp
    moreover have "read_ok file st offset buffer (R2\<lparr>fr_toCache := ser, fr_filled := True\<rparr>) (segment file offset till) st'"
      using u(2,3) req by (simp add: read_ok_def till_def n_def)
    ultimately show ?thesis by blast
  next
    case False
    define rs where "rs = handleReadFromCache i (R2, st)"
    define rs' where "rs' = (if two then handleReadFromCache (i + 1) rs else rs)"
    note h1 = handleReadFromCache_ok [where r = R2, OF inv g(4), folded rs_def]
    have h2: "slices_inv file (snd rs')" "fr_toCache (fst rs') = SerializedSlice_new" "\<not> fr_filled (fst rs')"
      "fr_offsetsFromLoader (fst rs') = fr_offsetsFromLoader R2" "length (sl_data (snd rs')) = length (sl_data st)"
      "cacheNotLoaded st i \<Longrightarrow> s_loadingFromCache (sl_data (snd rs') ! i)"
      "two \<Longrightarrow> cacheNotLoaded st (i + 1) \<Longrightarrow> s_loadingFromCache (sl_data (snd rs') ! (i + 1))"
    proof -
      have j: "i + 1 < length (sl_data (snd rs))" if two using g(9) [OF that] h1(2) by simp
      note h = handleReadFromCache_ok [where r = "fst rs", OF h1(1) j, unfolded prod.collapse]
      show "slices_inv file (snd rs')" "fr_toCache (fst rs') = SerializedSlice_new" "\<not> fr_filled (fst rs')"
        "fr_offsetsFromLoader (fst rs') = fr_offsetsFromLoader R2" "length (sl_data (snd rs')) = length (sl_data st)"
        "cacheNotLoaded st i \<Longrightarrow> s_loadingFromCache (sl_data (snd rs') ! i)"
        "two \<Longrightarrow> cacheNotLoaded st (i + 1) \<Longrightarrow> s_loadingFromCache (sl_data (snd rs') ! (i + 1))"
        using h h1 vals2(2,3) unfolding rs'_def by (cases two; simp)+
    qed
    have res: "Slices_fill offset buffer st = Some (fst rs', buffer, snd rs')"
      unfolding eq using False by (auto simp: rs_def rs'_def Let_def split_beta)
    have progress: "(\<exists>x \<in> set (StackIntVector_values (fr_offsetsFromLoader R2)). x < till)
        \<or> (\<exists>s \<in> set (sl_data (snd rs')). s_loadingFromCache s)"
    proof (cases "pf_ready P1")
      case notready: False
      show ?thesis
      proof (cases "cacheNotLoaded st i")
        case True
        then show ?thesis using h2(5,6) g(4) by (metis nth_mem)
      next
        case False
        from req1(4) [OF notready False] obtain x where "x \<in> set (slice_requests st i P1)" "x < ft + F * kInSlice" by blast
        moreover have "ft + F * kInSlice \<le> till" by (simp add: ft_def)
        ultimately show ?thesis using first_kept by (meson less_le_trans subsetD)
      qed
    next
      case ready: True
      then have nr: "\<not> pf_ready P2" and two using False by (auto simp: P2_def PrepareFillResult_new_def split: if_splits)
      show ?thesis
      proof (cases "cacheNotLoaded st (i + 1)")
        case True
        then show ?thesis using h2(5,7) g(9) \<open>two\<close> by (metis nth_mem)
      next
        case False
        have "ft = kInSlice" using g(9) [OF \<open>two\<close>] by simp
        then have "slice_requests st i P1 = []" using req1(5) ready by simp
        then have v: "StackIntVector_values (fr_offsetsFromLoader R2) = slice_requests st (i + 1) P2"
          using \<open>two\<close> req2(2) unfolding vals2(1) by simp
        have "s2 + (F + 1) * kInSlice = till" by (simp add: s2_def)
        then show ?thesis using req2(4) [OF \<open>two\<close> nr False] unfolding v by simp
      qed
    qed
    have "read_ok file st offset buffer (fst rs') buffer (snd rs')"
      using h2(1-4) req progress unfolding read_ok_def
      by (auto simp: ser_ok_def SerializedSlice_new_def till_def n_def)
    then show ?thesis using res by blast
  qed
qed

lemma Slices_fill_ok:
  assumes inv: "slices_inv file st" and small: "int (length file) < 2 ^ 31"
    and range: "buffer \<noteq> []" "0 \<le> offset" "offset + int (length buffer) \<le> int (length file)"
      "int (length buffer) \<le> kInSlice"
  shows "\<exists>r copied st'. Slices_fill offset buffer st = Some (r, copied, st') \<and> read_ok file st offset buffer r copied st'"
proof -
  have size: "sl_size st = int (length file)" using inv by (simp add: slices_inv_def slices_ok_def)
  have lt: "offset < sl_size st" using range(1,3) size by (cases buffer) simp_all
  have ok: "\<not> (buffer = [] \<or> \<not> (0 \<le> offset \<and> offset < sl_size st)
    \<or> \<not> offset + int (length buffer) \<le> sl_size st \<or> \<not> int (length buffer) \<le> kInSlice)"
    using range size lt by simp
  show ?thesis
  proof (cases "sl_headerMode st \<noteq> NoCache \<and> \<not> s_loadedFromCache (sl_header st)")
    case True
    then have "s_loadingFromCache (sl_header st)" using inv by (simp add: slices_inv_def flags_ok_def)
    then have "Slices_fill offset buffer st = Some (FillResult_new, buffer, st)"
      using True ok by (simp add: Slices_fill_def)
    then show ?thesis using inv \<open>s_loadingFromCache (sl_header st)\<close>
      by (simp add: read_ok_def FillResult_new_def ser_ok_def SerializedSlice_new_def values_new requests_ok_def)
  next
    case queried: False
    show ?thesis
    proof (cases "isFullInHeader st")
      case True
      from fillFromHeader_ok [OF inv True range(1-3)] obtain r copied where
        r: "fillFromHeader offset buffer st = Some (r, copied)"
          "if fr_filled r then copied = segment file offset (offset + int (length buffer)) else copied = buffer"
          "requests_ok file st (StackIntVector_values (fr_offsetsFromLoader r))"
          "fr_filled r \<or> (\<exists>x \<in> set (StackIntVector_values (fr_offsetsFromLoader r)). x < offset + int (length buffer))"
          "fr_toCache r = SerializedSlice_new"
        by blast
      have "Slices_fill offset buffer st = Some (r, copied, st)"
        using r(1) True queried ok by (auto simp: Slices_fill_def)
      moreover have "read_ok file st offset buffer r copied st"
        using r(2-5) inv unfolding read_ok_def by (auto simp: ser_ok_def SerializedSlice_new_def)
      ultimately show ?thesis by blast
    next
      case False
      then show ?thesis using Slices_fill_data [OF inv small False queried range] by blast
    qed
  qed
qed

section \<open>Reachable states\<close>

text \<open>
  The life of the slices of a file: parts of the file arrive, the cache answers with entries
  that hold parts of the file, the player says that it is done with a header it has read,
  buffers are filled and slices are unloaded, in any order.
\<close>

inductive slices_reachable :: "byte_array \<Rightarrow> Slices \<Rightarrow> bool" for contents where
  slices_new: "Slices_new (int (length contents)) useCache = Some st \<Longrightarrow> slices_reachable contents st"
| slices_part: "slices_reachable contents st \<Longrightarrow> part_ok contents (a, b) \<Longrightarrow> processPart a b st = Some st' \<Longrightarrow>
    slices_reachable contents st'"
| slices_cache: "slices_reachable contents st \<Longrightarrow> entry_ok contents n bs \<Longrightarrow> processCacheResult n bs st = Some st' \<Longrightarrow>
    slices_reachable contents st'"
| slices_header: "slices_reachable contents st \<Longrightarrow> isFullInHeader st \<or> s_parts (sl_header st) \<noteq> [] \<Longrightarrow>
    Slices_headerDone False st = Some st' \<Longrightarrow> slices_reachable contents st'"
| slices_fill: "slices_reachable contents st \<Longrightarrow> Slices_fill offset buffer st = Some (r, copied, st') \<Longrightarrow>
    slices_reachable contents st'"
| slices_unload: "slices_reachable contents st \<Longrightarrow> unloadToCache st = Some (ser, st') \<Longrightarrow>
    slices_reachable contents st'"

lemma Slices_new_inv:
  assumes "Slices_new (int (length file)) useCache = Some st"
  shows "slices_inv file st"
proof -
  have ne: "file \<noteq> []" using assms by (auto simp: Slices_new_def)
  have "0 \<le> slice_total file"
    unfolding slice_total_def by (simp add: pos_imp_zdiv_nonneg_iff kInSlice_value kPartSize_def)
  then have "int (nat (slice_total file)) = slice_total file" by simp
  then show ?thesis using assms ne
    by (auto simp: Slices_new_def Let_def slices_inv_def slices_ok_def flags_ok_def isFullInHeader_def
        slice_total_def [symmetric] slice_flags_ok_def Slice_new_def parts_ok_def split: if_splits)
qed

lemma Slices_fill_range:
  assumes "Slices_fill offset buffer st = Some x" and "slices_inv file st"
  shows "buffer \<noteq> []" and "0 \<le> offset" and "offset + int (length buffer) \<le> int (length file)"
    and "int (length buffer) \<le> kInSlice"
proof -
  have "sl_size st = int (length file)" using assms(2) by (simp add: slices_inv_def slices_ok_def)
  then show "buffer \<noteq> []" and "0 \<le> offset" and "offset + int (length buffer) \<le> int (length file)"
    and "int (length buffer) \<le> kInSlice"
    using assms(1) by (auto simp: Slices_fill_def split: if_splits)
qed

lemma slices_reachable_inv:
  assumes "slices_reachable file st" and "int (length file) < 2 ^ 31"
  shows "slices_inv file st"
  using assms(1)
proof (induction rule: slices_reachable.induct)
  case (slices_fill st offset buffer r copied st')
  from Slices_fill_ok [OF slices_fill.IH assms(2) Slices_fill_range [OF slices_fill.hyps(2) slices_fill.IH]]
    slices_fill.hyps(2) show ?case by (auto simp: read_ok_def)
next
  case (slices_unload st ser st')
  from unload_ok [OF slices_unload.IH assms(2)] slices_unload.hyps(2) show ?case by auto
qed (blast intro: Slices_new_inv processPart_inv processCacheResult_inv headerDone_inv)+

section \<open>Properties\<close>

text \<open>
  C22: Reading a streamed file never fails an assertion, and a buffer that \<^verbatim>\<open>fill\<close> reports as
  filled holds exactly the bytes of the file at the asked offset, whatever parts arrived, were
  unloaded to the cache and read back before. A buffer that is not filled is left as it was.
\<close>

theorem streaming_fill_returns_file_bytes:
  assumes "slices_reachable file st" and "int (length file) < 2 ^ 31"
    and "buffer \<noteq> []" and "0 \<le> offset" and "offset + int (length buffer) \<le> int (length file)"
    and "int (length buffer) \<le> kInSlice"
  shows "\<exists>r copied st'. Slices_fill offset buffer st = Some (r, copied, st') \<and> slices_reachable file st'
    \<and> copied = (if fr_filled r then take (length buffer) (drop (nat offset) file) else buffer)"
proof -
  from Slices_fill_ok [OF slices_reachable_inv [OF assms(1,2)] assms(2-6)] obtain r copied st' where
    f: "Slices_fill offset buffer st = Some (r, copied, st')" "read_ok file st offset buffer r copied st'" by blast
  moreover have "slices_reachable file st'" by (rule slices_reachable.slices_fill [OF assms(1) f(1)])
  ultimately show ?thesis by (auto simp: read_ok_def segment_def)
qed


text \<open>
  C23: Unloading to the cache never fails an assertion either, and what it writes under the
  number of a slice is an entry that holds only parts of the file when it is read back.
\<close>

theorem streaming_unload_writes_file_parts:
  assumes "slices_reachable file st" and "int (length file) < 2 ^ 31"
  shows "\<exists>ser st'. unloadToCache st = Some (ser, st') \<and> slices_reachable file st'
    \<and> (ser_number ser = -1 \<or> 0 \<le> ser_number ser \<and> entry_ok file (ser_number ser) (ser_data ser))"
proof -
  from unload_ok [OF slices_reachable_inv [OF assms] assms(2)] obtain ser st' where
    u: "unloadToCache st = Some (ser, st')" "ser_ok file ser" by blast
  moreover have "slices_reachable file st'" by (rule slices_reachable.slices_unload [OF assms(1) u(1)])
  ultimately show ?thesis by (auto simp: ser_ok_def)
qed

section \<open>Witnesses\<close>

text \<open>A file of five bytes: the cache has nothing, and its only part arrives.\<close>

definition tiny_file :: byte_array where "tiny_file = [10, 20, 30, 40, 50]"

definition tiny_state :: "Slices option" where
  "tiny_state = do {
     st \<leftarrow> Slices_new 5 True;
     st \<leftarrow> processCacheResult 0 [] st;
     processPart 0 tiny_file st }"

lemma tiny_reachable: "slices_reachable tiny_file (the tiny_state)"
proof -
  obtain st0 st1 st2 where s: "Slices_new (int (length tiny_file)) True = Some st0"
    "processCacheResult 0 [] st0 = Some st1" "processPart 0 tiny_file st1 = Some st2" "tiny_state = Some st2"
  proof -
    have "tiny_state \<noteq> None" by code_simp
    then show ?thesis using that by (auto simp: tiny_state_def tiny_file_def bind_eq_Some_conv)
  qed
  have e: "entry_ok tiny_file 0 []"
    by (simp add: entry_ok_def read_entry_def IsContiguousSerialization_def contiguous_entries.simps
        complex_entries.simps slice_content_def tiny_file_def kMaxOnlyInHeader_def kPartSize_def)
  have p: "part_ok tiny_file (0, tiny_file)"
    by (simp add: part_ok_def segment_def tiny_file_def kPartSize_def)
  have "slices_reachable tiny_file st2"
    by (rule slices_part [OF slices_cache [OF slices_new [OF s(1)] e s(2)] p s(3)])
  then show ?thesis by (simp add: s(4))
qed

lemma tiny_size: "int (length tiny_file) < 2 ^ 31" by (simp add: tiny_file_def)

lemma streaming_fill_returns_file_bytes_witness:
  "\<exists>r copied st'. Slices_fill 1 [0, 0] (the tiny_state) = Some (r, copied, st')
    \<and> slices_reachable tiny_file st' \<and> copied = (if fr_filled r then [20, 30] else [0, 0])"
proof -
  have bytes: "take (length [0, 0 :: 8 word]) (drop (nat 1) tiny_file) = [20, 30]"
    by (simp add: tiny_file_def)
  have range: "[0, 0 :: 8 word] \<noteq> []" "(0::int) \<le> 1" "1 + int (length [0, 0 :: 8 word]) \<le> int (length tiny_file)"
    "int (length [0, 0 :: 8 word]) \<le> kInSlice"
    by (simp_all add: tiny_file_def kInSlice_def kPartSize_def kPartsInSlice_def)
  show ?thesis
    by (rule streaming_fill_returns_file_bytes [OF tiny_reachable tiny_size range, unfolded bytes])
qed

lemma tiny_filled: "case Slices_fill 1 [0, 0] (the tiny_state) of
    None \<Rightarrow> False | Some (r, copied, st') \<Rightarrow> fr_filled r \<and> copied = [20, 30]"
  by code_simp


lemma streaming_unload_writes_file_parts_witness:
  "\<exists>ser st'. unloadToCache (the tiny_state) = Some (ser, st') \<and> slices_reachable tiny_file st'
    \<and> (ser_number ser = -1 \<or> 0 \<le> ser_number ser \<and> entry_ok tiny_file (ser_number ser) (ser_data ser))"
  by (rule streaming_unload_writes_file_parts [OF tiny_reachable tiny_size])

end
