(* ===== verification/StreamingLoader.thy ===== *)
theory StreamingLoader
  imports FlatSet
begin

text \<open>
  \<^verbatim>\<open>Media::Streaming::PriorityQueue\<close> (\<^verbatim>\<open>media/streaming/media_streaming_loader.cpp\<close>): the
  offsets of the parts a streamed file still waits for. Later requests come first: each entry
  remembers the priority that was current when it was last asked for.
\<close>

section \<open>The queue\<close>

record pq_entry =
  pq_value :: int
  pq_prio :: int

definition Entry_less :: "pq_entry \<Rightarrow> pq_entry \<Rightarrow> bool" where
  "Entry_less a b =
     (if pq_prio b < pq_prio a then True
      else if pq_prio a < pq_prio b then False
      else pq_value a < pq_value b)"

record PriorityQueue =
  pq_data :: "pq_entry list"
  pq_priority :: int

definition PriorityQueue_new :: PriorityQueue where
  "PriorityQueue_new = \<lparr>pq_data = [], pq_priority = 0\<rparr>"

text \<open>\<^verbatim>\<open>ranges::find(_data, value, &Entry::value)\<close>: a position, or the size.\<close>

definition pq_find :: "int \<Rightarrow> pq_entry list \<Rightarrow> nat" where
  "pq_find v xs = partition_point (\<lambda>e. pq_value e \<noteq> v) xs"

definition PriorityQueue_add :: "int \<Rightarrow> PriorityQueue \<Rightarrow> bool \<times> PriorityQueue" where
  "PriorityQueue_add v q =
     (let i = pq_find v (pq_data q);
          entry = \<lparr>pq_value = v, pq_prio = pq_priority q\<rparr>
      in if i = length (pq_data q)
         then (True, q\<lparr>pq_data := fst (flat_set_insert Entry_less entry (pq_data q))\<rparr>)
         else if pq_prio (pq_data q ! i) \<noteq> pq_priority q
         then (True, q\<lparr>pq_data := fst (flat_set_insert Entry_less entry (fst (flat_set_erase i (pq_data q))))\<rparr>)
         else (False, q))"

definition PriorityQueue_remove :: "int \<Rightarrow> PriorityQueue \<Rightarrow> bool \<times> PriorityQueue" where
  "PriorityQueue_remove v q =
     (let i = pq_find v (pq_data q)
      in if i = length (pq_data q) then (False, q)
         else (True, q\<lparr>pq_data := fst (flat_set_erase i (pq_data q))\<rparr>))"

definition PriorityQueue_front :: "PriorityQueue \<Rightarrow> int option" where
  "PriorityQueue_front q = (if pq_data q = [] then None else Some (pq_value (hd (pq_data q))))"

definition PriorityQueue_take :: "PriorityQueue \<Rightarrow> int option \<times> PriorityQueue" where
  "PriorityQueue_take q =
     (if pq_data q = [] then (None, q)
      else (Some (pq_value (hd (pq_data q))), q\<lparr>pq_data := fst (flat_set_erase 0 (pq_data q))\<rparr>))"

text \<open>The loop of \<^verbatim>\<open>takeInRange\<close>: the values taken so far and the entries that stay.\<close>

fun take_in_range :: "int \<Rightarrow> int \<Rightarrow> pq_entry list \<Rightarrow> int list \<Rightarrow> int list \<times> pq_entry list" where
  "take_in_range range_start range_end [] result = (result, [])"
| "take_in_range range_start range_end (e # es) result =
     (if range_start \<le> pq_value e \<and> pq_value e < range_end
      then take_in_range range_start range_end es (fst (flat_set_insert (<) (pq_value e) result))
      else let (result', rest) = take_in_range range_start range_end es result in (result', e # rest))"

definition PriorityQueue_takeInRange :: "int \<Rightarrow> int \<Rightarrow> PriorityQueue \<Rightarrow> int list \<times> PriorityQueue" where
  "PriorityQueue_takeInRange range_start range_end q =
     (let (result, rest) = take_in_range range_start range_end (pq_data q) []
      in (result, q\<lparr>pq_data := rest\<rparr>))"

definition PriorityQueue_clear :: "PriorityQueue \<Rightarrow> PriorityQueue" where
  "PriorityQueue_clear q = q\<lparr>pq_data := []\<rparr>"

definition PriorityQueue_increasePriority :: "PriorityQueue \<Rightarrow> PriorityQueue" where
  "PriorityQueue_increasePriority q = q\<lparr>pq_priority := pq_priority q + 1\<rparr>"

section \<open>The invariant\<close>

interpretation entry_order: strict_linear_order Entry_less
  by unfold_locales (auto simp: Entry_less_def split: if_splits)

text \<open>Sorted, each value once, and no priority from the future.\<close>

definition pq_inv :: "PriorityQueue \<Rightarrow> bool" where
  "pq_inv q \<longleftrightarrow> sorted_wrt Entry_less (pq_data q) \<and> distinct (map pq_value (pq_data q))
     \<and> (\<forall>e \<in> set (pq_data q). pq_prio e \<le> pq_priority q)"

text \<open>The queue as the priority of each value in it.\<close>

definition pq_map :: "PriorityQueue \<Rightarrow> int \<Rightarrow> int option" where
  "pq_map q = map_of (map (\<lambda>e. (pq_value e, pq_prio e)) (pq_data q))"

lemma pq_map_iff:
  "pq_inv q \<Longrightarrow> pq_map q v = Some p \<longleftrightarrow> \<lparr>pq_value = v, pq_prio = p\<rparr> \<in> set (pq_data q)"
proof -
  assume "pq_inv q"
  then have "distinct (map fst (map (\<lambda>e. (pq_value e, pq_prio e)) (pq_data q)))"
    by (simp add: pq_inv_def comp_def)
  then have "pq_map q v = Some p \<longleftrightarrow> (v, p) \<in> (\<lambda>e. (pq_value e, pq_prio e)) ` set (pq_data q)"
    unfolding pq_map_def by (simp del: map_map)
  also have "\<dots> \<longleftrightarrow> \<lparr>pq_value = v, pq_prio = p\<rparr> \<in> set (pq_data q)"
  proof -
    have "(v, p) = (pq_value e, pq_prio e) \<longleftrightarrow> e = \<lparr>pq_value = v, pq_prio = p\<rparr>" for e :: pq_entry
      by (cases e) auto
    then show ?thesis unfolding image_iff by simp
  qed
  finally show ?thesis .
qed

lemma pq_find_cases:
  shows "pq_find v xs \<le> length xs"
    and "pq_find v xs < length xs \<longleftrightarrow> v \<in> pq_value ` set xs"
    and "pq_find v xs < length xs \<Longrightarrow> pq_value (xs ! pq_find v xs) = v"
proof -
  show le: "pq_find v xs \<le> length xs" by (simp add: pq_find_def)
  show at: "pq_find v xs < length xs \<Longrightarrow> pq_value (xs ! pq_find v xs) = v"
    using partition_point_stop [of "\<lambda>e. pq_value e \<noteq> v" xs] by (simp add: pq_find_def)
  have "\<forall>e \<in> set (take (pq_find v xs) xs). pq_value e \<noteq> v"
    unfolding pq_find_def by (metis partition_point_take)
  then show "pq_find v xs < length xs \<longleftrightarrow> v \<in> pq_value ` set xs"
  proof (cases "pq_find v xs < length xs")
    case True
    from at [OF True] nth_mem [OF True] have "v \<in> pq_value ` set xs" by (metis image_eqI)
    with True show ?thesis by simp
  next
    case False
    with le have "take (pq_find v xs) xs = xs" by simp
    with \<open>\<forall>e \<in> set (take (pq_find v xs) xs). pq_value e \<noteq> v\<close> False show ?thesis by auto
  qed
qed

lemma erase_value:
  assumes "distinct (map pq_value xs)" and "i < length xs"
  shows "set (erase_at i xs) = {e \<in> set xs. pq_value e \<noteq> pq_value (xs ! i)}"
    and "distinct (map pq_value (erase_at i xs))"
proof -
  have e: "erase_at i xs = take i xs @ drop (Suc i) xs" by (simp add: erase_at_def erase_range_def)
  have xs: "xs = take i xs @ xs ! i # drop (Suc i) xs" using assms(2) by (rule id_take_nth_drop)
  then have d: "distinct (map pq_value (take i xs @ xs ! i # drop (Suc i) xs))" using assms(1) by simp
  show "distinct (map pq_value (erase_at i xs))" using d unfolding e by simp
  have "set xs = set (take i xs) \<union> insert (xs ! i) (set (drop (Suc i) xs))"
    by (subst xs) (simp only: set_append list.set)
  then show "set (erase_at i xs) = {e \<in> set xs. pq_value e \<noteq> pq_value (xs ! i)}"
    using d unfolding e by (auto simp: image_iff)
qed

lemma insert_entry:
  assumes "sorted_wrt Entry_less xs" and "distinct (map pq_value xs)" and "pq_value e \<notin> pq_value ` set xs"
  shows "sorted_wrt Entry_less (fst (flat_set_insert Entry_less e xs))"
    and "set (fst (flat_set_insert Entry_less e xs)) = insert e (set xs)"
    and "distinct (map pq_value (fst (flat_set_insert Entry_less e xs)))"
proof -
  show sorted: "sorted_wrt Entry_less (fst (flat_set_insert Entry_less e xs))"
    by (rule entry_order.insert_sorted [OF assms(1)])
  show set: "set (fst (flat_set_insert Entry_less e xs)) = insert e (set xs)"
    using entry_order.insert_set_eq [OF assms(1)] by simp
  have "inj_on pq_value (insert e (set xs))"
    using assms(2,3) unfolding inj_on_insert by (auto simp: distinct_map)
  moreover have "distinct (fst (flat_set_insert Entry_less e xs))"
    by (rule entry_order.sorted_distinct [OF sorted])
  ultimately show "distinct (map pq_value (fst (flat_set_insert Entry_less e xs)))"
    unfolding distinct_map set by blast
qed

lemma sorted_erase: "sorted_wrt Entry_less xs \<Longrightarrow> sorted_wrt Entry_less (erase_at i xs)"
  by (rule sorted_wrt_erase_at)

lemma take_in_range_eq:
  assumes "sorted_wrt (<) acc"
  shows "take_in_range a b es acc =
    (fst (take_in_range a b es acc), filter (\<lambda>e. \<not> (a \<le> pq_value e \<and> pq_value e < b)) es)"
    and "sorted_wrt (<) (fst (take_in_range a b es acc))"
    and "set (fst (take_in_range a b es acc)) =
      set acc \<union> {v \<in> pq_value ` set es. a \<le> v \<and> v < b}"
proof -
  have "snd (take_in_range a b es acc) = filter (\<lambda>e. \<not> (a \<le> pq_value e \<and> pq_value e < b)) es
    \<and> sorted_wrt (<) (fst (take_in_range a b es acc))
    \<and> set (fst (take_in_range a b es acc)) = set acc \<union> {v \<in> pq_value ` set es. a \<le> v \<and> v < b}"
    using assms
  proof (induction es arbitrary: acc)
    case (Cons e es)
    have "sorted_wrt (<) (fst (flat_set_insert (<) (pq_value e) acc))"
      and "set (fst (flat_set_insert (<) (pq_value e) acc)) = insert (pq_value e) (set acc)"
      using lin.insert_sorted [OF Cons.prems] lin.insert_set_eq [OF Cons.prems] by simp_all
    with Cons show ?case by (auto simp: split_beta Let_def)
  qed simp
  then show "take_in_range a b es acc =
    (fst (take_in_range a b es acc), filter (\<lambda>e. \<not> (a \<le> pq_value e \<and> pq_value e < b)) es)"
    and "sorted_wrt (<) (fst (take_in_range a b es acc))"
    and "set (fst (take_in_range a b es acc)) = set acc \<union> {v \<in> pq_value ` set es. a \<le> v \<and> v < b}"
    by (simp_all add: prod_eq_iff)
qed

lemma find_none: "pq_find v xs = length xs \<longleftrightarrow> v \<notin> pq_value ` set xs"
  using pq_find_cases(1,2) [of v xs] by (metis le_neq_implies_less less_irrefl)

lemma find_removed:
  assumes "distinct (map pq_value xs)" and "pq_find v xs \<noteq> length xs"
  shows "set (fst (flat_set_erase (pq_find v xs) xs)) = {e \<in> set xs. pq_value e \<noteq> v}"
    and "distinct (map pq_value (fst (flat_set_erase (pq_find v xs) xs)))"
proof -
  have i: "pq_find v xs < length xs" using assms(2) pq_find_cases(1) [of v xs] by simp
  show "set (fst (flat_set_erase (pq_find v xs) xs)) = {e \<in> set xs. pq_value e \<noteq> v}"
    using erase_value(1) [OF assms(1) i] pq_find_cases(3) [OF i] by (simp add: flat_set_erase_def)
  show "distinct (map pq_value (fst (flat_set_erase (pq_find v xs) xs)))"
    using erase_value(2) [OF assms(1) i] by (simp add: flat_set_erase_def)
qed

lemma pq_data_unique:
  "pq_inv q \<Longrightarrow> e \<in> set (pq_data q) \<Longrightarrow> e' \<in> set (pq_data q) \<Longrightarrow> pq_value e = pq_value e' \<Longrightarrow> e = e'"
  by (auto simp: pq_inv_def distinct_map inj_on_def)

text \<open>What each operation does to the set of entries.\<close>

lemma add_entries:
  assumes "pq_inv q"
  shows "pq_inv (snd (PriorityQueue_add v q))"
    and "set (pq_data (snd (PriorityQueue_add v q))) =
      insert \<lparr>pq_value = v, pq_prio = pq_priority q\<rparr> {e \<in> set (pq_data q). pq_value e \<noteq> v}"
    and "pq_priority (snd (PriorityQueue_add v q)) = pq_priority q"
    and "fst (PriorityQueue_add v q) \<longleftrightarrow> pq_map q v \<noteq> Some (pq_priority q)"
proof -
  let ?e = "\<lparr>pq_value = v, pq_prio = pq_priority q\<rparr>" and ?i = "pq_find v (pq_data q)"
  have sorted: "sorted_wrt Entry_less (pq_data q)" and dist: "distinct (map pq_value (pq_data q))"
    and prio: "\<forall>e \<in> set (pq_data q). pq_prio e \<le> pq_priority q"
    using assms by (simp_all add: pq_inv_def)
  consider (new) "?i = length (pq_data q)"
    | (old) "?i \<noteq> length (pq_data q)" "pq_prio (pq_data q ! ?i) \<noteq> pq_priority q"
    | (same) "?i \<noteq> length (pq_data q)" "pq_prio (pq_data q ! ?i) = pq_priority q" by blast
  then have all: "pq_inv (snd (PriorityQueue_add v q))
    \<and> set (pq_data (snd (PriorityQueue_add v q))) = insert ?e {e \<in> set (pq_data q). pq_value e \<noteq> v}
    \<and> pq_priority (snd (PriorityQueue_add v q)) = pq_priority q
    \<and> (fst (PriorityQueue_add v q) \<longleftrightarrow> ?e \<notin> set (pq_data q))"
  proof cases
    case new
    then have v: "v \<notin> pq_value ` set (pq_data q)" by (simp add: find_none)
    then have "pq_value ?e \<notin> pq_value ` set (pq_data q)" by simp
    note ins = insert_entry [OF sorted dist this]
    have "{e \<in> set (pq_data q). pq_value e \<noteq> v} = set (pq_data q)" "?e \<notin> set (pq_data q)" using v by force+
    with new ins prio show ?thesis by (simp add: PriorityQueue_add_def Let_def pq_inv_def)
  next
    case old
    then have i: "?i < length (pq_data q)" using pq_find_cases(1) [of v "pq_data q"] by simp
    note rem = find_removed [OF dist old(1)]
    have s: "sorted_wrt Entry_less (fst (flat_set_erase ?i (pq_data q)))"
      using sorted by (simp add: flat_set_erase_def sorted_erase)
    have "pq_value ?e \<notin> pq_value ` set (fst (flat_set_erase ?i (pq_data q)))" using rem(1) by auto
    note ins = insert_entry [OF s rem(2) this]
    have "?e \<notin> set (pq_data q)"
      using pq_data_unique [OF assms nth_mem [OF i], of ?e] pq_find_cases(3) [OF i] old(2) by auto
    with old ins prio show ?thesis by (simp add: PriorityQueue_add_def Let_def pq_inv_def rem(1))
  next
    case same
    then have i: "?i < length (pq_data q)" using pq_find_cases(1) [of v "pq_data q"] by simp
    have at: "pq_data q ! ?i = ?e" using pq_find_cases(3) [OF i] same(2) by (cases "pq_data q ! ?i") simp
    then have "?e \<in> set (pq_data q)" using nth_mem [OF i] by simp
    moreover have "set (pq_data q) = insert ?e {e \<in> set (pq_data q). pq_value e \<noteq> v}"
    proof
      have "e = ?e" if "e \<in> set (pq_data q)" "pq_value e = v" for e
        by (rule pq_data_unique [OF assms that(1) \<open>?e \<in> set (pq_data q)\<close>]) (simp add: that(2))
      then show "set (pq_data q) \<subseteq> insert ?e {e \<in> set (pq_data q). pq_value e \<noteq> v}" by blast
      show "insert ?e {e \<in> set (pq_data q). pq_value e \<noteq> v} \<subseteq> set (pq_data q)"
        using \<open>?e \<in> set (pq_data q)\<close> by blast
    qed
    ultimately show ?thesis using same assms by (simp add: PriorityQueue_add_def Let_def)
  qed
  show "pq_inv (snd (PriorityQueue_add v q))"
    and "set (pq_data (snd (PriorityQueue_add v q))) = insert ?e {e \<in> set (pq_data q). pq_value e \<noteq> v}"
    and "pq_priority (snd (PriorityQueue_add v q)) = pq_priority q"
    by (simp_all only: all)
  have "fst (PriorityQueue_add v q) \<longleftrightarrow> ?e \<notin> set (pq_data q)" by (simp only: all)
  then show "fst (PriorityQueue_add v q) \<longleftrightarrow> pq_map q v \<noteq> Some (pq_priority q)"
    unfolding pq_map_iff [OF assms, of v "pq_priority q"] .
qed

lemma remove_entries:
  assumes "pq_inv q"
  shows "pq_inv (snd (PriorityQueue_remove v q))"
    and "set (pq_data (snd (PriorityQueue_remove v q))) = {e \<in> set (pq_data q). pq_value e \<noteq> v}"
    and "fst (PriorityQueue_remove v q) \<longleftrightarrow> v \<in> pq_value ` set (pq_data q)"
proof -
  have sorted: "sorted_wrt Entry_less (pq_data q)" and dist: "distinct (map pq_value (pq_data q))"
    and prio: "\<forall>e \<in> set (pq_data q). pq_prio e \<le> pq_priority q"
    using assms by (simp_all add: pq_inv_def)
  have "pq_inv (snd (PriorityQueue_remove v q))
    \<and> set (pq_data (snd (PriorityQueue_remove v q))) = {e \<in> set (pq_data q). pq_value e \<noteq> v}
    \<and> (fst (PriorityQueue_remove v q) \<longleftrightarrow> v \<in> pq_value ` set (pq_data q))"
  proof (cases "pq_find v (pq_data q) = length (pq_data q)")
    case True
    then have v: "v \<notin> pq_value ` set (pq_data q)" by (simp add: find_none)
    then have "{e \<in> set (pq_data q). pq_value e \<noteq> v} = set (pq_data q)" by auto
    with True v assms show ?thesis by (simp add: PriorityQueue_remove_def Let_def)
  next
    case False
    note rem = find_removed [OF dist False]
    have "sorted_wrt Entry_less (fst (flat_set_erase (pq_find v (pq_data q)) (pq_data q)))"
      using sorted by (simp add: flat_set_erase_def sorted_erase)
    moreover have "v \<in> pq_value ` set (pq_data q)" using False find_none by metis
    ultimately show ?thesis
      using False rem prio by (simp add: PriorityQueue_remove_def Let_def pq_inv_def)
  qed
  then show "pq_inv (snd (PriorityQueue_remove v q))"
    and "set (pq_data (snd (PriorityQueue_remove v q))) = {e \<in> set (pq_data q). pq_value e \<noteq> v}"
    and "fst (PriorityQueue_remove v q) \<longleftrightarrow> v \<in> pq_value ` set (pq_data q)" by blast+
qed

lemma range_entries:
  assumes "pq_inv q"
  shows "pq_inv (snd (PriorityQueue_takeInRange a b q))"
    and "set (pq_data (snd (PriorityQueue_takeInRange a b q))) =
      {e \<in> set (pq_data q). \<not> (a \<le> pq_value e \<and> pq_value e < b)}"
    and "sorted_wrt (<) (fst (PriorityQueue_takeInRange a b q))"
    and "set (fst (PriorityQueue_takeInRange a b q)) = {v \<in> pq_value ` set (pq_data q). a \<le> v \<and> v < b}"
proof -
  have empty: "sorted_wrt (<) ([] :: int list)" by simp
  note t = take_in_range_eq [OF empty, of a b "pq_data q"]
  have r: "PriorityQueue_takeInRange a b q = (fst (take_in_range a b (pq_data q) []),
      q\<lparr>pq_data := filter (\<lambda>e. \<not> (a \<le> pq_value e \<and> pq_value e < b)) (pq_data q)\<rparr>)"
    unfolding PriorityQueue_takeInRange_def by (subst t(1)) simp
  show "pq_inv (snd (PriorityQueue_takeInRange a b q))"
    using assms by (auto simp: r pq_inv_def intro: sorted_wrt_filter distinct_map_filter)
  show "set (pq_data (snd (PriorityQueue_takeInRange a b q))) =
      {e \<in> set (pq_data q). \<not> (a \<le> pq_value e \<and> pq_value e < b)}"
    by (simp add: r)
  show "sorted_wrt (<) (fst (PriorityQueue_takeInRange a b q))" using t(2) by (simp add: r)
  show "set (fst (PriorityQueue_takeInRange a b q)) = {v \<in> pq_value ` set (pq_data q). a \<le> v \<and> v < b}"
    using t(3) by (simp add: r)
qed

inductive pq_reachable :: "PriorityQueue \<Rightarrow> bool" where
  pq_new: "pq_reachable PriorityQueue_new"
| pq_add: "pq_reachable q \<Longrightarrow> pq_reachable (snd (PriorityQueue_add v q))"
| pq_remove: "pq_reachable q \<Longrightarrow> pq_reachable (snd (PriorityQueue_remove v q))"
| pq_take: "pq_reachable q \<Longrightarrow> pq_reachable (snd (PriorityQueue_take q))"
| pq_take_range: "pq_reachable q \<Longrightarrow> pq_reachable (snd (PriorityQueue_takeInRange a b q))"
| pq_clear: "pq_reachable q \<Longrightarrow> pq_reachable (PriorityQueue_clear q)"
| pq_increase: "pq_reachable q \<Longrightarrow> pq_reachable (PriorityQueue_increasePriority q)"

lemma take_front:
  assumes "pq_inv q" and "pq_data q \<noteq> []"
  shows "pq_inv (snd (PriorityQueue_take q))"
    and "fst (PriorityQueue_take q) = Some (pq_value (hd (pq_data q)))"
    and "set (pq_data (snd (PriorityQueue_take q))) = {e \<in> set (pq_data q). pq_value e \<noteq> pq_value (hd (pq_data q))}"
    and "e \<in> set (pq_data q) \<Longrightarrow> e = hd (pq_data q) \<or> Entry_less (hd (pq_data q)) e"
proof -
  obtain x xs where q: "pq_data q = x # xs" using assms(2) by (cases "pq_data q") auto
  have rest: "pq_data (snd (PriorityQueue_take q)) = xs"
    by (simp add: PriorityQueue_take_def q flat_set_erase_def erase_at_def erase_range_def)
  have prio: "pq_priority (snd (PriorityQueue_take q)) = pq_priority q"
    by (simp add: PriorityQueue_take_def)
  show "pq_inv (snd (PriorityQueue_take q))"
    using assms(1) unfolding pq_inv_def rest prio by (simp add: q)
  show "fst (PriorityQueue_take q) = Some (pq_value (hd (pq_data q)))"
    using assms(2) by (simp add: PriorityQueue_take_def)
  have "pq_value x \<notin> pq_value ` set xs" using assms(1) by (simp add: pq_inv_def q)
  then have "\<forall>e \<in> set xs. pq_value e \<noteq> pq_value x" by (metis image_eqI)
  then show "set (pq_data (snd (PriorityQueue_take q))) = {e \<in> set (pq_data q). pq_value e \<noteq> pq_value (hd (pq_data q))}"
    unfolding rest by (auto simp: q)
  show "e \<in> set (pq_data q) \<Longrightarrow> e = hd (pq_data q) \<or> Entry_less (hd (pq_data q)) e"
    using assms(1) by (auto simp: pq_inv_def q)
qed

lemma pq_reachable_inv: "pq_reachable q \<Longrightarrow> pq_inv q"
proof (induction rule: pq_reachable.induct)
  case pq_new
  then show ?case by (simp add: pq_inv_def PriorityQueue_new_def)
next
  case (pq_add q v)
  show ?case by (rule add_entries(1) [OF pq_add(2)])
next
  case (pq_remove q v)
  show ?case by (rule remove_entries(1) [OF pq_remove(2)])
next
  case (pq_take q)
  then show ?case using take_front(1) [of q] by (cases "pq_data q = []") (simp_all add: PriorityQueue_take_def)
next
  case (pq_take_range q a b)
  show ?case by (rule range_entries(1) [OF pq_take_range(2)])
next
  case (pq_clear q)
  then show ?case by (simp add: pq_inv_def PriorityQueue_clear_def)
next
  case (pq_increase q)
  then show ?case by (auto simp: pq_inv_def PriorityQueue_increasePriority_def)
qed

section \<open>Properties\<close>

text \<open>
  In every reachable queue the offset taken is one with the highest priority, and of those
  the smallest; no value is in the queue twice and no priority is above the current one.
\<close>

theorem priority_queue_take_is_first:
  assumes "pq_reachable q"
  shows "distinct (map pq_value (pq_data q)) \<and> (\<forall>e \<in> set (pq_data q). pq_prio e \<le> pq_priority q)
    \<and> fst (PriorityQueue_take q) = PriorityQueue_front q
    \<and> (PriorityQueue_front q = None \<longleftrightarrow> pq_data q = [])
    \<and> (\<forall>v. PriorityQueue_front q = Some v \<longrightarrow> (\<exists>p. pq_map q v = Some p
        \<and> (\<forall>w r. pq_map q w = Some r \<longrightarrow> r < p \<or> r = p \<and> v \<le> w)))"
proof -
  note inv = pq_reachable_inv [OF assms]
  have "\<exists>p. pq_map q v = Some p \<and> (\<forall>w r. pq_map q w = Some r \<longrightarrow> r < p \<or> r = p \<and> v \<le> w)"
    if v: "PriorityQueue_front q = Some v" for v
  proof -
    have ne: "pq_data q \<noteq> []" and hd: "pq_value (hd (pq_data q)) = v"
      using v by (auto simp: PriorityQueue_front_def split: if_splits)
    have "hd (pq_data q) = \<lparr>pq_value = v, pq_prio = pq_prio (hd (pq_data q))\<rparr>" using hd by simp
    then have "pq_map q v = Some (pq_prio (hd (pq_data q)))"
      using pq_map_iff [OF inv] hd_in_set [OF ne] by simp
    moreover have "r < pq_prio (hd (pq_data q)) \<or> r = pq_prio (hd (pq_data q)) \<and> v \<le> w"
      if wr: "pq_map q w = Some r" for w r
    proof -
      let ?e = "\<lparr>pq_value = w, pq_prio = r\<rparr>"
      have "?e \<in> set (pq_data q)" using wr pq_map_iff [OF inv, of w r] by simp
      then consider "?e = hd (pq_data q)" | "Entry_less (hd (pq_data q)) ?e"
        using take_front(4) [OF inv ne] by blast
      then show ?thesis
      proof cases
        case 1
        have "pq_value ?e = pq_value (hd (pq_data q))" by (rule arg_cong [OF 1])
        moreover have "pq_prio ?e = pq_prio (hd (pq_data q))" by (rule arg_cong [OF 1])
        ultimately show ?thesis using hd by simp
      next
        case 2
        then show ?thesis using hd by (auto simp: Entry_less_def split: if_splits)
      qed
    qed
    ultimately show ?thesis by blast
  qed
  then show ?thesis
    using inv by (auto simp: pq_inv_def PriorityQueue_take_def PriorityQueue_front_def)
qed

definition sample_queue :: PriorityQueue where
  "sample_queue = snd (PriorityQueue_add 7 (PriorityQueue_increasePriority
    (snd (PriorityQueue_add 3 PriorityQueue_new))))"

lemma sample_queue_reachable: "pq_reachable sample_queue"
  unfolding sample_queue_def by (intro pq_reachable.intros)

theorem priority_queue_take_is_first_witness:
  "\<exists>p. pq_map sample_queue 7 = Some p \<and> (\<forall>w r. pq_map sample_queue w = Some r \<longrightarrow> r < p \<or> r = p \<and> 7 \<le> w)"
proof -
  have "PriorityQueue_front sample_queue = Some 7" by code_simp
  then show ?thesis
    using priority_queue_take_is_first [OF sample_queue_reachable, THEN conjunct2, THEN conjunct2,
        THEN conjunct2, THEN conjunct2] by blast
qed

text \<open>
  C31: As a map from the waiting offsets to their priorities, \<^verbatim>\<open>add\<close> gives an offset the
  current priority and says whether that changed anything, \<^verbatim>\<open>remove\<close> takes it out and says
  whether it was in, and \<^verbatim>\<open>takeInRange\<close> takes out and returns exactly the offsets of the range.
\<close>

theorem priority_queue_refines_map:
  assumes "pq_reachable q"
  shows "pq_map (snd (PriorityQueue_add v q)) = (pq_map q)(v \<mapsto> pq_priority q)
    \<and> (fst (PriorityQueue_add v q) \<longleftrightarrow> pq_map q v \<noteq> Some (pq_priority q))
    \<and> pq_map (snd (PriorityQueue_remove v q)) = (pq_map q)(v := None)
    \<and> (fst (PriorityQueue_remove v q) \<longleftrightarrow> v \<in> dom (pq_map q))
    \<and> pq_map (snd (PriorityQueue_takeInRange a b q)) = (pq_map q) |` {w. \<not> (a \<le> w \<and> w < b)}
    \<and> sorted_wrt (<) (fst (PriorityQueue_takeInRange a b q))
    \<and> set (fst (PriorityQueue_takeInRange a b q)) = dom (pq_map q) \<inter> {w. a \<le> w \<and> w < b}"
proof -
  note inv = pq_reachable_inv [OF assms]
  have dom: "dom (pq_map q) = pq_value ` set (pq_data q)"
    by (simp add: pq_map_def dom_map_of_conv_image_fst image_image)
  have ext: "pq_map q' = f" if "pq_inv q'" and
    "\<And>w r. \<lparr>pq_value = w, pq_prio = r\<rparr> \<in> set (pq_data q') \<longleftrightarrow> f w = Some r" for q' f
  proof
    fix w
    show "pq_map q' w = f w" using pq_map_iff [OF that(1), of w] that(2) [of w]
      by (metis not_None_eq)
  qed
  have in_map: "\<lparr>pq_value = w, pq_prio = r\<rparr> \<in> set (pq_data q) \<longleftrightarrow> pq_map q w = Some r" for w r
    using pq_map_iff [OF inv] by simp
  have "pq_map (snd (PriorityQueue_add v q)) = (pq_map q)(v \<mapsto> pq_priority q)"
    by (rule ext [OF add_entries(1) [OF inv]]) (auto simp: add_entries(2) [OF inv] in_map)
  moreover have "pq_map (snd (PriorityQueue_remove v q)) = (pq_map q)(v := None)"
    by (rule ext [OF remove_entries(1) [OF inv]]) (auto simp: remove_entries(2) [OF inv] in_map)
  moreover have "pq_map (snd (PriorityQueue_takeInRange a b q)) = (pq_map q) |` {w. \<not> (a \<le> w \<and> w < b)}"
    by (rule ext [OF range_entries(1) [OF inv]])
      (auto simp: range_entries(2) [OF inv] in_map restrict_map_def)
  ultimately show ?thesis
    using add_entries(4) [OF inv] remove_entries(3) [OF inv] range_entries(3,4) [OF inv] dom by auto
qed

theorem priority_queue_refines_map_witness:
  "set (fst (PriorityQueue_takeInRange 0 5 sample_queue)) = dom (pq_map sample_queue) \<inter> {w. 0 \<le> w \<and> w < 5}"
  using priority_queue_refines_map [OF sample_queue_reachable] by blast

end
