(* ===== verification/StorageEncryption.thy ===== *)
theory StorageEncryption
  imports Prelude
begin

text \<open>
  The cipher state and the key of encrypted files, \<^verbatim>\<open>storage/storage_encryption.cpp\<close>. The hash and the
  counter mode of OpenSSL are parameters, the fields of \<open>crypto\<close>; what its manual says of them is
  \<open>ctr_mode\<close> and \<open>hash_size\<close>. A failed \<^verbatim>\<open>Expects\<close> is \<open>None\<close>.
\<close>

unbundle bit_operations_syntax

type_synonym bytes = "8 word list"

section \<open>The model\<close>

definition kBlockSize :: nat where "kBlockSize = 16"
definition kKeySize :: nat where "kKeySize = 32"
definition kIvSize :: nat where "kIvSize = kBlockSize"
definition kSaltSize :: nat where "kSaltSize = 64"
definition EncryptionKey_kSize :: nat where "EncryptionKey_kSize = 256"

text \<open>\<^verbatim>\<open>Sha256\<close> of the concatenation, and \<^verbatim>\<open>CRYPTO_ctr128_encrypt\<close> with a key and a first counter.\<close>

record crypto =
  sha256 :: "bytes \<Rightarrow> bytes"
  ctr128 :: "bytes \<Rightarrow> bytes \<Rightarrow> bytes \<Rightarrow> bytes"

record CtrState =
  ctr_key :: bytes
  ctr_iv :: bytes

definition CtrState_new :: "bytes \<Rightarrow> bytes \<Rightarrow> CtrState option" where
  "CtrState_new key iv =
     (if length key = kKeySize \<and> length iv = kIvSize then Some \<lparr>ctr_key = key, ctr_iv = iv\<rparr> else None)"

text \<open>The loop of \<^verbatim>\<open>incrementedIv\<close>, with the digit it is at; \<open>increment\<close> wraps as \<^verbatim>\<open>uint64\<close>.\<close>

fun increment_digits :: "nat \<Rightarrow> 64 word \<Rightarrow> bytes \<Rightarrow> bytes" where
  "increment_digits 0 increment result = result"
| "increment_digits (Suc digits) increment result =
     (let increment1 = increment + ucast (result ! digits);
          result1 = result[digits := ucast (increment1 AND 0xFF)];
          increment2 = drop_bit 8 increment1
      in if digits \<noteq> 0 \<and> increment2 \<noteq> 0 then increment_digits digits increment2 result1 else result1)"

definition incrementedIv :: "CtrState \<Rightarrow> int \<Rightarrow> bytes option" where
  "incrementedIv st blockIndex =
     (if blockIndex < 0 then None
      else if blockIndex = 0 then Some (ctr_iv st)
      else Some (increment_digits kIvSize (word_of_int blockIndex) (ctr_iv st)))"

definition CtrState_process :: "crypto \<Rightarrow> CtrState \<Rightarrow> bytes \<Rightarrow> int \<Rightarrow> bytes option" where
  "CtrState_process c st data offset =
     (if length data mod kBlockSize = 0 \<and> offset mod int kBlockSize = 0
      then map_option (\<lambda>iv. ctr128 c (ctr_key st) iv data) (incrementedIv st (offset div int kBlockSize))
      else None)"

text \<open>Counter mode decrypts as it encrypts.\<close>

definition CtrState_encrypt :: "crypto \<Rightarrow> CtrState \<Rightarrow> bytes \<Rightarrow> int \<Rightarrow> bytes option" where
  "CtrState_encrypt c st data offset = CtrState_process c st data offset"

definition CtrState_decrypt :: "crypto \<Rightarrow> CtrState \<Rightarrow> bytes \<Rightarrow> int \<Rightarrow> bytes option" where
  "CtrState_decrypt c st data offset = CtrState_process c st data offset"

definition EncryptionKey_new :: "bytes \<Rightarrow> bytes option" where
  "EncryptionKey_new data = (if length data = EncryptionKey_kSize then Some data else None)"

definition prepareCtrState :: "crypto \<Rightarrow> bytes \<Rightarrow> bytes \<Rightarrow> CtrState option" where
  "prepareCtrState c data salt =
     (if length salt = kSaltSize
      then CtrState_new
        (sha256 c (take (EncryptionKey_kSize div 2) data @ take (kSaltSize div 2) salt))
        (take kIvSize (sha256 c (drop (EncryptionKey_kSize div 2) data @ drop (kSaltSize div 2) salt)))
      else None)"

section \<open>Counters\<close>

text \<open>Bytes as a number, the most significant first, and back.\<close>

definition be_value :: "bytes \<Rightarrow> nat" where
  "be_value bs = foldl (\<lambda>v b. v * 256 + unat b) 0 bs"

fun be_bytes :: "nat \<Rightarrow> nat \<Rightarrow> bytes" where
  "be_bytes 0 v = []"
| "be_bytes (Suc n) v = be_bytes n (v div 256) @ [word_of_nat (v mod 256)]"

lemma be_value_simps [simp]: "be_value [] = 0" "be_value (bs @ [b]) = be_value bs * 256 + unat b"
  by (simp_all add: be_value_def)

lemma unat_octet [simp]: "unat b < 256" for b :: "8 word"
  using unsigned_less [of b, where ?'a = nat] by simp

lemma length_be_bytes [simp]: "length (be_bytes n v) = n"
  by (induction n v rule: be_bytes.induct) simp_all

lemma be_bytes_value: "be_bytes (length bs) (be_value bs) = bs"
  by (induction bs rule: rev_induct) simp_all

lemma be_value_less: "be_value bs < 256 ^ length bs"
proof (induction bs rule: rev_induct)
  case (snoc b bs)
  then have "Suc (be_value bs) \<le> 256 ^ length bs" by simp
  then have "Suc (be_value bs) * 256 \<le> 256 ^ length bs * 256" by (rule mult_le_mono1)
  then show ?case using unat_octet [of b] by (simp del: unat_octet)
qed simp

lemma be_value_bytes: "be_value (be_bytes n v) = v mod 256 ^ n"
proof (induction n arbitrary: v)
  case (Suc n)
  have "unat (word_of_nat (v mod 256) :: 8 word) = v mod 256"
    by (simp add: unat_of_nat)
  then show ?case by (simp add: Suc.IH mod_mult2_eq)
qed simp

lemma be_value_inj: "length bs = length cs \<Longrightarrow> be_value bs = be_value cs \<Longrightarrow> bs = cs"
  by (metis be_bytes_value)

lemma increment_digits_length [simp]: "length (increment_digits n inc r) = length r"
  by (induction n inc r rule: increment_digits.induct) (simp_all add: Let_def)

lemma increment_digits_value:
  "n \<le> length r \<Longrightarrow> unat inc < 2 ^ 63 \<Longrightarrow>
    be_value (take n (increment_digits n inc r)) = (be_value (take n r) + unat inc) mod 256 ^ n
    \<and> drop n (increment_digits n inc r) = drop n r"
proof (induction n inc r rule: increment_digits.induct)
  case (2 d inc r)
  let ?b = "unat (r ! d)"
  let ?i1 = "inc + ucast (r ! d)"
  let ?r1 = "r[d := ucast (?i1 AND 0xFF)]"
  let ?i2 = "drop_bit 8 ?i1"
  let ?V = "be_value (take d r)"
  have b: "?b < 256" by simp
  have "?b < 2 ^ 64" using b by (rule order_less_trans) simp
  then have ub: "unat (ucast (r ! d) :: 64 word) = ?b" by (simp add: unsigned_ucast_eq take_bit_nat_eq_self)
  have i1: "unat ?i1 = unat inc + ?b"
    using 2(3) b ub by (subst unat_plus_simple [THEN iffD1]) (simp_all add: no_olen_add_nat del: unat_octet)
  have i2: "unat ?i2 = (unat inc + ?b) div 256" by (simp only: unat_drop_bit_eq i1) (simp add: drop_bit_eq_div)
  have digit: "unat (ucast (?i1 AND 0xFF) :: 8 word) = (unat inc + ?b) mod 256"
  proof -
    have "(?i1 AND 0xFF) = take_bit 8 ?i1" by (simp add: take_bit_eq_mask mask_eq_exp_minus_1)
    then have "unat (?i1 AND 0xFF) = take_bit 8 (unat ?i1)" by (simp only: unsigned_take_bit_eq)
    then have "unat (?i1 AND 0xFF) = (unat inc + ?b) mod 256" by (simp only: i1) (simp add: take_bit_eq_mod)
    then show ?thesis by (simp add: unsigned_ucast_eq take_bit_eq_mod)
  qed
  have t: "take (Suc d) xs = take d xs @ [xs ! d]" if "length xs = length r" for xs :: bytes
    using 2(2) that by (simp add: take_Suc_conv_app_nth)
  have split: "(?V * 256 + ?b + unat inc) mod (256 * 256 ^ d) =
      (?V + (unat inc + ?b) div 256) mod 256 ^ d * 256 + (unat inc + ?b) mod 256"
  proof -
    have e: "?V * 256 + ?b + unat inc = (?V + (unat inc + ?b) div 256) * 256 + (unat inc + ?b) mod 256" by simp
    have m: "(q * 256 + r) mod (256 * m) = q mod m * 256 + r" if "r < 256" for q r m :: nat
      using that by (simp add: mod_mult2_eq)
    show ?thesis unfolding e by (rule m) simp
  qed
  show ?case
  proof (cases "d \<noteq> 0 \<and> ?i2 \<noteq> 0")
    case True
    have "(x + y) div 256 < 2 ^ 63" if "x < 2 ^ 63" "y < 256" for x y :: nat using that by simp
    from this [OF 2(3) b] have "unat ?i2 < 2 ^ 63" by (simp only: i2)
    with 2(1) [OF refl refl refl True] 2(2)
    have IH: "be_value (take d (increment_digits d ?i2 ?r1)) = (?V + unat ?i2) mod 256 ^ d"
      "drop d (increment_digits d ?i2 ?r1) = drop d ?r1" by simp_all
    have nth: "increment_digits d ?i2 ?r1 ! d = ucast (?i1 AND 0xFF)"
      using IH(2) 2(2) by (metis Suc_le_lessD hd_drop_conv_nth increment_digits_length length_list_update nth_list_update_eq)
    have "drop (Suc d) (increment_digits d ?i2 ?r1) = drop (Suc d) r"
      using arg_cong [OF IH(2), of "drop 1"] by simp
    then show ?thesis using True IH(1) nth digit split i2 2(2)
      by (simp add: Let_def t)
  next
    case False
    have "(?V + (unat inc + ?b) div 256) mod 256 ^ d = ?V"
    proof (cases "d = 0")
      case False
      with \<open>\<not> (d \<noteq> 0 \<and> ?i2 \<noteq> 0)\<close> have "(unat inc + ?b) div 256 = 0" using i2 by simp
      moreover have "?V < 256 ^ d" using be_value_less [of "take d r"] 2(2) by simp
      ultimately show ?thesis by simp
    qed simp
    moreover have "increment_digits (Suc d) inc r = ?r1"
      by (simp only: increment_digits.simps Let_def False if_False)
    ultimately show ?thesis using split digit 2(2) by (simp add: t del: increment_digits.simps)
  qed
qed simp

text \<open>The counter \<open>i\<close> blocks after \<open>iv\<close>: the 128-bit sum, most significant byte first.\<close>

definition counter :: "bytes \<Rightarrow> nat \<Rightarrow> bytes" where
  "counter iv i = be_bytes 16 ((be_value iv + i) mod 2 ^ 128)"

lemma counter_counter: "counter (counter iv i) j = counter iv (i + j)"
  by (simp add: counter_def be_value_bytes mod_add_left_eq add.assoc)

lemma length_counter [simp]: "length (counter iv i) = 16"
  by (simp add: counter_def)

lemma incrementedIv_counter:
  assumes "length (ctr_iv st) = kIvSize" and "0 \<le> n" and "n < 2 ^ 63"
  shows "incrementedIv st n = Some (counter (ctr_iv st) (nat n))"
proof -
  have l: "length (ctr_iv st) = 16" using assms(1) by (simp add: kIvSize_def kBlockSize_def)
  have zero: "counter (ctr_iv st) 0 = ctr_iv st"
    using be_value_less [of "ctr_iv st"] be_bytes_value [of "ctr_iv st"] by (simp add: counter_def l)
  have u: "unat (word_of_int n :: 64 word) = nat n"
    using assms(2,3) by (simp add: unsigned_of_int take_bit_int_eq_self)
  have "increment_digits 16 (word_of_int n) (ctr_iv st) = counter (ctr_iv st) (nat n)"
  proof (rule be_value_inj)
    have "unat (word_of_int n :: 64 word) < 2 ^ 63" using assms(2,3) by (simp add: u nat_less_iff)
    then show "be_value (increment_digits 16 (word_of_int n) (ctr_iv st)) = be_value (counter (ctr_iv st) (nat n))"
      using increment_digits_value [of 16 "ctr_iv st" "word_of_int n"] l u by (simp add: counter_def be_value_bytes)
  qed (simp add: l)
  then show ?thesis using assms(2) zero by (auto simp: incrementedIv_def kIvSize_def kBlockSize_def)
qed

end
