(* ===== verification/CacheTypes.thy ===== *)
theory CacheTypes
  imports StorageEncryption
begin

text \<open>
  The types of the disk cache, \<^verbatim>\<open>storage/cache/storage_cache_types.h\<close> and \<^verbatim>\<open>.cpp\<close>: keys with their
  order, settings, and the records of the binlog with their bytes. The structures have no padding
  and numbers are little-endian, as on the platforms of the program. A failed \<^verbatim>\<open>Expects\<close> is \<open>None\<close>.
\<close>

section \<open>Keys\<close>

datatype Key = Key (key_high: "64 word") (key_low: "64 word")

text \<open>\<^verbatim>\<open>operator<\<close> compares the pairs.\<close>

definition Key_less :: "Key \<Rightarrow> Key \<Rightarrow> bool" where
  "Key_less a b \<longleftrightarrow> key_high a < key_high b \<or> key_high a = key_high b \<and> key_low a < key_low b"

instantiation Key :: linorder
begin

definition less_Key :: "Key \<Rightarrow> Key \<Rightarrow> bool" where
  "less_Key a b = Key_less a b"

definition less_eq_Key :: "Key \<Rightarrow> Key \<Rightarrow> bool" where
  "less_eq_Key a b \<longleftrightarrow> a < b \<or> a = b"

instance
proof
  fix x y z :: Key
  show "x < y \<longleftrightarrow> x \<le> y \<and> \<not> y \<le> x" by (auto simp: less_Key_def Key_less_def less_eq_Key_def)
  show "x \<le> x" by (simp add: less_eq_Key_def)
  show "x \<le> y \<Longrightarrow> y \<le> z \<Longrightarrow> x \<le> z" by (auto simp: less_Key_def Key_less_def less_eq_Key_def)
  show "x \<le> y \<Longrightarrow> y \<le> x \<Longrightarrow> x = y" by (auto simp: less_Key_def Key_less_def less_eq_Key_def)
  show "x \<le> y \<or> y \<le> x" by (cases x; cases y) (auto simp: less_Key_def Key_less_def less_eq_Key_def)
qed

end

text \<open>\<^verbatim>\<open>std::set\<close> of keys: a sorted list, with \<^verbatim>\<open>emplace\<close> and \<^verbatim>\<open>erase\<close>.\<close>

definition set_emplace :: "'a::linorder \<Rightarrow> 'a list \<Rightarrow> 'a list" where
  "set_emplace key s = (if key \<in> set s then s else insort key s)"

definition set_erase :: "'a \<Rightarrow> 'a list \<Rightarrow> 'a list" where
  "set_erase key s = remove1 key s"

lemma set_set_emplace [simp]: "set (set_emplace key s) = insert key (set s)"
  by (auto simp: set_emplace_def set_insort_key)

lemma set_emplace_ok: "sorted s \<Longrightarrow> distinct s \<Longrightarrow> sorted (set_emplace key s) \<and> distinct (set_emplace key s)"
  by (simp add: set_emplace_def sorted_insort distinct_insort)

lemma length_set_emplace: "length (set_emplace key s) \<le> Suc (length s)"
  by (simp add: set_emplace_def)

lemma set_set_erase [simp]: "distinct s \<Longrightarrow> set (set_erase key s) = set s - {key}"
  by (simp add: set_erase_def)

lemma set_erase_ok: "sorted s \<Longrightarrow> distinct s \<Longrightarrow> sorted (set_erase key s) \<and> distinct (set_erase key s)"
  by (simp add: set_erase_def sorted_remove1)

lemma length_set_erase: "length (set_erase key s) \<le> length s"
  by (simp add: set_erase_def length_remove1)

section \<open>Errors, settings and values\<close>

datatype Error_Type = NoError | IO | WrongKeyError | LockFailedError

definition kDataSizeLimit :: int where "kDataSizeLimit = 2 ^ 24"
definition kBundledRecordsLimit :: int where "kBundledRecordsLimit = 2 ^ 24"
definition kRecordSizeUnknown :: int where "kRecordSizeUnknown = -1"
definition kRecordSizeInvalid :: int where "kRecordSizeInvalid = -2"

record Settings =
  maxBundledRecords :: int
  readBlockSize :: int
  maxDataSize :: int
  writeBundleDelay :: int
  staleRemoveChunk :: int
  compactAfterExcess :: int
  compactAfterFullSize :: int
  compactChunkSize :: int
  trackEstimatedTime :: bool
  totalSizeLimit :: int
  totalTimeLimit :: int
  pruneTimeout :: int
  maxPruneCheckTimeout :: int
  clearOnWrongKey :: bool

definition Settings_new :: Settings where
  "Settings_new = \<lparr>maxBundledRecords = 16 * 1024, readBlockSize = 8 * 1024 * 1024, maxDataSize = kDataSizeLimit - 1,
     writeBundleDelay = 15 * 60 * 1000, staleRemoveChunk = 256, compactAfterExcess = 8 * 1024 * 1024,
     compactAfterFullSize = 0, compactChunkSize = 16 * 1024, trackEstimatedTime = True,
     totalSizeLimit = 1024 * 1024 * 1024, totalTimeLimit = 31 * 24 * 60 * 60, pruneTimeout = 5 * 1000,
     maxPruneCheckTimeout = 3600 * 1000, clearOnWrongKey = False\<rparr>"

record SettingsUpdate =
  new_totalSizeLimit :: int
  new_totalTimeLimit :: int

record TaggedValue =
  tv_bytes :: bytes
  tv_tag :: "8 word"

definition TaggedValue_empty :: TaggedValue where
  "TaggedValue_empty = \<lparr>tv_bytes = [], tv_tag = 0\<rparr>"

record TaggedSummary =
  ts_count :: int
  ts_totalSize :: int

section \<open>Packed numbers\<close>

text \<open>The loop of \<^verbatim>\<open>ReadTo\<close> over the elements, and that of \<^verbatim>\<open>ReadFrom\<close> over them reversed.\<close>

fun pack_elements :: "nat \<Rightarrow> nat \<Rightarrow> bytes" where
  "pack_elements 0 count = []"
| "pack_elements (Suc n) count = word_of_nat (count mod 256) # pack_elements n (count div 256)"

definition ReadTo :: "nat \<Rightarrow> int \<Rightarrow> bytes option" where
  "ReadTo n count = (if 0 \<le> count \<and> count < 2 ^ (n * 8) then Some (pack_elements n (nat count)) else None)"

definition ReadFrom :: "bytes \<Rightarrow> int" where
  "ReadFrom count = foldl (\<lambda>result element. result * 256 + int (unat element)) 0 (rev count)"

definition ValidateStrictCount :: "bytes \<Rightarrow> int" where
  "ValidateStrictCount count = (let result = ReadFrom count in if result \<noteq> 0 then result else -1)"

lemma length_pack_elements [simp]: "length (pack_elements n v) = n"
  by (induction n v rule: pack_elements.induct) simp_all

lemma ReadFrom_Cons [simp]: "ReadFrom [] = 0" "ReadFrom (b # bs) = ReadFrom bs * 256 + int (unat b)"
  by (simp_all add: ReadFrom_def)

lemma ReadFrom_nonneg: "0 \<le> ReadFrom bs"
  by (induction bs) simp_all

lemma ReadFrom_pack: "ReadFrom (pack_elements n v) = int (v mod 256 ^ n)"
proof (induction n arbitrary: v)
  case (Suc n)
  have "unat (word_of_nat (v mod 256) :: 8 word) = v mod 256" by (simp add: unat_of_nat)
  then show ?case by (simp add: Suc.IH mod_mult2_eq)
qed simp

lemma pack_ReadFrom: "length bs = n \<Longrightarrow> pack_elements n (nat (ReadFrom bs)) = bs"
proof (induction bs arbitrary: n)
  case (Cons b bs)
  have n: "nat (ReadFrom (b # bs)) = nat (ReadFrom bs) * 256 + unat b"
    using ReadFrom_nonneg [of bs] by (simp add: nat_add_distrib nat_mult_distrib)
  have "nat (ReadFrom (b # bs)) mod 256 = unat b" "nat (ReadFrom (b # bs)) div 256 = nat (ReadFrom bs)"
    unfolding n by simp_all
  then show ?case using Cons by auto
qed simp

section \<open>Records\<close>

text \<open>
  A time point: seconds that only grow, in the code as two halves of 32 bits, and the system time
  at which they were counted.
\<close>

record EstimatedTimePoint =
  tp_relative :: nat
  tp_system :: nat

definition EstimatedTimePoint_new :: EstimatedTimePoint where
  "EstimatedTimePoint_new = \<lparr>tp_relative = 0, tp_system = 0\<rparr>"

definition relative1 :: "EstimatedTimePoint \<Rightarrow> nat" where "relative1 time = tp_relative time mod 2 ^ 32"
definition relative2 :: "EstimatedTimePoint \<Rightarrow> nat" where "relative2 time = tp_relative time div 2 ^ 32 mod 2 ^ 32"

record Store =
  store_tag :: "8 word"
  store_size :: bytes
  store_place :: bytes
  store_checksum :: "32 word"
  store_key :: Key

record StoreWithTime = Store +
  store_time :: EstimatedTimePoint

definition Store_new :: Store where
  "Store_new = \<lparr>store_tag = 0, store_size = [0, 0, 0], store_place = [0, 0, 0, 0, 0, 0, 0], store_checksum = 0,
     store_key = Key 0 0\<rparr>"

definition Store_setSize :: "int \<Rightarrow> 'a Store_scheme \<Rightarrow> 'a Store_scheme option" where
  "Store_setSize n record = map_option (\<lambda>packed. record\<lparr>store_size := packed\<rparr>) (ReadTo 3 n)"

definition Store_getSize :: "'a Store_scheme \<Rightarrow> int" where
  "Store_getSize record = ReadFrom (store_size record)"

text \<open>What a record of the binlog says; bundles have their parts.\<close>

datatype binlog_record =
    RecordStore Store
  | RecordStoreWithTime StoreWithTime
  | RecordMultiStore "Store list"
  | RecordMultiStoreWithTime "StoreWithTime list"
  | RecordMultiRemove "Key list"
  | RecordMultiAccess EstimatedTimePoint "Key list"

definition kType_Store :: "8 word" where "kType_Store = 1"
definition kType_MultiStore :: "8 word" where "kType_MultiStore = 2"
definition kType_MultiRemove :: "8 word" where "kType_MultiRemove = 3"
definition kType_MultiAccess :: "8 word" where "kType_MultiAccess = 4"

section \<open>Their bytes\<close>

definition bytes_of_key :: "Key \<Rightarrow> bytes" where
  "bytes_of_key key = pack_elements 8 (unat (key_high key)) @ pack_elements 8 (unat (key_low key))"

definition key_of_bytes :: "bytes \<Rightarrow> Key" where
  "key_of_bytes bs = Key (word_of_int (ReadFrom (take 8 bs))) (word_of_int (ReadFrom (take 8 (drop 8 bs))))"

definition bytes_of_time :: "EstimatedTimePoint \<Rightarrow> bytes" where
  "bytes_of_time time = pack_elements 4 (relative1 time) @ pack_elements 4 (relative2 time) @ pack_elements 4 (tp_system time)"

definition time_of_bytes :: "bytes \<Rightarrow> EstimatedTimePoint" where
  "time_of_bytes bs =
     \<lparr>tp_relative = nat (ReadFrom (take 4 bs) + ReadFrom (take 4 (drop 4 bs)) * 2 ^ 32),
      tp_system = nat (ReadFrom (take 4 (drop 8 bs)))\<rparr>"

definition bytes_of_store :: "'a Store_scheme \<Rightarrow> bytes" where
  "bytes_of_store record =
     [kType_Store, store_tag record] @ store_size record @ store_place record
     @ pack_elements 4 (unat (store_checksum record)) @ bytes_of_key (store_key record)"

definition bytes_of_store_with_time :: "StoreWithTime \<Rightarrow> bytes" where
  "bytes_of_store_with_time record = bytes_of_store record @ bytes_of_time (store_time record) @ [0, 0, 0, 0]"

definition store_of_bytes :: "bytes \<Rightarrow> Store" where
  "store_of_bytes bs =
     \<lparr>store_tag = bs ! 1, store_size = take 3 (drop 2 bs), store_place = take 7 (drop 5 bs),
      store_checksum = word_of_int (ReadFrom (take 4 (drop 12 bs))), store_key = key_of_bytes (take 16 (drop 16 bs))\<rparr>"

definition store_with_time_of_bytes :: "bytes \<Rightarrow> StoreWithTime" where
  "store_with_time_of_bytes bs =
     \<lparr>store_tag = bs ! 1, store_size = take 3 (drop 2 bs), store_place = take 7 (drop 5 bs),
      store_checksum = word_of_int (ReadFrom (take 4 (drop 12 bs))), store_key = key_of_bytes (take 16 (drop 16 bs)),
      store_time = time_of_bytes (take 12 (drop 32 bs))\<rparr>"

text \<open>The headers of the bundles, with their constructors.\<close>

definition bundle_header :: "8 word \<Rightarrow> int \<Rightarrow> bytes \<Rightarrow> bytes option" where
  "bundle_header type count rest =
     (if 0 \<le> count \<and> count < kBundledRecordsLimit then map_option (\<lambda>packed. type # packed @ rest) (ReadTo 3 count) else None)"

definition MultiStore_new :: "int \<Rightarrow> bytes option" where
  "MultiStore_new count = bundle_header kType_MultiStore count (replicate 12 0)"

definition MultiRemove_new :: "int \<Rightarrow> bytes option" where
  "MultiRemove_new count = bundle_header kType_MultiRemove count (replicate 12 0)"

definition MultiAccess_new :: "EstimatedTimePoint \<Rightarrow> int \<Rightarrow> bytes option" where
  "MultiAccess_new time count = bundle_header kType_MultiAccess count (bytes_of_time time)"

lemma length_bytes_of_key [simp]: "length (bytes_of_key key) = 16"
  by (simp add: bytes_of_key_def)

lemma length_bytes_of_time [simp]: "length (bytes_of_time time) = 12"
  by (simp add: bytes_of_time_def)

lemma key_bytes [simp]: "key_of_bytes (bytes_of_key key) = key"
proof -
  have "unat w mod 256 ^ 8 = unat w" for w :: "64 word"
    using unsigned_less [of w, where ?'a = nat] by simp
  then show ?thesis
    by (cases key) (simp add: key_of_bytes_def bytes_of_key_def ReadFrom_pack)
qed

definition time_ok :: "EstimatedTimePoint \<Rightarrow> bool" where
  "time_ok time \<longleftrightarrow> tp_relative time < 2 ^ 64 \<and> tp_system time < 2 ^ 32"

lemma time_bytes [simp]:
  assumes "time_ok time"
  shows "time_of_bytes (bytes_of_time time) = time"
proof -
  have "tp_relative time < 2 ^ 32 * 2 ^ 32" using assms by (simp add: time_ok_def)
  then have "tp_relative time div 2 ^ 32 < 2 ^ 32" by (rule less_mult_imp_div_less)
  then have r: "relative2 time = tp_relative time div 2 ^ 32" by (simp add: relative2_def)
  have "nat (int (relative1 time) + int (relative2 time) * 2 ^ 32) = relative1 time + relative2 time * 2 ^ 32"
    by (simp add: nat_add_distrib nat_mult_distrib)
  also have "\<dots> = tp_relative time" by (simp only: r relative1_def mod_div_mult_eq)
  finally have s: "nat (int (relative1 time) + int (relative2 time) * 2 ^ 32) = tp_relative time" .
  have m: "relative1 time mod 256 ^ 4 = relative1 time" "relative2 time mod 256 ^ 4 = relative2 time"
    "tp_system time mod 256 ^ 4 = tp_system time"
    using assms by (simp_all add: relative1_def relative2_def time_ok_def)
  show ?thesis
    unfolding time_of_bytes_def bytes_of_time_def using s
    by (simp add: ReadFrom_pack m del: power_numeral)
qed

definition store_ok :: "'a Store_scheme \<Rightarrow> bool" where
  "store_ok record \<longleftrightarrow> length (store_size record) = 3 \<and> length (store_place record) = 7"

lemma length_bytes_of_store [simp]:
  "store_ok r \<Longrightarrow> length (bytes_of_store r) = 32"
  "store_ok rt \<Longrightarrow> length (bytes_of_store_with_time rt) = 48"
  by (simp_all add: bytes_of_store_def bytes_of_store_with_time_def store_ok_def)

lemma store_bytes [simp]: "store_ok r \<Longrightarrow> store_of_bytes (bytes_of_store r) = r"
proof -
  assume "store_ok r"
  moreover have "unat w mod 256 ^ 4 = unat w" for w :: "32 word"
    using unsigned_less [of w, where ?'a = nat] by simp
  ultimately show ?thesis
    by (cases r) (simp add: store_of_bytes_def bytes_of_store_def store_ok_def ReadFrom_pack)
qed

lemma store_with_time_bytes [simp]:
  assumes "store_ok r" and "time_ok (store_time r)"
  shows "store_with_time_of_bytes (bytes_of_store_with_time r) = r"
proof -
  have "unat w mod 256 ^ 4 = unat w" for w :: "32 word"
    using unsigned_less [of w, where ?'a = nat] by simp
  then show ?thesis using assms
    by (cases r) (simp add: store_with_time_of_bytes_def bytes_of_store_with_time_def bytes_of_store_def store_ok_def ReadFrom_pack)
qed

end
