(* ===== verification/StreamingReader.thy ===== *)
theory StreamingReader
  imports StreamingReads StreamingLoader CacheTypes
begin

text \<open>
  The reader of a streamed file (\<^verbatim>\<open>Media::Streaming::Reader\<close>,
  \<^verbatim>\<open>media/streaming/media_streaming_reader.cpp\<close>): it answers reads from the slices, asks the
  cache and the loader for what is missing and writes what it unloads to the cache. Its calls of
  the loader, of the cache and of the semaphore are recorded as events in the order they are
  made; what the other side sends arrives through \<^verbatim>\<open>cache_answered\<close> and \<^verbatim>\<open>part_loaded\<close>, the two
  callbacks. A failed \<^verbatim>\<open>Expects\<close> or \<^verbatim>\<open>Assert\<close> is the result \<open>None\<close>.
\<close>

section \<open>State\<close>

datatype Error = OpenFailed | LoadFailed | InvalidData | NotStreamable

text \<open>The key of a slice: the base key moved on by the slice number.\<close>

definition CacheHelper_key :: "Key \<Rightarrow> int \<Rightarrow> Key" where
  "CacheHelper_key baseKey sliceNumber =
     Key (key_high baseKey) (key_low baseKey + word_of_int sliceNumber)"

datatype event =
    CacheGet Key
  | CachePut Key byte_array
  | CacheSync
  | LoaderLoad int
  | LoaderCancel int
  | LoaderIncreasePriority
  | NotifyRelease

text \<open>
  \<open>rd_baseKey\<close> and the next two fields are the \<^verbatim>\<open>CacheHelper\<close>, there is none without a key;
  \<open>rd_waiting\<close> and \<open>rd_cacheWaiting\<close> tell whether the pointers to the semaphore are set.
\<close>

record Reader =
  rd_baseKey :: "Key option"
  rd_results :: parts_map
  rd_cacheWaiting :: bool
  rd_loadedParts :: "(int \<times> byte_array) list"
  rd_waiting :: bool
  rd_loadingOffsets :: PriorityQueue
  rd_slices :: Slices
  rd_failed :: "Error option"
  rd_events :: "event list"

definition kFailedOffset :: int where "kFailedOffset = -1"

definition emit :: "event \<Rightarrow> Reader \<Rightarrow> Reader" where
  "emit e r = r\<lparr>rd_events := rd_events r @ [e]\<rparr>"

section \<open>Cache and loader\<close>

text \<open>The call for the first slice of a good header is one for the header.\<close>

definition readFromCache :: "int \<Rightarrow> Reader \<Rightarrow> Reader option" where
  "readFromCache sliceNumber r =
     (case rd_baseKey r of
       None \<Rightarrow> None
     | Some baseKey \<Rightarrow>
         if \<not> (sliceNumber = 0 \<or> \<not> headerModeUnknown (rd_slices r)) then None
         else
           let asked = (if sliceNumber = 1 \<and> isGoodHeader (rd_slices r) then 0 else sliceNumber)
           in Some (emit (CacheGet (CacheHelper_key baseKey asked)) r))"

text \<open>The answer of the cache, \<^verbatim>\<open>results.emplace\<close>.\<close>

definition cache_answered :: "int \<Rightarrow> byte_array \<Rightarrow> Reader \<Rightarrow> Reader" where
  "cache_answered sliceNumber result r =
     (let r1 = r\<lparr>rd_results := fst (flat_map_insert (<) (sliceNumber, result) (rd_results r))\<rparr>
      in if rd_cacheWaiting r1 then emit NotifyRelease (r1\<lparr>rd_cacheWaiting := False\<rparr>) else r1)"

text \<open>The subscription to \<^verbatim>\<open>_loader->parts()\<close> of the constructor.\<close>

definition part_loaded :: "int \<times> byte_array \<Rightarrow> Reader \<Rightarrow> Reader" where
  "part_loaded part r =
     (let r1 = r\<lparr>rd_loadedParts := rd_loadedParts r @ [part]\<rparr>
      in if rd_waiting r1 then emit NotifyRelease (r1\<lparr>rd_waiting := False\<rparr>) else r1)"

definition Reader_new :: "int \<Rightarrow> Key option \<Rightarrow> Reader option" where
  "Reader_new fileSize baseKey =
     Option.bind (Slices_new fileSize (baseKey \<noteq> None)) (\<lambda>slices.
       let r = \<lparr>rd_baseKey = baseKey, rd_results = [], rd_cacheWaiting = False, rd_loadedParts = [],
             rd_waiting = False, rd_loadingOffsets = PriorityQueue_new, rd_slices = slices,
             rd_failed = None, rd_events = []\<rparr>
       in if baseKey \<noteq> None then readFromCache 0 r else Some r)"

definition Reader_stop :: "Reader \<Rightarrow> Reader" where
  "Reader_stop r = r\<lparr>rd_waiting := False\<rparr>"

definition isRemoteLoader :: "Reader \<Rightarrow> bool" where
  "isRemoteLoader r \<longleftrightarrow> rd_baseKey r \<noteq> None"

definition putToCache :: "SerializedSlice \<Rightarrow> Reader \<Rightarrow> Reader option" where
  "putToCache serialized r =
     (case rd_baseKey r of
       None \<Rightarrow> None
     | Some baseKey \<Rightarrow>
         if \<not> 0 \<le> ser_number serialized then None
         else Some (emit (CachePut (CacheHelper_key baseKey (ser_number serialized)) (ser_data serialized)) r))"

definition Reader_headerDone :: "Reader \<Rightarrow> Reader option" where
  "Reader_headerDone r =
     map_option (\<lambda>st. r\<lparr>rd_slices := st\<rparr>) (Slices_headerDone False (rd_slices r))"

definition cancelLoadInRange :: "int \<Rightarrow> int \<Rightarrow> Reader \<Rightarrow> Reader option" where
  "cancelLoadInRange range_from range_till r =
     (if \<not> range_from < range_till then None
      else
        let (offsets, queue) = PriorityQueue_takeInRange range_from range_till (rd_loadingOffsets r)
        in Some (foldl (\<lambda>r offset. emit (LoaderCancel offset) r) (r\<lparr>rd_loadingOffsets := queue\<rparr>) offsets))"

definition checkLoadWillBeFirst :: "int \<Rightarrow> Reader \<Rightarrow> Reader" where
  "checkLoadWillBeFirst offset r =
     (if value_or (PriorityQueue_front (rd_loadingOffsets r)) offset \<noteq> offset
      then emit LoaderIncreasePriority
        (r\<lparr>rd_loadingOffsets := PriorityQueue_increasePriority (rd_loadingOffsets r)\<rparr>)
      else r)"

definition loadAtOffset :: "int \<Rightarrow> Reader \<Rightarrow> Reader" where
  "loadAtOffset offset r =
     (let (added, queue) = PriorityQueue_add offset (rd_loadingOffsets r);
          r1 = r\<lparr>rd_loadingOffsets := queue\<rparr>
      in if added then emit (LoaderLoad offset) r1 else r1)"

text \<open>The loop over the answers taken, in the order of the slice numbers.\<close>

fun process_results :: "parts_map \<Rightarrow> Slices \<Rightarrow> Slices option" where
  "process_results [] st = Some st"
| "process_results ((sliceNumber, result) # loaded) st =
     Option.bind (processCacheResult sliceNumber result st) (process_results loaded)"

definition processCacheResults :: "Reader \<Rightarrow> (bool \<times> Reader) option" where
  "processCacheResults r =
     (if rd_baseKey r = None then Some (False, r)
      else if rd_failed r \<noteq> None then Some (False, r)
      else
        let loaded = rd_results r; r1 = r\<lparr>rd_results := []\<rparr>
        in map_option (\<lambda>st. (loaded \<noteq> [], r1\<lparr>rd_slices := st\<rparr>)) (process_results loaded (rd_slices r1)))"

text \<open>The loop over the parts taken; the first component is \<open>False\<close> when it failed.\<close>

fun process_parts :: "(int \<times> byte_array) list \<Rightarrow> Reader \<Rightarrow> (bool \<times> Reader) option" where
  "process_parts [] r = Some (True, r)"
| "process_parts ((offset, bytes) # loaded) r =
     (if offset = kFailedOffset
        \<or> int (length bytes) \<noteq> kPartSize \<and> offset + int (length bytes) \<noteq> sl_size (rd_slices r)
      then Some (False, r\<lparr>rd_failed := Some LoadFailed\<rparr>)
      else
        let (removed, queue) = PriorityQueue_remove offset (rd_loadingOffsets r)
        in if \<not> removed then process_parts loaded r
           else Option.bind (processPart offset bytes (rd_slices r))
             (\<lambda>st. process_parts loaded (r\<lparr>rd_loadingOffsets := queue, rd_slices := st\<rparr>)))"

definition processLoadedParts :: "Reader \<Rightarrow> (bool \<times> Reader) option" where
  "processLoadedParts r =
     (if rd_failed r \<noteq> None then Some (False, r)
      else
        let loaded = rd_loadedParts r; r1 = r\<lparr>rd_loadedParts := []\<rparr>
        in map_option (\<lambda>(good, r2). (good \<and> loaded \<noteq> [], r2)) (process_parts loaded r1))"

section \<open>Reading\<close>

fun read_slices_from_cache :: "int list \<Rightarrow> Reader \<Rightarrow> Reader option" where
  "read_slices_from_cache [] r = Some r"
| "read_slices_from_cache (sliceNumber # numbers) r =
     Option.bind (readFromCache sliceNumber r) (read_slices_from_cache numbers)"

fun load_offsets :: "bool \<Rightarrow> int list \<Rightarrow> Reader \<Rightarrow> Reader" where
  "load_offsets checkPriority [] r = r"
| "load_offsets checkPriority (offset # offsets) r =
     load_offsets False offsets (loadAtOffset offset (if checkPriority then checkLoadWillBeFirst offset r else r))"

text \<open>The part that is put to the cache: its parts that still load are not needed any more.\<close>

definition unload_part :: "SerializedSlice \<Rightarrow> Reader \<Rightarrow> Reader option" where
  "unload_part toCache r =
     (if rd_baseKey r \<noteq> None \<and> 0 \<le> ser_number toCache
      then if \<not> (0 < ser_number toCache \<or> isGoodHeader (rd_slices r)) then None
        else
          let index = max (ser_number toCache) 1 - 1
          in Option.bind (cancelLoadInRange (index * kInSlice) ((index + 1) * kInSlice) r) (putToCache toCache)
      else Some r)"

definition fillFromSlices :: "int \<Rightarrow> byte_array \<Rightarrow> Reader \<Rightarrow> (bool \<times> byte_array \<times> Reader) option" where
  "fillFromSlices offset buffer r =
     Option.bind (Slices_fill offset buffer (rd_slices r)) (\<lambda>(result, copied, st).
       let r1 = r\<lparr>rd_slices := st\<rparr>
       in if \<not> fr_filled result \<and> headerWontBeFilled st
          then Some (False, copied, r1\<lparr>rd_failed := Some NotStreamable\<rparr>)
          else
            Option.bind (read_slices_from_cache (StackIntVector_values (fr_sliceNumbersFromCache result)) r1) (\<lambda>r2.
            Option.bind (unload_part (fr_toCache result) r2) (\<lambda>r3.
            Some (fr_filled result, copied,
              load_offsets True (StackIntVector_values (fr_offsetsFromLoader result)) r3))))"

definition startWaiting :: "Reader \<Rightarrow> Reader" where
  "startWaiting r = r\<lparr>rd_cacheWaiting := rd_baseKey r \<noteq> None, rd_waiting := True\<rparr>"

definition clearWaiting :: "Reader \<Rightarrow> Reader" where
  "clearWaiting r = r\<lparr>rd_waiting := False, rd_cacheWaiting := False\<rparr>"

text \<open>
  What arrives from the other threads while \<^verbatim>\<open>fill\<close> runs: a batch lands before each of the two
  checks that close a round of the loop.
\<close>

datatype arrival = CacheArrived int byte_array | PartArrived int byte_array

fun arrive :: "arrival \<Rightarrow> Reader \<Rightarrow> Reader" where
  "arrive (CacheArrived n bs) r = cache_answered n bs r"
| "arrive (PartArrived offset bs) r = part_loaded (offset, bs) r"

definition arrive_all :: "arrival list \<Rightarrow> Reader \<Rightarrow> Reader" where
  "arrive_all as r = foldl (\<lambda>r a. arrive a r) r as"

text \<open>\<^verbatim>\<open>processCacheResults() || processLoadedParts()\<close>\<close>

definition check_arrived :: "arrival list \<times> arrival list \<Rightarrow> Reader \<Rightarrow> (bool \<times> Reader) option" where
  "check_arrived batch r =
     Option.bind (processCacheResults (arrive_all (fst batch) r)) (\<lambda>(again, r1).
       if again then Some (True, arrive_all (snd batch) r1)
       else processLoadedParts (arrive_all (snd batch) r1))"

text \<open>What a read leaves alone of the reader.\<close>

definition same_arrivals :: "Reader \<Rightarrow> Reader \<Rightarrow> bool" where
  "same_arrivals r r' \<longleftrightarrow> rd_results r' = rd_results r \<and> rd_loadedParts r' = rd_loadedParts r
     \<and> rd_baseKey r' = rd_baseKey r"

lemma same_arrivals_refl [simp]: "same_arrivals r r"
  by (simp add: same_arrivals_def)

lemma same_arrivals_trans: "same_arrivals r r' \<Longrightarrow> same_arrivals r' r'' \<Longrightarrow> same_arrivals r r''"
  by (simp add: same_arrivals_def)

lemma emit_fields [simp]:
  "rd_results (emit e r) = rd_results r" "rd_loadedParts (emit e r) = rd_loadedParts r"
  "rd_baseKey (emit e r) = rd_baseKey r" "rd_slices (emit e r) = rd_slices r"
  "rd_failed (emit e r) = rd_failed r" "rd_loadingOffsets (emit e r) = rd_loadingOffsets r"
  "rd_waiting (emit e r) = rd_waiting r" "rd_cacheWaiting (emit e r) = rd_cacheWaiting r"
  "rd_events (emit e r) = rd_events r @ [e]"
  by (simp_all add: emit_def)

lemma foldl_cancel:
  fixes xs :: "int list"
  defines "c \<equiv> foldl (\<lambda>r x. emit (LoaderCancel x) r)"
  shows "same_arrivals r (c r xs)" and "rd_slices (c r xs) = rd_slices r" and "rd_failed (c r xs) = rd_failed r"
    and "rd_loadingOffsets (c r xs) = rd_loadingOffsets r"
    and "rd_events (c r xs) = rd_events r @ map LoaderCancel xs"
  unfolding c_def by (induction xs arbitrary: r) (simp_all add: same_arrivals_def)

lemma loadAtOffset_fields:
  "same_arrivals r (loadAtOffset x r)" "rd_slices (loadAtOffset x r) = rd_slices r"
  "rd_failed (loadAtOffset x r) = rd_failed r"
  by (simp_all add: loadAtOffset_def same_arrivals_def Let_def split: prod.split)

lemma checkLoadWillBeFirst_fields:
  "same_arrivals r (checkLoadWillBeFirst x r)" "rd_slices (checkLoadWillBeFirst x r) = rd_slices r"
  "rd_failed (checkLoadWillBeFirst x r) = rd_failed r"
  by (simp_all add: checkLoadWillBeFirst_def same_arrivals_def)

lemma load_offsets_fields:
  "same_arrivals r (load_offsets c xs r) \<and> rd_slices (load_offsets c xs r) = rd_slices r
    \<and> rd_failed (load_offsets c xs r) = rd_failed r"
  by (induction c xs r rule: load_offsets.induct)
    (auto simp: loadAtOffset_fields checkLoadWillBeFirst_fields
      intro: same_arrivals_trans [OF loadAtOffset_fields(1)]
        same_arrivals_trans [OF checkLoadWillBeFirst_fields(1) same_arrivals_trans [OF loadAtOffset_fields(1)]])

lemma read_slices_from_cache_fields:
  "read_slices_from_cache ns r = Some r' \<Longrightarrow>
    same_arrivals r r' \<and> rd_slices r' = rd_slices r \<and> rd_failed r' = rd_failed r
    \<and> rd_loadingOffsets r' = rd_loadingOffsets r"
proof (induction ns arbitrary: r)
  case (Cons n ns)
  then obtain r1 where "readFromCache n r = Some r1" "read_slices_from_cache ns r1 = Some r'"
    by (auto simp: bind_eq_Some_conv)
  then show ?case using Cons.IH [of r1]
    by (auto simp: readFromCache_def same_arrivals_def Let_def split: option.splits if_splits)
qed simp

lemma unload_part_fields:
  "unload_part ser r = Some r' \<Longrightarrow>
    same_arrivals r r' \<and> rd_slices r' = rd_slices r \<and> rd_failed r' = rd_failed r"
  by (auto simp: unload_part_def cancelLoadInRange_def putToCache_def same_arrivals_def Let_def bind_eq_Some_conv
      foldl_cancel foldl_cancel(1) [unfolded same_arrivals_def] split: option.splits if_splits prod.splits)

lemma fillFromSlices_arrivals:
  assumes "fillFromSlices offset buffer r = Some (filled, copied, r')"
  shows "same_arrivals r r'"
proof -
  obtain result c st where f: "Slices_fill offset buffer (rd_slices r) = Some (result, c, st)"
    using assms by (auto simp: fillFromSlices_def bind_eq_Some_conv)
  let ?r1 = "r\<lparr>rd_slices := st\<rparr>"
  show ?thesis
  proof (cases "\<not> fr_filled result \<and> headerWontBeFilled st")
    case True
    then show ?thesis using assms f by (auto simp: fillFromSlices_def Let_def same_arrivals_def)
  next
    case False
    then obtain r2 r3 where r2: "read_slices_from_cache (StackIntVector_values (fr_sliceNumbersFromCache result)) ?r1 = Some r2"
      and r3: "unload_part (fr_toCache result) r2 = Some r3"
      and r': "r' = load_offsets True (StackIntVector_values (fr_offsetsFromLoader result)) r3"
      using assms f by (auto simp: fillFromSlices_def Let_def bind_eq_Some_conv)
    have "same_arrivals r ?r1" by (simp add: same_arrivals_def)
    then show ?thesis
      using read_slices_from_cache_fields [OF r2] unload_part_fields [OF r3]
        load_offsets_fields [of r3 True] same_arrivals_trans unfolding r' by blast
  qed
qed

text \<open>The weight of what can still arrive: the loop of \<^verbatim>\<open>fill\<close> goes on while it falls.\<close>

definition arrivals_weight :: "(arrival list \<times> arrival list) list \<Rightarrow> Reader \<Rightarrow> nat" where
  "arrivals_weight batches r = 3 * length batches
     + (if rd_results r = [] then 0 else 1) + (if rd_loadedParts r = [] then 0 else 1)"

lemma process_parts_fields:
  "process_parts ps r = Some (b, r') \<Longrightarrow> rd_results r' = rd_results r \<and> rd_loadedParts r' = rd_loadedParts r
    \<and> rd_baseKey r' = rd_baseKey r \<and> rd_events r' = rd_events r"
proof (induction ps r rule: process_parts.induct)
  case (2 offset bytes loaded r)
  show ?case
  proof (cases "offset = kFailedOffset
      \<or> int (length bytes) \<noteq> kPartSize \<and> offset + int (length bytes) \<noteq> sl_size (rd_slices r)")
    case True
    then show ?thesis using "2.prems" by auto
  next
    case False
    obtain removed queue where q: "PriorityQueue_remove offset (rd_loadingOffsets r) = (removed, queue)"
      by (cases "PriorityQueue_remove offset (rd_loadingOffsets r)")
    show ?thesis
    proof (cases removed)
      case True
      then obtain st where st: "processPart offset bytes (rd_slices r) = Some st"
        "process_parts loaded (r\<lparr>rd_loadingOffsets := queue, rd_slices := st\<rparr>) = Some (b, r')"
        using "2.prems" False q by (auto simp: bind_eq_Some_conv)
      from "2.IH"(2) [OF False refl q [symmetric] _ st] True show ?thesis by simp
    next
      case False2: False
      then have "process_parts loaded r = Some (b, r')" using "2.prems" False q by simp
      then show ?thesis using "2.IH"(1) [OF False refl q [symmetric]] False2 by simp
    qed
  qed
qed simp

lemma arrive_all_nil [simp]: "arrive_all [] r = r"
  by (simp add: arrive_all_def)

lemma check_arrived_weight:
  assumes "check_arrived (if batches = [] then ([], []) else hd batches) r = Some (True, r')"
  shows "arrivals_weight (tl batches) r' < arrivals_weight batches r"
proof (cases "batches = []")
  case True
  obtain again r1 where c: "processCacheResults r = Some (again, r1)"
    using assms True by (auto simp: check_arrived_def bind_eq_Some_conv)
  show ?thesis
  proof (cases again)
    case m: True
    then have "r' = r1" using assms True c by (simp add: check_arrived_def)
    moreover have "rd_results r \<noteq> []" "rd_results r1 = []" "rd_loadedParts r1 = rd_loadedParts r"
      using c m by (auto simp: processCacheResults_def Let_def split: if_splits)
    ultimately show ?thesis using True by (simp add: arrivals_weight_def)
  next
    case m: False
    then have p: "processLoadedParts r1 = Some (True, r')" using assms True c by (simp add: check_arrived_def)
    have r1: "rd_results r1 = [] \<or> rd_results r1 = rd_results r" "rd_loadedParts r1 = rd_loadedParts r"
      using c by (auto simp: processCacheResults_def Let_def split: if_splits)
    obtain r2 where "process_parts (rd_loadedParts r1) (r1\<lparr>rd_loadedParts := []\<rparr>) = Some (True, r2)"
      and "rd_loadedParts r1 \<noteq> []" and "r' = r2"
      using p by (auto simp: processLoadedParts_def Let_def split: if_splits)
    with process_parts_fields [OF this(1)] r1 True show ?thesis by (auto simp: arrivals_weight_def)
  qed
next
  case False
  then show ?thesis by (cases batches) (simp_all add: arrivals_weight_def)
qed

text \<open>
  The loop of \<^verbatim>\<open>fill\<close>: the list holds the batches that arrive in its rounds, nothing arrives after
  them. \<^verbatim>\<open>startWaiting\<close> runs before the two checks.
\<close>

function fill_loop :: "int \<Rightarrow> byte_array \<Rightarrow> (arrival list \<times> arrival list) list \<Rightarrow> Reader \<Rightarrow>
    (bool \<times> byte_array \<times> Reader) option" where
  "fill_loop offset buffer batches r =
     (case fillFromSlices offset buffer r of
       None \<Rightarrow> None
     | Some (filled, copied, r1) \<Rightarrow>
         if filled then Some (True, copied, clearWaiting r1)
         else
           (case check_arrived (if batches = [] then ([], []) else hd batches) (startWaiting r1) of
             None \<Rightarrow> None
           | Some (again, r2) \<Rightarrow>
               if again then fill_loop offset copied (tl batches) r2
               else Some (False, copied, r2)))"
  by pat_completeness auto
termination
proof (relation "measure (\<lambda>(offset, buffer, batches, r). arrivals_weight batches r)", goal_cases)
  case (2 offset buffer batches r a filled b copied r1 c again r2)
  then have f: "fillFromSlices offset buffer r = Some (filled, copied, r1)"
    and c: "check_arrived (if batches = [] then ([], []) else hd batches) (startWaiting r1) = Some (True, r2)"
    by auto
  have "arrivals_weight batches (startWaiting r1) = arrivals_weight batches r"
    using fillFromSlices_arrivals [OF f] by (simp add: arrivals_weight_def startWaiting_def same_arrivals_def)
  then show ?case using check_arrived_weight [OF c] by simp
qed simp

declare fill_loop.simps [simp del]

definition fill_failed :: "byte_array \<Rightarrow> Reader \<Rightarrow> bool \<times> byte_array \<times> Reader" where
  "fill_failed buffer r = (False, buffer, emit NotifyRelease (clearWaiting r))"

definition Reader_fill :: "int \<Rightarrow> byte_array \<Rightarrow> (arrival list \<times> arrival list) list \<Rightarrow> Reader \<Rightarrow>
    (bool \<times> byte_array \<times> Reader) option" where
  "Reader_fill offset buffer batches r =
     (if \<not> offset + int (length buffer) \<le> sl_size (rd_slices r) then None
      else
        Option.bind (processCacheResults r) (\<lambda>(_, r1).
        Option.bind (processLoadedParts r1) (\<lambda>(_, r2).
        if rd_failed r2 \<noteq> None then Some (fill_failed buffer r2)
        else
          Option.bind (fill_loop offset buffer batches r2) (\<lambda>(filled, copied, r3).
          if filled then Some (True, copied, r3)
          else if rd_failed r3 \<noteq> None then Some (fill_failed copied r3)
          else Some (False, copied, r3)))))"

section \<open>Closing\<close>

text \<open>The loop that unloads everything; \<open>None\<close> also when it would not end.\<close>

partial_function (option) unload_loop :: "Reader \<Rightarrow> Reader option" where
  "unload_loop r =
     Option.bind (unloadToCache (rd_slices r)) (\<lambda>(toCache, st).
       if 0 \<le> ser_number toCache
       then Option.bind (putToCache toCache (r\<lparr>rd_slices := st\<rparr>)) (\<lambda>r1. unload_loop r1)
       else Some (r\<lparr>rd_slices := st\<rparr>))"

definition finalizeCache :: "Reader \<Rightarrow> Reader option" where
  "finalizeCache r =
     (if rd_baseKey r = None then Some r
      else map_option (emit CacheSync) (unload_loop (r\<lparr>rd_cacheWaiting := False\<rparr>)))"

end
