(* ===== verification/StreamingReaderReads.thy ===== *)
theory StreamingReaderReads
  imports StreamingReader
begin

text \<open>
  What the reads of \<^verbatim>\<open>Media::Streaming::Reader\<close> answer, for every order in which the cache and
  the loader send what they were asked for, how they fail, and how the reader is closed.
\<close>

section \<open>What the slices keep\<close>

lemma serialize_frame:
  assumes "serializeAndUnloadSlice n st = Some (ser, st')"
  shows "sl_headerMode st' = sl_headerMode st" and "sl_size st' = sl_size st"
    and "length (sl_data st') = length (sl_data st)" and "0 \<le> ser_number ser" and "sl_headerMode st \<noteq> NoCache"
    and "ser_number ser = 0 \<Longrightarrow> n \<noteq> 0 \<Longrightarrow> isGoodHeader st"
    and "s_parts (sl_header st') = s_parts (sl_header st)"
  using assms
  by (auto simp: serializeAndUnloadSlice_def serializeAndUnloadFirstSliceNoHeader_def put_slice_def Let_def
      split: if_splits)

lemma unused_frame:
  assumes "serializeAndUnloadUnused st = Some (ser, st')"
  shows "sl_headerMode st' = sl_headerMode st \<and> sl_size st' = sl_size st
    \<and> length (sl_data st') = length (sl_data st) \<and> s_parts (sl_header st') = s_parts (sl_header st)
    \<and> (0 \<le> ser_number ser \<longrightarrow> sl_headerMode st \<noteq> NoCache \<and> (0 < ser_number ser \<or> isGoodHeader st))"
proof (cases "sl_headerMode st = Unknown \<or> length (sl_usedSlices st) \<le> kSlicesInMemory")
  case True
  then show ?thesis using assms by (auto simp: serializeAndUnloadUnused_def SerializedSlice_new_def)
next
  case False
  let ?u = "hd (sl_usedSlices st)" and ?st1 = "st\<lparr>sl_usedSlices := tl (sl_usedSlices st)\<rparr>"
  have range: "0 \<le> ?u \<and> ?u < int (length (sl_data st))"
    using assms False by (auto simp: serializeAndUnloadUnused_def Let_def split: if_split_asm)
  define saved where "saved \<longleftrightarrow> \<not> (if sl_headerMode st = NoCache then True
    else if \<not> s_changedSinceCache (sl_data st ! nat ?u)
    then \<not> isGoodHeader st \<or> 0 < ?u \<or> \<not> s_changedSinceCache (sl_header st) else False)"
  have "serializeAndUnloadUnused st =
    (if \<not> s_loadedFromCache (sl_data st ! nat ?u) then Some (SerializedSlice_new, ?st1)
     else if saved then serializeAndUnloadSlice (?u + 1) ?st1
     else Some (SerializedSlice_new, ?st1\<lparr>sl_data := (sl_data st)[nat ?u := Slice_new]\<rparr>))"
    using False range unfolding serializeAndUnloadUnused_def Let_def saved_def by (auto simp: isGoodHeader_def)
  then consider "ser = SerializedSlice_new" "st' = ?st1"
    | "ser = SerializedSlice_new" "st' = ?st1\<lparr>sl_data := (sl_data st)[nat ?u := Slice_new]\<rparr>"
    | "serializeAndUnloadSlice (?u + 1) ?st1 = Some (ser, st')"
    using assms by (auto split: if_split_asm)
  then show ?thesis
  proof cases
    case 3
    note f = serialize_frame [OF 3]
    have "0 < ser_number ser \<or> isGoodHeader st"
      using f(4,6) range by (cases "ser_number ser = 0") (auto simp: isGoodHeader_def)
    then show ?thesis using f by simp
  qed (simp_all add: SerializedSlice_new_def)
qed

lemma markSliceUsed_frame:
  "sl_headerMode (markSliceUsed i st) = sl_headerMode st" "sl_size (markSliceUsed i st) = sl_size st"
  "sl_data (markSliceUsed i st) = sl_data st" "sl_header (markSliceUsed i st) = sl_header st"
  by (simp_all add: markSliceUsed_def Let_def)

lemma handleReadFromCache_frame:
  "sl_headerMode (snd (handleReadFromCache i rs)) = sl_headerMode (snd rs)
    \<and> sl_size (snd (handleReadFromCache i rs)) = sl_size (snd rs)
    \<and> length (sl_data (snd (handleReadFromCache i rs))) = length (sl_data (snd rs))
    \<and> sl_header (snd (handleReadFromCache i rs)) = sl_header (snd rs)
    \<and> fr_toCache (fst (handleReadFromCache i rs)) = fr_toCache (fst rs)
    \<and> (sl_headerMode (snd rs) \<in> {NoCache, Unknown} \<longrightarrow> handleReadFromCache i rs = rs)"
  by (cases rs) (auto simp: handleReadFromCache_def cacheNotLoaded_def)

text \<open>How \<^verbatim>\<open>fill\<close> changes the slices: not at all, by unloading one, or by asking the cache.\<close>

lemma Slices_fill_cases:
  assumes "Slices_fill offset buffer st = Some (r, copied, st')"
  obtains (kept) "st' = st" "fr_toCache r = SerializedSlice_new"
      "fr_sliceNumbersFromCache r = StackIntVector_new kReadFromCacheMax"
  | (unloaded) us where "serializeAndUnloadUnused (st\<lparr>sl_usedSlices := us\<rparr>) = Some (fr_toCache r, st')"
      "fr_sliceNumbersFromCache r = StackIntVector_new kReadFromCacheMax" "fr_filled r"
      "\<not> isFullInHeader st" "sl_headerMode st = NoCache \<or> s_loadedFromCache (sl_header st)"
  | (asked) i two R where
      "(r, st') = (if two then handleReadFromCache (Suc i) (handleReadFromCache i (R, st)) else handleReadFromCache i (R, st))"
      "fr_sliceNumbersFromCache R = StackIntVector_new kReadFromCacheMax" "fr_toCache R = SerializedSlice_new"
      "\<not> fr_filled R" "(if two then Suc i else i) < length (sl_data st)"
      "\<not> isFullInHeader st" "sl_headerMode st = NoCache \<or> s_loadedFromCache (sl_header st)"
proof (cases "sl_headerMode st \<noteq> NoCache \<and> \<not> s_loadedFromCache (sl_header st) \<or> isFullInHeader st")
  case True
  then have "st' = st \<and> fr_toCache r = SerializedSlice_new \<and> fr_sliceNumbersFromCache r = StackIntVector_new kReadFromCacheMax"
    using assms by (auto simp: Slices_fill_def fillFromHeader_def FillResult_new_def Let_def split: if_splits)
  then show ?thesis using kept by blast
next
  case False
  define F where "F = offset div kInSlice"
  define till where "till = offset + int (length buffer)"
  define T where "T = (till + kInSlice - 1) div kInSlice"
  define two where "two = (F + 1 < T)"
  define P1 where "P1 = prepareFill (offset - F * kInSlice) (min kInSlice (till - F * kInSlice)) (sl_data st ! nat F)"
  define P2 where "P2 = (if two then prepareFill 0 (till - (F + 1) * kInSlice) (sl_data st ! (nat F + 1)) else PrepareFillResult_new)"
  define R1 where "R1 = handlePrepareResult st (nat F) P1 FillResult_new"
  define R2 where "R2 = (if two then handlePrepareResult st (nat F + 1) P2 R1 else R1)"
  have R2: "fr_sliceNumbersFromCache R2 = StackIntVector_new kReadFromCacheMax" "fr_toCache R2 = SerializedSlice_new"
    "\<not> fr_filled R2"
    by (simp_all add: R2_def R1_def handlePrepareResult_def FillResult_new_def)
  have guards: "buffer \<noteq> []" "0 \<le> offset" "offset < sl_size st" "offset + int (length buffer) \<le> sl_size st"
    "int (length buffer) \<le> kInSlice"
    using assms by (auto simp: Slices_fill_def simp del: Let_def split: if_splits)
  have range: "0 \<le> F" "F + 1 = T \<or> F + 2 = T" "T \<le> int (length (sl_data st))"
    using assms False by (auto simp: Slices_fill_def Let_def F_def T_def till_def split: if_splits)
  define copy where "copy = (\<lambda>d. Option.bind
      (CopyLoaded buffer (parts_between (s_parts (sl_data st ! nat F)) (pf_start P1) (pf_finish P1))
        (offset - F * kInSlice) (min kInSlice (till - F * kInSlice)))
      (\<lambda>buffer1. if two
        then map_option (append (take d buffer1))
          (CopyLoaded (drop d buffer1) (parts_between (s_parts (sl_data st ! (nat F + 1))) (pf_start P2) (pf_finish P2))
            0 (till - (F + 1) * kInSlice))
        else Some buffer1))"
  let ?d = "nat (min kInSlice (till - F * kInSlice) - (offset - F * kInSlice))"
  let ?used = "if two then markSliceUsed (F + 1) (markSliceUsed F st) else markSliceUsed F st"
  let ?rs = "if two then handleReadFromCache (nat F + 1) (handleReadFromCache (nat F) (R2, st))
    else handleReadFromCache (nat F) (R2, st)"
  have eq: "Slices_fill offset buffer st =
    (if pf_ready P1 \<and> pf_ready P2
     then Option.bind (copy ?d)
       (\<lambda>buffer2. map_option (\<lambda>(toCache, st2). (R2\<lparr>fr_toCache := toCache, fr_filled := True\<rparr>, buffer2, st2))
         (serializeAndUnloadUnused ?used))
     else Some (fst ?rs, buffer, snd ?rs))"
    using False range guards
    unfolding Slices_fill_def Let_def F_def [symmetric] till_def [symmetric] T_def [symmetric] two_def [symmetric]
      P1_def [symmetric] P2_def [symmetric] R1_def [symmetric] R2_def [symmetric] copy_def
    by (auto simp: split_beta till_def bind_assoc)
  show ?thesis
  proof (cases "pf_ready P1 \<and> pf_ready P2")
    case True
    then have "Option.bind (copy ?d)
       (\<lambda>buffer2. map_option (\<lambda>(toCache, st2). (R2\<lparr>fr_toCache := toCache, fr_filled := True\<rparr>, buffer2, st2))
         (serializeAndUnloadUnused ?used)) = Some (r, copied, st')"
      using assms unfolding eq by (simp only: if_P)
    then obtain ser where u: "serializeAndUnloadUnused ?used = Some (ser, st')"
      and r: "r = R2\<lparr>fr_toCache := ser, fr_filled := True\<rparr>"
      by (auto simp only: bind_eq_Some_conv map_option_eq_Some prod.case prod.inject split: prod.splits)
    moreover have "\<exists>us. ?used = st\<lparr>sl_usedSlices := us\<rparr>"
    proof -
      have m: "\<exists>us. markSliceUsed i st1 = st1\<lparr>sl_usedSlices := us\<rparr>" for i st1
        by (rule exI [of _ "sl_usedSlices (markSliceUsed i st1)"], rule Slices.equality)
          (simp_all add: markSliceUsed_def Let_def)
      obtain us where us: "markSliceUsed F st = st\<lparr>sl_usedSlices := us\<rparr>" using m by blast
      obtain us' where "markSliceUsed (F + 1) (st\<lparr>sl_usedSlices := us\<rparr>) = st\<lparr>sl_usedSlices := us, sl_usedSlices := us'\<rparr>"
        using m by blast
      then have "?used = (if two then st\<lparr>sl_usedSlices := us'\<rparr> else st\<lparr>sl_usedSlices := us\<rparr>)" using us by simp
      then show ?thesis by metis
    qed
    ultimately obtain us where "serializeAndUnloadUnused (st\<lparr>sl_usedSlices := us\<rparr>) = Some (ser, st')" by metis
    then show ?thesis using unloaded [of us] r R2 False by simp
  next
    case notready: False
    then have "(r, st') = ?rs" using assms unfolding eq
      by (simp only: if_False option.inject prod.inject) (metis prod.collapse)
    then have rs: "(r, st') = (if two then handleReadFromCache (Suc (nat F)) (handleReadFromCache (nat F) (R2, st))
        else handleReadFromCache (nat F) (R2, st))" by (simp only: Suc_eq_plus1)
    have "(if two then Suc (nat F) else nat F) < length (sl_data st)"
      using range by (simp add: two_def) linarith
    from asked [OF rs R2 this] False show ?thesis by blast
  qed
qed

lemma Slices_fill_frame:
  assumes "Slices_fill offset buffer st = Some (r, copied, st')"
  shows "sl_headerMode st' = sl_headerMode st" and "sl_size st' = sl_size st"
    and "length (sl_data st') = length (sl_data st)"
    and "0 \<le> ser_number (fr_toCache r) \<Longrightarrow>
      sl_headerMode st \<noteq> NoCache \<and> (0 < ser_number (fr_toCache r) \<or> isGoodHeader st)"
    and "sl_headerMode st \<in> {NoCache, Unknown} \<Longrightarrow> fr_sliceNumbersFromCache r = StackIntVector_new kReadFromCacheMax"
proof -
  have "sl_headerMode st' = sl_headerMode st \<and> sl_size st' = sl_size st \<and> length (sl_data st') = length (sl_data st)
    \<and> (0 \<le> ser_number (fr_toCache r) \<longrightarrow>
      sl_headerMode st \<noteq> NoCache \<and> (0 < ser_number (fr_toCache r) \<or> isGoodHeader st))
    \<and> (sl_headerMode st \<in> {NoCache, Unknown} \<longrightarrow> fr_sliceNumbersFromCache r = StackIntVector_new kReadFromCacheMax)"
    using assms
  proof (cases rule: Slices_fill_cases)
    case kept
    then show ?thesis by (simp add: SerializedSlice_new_def)
  next
    case (unloaded us)
    then show ?thesis using unused_frame [OF unloaded(1)] by (auto simp: isGoodHeader_def)
  next
    case (asked i two R)
    let ?rs = "handleReadFromCache i (R, st)"
    have "r = fst (if two then handleReadFromCache (Suc i) ?rs else ?rs)"
      "st' = snd (if two then handleReadFromCache (Suc i) ?rs else ?rs)" using asked(1) by (metis fst_conv snd_conv)+
    then show ?thesis
      using handleReadFromCache_frame [of i "(R, st)"] handleReadFromCache_frame [of "Suc i" ?rs] asked(2,3)
      by (cases two) (auto simp: SerializedSlice_new_def)
  qed
  then show "sl_headerMode st' = sl_headerMode st" and "sl_size st' = sl_size st"
    and "length (sl_data st') = length (sl_data st)"
    and "0 \<le> ser_number (fr_toCache r) \<Longrightarrow>
      sl_headerMode st \<noteq> NoCache \<and> (0 < ser_number (fr_toCache r) \<or> isGoodHeader st)"
    and "sl_headerMode st \<in> {NoCache, Unknown} \<Longrightarrow> fr_sliceNumbersFromCache r = StackIntVector_new kReadFromCacheMax"
    by blast+
qed

text \<open>What stays when parts and answers come in.\<close>

definition same_file :: "Slices \<Rightarrow> Slices \<Rightarrow> bool" where
  "same_file st st' \<longleftrightarrow> sl_size st' = sl_size st \<and> length (sl_data st') = length (sl_data st)
     \<and> (sl_headerMode st' = NoCache \<longleftrightarrow> sl_headerMode st = NoCache)"

lemma same_file_refl [simp]: "same_file st st"
  by (simp add: same_file_def)

lemma same_file_trans: "same_file st st' \<Longrightarrow> same_file st' st'' \<Longrightarrow> same_file st st''"
  by (simp add: same_file_def)

lemma apply_while_length: "apply_while P ps data = Some data' \<Longrightarrow> length data' = length data"
  by (induction P ps data rule: apply_while.induct)
    (auto simp: addPart_at_def bind_eq_Some_conv Let_def split: if_splits)

lemma headerDone_frame: "Slices_headerDone fromCache st = Some st' \<Longrightarrow> same_file st st'"
  by (auto simp: Slices_headerDone_def same_file_def Let_def split: if_splits)

lemma applyHeaderCacheData_frame: "applyHeaderCacheData st = Some st' \<Longrightarrow> same_file st st'"
  by (auto simp: applyHeaderCacheData_def bind_eq_Some_conv same_file_def Let_def
      dest!: headerDone_frame apply_while_length split: if_splits)

lemma processSliceResult_frame: "processSliceResult n bs st = Some st' \<Longrightarrow> same_file st st'"
  by (auto simp: processSliceResult_def same_file_def put_slice_def split: if_splits)

lemma processHeaderResult_frame:
  assumes "processHeaderResult bs st = Some st'"
  shows "same_file st st'"
proof -
  have a: "same_file st st1" if "applyHeaderCacheData (st\<lparr>sl_header := h\<rparr>) = Some st1" for h st1
    using applyHeaderCacheData_frame [OF that] by (simp add: same_file_def)
  have b: "same_file st1 st2" if "processSliceResult 1 rest (st1\<lparr>sl_data := (sl_data st1)[0 := x]\<rparr>) = Some st2" for rest st1 st2 x
    using processSliceResult_frame [OF that] by (simp add: same_file_def)
  from assms show ?thesis
    by (auto simp: processHeaderResult_def Let_def intro: a same_file_trans [OF a b]
        split: if_splits option.splits)
qed

lemma processCacheResult_frame: "processCacheResult n bs st = Some st' \<Longrightarrow> same_file st st'"
  by (auto simp: processCacheResult_def dest: processHeaderResult_frame processSliceResult_frame split: if_splits)

lemma processPart_frame: "processPart a b st = Some st' \<Longrightarrow> same_file st st'"
  by (auto simp: processPart_def addPart_at_def Let_def bind_eq_Some_conv same_file_def split: if_splits)

section \<open>The invariant of the reader\<close>

definition loading :: "Reader \<Rightarrow> int set" where
  "loading r = pq_value ` set (pq_data (rd_loadingOffsets r))"

text \<open>
  What is required of the loader: at most a part at a time, with the bytes of the file. It may
  fail, send less than a part, or send what was not asked for, in any order.
\<close>

definition part_true :: "byte_array \<Rightarrow> int \<times> byte_array \<Rightarrow> bool" where
  "part_true file p \<longleftrightarrow> int (length (snd p)) \<le> kPartSize
     \<and> (0 \<le> fst p \<longrightarrow> snd p = segment file (fst p) (fst p + int (length (snd p))))"

fun arrival_ok :: "byte_array \<Rightarrow> bool \<Rightarrow> arrival \<Rightarrow> bool" where
  "arrival_ok file cached (CacheArrived n bs) \<longleftrightarrow> cached \<and> entry_ok file n bs"
| "arrival_ok file cached (PartArrived offset bs) \<longleftrightarrow> part_true file (offset, bs)"

definition reader_inv :: "byte_array \<Rightarrow> Reader \<Rightarrow> bool" where
  "reader_inv file r \<longleftrightarrow> slices_inv file (rd_slices r)
     \<and> (rd_baseKey r = None \<longleftrightarrow> sl_headerMode (rd_slices r) = NoCache)
     \<and> (rd_baseKey r = None \<longrightarrow> rd_results r = [])
     \<and> (\<forall>(n, bs) \<in> set (rd_results r). entry_ok file n bs)
     \<and> (\<forall>p \<in> set (rd_loadedParts r). part_true file p)
     \<and> pq_inv (rd_loadingOffsets r)
     \<and> (\<forall>x \<in> loading r. 0 \<le> x \<and> x < int (length file) \<and> x mod kPartSize = 0)"

lemma reader_inv_size: "reader_inv file r \<Longrightarrow> sl_size (rd_slices r) = int (length file)"
  by (simp add: reader_inv_def slices_inv_def slices_ok_def)

text \<open>A part that passes the check of \<^verbatim>\<open>processLoadedParts\<close> is a whole part of the file.\<close>

lemma true_part_ok:
  assumes "part_true file (x, bs)" and "0 \<le> x" and "x < int (length file)" and "x mod kPartSize = 0"
    and "\<not> (int (length bs) \<noteq> kPartSize \<and> x + int (length bs) \<noteq> int (length file))"
  shows "part_ok file (x, bs)"
proof -
  have b: "bs = segment file x (x + int (length bs))" "int (length bs) \<le> kPartSize"
    using assms(1,2) by (simp_all add: part_true_def)
  have "segment file x (x + kPartSize) = bs"
  proof (cases "int (length bs) = kPartSize")
    case True
    then show ?thesis using b(1) by simp
  next
    case False
    then have e: "x + int (length bs) = int (length file)" using assms(5) by blast
    have "segment file x (x + kPartSize) = segment file x (int (length file))"
    proof -
      have "length (drop (nat x) file) = nat (int (length file) - x)" using assms(2) by (simp add: nat_diff_distrib)
      moreover have "nat (int (length file) - x) \<le> nat kPartSize" using e b(2) by linarith
      ultimately show ?thesis by (simp add: segment_def)
    qed
    then show ?thesis using b(1) e by simp
  qed
  then show ?thesis using assms(2-4) by (simp add: part_ok_def)
qed

lemma cache_answered_inv:
  assumes inv: "reader_inv file r" and ok: "entry_ok file n bs" and cached: "rd_baseKey r \<noteq> None"
  shows "reader_inv file (cache_answered n bs r)"
proof -
  have "set (fst (flat_map_insert (<) (n, bs) (rd_results r))) \<subseteq> insert (n, bs) (set (rd_results r))"
    by (auto simp: flat_map_insert_def insert_at_def Let_def dest: in_set_takeD in_set_dropD split: if_splits)
  then have "\<forall>(n, bs) \<in> set (fst (flat_map_insert (<) (n, bs) (rd_results r))). entry_ok file n bs"
    using inv ok by (auto simp: reader_inv_def)
  then show ?thesis using inv cached by (auto simp: cache_answered_def reader_inv_def loading_def Let_def)
qed

lemma part_loaded_inv: "reader_inv file r \<Longrightarrow> part_true file p \<Longrightarrow> reader_inv file (part_loaded p r)"
  by (auto simp: part_loaded_def reader_inv_def loading_def Let_def)

lemma arrive_key [simp]: "rd_baseKey (arrive a r) = rd_baseKey r"
  by (cases a) (simp_all add: cache_answered_def part_loaded_def Let_def)

lemma arrive_all_inv:
  "reader_inv file r \<Longrightarrow> \<forall>a \<in> set as. arrival_ok file (rd_baseKey r \<noteq> None) a \<Longrightarrow> reader_inv file (arrive_all as r)
    \<and> rd_baseKey (arrive_all as r) = rd_baseKey r"
proof (induction as arbitrary: r)
  case (Cons a as)
  have "reader_inv file (arrive a r)"
    using Cons.prems by (cases a) (auto intro: cache_answered_inv part_loaded_inv)
  then have "reader_inv file (arrive_all as (arrive a r)) \<and> rd_baseKey (arrive_all as (arrive a r)) = rd_baseKey (arrive a r)"
    by (rule Cons.IH) (use Cons.prems in simp)
  then show ?case by (simp add: arrive_all_def)
qed (simp add: arrive_all_def)

lemma process_results_inv:
  "process_results es st = Some st' \<Longrightarrow> slices_inv file st \<Longrightarrow> \<forall>(n, bs) \<in> set es. entry_ok file n bs \<Longrightarrow>
    slices_inv file st' \<and> same_file st st'"
proof (induction es arbitrary: st)
  case (Cons e es)
  obtain n bs where e: "e = (n, bs)" by (cases e)
  with Cons.prems obtain st1 where st1: "processCacheResult n bs st = Some st1" "process_results es st1 = Some st'"
    by (auto simp: bind_eq_Some_conv)
  have ok: "entry_ok file n bs" using Cons.prems e by simp
  have "slices_inv file st1" by (rule processCacheResult_inv [OF Cons.prems(2) st1(1) ok])
  then show ?case using Cons.IH [OF st1(2)] Cons.prems(3) processCacheResult_frame [OF st1(1)]
    by (auto intro: same_file_trans)
qed simp

lemma processCacheResults_inv:
  assumes "reader_inv file r" and "processCacheResults r = Some (again, r')"
  shows "reader_inv file r'" and "rd_baseKey r' = rd_baseKey r" and "rd_failed r' = rd_failed r"
    and "again \<Longrightarrow> rd_failed r = None" and "rd_loadedParts r' = rd_loadedParts r"
    and "rd_waiting r' = rd_waiting r" and "rd_cacheWaiting r' = rd_cacheWaiting r" and "rd_events r' = rd_events r"
    and "\<not> again \<Longrightarrow> rd_failed r = None \<Longrightarrow> rd_results r' = []"
proof -
  have f: "rd_baseKey r' = rd_baseKey r \<and> rd_failed r' = rd_failed r \<and> (again \<longrightarrow> rd_failed r = None)
    \<and> rd_loadedParts r' = rd_loadedParts r \<and> rd_waiting r' = rd_waiting r
    \<and> rd_cacheWaiting r' = rd_cacheWaiting r \<and> rd_events r' = rd_events r
    \<and> (\<not> again \<longrightarrow> rd_failed r = None \<longrightarrow> rd_results r' = [])"
    using assms by (auto simp: processCacheResults_def reader_inv_def Let_def split: if_splits)
  then show "rd_baseKey r' = rd_baseKey r" and "rd_failed r' = rd_failed r"
    and "again \<Longrightarrow> rd_failed r = None" and "rd_loadedParts r' = rd_loadedParts r"
    and "rd_waiting r' = rd_waiting r" and "rd_cacheWaiting r' = rd_cacheWaiting r" and "rd_events r' = rd_events r"
    and "\<not> again \<Longrightarrow> rd_failed r = None \<Longrightarrow> rd_results r' = []" by blast+
  show "reader_inv file r'"
  proof (cases "rd_baseKey r = None \<or> rd_failed r \<noteq> None")
    case True
    then show ?thesis using assms by (auto simp: processCacheResults_def split: if_split_asm)
  next
    case False
    then obtain st where st: "process_results (rd_results r) (rd_slices r) = Some st"
      and r': "r' = r\<lparr>rd_results := [], rd_slices := st\<rparr>"
      using assms(2) by (auto simp: processCacheResults_def Let_def)
    have "slices_inv file (rd_slices r)" "\<forall>(n, bs) \<in> set (rd_results r). entry_ok file n bs"
      using assms(1) by (simp_all add: reader_inv_def)
    from process_results_inv [OF st this] show ?thesis
      using assms(1) by (auto simp: r' reader_inv_def same_file_def loading_def)
  qed
qed

lemma loading_remove:
  assumes "pq_inv (rd_loadingOffsets r)" and "PriorityQueue_remove x (rd_loadingOffsets r) = (removed, queue)"
  shows "pq_inv queue" and "removed \<longleftrightarrow> x \<in> loading r"
    and "loading (r\<lparr>rd_loadingOffsets := queue\<rparr>) = loading r - {x}"
proof -
  note e = remove_entries [OF assms(1), of x, unfolded assms(2), simplified]
  show "pq_inv queue" by (rule e(1))
  show "removed \<longleftrightarrow> x \<in> loading r" unfolding loading_def using e(3) by simp
  show "loading (r\<lparr>rd_loadingOffsets := queue\<rparr>) = loading r - {x}"
    unfolding loading_def by (auto simp: e(2))
qed

lemma process_parts_inv:
  "reader_inv file r \<Longrightarrow> rd_loadedParts r = [] \<Longrightarrow> \<forall>p \<in> set ps. part_true file p \<Longrightarrow>
    process_parts ps r = Some (good, r') \<Longrightarrow>
    reader_inv file r' \<and> (if good then rd_failed r' = rd_failed r else rd_failed r' = Some LoadFailed)
    \<and> rd_waiting r' = rd_waiting r \<and> rd_cacheWaiting r' = rd_cacheWaiting r \<and> rd_results r' = rd_results r"
proof (induction ps r rule: process_parts.induct)
  case (2 x bs ps r)
  let ?bad = "x = kFailedOffset \<or> int (length bs) \<noteq> kPartSize \<and> x + int (length bs) \<noteq> sl_size (rd_slices r)"
  show ?case
  proof (cases ?bad)
    case True
    then show ?thesis using "2.prems" by (auto simp: reader_inv_def loading_def)
  next
    case False
    obtain removed queue where q: "PriorityQueue_remove x (rd_loadingOffsets r) = (removed, queue)"
      by (cases "PriorityQueue_remove x (rd_loadingOffsets r)")
    have pq: "pq_inv (rd_loadingOffsets r)" using "2.prems"(1) by (simp add: reader_inv_def)
    note rem = loading_remove [OF pq q]
    show ?thesis
    proof (cases removed)
      case no: False
      then have "process_parts ps r = Some (good, r')" using "2.prems"(4) False q by simp
      from "2.IH"(1) [OF False refl q [symmetric] _ "2.prems"(1,2) _ this] no "2.prems"(3) show ?thesis by simp
    next
      case yes: True
      then obtain st where st: "processPart x bs (rd_slices r) = Some st"
        and rest: "process_parts ps (r\<lparr>rd_loadingOffsets := queue, rd_slices := st\<rparr>) = Some (good, r')"
        using "2.prems"(4) False q by (auto simp: bind_eq_Some_conv)
      have x: "0 \<le> x" "x < int (length file)" "x mod kPartSize = 0"
        using "2.prems"(1) rem(2) yes by (simp_all add: reader_inv_def)
      have "part_true file (x, bs)" using "2.prems"(3) by simp
      then have ok: "part_ok file (x, bs)"
        by (rule true_part_ok [OF _ x]) (use False reader_inv_size [OF "2.prems"(1)] in simp)
      have inv: "slices_inv file (rd_slices r)" using "2.prems"(1) by (simp add: reader_inv_def)
      have "slices_inv file st" by (rule processPart_inv [OF inv ok st])
      then have "reader_inv file (r\<lparr>rd_loadingOffsets := queue, rd_slices := st\<rparr>)"
        using "2.prems"(1) processPart_frame [OF st] rem
        by (auto simp: reader_inv_def same_file_def loading_def)
      from "2.IH"(2) [OF False refl q [symmetric] _ st this _ _ rest] yes "2.prems"(2,3) show ?thesis by simp
    qed
  qed
qed auto

lemma processLoadedParts_inv:
  assumes "reader_inv file r" and "processLoadedParts r = Some (again, r')"
  shows "reader_inv file r'" and "rd_baseKey r' = rd_baseKey r"
    and "rd_failed r' = rd_failed r \<or> rd_failed r' = Some LoadFailed"
    and "rd_failed r \<noteq> None \<Longrightarrow> r' = r \<and> \<not> again"
    and "rd_failed r' = None \<Longrightarrow> rd_loadedParts r' = []"
    and "rd_waiting r' = rd_waiting r" and "rd_cacheWaiting r' = rd_cacheWaiting r" and "rd_results r' = rd_results r"
    and "rd_events r' = rd_events r" and "again \<Longrightarrow> rd_failed r' = None"
proof -
  have "reader_inv file r' \<and> rd_baseKey r' = rd_baseKey r \<and> (again \<longrightarrow> rd_failed r' = None)
    \<and> (rd_failed r' = rd_failed r \<or> rd_failed r' = Some LoadFailed)
    \<and> (rd_failed r \<noteq> None \<longrightarrow> r' = r \<and> \<not> again) \<and> (rd_failed r' = None \<longrightarrow> rd_loadedParts r' = [])
    \<and> rd_waiting r' = rd_waiting r \<and> rd_cacheWaiting r' = rd_cacheWaiting r \<and> rd_results r' = rd_results r
    \<and> rd_events r' = rd_events r"
  proof (cases "rd_failed r = None")
    case False
    then show ?thesis using assms by (auto simp: processLoadedParts_def)
  next
    case True
    let ?r1 = "r\<lparr>rd_loadedParts := []\<rparr>"
    obtain good where p: "process_parts (rd_loadedParts r) ?r1 = Some (good, r')" and g: "again \<Longrightarrow> good"
      using assms(2) True by (auto simp: processLoadedParts_def Let_def)
    have i: "reader_inv file ?r1" "\<forall>p \<in> set (rd_loadedParts r). part_true file p"
      using assms(1) by (simp_all add: reader_inv_def loading_def)
    from process_parts_inv [OF i(1) _ i(2) p] process_parts_fields [OF p] True g show ?thesis
      by (auto split: if_splits)
  qed
  then show "reader_inv file r'" and "rd_baseKey r' = rd_baseKey r"
    and "rd_failed r' = rd_failed r \<or> rd_failed r' = Some LoadFailed"
    and "rd_failed r \<noteq> None \<Longrightarrow> r' = r \<and> \<not> again"
    and "rd_failed r' = None \<Longrightarrow> rd_loadedParts r' = []"
    and "rd_waiting r' = rd_waiting r" and "rd_cacheWaiting r' = rd_cacheWaiting r" and "rd_results r' = rd_results r"
    and "rd_events r' = rd_events r" and "again \<Longrightarrow> rd_failed r' = None"
    by blast+
qed

section \<open>Reads\<close>

lemma loadAtOffset_loading:
  assumes "pq_inv (rd_loadingOffsets r)"
  shows "pq_inv (rd_loadingOffsets (loadAtOffset x r))" and "loading (loadAtOffset x r) = insert x (loading r)"
proof -
  note e = add_entries(1,2) [OF assms, of x]
  have q: "rd_loadingOffsets (loadAtOffset x r) = snd (PriorityQueue_add x (rd_loadingOffsets r))"
    by (simp add: loadAtOffset_def Let_def split_beta)
  show "pq_inv (rd_loadingOffsets (loadAtOffset x r))" unfolding q by (rule e(1))
  show "loading (loadAtOffset x r) = insert x (loading r)"
    unfolding loading_def q e(2) by force
qed

lemma checkLoadWillBeFirst_loading:
  "pq_inv (rd_loadingOffsets r) \<Longrightarrow> pq_inv (rd_loadingOffsets (checkLoadWillBeFirst x r))
    \<and> loading (checkLoadWillBeFirst x r) = loading r"
  by (auto simp: checkLoadWillBeFirst_def loading_def PriorityQueue_increasePriority_def pq_inv_def)

lemma load_offsets_loading:
  "pq_inv (rd_loadingOffsets r) \<Longrightarrow> pq_inv (rd_loadingOffsets (load_offsets c xs r))
    \<and> loading (load_offsets c xs r) = loading r \<union> set xs"
proof (induction c xs r rule: load_offsets.induct)
  case (2 c x xs r)
  let ?r1 = "if c then checkLoadWillBeFirst x r else r"
  have p: "pq_inv (rd_loadingOffsets ?r1)" "loading ?r1 = loading r"
    using checkLoadWillBeFirst_loading [OF "2.prems"] "2.prems" by simp_all
  note l = loadAtOffset_loading [OF p(1), of x]
  show ?case using "2.IH" [OF l(1)] l(2) p(2) by auto
qed simp

lemma unload_part_loading:
  assumes "unload_part ser r = Some r'" and "pq_inv (rd_loadingOffsets r)"
  shows "pq_inv (rd_loadingOffsets r')" and "loading r' \<subseteq> loading r"
    and "rd_baseKey r \<noteq> None \<Longrightarrow> 0 \<le> ser_number ser \<Longrightarrow>
      loading r' = {x \<in> loading r. \<not> ((max (ser_number ser) 1 - 1) * kInSlice \<le> x \<and> x < max (ser_number ser) 1 * kInSlice)}"
proof -
  let ?i = "max (ser_number ser) 1 - 1"
  note t = range_entries [OF assms(2), of "?i * kInSlice" "(?i + 1) * kInSlice"]
  have r': "rd_loadingOffsets r' = (if rd_baseKey r \<noteq> None \<and> 0 \<le> ser_number ser
      then snd (PriorityQueue_takeInRange (?i * kInSlice) ((?i + 1) * kInSlice) (rd_loadingOffsets r))
      else rd_loadingOffsets r)"
    using assms(1)
    by (auto simp: unload_part_def cancelLoadInRange_def putToCache_def Let_def bind_eq_Some_conv foldl_cancel
        split: option.splits if_splits prod.splits)
  show "pq_inv (rd_loadingOffsets r')" using t(1) assms(2) by (simp add: r')
  show "loading r' \<subseteq> loading r" using t(2) by (auto simp: loading_def r')
  show "loading r' = {x \<in> loading r. \<not> (?i * kInSlice \<le> x \<and> x < max (ser_number ser) 1 * kInSlice)}"
    if "rd_baseKey r \<noteq> None" "0 \<le> ser_number ser"
    using t(2) that by (auto simp: loading_def r')
qed

text \<open>One attempt to answer from the slices.\<close>

lemma fillFromSlices_inv:
  assumes inv: "reader_inv file r" and small: "int (length file) < 2 ^ 31"
    and f: "fillFromSlices offset buffer r = Some (filled, copied, r')"
  shows "reader_inv file r'" and "rd_baseKey r' = rd_baseKey r"
    and "copied = (if filled then segment file offset (offset + int (length buffer)) else buffer)"
    and "rd_failed r' = rd_failed r \<or> \<not> filled \<and> rd_failed r' = Some NotStreamable"
proof -
  obtain result st where s: "Slices_fill offset buffer (rd_slices r) = Some (result, copied, st)"
    using f by (auto simp: fillFromSlices_def Let_def bind_eq_Some_conv split: if_split_asm)
  have si: "slices_inv file (rd_slices r)" using inv by (simp add: reader_inv_def)
  from Slices_fill_ok [OF si small Slices_fill_range [OF s si]] s
  have ok: "read_ok file (rd_slices r) offset buffer result copied st" by auto
  note fr = Slices_fill_frame [OF s]
  let ?r1 = "r\<lparr>rd_slices := st\<rparr>"
  have i1: "reader_inv file ?r1" using inv ok fr(1) by (simp add: reader_inv_def read_ok_def loading_def)
  have "reader_inv file r' \<and> rd_baseKey r' = rd_baseKey r \<and> (rd_failed r' = rd_failed r \<and> filled = fr_filled result
      \<or> \<not> fr_filled result \<and> \<not> filled \<and> rd_failed r' = Some NotStreamable)"
  proof (cases "\<not> fr_filled result \<and> headerWontBeFilled st")
    case True
    then have "filled = False" "r' = ?r1\<lparr>rd_failed := Some NotStreamable\<rparr>" using f s by (auto simp: fillFromSlices_def Let_def)
    then show ?thesis using i1 True by (simp add: reader_inv_def loading_def)
  next
    case False
    obtain r2 r3 where r2: "read_slices_from_cache (StackIntVector_values (fr_sliceNumbersFromCache result)) ?r1 = Some r2"
      and r3: "unload_part (fr_toCache result) r2 = Some r3"
      and r': "r' = load_offsets True (StackIntVector_values (fr_offsetsFromLoader result)) r3" "filled = fr_filled result"
      using f s False by (auto simp: fillFromSlices_def Let_def bind_eq_Some_conv)
    note f2 = read_slices_from_cache_fields [OF r2] and f3 = unload_part_fields [OF r3]
      and f4 = load_offsets_fields [of r3 True "StackIntVector_values (fr_offsetsFromLoader result)"]
    have p2: "pq_inv (rd_loadingOffsets r2)" using f2 inv by (simp add: reader_inv_def)
    note l3 = unload_part_loading [OF r3 p2]
    note l4 = load_offsets_loading [OF l3(1), of True "StackIntVector_values (fr_offsetsFromLoader result)"]
    have "\<forall>x \<in> loading r'. 0 \<le> x \<and> x < int (length file) \<and> x mod kPartSize = 0"
    proof
      fix x assume "x \<in> loading r'"
      then consider "x \<in> loading r" | "x \<in> set (StackIntVector_values (fr_offsetsFromLoader result))"
        using l4 l3(2) f2 unfolding r'(1) by (auto simp: loading_def)
      then show "0 \<le> x \<and> x < int (length file) \<and> x mod kPartSize = 0"
        using inv ok by cases (auto simp: reader_inv_def read_ok_def requests_ok_def)
    qed
    then have "reader_inv file r'"
      using i1 l4 f2 f3 f4 unfolding r'(1) by (auto simp: reader_inv_def same_arrivals_def)
    then show ?thesis using f2 f3 f4 unfolding r' by (simp add: same_arrivals_def)
  qed
  then show "reader_inv file r'" and "rd_baseKey r' = rd_baseKey r"
    and "copied = (if filled then segment file offset (offset + int (length buffer)) else buffer)"
    and "rd_failed r' = rd_failed r \<or> \<not> filled \<and> rd_failed r' = Some NotStreamable"
    using ok by (auto simp: read_ok_def split: if_splits)
qed

text \<open>Whether an arrival is one of the cache.\<close>

fun from_cache :: "arrival \<Rightarrow> bool" where
  "from_cache (CacheArrived n bs) \<longleftrightarrow> True"
| "from_cache (PartArrived x bs) \<longleftrightarrow> False"

lemma insert_not_nil [simp]: "fst (flat_map_insert (<) e xs) \<noteq> []" for e :: "int \<times> byte_array"
  by (auto simp: flat_map_insert_def insert_at_def Let_def flat_map_getLowerBound_def partition_point_def)

lemma arrive_all_waiting:
  "rd_failed (arrive_all as r) = rd_failed r
    \<and> (rd_loadedParts (arrive_all as r) = [] \<longrightarrow> (\<forall>a \<in> set as. from_cache a) \<and> rd_loadedParts r = [])
    \<and> (rd_results (arrive_all as r) = [] \<longrightarrow> (\<forall>a \<in> set as. \<not> from_cache a) \<and> rd_results r = [])
    \<and> ((\<forall>a \<in> set as. from_cache a) \<longrightarrow> rd_waiting (arrive_all as r) = rd_waiting r
        \<and> (rd_cacheWaiting r \<longrightarrow> rd_cacheWaiting (arrive_all as r) \<and> rd_results (arrive_all as r) = rd_results r
            \<or> rd_events (arrive_all as r) \<noteq> [] \<and> last (rd_events (arrive_all as r)) = NotifyRelease)
        \<and> (rd_events r \<noteq> [] \<and> last (rd_events r) = NotifyRelease \<longrightarrow>
            rd_events (arrive_all as r) \<noteq> [] \<and> last (rd_events (arrive_all as r)) = NotifyRelease))
    \<and> ((\<forall>a \<in> set as. \<not> from_cache a) \<longrightarrow> rd_cacheWaiting (arrive_all as r) = rd_cacheWaiting r)"
proof (induction as arbitrary: r)
  case (Cons a as)
  have e: "arrive_all (a # as) r = arrive_all as (arrive a r)" by (simp add: arrive_all_def)
  show ?case
  proof (cases a)
    case (CacheArrived n bs)
    have f: "rd_failed (arrive a r) = rd_failed r" "rd_loadedParts (arrive a r) = rd_loadedParts r"
      "rd_results (arrive a r) \<noteq> []" "rd_waiting (arrive a r) = rd_waiting r" "from_cache a"
      "rd_cacheWaiting r \<Longrightarrow> rd_events (arrive a r) \<noteq> [] \<and> last (rd_events (arrive a r)) = NotifyRelease"
      "rd_events r \<noteq> [] \<and> last (rd_events r) = NotifyRelease \<Longrightarrow>
        rd_events (arrive a r) \<noteq> [] \<and> last (rd_events (arrive a r)) = NotifyRelease"
      by (auto simp: CacheArrived cache_answered_def Let_def)
    show ?thesis unfolding e using Cons.IH [of "arrive a r"] f by auto
  next
    case (PartArrived x bs)
    have f: "rd_failed (arrive a r) = rd_failed r" "rd_loadedParts (arrive a r) \<noteq> []"
      "rd_results (arrive a r) = rd_results r" "\<not> from_cache a" "rd_cacheWaiting (arrive a r) = rd_cacheWaiting r"
      by (auto simp: PartArrived part_loaded_def Let_def)
    show ?thesis unfolding e using Cons.IH [of "arrive a r"] f by auto
  qed
qed (simp add: arrive_all_def)

text \<open>Nothing can come without waking the reader.\<close>

definition will_wake :: "Reader \<Rightarrow> bool" where
  "will_wake r \<longleftrightarrow> rd_waiting r \<and> rd_loadedParts r = []
     \<and> (rd_baseKey r \<noteq> None \<longrightarrow> rd_cacheWaiting r \<and> rd_results r = []
         \<or> rd_events r \<noteq> [] \<and> last (rd_events r) = NotifyRelease)"

definition batch_ok :: "byte_array \<Rightarrow> bool \<Rightarrow> arrival list \<times> arrival list \<Rightarrow> bool" where
  "batch_ok file cached batch \<longleftrightarrow> (\<forall>a \<in> set (fst batch @ snd batch). arrival_ok file cached a)"

lemma check_arrived_inv:
  assumes inv: "reader_inv file r" and ok: "batch_ok file (rd_baseKey r \<noteq> None) batch"
    and c: "check_arrived batch r = Some (again, r')"
  shows "reader_inv file r'" and "rd_baseKey r' = rd_baseKey r"
    and "rd_failed r' = rd_failed r \<or> rd_failed r' = Some LoadFailed" and "again \<Longrightarrow> rd_failed r' = None"
    and "rd_waiting r \<Longrightarrow> rd_cacheWaiting r = (rd_baseKey r \<noteq> None) \<Longrightarrow> \<not> again \<Longrightarrow> rd_failed r' = None \<Longrightarrow> will_wake r'"
proof -
  let ?ra = "arrive_all (fst batch) r"
  obtain more1 r1 where c1: "processCacheResults ?ra = Some (more1, r1)"
    and c2: "if more1 then again = True \<and> r' = arrive_all (snd batch) r1
      else processLoadedParts (arrive_all (snd batch) r1) = Some (again, r')"
    using c by (auto simp: check_arrived_def bind_eq_Some_conv split: if_split_asm)
  let ?rb = "arrive_all (snd batch) r1"
  have a1: "reader_inv file ?ra" "rd_baseKey ?ra = rd_baseKey r"
    using arrive_all_inv [OF inv, of "fst batch"] ok by (simp_all add: batch_ok_def)
  note p1 = processCacheResults_inv [OF a1(1) c1]
  have a2: "reader_inv file ?rb" "rd_baseKey ?rb = rd_baseKey r"
    using arrive_all_inv [OF p1(1), of "snd batch"] ok p1(2) a1(2) by (simp_all add: batch_ok_def)
  note w1 = arrive_all_waiting [of "fst batch" r] and w2 = arrive_all_waiting [of "snd batch" r1]
  have all: "reader_inv file r' \<and> rd_baseKey r' = rd_baseKey r
    \<and> (rd_failed r' = rd_failed r \<or> rd_failed r' = Some LoadFailed) \<and> (again \<longrightarrow> rd_failed r' = None)"
  proof (cases more1)
    case True
    then show ?thesis using c2 a2 w1 w2 p1(3,4) by simp
  next
    case False
    then have "processLoadedParts ?rb = Some (again, r')" using c2 by simp
    from processLoadedParts_inv(1-3,10) [OF a2(1) this] a2(2) w1 w2 p1(3) show ?thesis by auto
  qed
  then show "reader_inv file r'" and "rd_baseKey r' = rd_baseKey r"
    and "rd_failed r' = rd_failed r \<or> rd_failed r' = Some LoadFailed" and "again \<Longrightarrow> rd_failed r' = None" by blast+
  show "will_wake r'" if wait: "rd_waiting r" "rd_cacheWaiting r = (rd_baseKey r \<noteq> None)"
    and stop: "\<not> again" "rd_failed r' = None"
  proof -
    have no: "\<not> more1" and p: "processLoadedParts ?rb = Some (False, r')" using c2 stop(1) by (auto split: if_splits)
    note p2 = processLoadedParts_inv [OF a2(1) p]
    have fb: "rd_failed ?rb = None" using p2(4) stop(2) by (cases "rd_failed ?rb") auto
    then have fr: "rd_failed ?ra = None" using w2 p1(3) by simp
    have lb: "rd_loadedParts ?rb = []"
    proof (rule ccontr)
      assume ne: "rd_loadedParts ?rb \<noteq> []"
      then have pp: "process_parts (rd_loadedParts ?rb) (?rb\<lparr>rd_loadedParts := []\<rparr>) = Some (False, r')"
        using p fb by (auto simp: processLoadedParts_def Let_def)
      have i: "reader_inv file (?rb\<lparr>rd_loadedParts := []\<rparr>)" "\<forall>p \<in> set (rd_loadedParts ?rb). part_true file p"
        using a2(1) by (simp_all add: reader_inv_def loading_def)
      from process_parts_inv [OF i(1) _ i(2) pp] stop(2) show False by simp
    qed
    have parts: "\<forall>a \<in> set (snd batch). from_cache a" "rd_loadedParts r1 = []" using w2 lb by blast+
    have "rd_loadedParts ?ra = []" using parts(2) p1(5) by simp
    then have parts1: "\<forall>a \<in> set (fst batch). from_cache a" using w1 by blast
    have wa: "rd_waiting r'" using w1 w2 parts(1) parts1 p1(6) p2(6) wait(1) by simp
    have rest: "rd_cacheWaiting r' \<and> rd_results r' = [] \<or> rd_events r' \<noteq> [] \<and> last (rd_events r') = NotifyRelease"
      if key: "rd_baseKey r' \<noteq> None"
    proof -
      have k: "rd_baseKey ?ra \<noteq> None" using key all a1(2) by simp
      have res: "rd_results ?ra = []" using c1 no k fr by (auto simp: processCacheResults_def Let_def)
      then have "rd_cacheWaiting ?ra = rd_cacheWaiting r" using w1 by blast
      then have cw: "rd_cacheWaiting r1" using wait(2) key all p1(7) by simp
      have r1: "rd_results r1 = []" by (rule p1(9) [OF no fr])
      have "rd_cacheWaiting ?rb \<and> rd_results ?rb = [] \<or> rd_events ?rb \<noteq> [] \<and> last (rd_events ?rb) = NotifyRelease"
        using w2 parts(1) cw r1 by auto
      then show ?thesis using p2(7-9) by simp
    qed
    show ?thesis using wa rest p2(5) stop(2) by (auto simp: will_wake_def)
  qed
qed

lemma startWaiting_inv: "reader_inv file r \<Longrightarrow> reader_inv file (startWaiting r)"
  by (simp add: reader_inv_def startWaiting_def loading_def)

lemma clearWaiting_inv: "reader_inv file r \<Longrightarrow> reader_inv file (clearWaiting r)"
  by (simp add: reader_inv_def clearWaiting_def loading_def)

lemma emit_inv: "reader_inv file r \<Longrightarrow> reader_inv file (emit e r)"
  by (simp add: reader_inv_def loading_def)

definition fill_ok :: "byte_array \<Rightarrow> int \<Rightarrow> byte_array \<Rightarrow> Reader \<Rightarrow> bool \<times> byte_array \<times> Reader \<Rightarrow> bool" where
  "fill_ok file offset buffer r res \<longleftrightarrow> (case res of (filled, copied, r') \<Rightarrow> reader_inv file r'
     \<and> rd_baseKey r' = rd_baseKey r
     \<and> copied = (if filled then segment file offset (offset + int (length buffer)) else buffer)
     \<and> (filled \<longrightarrow> rd_failed r' = rd_failed r)
     \<and> (\<not> filled \<longrightarrow> rd_failed r' = None \<longrightarrow> will_wake r'))"

lemma fill_loop_ok:
  "fill_loop offset buffer batches r = Some res \<Longrightarrow> reader_inv file r \<Longrightarrow> int (length file) < 2 ^ 31 \<Longrightarrow>
    \<forall>b \<in> set batches. batch_ok file (rd_baseKey r \<noteq> None) b \<Longrightarrow> rd_failed r = None \<Longrightarrow>
    fill_ok file offset buffer r res"
proof (induction offset buffer batches r rule: fill_loop.induct)
  case (1 offset buffer batches r)
  obtain filled copied r1 where f: "fillFromSlices offset buffer r = Some (filled, copied, r1)"
    using "1.prems"(1) by (subst (asm) fill_loop.simps) (auto split: option.splits)
  note i1 = fillFromSlices_inv [OF "1.prems"(2,3) f]
  show ?case
  proof (cases filled)
    case True
    then have "res = (True, copied, clearWaiting r1)"
      using "1.prems"(1) f by (subst (asm) fill_loop.simps) simp
    then show ?thesis using i1 True clearWaiting_inv [OF i1(1)] "1.prems"(5)
      by (simp add: fill_ok_def clearWaiting_def)
  next
    case False
    let ?b = "if batches = [] then ([], []) else hd batches"
    obtain again r2 where c: "check_arrived ?b (startWaiting r1) = Some (again, r2)"
      using "1.prems"(1) f False by (subst (asm) fill_loop.simps) (auto split: option.splits)
    have key: "rd_baseKey (startWaiting r1) = rd_baseKey r" using i1(2) by (simp add: startWaiting_def)
    have "batch_ok file (rd_baseKey (startWaiting r1) \<noteq> None) ?b"
      using "1.prems"(4) unfolding key by (auto simp: batch_ok_def)
    note i2 = check_arrived_inv [OF startWaiting_inv [OF i1(1)] this c]
    have copied: "copied = buffer" using i1(3) False by simp
    show ?thesis
    proof (cases again)
      case a: True
      have loop: "fill_loop offset copied (tl batches) r2 = Some res"
        using "1.prems"(1) f False c a by (subst (asm) fill_loop.simps) simp
      have "rd_failed r2 = None" by (rule i2(4) [OF a])
      then have "fill_ok file offset copied r2 res"
        using "1.IH" [OF f refl refl False c refl] a loop i2(1,2) key "1.prems"(3,4)
        by (cases batches) auto
      then show ?thesis using i2(2) key copied \<open>rd_failed r2 = None\<close> "1.prems"(5) by (simp add: fill_ok_def split: prod.splits)
    next
      case a: False
      then have "res = (False, copied, r2)" using "1.prems"(1) f False c by (subst (asm) fill_loop.simps) simp
      then show ?thesis using i2 a copied key by (simp add: fill_ok_def startWaiting_def)
    qed
  qed
qed

lemma Reader_fill_ok:
  assumes inv: "reader_inv file r" and small: "int (length file) < 2 ^ 31"
    and ok: "\<forall>b \<in> set batches. batch_ok file (rd_baseKey r \<noteq> None) b"
    and f: "Reader_fill offset buffer batches r = Some (filled, copied, r')"
  shows "reader_inv file r' \<and> rd_baseKey r' = rd_baseKey r
    \<and> copied = (if filled then segment file offset (offset + int (length buffer)) else buffer)
    \<and> (if filled then rd_failed r' = None
       else if rd_failed r' = None then will_wake r'
       else rd_events r' \<noteq> [] \<and> last (rd_events r') = NotifyRelease)"
proof -
  obtain a1 r1 a2 r2 where c1: "processCacheResults r = Some (a1, r1)" and c2: "processLoadedParts r1 = Some (a2, r2)"
    using f by (auto simp: Reader_fill_def bind_eq_Some_conv split: if_split_asm)
  note p1 = processCacheResults_inv [OF inv c1]
  note p2 = processLoadedParts_inv [OF p1(1) c2]
  show ?thesis
  proof (cases "rd_failed r2 = None")
    case False
    then have "(filled, copied, r') = fill_failed buffer r2"
      using f c1 c2 by (auto simp: Reader_fill_def split: if_split_asm)
    then show ?thesis using emit_inv [OF clearWaiting_inv [OF p2(1)]] p1(2) p2(2) False
      by (auto simp: fill_failed_def clearWaiting_def)
  next
    case True
    then obtain g c r3 where l: "fill_loop offset buffer batches r2 = Some (g, c, r3)"
      and res: "(filled, copied, r') =
        (if g then (True, c, r3) else if rd_failed r3 \<noteq> None then fill_failed c r3 else (False, c, r3))"
      using f c1 c2 by (auto simp: Reader_fill_def bind_eq_Some_conv split: if_split_asm)
    have "\<forall>b \<in> set batches. batch_ok file (rd_baseKey r2 \<noteq> None) b" using ok p1(2) p2(2) by simp
    from fill_loop_ok [OF l p2(1) small this True] have k: "fill_ok file offset buffer r2 (g, c, r3)" .
    then have i3: "reader_inv file r3" by (simp add: fill_ok_def)
    show ?thesis using k res True p1(2) p2(2) emit_inv [OF clearWaiting_inv [OF i3]]
      by (auto simp: fill_ok_def fill_failed_def clearWaiting_def split: if_split_asm)
  qed
qed

section \<open>Closing\<close>

definition changed_count :: "Slices \<Rightarrow> nat" where
  "changed_count st = (if s_changedSinceCache (sl_header st) then 1 else 0)
     + length (filter s_changedSinceCache (sl_data st))"

lemma count_update:
  assumes "i < length xs" and "\<not> P x"
  shows "length (filter P (xs[i := x])) + (if P (xs ! i) then 1 else 0) = length (filter P xs)"
proof -
  have "xs = take i xs @ xs ! i # drop (Suc i) xs" using assms(1) by (rule id_take_nth_drop)
  then have "filter P xs = filter P (take i xs) @ filter P (xs ! i # drop (Suc i) xs)" by (metis filter_append)
  moreover have "xs[i := x] = take i xs @ x # drop (Suc i) xs" using assms(1) by (rule upd_conv_take_nth_drop)
  ultimately show ?thesis using assms(2) by simp
qed

text \<open>What one unloading writes and leaves.\<close>

lemma unload_step:
  assumes inv: "slices_inv file st" and small: "int (length file) < 2 ^ 31" and u: "unloadToCache st = Some (ser, st')"
  obtains (nothing) "ser = SerializedSlice_new" "st' = st"
      "changed_count st = 0 \<or> sl_headerMode st = Unknown \<or> sl_headerMode st = NoCache"
  | (header) bs where "ser = \<lparr>ser_number = 0, ser_data = bs\<rparr>" "\<not> isGoodHeader st" "s_changedSinceCache (sl_header st)"
      "st' = st\<lparr>sl_header := (sl_header st)\<lparr>s_changedSinceCache := False\<rparr>\<rparr>"
      "snd (read_entry bs (int (length file))) = s_parts (sl_header st)"
  | (both) bs rest where "ser = \<lparr>ser_number = 0, ser_data = bs\<rparr>" "isGoodHeader st"
      "s_changedSinceCache (sl_header st) \<or> s_changedSinceCache (sl_data st ! 0)"
      "st' = st\<lparr>sl_data := (sl_data st)[0 := Slice_new], sl_header := (sl_header st)\<lparr>s_changedSinceCache := False\<rparr>\<rparr>"
      "read_entry bs (int (length file)) = (rest, s_parts (sl_header st))"
      "snd (read_entry rest (int (length (slice_content file 0)))) =
        erase_parts (s_parts (sl_header st)) (s_parts (sl_data st ! 0))"
  | (one) i bs where "ser = \<lparr>ser_number = int i + 1, ser_data = bs\<rparr>" "i < length (sl_data st)"
      "s_changedSinceCache (sl_data st ! i)" "\<not> (isGoodHeader st \<and> i = 0)"
      "st' = st\<lparr>sl_data := (sl_data st)[i := Slice_new]\<rparr>"
      "snd (read_entry bs (int (length (slice_content file (int i))))) = s_parts (sl_data st ! i)"
proof (cases "sl_headerMode st = Unknown \<or> sl_headerMode st = NoCache")
  case True
  then have "ser = SerializedSlice_new" "st' = st" using u by (auto simp: unloadToCache_def)
  then show ?thesis by (rule nothing) (use True in blast)
next
  case False
  then have mode: "sl_headerMode st \<noteq> Unknown" "sl_headerMode st \<noteq> NoCache" by simp_all
  have size: "sl_size st = int (length file)" using inv by (simp add: slices_inv_def slices_ok_def)
  have good_case: thesis if good: "isGoodHeader st" and n: "n = 0 \<or> n = 1"
    and s: "serializeAndUnloadSlice n st = Some (ser, st')" and loaded: "s_loadedFromCache (sl_data st ! 0)"
    and ch: "s_changedSinceCache (sl_header st) \<or> s_changedSinceCache (sl_data st ! 0)" for n
  proof -
    note g = serialize_good [OF inv small good n loaded]
    from g(4) obtain rest where r: "read_entry (ser_data ser) (int (length file)) = (rest, s_parts (sl_header st))"
      "snd (read_entry rest (int (length (slice_content file 0)))) = erase_parts (s_parts (sl_header st)) (s_parts (sl_data st ! 0))"
      using g(1) s by auto
    show thesis by (rule both [OF _ good ch _ r]) (use g(1) s in auto)
  qed
  show ?thesis
  proof (cases "s_changedSinceCache (sl_header st)")
    case True
    then have s: "serializeAndUnloadSlice 0 st = Some (ser, st')" using u False by (simp add: unloadToCache_def)
    show ?thesis
    proof (cases "isGoodHeader st")
      case good: True
      then have "s_loadedFromCache (sl_data st ! 0)" using slices_inv_parts(6) [OF inv] True by (simp add: isGoodHeader_def)
      then show ?thesis using good_case [OF good _ s] True by blast
    next
      case nogood: False
      have ne: "s_parts (slice_of 0 st) \<noteq> []"
        using slices_inv_parts(3) [OF inv] True by (simp add: slice_of_def slice_flags_ok_def)
      have t: "0 = unload_target 0 st" by (simp add: unload_target_def)
      note g = serialize_single [OF inv small mode order_refl _ t _ ne]
      have g1: "serializeAndUnloadSlice 0 st = Some (\<lparr>ser_number = 0,
          ser_data = single_entry (maxSliceSize 0 st) (slice_of 0 st)\<rparr>, st\<lparr>sl_header := (sl_header st)\<lparr>s_changedSinceCache := False\<rparr>\<rparr>)"
        and g4: "snd (read_entry (single_entry (maxSliceSize 0 st) (slice_of 0 st)) (maxSliceSize 0 st)) = s_parts (slice_of 0 st)"
        using g(1,4) nogood by auto
      show ?thesis
        by (rule header [OF _ nogood True])
          (use g1 g4 s in \<open>auto simp: maxSliceSize_def slice_of_def size\<close>)
    qed
  next
    case unchanged: False
    let ?i = "partition_point (\<lambda>s. \<not> s_changedSinceCache s) (sl_data st)"
    show ?thesis
    proof (cases "?i = length (sl_data st)")
      case True
      have "\<forall>s \<in> set (take ?i (sl_data st)). \<not> s_changedSinceCache s" by (metis partition_point_take)
      then have "filter s_changedSinceCache (sl_data st) = []" using True by (simp add: filter_empty_conv)
      then have none: "changed_count st = 0" using unchanged by (simp add: changed_count_def)
      have "ser = SerializedSlice_new" "st' = st"
        using u False unchanged True by (auto simp: unloadToCache_def Let_def)
      then show ?thesis by (rule nothing) (simp add: none)
    next
      case some: False
      then have i: "?i < length (sl_data st)" using partition_point_le [of _ "sl_data st"] by (metis le_neq_implies_less)
      then have changed: "s_changedSinceCache (sl_data st ! ?i)" using partition_point_stop by blast
      have s: "serializeAndUnloadSlice (int ?i + 1) st = Some (ser, st')"
        using u False unchanged some by (simp add: unloadToCache_def Let_def)
      have fl: "s_loadedFromCache (sl_data st ! ?i)" "s_parts (sl_data st ! ?i) \<noteq> []"
        using slices_inv_parts(4) [OF inv i] changed by (simp_all add: slice_flags_ok_def)
      show ?thesis
      proof (cases "isGoodHeader st \<and> ?i = 0")
        case True
        then show ?thesis using good_case [of "int ?i + 1"] s fl(1) changed by auto
      next
        case nogood: False
        have t: "int ?i + 1 = unload_target (int ?i + 1) st" using nogood by (auto simp: unload_target_def)
        have ne: "s_parts (slice_of (int ?i + 1) st) \<noteq> []" using fl(2) by (simp add: slice_of_def)
        have bounds: "0 \<le> int ?i + 1" "int ?i + 1 \<le> int (length (sl_data st))" using i by linarith+
        note g = serialize_single [OF inv small mode bounds t _ ne]
        have max: "maxSliceSize (int ?i + 1) st = int (length (slice_content file (int ?i)))"
          using maxSliceSize_content [of "file" st "int ?i + 1"] inv bounds by (simp add: slices_inv_def)
        show ?thesis
          by (rule one [OF _ i changed nogood])
            (use g(1,4) s max in \<open>auto simp: slice_of_def put_slice_def\<close>)
      qed
    qed
  qed
qed

text \<open>The puts \<open>es\<close> hold every part that is not in the cache yet.\<close>

definition put_in :: "Key \<Rightarrow> event list \<Rightarrow> int \<Rightarrow> byte_array \<Rightarrow> bool" where
  "put_in baseKey es n bs \<longleftrightarrow> CachePut (CacheHelper_key baseKey n) bs \<in> set es"

definition all_saved :: "byte_array \<Rightarrow> Key \<Rightarrow> Slices \<Rightarrow> event list \<Rightarrow> bool" where
  "all_saved file baseKey st es \<longleftrightarrow>
     (\<forall>i < length (sl_data st). s_changedSinceCache (sl_data st ! i) \<longrightarrow> \<not> (isGoodHeader st \<and> i = 0) \<longrightarrow>
        (\<exists>bs. put_in baseKey es (int i + 1) bs
          \<and> snd (read_entry bs (int (length (slice_content file (int i))))) = s_parts (sl_data st ! i)))
     \<and> (s_changedSinceCache (sl_header st) \<longrightarrow> \<not> isGoodHeader st \<longrightarrow>
        (\<exists>bs. put_in baseKey es 0 bs \<and> snd (read_entry bs (int (length file))) = s_parts (sl_header st)))
     \<and> (isGoodHeader st \<longrightarrow> s_changedSinceCache (sl_header st) \<or> s_changedSinceCache (sl_data st ! 0) \<longrightarrow>
        (\<exists>bs rest. put_in baseKey es 0 bs \<and> read_entry bs (int (length file)) = (rest, s_parts (sl_header st))
          \<and> snd (read_entry rest (int (length (slice_content file 0)))) =
            erase_parts (s_parts (sl_header st)) (s_parts (sl_data st ! 0))))"

lemma all_saved_step:
  assumes rest: "all_saved file baseKey st' es" and inv: "slices_inv file st"
    and u: "unloadToCache st = Some (ser, st')" "0 \<le> ser_number ser" and small: "int (length file) < 2 ^ 31"
  shows "all_saved file baseKey st (CachePut (CacheHelper_key baseKey (ser_number ser)) (ser_data ser) # es)"
proof -
  let ?es = "CachePut (CacheHelper_key baseKey (ser_number ser)) (ser_data ser) # es"
  have more: "put_in baseKey es n bs \<Longrightarrow> put_in baseKey ?es n bs" for n bs by (simp add: put_in_def)
  have new: "put_in baseKey ?es (ser_number ser) (ser_data ser)" by (simp add: put_in_def)
  show "all_saved file baseKey st ?es"
    using inv small u(1)
  proof (cases rule: unload_step)
    case nothing
    then show ?thesis using u(2) by (simp add: SerializedSlice_new_def)
  next
    case (header bs)
    have g: "\<not> isGoodHeader st'" "sl_data st' = sl_data st" using header(2,4) by (simp_all add: isGoodHeader_def)
    have "\<exists>bs. put_in baseKey ?es 0 bs \<and> snd (read_entry bs (int (length file))) = s_parts (sl_header st)"
      using new header(1,5) by auto
    then show ?thesis using rest g(1) header(2) more unfolding all_saved_def g(2) by blast
  next
    case (both bs rest_bytes)
    have g: "isGoodHeader st'" "length (sl_data st') = length (sl_data st)"
      "\<And>i. i \<noteq> 0 \<Longrightarrow> sl_data st' ! i = sl_data st ! i" using both(2,4) by (simp_all add: isGoodHeader_def)
    show ?thesis
      unfolding all_saved_def
    proof (intro conjI allI impI)
      fix i assume i: "i < length (sl_data st)" "s_changedSinceCache (sl_data st ! i)" "\<not> (isGoodHeader st \<and> i = 0)"
      then have "i \<noteq> 0" using both(2) by simp
      then show "\<exists>bs. put_in baseKey ?es (int i + 1) bs
          \<and> snd (read_entry bs (int (length (slice_content file (int i))))) = s_parts (sl_data st ! i)"
        using rest i g more unfolding all_saved_def by metis
    next
      show "\<exists>bs rest. put_in baseKey ?es 0 bs \<and> read_entry bs (int (length file)) = (rest, s_parts (sl_header st))
          \<and> snd (read_entry rest (int (length (slice_content file 0)))) =
            erase_parts (s_parts (sl_header st)) (s_parts (sl_data st ! 0))"
        using new both(1,5,6) by auto
    qed (use both(2) in blast)
  next
    case (one i bs)
    have g: "isGoodHeader st' = isGoodHeader st" "length (sl_data st') = length (sl_data st)"
      "sl_header st' = sl_header st" "\<And>j. j \<noteq> i \<Longrightarrow> sl_data st' ! j = sl_data st ! j"
      using one(5) by (simp_all add: isGoodHeader_def)
    show ?thesis
      unfolding all_saved_def
    proof (intro conjI allI impI)
      fix j assume j: "j < length (sl_data st)" "s_changedSinceCache (sl_data st ! j)" "\<not> (isGoodHeader st \<and> j = 0)"
      show "\<exists>bs. put_in baseKey ?es (int j + 1) bs
          \<and> snd (read_entry bs (int (length (slice_content file (int j))))) = s_parts (sl_data st ! j)"
      proof (cases "j = i")
        case True
        then show ?thesis using new one(1,6) by auto
      next
        case False
        then show ?thesis using rest j g more unfolding all_saved_def by metis
      qed
    next
      assume "s_changedSinceCache (sl_header st)" "\<not> isGoodHeader st"
      then show "\<exists>bs. put_in baseKey ?es 0 bs \<and> snd (read_entry bs (int (length file))) = s_parts (sl_header st)"
        using rest g more unfolding all_saved_def by metis
    next
      assume h: "isGoodHeader st" "s_changedSinceCache (sl_header st) \<or> s_changedSinceCache (sl_data st ! 0)"
      then have "sl_data st' ! 0 = sl_data st ! 0" using one(4) g(4) by metis
      then show "\<exists>bs rest. put_in baseKey ?es 0 bs \<and> read_entry bs (int (length file)) = (rest, s_parts (sl_header st))
          \<and> snd (read_entry rest (int (length (slice_content file 0)))) =
            erase_parts (s_parts (sl_header st)) (s_parts (sl_data st ! 0))"
        using rest h g more unfolding all_saved_def by metis
    qed
  qed
qed

lemma unload_decreases:
  assumes inv: "slices_inv file st" and small: "int (length file) < 2 ^ 31"
    and u: "unloadToCache st = Some (ser, st')" and n: "0 \<le> ser_number ser"
  shows "changed_count st' < changed_count st"
  using inv small u
proof (cases rule: unload_step)
  case nothing
  then show ?thesis using n by (simp add: SerializedSlice_new_def)
next
  case (header bs)
  then show ?thesis by (simp add: changed_count_def)
next
  case (both bs rest)
  have zero: "0 < length (sl_data st)" using both(2) slices_inv_parts(6) [OF inv] by (simp add: isGoodHeader_def)
  show ?thesis using count_update [OF zero, of s_changedSinceCache Slice_new] both(3,4)
    by (auto simp: changed_count_def split: if_splits)
next
  case (one i bs)
  then show ?thesis using count_update [OF one(2), of s_changedSinceCache Slice_new] by (simp add: changed_count_def)
qed

text \<open>The loop of \<^verbatim>\<open>finalizeCache\<close> ends: each round unloads a changed slice.\<close>

lemma unload_loop_ok:
  assumes small: "int (length file) < 2 ^ 31"
  shows "slices_inv file (rd_slices r) \<Longrightarrow> rd_baseKey r = Some baseKey \<Longrightarrow> sl_headerMode (rd_slices r) \<noteq> Unknown \<Longrightarrow>
    sl_headerMode (rd_slices r) \<noteq> NoCache \<Longrightarrow>
    \<exists>r' es. unload_loop r = Some r' \<and> rd_events r' = rd_events r @ es
      \<and> length es \<le> changed_count (rd_slices r) \<and> changed_count (rd_slices r') = 0
      \<and> all_saved file baseKey (rd_slices r) es
      \<and> (\<forall>e \<in> set es. \<exists>n bs. 0 \<le> n \<and> e = CachePut (CacheHelper_key baseKey n) bs \<and> entry_ok file n bs)"
proof (induction "changed_count (rd_slices r)" arbitrary: r rule: less_induct)
  case less
  let ?st = "rd_slices r"
  from unload_ok [OF less.prems(1) small] obtain ser st' where u: "unloadToCache ?st = Some (ser, st')"
    and inv': "slices_inv file st'" and ok: "ser_ok file ser" by blast
  show ?case
  proof (cases "0 \<le> ser_number ser")
    case False
    have none: "ser = SerializedSlice_new \<and> st' = ?st \<and> changed_count ?st = 0"
      using less.prems(1) small u by (cases rule: unload_step) (use False less.prems(3,4) in auto)
    moreover have "sl_data ?st ! 0 \<in> set (sl_data ?st)" if "isGoodHeader ?st"
      using that slices_inv_parts(6) [OF less.prems(1)] by (simp add: isGoodHeader_def)
    ultimately have "all_saved file baseKey ?st []"
      by (auto simp: all_saved_def changed_count_def filter_empty_conv split: if_splits)
    moreover have "unload_loop r = Some (r\<lparr>rd_slices := st'\<rparr>)"
      using False u by (subst unload_loop.simps) simp
    ultimately show ?thesis using none by auto
  next
    case True
    let ?e = "CachePut (CacheHelper_key baseKey (ser_number ser)) (ser_data ser)"
    let ?r1 = "emit ?e (r\<lparr>rd_slices := st'\<rparr>)"
    have loop: "unload_loop r = unload_loop ?r1"
      using True u less.prems(2) by (subst unload_loop.simps) (simp add: putToCache_def)
    have mode: "sl_headerMode st' = sl_headerMode ?st"
      using less.prems(1) small u by (cases rule: unload_step) simp_all
    have dec: "changed_count st' < changed_count ?st"
      by (rule unload_decreases [OF less.prems(1) small u True])
    obtain r' es where r': "unload_loop ?r1 = Some r'" "rd_events r' = rd_events ?r1 @ es"
      "length es \<le> changed_count st'" "changed_count (rd_slices r') = 0" "all_saved file baseKey st' es"
      "\<forall>e \<in> set es. \<exists>n bs. 0 \<le> n \<and> e = CachePut (CacheHelper_key baseKey n) bs \<and> entry_ok file n bs"
      using less.hyps [of ?r1] dec inv' less.prems(2-4) mode by auto
    have "all_saved file baseKey ?st (?e # es)"
      by (rule all_saved_step(1) [OF r'(5) less.prems(1) u True small])
    moreover have "\<exists>n bs. 0 \<le> n \<and> ?e = CachePut (CacheHelper_key baseKey n) bs \<and> entry_ok file n bs"
      using ok True by (auto simp: ser_ok_def)
    ultimately show ?thesis using r' dec loop
      by (intro exI [of _ r'] exI [of _ "?e # es"]) auto
  qed
qed

end
