(* ===== verification/StreamingSession.thy ===== *)
theory StreamingSession
  imports StreamingReaderReads
begin

text \<open>
  The properties of \<^verbatim>\<open>Media::Streaming::Reader\<close> over its whole life: the states it can reach from
  its constructor, what a read answers in them, how it fails and what it leaves in the cache.
\<close>

section \<open>Reachable readers\<close>

text \<open>
  \<^verbatim>\<open>headerDone\<close> is called by the demuxer once it has read the start of the file, so something of
  the header is there by then.
\<close>

inductive reader_reachable :: "byte_array \<Rightarrow> Reader \<Rightarrow> bool" for contents where
  reader_new: "Reader_new (int (length contents)) baseKey = Some r \<Longrightarrow> reader_reachable contents r"
| reader_arrive: "reader_reachable contents r \<Longrightarrow> arrival_ok contents (rd_baseKey r \<noteq> None) a \<Longrightarrow>
    reader_reachable contents (arrive a r)"
| reader_fill: "reader_reachable contents r \<Longrightarrow> \<forall>b \<in> set batches. batch_ok contents (rd_baseKey r \<noteq> None) b \<Longrightarrow>
    Reader_fill offset buffer batches r = Some (filled, copied, r') \<Longrightarrow> reader_reachable contents r'"
| reader_header: "reader_reachable contents r \<Longrightarrow>
    isFullInHeader (rd_slices r) \<or> s_parts (sl_header (rd_slices r)) \<noteq> [] \<Longrightarrow>
    Reader_headerDone r = Some r' \<Longrightarrow> reader_reachable contents r'"
| reader_stop: "reader_reachable contents r \<Longrightarrow> reader_reachable contents (Reader_stop r)"

lemma Reader_new_inv:
  assumes "Reader_new (int (length file)) baseKey = Some r"
  shows "reader_inv file r" and "rd_baseKey r = baseKey"
proof -
  obtain st where st: "Slices_new (int (length file)) (baseKey \<noteq> None) = Some st"
    and r: "rd_slices r = st" "rd_results r = []" "rd_loadedParts r = []" "rd_loadingOffsets r = PriorityQueue_new"
      "rd_baseKey r = baseKey"
    using assms by (auto simp: Reader_new_def readFromCache_def bind_eq_Some_conv Let_def split: if_splits option.splits)
  show "rd_baseKey r = baseKey" by (rule r(5))
  have "slices_inv file st" by (rule Slices_new_inv [OF st])
  moreover have "sl_headerMode st = NoCache \<longleftrightarrow> baseKey = None"
    using st by (auto simp: Slices_new_def Let_def split: if_splits)
  ultimately show "reader_inv file r"
    by (simp add: reader_inv_def r loading_def PriorityQueue_new_def pq_inv_def)
qed

lemma Reader_headerDone_inv:
  assumes "reader_inv file r" and "Reader_headerDone r = Some r'"
    and "isFullInHeader (rd_slices r) \<or> s_parts (sl_header (rd_slices r)) \<noteq> []"
  shows "reader_inv file r'"
proof -
  obtain st where st: "Slices_headerDone False (rd_slices r) = Some st" and r': "r' = r\<lparr>rd_slices := st\<rparr>"
    using assms(2) by (auto simp: Reader_headerDone_def)
  have "slices_inv file st" using headerDone_inv [OF _ st assms(3)] assms(1) by (simp add: reader_inv_def)
  then show ?thesis using assms(1) headerDone_frame [OF st] by (simp add: r' reader_inv_def same_file_def loading_def)
qed

lemma reader_reachable_inv:
  assumes "reader_reachable file r" and "int (length file) < 2 ^ 31"
  shows "reader_inv file r"
  using assms(1)
proof (induction rule: reader_reachable.induct)
  case (reader_new baseKey r)
  then show ?case by (rule Reader_new_inv(1))
next
  case (reader_arrive r a)
  then show ?case using arrive_all_inv [of "file" r "[a]"] by (simp add: arrive_all_def)
next
  case (reader_fill r batches offset buffer filled copied r')
  from Reader_fill_ok [OF reader_fill.IH assms(2) reader_fill.hyps(2,3)] show ?case by blast
next
  case (reader_header r r')
  then show ?case by (blast intro: Reader_headerDone_inv)
next
  case (reader_stop r)
  then show ?case by (simp add: reader_inv_def Reader_stop_def loading_def)
qed

section \<open>Reads\<close>

text \<open>
  C18: Whatever the cache and the loader send while a read waits, in every order, a read that is
  answered gives exactly the bytes of the file at its offset, and only a reader that has not
  failed answers; a read that is not answered leaves its buffer alone.
\<close>

theorem reader_fill_returns_file_bytes:
  assumes "reader_reachable file r" and "int (length file) < 2 ^ 31"
    and "\<forall>b \<in> set batches. batch_ok file (rd_baseKey r \<noteq> None) b"
    and "Reader_fill offset buffer batches r = Some (filled, copied, r')"
  shows "reader_reachable file r' \<and> (filled \<longrightarrow> rd_failed r' = None)
    \<and> copied = (if filled then take (length buffer) (drop (nat offset) file) else buffer)"
proof -
  have "reader_reachable file r'" by (rule reader_fill [OF assms(1,3,4)])
  then show ?thesis
    using Reader_fill_ok [OF reader_reachable_inv [OF assms(1,2)] assms(2-4)] by (auto simp: segment_def)
qed

text \<open>
  C20: A read that is not answered never sleeps through what it waits for: nothing that arrived
  is left unseen, the callbacks of the loader and of the cache will release the semaphore, or it
  has been released already; and a failed read has released it.
\<close>

theorem reader_fill_wakes_up:
  assumes "reader_reachable file r" and "int (length file) < 2 ^ 31"
    and "\<forall>b \<in> set batches. batch_ok file (rd_baseKey r \<noteq> None) b"
    and "Reader_fill offset buffer batches r = Some (False, copied, r')"
  shows "if rd_failed r' = None
    then rd_waiting r' \<and> rd_loadedParts r' = []
      \<and> (rd_baseKey r' \<noteq> None \<longrightarrow> rd_cacheWaiting r' \<and> rd_results r' = [] \<or> last (rd_events r') = NotifyRelease)
    else last (rd_events r') = NotifyRelease"
  using Reader_fill_ok [OF reader_reachable_inv [OF assms(1,2)] assms(2-4)]
  by (auto simp: will_wake_def split: if_splits)

section \<open>Failures\<close>

text \<open>A part the reader refuses: the mark of a failure, or neither a whole part nor the last one.\<close>

definition bad_part :: "int \<Rightarrow> int \<times> byte_array \<Rightarrow> bool" where
  "bad_part fileSize p \<longleftrightarrow> fst p = kFailedOffset
     \<or> int (length (snd p)) \<noteq> kPartSize \<and> fst p + int (length (snd p)) \<noteq> fileSize"

lemma process_parts_failed:
  "process_parts ps r = Some (good, r') \<Longrightarrow>
    (good \<longleftrightarrow> (\<forall>p \<in> set ps. \<not> bad_part (sl_size (rd_slices r)) p))
    \<and> rd_failed r' = (if good then rd_failed r else Some LoadFailed) \<and> sl_size (rd_slices r') = sl_size (rd_slices r)"
proof (induction ps r rule: process_parts.induct)
  case (2 x bs ps r)
  let ?bad = "x = kFailedOffset \<or> int (length bs) \<noteq> kPartSize \<and> x + int (length bs) \<noteq> sl_size (rd_slices r)"
  show ?case
  proof (cases ?bad)
    case True
    then show ?thesis using "2.prems" by (auto simp: bad_part_def)
  next
    case False
    obtain removed queue where q: "PriorityQueue_remove x (rd_loadingOffsets r) = (removed, queue)"
      by (cases "PriorityQueue_remove x (rd_loadingOffsets r)")
    have nb: "\<not> bad_part (sl_size (rd_slices r)) (x, bs)" using False by (simp add: bad_part_def)
    show ?thesis
    proof (cases removed)
      case no: False
      then have "process_parts ps r = Some (good, r')" using "2.prems" False q by simp
      from "2.IH"(1) [OF False refl q [symmetric] _ this] no nb show ?thesis by simp
    next
      case yes: True
      then obtain st where st: "processPart x bs (rd_slices r) = Some st"
        and rest: "process_parts ps (r\<lparr>rd_loadingOffsets := queue, rd_slices := st\<rparr>) = Some (good, r')"
        using "2.prems" False q by (auto simp: bind_eq_Some_conv)
      from "2.IH"(2) [OF False refl q [symmetric] _ st rest] yes nb processPart_frame [OF st] show ?thesis
        by (simp add: same_file_def)
    qed
  qed
qed simp

text \<open>
  C21: The reader fails with \<^verbatim>\<open>LoadFailed\<close> exactly when one of the parts that arrived is a failure
  or too short, and from then on every read is refused at once, releases the semaphore and asks
  nobody for anything.
\<close>

theorem reader_load_failure:
  assumes "rd_failed r = None" and "processLoadedParts r = Some (again, r')"
  shows "(rd_failed r' = Some LoadFailed \<longleftrightarrow> (\<exists>p \<in> set (rd_loadedParts r). bad_part (sl_size (rd_slices r)) p))
    \<and> (rd_failed r' \<noteq> Some LoadFailed \<longrightarrow> rd_failed r' = None \<and> again = (rd_loadedParts r \<noteq> []))
    \<and> (rd_failed r' = Some LoadFailed \<longrightarrow> \<not> again \<and> (\<forall>offset buffer batches.
        offset + int (length buffer) \<le> sl_size (rd_slices r) \<longrightarrow>
        Reader_fill offset buffer batches r' = Some (False, buffer, emit NotifyRelease (clearWaiting r'))))"
proof -
  obtain good where p: "process_parts (rd_loadedParts r) (r\<lparr>rd_loadedParts := []\<rparr>) = Some (good, r')"
    and a: "again \<longleftrightarrow> good \<and> rd_loadedParts r \<noteq> []"
    using assms by (auto simp: processLoadedParts_def Let_def)
  note f = process_parts_failed [OF p]
  have "Reader_fill offset buffer batches r' = Some (False, buffer, emit NotifyRelease (clearWaiting r'))"
    if "rd_failed r' = Some LoadFailed" "offset + int (length buffer) \<le> sl_size (rd_slices r)" for offset buffer batches
    using that f by (simp add: Reader_fill_def processCacheResults_def processLoadedParts_def fill_failed_def)
  then show ?thesis using f a assms(1) by auto
qed

section \<open>Closing\<close>


text \<open>C29: The entries of different slices have different keys, for every base key and file size.\<close>

theorem cache_keys_distinct:
  assumes "0 \<le> n" and "n < 2 ^ 64" and "0 \<le> m" and "m < 2 ^ 64"
  shows "CacheHelper_key baseKey n = CacheHelper_key baseKey m \<longleftrightarrow> n = m"
proof -
  have "(word_of_int n :: 64 word) = word_of_int m \<longleftrightarrow> n mod 2 ^ 64 = m mod 2 ^ 64"
    by (simp add: word_of_int_eq_iff take_bit_eq_mod)
  also have "\<dots> \<longleftrightarrow> n = m" using assms by simp
  finally show ?thesis by (simp add: CacheHelper_key_def)
qed

section \<open>Witnesses\<close>

text \<open>
  The file of five bytes, read through a cache that has nothing: its header answer arrives in the
  first round of the read, its only part in the second.
\<close>

definition tiny_key :: Key where "tiny_key = Key 7 (- 1)"

definition tiny_batches :: "(arrival list \<times> arrival list) list" where
  "tiny_batches = [([CacheArrived 0 []], []), ([], [PartArrived 0 tiny_file])]"

definition tiny_reader :: Reader where "tiny_reader = the (Reader_new 5 (Some tiny_key))"

lemma tiny_new: "Reader_new (int (length tiny_file)) (Some tiny_key) = Some tiny_reader"
  by (simp add: tiny_reader_def tiny_file_def Reader_new_def Slices_new_def readFromCache_def Let_def)

lemma tiny_reader_reachable: "reader_reachable tiny_file tiny_reader"
  by (rule reader_new [OF tiny_new])

lemma tiny_reader_key: "rd_baseKey tiny_reader = Some tiny_key"
  by (rule Reader_new_inv(2) [OF tiny_new])

lemma tiny_arrivals:
  "arrival_ok tiny_file True (CacheArrived 0 [])" "arrival_ok tiny_file True (PartArrived 0 tiny_file)"
  by (simp_all add: entry_ok_def read_entry_def IsContiguousSerialization_def contiguous_entries.simps
      complex_entries.simps slice_content_def tiny_file_def kMaxOnlyInHeader_def kPartSize_def part_true_def segment_def)

lemma tiny_batches_ok: "\<forall>b \<in> set tiny_batches. batch_ok tiny_file (rd_baseKey tiny_reader \<noteq> None) b"
  using tiny_arrivals by (simp add: tiny_batches_def batch_ok_def tiny_reader_key)

lemma tiny_fill: "case Reader_fill 1 [0, 0] tiny_batches tiny_reader of
    None \<Rightarrow> False | Some (filled, copied, r) \<Rightarrow> filled \<and> copied = [20, 30]"
  by code_simp

lemma reader_fill_returns_file_bytes_witness:
  "\<exists>r. Reader_fill 1 [0, 0] tiny_batches tiny_reader = Some (True, [20, 30], r) \<and> reader_reachable tiny_file r
    \<and> [20, 30] = take (length [0, 0 :: 8 word]) (drop (nat 1) tiny_file)"
proof -
  obtain r where f: "Reader_fill 1 [0, 0] tiny_batches tiny_reader = Some (True, [20, 30], r)"
    using tiny_fill by (cases "Reader_fill 1 [0, 0] tiny_batches tiny_reader") auto
  from reader_fill_returns_file_bytes [OF tiny_reader_reachable tiny_size tiny_batches_ok f] f
  show ?thesis by (simp only: if_True) blast
qed

text \<open>The same read when nothing arrives.\<close>

lemma tiny_wait: "case Reader_fill 1 [0, 0] [] tiny_reader of
    None \<Rightarrow> False | Some (filled, copied, r) \<Rightarrow> \<not> filled \<and> rd_failed r = None"
  by code_simp

lemma reader_fill_wakes_up_witness:
  "\<exists>copied r. Reader_fill 1 [0, 0] [] tiny_reader = Some (False, copied, r) \<and> rd_waiting r \<and> rd_loadedParts r = []"
proof -
  obtain copied r where f: "Reader_fill 1 [0, 0] [] tiny_reader = Some (False, copied, r)" and none: "rd_failed r = None"
    using tiny_wait by (cases "Reader_fill 1 [0, 0] [] tiny_reader") auto
  have "\<forall>b \<in> set []. batch_ok tiny_file (rd_baseKey tiny_reader \<noteq> None) b" by simp
  from reader_fill_wakes_up [OF tiny_reader_reachable tiny_size this f] f none show ?thesis by auto
qed

text \<open>A failure of the loader.\<close>

lemma tiny_failure: "case processLoadedParts (part_loaded (kFailedOffset, []) tiny_reader) of
    None \<Rightarrow> False | Some (again, r) \<Rightarrow> \<not> again"
  by code_simp

lemma reader_load_failure_witness:
  "\<exists>r. processLoadedParts (part_loaded (kFailedOffset, []) tiny_reader) = Some (False, r) \<and> rd_failed r = Some LoadFailed"
proof -
  obtain r where f: "processLoadedParts (part_loaded (kFailedOffset, []) tiny_reader) = Some (False, r)"
    using tiny_failure by (cases "processLoadedParts (part_loaded (kFailedOffset, []) tiny_reader)") auto
  have p: "rd_failed (part_loaded (kFailedOffset, []) tiny_reader) = None"
    "rd_loadedParts (part_loaded (kFailedOffset, []) tiny_reader) = [(kFailedOffset, [])]" by code_simp+
  from reader_load_failure [OF p(1) f] f show ?thesis by (simp add: p(2) bad_part_def)
qed

text \<open>Closing after the whole file was read and the header done.\<close>

definition tiny_done :: Reader where
  "tiny_done = the (Reader_headerDone (snd (snd (the (Reader_fill 1 [0, 0] tiny_batches tiny_reader)))))"

lemma tiny_done_reachable: "reader_reachable tiny_file tiny_done"
proof -
  obtain r where f: "Reader_fill 1 [0, 0] tiny_batches tiny_reader = Some (True, [20, 30], r)"
    using tiny_fill by (cases "Reader_fill 1 [0, 0] tiny_batches tiny_reader") auto
  have "reader_reachable tiny_file r" by (rule reader_fill [OF tiny_reader_reachable tiny_batches_ok f])
  moreover have "isFullInHeader (rd_slices (snd (snd (the (Reader_fill 1 [0, 0] tiny_batches tiny_reader)))))" by code_simp
  moreover have "Reader_headerDone (snd (snd (the (Reader_fill 1 [0, 0] tiny_batches tiny_reader)))) \<noteq> None" by code_simp
  ultimately show ?thesis using f by (auto simp: tiny_done_def intro: reader_header)
qed

lemma tiny_done_state: "rd_baseKey tiny_done = Some tiny_key" "sl_headerMode (rd_slices tiny_done) \<noteq> Unknown"
  by code_simp+


lemma cache_keys_distinct_witness: "CacheHelper_key tiny_key 255 \<noteq> CacheHelper_key tiny_key 256"
  using cache_keys_distinct [of 255 256 tiny_key] by simp

end
