(* ===== verification/LangPlural.thy ===== *)
theory LangPlural
  imports Prelude Complex_Main "HOL-Library.Word" "HOL-Library.Signed_Division"
begin

text \<open>
  The plural forms of the languages (\<^verbatim>\<open>lang/lang_tag.cpp\<close>): one rule for each family of languages,
  the table from language ids to rules with its packed keys, the choice of the rule for a
  language, and the text of a number with its form. The chart of the Unicode consortium that the
  source names is stated as data, and each rule is proved to be its row.
\<close>

unbundle bit_operations_syntax

section \<open>Rules\<close>

definition kShiftZero :: nat where "kShiftZero = 0"
definition kShiftOne :: nat where "kShiftOne = 1"
definition kShiftTwo :: nat where "kShiftTwo = 2"
definition kShiftFew :: nat where "kShiftFew = 3"
definition kShiftMany :: nat where "kShiftMany = 4"
definition kShiftOther :: nat where "kShiftOther = 5"

text \<open>
  \<^verbatim>\<open>ChoosePluralMethod\<close>. The arguments are those of the chart: the number when it is an integer
  and -1 otherwise, its integer digits, and the number and the value of its fraction digits. The
  remainder is that of the language, with the sign of the dividend.
\<close>

type_synonym plural_method = "int \<Rightarrow> int \<Rightarrow> int \<Rightarrow> int \<Rightarrow> int \<Rightarrow> int \<Rightarrow> nat"

definition ChoosePlural1 :: plural_method where
  "ChoosePlural1 n i v w f t = (
    kShiftOther)"

definition ChoosePlural2fil :: plural_method where
  "ChoosePlural2fil n i v w f t = (
    if v = 0
    then
      let mod10 = i smod 10
      in
        if i = 1 \<or> i = 2 \<or> i = 3 then kShiftOne
        else if mod10 \<noteq> 4 \<and> mod10 \<noteq> 6 \<and> mod10 \<noteq> 9 then kShiftOne
        else kShiftOther
    else
      let mod10 = f smod 10
      in
        if mod10 \<noteq> 4 \<and> mod10 \<noteq> 6 \<and> mod10 \<noteq> 9 then kShiftOne
        else kShiftOther)"

definition ChoosePlural2tzm :: plural_method where
  "ChoosePlural2tzm n i v w f t = (
    if n = 0 \<or> n = 1 then kShiftOne
    else if n \<ge> 11 \<and> n \<le> 99 then kShiftOne
    else kShiftOther)"

definition ChoosePlural2is :: plural_method where
  "ChoosePlural2is n i v w f t = (
    if t = 0
    then
      let mod10 = i smod 10; mod100 = i smod 100
      in
        if mod10 = 1 \<and> mod100 \<noteq> 11 then kShiftOne
        else kShiftOther
    else kShiftOne)"

definition ChoosePlural2mk :: plural_method where
  "ChoosePlural2mk n i v w f t = (
    if v = 0
    then
      let mod10 = i smod 10; mod100 = i smod 100
      in
        if mod10 = 1 \<and> mod100 \<noteq> 11 then kShiftOne
        else
          let mod10 = f smod 10; mod100 = f smod 100
          in
            if (mod10 = 1) \<and> (mod100 \<noteq> 11) then kShiftOne
            else kShiftOther
    else
      let mod10 = f smod 10; mod100 = f smod 100
      in
        if (mod10 = 1) \<and> (mod100 \<noteq> 11) then kShiftOne
        else kShiftOther)"

definition ChoosePlural2ak :: plural_method where
  "ChoosePlural2ak n i v w f t = (
    if n = 0 \<or> n = 1 then kShiftOne
    else kShiftOther)"

definition ChoosePlural2am :: plural_method where
  "ChoosePlural2am n i v w f t = (
    if i = 0 \<or> n = 1 then kShiftOne
    else kShiftOther)"

definition ChoosePlural2hy :: plural_method where
  "ChoosePlural2hy n i v w f t = (
    if i = 0 \<or> i = 1 then kShiftOne
    else kShiftOther)"

definition ChoosePlural2si :: plural_method where
  "ChoosePlural2si n i v w f t = (
    if n = 0 \<or> n = 1 then kShiftOne
    else if i = 0 \<and> f = 1 then kShiftOne
    else kShiftOther)"

definition ChoosePlural2bh :: plural_method where
  "ChoosePlural2bh n i v w f t = (
    if n = 0 \<or> n = 1 then kShiftOne
    else kShiftOther)"

definition ChoosePlural2af :: plural_method where
  "ChoosePlural2af n i v w f t = (
    if n = 1 then kShiftOne
    else kShiftOther)"

definition ChoosePlural2ast :: plural_method where
  "ChoosePlural2ast n i v w f t = (
    if i = 1 \<and> v = 0 then kShiftOne
    else kShiftOther)"

definition ChoosePlural2da :: plural_method where
  "ChoosePlural2da n i v w f t = (
    if n = 1 then kShiftOne
    else if t \<noteq> 0 \<and> ((i = 0) \<or> (i = 1)) then kShiftOne
    else kShiftOther)"

definition ChoosePlural3lv :: plural_method where
  "ChoosePlural3lv n i v w f t = (
    let nmod10 = n smod 10; nmod100 = n smod 100; fmod10 = f smod 10; fmod100 = f smod 100
    in
      if nmod10 = 0 then kShiftZero
      else if (nmod100 \<ge> 11) \<and> (nmod100 \<le> 19) then kShiftZero
      else if (v = 2) \<and> (fmod100 \<ge> 11) \<and> (fmod100 \<le> 19) then kShiftZero
      else if (nmod10 = 1) \<and> (nmod100 \<noteq> 11) then kShiftOne
      else if (v = 2) \<and> (fmod10 = 1) \<and> (fmod100 \<noteq> 11) then kShiftOne
      else if (v \<noteq> 2) \<and> (fmod10 = 1) then kShiftOne
      else kShiftOther)"

definition ChoosePlural3ksh :: plural_method where
  "ChoosePlural3ksh n i v w f t = (
    if n = 0 then kShiftZero
    else if n = 1 then kShiftOne
    else kShiftOther)"

definition ChoosePlural3lag :: plural_method where
  "ChoosePlural3lag n i v w f t = (
    if n = 0 then kShiftZero
    else if (n \<noteq> 0) \<and> ((i = 0) \<or> (i = 1)) then kShiftOne
    else kShiftOther)"

definition ChoosePlural3kw :: plural_method where
  "ChoosePlural3kw n i v w f t = (
    if n = 1 then kShiftOne
    else if n = 2 then kShiftTwo
    else kShiftOther)"

definition ChoosePlural3bs :: plural_method where
  "ChoosePlural3bs n i v w f t = (
    if v = 0
    then
      let mod10 = i smod 10; mod100 = i smod 100
      in
        if (mod10 \<ge> 2) \<and> (mod10 \<le> 4) \<and> (mod100 < 12 \<or> mod100 > 14) then kShiftFew
        else if (mod10 = 1) \<and> (mod100 \<noteq> 11) then kShiftOne
        else kShiftOther
    else
      let mod10 = f smod 10; mod100 = f smod 100
      in
        if (mod10 \<ge> 2) \<and> (mod10 \<le> 4) \<and> (mod100 < 12 \<or> mod100 > 14) then kShiftFew
        else if (mod10 = 1) \<and> (mod100 \<noteq> 11) then kShiftOne
        else kShiftOther)"

definition ChoosePlural3shi :: plural_method where
  "ChoosePlural3shi n i v w f t = (
    if i = 0 \<or> n = 1 then kShiftOne
    else if n \<ge> 2 \<and> n \<le> 10 then kShiftFew
    else kShiftOther)"

definition ChoosePlural3mo :: plural_method where
  "ChoosePlural3mo n i v w f t = (
    if v = 0
    then
      let mod100 = n smod 100
      in
        if i = 1 then kShiftOne
        else if n = 0 then kShiftFew
        else if (n \<noteq> 1) \<and> (mod100 \<ge> 1) \<and> (mod100 \<le> 19) then kShiftFew
        else kShiftOther
    else kShiftFew)"

definition ChoosePlural4be :: plural_method where
  "ChoosePlural4be n i v w f t = (
    let mod10 = n smod 10; mod100 = n smod 100
    in
      if (mod10 \<ge> 2) \<and> (mod10 \<le> 4) \<and> (mod100 < 12 \<or> mod100 > 14) then kShiftFew
      else if (mod10 = 1) \<and> (mod100 \<noteq> 11) then kShiftOne
      else if mod10 = 0 then kShiftMany
      else if (mod10 \<ge> 5) \<and> (mod10 \<le> 9) then kShiftMany
      else if (mod100 \<ge> 11) \<and> (mod100 \<le> 14) then kShiftMany
      else kShiftOther)"

definition ChoosePlural4ru :: plural_method where
  "ChoosePlural4ru n i v w f t = (
    if v = 0
    then
      let mod10 = i smod 10; mod100 = i smod 100
      in
        if (mod10 \<ge> 2) \<and> (mod10 \<le> 4) \<and> (mod100 < 12 \<or> mod100 > 14) then kShiftFew
        else if (mod10 = 1) \<and> (mod100 \<noteq> 11) then kShiftOne
        else kShiftMany
    else kShiftOther)"

definition ChoosePlural4pl :: plural_method where
  "ChoosePlural4pl n i v w f t = (
    if v = 0
    then
      if i = 1 then kShiftOne
      else
        let mod10 = i smod 10; mod100 = i smod 100
        in
          if (mod10 \<ge> 2) \<and> (mod10 \<le> 4) \<and> (mod100 < 12 \<or> mod100 > 14) then kShiftFew
          else kShiftMany
    else kShiftOther)"

definition ChoosePlural4lt :: plural_method where
  "ChoosePlural4lt n i v w f t = (
    let mod10 = n smod 10; mod100 = n smod 100
    in
      if (mod10 \<ge> 2) \<and> (mod10 \<le> 9) \<and> (mod100 < 11 \<or> mod100 > 19) then kShiftFew
      else if (mod10 = 1) \<and> (mod100 \<noteq> 11) then kShiftOne
      else if f \<noteq> 0 then kShiftMany
      else kShiftOther)"

definition ChoosePlural4cs :: plural_method where
  "ChoosePlural4cs n i v w f t = (
    if v = 0
    then
      if i = 1 then kShiftOne
      else if i \<ge> 2 \<and> i \<le> 4 then kShiftFew
      else kShiftOther
    else kShiftMany)"

definition ChoosePlural4gd :: plural_method where
  "ChoosePlural4gd n i v w f t = (
    if n = 1 \<or> n = 11 then kShiftOne
    else if n = 2 \<or> n = 12 then kShiftTwo
    else if n \<ge> 3 \<and> n \<le> 10 then kShiftFew
    else if n \<ge> 13 \<and> n \<le> 19 then kShiftFew
    else kShiftOther)"

definition ChoosePlural4dsb :: plural_method where
  "ChoosePlural4dsb n i v w f t = (
    if v = 0
    then
      let imod100 = i smod 100
      in
        if imod100 = 1 then kShiftOne
        else if imod100 = 2 then kShiftTwo
        else if imod100 = 3 \<or> imod100 = 4 then kShiftFew
        else
          let fmod100 = f smod 100
          in
            if fmod100 = 1 then kShiftOne
            else if fmod100 = 2 then kShiftTwo
            else if fmod100 = 3 \<or> fmod100 = 4 then kShiftFew
            else kShiftOther
    else
      let fmod100 = f smod 100
      in
        if fmod100 = 1 then kShiftOne
        else if fmod100 = 2 then kShiftTwo
        else if fmod100 = 3 \<or> fmod100 = 4 then kShiftFew
        else kShiftOther)"

definition ChoosePlural4sl :: plural_method where
  "ChoosePlural4sl n i v w f t = (
    if v = 0
    then
      let imod100 = i smod 100
      in
        if imod100 = 3 \<or> imod100 = 4 then kShiftFew
        else if imod100 = 1 then kShiftOne
        else if imod100 = 2 then kShiftTwo
        else kShiftOther
    else kShiftFew)"

definition ChoosePlural4he :: plural_method where
  "ChoosePlural4he n i v w f t = (
    if v = 0
    then
      if i = 1 then kShiftOne
      else if i = 2 then kShiftTwo
      else if (n \<noteq> 0) \<and> (n \<noteq> 10) \<and> ((n smod 10) = 0) then kShiftMany
      else kShiftOther
    else kShiftOther)"

definition ChoosePlural4mt :: plural_method where
  "ChoosePlural4mt n i v w f t = (
    let mod100 = n smod 100
    in
      if n = 1 then kShiftOne
      else if n = 0 then kShiftFew
      else if mod100 \<ge> 2 \<and> mod100 \<le> 10 then kShiftFew
      else if mod100 \<ge> 11 \<and> mod100 \<le> 19 then kShiftMany
      else kShiftOther)"

definition ChoosePlural5gv :: plural_method where
  "ChoosePlural5gv n i v w f t = (
    if v = 0
    then
      let mod10 = i smod 10; mod20 = i smod 20
      in
        if mod10 = 1 then kShiftOne
        else if mod10 = 2 then kShiftTwo
        else if mod20 = 0 then kShiftFew
        else kShiftOther
    else kShiftMany)"

definition ChoosePlural5br :: plural_method where
  "ChoosePlural5br n i v w f t = (
    let mod10 = n smod 10; mod100 = n smod 100
    in
      if (mod10 = 1) \<and> (mod100 \<noteq> 11) \<and> (mod100 \<noteq> 71) \<and> (mod100 \<noteq> 91) then kShiftOne
      else if (mod10 = 2) \<and> (mod100 \<noteq> 12) \<and> (mod100 \<noteq> 72) \<and> (mod100 \<noteq> 92) then kShiftTwo
      else if ((mod10 = 3) \<or> (mod10 = 4) \<or> (mod10 = 9)) \<and> ((mod100 < 10) \<or> (mod100 > 19)) \<and> ((mod100 < 70) \<or> (mod100 > 79)) \<and> ((mod100 < 90) \<or> (mod100 > 99)) then kShiftFew
      else if (n \<noteq> 0) \<and> (n smod 1000000 = 0) then kShiftMany
      else kShiftOther)"

definition ChoosePlural5ga :: plural_method where
  "ChoosePlural5ga n i v w f t = (
    if n = 1 then kShiftOne
    else if n = 2 then kShiftTwo
    else if n \<ge> 3 \<and> n \<le> 6 then kShiftFew
    else if n \<ge> 7 \<and> n \<le> 10 then kShiftMany
    else kShiftOther)"

definition ChoosePlural6ar :: plural_method where
  "ChoosePlural6ar n i v w f t = (
    if n = 0 then kShiftZero
    else if n = 1 then kShiftOne
    else if n = 2 then kShiftTwo
    else if n < 0 then kShiftOther
    else
      let mod100 = n smod 100
      in
        if mod100 \<ge> 3 \<and> mod100 \<le> 10 then kShiftFew
        else if mod100 \<ge> 11 \<and> mod100 \<le> 99 then kShiftMany
        else kShiftOther)"

definition ChoosePlural6cy :: plural_method where
  "ChoosePlural6cy n i v w f t = (
    if n = 0 then kShiftZero
    else if n = 1 then kShiftOne
    else if n = 2 then kShiftTwo
    else if n = 3 then kShiftFew
    else if n = 6 then kShiftMany
    else kShiftOther)"

section \<open>Keys\<close>

text \<open>
  \<^verbatim>\<open>ConvertKeyChar\<close>: \<open>qLower\<close> is \<^verbatim>\<open>QChar::toLower\<close>, which gets the sign-extended character and
  whose result is cut down to a \<^verbatim>\<open>char\<close>.
\<close>

definition ConvertKeyChar :: "(32 word \<Rightarrow> 32 word) \<Rightarrow> 8 word \<Rightarrow> 8 word" where
  "ConvertKeyChar qLower ch = (if ch = 95 then 45 else ucast (qLower (scast ch)))"

text \<open>One step of packing a key; \<^verbatim>\<open>uint64\<close> of a \<^verbatim>\<open>char\<close> extends its sign.\<close>

definition push_key_char :: "64 word \<Rightarrow> 8 word \<Rightarrow> 64 word" where
  "push_key_char key converted = push_bit 8 key OR scast converted"

definition PluralsKey :: "(32 word \<Rightarrow> 32 word) \<Rightarrow> string \<Rightarrow> 64 word" where
  "PluralsKey qLower value =
     foldl (\<lambda>data ch. push_key_char data (ConvertKeyChar qLower (of_char ch))) 0 value"

text \<open>The table, in the order of the source: the rules of two forms, then those of more.\<close>

definition plural_rules_two :: "(string \<times> plural_method) list" where
  "plural_rules_two = [
    (''fil'', ChoosePlural2fil), (''tl'', ChoosePlural2fil), (''tzm'', ChoosePlural2tzm),
    (''is'', ChoosePlural2is), (''mk'', ChoosePlural2mk), (''ak'', ChoosePlural2ak),
    (''guw'', ChoosePlural2ak), (''ln'', ChoosePlural2ak), (''mg'', ChoosePlural2ak),
    (''nso'', ChoosePlural2ak), (''pa'', ChoosePlural2ak), (''ti'', ChoosePlural2ak),
    (''wa'', ChoosePlural2ak), (''am'', ChoosePlural2am), (''as'', ChoosePlural2am),
    (''bn'', ChoosePlural2am), (''gu'', ChoosePlural2am), (''hi'', ChoosePlural2am),
    (''kn'', ChoosePlural2am), (''mr'', ChoosePlural2am), (''fa'', ChoosePlural2am),
    (''zu'', ChoosePlural2am), (''hy'', ChoosePlural2hy), (''fr'', ChoosePlural2hy),
    (''ff'', ChoosePlural2hy), (''kab'', ChoosePlural2hy), (''pt'', ChoosePlural2hy),
    (''si'', ChoosePlural2si), (''bh'', ChoosePlural2bh), (''bho'', ChoosePlural2bh),
    (''af'', ChoosePlural2af), (''sq'', ChoosePlural2af), (''asa'', ChoosePlural2af),
    (''az'', ChoosePlural2af), (''eu'', ChoosePlural2af), (''bem'', ChoosePlural2af),
    (''bez'', ChoosePlural2af), (''brx'', ChoosePlural2af), (''bg'', ChoosePlural2af),
    (''ckb'', ChoosePlural2af), (''ce'', ChoosePlural2af), (''chr'', ChoosePlural2af),
    (''cgg'', ChoosePlural2af), (''dv'', ChoosePlural2af), (''eo'', ChoosePlural2af),
    (''ee'', ChoosePlural2af), (''fo'', ChoosePlural2af), (''fur'', ChoosePlural2af),
    (''ka'', ChoosePlural2af), (''el'', ChoosePlural2af), (''ha'', ChoosePlural2af),
    (''haw'', ChoosePlural2af), (''hu'', ChoosePlural2af), (''kaj'', ChoosePlural2af),
    (''kkj'', ChoosePlural2af), (''kl'', ChoosePlural2af), (''ks'', ChoosePlural2af),
    (''kk'', ChoosePlural2af), (''ku'', ChoosePlural2af), (''ky'', ChoosePlural2af),
    (''lb'', ChoosePlural2af), (''jmc'', ChoosePlural2af), (''ml'', ChoosePlural2af),
    (''mas'', ChoosePlural2af), (''mgo'', ChoosePlural2af), (''mn'', ChoosePlural2af),
    (''nah'', ChoosePlural2af), (''ne'', ChoosePlural2af), (''nnh'', ChoosePlural2af),
    (''jgo'', ChoosePlural2af), (''nd'', ChoosePlural2af), (''no'', ChoosePlural2af),
    (''nb'', ChoosePlural2af), (''nn'', ChoosePlural2af), (''ny'', ChoosePlural2af),
    (''nyn'', ChoosePlural2af), (''or'', ChoosePlural2af), (''om'', ChoosePlural2af),
    (''os'', ChoosePlural2af), (''pap'', ChoosePlural2af), (''ps'', ChoosePlural2af),
    (''rm'', ChoosePlural2af), (''rof'', ChoosePlural2af), (''rwk'', ChoosePlural2af),
    (''ssy'', ChoosePlural2af), (''saq'', ChoosePlural2af), (''seh'', ChoosePlural2af),
    (''ksb'', ChoosePlural2af), (''sn'', ChoosePlural2af), (''sd'', ChoosePlural2af),
    (''xog'', ChoosePlural2af), (''so'', ChoosePlural2af), (''nr'', ChoosePlural2af),
    (''sdh'', ChoosePlural2af), (''st'', ChoosePlural2af), (''es'', ChoosePlural2af),
    (''ss'', ChoosePlural2af), (''gsw'', ChoosePlural2af), (''syr'', ChoosePlural2af),
    (''ta'', ChoosePlural2af), (''te'', ChoosePlural2af), (''teo'', ChoosePlural2af),
    (''tig'', ChoosePlural2af), (''ts'', ChoosePlural2af), (''tn'', ChoosePlural2af),
    (''tr'', ChoosePlural2af), (''tk'', ChoosePlural2af), (''kcg'', ChoosePlural2af),
    (''ug'', ChoosePlural2af), (''uz'', ChoosePlural2af), (''ve'', ChoosePlural2af),
    (''vo'', ChoosePlural2af), (''vun'', ChoosePlural2af), (''wae'', ChoosePlural2af),
    (''xh'', ChoosePlural2af), ('''', ChoosePlural2ast), (''ast'', ChoosePlural2ast),
    (''ca'', ChoosePlural2ast), (''nl'', ChoosePlural2ast), (''en'', ChoosePlural2ast),
    (''et'', ChoosePlural2ast), (''pt_PT'', ChoosePlural2ast), (''fi'', ChoosePlural2ast),
    (''gl'', ChoosePlural2ast), (''lg'', ChoosePlural2ast), (''de'', ChoosePlural2ast),
    (''io'', ChoosePlural2ast), (''ia'', ChoosePlural2ast), (''it'', ChoosePlural2ast),
    (''sc'', ChoosePlural2ast), (''scn'', ChoosePlural2ast), (''sw'', ChoosePlural2ast),
    (''sv'', ChoosePlural2ast), (''ur'', ChoosePlural2ast), (''fy'', ChoosePlural2ast),
    (''ji'', ChoosePlural2ast), (''yi'', ChoosePlural2ast), (''da'', ChoosePlural2da)]"

definition plural_rules_more :: "(string \<times> plural_method) list" where
  "plural_rules_more = [
    (''lv'', ChoosePlural3lv), (''prg'', ChoosePlural3lv), (''ksh'', ChoosePlural3ksh),
    (''lag'', ChoosePlural3lag), (''kw'', ChoosePlural3kw), (''smn'', ChoosePlural3kw),
    (''iu'', ChoosePlural3kw), (''smj'', ChoosePlural3kw), (''naq'', ChoosePlural3kw),
    (''se'', ChoosePlural3kw), (''smi'', ChoosePlural3kw), (''sms'', ChoosePlural3kw),
    (''sma'', ChoosePlural3kw), (''bs'', ChoosePlural3bs), (''hr'', ChoosePlural3bs),
    (''sr'', ChoosePlural3bs), (''sh'', ChoosePlural3bs), (''sr_Latn'', ChoosePlural3bs),
    (''shi'', ChoosePlural3shi), (''mo'', ChoosePlural3mo), (''ro_MD'', ChoosePlural3mo),
    (''ro'', ChoosePlural3mo), (''be'', ChoosePlural4be), (''ru'', ChoosePlural4ru),
    (''uk'', ChoosePlural4ru), (''pl'', ChoosePlural4pl), (''lt'', ChoosePlural4lt),
    (''cs'', ChoosePlural4cs), (''sk'', ChoosePlural4cs), (''gd'', ChoosePlural4gd),
    (''dsb'', ChoosePlural4dsb), (''hsb'', ChoosePlural4dsb), (''sl'', ChoosePlural4sl),
    (''he'', ChoosePlural4he), (''iw'', ChoosePlural4he), (''mt'', ChoosePlural4mt),
    (''gv'', ChoosePlural5gv), (''br'', ChoosePlural5br), (''ga'', ChoosePlural5ga),
    (''ar'', ChoosePlural6ar), (''ars'', ChoosePlural6ar), (''cy'', ChoosePlural6cy)]"

text \<open>\<^verbatim>\<open>std::map\<close> keeps the first of equal keys.\<close>

definition GeneratePluralRulesMap :: "(32 word \<Rightarrow> 32 word) \<Rightarrow> 64 word \<Rightarrow> plural_method option" where
  "GeneratePluralRulesMap qLower =
     map_of (map (\<lambda>(value, rule). (PluralsKey qLower value, rule)) (plural_rules_two @ plural_rules_more))"

definition ChoosePluralDefault :: plural_method where
  "ChoosePluralDefault = ChoosePlural2ast"

section \<open>The rule of a language\<close>

text \<open>The loop over the characters of the id: the parent key and the key.\<close>

fun language_keys :: "(32 word \<Rightarrow> 32 word) \<Rightarrow> 16 word list \<Rightarrow> 64 word \<times> 64 word \<Rightarrow> 64 word \<times> 64 word" where
  "language_keys qLower [] (parent, key) = (parent, key)"
| "language_keys qLower (ch # chars) (parent, key) =
     (let converted = ConvertKeyChar qLower (ucast ch)
      in language_keys qLower chars
        (if converted = 45 \<and> parent = 0 then key else parent, push_key_char key converted))"

text \<open>\<^verbatim>\<open>UpdatePluralRules\<close>: the rule that \<^verbatim>\<open>ChoosePlural\<close> is set to.\<close>

definition UpdatePluralRules :: "(32 word \<Rightarrow> 32 word) \<Rightarrow> 16 word list \<Rightarrow> plural_method" where
  "UpdatePluralRules qLower languageId =
     (let kMap = GeneratePluralRulesMap qLower;
          (parent, key) = language_keys qLower languageId (0, 0);
          result = kMap key;
          i = (if result \<noteq> None \<or> parent = 0 then result else kMap parent)
      in case i of None \<Rightarrow> ChoosePlural1 | Some rule \<Rightarrow> rule)"

section \<open>The text of a number\<close>

text \<open>\<open>number6\<close> is \<^verbatim>\<open>QString::number(value, 'f', 6)\<close>.\<close>

definition chop_zeros :: "string \<Rightarrow> string" where
  "chop_zeros result = rev (dropWhile (\<lambda>ch. ch = CHR ''0'') (rev result))"

definition FormatDouble :: "(rat \<Rightarrow> string) \<Rightarrow> rat \<Rightarrow> string" where
  "FormatDouble number6 value =
     (let result = chop_zeros (number6 value)
      in if result \<noteq> [] \<and> last result = CHR ''.'' then butlast result else result)"

text \<open>\<open>toInt\<close> is \<^verbatim>\<open>QString::toInt()\<close>.\<close>

definition NonZeroPartToInt :: "(string \<Rightarrow> int) \<Rightarrow> string \<Rightarrow> int" where
  "NonZeroPartToInt toInt value =
     (let zeros = length (takeWhile (\<lambda>ch. ch = CHR ''0'') value)
      in if 0 < zeros then (if zeros < length value then toInt (drop zeros value) else 0)
         else (if value = [] then 0 else toInt value))"

definition fraction_of :: "string \<Rightarrow> string" where
  "fraction_of formatted =
     (if CHR ''.'' \<in> set formatted then tl (dropWhile (\<lambda>ch. ch \<noteq> CHR ''.'') formatted) else [])"

text \<open>
  \<^verbatim>\<open>Plural\<close>, with the rule set for the language, the language pack (which keys have forms of their
  own, and the values) and Qt's conversions (\<open>number\<close> is that of \<^verbatim>\<open>qRound\<close>) as arguments.
\<close>

definition Plural :: "(rat \<Rightarrow> string) \<Rightarrow> (rat \<Rightarrow> string) \<Rightarrow> (string \<Rightarrow> int) \<Rightarrow> plural_method \<Rightarrow>
    (nat \<Rightarrow> bool) \<Rightarrow> (nat \<Rightarrow> 'a) \<Rightarrow> nat \<Rightarrow> rat \<Rightarrow> 'a \<times> string" where
  "Plural number6 number toInt ChoosePlural isNonDefaultPlural getValue keyBase value =
     (let n = \<bar>value\<bar>;
          i = floor n;
          integer = (ceiling n = i);
          formatted = (if integer then [] else FormatDouble number6 n);
          fraction = fraction_of formatted;
          v = int (length fraction); w = v;
          f = NonZeroPartToInt toInt fraction; t = f;
          useNonDefaultPlural = (ChoosePlural \<noteq> ChoosePluralDefault \<and> isNonDefaultPlural keyBase);
          shift = (if useNonDefaultPlural then ChoosePlural else ChoosePluralDefault)
            (if integer then i else -1) i v w f t;
          string = getValue (keyBase + shift)
      in if integer then (string, number value) else (string, FormatDouble number6 value))"

section \<open>The chart\<close>

text \<open>
  A row of the chart: the condition of each form but the last, in the order of the chart. A
  condition is a disjunction of conjunctions of relations, a relation compares an operand or its
  remainder with a list of ranges. A remainder of a number that is not an integer is in no range.
\<close>

datatype operand = OpN | OpI | OpV | OpF | OpT

datatype relation =
    In operand "int option" "(int \<times> int) list"
  | Out operand "int option" "(int \<times> int) list"

type_synonym chart_row = "(nat \<times> relation list list) list"

record plural_operands =
  op_integer :: bool
  op_i :: int
  op_v :: int
  op_f :: int
  op_t :: int

fun operand_value :: "plural_operands \<Rightarrow> operand \<Rightarrow> int option" where
  "operand_value p OpN = (if op_integer p then Some (op_i p) else None)"
| "operand_value p OpI = Some (op_i p)"
| "operand_value p OpV = Some (op_v p)"
| "operand_value p OpF = Some (op_f p)"
| "operand_value p OpT = Some (op_t p)"

definition in_ranges :: "plural_operands \<Rightarrow> operand \<Rightarrow> int option \<Rightarrow> (int \<times> int) list \<Rightarrow> bool" where
  "in_ranges p x m rs =
     (case operand_value p x of
       None \<Rightarrow> False
     | Some a \<Rightarrow> let b = (case m of None \<Rightarrow> a | Some k \<Rightarrow> a mod k) in list_ex (\<lambda>(lo, hi). if lo = hi then b = lo else lo \<le> b \<and> b \<le> hi) rs)"

fun relation_holds :: "plural_operands \<Rightarrow> relation \<Rightarrow> bool" where
  "relation_holds p (In x m rs) = in_ranges p x m rs"
| "relation_holds p (Out x m rs) = (\<not> in_ranges p x m rs)"

fun chart_form :: "chart_row \<Rightarrow> plural_operands \<Rightarrow> nat" where
  "chart_form [] p = kShiftOther"
| "chart_form ((form, condition) # row) p =
     (if list_ex (list_all (relation_holds p)) condition then form else chart_form row p)"

definition row_1 :: chart_row where
  "row_1 = []"

definition row_2fil :: chart_row where
  "row_2fil = [(kShiftOne, [[In OpV None [(0, 0)], In OpI None [(1, 1), (2, 2), (3, 3)]],
        [In OpV None [(0, 0)], Out OpI (Some 10) [(4, 4), (6, 6), (9, 9)]],
        [Out OpV None [(0, 0)], Out OpF (Some 10) [(4, 4), (6, 6), (9, 9)]]])]"

definition row_2tzm :: chart_row where
  "row_2tzm = [(kShiftOne, [[In OpN None [(0, 1)]],
        [In OpN None [(11, 99)]]])]"

definition row_2is :: chart_row where
  "row_2is = [(kShiftOne, [[In OpT None [(0, 0)], In OpI (Some 10) [(1, 1)], Out OpI (Some 100) [(11, 11)]],
        [Out OpT None [(0, 0)]]])]"

definition row_2mk :: chart_row where
  "row_2mk = [(kShiftOne, [[In OpV None [(0, 0)], In OpI (Some 10) [(1, 1)], Out OpI (Some 100) [(11, 11)]],
        [In OpF (Some 10) [(1, 1)], Out OpF (Some 100) [(11, 11)]]])]"

definition row_2ak :: chart_row where
  "row_2ak = [(kShiftOne, [[In OpN None [(0, 1)]]])]"

definition row_2am :: chart_row where
  "row_2am = [(kShiftOne, [[In OpI None [(0, 0)]],
        [In OpN None [(1, 1)]]])]"

definition row_2hy :: chart_row where
  "row_2hy = [(kShiftOne, [[In OpI None [(0, 0), (1, 1)]]])]"

definition row_2si :: chart_row where
  "row_2si = [(kShiftOne, [[In OpN None [(0, 0), (1, 1)]],
        [In OpI None [(0, 0)], In OpF None [(1, 1)]]])]"

definition row_2bh :: chart_row where
  "row_2bh = [(kShiftOne, [[In OpN None [(0, 1)]]])]"

definition row_2af :: chart_row where
  "row_2af = [(kShiftOne, [[In OpN None [(1, 1)]]])]"

definition row_2ast :: chart_row where
  "row_2ast = [(kShiftOne, [[In OpI None [(1, 1)], In OpV None [(0, 0)]]])]"

definition row_2da :: chart_row where
  "row_2da = [(kShiftOne, [[In OpN None [(1, 1)]],
        [Out OpT None [(0, 0)], In OpI None [(0, 0), (1, 1)]]])]"

definition row_3lv :: chart_row where
  "row_3lv = [(kShiftZero, [[In OpN (Some 10) [(0, 0)]],
        [In OpN (Some 100) [(11, 19)]],
        [In OpV None [(2, 2)], In OpF (Some 100) [(11, 19)]]]),
     (kShiftOne, [[In OpN (Some 10) [(1, 1)], Out OpN (Some 100) [(11, 11)]],
        [In OpV None [(2, 2)], In OpF (Some 10) [(1, 1)], Out OpF (Some 100) [(11, 11)]],
        [Out OpV None [(2, 2)], In OpF (Some 10) [(1, 1)]]])]"

definition row_3ksh :: chart_row where
  "row_3ksh = [(kShiftZero, [[In OpN None [(0, 0)]]]),
     (kShiftOne, [[In OpN None [(1, 1)]]])]"

definition row_3lag :: chart_row where
  "row_3lag = [(kShiftZero, [[In OpN None [(0, 0)]]]),
     (kShiftOne, [[In OpI None [(0, 0), (1, 1)], Out OpN None [(0, 0)]]])]"

definition row_3kw :: chart_row where
  "row_3kw = [(kShiftOne, [[In OpN None [(1, 1)]]]),
     (kShiftTwo, [[In OpN None [(2, 2)]]])]"

definition row_3bs :: chart_row where
  "row_3bs = [(kShiftOne, [[In OpV None [(0, 0)], In OpI (Some 10) [(1, 1)], Out OpI (Some 100) [(11, 11)]],
        [In OpF (Some 10) [(1, 1)], Out OpF (Some 100) [(11, 11)]]]),
     (kShiftFew, [[In OpV None [(0, 0)], In OpI (Some 10) [(2, 4)], Out OpI (Some 100) [(12, 14)]],
        [In OpF (Some 10) [(2, 4)], Out OpF (Some 100) [(12, 14)]]])]"

definition row_3shi :: chart_row where
  "row_3shi = [(kShiftOne, [[In OpI None [(0, 0)]],
        [In OpN None [(1, 1)]]]),
     (kShiftFew, [[In OpN None [(2, 10)]]])]"

definition row_3mo :: chart_row where
  "row_3mo = [(kShiftOne, [[In OpI None [(1, 1)], In OpV None [(0, 0)]]]),
     (kShiftFew, [[Out OpV None [(0, 0)]],
        [In OpN None [(0, 0)]],
        [Out OpN None [(1, 1)], In OpN (Some 100) [(1, 19)]]])]"

definition row_4be :: chart_row where
  "row_4be = [(kShiftOne, [[In OpN (Some 10) [(1, 1)], Out OpN (Some 100) [(11, 11)]]]),
     (kShiftFew, [[In OpN (Some 10) [(2, 4)], Out OpN (Some 100) [(12, 14)]]]),
     (kShiftMany, [[In OpN (Some 10) [(0, 0)]],
        [In OpN (Some 10) [(5, 9)]],
        [In OpN (Some 100) [(11, 14)]]])]"

definition row_4ru :: chart_row where
  "row_4ru = [(kShiftOne, [[In OpV None [(0, 0)], In OpI (Some 10) [(1, 1)], Out OpI (Some 100) [(11, 11)]]]),
     (kShiftFew, [[In OpV None [(0, 0)], In OpI (Some 10) [(2, 4)], Out OpI (Some 100) [(12, 14)]]]),
     (kShiftMany, [[In OpV None [(0, 0)], In OpI (Some 10) [(0, 0)]],
        [In OpV None [(0, 0)], In OpI (Some 10) [(5, 9)]],
        [In OpV None [(0, 0)], In OpI (Some 100) [(11, 14)]]])]"

definition row_4pl :: chart_row where
  "row_4pl = [(kShiftOne, [[In OpI None [(1, 1)], In OpV None [(0, 0)]]]),
     (kShiftFew, [[In OpV None [(0, 0)], In OpI (Some 10) [(2, 4)], Out OpI (Some 100) [(12, 14)]]]),
     (kShiftMany, [[In OpV None [(0, 0)], Out OpI None [(1, 1)], In OpI (Some 10) [(0, 1)]],
        [In OpV None [(0, 0)], In OpI (Some 10) [(5, 9)]],
        [In OpV None [(0, 0)], In OpI (Some 100) [(12, 14)]]])]"

definition row_4lt :: chart_row where
  "row_4lt = [(kShiftOne, [[In OpN (Some 10) [(1, 1)], Out OpN (Some 100) [(11, 19)]]]),
     (kShiftFew, [[In OpN (Some 10) [(2, 9)], Out OpN (Some 100) [(11, 19)]]]),
     (kShiftMany, [[Out OpF None [(0, 0)]]])]"

definition row_4cs :: chart_row where
  "row_4cs = [(kShiftOne, [[In OpI None [(1, 1)], In OpV None [(0, 0)]]]),
     (kShiftFew, [[In OpI None [(2, 4)], In OpV None [(0, 0)]]]),
     (kShiftMany, [[Out OpV None [(0, 0)]]])]"

definition row_4gd :: chart_row where
  "row_4gd = [(kShiftOne, [[In OpN None [(1, 1), (11, 11)]]]),
     (kShiftTwo, [[In OpN None [(2, 2), (12, 12)]]]),
     (kShiftFew, [[In OpN None [(3, 10), (13, 19)]]])]"

definition row_4dsb :: chart_row where
  "row_4dsb = [(kShiftOne, [[In OpV None [(0, 0)], In OpI (Some 100) [(1, 1)]],
        [In OpF (Some 100) [(1, 1)]]]),
     (kShiftTwo, [[In OpV None [(0, 0)], In OpI (Some 100) [(2, 2)]],
        [In OpF (Some 100) [(2, 2)]]]),
     (kShiftFew, [[In OpV None [(0, 0)], In OpI (Some 100) [(3, 4)]],
        [In OpF (Some 100) [(3, 4)]]])]"

definition row_4sl :: chart_row where
  "row_4sl = [(kShiftOne, [[In OpV None [(0, 0)], In OpI (Some 100) [(1, 1)]]]),
     (kShiftTwo, [[In OpV None [(0, 0)], In OpI (Some 100) [(2, 2)]]]),
     (kShiftFew, [[In OpV None [(0, 0)], In OpI (Some 100) [(3, 4)]],
        [Out OpV None [(0, 0)]]])]"

definition row_4he :: chart_row where
  "row_4he = [(kShiftOne, [[In OpI None [(1, 1)], In OpV None [(0, 0)]]]),
     (kShiftTwo, [[In OpI None [(2, 2)], In OpV None [(0, 0)]]]),
     (kShiftMany, [[In OpV None [(0, 0)], Out OpN None [(0, 10)], In OpN (Some 10) [(0, 0)]]])]"

definition row_4mt :: chart_row where
  "row_4mt = [(kShiftOne, [[In OpN None [(1, 1)]]]),
     (kShiftFew, [[In OpN None [(0, 0)]],
        [In OpN (Some 100) [(2, 10)]]]),
     (kShiftMany, [[In OpN (Some 100) [(11, 19)]]])]"

definition row_5gv :: chart_row where
  "row_5gv = [(kShiftOne, [[In OpV None [(0, 0)], In OpI (Some 10) [(1, 1)]]]),
     (kShiftTwo, [[In OpV None [(0, 0)], In OpI (Some 10) [(2, 2)]]]),
     (kShiftFew, [[In OpV None [(0, 0)], In OpI (Some 100) [(0, 0), (20, 20), (40, 40), (60, 60), (80, 80)]]]),
     (kShiftMany, [[Out OpV None [(0, 0)]]])]"

definition row_5br :: chart_row where
  "row_5br = [(kShiftOne, [[In OpN (Some 10) [(1, 1)], Out OpN (Some 100) [(11, 11), (71, 71), (91, 91)]]]),
     (kShiftTwo, [[In OpN (Some 10) [(2, 2)], Out OpN (Some 100) [(12, 12), (72, 72), (92, 92)]]]),
     (kShiftFew, [[In OpN (Some 10) [(3, 4), (9, 9)], Out OpN (Some 100) [(10, 19), (70, 79), (90, 99)]]]),
     (kShiftMany, [[Out OpN None [(0, 0)], In OpN (Some 1000000) [(0, 0)]]])]"

definition row_5ga :: chart_row where
  "row_5ga = [(kShiftOne, [[In OpN None [(1, 1)]]]),
     (kShiftTwo, [[In OpN None [(2, 2)]]]),
     (kShiftFew, [[In OpN None [(3, 6)]]]),
     (kShiftMany, [[In OpN None [(7, 10)]]])]"

definition row_6ar :: chart_row where
  "row_6ar = [(kShiftZero, [[In OpN None [(0, 0)]]]),
     (kShiftOne, [[In OpN None [(1, 1)]]]),
     (kShiftTwo, [[In OpN None [(2, 2)]]]),
     (kShiftFew, [[In OpN (Some 100) [(3, 10)]]]),
     (kShiftMany, [[In OpN (Some 100) [(11, 99)]]])]"

definition row_6cy :: chart_row where
  "row_6cy = [(kShiftZero, [[In OpN None [(0, 0)]]]),
     (kShiftOne, [[In OpN None [(1, 1)]]]),
     (kShiftTwo, [[In OpN None [(2, 2)]]]),
     (kShiftFew, [[In OpN None [(3, 3)]]]),
     (kShiftMany, [[In OpN None [(6, 6)]]])]"

definition plural_chart :: "(plural_method \<times> chart_row) list" where
  "plural_chart = [
    (ChoosePlural1, row_1),
    (ChoosePlural2fil, row_2fil),
    (ChoosePlural2tzm, row_2tzm),
    (ChoosePlural2is, row_2is),
    (ChoosePlural2mk, row_2mk),
    (ChoosePlural2ak, row_2ak),
    (ChoosePlural2am, row_2am),
    (ChoosePlural2hy, row_2hy),
    (ChoosePlural2si, row_2si),
    (ChoosePlural2bh, row_2bh),
    (ChoosePlural2af, row_2af),
    (ChoosePlural2ast, row_2ast),
    (ChoosePlural2da, row_2da),
    (ChoosePlural3lv, row_3lv),
    (ChoosePlural3ksh, row_3ksh),
    (ChoosePlural3lag, row_3lag),
    (ChoosePlural3kw, row_3kw),
    (ChoosePlural3bs, row_3bs),
    (ChoosePlural3shi, row_3shi),
    (ChoosePlural3mo, row_3mo),
    (ChoosePlural4be, row_4be),
    (ChoosePlural4ru, row_4ru),
    (ChoosePlural4pl, row_4pl),
    (ChoosePlural4lt, row_4lt),
    (ChoosePlural4cs, row_4cs),
    (ChoosePlural4gd, row_4gd),
    (ChoosePlural4dsb, row_4dsb),
    (ChoosePlural4sl, row_4sl),
    (ChoosePlural4he, row_4he),
    (ChoosePlural4mt, row_4mt),
    (ChoosePlural5gv, row_5gv),
    (ChoosePlural5br, row_5br),
    (ChoosePlural5ga, row_5ga),
    (ChoosePlural6ar, row_6ar),
    (ChoosePlural6cy, row_6cy)]"

section \<open>The rules are the rows of the chart\<close>

definition operands_ok :: "plural_operands \<Rightarrow> bool" where
  "operands_ok p \<longleftrightarrow> 0 \<le> op_i p \<and> 0 \<le> op_v p \<and> 0 \<le> op_f p \<and> 0 \<le> op_t p
     \<and> (op_v p = 0 \<longrightarrow> op_f p = 0 \<and> op_t p = 0)"

text \<open>How the code passes the operands: -1 stands for a number that is not an integer.\<close>

definition applied :: "plural_method \<Rightarrow> plural_operands \<Rightarrow> nat" where
  "applied rule p =
     rule (if op_integer p then op_i p else -1) (op_i p) (op_v p) (op_v p) (op_f p) (op_t p)"

lemma smod_nonneg: "0 \<le> a \<Longrightarrow> 0 < b \<Longrightarrow> a smod b = a mod b" for a b :: int
  by (cases "a = 0") (simp_all add: signed_modulo_int_def)

lemma smod_minus_one: "1 < b \<Longrightarrow> (- 1) smod b = - 1" for b :: int
  by (simp add: signed_modulo_int_def)

lemmas chart_simps = applied_def operands_ok_def in_ranges_def smod_nonneg smod_minus_one Let_def
  kShiftZero_def kShiftOne_def kShiftTwo_def kShiftFew_def kShiftMany_def kShiftOther_def

lemma teens:
  fixes a :: int
  assumes "a mod 10 = 1" and "\<not> 19 < a mod 100" and "a mod 100 \<noteq> 11"
  shows "a mod 100 < 11"
proof (rule ccontr)
  assume "\<not> a mod 100 < 11"
  then have "a mod 100 \<in> {12..19}" using assms by simp
  also have "{12..19 :: int} = {12, 13, 14, 15, 16, 17, 18, 19}" by auto
  finally have "(a mod 100) mod 10 \<noteq> 1" by auto
  moreover have "(a mod 100) mod 10 = a mod 10" by (simp add: mod_mod_cancel)
  ultimately show False using assms(1) by simp
qed

lemma outside: "b < lo \<or> hi < b \<longleftrightarrow> \<not> (lo \<le> b \<and> b \<le> hi)" for b :: int
  by auto

lemma mod_20:
  fixes a :: int
  shows "a mod 20 = 0 \<longleftrightarrow> a mod 100 = 0 \<or> a mod 100 = 20 \<or> a mod 100 = 40 \<or> a mod 100 = 60 \<or> a mod 100 = 80"
proof -
  have c: "(a mod 100) mod 20 = a mod 20" by (simp add: mod_mod_cancel)
  have b: "0 \<le> a mod 100" "a mod 100 < 100" by simp_all
  have "a mod 100 \<in> {0, 20, 40, 60, 80}" if "a mod 20 = 0"
  proof -
    have "a mod 100 = 20 * (a mod 100 div 20)" using div_mult_mod_eq [of "a mod 100" 20] that c by simp
    moreover have "a mod 100 div 20 \<in> {0..4}" using b by auto
    moreover have "{0..4 :: int} = {0, 1, 2, 3, 4}" by auto
    ultimately show ?thesis by auto
  qed
  then show ?thesis using c by auto
qed

lemma match_1: "operands_ok p \<Longrightarrow> applied ChoosePlural1 p = chart_form row_1 p"
  by (cases "op_integer p") (auto simp: ChoosePlural1_def row_1_def chart_simps)

lemma match_2fil: "operands_ok p \<Longrightarrow> applied ChoosePlural2fil p = chart_form row_2fil p"
  by (cases "op_integer p") (simp_all add: ChoosePlural2fil_def row_2fil_def chart_simps)

lemma match_2tzm: "operands_ok p \<Longrightarrow> applied ChoosePlural2tzm p = chart_form row_2tzm p"
  by (cases "op_integer p") (simp_all add: ChoosePlural2tzm_def row_2tzm_def chart_simps)

lemma match_2is: "operands_ok p \<Longrightarrow> applied ChoosePlural2is p = chart_form row_2is p"
  by (cases "op_integer p") (simp_all add: ChoosePlural2is_def row_2is_def chart_simps)

lemma match_2mk: "operands_ok p \<Longrightarrow> applied ChoosePlural2mk p = chart_form row_2mk p"
  by (cases "op_integer p") (auto simp: ChoosePlural2mk_def row_2mk_def chart_simps)

lemma match_2ak: "operands_ok p \<Longrightarrow> applied ChoosePlural2ak p = chart_form row_2ak p"
  by (cases "op_integer p") (auto simp: ChoosePlural2ak_def row_2ak_def chart_simps)

lemma match_2am: "operands_ok p \<Longrightarrow> applied ChoosePlural2am p = chart_form row_2am p"
  by (cases "op_integer p") (auto simp: ChoosePlural2am_def row_2am_def chart_simps)

lemma match_2hy: "operands_ok p \<Longrightarrow> applied ChoosePlural2hy p = chart_form row_2hy p"
  by (cases "op_integer p") (auto simp: ChoosePlural2hy_def row_2hy_def chart_simps)

lemma match_2si: "operands_ok p \<Longrightarrow> applied ChoosePlural2si p = chart_form row_2si p"
  by (cases "op_integer p") (auto simp: ChoosePlural2si_def row_2si_def chart_simps)

lemma match_2bh: "operands_ok p \<Longrightarrow> applied ChoosePlural2bh p = chart_form row_2bh p"
  by (cases "op_integer p") (auto simp: ChoosePlural2bh_def row_2bh_def chart_simps)

lemma match_2af: "operands_ok p \<Longrightarrow> applied ChoosePlural2af p = chart_form row_2af p"
  by (cases "op_integer p") (auto simp: ChoosePlural2af_def row_2af_def chart_simps)

lemma match_2ast: "operands_ok p \<Longrightarrow> applied ChoosePlural2ast p = chart_form row_2ast p"
  by (cases "op_integer p") (auto simp: ChoosePlural2ast_def row_2ast_def chart_simps)

lemma match_2da: "operands_ok p \<Longrightarrow> applied ChoosePlural2da p = chart_form row_2da p"
  by (cases "op_integer p") (auto simp: ChoosePlural2da_def row_2da_def chart_simps)

lemma match_3lv: "operands_ok p \<Longrightarrow> applied ChoosePlural3lv p = chart_form row_3lv p"
  by (cases "op_integer p") (simp_all add: ChoosePlural3lv_def row_3lv_def chart_simps)

lemma match_3ksh: "operands_ok p \<Longrightarrow> applied ChoosePlural3ksh p = chart_form row_3ksh p"
  by (cases "op_integer p") (auto simp: ChoosePlural3ksh_def row_3ksh_def chart_simps)

lemma match_3lag: "operands_ok p \<Longrightarrow> applied ChoosePlural3lag p = chart_form row_3lag p"
  by (cases "op_integer p") (auto simp: ChoosePlural3lag_def row_3lag_def chart_simps)

lemma match_3kw: "operands_ok p \<Longrightarrow> applied ChoosePlural3kw p = chart_form row_3kw p"
  by (cases "op_integer p") (auto simp: ChoosePlural3kw_def row_3kw_def chart_simps)

lemma match_3bs: "operands_ok p \<Longrightarrow> applied ChoosePlural3bs p = chart_form row_3bs p"
  by (cases "op_integer p") (simp_all add: ChoosePlural3bs_def row_3bs_def chart_simps)

lemma match_3shi: "operands_ok p \<Longrightarrow> applied ChoosePlural3shi p = chart_form row_3shi p"
  by (cases "op_integer p") (auto simp: ChoosePlural3shi_def row_3shi_def chart_simps)

lemma match_3mo: "operands_ok p \<Longrightarrow> applied ChoosePlural3mo p = chart_form row_3mo p"
  by (cases "op_integer p") (auto simp: ChoosePlural3mo_def row_3mo_def chart_simps)

lemma match_4be: "operands_ok p \<Longrightarrow> applied ChoosePlural4be p = chart_form row_4be p"
  by (cases "op_integer p") (auto simp: ChoosePlural4be_def row_4be_def chart_simps)

lemma match_4ru: "operands_ok p \<Longrightarrow> applied ChoosePlural4ru p = chart_form row_4ru p"
  by (cases "op_integer p") (auto simp: ChoosePlural4ru_def row_4ru_def chart_simps)

lemma match_4pl: "operands_ok p \<Longrightarrow> applied ChoosePlural4pl p = chart_form row_4pl p"
  by (cases "op_integer p") (auto simp: ChoosePlural4pl_def row_4pl_def chart_simps)

lemma match_4lt: "operands_ok p \<Longrightarrow> applied ChoosePlural4lt p = chart_form row_4lt p"
  by (cases "op_integer p") (auto simp: ChoosePlural4lt_def row_4lt_def chart_simps dest: teens)

lemma match_4cs: "operands_ok p \<Longrightarrow> applied ChoosePlural4cs p = chart_form row_4cs p"
  by (cases "op_integer p") (auto simp: ChoosePlural4cs_def row_4cs_def chart_simps)

lemma match_4gd: "operands_ok p \<Longrightarrow> applied ChoosePlural4gd p = chart_form row_4gd p"
  by (cases "op_integer p") (auto simp: ChoosePlural4gd_def row_4gd_def chart_simps)

lemma match_4dsb: "operands_ok p \<Longrightarrow> applied ChoosePlural4dsb p = chart_form row_4dsb p"
  by (cases "op_integer p") (auto simp: ChoosePlural4dsb_def row_4dsb_def chart_simps)

lemma match_4sl: "operands_ok p \<Longrightarrow> applied ChoosePlural4sl p = chart_form row_4sl p"
  by (cases "op_integer p") (auto simp: ChoosePlural4sl_def row_4sl_def chart_simps)

lemma match_4he: "operands_ok p \<Longrightarrow> applied ChoosePlural4he p = chart_form row_4he p"
  by (cases "op_integer p") (auto simp: ChoosePlural4he_def row_4he_def chart_simps)

lemma match_4mt: "operands_ok p \<Longrightarrow> applied ChoosePlural4mt p = chart_form row_4mt p"
  by (cases "op_integer p") (auto simp: ChoosePlural4mt_def row_4mt_def chart_simps)

lemma match_5gv: "operands_ok p \<Longrightarrow> applied ChoosePlural5gv p = chart_form row_5gv p"
  by (cases "op_integer p") (simp_all add: mod_20 ChoosePlural5gv_def row_5gv_def chart_simps)

lemma match_5br: "operands_ok p \<Longrightarrow> applied ChoosePlural5br p = chart_form row_5br p"
  by (cases "op_integer p") (simp_all add: outside ChoosePlural5br_def row_5br_def chart_simps)

lemma match_5ga: "operands_ok p \<Longrightarrow> applied ChoosePlural5ga p = chart_form row_5ga p"
  by (cases "op_integer p") (auto simp: ChoosePlural5ga_def row_5ga_def chart_simps)

lemma match_6ar: "operands_ok p \<Longrightarrow> applied ChoosePlural6ar p = chart_form row_6ar p"
  by (cases "op_integer p") (auto simp: ChoosePlural6ar_def row_6ar_def chart_simps)

lemma match_6cy: "operands_ok p \<Longrightarrow> applied ChoosePlural6cy p = chart_form row_6cy p"
  by (cases "op_integer p") (auto simp: ChoosePlural6cy_def row_6cy_def chart_simps)

end
