(* ===== verification/LangRules.thy ===== *)
theory LangRules
  imports LangPlural
begin

text \<open>
  The choice of a plural rule (\<^verbatim>\<open>lang/lang_tag.cpp\<close>): the packed 64-bit keys tell the languages of
  the table from every id, so that \<^verbatim>\<open>UpdatePluralRules\<close> is a look-up by name with the part before
  the first hyphen as a second try; and the form that \<^verbatim>\<open>Plural\<close> takes is that of the chart.
\<close>

section \<open>Packed keys\<close>

text \<open>What is required of \<^verbatim>\<open>QChar::toLower\<close>: on ASCII it is the lower case of C.\<close>

definition ascii_lower :: "(32 word \<Rightarrow> 32 word) \<Rightarrow> bool" where
  "ascii_lower qLower \<longleftrightarrow> (\<forall>c < 128. qLower c = (if 65 \<le> c \<and> c \<le> 90 then c + 32 else c))"

definition fold_char :: "8 word \<Rightarrow> 8 word" where
  "fold_char ch = (if ch = 95 then 45 else if 65 \<le> ch \<and> ch \<le> 90 then ch + 32 else ch)"

definition ascii :: "8 word \<Rightarrow> bool" where "ascii ch \<longleftrightarrow> 0 < ch \<and> ch < 128"

lemma unat_byte: "unat ch < 256" for ch :: "8 word"
  using unsigned_less [of ch] by simp

lemma unat_ucast_up: "unat (ucast ch :: 32 word) = unat ch" "unat (ucast ch :: 64 word) = unat ch" for ch :: "8 word"
  using unat_byte [of ch] by (simp_all add: unsigned_ucast_eq take_bit_nat_eq_self)

lemma scast_ascii: "ch < 128 \<Longrightarrow> (scast ch :: 'a::len word) = ucast ch" for ch :: "8 word"
proof -
  assume "ch < 128"
  then have "uint ch < 2 ^ 7" by (simp add: word_less_alt)
  moreover have "- (2 ^ 7) \<le> uint ch" by (rule order_trans [OF _ uint_ge_0]) simp
  ultimately have t: "signed_take_bit 7 (uint ch) = uint ch" by (rule signed_take_bit_int_eq_self [rotated])
  have l: "LENGTH(8) - Suc 0 = 7" by simp
  have "sint ch = uint ch" by (rule trans [OF sint_uint]) (simp only: l t)
  then show ?thesis by (simp only: scast_eq ucast_eq)
qed

lemma convert_ascii:
  assumes "ascii_lower qLower" and "ch < 128"
  shows "ConvertKeyChar qLower ch = fold_char ch"
proof -
  let ?c = "ucast ch :: 32 word"
  have u: "unat ?c = unat ch" by (simp add: unat_ucast_up)
  have c: "unat ch < 128" using assms(2) by (simp add: word_less_nat_alt)
  then have "?c < 128" by (simp add: word_less_nat_alt u)
  then have q: "qLower ?c = (if 65 \<le> ?c \<and> ?c \<le> 90 then ?c + 32 else ?c)" using assms(1) by (simp add: ascii_lower_def)
  have r: "65 \<le> ?c \<and> ?c \<le> 90 \<longleftrightarrow> 65 \<le> ch \<and> ch \<le> 90" by (simp add: word_le_nat_alt u)
  have "ucast (?c + 32) = ch + 32" if "ch \<le> 90"
  proof (rule word_unat_eq_iff [THEN iffD2])
    have n: "unat ch \<le> 90" using that by (simp add: word_le_nat_alt)
    have "unat (?c + 32) = unat ch + 32" using n by (simp add: unat_word_ariths u)
    moreover have "unat (ch + 32) = unat ch + 32" using n by (simp add: unat_word_ariths)
    ultimately show "unat (ucast (?c + 32) :: 8 word) = unat (ch + 32)" using n by (simp add: unsigned_ucast_eq take_bit_nat_eq_self)
  qed
  moreover have "ucast ?c = ch"
  proof (rule word_unat_eq_iff [THEN iffD2])
    show "unat (ucast ?c :: 8 word) = unat ch"
      unfolding unsigned_ucast_eq [of ?c] u using unat_byte [of ch] by (simp add: take_bit_nat_eq_self)
  qed
  ultimately show ?thesis
    unfolding ConvertKeyChar_def fold_char_def scast_ascii [OF assms(2)] q r by simp
qed

lemma fold_char_ascii:
  assumes "ascii ch"
  shows "ascii (fold_char ch)"
proof -
  have "unat (ch + 32) = unat ch + 32" if "ch \<le> 90"
    using that by (simp add: word_le_nat_alt unat_word_ariths)
  then show ?thesis using assms by (auto simp: ascii_def fold_char_def word_less_nat_alt word_le_nat_alt)
qed

text \<open>A key as a number in base 256.\<close>

definition pack :: "8 word list \<Rightarrow> nat" where
  "pack s = foldl (\<lambda>k c. k * 256 + unat c) 0 s"

lemma push_unat:
  assumes "ascii c"
  shows "unat (push_key_char k c) = (unat k * 256 + unat c) mod 2 ^ 64"
proof -
  have c: "c < 128" "unat c < 256" using assms unat_byte [of c] by (simp_all add: ascii_def)
  have "push_bit 8 k AND ucast c = 0"
  proof (rule bit_word_eqI)
    fix n assume "n < LENGTH(64)"
    show "bit (push_bit 8 k AND ucast c) n \<longleftrightarrow> bit (0 :: 64 word) n"
      by (auto simp: bit_simps dest: bit_imp_le_length)
  qed
  then have "push_bit 8 k OR ucast c = push_bit 8 k + ucast c" by (simp add: disjunctive_add_eq_or)
  then have "push_key_char k c = k * 256 + ucast c"
    by (simp add: push_key_char_def scast_ascii [OF c(1)] push_bit_eq_mult)
  moreover have "unat (ucast c :: 64 word) = unat c" by (simp add: unat_ucast_up)
  ultimately show ?thesis by (simp add: unat_word_ariths mod_add_left_eq)
qed

lemma pack_unat:
  assumes "\<forall>c \<in> set s. ascii c"
  shows "unat (foldl push_key_char 0 s) = pack s mod 2 ^ 64"
  using assms
proof (induction s rule: rev_induct)
  case (snoc c s)
  then have "unat (foldl push_key_char 0 (s @ [c])) = (pack s mod 2 ^ 64 * 256 + unat c) mod 2 ^ 64"
    by (simp add: push_unat)
  also have "\<dots> = (pack s * 256 + unat c) mod 2 ^ 64" by (metis mod_add_left_eq mod_mult_left_eq)
  finally show ?case by (simp add: pack_def)
qed (simp add: pack_def)

text \<open>The low digits of a number tell the short strings from all others.\<close>

lemma pack_inj:
  "\<forall>c \<in> set s. ascii c \<Longrightarrow> \<forall>c \<in> set k. ascii c \<Longrightarrow> length k < m \<Longrightarrow>
    pack s mod 256 ^ m = pack k mod 256 ^ m \<Longrightarrow> s = k"
proof (induction k arbitrary: s m rule: rev_induct)
  case Nil
  show ?case
  proof (cases s rule: rev_exhaust)
    case (snoc t c)
    have c: "0 < unat c" "unat c < 256" using Nil.prems(1) snoc unat_byte [of c] by (simp_all add: ascii_def word_less_nat_alt)
    have "(pack s mod 256 ^ m) mod 256 = pack s mod 256"
      using Nil.prems(3) by (simp add: mod_mod_cancel dvd_power)
    also have "\<dots> = unat c" using c by (simp add: snoc pack_def)
    finally show ?thesis using Nil.prems(4) c by (simp add: pack_def)
  qed simp
next
  case (snoc d k)
  have d: "0 < unat d" "unat d < 256" using snoc.prems(2) unat_byte [of d] by (simp_all add: ascii_def word_less_nat_alt)
  obtain m' where m: "m = Suc m'" "length k < m'" using snoc.prems(3) by (cases m) auto
  have low: "(pack x mod 256 ^ m) mod 256 = pack x mod 256" for x
    by (simp add: m(1) mod_mod_cancel)
  have kd: "pack (k @ [d]) mod 256 = unat d" using d by (simp add: pack_def)
  show ?case
  proof (cases s rule: rev_exhaust)
    case Nil
    then show ?thesis using snoc.prems(4) low [of s] low [of "k @ [d]"] kd d by (simp add: pack_def)
  next
    case (snoc t c)
    have c: "unat c < 256" by (rule unat_byte)
    have "pack s mod 256 = unat c" using c by (simp add: snoc pack_def)
    then have "unat c = unat d" using snoc.prems(4) low [of s] low [of "k @ [d]"] kd by simp
    then have cd: "c = d" by (simp add: word_unat_eq_iff)
    have high: "pack (x @ [d]) mod 256 ^ m = (pack x mod 256 ^ m') * 256 + unat d" for x
    proof -
      have "pack (x @ [d]) = pack x * 256 + unat d" by (simp add: pack_def)
      also have "\<dots> mod (256 * 256 ^ m') = (pack x mod 256 ^ m') * 256 + unat d"
        using d unfolding mod_mult2_eq by simp
      finally show ?thesis by (simp add: m(1) mult.commute)
    qed
    have "pack t mod 256 ^ m' = pack k mod 256 ^ m'"
      using snoc.prems(4) high [of t] high [of k] unfolding snoc cd by simp
    then have "t = k" using snoc.IH [of t m'] snoc.prems(1,2) m(2) snoc by simp
    then show ?thesis by (simp add: snoc cd)
  qed
qed

section \<open>The table by name\<close>

definition key_of :: "8 word list \<Rightarrow> 64 word" where
  "key_of s = foldl push_key_char 0 s"

lemma key_of_inj:
  assumes "\<forall>c \<in> set s. ascii c" and "\<forall>c \<in> set k. ascii c" and "length k < 8"
  shows "key_of s = key_of k \<longleftrightarrow> s = k"
proof
  assume "key_of s = key_of k"
  then have "pack s mod 256 ^ 8 = pack k mod 256 ^ 8"
    using pack_unat [OF assms(1)] pack_unat [OF assms(2)] by (simp add: key_of_def)
  then show "s = k" by (rule pack_inj [OF assms])
qed simp

lemma key_of_zero: "\<forall>c \<in> set s. ascii c \<Longrightarrow> key_of s = 0 \<longleftrightarrow> s = []"
  using key_of_inj [of s "[]"] by (simp add: key_of_def)

text \<open>A name of the table as it is compared: folded to lower case with hyphens.\<close>

definition folded :: "string \<Rightarrow> 8 word list" where
  "folded name = map (\<lambda>ch. fold_char (of_char ch)) name"

definition rule_named :: "8 word list \<Rightarrow> plural_method option" where
  "rule_named s = map_of (map (\<lambda>(name, rule). (folded name, rule)) (plural_rules_two @ plural_rules_more)) s"

definition name_ok :: "string \<Rightarrow> bool" where
  "name_ok name \<longleftrightarrow> length name < 8 \<and> list_all (\<lambda>ch. ascii (of_char ch)) name"

lemma names_ok: "list_all (\<lambda>e. name_ok (fst e)) (plural_rules_two @ plural_rules_more)"
  unfolding plural_rules_two_def plural_rules_more_def
  by (simp add: name_ok_def ascii_def)

lemma folded_ascii: "name_ok name \<Longrightarrow> \<forall>c \<in> set (folded name). ascii c"
  by (auto simp: name_ok_def folded_def list_all_iff intro: fold_char_ascii)

lemma PluralsKey_folded:
  assumes "ascii_lower qLower" and "name_ok name"
  shows "PluralsKey qLower name = key_of (folded name)"
proof -
  have "foldl (\<lambda>data ch. push_key_char data (ConvertKeyChar qLower (of_char ch))) k name =
      foldl push_key_char k (map (\<lambda>ch. fold_char (of_char ch)) name)" if "list_all (\<lambda>ch. ascii (of_char ch)) name" for k
    using that convert_ascii [OF assms(1)] by (induction name arbitrary: k) (simp_all add: ascii_def)
  then show ?thesis using assms(2) by (simp add: PluralsKey_def key_of_def folded_def name_ok_def)
qed

lemma map_named:
  assumes "ascii_lower qLower" and "\<forall>c \<in> set s. ascii c"
  shows "GeneratePluralRulesMap qLower (key_of s) = rule_named s"
proof -
  have "map_of (map (\<lambda>(name, rule). (PluralsKey qLower name, rule)) es) (key_of s) =
      map_of (map (\<lambda>(name, rule). (folded name, rule)) es) s" if "list_all (\<lambda>e. name_ok (fst e)) es"
    for es :: "(string \<times> plural_method) list"
    using that
  proof (induction es)
    case (Cons e es)
    obtain name rule where e: "e = (name, rule)" by (cases e)
    have ok: "name_ok name" using Cons.prems e by simp
    have "key_of s = key_of (folded name) \<longleftrightarrow> s = folded name"
      by (rule key_of_inj [OF assms(2) folded_ascii [OF ok]]) (use ok in \<open>simp add: folded_def name_ok_def\<close>)
    then show ?case using Cons e PluralsKey_folded [OF assms(1) ok] by auto
  qed simp
  then show ?thesis using names_ok unfolding GeneratePluralRulesMap_def rule_named_def by blast
qed

section \<open>The rule of a language\<close>

text \<open>The part before the first hyphen that is not the first character.\<close>

fun parent_part :: "8 word list \<Rightarrow> 8 word list" where
  "parent_part [] = []"
| "parent_part (c # cs) = (if 45 \<in> set cs then c # takeWhile (\<lambda>x. x \<noteq> 45) cs else [])"

definition id_ok :: "16 word list \<Rightarrow> bool" where
  "id_ok languageId \<longleftrightarrow> (\<forall>ch \<in> set languageId. 0 < ch \<and> ch < 128)"

definition folded_id :: "16 word list \<Rightarrow> 8 word list" where
  "folded_id languageId = map (\<lambda>ch. fold_char (ucast ch)) languageId"

lemma id_char:
  assumes "0 < ch" and "ch < (128 :: 16 word)"
  shows "ascii (ucast ch)"
proof -
  have "unat ch < 128" using assms(2) by (simp add: word_less_nat_alt)
  then have "unat (ucast ch :: 8 word) = unat ch" by (simp add: unsigned_ucast_eq take_bit_nat_eq_self)
  then show ?thesis using assms by (simp add: ascii_def word_less_nat_alt)
qed

lemma id_ascii: "id_ok languageId \<Longrightarrow> \<forall>c \<in> set (folded_id languageId). ascii c"
  by (auto simp: id_ok_def folded_id_def intro: fold_char_ascii id_char)

lemma language_keys_folded:
  assumes lower: "ascii_lower qLower"
  shows "id_ok languageId \<Longrightarrow> \<forall>c \<in> set t. ascii c \<Longrightarrow>
    language_keys qLower languageId (parent, key_of t) =
      (if parent \<noteq> 0 then parent
       else if t = [] then key_of (parent_part (folded_id languageId))
       else if 45 \<in> set (folded_id languageId) then key_of (t @ takeWhile (\<lambda>x. x \<noteq> 45) (folded_id languageId)) else 0,
       key_of (t @ folded_id languageId))"
proof (induction languageId arbitrary: parent t)
  case Nil
  then show ?case by (simp add: folded_id_def key_of_def)
next
  case (Cons ch languageId)
  have id: "id_ok languageId" and ch: "0 < ch" "ch < 128" using Cons.prems(1) by (simp_all add: id_ok_def)
  have a: "ascii (ucast ch)" by (rule id_char [OF ch])
  let ?c = "fold_char (ucast ch)"
  have conv: "ConvertKeyChar qLower (ucast ch) = ?c" using convert_ascii [OF lower] a by (simp add: ascii_def)
  have t': "\<forall>c \<in> set (t @ [?c]). ascii c" using Cons.prems(2) fold_char_ascii [OF a] by simp
  have push: "push_key_char (key_of t) ?c = key_of (t @ [?c])" by (simp add: key_of_def)
  have kt: "key_of t = 0 \<longleftrightarrow> t = []" by (rule key_of_zero [OF Cons.prems(2)])
  note IH = Cons.IH [OF id t', of "if ?c = 45 \<and> parent = 0 then key_of t else parent"]
  have f: "folded_id (ch # languageId) = ?c # folded_id languageId" by (simp add: folded_id_def)
  show ?case
    unfolding language_keys.simps Let_def conv push IH f using kt by (auto simp: key_of_def)
qed

definition name_rule :: "16 word list \<Rightarrow> plural_method" where
  "name_rule languageId =
     (let s = folded_id languageId
      in case rule_named s of
        Some rule \<Rightarrow> rule
      | None \<Rightarrow>
          if parent_part s = [] then ChoosePlural1
          else (case rule_named (parent_part s) of Some rule \<Rightarrow> rule | None \<Rightarrow> ChoosePlural1))"

lemma parent_part_ascii: "\<forall>c \<in> set s. ascii c \<Longrightarrow> \<forall>c \<in> set (parent_part s). ascii c"
  by (cases s) (auto dest: set_takeWhileD)

text \<open>
  The rule set for a language id is the one that the table has under that name, in any case
  and with either kind of hyphen; an id that is not in the table, however long, gets the rule of
  the part before its first hyphen; and every other language has one form. The packing of names
  into 64 bits never takes one language for another.
\<close>

theorem plural_rule_of_language:
  assumes "ascii_lower qLower" and "id_ok languageId"
  shows "UpdatePluralRules qLower languageId = name_rule languageId"
proof -
  let ?s = "folded_id languageId"
  have a: "\<forall>c \<in> set ?s. ascii c" by (rule id_ascii [OF assms(2)])
  note p = parent_part_ascii [OF a]
  have k: "language_keys qLower languageId (0, 0) = (key_of (parent_part ?s), key_of ?s)"
    using language_keys_folded [OF assms, of "[]" 0] by (simp add: key_of_def)
  show ?thesis
    unfolding UpdatePluralRules_def name_rule_def Let_def k prod.case map_named [OF assms(1) a] map_named [OF assms(1) p]
      key_of_zero [OF p]
    by (auto split: option.splits)
qed

section \<open>The chart\<close>

lemmas matches =
  match_1 match_2fil match_2tzm match_2is match_2mk match_2ak match_2am match_2hy
  match_2si match_2bh match_2af match_2ast match_2da match_3lv match_3ksh match_3lag
  match_3kw match_3bs match_3shi match_3mo match_4be match_4ru match_4pl match_4lt
  match_4cs match_4gd match_4dsb match_4sl match_4he match_4mt match_5gv match_5br
  match_5ga match_6ar match_6cy

lemma chart_row_form:
  assumes "(rule, row) \<in> set plural_chart" and "operands_ok p"
  shows "applied rule p = chart_form row p \<and> applied rule p \<le> kShiftOther"
proof -
  have m: "applied rule p = chart_form row p"
    using assms(1) matches [OF assms(2)] by (auto simp: plural_chart_def)
  have "\<forall>e \<in> set row. fst e \<le> kShiftOther"
    using assms(1)
    by (auto simp: plural_chart_def kShiftZero_def kShiftOne_def kShiftTwo_def kShiftFew_def kShiftMany_def kShiftOther_def
        row_1_def row_2fil_def row_2tzm_def row_2is_def row_2mk_def row_2ak_def row_2am_def row_2hy_def row_2si_def row_2bh_def row_2af_def row_2ast_def row_2da_def row_3lv_def row_3ksh_def row_3lag_def row_3kw_def row_3bs_def row_3shi_def row_3mo_def row_4be_def row_4ru_def row_4pl_def row_4lt_def row_4cs_def row_4gd_def row_4dsb_def row_4sl_def row_4he_def row_4mt_def row_5gv_def row_5br_def row_5ga_def row_6ar_def row_6cy_def)
  then have "chart_form row p \<le> kShiftOther" by (induction row p rule: chart_form.induct) auto
  then show ?thesis by (simp add: m)
qed

text \<open>
  C36: Each of the 35 rules is its row of the chart of the Unicode consortium, for every number:
  the conditions are tested in another order and with other relations, and -1 stands for a number
  that is not an integer, but the form is always the same; and it is one of the six.
\<close>

theorem plural_rules_are_chart:
  assumes "(rule, row) \<in> set plural_chart" and "operands_ok p"
  shows "applied rule p = chart_form row p \<and> applied rule p \<le> kShiftOther"
  by (rule chart_row_form [OF assms])

text \<open>Every rule of the table has a row.\<close>

lemma table_in_chart:
  "list_all (\<lambda>e. \<exists>row. (snd e, row) \<in> set plural_chart) (plural_rules_two @ plural_rules_more)"
  unfolding plural_rules_two_def plural_rules_more_def plural_chart_def by (simp add: ex_disj_distrib)

section \<open>The text of a number\<close>

definition operands_of :: "(rat \<Rightarrow> string) \<Rightarrow> (string \<Rightarrow> int) \<Rightarrow> rat \<Rightarrow> plural_operands" where
  "operands_of number6 toInt x =
     (let n = \<bar>x\<bar>; i = floor n; integer = (ceiling n = i);
          fraction = fraction_of (if integer then [] else FormatDouble number6 n);
          f = NonZeroPartToInt toInt fraction
      in \<lparr>op_integer = integer, op_i = i, op_v = int (length fraction), op_f = f, op_t = f\<rparr>)"

lemma operands_of_ok:
  assumes "\<forall>s. 0 \<le> toInt s"
  shows "operands_ok (operands_of number6 toInt x)"
proof -
  have "0 \<le> NonZeroPartToInt toInt s" for s using assms by (simp add: NonZeroPartToInt_def Let_def)
  moreover have "NonZeroPartToInt toInt [] = 0" by (simp add: NonZeroPartToInt_def)
  ultimately show ?thesis by (simp add: operands_of_def operands_ok_def Let_def)
qed

text \<open>
  The text of a number is taken from the key of the form that the chart gives for the number
  as it is shown, in the language that is set, never from a key outside the six forms; a key that
  the language pack has no forms for is treated as in English.
\<close>

theorem plural_text_has_chart_form:
  assumes "(rule, row) \<in> set plural_chart" and "\<forall>s. 0 \<le> toInt s"
  shows "\<exists>shift \<le> kShiftOther. fst (Plural number6 number toInt rule isNonDefaultPlural getValue keyBase x) = getValue (keyBase + shift)
    \<and> shift = chart_form (if isNonDefaultPlural keyBase then row else row_2ast) (operands_of number6 toInt x)"
proof -
  let ?p = "operands_of number6 toInt x"
  note ok = operands_of_ok [OF assms(2), of number6 x]
  have d: "(ChoosePluralDefault, row_2ast) \<in> set plural_chart"
    by (simp add: ChoosePluralDefault_def plural_chart_def)
  let ?r = "if isNonDefaultPlural keyBase then rule else ChoosePluralDefault"
  have c: "applied ?r ?p = chart_form (if isNonDefaultPlural keyBase then row else row_2ast) ?p \<and> applied ?r ?p \<le> kShiftOther"
    using chart_row_form [OF assms(1) ok] chart_row_form [OF d ok] by simp
  have "fst (Plural number6 number toInt rule isNonDefaultPlural getValue keyBase x) = getValue (keyBase + applied ?r ?p)"
    by (auto simp: Plural_def applied_def operands_of_def Let_def)
  then show ?thesis using c by (intro exI [of _ "applied ?r ?p"]) simp
qed

section \<open>Witnesses\<close>

definition ascii_to_lower :: "32 word \<Rightarrow> 32 word" where
  "ascii_to_lower c = (if 65 \<le> c \<and> c \<le> 90 then c + 32 else c)"

lemma ascii_to_lower_ok: "ascii_lower ascii_to_lower"
  by (simp add: ascii_lower_def ascii_to_lower_def)

text \<open>Brazilian Portuguese, \<^verbatim>\<open>pt_BR\<close>, takes the rule of Portuguese.\<close>

definition pt_BR :: "16 word list" where "pt_BR = map of_char ''pt_BR''"

lemma pt_BR_ok: "id_ok pt_BR"
  by (simp add: id_ok_def pt_BR_def)

theorem plural_rule_of_language_witness:
  "UpdatePluralRules ascii_to_lower pt_BR = name_rule pt_BR"
  by (rule plural_rule_of_language [OF ascii_to_lower_ok pt_BR_ok])

text \<open>21 in Russian.\<close>

definition twenty_one :: plural_operands where
  "twenty_one = \<lparr>op_integer = True, op_i = 21, op_v = 0, op_f = 0, op_t = 0\<rparr>"

theorem plural_rules_are_chart_witness:
  "applied ChoosePlural4ru twenty_one = kShiftOne \<and> applied ChoosePlural4ru twenty_one = chart_form row_4ru twenty_one"
proof -
  have m: "(ChoosePlural4ru, row_4ru) \<in> set plural_chart" by (simp add: plural_chart_def)
  have ok: "operands_ok twenty_one" by (simp add: operands_ok_def twenty_one_def)
  have "applied ChoosePlural4ru twenty_one = kShiftOne" by code_simp
  then show ?thesis using plural_rules_are_chart [OF m ok] by simp
qed

text \<open>Two and a half in Polish.\<close>

theorem plural_text_has_chart_form_witness:
  "fst (Plural (\<lambda>x. ''2.500000'') (\<lambda>x. ''3'') (\<lambda>s. 5) ChoosePlural4pl (\<lambda>k. True) (\<lambda>k. k) 100 (5 / 2)) = 105"
proof -
  have m: "(ChoosePlural4pl, row_4pl) \<in> set plural_chart" by (simp add: plural_chart_def)
  have "chart_form row_4pl (operands_of (\<lambda>x. ''2.500000'') (\<lambda>s. 5) (5 / 2)) = 5"
    by code_simp
  then show ?thesis
    using plural_text_has_chart_form [OF m, of "\<lambda>s. 5" "\<lambda>x. ''2.500000''" "\<lambda>x. ''3''" "\<lambda>k. True" "\<lambda>k. k" 100 "5 / 2"]
    by auto
qed

end
