(* ===== verification/LangTags.thy ===== *)
theory LangTags
  imports Prelude "HOL-Library.Word"
begin

text \<open>
  Tags in the texts of the language pack: \<^verbatim>\<open>ValueParser\<close> (\<^verbatim>\<open>lang/lang_instance.cpp\<close>) turns \<^verbatim>\<open>{name}\<close>
  into a command of four characters, \<^verbatim>\<open>FindTagReplacementPosition\<close> and \<^verbatim>\<open>ReplaceTag\<close>
  (\<^verbatim>\<open>lang/lang_tag.cpp\<close>) find it and put a text in its place, \<^verbatim>\<open>textSkipCommand\<close>
  (\<^verbatim>\<open>ui/text/text.cpp\<close>) skips the other commands. A text is a list of UTF-16 units and a pointer
  into it a position. The tables of tags are generated: the index of a name, the number of tags
  and the tags of a key are parameters, as is \<^verbatim>\<open>QString::fromUtf8\<close>.
\<close>

type_synonym qstring = "16 word list"

section \<open>Commands in a text\<close>

definition TextCommand :: "16 word" where "TextCommand = 16"
definition TextCommandBold :: "16 word" where "TextCommandBold = 1"
definition TextCommandNoBold :: "16 word" where "TextCommandNoBold = 2"
definition TextCommandItalic :: "16 word" where "TextCommandItalic = 3"
definition TextCommandNoItalic :: "16 word" where "TextCommandNoItalic = 4"
definition TextCommandUnderline :: "16 word" where "TextCommandUnderline = 5"
definition TextCommandNoUnderline :: "16 word" where "TextCommandNoUnderline = 6"
definition TextCommandSemibold :: "16 word" where "TextCommandSemibold = 7"
definition TextCommandNoSemibold :: "16 word" where "TextCommandNoSemibold = 8"
definition TextCommandLinkIndex :: "16 word" where "TextCommandLinkIndex = 9"
definition TextCommandLinkText :: "16 word" where "TextCommandLinkText = 10"
definition TextCommandSkipBlock :: "16 word" where "TextCommandSkipBlock = 13"
definition TextCommandLangTag :: "16 word" where "TextCommandLangTag = 32"

text \<open>
  The switch over the command: where its closing character must be, or nothing when its argument
  is refused. The length of a link text is read as an unsigned number.
\<close>

definition command_end :: "qstring \<Rightarrow> bool \<Rightarrow> nat \<Rightarrow> nat option" where
  "command_end s canLink start =
     (let cmd = s ! (start + 1); arg = s ! (start + 2)
      in if cmd = TextCommandBold \<or> cmd = TextCommandNoBold \<or> cmd = TextCommandSemibold \<or> cmd = TextCommandNoSemibold
           \<or> cmd = TextCommandItalic \<or> cmd = TextCommandNoItalic \<or> cmd = TextCommandUnderline
           \<or> cmd = TextCommandNoUnderline then Some (start + 2)
         else if cmd = TextCommandLinkIndex then if 0x7FFF < arg then None else Some (start + 3)
         else if cmd = TextCommandLinkText
         then if 4096 \<le> arg \<or> \<not> canLink then None else Some (start + 2 + unat arg + 1)
         else if cmd = TextCommandSkipBlock then Some (start + 4)
         else if cmd = TextCommandLangTag then Some (start + 3)
         else Some (start + 2))"

text \<open>
  The position after the command at \<open>start\<close>, or \<open>start\<close> when there is none; the end of the text
  is its length.
\<close>

definition textSkipCommand :: "qstring \<Rightarrow> bool \<Rightarrow> nat \<Rightarrow> nat" where
  "textSkipCommand s canLink start =
     (if s ! start \<noteq> TextCommand \<or> length s \<le> start + 1 then start
      else if length s \<le> start + 2 then start
      else case command_end s canLink start of
          None \<Rightarrow> start
        | Some result \<Rightarrow> if result < length s \<and> s ! result = TextCommand then result + 1 else start)"

lemma command_end_forward: "command_end s canLink start = Some r \<Longrightarrow> start < r"
  by (auto simp: command_end_def Let_def split: if_split_asm)

lemma textSkipCommand_forward: "textSkipCommand s canLink start \<noteq> start \<Longrightarrow> start < textSkipCommand s canLink start"
  by (auto simp: textSkipCommand_def split: if_split_asm option.split_asm dest: command_end_forward)

section \<open>Finding and replacing a tag\<close>

definition kTagReplacementSize :: nat where "kTagReplacementSize = 4"

function find_tag :: "qstring \<Rightarrow> nat \<Rightarrow> nat \<Rightarrow> int" where
  "find_tag original tag ch =
     (if length original \<le> ch then -1
      else if original ! ch = TextCommand
      then if ch + kTagReplacementSize \<le> length original \<and> original ! (ch + 1) = TextCommandLangTag
             \<and> original ! (ch + 3) = TextCommand
        then if unat (original ! (ch + 2)) = 32 + tag then int ch
          else find_tag original tag (ch + kTagReplacementSize)
        else let skipped = textSkipCommand original True ch
          in if skipped = ch then find_tag original tag (ch + 1) else find_tag original tag skipped
      else find_tag original tag (ch + 1))"
  by pat_completeness auto
termination
proof (relation "measure (\<lambda>(original, tag, ch). length original - ch)", goal_cases)
  case (4 original tag ch x)
  then show ?case using textSkipCommand_forward [of original True ch] by simp
qed (auto simp: kTagReplacementSize_def)

declare find_tag.simps [simp del]

definition FindTagReplacementPosition :: "qstring \<Rightarrow> nat \<Rightarrow> int" where
  "FindTagReplacementPosition original tag = find_tag original tag 0"

definition ReplaceTag_Replace :: "qstring \<Rightarrow> qstring \<Rightarrow> nat \<Rightarrow> qstring" where
  "ReplaceTag_Replace original replacement replacementPosition =
     (if 0 < replacementPosition then take replacementPosition original else []) @ replacement
     @ (if replacementPosition + kTagReplacementSize < length original
        then drop (replacementPosition + kTagReplacementSize) original else [])"

definition ReplaceTag_Call :: "qstring \<Rightarrow> nat \<Rightarrow> qstring \<Rightarrow> qstring" where
  "ReplaceTag_Call original tag replacement =
     (let replacementPosition = FindTagReplacementPosition original tag
      in if replacementPosition < 0 then original
         else ReplaceTag_Replace original replacement (nat replacementPosition))"

section \<open>Reading the tags of a value\<close>

datatype tag_error = ExpectedTagName | ExpectedBrace | UnknownTag | UnexpectedTag | RepeatedTag

text \<open>As it is written, the second range ends with a small \<^verbatim>\<open>z\<close>.\<close>

definition isTagChar :: "8 word \<Rightarrow> bool" where
  "isTagChar ch \<longleftrightarrow>
     (if 97 \<le> ch \<and> ch \<le> 122 then True
      else if 65 \<le> ch \<and> ch \<le> 122 then True
      else if 48 \<le> ch \<and> ch \<le> 57 then True
      else ch = 95)"

text \<open>The generated tables: index of a name, number of tags, and whether the key uses the tag.\<close>

record tag_tables =
  tt_index :: "8 word list \<Rightarrow> nat"
  tt_count :: nat
  tt_replaced :: "nat \<Rightarrow> bool"

text \<open>\<^verbatim>\<open>readTag\<close>: the index of the tag, the position of its closing brace and the tags used.\<close>

definition readTag :: "tag_tables \<Rightarrow> 8 word list \<Rightarrow> nat \<Rightarrow> nat list \<Rightarrow> tag_error + nat \<times> nat \<times> nat list" where
  "readTag tables text tagStart tagsUsed =
     (let currentTag = takeWhile isTagChar (drop tagStart text);
          ch = tagStart + length currentTag
      in if currentTag = [] then Inl ExpectedTagName
         else if length text \<le> ch \<or> text ! ch \<noteq> 125 then Inl ExpectedBrace
         else
           let index = tt_index tables currentTag
           in if index = tt_count tables then Inl UnknownTag
              else if \<not> tt_replaced tables index then Inl UnexpectedTag
              else if index \<in> set tagsUsed then Inl RepeatedTag
              else Inr (index, ch, tagsUsed @ [index]))"

definition tagReplacer :: "nat \<Rightarrow> qstring" where
  "tagReplacer index = [TextCommand, TextCommandLangTag, word_of_nat (32 + index), TextCommand]"

definition appendToResult :: "(8 word list \<Rightarrow> qstring) \<Rightarrow> 8 word list \<Rightarrow> nat \<Rightarrow> nat \<Rightarrow> qstring \<Rightarrow> qstring" where
  "appendToResult fromUtf8 text start ch result =
     (if start < ch then result @ fromUtf8 (take (ch - start) (drop start text)) else result)"

function parse_tags :: "(8 word list \<Rightarrow> qstring) \<Rightarrow> tag_tables \<Rightarrow> 8 word list \<Rightarrow> nat \<Rightarrow> nat \<Rightarrow> nat list \<Rightarrow> qstring \<Rightarrow>
    tag_error + qstring" where
  "parse_tags fromUtf8 tables text start ch tagsUsed result =
     (if length text \<le> ch then Inr (appendToResult fromUtf8 text start ch result)
      else if text ! ch = 123
      then
        (case readTag tables text (ch + 1) tagsUsed of
          Inl e \<Rightarrow> Inl e
        | Inr (index, closing, used) \<Rightarrow>
            parse_tags fromUtf8 tables text (closing + 1) (closing + 1) used
              (appendToResult fromUtf8 text start ch result @ tagReplacer index))
      else parse_tags fromUtf8 tables text start (ch + 1) tagsUsed result)"
  by pat_completeness auto
termination
  by (relation "measure (\<lambda>(fromUtf8, tables, text, start, ch, tagsUsed, result). length text - ch)")
    (auto simp: readTag_def Let_def split: if_splits)

declare parse_tags.simps [simp del]

definition ValueParser_parse :: "(8 word list \<Rightarrow> qstring) \<Rightarrow> tag_tables \<Rightarrow> 8 word list \<Rightarrow> tag_error + qstring" where
  "ValueParser_parse fromUtf8 tables text = parse_tags fromUtf8 tables text 0 0 [] []"

section \<open>Texts with places for tags\<close>

text \<open>What a parsed value is: plain text with places, each tag at most once.\<close>

datatype piece = Plain qstring | Place nat

fun flatten_piece :: "piece \<Rightarrow> qstring" where
  "flatten_piece (Plain s) = s"
| "flatten_piece (Place tag) = tagReplacer tag"

definition flatten_pieces :: "piece list \<Rightarrow> qstring" where
  "flatten_pieces ps = concat (map flatten_piece ps)"

fun place_tags :: "piece list \<Rightarrow> nat list" where
  "place_tags [] = []"
| "place_tags (Plain s # ps) = place_tags ps"
| "place_tags (Place tag # ps) = tag # place_tags ps"

text \<open>Plain text has no commands, and tags fit the unit that carries them.\<close>

definition piece_ok :: "piece \<Rightarrow> bool" where
  "piece_ok p \<longleftrightarrow> (case p of Plain s \<Rightarrow> TextCommand \<notin> set s | Place tag \<Rightarrow> 32 + tag < 2 ^ 16)"

lemma flatten_simps [simp]:
  "flatten_pieces [] = []" "flatten_pieces (p # ps) = flatten_piece p @ flatten_pieces ps"
  "flatten_pieces (ps @ qs) = flatten_pieces ps @ flatten_pieces qs"
  by (simp_all add: flatten_pieces_def)

lemma place_tags_append [simp]: "place_tags (ps @ qs) = place_tags ps @ place_tags qs"
  by (induction ps rule: place_tags.induct) simp_all

text \<open>Scanning skips what is not the tag.\<close>

lemma find_tag_plain:
  "TextCommand \<notin> set s \<Longrightarrow> find_tag (done @ s @ rest) tag (length done) = find_tag (done @ s @ rest) tag (length done + length s)"
proof (induction s arbitrary: "done")
  case (Cons c s)
  have "find_tag (done @ (c # s) @ rest) tag (length done) = find_tag (done @ (c # s) @ rest) tag (length done + 1)"
    using Cons.prems by (subst find_tag.simps) auto
  then show ?case using Cons.IH [of "done @ [c]"] Cons.prems by simp
qed simp

lemma find_tag_place:
  assumes "32 + t < 2 ^ 16"
  shows "find_tag (done @ tagReplacer t @ rest) tag (length done) =
    (if t = tag then int (length done) else find_tag (done @ tagReplacer t @ rest) tag (length done + 4))"
proof -
  have "unat (word_of_nat (32 + t) :: 16 word) = 32 + t"
    unfolding unat_of_nat using assms by (simp add: take_bit_nat_eq_self)
  then show ?thesis
    by (subst find_tag.simps) (simp add: tagReplacer_def nth_append kTagReplacementSize_def)
qed

lemma length_tagReplacer [simp]: "length (tagReplacer t) = 4"
  by (simp add: tagReplacer_def)

lemma find_tag_pieces:
  "\<forall>p \<in> set ps. piece_ok p \<Longrightarrow>
    (tag \<notin> set (place_tags ps) \<longrightarrow> find_tag (start @ flatten_pieces ps) tag (length start) = -1)
    \<and> (\<forall>qs rs. ps = qs @ Place tag # rs \<longrightarrow> tag \<notin> set (place_tags qs) \<longrightarrow>
        find_tag (start @ flatten_pieces ps) tag (length start) = int (length start + length (flatten_pieces qs)))"
proof (induction ps arbitrary: start)
  case Nil
  show ?case by (subst find_tag.simps) simp
next
  case (Cons p ps)
  have ok: "piece_ok p" "\<forall>p \<in> set ps. piece_ok p" using Cons.prems by simp_all
  note IH = Cons.IH [OF ok(2), of "start @ flatten_piece p"]
  have skip: "find_tag (start @ flatten_pieces (p # ps)) tag (length start) =
      find_tag ((start @ flatten_piece p) @ flatten_pieces ps) tag (length (start @ flatten_piece p))" if "p \<noteq> Place tag"
  proof (cases p)
    case (Plain s)
    then show ?thesis using find_tag_plain [of s start "flatten_pieces ps" tag] ok(1) by (simp add: piece_ok_def)
  next
    case (Place t)
    then show ?thesis using find_tag_place [of t start "flatten_pieces ps" tag] ok(1) that
      by (simp add: piece_ok_def)
  qed
  show ?case
  proof (intro conjI impI allI)
    assume no: "tag \<notin> set (place_tags (p # ps))"
    then have "p \<noteq> Place tag" "tag \<notin> set (place_tags ps)" by (cases p; simp)+
    then show "find_tag (start @ flatten_pieces (p # ps)) tag (length start) = -1" using skip IH by simp
  next
    fix qs rs assume e: "p # ps = qs @ Place tag # rs" and no: "tag \<notin> set (place_tags qs)"
    show "find_tag (start @ flatten_pieces (p # ps)) tag (length start) = int (length start + length (flatten_pieces qs))"
    proof (cases qs)
      case Nil
      then have "p = Place tag" using e by simp
      then show ?thesis using find_tag_place [of tag start "flatten_pieces ps" tag] ok(1) Nil by (simp add: piece_ok_def)
    next
      case (Cons q qs')
      then have p: "p = q" "ps = qs' @ Place tag # rs" using e by simp_all
      have "p \<noteq> Place tag" "tag \<notin> set (place_tags qs')" using no unfolding Cons p(1) by (cases q; simp)+
      then show ?thesis using skip IH p(2) unfolding Cons p(1) by simp
    qed
  qed
qed

definition put_text :: "nat \<Rightarrow> qstring \<Rightarrow> piece list \<Rightarrow> piece list" where
  "put_text tag replacement = map (\<lambda>p. if p = Place tag then Plain replacement else p)"

lemma put_text_absent: "tag \<notin> set (place_tags ps) \<Longrightarrow> put_text tag r ps = ps"
  by (induction ps rule: place_tags.induct) (auto simp: put_text_def)

lemma place_split: "tag \<in> set (place_tags ps) \<Longrightarrow> \<exists>qs rs. ps = qs @ Place tag # rs \<and> tag \<notin> set (place_tags qs)"
proof (induction ps rule: place_tags.induct)
  case (2 s ps)
  then obtain qs rs where "ps = qs @ Place tag # rs" "tag \<notin> set (place_tags qs)" by auto
  then show ?case by (intro exI [of _ "Plain s # qs"] exI [of _ rs]) simp
next
  case (3 t ps)
  show ?case
  proof (cases "t = tag")
    case True
    then show ?thesis by (intro exI [of _ "[]"] exI [of _ ps]) simp
  next
    case False
    with 3 obtain qs rs where "ps = qs @ Place tag # rs" "tag \<notin> set (place_tags qs)" by auto
    then show ?thesis using False by (intro exI [of _ "Place t # qs"] exI [of _ rs]) simp
  qed
qed simp

lemma replace_pieces:
  assumes "\<forall>p \<in> set ps. piece_ok p" and "distinct (place_tags ps)"
  shows "ReplaceTag_Call (flatten_pieces ps) tag r = flatten_pieces (put_text tag r ps)"
    and "0 \<le> FindTagReplacementPosition (flatten_pieces ps) tag \<longleftrightarrow> tag \<in> set (place_tags ps)"
proof -
  have f: "tag \<notin> set (place_tags ps) \<Longrightarrow> find_tag (flatten_pieces ps) tag 0 = -1"
    using find_tag_pieces [OF assms(1), of tag "[]"] by simp
  have g: "ps = qs @ Place tag # rs \<Longrightarrow> tag \<notin> set (place_tags qs) \<Longrightarrow>
      find_tag (flatten_pieces ps) tag 0 = int (length (flatten_pieces qs))" for qs rs
    using find_tag_pieces [OF assms(1), of tag "[]"] by simp
  have all: "ReplaceTag_Call (flatten_pieces ps) tag r = flatten_pieces (put_text tag r ps)
    \<and> (0 \<le> FindTagReplacementPosition (flatten_pieces ps) tag \<longleftrightarrow> tag \<in> set (place_tags ps))"
  proof (cases "tag \<in> set (place_tags ps)")
    case False
    then show ?thesis using f put_text_absent [OF False]
      by (simp add: ReplaceTag_Call_def FindTagReplacementPosition_def)
  next
    case True
    then obtain qs rs where ps: "ps = qs @ Place tag # rs" and no: "tag \<notin> set (place_tags qs)" using place_split by blast
    have no': "tag \<notin> set (place_tags rs)" using assms(2) by (simp add: ps)
    have pos: "FindTagReplacementPosition (flatten_pieces ps) tag = int (length (flatten_pieces qs))"
      unfolding FindTagReplacementPosition_def by (rule g [OF ps no])
    have "put_text tag r ps = put_text tag r qs @ Plain r # put_text tag r rs" by (simp add: ps put_text_def)
    then have "put_text tag r ps = qs @ Plain r # rs"
      by (simp only: put_text_absent [OF no] put_text_absent [OF no'])
    moreover have "ReplaceTag_Call (flatten_pieces ps) tag r = flatten_pieces qs @ r @ flatten_pieces rs"
      unfolding ReplaceTag_Call_def pos
      by (simp add: ReplaceTag_Replace_def ps kTagReplacementSize_def)
    ultimately show ?thesis using True pos by simp
  qed
  then show "ReplaceTag_Call (flatten_pieces ps) tag r = flatten_pieces (put_text tag r ps)"
    and "0 \<le> FindTagReplacementPosition (flatten_pieces ps) tag \<longleftrightarrow> tag \<in> set (place_tags ps)" by blast+
qed

section \<open>Values as they are written\<close>

text \<open>A value in a language file: texts, each before a tag by name, and a last text.\<close>

definition written :: "(8 word list \<times> 8 word list) list \<Rightarrow> 8 word list \<Rightarrow> 8 word list" where
  "written parts rest = concat (map (\<lambda>(text, name). text @ 123 # name @ [125]) parts) @ rest"

definition utf8_text :: "(8 word list \<Rightarrow> qstring) \<Rightarrow> 8 word list \<Rightarrow> qstring" where
  "utf8_text fromUtf8 bytes = (if bytes = [] then [] else fromUtf8 bytes)"

definition parsed :: "(8 word list \<Rightarrow> qstring) \<Rightarrow> tag_tables \<Rightarrow> (8 word list \<times> 8 word list) list \<Rightarrow> 8 word list \<Rightarrow> piece list" where
  "parsed fromUtf8 tables parts rest =
     concat (map (\<lambda>(text, name). [Plain (utf8_text fromUtf8 text), Place (tt_index tables name)]) parts)
     @ [Plain (utf8_text fromUtf8 rest)]"

definition name_known :: "tag_tables \<Rightarrow> 8 word list \<Rightarrow> bool" where
  "name_known tables name \<longleftrightarrow> name \<noteq> [] \<and> list_all isTagChar name
     \<and> tt_index tables name \<noteq> tt_count tables \<and> tt_replaced tables (tt_index tables name)"

lemma readTag_written:
  assumes "name_known tables name" and "tt_index tables name \<notin> set used"
  shows "readTag tables (start @ name @ 125 # rest) (length start) used =
    Inr (tt_index tables name, length start + length name, used @ [tt_index tables name])"
proof -
  have "\<not> isTagChar 125" by (simp add: isTagChar_def)
  then have "takeWhile isTagChar (drop (length start) (start @ name @ 125 # rest)) = name"
    using assms(1) by (simp add: name_known_def list_all_iff takeWhile_append2 takeWhile.simps)
  then show ?thesis using assms by (simp add: readTag_def name_known_def Let_def nth_append)
qed

lemma parse_text:
  "123 \<notin> set t \<Longrightarrow> parse_tags fromUtf8 tables (before @ t @ rest) b (length before) used result =
    parse_tags fromUtf8 tables (before @ t @ rest) b (length before + length t) used result"
proof (induction t arbitrary: before)
  case (Cons c t)
  have "parse_tags fromUtf8 tables (before @ (c # t) @ rest) b (length before) used result =
      parse_tags fromUtf8 tables (before @ (c # t) @ rest) b (length before + 1) used result"
    using Cons.prems by (subst parse_tags.simps) auto
  then show ?case using Cons.IH [of "before @ [c]"] Cons.prems by simp
qed simp

lemma parse_written:
  "\<forall>(text, name) \<in> set parts. 123 \<notin> set text \<and> name_known tables name \<Longrightarrow> 123 \<notin> set rest \<Longrightarrow>
    distinct (used @ map (\<lambda>(text, name). tt_index tables name) parts) \<Longrightarrow>
    parse_tags fromUtf8 tables (before @ written parts rest) (length before) (length before) used result =
      Inr (result @ flatten_pieces (parsed fromUtf8 tables parts rest))"
proof (induction parts arbitrary: before used result)
  case Nil
  have "parse_tags fromUtf8 tables (before @ rest) (length before) (length before) used result =
      parse_tags fromUtf8 tables (before @ rest) (length before) (length before + length rest) used result"
    using parse_text [OF Nil.prems(2), of fromUtf8 tables before "[]"] by simp
  also have "\<dots> = Inr (result @ utf8_text fromUtf8 rest)"
    by (subst parse_tags.simps) (simp add: appendToResult_def utf8_text_def)
  finally show ?case by (simp add: written_def parsed_def)
next
  case (Cons part parts)
  obtain t n where part: "part = (t, n)" by (cases part)
  have t: "123 \<notin> set t" and n: "name_known tables n" using Cons.prems(1) by (simp_all add: part)
  have fresh: "tt_index tables n \<notin> set used" using Cons.prems(3) by (simp add: part)
  let ?tail = "written parts rest"
  have w: "written (part # parts) rest = t @ 123 # n @ 125 # ?tail" by (simp add: written_def part)
  let ?text = "before @ t @ 123 # n @ 125 # ?tail"
  let ?result = "appendToResult fromUtf8 ?text (length before) (length before + length t) result @ tagReplacer (tt_index tables n)"
  have r: "readTag tables ?text (length before + length t + 1) used =
      Inr (tt_index tables n, length before + length t + 1 + length n, used @ [tt_index tables n])"
    using readTag_written [OF n fresh, of "before @ t @ [123]" ?tail] by simp
  have "parse_tags fromUtf8 tables ?text (length before) (length before) used result =
      parse_tags fromUtf8 tables ?text (length before) (length before + length t) used result"
    by (rule parse_text [OF t])
  also have "\<dots> = parse_tags fromUtf8 tables ?text (length before + length t + 1 + length n + 1)
      (length before + length t + 1 + length n + 1) (used @ [tt_index tables n]) ?result"
    using r by (subst parse_tags.simps) (simp add: nth_append)
  also have "\<dots> = Inr (?result @ flatten_pieces (parsed fromUtf8 tables parts rest))"
  proof -
    have "distinct ((used @ [tt_index tables n]) @ map (\<lambda>(text, name). tt_index tables name) parts)"
      using Cons.prems(3) by (simp add: part)
    then show ?thesis
      using Cons.IH [of "used @ [tt_index tables n]" "before @ t @ [123] @ n @ [125]" ?result] Cons.prems(1,2)
      by (simp add: add.assoc)
  qed
  also have "?result = result @ utf8_text fromUtf8 t @ tagReplacer (tt_index tables n)"
    by (simp add: appendToResult_def utf8_text_def)
  finally show ?case unfolding w by (simp add: parsed_def part)
qed

section \<open>Properties\<close>

text \<open>
  What is required of the generated tables and of the decoder: the tags are few, and decoding
  makes no command characters of other bytes.
\<close>

definition tables_ok :: "tag_tables \<Rightarrow> bool" where
  "tables_ok tables \<longleftrightarrow> (\<forall>name. tt_index tables name \<le> tt_count tables) \<and> 32 + tt_count tables < 2 ^ 16"

definition decoder_ok :: "(8 word list \<Rightarrow> qstring) \<Rightarrow> bool" where
  "decoder_ok fromUtf8 \<longleftrightarrow> (\<forall>bytes. 16 \<notin> set bytes \<longrightarrow> TextCommand \<notin> set (fromUtf8 bytes))"

definition source_ok :: "tag_tables \<Rightarrow> (8 word list \<times> 8 word list) list \<Rightarrow> 8 word list \<Rightarrow> bool" where
  "source_ok tables parts rest \<longleftrightarrow>
     (\<forall>(text, name) \<in> set parts. 123 \<notin> set text \<and> 16 \<notin> set text \<and> name_known tables name)
     \<and> 123 \<notin> set rest \<and> 16 \<notin> set rest \<and> distinct (map (\<lambda>(text, name). tt_index tables name) parts)"

lemma parsed_ok:
  assumes "tables_ok tables" and "decoder_ok fromUtf8" and "source_ok tables parts rest"
  shows "\<forall>p \<in> set (parsed fromUtf8 tables parts rest). piece_ok p"
    and "place_tags (parsed fromUtf8 tables parts rest) = map (\<lambda>(text, name). tt_index tables name) parts"
proof -
  have u: "TextCommand \<notin> set (utf8_text fromUtf8 t)" if "16 \<notin> set t" for t
    using assms(2) that by (simp add: decoder_ok_def utf8_text_def)
  have i: "32 + tt_index tables n < 2 ^ 16" for n
    using assms(1) unfolding tables_ok_def by (meson add_left_mono le_less_trans)
  show "\<forall>p \<in> set (parsed fromUtf8 tables parts rest). piece_ok p"
    using assms(3) u i by (auto simp: parsed_def piece_ok_def source_ok_def)
  have "place_tags (concat (map (\<lambda>(text, name). [Plain (utf8_text fromUtf8 text), Place (tt_index tables name)]) parts)) =
      map (\<lambda>(text, name). tt_index tables name) parts"
    by (induction parts) auto
  then show "place_tags (parsed fromUtf8 tables parts rest) = map (\<lambda>(text, name). tt_index tables name) parts"
    by (simp add: parsed_def)
qed

lemma parse_source:
  assumes "source_ok tables parts rest"
  shows "ValueParser_parse fromUtf8 tables (written parts rest) = Inr (flatten_pieces (parsed fromUtf8 tables parts rest))"
  using parse_written [of parts tables rest "[]" fromUtf8 "[]" "[]"] assms
  by (auto simp: ValueParser_parse_def source_ok_def)

text \<open>
  C37: A value that is written with known tags, each once, is always accepted, and in what it is
  parsed to every tag is found and nothing else is: putting a text in the place of a tag changes
  exactly that place, and the other tags can be replaced after it.
\<close>

theorem lang_value_tags_replaced:
  assumes "tables_ok tables" and "decoder_ok fromUtf8" and "source_ok tables parts rest" and "TextCommand \<notin> set r"
  shows "\<exists>result ps. ValueParser_parse fromUtf8 tables (written parts rest) = Inr result
    \<and> ps = parsed fromUtf8 tables parts rest \<and> result = flatten_pieces ps
    \<and> (0 \<le> FindTagReplacementPosition result tag \<longleftrightarrow> tag \<in> (\<lambda>(text, name). tt_index tables name) ` set parts)
    \<and> ReplaceTag_Call result tag r = flatten_pieces (put_text tag r ps)
    \<and> (tag \<noteq> other \<longrightarrow> ReplaceTag_Call (ReplaceTag_Call result tag r) other q =
        flatten_pieces (put_text other q (put_text tag r ps)))"
proof -
  let ?ps = "parsed fromUtf8 tables parts rest"
  note ok = parsed_ok [OF assms(1-3)]
  have d: "distinct (place_tags ?ps)" using assms(3) by (simp add: ok(2) source_ok_def)
  note first = replace_pieces [OF ok(1) d]
  have ok2: "\<forall>p \<in> set (put_text tag r ?ps). piece_ok p"
    using ok(1) assms(4) by (auto simp: put_text_def piece_ok_def)
  have "place_tags (put_text tag r ps) = filter (\<lambda>t. t \<noteq> tag) (place_tags ps)" for ps
    by (induction ps rule: place_tags.induct) (simp_all add: put_text_def)
  then have d2: "distinct (place_tags (put_text tag r ?ps))" using d by simp
  note second = replace_pieces(1) [OF ok2 d2]
  show ?thesis using parse_source [OF assms(3)] first second ok(2) by auto
qed

lemma readTag_known:
  assumes "readTag tables text start used = Inr (index, closing, used')"
  shows "used' = used @ [index]" and "index \<notin> set used" and "index \<noteq> tt_count tables" and "tt_replaced tables index"
    and "start < closing" and "closing < length text" and "text ! closing = 125"
  using assms by (auto simp: readTag_def Let_def split: if_split_asm)

lemma parse_tags_ok:
  "parse_tags fromUtf8 tables text start ch used result = Inr final \<Longrightarrow> decoder_ok fromUtf8 \<Longrightarrow> tables_ok tables \<Longrightarrow>
    16 \<notin> set text \<Longrightarrow> \<exists>ps. final = result @ flatten_pieces ps \<and> (\<forall>p \<in> set ps. piece_ok p)
      \<and> (\<forall>t \<in> set (place_tags ps). tt_replaced tables t \<and> t < tt_count tables)
      \<and> (distinct used \<longrightarrow> distinct (used @ place_tags ps))"
proof (induction fromUtf8 tables "text" start ch used result rule: parse_tags.induct)
  case (1 fromUtf8 tables "text" start ch used result)
  have chunk: "\<exists>s. appendToResult fromUtf8 text start ch result = result @ s \<and> piece_ok (Plain s)"
  proof -
    have "16 \<notin> set (take (ch - start) (drop start text))" using "1.prems"(4) by (meson in_set_dropD in_set_takeD)
    then have "TextCommand \<notin> set (fromUtf8 (take (ch - start) (drop start text)))"
      using "1.prems"(2) by (simp add: decoder_ok_def)
    then show ?thesis by (simp add: appendToResult_def piece_ok_def)
  qed
  then obtain s where s: "appendToResult fromUtf8 text start ch result = result @ s" "piece_ok (Plain s)" by blast
  consider (last) "length text \<le> ch" | (tag) "ch < length text" "text ! ch = 123" | (char) "ch < length text" "text ! ch \<noteq> 123"
    by linarith
  then show ?case
  proof cases
    case last
    then have "final = result @ s" using "1.prems"(1) s(1) by (subst (asm) parse_tags.simps) simp
    then show ?thesis using s(2) by (intro exI [of _ "[Plain s]"]) simp
  next
    case tag
    obtain index closing used' where r: "readTag tables text (ch + 1) used = Inr (index, closing, used')"
      using "1.prems"(1) tag by (subst (asm) parse_tags.simps) (auto split: sum.splits)
    note k = readTag_known [OF r]
    have loop: "parse_tags fromUtf8 tables text (closing + 1) (closing + 1) used'
        (appendToResult fromUtf8 text start ch result @ tagReplacer index) = Inr final"
      using "1.prems"(1) tag r by (subst (asm) parse_tags.simps) simp
    obtain ps where ps: "final = (appendToResult fromUtf8 text start ch result @ tagReplacer index) @ flatten_pieces ps"
      "\<forall>p \<in> set ps. piece_ok p" "\<forall>t \<in> set (place_tags ps). tt_replaced tables t \<and> t < tt_count tables"
      "distinct used' \<longrightarrow> distinct (used' @ place_tags ps)"
      using "1.IH"(1) [OF _ _ r refl refl loop "1.prems"(2-4)] tag by auto
    have "index \<le> tt_count tables" using "1.prems"(3) r by (auto simp: tables_ok_def readTag_def Let_def split: if_split_asm)
    then have lt: "index < tt_count tables" using k(3) by simp
    then have "piece_ok (Place index)" using "1.prems"(3) by (simp add: tables_ok_def piece_ok_def)
    then show ?thesis using ps s k lt by (intro exI [of _ "Plain s # Place index # ps"]) auto
  next
    case char
    have "parse_tags fromUtf8 tables text start (ch + 1) used result = Inr final"
      using "1.prems"(1) char by (subst (asm) parse_tags.simps) simp
    then show ?thesis using "1.IH"(2) "1.prems"(2-4) char by simp
  qed
qed


section \<open>Witnesses\<close>

text \<open>One tag, \<open>count\<close>, in a value of three bytes around it.\<close>

definition count_name :: "8 word list" where "count_name = map of_char ''count''"

definition one_tag :: tag_tables where
  "one_tag = \<lparr>tt_index = (\<lambda>name. if name = count_name then 0 else 1), tt_count = 1, tt_replaced = (\<lambda>t. t = 0)\<rparr>"

definition latin :: "8 word list \<Rightarrow> qstring" where "latin = map ucast"

lemma one_tag_ok: "tables_ok one_tag"
  by (simp add: tables_ok_def one_tag_def)

lemma latin_ok: "decoder_ok latin"
proof -
  have "(ucast b :: 16 word) \<noteq> 16" if "b \<noteq> 16" for b :: "8 word"
  proof
    assume "(ucast b :: 16 word) = 16"
    moreover have "unat (ucast b :: 16 word) = unat b"
      using unsigned_less [of b, where ?'a = nat] by (simp add: unsigned_ucast_eq take_bit_nat_eq_self)
    ultimately have "unat b = unat (16 :: 8 word)" by simp
    then show False using that by (simp only: word_unat_eq_iff)
  qed
  then show ?thesis by (auto simp: decoder_ok_def latin_def TextCommand_def) metis
qed

lemma count_source: "source_ok one_tag [([97, 32], count_name)] [46]"
  by (simp add: source_ok_def name_known_def one_tag_def count_name_def isTagChar_def)

theorem lang_value_tags_replaced_witness:
  "\<exists>result. ValueParser_parse latin one_tag (written [([97, 32], count_name)] [46]) = Inr result
    \<and> ReplaceTag_Call result 0 [55] = [97, 32, 55, 46]"
proof -
  have r: "TextCommand \<notin> set [55]" by (simp add: TextCommand_def)
  have "flatten_pieces (put_text 0 [55] (parsed latin one_tag [([97, 32], count_name)] [46])) = [97, 32, 55, 46]"
    by (simp add: parsed_def put_text_def utf8_text_def latin_def one_tag_def)
  then show ?thesis
    using lang_value_tags_replaced [OF one_tag_ok latin_ok count_source r, of 0 0 "[]"] by auto
qed


end
