(* ===== verification/StorageFile.thy ===== *)
theory StorageFile
  imports StorageEncryption
begin

text \<open>
  The encrypted file, \<^verbatim>\<open>storage/storage_encrypted_file.cpp\<close>: a header with salt and checksum, then
  blocks in counter mode. The bytes of the file on disk are a field of the state, as is the position
  of \<^verbatim>\<open>QFile\<close>; they stay when the file is closed. \<^verbatim>\<open>QFile::write\<close> takes all bytes unless \<open>f_results\<close>
  has a smaller result for the call. A failed \<^verbatim>\<open>Expects\<close> or \<^verbatim>\<open>Assert\<close> is \<open>None\<close>.
\<close>

section \<open>The model\<close>

datatype File_Mode = Read | ReadAppend | Write
datatype File_Result = Failed | LockFailed | WrongKey | Success

definition kSkipBytes :: nat where "kSkipBytes = 4"
definition kSha256Size :: nat where "kSha256Size = 32"
definition header_size :: nat where "header_size = kSaltSize + 16 + kSha256Size"

record File =
  f_data :: bytes
  f_pos :: nat
  f_isOpen :: bool
  f_encryptionOffset :: int
  f_dataSize :: int
  f_state :: "CtrState option"
  f_results :: "int list"

subsection \<open>The calls of the file of Qt\<close>

definition overwrite :: "nat \<Rightarrow> bytes \<Rightarrow> bytes \<Rightarrow> bytes" where
  "overwrite pos bs data = take pos data @ bs @ drop (pos + length bs) data"

definition readPlain :: "nat \<Rightarrow> File \<Rightarrow> bytes \<times> File" where
  "readPlain n f =
     (let got = take n (drop (f_pos f) (f_data f)) in (got, f\<lparr>f_pos := f_pos f + length got\<rparr>))"

definition write_result :: "File \<Rightarrow> bytes \<Rightarrow> int" where
  "write_result f bs =
     (if f_results f = [] then int (length bs) else min (hd (f_results f)) (int (length bs)))"

definition writePlain :: "bytes \<Rightarrow> File \<Rightarrow> int \<times> File" where
  "writePlain bs f =
     (let count = write_result f bs
      in (count, f\<lparr>f_data := overwrite (f_pos f) (take (nat count) bs) (f_data f), f_pos := f_pos f + nat count,
            f_results := tl (f_results f)\<rparr>))"

subsection \<open>Blocks\<close>

definition File_offset :: "File \<Rightarrow> int" where
  "File_offset f =
     (let realOffset = int kSaltSize + f_encryptionOffset f; skipOffset = int header_size
      in if skipOffset \<le> realOffset then realOffset - skipOffset else 0)"

definition File_size :: "File \<Rightarrow> int" where "File_size f = f_dataSize f"

definition File_encrypt :: "crypto \<Rightarrow> bytes \<Rightarrow> File \<Rightarrow> (bytes \<times> File) option" where
  "File_encrypt c bs f =
     Option.bind (f_state f) (\<lambda>st.
       map_option (\<lambda>out. (out, f\<lparr>f_encryptionOffset := f_encryptionOffset f + int (length bs)\<rparr>))
         (CtrState_encrypt c st bs (f_encryptionOffset f)))"

definition File_decrypt :: "crypto \<Rightarrow> bytes \<Rightarrow> File \<Rightarrow> (bytes \<times> File) option" where
  "File_decrypt c bs f =
     Option.bind (f_state f) (\<lambda>st.
       map_option (\<lambda>out. (out, f\<lparr>f_encryptionOffset := f_encryptionOffset f + int (length bs)\<rparr>))
         (CtrState_decrypt c st bs (f_encryptionOffset f)))"

definition File_decryptBack :: "crypto \<Rightarrow> bytes \<Rightarrow> File \<Rightarrow> (bytes \<times> File) option" where
  "File_decryptBack c bs f =
     (if f_encryptionOffset f < int (length bs) then None
      else map_option (\<lambda>(out, f1). (out, f1\<lparr>f_encryptionOffset := f_encryptionOffset f1 - int (length bs)\<rparr>))
        (File_decrypt c bs (f\<lparr>f_encryptionOffset := f_encryptionOffset f - int (length bs)\<rparr>)))"

text \<open>The bytes that were read, with the position after them.\<close>

definition File_read :: "crypto \<Rightarrow> nat \<Rightarrow> File \<Rightarrow> (bytes \<times> File) option" where
  "File_read c n f =
     (if n mod kBlockSize \<noteq> 0 then None
      else if \<not> f_isOpen f then Some ([], f)
      else
        let (got, f1) = readPlain n f;
            back = length got mod kBlockSize;
            f2 = f1\<lparr>f_pos := f_pos f1 - back\<rparr>;
            blocks = take (length got - back) got
        in if blocks = [] then Some ([], f2) else File_decrypt c blocks f2)"

definition File_write :: "crypto \<Rightarrow> bytes \<Rightarrow> File \<Rightarrow> (bool \<times> File) option" where
  "File_write c bs f =
     (if length bs mod kBlockSize \<noteq> 0 then None
      else if \<not> f_isOpen f then Some (False, f)
      else Option.bind (File_encrypt c bs f) (\<lambda>(out, f1).
        let (count, f2) = writePlain out f1
        in if count = int (length bs)
           then Some (True, f2\<lparr>f_dataSize := max (f_dataSize f2) (File_offset f2)\<rparr>)
           else Option.bind (File_decryptBack c out f2) (\<lambda>(_, f3).
             Some (False, if 0 < count then f3\<lparr>f_pos := f_pos f3 - nat count\<rparr> else f3))))"

text \<open>Here the bytes are as many as the code returns; \<open>Assert\<close> holds as \<open>read\<close> gives whole blocks.\<close>

definition File_readWithPadding :: "crypto \<Rightarrow> nat \<Rightarrow> File \<Rightarrow> (bytes \<times> File) option" where
  "File_readWithPadding c n f =
     (let part = n mod kBlockSize; good = n - part
      in Option.bind (if good \<noteq> 0 then File_read c good f else Some ([], f)) (\<lambda>(got, f1).
           if length got \<noteq> good then Some (got, f1)
           else if part = 0 then Some (got, f1)
           else Option.bind (File_read c kBlockSize f1) (\<lambda>(padded, f2).
             if padded = [] then Some (got, f2)
             else if length padded \<noteq> kBlockSize then None
             else Some (got @ take part padded, f2))))"

text \<open>The random bytes after the data are an argument.\<close>

definition File_writeWithPadding :: "crypto \<Rightarrow> bytes \<Rightarrow> bytes \<Rightarrow> File \<Rightarrow> (bool \<times> File) option" where
  "File_writeWithPadding c random bs f =
     (let part = length bs mod kBlockSize; good = length bs - part
      in Option.bind (if good \<noteq> 0 then File_write c (take good bs) f else Some (True, f)) (\<lambda>(written, f1).
           if \<not> written then Some (False, f1)
           else if part = 0 then Some (True, f1)
           else
             let padded = drop good bs @ take (kBlockSize - part) random
             in Option.bind (File_write c padded f1) (\<lambda>(written, f2).
                  if written then Some (True, f2)
                  else if good \<noteq> 0
                  then map_option (\<lambda>(_, f3). (False, f3\<lparr>f_pos := f_pos f3 - good\<rparr>)) (File_decryptBack c (take good bs) f2)
                  else Some (False, f2))))"

definition File_seek :: "int \<Rightarrow> File \<Rightarrow> bool \<times> File" where
  "File_seek offset f =
     (let realOffset = int header_size + offset
      in if offset < 0 \<or> f_dataSize f < offset then (False, f)
         else (True, f\<lparr>f_pos := kSkipBytes + nat realOffset, f_encryptionOffset := realOffset - int kSaltSize\<rparr>))"

subsection \<open>Opening and closing\<close>

definition File_close :: "File \<Rightarrow> File" where
  "File_close f = f\<lparr>f_pos := 0, f_isOpen := False, f_dataSize := 0, f_encryptionOffset := 0, f_state := None\<rparr>"

text \<open>The format, two reserved fields and the version of the application, all zero.\<close>

definition header_fields :: bytes where "header_fields = replicate 16 0"

definition File_writeHeader :: "crypto \<Rightarrow> bytes \<Rightarrow> bytes \<Rightarrow> File \<Rightarrow> (bool \<times> File) option" where
  "File_writeHeader c key salt f =
     (if f_state f \<noteq> None \<or> f_pos f \<noteq> 0 then None
      else
        let (magic, f1) = writePlain [84, 68, 69, 70] f
        in if magic = 0 then Some (False, f1)
           else Option.bind (prepareCtrState c key salt) (\<lambda>st.
             let f2 = f1\<lparr>f_state := Some st\<rparr>;
                 checksum = sha256 c (key @ salt @ header_fields);
                 (count, f3) = writePlain salt f2
             in if count \<noteq> int (length salt) then Some (False, f3)
                else map_option (\<lambda>(written, f4). if written then (True, f4\<lparr>f_dataSize := 0\<rparr>) else (False, f4))
                  (File_write c (header_fields @ checksum) f3)))"

definition File_readHeader :: "crypto \<Rightarrow> bytes \<Rightarrow> File \<Rightarrow> (File_Result \<times> File) option" where
  "File_readHeader c key f =
     (if f_state f \<noteq> None \<or> f_pos f \<noteq> 0 then None
      else
        let (header, f1) = readPlain header_size (f\<lparr>f_pos := kSkipBytes\<rparr>)
        in if length header \<noteq> header_size then Some (Failed, f1)
           else
             let salt = take kSaltSize header
             in Option.bind (prepareCtrState c key salt) (\<lambda>st.
               Option.bind (File_decrypt c (drop kSaltSize header) (f1\<lparr>f_state := Some st\<rparr>)) (\<lambda>(tail, f2).
                 if drop 16 tail \<noteq> sha256 c (key @ salt @ take 16 tail) then Some (WrongKey, f2)
                 else if tail ! 0 \<noteq> 0 then Some (Failed, f2)
                 else
                   let dataSize = int (length (f_data f2)) - int header_size - int kSkipBytes
                   in if dataSize < 0 then None
                      else Some (Success, f2\<lparr>f_dataSize := dataSize - dataSize mod int kBlockSize\<rparr>))))"

text \<open>
  \<^verbatim>\<open>FileLock::lock\<close> opens the file, which empties it for writing, and then takes the lock or finds
  that another process keeps it.
\<close>

datatype lock_result = Locked | Busy | NotOpened

definition FileLock_lock :: "lock_result \<Rightarrow> File_Mode \<Rightarrow> bytes option \<Rightarrow> bool \<times> bytes option" where
  "FileLock_lock result mode disk =
     (if result = NotOpened then (False, disk)
      else (result = Locked, Some (if mode = Write then [] else case disk of None \<Rightarrow> [] | Some data \<Rightarrow> data)))"

text \<open>
  What opening finds: the file on disk, whether its folder is there or can be made, the result of
  locking, the random salt, and the results of writes.
\<close>

record file_env =
  fe_file :: "bytes option"
  fe_folder :: bool
  fe_lock :: lock_result
  fe_salt :: bytes
  fe_results :: "int list"

definition opened_file :: "bytes \<Rightarrow> file_env \<Rightarrow> File" where
  "opened_file data env =
     \<lparr>f_data = data, f_pos = 0, f_isOpen = True, f_encryptionOffset = 0, f_dataSize = 0, f_state = None,
       f_results = fe_results env\<rparr>"

definition closed_file :: "bytes option \<Rightarrow> file_env \<Rightarrow> File" where
  "closed_file disk env = File_close (opened_file (case disk of None \<Rightarrow> [] | Some data \<Rightarrow> data) env)"

definition attemptOpenForRead :: "crypto \<Rightarrow> bytes \<Rightarrow> file_env \<Rightarrow> (File_Result \<times> File) option" where
  "attemptOpenForRead c key env =
     (case fe_file env of
       None \<Rightarrow> Some (Failed, closed_file (fe_file env) env)
     | Some data \<Rightarrow> File_readHeader c key (opened_file data env))"

definition header_written :: "bool \<times> File \<Rightarrow> File_Result \<times> File" where
  "header_written r = (if fst r then Success else Failed, snd r)"

definition attemptOpenForReadAppend :: "crypto \<Rightarrow> bytes \<Rightarrow> file_env \<Rightarrow> (File_Result \<times> File) option" where
  "attemptOpenForReadAppend c key env =
     (let (locked, disk) = FileLock_lock (fe_lock env) ReadAppend (fe_file env)
      in if \<not> locked then Some (LockFailed, closed_file disk env)
         else if the disk = []
         then map_option header_written (File_writeHeader c key (fe_salt env) (opened_file [] env))
         else File_readHeader c key (opened_file (the disk) env))"

definition attemptOpenForWrite :: "crypto \<Rightarrow> bytes \<Rightarrow> file_env \<Rightarrow> (File_Result \<times> File) option" where
  "attemptOpenForWrite c key env =
     (let (locked, disk) = FileLock_lock (fe_lock env) Write (fe_file env)
      in if \<not> locked then Some (LockFailed, closed_file disk env)
         else map_option header_written (File_writeHeader c key (fe_salt env) (opened_file (the disk) env)))"

definition File_attemptOpen :: "crypto \<Rightarrow> File_Mode \<Rightarrow> bytes \<Rightarrow> file_env \<Rightarrow> (File_Result \<times> File) option" where
  "File_attemptOpen c mode key env =
     (case mode of
       Read \<Rightarrow> attemptOpenForRead c key env
     | ReadAppend \<Rightarrow> attemptOpenForReadAppend c key env
     | Write \<Rightarrow> attemptOpenForWrite c key env)"

definition File_open :: "crypto \<Rightarrow> File_Mode \<Rightarrow> bytes \<Rightarrow> file_env \<Rightarrow> (File_Result \<times> File) option" where
  "File_open c mode key env =
     (if mode \<noteq> Read \<and> \<not> fe_folder env then Some (Failed, closed_file (fe_file env) env)
      else map_option (\<lambda>(result, f). (result, if result \<noteq> Success then File_close f else f))
        (File_attemptOpen c mode key env))"

text \<open>Moving a file over another: what is on disk before and after.\<close>

definition File_Move :: "lock_result \<Rightarrow> bool \<Rightarrow> bool \<Rightarrow> bytes option \<times> bytes option \<Rightarrow> bool \<times> bytes option \<times> bytes option" where
  "File_Move lock removed renamed files =
     (let source = fst files; destination = snd files
      in if source = None then (False, files)
         else
           let (locked, emptied) = (if destination = None then (True, None) else FileLock_lock lock Write destination)
           in if \<not> locked then (False, source, emptied)
              else if destination \<noteq> None \<and> \<not> removed then (False, source, emptied)
              else if renamed then (True, None, source)
              else (False, source, None))"

section \<open>What the file holds\<close>

text \<open>The key stream of counter mode for a block cipher, and data encrypted from an offset.\<close>

definition key_stream :: "(bytes \<Rightarrow> bytes \<Rightarrow> bytes) \<Rightarrow> CtrState \<Rightarrow> nat \<Rightarrow> 8 word" where
  "key_stream block st i = block (ctr_key st) (counter (ctr_iv st) (i div 16)) ! (i mod 16)"

definition cipher_at :: "(bytes \<Rightarrow> bytes \<Rightarrow> bytes) \<Rightarrow> CtrState \<Rightarrow> nat \<Rightarrow> bytes \<Rightarrow> bytes" where
  "cipher_at block st k bs = map (\<lambda>(i, b). xor b (key_stream block st i)) (enumerate k bs)"

text \<open>The documentation of \<^verbatim>\<open>CRYPTO_ctr128_encrypt\<close> and of the hash.\<close>

definition ctr_mode :: "(bytes \<Rightarrow> bytes \<Rightarrow> bytes) \<Rightarrow> crypto \<Rightarrow> bool" where
  "ctr_mode block c \<longleftrightarrow>
     (\<forall>key iv data. ctr128 c key iv data =
        map (\<lambda>(i, b). xor b (block key (counter iv (i div 16)) ! (i mod 16))) (enumerate 0 data))
     \<and> (\<forall>bs. length (sha256 c bs) = kSha256Size)"

lemma cipher_at_append [simp]:
  "cipher_at block st k (xs @ ys) = cipher_at block st k xs @ cipher_at block st (k + length xs) ys"
  by (simp add: cipher_at_def enumerate_append_eq)

lemma length_cipher_at [simp]: "length (cipher_at block st k bs) = length bs"
  by (simp add: cipher_at_def)

lemma nth_cipher_at: "i < length bs \<Longrightarrow> cipher_at block st k bs ! i = xor (bs ! i) (key_stream block st (k + i))"
  by (simp add: cipher_at_def nth_enumerate_eq)

lemma cipher_at_twice [simp]: "cipher_at block st k (cipher_at block st k bs) = bs"
  by (rule nth_equalityI) (simp_all add: nth_cipher_at xor.assoc)

lemma take_cipher_at: "take n (cipher_at block st k bs) = cipher_at block st k (take n bs)"
  by (rule nth_equalityI) (simp_all add: nth_cipher_at)

lemma drop_cipher_at: "drop n (cipher_at block st k bs) = cipher_at block st (k + n) (drop n bs)"
  by (rule nth_equalityI) (simp_all add: nth_cipher_at add.assoc)

lemma overwrite_cipher_at:
  "overwrite p (cipher_at block st (k + p) bs) (cipher_at block st k data) = cipher_at block st k (overwrite p bs data)"
  if "p \<le> length data"
  using that by (simp add: overwrite_def take_cipher_at drop_cipher_at min_absorb2 add.assoc)

lemma process_cipher:
  assumes c: "ctr_mode block c" and iv: "length (ctr_iv st) = kIvSize" and o: "k mod 16 = 0" "k < 2 ^ 62"
    and l: "length data mod 16 = 0"
  shows "CtrState_process c st data (int k) = Some (cipher_at block st k data)"
proof -
  have inc: "incrementedIv st (int k div 16) = Some (counter (ctr_iv st) (k div 16))"
    using incrementedIv_counter [OF iv, of "int k div 16"] o(2) by (simp add: nat_div_distrib)
  have "ctr128 c (ctr_key st) (counter (ctr_iv st) (k div 16)) data = cipher_at block st k data"
  proof (rule nth_equalityI)
    fix i assume "i < length (ctr128 c (ctr_key st) (counter (ctr_iv st) (k div 16)) data)"
    then have i: "i < length data" using c by (simp add: ctr_mode_def)
    obtain q where q: "k = 16 * q" using o(1) by (metis mod_0_imp_dvd dvd_def)
    have "(k + i) div 16 = k div 16 + i div 16" "(k + i) mod 16 = i mod 16" by (simp_all add: q)
    then show "ctr128 c (ctr_key st) (counter (ctr_iv st) (k div 16)) data ! i = cipher_at block st k data ! i"
      using c i by (simp add: ctr_mode_def nth_cipher_at nth_enumerate_eq key_stream_def counter_counter)
  qed (use c in \<open>simp add: ctr_mode_def\<close>)
  moreover have "int k mod 16 = 0" using o(1) zmod_int [of k 16] by simp
  ultimately show ?thesis using inc l by (simp add: CtrState_process_def kBlockSize_def)
qed

text \<open>
  The first 116 bytes of a file that was written with a key: the cipher state is that of its salt
  and the checksum is right.
\<close>

definition header_tail :: "crypto \<Rightarrow> bytes \<Rightarrow> bytes \<Rightarrow> bytes" where
  "header_tail c key salt = header_fields @ sha256 c (key @ salt @ header_fields)"

definition good_header :: "(bytes \<Rightarrow> bytes \<Rightarrow> bytes) \<Rightarrow> crypto \<Rightarrow> bytes \<Rightarrow> bytes \<Rightarrow> CtrState \<Rightarrow> bool" where
  "good_header block c key start st \<longleftrightarrow>
     (\<exists>magic salt. length magic = kSkipBytes \<and> length salt = kSaltSize \<and> prepareCtrState c key salt = Some st
       \<and> start = magic @ salt @ cipher_at block st 0 (header_tail c key salt))"

text \<open>A disk holds the bytes \<open>D\<close>: they follow the header, encrypted.\<close>

definition disk_holds :: "(bytes \<Rightarrow> bytes \<Rightarrow> bytes) \<Rightarrow> crypto \<Rightarrow> bytes \<Rightarrow> bytes \<Rightarrow> bytes \<Rightarrow> bool" where
  "disk_holds block c key data D \<longleftrightarrow>
     (\<exists>start st. good_header block c key start st \<and> data = start @ cipher_at block st 48 D)"

text \<open>
  An open file at offset \<open>off\<close>, with the size \<open>sz\<close>; bytes after the size are those of a write that
  failed or was cut.
\<close>

definition file_rep :: "(bytes \<Rightarrow> bytes \<Rightarrow> bytes) \<Rightarrow> crypto \<Rightarrow> bytes \<Rightarrow> File \<Rightarrow> bytes \<Rightarrow> nat \<Rightarrow> nat \<Rightarrow> bool" where
  "file_rep block c key f D off sz \<longleftrightarrow>
     (\<exists>start st. good_header block c key start st \<and> f_data f = start @ cipher_at block st 48 D \<and> f_state f = Some st)
     \<and> f_isOpen f \<and> f_pos f = 116 + off \<and> f_encryptionOffset f = 48 + int off \<and> f_dataSize f = int sz
     \<and> off mod 16 = 0 \<and> off \<le> length D \<and> sz mod 16 = 0 \<and> sz \<le> length D \<and> length D < 2 ^ 61"

definition whole_blocks :: "bytes \<Rightarrow> bytes" where
  "whole_blocks bs = take (length bs - length bs mod 16) bs"

lemma prepareCtrState_iv: "prepareCtrState c key salt = Some st \<Longrightarrow> length (ctr_iv st) = kIvSize"
  by (auto simp: prepareCtrState_def CtrState_new_def split: if_split_asm)

lemma good_header_start:
  assumes "good_header block c key start st" and "ctr_mode block c"
  shows "length start = 116" and "length (ctr_iv st) = kIvSize"
  using assms by (auto simp: good_header_def header_tail_def header_fields_def kSkipBytes_def kSaltSize_def
    ctr_mode_def kSha256Size_def dest: prepareCtrState_iv)

lemma file_rep_disk: "file_rep block c key f D off sz \<Longrightarrow> disk_holds block c key (f_data f) D"
  by (auto simp: file_rep_def disk_holds_def)

lemma file_rep_simps:
  assumes "file_rep block c key f D off sz"
  shows "f_isOpen f" and "File_offset f = int off" and "File_size f = int sz" and "off mod 16 = 0" and "sz mod 16 = 0"
    and "off \<le> length D" and "sz \<le> length D"
  using assms by (auto simp: file_rep_def File_offset_def File_size_def header_size_def kSaltSize_def kSha256Size_def Let_def)

lemma length_whole_blocks: "length (whole_blocks bs) = length bs - length bs mod 16"
  by (simp add: whole_blocks_def)

lemma whole_blocks_mod [simp]: "length (whole_blocks bs) mod 16 = 0"
  by (simp add: length_whole_blocks minus_mod_eq_mult_div)

lemma length_whole_blocks_le: "length (whole_blocks bs) \<le> length bs"
  by (simp add: length_whole_blocks)

lemma whole_blocks_id: "length bs mod 16 = 0 \<Longrightarrow> whole_blocks bs = bs"
  by (simp add: whole_blocks_def)

lemma process_offset:
  assumes "ctr_mode block c" and "length (ctr_iv st) = kIvSize" and "off mod 16 = 0" and "off < 2 ^ 61"
    and "length data mod 16 = 0"
  shows "CtrState_process c st data (48 + int off) = Some (cipher_at block st (48 + off) data)"
proof -
  have "(48 + off) mod 16 = 0" using assms(3) by (simp add: mod_add_eq [symmetric])
  then show ?thesis using process_cipher [OF assms(1,2), of "48 + off" data] assms(4,5) by simp
qed

lemma File_read_blocks:
  assumes "n mod 16 = 0" and "f_isOpen f" and "readPlain n f = (got, f1)"
  shows "File_read c n f =
    (let f2 = f1\<lparr>f_pos := f_pos f1 - length got mod 16\<rparr>
     in if whole_blocks got = [] then Some ([], f2) else File_decrypt c (whole_blocks got) f2)"
  unfolding File_read_def assms(3) prod.case Let_def whole_blocks_def kBlockSize_def using assms(1,2) by simp

lemma whole_blocks_cipher: "whole_blocks (cipher_at block st k bs) = cipher_at block st k (whole_blocks bs)"
  by (simp add: whole_blocks_def take_cipher_at)

lemma cipher_at_Nil [simp]: "cipher_at block st k bs = [] \<longleftrightarrow> bs = []"
  by (metis length_0_conv length_cipher_at)

lemma add_mod_16: "a mod 16 = 0 \<Longrightarrow> b mod 16 = 0 \<Longrightarrow> (a + b) mod 16 = (0::nat)"
  by (simp add: mod_0_imp_dvd dvd_add)

lemma File_read_rep:
  assumes c: "ctr_mode block c" and r: "file_rep block c key f D off sz" and n: "n mod 16 = 0"
  shows "\<exists>f'. File_read c n f = Some (whole_blocks (take n (drop off D)), f')
    \<and> file_rep block c key f' D (off + length (whole_blocks (take n (drop off D)))) sz
    \<and> f_data f' = f_data f \<and> f_results f' = f_results f"
proof -
  define G where "G = take n (drop off D)"
  obtain start st where h: "good_header block c key start st" "f_data f = start @ cipher_at block st 48 D"
    "f_state f = Some st" using r by (auto simp: file_rep_def)
  note l = good_header_start [OF h(1) c]
  have off: "off mod 16 = 0" "off \<le> length D" "length D < 2 ^ 61" "f_pos f = 116 + off" "f_isOpen f"
    "f_encryptionOffset f = 48 + int off" "f_dataSize f = int sz" "sz mod 16 = 0" "sz \<le> length D"
    using r by (simp_all add: file_rep_def)
  have got: "readPlain n f = (cipher_at block st (48 + off) G, f\<lparr>f_pos := 116 + off + length G\<rparr>)"
    by (simp add: readPlain_def Let_def h(2) off(4) l(1) take_cipher_at drop_cipher_at G_def)
  have dec: "CtrState_process c st (cipher_at block st (48 + off) (whole_blocks G)) (48 + int off) = Some (whole_blocks G)"
    using process_offset [OF c l(2) off(1), of "cipher_at block st (48 + off) (whole_blocks G)"] off(2,3) by simp
  have len: "length G - length G mod 16 = length (whole_blocks G)" "off + length (whole_blocks G) \<le> length D"
    using length_whole_blocks_le [of G] off(2) by (simp_all add: length_whole_blocks G_def)
  have pos: "116 + off + length G - length G mod 16 = 116 + off + length (whole_blocks G)"
    using len(1) by (metis Nat.add_diff_assoc mod_less_eq_dividend)
  let ?f = "f\<lparr>f_pos := 116 + off + length (whole_blocks G)\<rparr>"
  have step: "File_read c n f = (if whole_blocks G = [] then Some ([], ?f)
      else File_decrypt c (cipher_at block st (48 + off) (whole_blocks G)) ?f)"
    unfolding File_read_blocks [OF n off(5) got] by (simp add: Let_def whole_blocks_cipher pos)
  have "\<exists>f'. File_read c n f = Some (whole_blocks G, f')
    \<and> file_rep block c key f' D (off + length (whole_blocks G)) sz \<and> f_data f' = f_data f \<and> f_results f' = f_results f"
  proof (cases "whole_blocks G = []")
    case True
    then show ?thesis using r step by (intro exI [of _ ?f]) (simp add: file_rep_def)
  next
    case False
    let ?f' = "?f\<lparr>f_encryptionOffset := 48 + int off + int (length (whole_blocks G))\<rparr>"
    have "File_read c n f = Some (whole_blocks G, ?f')"
      using step False h(3) dec off(6) by (simp add: File_decrypt_def CtrState_decrypt_def)
    moreover have "file_rep block c key ?f' D (off + length (whole_blocks G)) sz"
      unfolding file_rep_def using h off len(2) add_mod_16 [OF off(1) whole_blocks_mod] by auto
    ultimately show ?thesis by auto
  qed
  then show ?thesis by (simp only: G_def)
qed

text \<open>A write that is cut leaves what it wrote on disk and is as if it had not been called otherwise.\<close>

lemma File_write_rep:
  assumes c: "ctr_mode block c" and r: "file_rep block c key f D off sz" and n: "length bs mod 16 = 0"
    and small: "off + length bs < 2 ^ 61"
  defines "count \<equiv> write_result f bs"
  shows "\<exists>f'. File_write c bs f = Some (count = int (length bs), f')
    \<and> (if count = int (length bs) then file_rep block c key f' (overwrite off bs D) (off + length bs) (max sz (off + length bs))
       else file_rep block c key f' (overwrite off (take (nat count) bs) D) off sz)
    \<and> f_results f' = tl (f_results f)"
proof -
  obtain start st where h: "good_header block c key start st" "f_data f = start @ cipher_at block st 48 D"
    "f_state f = Some st" using r by (auto simp: file_rep_def)
  note l = good_header_start [OF h(1) c]
  have off: "off mod 16 = 0" "off \<le> length D" "length D < 2 ^ 61" "f_pos f = 116 + off" "f_isOpen f"
    "f_encryptionOffset f = 48 + int off" "f_dataSize f = int sz" "sz mod 16 = 0" "sz \<le> length D"
    using r by (simp_all add: file_rep_def)
  let ?out = "cipher_at block st (48 + off) bs"
  have o61: "off < 2 ^ 61" using small by simp
  have enc: "CtrState_process c st bs (48 + int off) = Some ?out"
    by (rule process_offset [OF c l(2) off(1) o61 n])
  have dec: "CtrState_process c st ?out (48 + int off) = Some bs"
    using process_offset [OF c l(2) off(1) o61, of ?out] n by simp
  let ?f1 = "f\<lparr>f_encryptionOffset := 48 + int off + int (length bs)\<rparr>"
  let ?D = "overwrite off (take (nat count) bs) D"
  have disk: "overwrite (116 + off) (take (nat count) ?out) (f_data f) = start @ cipher_at block st 48 ?D"
  proof -
    have "overwrite off (cipher_at block st (48 + off) (take (nat count) bs)) (cipher_at block st 48 D) = cipher_at block st 48 ?D"
      by (rule overwrite_cipher_at [OF off(2)])
    then show ?thesis by (simp add: overwrite_def h(2) l(1) take_cipher_at)
  qed
  let ?f2 = "?f1\<lparr>f_data := start @ cipher_at block st 48 ?D, f_pos := 116 + off + nat count, f_results := tl (f_results f)\<rparr>"
  have w: "writePlain ?out ?f1 = (count, ?f2)"
  proof -
    have "write_result ?f1 ?out = count" by (simp add: write_result_def count_def)
    then show ?thesis by (simp add: writePlain_def Let_def off(4) disk)
  qed
  have e: "File_encrypt c bs f = Some (?out, ?f1)"
    by (simp add: File_encrypt_def h(3) CtrState_encrypt_def off(6) enc)
  have lD: "off \<le> length ?D" "length D \<le> length ?D" "length ?D < 2 ^ 61"
    using off(2,3) small by (auto simp: overwrite_def)
  show ?thesis
  proof (cases "count = int (length bs)")
    case True
    let ?f' = "?f2\<lparr>f_dataSize := max (int sz) (int off + int (length bs))\<rparr>"
    have "File_write c bs f = Some (True, ?f')"
      using n True off(5,7)
      by (simp add: File_write_def kBlockSize_def e w File_offset_def header_size_def kSaltSize_def kSha256Size_def Let_def)
    moreover have "file_rep block c key ?f' (overwrite off bs D) (off + length bs) (max sz (off + length bs))"
      unfolding file_rep_def using True h off lD add_mod_16 [OF off(1) n]
      by (auto simp: max_def overwrite_def)
    ultimately show ?thesis using True by auto
  next
    case False
    have rolled: "File_decryptBack c ?out ?f2 = Some (bs, ?f2\<lparr>f_encryptionOffset := 48 + int off\<rparr>)"
      using h(3) dec by (simp add: File_decryptBack_def File_decrypt_def CtrState_decrypt_def)
    let ?f' = "?f2\<lparr>f_encryptionOffset := 48 + int off, f_pos := 116 + off\<rparr>"
    have "File_write c bs f = Some (False, ?f')"
      using n False off(5) by (simp add: File_write_def kBlockSize_def e w rolled Let_def)
    moreover have "file_rep block c key ?f' ?D off sz"
      unfolding file_rep_def using h off lD by auto
    ultimately show ?thesis using False by auto
  qed
qed

lemma File_seek_rep:
  assumes r: "file_rep block c key f D off sz" and k: "k mod 16 = 0" "k \<le> sz"
  shows "\<exists>f'. File_seek (int k) f = (True, f') \<and> file_rep block c key f' D k sz \<and> f_data f' = f_data f
    \<and> f_results f' = f_results f"
proof -
  let ?f' = "f\<lparr>f_pos := kSkipBytes + nat (int header_size + int k), f_encryptionOffset := int header_size + int k - int kSaltSize\<rparr>"
  have "File_seek (int k) f = (True, ?f')" using r k by (simp add: File_seek_def file_rep_def Let_def)
  moreover have "file_rep block c key ?f' D k sz"
    using r k by (auto simp: file_rep_def kSkipBytes_def header_size_def kSaltSize_def kSha256Size_def nat_add_distrib)
  ultimately show ?thesis by auto
qed

lemma overwrite_append:
  assumes "off \<le> length D"
  shows "overwrite off (as @ bs) D = overwrite (off + length as) bs (overwrite off as D)"
  using assms by (simp add: overwrite_def add.commute add.left_commute)

lemma overwrite_length: "off \<le> length D \<Longrightarrow> length (overwrite off bs D) = max (length D) (off + length bs)"
  by (simp add: overwrite_def)

text \<open>The data with its padding.\<close>

definition padded_data :: "bytes \<Rightarrow> bytes \<Rightarrow> bytes" where
  "padded_data random bs = bs @ (if length bs mod 16 = 0 then [] else take (16 - length bs mod 16) random)"

lemma padded_data_mod: "16 \<le> length random \<Longrightarrow> length (padded_data random bs) mod 16 = 0"
proof -
  assume "16 \<le> length random"
  moreover have "(n + (16 - n mod 16)) mod 16 = 0" for n :: nat
  proof -
    have "n + (16 - n mod 16) = 16 * (n div 16) + 16"
      using mult_div_mod_eq [of 16 n] mod_less_divisor [of 16 n] by linarith
    then show ?thesis by simp
  qed
  ultimately show ?thesis by (simp add: padded_data_def min_def)
qed

lemma File_writeWithPadding_rep:
  assumes c: "ctr_mode block c" and r: "file_rep block c key f D off sz" and e: "f_results f = []"
    and random: "16 \<le> length random" and small: "off + length bs + 16 < 2 ^ 61" and le: "off \<le> sz"
  shows "\<exists>f'. File_writeWithPadding c random bs f = Some (True, f')
    \<and> file_rep block c key f' (overwrite off (padded_data random bs) D) (off + length (padded_data random bs))
        (max sz (off + length (padded_data random bs)))
    \<and> f_results f' = []"
proof -
  define part where "part = length bs mod 16"
  define good where "good = length bs - part"
  have pdd: "padded_data random bs = bs @ (if part = 0 then [] else take (16 - part) random)"
    by (simp only: padded_data_def part_def)
  define rest where "rest = drop good bs @ take (16 - part) random"
  have gm: "good mod 16 = 0" by (simp add: good_def part_def minus_mod_eq_mult_div)
  have lg: "length (take good bs) = good" "good \<le> length bs" by (simp_all add: good_def)
  have part: "part < 16" "length bs = good + part" by (simp_all add: part_def good_def)
  have first: "\<exists>f1. (if good \<noteq> 0 then File_write c (take good bs) f else Some (True, f)) = Some (True, f1)
      \<and> file_rep block c key f1 (overwrite off (take good bs) D) (off + good) (max sz (off + good)) \<and> f_results f1 = []"
  proof (cases "good = 0")
    case True
    have "max sz off = sz" using le by simp
    moreover have "overwrite off [] D = D" by (simp add: overwrite_def)
    ultimately show ?thesis using True r e by simp
  next
    case False
    have small1: "off + length (take good bs) < 2 ^ 61" using small lg by linarith
    have m: "length (take good bs) mod 16 = 0" using gm lg by simp
    obtain f1 where "File_write c (take good bs) f = Some (True, f1)"
      "file_rep block c key f1 (overwrite off (take good bs) D) (off + good) (max sz (off + good))" "f_results f1 = []"
      using File_write_rep [OF c r m small1] e lg by (auto simp: write_result_def)
    then show ?thesis using False by simp
  qed
  then obtain f1 where f1: "(if good \<noteq> 0 then File_write c (take good bs) f else Some (True, f)) = Some (True, f1)"
    "file_rep block c key f1 (overwrite off (take good bs) D) (off + good) (max sz (off + good))" "f_results f1 = []"
    by blast
  have unfolded: "File_writeWithPadding c random bs f =
      (if part = 0 then Some (True, f1)
       else Option.bind (File_write c rest f1) (\<lambda>(written, f2).
         if written then Some (True, f2)
         else if good \<noteq> 0
         then map_option (\<lambda>(_, f3). (False, f3\<lparr>f_pos := f_pos f3 - good\<rparr>)) (File_decryptBack c (take good bs) f2)
         else Some (False, f2)))"
    unfolding File_writeWithPadding_def kBlockSize_def part_def [symmetric] Let_def good_def [symmetric] f1(1)
      rest_def [symmetric] by simp
  show ?thesis
  proof (cases "part = 0")
    case True
    then have "padded_data random bs = take good bs" using part pdd by simp
    then show ?thesis using True f1 lg unfolded by simp
  next
    case False
    have pd: "padded_data random bs = take good bs @ rest"
      using False pdd by (simp add: rest_def)
    have rl: "length rest = 16" using part random lg by (simp add: rest_def)
    have rm: "length rest mod 16 = 0" by (simp add: rl)
    have small2: "off + good + length rest < 2 ^ 61" using small lg rl by linarith
    obtain f2 where f2: "File_write c rest f1 = Some (True, f2)" "f_results f2 = []"
      "file_rep block c key f2 (overwrite (off + good) rest (overwrite off (take good bs) D))
        (off + good + length rest) (max (max sz (off + good)) (off + good + length rest))"
      using File_write_rep [OF c f1(2) rm small2] f1(3) by (auto simp: write_result_def)
    have D: "overwrite (off + good) rest (overwrite off (take good bs) D) = overwrite off (padded_data random bs) D"
      using overwrite_append [OF file_rep_simps(6) [OF r], of "take good bs" rest] lg pd by simp
    have lp: "off + good + length rest = off + length (padded_data random bs)" using pd lg by simp
    have mx: "max (max sz (off + good)) (off + length (padded_data random bs)) = max sz (off + length (padded_data random bs))"
      using lp by linarith
    show ?thesis using f2 False unfolded unfolding D lp mx by simp
  qed
qed

text \<open>Reading back: what is there must reach to the end of the last block.\<close>

lemma File_readWithPadding_rep:
  assumes c: "ctr_mode block c" and r: "file_rep block c key f D off sz"
    and there: "off + length (padded_data random bs) \<le> length D" and random: "16 \<le> length random"
    and bs: "take (length bs) (drop off D) = bs"
  shows "\<exists>f'. File_readWithPadding c (length bs) f = Some (bs, f')"
proof -
  define part where "part = length bs mod 16"
  define good where "good = length bs - part"
  have gm: "good mod 16 = 0" by (simp add: good_def part_def minus_mod_eq_mult_div)
  have lg: "length (take good bs) = good" "good \<le> length bs" by (simp_all add: good_def)
  have part: "part < 16" "length bs = good + part" by (simp_all add: part_def good_def)
  have pdd: "padded_data random bs = bs @ (if part = 0 then [] else take (16 - part) random)"
    by (simp only: padded_data_def part_def)
  have pl: "length (padded_data random bs) = (if part = 0 then length bs else good + 16)"
    using random part unfolding pdd by simp
  have D: "off + length bs \<le> length D" using there pl part by (auto split: if_splits)
  have tg: "take good (drop off D) = take good bs" using bs lg(2) by (metis min.absorb1 take_take)
  have wg: "whole_blocks (take good (drop off D)) = take good bs"
    using gm lg tg by (simp add: whole_blocks_id)
  have first: "\<exists>f1. (if good \<noteq> 0 then File_read c good f else Some ([], f)) = Some (take good bs, f1)
      \<and> file_rep block c key f1 D (off + good) sz"
  proof (cases "good = 0")
    case False
    then show ?thesis using File_read_rep [OF c r gm] wg lg by auto
  qed (use r in simp)
  then obtain f1 where f1: "(if good \<noteq> 0 then File_read c good f else Some ([], f)) = Some (take good bs, f1)"
    "file_rep block c key f1 D (off + good) sz" by blast
  have unfolded: "File_readWithPadding c (length bs) f =
      (if part = 0 then Some (take good bs, f1)
       else Option.bind (File_read c 16 f1) (\<lambda>(padded, f2).
         if padded = [] then Some (take good bs, f2)
         else if length padded \<noteq> 16 then None
         else Some (take good bs @ take part padded, f2)))"
    unfolding File_readWithPadding_def kBlockSize_def part_def [symmetric] Let_def good_def [symmetric] f1(1)
    using lg by simp
  show ?thesis
  proof (cases "part = 0")
    case True
    then show ?thesis using unfolded part by simp
  next
    case False
    define B where "B = take 16 (drop (off + good) D)"
    have lB: "length B = 16" using there pl False by (simp add: B_def)
    have wB: "whole_blocks B = B" using lB by (simp add: whole_blocks_id)
    have "(16::nat) mod 16 = 0" by simp
    then obtain f2 where f2: "File_read c 16 f1 = Some (B, f2)"
      using File_read_rep [OF c f1(2), of 16] wB by (auto simp: B_def)
    have "take part B = take part (drop good (drop off D))" using part(1) by (simp add: B_def add.commute)
    also have "\<dots> = drop good (take (length bs) (drop off D))" using part(2) by (simp add: drop_take)
    finally have tB: "take good bs @ take part B = bs" using bs by simp
    have "B \<noteq> []" using lB by auto
    then have "File_readWithPadding c (length bs) f = Some (bs, f2)"
      using unfolded f2 False lB tB by simp
    then show ?thesis by blast
  qed
qed

end
