(* ===== verification/StorageFileRoundtrip.thy ===== *)
theory StorageFileRoundtrip
  imports StorageFile
begin

text \<open>
  The encrypted file against a plain one: opening, then the properties that the operations act on
  the bytes it holds as those of a file without encryption, and that what was written is read back.
\<close>

section \<open>Opening\<close>

lemma prepareCtrState_some:
  assumes "ctr_mode block c" and "length salt = kSaltSize"
  shows "\<exists>st. prepareCtrState c key salt = Some st"
  using assms by (simp add: prepareCtrState_def CtrState_new_def ctr_mode_def kSha256Size_def kKeySize_def
      kIvSize_def kBlockSize_def)

text \<open>The fields that a new file has, whatever was there before.\<close>

lemma File_writeHeader_rep:
  assumes c: "ctr_mode block c" and salt: "length salt = kSaltSize"
    and f: "f = opened_file [] env" and e: "fe_results env = []"
  shows "\<exists>f'. File_writeHeader c key salt f = Some (True, f') \<and> file_rep block c key f' [] 0 0 \<and> f_results f' = []"
proof -
  obtain st where st: "prepareCtrState c key salt = Some st" using prepareCtrState_some [OF c salt] by blast
  note iv = prepareCtrState_iv [OF st]
  let ?magic = "[84, 68, 69, 70] :: bytes"
  let ?tail = "header_tail c key salt"
  have t: "length ?tail = 48"
    using c by (simp add: header_tail_def header_fields_def ctr_mode_def kSha256Size_def)
  let ?f3 = "f\<lparr>f_data := ?magic @ salt, f_pos := 68, f_state := Some st\<rparr>"
  have w: "File_write c ?tail ?f3 = Some (True, ?f3\<lparr>f_data := ?magic @ salt @ cipher_at block st 0 ?tail, f_pos := 116,
      f_encryptionOffset := 48, f_results := [], f_dataSize := 0\<rparr>)"
  proof -
    have "CtrState_process c st ?tail 0 = Some (cipher_at block st 0 ?tail)"
      using process_cipher [OF c iv, of 0 ?tail] t by simp
    then show ?thesis
      using t salt e f
      by (simp add: File_write_def File_encrypt_def CtrState_encrypt_def writePlain_def write_result_def overwrite_def
          opened_file_def kBlockSize_def kSaltSize_def File_offset_def header_size_def kSha256Size_def Let_def)
  qed
  have "File_writeHeader c key salt f = Some (True, ?f3\<lparr>f_data := ?magic @ salt @ cipher_at block st 0 ?tail, f_pos := 116,
      f_encryptionOffset := 48, f_results := [], f_dataSize := 0\<rparr>)"
    using w st salt e f
    by (simp add: File_writeHeader_def writePlain_def write_result_def overwrite_def opened_file_def Let_def
        kSaltSize_def header_tail_def)
  moreover have "good_header block c key (?magic @ salt @ cipher_at block st 0 ?tail) st"
    unfolding good_header_def using salt st by (intro exI [of _ ?magic] exI [of _ salt]) (simp add: kSkipBytes_def)
  ultimately show ?thesis by (auto simp: file_rep_def f opened_file_def)
qed

lemma File_open_Write:
  assumes c: "ctr_mode block c" and env: "fe_folder env" "fe_lock env = Locked" "length (fe_salt env) = kSaltSize"
    "fe_results env = []"
  shows "\<exists>f. File_open c Write key env = Some (Success, f) \<and> file_rep block c key f [] 0 0 \<and> f_results f = []"
proof -
  obtain f where "File_writeHeader c key (fe_salt env) (opened_file [] env) = Some (True, f)"
    "file_rep block c key f [] 0 0" "f_results f = []"
    using File_writeHeader_rep [OF c env(3) refl env(4)] by blast
  then show ?thesis using env
    by (simp add: File_open_def File_attemptOpen_def attemptOpenForWrite_def FileLock_lock_def header_written_def)
qed

lemma File_readHeader_rep:
  assumes c: "ctr_mode block c" and d: "disk_holds block c key data D" and small: "length D < 2 ^ 61"
  shows "\<exists>f. File_readHeader c key (opened_file data env) = Some (Success, f)
    \<and> file_rep block c key f D 0 (length D - length D mod 16) \<and> f_results f = fe_results env \<and> f_data f = data"
proof -
  obtain magic salt st where h: "length magic = kSkipBytes" "length salt = kSaltSize"
    "prepareCtrState c key salt = Some st"
    "data = magic @ salt @ cipher_at block st 0 (header_tail c key salt) @ cipher_at block st 48 D"
    using d by (auto simp: disk_holds_def good_header_def)
  note iv = prepareCtrState_iv [OF h(3)]
  let ?tail = "header_tail c key salt"
  let ?head = "salt @ cipher_at block st 0 ?tail"
  have t: "length ?tail = 48" "take 16 ?tail = header_fields" "drop 16 ?tail = sha256 c (key @ salt @ header_fields)" "?tail ! 0 = 0"
    using c by (simp_all add: header_tail_def header_fields_def ctr_mode_def kSha256Size_def nth_append)
  have dec: "CtrState_process c st (cipher_at block st 0 ?tail) 0 = Some ?tail"
    using process_cipher [OF c iv, of 0 "cipher_at block st 0 ?tail"] t by simp
  let ?f1 = "(opened_file data env)\<lparr>f_pos := 116\<rparr>"
  have head: "readPlain header_size ((opened_file data env)\<lparr>f_pos := kSkipBytes\<rparr>) = (?head, ?f1)"
    using h t by (simp add: readPlain_def opened_file_def header_size_def kSkipBytes_def kSaltSize_def kSha256Size_def Let_def)
  have lh: "length ?head = header_size" "take kSaltSize ?head = salt" "drop kSaltSize ?head = cipher_at block st 0 ?tail"
    using h t by (simp_all add: header_size_def kSaltSize_def kSha256Size_def)
  have size_data: "length data = 116 + length D" using h t by (simp add: kSkipBytes_def kSaltSize_def)
  have dd: "File_decrypt c (cipher_at block st 0 ?tail) (?f1\<lparr>f_state := Some st\<rparr>) =
      Some (?tail, ?f1\<lparr>f_state := Some st, f_encryptionOffset := 48\<rparr>)"
    using dec t by (simp add: File_decrypt_def CtrState_decrypt_def opened_file_def)
  let ?f = "?f1\<lparr>f_state := Some st, f_encryptionOffset := 48, f_dataSize := int (length D) - int (length D) mod 16\<rparr>"
  have "File_readHeader c key (opened_file data env) = Some (Success, ?f)"
  proof -
    have "f_state (opened_file data env) = None" "f_pos (opened_file data env) = 0" by (simp_all add: opened_file_def)
    then show ?thesis
      unfolding File_readHeader_def head prod.case Let_def lh(2,3) h(3) Option.bind.simps dd t(2,3)
      using lh(1) t(4) size_data
      by (simp add: opened_file_def header_size_def kSaltSize_def kSha256Size_def kSkipBytes_def kBlockSize_def)
  qed
  moreover have "file_rep block c key ?f D 0 (length D - length D mod 16)"
  proof -
    have "good_header block c key (magic @ ?head) st" using h by (auto simp: good_header_def)
    moreover have "int (length D) - int (length D) mod 16 = int (length D - length D mod 16)"
      by (simp add: of_nat_diff zmod_int)
    ultimately show ?thesis using h(4) small
      by (auto simp: file_rep_def opened_file_def minus_mod_eq_mult_div intro!: exI [of _ "magic @ ?head"])
  qed
  ultimately show ?thesis by (auto simp: opened_file_def)
qed

lemma File_open_Read:
  assumes c: "ctr_mode block c" and d: "disk_holds block c key data D" and small: "length D < 2 ^ 61"
    and env: "fe_file env = Some data"
  shows "\<exists>f. File_open c Read key env = Some (Success, f)
    \<and> file_rep block c key f D 0 (length D - length D mod 16) \<and> f_results f = fe_results env \<and> f_data f = data"
  using File_readHeader_rep [OF c d small, of env] env
  by (auto simp: File_open_def File_attemptOpen_def attemptOpenForRead_def)

lemma disk_holds_nonempty: "ctr_mode block c \<Longrightarrow> disk_holds block c key data D \<Longrightarrow> data \<noteq> []"
  using good_header_start(1) by (fastforce simp: disk_holds_def)

lemma File_open_ReadAppend:
  assumes c: "ctr_mode block c" and d: "disk_holds block c key data D" and small: "length D < 2 ^ 61"
    and env: "fe_file env = Some data" "fe_folder env" "fe_lock env = Locked"
  shows "\<exists>f. File_open c ReadAppend key env = Some (Success, f)
    \<and> file_rep block c key f D 0 (length D - length D mod 16) \<and> f_results f = fe_results env \<and> f_data f = data"
  using File_readHeader_rep [OF c d small, of env] env disk_holds_nonempty [OF c d]
  by (auto simp: File_open_def File_attemptOpen_def attemptOpenForReadAppend_def FileLock_lock_def)

section \<open>Properties\<close>

text \<open>
  The encrypted file is a plain file to its users: for every content and offset, reading gives the
  blocks that follow, writing replaces or appends bytes, also when the disk takes only a part of them,
  and then the offset and the size are those before; seeking goes where it is told.
\<close>

theorem encrypted_file_refines_bytes:
  assumes "ctr_mode block c" and "file_rep block c key f D off sz" and "n mod 16 = 0" and "length bs mod 16 = 0"
    and "off + length bs < 2 ^ 61" and "k mod 16 = 0" and "k \<le> sz"
  shows "(\<exists>f'. File_read c n f = Some (whole_blocks (take n (drop off D)), f')
      \<and> file_rep block c key f' D (off + length (whole_blocks (take n (drop off D)))) sz)
    \<and> (\<exists>f' ok. File_write c bs f = Some (ok, f') \<and> ok = (write_result f bs = int (length bs))
      \<and> (if ok then file_rep block c key f' (overwrite off bs D) (off + length bs) (max sz (off + length bs))
         else file_rep block c key f' (overwrite off (take (nat (write_result f bs)) bs) D) off sz))
    \<and> (\<exists>f'. File_seek (int k) f = (True, f') \<and> file_rep block c key f' D k sz)
    \<and> File_offset f = int off \<and> File_size f = int sz"
proof (intro conjI)
  show "\<exists>f'. File_read c n f = Some (whole_blocks (take n (drop off D)), f')
      \<and> file_rep block c key f' D (off + length (whole_blocks (take n (drop off D)))) sz"
    using File_read_rep [OF assms(1-3)] by blast
  show "\<exists>f' ok. File_write c bs f = Some (ok, f') \<and> ok = (write_result f bs = int (length bs))
      \<and> (if ok then file_rep block c key f' (overwrite off bs D) (off + length bs) (max sz (off + length bs))
         else file_rep block c key f' (overwrite off (take (nat (write_result f bs)) bs) D) off sz)"
    using File_write_rep [OF assms(1,2,4,5)] by blast
  show "\<exists>f'. File_seek (int k) f = (True, f') \<and> file_rep block c key f' D k sz"
    using File_seek_rep [OF assms(2,6,7)] by blast
qed (use file_rep_simps(2,3) [OF assms(2)] in simp_all)

text \<open>What a file that is opened for writing and given data leaves on disk.\<close>

lemma written_file:
  assumes c: "ctr_mode block c" and env: "fe_folder env" "fe_lock env = Locked" "length (fe_salt env) = kSaltSize"
    "fe_results env = []" and random: "16 \<le> length random" and small: "length bs < 2 ^ 60"
  shows "\<exists>f f'. File_open c Write key env = Some (Success, f) \<and> File_writeWithPadding c random bs f = Some (True, f')
    \<and> disk_holds block c key (f_data f') (padded_data random bs)"
proof -
  obtain f where f: "File_open c Write key env = Some (Success, f)" "file_rep block c key f [] 0 0" "f_results f = []"
    using File_open_Write [OF c env] by blast
  have "0 + length bs + 16 < 2 ^ 61" using small by simp
  then obtain f' where f': "File_writeWithPadding c random bs f = Some (True, f')"
    "file_rep block c key f' (overwrite 0 (padded_data random bs) []) (length (padded_data random bs))
      (max 0 (length (padded_data random bs)))"
    using File_writeWithPadding_rep [OF c f(2,3) random, of bs] by auto
  show ?thesis using f(1) f'(1) file_rep_disk [OF f'(2)] by (auto simp: overwrite_def)
qed

lemma padded_data_length: "length (padded_data random bs) \<le> length bs + 16"
  by (simp add: padded_data_def min.coboundedI2)

lemma read_file:
  assumes c: "ctr_mode block c" and d: "disk_holds block c key data (padded_data random bs)" and random: "16 \<le> length random"
    and small: "length bs < 2 ^ 60" and env: "fe_file env = Some data"
  shows "\<exists>f f'. File_open c Read key env = Some (Success, f) \<and> File_readWithPadding c (length bs) f = Some (bs, f')"
proof -
  have "length (padded_data random bs) < 2 ^ 61" using small padded_data_length [of random bs] by simp
  then obtain f where f: "File_open c Read key env = Some (Success, f)"
    "file_rep block c key f (padded_data random bs) 0
      (length (padded_data random bs) - length (padded_data random bs) mod 16)"
    using File_open_Read [OF c d _ env] by blast
  have "take (length bs) (drop 0 (padded_data random bs)) = bs" by (simp add: padded_data_def)
  then show ?thesis using f File_readWithPadding_rep [OF c f(2) _ random, of bs] by auto
qed

text \<open>
  C39: Data of any length that is written to a new file is read back as it was, whatever the salt and
  the padding, by everyone who has the key.
\<close>

theorem encrypted_file_roundtrip:
  assumes "ctr_mode block c" and "fe_folder env" and "fe_lock env = Locked" and "length (fe_salt env) = kSaltSize"
    and "fe_results env = []" and "16 \<le> length random" and "length bs < 2 ^ 60"
  shows "\<exists>f1 f2. File_open c Write key env = Some (Success, f1) \<and> File_writeWithPadding c random bs f1 = Some (True, f2)
    \<and> (\<forall>env'. fe_file env' = Some (f_data (File_close f2)) \<longrightarrow>
        (\<exists>f3 f4. File_open c Read key env' = Some (Success, f3) \<and> File_readWithPadding c (length bs) f3 = Some (bs, f4)))"
proof -
  obtain f1 f2 where f: "File_open c Write key env = Some (Success, f1)" "File_writeWithPadding c random bs f1 = Some (True, f2)"
    "disk_holds block c key (f_data f2) (padded_data random bs)"
    using written_file [OF assms] by blast
  then show ?thesis using read_file [OF assms(1) f(3) assms(6,7)] by (auto simp: File_close_def)
qed

text \<open>
  The counter of block \<open>n\<close> is the initial one plus \<open>n\<close>, as numbers of 128 bits, most significant
  byte first, with every carry and the wrap at the top; a negative block fails the assertion.
\<close>

theorem incremented_iv_adds:
  assumes "length (ctr_iv st) = kIvSize" and "n < 2 ^ 63"
  shows "case incrementedIv st n of
      None \<Rightarrow> n < 0
    | Some iv \<Rightarrow> 0 \<le> n \<and> length iv = 16 \<and> be_value iv = (be_value (ctr_iv st) + nat n) mod 2 ^ 128"
proof (cases "n < 0")
  case False
  then show ?thesis using incrementedIv_counter [OF assms(1), of n] assms(2) by (simp add: counter_def be_value_bytes)
qed (simp add: incrementedIv_def)

section \<open>Witnesses\<close>

text \<open>A block cipher that gives its counter back, and a hash of zeros.\<close>

definition plain_block :: "bytes \<Rightarrow> bytes \<Rightarrow> bytes" where "plain_block key iv = iv"

definition plain_crypto :: crypto where
  "plain_crypto = \<lparr>sha256 = (\<lambda>bs. replicate 32 0),
     ctr128 = (\<lambda>key iv data. map (\<lambda>(i, b). xor b (plain_block key (counter iv (i div 16)) ! (i mod 16))) (enumerate 0 data))\<rparr>"

lemma plain_crypto_ok: "ctr_mode plain_block plain_crypto"
  by (simp add: ctr_mode_def plain_crypto_def kSha256Size_def)

definition new_env :: file_env where
  "new_env = \<lparr>fe_file = None, fe_folder = True, fe_lock = Locked, fe_salt = replicate 64 7, fe_results = []\<rparr>"

lemma new_env_ok: "fe_folder new_env" "fe_lock new_env = Locked" "length (fe_salt new_env) = kSaltSize" "fe_results new_env = []"
  by (simp_all add: new_env_def kSaltSize_def)

theorem encrypted_file_roundtrip_witness:
  "\<exists>f1 f2. File_open plain_crypto Write [1] new_env = Some (Success, f1)
    \<and> File_writeWithPadding plain_crypto (replicate 16 9) [1, 2, 3] f1 = Some (True, f2)
    \<and> (\<forall>env'. fe_file env' = Some (f_data (File_close f2)) \<longrightarrow>
        (\<exists>f3 f4. File_open plain_crypto Read [1] env' = Some (Success, f3)
          \<and> File_readWithPadding plain_crypto 3 f3 = Some ([1, 2, 3], f4)))"
  using encrypted_file_roundtrip [OF plain_crypto_ok new_env_ok, of "replicate 16 9" "[1, 2, 3]" "[1]"]
  by (simp add: numeral_3_eq_3)

theorem encrypted_file_refines_bytes_witness:
  "\<exists>f. file_rep plain_block plain_crypto [1] f [] 0 0 \<and> File_offset f = 0
    \<and> (\<exists>f'. File_write plain_crypto (replicate 16 5) f = Some (True, f')
      \<and> file_rep plain_block plain_crypto [1] f' (replicate 16 5) 16 16)"
proof -
  obtain f where f: "file_rep plain_block plain_crypto [1] f [] 0 0" "f_results f = []"
    using File_open_Write [OF plain_crypto_ok new_env_ok] by blast
  have b: "length (replicate 16 (5 :: 8 word)) mod 16 = 0" "0 + length (replicate 16 (5 :: 8 word)) < 2 ^ 61" by simp_all
  have z: "(0::nat) mod 16 = 0" by simp
  have w: "write_result f (replicate 16 5) = 16" by (simp add: write_result_def f(2))
  have o: "overwrite 0 (replicate 16 5) [] = replicate 16 5" by (simp add: overwrite_def)
  show ?thesis
    using encrypted_file_refines_bytes [OF plain_crypto_ok f(1) z b z] f(1) w o by auto
qed

theorem incremented_iv_adds_witness:
  "be_value (the (incrementedIv \<lparr>ctr_key = [], ctr_iv = [255, 255, 255, 255, 255, 255, 255, 255, 255, 255, 255, 255, 255, 255, 255, 255]\<rparr> 3)) = 2"
proof -
  let ?st = "\<lparr>ctr_key = [], ctr_iv = [255, 255, 255, 255, 255, 255, 255, 255, 255, 255, 255, 255, 255, 255, 255, 255]\<rparr>"
  have l: "length (ctr_iv ?st) = kIvSize" by (simp add: kIvSize_def kBlockSize_def)
  have v: "be_value (ctr_iv ?st) = 2 ^ 128 - 1" by (simp add: be_value_def)
  have "case incrementedIv ?st 3 of None \<Rightarrow> (3::int) < 0
      | Some iv \<Rightarrow> (0::int) \<le> 3 \<and> length iv = 16 \<and> be_value iv = (be_value (ctr_iv ?st) + nat 3) mod 2 ^ 128"
    by (rule incremented_iv_adds [OF l]) simp
  then show ?thesis using v by (simp split: option.splits)
qed

end
