(* ===== verification/CacheIndex.thy ===== *)
theory CacheIndex
  imports FlatMap CacheTypes "HOL-Library.AList"
begin

text \<open>
  The index of the disk cache, the part of \<^verbatim>\<open>storage/cache/storage_cache_database_object.cpp\<close> that
  keeps the map from keys to entries with its totals, and what the records of the binlog do to it.
  The \<^verbatim>\<open>std::unordered_map\<close> is an association list with distinct keys; a failed \<^verbatim>\<open>Assert\<close> is \<open>None\<close>.
\<close>

section \<open>State\<close>

record Entry =
  en_useTime :: nat
  en_size :: int
  en_checksum :: "32 word"
  en_place :: bytes
  en_tag :: "8 word"

definition Entry_empty :: Entry where
  "Entry_empty = \<lparr>en_useTime = 0, en_size = 0, en_checksum = 0, en_place = replicate 7 0, en_tag = 0\<rparr>"

record Index =
  ix_settings :: Settings
  ix_map :: "(Key \<times> Entry) list"
  ix_time :: EstimatedTimePoint
  ix_excess :: int
  ix_totalSize :: int
  ix_minimalTime :: nat
  ix_minimalCount :: int
  ix_tagged :: "(8 word \<times> TaggedSummary) list"
  ix_pushing :: bool

definition Index_new :: "Settings \<Rightarrow> Index" where
  "Index_new settings = \<lparr>ix_settings = settings, ix_map = [], ix_time = EstimatedTimePoint_new, ix_excess = 0,
     ix_totalSize = 0, ix_minimalTime = 0, ix_minimalCount = 0, ix_tagged = [], ix_pushing = False\<rparr>"

section \<open>Totals\<close>

text \<open>\<^verbatim>\<open>summary.count += ...; summary.totalSize += ...\<close> on the reference \<^verbatim>\<open>_taggedStats[tag]\<close>.\<close>

definition change_summary :: "8 word \<Rightarrow> int \<Rightarrow> int \<Rightarrow> (8 word \<times> TaggedSummary) list \<Rightarrow> (8 word \<times> TaggedSummary) list" where
  "change_summary tag count amount stats =
     (let (stats1, pos) = flat_map_index (<) \<lparr>ts_count = 0, ts_totalSize = 0\<rparr> tag stats;
          summary = snd (stats1 ! pos)
      in stats1[pos := (tag, \<lparr>ts_count = ts_count summary + count, ts_totalSize = ts_totalSize summary + amount\<rparr>)])"

definition one_if :: "int \<Rightarrow> int" where "one_if n = (if n \<noteq> 0 then 1 else 0)"

definition pushStatsDelayed :: "'a Index_scheme \<Rightarrow> 'a Index_scheme" where
  "pushStatsDelayed ix = (if ix_pushing ix then ix else ix\<lparr>ix_pushing := True\<rparr>)"

definition updateStats :: "Entry \<Rightarrow> Entry \<Rightarrow> 'a Index_scheme \<Rightarrow> 'a Index_scheme" where
  "updateStats was new ix =
     (let stats = ix_tagged ix;
          stats1 =
            (if en_tag new = en_tag was
             then if en_tag new \<noteq> 0
               then change_summary (en_tag new) (one_if (en_size new) - one_if (en_size was)) (en_size new - en_size was) stats
               else stats
             else
               let added = (if en_tag new \<noteq> 0 then change_summary (en_tag new) (one_if (en_size new)) (en_size new) stats else stats)
               in if en_tag was \<noteq> 0 then change_summary (en_tag was) (- one_if (en_size was)) (- en_size was) added else added)
      in pushStatsDelayed (ix\<lparr>ix_totalSize := ix_totalSize ix + (en_size new - en_size was), ix_tagged := stats1\<rparr>))"

section \<open>Entries\<close>

definition store_record_size :: "Settings \<Rightarrow> int" where
  "store_record_size settings = (if trackEstimatedTime settings then 48 else 32)"

text \<open>\<^verbatim>\<open>_map[key]\<close> makes an empty entry for a new key.\<close>

definition entry_at :: "'a Index_scheme \<Rightarrow> Key \<Rightarrow> Entry" where
  "entry_at ix key = (case map_of (ix_map ix) key of Some entry \<Rightarrow> entry | None \<Rightarrow> Entry_empty)"

definition lower_minimal_count :: "'a Index_scheme \<Rightarrow> 'a Index_scheme option" where
  "lower_minimal_count ix =
     (if ix_minimalCount ix \<le> 0 then None
      else
        let ix1 = ix\<lparr>ix_minimalCount := ix_minimalCount ix - 1\<rparr>
        in Some (if ix_minimalCount ix1 = 0 then ix1\<lparr>ix_minimalTime := 0\<rparr> else ix1))"

definition update_minimal :: "Entry \<Rightarrow> Entry \<Rightarrow> 'a Index_scheme \<Rightarrow> 'a Index_scheme option" where
  "update_minimal already entry ix =
     (if en_useTime entry \<noteq> 0 \<and> (en_useTime entry < ix_minimalTime ix \<or> ix_minimalTime ix = 0)
     then Some (ix\<lparr>ix_minimalTime := en_useTime entry, ix_minimalCount := 1\<rparr>)
     else if ix_minimalTime ix \<noteq> 0 \<and> en_useTime already \<noteq> en_useTime entry
     then
       if en_useTime entry = ix_minimalTime ix
       then if 0 < ix_minimalCount ix then Some (ix\<lparr>ix_minimalCount := ix_minimalCount ix + 1\<rparr>) else None
       else if en_useTime already = ix_minimalTime ix then lower_minimal_count ix else Some ix
     else Some ix)"

definition setMapEntry :: "Key \<Rightarrow> Entry \<Rightarrow> 'a Index_scheme \<Rightarrow> 'a Index_scheme option" where
  "setMapEntry key entry ix =
     (let already = entry_at ix key;
          ix1 = updateStats already entry ix;
          ix2 = (if en_size already \<noteq> 0 then ix1\<lparr>ix_excess := ix_excess ix1 + store_record_size (ix_settings ix1)\<rparr> else ix1)
      in map_option (\<lambda>ix3. ix3\<lparr>ix_map := AList.update key entry (ix_map ix3)\<rparr>)
        (update_minimal already entry ix2))"

definition eraseMapEntry :: "Key \<Rightarrow> 'a Index_scheme \<Rightarrow> 'a Index_scheme option" where
  "eraseMapEntry key ix =
     (case map_of (ix_map ix) key of
       None \<Rightarrow> Some ix
     | Some entry \<Rightarrow>
         let ix1 = updateStats entry Entry_empty ix
         in map_option (\<lambda>ix2. ix2\<lparr>ix_map := AList.delete key (ix_map ix2)\<rparr>)
           (if ix_minimalTime ix1 \<noteq> 0 \<and> en_useTime entry = ix_minimalTime ix1 then lower_minimal_count ix1 else Some ix1))"

section \<open>Records of the binlog\<close>

definition applyTimePoint :: "EstimatedTimePoint \<Rightarrow> 'a Index_scheme \<Rightarrow> 'a Index_scheme" where
  "applyTimePoint time ix = (if tp_relative (ix_time ix) < tp_relative time then ix\<lparr>ix_time := time\<rparr> else ix)"

text \<open>The result of a handler: whether the record was right, and the state.\<close>

definition processRecordStoreGeneric ::
    "'b Store_scheme \<Rightarrow> (Entry \<Rightarrow> 'a Index_scheme \<Rightarrow> Entry \<times> 'a Index_scheme) \<Rightarrow> 'a Index_scheme \<Rightarrow> (bool \<times> 'a Index_scheme) option" where
  "processRecordStoreGeneric record postprocess ix =
     (let n = Store_getSize record
      in if n \<le> 0 \<or> maxDataSize (ix_settings ix) < n then Some (False, ix)
         else
           let entry = \<lparr>en_useTime = tp_relative (ix_time ix), en_size = n, en_checksum = store_checksum record,
                 en_place = store_place record, en_tag = store_tag record\<rparr>;
               (entry1, ix1) = postprocess entry ix
           in map_option (Pair True) (setMapEntry (store_key record) entry1 ix1))"

definition processRecordStore :: "Store \<Rightarrow> 'a Index_scheme \<Rightarrow> (bool \<times> 'a Index_scheme) option" where
  "processRecordStore record ix = processRecordStoreGeneric record Pair ix"

definition processRecordStoreWithTime :: "StoreWithTime \<Rightarrow> 'a Index_scheme \<Rightarrow> (bool \<times> 'a Index_scheme) option" where
  "processRecordStoreWithTime record ix =
     processRecordStoreGeneric record
       (\<lambda>entry ix1. (entry\<lparr>en_useTime := tp_relative (store_time record)\<rparr>, applyTimePoint (store_time record) ix1)) ix"

fun processRecordMultiStore :: "('r \<Rightarrow> 's \<Rightarrow> (bool \<times> 's) option) \<Rightarrow> 'r list \<Rightarrow> 's \<Rightarrow> (bool \<times> 's) option" where
  "processRecordMultiStore process [] ix = Some (True, ix)"
| "processRecordMultiStore process (record # records) ix =
     Option.bind (process record ix) (\<lambda>(good, ix1).
       if \<not> good then Some (False, ix1) else processRecordMultiStore process records ix1)"

fun remove_elements :: "Key list \<Rightarrow> 'a Index_scheme \<Rightarrow> 'a Index_scheme option" where
  "remove_elements [] ix = Some ix"
| "remove_elements (key # ks) ix =
     Option.bind (eraseMapEntry key (ix\<lparr>ix_excess := ix_excess ix + 16\<rparr>)) (remove_elements ks)"

definition processRecordMultiRemove :: "Key list \<Rightarrow> 'a Index_scheme \<Rightarrow> (bool \<times> 'a Index_scheme) option" where
  "processRecordMultiRemove ks ix = map_option (Pair True) (remove_elements ks (ix\<lparr>ix_excess := ix_excess ix + 16\<rparr>))"

definition set_use_time :: "nat \<Rightarrow> Key \<Rightarrow> (Key \<times> Entry) list \<Rightarrow> (Key \<times> Entry) list" where
  "set_use_time relative key m =
     (case map_of m key of Some entry \<Rightarrow> AList.update key (entry\<lparr>en_useTime := relative\<rparr>) m | None \<Rightarrow> m)"

fun access_elements :: "nat \<Rightarrow> Key list \<Rightarrow> 'a Index_scheme \<Rightarrow> 'a Index_scheme" where
  "access_elements relative [] ix = ix"
| "access_elements relative (key # ks) ix =
     access_elements relative ks
       (ix\<lparr>ix_excess := ix_excess ix + 16, ix_map := set_use_time relative key (ix_map ix)\<rparr>)"

definition processRecordMultiAccess :: "EstimatedTimePoint \<Rightarrow> Key list \<Rightarrow> 'a Index_scheme \<Rightarrow> (bool \<times> 'a Index_scheme) option" where
  "processRecordMultiAccess time ks ix =
     (if \<not> trackEstimatedTime (ix_settings ix) then None
      else
        let ix1 = applyTimePoint time ix
        in Some (True, access_elements (tp_relative time) ks (ix1\<lparr>ix_excess := ix_excess ix1 + 16\<rparr>)))"

text \<open>The handlers that \<^verbatim>\<open>readBinlog\<close> gives to the reader.\<close>

definition handle_record :: "binlog_record \<Rightarrow> 'a Index_scheme \<Rightarrow> (bool \<times> 'a Index_scheme) option" where
  "handle_record record ix =
     (case record of
       RecordStore store \<Rightarrow> processRecordStore store ix
     | RecordStoreWithTime store \<Rightarrow> processRecordStoreWithTime store ix
     | RecordMultiStore stores \<Rightarrow> processRecordMultiStore processRecordStore stores ix
     | RecordMultiStoreWithTime stores \<Rightarrow> processRecordMultiStore processRecordStoreWithTime stores ix
     | RecordMultiRemove ks \<Rightarrow> processRecordMultiRemove ks ix
     | RecordMultiAccess time ks \<Rightarrow> processRecordMultiAccess time ks ix)"

section \<open>Sums over the map\<close>

definition entry_sum :: "(Entry \<Rightarrow> int) \<Rightarrow> (Key \<times> Entry) list \<Rightarrow> int" where
  "entry_sum f m = sum_list (map (\<lambda>(key, entry). f entry) m)"

definition old_value :: "(Entry \<Rightarrow> int) \<Rightarrow> (Key \<times> Entry) list \<Rightarrow> Key \<Rightarrow> int" where
  "old_value f m key = (case map_of m key of Some entry \<Rightarrow> f entry | None \<Rightarrow> 0)"

lemma entry_sum_simps [simp]: "entry_sum f [] = 0" "entry_sum f ((k, e) # m) = f e + entry_sum f m"
  by (simp_all add: entry_sum_def)

lemma entry_sum_update: "entry_sum f (AList.update key entry m) = entry_sum f m + f entry - old_value f m key"
  by (induction m) (auto simp: old_value_def)

lemma entry_sum_delete:
  "distinct (map fst m) \<Longrightarrow> entry_sum f (AList.delete key m) = entry_sum f m - old_value f m key"
proof (induction m)
  case (Cons p m)
  have "AList.delete key m = m" if "key \<notin> fst ` set m" using that by (simp add: delete_id)
  then show ?case using Cons by (cases p) (auto simp: old_value_def map_of_eq_None_iff [symmetric] split: option.splits)
qed (simp add: old_value_def)

definition size_of :: "8 word \<Rightarrow> Entry \<Rightarrow> int" where
  "size_of tag entry = (if en_tag entry = tag then en_size entry else 0)"

definition count_of :: "8 word \<Rightarrow> Entry \<Rightarrow> int" where
  "count_of tag entry = (if en_tag entry = tag then one_if (en_size entry) else 0)"

definition summary_at :: "(8 word \<times> TaggedSummary) list \<Rightarrow> 8 word \<Rightarrow> int \<times> int" where
  "summary_at stats tag = (case map_of stats tag of Some s \<Rightarrow> (ts_count s, ts_totalSize s) | None \<Rightarrow> (0, 0))"

lemma index_position:
  fixes stats :: "('k::linorder \<times> 'v) list"
  assumes "sorted_wrt (<) (keys stats)" and "flat_map_index (<) dflt tag stats = (stats1, pos)"
  shows "pos < length stats1" "fst (stats1 ! pos) = tag" "sorted_wrt (<) (keys stats1)"
    "map_of stats1 = (map_of stats)(tag \<mapsto> case map_of stats tag of Some s \<Rightarrow> s | None \<Rightarrow> dflt)"
    "snd (stats1 ! pos) = (case map_of stats tag of Some s \<Rightarrow> s | None \<Rightarrow> dflt)"
proof -
  obtain fresh where i: "flat_map_insert (<) (tag, dflt) stats = (stats1, pos, fresh)"
    using assms(2) by (auto simp: index_insert split: prod.splits)
  note spec = lin.map_insert_spec [OF assms(1) i]
  show "pos < length stats1" "fst (stats1 ! pos) = tag" "sorted_wrt (<) (keys stats1)" using spec by simp_all
  have "map_of stats tag = (if fresh then None else Some (snd (stats1 ! pos)))"
  proof (cases fresh)
    case False
    then have "(tag, snd (stats1 ! pos)) \<in> set stats" using spec(2,3,7) by (metis nth_mem prod.collapse)
    then show ?thesis using False lin.sorted_distinct [OF assms(1)] by simp
  qed (use spec(4) in \<open>simp add: map_of_eq_None_iff\<close>)
  then show "map_of stats1 = (map_of stats)(tag \<mapsto> case map_of stats tag of Some s \<Rightarrow> s | None \<Rightarrow> dflt)"
    "snd (stats1 ! pos) = (case map_of stats tag of Some s \<Rightarrow> s | None \<Rightarrow> dflt)"
    using spec(5,6) by (auto split: if_splits)
qed

lemma change_summary_at:
  assumes "sorted_wrt (<) (keys stats)"
  shows "sorted_wrt (<) (keys (change_summary tag count amount stats))"
    and "summary_at (change_summary tag count amount stats) t =
      (if t = tag then (fst (summary_at stats t) + count, snd (summary_at stats t) + amount) else summary_at stats t)"
proof -
  let ?zero = "\<lparr>ts_count = 0, ts_totalSize = 0\<rparr>"
  obtain stats1 pos where i: "flat_map_index (<) ?zero tag stats = (stats1, pos)"
    by (cases "flat_map_index (<) ?zero tag stats") auto
  note p = index_position [OF assms i]
  let ?s = "snd (stats1 ! pos)"
  let ?new = "\<lparr>ts_count = ts_count ?s + count, ts_totalSize = ts_totalSize ?s + amount\<rparr>"
  have c: "change_summary tag count amount stats = stats1[pos := (fst (stats1 ! pos), ?new)]"
    by (simp add: change_summary_def i p(2) Let_def)
  show "sorted_wrt (<) (keys (change_summary tag count amount stats))"
    using p(1,3) by (simp add: c keys_assign)
  have m: "map_of (change_summary tag count amount stats) = (map_of stats1)(tag \<mapsto> ?new)"
    using map_of_assign_at [OF lin.sorted_distinct [OF p(3)] p(1), of ?new] p(2) by (simp add: c)
  show "summary_at (change_summary tag count amount stats) t =
      (if t = tag then (fst (summary_at stats t) + count, snd (summary_at stats t) + amount) else summary_at stats t)"
    by (simp add: summary_at_def m p(4,5) split: option.splits)
qed

section \<open>The index agrees with itself\<close>

definition index_ok :: "'a Index_scheme \<Rightarrow> bool" where
  "index_ok ix \<longleftrightarrow>
     distinct (map fst (ix_map ix)) \<and> (\<forall>key entry. map_of (ix_map ix) key = Some entry \<longrightarrow> 0 < en_size entry)
     \<and> ix_totalSize ix = entry_sum en_size (ix_map ix)
     \<and> sorted_wrt (<) (keys (ix_tagged ix))
     \<and> (\<forall>tag. tag \<noteq> 0 \<longrightarrow> summary_at (ix_tagged ix) tag = (entry_sum (count_of tag) (ix_map ix), entry_sum (size_of tag) (ix_map ix)))
     \<and> (ix_minimalTime ix \<noteq> 0 \<longrightarrow> 0 < ix_minimalCount ix) \<and> 0 \<le> ix_excess ix"

lemma index_okD:
  assumes "index_ok ix"
  shows "distinct (map fst (ix_map ix))" "map_of (ix_map ix) key = Some entry \<Longrightarrow> 0 < en_size entry"
    "ix_totalSize ix = entry_sum en_size (ix_map ix)" "sorted_wrt (<) (keys (ix_tagged ix))"
    "tag \<noteq> 0 \<Longrightarrow> summary_at (ix_tagged ix) tag = (entry_sum (count_of tag) (ix_map ix), entry_sum (size_of tag) (ix_map ix))"
    "ix_minimalTime ix \<noteq> 0 \<Longrightarrow> 0 < ix_minimalCount ix" "0 \<le> ix_excess ix"
  using assms by (simp_all add: index_ok_def)

lemma index_ok_new [simp]: "index_ok (Index_new settings)"
  by (simp add: index_ok_def Index_new_def summary_at_def)

lemma pushStatsDelayed_fields [simp]:
  "ix_settings (pushStatsDelayed ix) = ix_settings ix" "ix_map (pushStatsDelayed ix) = ix_map ix"
  "ix_time (pushStatsDelayed ix) = ix_time ix" "ix_excess (pushStatsDelayed ix) = ix_excess ix"
  "ix_totalSize (pushStatsDelayed ix) = ix_totalSize ix" "ix_minimalTime (pushStatsDelayed ix) = ix_minimalTime ix"
  "ix_minimalCount (pushStatsDelayed ix) = ix_minimalCount ix" "ix_tagged (pushStatsDelayed ix) = ix_tagged ix"
  "Index.more (pushStatsDelayed ix) = Index.more ix"
  by (simp_all add: pushStatsDelayed_def)

lemma updateStats_fields [simp]:
  "ix_settings (updateStats was new ix) = ix_settings ix" "ix_map (updateStats was new ix) = ix_map ix"
  "ix_time (updateStats was new ix) = ix_time ix" "ix_excess (updateStats was new ix) = ix_excess ix"
  "ix_minimalTime (updateStats was new ix) = ix_minimalTime ix" "ix_minimalCount (updateStats was new ix) = ix_minimalCount ix"
  "ix_totalSize (updateStats was new ix) = ix_totalSize ix + (en_size new - en_size was)"
  "Index.more (updateStats was new ix) = Index.more ix"
  by (simp_all add: updateStats_def Let_def)

lemma updateStats_tagged:
  assumes "sorted_wrt (<) (keys (ix_tagged ix))"
  shows "sorted_wrt (<) (keys (ix_tagged (updateStats was new ix)))"
    and "tag \<noteq> 0 \<Longrightarrow> summary_at (ix_tagged (updateStats was new ix)) tag =
      (fst (summary_at (ix_tagged ix) tag) + count_of tag new - count_of tag was,
       snd (summary_at (ix_tagged ix) tag) + size_of tag new - size_of tag was)"
  using assms by (simp_all add: updateStats_def Let_def change_summary_at count_of_def size_of_def)

text \<open>What every operation of the index leaves as it is.\<close>

definition index_frame :: "'a Index_scheme \<Rightarrow> 'a Index_scheme \<Rightarrow> bool" where
  "index_frame ix ix' \<longleftrightarrow> ix_settings ix' = ix_settings ix \<and> Index.more ix' = Index.more ix"

lemma index_frame_refl [simp]: "index_frame ix ix"
  by (simp add: index_frame_def)

lemma index_frame_trans: "index_frame ix ix1 \<Longrightarrow> index_frame ix1 ix2 \<Longrightarrow> index_frame ix ix2"
  by (simp add: index_frame_def)

text \<open>The fields of the minimal time are all that its update changes, and their assertions hold after it.\<close>

definition minimal_kept :: "'a Index_scheme \<Rightarrow> 'a Index_scheme option \<Rightarrow> bool" where
  "minimal_kept ix result \<longleftrightarrow>
     (\<exists>t n. result = Some (ix\<lparr>ix_minimalTime := t, ix_minimalCount := n\<rparr>) \<and> (t \<noteq> 0 \<longrightarrow> 0 < n))"

lemma minimal_keptI:
  "t \<noteq> 0 \<longrightarrow> 0 < n \<Longrightarrow> result = Some (ix\<lparr>ix_minimalTime := t, ix_minimalCount := n\<rparr>) \<Longrightarrow> minimal_kept ix result"
  by (auto simp: minimal_kept_def)

lemma minimal_kept_simps [simp]:
  "minimal_kept ix (Some (ix\<lparr>ix_minimalTime := t, ix_minimalCount := 1\<rparr>))"
  "ix_minimalTime ix \<noteq> 0 \<longrightarrow> 0 < ix_minimalCount ix \<Longrightarrow> minimal_kept ix (Some ix)"
  "0 < ix_minimalCount ix \<Longrightarrow> minimal_kept ix (Some (ix\<lparr>ix_minimalCount := ix_minimalCount ix + 1\<rparr>))"
  "0 < ix_minimalCount ix \<Longrightarrow> minimal_kept ix (lower_minimal_count ix)"
  by (rule minimal_keptI [of t 1], simp, simp)
    (rule minimal_keptI [of "ix_minimalTime ix" "ix_minimalCount ix"], simp, simp,
     rule minimal_keptI [of "ix_minimalTime ix" "ix_minimalCount ix + 1"], simp, simp,
     rule minimal_keptI [of "if ix_minimalCount ix = 1 then 0 else ix_minimalTime ix" "ix_minimalCount ix - 1"], simp,
     simp add: lower_minimal_count_def Let_def)

lemma minimal_kept_if:
  "(P \<Longrightarrow> minimal_kept ix x) \<Longrightarrow> (\<not> P \<Longrightarrow> minimal_kept ix y) \<Longrightarrow> minimal_kept ix (if P then x else y)"
  by simp

lemma update_minimal_kept:
  assumes "ix_minimalTime ix \<noteq> 0 \<longrightarrow> 0 < ix_minimalCount ix"
  shows "minimal_kept ix (update_minimal already entry ix)"
  unfolding update_minimal_def
  by (intro minimal_kept_if; (rule minimal_kept_simps; use assms in blast)?) (use assms in blast)

lemma updateStats_keep_excess:
  "(updateStats was new ix)\<lparr>ix_excess := ix_excess ix\<rparr> = updateStats was new ix"
  by (rule Index.equality) simp_all

lemma setMapEntry_eq:
  assumes "index_ok ix"
  shows "\<exists>t n. setMapEntry key entry ix = Some ((updateStats (entry_at ix key) entry ix)\<lparr>
      ix_excess := ix_excess ix + (if en_size (entry_at ix key) \<noteq> 0 then store_record_size (ix_settings ix) else 0),
      ix_minimalTime := t, ix_minimalCount := n, ix_map := AList.update key entry (ix_map ix)\<rparr>) \<and> (t \<noteq> 0 \<longrightarrow> 0 < n)"
proof -
  let ?u = "updateStats (entry_at ix key) entry ix"
  let ?v = "if en_size (entry_at ix key) \<noteq> 0 then ?u\<lparr>ix_excess := ix_excess ?u + store_record_size (ix_settings ?u)\<rparr> else ?u"
  have "ix_minimalTime ?v \<noteq> 0 \<longrightarrow> 0 < ix_minimalCount ?v" using index_okD(6) [OF assms] by simp
  from update_minimal_kept [OF this] obtain t n
    where step: "update_minimal (entry_at ix key) entry ?v = Some (?v\<lparr>ix_minimalTime := t, ix_minimalCount := n\<rparr>)" "t \<noteq> 0 \<longrightarrow> 0 < n"
    unfolding minimal_kept_def by blast
  show ?thesis
  proof (intro exI conjI)
    show "setMapEntry key entry ix = Some (?u\<lparr>
        ix_excess := ix_excess ix + (if en_size (entry_at ix key) \<noteq> 0 then store_record_size (ix_settings ix) else 0),
        ix_minimalTime := t, ix_minimalCount := n, ix_map := AList.update key entry (ix_map ix)\<rparr>)"
      unfolding setMapEntry_def Let_def step(1) by (cases "en_size (entry_at ix key) = 0") (simp_all add: updateStats_keep_excess)
  qed (rule step(2))
qed

lemma old_value_entry_at: "f Entry_empty = 0 \<Longrightarrow> old_value f (ix_map ix) key = f (entry_at ix key)"
  by (simp add: old_value_def entry_at_def split: option.splits)

lemma Entry_empty_simps [simp]: "en_size Entry_empty = 0" "en_tag Entry_empty = 0" "count_of tag Entry_empty = 0" "size_of tag Entry_empty = 0"
  by (simp_all add: Entry_empty_def count_of_def size_of_def one_if_def)

lemma setMapEntry_ok:
  assumes ix: "index_ok ix" and entry: "0 < en_size entry"
  shows "\<exists>ix'. setMapEntry key entry ix = Some ix' \<and> index_ok ix' \<and> index_frame ix ix'
    \<and> ix_map ix' = AList.update key entry (ix_map ix) \<and> ix_time ix' = ix_time ix
    \<and> ix_excess ix' = ix_excess ix + (if key \<in> dom (map_of (ix_map ix)) then store_record_size (ix_settings ix) else 0)"
proof -
  obtain t n where tn: "setMapEntry key entry ix = Some ((updateStats (entry_at ix key) entry ix)\<lparr>
      ix_excess := ix_excess ix + (if en_size (entry_at ix key) \<noteq> 0 then store_record_size (ix_settings ix) else 0),
      ix_minimalTime := t, ix_minimalCount := n, ix_map := AList.update key entry (ix_map ix)\<rparr>)" "t \<noteq> 0 \<longrightarrow> 0 < n"
    using setMapEntry_eq [OF ix] by blast
  let ?ix = "(updateStats (entry_at ix key) entry ix)\<lparr>
      ix_excess := ix_excess ix + (if en_size (entry_at ix key) \<noteq> 0 then store_record_size (ix_settings ix) else 0),
      ix_minimalTime := t, ix_minimalCount := n, ix_map := AList.update key entry (ix_map ix)\<rparr>"
  have known: "en_size (entry_at ix key) \<noteq> 0 \<longleftrightarrow> key \<in> dom (map_of (ix_map ix))"
    using index_okD(2) [OF ix, of key] by (auto simp: entry_at_def split: option.splits)
  have "index_ok ?ix"
    using index_okD [OF ix] updateStats_tagged [OF index_okD(4) [OF ix], where was = "entry_at ix key" and new = entry] tn(2) entry
    by (simp add: index_ok_def distinct_update update_conv' entry_sum_update old_value_entry_at store_record_size_def)
  then show ?thesis using tn(1) by (simp add: index_frame_def known)
qed

lemma eraseMapEntry_ok:
  assumes ix: "index_ok ix"
  shows "\<exists>ix'. eraseMapEntry key ix = Some ix' \<and> index_ok ix' \<and> index_frame ix ix'
    \<and> ix_map ix' = AList.delete key (ix_map ix) \<and> ix_time ix' = ix_time ix \<and> ix_excess ix' = ix_excess ix"
proof (cases "map_of (ix_map ix) key")
  case None
  then have "AList.delete key (ix_map ix) = ix_map ix" by (simp add: delete_id map_of_eq_None_iff)
  then show ?thesis using None ix by (simp add: eraseMapEntry_def)
next
  case (Some entry)
  let ?u = "updateStats entry Entry_empty ix"
  have "minimal_kept ?u (if ix_minimalTime ?u \<noteq> 0 \<and> en_useTime entry = ix_minimalTime ?u then lower_minimal_count ?u else Some ?u)"
    using index_okD(6) [OF ix] by (cases "ix_minimalTime ix = 0") auto
  then obtain t n where tn: "eraseMapEntry key ix = Some (?u\<lparr>ix_minimalTime := t, ix_minimalCount := n,
      ix_map := AList.delete key (ix_map ix)\<rparr>)" "t \<noteq> 0 \<longrightarrow> 0 < n"
    using Some unfolding eraseMapEntry_def Let_def minimal_kept_def by auto
  have old: "old_value f (ix_map ix) key = f entry" for f using Some by (simp add: old_value_def)
  have "index_ok (?u\<lparr>ix_minimalTime := t, ix_minimalCount := n, ix_map := AList.delete key (ix_map ix)\<rparr>)"
    using index_okD [OF ix] updateStats_tagged [OF index_okD(4) [OF ix], where was = entry and new = Entry_empty] tn(2)
    by (simp add: index_ok_def distinct_delete delete_conv' entry_sum_delete old)
  then show ?thesis using tn(1) by (simp add: index_frame_def)
qed

section \<open>The records as changes of a map\<close>

text \<open>The content of the index: the map, and the time that only grows.\<close>

type_synonym content = "(Key \<Rightarrow> Entry option) \<times> nat"

definition index_content :: "'a Index_scheme \<Rightarrow> content" where
  "index_content ix = (map_of (ix_map ix), tp_relative (ix_time ix))"

definition stored_entry :: "'b Store_scheme \<Rightarrow> nat \<Rightarrow> Entry" where
  "stored_entry record time = \<lparr>en_useTime = time, en_size = Store_getSize record, en_checksum = store_checksum record,
     en_place = store_place record, en_tag = store_tag record\<rparr>"

definition size_fits :: "Settings \<Rightarrow> 'b Store_scheme \<Rightarrow> bool" where
  "size_fits settings record \<longleftrightarrow> 0 < Store_getSize record \<and> Store_getSize record \<le> maxDataSize settings"

definition store_effect :: "Settings \<Rightarrow> Store \<Rightarrow> content \<Rightarrow> bool \<times> content" where
  "store_effect settings record st =
     (if size_fits settings record then (True, (fst st)(store_key record \<mapsto> stored_entry record (snd st)), snd st) else (False, st))"

definition store_with_time_effect :: "Settings \<Rightarrow> StoreWithTime \<Rightarrow> content \<Rightarrow> bool \<times> content" where
  "store_with_time_effect settings record st =
     (let time = tp_relative (store_time record)
      in if size_fits settings record
         then (True, (fst st)(store_key record \<mapsto> stored_entry record time), max (snd st) time) else (False, st))"

fun all_effects :: "('r \<Rightarrow> content \<Rightarrow> bool \<times> content) \<Rightarrow> 'r list \<Rightarrow> content \<Rightarrow> bool \<times> content" where
  "all_effects eff [] st = (True, st)"
| "all_effects eff (record # records) st =
     (case eff record st of (good, st1) \<Rightarrow> if good then all_effects eff records st1 else (False, st1))"

definition accessed_at :: "nat \<Rightarrow> Key set \<Rightarrow> (Key \<Rightarrow> Entry option) \<Rightarrow> Key \<Rightarrow> Entry option" where
  "accessed_at time ks m = (\<lambda>key. if key \<in> ks then map_option (\<lambda>entry. entry\<lparr>en_useTime := time\<rparr>) (m key) else m key)"

definition record_effect :: "Settings \<Rightarrow> binlog_record \<Rightarrow> content \<Rightarrow> bool \<times> content" where
  "record_effect settings record st =
     (case record of
       RecordStore store \<Rightarrow> store_effect settings store st
     | RecordStoreWithTime store \<Rightarrow> store_with_time_effect settings store st
     | RecordMultiStore stores \<Rightarrow> all_effects (store_effect settings) stores st
     | RecordMultiStoreWithTime stores \<Rightarrow> all_effects (store_with_time_effect settings) stores st
     | RecordMultiRemove ks \<Rightarrow> (True, fst st |` (- set ks), snd st)
     | RecordMultiAccess time ks \<Rightarrow>
         (True, accessed_at (tp_relative time) (set ks) (fst st), max (snd st) (tp_relative time)))"

text \<open>A result that is there, keeps the index in order, and changes the content as told.\<close>

definition refines_effect :: "'a Index_scheme \<Rightarrow> bool \<times> content \<Rightarrow> (bool \<times> 'a Index_scheme) option \<Rightarrow> bool" where
  "refines_effect ix eff result \<longleftrightarrow>
     (\<exists>ix'. result = Some (fst eff, ix') \<and> index_content ix' = snd eff \<and> index_ok ix' \<and> index_frame ix ix')"

lemma applyTimePoint_fields [simp]:
  "ix_settings (applyTimePoint time ix) = ix_settings ix" "ix_map (applyTimePoint time ix) = ix_map ix"
  "tp_relative (ix_time (applyTimePoint time ix)) = max (tp_relative (ix_time ix)) (tp_relative time)"
  "Index.more (applyTimePoint time ix) = Index.more ix" "ix_excess (applyTimePoint time ix) = ix_excess ix"
  "index_ok (applyTimePoint time ix) = index_ok ix"
  by (simp_all add: applyTimePoint_def index_ok_def)

lemma processRecordStore_refines:
  assumes "index_ok ix"
  shows "refines_effect ix (store_effect (ix_settings ix) record (index_content ix)) (processRecordStore record ix)"
proof (cases "size_fits (ix_settings ix) record")
  case True
  let ?e = "stored_entry record (tp_relative (ix_time ix))"
  have "0 < en_size ?e" using True by (simp add: stored_entry_def size_fits_def)
  from setMapEntry_ok [OF assms this, of "store_key record"] show ?thesis
    using True by (auto simp: refines_effect_def store_effect_def processRecordStore_def processRecordStoreGeneric_def
        size_fits_def index_content_def update_conv' stored_entry_def)
qed (use assms in \<open>auto simp: refines_effect_def store_effect_def processRecordStore_def processRecordStoreGeneric_def
    size_fits_def Let_def\<close>)

lemma processRecordStoreWithTime_refines:
  assumes "index_ok ix"
  shows "refines_effect ix (store_with_time_effect (ix_settings ix) record (index_content ix)) (processRecordStoreWithTime record ix)"
proof (cases "size_fits (ix_settings ix) record")
  case True
  let ?e = "stored_entry record (tp_relative (store_time record))"
  have "0 < en_size ?e" using True by (simp add: stored_entry_def size_fits_def)
  moreover have "index_ok (applyTimePoint (store_time record) ix)" using assms by simp
  ultimately obtain ix' where "setMapEntry (store_key record) ?e (applyTimePoint (store_time record) ix) = Some ix'"
    "index_ok ix'" "index_frame (applyTimePoint (store_time record) ix) ix'"
    "ix_map ix' = AList.update (store_key record) ?e (ix_map ix)" "ix_time ix' = ix_time (applyTimePoint (store_time record) ix)"
    using setMapEntry_ok by (metis applyTimePoint_fields(2))
  then show ?thesis
    using True by (auto simp: refines_effect_def store_with_time_effect_def processRecordStoreWithTime_def processRecordStoreGeneric_def
        size_fits_def index_content_def update_conv' stored_entry_def index_frame_def Let_def)
qed (use assms in \<open>auto simp: refines_effect_def store_with_time_effect_def processRecordStoreWithTime_def processRecordStoreGeneric_def
    size_fits_def Let_def\<close>)

lemma processRecordMultiStore_refines:
  assumes "index_ok ix" and "ix_settings ix = settings"
    and "\<And>ix record. index_ok ix \<Longrightarrow> ix_settings ix = settings \<Longrightarrow>
      refines_effect ix (eff record (index_content ix)) (process record ix)"
  shows "refines_effect ix (all_effects eff records (index_content ix)) (processRecordMultiStore process records ix)"
  using assms(1,2)
proof (induction records arbitrary: ix)
  case Nil
  then show ?case by (simp add: refines_effect_def)
next
  case (Cons r rs)
  obtain good st where e: "eff r (index_content ix) = (good, st)" by (cases "eff r (index_content ix)") auto
  from assms(3) [OF Cons.prems, of r] obtain ix1 where
    ix1: "process r ix = Some (good, ix1)" "index_content ix1 = st" "index_ok ix1" "index_frame ix ix1"
    by (auto simp: refines_effect_def e)
  have "ix_settings ix1 = settings" using ix1(4) Cons.prems(2) by (simp add: index_frame_def)
  from Cons.IH [OF ix1(3) this] show ?case
    using e ix1 by (auto simp: refines_effect_def index_frame_def)
qed


lemma excess_ok: "index_ok ix \<Longrightarrow> 0 \<le> n \<Longrightarrow> index_ok (ix\<lparr>ix_excess := ix_excess ix + n\<rparr>)"
  by (simp add: index_ok_def)

lemma remove_elements_ok:
  assumes "index_ok ix"
  shows "\<exists>ix'. remove_elements ks ix = Some ix' \<and> index_ok ix' \<and> index_frame ix ix'
    \<and> map_of (ix_map ix') = map_of (ix_map ix) |` (- set ks) \<and> ix_time ix' = ix_time ix
    \<and> ix_excess ix' = ix_excess ix + 16 * int (length ks)"
  using assms
proof (induction ks arbitrary: ix)
  case (Cons k ks)
  let ?ix = "ix\<lparr>ix_excess := ix_excess ix + 16\<rparr>"
  obtain ix1 where ix1: "eraseMapEntry k ?ix = Some ix1" "index_ok ix1" "index_frame ?ix ix1"
    "ix_map ix1 = AList.delete k (ix_map ix)" "ix_time ix1 = ix_time ix" "ix_excess ix1 = ix_excess ix + 16"
    using eraseMapEntry_ok [of ?ix k] excess_ok [OF Cons.prems, of 16] by auto
  from Cons.IH [OF ix1(2)] obtain ix' where ix': "remove_elements ks ix1 = Some ix'" "index_ok ix'" "index_frame ix1 ix'"
    "map_of (ix_map ix') = map_of (ix_map ix1) |` (- set ks)" "ix_time ix' = ix_time ix1"
    "ix_excess ix' = ix_excess ix1 + 16 * int (length ks)" by blast
  have "map_of (ix_map ix') = map_of (ix_map ix) |` (- set (k # ks))"
    by (rule ext) (simp add: ix'(4) ix1(4) delete_conv' restrict_map_def)
  then show ?case using ix1 ix' by (simp add: index_frame_def)
qed (simp add: restrict_map_def)

lemma use_time_sum:
  assumes "distinct (map fst m)" and "\<And>entry. f (entry\<lparr>en_useTime := time\<rparr>) = f entry"
  shows "entry_sum f (set_use_time time k m) = entry_sum f m"
  using assms by (auto simp: set_use_time_def entry_sum_update old_value_def split: option.splits)

lemma set_use_time_map:
  "map_of (set_use_time time k m) = accessed_at time {k} (map_of m)"
  by (rule ext) (auto simp: set_use_time_def accessed_at_def update_conv' split: option.splits)

lemma access_elements_ok:
  assumes "index_ok ix"
  shows "index_ok (access_elements time ks ix) \<and> index_frame ix (access_elements time ks ix)
    \<and> map_of (ix_map (access_elements time ks ix)) = accessed_at time (set ks) (map_of (ix_map ix))
    \<and> ix_time (access_elements time ks ix) = ix_time ix
    \<and> ix_excess (access_elements time ks ix) = ix_excess ix + 16 * int (length ks)"
  using assms
proof (induction ks arbitrary: ix)
  case Nil
  then show ?case by (simp add: accessed_at_def fun_eq_iff)
next
  case (Cons k ks)
  let ?ix = "ix\<lparr>ix_excess := ix_excess ix + 16, ix_map := set_use_time time k (ix_map ix)\<rparr>"
  have sums: "entry_sum f (set_use_time time k (ix_map ix)) = entry_sum f (ix_map ix)"
    if "\<And>entry. f (entry\<lparr>en_useTime := time\<rparr>) = f entry" for f
    by (rule use_time_sum [OF index_okD(1) [OF Cons.prems]]) (rule that)
  have d: "distinct (map fst (set_use_time time k (ix_map ix)))"
    using index_okD(1) [OF Cons.prems] by (simp add: set_use_time_def distinct_update split: option.splits)
  have "index_ok ?ix"
    using index_okD [OF Cons.prems] d sums [of en_size] sums [of "count_of _"] sums [of "size_of _"]
    by (auto simp: index_ok_def set_use_time_map accessed_at_def count_of_def size_of_def split: if_splits)
  from Cons.IH [OF this] show ?case
    by (auto simp: index_frame_def set_use_time_map accessed_at_def fun_eq_iff option.map_comp comp_def)
qed

text \<open>The kinds of records that the reader of the settings gives.\<close>

definition record_kind_ok :: "Settings \<Rightarrow> binlog_record \<Rightarrow> bool" where
  "record_kind_ok settings record \<longleftrightarrow> (case record of RecordMultiAccess time ks \<Rightarrow> trackEstimatedTime settings | _ \<Rightarrow> True)"

lemma handle_record_refines:
  assumes "index_ok ix" and "record_kind_ok (ix_settings ix) r"
  shows "refines_effect ix (record_effect (ix_settings ix) r (index_content ix)) (handle_record r ix)"
proof (cases r)
  case (RecordStore store)
  then show ?thesis using processRecordStore_refines [OF assms(1), of store] by (simp add: handle_record_def record_effect_def)
next
  case (RecordStoreWithTime store)
  then show ?thesis
    using processRecordStoreWithTime_refines [OF assms(1), of store] by (simp add: handle_record_def record_effect_def)
next
  case (RecordMultiStore stores)
  then show ?thesis
    unfolding handle_record_def record_effect_def RecordMultiStore binlog_record.case
    by (intro processRecordMultiStore_refines [OF assms(1) refl]) (metis processRecordStore_refines)
next
  case (RecordMultiStoreWithTime stores)
  then show ?thesis
    unfolding handle_record_def record_effect_def RecordMultiStoreWithTime binlog_record.case
    by (intro processRecordMultiStore_refines [OF assms(1) refl]) (metis processRecordStoreWithTime_refines)
next
  case (RecordMultiRemove ks)
  have "index_ok (ix\<lparr>ix_excess := ix_excess ix + 16\<rparr>)" using excess_ok [OF assms(1)] by simp
  from remove_elements_ok [OF this, of ks] show ?thesis
    using RecordMultiRemove by (auto simp: handle_record_def record_effect_def processRecordMultiRemove_def refines_effect_def
        index_content_def index_frame_def)
next
  case (RecordMultiAccess time ks)
  let ?ix = "(applyTimePoint time ix)\<lparr>ix_excess := ix_excess ix + 16\<rparr>"
  have "index_ok ?ix" using excess_ok [of "applyTimePoint time ix" 16] assms(1) by simp
  from access_elements_ok [OF this, of "tp_relative time" ks] show ?thesis
    using RecordMultiAccess assms(2)
    by (auto simp: handle_record_def record_effect_def processRecordMultiAccess_def refines_effect_def
        index_content_def index_frame_def record_kind_ok_def Let_def)
qed

end
