(* ===== verification/CacheBinlog.thy ===== *)
theory CacheBinlog
  imports CacheTypes StorageFile
begin

text \<open>
  Reading the binlog of the disk cache, \<^verbatim>\<open>storage/cache/storage_cache_binlog_reader.h\<close> and \<^verbatim>\<open>.cpp\<close>: the
  file is read in blocks into a buffer, records are cut off its front by their types and counts,
  and handlers take them; an incomplete or wrong record is left for the next write. The template
  parameter of the readers is a list of kinds of records, the unread part of the buffer a list of
  bytes. A failed \<^verbatim>\<open>Expects\<close>, \<^verbatim>\<open>Assert\<close> or \<^verbatim>\<open>Unexpected\<close> is \<open>None\<close>.
\<close>

section \<open>The header of the binlog\<close>

record BasicHeader =
  bh_format :: nat
  bh_flags :: nat
  bh_systemTime :: nat

definition BasicHeader_new :: BasicHeader where
  "BasicHeader_new = \<lparr>bh_format = 0, bh_flags = 0, bh_systemTime = 0\<rparr>"

definition kTrackEstimatedTime :: nat where "kTrackEstimatedTime = 1"

definition bytes_of_basic_header :: "BasicHeader \<Rightarrow> bytes" where
  "bytes_of_basic_header header =
     pack_elements 1 (bh_format header) @ pack_elements 3 (bh_flags header) @ pack_elements 4 (bh_systemTime header)
     @ replicate 8 0"

definition basic_header_of_bytes :: "bytes \<Rightarrow> BasicHeader" where
  "basic_header_of_bytes bs =
     \<lparr>bh_format = nat (ReadFrom (take 1 bs)), bh_flags = nat (ReadFrom (take 3 (drop 1 bs))),
      bh_systemTime = nat (ReadFrom (take 4 (drop 4 bs)))\<rparr>"

definition ReadHeader :: "crypto \<Rightarrow> Settings \<Rightarrow> File \<Rightarrow> (BasicHeader option \<times> File) option" where
  "ReadHeader c settings binlog =
     (if File_offset binlog \<noteq> 0 then Some (None, binlog)
      else map_option (\<lambda>(got, binlog1).
        let result = basic_header_of_bytes got
        in (if length got \<noteq> 16 then None
            else if bh_format result \<noteq> 0 then None
            else if trackEstimatedTime settings \<noteq> odd (bh_flags result) then None
            else Some result, binlog1)) (File_read c 16 binlog))"

section \<open>Kinds of records\<close>

datatype record_kind = KindStore | KindStoreWithTime | KindMultiStore | KindMultiStoreWithTime | KindMultiRemove | KindMultiAccess

fun kind_type :: "record_kind \<Rightarrow> 8 word" where
  "kind_type KindStore = kType_Store"
| "kind_type KindStoreWithTime = kType_Store"
| "kind_type KindMultiStore = kType_MultiStore"
| "kind_type KindMultiStoreWithTime = kType_MultiStore"
| "kind_type KindMultiRemove = kType_MultiRemove"
| "kind_type KindMultiAccess = kType_MultiAccess"

text \<open>The size of the record or of the head of a bundle, and that of the parts of a bundle.\<close>

fun kind_size :: "record_kind \<Rightarrow> nat" where
  "kind_size KindStore = 32"
| "kind_size KindStoreWithTime = 48"
| "kind_size kind = 16"

fun kind_part :: "record_kind \<Rightarrow> nat option" where
  "kind_part KindStore = None"
| "kind_part KindStoreWithTime = None"
| "kind_part KindMultiStore = Some 32"
| "kind_part KindMultiStoreWithTime = Some 48"
| "kind_part KindMultiRemove = Some 16"
| "kind_part KindMultiAccess = Some 16"

text \<open>Only a bundle of accesses may be empty.\<close>

fun validateCount :: "record_kind \<Rightarrow> bytes \<Rightarrow> int" where
  "validateCount KindMultiAccess head = ReadFrom (take 3 (drop 1 head))"
| "validateCount kind head = ValidateStrictCount (take 3 (drop 1 head))"

definition ReadRecordSizeMulti :: "record_kind \<Rightarrow> nat \<Rightarrow> bytes \<Rightarrow> int \<Rightarrow> int" where
  "ReadRecordSizeMulti kind part data partsLimit =
     (if length data < kind_size kind then kRecordSizeUnknown
      else
        let count = validateCount kind data
        in if 0 \<le> count \<and> count \<le> partsLimit then int (kind_size kind) + count * int part else kRecordSizeInvalid)"

fun ReadRecordSize_kinds :: "record_kind list \<Rightarrow> 8 word \<Rightarrow> bytes \<Rightarrow> int \<Rightarrow> int" where
  "ReadRecordSize_kinds [] type data partsLimit = kRecordSizeInvalid"
| "ReadRecordSize_kinds (kind # other) type data partsLimit =
     (if type \<noteq> kind_type kind then ReadRecordSize_kinds other type data partsLimit
      else case kind_part kind of
          Some part \<Rightarrow> ReadRecordSizeMulti kind part data partsLimit
        | None \<Rightarrow> int (kind_size kind))"

definition ReadRecordSize :: "record_kind list \<Rightarrow> Settings \<Rightarrow> bytes \<Rightarrow> int" where
  "ReadRecordSize kinds settings data =
     (if data = [] then kRecordSizeUnknown else ReadRecordSize_kinds kinds (hd data) data (maxBundledRecords settings))"

text \<open>\<^verbatim>\<open>CheckSettings\<close>: the buffer is large enough for every record.\<close>

definition CheckSettings :: "record_kind list \<Rightarrow> Settings \<Rightarrow> bool" where
  "CheckSettings kinds settings =
     list_all (\<lambda>kind. case kind_part kind of
         Some part \<Rightarrow> int (kind_size kind) + maxBundledRecords settings * int part \<le> readBlockSize settings
       | None \<Rightarrow> int (kind_size kind) \<le> readBlockSize settings) kinds"

section \<open>Handling a record\<close>

fun split_parts :: "nat \<Rightarrow> nat \<Rightarrow> bytes \<Rightarrow> bytes list" where
  "split_parts 0 part bs = []"
| "split_parts (Suc n) part bs = take part bs # split_parts n part (drop part bs)"

definition record_of_kind :: "record_kind \<Rightarrow> bytes \<Rightarrow> bytes list \<Rightarrow> binlog_record" where
  "record_of_kind kind data parts =
     (case kind of
       KindStore \<Rightarrow> RecordStore (store_of_bytes data)
     | KindStoreWithTime \<Rightarrow> RecordStoreWithTime (store_with_time_of_bytes data)
     | KindMultiStore \<Rightarrow> RecordMultiStore (map store_of_bytes parts)
     | KindMultiStoreWithTime \<Rightarrow> RecordMultiStoreWithTime (map store_with_time_of_bytes parts)
     | KindMultiRemove \<Rightarrow> RecordMultiRemove (map key_of_bytes parts)
     | KindMultiAccess \<Rightarrow> RecordMultiAccess (time_of_bytes (take 12 (drop 4 data))) (map key_of_bytes parts))"

fun HandleRecord_kinds :: "record_kind list \<Rightarrow> 8 word \<Rightarrow> bytes \<Rightarrow> binlog_record option" where
  "HandleRecord_kinds [] type data = None"
| "HandleRecord_kinds (kind # other) type data =
     (if type \<noteq> kind_type kind then HandleRecord_kinds other type data
      else case kind_part kind of
          Some part \<Rightarrow>
            (let count = validateCount kind data
             in if length data < kind_size kind \<or> int (length data) \<noteq> int (kind_size kind) + count * int part then None
                else Some (record_of_kind kind data (split_parts (nat count) part (drop (kind_size kind) data))))
        | None \<Rightarrow> if length data \<noteq> kind_size kind then None else Some (record_of_kind kind data []))"

definition HandleRecord :: "record_kind list \<Rightarrow> bytes \<Rightarrow> binlog_record option" where
  "HandleRecord kinds data = (if data = [] then None else HandleRecord_kinds kinds (hd data) data)"

section \<open>The buffer\<close>

record BinlogWrapper =
  bw_binlog :: File
  bw_settings :: Settings
  bw_till :: int
  bw_part :: bytes
  bw_finished :: bool
  bw_failed :: bool

definition BinlogWrapper_new :: "File \<Rightarrow> Settings \<Rightarrow> int \<Rightarrow> BinlogWrapper" where
  "BinlogWrapper_new binlog settings till =
     \<lparr>bw_binlog = binlog, bw_settings = settings, bw_till = (if till \<noteq> 0 then till else File_size binlog),
      bw_part = [], bw_finished = False, bw_failed = False\<rparr>"

definition BinlogWrapper_finish :: "nat \<Rightarrow> BinlogWrapper \<Rightarrow> BinlogWrapper" where
  "BinlogWrapper_finish rollback w =
     w\<lparr>bw_failed := bw_failed w \<or> 0 < rollback,
       bw_binlog := snd (File_seek (File_offset (bw_binlog w) - int (rollback + length (bw_part w))) (bw_binlog w))\<rparr>"

definition readPart :: "crypto \<Rightarrow> BinlogWrapper \<Rightarrow> (bool \<times> BinlogWrapper) option" where
  "readPart c w =
     (if bw_finished w then Some (False, w)
      else
        let left = bw_till w - File_offset (bw_binlog w)
        in if left = 0 then Some (False, BinlogWrapper_finish 0 w)
           else
             let amount = min left (readBlockSize (bw_settings w) - int (length (bw_part w)))
             in if amount \<le> 0 then None
                else map_option (\<lambda>(got, binlog).
                  let w1 = w\<lparr>bw_binlog := binlog\<rparr>
                  in if got = [] then (False, BinlogWrapper_finish 0 w1)
                     else (True, w1\<lparr>bw_part := bw_part w @ got\<rparr>)) (File_read c (nat amount) (bw_binlog w)))"

text \<open>The bytes of the next record, none when there is none.\<close>

definition readRecord :: "record_kind list \<Rightarrow> BinlogWrapper \<Rightarrow> (bytes \<times> BinlogWrapper) option" where
  "readRecord kinds w =
     (if bw_finished w then Some ([], w)
      else
        let size = ReadRecordSize kinds (bw_settings w) (bw_part w)
        in if size = kRecordSizeUnknown \<or> int (length (bw_part w)) < size then Some ([], w)
           else if size = kRecordSizeInvalid
           then Some ([], (BinlogWrapper_finish 0 w)\<lparr>bw_finished := True, bw_failed := True\<rparr>)
           else if size < 0 then None
           else Some (take (nat size) (bw_part w), w\<lparr>bw_part := drop (nat size) (bw_part w)\<rparr>))"

text \<open>The loop over the records in the buffer, with the state of the handlers; the flag is the result.\<close>

function handle_records :: "record_kind list \<Rightarrow> (binlog_record \<Rightarrow> 's \<Rightarrow> (bool \<times> 's) option) \<Rightarrow> BinlogWrapper \<Rightarrow> 's \<Rightarrow>
    (bool \<times> BinlogWrapper \<times> 's) option" where
  "handle_records kinds handler w st =
     (case readRecord kinds w of
       None \<Rightarrow> None
     | Some (data, w1) \<Rightarrow>
         if data = [] then Some (False, w1, st)
         else
           (case HandleRecord kinds data of
             None \<Rightarrow> None
           | Some record \<Rightarrow>
               (case handler record st of
                 None \<Rightarrow> None
               | Some (handled, st1) \<Rightarrow>
                   if handled then handle_records kinds handler w1 st1
                   else Some (True, BinlogWrapper_finish (length data) w1, st1))))"
  by pat_completeness auto
termination
  by (relation "measure (\<lambda>(kinds, handler, w, st). length (bw_part w))")
    (auto simp: readRecord_def Let_def split: if_split_asm)

declare handle_records.simps [simp del]

definition readTillEnd :: "crypto \<Rightarrow> record_kind list \<Rightarrow> (binlog_record \<Rightarrow> 's \<Rightarrow> (bool \<times> 's) option) \<Rightarrow> BinlogWrapper \<Rightarrow> 's \<Rightarrow>
    (bool \<times> BinlogWrapper \<times> 's) option" where
  "readTillEnd c kinds handler w st =
     Option.bind (readPart c w) (\<lambda>(more, w1). if more then handle_records kinds handler w1 st else Some (True, w1, st))"

text \<open>\<^verbatim>\<open>readBinlogHelper\<close> of the database.\<close>

partial_function (option) readBinlogHelper :: "crypto \<Rightarrow> record_kind list \<Rightarrow> (binlog_record \<Rightarrow> 's \<Rightarrow> (bool \<times> 's) option) \<Rightarrow>
    BinlogWrapper \<Rightarrow> 's \<Rightarrow> (BinlogWrapper \<times> 's) option" where
  "readBinlogHelper c kinds handler w st =
     Option.bind (readTillEnd c kinds handler w st)
       (\<lambda>(ended, w1, st1). if ended then Some (w1, st1) else readBinlogHelper c kinds handler w1 st1)"

section \<open>Reading without a buffer\<close>

text \<open>
  The reference: records are cut off all the bytes that are left. The result has the number of
  bytes that were taken and whether a wrong record or a handler stopped the reading.
\<close>

lemma kind_size_16 [simp]: "16 \<le> kind_size kind"
  by (cases kind) simp_all

lemma ReadRecordSize_cases:
  "ReadRecordSize kinds settings data = kRecordSizeUnknown \<or> ReadRecordSize kinds settings data = kRecordSizeInvalid
    \<or> 16 \<le> ReadRecordSize kinds settings data"
proof -
  have "16 \<le> int (kind_size kind)" for kind by (metis kind_size_16 of_nat_le_iff of_nat_numeral)
  then have k: "0 \<le> count \<Longrightarrow> 16 \<le> int (kind_size kind) + count * int part" for kind count part
    by (simp add: add_increasing2)
  then have "ReadRecordSize_kinds kinds type data limit = kRecordSizeUnknown
      \<or> ReadRecordSize_kinds kinds type data limit = kRecordSizeInvalid \<or> 16 \<le> ReadRecordSize_kinds kinds type data limit" for type limit
    by (induction kinds type data limit rule: ReadRecordSize_kinds.induct)
      (auto simp: ReadRecordSizeMulti_def Let_def k split: option.splits)
  then show ?thesis by (simp add: ReadRecordSize_def)
qed

function run_records :: "record_kind list \<Rightarrow> Settings \<Rightarrow> (binlog_record \<Rightarrow> 's \<Rightarrow> (bool \<times> 's) option) \<Rightarrow> bytes \<Rightarrow> 's \<Rightarrow>
    ('s \<times> nat \<times> bool) option" where
  "run_records kinds settings handler bs st =
     (let size = ReadRecordSize kinds settings bs
      in if size = kRecordSizeUnknown \<or> int (length bs) < size then Some (st, 0, False)
         else if size = kRecordSizeInvalid then Some (st, 0, True)
         else
           (case HandleRecord kinds (take (nat size) bs) of
             None \<Rightarrow> None
           | Some record \<Rightarrow>
               (case handler record st of
                 None \<Rightarrow> None
               | Some (handled, st1) \<Rightarrow>
                   if \<not> handled then Some (st1, 0, True)
                   else map_option (\<lambda>(st2, n, failed). (st2, nat size + n, failed))
                     (run_records kinds settings handler (drop (nat size) bs) st1))))"
  by pat_completeness auto
termination
proof (relation "measure (\<lambda>(kinds, settings, handler, bs, st). length bs)", goal_cases)
  case (2 kinds settings handler bs st size)
  then show ?case using ReadRecordSize_cases [of kinds settings bs] by auto
qed simp

declare run_records.simps [simp del]

end
