(* ===== verification/CacheBinlogReads.thy ===== *)
theory CacheBinlogReads
  imports CacheBinlog StorageFileRoundtrip
begin

text \<open>
  Reading a binlog block by block gives what reading it at once gives, and reading what was written
  gives the records, also when the last one was cut off.
\<close>

section \<open>Records at the front of the bytes\<close>

lemma nat_mod_16: "0 \<le> x \<Longrightarrow> x mod 16 = 0 \<Longrightarrow> nat x mod 16 = 0"
  using nat_mod_distrib [of x 16] by simp

lemma validateCount_append: "kind_size kind \<le> length data \<Longrightarrow> validateCount kind (data @ rest) = validateCount kind data"
  by (cases kind) (auto simp: ValidateStrictCount_def)

lemma ReadRecordSize_append:
  assumes "ReadRecordSize kinds settings data \<noteq> kRecordSizeUnknown"
  shows "ReadRecordSize kinds settings (data @ rest) = ReadRecordSize kinds settings data"
proof -
  have data: "data \<noteq> []" using assms by (auto simp: ReadRecordSize_def)
  have "ReadRecordSize_kinds kinds type data limit \<noteq> kRecordSizeUnknown \<Longrightarrow>
      ReadRecordSize_kinds kinds type (data @ rest) limit = ReadRecordSize_kinds kinds type data limit" for type limit
    by (induction kinds type data limit rule: ReadRecordSize_kinds.induct)
      (auto simp: ReadRecordSizeMulti_def Let_def validateCount_append split: option.splits if_splits)
  then show ?thesis using assms data by (simp add: ReadRecordSize_def)
qed

lemma ReadRecordSize_unknown:
  assumes "ReadRecordSize kinds settings data = kRecordSizeUnknown"
  shows "length data < 16"
proof -
  have "ReadRecordSize_kinds kinds type data limit = kRecordSizeUnknown \<Longrightarrow> length data < 16" for type limit
  proof (induction kinds type data limit rule: ReadRecordSize_kinds.induct)
    case (2 kind other type data limit)
    then show ?case
      by (cases kind) (auto simp: ReadRecordSizeMulti_def Let_def kRecordSizeUnknown_def kRecordSizeInvalid_def
          split: if_split_asm)
  qed (simp add: kRecordSizeUnknown_def kRecordSizeInvalid_def)
  then show ?thesis using assms by (auto simp: ReadRecordSize_def split: if_split_asm)
qed

lemma ReadRecordSize_bounds:
  assumes "CheckSettings kinds settings" and "ReadRecordSize kinds settings data = rs" and "0 \<le> rs"
  shows "rs \<le> readBlockSize settings" and "nat rs mod 16 = 0" and "0 < rs"
proof -
  have part: "int part mod 16 = 0" if "kind_part kind = Some part" for kind part
    using that by (cases kind) auto
  have k: "int (kind_size kind) mod 16 = 0" for kind by (cases kind) auto
  have "CheckSettings kinds settings \<Longrightarrow> ReadRecordSize_kinds kinds type data (maxBundledRecords settings) = rs \<Longrightarrow>
      rs \<le> readBlockSize settings \<and> rs mod 16 = 0" for type
  proof (induction kinds)
    case (Cons kind kinds)
    show ?case
    proof (cases "type = kind_type kind")
      case True
      show ?thesis
      proof (cases "kind_part kind")
        case None
        then show ?thesis using Cons.prems True k by (auto simp: CheckSettings_def)
      next
        case (Some part)
        then have c: "0 \<le> validateCount kind data" "validateCount kind data \<le> maxBundledRecords settings"
          "rs = int (kind_size kind) + validateCount kind data * int part"
          using Cons.prems True assms(3)
          by (auto simp: ReadRecordSizeMulti_def Let_def kRecordSizeUnknown_def kRecordSizeInvalid_def split: if_split_asm)
        have "rs \<le> int (kind_size kind) + maxBundledRecords settings * int part"
          unfolding c(3) using c(2) by (simp add: mult_right_mono)
        moreover have "16 dvd rs" unfolding c(3) using k part [OF Some] by (simp add: dvd_eq_mod_eq_0 [symmetric])
        ultimately show ?thesis using Cons.prems(1) Some by (auto simp: CheckSettings_def)
      qed
    qed (use Cons in \<open>auto simp: CheckSettings_def\<close>)
  qed (use assms(3) in \<open>simp add: kRecordSizeInvalid_def\<close>)
  then have both: "rs \<le> readBlockSize settings \<and> rs mod 16 = 0"
    using assms by (auto simp: ReadRecordSize_def kRecordSizeUnknown_def split: if_split_asm)
  then show "rs \<le> readBlockSize settings" by (rule conjunct1)
  show "nat rs mod 16 = 0" by (rule nat_mod_16 [OF assms(3) both [THEN conjunct2]])
  show "0 < rs" using ReadRecordSize_cases [of kinds settings data] assms(2,3)
    by (auto simp: kRecordSizeUnknown_def kRecordSizeInvalid_def)
qed

section \<open>The buffer holds the bytes from a position on\<close>

text \<open>
  \<open>p\<close> is the position of the next record; the bytes of the buffer are those up to the offset of the
  file, which is at most \<open>sz\<close>, where reading ends.
\<close>

definition reader_at :: "(bytes \<Rightarrow> bytes \<Rightarrow> bytes) \<Rightarrow> crypto \<Rightarrow> bytes \<Rightarrow> bytes \<Rightarrow> nat \<Rightarrow> BinlogWrapper \<Rightarrow> nat \<Rightarrow> bool" where
  "reader_at block c key D sz w p \<longleftrightarrow>
     (\<exists>off. file_rep block c key (bw_binlog w) D off sz \<and> off \<le> sz \<and> p \<le> off \<and> bw_part w = take (off - p) (drop p D)
       \<and> p mod 16 = 0 \<and> bw_till w = int sz \<and> int (off - p) \<le> readBlockSize (bw_settings w))"

definition reader_settings :: "record_kind list \<Rightarrow> Settings \<Rightarrow> bool" where
  "reader_settings kinds settings \<longleftrightarrow> CheckSettings kinds settings \<and> readBlockSize settings mod 16 = 0 \<and> 16 \<le> readBlockSize settings"

lemma reader_at_part:
  assumes "reader_at block c key D sz w p"
  shows "length (bw_part w) = nat (File_offset (bw_binlog w)) - p" and "int p \<le> File_offset (bw_binlog w)"
    and "File_offset (bw_binlog w) = int p + int (length (bw_part w))" and "length (bw_part w) mod 16 = 0"
    and "p + length (bw_part w) \<le> sz" and "p mod 16 = 0" and "sz \<le> length D"
    and "bw_part w = take (length (bw_part w)) (drop p D)"
proof -
  obtain off where o: "file_rep block c key (bw_binlog w) D off sz" "off \<le> sz" "p \<le> off"
    "bw_part w = take (off - p) (drop p D)" "p mod 16 = 0"
    using assms by (auto simp: reader_at_def)
  note f = file_rep_simps [OF o(1)]
  have l: "length (bw_part w) = off - p" using o f(7) by simp
  have "off - p = 16 * (off div 16 - p div 16)"
    using f(4) o(5) by (metis add.right_neutral diff_mult_distrib2 mult_div_mod_eq)
  then show "length (bw_part w) mod 16 = 0" by (simp add: l)
  show "length (bw_part w) = nat (File_offset (bw_binlog w)) - p" by (simp add: l f(2))
  show "int p \<le> File_offset (bw_binlog w)" by (simp add: f(2) o(3))
  show "File_offset (bw_binlog w) = int p + int (length (bw_part w))" using l f(2) o(3) by simp
  show "p + length (bw_part w) \<le> sz" using l o(2,3) by simp
  show "p mod 16 = 0" by (rule o(5))
  show "sz \<le> length D" by (rule f(7))
  show "bw_part w = take (length (bw_part w)) (drop p D)" using l o(4) by simp
qed

lemma finish_at:
  assumes r: "reader_at block c key D sz w q" and p: "p + rollback = q" "p mod 16 = 0"
  shows "\<exists>f. BinlogWrapper_finish rollback w = w\<lparr>bw_failed := bw_failed w \<or> 0 < rollback, bw_binlog := f\<rparr>
    \<and> file_rep block c key f D p sz \<and> f_data f = f_data (bw_binlog w) \<and> f_results f = f_results (bw_binlog w)"
proof -
  obtain off where o: "file_rep block c key (bw_binlog w) D off sz" using r by (auto simp: reader_at_def)
  have le: "p \<le> sz" using reader_at_part(5) [OF r] p(1) by simp
  have pos: "File_offset (bw_binlog w) - int (rollback + length (bw_part w)) = int p"
    using reader_at_part(3) [OF r] p(1) by simp
  obtain f where "File_seek (int p) (bw_binlog w) = (True, f)" "file_rep block c key f D p sz"
    "f_data f = f_data (bw_binlog w)" "f_results f = f_results (bw_binlog w)"
    using File_seek_rep [OF o p(2) le] by blast
  then show ?thesis unfolding BinlogWrapper_finish_def pos by auto
qed

section \<open>Reading in blocks\<close>

definition same_wrapper :: "BinlogWrapper \<Rightarrow> BinlogWrapper \<Rightarrow> bool" where
  "same_wrapper w w' \<longleftrightarrow> bw_settings w' = bw_settings w \<and> bw_till w' = bw_till w
     \<and> f_data (bw_binlog w') = f_data (bw_binlog w) \<and> f_results (bw_binlog w') = f_results (bw_binlog w)"

lemma readPart_more:
  assumes c: "ctr_mode block c" and r: "reader_at block c key D sz w p" and s: "reader_settings kinds (bw_settings w)"
    and fin: "\<not> bw_finished w" and more: "p + length (bw_part w) < sz"
    and room: "int (length (bw_part w)) < readBlockSize (bw_settings w)"
  shows "\<exists>w'. readPart c w = Some (True, w') \<and> reader_at block c key D sz w' p \<and> length (bw_part w) < length (bw_part w')
    \<and> same_wrapper w w' \<and> bw_finished w' = bw_finished w \<and> bw_failed w' = bw_failed w"
proof -
  obtain off where o: "file_rep block c key (bw_binlog w) D off sz" "off \<le> sz" "p \<le> off"
    "bw_part w = take (off - p) (drop p D)" "p mod 16 = 0" "bw_till w = int sz"
    using r by (auto simp: reader_at_def)
  note f = file_rep_simps [OF o(1)]
  have part: "length (bw_part w) = off - p" using o f(7) by simp
  define amount where "amount = min (sz - off) (nat (readBlockSize (bw_settings w)) - (off - p))"
  have lt: "off < sz" using more part o(3) by simp
  have block: "readBlockSize (bw_settings w) mod 16 = 0" "0 < readBlockSize (bw_settings w)"
    using s by (auto simp: reader_settings_def)
  have m: "(a - b) mod 16 = 0" if "a mod 16 = 0" "b mod 16 = 0" for a b :: nat
    using that by (metis add.right_neutral diff_mult_distrib2 mod_mult_self1_is_0 mult_div_mod_eq)
  have am: "amount mod 16 = 0"
  proof -
    have "nat (readBlockSize (bw_settings w)) mod 16 = 0" using block nat_mod_16 by simp
    then have "(nat (readBlockSize (bw_settings w)) - (off - p)) mod 16 = 0" "(sz - off) mod 16 = 0"
      using m f(4,5) o(5) by auto
    then show ?thesis by (simp add: amount_def min_def)
  qed
  have apos: "0 < amount" using lt room part by (simp add: amount_def)
  have amount: "min (int sz - int off) (readBlockSize (bw_settings w) - int (length (bw_part w))) = int amount"
  proof -
    have rb: "readBlockSize (bw_settings w) = int (nat (readBlockSize (bw_settings w)))" using block by simp
    have "off - p < nat (readBlockSize (bw_settings w))" using room part rb by linarith
    then show ?thesis using lt part o(3) rb unfolding amount_def by linarith
  qed
  have "amount \<le> length (drop off D)" using f(7) o(2) by (simp add: amount_def)
  then have got: "whole_blocks (take amount (drop off D)) = take amount (drop off D)" "length (take amount (drop off D)) = amount"
    using am by (simp_all add: whole_blocks_id)
  obtain f' where f': "File_read c amount (bw_binlog w) = Some (take amount (drop off D), f')"
    "file_rep block c key f' D (off + amount) sz" "f_data f' = f_data (bw_binlog w)" "f_results f' = f_results (bw_binlog w)"
    using File_read_rep [OF c o(1) am] got by auto
  let ?w = "w\<lparr>bw_binlog := f', bw_part := bw_part w @ take amount (drop off D)\<rparr>"
  have ne: "take amount (drop off D) \<noteq> []" using got(2) apos by auto
  have "readPart c w = Some (True, ?w)"
    unfolding readPart_def Let_def o(6) f(2) amount using fin lt apos ne f'(1) by simp
  moreover have "reader_at block c key D sz ?w p"
  proof -
    have "bw_part w @ take amount (drop off D) = take (off + amount - p) (drop p D)"
    proof -
      have "take (off - p + amount) (drop p D) = take (off - p) (drop p D) @ take amount (drop (off - p) (drop p D))"
        by (rule take_add)
      moreover have "off - p + amount = off + amount - p" "drop (off - p) (drop p D) = drop off D" using o(3) by simp_all
      ultimately show ?thesis using o(4) by simp
    qed
    moreover have "off + amount \<le> sz" using lt by (simp add: amount_def)
    moreover have "int (off + amount - p) \<le> readBlockSize (bw_settings w)"
      using room part o(3) block by (auto simp: amount_def min_def)
    ultimately show ?thesis using f'(2) o(3,5,6) unfolding reader_at_def by (intro exI [of _ "off + amount"]) simp
  qed
  ultimately show ?thesis using ne f'(3,4) by (auto simp: same_wrapper_def)
qed

text \<open>
  What is left from a position, and what the reference makes of it: the records that the buffer
  holds are those at the front of what is left.
\<close>

definition unread :: "bytes \<Rightarrow> nat \<Rightarrow> nat \<Rightarrow> bytes" where
  "unread D sz p = take (sz - p) (drop p D)"

lemma unread_part:
  assumes "reader_at block c key D sz w p"
  shows "unread D sz p = bw_part w @ take (sz - p - length (bw_part w)) (drop (p + length (bw_part w)) D)"
    and "length (unread D sz p) = sz - p"
proof -
  note l = reader_at_part [OF assms]
  have "sz - p = length (bw_part w) + (sz - p - length (bw_part w))" using l(5) by simp
  then have "unread D sz p = take (length (bw_part w)) (drop p D) @
      take (sz - p - length (bw_part w)) (drop (length (bw_part w)) (drop p D))"
    unfolding unread_def by (metis take_add)
  then show "unread D sz p = bw_part w @ take (sz - p - length (bw_part w)) (drop (p + length (bw_part w)) D)"
    using l(8) by (simp add: add.commute)
  show "length (unread D sz p) = sz - p" using l(5,7) by (simp add: unread_def)
qed

lemma reader_at_drop:
  assumes r: "reader_at block c key D sz w p" and n: "n \<le> length (bw_part w)" "n mod 16 = 0"
  shows "reader_at block c key D sz (w\<lparr>bw_part := drop n (bw_part w)\<rparr>) (p + n)"
    and "take n (bw_part w) = take n (unread D sz p)" and "drop n (unread D sz p) = unread D sz (p + n)"
proof -
  obtain off where o: "file_rep block c key (bw_binlog w) D off sz" "off \<le> sz" "p \<le> off"
    "bw_part w = take (off - p) (drop p D)" "p mod 16 = 0" "bw_till w = int sz"
    "int (off - p) \<le> readBlockSize (bw_settings w)"
    using r by (auto simp: reader_at_def)
  have l: "length (bw_part w) = off - p" using o file_rep_simps(7) [OF o(1)] by simp
  have "drop n (bw_part w) = take (off - (p + n)) (drop (p + n) D)" using o(4) by (simp add: drop_take add.commute)
  moreover have "(p + n) mod 16 = 0" using o(5) n(2) by (rule add_mod_16)
  ultimately show "reader_at block c key D sz (w\<lparr>bw_part := drop n (bw_part w)\<rparr>) (p + n)"
    unfolding reader_at_def using o n(1) l by (intro exI [of _ off]) auto
  show "take n (bw_part w) = take n (unread D sz p)" using unread_part(1) [OF r] n(1) by simp
  show "drop n (unread D sz p) = unread D sz (p + n)" by (simp add: unread_def drop_take add.commute)
qed

text \<open>What a step of the loop or its end means: the result of the reference from where it stands.\<close>

definition ended_at :: "(bytes \<Rightarrow> bytes \<Rightarrow> bytes) \<Rightarrow> crypto \<Rightarrow> bytes \<Rightarrow> bytes \<Rightarrow> nat \<Rightarrow> BinlogWrapper \<Rightarrow> nat \<Rightarrow> bool" where
  "ended_at block c key D sz w p \<longleftrightarrow> file_rep block c key (bw_binlog w) D p sz"

lemma handle_records_ok:
  assumes "reader_at block c key D sz w p" and "reader_settings kinds (bw_settings w)" and "\<not> bw_finished w" and "\<not> bw_failed w"
    and "run_records kinds (bw_settings w) handler (unread D sz p) st = Some (st', n, failed)"
  shows "\<exists>ended w1 st1. handle_records kinds handler w st = Some (ended, w1, st1) \<and> same_wrapper w w1
    \<and> (if ended \<or> bw_finished w1 then ended_at block c key D sz w1 (p + n) \<and> st1 = st' \<and> failed \<and> bw_failed w1
       else \<exists>m \<le> n. reader_at block c key D sz w1 (p + m) \<and> \<not> bw_failed w1
         \<and> p + m + length (bw_part w1) = p + length (bw_part w)
         \<and> run_records kinds (bw_settings w) handler (unread D sz (p + m)) st1 = Some (st', n - m, failed)
         \<and> int (length (bw_part w1)) < readBlockSize (bw_settings w)
         \<and> (p + m + length (bw_part w1) = sz \<longrightarrow> m = n \<and> st1 = st' \<and> \<not> failed))"
  using assms
proof (induction kinds handler w st arbitrary: p n rule: handle_records.induct)
  case (1 kinds handler w st)
  define rs where "rs = ReadRecordSize kinds (bw_settings w) (bw_part w)"
  note un = unread_part [OF 1(2)]
  note l = reader_at_part [OF 1(2)]
  have cs: "CheckSettings kinds (bw_settings w)" "16 \<le> readBlockSize (bw_settings w)"
    using 1(3) by (simp_all add: reader_settings_def)
  consider (wait) "rs = kRecordSizeUnknown \<or> int (length (bw_part w)) < rs" | (bad) "rs = kRecordSizeInvalid"
    | (good) "16 \<le> rs" "rs \<le> int (length (bw_part w))"
    using ReadRecordSize_cases [of kinds "bw_settings w" "bw_part w"] by (fold rs_def) linarith
  then show ?case
  proof cases
    case wait
    have rd: "readRecord kinds w = Some ([], w)" using 1(4) wait by (auto simp: readRecord_def rs_def [symmetric] Let_def)
    have room: "int (length (bw_part w)) < readBlockSize (bw_settings w)"
    proof (cases "rs = kRecordSizeUnknown")
      case True
      then show ?thesis using ReadRecordSize_unknown [of kinds "bw_settings w" "bw_part w"] cs(2) by (simp add: rs_def)
    next
      case False
      then have "int (length (bw_part w)) < rs" using wait by simp
      moreover from this have "0 \<le> rs" by linarith
      ultimately show ?thesis using ReadRecordSize_bounds(1) [OF cs(1) rs_def [symmetric]] by linarith
    qed
    have stop: "n = 0 \<and> st = st' \<and> \<not> failed" if "p + length (bw_part w) = sz"
    proof -
      have u: "unread D sz p = bw_part w" using un(1) that by simp
      show ?thesis using 1(6) wait unfolding u by (subst (asm) run_records.simps) (auto simp: rs_def [symmetric] Let_def)
    qed
    show ?thesis
      using rd 1(2,4,5,6) room stop
      by (subst handle_records.simps) (auto intro!: exI [of _ 0] simp: same_wrapper_def)
  next
    case bad
    obtain f where f: "BinlogWrapper_finish 0 w = w\<lparr>bw_failed := bw_failed w \<or> 0 < (0::nat), bw_binlog := f\<rparr>"
      "file_rep block c key f D p sz" "f_data f = f_data (bw_binlog w)" "f_results f = f_results (bw_binlog w)"
      using finish_at [OF 1(2), of p 0] l(6) by auto
    have rd: "readRecord kinds w = Some ([], (BinlogWrapper_finish 0 w)\<lparr>bw_finished := True, bw_failed := True\<rparr>)"
      using 1(4) bad by (auto simp: readRecord_def rs_def [symmetric] Let_def kRecordSizeInvalid_def kRecordSizeUnknown_def)
    have "rs \<noteq> kRecordSizeUnknown" using bad by (simp add: kRecordSizeInvalid_def kRecordSizeUnknown_def)
    then have u: "ReadRecordSize kinds (bw_settings w) (unread D sz p) = rs"
      unfolding un(1) rs_def by (rule ReadRecordSize_append)
    have "n = 0 \<and> st = st' \<and> failed" using 1(6) bad u
      by (subst (asm) run_records.simps) (auto simp: Let_def kRecordSizeInvalid_def kRecordSizeUnknown_def)
    then show ?thesis using rd f by (subst handle_records.simps) (auto simp: ended_at_def same_wrapper_def)
  next
    case good
    define data where "data = take (nat rs) (bw_part w)"
    define w1 where "w1 = w\<lparr>bw_part := drop (nat rs) (bw_part w)\<rparr>"
    have rd: "readRecord kinds w = Some (data, w1)"
      using 1(4) good by (auto simp: readRecord_def rs_def [symmetric] Let_def kRecordSizeInvalid_def kRecordSizeUnknown_def
        data_def w1_def)
    have nrs: "nat rs \<le> length (bw_part w)" "nat rs mod 16 = 0"
      using good ReadRecordSize_bounds(2) [OF cs(1) rs_def [symmetric]] by auto
    have ne: "data \<noteq> []" "length data = nat rs" using good nrs by (auto simp: data_def)
    note d = reader_at_drop [OF 1(2) nrs]
    have "rs \<noteq> kRecordSizeUnknown" using good by (simp add: kRecordSizeUnknown_def)
    then have u: "ReadRecordSize kinds (bw_settings w) (unread D sz p) = rs"
      unfolding un(1) rs_def by (rule ReadRecordSize_append)
    have lu: "rs \<le> int (length (unread D sz p))" using good(2) l(5) un(2) by simp
    have du: "data = take (nat rs) (unread D sz p)" using d(2) by (simp add: data_def)
    have run: "(case HandleRecord kinds data of None \<Rightarrow> None
        | Some record \<Rightarrow> (case handler record st of None \<Rightarrow> None
          | Some (handled, st1) \<Rightarrow> if \<not> handled then Some (st1, 0, True)
              else map_option (\<lambda>(st2, n, failed). (st2, nat rs + n, failed))
                (run_records kinds (bw_settings w) handler (unread D sz (p + nat rs)) st1))) = Some (st', n, failed)"
    proof -
      have "\<not> (rs = kRecordSizeUnknown \<or> int (length (unread D sz p)) < rs)" "rs \<noteq> kRecordSizeInvalid"
        using good lu by (simp_all add: kRecordSizeInvalid_def kRecordSizeUnknown_def)
      then show ?thesis using 1(6) unfolding run_records.simps [of _ _ _ "unread D sz p"] Let_def u
        by (simp only: if_False du d(3))
    qed
    then obtain rec handled st1 where h: "HandleRecord kinds data = Some rec" "handler rec st = Some (handled, st1)"
      by (auto split: option.splits)
    show ?thesis
    proof (cases handled)
      case False
      then have e: "n = 0" "st1 = st'" "failed" using run h by auto
      obtain f where f: "BinlogWrapper_finish (length data) w1 = w1\<lparr>bw_failed := bw_failed w1 \<or> 0 < length data, bw_binlog := f\<rparr>"
        "file_rep block c key f D p sz" "f_data f = f_data (bw_binlog w1)" "f_results f = f_results (bw_binlog w1)"
        using finish_at [OF d(1) [folded w1_def], of p "length data"] ne(2) l(6) by auto
      have "handle_records kinds handler w st = Some (True, BinlogWrapper_finish (length data) w1, st1)"
        using rd ne(1) h False by (subst handle_records.simps) simp
      moreover have "same_wrapper w (BinlogWrapper_finish (length data) w1)" using f by (simp add: same_wrapper_def w1_def)
      moreover have "ended_at block c key D sz (BinlogWrapper_finish (length data) w1) (p + n)"
        using f e(1) by (simp add: ended_at_def)
      moreover have "bw_failed (BinlogWrapper_finish (length data) w1)" using f(1) ne(1) by simp
      ultimately show ?thesis using e by auto
    next
      case True
      then obtain n1 where n1: "run_records kinds (bw_settings w1) handler (unread D sz (p + nat rs)) st1 = Some (st', n1, failed)"
        "n = nat rs + n1" using run h by (auto simp: w1_def)
      have r1: "reader_at block c key D sz w1 (p + nat rs)" using d(1) by (simp add: w1_def)
      have s1: "reader_settings kinds (bw_settings w1)" "\<not> bw_finished w1" "\<not> bw_failed w1" using 1(3-5) by (simp_all add: w1_def)
      have sw: "same_wrapper w w1" by (simp add: same_wrapper_def w1_def)
      have step: "handle_records kinds handler w st = handle_records kinds handler w1 st1"
        using rd ne(1) h True by (subst handle_records.simps) simp
      obtain ended w2 st2 where IH: "handle_records kinds handler w1 st1 = Some (ended, w2, st2)" "same_wrapper w1 w2"
        "if ended \<or> bw_finished w2 then ended_at block c key D sz w2 (p + nat rs + n1) \<and> st2 = st' \<and> failed \<and> bw_failed w2
         else \<exists>m \<le> n1. reader_at block c key D sz w2 (p + nat rs + m) \<and> \<not> bw_failed w2
           \<and> p + nat rs + m + length (bw_part w2) = p + nat rs + length (bw_part w1)
           \<and> run_records kinds (bw_settings w1) handler (unread D sz (p + nat rs + m)) st2 = Some (st', n1 - m, failed)
           \<and> int (length (bw_part w2)) < readBlockSize (bw_settings w1)
           \<and> (p + nat rs + m + length (bw_part w2) = sz \<longrightarrow> m = n1 \<and> st2 = st' \<and> \<not> failed)"
        using 1(1) [OF rd refl ne(1) h(1) h(2) refl True r1 s1 n1(1)] by blast
      have "same_wrapper w w2" using sw IH(2) by (simp add: same_wrapper_def)
      moreover have "if ended \<or> bw_finished w2 then ended_at block c key D sz w2 (p + n) \<and> st2 = st' \<and> failed \<and> bw_failed w2
         else \<exists>m \<le> n. reader_at block c key D sz w2 (p + m) \<and> \<not> bw_failed w2
           \<and> p + m + length (bw_part w2) = p + length (bw_part w)
           \<and> run_records kinds (bw_settings w) handler (unread D sz (p + m)) st2 = Some (st', n - m, failed)
           \<and> int (length (bw_part w2)) < readBlockSize (bw_settings w)
           \<and> (p + m + length (bw_part w2) = sz \<longrightarrow> m = n \<and> st2 = st' \<and> \<not> failed)"
      proof (cases "ended \<or> bw_finished w2")
        case True
        then show ?thesis using IH(3) n1(2) by (simp add: add.assoc)
      next
        case False
        then obtain m where m: "m \<le> n1" "reader_at block c key D sz w2 (p + nat rs + m)" "\<not> bw_failed w2"
          "run_records kinds (bw_settings w1) handler (unread D sz (p + nat rs + m)) st2 = Some (st', n1 - m, failed)"
          "int (length (bw_part w2)) < readBlockSize (bw_settings w1)"
          "p + nat rs + m + length (bw_part w2) = sz \<longrightarrow> m = n1 \<and> st2 = st' \<and> \<not> failed"
          "p + nat rs + m + length (bw_part w2) = p + nat rs + length (bw_part w1)"
          using IH(3) by auto
        have sws: "bw_settings w1 = bw_settings w" "nat rs + length (bw_part w1) = length (bw_part w)"
          using nrs(1) by (simp_all add: w1_def)
        have "\<exists>m \<le> n. reader_at block c key D sz w2 (p + m) \<and> \<not> bw_failed w2
           \<and> p + m + length (bw_part w2) = p + length (bw_part w)
           \<and> run_records kinds (bw_settings w) handler (unread D sz (p + m)) st2 = Some (st', n - m, failed)
           \<and> int (length (bw_part w2)) < readBlockSize (bw_settings w)
           \<and> (p + m + length (bw_part w2) = sz \<longrightarrow> m = n \<and> st2 = st' \<and> \<not> failed)"
          using m n1(2) sws by (intro exI [of _ "nat rs + m"]) (simp add: add.assoc)
        then show ?thesis using False by simp
      qed
      moreover have "handle_records kinds handler w st = Some (ended, w2, st2)" using IH(1) step by simp
      ultimately show ?thesis by (intro exI [of _ ended] exI [of _ w2] exI [of _ st2] conjI)
    qed
  qed
qed

lemma readBinlogHelper_ok:
  assumes c: "ctr_mode block c"
  shows "reader_at block c key D sz w p \<Longrightarrow> reader_settings kinds (bw_settings w) \<Longrightarrow> \<not> bw_finished w \<Longrightarrow> \<not> bw_failed w \<Longrightarrow>
    run_records kinds (bw_settings w) handler (unread D sz p) st = Some (st', n, failed) \<Longrightarrow>
    int (length (bw_part w)) < readBlockSize (bw_settings w) \<Longrightarrow>
    (p + length (bw_part w) = sz \<longrightarrow> n = 0 \<and> st = st' \<and> \<not> failed) \<Longrightarrow>
    \<exists>w1. readBinlogHelper c kinds handler w st = Some (w1, st') \<and> ended_at block c key D sz w1 (p + n)
      \<and> bw_failed w1 = failed \<and> same_wrapper w w1"
proof (induction "sz - (p + length (bw_part w))" arbitrary: w p st n rule: less_induct)
  case less
  note r = less.prems(1)
  note l = reader_at_part [OF r]
  show ?case
  proof (cases "p + length (bw_part w) = sz")
    case True
    then have e: "n = 0" "st = st'" "\<not> failed" using less.prems(7) by simp_all
    obtain f where f: "BinlogWrapper_finish 0 w = w\<lparr>bw_failed := bw_failed w \<or> 0 < (0::nat), bw_binlog := f\<rparr>"
      "file_rep block c key f D p sz" "f_data f = f_data (bw_binlog w)" "f_results f = f_results (bw_binlog w)"
      using finish_at [OF r, of p 0] l(6) by auto
    have "bw_till w - File_offset (bw_binlog w) = 0" using r l(3) True by (auto simp: reader_at_def)
    then have "readPart c w = Some (False, BinlogWrapper_finish 0 w)" using less.prems(3) by (simp add: readPart_def)
    then have "readBinlogHelper c kinds handler w st = Some (BinlogWrapper_finish 0 w, st)"
      by (subst readBinlogHelper.simps) (simp add: readTillEnd_def)
    then show ?thesis using f e less.prems(4) by (auto simp: ended_at_def same_wrapper_def)
  next
    case False
    then have more: "p + length (bw_part w) < sz" using l(5) by simp
    obtain w2 where w2: "readPart c w = Some (True, w2)" "reader_at block c key D sz w2 p"
      "length (bw_part w) < length (bw_part w2)" "same_wrapper w w2" "\<not> bw_finished w2" "\<not> bw_failed w2"
      using readPart_more [OF c r less.prems(2,3) more less.prems(6)] less.prems(3,4) by auto
    have s2: "bw_settings w2 = bw_settings w" using w2(4) by (simp add: same_wrapper_def)
    obtain ended w1 st1 where h: "handle_records kinds handler w2 st = Some (ended, w1, st1)" "same_wrapper w2 w1"
      "if ended \<or> bw_finished w1 then ended_at block c key D sz w1 (p + n) \<and> st1 = st' \<and> failed \<and> bw_failed w1
       else \<exists>m \<le> n. reader_at block c key D sz w1 (p + m) \<and> \<not> bw_failed w1
         \<and> p + m + length (bw_part w1) = p + length (bw_part w2)
         \<and> run_records kinds (bw_settings w2) handler (unread D sz (p + m)) st1 = Some (st', n - m, failed)
         \<and> int (length (bw_part w1)) < readBlockSize (bw_settings w2)
         \<and> (p + m + length (bw_part w1) = sz \<longrightarrow> m = n \<and> st1 = st' \<and> \<not> failed)"
      using handle_records_ok [OF w2(2) _ w2(5,6), of kinds handler st st' n failed] less.prems(2,5) s2 by auto
    have sw: "same_wrapper w w1" using w2(4) h(2) by (simp add: same_wrapper_def)
    have step: "readBinlogHelper c kinds handler w st =
        (if ended then Some (w1, st1) else readBinlogHelper c kinds handler w1 st1)"
      using w2(1) h(1) by (subst readBinlogHelper.simps) (simp add: readTillEnd_def)
    show ?thesis
    proof (cases "ended \<or> bw_finished w1")
      case True
      have "\<not> ended \<Longrightarrow> bw_finished w1 \<Longrightarrow> readBinlogHelper c kinds handler w1 st1 = Some (w1, st1)"
        by (subst readBinlogHelper.simps) (simp add: readTillEnd_def readPart_def)
      then have "readBinlogHelper c kinds handler w st = Some (w1, st1)" using step True by auto
      then show ?thesis using h(3) True sw by auto
    next
      case False
      then obtain m where m: "m \<le> n" "reader_at block c key D sz w1 (p + m)" "\<not> bw_failed w1"
        "p + m + length (bw_part w1) = p + length (bw_part w2)"
        "run_records kinds (bw_settings w1) handler (unread D sz (p + m)) st1 = Some (st', n - m, failed)"
        "int (length (bw_part w1)) < readBlockSize (bw_settings w1)"
        "p + m + length (bw_part w1) = sz \<longrightarrow> m = n \<and> st1 = st' \<and> \<not> failed"
        using h(2,3) by (auto simp: same_wrapper_def)
      have s1: "bw_settings w1 = bw_settings w" using sw by (simp add: same_wrapper_def)
      have dec: "sz - (p + m + length (bw_part w1)) < sz - (p + length (bw_part w))"
        using m(4) w2(3) more by linarith
      have last: "p + m + length (bw_part w1) = sz \<longrightarrow> n - m = 0 \<and> st1 = st' \<and> \<not> failed" using m(7) by simp
      obtain w3 where w3: "readBinlogHelper c kinds handler w1 st1 = Some (w3, st')"
        "ended_at block c key D sz w3 (p + m + (n - m))" "bw_failed w3 = failed" "same_wrapper w1 w3"
        using less.hyps [OF dec m(2) _ _ m(3,5,6) last] False less.prems(2) s1 by auto
      have "p + m + (n - m) = p + n" using m(1) by simp
      then show ?thesis using w3 step False sw by (auto simp: same_wrapper_def)
    qed
  qed
qed

lemma reader_at_start:
  assumes "file_rep block c key f D off sz" and "off \<le> sz" and "0 \<le> readBlockSize settings"
  shows "reader_at block c key D sz (BinlogWrapper_new f settings (int sz)) off"
proof -
  have "bw_till (BinlogWrapper_new f settings (int sz)) = int sz"
    using file_rep_simps(3) [OF assms(1)] by (simp add: BinlogWrapper_new_def)
  then show ?thesis
    using assms file_rep_simps [OF assms(1)] unfolding reader_at_def
    by (intro exI [of _ off]) (simp add: BinlogWrapper_new_def)
qed

lemma read_in_blocks:
  assumes c: "ctr_mode block c" and f: "file_rep block c key f D off sz" and le: "off \<le> sz"
    and s: "reader_settings kinds settings"
    and run: "run_records kinds settings handler (take (sz - off) (drop off D)) st = Some (st', n, failed)"
  shows "\<exists>w. readBinlogHelper c kinds handler (BinlogWrapper_new f settings 0) st = Some (w, st')
    \<and> file_rep block c key (bw_binlog w) D (off + n) sz \<and> bw_failed w = failed
    \<and> f_data (bw_binlog w) = f_data f \<and> f_results (bw_binlog w) = f_results f"
proof -
  let ?w = "BinlogWrapper_new f settings (int sz)"
  have w: "BinlogWrapper_new f settings 0 = ?w"
    using file_rep_simps(3) [OF f] by (simp add: BinlogWrapper_new_def)
  have b: "16 \<le> readBlockSize settings" using s by (simp add: reader_settings_def)
  then have r: "reader_at block c key D sz ?w off" using reader_at_start [OF f le, of settings] by simp
  have e: "off = sz \<longrightarrow> n = 0 \<and> st = st' \<and> \<not> failed"
  proof
    assume "off = sz"
    then show "n = 0 \<and> st = st' \<and> \<not> failed" using run
      by (subst (asm) run_records.simps) (auto simp: ReadRecordSize_def)
  qed
  obtain w1 where "readBinlogHelper c kinds handler ?w st = Some (w1, st')" "ended_at block c key D sz w1 (off + n)"
    "bw_failed w1 = failed" "same_wrapper ?w w1"
    using readBinlogHelper_ok [OF c r, of kinds handler st st' n failed] s run b e
    by (auto simp: BinlogWrapper_new_def unread_def)
  then show ?thesis unfolding w by (auto simp: ended_at_def same_wrapper_def BinlogWrapper_new_def)
qed

end
