(* ===== verification/CacheBinlogRoundtrip.thy ===== *)
theory CacheBinlogRoundtrip
  imports CacheBinlogReads
begin

text \<open>
  The binlog that was written is the one that is read: the bytes of records, what the readers of
  the database make of them, and the properties of reading.
\<close>

section \<open>The bytes of records\<close>

definition bundle_bytes :: "8 word \<Rightarrow> bytes \<Rightarrow> bytes list \<Rightarrow> bytes" where
  "bundle_bytes type rest parts = type # pack_elements 3 (length parts) @ rest @ concat parts"

fun bytes_of_record :: "binlog_record \<Rightarrow> bytes" where
  "bytes_of_record (RecordStore record) = bytes_of_store record"
| "bytes_of_record (RecordStoreWithTime record) = bytes_of_store_with_time record"
| "bytes_of_record (RecordMultiStore records) = bundle_bytes kType_MultiStore (replicate 12 0) (map bytes_of_store records)"
| "bytes_of_record (RecordMultiStoreWithTime records) =
     bundle_bytes kType_MultiStore (replicate 12 0) (map bytes_of_store_with_time records)"
| "bytes_of_record (RecordMultiRemove keys) = bundle_bytes kType_MultiRemove (replicate 12 0) (map bytes_of_key keys)"
| "bytes_of_record (RecordMultiAccess time keys) = bundle_bytes kType_MultiAccess (bytes_of_time time) (map bytes_of_key keys)"

text \<open>The two readers of the database.\<close>

definition binlog_kinds :: "bool \<Rightarrow> record_kind list" where
  "binlog_kinds track =
     (if track then [KindStoreWithTime, KindMultiStoreWithTime, KindMultiRemove, KindMultiAccess]
      else [KindStore, KindMultiStore, KindMultiRemove])"

fun kind_of_record :: "binlog_record \<Rightarrow> record_kind" where
  "kind_of_record (RecordStore record) = KindStore"
| "kind_of_record (RecordStoreWithTime record) = KindStoreWithTime"
| "kind_of_record (RecordMultiStore records) = KindMultiStore"
| "kind_of_record (RecordMultiStoreWithTime records) = KindMultiStoreWithTime"
| "kind_of_record (RecordMultiRemove keys) = KindMultiRemove"
| "kind_of_record (RecordMultiAccess time keys) = KindMultiAccess"

text \<open>Records that the database writes: they have the sizes of their structures and few parts.\<close>

definition count_fits :: "int \<Rightarrow> 'a list \<Rightarrow> bool" where
  "count_fits limit parts \<longleftrightarrow> int (length parts) \<le> limit \<and> int (length parts) < kBundledRecordsLimit"

fun record_fits :: "int \<Rightarrow> binlog_record \<Rightarrow> bool" where
  "record_fits limit (RecordStore record) = store_ok record"
| "record_fits limit (RecordStoreWithTime record) = (store_ok record \<and> time_ok (store_time record))"
| "record_fits limit (RecordMultiStore records) = (records \<noteq> [] \<and> count_fits limit records \<and> list_all store_ok records)"
| "record_fits limit (RecordMultiStoreWithTime records) =
     (records \<noteq> [] \<and> count_fits limit records \<and> list_all (\<lambda>r. store_ok r \<and> time_ok (store_time r)) records)"
| "record_fits limit (RecordMultiRemove keys) = (keys \<noteq> [] \<and> count_fits limit keys)"
| "record_fits limit (RecordMultiAccess time keys) = (time_ok time \<and> count_fits limit keys)"

lemma binlog_kinds_distinct: "distinct (map kind_type (binlog_kinds track))"
  by (simp add: binlog_kinds_def kType_Store_def kType_MultiStore_def kType_MultiRemove_def kType_MultiAccess_def)

lemma kinds_select:
  assumes "kind \<in> set kinds" and "distinct (map kind_type kinds)"
  shows "ReadRecordSize_kinds kinds (kind_type kind) data limit =
      (case kind_part kind of Some part \<Rightarrow> ReadRecordSizeMulti kind part data limit | None \<Rightarrow> int (kind_size kind))"
    and "HandleRecord_kinds kinds (kind_type kind) data = HandleRecord_kinds [kind] (kind_type kind) data"
proof -
  have "ReadRecordSize_kinds kinds (kind_type kind) data limit =
      (case kind_part kind of Some part \<Rightarrow> ReadRecordSizeMulti kind part data limit | None \<Rightarrow> int (kind_size kind))
    \<and> HandleRecord_kinds kinds (kind_type kind) data = HandleRecord_kinds [kind] (kind_type kind) data"
    using assms
  proof (induction kinds)
    case (Cons k kinds)
    show ?case
    proof (cases "kind = k")
      case True
      then show ?thesis by (simp split: option.split)
    next
      case False
      then have m: "kind \<in> set kinds" using Cons.prems(1) by simp
      then have "kind_type kind \<in> kind_type ` set kinds" by (rule imageI)
      then have "kind_type kind \<noteq> kind_type k" using Cons.prems(2) by auto
      then show ?thesis using m Cons.IH Cons.prems(2) by simp
    qed
  qed simp
  then show "ReadRecordSize_kinds kinds (kind_type kind) data limit =
      (case kind_part kind of Some part \<Rightarrow> ReadRecordSizeMulti kind part data limit | None \<Rightarrow> int (kind_size kind))"
    and "HandleRecord_kinds kinds (kind_type kind) data = HandleRecord_kinds [kind] (kind_type kind) data" by blast+
qed

lemma split_parts_concat:
  "\<forall>p \<in> set ps. length p = part \<Longrightarrow> split_parts (length ps) part (concat ps) = ps"
  by (induction ps) simp_all

lemma length_concat_parts: "\<forall>p \<in> set ps. length p = part \<Longrightarrow> length (concat ps) = length ps * part"
  by (induction ps) simp_all

lemma bundle_count:
  assumes "length parts < 2 ^ 24" and "parts \<noteq> [] \<or> kind = KindMultiAccess"
    and "kind \<notin> {KindStore, KindStoreWithTime}"
  shows "validateCount kind (bundle_bytes type rest parts @ extra) = int (length parts)"
proof -
  have "take 3 (drop 1 (bundle_bytes type rest parts @ extra)) = pack_elements 3 (length parts)"
    by (simp add: bundle_bytes_def)
  moreover have "ReadFrom (pack_elements 3 (length parts)) = int (length parts)"
    using assms(1) by (simp add: ReadFrom_pack)
  ultimately show ?thesis using assms(2,3) by (cases kind) (auto simp: ValidateStrictCount_def)
qed

text \<open>The size of a record is known from its first 16 bytes.\<close>

lemma bundle_read:
  assumes k: "kind \<in> set (binlog_kinds track)" "kind_part kind = Some part" and rest: "length rest = 12"
    and parts: "\<forall>p \<in> set parts. length p = part" "count_fits (maxBundledRecords settings) parts"
      "parts \<noteq> [] \<or> kind = KindMultiAccess"
    and data: "data = bundle_bytes (kind_type kind) rest parts"
  shows "length data = 16 + length parts * part"
    and "16 \<le> n \<Longrightarrow> ReadRecordSize (binlog_kinds track) settings (take n data) = int (length data)"
    and "HandleRecord (binlog_kinds track) data = Some (record_of_kind kind data parts)"
proof -
  have small: "length parts < 2 ^ 24" using parts(2) by (simp add: count_fits_def kBundledRecordsLimit_def)
  have nk: "kind \<notin> {KindStore, KindStoreWithTime}" using k(2) by auto
  have ks: "kind_size kind = 16" using nk by (cases kind) auto
  show len: "length data = 16 + length parts * part"
    using rest by (simp add: data bundle_bytes_def length_concat_parts [OF parts(1)])
  have hd: "hd data = kind_type kind" "data \<noteq> []" by (simp_all add: data bundle_bytes_def)
  note sel = kinds_select [OF k(1) binlog_kinds_distinct]
  show "HandleRecord (binlog_kinds track) data = Some (record_of_kind kind data parts)"
  proof -
    have c: "validateCount kind data = int (length parts)"
      using bundle_count [OF small parts(3) nk, of "kind_type kind" rest "[]"] by (simp add: data)
    have "drop 16 data = concat parts" using rest by (simp add: data bundle_bytes_def)
    then show ?thesis
      using sel(2) [of data] c len hd k(2) ks split_parts_concat [OF parts(1)]
      by (simp add: HandleRecord_def)
  qed
  show "ReadRecordSize (binlog_kinds track) settings (take n data) = int (length data)" if n: "16 \<le> n"
  proof -
    have "take n data = bundle_bytes (kind_type kind) rest parts \<or> (\<exists>extra. take n data =
        (kind_type kind # pack_elements 3 (length parts) @ rest) @ extra)"
      using n rest by (simp add: data bundle_bytes_def take_Cons' take_append)
    moreover have "take 3 (drop 1 ((kind_type kind # pack_elements 3 (length parts) @ rest) @ extra)) = pack_elements 3 (length parts)" for extra
      by simp
    moreover have "take 3 (drop 1 (bundle_bytes (kind_type kind) rest parts)) = pack_elements 3 (length parts)"
      by (simp add: bundle_bytes_def)
    ultimately have p: "take 3 (drop 1 (take n data)) = pack_elements 3 (length parts)" by metis
    have "validateCount kind (take n data) = validateCount kind data"
    proof -
      have "take 3 (drop 1 data) = pack_elements 3 (length parts)" by (simp add: data bundle_bytes_def)
      then show ?thesis using p nk by (cases kind) simp_all
    qed
    moreover have "validateCount kind data = int (length parts)"
      using bundle_count [OF small parts(3) nk, of "kind_type kind" rest "[]"] by (simp add: data)
    moreover have "\<not> min (16 + length parts * part) n < 16" using n by simp
    moreover have "hd (take n data) = kind_type kind" "take n data \<noteq> []" using hd n by (simp_all add: hd_take)
    ultimately show ?thesis
      using sel(1) [of "take n data" "maxBundledRecords settings"] k(2) ks parts(2) len
      by (simp add: ReadRecordSize_def ReadRecordSizeMulti_def count_fits_def)
  qed
qed

lemma plain_read:
  assumes k: "kind \<in> set (binlog_kinds track)" "kind_part kind = None"
    and data: "length data = kind_size kind" "hd data = kind_type kind"
  shows "16 \<le> n \<Longrightarrow> ReadRecordSize (binlog_kinds track) settings (take n data) = int (length data)"
    and "HandleRecord (binlog_kinds track) data = Some (record_of_kind kind data [])"
proof -
  note sel = kinds_select [OF k(1) binlog_kinds_distinct]
  have ne: "data \<noteq> []" using data(1) kind_size_16 [of kind] by (metis le_zero_eq list.size(3) zero_neq_numeral)
  show "16 \<le> n \<Longrightarrow> ReadRecordSize (binlog_kinds track) settings (take n data) = int (length data)"
    using sel(1) [of "take n data" "maxBundledRecords settings"] k(2) data ne
    by (simp add: ReadRecordSize_def hd_take)
  show "HandleRecord (binlog_kinds track) data = Some (record_of_kind kind data [])"
    using sel(2) [of data] k(2) data ne by (simp add: HandleRecord_def)
qed

lemma map_id_all: "list_all P xs \<Longrightarrow> (\<And>x. P x \<Longrightarrow> f x = x) \<Longrightarrow> map f xs = xs"
  by (induction xs) auto

lemma record_read:
  assumes "record_fits (maxBundledRecords settings) r" and "kind_of_record r \<in> set (binlog_kinds track)"
  shows "16 \<le> n \<Longrightarrow> ReadRecordSize (binlog_kinds track) settings (take n (bytes_of_record r)) = int (length (bytes_of_record r))"
    and "HandleRecord (binlog_kinds track) (bytes_of_record r) = Some r"
    and "16 \<le> length (bytes_of_record r)" and "length (bytes_of_record r) mod 16 = 0"
proof -
  have "(16 \<le> n \<longrightarrow> ReadRecordSize (binlog_kinds track) settings (take n (bytes_of_record r)) = int (length (bytes_of_record r)))
    \<and> HandleRecord (binlog_kinds track) (bytes_of_record r) = Some r
    \<and> 16 \<le> length (bytes_of_record r) \<and> length (bytes_of_record r) mod 16 = 0"
  proof (cases r)
    case (RecordStore s)
    have d: "length (bytes_of_store s) = kind_size KindStore" "hd (bytes_of_store s) = kind_type KindStore"
      using assms(1) RecordStore by (simp_all add: bytes_of_store_def store_ok_def)
    show ?thesis using plain_read [OF _ _ d, of track] assms RecordStore by (simp add: record_of_kind_def)
  next
    case (RecordStoreWithTime s)
    have d: "length (bytes_of_store_with_time s) = kind_size KindStoreWithTime"
      "hd (bytes_of_store_with_time s) = kind_type KindStoreWithTime"
      using assms(1) RecordStoreWithTime by (simp_all add: bytes_of_store_with_time_def bytes_of_store_def store_ok_def)
    show ?thesis using plain_read [OF _ _ d, of track] assms RecordStoreWithTime by (simp add: record_of_kind_def)
  next
    case (RecordMultiStore ss)
    have p: "\<forall>p \<in> set (map bytes_of_store ss). length p = 32" "count_fits (maxBundledRecords settings) (map bytes_of_store ss)"
      "map bytes_of_store ss \<noteq> [] \<or> KindMultiStore = KindMultiAccess"
      using assms(1) RecordMultiStore by (auto simp: count_fits_def list_all_iff)
    have m: "map store_of_bytes (map bytes_of_store ss) = ss"
      using assms(1) RecordMultiStore by (auto simp: list_all_iff intro!: map_idI)
    show ?thesis
      using bundle_read [OF _ _ _ p refl, of track "replicate 12 0"] assms(2) RecordMultiStore m
      by (auto simp: record_of_kind_def)
  next
    case (RecordMultiStoreWithTime ss)
    have p: "\<forall>p \<in> set (map bytes_of_store_with_time ss). length p = 48"
      "count_fits (maxBundledRecords settings) (map bytes_of_store_with_time ss)"
      "map bytes_of_store_with_time ss \<noteq> [] \<or> KindMultiStoreWithTime = KindMultiAccess"
      using assms(1) RecordMultiStoreWithTime by (auto simp: count_fits_def list_all_iff)
    have m: "map store_with_time_of_bytes (map bytes_of_store_with_time ss) = ss"
      using assms(1) RecordMultiStoreWithTime by (auto simp: list_all_iff intro!: map_idI)
    show ?thesis
      using bundle_read [OF _ _ _ p refl, of track "replicate 12 0"] assms(2) RecordMultiStoreWithTime m
      by (auto simp: record_of_kind_def)
  next
    case (RecordMultiRemove ks)
    have p: "\<forall>p \<in> set (map bytes_of_key ks). length p = 16" "count_fits (maxBundledRecords settings) (map bytes_of_key ks)"
      "map bytes_of_key ks \<noteq> [] \<or> KindMultiRemove = KindMultiAccess"
      using assms(1) RecordMultiRemove by (auto simp: count_fits_def)
    have m: "map key_of_bytes (map bytes_of_key ks) = ks" by (simp add: comp_def)
    show ?thesis
      using bundle_read [OF _ _ _ p refl, of track "replicate 12 0"] assms(2) RecordMultiRemove m
      by (auto simp: record_of_kind_def)
  next
    case (RecordMultiAccess time ks)
    have p: "\<forall>p \<in> set (map bytes_of_key ks). length p = 16" "count_fits (maxBundledRecords settings) (map bytes_of_key ks)"
      "map bytes_of_key ks \<noteq> [] \<or> KindMultiAccess = KindMultiAccess"
      using assms(1) RecordMultiAccess by (auto simp: count_fits_def)
    have m: "map key_of_bytes (map bytes_of_key ks) = ks" by (simp add: comp_def)
    have t: "time_of_bytes (take 12 (drop 4 (bytes_of_record r))) = time"
      using assms(1) RecordMultiAccess by (simp add: bundle_bytes_def)
    show ?thesis
      using bundle_read [OF _ _ _ p refl, of track "bytes_of_time time"] assms(2) RecordMultiAccess m t
      by (auto simp: record_of_kind_def)
  qed
  then show "16 \<le> n \<Longrightarrow> ReadRecordSize (binlog_kinds track) settings (take n (bytes_of_record r)) = int (length (bytes_of_record r))"
    and "HandleRecord (binlog_kinds track) (bytes_of_record r) = Some r"
    and "16 \<le> length (bytes_of_record r)" and "length (bytes_of_record r) mod 16 = 0" by blast+
qed

section \<open>Reading what was written\<close>

text \<open>The handlers over the records, until one refuses.\<close>

fun fold_records :: "(binlog_record \<Rightarrow> 's \<Rightarrow> (bool \<times> 's) option) \<Rightarrow> binlog_record list \<Rightarrow> 's \<Rightarrow> (bool \<times> 's) option" where
  "fold_records handler [] st = Some (True, st)"
| "fold_records handler (r # rs) st =
     Option.bind (handler r st) (\<lambda>(handled, st1). if handled then fold_records handler rs st1 else Some (False, st1))"

definition bytes_of_records :: "binlog_record list \<Rightarrow> bytes" where
  "bytes_of_records rs = concat (map bytes_of_record rs)"

definition records_fit :: "Settings \<Rightarrow> binlog_record list \<Rightarrow> bool" where
  "records_fit settings rs \<longleftrightarrow>
     (\<forall>r \<in> set rs. record_fits (maxBundledRecords settings) r \<and> kind_of_record r \<in> set (binlog_kinds (trackEstimatedTime settings)))"

lemma bytes_of_records_simps [simp]:
  "bytes_of_records [] = []" "bytes_of_records (r # rs) = bytes_of_record r @ bytes_of_records rs"
  "bytes_of_records (rs @ qs) = bytes_of_records rs @ bytes_of_records qs"
  by (simp_all add: bytes_of_records_def)

lemma length_bytes_of_records: "records_fit settings rs \<Longrightarrow> length (bytes_of_records rs) mod 16 = 0"
proof (induction rs)
  case (Cons r rs)
  then have "length (bytes_of_record r) mod 16 = 0" "length (bytes_of_records rs) mod 16 = 0"
    using record_read(4) by (auto simp: records_fit_def)
  then show ?case using add_mod_16 by simp
qed simp

text \<open>The front of a record that was cut off, or nothing.\<close>

definition cut_record :: "Settings \<Rightarrow> bytes \<Rightarrow> bool" where
  "cut_record settings tail \<longleftrightarrow> tail = [] \<or> (\<exists>r n. records_fit settings [r] \<and> tail = take n (bytes_of_record r)
     \<and> n < length (bytes_of_record r) \<and> n mod 16 = 0)"

lemma run_cut: "cut_record settings tail \<Longrightarrow>
    run_records (binlog_kinds (trackEstimatedTime settings)) settings handler tail st = Some (st, 0, False)"
proof -
  assume cut: "cut_record settings tail"
  let ?k = "binlog_kinds (trackEstimatedTime settings)"
  have "ReadRecordSize ?k settings tail = kRecordSizeUnknown \<or> int (length tail) < ReadRecordSize ?k settings tail"
  proof (cases "tail = []")
    case False
    then obtain r n where r: "records_fit settings [r]" "tail = take n (bytes_of_record r)" "n < length (bytes_of_record r)" "n mod 16 = 0"
      using cut by (auto simp: cut_record_def)
    have "n \<noteq> 0" using False r(2) by auto
    then have "16 \<le> n" using r(4) by (metis dvd_imp_le mod_0_imp_dvd neq0_conv)
    then show ?thesis using record_read(1) [of settings r] r by (auto simp: records_fit_def)
  qed (simp add: ReadRecordSize_def)
  then show ?thesis by (subst run_records.simps) (simp add: Let_def)
qed

lemma run_written:
  assumes "records_fit settings rs" and "cut_record settings tail" and "fold_records handler rs st = Some (True, st')"
  shows "run_records (binlog_kinds (trackEstimatedTime settings)) settings handler (bytes_of_records rs @ tail) st =
    Some (st', length (bytes_of_records rs), False)"
  using assms(1,3)
proof (induction rs arbitrary: st)
  case Nil
  then show ?case using run_cut [OF assms(2)] by simp
next
  case (Cons r rs)
  let ?k = "binlog_kinds (trackEstimatedTime settings)"
  have r: "record_fits (maxBundledRecords settings) r" "kind_of_record r \<in> set ?k"
    using Cons.prems(1) by (auto simp: records_fit_def)
  note rr = record_read [OF r]
  have size_r: "ReadRecordSize ?k settings (bytes_of_record r) = int (length (bytes_of_record r))"
    using rr(1) [of "length (bytes_of_record r)"] rr(3) by simp
  have unk: "ReadRecordSize ?k settings (bytes_of_record r) \<noteq> kRecordSizeUnknown"
    using size_r rr(3) by (simp add: kRecordSizeUnknown_def)
  have rs: "ReadRecordSize ?k settings (bytes_of_records (r # rs) @ tail) = int (length (bytes_of_record r))"
    using ReadRecordSize_append [OF unk] size_r by simp
  obtain st1 where h: "handler r st = Some (True, st1)" "fold_records handler rs st1 = Some (True, st')"
    using Cons.prems(2) by (auto simp: bind_eq_Some_conv split: if_split_asm)
  have IH: "run_records ?k settings handler (bytes_of_records rs @ tail) st1 = Some (st', length (bytes_of_records rs), False)"
    using Cons.IH Cons.prems(1) h(2) by (simp add: records_fit_def)
  have nn: "\<not> (int (length (bytes_of_record r)) = kRecordSizeUnknown
      \<or> int (length (bytes_of_records (r # rs) @ tail)) < int (length (bytes_of_record r)))"
    "int (length (bytes_of_record r)) \<noteq> kRecordSizeInvalid"
    by (simp_all add: kRecordSizeUnknown_def kRecordSizeInvalid_def)
  show ?case
    unfolding run_records.simps [of _ _ _ "bytes_of_records (r # rs) @ tail"] Let_def rs if_not_P [OF nn(1)] if_not_P [OF nn(2)]
    using rr(2) h(1) IH by simp
qed

section \<open>Properties\<close>

text \<open>
  Reading the binlog block by block, for every size of the blocks that holds the largest record,
  handles the records that reading it at once would, in the same order, and stops at the same
  position, which is where the next record is written.
\<close>

theorem binlog_blocks_equal_whole:
  assumes "ctr_mode block c" and "file_rep block c key f D off sz" and "off \<le> sz" and "reader_settings kinds settings"
    and "run_records kinds settings handler (take (sz - off) (drop off D)) st = Some (st', n, failed)"
  shows "\<exists>w. readBinlogHelper c kinds handler (BinlogWrapper_new f settings 0) st = Some (w, st')
    \<and> file_rep block c key (bw_binlog w) D (off + n) sz \<and> bw_failed w = failed"
  using read_in_blocks [OF assms] by blast

text \<open>
  C40: A binlog of any records is read back as these records, and a last record that was cut anywhere
  is left out, and the file stands where it begins: after a crash in the middle of a write the
  handlers see what was written before it, and the next write goes over the torn record.
\<close>

theorem binlog_read_back:
  assumes "ctr_mode block c" and "file_rep block c key f (start @ bytes_of_records rs @ tail) off sz"
    and "sz = length (start @ bytes_of_records rs @ tail)" and "off = length start"
    and "reader_settings (binlog_kinds (trackEstimatedTime settings)) settings"
    and "records_fit settings rs" and "cut_record settings tail" and "fold_records handler rs st = Some (True, st')"
  shows "\<exists>w. readBinlogHelper c (binlog_kinds (trackEstimatedTime settings)) handler (BinlogWrapper_new f settings 0) st = Some (w, st')
    \<and> file_rep block c key (bw_binlog w) (start @ bytes_of_records rs @ tail) (off + length (bytes_of_records rs)) sz
    \<and> \<not> bw_failed w"
proof -
  let ?D = "start @ bytes_of_records rs @ tail"
  have "take (sz - off) (drop off ?D) = bytes_of_records rs @ tail" using assms(3,4) by simp
  then have run: "run_records (binlog_kinds (trackEstimatedTime settings)) settings handler (take (sz - off) (drop off ?D)) st =
      Some (st', length (bytes_of_records rs), False)"
    using run_written [OF assms(6-8)] by simp
  have "off \<le> sz" using assms(3,4) by simp
  from read_in_blocks [OF assms(1,2) this assms(5) run] show ?thesis by blast
qed

section \<open>Witnesses\<close>

text \<open>A binlog with one removal, after a header, read from there.\<close>

definition sample_records :: "binlog_record list" where
  "sample_records = [RecordMultiRemove [Key 1 2]]"

definition sample_start :: bytes where "sample_start = replicate 16 0"

definition collect_record :: "binlog_record \<Rightarrow> binlog_record list \<Rightarrow> (bool \<times> binlog_record list) option" where
  "collect_record r rs = Some (True, rs @ [r])"

lemma sample_settings: "reader_settings (binlog_kinds (trackEstimatedTime Settings_new)) Settings_new"
  by (simp add: reader_settings_def CheckSettings_def binlog_kinds_def Settings_new_def)

lemma sample_fit: "records_fit Settings_new sample_records"
  by (simp add: records_fit_def sample_records_def count_fits_def Settings_new_def kBundledRecordsLimit_def binlog_kinds_def)

lemma sample_fold: "fold_records collect_record sample_records [] = Some (True, sample_records)"
  by (simp add: sample_records_def collect_record_def)

lemma sample_length: "length (sample_start @ bytes_of_records sample_records @ []) = 48" "length sample_start = 16"
  by (simp_all add: sample_start_def sample_records_def bundle_bytes_def)

lemma sample_file:
  "\<exists>f. file_rep plain_block plain_crypto [1] f (sample_start @ bytes_of_records sample_records @ []) 16 48"
proof -
  obtain f where f: "file_rep plain_block plain_crypto [1] f [] 0 0" "f_results f = []"
    using File_open_Write [OF plain_crypto_ok new_env_ok] by blast
  let ?D = "sample_start @ bytes_of_records sample_records @ []"
  have m: "length ?D mod 16 = 0" and small: "0 + length ?D < 2 ^ 61" unfolding sample_length by simp_all
  have w: "write_result f ?D = int (length ?D)" by (simp add: write_result_def f(2))
  have "overwrite 0 ?D [] = ?D" by (simp add: overwrite_def)
  then obtain f1 where f1: "file_rep plain_block plain_crypto [1] f1 ?D 48 48"
    using File_write_rep [OF plain_crypto_ok f(1) m small] w sample_length(1) by auto
  have k: "(16::nat) mod 16 = 0" "16 \<le> (48::nat)" by simp_all
  show ?thesis using File_seek_rep [OF f1 k] by blast
qed

theorem binlog_read_back_witness:
  "\<exists>f w. readBinlogHelper plain_crypto (binlog_kinds (trackEstimatedTime Settings_new)) collect_record
      (BinlogWrapper_new f Settings_new 0) [] = Some (w, sample_records) \<and> \<not> bw_failed w"
proof -
  obtain f where f: "file_rep plain_block plain_crypto [1] f (sample_start @ bytes_of_records sample_records @ []) 16 48"
    using sample_file by blast
  have "cut_record Settings_new []" by (simp add: cut_record_def)
  from binlog_read_back [OF plain_crypto_ok f sample_length(1) [symmetric] sample_length(2) [symmetric] sample_settings sample_fit
      this sample_fold] show ?thesis by blast
qed

theorem binlog_blocks_equal_whole_witness:
  "\<exists>f w. readBinlogHelper plain_crypto (binlog_kinds True) collect_record (BinlogWrapper_new f Settings_new 0) [] =
      Some (w, sample_records) \<and> File_offset (bw_binlog w) = 48"
proof -
  let ?D = "sample_start @ bytes_of_records sample_records @ []"
  obtain f where f: "file_rep plain_block plain_crypto [1] f ?D 16 48" using sample_file by blast
  have t: "trackEstimatedTime Settings_new = True" by (simp add: Settings_new_def)
  have "take (48 - 16) (drop 16 ?D) = bytes_of_records sample_records @ []"
    using sample_length by simp
  moreover have "cut_record Settings_new []" by (simp add: cut_record_def)
  moreover have "length (bytes_of_records sample_records) = 32" using sample_length by simp
  ultimately have run: "run_records (binlog_kinds True) Settings_new collect_record (take (48 - 16) (drop 16 ?D)) [] =
      Some (sample_records, 32, False)"
    using run_written [OF sample_fit _ sample_fold, of "[]"] t by simp
  have le: "(16::nat) \<le> 48" by simp
  show ?thesis
    using binlog_blocks_equal_whole [OF plain_crypto_ok f le sample_settings [unfolded t] run] file_rep_simps(2) by fastforce
qed

end
