(* ===== verification/CacheDatabase.thy ===== *)
theory CacheDatabase
  imports CacheIndex CacheBinlogRoundtrip FlatSet "HOL-Library.Monad_Syntax"
begin

text \<open>
  The database of the disk cache, \<^verbatim>\<open>storage/cache/storage_cache_database_object.cpp\<close>: its state, what
  it writes to the binlog, and reading and changing values. Files are found on a disk by their
  paths; what the system answers during an operation (time, random numbers, locks, results of
  writing, removing and moving) is a record. Callbacks are results. A failed \<^verbatim>\<open>Expects\<close>, \<^verbatim>\<open>Assert\<close> or
  \<^verbatim>\<open>Unexpected\<close>, or a loop that does not end, is \<open>None\<close>.
\<close>

section \<open>Paths and the state\<close>

text \<open>The folder of a version is \<^verbatim>\<open>computePath(version)\<close>, no folder the empty \<^verbatim>\<open>_path\<close> of a closed database.\<close>

datatype cache_path = VersionFile | InFolder "int option" string

type_synonym disk = "cache_path \<Rightarrow> bytes option"

definition BinlogFilename :: string where "BinlogFilename = ''binlog''"
definition CompactReadyFilename :: string where "CompactReadyFilename = ''binlog-ready''"

definition place_digit :: "nat \<Rightarrow> char" where
  "place_digit digit = (if digit < 10 then char_of (48 + digit) else char_of (65 + (digit - 10)))"

definition place_value :: "8 word \<Rightarrow> string" where
  "place_value v = [place_digit (unat v mod 16), place_digit (unat v div 16)]"

definition PlaceFromId :: "bytes \<Rightarrow> string" where
  "PlaceFromId place = (case place of [] \<Rightarrow> [] | b # bs \<Rightarrow> place_value b @ ''/'' @ concat (map place_value bs))"

record Error =
  err_type :: Error_Type
  err_path :: "cache_path option"

definition noError :: Error where "noError = \<lparr>err_type = NoError, err_path = None\<rparr>"
definition ioError :: "cache_path \<Rightarrow> Error" where "ioError path = \<lparr>err_type = IO, err_path = Some path\<rparr>"

record Stats =
  st_full :: TaggedSummary
  st_tagged :: "(8 word \<times> TaggedSummary) list"
  st_clearing :: bool

record Compactor_Info =
  ci_till :: int
  ci_systemTime :: nat
  ci_keysCount :: int

record CompactorWrap =
  cw_object :: "Compactor_Info option"
  cw_excessLength :: int
  cw_nextAttempt :: int
  cw_delayAfterFailure :: int

definition CompactorWrap_new :: CompactorWrap where
  "CompactorWrap_new = \<lparr>cw_object = None, cw_excessLength = 0, cw_nextAttempt = 0, cw_delayAfterFailure = 10 * 1000\<rparr>"

text \<open>
  \<open>db_binlogAt\<close> is the path of the file of the binlog. Timers have the time when they are due. The
  flags of the cleaner are whether there is one and whether a callback waits for it; statistics go to \<open>db_fired\<close> when somebody listens.
\<close>

record Database = Index +
  db_folder :: "int option"
  db_key :: bytes
  db_binlog :: File
  db_binlogAt :: cache_path
  db_removing :: "Key list"
  db_accessed :: "Key list"
  db_stale :: "Key list"
  db_clearingStale :: bool
  db_writeBundlesTimer :: "int option"
  db_pruneTimer :: "int option"
  db_cleaner :: bool
  db_cleanerDone :: bool
  db_compactor :: CompactorWrap
  db_consumers :: bool
  db_fired :: "Stats list"
  db_disk :: disk

text \<open>
  What the system answers while an operation runs: the clocks, the random places, what opening the
  binlog and the data files finds, whether a move can lock, remove and rename, the numbers of the
  folders, whether the file of the version can be made, opened, written and flushed, the random
  bytes after a value, which files can be removed, and the order in which the hash table is walked.
\<close>

record cache_io =
  io_time :: int
  io_crlNow :: int
  io_place :: "nat \<Rightarrow> bytes"
  io_open :: "File_Mode \<Rightarrow> file_env"
  io_move :: "lock_result \<times> bool \<times> bool"
  io_entries :: "int list"
  io_version :: "bool \<times> bool \<times> int \<times> bool"
  io_data :: "cache_path \<Rightarrow> file_env"
  io_padding :: bytes
  io_removes :: "cache_path \<Rightarrow> bool"
  io_order :: "(Key \<times> Entry) list \<Rightarrow> (Key \<times> Entry) list"

definition GetUnixtime :: "cache_io \<Rightarrow> nat" where
  "GetUnixtime io = nat (max (sint (word_of_int (io_time io) :: 32 word)) 1)"

definition binlogPath :: "Database \<Rightarrow> cache_path" where
  "binlogPath d = InFolder (db_folder d) BinlogFilename"

definition placePath :: "Database \<Rightarrow> bytes \<Rightarrow> cache_path" where
  "placePath d place = InFolder (db_folder d) (PlaceFromId place)"

definition isFreePlace :: "Database \<Rightarrow> bytes \<Rightarrow> bool" where
  "isFreePlace d place \<longleftrightarrow> db_disk d (placePath d place) = None"

section \<open>Files\<close>

text \<open>Opening finds the file of the path, and may make or empty it.\<close>

definition disk_open :: "crypto \<Rightarrow> cache_path \<Rightarrow> File_Mode \<Rightarrow> bytes \<Rightarrow> file_env \<Rightarrow> disk \<Rightarrow> (File_Result \<times> File \<times> disk) option" where
  "disk_open c path mode key env disk =
     map_option (\<lambda>(result, f).
       (result, f, if mode = Read \<or> \<not> fe_folder env \<or> fe_lock env = NotOpened then disk else disk(path \<mapsto> f_data f)))
       (File_open c mode key (env\<lparr>fe_file := disk path\<rparr>))"

text \<open>The disk has what was written to the open file of the binlog.\<close>

definition set_binlog :: "File \<Rightarrow> Database \<Rightarrow> Database" where
  "set_binlog f d =
     d\<lparr>db_binlog := f, db_disk := (if f_isOpen f then (db_disk d)(db_binlogAt d \<mapsto> f_data f) else db_disk d)\<rparr>"

definition binlog_write :: "crypto \<Rightarrow> bytes \<Rightarrow> Database \<Rightarrow> (bool \<times> Database) option" where
  "binlog_write c bs d = map_option (\<lambda>(written, f). (written, set_binlog f d)) (File_write c bs (db_binlog d))"

definition binlog_close :: "Database \<Rightarrow> Database" where
  "binlog_close d = d\<lparr>db_binlog := File_close (db_binlog d)\<rparr>"

section \<open>Time\<close>

definition countRelativeTime :: "cache_io \<Rightarrow> Database \<Rightarrow> nat" where
  "countRelativeTime io d =
     (let now = GetUnixtime io; delta = max (int now - int (tp_system (ix_time d))) 0
      in (tp_relative (ix_time d) + nat delta) mod 2 ^ 64)"

definition countTimePoint :: "cache_io \<Rightarrow> Database \<Rightarrow> EstimatedTimePoint" where
  "countTimePoint io d =
     (let now = GetUnixtime io; delta = max (int now - int (tp_system (ix_time d))) 0
      in \<lparr>tp_relative = (tp_relative (ix_time d) + nat delta) mod 2 ^ 64, tp_system = now\<rparr>)"

definition pruneBeforeTime :: "cache_io \<Rightarrow> Database \<Rightarrow> nat" where
  "pruneBeforeTime io d =
     (let relative = countRelativeTime io d; limit = totalTimeLimit (ix_settings d)
      in if limit \<noteq> 0 \<and> nat limit < relative then relative - nat limit else 0)"

section \<open>Statistics, pruning and compacting, later\<close>

definition collectStats :: "Database \<Rightarrow> Stats" where
  "collectStats d =
     \<lparr>st_full = \<lparr>ts_count = int (length (ix_map d)), ts_totalSize = ix_totalSize d\<rparr>, st_tagged = ix_tagged d,
       st_clearing = (db_cleaner d \<or> db_stale d \<noteq> [])\<rparr>"

definition pushStats :: "Database \<Rightarrow> Database" where
  "pushStats d = (if db_consumers d then d\<lparr>db_fired := db_fired d @ [collectStats d]\<rparr> else d)"

text \<open>The call that \<^verbatim>\<open>pushStatsDelayed\<close> posts.\<close>

definition pushStats_posted :: "Database \<Rightarrow> Database" where
  "pushStats_posted d = (if ix_pushing d then pushStats (d\<lparr>ix_pushing := False\<rparr>) else d)"

definition startDelayedPruning :: "cache_io \<Rightarrow> Database \<Rightarrow> (bool \<times> Database) option" where
  "startDelayedPruning io d =
     (let settings = ix_settings d
      in if \<not> trackEstimatedTime settings \<or> ix_map d = [] then Some (False, d)
         else
           let before = pruneBeforeTime io d;
               pruning = (if 0 < totalSizeLimit settings \<and> totalSizeLimit settings < ix_totalSize d then True
                 else ix_minimalTime d = 0 \<and> ix_map d \<noteq> [] \<or> ix_minimalTime d \<le> before)
           in if pruning
              then Some (True,
                if db_pruneTimer d = None \<or> pruneTimeout settings < the (db_pruneTimer d) - io_crlNow io
                then d\<lparr>db_pruneTimer := Some (io_crlNow io + pruneTimeout settings)\<rparr> else d)
              else if ix_minimalTime d \<noteq> 0
              then
                if ix_minimalTime d \<le> before then None
                else
                  let seconds = int (ix_minimalTime d - before)
                  in Some (False,
                    if db_pruneTimer d = None
                    then d\<lparr>db_pruneTimer := Some (io_crlNow io + min (seconds * 1000) (maxPruneCheckTimeout settings))\<rparr> else d)
              else Some (False, d))"

definition checkCompactor :: "cache_io \<Rightarrow> Database \<Rightarrow> Database" where
  "checkCompactor io d =
     (let settings = ix_settings d
      in if cw_object (db_compactor d) \<noteq> None \<or> compactAfterExcess settings = 0 \<or> ix_excess d < compactAfterExcess settings then d
         else if compactAfterFullSize settings \<noteq> 0
             \<and> ix_excess d * compactAfterFullSize settings < compactAfterExcess settings * File_size (db_binlog d) then d
         else if io_crlNow io < cw_nextAttempt (db_compactor d) \<or> \<not> f_isOpen (db_binlog d) then d
         else d\<lparr>db_compactor := (db_compactor d)\<lparr>
             cw_object := Some \<lparr>ci_till = File_size (db_binlog d), ci_systemTime = tp_system (ix_time d),
               ci_keysCount = int (length (ix_map d))\<rparr>,
             cw_excessLength := ix_excess d\<rparr>\<rparr>)"

definition optimize :: "cache_io \<Rightarrow> Database \<Rightarrow> Database option" where
  "optimize io d = map_option (\<lambda>(pruning, d1). if pruning then d1 else checkCompactor io d1) (startDelayedPruning io d)"

section \<open>Bundles\<close>

definition writeBundlesLazy :: "cache_io \<Rightarrow> Database \<Rightarrow> Database" where
  "writeBundlesLazy io d =
     (if db_writeBundlesTimer d = None
      then d\<lparr>db_writeBundlesTimer := Some (io_crlNow io + writeBundleDelay (ix_settings d))\<rparr> else d)"

text \<open>The header and then the parts, if there are any; a failed write closes the binlog.\<close>

definition write_bundle :: "crypto \<Rightarrow> bytes \<Rightarrow> Key list \<Rightarrow> Database \<Rightarrow> (Error \<times> Database) option" where
  "write_bundle c header ks d =
     do {
       (written, d1) \<leftarrow> binlog_write c header d;
       (written, d2) \<leftarrow> (if written \<and> ks \<noteq> [] then binlog_write c (concat (map bytes_of_key ks)) d1 else Some (written, d1));
       Some (if written
         then (noError, d2\<lparr>ix_excess := ix_excess d2 + (int (length header) + 16 * int (length ks))\<rparr>)
         else (ioError (binlogPath d2), binlog_close d2))
     }"

definition writeMultiRemove :: "crypto \<Rightarrow> Database \<Rightarrow> (Error \<times> Database) option" where
  "writeMultiRemove c d =
     (if maxBundledRecords (ix_settings d) < int (length (db_removing d)) then None
      else if db_removing d = [] then Some (noError, d)
      else do {
        header \<leftarrow> MultiRemove_new (int (length (db_removing d)));
        write_bundle c header (db_removing d) (d\<lparr>db_removing := []\<rparr>)
      })"

definition writeMultiRemoveLazy :: "crypto \<Rightarrow> cache_io \<Rightarrow> Database \<Rightarrow> Database option" where
  "writeMultiRemoveLazy c io d =
     (if int (length (db_removing d)) = maxBundledRecords (ix_settings d) then map_option snd (writeMultiRemove c d)
      else Some (writeBundlesLazy io d))"

text \<open>The entries that were used get the time of the record.\<close>

definition use_entries :: "nat \<Rightarrow> Key list \<Rightarrow> (Key \<times> Entry) list \<Rightarrow> (Key \<times> Entry) list" where
  "use_entries relative ks m = foldl (\<lambda>m key. set_use_time relative key m) m ks"

definition writeMultiAccessBlock :: "crypto \<Rightarrow> cache_io \<Rightarrow> Database \<Rightarrow> (Error \<times> Database) option" where
  "writeMultiAccessBlock c io d =
     (if \<not> trackEstimatedTime (ix_settings d) \<or> maxBundledRecords (ix_settings d) < int (length (db_accessed d)) then None
      else
        let time = countTimePoint io d; ks = db_accessed d
        in do {
          header \<leftarrow> MultiAccess_new time (int (length ks));
          write_bundle c header ks
            (d\<lparr>db_accessed := [], ix_time := time, ix_map := use_entries (tp_relative time) ks (ix_map d)\<rparr>)
        })"

definition writeMultiAccess :: "crypto \<Rightarrow> cache_io \<Rightarrow> Database \<Rightarrow> (Error \<times> Database) option" where
  "writeMultiAccess c io d = (if db_accessed d = [] then Some (noError, d) else writeMultiAccessBlock c io d)"

definition writeMultiAccessLazy :: "crypto \<Rightarrow> cache_io \<Rightarrow> Database \<Rightarrow> Database option" where
  "writeMultiAccessLazy c io d =
     (if int (length (db_accessed d)) = maxBundledRecords (ix_settings d) then map_option snd (writeMultiAccess c io d)
      else Some (writeBundlesLazy io d))"

definition writeBundles :: "crypto \<Rightarrow> cache_io \<Rightarrow> Database \<Rightarrow> Database option" where
  "writeBundles c io d =
     do {
       (_, d1) \<leftarrow> writeMultiRemove c d;
       if trackEstimatedTime (ix_settings d1) then map_option snd (writeMultiAccess c io d1) else Some d1
     }"

text \<open>The callback of the timer.\<close>

definition writeBundles_timer :: "crypto \<Rightarrow> cache_io \<Rightarrow> Database \<Rightarrow> Database option" where
  "writeBundles_timer c io d = map_option (checkCompactor io) (writeBundles c io (d\<lparr>db_writeBundlesTimer := None\<rparr>))"

definition recordEntryAccess :: "crypto \<Rightarrow> cache_io \<Rightarrow> Key \<Rightarrow> Database \<Rightarrow> Database option" where
  "recordEntryAccess c io key d =
     (if \<not> trackEstimatedTime (ix_settings d) then Some d
      else do {
        d1 \<leftarrow> writeMultiAccessLazy c io (d\<lparr>db_accessed := set_emplace key (db_accessed d)\<rparr>);
        optimize io d1
      })"

end
