(* ===== verification/CacheValues.thy ===== *)
theory CacheValues
  imports CacheDatabase
begin

text \<open>
  Values of the disk cache, \<^verbatim>\<open>storage/cache/storage_cache_database_object.cpp\<close>: a value is a file at a
  random place, and the binlog has a record with the place. The hash \<^verbatim>\<open>XXH32\<close> is a parameter.
\<close>

section \<open>Reading and removing\<close>

text \<open>No bytes when the file is not there, has another key or is too short.\<close>

definition readValueData :: "crypto \<Rightarrow> cache_io \<Rightarrow> bytes \<Rightarrow> int \<Rightarrow> Database \<Rightarrow> bytes option" where
  "readValueData c io place n d =
     (let path = placePath d place
      in do {
        (result, f, _) \<leftarrow> disk_open c path Read (db_key d) (io_data io path) (db_disk d);
        case result of
          Success \<Rightarrow> do {
            (got, _) \<leftarrow> File_readWithPadding c (nat n) f;
            Some (if int (length got) \<noteq> n then [] else got)
          }
        | LockFailed \<Rightarrow> None
        | _ \<Rightarrow> Some []
      })"

definition db_remove :: "crypto \<Rightarrow> cache_io \<Rightarrow> Key \<Rightarrow> Database \<Rightarrow> (Error \<times> Database) option" where
  "db_remove c io key d =
     (case map_of (ix_map d) key of
       None \<Rightarrow> Some (noError, d)
     | Some entry \<Rightarrow> do {
         d1 \<leftarrow> writeMultiRemoveLazy c io (d\<lparr>db_removing := set_emplace key (db_removing d)\<rparr>);
         let path = placePath d1 (en_place entry);
         d2 \<leftarrow> eraseMapEntry key d1;
         let there = db_disk d2 path \<noteq> None;
         let removed = (there \<and> io_removes io path);
         Some (if removed \<or> \<not> there then noError else ioError path,
           if removed then d2\<lparr>db_disk := (db_disk d2)(path := None)\<rparr> else d2)
       })"

text \<open>The value that is given to the callback, then the state.\<close>

definition db_get :: "crypto \<Rightarrow> (bytes \<Rightarrow> 32 word) \<Rightarrow> cache_io \<Rightarrow> Key \<Rightarrow> Database \<Rightarrow> (TaggedValue \<times> Database) option" where
  "db_get c xxh io key d =
     (case map_of (ix_map d) key of
       None \<Rightarrow> Some (TaggedValue_empty, d)
     | Some entry \<Rightarrow> do {
         got \<leftarrow> readValueData c io (en_place entry) (en_size entry) d;
         if got = [] \<or> xxh got \<noteq> en_checksum entry
         then map_option (\<lambda>(_, d1). (TaggedValue_empty, d1)) (db_remove c io key d)
         else map_option (Pair \<lparr>tv_bytes = got, tv_tag = en_tag entry\<rparr>) (recordEntryAccess c io key d)
       })"

section \<open>Writing the record\<close>

text \<open>The loop over random places; \<open>None\<close> when no place is ever free.\<close>

partial_function (option) find_free_place :: "(nat \<Rightarrow> bytes) \<Rightarrow> Database \<Rightarrow> nat \<Rightarrow> bytes option" where
  "find_free_place place d n = (if isFreePlace d (place n) then Some (place n) else find_free_place place d (Suc n))"

text \<open>
  What the code returns: no path after an error, an empty one when nothing changes. The bytes of
  the record and the handler for it stand for the template parameter.
\<close>

datatype key_place = NoPlace | EmptyPath | WrittenPath cache_path

definition value_place :: "crypto \<Rightarrow> cache_io \<Rightarrow> Key \<Rightarrow> TaggedValue \<Rightarrow> 32 word \<Rightarrow> Database \<Rightarrow> bytes option option" where
  "value_place c io key value checksum d =
     (case map_of (ix_map d) key of
       Some already \<Rightarrow>
         if en_tag already = tv_tag value \<and> en_size already = int (length (tv_bytes value)) \<and> en_checksum already = checksum
         then map_option (\<lambda>got. if got = tv_bytes value then None else Some (en_place already))
           (readValueData c io (en_place already) (en_size already) d)
         else Some (Some (en_place already))
     | None \<Rightarrow> map_option Some (find_free_place (io_place io) d 0))"

text \<open>Writing a record and applying it, or closing the binlog.\<close>

definition write_store_record ::
    "crypto \<Rightarrow> ('b Store_scheme \<Rightarrow> bytes) \<Rightarrow> ('b Store_scheme \<Rightarrow> Database \<Rightarrow> (bool \<times> Database) option) \<Rightarrow>
     'b Store_scheme \<Rightarrow> Database \<Rightarrow> (bool \<times> Database) option" where
  "write_store_record c bytes_of process record d =
     do {
       (written, d1) \<leftarrow> binlog_write c (bytes_of record) d;
       if \<not> written then Some (False, binlog_close d1)
       else do {
         (applied, d2) \<leftarrow> process record d1;
         if applied then Some (True, d2) else None
       }
     }"

definition writeKeyPlaceGeneric ::
    "crypto \<Rightarrow> cache_io \<Rightarrow> ('b Store_scheme \<Rightarrow> bytes) \<Rightarrow> ('b Store_scheme \<Rightarrow> Database \<Rightarrow> (bool \<times> Database) option) \<Rightarrow>
     'b Store_scheme \<Rightarrow> Key \<Rightarrow> TaggedValue \<Rightarrow> 32 word \<Rightarrow> Database \<Rightarrow> (key_place \<times> Database) option" where
  "writeKeyPlaceGeneric c io bytes_of process record key value checksum d =
     (if maxDataSize (ix_settings d) < int (length (tv_bytes value)) then None
      else do {
        record1 \<leftarrow> Store_setSize (int (length (tv_bytes value))) (record\<lparr>store_tag := tv_tag value, store_key := key\<rparr>);
        place \<leftarrow> value_place c io key value checksum d;
        case place of
          None \<Rightarrow> Some (EmptyPath, d)
        | Some place1 \<Rightarrow> do {
            (written, d1) \<leftarrow> write_store_record c bytes_of process (record1\<lparr>store_checksum := checksum, store_place := place1\<rparr>) d;
            Some (if written then WrittenPath (placePath d place1) else EmptyPath, d1)
          }
      })"

text \<open>The time of a new record: the last one, while it is not too far back.\<close>

definition record_time :: "cache_io \<Rightarrow> Database \<Rightarrow> EstimatedTimePoint option" where
  "record_time io d =
     (let time = countTimePoint io d; writing = tp_relative time; current = tp_relative (ix_time d)
      in if writing < current then None
         else Some (if int (writing - current) * 1000 < writeBundleDelay (ix_settings d) then ix_time d else time))"

definition new_store_with_time :: "EstimatedTimePoint \<Rightarrow> StoreWithTime" where
  "new_store_with_time time =
     \<lparr>store_tag = 0, store_size = [0, 0, 0], store_place = [0, 0, 0, 0, 0, 0, 0], store_checksum = 0, store_key = Key 0 0,
       store_time = time\<rparr>"

definition writeKeyPlace :: "crypto \<Rightarrow> cache_io \<Rightarrow> Key \<Rightarrow> TaggedValue \<Rightarrow> 32 word \<Rightarrow> Database \<Rightarrow> (key_place \<times> Database) option" where
  "writeKeyPlace c io key value checksum d =
     (if \<not> trackEstimatedTime (ix_settings d)
      then writeKeyPlaceGeneric c io bytes_of_store processRecordStore Store_new key value checksum d
      else do {
        time \<leftarrow> record_time io d;
        writeKeyPlaceGeneric c io bytes_of_store_with_time processRecordStoreWithTime (new_store_with_time time) key value checksum d
      })"

definition same_value :: "crypto \<Rightarrow> cache_io \<Rightarrow> Key \<Rightarrow> Entry \<Rightarrow> Database \<Rightarrow> bool option" where
  "same_value c io key entry d =
     (case map_of (ix_map d) key of
       Some already \<Rightarrow>
         if en_tag already = en_tag entry \<and> en_size already = en_size entry \<and> en_checksum already = en_checksum entry
         then do {
           a \<leftarrow> readValueData c io (en_place already) (en_size already) d;
           b \<leftarrow> readValueData c io (en_place entry) (en_size entry) d;
           Some (a = b)
         }
         else Some False
     | None \<Rightarrow> Some False)"

definition writeExistingPlaceGeneric ::
    "crypto \<Rightarrow> cache_io \<Rightarrow> ('b Store_scheme \<Rightarrow> bytes) \<Rightarrow> ('b Store_scheme \<Rightarrow> Database \<Rightarrow> (bool \<times> Database) option) \<Rightarrow>
     'b Store_scheme \<Rightarrow> Key \<Rightarrow> Entry \<Rightarrow> Database \<Rightarrow> (Error \<times> Database) option" where
  "writeExistingPlaceGeneric c io bytes_of process record key entry d =
     do {
       record1 \<leftarrow> Store_setSize (en_size entry) (record\<lparr>store_key := key, store_tag := en_tag entry\<rparr>);
       same \<leftarrow> same_value c io key entry d;
       if same then Some (noError, d)
       else do {
         (written, d1) \<leftarrow> write_store_record c bytes_of process
           (record1\<lparr>store_checksum := en_checksum entry, store_place := en_place entry\<rparr>) d;
         Some (if written then noError else ioError (binlogPath d1), d1)
       }
     }"

definition writeExistingPlace :: "crypto \<Rightarrow> cache_io \<Rightarrow> Key \<Rightarrow> Entry \<Rightarrow> Database \<Rightarrow> (Error \<times> Database) option" where
  "writeExistingPlace c io key entry d =
     (if \<not> trackEstimatedTime (ix_settings d)
      then writeExistingPlaceGeneric c io bytes_of_store processRecordStore Store_new key entry d
      else do {
        time \<leftarrow> record_time io d;
        writeExistingPlaceGeneric c io bytes_of_store_with_time processRecordStoreWithTime (new_store_with_time time) key entry d
      })"

section \<open>Writing a value\<close>

text \<open>The end of \<^verbatim>\<open>put\<close>, with the path of the value; a result of no error is given before \<^verbatim>\<open>optimize\<close>.\<close>

definition put_data :: "crypto \<Rightarrow> cache_io \<Rightarrow> Key \<Rightarrow> TaggedValue \<Rightarrow> cache_path \<Rightarrow> Database \<Rightarrow> (Error \<times> Database) option" where
  "put_data c io key value path d =
     do {
       (result, f, disk) \<leftarrow> disk_open c path Write (db_key d) (io_data io path) (db_disk d);
       let d1 = d\<lparr>db_disk := disk\<rparr>;
       case result of
         Failed \<Rightarrow> map_option (\<lambda>(_, d2). (ioError path, d2)) (db_remove c io key d1)
       | LockFailed \<Rightarrow>
           map_option (\<lambda>(_, d2). (\<lparr>err_type = LockFailedError, err_path = Some path\<rparr>, d2)) (db_remove c io key d1)
       | WrongKey \<Rightarrow> None
       | Success \<Rightarrow> do {
           (success, f1) \<leftarrow> File_writeWithPadding c (io_padding io) (tv_bytes value) f;
           let d2 = d1\<lparr>db_disk := (db_disk d1)(path \<mapsto> f_data f1)\<rparr>;
           if \<not> success then map_option (\<lambda>(_, d3). (ioError path, d3)) (db_remove c io key d2)
           else map_option (Pair noError) (optimize io d2)
         }
     }"

definition db_put :: "crypto \<Rightarrow> (bytes \<Rightarrow> 32 word) \<Rightarrow> cache_io \<Rightarrow> Key \<Rightarrow> TaggedValue \<Rightarrow> Database \<Rightarrow> (Error \<times> Database) option" where
  "db_put c xxh io key value d =
     (if tv_bytes value = [] then db_remove c io key d
      else
        let d1 = d\<lparr>db_removing := set_erase key (db_removing d), db_stale := filter (\<lambda>k. k \<noteq> key) (db_stale d)\<rparr>
        in do {
          (place, d2) \<leftarrow> writeKeyPlace c io key value (xxh (tv_bytes value)) d1;
          case place of
            NoPlace \<Rightarrow> Some (ioError (binlogPath d2), d2)
          | EmptyPath \<Rightarrow> map_option (Pair noError) (recordEntryAccess c io key d2)
          | WrittenPath path \<Rightarrow> put_data c io key value path d2
        })"

definition db_putIfEmpty :: "crypto \<Rightarrow> (bytes \<Rightarrow> 32 word) \<Rightarrow> cache_io \<Rightarrow> Key \<Rightarrow> TaggedValue \<Rightarrow> Database \<Rightarrow> (Error \<times> Database) option" where
  "db_putIfEmpty c xxh io key value d =
     (if map_of (ix_map d) key \<noteq> None then Some (noError, d) else db_put c xxh io key value d)"

text \<open>
  The callback of \<^verbatim>\<open>get\<close> runs inside it: before the access is recorded, and after the removal of a
  value that cannot be read.
\<close>

definition db_copyIfEmpty :: "crypto \<Rightarrow> (bytes \<Rightarrow> 32 word) \<Rightarrow> cache_io \<Rightarrow> Key \<Rightarrow> Key \<Rightarrow> Database \<Rightarrow> (Error \<times> Database) option" where
  "db_copyIfEmpty c xxh io source target d =
     (if map_of (ix_map d) target \<noteq> None then Some (noError, d)
      else
        (case map_of (ix_map d) source of
          None \<Rightarrow> db_put c xxh io target TaggedValue_empty d
        | Some entry \<Rightarrow> do {
            got \<leftarrow> readValueData c io (en_place entry) (en_size entry) d;
            if got = [] \<or> xxh got \<noteq> en_checksum entry
            then do {
              (_, d1) \<leftarrow> db_remove c io source d;
              db_put c xxh io target TaggedValue_empty d1
            }
            else do {
              (error, d1) \<leftarrow> db_put c xxh io target \<lparr>tv_bytes = got, tv_tag = en_tag entry\<rparr> d;
              d2 \<leftarrow> recordEntryAccess c io source d1;
              Some (error, d2)
            }
          }))"

definition db_moveIfEmpty :: "crypto \<Rightarrow> cache_io \<Rightarrow> Key \<Rightarrow> Key \<Rightarrow> Database \<Rightarrow> (Error \<times> Database) option" where
  "db_moveIfEmpty c io source target d =
     (if map_of (ix_map d) target \<noteq> None then Some (noError, d)
      else
        (case map_of (ix_map d) source of
          None \<Rightarrow> Some (noError, d)
        | Some entry \<Rightarrow> do {
            d1 \<leftarrow> eraseMapEntry source (d\<lparr>db_removing := set_emplace source (db_removing d)\<rparr>);
            (result, d2) \<leftarrow> writeMultiRemove c d1;
            if err_type result \<noteq> NoError then Some (result, d2)
            else
              writeExistingPlace c io target entry
                (d2\<lparr>db_removing := set_erase target (db_removing d2), db_stale := filter (\<lambda>k. k \<noteq> target) (db_stale d2)\<rparr>)
          }))"

definition getManyRaw :: "Key list \<Rightarrow> Database \<Rightarrow> (Key \<times> Entry) list" where
  "getManyRaw ks d = List.map_filter (\<lambda>key. map_option (Pair key) (map_of (ix_map d) key)) ks"

end
