(* ===== verification/CacheOpen.thy ===== *)
theory CacheOpen
  imports CacheValues
begin

text \<open>
  Opening and closing the disk cache, \<^verbatim>\<open>storage/cache/storage_cache_database_object.cpp\<close>, and the file
  with the version, \<^verbatim>\<open>storage_cache_types.cpp\<close>.
\<close>

section \<open>The version\<close>

definition bytes_of_version :: "int \<Rightarrow> bytes" where
  "bytes_of_version version = pack_elements 4 (unat (word_of_int version :: 32 word))"

definition ReadVersionValue :: "disk \<Rightarrow> int option" where
  "ReadVersionValue disk =
     (case disk VersionFile of
       None \<Rightarrow> None
     | Some data \<Rightarrow>
         if length data < 4 then None else Some (sint (word_of_int (ReadFrom (take 4 data)) :: 32 word)))"

text \<open>Whether the folder can be made, the file opened, how many bytes are written, and the flush.\<close>

definition WriteVersionValue :: "bool \<times> bool \<times> int \<times> bool \<Rightarrow> int \<Rightarrow> disk \<Rightarrow> bool \<times> disk" where
  "WriteVersionValue results version disk =
     (case results of (made, opened, count, flushed) \<Rightarrow>
        if \<not> made \<or> \<not> opened then (False, disk)
        else
          let bs = bytes_of_version version
          in (count = int (length bs) \<and> flushed, disk(VersionFile \<mapsto> take (nat count) bs)))"

definition readVersion :: "Database \<Rightarrow> int" where
  "readVersion d = (case ReadVersionValue (db_disk d) of Some version \<Rightarrow> version | None \<Rightarrow> 0)"

definition writeVersion :: "cache_io \<Rightarrow> int \<Rightarrow> Database \<Rightarrow> bool \<times> Database" where
  "writeVersion io version d =
     (let (written, disk) = WriteVersionValue (io_version io) version (db_disk d) in (written, d\<lparr>db_disk := disk\<rparr>))"

text \<open>The first number that no folder has.\<close>

fun first_available :: "int list \<Rightarrow> int \<Rightarrow> int" where
  "first_available [] result = result"
| "first_available (version # versions) result =
     (if result \<noteq> version then result else first_available versions (result + 1))"

definition findAvailableVersion :: "cache_io \<Rightarrow> int" where
  "findAvailableVersion io =
     first_available (foldl (\<lambda>versions v. fst (flat_set_insert (<) v versions)) [] (io_entries io)) 0"

section \<open>Closing\<close>

definition clearState :: "Database \<Rightarrow> Database" where
  "clearState d =
     d\<lparr>db_folder := None, db_key := [], ix_map := [], db_removing := [], db_accessed := [], db_stale := [],
       ix_time := EstimatedTimePoint_new, ix_excess := 0, ix_totalSize := 0, ix_minimalTime := 0, ix_minimalCount := 0,
       ix_tagged := [], ix_pushing := False, db_writeBundlesTimer := None, db_pruneTimer := None,
       db_compactor := CompactorWrap_new\<rparr>"

definition db_close :: "crypto \<Rightarrow> cache_io \<Rightarrow> Database \<Rightarrow> Database option" where
  "db_close c io d =
     (if f_isOpen (db_binlog d) then map_option (\<lambda>d1. clearState (binlog_close d1)) (writeBundles c io d)
      else Some (clearState d))"

section \<open>Opening\<close>

definition db_readHeader :: "crypto \<Rightarrow> Database \<Rightarrow> (bool \<times> Database) option" where
  "db_readHeader c d =
     map_option (\<lambda>(header, f).
       case header of
         Some h \<Rightarrow> (True, d\<lparr>db_binlog := f, ix_time := \<lparr>tp_relative = bh_systemTime h, tp_system = bh_systemTime h\<rparr>\<rparr>)
       | None \<Rightarrow> (False, d\<lparr>db_binlog := f\<rparr>))
       (ReadHeader c (ix_settings d) (db_binlog d))"

definition db_writeHeader :: "crypto \<Rightarrow> cache_io \<Rightarrow> Database \<Rightarrow> (bool \<times> Database) option" where
  "db_writeHeader c io d =
     (let track = trackEstimatedTime (ix_settings d);
          now = (if track then GetUnixtime io else 0);
          header = BasicHeader_new\<lparr>bh_systemTime := now, bh_flags := (if track then kTrackEstimatedTime else 0)\<rparr>
      in binlog_write c (bytes_of_basic_header header) (d\<lparr>ix_time := \<lparr>tp_relative = now, tp_system = now\<rparr>\<rparr>))"

definition createCleaner :: "Database \<Rightarrow> Database" where
  "createCleaner d = pushStatsDelayed (d\<lparr>db_cleaner := True, db_cleanerDone := False\<rparr>)"

definition adjustRelativeTime :: "crypto \<Rightarrow> cache_io \<Rightarrow> Database \<Rightarrow> Database option" where
  "adjustRelativeTime c io d =
     (if trackEstimatedTime (ix_settings d) \<and> GetUnixtime io < tp_system (ix_time d)
      then map_option snd (writeMultiAccessBlock c io d) else Some d)"

definition readBinlog :: "crypto \<Rightarrow> cache_io \<Rightarrow> Database \<Rightarrow> Database option" where
  "readBinlog c io d =
     (let settings = ix_settings d; kinds = binlog_kinds (trackEstimatedTime settings)
      in if \<not> CheckSettings kinds settings then None
         else do {
           (w, d1) \<leftarrow> readBinlogHelper c kinds handle_record (BinlogWrapper_new (db_binlog d) settings 0) d;
           d2 \<leftarrow> adjustRelativeTime c io (d1\<lparr>db_binlog := bw_binlog w\<rparr>);
           optimize io d2
         })"

definition move_on_disk :: "lock_result \<times> bool \<times> bool \<Rightarrow> cache_path \<Rightarrow> cache_path \<Rightarrow> disk \<Rightarrow> bool \<times> disk" where
  "move_on_disk results source target disk =
     (case results of (lock, removed, renamed) \<Rightarrow>
        case File_Move lock removed renamed (disk source, disk target) of
          (moved, source1, target1) \<Rightarrow> (moved, disk(source := source1, target := target1)))"

definition openBinlog :: "crypto \<Rightarrow> cache_io \<Rightarrow> int \<Rightarrow> File_Mode \<Rightarrow> bytes \<Rightarrow> Database \<Rightarrow> (File_Result \<times> Database) option" where
  "openBinlog c io version mode key d =
     (let ready = InFolder (Some version) CompactReadyFilename;
          path = InFolder (Some version) BinlogFilename;
          (moved, disk) = (if db_disk d ready \<noteq> None then move_on_disk (io_move io) ready path (db_disk d) else (True, db_disk d));
          d1 = d\<lparr>db_disk := disk\<rparr>
      in if \<not> moved then Some (Failed, d1)
         else do {
           (result, f, disk2) \<leftarrow> disk_open c path mode key (io_open io mode) (db_disk d1);
           let d2 = d1\<lparr>db_binlog := f, db_binlogAt := path, db_disk := disk2\<rparr>;
           if result \<noteq> Success then Some (result, d2)
           else do {
             (good, d3) \<leftarrow> (if mode = Read \<or> mode = ReadAppend \<and> 0 < File_size f then db_readHeader c d2 else db_writeHeader c io d2);
             if \<not> good then Some (Failed, d3)
             else map_option (Pair Success) (readBinlog c io (createCleaner (d3\<lparr>db_folder := Some version, db_key := key\<rparr>)))
           }
         })"

definition openNewBinlog :: "crypto \<Rightarrow> cache_io \<Rightarrow> bytes \<Rightarrow> Database \<Rightarrow> (Error \<times> Database) option" where
  "openNewBinlog c io key d =
     (let available = findAvailableVersion io;
          (written, d1) = writeVersion io available d
      in if \<not> written then Some (ioError VersionFile, d1)
         else
           map_option (\<lambda>(opened, d2).
             (if opened \<noteq> Success then ioError (InFolder (Some available) BinlogFilename) else noError, d2))
             (openBinlog c io available Write key d1))"

definition openSomeBinlog :: "crypto \<Rightarrow> cache_io \<Rightarrow> bytes \<Rightarrow> Database \<Rightarrow> (Error \<times> Database) option" where
  "openSomeBinlog c io key d =
     (let version = readVersion d; path = InFolder (Some version) BinlogFilename
      in do {
        (result, d1) \<leftarrow> openBinlog c io version ReadAppend key d;
        case result of
          Success \<Rightarrow> Some (noError, d1)
        | Failed \<Rightarrow> openNewBinlog c io key d1
        | LockFailed \<Rightarrow> Some (\<lparr>err_type = LockFailedError, err_path = Some path\<rparr>, d1)
        | WrongKey \<Rightarrow>
            if clearOnWrongKey (ix_settings d1) then openNewBinlog c io key d1
            else Some (\<lparr>err_type = WrongKeyError, err_path = Some path\<rparr>, d1)
      })"

definition db_open :: "crypto \<Rightarrow> cache_io \<Rightarrow> bytes \<Rightarrow> Database \<Rightarrow> (Error \<times> Database) option" where
  "db_open c io key d =
     do {
       d1 \<leftarrow> db_close c io d;
       (error, d2) \<leftarrow> openSomeBinlog c io key d1;
       d3 \<leftarrow> (if err_type error \<noteq> NoError then db_close c io d2 else Some d2);
       Some (error, d3)
     }"

definition db_clear :: "crypto \<Rightarrow> cache_io \<Rightarrow> Database \<Rightarrow> (Error \<times> Database) option" where
  "db_clear c io d =
     (let key = db_key d; d1 = d\<lparr>db_key := []\<rparr>
      in do {
        d2 \<leftarrow> (if key \<noteq> [] then db_close c io d1 else Some d1);
        let (written, d3) = writeVersion io (findAvailableVersion io) d2;
        if \<not> written then Some (ioError VersionFile, d3)
        else if key = [] then Some (noError, createCleaner d3)
        else db_open c io key d3
      })"

section \<open>A new database\<close>

definition checkSettings :: "Settings \<Rightarrow> bool" where
  "checkSettings settings \<longleftrightarrow>
     0 < staleRemoveChunk settings \<and> 0 < maxDataSize settings \<and> maxDataSize settings < kDataSizeLimit
     \<and> 0 < maxBundledRecords settings \<and> maxBundledRecords settings < kBundledRecordsLimit
     \<and> (totalTimeLimit settings = 0 \<or> 0 < totalTimeLimit settings)
     \<and> (totalSizeLimit settings = 0 \<or> maxDataSize settings < totalSizeLimit settings)"

definition no_file :: File where
  "no_file = \<lparr>f_data = [], f_pos = 0, f_isOpen = False, f_encryptionOffset = 0, f_dataSize = 0, f_state = None, f_results = []\<rparr>"

definition Database_new :: "Settings \<Rightarrow> disk \<Rightarrow> Database option" where
  "Database_new settings disk =
     (if \<not> checkSettings settings then None
      else Some (Index.extend (Index_new settings)
        (Database.fields None [] no_file VersionFile [] [] [] False None None False False CompactorWrap_new False [] disk)))"

definition db_reconfigure :: "Settings \<Rightarrow> Database \<Rightarrow> Database option" where
  "db_reconfigure settings d =
     (if db_key d \<noteq> [] \<or> \<not> checkSettings settings then None else Some (d\<lparr>ix_settings := settings\<rparr>))"

definition db_updateSettings :: "cache_io \<Rightarrow> SettingsUpdate \<Rightarrow> Database \<Rightarrow> Database option" where
  "db_updateSettings io update d =
     (let settings = (ix_settings d)\<lparr>totalSizeLimit := new_totalSizeLimit update, totalTimeLimit := new_totalTimeLimit update\<rparr>
      in if \<not> checkSettings settings then None else optimize io (d\<lparr>ix_settings := settings\<rparr>))"

definition db_cleanerFinished :: "Database \<Rightarrow> Database" where
  "db_cleanerFinished d = pushStatsDelayed (d\<lparr>db_cleaner := False, db_cleanerDone := False\<rparr>)"

end
