(* ===== verification/CachePrune.thy ===== *)
theory CachePrune
  imports CacheOpen
begin

text \<open>
  Removing old values of the disk cache, \<^verbatim>\<open>storage/cache/storage_cache_database_object.cpp\<close>: entries
  that were not used for long, and the oldest ones when there is too much. The map is walked in the
  order that \<open>io_order\<close> gives.
\<close>

section \<open>Entries that are too old\<close>

record TimeStale =
  ts_stale :: "Key list"
  ts_staleSize :: int
  ts_minimal :: nat
  ts_minimalCount :: int

text \<open>The loop over the map.\<close>

fun collectTimeStale_loop :: "nat \<Rightarrow> (Key \<times> Entry) list \<Rightarrow> TimeStale \<Rightarrow> TimeStale" where
  "collectTimeStale_loop before [] t = t"
| "collectTimeStale_loop before ((key, entry) # m) t =
     collectTimeStale_loop before m
       (if en_useTime entry \<le> before
        then t\<lparr>ts_stale := fst (flat_set_insert (<) key (ts_stale t)), ts_staleSize := ts_staleSize t + en_size entry\<rparr>
        else if ts_minimal t = 0 \<or> en_useTime entry < ts_minimal t
        then t\<lparr>ts_minimal := en_useTime entry, ts_minimalCount := 1\<rparr>
        else if ts_minimal t = en_useTime entry then t\<lparr>ts_minimalCount := ts_minimalCount t + 1\<rparr>
        else t)"

definition collectTimeStale :: "cache_io \<Rightarrow> Key list \<times> int \<Rightarrow> Database \<Rightarrow> (Key list \<times> int) \<times> Database" where
  "collectTimeStale io stale d =
     (if totalTimeLimit (ix_settings d) = 0 then (stale, d)
      else
        let before = pruneBeforeTime io d
        in if ix_minimalTime d = 0 \<or> before < ix_minimalTime d then (stale, d)
           else
             let t = collectTimeStale_loop before (io_order io (ix_map d))
                   \<lparr>ts_stale = fst stale, ts_staleSize = snd stale, ts_minimal = 0, ts_minimalCount = 0\<rparr>
             in ((ts_stale t, ts_staleSize t), d\<lparr>ix_minimalTime := ts_minimal t, ix_minimalCount := ts_minimalCount t\<rparr>))"

section \<open>The oldest entries\<close>

text \<open>
  \<^verbatim>\<open>oldest\<close> is a \<^verbatim>\<open>flat_multi_map\<close> with the newest of them first: its begin is left out when what
  follows is enough.
\<close>

type_synonym buckets = "(int \<times> (Key \<times> Entry)) list"

fun drop_first :: "int \<Rightarrow> Entry \<Rightarrow> buckets \<Rightarrow> int \<Rightarrow> buckets \<times> int" where
  "drop_first removeSize adding [] oldestTotal = ([], oldestTotal)"
| "drop_first removeSize adding ((time, key, first) # oldest) oldestTotal =
     (if en_useTime adding \<le> en_useTime first \<and> en_size first \<le> oldestTotal + en_size adding - removeSize
      then drop_first removeSize adding oldest (oldestTotal - en_size first)
      else ((time, key, first) # oldest, oldestTotal))"

fun collectSizeStale_loop :: "int \<Rightarrow> Key list \<Rightarrow> (Key \<times> Entry) list \<Rightarrow> buckets \<times> int \<Rightarrow> (buckets \<times> int) option" where
  "collectSizeStale_loop removeSize stale [] acc = Some acc"
| "collectSizeStale_loop removeSize stale ((key, entry) # m) (oldest, oldestTotal) =
     (if flat_set_contains (<) key stale then collectSizeStale_loop removeSize stale m (oldest, oldestTotal)
      else if oldestTotal \<ge> removeSize \<and> oldest = [] then None
      else if oldestTotal < removeSize \<or> en_useTime entry < en_useTime (snd (snd (hd oldest)))
      then
        let (oldest1, total1) = drop_first removeSize entry oldest oldestTotal
        in collectSizeStale_loop removeSize stale m
             (fst (flat_multi_map_insert (>) (int (en_useTime entry), key, entry) oldest1), total1 + en_size entry)
      else collectSizeStale_loop removeSize stale m (oldest, oldestTotal))"

definition collectSizeStale :: "cache_io \<Rightarrow> Key list \<times> int \<Rightarrow> Database \<Rightarrow> (Key list \<times> int) option" where
  "collectSizeStale io stale d =
     (let limit = totalSizeLimit (ix_settings d);
          removeSize = (if 0 < limit then ix_totalSize d - snd stale - limit else 0)
      in if removeSize \<le> 0 then Some stale
         else map_option (\<lambda>(oldest, oldestTotal).
             (foldl (\<lambda>s bucket. fst (flat_set_insert (<) (fst (snd bucket)) s)) (fst stale) oldest, snd stale + oldestTotal))
           (collectSizeStale_loop removeSize (fst stale) (io_order io (ix_map d)) ([], 0)))"

section \<open>Removing them\<close>

fun remove_all :: "crypto \<Rightarrow> cache_io \<Rightarrow> Key list \<Rightarrow> Database \<Rightarrow> Database option" where
  "remove_all c io [] d = Some d"
| "remove_all c io (key # ks) d = do { (_, d1) \<leftarrow> db_remove c io key d; remove_all c io ks d1 }"

definition clearStaleNow :: "crypto \<Rightarrow> cache_io \<Rightarrow> Key list \<Rightarrow> Database \<Rightarrow> Database option" where
  "clearStaleNow c io stale d =
     (if stale = [] then Some d
      else do {
        d1 \<leftarrow> remove_all c io stale (pushStats (d\<lparr>db_stale := db_stale d @ [hd stale]\<rparr>));
        optimize io (d1\<lparr>db_stale := []\<rparr>)
      })"

definition clearStaleChunkDelayed :: "Database \<Rightarrow> Database" where
  "clearStaleChunkDelayed d = (if db_clearingStale d then d else d\<lparr>db_clearingStale := True\<rparr>)"

definition clearStaleChunk :: "crypto \<Rightarrow> cache_io \<Rightarrow> Database \<Rightarrow> Database option" where
  "clearStaleChunk c io d =
     (if db_stale d = [] then Some d
      else
        let count = length (db_stale d);
            clear = min (int count) (staleRemoveChunk (ix_settings d));
            left = count - nat clear
        in do {
          d1 \<leftarrow> remove_all c io (drop left (db_stale d)) d;
          let d2 = d1\<lparr>db_stale := take left (db_stale d1)\<rparr>;
          if db_stale d2 = [] then optimize io d2 else Some (clearStaleChunkDelayed d2)
        })"

text \<open>The call that \<^verbatim>\<open>clearStaleChunkDelayed\<close> posts.\<close>

definition clearStaleChunk_posted :: "crypto \<Rightarrow> cache_io \<Rightarrow> Database \<Rightarrow> Database option" where
  "clearStaleChunk_posted c io d =
     (if db_clearingStale d then clearStaleChunk c io (d\<lparr>db_clearingStale := False\<rparr>) else Some d)"

definition startStaleClear :: "crypto \<Rightarrow> cache_io \<Rightarrow> Database \<Rightarrow> Database option" where
  "startStaleClear c io d = clearStaleChunk c io (pushStats d)"

definition db_prune :: "crypto \<Rightarrow> cache_io \<Rightarrow> Database \<Rightarrow> Database option" where
  "db_prune c io d =
     (if db_stale d \<noteq> [] then Some d
      else
        let (stale, d1) = collectTimeStale io ([], 0) d
        in do {
          stale1 \<leftarrow> collectSizeStale io stale d1;
          if int (length (fst stale1)) \<le> staleRemoveChunk (ix_settings d1) then clearStaleNow c io (fst stale1) d1
          else startStaleClear c io (d1\<lparr>db_stale := fst stale1\<rparr>)
        })"

definition db_prune_timer :: "crypto \<Rightarrow> cache_io \<Rightarrow> Database \<Rightarrow> Database option" where
  "db_prune_timer c io d = db_prune c io (d\<lparr>db_pruneTimer := None\<rparr>)"

definition db_clearByTag :: "crypto \<Rightarrow> cache_io \<Rightarrow> 8 word \<Rightarrow> Database \<Rightarrow> (Error \<times> Database) option" where
  "db_clearByTag c io tag d =
     (let stale = db_stale d @ map fst (filter (\<lambda>(key, entry). en_tag entry = tag) (io_order io (ix_map d)));
          d1 = d\<lparr>db_stale := stale\<rparr>
      in map_option (Pair noError) (if db_stale d = [] then startStaleClear c io d1 else Some d1))"

text \<open>Whether the callback was called at once; the loop ends as every turn removes something.\<close>

partial_function (option) clear_all_stale :: "crypto \<Rightarrow> cache_io \<Rightarrow> Database \<Rightarrow> Database option" where
  "clear_all_stale c io d =
     (if db_stale d = [] then Some d else Option.bind (clearStaleChunk c io d) (clear_all_stale c io))"

definition db_waitForCleaner :: "crypto \<Rightarrow> cache_io \<Rightarrow> Database \<Rightarrow> (bool \<times> Database) option" where
  "db_waitForCleaner c io d =
     map_option (\<lambda>d1. if db_cleaner d1 then (False, d1\<lparr>db_cleanerDone := True\<rparr>) else (True, d1)) (clear_all_stale c io d)"

end
