(* ===== verification/CacheFiles.thy ===== *)
theory CacheFiles
  imports CachePrune
begin

text \<open>
  The files under the disk cache: no assertion of the encrypted file fails for any content of the
  disk and any results of the system, and what the database appends to the binlog.
\<close>

section \<open>Operations of a file that is open\<close>

definition file_valid :: "File \<Rightarrow> bool" where
  "file_valid f \<longleftrightarrow> (\<exists>st. f_state f = Some st) \<and> 0 \<le> f_encryptionOffset f \<and> f_encryptionOffset f mod 16 = 0"

lemma process_total:
  assumes "ctr_mode block c" and "length data mod 16 = 0" and "0 \<le> offset" and "offset mod 16 = 0"
  shows "\<exists>out. CtrState_process c st data offset = Some out \<and> length out = length data"
  using assms by (simp add: CtrState_process_def kBlockSize_def incrementedIv_def ctr_mode_def not_less pos_imp_zdiv_nonneg_iff)

lemma int_add_mod_16:
  assumes "a mod 16 = 0" and "n mod 16 = 0"
  shows "(a + int n) mod 16 = 0" "(a - int n) mod 16 = 0"
proof -
  have "16 dvd a" "16 dvd int n" using assms by auto
  then show "(a + int n) mod 16 = 0" "(a - int n) mod 16 = 0" by (simp_all add: dvd_imp_mod_0)
qed

lemma File_decrypt_total:
  assumes "ctr_mode block c" and "file_valid f" and "length bs mod 16 = 0"
  shows "\<exists>out. File_decrypt c bs f = Some (out, f\<lparr>f_encryptionOffset := f_encryptionOffset f + int (length bs)\<rparr>) \<and> length out = length bs"
proof -
  obtain st where "f_state f = Some st" using assms(2) by (auto simp: file_valid_def)
  then show ?thesis using process_total [OF assms(1,3), of "f_encryptionOffset f" st] assms(2)
    by (auto simp: File_decrypt_def CtrState_decrypt_def file_valid_def)
qed

lemma File_encrypt_total:
  assumes "ctr_mode block c" and "file_valid f" and "length bs mod 16 = 0"
  shows "\<exists>out. File_encrypt c bs f = Some (out, f\<lparr>f_encryptionOffset := f_encryptionOffset f + int (length bs)\<rparr>) \<and> length out = length bs"
proof -
  obtain st where "f_state f = Some st" using assms(2) by (auto simp: file_valid_def)
  then show ?thesis using process_total [OF assms(1,3), of "f_encryptionOffset f" st] assms(2)
    by (auto simp: File_encrypt_def CtrState_encrypt_def file_valid_def)
qed

lemma File_decryptBack_total:
  assumes c: "ctr_mode block c" and v: "file_valid f" and n: "length bs mod 16 = 0" and o: "int (length bs) \<le> f_encryptionOffset f"
  shows "\<exists>out. File_decryptBack c bs f = Some (out, f\<lparr>f_encryptionOffset := f_encryptionOffset f - int (length bs)\<rparr>)"
proof -
  let ?f = "f\<lparr>f_encryptionOffset := f_encryptionOffset f - int (length bs)\<rparr>"
  have "file_valid ?f" using v o int_add_mod_16(2) [OF _ n] by (simp add: file_valid_def)
  from File_decrypt_total [OF c this n] show ?thesis using o by (auto simp: File_decryptBack_def)
qed

text \<open>What reading leaves as it is.\<close>

lemma File_read_total:
  assumes c: "ctr_mode block c" and v: "file_valid f" and n: "n mod 16 = 0"
  shows "\<exists>got f'. File_read c n f = Some (got, f') \<and> file_valid f' \<and> f_isOpen f' = f_isOpen f \<and> f_data f' = f_data f
    \<and> length got mod 16 = 0 \<and> length got \<le> n"
proof (cases "f_isOpen f")
  case open_f: True
  let ?g = "take n (drop (f_pos f) (f_data f))"
  let ?f1 = "f\<lparr>f_pos := f_pos f + length ?g\<rparr>"
  let ?f2 = "?f1\<lparr>f_pos := f_pos ?f1 - length ?g mod 16\<rparr>"
  have r: "readPlain n f = (?g, ?f1)" by (simp add: readPlain_def Let_def)
  have "file_valid ?f2" using v by (simp add: file_valid_def)
  note d = File_decrypt_total [OF c this whole_blocks_mod [of ?g]]
  have "length (whole_blocks ?g) \<le> n" using length_whole_blocks_le [of ?g] by simp
  then show ?thesis
    using d v open_f int_add_mod_16(1) [OF _ whole_blocks_mod [of ?g]] unfolding File_read_blocks [OF n open_f r] Let_def
    by (auto simp: file_valid_def)
qed (use assms in \<open>auto simp: File_read_def kBlockSize_def\<close>)

lemma File_write_total:
  assumes c: "ctr_mode block c" and v: "file_valid f" and n: "length bs mod 16 = 0"
  shows "\<exists>ok f'. File_write c bs f = Some (ok, f') \<and> file_valid f' \<and> f_isOpen f' = f_isOpen f
    \<and> (ok \<longrightarrow> f_isOpen f) \<and> f_encryptionOffset f' = f_encryptionOffset f + (if ok then int (length bs) else 0)"
proof (cases "f_isOpen f")
  case open_f: True
  let ?f1 = "f\<lparr>f_encryptionOffset := f_encryptionOffset f + int (length bs)\<rparr>"
  obtain out where out: "File_encrypt c bs f = Some (out, ?f1)" "length out = length bs"
    using File_encrypt_total [OF c v n] by blast
  obtain count f2 where w: "writePlain out ?f1 = (count, f2)" by (cases "writePlain out ?f1") auto
  have f2: "f_state f2 = f_state f" "f_encryptionOffset f2 = f_encryptionOffset f + int (length bs)" "f_isOpen f2 = f_isOpen f"
    using w by (auto simp: writePlain_def Let_def)
  have v2: "file_valid f2" using v int_add_mod_16(1) [OF _ n] by (simp add: file_valid_def f2)
  obtain undone where b: "File_decryptBack c out f2 = Some (undone, f2\<lparr>f_encryptionOffset := f_encryptionOffset f2 - int (length out)\<rparr>)"
    using File_decryptBack_total [OF c v2, of out] n out(2) v by (auto simp: f2 file_valid_def)
  show ?thesis
    using n open_f out w b v v2 f2 by (cases "count = int (length bs)") (auto simp: File_write_def kBlockSize_def file_valid_def)
qed (use assms in \<open>auto simp: File_write_def kBlockSize_def\<close>)

section \<open>Opening\<close>

lemma prepare_total: "ctr_mode block c \<Longrightarrow> length salt = kSaltSize \<Longrightarrow> \<exists>st. prepareCtrState c key salt = Some st"
  by (rule prepareCtrState_some)

lemma File_writeHeader_total:
  assumes c: "ctr_mode block c" and salt: "length salt = kSaltSize" and f: "f_state f = None" "f_pos f = 0" "f_encryptionOffset f = 0"
    "f_isOpen f"
  shows "\<exists>ok f'. File_writeHeader c key salt f = Some (ok, f') \<and> (ok \<longrightarrow> file_valid f' \<and> f_isOpen f')"
proof -
  obtain st where st: "prepareCtrState c key salt = Some st" using prepare_total [OF c salt] by blast
  obtain magic f1 where w1: "writePlain [84, 68, 69, 70] f = (magic, f1)" by (cases "writePlain [84, 68, 69, 70] f") auto
  let ?f2 = "f1\<lparr>f_state := Some st\<rparr>"
  obtain count f3 where w2: "writePlain salt ?f2 = (count, f3)" by (cases "writePlain salt ?f2") auto
  have f3: "f_state f3 = Some st" "f_encryptionOffset f3 = 0" "f_isOpen f3"
    using w1 w2 f by (auto simp: writePlain_def Let_def)
  have v3: "file_valid f3" by (simp add: file_valid_def f3)
  let ?h = "header_fields @ sha256 c (key @ salt @ header_fields)"
  have "length ?h mod 16 = 0" using c by (simp add: header_fields_def ctr_mode_def kSha256Size_def)
  from File_write_total [OF c v3 this] obtain ok f4 where f4: "File_write c ?h f3 = Some (ok, f4)" "file_valid f4" "f_isOpen f4"
    using f3 by blast
  then show ?thesis using f w1 w2 st by (auto simp: File_writeHeader_def Let_def file_valid_def)
qed

lemma File_readHeader_total:
  assumes c: "ctr_mode block c" and f: "f_state f = None" "f_pos f = 0" "f_encryptionOffset f = 0" "f_isOpen f"
  shows "\<exists>r f'. File_readHeader c key f = Some (r, f') \<and> r \<noteq> LockFailed \<and> (r = Success \<longrightarrow> file_valid f' \<and> f_isOpen f')"
proof -
  let ?f0 = "f\<lparr>f_pos := kSkipBytes\<rparr>"
  let ?header = "take header_size (drop kSkipBytes (f_data f))"
  let ?f1 = "?f0\<lparr>f_pos := kSkipBytes + length ?header\<rparr>"
  have r: "readPlain header_size ?f0 = (?header, ?f1)" by (simp add: readPlain_def Let_def)
  show ?thesis
  proof (cases "length ?header = header_size")
    case True
    let ?salt = "take kSaltSize ?header"
    let ?f2 = "\<lambda>st. ?f1\<lparr>f_state := Some st\<rparr>"
    have salt: "length ?salt = kSaltSize" using True by (simp add: header_size_def)
    obtain st where st: "prepareCtrState c key ?salt = Some st" using prepare_total [OF c salt] by blast
    have v: "file_valid (?f2 st)" by (simp add: file_valid_def f)
    have l: "length (drop kSaltSize ?header) = 48" using True by (simp add: header_size_def kSha256Size_def)
    then have "length (drop kSaltSize ?header) mod 16 = 0" by simp
    from File_decrypt_total [OF c v this] obtain tail where t: "File_decrypt c (drop kSaltSize ?header) (?f2 st) =
        Some (tail, (?f2 st)\<lparr>f_encryptionOffset := 48\<rparr>)" using l f by auto
    have "kSkipBytes + header_size \<le> length (f_data f)" using True by (simp add: header_size_def kSaltSize_def)
    then have size: "\<not> int (length (f_data f)) - int header_size - int kSkipBytes < 0" by simp
    show ?thesis
      using f st t size True r by (auto simp: File_readHeader_def Let_def file_valid_def)
  next
    case False
    then show ?thesis using f r by (auto simp: File_readHeader_def Let_def)
  qed
qed

lemma File_open_total:
  assumes c: "ctr_mode block c" and salt: "length (fe_salt env) = kSaltSize"
  shows "\<exists>r f. File_open c mode key env = Some (r, f) \<and> (r = Success \<longrightarrow> file_valid f \<and> f_isOpen f) \<and> (r \<noteq> Success \<longrightarrow> \<not> f_isOpen f)
    \<and> (mode = Read \<longrightarrow> r \<noteq> LockFailed) \<and> (mode = Write \<longrightarrow> r \<noteq> WrongKey)"
proof -
  have fresh: "f_state (opened_file data env) = None" "f_pos (opened_file data env) = 0"
    "f_encryptionOffset (opened_file data env) = 0" "f_isOpen (opened_file data env)" for data
    by (simp_all add: opened_file_def)
  have h: "\<exists>r f'. File_readHeader c key (opened_file data env) = Some (r, f') \<and> r \<noteq> LockFailed \<and> (r = Success \<longrightarrow> file_valid f' \<and> f_isOpen f')" for data
    using File_readHeader_total [OF c fresh] .
  have w: "\<exists>ok f'. File_writeHeader c key (fe_salt env) (opened_file data env) = Some (ok, f') \<and> (ok \<longrightarrow> file_valid f' \<and> f_isOpen f')" for data
    using File_writeHeader_total [OF c salt fresh] .
  have closed: "\<not> f_isOpen (File_close f)" for f by (simp add: File_close_def)
  have cf: "\<not> f_isOpen (closed_file disk env)" for disk by (simp add: closed_file_def closed)
  have "\<exists>r f. File_attemptOpen c mode key env = Some (r, f) \<and> (r = Success \<longrightarrow> file_valid f \<and> f_isOpen f)
      \<and> (mode = Read \<longrightarrow> r \<noteq> LockFailed) \<and> (mode = Write \<longrightarrow> r \<noteq> WrongKey)"
  proof (cases mode)
    case Read
    then show ?thesis using h [of "the (fe_file env)"]
      by (auto simp: File_attemptOpen_def attemptOpenForRead_def split: option.splits)
  next
    case ReadAppend
    obtain locked disk where l: "FileLock_lock (fe_lock env) ReadAppend (fe_file env) = (locked, disk)" by fastforce
    show ?thesis using h [of "the disk"] w [of "[]"] ReadAppend l
      by (fastforce simp: File_attemptOpen_def attemptOpenForReadAppend_def header_written_def)
  next
    case Write
    obtain locked disk where l: "FileLock_lock (fe_lock env) Write (fe_file env) = (locked, disk)" by fastforce
    show ?thesis using w [of "the disk"] Write l
      by (fastforce simp: File_attemptOpen_def attemptOpenForWrite_def header_written_def)
  qed
  then obtain r f where r: "File_attemptOpen c mode key env = Some (r, f)" "r = Success \<longrightarrow> file_valid f \<and> f_isOpen f"
    "mode = Read \<longrightarrow> r \<noteq> LockFailed" "mode = Write \<longrightarrow> r \<noteq> WrongKey" by blast
  show ?thesis
  proof (cases "mode \<noteq> Read \<and> \<not> fe_folder env")
    case True
    then show ?thesis using cf by (simp add: File_open_def)
  next
    case False
    then have "File_open c mode key env = Some (r, if r \<noteq> Success then File_close f else f)" by (auto simp: File_open_def r(1))
    then show ?thesis using r closed by (cases "r = Success") auto
  qed
qed


section \<open>Data of any length\<close>

lemma whole_part_mod: "(n - n mod 16) mod 16 = (0::nat)"
  by (simp add: minus_mod_eq_mult_div)

lemma File_readWithPadding_total:
  assumes c: "ctr_mode block c" and v: "file_valid f"
  shows "\<exists>got f'. File_readWithPadding c n f = Some (got, f')"
proof -
  let ?good = "n - n mod 16"
  have "\<exists>got f1. (if ?good \<noteq> 0 then File_read c ?good f else Some ([], f)) = Some (got, f1) \<and> file_valid f1"
    using File_read_total [OF c v whole_part_mod, of n] v by auto
  then obtain got f1 where r: "(if ?good \<noteq> 0 then File_read c ?good f else Some ([], f)) = Some (got, f1)" "file_valid f1" by blast
  obtain padded f2 where p: "File_read c 16 f1 = Some (padded, f2)" "length padded mod 16 = 0" "length padded \<le> 16"
    using File_read_total [OF c r(2), of 16] by auto
  have "padded = [] \<or> length padded = 16"
  proof (cases "padded = []")
    case False
    then have "0 < length padded" by simp
    then show ?thesis using p(2,3) by (metis dvd_imp_le le_antisym mod_0_imp_dvd)
  qed simp
  then show ?thesis using r p by (auto simp: File_readWithPadding_def kBlockSize_def Let_def)
qed

lemma File_writeWithPadding_total:
  assumes c: "ctr_mode block c" and v: "file_valid f" and random: "16 \<le> length random"
  shows "\<exists>ok f'. File_writeWithPadding c random bs f = Some (ok, f')"
proof -
  let ?part = "length bs mod 16" and ?good = "length bs - length bs mod 16"
  have lt: "length (take ?good bs) mod 16 = 0" by (simp add: whole_part_mod)
  have enc: "0 \<le> f_encryptionOffset f" using v by (simp add: file_valid_def)
  have "\<exists>ok f1. (if ?good \<noteq> 0 then File_write c (take ?good bs) f else Some (True, f)) = Some (ok, f1) \<and> file_valid f1
      \<and> (ok \<longrightarrow> int ?good \<le> f_encryptionOffset f1)"
    using File_write_total [OF c v lt] v enc by auto
  then obtain ok f1 where w: "(if ?good \<noteq> 0 then File_write c (take ?good bs) f else Some (True, f)) = Some (ok, f1)"
    "file_valid f1" "ok \<longrightarrow> int ?good \<le> f_encryptionOffset f1" by blast
  let ?padded = "drop ?good bs @ take (16 - ?part) random"
  have "length ?padded mod 16 = 0 \<or> ?part = 0" using random by auto
  then have "?part \<noteq> 0 \<Longrightarrow> length ?padded mod 16 = 0" by simp
  then have p: "?part \<noteq> 0 \<Longrightarrow> \<exists>ok f2. File_write c ?padded f1 = Some (ok, f2) \<and> file_valid f2
      \<and> (\<not> ok \<longrightarrow> f_encryptionOffset f2 = f_encryptionOffset f1)"
    using File_write_total [OF c w(2), of ?padded] by auto
  have undo: "\<exists>out f3. File_decryptBack c (take ?good bs) f2 = Some (out, f3)" if "file_valid f2" "int ?good \<le> f_encryptionOffset f2" for f2
    using File_decryptBack_total [OF c that(1) lt] that(2) by auto
  show ?thesis
  proof (cases "\<not> ok \<or> ?part = 0")
    case True
    then show ?thesis using w by (auto simp: File_writeWithPadding_def kBlockSize_def Let_def)
  next
    case False
    then obtain ok2 f2 where f2: "File_write c ?padded f1 = Some (ok2, f2)" "file_valid f2"
      "\<not> ok2 \<longrightarrow> f_encryptionOffset f2 = f_encryptionOffset f1" using p by blast
    then have "\<not> ok2 \<Longrightarrow> \<exists>out f3. File_decryptBack c (take ?good bs) f2 = Some (out, f3)" using undo w(3) False by simp
    then show ?thesis using w f2 False by (cases ok2) (auto simp: File_writeWithPadding_def kBlockSize_def Let_def)
  qed
qed

lemma disk_open_total:
  assumes "ctr_mode block c" and "length (fe_salt env) = kSaltSize"
  shows "\<exists>r f disk'. disk_open c path mode key env disk = Some (r, f, disk') \<and> (r = Success \<longrightarrow> file_valid f \<and> f_isOpen f)
    \<and> (r \<noteq> Success \<longrightarrow> \<not> f_isOpen f) \<and> (mode = Read \<longrightarrow> r \<noteq> LockFailed \<and> disk' = disk) \<and> (mode = Write \<longrightarrow> r \<noteq> WrongKey)
    \<and> (disk' = disk \<or> disk' = disk(path \<mapsto> f_data f))"
  using File_open_total [of block c "env\<lparr>fe_file := disk path\<rparr>" mode key] assms by (auto simp: disk_open_def)

lemma readValueData_total:
  assumes "ctr_mode block c" and "\<And>path. length (fe_salt (io_data io path)) = kSaltSize"
  shows "\<exists>got. readValueData c io place n d = Some got"
proof -
  let ?path = "placePath d place"
  obtain r f disk where o: "disk_open c ?path Read (db_key d) (io_data io ?path) (db_disk d) = Some (r, f, disk)"
    "r = Success \<longrightarrow> file_valid f" "r \<noteq> LockFailed" using disk_open_total [OF assms] by blast
  then show ?thesis
    using File_readWithPadding_total [OF assms(1), of f "nat n"] by (cases r) (auto simp: readValueData_def Let_def)
qed

end
