(* ===== verification/CacheAppend.thy ===== *)
theory CacheAppend
  imports CacheFiles
begin

text \<open>
  What the database appends to the binlog: a file holds records with a content, the result of
  replaying them, and a record that was written changes the content by its effect.
\<close>

section \<open>A binlog with a content\<close>

text \<open>The header of a binlog of these settings, with the time that its records start from.\<close>

definition binlog_start :: "Settings \<Rightarrow> bytes \<Rightarrow> nat \<Rightarrow> bool" where
  "binlog_start settings start time \<longleftrightarrow>
     time < 2 ^ 32 \<and>
     start = bytes_of_basic_header \<lparr>bh_format = 0, bh_flags = (if trackEstimatedTime settings then 1 else 0), bh_systemTime = time\<rparr>"

definition replays :: "Settings \<Rightarrow> binlog_record list \<Rightarrow> nat \<Rightarrow> content \<Rightarrow> bool" where
  "replays settings rs time st \<longleftrightarrow>
     records_fit settings rs \<and> all_effects (record_effect settings) rs (Map.empty, time) = (True, st)"

text \<open>
  The file stands after the records; what follows them is a tail that a failed write left before the
  file was opened, and nothing when it is clean.
\<close>

definition binlog_at :: "(bytes \<Rightarrow> bytes \<Rightarrow> bytes) \<Rightarrow> crypto \<Rightarrow> bool \<Rightarrow> Settings \<Rightarrow> bytes \<Rightarrow> File \<Rightarrow> content \<Rightarrow> bool" where
  "binlog_at block c clean settings key f st \<longleftrightarrow>
     (\<exists>start time rs tail sz. binlog_start settings start time \<and> replays settings rs time st
       \<and> file_rep block c key f (start @ bytes_of_records rs @ tail) (16 + length (bytes_of_records rs)) sz
       \<and> (clean \<longrightarrow> tail = [] \<and> sz = 16 + length (bytes_of_records rs)))"

lemma length_binlog_start: "binlog_start settings start time \<Longrightarrow> length start = 16"
  by (simp add: binlog_start_def bytes_of_basic_header_def)

lemma all_effects_append:
  "all_effects eff (rs @ qs) st = (case all_effects eff rs st of (good, st1) \<Rightarrow> if good then all_effects eff qs st1 else (False, st1))"
  by (induction rs arbitrary: st) (auto split: prod.splits)

lemma replays_append:
  assumes "replays settings rs time st" and "records_fit settings [r]" and "record_effect settings r st = (True, st')"
  shows "replays settings (rs @ [r]) time st'"
  using assms by (auto simp: replays_def all_effects_append records_fit_def)

lemma File_offset_valid: "48 \<le> f_encryptionOffset f \<Longrightarrow> File_offset f = f_encryptionOffset f - 48"
  by (simp add: File_offset_def header_size_def kSaltSize_def kSha256Size_def Let_def)

text \<open>Writing after what is there.\<close>

lemma write_over_tail:
  assumes c: "ctr_mode block c" and r: "file_rep block c key f (pre @ tail) (length pre) sz"
    and w: "File_write c bs f = Some (True, f')" and n: "length bs mod 16 = 0" and small: "length pre + length bs < 2 ^ 61"
  shows "\<exists>tail' sz'. file_rep block c key f' (pre @ bs @ tail') (length pre + length bs) sz'
    \<and> (tail = [] \<and> sz = length pre \<longrightarrow> tail' = [] \<and> sz' = length pre + length bs)"
proof -
  from File_write_rep [OF c r n small] w
  have "file_rep block c key f' (overwrite (length pre) bs (pre @ tail)) (length pre + length bs) (max sz (length pre + length bs))"
    by auto
  moreover have "overwrite (length pre) bs (pre @ tail) = pre @ bs @ drop (length bs) tail" by (simp add: overwrite_def)
  ultimately show ?thesis by (intro exI [of _ "drop (length bs) tail"] exI [of _ "max sz (length pre + length bs)"]) auto
qed

lemma file_rep_valid: "file_rep block c key f D off sz \<Longrightarrow> file_valid f \<and> f_encryptionOffset f = 48 + int off \<and> f_isOpen f"
proof -
  assume r: "file_rep block c key f D off sz"
  then have "off mod 16 = 0" by (simp add: file_rep_def)
  then have "(48 + int off) mod 16 = 0" using int_add_mod_16(1) [of 48 off] by simp
  then show ?thesis using r by (auto simp: file_rep_def file_valid_def)
qed

lemma binlog_at_write:
  assumes c: "ctr_mode block c" and b: "binlog_at block c clean settings key f st"
    and r: "records_fit settings [r]" "record_effect settings r st = (True, st')"
    and w: "bytes_of_record r = bs1 @ bs2" "length bs1 mod 16 = 0" "length bs2 mod 16 = 0" "File_write c bs1 f = Some (True, f1)"
      "if bs2 = [] then f2 = f1 else File_write c bs2 f1 = Some (True, f2)" "File_offset f2 < 2 ^ 60"
  shows "binlog_at block c clean settings key f2 st'"
proof -
  obtain start time rs tail sz where h: "binlog_start settings start time" "replays settings rs time st"
    "file_rep block c key f (start @ bytes_of_records rs @ tail) (16 + length (bytes_of_records rs)) sz"
    "clean \<longrightarrow> tail = [] \<and> sz = 16 + length (bytes_of_records rs)" using b unfolding binlog_at_def by blast
  let ?pre = "start @ bytes_of_records rs"
  have lp: "length ?pre = 16 + length (bytes_of_records rs)" using length_binlog_start [OF h(1)] by simp
  have r0: "file_rep block c key f (?pre @ tail) (length ?pre) sz" using h(3) lp by simp
  note v0 = file_rep_valid [OF r0]
  have v1: "file_valid f1" "f_encryptionOffset f1 = f_encryptionOffset f + int (length bs1)"
    using File_write_total [OF c _ w(2), of f] v0 w(4) by auto
  have v2: "f_encryptionOffset f2 = f_encryptionOffset f1 + int (length bs2)"
    using File_write_total [OF c v1(1) w(3)] w(5) by (auto split: if_splits)
  have total: "length ?pre + length bs1 + length bs2 < 2 ^ 60"
    using w(6) v0 v1(2) v2 lp by (simp add: File_offset_valid)
  then have "length ?pre + length bs1 < 2 ^ 61" by simp
  from write_over_tail [OF c r0 w(4) w(2) this] obtain tail1 sz1 where
    r1: "file_rep block c key f1 (?pre @ bs1 @ tail1) (length ?pre + length bs1) sz1"
    "tail = [] \<and> sz = length ?pre \<longrightarrow> tail1 = [] \<and> sz1 = length ?pre + length bs1" by blast
  have "\<exists>tail2 sz2. file_rep block c key f2 ((?pre @ bs1 @ bs2) @ tail2) (length (?pre @ bs1 @ bs2)) sz2
      \<and> (tail1 = [] \<and> sz1 = length (?pre @ bs1) \<longrightarrow> tail2 = [] \<and> sz2 = length (?pre @ bs1 @ bs2))"
  proof (cases "bs2 = []")
    case True
    then show ?thesis using r1(1) w(5) by (intro exI [of _ tail1] exI [of _ sz1]) (simp add: add.assoc)
  next
    case False
    have "length (?pre @ bs1) + length bs2 < 2 ^ 61" using total by simp
    moreover have "file_rep block c key f1 ((?pre @ bs1) @ tail1) (length (?pre @ bs1)) sz1" using r1(1) by (simp add: add.assoc)
    ultimately show ?thesis
      using write_over_tail [OF c _ _ w(3), of key f1 "?pre @ bs1" tail1 sz1 f2] w(5) False
      by (simp only: append_assoc length_append if_False add.assoc)
  qed
  then obtain tail2 sz2 where r2: "file_rep block c key f2 ((?pre @ bs1 @ bs2) @ tail2) (length (?pre @ bs1 @ bs2)) sz2"
    "tail1 = [] \<and> sz1 = length (?pre @ bs1) \<longrightarrow> tail2 = [] \<and> sz2 = length (?pre @ bs1 @ bs2)" by blast
  have D: "(?pre @ bs1 @ bs2) @ tail2 = start @ bytes_of_records (rs @ [r]) @ tail2" using w(1) by simp
  have L: "length (?pre @ bs1 @ bs2) = 16 + length (bytes_of_records (rs @ [r]))" using w(1) lp by simp
  show ?thesis
    unfolding binlog_at_def
    using h(1) replays_append [OF h(2) r] r2 [unfolded D L] r1(2) h(4) lp
    by (intro exI [of _ start] exI [of _ time] exI [of _ "rs @ [r]"] exI [of _ tail2] exI [of _ sz2]) simp
qed


section \<open>The binlog of a database\<close>

definition binlog_ok :: "Database \<Rightarrow> bool" where
  "binlog_ok d \<longleftrightarrow>
     (f_isOpen (db_binlog d) \<longrightarrow> file_valid (db_binlog d) \<and> 48 \<le> f_encryptionOffset (db_binlog d)
       \<and> db_disk d (db_binlogAt d) = Some (f_data (db_binlog d)) \<and> db_binlogAt d = binlogPath d)"

text \<open>
  The binlog got the record, or was closed; of the rest of the state only the excess may grow. A
  content is known of files below \<open>2^60\<close> bytes.
\<close>

definition binlog_content :: "(bytes \<Rightarrow> bytes \<Rightarrow> bytes) \<Rightarrow> crypto \<Rightarrow> bool \<Rightarrow> Database \<Rightarrow> content \<Rightarrow> bool" where
  "binlog_content block c clean d st \<longleftrightarrow>
     (f_isOpen (db_binlog d) \<and> File_offset (db_binlog d) < 2 ^ 60 \<longrightarrow>
        binlog_at block c clean (ix_settings d) (db_key d) (db_binlog d) st)"

definition binlog_step :: "(bytes \<Rightarrow> bytes \<Rightarrow> bytes) \<Rightarrow> crypto \<Rightarrow> binlog_record \<Rightarrow> Database \<Rightarrow> Database \<Rightarrow> bool" where
  "binlog_step block c r d d' \<longleftrightarrow>
     (\<exists>f disk excess. d' = d\<lparr>db_binlog := f, db_disk := disk, ix_excess := excess\<rparr> \<and> ix_excess d \<le> excess
       \<and> (\<forall>path. path \<noteq> db_binlogAt d \<or> \<not> f_isOpen (db_binlog d) \<longrightarrow> disk path = db_disk d path))
     \<and> binlog_ok d' \<and> (f_isOpen (db_binlog d') \<longrightarrow> f_isOpen (db_binlog d) \<and> File_offset (db_binlog d) \<le> File_offset (db_binlog d'))
     \<and> (\<forall>clean st st'. binlog_content block c clean d st \<and> records_fit (ix_settings d) [r] \<and> record_effect (ix_settings d) r st = (True, st')
         \<longrightarrow> binlog_content block c clean d' st')"

lemma binlog_close_fields [simp]:
  "\<not> f_isOpen (db_binlog (binlog_close d))" "binlog_close d = d\<lparr>db_binlog := File_close (db_binlog d)\<rparr>"
  by (simp_all add: binlog_close_def File_close_def)

lemma binlog_ok_closed: "\<not> f_isOpen (db_binlog d) \<Longrightarrow> binlog_ok d"
  by (simp add: binlog_ok_def)

lemma binlog_write_total:
  assumes c: "ctr_mode block c" and d: "binlog_ok d" and n: "length bs mod 16 = 0"
  shows "\<exists>ok f. binlog_write c bs d = Some (ok, set_binlog f d) \<and> (ok \<longrightarrow> File_write c bs (db_binlog d) = Some (True, f))
    \<and> (ok \<longrightarrow> f_isOpen (db_binlog d)) \<and> f_isOpen f = f_isOpen (db_binlog d) \<and> binlog_ok (set_binlog f d)
    \<and> (ok \<longrightarrow> File_offset f = File_offset (db_binlog d) + int (length bs))"
proof (cases "f_isOpen (db_binlog d)")
  case True
  then have v: "file_valid (db_binlog d)" "48 \<le> f_encryptionOffset (db_binlog d)" "db_binlogAt d = binlogPath d"
    using d by (simp_all add: binlog_ok_def)
  from File_write_total [OF c v(1) n] obtain ok f where w: "File_write c bs (db_binlog d) = Some (ok, f)" "file_valid f"
    "f_isOpen f = f_isOpen (db_binlog d)" "f_encryptionOffset f = f_encryptionOffset (db_binlog d) + (if ok then int (length bs) else 0)"
    by blast
  have e: "48 \<le> f_encryptionOffset f" using v(2) w(4) by (simp split: if_splits)
  have "binlog_write c bs d = Some (ok, set_binlog f d)" by (simp add: binlog_write_def w(1))
  moreover have "binlog_ok (set_binlog f d)"
    using True v(3) w(2,3) e by (simp add: binlog_ok_def set_binlog_def binlogPath_def)
  moreover have "ok \<Longrightarrow> File_offset f = File_offset (db_binlog d) + int (length bs)"
    using w(4) e v(2) by (simp add: File_offset_valid)
  ultimately show ?thesis using True w(1,3) by (intro exI [of _ ok] exI [of _ f]) simp
next
  case False
  then have "File_write c bs (db_binlog d) = Some (False, db_binlog d)" using n by (simp add: File_write_def kBlockSize_def)
  then show ?thesis using False
    by (intro exI [of _ False] exI [of _ "db_binlog d"]) (simp add: binlog_write_def binlog_ok_def set_binlog_def)
qed

lemma binlog_write_step:
  assumes c: "ctr_mode block c" and d: "binlog_ok d" and r: "length (bytes_of_record r) mod 16 = 0"
  shows "\<exists>ok d1. binlog_write c (bytes_of_record r) d = Some (ok, d1)
    \<and> (ok \<longrightarrow> f_isOpen (db_binlog d1) \<and> binlog_step block c r d d1) \<and> (\<not> ok \<longrightarrow> binlog_step block c r d (binlog_close d1))"
proof -
  from binlog_write_total [OF c d r] obtain ok f where w: "binlog_write c (bytes_of_record r) d = Some (ok, set_binlog f d)"
    "ok \<longrightarrow> File_write c (bytes_of_record r) (db_binlog d) = Some (True, f)" "ok \<longrightarrow> f_isOpen (db_binlog d)"
    "f_isOpen f = f_isOpen (db_binlog d)" "binlog_ok (set_binlog f d)"
    "ok \<longrightarrow> File_offset f = File_offset (db_binlog d) + int (length (bytes_of_record r))" by blast
  have same: "set_binlog f d = d\<lparr>db_binlog := f, db_disk := db_disk (set_binlog f d), ix_excess := ix_excess d\<rparr>"
    "binlog_close (set_binlog f d) = d\<lparr>db_binlog := File_close f, db_disk := db_disk (set_binlog f d), ix_excess := ix_excess d\<rparr>"
    by (simp_all add: set_binlog_def)
  have disk: "path \<noteq> db_binlogAt d \<or> \<not> f_isOpen (db_binlog d) \<longrightarrow> db_disk (set_binlog f d) path = db_disk d path" for path
    using w(4) by (simp add: set_binlog_def)
  have content: "binlog_content block c clean (set_binlog f d) st'"
    if "ok" "binlog_content block c clean d st" "records_fit (ix_settings d) [r]" "record_effect (ix_settings d) r st = (True, st')" for clean st st'
    unfolding binlog_content_def
  proof
    assume a: "f_isOpen (db_binlog (set_binlog f d)) \<and> File_offset (db_binlog (set_binlog f d)) < 2 ^ 60"
    then have "File_offset (db_binlog d) < 2 ^ 60" using w(6) that(1) by (simp add: set_binlog_def)
    then have "binlog_at block c clean (ix_settings d) (db_key d) (db_binlog d) st"
      using that w(3) by (simp add: binlog_content_def)
    from binlog_at_write [OF c this that(3,4), of "bytes_of_record r" "[]" f f] a w(2) that(1) r
    show "binlog_at block c clean (ix_settings (set_binlog f d)) (db_key (set_binlog f d)) (db_binlog (set_binlog f d)) st'"
      by (simp add: set_binlog_def)
  qed
  have yes: "ok \<Longrightarrow> binlog_step block c r d (set_binlog f d)"
    unfolding binlog_step_def using w content disk same(1) by (intro conjI) (blast, blast, simp add: set_binlog_def, blast)
  have no: "binlog_step block c r d (binlog_close (set_binlog f d))"
    unfolding binlog_step_def using disk same(2) by (intro conjI) (blast, simp_all add: binlog_ok_def binlog_content_def File_close_def)
  show ?thesis using w(1,3,4) yes no by (intro exI [of _ ok] exI [of _ "set_binlog f d"]) (auto simp: set_binlog_def)
qed


lemma set_binlog_twice: "f_isOpen f2 \<Longrightarrow> set_binlog f2 (set_binlog f1 d) = set_binlog f2 d"
  by (simp add: set_binlog_def)

lemma set_binlog_fields [simp]:
  "db_binlog (set_binlog f d) = f" "db_binlogAt (set_binlog f d) = db_binlogAt d" "ix_settings (set_binlog f d) = ix_settings d"
  "db_key (set_binlog f d) = db_key d" "ix_excess (set_binlog f d) = ix_excess d"
  by (simp_all add: set_binlog_def)

lemma set_binlog_disk: "path \<noteq> db_binlogAt d \<or> \<not> f_isOpen f \<Longrightarrow> db_disk (set_binlog f d) path = db_disk d path"
  by (auto simp: set_binlog_def)

lemma binlog_step_closed:
  assumes "\<forall>path. path \<noteq> db_binlogAt d \<or> \<not> f_isOpen (db_binlog d) \<longrightarrow> disk path = db_disk d path"
  shows "binlog_step block c r d (d\<lparr>db_binlog := File_close f, db_disk := disk\<rparr>)"
proof -
  have "d\<lparr>db_binlog := File_close f, db_disk := disk\<rparr> = d\<lparr>db_binlog := File_close f, db_disk := disk, ix_excess := ix_excess d\<rparr>"
    by simp
  then show ?thesis unfolding binlog_step_def using assms
    by (intro conjI) (blast, simp_all add: binlog_ok_def binlog_content_def File_close_def)
qed

lemma write_bundle_step:
  assumes c: "ctr_mode block c" and d: "binlog_ok d" and h: "length header = 16"
    and r: "bytes_of_record r = header @ concat (map bytes_of_key ks)"
  shows "\<exists>e d'. write_bundle c header ks d = Some (e, d') \<and> binlog_step block c r d d'
    \<and> (err_type e = NoError \<longleftrightarrow> f_isOpen (db_binlog d'))"
proof -
  let ?parts = "concat (map bytes_of_key ks)"
  have m: "length header mod 16 = 0" "length ?parts mod 16 = 0" using h by (simp_all add: length_concat sum_list_triv comp_def)
  obtain ok f1 where w1: "binlog_write c header d = Some (ok, set_binlog f1 d)"
    "ok \<longrightarrow> File_write c header (db_binlog d) = Some (True, f1)" "ok \<longrightarrow> f_isOpen (db_binlog d)" "f_isOpen f1 = f_isOpen (db_binlog d)"
    "binlog_ok (set_binlog f1 d)" "ok \<longrightarrow> File_offset f1 = File_offset (db_binlog d) + int (length header)"
    using binlog_write_total [OF c d m(1)] by blast
  obtain ok2 f2 where w2: "(if ok \<and> ks \<noteq> [] then binlog_write c ?parts (set_binlog f1 d) else Some (ok, set_binlog f1 d)) = Some (ok2, set_binlog f2 d)"
    "f_isOpen f2 = f_isOpen (db_binlog d)" "ok2 \<longrightarrow> ok"
    "ok2 \<longrightarrow> (if ?parts = [] then f2 = f1 else File_write c ?parts f1 = Some (True, f2))"
    "binlog_ok (set_binlog f2 d)" "ok2 \<longrightarrow> File_offset f2 = File_offset f1 + int (length ?parts)"
  proof (cases "ok \<and> ks \<noteq> []")
    case True
    have "bytes_of_key k \<noteq> []" for k using length_bytes_of_key [of k] by (metis list.size(3) zero_neq_numeral)
    then have "?parts \<noteq> []" using True by (cases ks) simp_all
    obtain ok2 f2 where "binlog_write c ?parts (set_binlog f1 d) = Some (ok2, set_binlog f2 (set_binlog f1 d))"
      "ok2 \<longrightarrow> File_write c ?parts f1 = Some (True, f2)" "f_isOpen f2 = f_isOpen f1" "binlog_ok (set_binlog f2 (set_binlog f1 d))"
      "ok2 \<longrightarrow> File_offset f2 = File_offset f1 + int (length ?parts)"
      using binlog_write_total [OF c w1(5) m(2)] by auto
    moreover have "set_binlog f2 (set_binlog f1 d) = set_binlog f2 d" using calculation(3) w1(3,4) True by (simp add: set_binlog_twice)
    ultimately show ?thesis using True w1(4) \<open>?parts \<noteq> []\<close>
      by (intro that [of ok2 f2]) (simp_all del: concat_eq_Nil_conv)
  next
    case False
    then show ?thesis using that [of ok f1] w1 by (cases ks) auto
  qed
  have disk: "\<forall>path. path \<noteq> db_binlogAt d \<or> \<not> f_isOpen (db_binlog d) \<longrightarrow> db_disk (set_binlog f2 d) path = db_disk d path"
    using w2(2) set_binlog_disk by blast
  show ?thesis
  proof (cases ok2)
    case False
    have "set_binlog f2 d\<lparr>db_binlog := File_close f2\<rparr> = d\<lparr>db_binlog := File_close f2, db_disk := db_disk (set_binlog f2 d)\<rparr>"
      by (simp add: set_binlog_def)
    then show ?thesis using w1(1) w2(1) False binlog_step_closed [OF disk]
      by (auto simp: write_bundle_def ioError_def File_close_def)
  next
    case True
    let ?d' = "(set_binlog f2 d)\<lparr>ix_excess := ix_excess d + (int (length header) + 16 * int (length ks))\<rparr>"
    have eq: "?d' = d\<lparr>db_binlog := f2, db_disk := db_disk (set_binlog f2 d), ix_excess := ix_excess d + (int (length header) + 16 * int (length ks))\<rparr>"
      by (simp add: set_binlog_def)
    have content: "binlog_content block c clean ?d' st'"
      if "binlog_content block c clean d st" "records_fit (ix_settings d) [r]" "record_effect (ix_settings d) r st = (True, st')" for clean st st'
      unfolding binlog_content_def
    proof
      assume a: "f_isOpen (db_binlog ?d') \<and> File_offset (db_binlog ?d') < 2 ^ 60"
      have "File_offset (db_binlog d) < 2 ^ 60" using a w1(6) w2(3,6) True by simp
      then have "binlog_at block c clean (ix_settings d) (db_key d) (db_binlog d) st"
        using that w1(3) w2(3) True by (simp add: binlog_content_def)
      from binlog_at_write [OF c this that(2,3) r m(1) m(2)] a w1(2) w2(3,4) True
      show "binlog_at block c clean (ix_settings ?d') (db_key ?d') (db_binlog ?d') st'" by simp
    qed
    have "binlog_ok ?d'" using w2(5) unfolding binlog_ok_def binlogPath_def by auto
    moreover have "\<exists>f disk excess. ?d' = d\<lparr>db_binlog := f, db_disk := disk, ix_excess := excess\<rparr> \<and> ix_excess d \<le> excess
        \<and> (\<forall>path. path \<noteq> db_binlogAt d \<or> \<not> f_isOpen (db_binlog d) \<longrightarrow> disk path = db_disk d path)"
      using disk by (intro exI conjI) (rule eq, simp_all)
    moreover have "f_isOpen (db_binlog ?d') \<longrightarrow> f_isOpen (db_binlog d) \<and> File_offset (db_binlog d) \<le> File_offset (db_binlog ?d')"
      using w1(3,6) w2(2,3,6) True by simp
    ultimately have "binlog_step block c r d ?d'" unfolding binlog_step_def using content by blast
    moreover have "write_bundle c header ks d = Some (noError, ?d')" using w1(1) w2(1) True by (simp add: write_bundle_def)
    moreover have "f_isOpen (db_binlog ?d')" using w1(3) w2(2,3) True by simp
    ultimately show ?thesis by (auto simp: noError_def)
  qed
qed

end
