(* ===== verification/CacheInvariant.thy ===== *)
theory CacheInvariant
  imports CacheAppend "HOL-Library.Multiset"
begin

text \<open>
  What holds of the disk cache between its operations: the index agrees with itself, entries and
  pending changes are in bounds, and the binlog that is on disk replays to the map, up to the
  removals that were not written yet. The operations of the bundles and of the timers keep it.
\<close>

section \<open>The invariant\<close>

definition settings_fine :: "Settings \<Rightarrow> bool" where
  "settings_fine settings \<longleftrightarrow> checkSettings settings \<and> reader_settings (binlog_kinds (trackEstimatedTime settings)) settings"

definition entry_fine :: "Settings \<Rightarrow> Entry \<Rightarrow> bool" where
  "entry_fine settings entry \<longleftrightarrow>
     0 < en_size entry \<and> en_size entry \<le> maxDataSize settings \<and> length (en_place entry) = 7 \<and> en_useTime entry < 2 ^ 64"

definition pending_fine :: "Settings \<Rightarrow> Key list \<Rightarrow> bool" where
  "pending_fine settings ks \<longleftrightarrow> sorted ks \<and> distinct ks \<and> int (length ks) < maxBundledRecords settings"

definition replays_to :: "(bytes \<Rightarrow> bytes \<Rightarrow> bytes) \<Rightarrow> crypto \<Rightarrow> bool \<Rightarrow> Database \<Rightarrow> bool" where
  "replays_to block c clean d \<longleftrightarrow>
     (\<exists>m. binlog_content block c clean d (m, tp_relative (ix_time d)) \<and> map_of (ix_map d) = m |` (- set (db_removing d)))"

definition db_fine :: "(bytes \<Rightarrow> bytes \<Rightarrow> bytes) \<Rightarrow> crypto \<Rightarrow> bool \<Rightarrow> Database \<Rightarrow> bool" where
  "db_fine block c clean d \<longleftrightarrow>
     index_ok d \<and> settings_fine (ix_settings d) \<and> time_ok (ix_time d)
     \<and> (\<forall>key entry. map_of (ix_map d) key = Some entry \<longrightarrow> entry_fine (ix_settings d) entry)
     \<and> pending_fine (ix_settings d) (db_removing d) \<and> pending_fine (ix_settings d) (db_accessed d)
     \<and> (db_accessed d \<noteq> [] \<longrightarrow> trackEstimatedTime (ix_settings d))
     \<and> (\<forall>key \<in> set (db_removing d). map_of (ix_map d) key = None)
     \<and> binlog_ok d \<and> replays_to block c clean d"

lemma db_fineD:
  assumes "db_fine block c clean d"
  shows "index_ok d" "settings_fine (ix_settings d)" "time_ok (ix_time d)"
    "map_of (ix_map d) key = Some entry \<Longrightarrow> entry_fine (ix_settings d) entry"
    "pending_fine (ix_settings d) (db_removing d)" "pending_fine (ix_settings d) (db_accessed d)"
    "db_accessed d \<noteq> [] \<Longrightarrow> trackEstimatedTime (ix_settings d)"
    "key \<in> set (db_removing d) \<Longrightarrow> map_of (ix_map d) key = None"
    "binlog_ok d" "replays_to block c clean d"
  using assms by (auto simp: db_fine_def)

lemma settings_fineD:
  assumes "settings_fine settings"
  shows "0 < maxBundledRecords settings" "maxBundledRecords settings < kBundledRecordsLimit"
    "0 < maxDataSize settings" "maxDataSize settings < kDataSizeLimit" "0 < staleRemoveChunk settings"
  using assms by (simp_all add: settings_fine_def checkSettings_def)

text \<open>What no operation of an open database changes.\<close>

definition db_frame :: "Database \<Rightarrow> Database \<Rightarrow> bool" where
  "db_frame d d' \<longleftrightarrow> ix_settings d' = ix_settings d \<and> db_key d' = db_key d \<and> db_folder d' = db_folder d \<and> db_binlogAt d' = db_binlogAt d"

lemma db_frame_refl [simp]: "db_frame d d"
  by (simp add: db_frame_def)

lemma db_frame_trans: "db_frame d d1 \<Longrightarrow> db_frame d1 d2 \<Longrightarrow> db_frame d d2"
  by (simp add: db_frame_def)

text \<open>What the system answers, as documented: salts have their size, places too, and walking the map gives it.\<close>

definition io_fine :: "cache_io \<Rightarrow> bool" where
  "io_fine io \<longleftrightarrow> (\<forall>path. length (fe_salt (io_data io path)) = kSaltSize) \<and> (\<forall>n. length (io_place io n) = 7)
     \<and> 16 \<le> length (io_padding io) \<and> (\<forall>m. mset (io_order io m) = mset m)"

definition clock_fine :: "cache_io \<Rightarrow> Database \<Rightarrow> bool" where
  "clock_fine io d \<longleftrightarrow> tp_relative (ix_time d) + (GetUnixtime io - tp_system (ix_time d)) < 2 ^ 64"

definition places_free :: "cache_io \<Rightarrow> Database \<Rightarrow> bool" where
  "places_free io d \<longleftrightarrow> (\<exists>n. isFreePlace d (io_place io n))"

lemma GetUnixtime_bounds: "1 \<le> GetUnixtime io" "GetUnixtime io < 2 ^ 31"
proof -
  let ?t = "sint (word_of_int (io_time io) :: 32 word)"
  have "?t < 2 ^ 31" using sint_lt [of "word_of_int (io_time io) :: 32 word"] by simp
  then show "GetUnixtime io < 2 ^ 31" "1 \<le> GetUnixtime io" by (simp_all add: GetUnixtime_def)
qed

lemma countTimePoint_fine:
  assumes "clock_fine io d"
  shows "tp_relative (countTimePoint io d) = tp_relative (ix_time d) + (GetUnixtime io - tp_system (ix_time d))"
    and "tp_system (countTimePoint io d) = GetUnixtime io" and "time_ok (countTimePoint io d)"
proof -
  have "nat (max (int (GetUnixtime io) - int (tp_system (ix_time d))) 0) = GetUnixtime io - tp_system (ix_time d)" by simp
  then show r: "tp_relative (countTimePoint io d) = tp_relative (ix_time d) + (GetUnixtime io - tp_system (ix_time d))"
    using assms by (simp add: countTimePoint_def Let_def clock_fine_def)
  show s: "tp_system (countTimePoint io d) = GetUnixtime io" by (simp add: countTimePoint_def Let_def)
  show "time_ok (countTimePoint io d)"
    using assms GetUnixtime_bounds(2) [of io] unfolding time_ok_def r s by (simp add: clock_fine_def)
qed

text \<open>Fields that the invariant does not look at.\<close>

lemma db_fine_fields [simp]:
  "db_fine block c clean (d\<lparr>db_writeBundlesTimer := a\<rparr>) = db_fine block c clean d"
  "db_fine block c clean (d\<lparr>db_pruneTimer := a\<rparr>) = db_fine block c clean d"
  "db_fine block c clean (d\<lparr>db_compactor := w\<rparr>) = db_fine block c clean d"
  "db_fine block c clean (d\<lparr>db_stale := ks\<rparr>) = db_fine block c clean d"
  "db_fine block c clean (d\<lparr>db_clearingStale := b\<rparr>) = db_fine block c clean d"
  "db_fine block c clean (d\<lparr>db_fired := fs\<rparr>) = db_fine block c clean d"
  "db_fine block c clean (d\<lparr>db_cleanerDone := b\<rparr>) = db_fine block c clean d"
  "db_fine block c clean (d\<lparr>db_cleaner := b\<rparr>) = db_fine block c clean d"
  "db_fine block c clean (d\<lparr>ix_pushing := b\<rparr>) = db_fine block c clean d"
  by (simp_all add: db_fine_def index_ok_def binlog_ok_def binlogPath_def replays_to_def binlog_content_def)

section \<open>Pruning and compacting, later\<close>

lemma optimize_fine:
  "\<exists>timer compactor. optimize io d = Some (d\<lparr>db_pruneTimer := timer, db_compactor := compactor\<rparr>)"
proof -
  have same: "d = d\<lparr>db_pruneTimer := db_pruneTimer d, db_compactor := db_compactor d\<rparr>" by simp
  have "\<exists>pruning timer. startDelayedPruning io d = Some (pruning, d\<lparr>db_pruneTimer := timer\<rparr>)"
    by (rule exI [of _ "fst (the (startDelayedPruning io d))"],
        rule exI [of _ "db_pruneTimer (snd (the (startDelayedPruning io d)))"])
      (simp add: startDelayedPruning_def Let_def)
  then obtain pruning timer where s: "startDelayedPruning io d = Some (pruning, d\<lparr>db_pruneTimer := timer\<rparr>)" by blast
  have "\<exists>compactor. checkCompactor io d1 = d1\<lparr>db_compactor := compactor\<rparr>" for d1
    by (rule exI [of _ "db_compactor (checkCompactor io d1)"]) (simp add: checkCompactor_def Let_def)
  then obtain compactor where k: "checkCompactor io (d\<lparr>db_pruneTimer := timer\<rparr>) = d\<lparr>db_pruneTimer := timer, db_compactor := compactor\<rparr>" by blast
  show ?thesis
  proof (cases pruning)
    case True
    then show ?thesis by (intro exI [of _ timer] exI [of _ "db_compactor d"]) (simp add: optimize_def s)
  next
    case False
    then show ?thesis by (intro exI [of _ timer] exI [of _ compactor]) (simp add: optimize_def s k)
  qed
qed

section \<open>Writing the removals\<close>

text \<open>
  A step that changes the binlog and the pending removals, and what they say together stays.
\<close>

definition quiet_step :: "(bytes \<Rightarrow> bytes \<Rightarrow> bytes) \<Rightarrow> crypto \<Rightarrow> Database \<Rightarrow> Database \<Rightarrow> bool" where
  "quiet_step block c d d' \<longleftrightarrow>
     (\<exists>f disk excess removing timer. d' = d\<lparr>db_binlog := f, db_disk := disk, ix_excess := excess, db_removing := removing, db_writeBundlesTimer := timer\<rparr>
       \<and> ix_excess d \<le> excess \<and> (removing = db_removing d \<or> removing = [])
       \<and> (\<forall>path. path \<noteq> db_binlogAt d \<or> \<not> f_isOpen (db_binlog d) \<longrightarrow> disk path = db_disk d path))
     \<and> binlog_ok d' \<and> (f_isOpen (db_binlog d') \<longrightarrow> f_isOpen (db_binlog d) \<and> File_offset (db_binlog d) \<le> File_offset (db_binlog d'))
     \<and> (\<forall>clean m t. binlog_content block c clean d (m, t) \<longrightarrow>
         (\<exists>m'. binlog_content block c clean d' (m', t) \<and> m' |` (- set (db_removing d')) = m |` (- set (db_removing d))))"

lemma quiet_step_refl: "binlog_ok d \<Longrightarrow> quiet_step block c d d"
proof -
  assume "binlog_ok d"
  moreover have "\<exists>f disk excess removing timer. d = d\<lparr>db_binlog := f, db_disk := disk, ix_excess := excess, db_removing := removing, db_writeBundlesTimer := timer\<rparr>
       \<and> ix_excess d \<le> excess \<and> (removing = db_removing d \<or> removing = [])
       \<and> (\<forall>path. path \<noteq> db_binlogAt d \<or> \<not> f_isOpen (db_binlog d) \<longrightarrow> disk path = db_disk d path)"
    by (intro exI [of _ "db_binlog d"] exI [of _ "db_disk d"] exI [of _ "ix_excess d"] exI [of _ "db_removing d"] exI [of _ "db_writeBundlesTimer d"]) simp
  ultimately show ?thesis unfolding quiet_step_def by blast
qed

lemma writeMultiRemove_quiet:
  assumes c: "ctr_mode block c" and d: "binlog_ok d" and s: "settings_fine (ix_settings d)"
    and n: "int (length (db_removing d)) \<le> maxBundledRecords (ix_settings d)"
  shows "\<exists>e d'. writeMultiRemove c d = Some (e, d') \<and> quiet_step block c d d' \<and> db_removing d' = []
    \<and> (err_type e \<noteq> NoError \<longrightarrow> \<not> f_isOpen (db_binlog d')) \<and> db_writeBundlesTimer d' = db_writeBundlesTimer d
    \<and> (err_type e = NoError \<and> f_isOpen (db_binlog d) \<longrightarrow> f_isOpen (db_binlog d'))"
proof (cases "db_removing d = []")
  case True
  then show ?thesis using n quiet_step_refl [OF d] by (simp add: writeMultiRemove_def noError_def)
next
  case False
  let ?ks = "db_removing d" and ?d0 = "d\<lparr>db_removing := []\<rparr>"
  let ?r = "RecordMultiRemove ?ks"
  have lim: "int (length ?ks) < kBundledRecordsLimit" using n settings_fineD(2) [OF s] by linarith
  let ?header = "kType_MultiRemove # pack_elements 3 (length ?ks) @ replicate 12 0"
  have h: "MultiRemove_new (int (length ?ks)) = Some ?header"
    using lim by (simp add: MultiRemove_new_def bundle_header_def ReadTo_def kBundledRecordsLimit_def)
  have r: "bytes_of_record ?r = ?header @ concat (map bytes_of_key ?ks)" by (simp add: bundle_bytes_def)
  have "binlog_ok ?d0" using d unfolding binlog_ok_def binlogPath_def by auto
  from write_bundle_step [OF c this _ r] obtain e d' where w: "write_bundle c ?header ?ks ?d0 = Some (e, d')"
    "binlog_step block c ?r ?d0 d'" "err_type e = NoError \<longleftrightarrow> f_isOpen (db_binlog d')" by auto
  obtain f disk excess where d': "d' = ?d0\<lparr>db_binlog := f, db_disk := disk, ix_excess := excess\<rparr>" "ix_excess d \<le> excess"
    "\<forall>path. path \<noteq> db_binlogAt d \<or> \<not> f_isOpen (db_binlog d) \<longrightarrow> disk path = db_disk d path"
    using w(2) by (auto simp: binlog_step_def)
  have fits: "records_fit (ix_settings ?d0) [?r]"
    using False n lim by (simp add: records_fit_def count_fits_def binlog_kinds_def)
  have content: "\<exists>m'. binlog_content block c clean d' (m', t) \<and> m' |` (- set (db_removing d')) = m |` (- set (db_removing d))"
    if "binlog_content block c clean d (m, t)" for clean m t
  proof -
    have "binlog_content block c clean ?d0 (m, t)" using that by (simp add: binlog_content_def)
    moreover have "record_effect (ix_settings ?d0) ?r (m, t) = (True, (m |` (- set ?ks), t))" by (simp add: record_effect_def)
    ultimately have "binlog_content block c clean d' (m |` (- set ?ks), t)" using w(2) fits unfolding binlog_step_def by blast
    moreover have "db_removing d' = []" using d'(1) by simp
    ultimately show ?thesis by (intro exI [of _ "m |` (- set ?ks)"]) (simp add: restrict_map_def)
  qed
  have "quiet_step block c d d'"
    unfolding quiet_step_def
  proof (intro conjI)
    show "\<exists>f disk excess removing timer. d' = d\<lparr>db_binlog := f, db_disk := disk, ix_excess := excess, db_removing := removing, db_writeBundlesTimer := timer\<rparr>
       \<and> ix_excess d \<le> excess \<and> (removing = db_removing d \<or> removing = [])
       \<and> (\<forall>path. path \<noteq> db_binlogAt d \<or> \<not> f_isOpen (db_binlog d) \<longrightarrow> disk path = db_disk d path)"
      using d' by (intro exI [of _ f] exI [of _ disk] exI [of _ excess] exI [of _ "[]"] exI [of _ "db_writeBundlesTimer d"]) simp
  qed (use w(2) content in \<open>auto simp: binlog_step_def\<close>)
  moreover have "writeMultiRemove c d = Some (e, d')" using n False h w(1) by (simp add: writeMultiRemove_def)
  moreover have "db_removing d' = []" "db_writeBundlesTimer d' = db_writeBundlesTimer d" using d'(1) by simp_all
  ultimately show ?thesis using w(3) by blast
qed

lemma writeMultiRemoveLazy_quiet:
  assumes c: "ctr_mode block c" and d: "binlog_ok d" and s: "settings_fine (ix_settings d)"
    and n: "int (length (db_removing d)) \<le> maxBundledRecords (ix_settings d)"
  shows "\<exists>d'. writeMultiRemoveLazy c io d = Some d' \<and> quiet_step block c d d'
    \<and> int (length (db_removing d')) < maxBundledRecords (ix_settings d)"
proof (cases "int (length (db_removing d)) = maxBundledRecords (ix_settings d)")
  case True
  then show ?thesis using writeMultiRemove_quiet [OF assms] settings_fineD(1) [OF s]
    by (fastforce simp: writeMultiRemoveLazy_def)
next
  case False
  let ?timer = "db_writeBundlesTimer (writeBundlesLazy io d)"
  have w: "writeBundlesLazy io d = d\<lparr>db_writeBundlesTimer := ?timer\<rparr>" by (simp add: writeBundlesLazy_def)
  have "quiet_step block c d (d\<lparr>db_writeBundlesTimer := ?timer\<rparr>)"
    unfolding quiet_step_def
  proof (intro conjI)
    show "\<exists>f disk excess removing timer. d\<lparr>db_writeBundlesTimer := ?timer\<rparr> = d\<lparr>db_binlog := f, db_disk := disk, ix_excess := excess, db_removing := removing, db_writeBundlesTimer := timer\<rparr>
       \<and> ix_excess d \<le> excess \<and> (removing = db_removing d \<or> removing = [])
       \<and> (\<forall>path. path \<noteq> db_binlogAt d \<or> \<not> f_isOpen (db_binlog d) \<longrightarrow> disk path = db_disk d path)"
      by (intro exI [of _ "db_binlog d"] exI [of _ "db_disk d"] exI [of _ "ix_excess d"] exI [of _ "db_removing d"] exI [of _ ?timer]) simp
  qed (use d in \<open>auto simp: binlog_ok_def binlogPath_def binlog_content_def\<close>)
  moreover have "db_removing (writeBundlesLazy io d) = db_removing d" by (simp add: writeBundlesLazy_def)
  ultimately show ?thesis using False n w by (simp add: writeMultiRemoveLazy_def)
qed

end
