(* ===== verification/CacheOperations.thy ===== *)
theory CacheOperations
  imports CacheInvariant
begin

text \<open>
  The operations of the disk cache keep its invariant, never fail an assertion, and act on the map
  as their names say.
\<close>

section \<open>Removing\<close>

text \<open>Places that are not the binlog.\<close>

lemma length_PlaceFromId: "place \<noteq> [] \<Longrightarrow> length (PlaceFromId place) = Suc (2 * length place)"
  by (cases place) (simp_all add: PlaceFromId_def place_value_def length_concat sum_list_triv comp_def)

lemma place_not_binlog: "length place = 7 \<Longrightarrow> PlaceFromId place \<noteq> BinlogFilename"
proof
  assume "length place = 7" "PlaceFromId place = BinlogFilename"
  then show False using length_PlaceFromId [of place] by (cases "place = []") (auto simp: BinlogFilename_def)
qed

lemma placePath_not_binlog:
  assumes "binlog_ok d" and "f_isOpen (db_binlog d)" and "length place = 7"
  shows "placePath d place \<noteq> db_binlogAt d"
  using assms place_not_binlog [OF assms(3)] by (simp add: binlog_ok_def binlogPath_def placePath_def)

text \<open>The disk after an operation has no new file but at places that are in use.\<close>

definition keeps_free :: "Database \<Rightarrow> Database \<Rightarrow> bool" where
  "keeps_free d d' \<longleftrightarrow> (\<forall>place. length place = 7 \<and> isFreePlace d place \<longrightarrow> isFreePlace d' place)"

lemma keeps_free_trans: "keeps_free d d1 \<Longrightarrow> keeps_free d1 d2 \<Longrightarrow> keeps_free d d2"
  by (simp add: keeps_free_def)

lemma keeps_free_places: "keeps_free d d' \<Longrightarrow> io_fine io \<Longrightarrow> places_free io d \<Longrightarrow> places_free io d'"
  by (auto simp: keeps_free_def places_free_def io_fine_def)

lemma disk_keeps_free:
  assumes "binlog_ok d" and "db_folder d' = db_folder d"
    and "\<forall>path. path \<noteq> db_binlogAt d \<or> \<not> f_isOpen (db_binlog d) \<longrightarrow> db_disk d path = None \<longrightarrow> db_disk d' path = None"
  shows "keeps_free d d'"
  using assms(3) placePath_not_binlog [OF assms(1)] assms(2)
  by (auto simp: keeps_free_def isFreePlace_def placePath_def)

text \<open>The files of values stay as they are.\<close>

definition data_kept :: "Database \<Rightarrow> Database \<Rightarrow> bool" where
  "data_kept d d' \<longleftrightarrow> db_folder d' = db_folder d
     \<and> (\<forall>place. length place = 7 \<longrightarrow> db_disk d' (placePath d place) = db_disk d (placePath d place))"

lemma data_kept_refl [simp]: "data_kept d d"
  by (simp add: data_kept_def)

lemma data_kept_trans: "data_kept d d1 \<Longrightarrow> data_kept d1 d2 \<Longrightarrow> data_kept d d2"
  by (simp add: data_kept_def placePath_def)

lemma data_kept_free: "data_kept d d' \<Longrightarrow> keeps_free d d'"
  by (simp add: data_kept_def keeps_free_def isFreePlace_def placePath_def)

lemma disk_data_kept:
  assumes "binlog_ok d" and "db_folder d' = db_folder d"
    and "\<forall>path. path \<noteq> db_binlogAt d \<or> \<not> f_isOpen (db_binlog d) \<longrightarrow> db_disk d' path = db_disk d path"
  shows "data_kept d d'"
  using assms placePath_not_binlog [OF assms(1)] by (auto simp: data_kept_def)

lemma index_ok_fields [simp]:
  "index_ok (d\<lparr>db_binlog := f\<rparr>) = index_ok d" "index_ok (d\<lparr>db_disk := disk\<rparr>) = index_ok d"
  "index_ok (d\<lparr>db_removing := ks\<rparr>) = index_ok d" "index_ok (d\<lparr>db_writeBundlesTimer := timer\<rparr>) = index_ok d"
  "index_ok (d\<lparr>db_accessed := ks\<rparr>) = index_ok d" "index_ok (d\<lparr>ix_time := time\<rparr>) = index_ok d"
  by (simp_all add: index_ok_def)

lemma index_ok_excess: "index_ok d \<Longrightarrow> ix_excess d \<le> excess \<Longrightarrow> index_ok (d\<lparr>ix_excess := excess\<rparr>)"
  by (simp add: index_ok_def)

lemma quiet_stepE:
  assumes "quiet_step block c d d'"
  shows "ix_settings d' = ix_settings d" "ix_map d' = ix_map d" "ix_time d' = ix_time d" "ix_excess d \<le> ix_excess d'"
    "db_accessed d' = db_accessed d" "db_stale d' = db_stale d" "db_key d' = db_key d" "db_folder d' = db_folder d"
    "db_binlogAt d' = db_binlogAt d" "index_ok d \<Longrightarrow> index_ok d'" "db_removing d' = db_removing d \<or> db_removing d' = []"
    "path \<noteq> db_binlogAt d \<or> \<not> f_isOpen (db_binlog d) \<Longrightarrow> db_disk d' path = db_disk d path"
    "binlog_ok d'" "f_isOpen (db_binlog d') \<Longrightarrow> f_isOpen (db_binlog d)"
    "binlog_content block c clean d (m, t) \<Longrightarrow>
      \<exists>m'. binlog_content block c clean d' (m', t) \<and> m' |` (- set (db_removing d')) = m |` (- set (db_removing d))"
    "f_isOpen (db_binlog d') \<Longrightarrow> File_offset (db_binlog d) \<le> File_offset (db_binlog d')"
  using assms unfolding quiet_step_def by (auto simp: index_ok_excess)

lemma binlog_content_erase:
  assumes "index_frame d d'"
  shows "binlog_content block c clean d' st = binlog_content block c clean d st" "binlog_ok d' = binlog_ok d"
    "db_removing d' = db_removing d" "db_accessed d' = db_accessed d" "db_frame d d'" "db_disk d' = db_disk d" "db_binlog d' = db_binlog d"
    "db_stale d' = db_stale d" "db_folder d' = db_folder d" "db_key d' = db_key d" "db_binlogAt d' = db_binlogAt d"
  using assms by (cases d; cases d'; simp add: index_frame_def binlog_content_def binlog_ok_def binlogPath_def db_frame_def)+

text \<open>Erasing a key that waits to be removed.\<close>

lemma db_remove_fine:
  assumes c: "ctr_mode block c" and fine: "db_fine block c clean d"
  shows "\<exists>e d'. db_remove c io key d = Some (e, d') \<and> db_fine block c clean d' \<and> db_frame d d' \<and> keeps_free d d'
    \<and> map_of (ix_map d') = (map_of (ix_map d))(key := None) \<and> ix_time d' = ix_time d \<and> db_stale d' = db_stale d
    \<and> db_accessed d' = db_accessed d \<and> (f_isOpen (db_binlog d') \<longrightarrow> f_isOpen (db_binlog d))"
proof (cases "map_of (ix_map d) key")
  case None
  then have "(map_of (ix_map d))(key := None) = map_of (ix_map d)" by auto
  then show ?thesis using None fine by (simp add: db_remove_def keeps_free_def)
next
  case (Some entry)
  note f = db_fineD [OF fine]
  let ?R = "set_emplace key (db_removing d)" and ?d0 = "d\<lparr>db_removing := set_emplace key (db_removing d)\<rparr>"
  have R: "sorted ?R" "distinct ?R" "set ?R = insert key (set (db_removing d))"
    "int (length ?R) \<le> maxBundledRecords (ix_settings d)"
    using f(5) set_emplace_ok [of "db_removing d" key] length_set_emplace [of key "db_removing d"] by (auto simp: pending_fine_def)
  have b0: "binlog_ok ?d0" using f(9) unfolding binlog_ok_def binlogPath_def by auto
  obtain d1 where d1: "writeMultiRemoveLazy c io ?d0 = Some d1" "quiet_step block c ?d0 d1"
    "int (length (db_removing d1)) < maxBundledRecords (ix_settings d)"
    using writeMultiRemoveLazy_quiet [OF c b0, of io] f(2) R(4) by auto
  note q = quiet_stepE [OF d1(2)]
  obtain d2 where d2: "eraseMapEntry key d1 = Some d2" "index_ok d2" "index_frame d1 d2" "ix_map d2 = AList.delete key (ix_map d1)"
    "ix_time d2 = ix_time d1" "ix_excess d2 = ix_excess d1"
    using eraseMapEntry_ok [OF q(10)] f(1) by auto
  note e = binlog_content_erase [OF d2(3)]
  let ?path = "placePath d1 (en_place entry)"
  define d3 where "d3 = (if db_disk d2 ?path \<noteq> None \<and> io_removes io ?path then d2\<lparr>db_disk := (db_disk d2)(?path := None)\<rparr> else d2)"
  have place: "length (en_place entry) = 7" using f(4) [OF Some] by (simp add: entry_fine_def)
  have not_binlog: "f_isOpen (db_binlog d2) \<Longrightarrow> ?path \<noteq> db_binlogAt d2"
    using placePath_not_binlog [OF q(13) _ place] e(7,11) by simp
  have m3: "map_of (ix_map d3) = (map_of (ix_map d))(key := None)" by (simp add: d3_def d2(4) q(2) delete_conv')
  have same: "ix_settings d3 = ix_settings d" "ix_time d3 = ix_time d" "db_removing d3 = db_removing d1" "db_accessed d3 = db_accessed d"
    "db_stale d3 = db_stale d" "db_key d3 = db_key d" "db_folder d3 = db_folder d" "db_binlogAt d3 = db_binlogAt d" "index_ok d3"
    "db_binlog d3 = db_binlog d1"
    using q d2 e by (simp_all add: d3_def db_frame_def)
  have b3: "binlog_ok d3"
    using e(2) q(13) not_binlog by (auto simp: d3_def binlog_ok_def binlogPath_def)
  obtain m where m: "binlog_content block c clean d (m, tp_relative (ix_time d))" "map_of (ix_map d) = m |` (- set (db_removing d))"
    using f(10) by (auto simp: replays_to_def)
  have "binlog_content block c clean ?d0 (m, tp_relative (ix_time d))" using m(1) by (simp add: binlog_content_def)
  then obtain m' where m': "binlog_content block c clean d1 (m', tp_relative (ix_time d))"
    "m' |` (- set (db_removing d1)) = m |` (- set ?R)" using q(15) by fastforce
  have "map_of (ix_map d3) = m |` (- set ?R)" using m(2) R(3) by (auto simp: m3 fun_eq_iff restrict_map_def)
  moreover have "binlog_content block c clean d3 (m', tp_relative (ix_time d3))"
    using m'(1) by (simp add: binlog_content_def same q(1,7))
  ultimately have "replays_to block c clean d3" using m'(2) same(3) unfolding replays_to_def by metis
  moreover have "pending_fine (ix_settings d) (db_removing d1)" using R q(11) d1(3) by (auto simp: pending_fine_def)
  moreover have "map_of (ix_map d3) k = None" if "k \<in> set (db_removing d1)" for k
    using that q(11) R(3) f(8) by (auto simp: m3)
  ultimately have "db_fine block c clean d3"
    unfolding db_fine_def using f same b3 by (auto simp: m3 split: if_splits)
  moreover have "keeps_free d d3"
    by (rule disk_keeps_free [OF f(9)]) (use same(7) q(12) e(6) in \<open>auto simp: d3_def\<close>)
  moreover have "\<exists>e. db_remove c io key d = Some (e, d3)"
    using Some d1(1) d2(1) by (simp add: db_remove_def Let_def d3_def)
  moreover have "f_isOpen (db_binlog d3) \<longrightarrow> f_isOpen (db_binlog d)" using q(14) same(10) by simp
  ultimately show ?thesis using m3 same by (auto simp: db_frame_def)
qed


section \<open>Steps that keep the invariant\<close>

definition good_step :: "(bytes \<Rightarrow> bytes \<Rightarrow> bytes) \<Rightarrow> crypto \<Rightarrow> bool \<Rightarrow> cache_io \<Rightarrow> Database \<Rightarrow> Database \<Rightarrow> bool" where
  "good_step block c clean io d d' \<longleftrightarrow>
     db_fine block c clean d' \<and> db_frame d d' \<and> keeps_free d d' \<and> clock_fine io d' \<and> (f_isOpen (db_binlog d') \<longrightarrow> f_isOpen (db_binlog d))"

lemma good_step_refl: "db_fine block c clean d \<Longrightarrow> clock_fine io d \<Longrightarrow> good_step block c clean io d d"
  by (simp add: good_step_def keeps_free_def)

lemma good_step_trans: "good_step block c clean io d d1 \<Longrightarrow> good_step block c clean io d1 d2 \<Longrightarrow> good_step block c clean io d d2"
  by (auto simp: good_step_def intro: db_frame_trans keeps_free_trans)

lemma good_stepD:
  assumes "good_step block c clean io d d'"
  shows "db_fine block c clean d'" "clock_fine io d'" "ix_settings d' = ix_settings d" "db_key d' = db_key d" "db_folder d' = db_folder d"
    "keeps_free d d'" "f_isOpen (db_binlog d') \<Longrightarrow> f_isOpen (db_binlog d)" "db_binlogAt d' = db_binlogAt d"
  using assms by (simp_all add: good_step_def db_frame_def)

lemma good_step_fields:
  assumes "good_step block c clean io d d'"
  shows "good_step block c clean io d (d'\<lparr>db_stale := ks\<rparr>)" "good_step block c clean io d (d'\<lparr>db_pruneTimer := timer, db_compactor := compactor\<rparr>)"
    "good_step block c clean io d (d'\<lparr>db_writeBundlesTimer := timer\<rparr>)" "good_step block c clean io d (d'\<lparr>db_clearingStale := b\<rparr>)"
    "good_step block c clean io d (d'\<lparr>db_fired := fs\<rparr>)" "good_step block c clean io d (d'\<lparr>db_cleanerDone := b\<rparr>)"
  using assms unfolding good_step_def db_frame_def keeps_free_def clock_fine_def isFreePlace_def placePath_def by auto

text \<open>The values of a map, without the times of their use.\<close>

definition values_of :: "Database \<Rightarrow> Key \<Rightarrow> Entry option" where
  "values_of d = (\<lambda>key. map_option (\<lambda>entry. entry\<lparr>en_useTime := 0\<rparr>) (map_of (ix_map d) key))"

lemma values_of_fields [simp]:
  "values_of (d\<lparr>db_stale := ks\<rparr>) = values_of d" "values_of (d\<lparr>db_pruneTimer := timer\<rparr>) = values_of d"
  "values_of (d\<lparr>db_compactor := compactor\<rparr>) = values_of d" "values_of (d\<lparr>db_writeBundlesTimer := timer\<rparr>) = values_of d"
  by (simp_all add: values_of_def)

lemma values_of_remove: "map_of (ix_map d') = (map_of (ix_map d))(key := None) \<Longrightarrow> values_of d' = (values_of d)(key := None)"
  by (simp add: values_of_def fun_eq_iff)

section \<open>Accesses\<close>

lemma access_elements_entries:
  "access_elements time ks ix = ix\<lparr>ix_excess := ix_excess ix + 16 * int (length ks), ix_map := use_entries time ks (ix_map ix)\<rparr>"
  by (induction ks arbitrary: ix) (simp_all add: use_entries_def)

lemma use_entries_ok:
  assumes "index_ok d"
  shows "index_ok (d\<lparr>ix_map := use_entries time ks (ix_map d)\<rparr>)"
    and "map_of (use_entries time ks (ix_map d)) = accessed_at time (set ks) (map_of (ix_map d))"
proof -
  note a = access_elements_ok [OF assms, of time ks, unfolded access_elements_entries]
  have "index_ok ((d\<lparr>ix_excess := ix_excess d + 16 * int (length ks), ix_map := use_entries time ks (ix_map d)\<rparr>)\<lparr>ix_excess := ix_excess d\<rparr>)"
    using a index_okD(7) [OF assms] by (simp add: index_ok_def)
  then show "index_ok (d\<lparr>ix_map := use_entries time ks (ix_map d)\<rparr>)" by simp
  show "map_of (use_entries time ks (ix_map d)) = accessed_at time (set ks) (map_of (ix_map d))" using a by simp
qed

lemma writeMultiAccessBlock_fine:
  assumes c: "ctr_mode block c" and fine: "db_fine block c clean (d\<lparr>db_accessed := []\<rparr>)" and track: "trackEstimatedTime (ix_settings d)"
    and n: "int (length (db_accessed d)) \<le> maxBundledRecords (ix_settings d)" and clock: "clock_fine io d"
  shows "\<exists>e d'. writeMultiAccessBlock c io d = Some (e, d') \<and> good_step block c clean io d d'
    \<and> db_accessed d' = [] \<and> ix_time d' = countTimePoint io d \<and> db_stale d' = db_stale d \<and> db_removing d' = db_removing d
    \<and> map_of (ix_map d') = accessed_at (tp_relative (ix_time d')) (set (db_accessed d)) (map_of (ix_map d))
    \<and> (err_type e = NoError \<longleftrightarrow> f_isOpen (db_binlog d')) \<and> data_kept d d'"
proof -
  note f = db_fineD [OF fine, simplified]
  let ?ks = "db_accessed d"
  define time where "time = countTimePoint io d"
  note t = countTimePoint_fine [OF clock, folded time_def]
  let ?d0 = "d\<lparr>db_accessed := [], ix_time := time, ix_map := use_entries (tp_relative time) ?ks (ix_map d)\<rparr>"
  let ?r = "RecordMultiAccess time ?ks"
  let ?header = "kType_MultiAccess # pack_elements 3 (length ?ks) @ bytes_of_time time"
  have lim: "int (length ?ks) < kBundledRecordsLimit" using n settings_fineD(2) [OF f(2)] by linarith
  have h: "MultiAccess_new time (int (length ?ks)) = Some ?header"
    using lim by (simp add: MultiAccess_new_def bundle_header_def ReadTo_def kBundledRecordsLimit_def)
  have r: "bytes_of_record ?r = ?header @ concat (map bytes_of_key ?ks)" by (simp add: bundle_bytes_def)
  have u: "index_ok ?d0" "map_of (ix_map ?d0) = accessed_at (tp_relative time) (set ?ks) (map_of (ix_map d))"
    using use_entries_ok [OF f(1)] by (simp_all add: index_ok_def)
  have b0: "binlog_ok ?d0" using f(9) unfolding binlog_ok_def binlogPath_def by auto
  obtain e d' where w: "write_bundle c ?header ?ks ?d0 = Some (e, d')" "binlog_step block c ?r ?d0 d'"
    "err_type e = NoError \<longleftrightarrow> f_isOpen (db_binlog d')" using write_bundle_step [OF c b0 _ r] by auto
  obtain fl disk excess where d': "d' = ?d0\<lparr>db_binlog := fl, db_disk := disk, ix_excess := excess\<rparr>" "ix_excess d \<le> excess"
    "\<forall>path. path \<noteq> db_binlogAt d \<or> \<not> f_isOpen (db_binlog d) \<longrightarrow> disk path = db_disk d path"
    using w(2) by (auto simp: binlog_step_def)
  have b': "binlog_ok d'" "f_isOpen (db_binlog d') \<longrightarrow> f_isOpen (db_binlog d)" using w(2) by (auto simp: binlog_step_def)
  obtain m where m: "binlog_content block c clean d (m, tp_relative (ix_time d))" "map_of (ix_map d) = m |` (- set (db_removing d))"
    using f(10) by (auto simp: replays_to_def binlog_content_def)
  have "records_fit (ix_settings ?d0) [?r]"
    using n lim track t(3) by (simp add: records_fit_def count_fits_def binlog_kinds_def)
  moreover have "record_effect (ix_settings ?d0) ?r (m, tp_relative (ix_time d)) =
      (True, (accessed_at (tp_relative time) (set ?ks) m, tp_relative time))"
    using t(1) by (simp add: record_effect_def)
  moreover have "binlog_content block c clean ?d0 (m, tp_relative (ix_time d))" using m(1) by (simp add: binlog_content_def)
  ultimately have "binlog_content block c clean d' (accessed_at (tp_relative time) (set ?ks) m, tp_relative time)"
    using w(2) unfolding binlog_step_def by blast
  moreover have map': "map_of (ix_map d') = accessed_at (tp_relative time) (set ?ks) (map_of (ix_map d))" using u(2) by (simp add: d'(1))
  moreover have "accessed_at (tp_relative time) (set ?ks) (map_of (ix_map d)) =
      accessed_at (tp_relative time) (set ?ks) m |` (- set (db_removing d))"
    by (simp add: m(2) accessed_at_def restrict_map_def fun_eq_iff)
  ultimately have "replays_to block c clean d'" unfolding replays_to_def by (auto simp: d'(1))
  moreover have "index_ok d'" using u(1) d'(2) by (simp add: d'(1) index_ok_excess)
  moreover have "tp_relative time < 2 ^ 64" using t(3) by (simp add: time_ok_def)
  then have "entry_fine (ix_settings d) entry" if "map_of (ix_map d') key = Some entry" for key entry
    using that f(4) by (auto simp: map' accessed_at_def entry_fine_def split: if_splits)
  moreover have "map_of (ix_map d') key = None" if "key \<in> set (db_removing d)" for key
    using f(8) [OF that] by (simp add: map' accessed_at_def)
  moreover have same: "ix_settings d' = ix_settings d" "db_removing d' = db_removing d" "db_accessed d' = []" "ix_time d' = time"
    "db_folder d' = db_folder d" by (simp_all add: d'(1))
  ultimately have "db_fine block c clean d'"
    using f(2,5,6) b'(1) t(3) unfolding db_fine_def by simp
  moreover have bd: "binlog_ok d" using f(9) unfolding binlog_ok_def binlogPath_def by auto
  have kept: "data_kept d d'" by (rule disk_data_kept [OF bd same(5)]) (use d'(3) in \<open>simp add: d'(1)\<close>)
  then have "keeps_free d d'" by (rule data_kept_free)
  moreover have "clock_fine io d'" using t(2,3) by (simp add: clock_fine_def d'(1) time_ok_def)
  ultimately have "good_step block c clean io d d'" using b'(2) by (simp add: good_step_def db_frame_def d'(1))
  moreover have "writeMultiAccessBlock c io d = Some (e, d')"
    using track n h w(1) by (simp add: writeMultiAccessBlock_def time_def Let_def)
  ultimately show ?thesis using w(3) map' kept by (simp add: d'(1) time_def)
qed


lemma values_of_accessed: "map_of (ix_map d') = accessed_at time ks (map_of (ix_map d)) \<Longrightarrow> values_of d' = values_of d"
  by (simp add: values_of_def accessed_at_def fun_eq_iff option.map_comp comp_def)

lemma db_fine_accessed: "db_fine block c clean d \<Longrightarrow> db_fine block c clean (d\<lparr>db_accessed := []\<rparr>)"
proof -
  assume "db_fine block c clean d"
  note f = db_fineD [OF this]
  have "pending_fine (ix_settings d) []" using settings_fineD(1) [OF f(2)] by (simp add: pending_fine_def)
  then show ?thesis using f unfolding db_fine_def replays_to_def binlog_content_def binlog_ok_def binlogPath_def by auto
qed

lemma db_fine_add_access:
  assumes "db_fine block c clean d" and "trackEstimatedTime (ix_settings d)"
    and "int (length (set_emplace key (db_accessed d))) < maxBundledRecords (ix_settings d)"
  shows "db_fine block c clean (d\<lparr>db_accessed := set_emplace key (db_accessed d)\<rparr>)"
proof -
  note f = db_fineD [OF assms(1)]
  have "pending_fine (ix_settings d) (set_emplace key (db_accessed d))"
    using f(6) assms(3) set_emplace_ok [of "db_accessed d" key] by (simp add: pending_fine_def)
  then show ?thesis using f assms(2) unfolding db_fine_def replays_to_def binlog_content_def binlog_ok_def binlogPath_def by auto
qed

lemma clock_fine_fields [simp]:
  "clock_fine io (d\<lparr>db_accessed := ks\<rparr>) = clock_fine io d" "clock_fine io (d\<lparr>db_removing := ks\<rparr>) = clock_fine io d"
  "clock_fine io (d\<lparr>db_stale := ks\<rparr>) = clock_fine io d" "clock_fine io (d\<lparr>db_disk := disk\<rparr>) = clock_fine io d"
  "clock_fine io (d\<lparr>db_fired := fs\<rparr>) = clock_fine io d" "clock_fine io (d\<lparr>db_writeBundlesTimer := timer\<rparr>) = clock_fine io d"
  by (simp_all add: clock_fine_def)

lemma good_step_access_left:
  "good_step block c clean io (d\<lparr>db_accessed := ks\<rparr>) d' = good_step block c clean io d d'"
  by (simp add: good_step_def db_frame_def keeps_free_def isFreePlace_def placePath_def)

lemma optimize_step:
  assumes "good_step block c clean io d d1"
  shows "\<exists>d'. optimize io d1 = Some d' \<and> good_step block c clean io d d' \<and> values_of d' = values_of d1 \<and> db_stale d' = db_stale d1
    \<and> db_removing d' = db_removing d1 \<and> data_kept d1 d' \<and> db_disk d' = db_disk d1 \<and> db_binlog d' = db_binlog d1 \<and> ix_map d' = ix_map d1"
  using optimize_fine [of io d1] good_step_fields(2) [OF assms] by (auto simp: data_kept_def)

lemma recordEntryAccess_fine:
  assumes c: "ctr_mode block c" and fine: "db_fine block c clean d" and clock: "clock_fine io d"
  shows "\<exists>d'. recordEntryAccess c io key d = Some d' \<and> good_step block c clean io d d' \<and> values_of d' = values_of d
    \<and> db_stale d' = db_stale d \<and> db_removing d' = db_removing d \<and> data_kept d d'"
proof (cases "trackEstimatedTime (ix_settings d)")
  case False
  then show ?thesis using good_step_refl [OF fine clock] by (simp add: recordEntryAccess_def)
next
  case track: True
  let ?A = "set_emplace key (db_accessed d)" and ?d0 = "d\<lparr>db_accessed := set_emplace key (db_accessed d)\<rparr>"
  have n: "int (length ?A) \<le> maxBundledRecords (ix_settings d)"
    using db_fineD(6) [OF fine] length_set_emplace [of key "db_accessed d"] by (simp add: pending_fine_def)
  have "\<exists>d1. writeMultiAccessLazy c io ?d0 = Some d1 \<and> good_step block c clean io d d1 \<and> values_of d1 = values_of d
      \<and> db_stale d1 = db_stale d \<and> db_removing d1 = db_removing d \<and> data_kept d d1"
  proof (cases "int (length ?A) = maxBundledRecords (ix_settings d)")
    case True
    then have "?A \<noteq> []" using settings_fineD(1) [OF db_fineD(2) [OF fine]] by auto
    then have "writeMultiAccess c io ?d0 = writeMultiAccessBlock c io ?d0" by (simp add: writeMultiAccess_def)
    moreover obtain e d1 where b: "writeMultiAccessBlock c io ?d0 = Some (e, d1)" "good_step block c clean io ?d0 d1"
      "db_stale d1 = db_stale ?d0" "db_removing d1 = db_removing ?d0"
      "map_of (ix_map d1) = accessed_at (tp_relative (ix_time d1)) (set ?A) (map_of (ix_map ?d0))" "data_kept ?d0 d1"
      using writeMultiAccessBlock_fine [OF c _ _ _, of clean ?d0 io] db_fine_accessed [OF fine] track n clock by auto
    ultimately show ?thesis
      using True values_of_accessed [of d1] by (auto simp: writeMultiAccessLazy_def good_step_access_left values_of_def data_kept_def placePath_def)
  next
    case False
    then have "db_fine block c clean ?d0" using db_fine_add_access [OF fine track] n by simp
    then have "good_step block c clean io ?d0 ?d0" using clock by (simp add: good_step_refl)
    then have "good_step block c clean io d ?d0" by (simp only: good_step_access_left)
    then have "good_step block c clean io d (writeBundlesLazy io ?d0)"
      using good_step_fields(3) by (auto simp: writeBundlesLazy_def)
    then show ?thesis using False by (simp add: writeMultiAccessLazy_def writeBundlesLazy_def values_of_def data_kept_def)
  qed
  then obtain d1 where d1: "writeMultiAccessLazy c io ?d0 = Some d1" "good_step block c clean io d d1" "values_of d1 = values_of d"
    "db_stale d1 = db_stale d" "db_removing d1 = db_removing d" "data_kept d d1" by blast
  from optimize_step [OF d1(2)] show ?thesis using d1 track data_kept_trans by (fastforce simp: recordEntryAccess_def)
qed

lemma quiet_good:
  assumes fine: "db_fine block c clean d" and clock: "clock_fine io d" and q: "quiet_step block c d d'"
  shows "good_step block c clean io d d'" and "ix_map d' = ix_map d" and "data_kept d d'"
proof -
  note f = db_fineD [OF fine] and e = quiet_stepE [OF q]
  show "ix_map d' = ix_map d" by (rule e(2))
  have "pending_fine (ix_settings d) (db_removing d')"
    using e(11) f(5) settings_fineD(1) [OF f(2)] by (auto simp: pending_fine_def)
  moreover have "replays_to block c clean d'"
    using f(10) e(15) unfolding replays_to_def e(2,3) by metis
  moreover have "map_of (ix_map d') k = None" if "k \<in> set (db_removing d')" for k using that e(2,11) f(8) by auto
  ultimately have "db_fine block c clean d'"
    unfolding db_fine_def using f e by auto
  moreover show kept: "data_kept d d'" by (rule disk_data_kept [OF f(9) e(8)]) (use e(12) in auto)
  then have "keeps_free d d'" by (rule data_kept_free)
  ultimately show "good_step block c clean io d d'" using e clock by (simp add: good_step_def db_frame_def clock_fine_def)
qed

lemma writeBundles_fine:
  assumes c: "ctr_mode block c" and fine: "db_fine block c clean d" and clock: "clock_fine io d"
  shows "\<exists>d'. writeBundles c io d = Some d' \<and> good_step block c clean io d d' \<and> values_of d' = values_of d
    \<and> db_removing d' = [] \<and> db_accessed d' = [] \<and> db_stale d' = db_stale d \<and> data_kept d d'"
proof -
  note f = db_fineD [OF fine]
  have "int (length (db_removing d)) \<le> maxBundledRecords (ix_settings d)" using f(5) by (simp add: pending_fine_def)
  then obtain e d1 where d1: "writeMultiRemove c d = Some (e, d1)" "quiet_step block c d d1" "db_removing d1 = []"
    using writeMultiRemove_quiet [OF c f(9,2)] by blast
  note g = quiet_good [OF fine clock d1(2)] and q = quiet_stepE [OF d1(2)]
  have v1: "values_of d1 = values_of d" by (simp add: values_of_def q(2))
  show ?thesis
  proof (cases "trackEstimatedTime (ix_settings d) \<and> db_accessed d \<noteq> []")
    case True
    have n: "int (length (db_accessed d1)) \<le> maxBundledRecords (ix_settings d1)" using f(6) q(1,5) by (simp add: pending_fine_def)
    obtain e d2 where b: "writeMultiAccessBlock c io d1 = Some (e, d2)" "good_step block c clean io d1 d2" "db_accessed d2 = []"
      "db_stale d2 = db_stale d1" "db_removing d2 = db_removing d1"
      "map_of (ix_map d2) = accessed_at (tp_relative (ix_time d2)) (set (db_accessed d1)) (map_of (ix_map d1))" "data_kept d1 d2"
      using writeMultiAccessBlock_fine [OF c db_fine_accessed [OF good_stepD(1) [OF g(1)]] _ n good_stepD(2) [OF g(1)]] True q(1) by auto
    show ?thesis
      using True d1 b q v1 values_of_accessed [OF b(6)] good_step_trans [OF g(1) b(2)] data_kept_trans [OF g(3) b(7)]
      by (auto simp: writeBundles_def writeMultiAccess_def)
  next
    case False
    then have "db_accessed d = []" using f(7) by blast
    then show ?thesis using False d1 q v1 g(1,3) by (auto simp: writeBundles_def writeMultiAccess_def)
  qed
qed


section \<open>Records of values\<close>

text \<open>
  While a key is written that waited to be removed, the binlog may still have an entry for it.
\<close>

definition writes_key :: "(bytes \<Rightarrow> bytes \<Rightarrow> bytes) \<Rightarrow> crypto \<Rightarrow> bool \<Rightarrow> Key \<Rightarrow> Database \<Rightarrow> bool" where
  "writes_key block c clean key d \<longleftrightarrow>
     (\<exists>ks. db_fine block c clean (d\<lparr>db_removing := ks\<rparr>) \<and> db_removing d = set_erase key ks)"

lemma writes_keyI:
  assumes "db_fine block c clean d"
  shows "writes_key block c clean key (d\<lparr>db_removing := set_erase key (db_removing d), db_stale := stale\<rparr>)"
  unfolding writes_key_def by (rule exI [of _ "db_removing d"]) (use assms in simp)

lemma binlog_ok_removing [simp]:
  "binlog_ok (d\<lparr>db_removing := ks\<rparr>) = binlog_ok d" "binlog_content block c clean (d\<lparr>db_removing := ks\<rparr>) st = binlog_content block c clean d st"
  by (simp_all add: binlog_ok_def binlogPath_def binlog_content_def)

lemma writes_keyD:
  assumes "writes_key block c clean key d"
  shows "index_ok d" "settings_fine (ix_settings d)" "time_ok (ix_time d)"
    "map_of (ix_map d) k = Some entry \<Longrightarrow> entry_fine (ix_settings d) entry"
    "pending_fine (ix_settings d) (db_removing d)" "pending_fine (ix_settings d) (db_accessed d)"
    "db_accessed d \<noteq> [] \<Longrightarrow> trackEstimatedTime (ix_settings d)"
    "k \<in> set (db_removing d) \<Longrightarrow> map_of (ix_map d) k = None"
    "binlog_ok d" "key \<notin> set (db_removing d)" "map_of (ix_map d) key \<noteq> None \<Longrightarrow> db_fine block c clean d"
    "\<exists>m. binlog_content block c clean d (m, tp_relative (ix_time d))
      \<and> (\<forall>k. k \<noteq> key \<longrightarrow> map_of (ix_map d) k = (m |` (- set (db_removing d))) k)"
proof -
  obtain ks where ks: "db_fine block c clean (d\<lparr>db_removing := ks\<rparr>)" "db_removing d = set_erase key ks"
    using assms by (auto simp: writes_key_def)
  note f = db_fineD [OF ks(1), simplified]
  have dist: "sorted ks" "distinct ks" "int (length ks) < maxBundledRecords (ix_settings d)" using f(5) by (auto simp: pending_fine_def)
  show "index_ok d" "settings_fine (ix_settings d)" "time_ok (ix_time d)" "binlog_ok d" "pending_fine (ix_settings d) (db_accessed d)"
    "map_of (ix_map d) k = Some entry \<Longrightarrow> entry_fine (ix_settings d) entry" "db_accessed d \<noteq> [] \<Longrightarrow> trackEstimatedTime (ix_settings d)"
    using f by auto
  show "pending_fine (ix_settings d) (db_removing d)"
    using dist set_erase_ok [of ks key] length_set_erase [of key ks] by (simp add: pending_fine_def ks(2))
  show "key \<notin> set (db_removing d)" using dist by (simp add: ks(2))
  show "k \<in> set (db_removing d) \<Longrightarrow> map_of (ix_map d) k = None" using f(8) dist by (simp add: ks(2))
  obtain m where m: "binlog_content block c clean d (m, tp_relative (ix_time d))" "map_of (ix_map d) = m |` (- set ks)"
    using f(10) by (auto simp: replays_to_def)
  then show "\<exists>m. binlog_content block c clean d (m, tp_relative (ix_time d))
      \<and> (\<forall>k. k \<noteq> key \<longrightarrow> map_of (ix_map d) k = (m |` (- set (db_removing d))) k)"
    using dist by (intro exI [of _ m]) (simp add: ks(2) restrict_map_def)
  show "db_fine block c clean d" if "map_of (ix_map d) key \<noteq> None"
  proof -
    have "key \<notin> set ks" using f(8) that by auto
    then have "ks = db_removing d" by (simp add: ks(2) set_erase_def remove1_idem)
    then have "d\<lparr>db_removing := ks\<rparr> = d" by simp
    then show ?thesis using ks(1) by simp
  qed
qed

lemma closed_good:
  assumes fine: "writes_key block c clean key d" and clock: "clock_fine io d" and step: "binlog_step block c r d d'" and closed: "\<not> f_isOpen (db_binlog d')"
  shows "good_step block c clean io d d'" "ix_map d' = ix_map d" "db_removing d' = db_removing d" "data_kept d d'"
proof -
  note f = writes_keyD [OF fine]
  obtain fl disk excess where d': "d' = d\<lparr>db_binlog := fl, db_disk := disk, ix_excess := excess\<rparr>" "ix_excess d \<le> excess"
    "\<forall>path. path \<noteq> db_binlogAt d \<or> \<not> f_isOpen (db_binlog d) \<longrightarrow> disk path = db_disk d path"
    using step by (auto simp: binlog_step_def)
  have "replays_to block c clean d'"
    using closed f(8) unfolding replays_to_def binlog_content_def
    by (intro exI [of _ "map_of (ix_map d)"]) (auto simp: d'(1) restrict_map_def fun_eq_iff)
  moreover have "index_ok d'" using f(1) d'(2) by (simp add: d'(1) index_ok_excess)
  ultimately have "db_fine block c clean d'"
    using f closed unfolding db_fine_def by (simp add: d'(1) binlog_ok_closed)
  moreover show kept: "data_kept d d'" by (rule disk_data_kept [OF f(9)]) (use d'(3) in \<open>simp_all add: d'(1)\<close>)
  ultimately show "good_step block c clean io d d'"
    using closed clock data_kept_free [OF kept] by (simp add: good_step_def db_frame_def d'(1) clock_fine_def)
  show "ix_map d' = ix_map d" "db_removing d' = db_removing d" by (simp_all add: d'(1))
qed

lemma store_step:
  assumes c: "ctr_mode block c" and fine: "writes_key block c clean key d" and clock: "clock_fine io d"
    and fits: "records_fit (ix_settings d) [r]" "record_kind_ok (ix_settings d) r"
    and eff: "\<And>m. record_effect (ix_settings d) r (m, tp_relative (ix_time d)) = (True, (m(key \<mapsto> entry), t'))"
    and entry: "entry_fine (ix_settings d) entry"
    and times: "\<forall>d1 d2. index_ok d1 \<and> ix_time d1 = ix_time d \<and> handle_record r d1 = Some (True, d2) \<longrightarrow>
      time_ok (ix_time d2) \<and> clock_fine io d2"
  shows "\<exists>ok d1. binlog_write c (bytes_of_record r) d = Some (ok, d1)
    \<and> (\<not> ok \<longrightarrow> good_step block c clean io d (binlog_close d1) \<and> ix_map (binlog_close d1) = ix_map d \<and> \<not> f_isOpen (db_binlog (binlog_close d1))
        \<and> db_removing (binlog_close d1) = db_removing d \<and> data_kept d (binlog_close d1))
    \<and> (ok \<longrightarrow> f_isOpen (db_binlog d) \<and> (\<exists>d2. handle_record r d1 = Some (True, d2) \<and> good_step block c clean io d d2
        \<and> map_of (ix_map d2) = (map_of (ix_map d))(key \<mapsto> entry) \<and> f_isOpen (db_binlog d2) \<and> db_stale d2 = db_stale d \<and> data_kept d d2))"
proof -
  note f = writes_keyD [OF fine]
  have "length (bytes_of_record r) mod 16 = 0" using length_bytes_of_records [OF fits(1)] by simp
  from binlog_write_step [OF c f(9) this] obtain ok d1 where w: "binlog_write c (bytes_of_record r) d = Some (ok, d1)"
    "ok \<longrightarrow> f_isOpen (db_binlog d1) \<and> binlog_step block c r d d1" "\<not> ok \<longrightarrow> binlog_step block c r d (binlog_close d1)" by blast
  have yes: "\<exists>d2. handle_record r d1 = Some (True, d2) \<and> good_step block c clean io d d2
        \<and> map_of (ix_map d2) = (map_of (ix_map d))(key \<mapsto> entry) \<and> f_isOpen (db_binlog d2) \<and> db_stale d2 = db_stale d
        \<and> data_kept d d2" if "ok"
  proof -
    have step: "binlog_step block c r d d1" "f_isOpen (db_binlog d1)" using w(2) that by simp_all
    obtain fl disk excess where d1: "d1 = d\<lparr>db_binlog := fl, db_disk := disk, ix_excess := excess\<rparr>" "ix_excess d \<le> excess"
      "\<forall>path. path \<noteq> db_binlogAt d \<or> \<not> f_isOpen (db_binlog d) \<longrightarrow> disk path = db_disk d path"
      using step(1) by (auto simp: binlog_step_def)
    have i1: "index_ok d1" using f(1) d1(2) by (simp add: d1(1) index_ok_excess)
    have s1: "ix_settings d1 = ix_settings d" "ix_time d1 = ix_time d" "ix_map d1 = ix_map d" "db_removing d1 = db_removing d"
      "db_accessed d1 = db_accessed d" by (simp_all add: d1(1))
    from handle_record_refines [OF i1, of r] fits(2) obtain d2 where d2: "handle_record r d1 = Some (True, d2)"
      "map_of (ix_map d2) = (map_of (ix_map d))(key \<mapsto> entry)" "tp_relative (ix_time d2) = t'" "index_ok d2" "index_frame d1 d2"
      by (auto simp: s1 eff refines_effect_def index_content_def)
    note e = binlog_content_erase [OF d2(5)]
    obtain m where m: "binlog_content block c clean d (m, tp_relative (ix_time d))"
      "\<forall>k. k \<noteq> key \<longrightarrow> map_of (ix_map d) k = (m |` (- set (db_removing d))) k" using f(12) by blast
    have "binlog_content block c clean d1 (m(key \<mapsto> entry), t')" using step(1) m(1) fits(1) eff unfolding binlog_step_def by blast
    moreover have "map_of (ix_map d2) = (m(key \<mapsto> entry)) |` (- set (db_removing d))"
      using f(10) m(2) by (auto simp: d2(2) restrict_map_def fun_eq_iff)
    ultimately have "replays_to block c clean d2" unfolding replays_to_def using e(1,3) s1(4) d2(3) by auto
    moreover have "binlog_ok d2" using step(1) e(2) by (simp add: binlog_step_def)
    moreover have "entry_fine (ix_settings d) entry'" if "map_of (ix_map d2) k = Some entry'" for k entry'
      using that f(4) entry by (auto simp: d2(2) split: if_splits)
    moreover have "map_of (ix_map d2) k = None" if "k \<in> set (db_removing d)" for k using that f(8,10) by (auto simp: d2(2))
    moreover have "ix_settings d2 = ix_settings d" using d2(5) s1(1) by (simp add: index_frame_def)
    moreover have t2: "time_ok (ix_time d2) \<and> clock_fine io d2" using times i1 s1(2) d2(1) by blast
    ultimately have "db_fine block c clean d2"
      unfolding db_fine_def using f d2(4) e(3,4) s1 by auto
    moreover have kept: "data_kept d d2"
      by (rule disk_data_kept [OF f(9)]) (use d1(3) e(6,9) in \<open>auto simp: d1(1)\<close>)
    moreover have "keeps_free d d2" by (rule data_kept_free [OF kept])
    ultimately have "good_step block c clean io d d2"
      using step(1) e(7) t2 e(9-11) \<open>ix_settings d2 = ix_settings d\<close> by (auto simp: good_step_def db_frame_def binlog_step_def d1(1))
    then show ?thesis using d2(1,2) step(2) e(7,8) kept by (auto simp: d1(1))
  qed
  have no: "good_step block c clean io d (binlog_close d1) \<and> ix_map (binlog_close d1) = ix_map d \<and> \<not> f_isOpen (db_binlog (binlog_close d1))
      \<and> db_removing (binlog_close d1) = db_removing d \<and> data_kept d (binlog_close d1)" if "\<not> ok"
  proof -
    have s: "binlog_step block c r d (binlog_close d1)" using w(3) that by blast
    note g = closed_good [OF fine clock s binlog_close_fields(1)]
    show ?thesis using g binlog_close_fields(1) by (simp only: simp_thms)
  qed
  have "ok \<Longrightarrow> f_isOpen (db_binlog d)" using w(2) by (auto simp: binlog_step_def)
  then show ?thesis using w(1) yes no by blast
qed

end
