(* ===== verification/CachePut.thy ===== *)
theory CachePut
  imports CacheOperations
begin

text \<open>
  Putting and getting values of the disk cache: a value that was put is there, and is what is got.
\<close>

section \<open>Free places and times\<close>

lemma find_free_place_total:
  assumes "isFreePlace d (place n)" and "k \<le> n"
  shows "\<exists>m. find_free_place place d k = Some (place m) \<and> isFreePlace d (place m)"
  using assms(2)
proof (induction k rule: inc_induct)
  case base
  then show ?case using assms(1) by (subst find_free_place.simps) auto
next
  case (step k)
  show ?case
  proof (cases "isFreePlace d (place k)")
    case True
    then show ?thesis by (subst find_free_place.simps) auto
  next
    case False
    then show ?thesis using step.IH by (subst find_free_place.simps) simp
  qed
qed

lemma record_time_cases:
  assumes "clock_fine io d" and "time_ok (ix_time d)"
  shows "\<exists>t. record_time io d = Some t \<and> (t = ix_time d \<or> t = countTimePoint io d) \<and> time_ok t \<and> tp_relative (ix_time d) \<le> tp_relative t"
  using countTimePoint_fine [OF assms(1)] assms(2) by (auto simp: record_time_def Let_def)

lemma processRecordStore_time:
  assumes "index_ok ix" and "processRecordStore record ix = Some (True, ix')"
  shows "ix_time ix' = ix_time ix"
proof (cases "size_fits (ix_settings ix) record")
  case True
  let ?e = "stored_entry record (tp_relative (ix_time ix))"
  have "0 < en_size ?e" using True by (simp add: stored_entry_def size_fits_def)
  from setMapEntry_ok [OF assms(1) this, of "store_key record"] show ?thesis
    using assms(2) True by (auto simp: processRecordStore_def processRecordStoreGeneric_def size_fits_def stored_entry_def Let_def)
qed (use assms in \<open>auto simp: processRecordStore_def processRecordStoreGeneric_def size_fits_def Let_def split: if_splits\<close>)

lemma processRecordStoreWithTime_time:
  assumes "index_ok ix" and "processRecordStoreWithTime record ix = Some (True, ix')"
  shows "ix_time ix' = ix_time (applyTimePoint (store_time record) ix)"
proof (cases "size_fits (ix_settings ix) record")
  case True
  let ?e = "stored_entry record (tp_relative (store_time record))"
  have "0 < en_size ?e" using True by (simp add: stored_entry_def size_fits_def)
  moreover have "index_ok (applyTimePoint (store_time record) ix)" using assms by simp
  ultimately obtain ix1 where "setMapEntry (store_key record) ?e (applyTimePoint (store_time record) ix) = Some ix1"
    "ix_time ix1 = ix_time (applyTimePoint (store_time record) ix)" using setMapEntry_ok by blast
  then show ?thesis
    using assms(2) True by (auto simp: processRecordStoreWithTime_def processRecordStoreGeneric_def size_fits_def stored_entry_def Let_def)
qed (use assms in \<open>auto simp: processRecordStoreWithTime_def processRecordStoreGeneric_def size_fits_def Let_def split: if_splits\<close>)

section \<open>The two kinds of records\<close>

text \<open>
  What the two instances of the templates share: a record with a key and the fields of an entry,
  written to the binlog, changes the map at the key.
\<close>

definition store_template ::
    "('b Store_scheme \<Rightarrow> bytes) \<Rightarrow> ('b Store_scheme \<Rightarrow> Database \<Rightarrow> (bool \<times> Database) option) \<Rightarrow> ('b Store_scheme \<Rightarrow> binlog_record) \<Rightarrow>
     'b Store_scheme \<Rightarrow> nat \<Rightarrow> nat \<Rightarrow> cache_io \<Rightarrow> Database \<Rightarrow> bool" where
  "store_template bytes_of process mk record use_time after io d \<longleftrightarrow>
     (\<forall>r. bytes_of r = bytes_of_record (mk r) \<and> process r = handle_record (mk r))
     \<and> (\<forall>r. length (store_size r) = 3 \<and> length (store_place r) = 7 \<and> size_fits (ix_settings d) r
         \<and> Store.more r = Store.more record \<longrightarrow>
         records_fit (ix_settings d) [mk r] \<and> record_kind_ok (ix_settings d) (mk r)
         \<and> (\<forall>m. record_effect (ix_settings d) (mk r) (m, tp_relative (ix_time d)) = (True, (m(store_key r \<mapsto> stored_entry r use_time), after)))
         \<and> (\<forall>d1 d2. index_ok d1 \<and> ix_time d1 = ix_time d \<and> handle_record (mk r) d1 = Some (True, d2) \<longrightarrow>
             time_ok (ix_time d2) \<and> clock_fine io d2)) \<and> use_time < 2 ^ 64"

lemma plain_template:
  assumes "\<not> trackEstimatedTime (ix_settings d)" and "time_ok (ix_time d)" and "clock_fine io d"
  shows "store_template bytes_of_store processRecordStore RecordStore record (tp_relative (ix_time d)) (tp_relative (ix_time d)) io d"
proof -
  have "time_ok (ix_time d2) \<and> clock_fine io d2"
    if "index_ok d1" "ix_time d1 = ix_time d" "processRecordStore r d1 = Some (True, d2)" for r :: Store and d1 d2 :: Database
    using processRecordStore_time [OF that(1,3)] that(2) assms by (simp add: clock_fine_def)
  then show ?thesis
    using assms by (auto simp: store_template_def handle_record_def fun_eq_iff records_fit_def store_ok_def binlog_kinds_def
      record_kind_ok_def record_effect_def store_effect_def time_ok_def)
qed

lemma timed_template:
  assumes "trackEstimatedTime (ix_settings d)" and "time_ok (ix_time d)" and "clock_fine io d"
    and "time = ix_time d \<or> time = countTimePoint io d" and "time_ok time" and "tp_relative (ix_time d) \<le> tp_relative time"
  shows "store_template bytes_of_store_with_time processRecordStoreWithTime RecordStoreWithTime (new_store_with_time time)
    (tp_relative time) (tp_relative time) io d"
proof -
  have more: "store_time r = time" if "Store.more r = Store.more (new_store_with_time time)" for r :: StoreWithTime
    using that by (cases r) (simp add: new_store_with_time_def)
  have "time_ok (ix_time d2) \<and> clock_fine io d2"
    if "index_ok d1" "ix_time d1 = ix_time d" "store_time r = time" "processRecordStoreWithTime r d1 = Some (True, d2)"
    for r :: StoreWithTime and d1 d2 :: Database
  proof -
    have "ix_time d2 = ix_time d \<or> ix_time d2 = time"
      using processRecordStoreWithTime_time [OF that(1,4)] that(2,3) by (auto simp: applyTimePoint_def)
    then have "ix_time d2 = ix_time d \<or> ix_time d2 = countTimePoint io d" using assms(4) by auto
    then show ?thesis using assms(2,3) countTimePoint_fine [OF assms(3)] by (auto simp: clock_fine_def time_ok_def)
  qed
  then show ?thesis
    using assms more by (auto simp: store_template_def handle_record_def fun_eq_iff records_fit_def store_ok_def binlog_kinds_def
      record_kind_ok_def record_effect_def store_with_time_effect_def time_ok_def Let_def max_def)
qed


lemma setSize_ok:
  assumes "0 \<le> n" and "n < kDataSizeLimit"
  shows "\<exists>packed. Store_setSize n record = Some (record\<lparr>store_size := packed\<rparr>) \<and> length packed = 3 \<and> ReadFrom packed = n"
proof -
  have "nat n < 256 ^ 3" using assms by (simp add: kDataSizeLimit_def nat_less_iff)
  then have "ReadFrom (pack_elements 3 (nat n)) = n" using assms(1) by (simp add: ReadFrom_pack)
  moreover have "ReadTo 3 n = Some (pack_elements 3 (nat n))" using assms by (simp add: ReadTo_def kDataSizeLimit_def)
  ultimately show ?thesis by (intro exI [of _ "pack_elements 3 (nat n)"]) (simp add: Store_setSize_def)
qed

text \<open>The outcomes of writing the record of a value.\<close>

definition unchanged_value :: "crypto \<Rightarrow> cache_io \<Rightarrow> Key \<Rightarrow> TaggedValue \<Rightarrow> 32 word \<Rightarrow> Database \<Rightarrow> bool" where
  "unchanged_value c io key value checksum d \<longleftrightarrow>
     (\<exists>already. map_of (ix_map d) key = Some already \<and> en_tag already = tv_tag value
       \<and> en_size already = int (length (tv_bytes value)) \<and> en_checksum already = checksum
       \<and> readValueData c io (en_place already) (en_size already) d = Some (tv_bytes value))"

definition written_value :: "Key \<Rightarrow> TaggedValue \<Rightarrow> 32 word \<Rightarrow> bytes \<Rightarrow> Database \<Rightarrow> Database \<Rightarrow> bool" where
  "written_value key value checksum place d d' \<longleftrightarrow>
     length place = 7 \<and> f_isOpen (db_binlog d') \<and> db_stale d' = db_stale d
     \<and> (\<exists>time. map_of (ix_map d') = (map_of (ix_map d))(key \<mapsto> \<lparr>en_useTime = time, en_size = int (length (tv_bytes value)),
         en_checksum = checksum, en_place = place, en_tag = tv_tag value\<rparr>))"

definition place_outcome :: "crypto \<Rightarrow> cache_io \<Rightarrow> Key \<Rightarrow> TaggedValue \<Rightarrow> 32 word \<Rightarrow> Database \<Rightarrow> key_place \<Rightarrow> Database \<Rightarrow> bool" where
  "place_outcome c io key value checksum d p d' \<longleftrightarrow>
     (p = EmptyPath \<and> d' = d \<and> unchanged_value c io key value checksum d)
     \<or> (p = EmptyPath \<and> \<not> f_isOpen (db_binlog d') \<and> ix_map d' = ix_map d \<and> db_removing d' = db_removing d)
     \<or> (\<exists>place. p = WrittenPath (placePath d place) \<and> written_value key value checksum place d d')"

lemma io_fineD:
  assumes "io_fine io"
  shows "length (fe_salt (io_data io path)) = kSaltSize" "length (io_place io n) = 7" "16 \<le> length (io_padding io)"
    "mset (io_order io m) = mset m"
  using assms by (simp_all add: io_fine_def)

lemma write_store_fine:
  assumes c: "ctr_mode block c" and fine: "writes_key block c clean key d" and clock: "clock_fine io d"
    and tmpl: "store_template bytes_of process mk record use_time after io d"
    and r: "length (store_size r) = 3" "length (store_place r) = 7" "size_fits (ix_settings d) r" "store_key r = key"
      "Store.more r = Store.more record"
  shows "\<exists>ok d'. write_store_record c bytes_of process r d = Some (ok, d') \<and> good_step block c clean io d d' \<and> data_kept d d'
    \<and> (if ok then map_of (ix_map d') = (map_of (ix_map d))(key \<mapsto> stored_entry r use_time) \<and> f_isOpen (db_binlog d') \<and> db_stale d' = db_stale d
       else \<not> f_isOpen (db_binlog d') \<and> ix_map d' = ix_map d \<and> db_removing d' = db_removing d)"
proof -
  have t: "records_fit (ix_settings d) [mk r]" "record_kind_ok (ix_settings d) (mk r)"
    "\<And>m. record_effect (ix_settings d) (mk r) (m, tp_relative (ix_time d)) = (True, (m(key \<mapsto> stored_entry r use_time), after))"
    "\<forall>d1 d2. index_ok d1 \<and> ix_time d1 = ix_time d \<and> handle_record (mk r) d1 = Some (True, d2) \<longrightarrow>
      time_ok (ix_time d2) \<and> clock_fine io d2"
    and b: "bytes_of r = bytes_of_record (mk r)" "process r = handle_record (mk r)" and u: "use_time < 2 ^ 64"
    using tmpl r by (auto simp: store_template_def)
  have "entry_fine (ix_settings d) (stored_entry r use_time)"
    using r(2,3) u by (auto simp: entry_fine_def stored_entry_def size_fits_def)
  from store_step [OF c fine clock t(1-3) this t(4)] obtain ok d1 where w:
    "binlog_write c (bytes_of_record (mk r)) d = Some (ok, d1)"
    "\<not> ok \<Longrightarrow> good_step block c clean io d (binlog_close d1) \<and> ix_map (binlog_close d1) = ix_map d \<and> \<not> f_isOpen (db_binlog (binlog_close d1))
      \<and> db_removing (binlog_close d1) = db_removing d \<and> data_kept d (binlog_close d1)"
    "ok \<Longrightarrow> \<exists>d2. handle_record (mk r) d1 = Some (True, d2) \<and> good_step block c clean io d d2
      \<and> map_of (ix_map d2) = (map_of (ix_map d))(key \<mapsto> stored_entry r use_time) \<and> f_isOpen (db_binlog d2) \<and> db_stale d2 = db_stale d
      \<and> data_kept d d2"
    by blast
  show ?thesis
  proof (cases ok)
    case True
    from w(3) [OF True] obtain d2 where d2: "handle_record (mk r) d1 = Some (True, d2)" "good_step block c clean io d d2"
      "map_of (ix_map d2) = (map_of (ix_map d))(key \<mapsto> stored_entry r use_time)" "f_isOpen (db_binlog d2)"
      "db_stale d2 = db_stale d" "data_kept d d2" by blast
    have "write_store_record c bytes_of process r d = Some (True, d2)"
      using w(1) True d2(1) by (simp add: write_store_record_def b)
    then show ?thesis using d2 by (intro exI [of _ True] exI [of _ d2]) simp
  next
    case False
    have "write_store_record c bytes_of process r d = Some (False, binlog_close d1)"
      using w(1) False by (simp only: write_store_record_def b) simp
    then show ?thesis using w(2) [OF False] by (intro exI [of _ False] exI [of _ "binlog_close d1"]) (simp del: binlog_close_fields)
  qed
qed

lemma writeKeyPlaceGeneric_fine:
  assumes c: "ctr_mode block c" and fine: "writes_key block c clean key d" and clock: "clock_fine io d" and io: "io_fine io"
    and free: "places_free io d" and nonempty: "tv_bytes value \<noteq> []"
    and small: "int (length (tv_bytes value)) \<le> maxDataSize (ix_settings d)"
    and tmpl: "store_template bytes_of process mk record use_time after io d"
  shows "\<exists>p d'. writeKeyPlaceGeneric c io bytes_of process record key value checksum d = Some (p, d')
    \<and> good_step block c clean io d d' \<and> place_outcome c io key value checksum d p d'"
proof -
  note f = writes_keyD [OF fine]
  let ?n = "int (length (tv_bytes value))"
  have lim: "?n < kDataSizeLimit" using small settings_fineD(4) [OF f(2)] by linarith
  obtain packed where packed: "Store_setSize ?n (record\<lparr>store_tag := tv_tag value, store_key := key\<rparr>) =
      Some (record\<lparr>store_tag := tv_tag value, store_key := key, store_size := packed\<rparr>)" "length packed = 3" "ReadFrom packed = ?n"
    using setSize_ok [of ?n "record\<lparr>store_tag := tv_tag value, store_key := key\<rparr>"] lim by auto
  define stored where "stored place = record\<lparr>store_tag := tv_tag value, store_key := key, store_size := packed, store_checksum := checksum, store_place := place\<rparr>" for place
  have writes: "\<exists>ok d'. write_store_record c bytes_of process (stored place) d = Some (ok, d')
      \<and> good_step block c clean io d d' \<and> place_outcome c io key value checksum d (if ok then WrittenPath (placePath d place) else EmptyPath) d'"
    if place: "length place = 7" for place
  proof -
    have fields: "length (store_size (stored place)) = 3" "length (store_place (stored place)) = 7" "Store_getSize (stored place) = ?n"
      "store_key (stored place) = key" "Store.more (stored place) = Store.more record"
      "stored_entry (stored place) use_time = \<lparr>en_useTime = use_time, en_size = ?n, en_checksum = checksum, en_place = place, en_tag = tv_tag value\<rparr>"
      using packed place by (simp_all add: stored_def Store_getSize_def stored_entry_def)
    have "0 < ?n" using nonempty by simp
    then have "size_fits (ix_settings d) (stored place)" using fields(3) small by (simp add: size_fits_def)
    from write_store_fine [OF c fine clock tmpl fields(1,2) this fields(4,5)] obtain ok d' where
      w: "write_store_record c bytes_of process (stored place) d = Some (ok, d')" "good_step block c clean io d d'"
      "if ok then map_of (ix_map d') = (map_of (ix_map d))(key \<mapsto> stored_entry (stored place) use_time) \<and> f_isOpen (db_binlog d')
          \<and> db_stale d' = db_stale d
       else \<not> f_isOpen (db_binlog d') \<and> ix_map d' = ix_map d \<and> db_removing d' = db_removing d" by (auto split: if_splits)
    then have "place_outcome c io key value checksum d (if ok then WrittenPath (placePath d place) else EmptyPath) d'"
      using place fields(6) by (cases ok) (auto simp: place_outcome_def written_value_def)
    then show ?thesis using w(1,2) by blast
  qed
  have rest: "writeKeyPlaceGeneric c io bytes_of process record key value checksum d =
      Option.bind (value_place c io key value checksum d) (\<lambda>place. case place of None \<Rightarrow> Some (EmptyPath, d) | Some place \<Rightarrow>
        Option.bind (write_store_record c bytes_of process (stored place) d)
          (\<lambda>(written, d1). Some (if written then WrittenPath (placePath d place) else EmptyPath, d1)))"
    using small packed(1) unfolding writeKeyPlaceGeneric_def stored_def by simp
  show ?thesis
  proof (cases "map_of (ix_map d) key")
    case None
    from free obtain k where "isFreePlace d (io_place io k)" by (auto simp: places_free_def)
    from find_free_place_total [of d "io_place io", OF this, of 0] obtain m where m: "find_free_place (io_place io) d 0 = Some (io_place io m)" by auto
    have "length (io_place io m) = 7" using io_fineD(2) [OF io] .
    from writes [OF this] show ?thesis using None m by (auto simp: rest value_place_def)
  next
    case (Some already)
    have len: "length (en_place already) = 7" using f(4) [OF Some] by (simp add: entry_fine_def)
    obtain got where got: "readValueData c io (en_place already) (en_size already) d = Some got"
      using readValueData_total [OF c io_fineD(1) [OF io]] by blast
    show ?thesis
    proof (cases "en_tag already = tv_tag value \<and> en_size already = ?n \<and> en_checksum already = checksum \<and> got = tv_bytes value")
      case True
      then have "unchanged_value c io key value checksum d" using Some got by (auto simp: unchanged_value_def)
      then show ?thesis using Some got True good_step_refl [OF f(11) clock] by (simp add: rest value_place_def place_outcome_def)
    next
      case False
      then show ?thesis using Some got writes [OF len] by (auto simp: rest value_place_def)
    qed
  qed
qed


lemma writeKeyPlace_fine:
  assumes c: "ctr_mode block c" and fine: "writes_key block c clean key d" and clock: "clock_fine io d" and io: "io_fine io"
    and free: "places_free io d" and nonempty: "tv_bytes value \<noteq> []"
    and small: "int (length (tv_bytes value)) \<le> maxDataSize (ix_settings d)"
  shows "\<exists>p d'. writeKeyPlace c io key value checksum d = Some (p, d')
    \<and> good_step block c clean io d d' \<and> place_outcome c io key value checksum d p d'"
proof (cases "trackEstimatedTime (ix_settings d)")
  case True
  obtain t where t: "record_time io d = Some t" "t = ix_time d \<or> t = countTimePoint io d" "time_ok t"
    "tp_relative (ix_time d) \<le> tp_relative t" using record_time_cases [OF clock writes_keyD(3) [OF fine]] by blast
  have "store_template bytes_of_store_with_time processRecordStoreWithTime RecordStoreWithTime (new_store_with_time t)
    (tp_relative t) (tp_relative t) io d" by (rule timed_template [OF True writes_keyD(3) [OF fine] clock t(2-4)])
  from writeKeyPlaceGeneric_fine [OF assms this] show ?thesis using True t(1) by (simp add: writeKeyPlace_def)
next
  case False
  have "store_template bytes_of_store processRecordStore RecordStore Store_new (tp_relative (ix_time d)) (tp_relative (ix_time d)) io d"
    by (rule plain_template [OF False writes_keyD(3) [OF fine] clock])
  from writeKeyPlaceGeneric_fine [OF assms this] show ?thesis using False by (simp add: writeKeyPlace_def)
qed

section \<open>The file of a value\<close>

text \<open>As before, but with a file that may be new.\<close>

definition base_step :: "(bytes \<Rightarrow> bytes \<Rightarrow> bytes) \<Rightarrow> crypto \<Rightarrow> bool \<Rightarrow> cache_io \<Rightarrow> Database \<Rightarrow> Database \<Rightarrow> bool" where
  "base_step block c clean io d d' \<longleftrightarrow>
     db_fine block c clean d' \<and> db_frame d d' \<and> clock_fine io d' \<and> (f_isOpen (db_binlog d') \<longrightarrow> f_isOpen (db_binlog d))"

lemma good_base: "good_step block c clean io d d' \<Longrightarrow> base_step block c clean io d d'"
  by (simp add: good_step_def base_step_def)

lemma base_step_trans: "base_step block c clean io d d1 \<Longrightarrow> base_step block c clean io d1 d2 \<Longrightarrow> base_step block c clean io d d2"
  by (auto simp: base_step_def intro: db_frame_trans)

lemma remove_good:
  assumes "ctr_mode block c" and "db_fine block c clean d" and "clock_fine io d"
  shows "\<exists>e d'. db_remove c io key d = Some (e, d') \<and> good_step block c clean io d d'
    \<and> map_of (ix_map d') = (map_of (ix_map d))(key := None) \<and> db_stale d' = db_stale d"
  using db_remove_fine [OF assms(1,2), of io key] assms(3) by (fastforce simp: good_step_def clock_fine_def)

lemma db_fine_data:
  assumes "db_fine block c clean d" and "f_isOpen (db_binlog d) \<Longrightarrow> path \<noteq> db_binlogAt d"
  shows "db_fine block c clean (d\<lparr>db_disk := (db_disk d)(path := x)\<rparr>)"
proof -
  note f = db_fineD [OF assms(1)]
  have "binlog_ok (d\<lparr>db_disk := (db_disk d)(path := x)\<rparr>)"
    using f(9) assms(2) unfolding binlog_ok_def binlogPath_def by auto
  then show ?thesis using f unfolding db_fine_def replays_to_def binlog_content_def by simp
qed

text \<open>A system that keeps what it is given.\<close>

definition data_written :: "cache_io \<Rightarrow> cache_path \<Rightarrow> bool" where
  "data_written io path \<longleftrightarrow> fe_folder (io_data io path) \<and> fe_lock (io_data io path) = Locked \<and> fe_results (io_data io path) = []"

lemma put_data_fine:
  assumes c: "ctr_mode block c" and fine: "db_fine block c clean d" and clock: "clock_fine io d" and io: "io_fine io"
    and place: "length place = 7" and small: "length (tv_bytes value) < 2 ^ 60"
  shows "\<exists>e d'. put_data c io key value (placePath d place) d = Some (e, d') \<and> base_step block c clean io d d'
    \<and> (err_type e = NoError \<longrightarrow> ix_map d' = ix_map d) \<and> (err_type e \<noteq> NoError \<longrightarrow> map_of (ix_map d') = (map_of (ix_map d))(key := None))
    \<and> db_stale d' = db_stale d
    \<and> (data_written io (placePath d place) \<longrightarrow> err_type e = NoError
        \<and> (\<exists>data. db_disk d' (placePath d place) = Some data \<and> disk_holds block c (db_key d) data (padded_data (io_padding io) (tv_bytes value))))"
proof -
  let ?path = "placePath d place"
  note f = db_fineD [OF fine]
  have nb: "f_isOpen (db_binlog d) \<Longrightarrow> ?path \<noteq> db_binlogAt d" using placePath_not_binlog [OF f(9) _ place] .
  have salt: "length (fe_salt (io_data io ?path)) = kSaltSize" using io_fineD(1) [OF io] .
  obtain r fl disk where o: "disk_open c ?path Write (db_key d) (io_data io ?path) (db_disk d) = Some (r, fl, disk)"
    "r = Success \<longrightarrow> file_valid fl \<and> f_isOpen fl" "r \<noteq> WrongKey" "disk = db_disk d \<or> disk = (db_disk d)(?path \<mapsto> f_data fl)"
    using disk_open_total [OF c salt, of ?path Write "db_key d" "db_disk d"] by blast
  have base: "db_fine block c clean (d\<lparr>db_disk := disk'\<rparr>) \<and> clock_fine io (d\<lparr>db_disk := disk'\<rparr>)
      \<and> base_step block c clean io d (d\<lparr>db_disk := disk'\<rparr>)"
    if "disk' = db_disk d \<or> (\<exists>x. disk' = (db_disk d)(?path := x))" for disk'
    using that db_fine_data [OF fine nb] fine clock by (auto simp: base_step_def db_frame_def)
  have removing: "\<exists>e d'. db_remove c io key (d\<lparr>db_disk := disk'\<rparr>) = Some (e, d') \<and> base_step block c clean io d d'
      \<and> map_of (ix_map d') = (map_of (ix_map d))(key := None) \<and> db_stale d' = db_stale d"
    if "disk' = db_disk d \<or> (\<exists>x. disk' = (db_disk d)(?path := x))" for disk'
    using remove_good [OF c base [OF that, THEN conjunct1] base [OF that, THEN conjunct2, THEN conjunct1], of key]
      base [OF that] good_base base_step_trans by fastforce
  show ?thesis
  proof (cases "r = Success")
    case False
    then have nw: "\<not> data_written io ?path"
      using o(1) written_file [OF c _ _ _ _ io_fineD(3) [OF io] small, of "(io_data io ?path)\<lparr>fe_file := db_disk d ?path\<rparr>" "db_key d"] salt
      by (auto simp: data_written_def disk_open_def)
    obtain e d' where rm: "db_remove c io key (d\<lparr>db_disk := disk\<rparr>) = Some (e, d')" "base_step block c clean io d d'"
      "map_of (ix_map d') = (map_of (ix_map d))(key := None)" "db_stale d' = db_stale d" using removing [of disk] o(4) by auto
    show ?thesis
    proof (cases r)
      case Failed
      then show ?thesis using o(1) rm nw by (auto simp: put_data_def ioError_def)
    next
      case LockFailed
      then show ?thesis using o(1) rm nw by (auto simp: put_data_def)
    qed (use False o(3) in auto)
  next
    case True
    obtain ok f1 where w: "File_writeWithPadding c (io_padding io) (tv_bytes value) fl = Some (ok, f1)"
      using File_writeWithPadding_total [OF c _ io_fineD(3) [OF io]] o(2) True by blast
    let ?disk = "(db_disk d)(?path \<mapsto> f_data f1)"
    have d2: "disk(?path \<mapsto> f_data f1) = ?disk" using o(4) by auto
    show ?thesis
    proof (cases ok)
      case False
      then have nw: "\<not> data_written io ?path"
        using o(1) w True written_file [OF c _ _ _ _ io_fineD(3) [OF io] small, of "(io_data io ?path)\<lparr>fe_file := db_disk d ?path\<rparr>" "db_key d"] salt
        by (auto simp: data_written_def disk_open_def)
      obtain e d' where rm: "db_remove c io key (d\<lparr>db_disk := ?disk\<rparr>) = Some (e, d')" "base_step block c clean io d d'"
        "map_of (ix_map d') = (map_of (ix_map d))(key := None)" "db_stale d' = db_stale d" using removing [of ?disk] by auto
      then show ?thesis using o(1) w True False nw d2 by (auto simp: put_data_def ioError_def)
    next
      case ok: True
      let ?d2 = "d\<lparr>db_disk := ?disk\<rparr>"
      have b2: "db_fine block c clean ?d2 \<and> clock_fine io ?d2 \<and> base_step block c clean io d ?d2" by (rule base) blast
      then have "good_step block c clean io ?d2 ?d2" by (simp add: good_step_refl)
      from optimize_step [OF this] obtain d' where op: "optimize io ?d2 = Some d'" "good_step block c clean io ?d2 d'"
        "db_stale d' = db_stale d" "db_disk d' = ?disk" "ix_map d' = ix_map d" by auto
      have "base_step block c clean io d d'" using b2 op(2) good_base base_step_trans by blast
      moreover have "put_data c io key value ?path d = Some (noError, d')"
        using o(1) w True ok op(1) d2 by (simp add: put_data_def)
      moreover have "\<exists>data. db_disk d' ?path = Some data \<and> disk_holds block c (db_key d) data (padded_data (io_padding io) (tv_bytes value))"
        if "data_written io ?path"
        using o(1) w ok that written_file [OF c _ _ _ _ io_fineD(3) [OF io] small, of "(io_data io ?path)\<lparr>fe_file := db_disk d ?path\<rparr>" "db_key d"] salt op(4)
        by (auto simp: data_written_def disk_open_def)
      ultimately show ?thesis using op(3,5) by (auto simp: noError_def)
    qed
  qed
qed

end
