(* ===== verification/CacheReads.thy ===== *)
theory CacheReads
  imports CachePut
begin

text \<open>
  Getting values of the disk cache: what is read of a file does not depend on what the system answers,
  so that a value that was put is what is got.
\<close>

section \<open>Reading is a function of the disk\<close>

definition with_results :: "int list \<Rightarrow> File \<Rightarrow> File" where
  "with_results results f = f\<lparr>f_results := results\<rparr>"

lemma with_results_fields [simp]:
  "f_data (with_results r f) = f_data f" "f_pos (with_results r f) = f_pos f" "f_isOpen (with_results r f) = f_isOpen f"
  "f_encryptionOffset (with_results r f) = f_encryptionOffset f" "f_state (with_results r f) = f_state f"
  "f_dataSize (with_results r f) = f_dataSize f"
  "(with_results r f)\<lparr>f_pos := n\<rparr> = with_results r (f\<lparr>f_pos := n\<rparr>)" "(with_results r f)\<lparr>f_dataSize := k\<rparr> = with_results r (f\<lparr>f_dataSize := k\<rparr>)"
  "(with_results r f)\<lparr>f_encryptionOffset := k\<rparr> = with_results r (f\<lparr>f_encryptionOffset := k\<rparr>)"
  "(with_results r f)\<lparr>f_state := st\<rparr> = with_results r (f\<lparr>f_state := st\<rparr>)"
  "File_close (with_results r f) = with_results r (File_close f)"
  by (simp_all add: with_results_def File_close_def)

lemma readPlain_results: "readPlain n (with_results r f) = map_prod id (with_results r) (readPlain n f)"
  by (simp add: readPlain_def Let_def)

lemma File_decrypt_results:
  "File_decrypt c bs (with_results r f) = map_option (map_prod id (with_results r)) (File_decrypt c bs f)"
  by (cases "f_state f") (simp_all add: File_decrypt_def option.map_comp comp_def)

lemma File_read_results: "File_read c n (with_results r f) = map_option (map_prod id (with_results r)) (File_read c n f)"
  by (cases "readPlain n f") (simp add: File_read_def readPlain_results File_decrypt_results Let_def)

lemma bind_map_option: "Option.bind (map_option g x) k = Option.bind x (\<lambda>y. k (g y))"
  by (cases x) simp_all

lemma File_readWithPadding_results:
  "File_readWithPadding c n (with_results r f) = map_option (map_prod id (with_results r)) (File_readWithPadding c n f)"
proof -
  let ?good = "n - n mod kBlockSize"
  have r: "(if b then File_read c m (with_results r f) else Some ([], with_results r f)) =
      map_option (map_prod id (with_results r)) (if b then File_read c m f else Some ([], f))" for b m
    by (simp add: File_read_results)
  show ?thesis
  proof (cases "if ?good \<noteq> 0 then File_read c ?good f else Some ([], f)")
    case None
    then show ?thesis unfolding File_readWithPadding_def Let_def r by simp
  next
    case (Some a)
    obtain got f1 where a: "a = (got, f1)" by (cases a)
    have "File_read c kBlockSize (with_results r f1) = map_option (map_prod id (with_results r)) (File_read c kBlockSize f1)"
      by (rule File_read_results)
    then show ?thesis unfolding File_readWithPadding_def Let_def r Some a by (cases "File_read c kBlockSize f1") auto
  qed
qed

lemma File_readHeader_results:
  "File_readHeader c key (with_results r f) = map_option (map_prod id (with_results r)) (File_readHeader c key f)"
  unfolding File_readHeader_def
  by (auto simp: readPlain_results File_decrypt_results Let_def split: prod.splits option.splits bind_splits)

lemma File_open_results:
  assumes "fe_file env = fe_file env'"
  shows "File_open c Read key env = map_option (map_prod id (with_results (fe_results env))) (File_open c Read key env')"
proof -
  have o: "opened_file data env = with_results (fe_results env) (opened_file data env')" for data
    by (simp add: opened_file_def with_results_def)
  then have "closed_file disk env = with_results (fe_results env) (closed_file disk env')" for disk
    by (simp add: closed_file_def)
  then have "attemptOpenForRead c key env = map_option (map_prod id (with_results (fe_results env))) (attemptOpenForRead c key env')"
    using assms by (simp add: attemptOpenForRead_def o File_readHeader_results split: option.splits)
  then show ?thesis by (cases "attemptOpenForRead c key env'") (auto simp: File_open_def File_attemptOpen_def)
qed

lemma readValueData_io: "readValueData c io place n d = readValueData c io' place n d"
proof -
  let ?path = "placePath d place"
  let ?env = "\<lambda>io. (io_data io ?path)\<lparr>fe_file := db_disk d ?path\<rparr>"
  have "File_open c Read (db_key d) (?env io) =
      map_option (map_prod id (with_results (fe_results (io_data io ?path)))) (File_open c Read (db_key d) (?env io'))"
    using File_open_results [of "?env io" "?env io'" c "db_key d"] by simp
  then show ?thesis
    unfolding readValueData_def disk_open_def Let_def
    by (cases "File_open c Read (db_key d) (?env io')")
      (auto simp: File_readWithPadding_results bind_map_option case_prod_unfold split: File_Result.splits cong: if_cong)
qed

lemma readValueData_length:
  assumes "readValueData c io place n d = Some got"
  shows "got = [] \<or> int (length got) = n"
proof -
  obtain r f disk where "disk_open c (placePath d place) Read (db_key d) (io_data io (placePath d place)) (db_disk d) = Some (r, f, disk)"
    using assms by (auto simp: readValueData_def Let_def bind_eq_Some_conv)
  then show ?thesis using assms by (cases r) (auto simp: readValueData_def bind_eq_Some_conv split: if_splits)
qed

text \<open>It depends on the file of the place alone.\<close>

lemma readValueData_same:
  assumes "db_disk d' (placePath d' place) = db_disk d (placePath d place)" and "db_key d' = db_key d"
  shows "readValueData c io place n d' = readValueData c io place n d"
proof -
  have "readValueData c io place n d' = readValueData c (io\<lparr>io_data := \<lambda>_. new_env\<rparr>) place n d'" by (rule readValueData_io)
  also have "\<dots> = readValueData c (io\<lparr>io_data := \<lambda>_. new_env\<rparr>) place n d"
    using assms by (cases "File_open c Read (db_key d) (new_env\<lparr>fe_file := db_disk d (placePath d place)\<rparr>)")
      (auto simp: readValueData_def Let_def disk_open_def)
  also have "\<dots> = readValueData c io place n d" by (rule readValueData_io)
  finally show ?thesis .
qed

section \<open>Values that are there\<close>

definition value_entry :: "32 word \<Rightarrow> TaggedValue \<Rightarrow> Entry \<Rightarrow> bool" where
  "value_entry checksum value entry \<longleftrightarrow>
     en_tag entry = tv_tag value \<and> en_size entry = int (length (tv_bytes value)) \<and> en_checksum entry = checksum"

definition value_there :: "crypto \<Rightarrow> Key \<Rightarrow> 32 word \<Rightarrow> TaggedValue \<Rightarrow> Database \<Rightarrow> bool" where
  "value_there c key checksum value d \<longleftrightarrow>
     (\<exists>entry. values_of d key = Some entry \<and> value_entry checksum value entry \<and> length (en_place entry) = 7
       \<and> (\<forall>io. readValueData c io (en_place entry) (en_size entry) d = Some (tv_bytes value)))"

lemma value_there_same:
  assumes "value_there c key checksum value d" and "values_of d' key = values_of d key" and "data_kept d d'" and "db_key d' = db_key d"
  shows "value_there c key checksum value d'"
proof -
  obtain entry where e: "values_of d key = Some entry" "value_entry checksum value entry" "length (en_place entry) = 7"
    "\<And>io. readValueData c io (en_place entry) (en_size entry) d = Some (tv_bytes value)" using assms(1) by (auto simp: value_there_def)
  have "db_disk d' (placePath d' (en_place entry)) = db_disk d (placePath d (en_place entry))"
    using assms(3) e(3) by (simp add: data_kept_def placePath_def)
  from readValueData_same [OF this assms(4)] show ?thesis using e assms(2) by (auto simp: value_there_def)
qed

lemma values_of_Some:
  assumes "map_of (ix_map d) key = Some entry"
  shows "values_of d key = Some (entry\<lparr>en_useTime := 0\<rparr>)"
  using assms by (simp add: values_of_def)

lemma value_there_entry:
  assumes "value_there c key checksum value d" and "map_of (ix_map d) key = Some entry"
  shows "value_entry checksum value entry" "readValueData c io (en_place entry) (en_size entry) d = Some (tv_bytes value)"
  using assms by (auto simp: value_there_def values_of_def value_entry_def)

text \<open>A value that was written to the file of its place.\<close>

lemma disk_value_read:
  assumes c: "ctr_mode block c" and d: "db_disk d (placePath d place) = Some data"
    and h: "disk_holds block c (db_key d) data (padded_data random bs)" and random: "16 \<le> length random" and small: "length bs < 2 ^ 60"
  shows "readValueData c io place (int (length bs)) d = Some bs"
  using read_file [OF c h random small, of "(io_data io (placePath d place))\<lparr>fe_file := Some data\<rparr>"] d
  by (auto simp: readValueData_def disk_open_def Let_def)

section \<open>Putting\<close>

lemma places_free_fields [simp]:
  "places_free io (d\<lparr>db_removing := ks\<rparr>) = places_free io d" "places_free io (d\<lparr>db_stale := ks\<rparr>) = places_free io d"
  by (simp_all add: places_free_def isFreePlace_def placePath_def)

lemma values_of_removing [simp]: "values_of (d\<lparr>db_removing := ks\<rparr>) = values_of d"
  by (simp add: values_of_def)

text \<open>What putting a value does, with the error that is reported.\<close>

definition put_outcome :: "32 word \<Rightarrow> Key \<Rightarrow> TaggedValue \<Rightarrow> Error \<Rightarrow> Database \<Rightarrow> Database \<Rightarrow> bool" where
  "put_outcome checksum key value e d d' \<longleftrightarrow>
     (if tv_bytes value = [] \<or> err_type e \<noteq> NoError then values_of d' = (values_of d)(key := None)
      else (\<exists>entry. value_entry checksum value entry \<and> values_of d' = (values_of d)(key \<mapsto> entry))
        \<or> \<not> f_isOpen (db_binlog d') \<and> values_of d' = values_of d)"

lemma put_outcomeI:
  assumes "tv_bytes value \<noteq> []" and "err_type e = NoError" and "value_entry checksum value entry"
    and "values_of d' = (values_of d)(key \<mapsto> entry)"
  shows "put_outcome checksum key value e d d'"
  using assms unfolding put_outcome_def by auto

lemma base_step_fields:
  "base_step block c clean io (d\<lparr>db_removing := ks, db_stale := ks'\<rparr>) d' = base_step block c clean io d d'"
  by (simp add: base_step_def db_frame_def)

lemma put_value_fine:
  assumes c: "ctr_mode block c" and fine: "db_fine block c clean d" and clock: "clock_fine io d" and io: "io_fine io"
    and free: "places_free io d" and small: "int (length (tv_bytes value)) \<le> maxDataSize (ix_settings d)" and nonempty: "tv_bytes value \<noteq> []"
  shows "\<exists>e d'. db_put c xxh io key value d = Some (e, d') \<and> base_step block c clean io d d'
    \<and> put_outcome (xxh (tv_bytes value)) key value e d d'
    \<and> ((\<forall>path. data_written io path) \<longrightarrow> err_type e = NoError
        \<and> (f_isOpen (db_binlog d') \<longrightarrow> value_there c key (xxh (tv_bytes value)) value d'))
    \<and> (\<not> f_isOpen (db_binlog d) \<and> values_of d key = None \<longrightarrow> e = noError \<and> values_of d' = values_of d)"
proof -
  let ?d1 = "d\<lparr>db_removing := set_erase key (db_removing d), db_stale := filter (\<lambda>k. k \<noteq> key) (db_stale d)\<rparr>"
  let ?sum = "xxh (tv_bytes value)"
  have w1: "writes_key block c clean key ?d1" by (rule writes_keyI [OF fine])
  obtain p d2 where w: "writeKeyPlace c io key value ?sum ?d1 = Some (p, d2)" "good_step block c clean io ?d1 d2"
    "place_outcome c io key value ?sum ?d1 p d2"
    using writeKeyPlace_fine [OF c w1 _ io _ nonempty, where checksum = ?sum] clock free small by auto
  have base2: "base_step block c clean io d d2" using good_base [OF w(2)] base_step_fields by blast
  have fine2: "db_fine block c clean d2" "clock_fine io d2" "db_key d2 = db_key d" using good_stepD [OF w(2)] by simp_all
  have limits: "length (tv_bytes value) < 2 ^ 60"
    using small settings_fineD(4) [OF db_fineD(2) [OF fine]] by (simp add: kDataSizeLimit_def)
  have put: "db_put c xxh io key value d = (case p of NoPlace \<Rightarrow> Some (ioError (binlogPath d2), d2)
      | EmptyPath \<Rightarrow> map_option (Pair noError) (recordEntryAccess c io key d2) | WrittenPath path \<Rightarrow> put_data c io key value path d2)"
    using nonempty w(1) by (simp add: db_put_def Let_def)
  have v1: "values_of ?d1 = values_of d" by simp
  consider (same) "p = EmptyPath" "d2 = ?d1" "unchanged_value c io key value ?sum ?d1"
    | (closed) "p = EmptyPath" "\<not> f_isOpen (db_binlog d2)" "values_of d2 = values_of d"
    | (written) place where "p = WrittenPath (placePath ?d1 place)" "written_value key value ?sum place ?d1 d2"
    using w(3) v1 unfolding place_outcome_def values_of_def by auto
  then show ?thesis
  proof cases
    case same
    obtain d' where r: "recordEntryAccess c io key d2 = Some d'" "good_step block c clean io d2 d'" "values_of d' = values_of d2"
      "data_kept d2 d'" using recordEntryAccess_fine [OF c fine2(1,2)] by blast
    obtain already where a: "map_of (ix_map d2) key = Some already" "value_entry ?sum value already"
      "readValueData c io (en_place already) (en_size already) d2 = Some (tv_bytes value)"
      using same(2,3) by (auto simp: unchanged_value_def value_entry_def)
    have len: "length (en_place already) = 7" using db_fineD(4) [OF fine2(1) a(1)] by (simp add: entry_fine_def)
    have all: "readValueData c io' (en_place already) (en_size already) d2 = Some (tv_bytes value)" for io'
      using a(3) readValueData_io [of c io' _ _ d2 io] by simp
    have "value_there c key ?sum value d2"
      unfolding value_there_def using values_of_Some [OF a(1)] a(2) all len
      by (intro exI [of _ "already\<lparr>en_useTime := 0\<rparr>"]) (auto simp: value_entry_def)
    from value_there_same [OF this _ r(4)] have there: "value_there c key ?sum value d'"
      using r(3) good_stepD(4) [OF r(2)] by simp
    have "values_of d' = (values_of d)(key \<mapsto> already\<lparr>en_useTime := 0\<rparr>)" "value_entry ?sum value (already\<lparr>en_useTime := 0\<rparr>)"
      using r(3) same(2) v1 values_of_Some [OF a(1)] a(2) by (auto simp: value_entry_def fun_eq_iff)
    then have "put_outcome ?sum key value noError d d'" using nonempty by (auto simp: put_outcome_def noError_def)
    moreover have "base_step block c clean io d d'" using base_step_trans [OF base2 good_base [OF r(2)]] .
    moreover have "db_put c xxh io key value d = Some (noError, d')" using put same(1) r(1) by simp
    moreover have "values_of d key \<noteq> None" using values_of_Some [OF a(1)] same(2) v1 by simp
    ultimately show ?thesis using there by (auto simp: noError_def)
  next
    case closed
    obtain d' where r: "recordEntryAccess c io key d2 = Some d'" "good_step block c clean io d2 d'" "values_of d' = values_of d2"
      using recordEntryAccess_fine [OF c fine2(1,2)] by blast
    have no: "\<not> f_isOpen (db_binlog d')" using good_stepD(7) [OF r(2)] closed(2) by blast
    then have "put_outcome ?sum key value noError d d'" using r(3) closed(3) nonempty by (auto simp: put_outcome_def noError_def)
    moreover have "base_step block c clean io d d'" using base_step_trans [OF base2 good_base [OF r(2)]] .
    moreover have "db_put c xxh io key value d = Some (noError, d')" using put closed(1) r(1) by simp
    moreover have "values_of d' = values_of d" using r(3) closed(3) by simp
    ultimately show ?thesis using no by (auto simp: noError_def)
  next
    case written
    obtain time where m: "length place = 7" "map_of (ix_map d2) = (map_of (ix_map d))(key \<mapsto> \<lparr>en_useTime = time, en_size = int (length (tv_bytes value)),
         en_checksum = ?sum, en_place = place, en_tag = tv_tag value\<rparr>)" using written(2) by (auto simp: written_value_def)
    let ?entry = "\<lparr>en_useTime = 0, en_size = int (length (tv_bytes value)), en_checksum = ?sum, en_place = place, en_tag = tv_tag value\<rparr>"
    have v2: "values_of d2 = (values_of d)(key \<mapsto> ?entry)" by (simp add: values_of_def m(2) fun_eq_iff)
    have path: "placePath ?d1 place = placePath d2 place" using good_stepD(5) [OF w(2)] by (simp add: placePath_def)
    obtain e d' where q: "put_data c io key value (placePath d2 place) d2 = Some (e, d')" "base_step block c clean io d2 d'"
      "err_type e = NoError \<longrightarrow> ix_map d' = ix_map d2"
      "err_type e \<noteq> NoError \<longrightarrow> map_of (ix_map d') = (map_of (ix_map d2))(key := None)"
      "data_written io (placePath d2 place) \<longrightarrow> err_type e = NoError
        \<and> (\<exists>data. db_disk d' (placePath d2 place) = Some data
          \<and> disk_holds block c (db_key d2) data (padded_data (io_padding io) (tv_bytes value)))"
      using put_data_fine [OF c fine2(1,2) io m(1) limits, of key] by auto
    have frame: "db_key d' = db_key d2" "placePath d' place = placePath d2 place" using q(2) by (simp_all add: base_step_def db_frame_def placePath_def)
    have "put_outcome ?sum key value e d d'"
    proof (cases "err_type e = NoError")
      case True
      then have "values_of d' = (values_of d)(key \<mapsto> ?entry)" using q(3) v2 by (simp add: values_of_def)
      then show ?thesis by (rule put_outcomeI [OF nonempty True, rotated]) (simp add: value_entry_def)
    next
      case False
      then show ?thesis using values_of_remove [of d' d2 key] q(4) v2 nonempty by (simp add: put_outcome_def)
    qed
    moreover have "value_there c key ?sum value d'" if dw: "data_written io (placePath d2 place)"
    proof -
      obtain data where data: "db_disk d' (placePath d2 place) = Some data"
        "disk_holds block c (db_key d2) data (padded_data (io_padding io) (tv_bytes value))" "err_type e = NoError" using q(5) dw by blast
      have "readValueData c io' place (int (length (tv_bytes value))) d' = Some (tv_bytes value)" for io'
        using disk_value_read [OF c, of d' place data "io_padding io" "tv_bytes value" io'] data frame io_fineD(3) [OF io] limits by simp
      moreover have "values_of d' key = Some ?entry" using data(3) q(3) v2 by (simp add: values_of_def)
      ultimately show ?thesis using m(1) by (auto simp: value_there_def value_entry_def)
    qed
    moreover have "base_step block c clean io d d'" by (rule base_step_trans [OF base2 q(2)])
    moreover have "db_put c xxh io key value d = Some (e, d')" using put written(1) path q(1) by simp
    moreover have "f_isOpen (db_binlog d)" using written(2) good_stepD(7) [OF w(2)] by (simp add: written_value_def)
    ultimately show ?thesis using q(5) by blast
  qed
qed

lemma remove_base:
  assumes "ctr_mode block c" and "db_fine block c clean d" and "clock_fine io d"
  shows "\<exists>e d'. db_remove c io key d = Some (e, d') \<and> good_step block c clean io d d' \<and> values_of d' = (values_of d)(key := None)
    \<and> db_stale d' = db_stale d"
  using remove_good [OF assms, of key] values_of_remove by blast

lemma db_put_fine:
  assumes c: "ctr_mode block c" and fine: "db_fine block c clean d" and clock: "clock_fine io d" and io: "io_fine io"
    and free: "places_free io d" and small: "int (length (tv_bytes value)) \<le> maxDataSize (ix_settings d)"
  shows "\<exists>e d'. db_put c xxh io key value d = Some (e, d') \<and> base_step block c clean io d d'
    \<and> put_outcome (xxh (tv_bytes value)) key value e d d'"
proof (cases "tv_bytes value = []")
  case True
  then show ?thesis using remove_base [OF c fine clock, of key] good_base by (fastforce simp: db_put_def put_outcome_def)
next
  case False
  show ?thesis using put_value_fine [OF assms False] by blast
qed

section \<open>Getting\<close>

lemma db_get_fine:
  assumes c: "ctr_mode block c" and fine: "db_fine block c clean d" and clock: "clock_fine io d" and io: "io_fine io"
  shows "\<exists>value d'. db_get c xxh io key d = Some (value, d') \<and> good_step block c clean io d d'
    \<and> (value = TaggedValue_empty \<and> values_of d' = (values_of d)(key := None)
       \<or> tv_bytes value \<noteq> [] \<and> values_of d' = values_of d \<and> data_kept d d' \<and> value_there c key (xxh (tv_bytes value)) value d)"
proof (cases "map_of (ix_map d) key")
  case None
  then have "(values_of d)(key := None) = values_of d" by (simp add: values_of_def fun_eq_iff)
  then show ?thesis using None good_step_refl [OF fine clock] by (simp add: db_get_def)
next
  case (Some entry)
  have len: "length (en_place entry) = 7" "0 < en_size entry" using db_fineD(4) [OF fine Some] by (simp_all add: entry_fine_def)
  obtain got where got: "readValueData c io (en_place entry) (en_size entry) d = Some got"
    using readValueData_total [OF c io_fineD(1) [OF io]] by blast
  show ?thesis
  proof (cases "got = [] \<or> xxh got \<noteq> en_checksum entry")
    case True
    obtain e d' where r: "db_remove c io key d = Some (e, d')" "good_step block c clean io d d'" "values_of d' = (values_of d)(key := None)"
      using remove_base [OF c fine clock] by blast
    then show ?thesis using Some got True by (auto simp: db_get_def)
  next
    case False
    obtain d' where r: "recordEntryAccess c io key d = Some d'" "good_step block c clean io d d'" "values_of d' = values_of d"
      "data_kept d d'" using recordEntryAccess_fine [OF c fine clock] by blast
    let ?got = "\<lparr>tv_bytes = got, tv_tag = en_tag entry\<rparr>"
    have "int (length got) = en_size entry" using readValueData_length [OF got] False by simp
    moreover have all: "readValueData c io' (en_place entry) (en_size entry) d = Some got" for io'
      using got readValueData_io [of c io' _ _ d io] by simp
    ultimately have "value_there c key (xxh got) ?got d"
      unfolding value_there_def using values_of_Some [OF Some] False len
      by (intro exI [of _ "entry\<lparr>en_useTime := 0\<rparr>"]) (auto simp: value_entry_def)
    then show ?thesis using Some got False r by (auto simp: db_get_def)
  qed
qed

lemma db_get_there:
  assumes c: "ctr_mode block c" and fine: "db_fine block c clean d" and clock: "clock_fine io d"
    and there: "value_there c key (xxh (tv_bytes value)) value d" and nonempty: "tv_bytes value \<noteq> []"
  shows "\<exists>d'. db_get c xxh io key d = Some (value, d') \<and> good_step block c clean io d d' \<and> values_of d' = values_of d \<and> data_kept d d'"
proof -
  obtain entry where e: "map_of (ix_map d) key = Some entry" using there by (auto simp: value_there_def values_of_def)
  note v = value_there_entry [OF there e]
  obtain d' where r: "recordEntryAccess c io key d = Some d'" "good_step block c clean io d d'" "values_of d' = values_of d"
    "data_kept d d'" using recordEntryAccess_fine [OF c fine clock] by blast
  have "\<lparr>tv_bytes = tv_bytes value, tv_tag = en_tag entry\<rparr> = value" using v(1) by (cases "value") (simp add: value_entry_def)
  then show ?thesis using e v r nonempty by (auto simp: db_get_def value_entry_def)
qed

section \<open>If empty\<close>

lemma base_stepD:
  assumes "base_step block c clean io d d'"
  shows "db_fine block c clean d'" "clock_fine io d'" "ix_settings d' = ix_settings d" "db_key d' = db_key d" "db_folder d' = db_folder d"
    "f_isOpen (db_binlog d') \<Longrightarrow> f_isOpen (db_binlog d)" "db_binlogAt d' = db_binlogAt d"
  using assms by (simp_all add: base_step_def db_frame_def)

lemma base_step_refl: "db_fine block c clean d \<Longrightarrow> clock_fine io d \<Longrightarrow> base_step block c clean io d d"
  by (simp add: base_step_def)

lemma db_putIfEmpty_fine:
  assumes c: "ctr_mode block c" and fine: "db_fine block c clean d" and clock: "clock_fine io d" and io: "io_fine io"
    and free: "places_free io d" and small: "int (length (tv_bytes value)) \<le> maxDataSize (ix_settings d)"
  shows "\<exists>e d'. db_putIfEmpty c xxh io key value d = Some (e, d') \<and> base_step block c clean io d d'
    \<and> (if values_of d key = None then put_outcome (xxh (tv_bytes value)) key value e d d' else e = noError \<and> d' = d)"
  using db_put_fine [OF assms] base_step_refl [OF fine clock] by (auto simp: db_putIfEmpty_def values_of_def)

text \<open>A value that was read is small enough to be put.\<close>

lemma db_copyIfEmpty_fine:
  assumes c: "ctr_mode block c" and fine: "db_fine block c clean d" and clock: "clock_fine io d" and io: "io_fine io"
    and free: "places_free io d"
  shows "\<exists>e d'. db_copyIfEmpty c xxh io source target d = Some (e, d') \<and> base_step block c clean io d d'"
proof (cases "map_of (ix_map d) target")
  case (Some x)
  then show ?thesis using base_step_refl [OF fine clock] by (simp add: db_copyIfEmpty_def)
next
  case target: None
  have empty: "int (length (tv_bytes TaggedValue_empty)) \<le> maxDataSize (ix_settings d)"
    using settings_fineD(3) [OF db_fineD(2) [OF fine]] by (simp add: TaggedValue_empty_def)
  show ?thesis
  proof (cases "map_of (ix_map d) source")
    case None
    then show ?thesis using target db_put_fine [OF c fine clock io free empty, of xxh target] by (auto simp: db_copyIfEmpty_def)
  next
    case (Some entry)
    have size: "en_size entry \<le> maxDataSize (ix_settings d)" using db_fineD(4) [OF fine Some] by (simp add: entry_fine_def)
    obtain got where got: "readValueData c io (en_place entry) (en_size entry) d = Some got"
      using readValueData_total [OF c io_fineD(1) [OF io]] by blast
    note len = readValueData_length [OF got]
    show ?thesis
    proof (cases "got = [] \<or> xxh got \<noteq> en_checksum entry")
      case True
      obtain e1 d1 where r: "db_remove c io source d = Some (e1, d1)" "good_step block c clean io d d1"
        using remove_base [OF c fine clock] by blast
      note g = good_stepD [OF r(2)]
      have "places_free io d1" using keeps_free_places [OF g(6) io free] .
      from db_put_fine [OF c g(1,2) io this, of TaggedValue_empty xxh target] obtain e d' where
        p: "db_put c xxh io target TaggedValue_empty d1 = Some (e, d')" "base_step block c clean io d1 d'"
        using empty g(3) by auto
      show ?thesis
        using target Some got True r(1) p(1) base_step_trans [OF good_base [OF r(2)] p(2)] by (auto simp: db_copyIfEmpty_def)
    next
      case False
      let ?got = "\<lparr>tv_bytes = got, tv_tag = en_tag entry\<rparr>"
      have small: "int (length (tv_bytes ?got)) \<le> maxDataSize (ix_settings d)" using len size False by simp
      from db_put_fine [OF c fine clock io free small, of xxh target] obtain e d1 where
        p: "db_put c xxh io target ?got d = Some (e, d1)" "base_step block c clean io d d1" by blast
      obtain d2 where r: "recordEntryAccess c io source d1 = Some d2" "good_step block c clean io d1 d2"
        using recordEntryAccess_fine [OF c base_stepD(1,2) [OF p(2)]] by blast
      show ?thesis
        using target Some got False p(1) r(1) base_step_trans [OF p(2) good_base [OF r(2)]] by (auto simp: db_copyIfEmpty_def)
    qed
  qed
qed

end
