(* ===== verification/CacheMoves.thy ===== *)
theory CacheMoves
  imports CacheReads
begin

text \<open>
  Moving and pruning values of the disk cache.
\<close>

section \<open>Moving\<close>

lemma existing_place_fine:
  assumes c: "ctr_mode block c" and fine: "writes_key block c clean key d" and clock: "clock_fine io d"
    and none: "map_of (ix_map d) key = None" and entry: "entry_fine (ix_settings d) entry"
    and tmpl: "store_template bytes_of process mk record use_time after io d"
  shows "\<exists>e d'. writeExistingPlaceGeneric c io bytes_of process record key entry d = Some (e, d') \<and> good_step block c clean io d d'
    \<and> data_kept d d' \<and> (if err_type e = NoError then values_of d' = (values_of d)(key \<mapsto> entry\<lparr>en_useTime := 0\<rparr>) \<and> f_isOpen (db_binlog d')
       else values_of d' = values_of d \<and> \<not> f_isOpen (db_binlog d'))"
proof -
  have size: "0 < en_size entry" "en_size entry \<le> maxDataSize (ix_settings d)" "length (en_place entry) = 7"
    using entry by (simp_all add: entry_fine_def)
  have "en_size entry < kDataSizeLimit" using size(2) settings_fineD(4) [OF writes_keyD(2) [OF fine]] by linarith
  then obtain packed where packed: "Store_setSize (en_size entry) (record\<lparr>store_key := key, store_tag := en_tag entry\<rparr>) =
      Some (record\<lparr>store_key := key, store_tag := en_tag entry, store_size := packed\<rparr>)" "length packed = 3" "ReadFrom packed = en_size entry"
    using setSize_ok [of "en_size entry" "record\<lparr>store_key := key, store_tag := en_tag entry\<rparr>"] size by auto
  let ?r = "record\<lparr>store_key := key, store_tag := en_tag entry, store_size := packed, store_checksum := en_checksum entry,
    store_place := en_place entry\<rparr>"
  have r: "length (store_size ?r) = 3" "length (store_place ?r) = 7" "size_fits (ix_settings d) ?r" "store_key ?r = key"
    "Store.more ?r = Store.more record"
    using packed size by (simp_all add: size_fits_def Store_getSize_def)
  have e: "(stored_entry ?r use_time)\<lparr>en_useTime := 0\<rparr> = entry\<lparr>en_useTime := 0\<rparr>"
    using packed by (simp add: stored_entry_def Store_getSize_def)
  from write_store_fine [OF c fine clock tmpl r] obtain ok d' where
    w: "write_store_record c bytes_of process ?r d = Some (ok, d')" "good_step block c clean io d d'" "data_kept d d'"
    "if ok then map_of (ix_map d') = (map_of (ix_map d))(key \<mapsto> stored_entry ?r use_time) \<and> f_isOpen (db_binlog d')
        \<and> db_stale d' = db_stale d
     else \<not> f_isOpen (db_binlog d') \<and> ix_map d' = ix_map d \<and> db_removing d' = db_removing d" by auto
  have "writeExistingPlaceGeneric c io bytes_of process record key entry d =
      Some (if ok then noError else ioError (binlogPath d'), d')"
    using packed(1) w(1) none by (simp add: writeExistingPlaceGeneric_def same_value_def)
  moreover have "ok \<Longrightarrow> values_of d' = (values_of d)(key \<mapsto> entry\<lparr>en_useTime := 0\<rparr>)" using w(4) e by (simp add: values_of_def fun_eq_iff)
  moreover have "\<not> ok \<Longrightarrow> values_of d' = values_of d" using w(4) by (simp add: values_of_def)
  ultimately show ?thesis using w(2-4) by (cases ok) (auto simp: noError_def ioError_def)
qed

lemma writeExistingPlace_fine:
  assumes c: "ctr_mode block c" and fine: "writes_key block c clean key d" and clock: "clock_fine io d"
    and none: "map_of (ix_map d) key = None" and entry: "entry_fine (ix_settings d) entry"
  shows "\<exists>e d'. writeExistingPlace c io key entry d = Some (e, d') \<and> good_step block c clean io d d'
    \<and> data_kept d d' \<and> (if err_type e = NoError then values_of d' = (values_of d)(key \<mapsto> entry\<lparr>en_useTime := 0\<rparr>) \<and> f_isOpen (db_binlog d')
       else values_of d' = values_of d \<and> \<not> f_isOpen (db_binlog d'))"
proof (cases "trackEstimatedTime (ix_settings d)")
  case True
  obtain t where t: "record_time io d = Some t" "t = ix_time d \<or> t = countTimePoint io d" "time_ok t"
    "tp_relative (ix_time d) \<le> tp_relative t" using record_time_cases [OF clock writes_keyD(3) [OF fine]] by blast
  from existing_place_fine [OF assms timed_template [OF True writes_keyD(3) [OF fine] clock t(2-4)]]
  show ?thesis using True t(1) by (simp add: writeExistingPlace_def)
next
  case False
  from existing_place_fine [OF assms plain_template [OF False writes_keyD(3) [OF fine] clock]]
  show ?thesis using False by (simp add: writeExistingPlace_def)
qed

text \<open>The removal of the source is written at once, with those that waited.\<close>

lemma write_removal_fine:
  assumes c: "ctr_mode block c" and fine: "db_fine block c clean d" and clock: "clock_fine io d" and some: "map_of (ix_map d) key \<noteq> None"
  shows "\<exists>d1 e d2. eraseMapEntry key (d\<lparr>db_removing := set_emplace key (db_removing d)\<rparr>) = Some d1 \<and> writeMultiRemove c d1 = Some (e, d2)
    \<and> good_step block c clean io d d2 \<and> data_kept d d2 \<and> map_of (ix_map d2) = (map_of (ix_map d))(key := None) \<and> db_stale d2 = db_stale d
    \<and> (err_type e \<noteq> NoError \<longrightarrow> \<not> f_isOpen (db_binlog d2))"
proof -
  note f = db_fineD [OF fine]
  let ?R = "set_emplace key (db_removing d)" and ?d0 = "d\<lparr>db_removing := set_emplace key (db_removing d)\<rparr>"
  have R: "set ?R = insert key (set (db_removing d))" "int (length ?R) \<le> maxBundledRecords (ix_settings d)"
    using f(5) set_emplace_ok [of "db_removing d" key] length_set_emplace [of key "db_removing d"] by (auto simp: pending_fine_def)
  obtain d1 where d1: "eraseMapEntry key ?d0 = Some d1" "index_ok d1" "index_frame ?d0 d1" "ix_map d1 = AList.delete key (ix_map ?d0)"
    "ix_time d1 = ix_time ?d0" "ix_excess d1 = ix_excess ?d0"
    using eraseMapEntry_ok [of ?d0] f(1) by auto
  note e = binlog_content_erase [OF d1(3)]
  have s1: "ix_settings d1 = ix_settings d" using d1(3) by (simp add: index_frame_def)
  have b1: "binlog_ok d1" using e(2) f(9) by simp
  obtain r d2 where d2: "writeMultiRemove c d1 = Some (r, d2)" "quiet_step block c d1 d2" "db_removing d2 = []"
    "err_type r \<noteq> NoError \<longrightarrow> \<not> f_isOpen (db_binlog d2)"
    using writeMultiRemove_quiet [OF c b1] f(2) R(2) s1 e(3) by auto
  note q = quiet_stepE [OF d2(2)]
  obtain m where m: "binlog_content block c clean d (m, tp_relative (ix_time d))" "map_of (ix_map d) = m |` (- set (db_removing d))"
    using f(10) by (auto simp: replays_to_def)
  have m1: "binlog_content block c clean d1 (m, tp_relative (ix_time d))" using m(1) e(1) by simp
  obtain m' where m': "binlog_content block c clean d2 (m', tp_relative (ix_time d))" "m' |` (- set (db_removing d2)) = m |` (- set ?R)"
    using q(15) [OF m1] e(3) by auto
  have map2: "map_of (ix_map d2) = (map_of (ix_map d))(key := None)" by (simp add: q(2) d1(4) delete_conv')
  have "map_of (ix_map d2) = m |` (- set ?R)" using m(2) R(1) by (auto simp: map2 fun_eq_iff restrict_map_def)
  then have "replays_to block c clean d2" unfolding replays_to_def using m' q(3) d1(5) by auto
  moreover have "pending_fine (ix_settings d) []" using settings_fineD(1) [OF f(2)] by (simp add: pending_fine_def)
  moreover have "entry_fine (ix_settings d) entry" if "map_of (ix_map d2) k = Some entry" for k entry
    using that f(4) by (simp add: map2 split: if_splits)
  ultimately have "db_fine block c clean d2"
    unfolding db_fine_def using f(2,3,5-7) q s1 d1(2,5) d2(3) e(4) by simp
  moreover have kept: "data_kept d d2"
    by (rule disk_data_kept [OF f(9)]) (use q(8,12) e(6,7,9,11) in auto)
  moreover have "keeps_free d d2" by (rule data_kept_free [OF kept])
  ultimately have "good_step block c clean io d d2"
    using clock q d1(5) s1 e(7,9-11) by (simp add: good_step_def db_frame_def clock_fine_def)
  then show ?thesis using d1(1) d2(1,4) map2 kept q(6) e(8) by (intro exI [of _ d1] exI [of _ r] exI [of _ d2]) simp
qed

lemma db_moveIfEmpty_fine:
  assumes c: "ctr_mode block c" and fine: "db_fine block c clean d" and clock: "clock_fine io d"
  shows "\<exists>e d'. db_moveIfEmpty c io source target d = Some (e, d') \<and> good_step block c clean io d d' \<and> data_kept d d'
    \<and> (if values_of d target \<noteq> None \<or> values_of d source = None then e = noError \<and> d' = d
       else if err_type e = NoError then values_of d' = (values_of d)(source := None, target := values_of d source)
       else values_of d' = (values_of d)(source := None) \<and> \<not> f_isOpen (db_binlog d'))"
proof (cases "map_of (ix_map d) target = None \<and> (\<exists>entry. map_of (ix_map d) source = Some entry)")
  case False
  then show ?thesis using good_step_refl [OF fine clock]
    by (cases "map_of (ix_map d) target") (auto simp: db_moveIfEmpty_def values_of_def)
next
  case True
  then obtain entry where m: "map_of (ix_map d) target = None" "map_of (ix_map d) source = Some entry" by blast
  have v: "values_of d target = None" "values_of d source = Some (entry\<lparr>en_useTime := 0\<rparr>)" using m by (simp_all add: values_of_def)
  from write_removal_fine [OF c fine clock, of source] m(2) obtain d1 r d2 where w:
    "eraseMapEntry source (d\<lparr>db_removing := set_emplace source (db_removing d)\<rparr>) = Some d1" "writeMultiRemove c d1 = Some (r, d2)"
    "good_step block c clean io d d2" "data_kept d d2" "map_of (ix_map d2) = (map_of (ix_map d))(source := None)"
    "err_type r \<noteq> NoError \<longrightarrow> \<not> f_isOpen (db_binlog d2)" by auto
  have v2: "values_of d2 = (values_of d)(source := None)" by (rule values_of_remove [OF w(5)])
  show ?thesis
  proof (cases "err_type r = NoError")
    case False
    then have "db_moveIfEmpty c io source target d = Some (r, d2)" using m w(1,2) by (simp add: db_moveIfEmpty_def)
    then show ?thesis using w(3,4,6) False v v2 by simp
  next
    case True
    let ?d3 = "d2\<lparr>db_removing := set_erase target (db_removing d2), db_stale := filter (\<lambda>k. k \<noteq> target) (db_stale d2)\<rparr>"
    note g = good_stepD [OF w(3)]
    have k: "writes_key block c clean target ?d3" by (rule writes_keyI [OF g(1)])
    have none: "map_of (ix_map ?d3) target = None" using m(1) w(5) by simp
    have "entry_fine (ix_settings d) entry" using db_fineD(4) [OF fine m(2)] .
    then have ef: "entry_fine (ix_settings ?d3) entry" using g(3) by simp
    from writeExistingPlace_fine [OF c k _ none ef, of io] g(2) obtain e d' where x:
      "writeExistingPlace c io target entry ?d3 = Some (e, d')" "good_step block c clean io ?d3 d'" "data_kept ?d3 d'"
      "if err_type e = NoError then values_of d' = (values_of ?d3)(target \<mapsto> entry\<lparr>en_useTime := 0\<rparr>) \<and> f_isOpen (db_binlog d')
       else values_of d' = values_of ?d3 \<and> \<not> f_isOpen (db_binlog d')" by auto
    have "db_moveIfEmpty c io source target d = Some (e, d')" using m w(1,2) True x(1) by (simp add: db_moveIfEmpty_def)
    moreover have "good_step block c clean io d2 d'"
      using x(2) unfolding good_step_def db_frame_def keeps_free_def isFreePlace_def placePath_def by auto
    then have "good_step block c clean io d d'" by (rule good_step_trans [OF w(3)])
    moreover have "data_kept d d'" using x(3) by (intro data_kept_trans [OF w(4)]) (simp add: data_kept_def placePath_def)
    ultimately show ?thesis using x(4) v v2 by (auto split: if_splits)
  qed
qed

end
