(* ===== verification/CachePruning.thy ===== *)
theory CachePruning
  imports CacheMoves CachePrune
begin

text \<open>
  Pruning of the disk cache: what is chosen to be removed is enough, and removing it keeps the
  invariant.
\<close>

section \<open>Sizes\<close>

definition sizes_of :: "(Key \<Rightarrow> Entry option) \<Rightarrow> Key set \<Rightarrow> int" where
  "sizes_of m ks = (\<Sum>key\<in>ks. en_size (the (m key)))"

lemma entry_sum_sizes:
  assumes "distinct (map fst m)"
  shows "entry_sum en_size m = sizes_of (map_of m) (dom (map_of m))"
proof -
  have "sizes_of (map_of m) (dom (map_of m)) = (\<Sum>key\<leftarrow>map fst m. en_size (the (map_of m key)))"
    unfolding sizes_of_def by (simp only: dom_map_of_conv_image_fst sum_list_distinct_conv_sum_set [OF assms] flip: set_map)
  also have "\<dots> = (\<Sum>(key, entry)\<leftarrow>m. en_size (the (map_of m key)))" by (simp add: case_prod_unfold comp_def)
  also have "\<dots> = (\<Sum>(key, entry)\<leftarrow>m. en_size entry)"
    using assms by (intro arg_cong [of _ _ sum_list] map_cong) auto
  finally show ?thesis by (simp add: entry_sum_def case_prod_unfold)
qed

lemma index_total: "index_ok ix \<Longrightarrow> ix_totalSize ix = sizes_of (map_of (ix_map ix)) (dom (map_of (ix_map ix)))"
  using entry_sum_sizes [of "ix_map ix"] by (simp add: index_ok_def)

lemma sizes_of_restrict:
  assumes "S \<subseteq> dom m" and "finite (dom m)"
  shows "sizes_of (m |` (- S)) (dom (m |` (- S))) = sizes_of m (dom m) - sizes_of m S"
proof -
  have "dom (m |` (- S)) = dom m - S" by (auto simp: restrict_map_def dom_def)
  moreover have "sizes_of (m |` (- S)) (dom m - S) = sizes_of m (dom m - S)"
    unfolding sizes_of_def by (intro sum.cong) (auto simp: restrict_map_def)
  ultimately show ?thesis using assms by (simp add: sizes_of_def sum_diff)
qed

section \<open>Too old\<close>

definition stale_ok :: "(Key \<Rightarrow> Entry option) \<Rightarrow> Key list \<times> int \<Rightarrow> bool" where
  "stale_ok m stale \<longleftrightarrow> sorted_wrt (<) (fst stale) \<and> set (fst stale) \<subseteq> dom m \<and> snd stale = sizes_of m (set (fst stale))"

lemma stale_ok_insert:
  assumes "stale_ok m (ks, n)" and "m key = Some entry" and "key \<notin> set ks"
  shows "stale_ok m (fst (flat_set_insert (<) key ks), n + en_size entry)"
proof -
  have s: "sorted_wrt (<) ks" using assms(1) by (simp add: stale_ok_def)
  have "set (fst (flat_set_insert (<) key ks)) = insert key (set ks)" by (rule lin.insert_set_eq [OF s])
  then show ?thesis using assms lin.insert_sorted [OF s, of key] by (auto simp: stale_ok_def sizes_of_def)
qed

lemma collectTimeStale_loop_spec:
  assumes "distinct (map fst xs)" and "\<And>key entry. (key, entry) \<in> set xs \<Longrightarrow> m key = Some entry \<and> key \<notin> set (ts_stale t)"
    and "stale_ok m (ts_stale t, ts_staleSize t)" and "ts_minimal t \<noteq> 0 \<longrightarrow> 0 < ts_minimalCount t"
  shows "stale_ok m (ts_stale (collectTimeStale_loop before xs t), ts_staleSize (collectTimeStale_loop before xs t))
    \<and> set (ts_stale (collectTimeStale_loop before xs t)) =
      set (ts_stale t) \<union> {key. \<exists>entry. (key, entry) \<in> set xs \<and> en_useTime entry \<le> before}
    \<and> (ts_minimal (collectTimeStale_loop before xs t) \<noteq> 0 \<longrightarrow> 0 < ts_minimalCount (collectTimeStale_loop before xs t))"
  using assms
proof (induction xs arbitrary: t)
  case (Cons x xs)
  obtain key entry where x: "x = (key, entry)" by (cases x)
  have m: "m key = Some entry" "key \<notin> set (ts_stale t)" using Cons.prems(2) x by auto
  have s: "sorted_wrt (<) (ts_stale t)" using Cons.prems(3) by (simp add: stale_ok_def)
  note ins = lin.insert_set_eq [OF s, of key]
  let ?t = "if en_useTime entry \<le> before
        then t\<lparr>ts_stale := fst (flat_set_insert (<) key (ts_stale t)), ts_staleSize := ts_staleSize t + en_size entry\<rparr>
        else if ts_minimal t = 0 \<or> en_useTime entry < ts_minimal t
        then t\<lparr>ts_minimal := en_useTime entry, ts_minimalCount := 1\<rparr>
        else if ts_minimal t = en_useTime entry then t\<lparr>ts_minimalCount := ts_minimalCount t + 1\<rparr>
        else t"
  have a: "distinct (map fst xs)" using Cons.prems(1) by simp
  have b: "m k = Some e \<and> k \<notin> set (ts_stale ?t)" if "(k, e) \<in> set xs" for k e
    using that Cons.prems(1) Cons.prems(2) [of k e] by (auto simp: x ins image_iff)
  have c: "stale_ok m (ts_stale ?t, ts_staleSize ?t)"
    using stale_ok_insert [OF Cons.prems(3) m] Cons.prems(3) by simp
  have e: "ts_minimal ?t \<noteq> 0 \<longrightarrow> 0 < ts_minimalCount ?t" using Cons.prems(4) by auto
  have step: "collectTimeStale_loop before (x # xs) t = collectTimeStale_loop before xs ?t" by (simp add: x)
  from Cons.IH [OF a b c e]
  have "stale_ok m (ts_stale (collectTimeStale_loop before xs ?t), ts_staleSize (collectTimeStale_loop before xs ?t))
    \<and> set (ts_stale (collectTimeStale_loop before xs ?t)) =
      set (ts_stale ?t) \<union> {key. \<exists>entry. (key, entry) \<in> set xs \<and> en_useTime entry \<le> before}
    \<and> (ts_minimal (collectTimeStale_loop before xs ?t) \<noteq> 0 \<longrightarrow> 0 < ts_minimalCount (collectTimeStale_loop before xs ?t))" .
  then show ?case unfolding step by (auto simp: x ins)
qed auto

text \<open>Walking the map gives each entry once.\<close>

lemma io_order_map:
  assumes "io_fine io" and "distinct (map fst m)"
  shows "distinct (map fst (io_order io m))" and "set (io_order io m) = set m"
    and "(key, entry) \<in> set (io_order io m) \<longleftrightarrow> map_of m key = Some entry"
proof -
  have p: "mset (io_order io m) = mset m" using assms(1) by (simp add: io_fine_def)
  show s: "set (io_order io m) = set m" using p by (metis set_mset_mset)
  have "mset (map fst (io_order io m)) = mset (map fst m)" by (simp add: p)
  then show "distinct (map fst (io_order io m))" using assms(2) mset_eq_imp_distinct_iff by blast
  show "(key, entry) \<in> set (io_order io m) \<longleftrightarrow> map_of m key = Some entry"
    unfolding s using assms(2) by (metis map_of_eq_Some_iff)
qed

lemma collectTimeStale_spec:
  assumes fine: "index_ok d" and io: "io_fine io" and r: "collectTimeStale io ([], 0) d = (stale, d1)"
  shows "stale_ok (map_of (ix_map d)) stale" and "\<exists>t n. d1 = d\<lparr>ix_minimalTime := t, ix_minimalCount := n\<rparr> \<and> (t \<noteq> 0 \<longrightarrow> 0 < n)"
    and "totalTimeLimit (ix_settings d) \<noteq> 0 \<and> ix_minimalTime d \<noteq> 0 \<and> ix_minimalTime d \<le> pruneBeforeTime io d \<longrightarrow>
      set (fst stale) = {key. \<exists>entry. map_of (ix_map d) key = Some entry \<and> en_useTime entry \<le> pruneBeforeTime io d}"
    and "set (fst stale) \<subseteq> {key. \<exists>entry. map_of (ix_map d) key = Some entry \<and> en_useTime entry \<le> pruneBeforeTime io d}"
proof -
  let ?b = "pruneBeforeTime io d" and ?xs = "io_order io (ix_map d)"
  let ?t0 = "\<lparr>ts_stale = [], ts_staleSize = 0, ts_minimal = 0, ts_minimalCount = 0\<rparr>"
  note o = io_order_map [OF io index_okD(1) [OF fine]]
  have x: "map_of (ix_map d) key = Some entry \<and> key \<notin> set (ts_stale ?t0)" if "(key, entry) \<in> set ?xs" for key entry
    using that o(3) by simp
  have z: "stale_ok (map_of (ix_map d)) (ts_stale ?t0, ts_staleSize ?t0)" by (simp add: stale_ok_def sizes_of_def)
  note l = collectTimeStale_loop_spec [OF o(1) x z, of ?b, simplified]
  let ?skip = "totalTimeLimit (ix_settings d) = 0 \<or> ix_minimalTime d = 0 \<or> ?b < ix_minimalTime d"
  have all: "stale_ok (map_of (ix_map d)) stale \<and> (\<exists>t n. d1 = d\<lparr>ix_minimalTime := t, ix_minimalCount := n\<rparr> \<and> (t \<noteq> 0 \<longrightarrow> 0 < n))
    \<and> (\<not> ?skip \<longrightarrow> set (fst stale) = {key. \<exists>entry. map_of (ix_map d) key = Some entry \<and> en_useTime entry \<le> ?b}) \<and> (?skip \<longrightarrow> stale = ([], 0))"
  proof (cases ?skip)
    case True
    then have "stale = ([], 0)" "d1 = d" using r by (auto simp: collectTimeStale_def Let_def split: if_splits)
    moreover have "\<exists>t n. d = d\<lparr>ix_minimalTime := t, ix_minimalCount := n\<rparr> \<and> (t \<noteq> 0 \<longrightarrow> 0 < n)"
      using index_okD(6) [OF fine] by (intro exI [of _ "ix_minimalTime d"] exI [of _ "ix_minimalCount d"]) simp
    ultimately show ?thesis using True z by simp
  next
    case False
    let ?t = "collectTimeStale_loop ?b ?xs ?t0"
    have "stale = (ts_stale ?t, ts_staleSize ?t)" "d1 = d\<lparr>ix_minimalTime := ts_minimal ?t, ix_minimalCount := ts_minimalCount ?t\<rparr>"
      using r False by (auto simp: collectTimeStale_def Let_def split: if_splits)
    moreover from this have "\<exists>t n. d1 = d\<lparr>ix_minimalTime := t, ix_minimalCount := n\<rparr> \<and> (t \<noteq> 0 \<longrightarrow> 0 < n)"
      using l by (intro exI [of _ "ts_minimal ?t"] exI [of _ "ts_minimalCount ?t"]) simp
    ultimately show ?thesis using l o(3) False by simp
  qed
  then show "stale_ok (map_of (ix_map d)) stale" "\<exists>t n. d1 = d\<lparr>ix_minimalTime := t, ix_minimalCount := n\<rparr> \<and> (t \<noteq> 0 \<longrightarrow> 0 < n)"
    "totalTimeLimit (ix_settings d) \<noteq> 0 \<and> ix_minimalTime d \<noteq> 0 \<and> ix_minimalTime d \<le> ?b \<longrightarrow>
      set (fst stale) = {key. \<exists>entry. map_of (ix_map d) key = Some entry \<and> en_useTime entry \<le> ?b}" by auto
  show "set (fst stale) \<subseteq> {key. \<exists>entry. map_of (ix_map d) key = Some entry \<and> en_useTime entry \<le> ?b}"
    using all by (cases ?skip) auto
qed

section \<open>Too much\<close>

definition bucket_sizes :: "buckets \<Rightarrow> int" where
  "bucket_sizes oldest = (\<Sum>(time, key, entry)\<leftarrow>oldest. en_size entry)"

lemma bucket_sizes_simps [simp]:
  "bucket_sizes [] = 0" "bucket_sizes (b # bs) = en_size (snd (snd b)) + bucket_sizes bs"
  "bucket_sizes (bs @ cs) = bucket_sizes bs + bucket_sizes cs"
  by (simp_all add: bucket_sizes_def case_prod_unfold)

lemma drop_first_spec:
  assumes "drop_first removeSize adding oldest n = (oldest', n')"
  shows "\<exists>dropped. oldest = dropped @ oldest' \<and> n' = n - bucket_sizes dropped
    \<and> (dropped \<noteq> [] \<longrightarrow> removeSize \<le> n' + en_size adding)"
  using assms
proof (induction removeSize adding oldest n rule: drop_first.induct)
  case (2 removeSize adding time key first oldest n)
  show ?case
  proof (cases "en_useTime adding \<le> en_useTime first \<and> en_size first \<le> n + en_size adding - removeSize")
    case True
    then obtain dropped where d: "oldest = dropped @ oldest'" "n' = n - en_size first - bucket_sizes dropped"
      "dropped \<noteq> [] \<longrightarrow> removeSize \<le> n' + en_size adding" using "2.IH" "2.prems" by auto
    then show ?thesis using True by (intro exI [of _ "(time, key, first) # dropped"]) (cases "dropped = []"; auto)
  next
    case False
    then show ?thesis using "2.prems" by auto
  qed
qed simp

lemma multi_map_insert_split: "\<exists>pre post. xs = pre @ post \<and> fst (flat_multi_map_insert lt b xs) = pre @ b # post"
proof -
  have "\<exists>pre post. xs = pre @ post \<and> insert_at i b xs = pre @ b # post" for i
    by (intro exI [of _ "take i xs"] exI [of _ "drop i xs"]) (simp add: insert_at_def)
  moreover have "\<exists>pre post. xs = pre @ post \<and> b # xs = pre @ b # post" by (intro exI [of _ "[]"] exI [of _ xs]) simp
  moreover have "\<exists>pre post. xs = pre @ post \<and> xs @ [b] = pre @ b # post" by (intro exI [of _ xs] exI [of _ "[]"]) simp
  ultimately show ?thesis by (simp add: flat_multi_map_insert_def Let_def)
qed

text \<open>What the loop keeps: the buckets are entries that were seen, and they are enough or all of them.\<close>

definition buckets_of :: "Key list \<Rightarrow> (Key \<times> Entry) list \<Rightarrow> (Key \<times> Entry) set" where
  "buckets_of stale seen = {(key, entry). (key, entry) \<in> set seen \<and> key \<notin> set stale}"

definition buckets_ok :: "int \<Rightarrow> Key list \<Rightarrow> (Key \<times> Entry) list \<Rightarrow> buckets \<times> int \<Rightarrow> bool" where
  "buckets_ok removeSize stale seen acc \<longleftrightarrow>
     snd acc = bucket_sizes (fst acc) \<and> distinct (map (\<lambda>b. fst (snd b)) (fst acc)) \<and> set (map snd (fst acc)) \<subseteq> buckets_of stale seen
     \<and> (removeSize \<le> snd acc \<or> set (map snd (fst acc)) = buckets_of stale seen)"

lemma buckets_ok_add:
  assumes ok: "buckets_ok removeSize stale seen (oldest, n)" and s: "sorted_wrt (<) stale" and key: "key \<notin> set stale" "key \<notin> fst ` set seen"
    and d: "drop_first removeSize entry oldest n = (oldest1, n1)" and size: "0 < en_size entry"
  shows "buckets_ok removeSize stale ((key, entry) # seen)
    (fst (flat_multi_map_insert (>) (int (en_useTime entry), key, entry) oldest1), n1 + en_size entry)"
proof -
  from drop_first_spec [OF d] obtain dropped where dr: "oldest = dropped @ oldest1" "n1 = n - bucket_sizes dropped"
    "dropped \<noteq> [] \<longrightarrow> removeSize \<le> n1 + en_size entry" by blast
  let ?b = "(int (en_useTime entry), key, entry)"
  let ?new = "fst (flat_multi_map_insert (>) ?b oldest1)"
  obtain pre post where i: "oldest1 = pre @ post" "?new = pre @ ?b # post" using multi_map_insert_split by blast
  have old: "n = bucket_sizes oldest" "distinct (map (\<lambda>b. fst (snd b)) oldest)" "set (map snd oldest) \<subseteq> buckets_of stale seen"
    "removeSize \<le> n \<or> set (map snd oldest) = buckets_of stale seen" using ok by (auto simp: buckets_ok_def)
  have sub1: "set (map snd oldest1) \<subseteq> buckets_of stale seen" using old(3) by (auto simp: dr(1))
  have "key \<notin> (\<lambda>b. fst (snd b)) ` set oldest1" using sub1 key by (force simp: buckets_of_def)
  then have dist: "distinct (map (\<lambda>b. fst (snd b)) ?new)" unfolding i(2) using old(2) by (auto simp: dr(1) i(1))
  have seen: "buckets_of stale ((key, entry) # seen) = insert (key, entry) (buckets_of stale seen)"
    using key by (auto simp: buckets_of_def)
  have new: "set (map snd ?new) = insert (key, entry) (set (map snd oldest1))" unfolding i(2) by (auto simp: i(1))
  have "removeSize \<le> n1 + en_size entry \<or> set (map snd oldest1) = buckets_of stale seen"
  proof (cases "dropped = []")
    case True
    then show ?thesis using old(4) dr size by auto
  qed (use dr(3) in simp)
  then have enough: "removeSize \<le> n1 + en_size entry \<or> set (map snd ?new) = buckets_of stale ((key, entry) # seen)"
    unfolding new seen by auto
  have "set (map snd ?new) \<subseteq> buckets_of stale ((key, entry) # seen)" unfolding new seen using sub1 by auto
  moreover have "n1 + en_size entry = bucket_sizes ?new" unfolding i(2) using old(1) by (simp add: dr(1,2) i(1))
  ultimately show ?thesis using dist enough unfolding buckets_ok_def fst_conv snd_conv by blast
qed

lemma collectSizeStale_loop_spec:
  assumes "sorted_wrt (<) stale" and "distinct (map fst seen @ map fst m)" and "\<forall>b \<in> set m. 0 < en_size (snd b)"
    and "buckets_ok removeSize stale seen acc" and "0 < removeSize"
  shows "\<exists>acc'. collectSizeStale_loop removeSize stale m acc = Some acc' \<and> buckets_ok removeSize stale (rev m @ seen) acc'"
  using assms(2-4)
proof (induction m arbitrary: seen acc)
  case Nil
  then show ?case by simp
next
  case (Cons x m)
  obtain key entry where x: "x = (key, entry)" by (cases x)
  obtain oldest n where acc: "acc = (oldest, n)" by (cases acc)
  have size: "0 < en_size entry" and fresh: "key \<notin> fst ` set seen" using Cons.prems(1,2) by (auto simp: x)
  have dist: "distinct (map fst (x # seen) @ map fst m)" using Cons.prems(1) by auto
  have rest: "\<forall>b \<in> set m. 0 < en_size (snd b)" using Cons.prems(2) by simp
  have n: "n = bucket_sizes oldest" using Cons.prems(3) by (simp add: buckets_ok_def acc)
  have "\<exists>acc1. collectSizeStale_loop removeSize stale (x # m) acc = collectSizeStale_loop removeSize stale m acc1
      \<and> buckets_ok removeSize stale (x # seen) acc1"
  proof (cases "key \<in> set stale")
    case True
    then have "buckets_of stale (x # seen) = buckets_of stale seen" by (auto simp: buckets_of_def x)
    then show ?thesis using Cons.prems(3) True lin.contains_set [OF assms(1), of key]
      by (intro exI [of _ acc]) (auto simp: x acc buckets_ok_def)
  next
    case False
    then have no: "\<not> flat_set_contains (<) key stale" using lin.contains_set [OF assms(1), of key] by simp
    have some: "\<not> (oldest = [] \<and> removeSize \<le> n)" using n assms(5) by auto
    show ?thesis
    proof (cases "n < removeSize \<or> en_useTime entry < en_useTime (snd (snd (hd oldest)))")
      case True
      obtain oldest1 n1 where d: "drop_first removeSize entry oldest n = (oldest1, n1)" by (cases "drop_first removeSize entry oldest n")
      have "buckets_ok removeSize stale seen (oldest, n)" using Cons.prems(3) by (simp add: acc)
      from buckets_ok_add [OF this assms(1) False fresh d size] show ?thesis using True no some d by (auto simp: x acc)
    next
      case skip: False
      then have "removeSize \<le> n" by simp
      moreover have "buckets_of stale seen \<subseteq> buckets_of stale (x # seen)" by (auto simp: buckets_of_def)
      ultimately have "buckets_ok removeSize stale (x # seen) (oldest, n)" using Cons.prems(3) by (auto simp: buckets_ok_def acc)
      then show ?thesis using skip no some by (auto simp: x acc)
    qed
  qed
  then obtain acc1 where a: "collectSizeStale_loop removeSize stale (x # m) acc = collectSizeStale_loop removeSize stale m acc1"
    "buckets_ok removeSize stale (x # seen) acc1" by blast
  from Cons.IH [OF dist rest a(2)] show ?case unfolding a(1) by simp
qed

lemma stale_ok_insert_all:
  assumes "stale_ok m (ks, n)" and "distinct (map (\<lambda>b. fst (snd b)) bs)"
    and "\<And>time key entry. (time, key, entry) \<in> set bs \<Longrightarrow> m key = Some entry \<and> key \<notin> set ks"
  shows "stale_ok m (foldl (\<lambda>s b. fst (flat_set_insert (<) (fst (snd b)) s)) ks bs, n + bucket_sizes bs)
    \<and> set (foldl (\<lambda>s b. fst (flat_set_insert (<) (fst (snd b)) s)) ks bs) = set ks \<union> (\<lambda>b. fst (snd b)) ` set bs"
  using assms
proof (induction bs arbitrary: ks n)
  case (Cons b bs)
  obtain time key entry where b: "b = (time, key, entry)" by (cases b)
  have m: "m key = Some entry" "key \<notin> set ks" using Cons.prems(3) by (auto simp: b)
  have s: "sorted_wrt (<) ks" using Cons.prems(1) by (simp add: stale_ok_def)
  note ins = lin.insert_set_eq [OF s, of key]
  have rest: "m k = Some e \<and> k \<notin> set (fst (flat_set_insert (<) key ks))" if "(t, k, e) \<in> set bs" for t k e
    using that Cons.prems(2) Cons.prems(3) [of t k e] by (auto simp: ins b image_iff)
  have "distinct (map (\<lambda>b. fst (snd b)) bs)" using Cons.prems(2) by simp
  from Cons.IH [OF stale_ok_insert [OF Cons.prems(1) m] this rest] show ?case by (simp add: b ins add.assoc)
qed simp

lemma collectSizeStale_spec:
  assumes fine: "index_ok d" and io: "io_fine io" and stale: "stale_ok (map_of (ix_map d)) stale"
    and total: "ix_totalSize d = sizes_of (map_of (ix_map d)) (dom (map_of (ix_map d)))"
  shows "\<exists>stale'. collectSizeStale io stale d = Some stale' \<and> stale_ok (map_of (ix_map d)) stale' \<and> set (fst stale) \<subseteq> set (fst stale')
    \<and> (0 < totalSizeLimit (ix_settings d) \<longrightarrow> ix_totalSize d - snd stale' \<le> totalSizeLimit (ix_settings d))"
proof -
  let ?m = "map_of (ix_map d)" and ?limit = "totalSizeLimit (ix_settings d)" and ?xs = "io_order io (ix_map d)"
  define remove where "remove = (if 0 < ?limit then ix_totalSize d - snd stale - ?limit else 0)"
  have c: "collectSizeStale io stale d = (if remove \<le> 0 then Some stale
         else map_option (\<lambda>(oldest, oldestTotal).
             (foldl (\<lambda>s bucket. fst (flat_set_insert (<) (fst (snd bucket)) s)) (fst stale) oldest, snd stale + oldestTotal))
           (collectSizeStale_loop remove (fst stale) ?xs ([], 0)))" by (simp add: collectSizeStale_def remove_def Let_def)
  show ?thesis
  proof (cases "remove \<le> 0")
    case True
    then show ?thesis using stale by (auto simp: c remove_def split: if_splits)
  next
    case False
    then have l: "0 < ?limit" "remove = ix_totalSize d - snd stale - ?limit" by (auto simp: remove_def split: if_splits)
    note o = io_order_map [OF io index_okD(1) [OF fine]]
    have s: "sorted_wrt (<) (fst stale)" using stale by (simp add: stale_ok_def)
    have pos: "\<forall>b \<in> set ?xs. 0 < en_size (snd b)" using o(3) index_okD(2) [OF fine] by auto
    have start: "buckets_ok remove (fst stale) [] ([], 0)" by (simp add: buckets_ok_def buckets_of_def)
    have dist: "distinct (map fst [] @ map fst ?xs)" using o(1) by simp
    have "0 < remove" using False by linarith
    from collectSizeStale_loop_spec [OF s dist pos start this] obtain oldest n where
      r: "collectSizeStale_loop remove (fst stale) ?xs ([], 0) = Some (oldest, n)" "buckets_ok remove (fst stale) (rev ?xs) (oldest, n)"
      by auto
    have n: "n = bucket_sizes oldest" "distinct (map (\<lambda>b. fst (snd b)) oldest)" "set (map snd oldest) \<subseteq> buckets_of (fst stale) (rev ?xs)"
      "remove \<le> n \<or> set (map snd oldest) = buckets_of (fst stale) (rev ?xs)" using r(2) by (auto simp: buckets_ok_def)
    have mem: "?m key = Some entry \<and> key \<notin> set (fst stale)" if "(time, key, entry) \<in> set oldest" for time key entry
      using that n(3) o(3) by (force simp: buckets_of_def)
    let ?ks = "foldl (\<lambda>s b. fst (flat_set_insert (<) (fst (snd b)) s)) (fst stale) oldest"
    have st: "stale_ok ?m (fst stale, snd stale)" using stale by simp
    have all: "stale_ok ?m (?ks, snd stale + n)" "set ?ks = set (fst stale) \<union> (\<lambda>b. fst (snd b)) ` set oldest"
      using stale_ok_insert_all [OF st n(2) mem] n(1) by auto
    have "ix_totalSize d - (snd stale + n) \<le> ?limit"
    proof (cases "remove \<le> n")
      case True
      then show ?thesis using l by simp
    next
      case few: False
      then have every: "set (map snd oldest) = buckets_of (fst stale) (rev ?xs)" using n(4) by blast
      have "dom ?m \<subseteq> set ?ks"
      proof
        fix key assume "key \<in> dom ?m"
        then obtain entry where "?m key = Some entry" by auto
        then have "key \<in> set (fst stale) \<or> (key, entry) \<in> set (map snd oldest)" unfolding every using o(3) by (simp add: buckets_of_def)
        then show "key \<in> set ?ks" unfolding all(2) by force
      qed
      moreover have "set ?ks \<subseteq> dom ?m" "snd stale + n = sizes_of ?m (set ?ks)" using all(1) by (simp_all add: stale_ok_def)
      ultimately have "snd stale + n = ix_totalSize d" using total by (metis subset_antisym)
      then show ?thesis using l(1) by simp
    qed
    moreover have "collectSizeStale io stale d = Some (?ks, snd stale + n)"
      using False r(1) by (simp add: c)
    ultimately show ?thesis using all by auto
  qed
qed

section \<open>Removing what is stale\<close>

lemma restrict_map_all [simp]: "m |` UNIV = m"
  by (simp add: fun_eq_iff)

lemma remove_all_fine:
  assumes c: "ctr_mode block c" and fine: "db_fine block c clean d" and clock: "clock_fine io d"
  shows "\<exists>d'. remove_all c io ks d = Some d' \<and> good_step block c clean io d d' \<and> map_of (ix_map d') = map_of (ix_map d) |` (- set ks)
    \<and> db_stale d' = db_stale d"
  using fine clock
proof (induction ks arbitrary: d)
  case Nil
  then show ?case by (simp add: good_step_refl)
next
  case (Cons key ks)
  obtain e d1 where r: "db_remove c io key d = Some (e, d1)" "good_step block c clean io d d1"
    "map_of (ix_map d1) = (map_of (ix_map d))(key := None)" "db_stale d1 = db_stale d"
    using remove_good [OF c Cons.prems, of key] by blast
  obtain d' where a: "remove_all c io ks d1 = Some d'" "good_step block c clean io d1 d'"
    "map_of (ix_map d') = map_of (ix_map d1) |` (- set ks)" "db_stale d' = db_stale d1"
    using Cons.IH [OF good_stepD(1,2) [OF r(2)]] by blast
  have "map_of (ix_map d') = map_of (ix_map d) |` (- set (key # ks))" by (auto simp: a(3) r(3) restrict_map_def fun_eq_iff)
  then show ?case using r a good_step_trans [OF r(2) a(2)] by simp
qed

lemma good_step_stale: "good_step block c clean io (d\<lparr>db_stale := ks\<rparr>) d' = good_step block c clean io d d'"
  by (simp add: good_step_def db_frame_def keeps_free_def isFreePlace_def placePath_def)

lemma pushStats_fields [simp]:
  "db_stale (pushStats d) = db_stale d" "ix_map (pushStats d) = ix_map d" "ix_settings (pushStats d) = ix_settings d"
  "ix_totalSize (pushStats d) = ix_totalSize d"
  by (simp_all add: pushStats_def)

lemma pushStats_good: "good_step block c clean io d d1 \<Longrightarrow> good_step block c clean io d (pushStats d1)"
  using good_step_fields(5) by (auto simp: pushStats_def)

lemma clearStaleNow_fine:
  assumes c: "ctr_mode block c" and fine: "db_fine block c clean d" and clock: "clock_fine io d" and stale: "db_stale d = []"
  shows "\<exists>d'. clearStaleNow c io ks d = Some d' \<and> good_step block c clean io d d' \<and> map_of (ix_map d') = map_of (ix_map d) |` (- set ks)
    \<and> db_stale d' = []"
proof (cases "ks = []")
  case True
  then show ?thesis using good_step_refl [OF fine clock] stale by (simp add: clearStaleNow_def)
next
  case False
  let ?d0 = "pushStats (d\<lparr>db_stale := db_stale d @ [hd ks]\<rparr>)"
  have g0: "good_step block c clean io d ?d0"
    using good_step_refl [OF fine clock] good_step_fields(1) pushStats_good by blast
  obtain d1 where r: "remove_all c io ks ?d0 = Some d1" "good_step block c clean io ?d0 d1"
    "map_of (ix_map d1) = map_of (ix_map ?d0) |` (- set ks)" using remove_all_fine [OF c good_stepD(1,2) [OF g0]] by blast
  have "good_step block c clean io d (d1\<lparr>db_stale := []\<rparr>)" using good_step_trans [OF g0 r(2)] good_step_fields(1) by blast
  from optimize_step [OF this] obtain d' where "optimize io (d1\<lparr>db_stale := []\<rparr>) = Some d'" "good_step block c clean io d d'"
    "db_stale d' = []" "ix_map d' = ix_map d1" by auto
  then show ?thesis using False r by (auto simp: clearStaleNow_def)
qed

lemma clearStaleChunk_fine:
  assumes c: "ctr_mode block c" and fine: "db_fine block c clean d" and clock: "clock_fine io d"
  shows "\<exists>d'. clearStaleChunk c io d = Some d' \<and> good_step block c clean io d d'
    \<and> set (db_stale d') \<subseteq> set (db_stale d) \<and> (db_stale d \<noteq> [] \<longrightarrow> length (db_stale d') < length (db_stale d))
    \<and> map_of (ix_map d') |` (- set (db_stale d')) = map_of (ix_map d) |` (- set (db_stale d))
    \<and> (\<forall>key. map_of (ix_map d') key = map_of (ix_map d) key \<or> key \<in> set (db_stale d) \<and> map_of (ix_map d') key = None)"
proof (cases "db_stale d = []")
  case True
  then show ?thesis using good_step_refl [OF fine clock] by (simp add: clearStaleChunk_def)
next
  case False
  let ?left = "length (db_stale d) - nat (min (int (length (db_stale d))) (staleRemoveChunk (ix_settings d)))"
  have pos: "0 < staleRemoveChunk (ix_settings d)" using settings_fineD(5) [OF db_fineD(2) [OF fine]] .
  then have less: "?left < length (db_stale d)" using False by simp
  obtain d1 where r: "remove_all c io (drop ?left (db_stale d)) d = Some d1" "good_step block c clean io d d1"
    "map_of (ix_map d1) = map_of (ix_map d) |` (- set (drop ?left (db_stale d)))" "db_stale d1 = db_stale d"
    using remove_all_fine [OF c fine clock] by blast
  let ?d2 = "d1\<lparr>db_stale := take ?left (db_stale d1)\<rparr>"
  have g2: "good_step block c clean io d ?d2" using r(2) good_step_fields(1) by blast
  have "\<exists>d'. (if db_stale ?d2 = [] then optimize io ?d2 else Some (clearStaleChunkDelayed ?d2)) = Some d' \<and> good_step block c clean io d d'
      \<and> db_stale d' = db_stale ?d2 \<and> ix_map d' = ix_map ?d2"
    using optimize_step [OF g2] g2 good_step_fields(4) [OF g2] by (auto simp: clearStaleChunkDelayed_def)
  then obtain d' where d': "(if db_stale ?d2 = [] then optimize io ?d2 else Some (clearStaleChunkDelayed ?d2)) = Some d'"
    "good_step block c clean io d d'" "db_stale d' = db_stale ?d2" "ix_map d' = ix_map ?d2" by blast
  have "clearStaleChunk c io d = Some d'"
    using False r(1) d'(1) by (simp add: clearStaleChunk_def Let_def)
  moreover have s': "db_stale d' = take ?left (db_stale d)" using d'(3) r(4) by simp
  moreover have "set (db_stale d) = set (take ?left (db_stale d)) \<union> set (drop ?left (db_stale d))"
    by (metis append_take_drop_id set_append)
  then have "map_of (ix_map d') |` (- set (db_stale d')) = map_of (ix_map d) |` (- set (db_stale d))"
    unfolding s' d'(4) by (simp add: r(3) Int_commute)
  moreover have "map_of (ix_map d') key = map_of (ix_map d) key \<or> key \<in> set (db_stale d) \<and> map_of (ix_map d') key = None" for key
    using set_drop_subset [of ?left "db_stale d"] by (auto simp: d'(4) r(3) restrict_map_def)
  ultimately show ?thesis using d'(2) less set_take_subset [of ?left "db_stale d"] by (intro exI [of _ d']) simp
qed

text \<open>Every chunk removes something, so that the loop ends.\<close>

lemma clear_all_stale_fine:
  assumes c: "ctr_mode block c" and fine: "db_fine block c clean d" and clock: "clock_fine io d"
  shows "\<exists>d'. clear_all_stale c io d = Some d' \<and> good_step block c clean io d d' \<and> db_stale d' = []
    \<and> map_of (ix_map d') = map_of (ix_map d) |` (- set (db_stale d))"
  using fine clock
proof (induction "length (db_stale d)" arbitrary: d rule: less_induct)
  case less
  show ?case
  proof (cases "db_stale d = []")
    case True
    then show ?thesis using good_step_refl [OF less.prems] by (subst clear_all_stale.simps) simp
  next
    case False
    obtain d1 where r: "clearStaleChunk c io d = Some d1" "good_step block c clean io d d1" "length (db_stale d1) < length (db_stale d)"
      "map_of (ix_map d1) |` (- set (db_stale d1)) = map_of (ix_map d) |` (- set (db_stale d))"
      using clearStaleChunk_fine [OF c less.prems] False by blast
    obtain d' where "clear_all_stale c io d1 = Some d'" "good_step block c clean io d1 d'" "db_stale d' = []"
      "map_of (ix_map d') = map_of (ix_map d1) |` (- set (db_stale d1))"
      using less.hyps [OF r(3) good_stepD(1,2) [OF r(2)]] by blast
    then show ?thesis using False r good_step_trans [OF r(2)] by (subst clear_all_stale.simps) auto
  qed
qed

lemma db_waitForCleaner_fine:
  assumes "ctr_mode block c" and "db_fine block c clean d" and "clock_fine io d"
  shows "\<exists>called d'. db_waitForCleaner c io d = Some (called, d') \<and> good_step block c clean io d d' \<and> db_stale d' = []
    \<and> map_of (ix_map d') = map_of (ix_map d) |` (- set (db_stale d)) \<and> called = (\<not> db_cleaner d')"
proof -
  obtain d1 where r: "clear_all_stale c io d = Some d1" "good_step block c clean io d d1" "db_stale d1 = []"
    "map_of (ix_map d1) = map_of (ix_map d) |` (- set (db_stale d))" using clear_all_stale_fine [OF assms] by blast
  have "good_step block c clean io d (d1\<lparr>db_cleanerDone := True\<rparr>)" using good_step_fields(6) [OF r(2)] .
  then show ?thesis using r by (auto simp: db_waitForCleaner_def)
qed

section \<open>Pruning\<close>

lemma minimal_good:
  assumes "db_fine block c clean d" and "clock_fine io d" and "t \<noteq> 0 \<longrightarrow> 0 < n"
  shows "good_step block c clean io d (d\<lparr>ix_minimalTime := t, ix_minimalCount := n\<rparr>)"
proof -
  let ?d = "d\<lparr>ix_minimalTime := t, ix_minimalCount := n\<rparr>"
  have "index_ok ?d" using db_fineD(1) [OF assms(1)] assms(3) by (simp add: index_ok_def)
  moreover have "binlog_ok ?d = binlog_ok d" "binlog_content block c clean ?d st = binlog_content block c clean d st" for st
    by (simp_all add: binlog_ok_def binlogPath_def binlog_content_def)
  ultimately have "db_fine block c clean ?d" using assms(1) by (simp add: db_fine_def replays_to_def)
  then show ?thesis using assms(2) by (simp add: good_step_def db_frame_def keeps_free_def isFreePlace_def placePath_def clock_fine_def)
qed

lemma startStaleClear_fine:
  assumes c: "ctr_mode block c" and g: "good_step block c clean io d d1"
  shows "\<exists>d'. startStaleClear c io d1 = Some d' \<and> good_step block c clean io d d' \<and> set (db_stale d') \<subseteq> set (db_stale d1)
    \<and> map_of (ix_map d') |` (- set (db_stale d')) = map_of (ix_map d1) |` (- set (db_stale d1))
    \<and> (\<forall>key. map_of (ix_map d') key = map_of (ix_map d1) key \<or> key \<in> set (db_stale d1) \<and> map_of (ix_map d') key = None)"
proof -
  have g0: "good_step block c clean io d (pushStats d1)" by (rule pushStats_good [OF g])
  from clearStaleChunk_fine [OF c good_stepD(1,2) [OF g0]] obtain d' where d':
    "clearStaleChunk c io (pushStats d1) = Some d'" "good_step block c clean io (pushStats d1) d'" "set (db_stale d') \<subseteq> set (db_stale d1)"
    "map_of (ix_map d') |` (- set (db_stale d')) = map_of (ix_map d1) |` (- set (db_stale d1))"
    "\<forall>key. map_of (ix_map d') key = map_of (ix_map d1) key \<or> key \<in> set (db_stale d1) \<and> map_of (ix_map d') key = None" by auto
  then show ?thesis using good_step_trans [OF g0] by (auto simp: startStaleClear_def)
qed

lemma db_prune_fine:
  assumes c: "ctr_mode block c" and fine: "db_fine block c clean d" and clock: "clock_fine io d" and io: "io_fine io" and none: "db_stale d = []"
  shows "\<exists>d' stale. db_prune c io d = Some d' \<and> good_step block c clean io d d'
    \<and> stale_ok (map_of (ix_map d)) stale \<and> map_of (ix_map d') |` (- set (db_stale d')) = map_of (ix_map d) |` (- set (fst stale))
    \<and> (0 < totalSizeLimit (ix_settings d) \<longrightarrow> ix_totalSize d - snd stale \<le> totalSizeLimit (ix_settings d))
    \<and> (totalTimeLimit (ix_settings d) \<noteq> 0 \<and> ix_minimalTime d \<noteq> 0 \<and> ix_minimalTime d \<le> pruneBeforeTime io d \<longrightarrow>
        {key. \<exists>entry. map_of (ix_map d) key = Some entry \<and> en_useTime entry \<le> pruneBeforeTime io d} \<subseteq> set (fst stale))
    \<and> (\<exists>stale0 d1. collectTimeStale io ([], 0) d = (stale0, d1) \<and> collectSizeStale io stale0 d1 = Some stale)"
proof -
  note f = db_fineD [OF fine]
  obtain stale0 d1 where t: "collectTimeStale io ([], 0) d = (stale0, d1)" by (cases "collectTimeStale io ([], 0) d")
  note ts = collectTimeStale_spec [OF f(1) io t]
  obtain ti n where d1: "d1 = d\<lparr>ix_minimalTime := ti, ix_minimalCount := n\<rparr>" "ti \<noteq> 0 \<longrightarrow> 0 < n" using ts(2) by blast
  have g1: "good_step block c clean io d d1" unfolding d1(1) by (rule minimal_good [OF fine clock d1(2)])
  have same: "ix_map d1 = ix_map d" "ix_settings d1 = ix_settings d" "ix_totalSize d1 = ix_totalSize d" "db_stale d1 = []"
    using none by (simp_all add: d1(1))
  have "stale_ok (map_of (ix_map d1)) stale0" using ts(1) same(1) by simp
  from collectSizeStale_spec [OF db_fineD(1) [OF good_stepD(1) [OF g1]] io this index_total [OF db_fineD(1) [OF good_stepD(1) [OF g1]]]]
  obtain stale where s: "collectSizeStale io stale0 d1 = Some stale" "stale_ok (map_of (ix_map d)) stale" "set (fst stale0) \<subseteq> set (fst stale)"
    "0 < totalSizeLimit (ix_settings d) \<longrightarrow> ix_totalSize d - snd stale \<le> totalSizeLimit (ix_settings d)" by (auto simp: same)
  have "\<exists>d'. db_prune c io d = Some d' \<and> good_step block c clean io d d'
      \<and> map_of (ix_map d') |` (- set (db_stale d')) = map_of (ix_map d) |` (- set (fst stale))"
  proof (cases "int (length (fst stale)) \<le> staleRemoveChunk (ix_settings d)")
    case True
    obtain d' where "clearStaleNow c io (fst stale) d1 = Some d'" "good_step block c clean io d1 d'"
      "map_of (ix_map d') = map_of (ix_map d1) |` (- set (fst stale))" "db_stale d' = []"
      using clearStaleNow_fine [OF c good_stepD(1,2) [OF g1] same(4)] by blast
    then show ?thesis using True none t s(1) same good_step_trans [OF g1] by (auto simp: db_prune_def)
  next
    case False
    have "good_step block c clean io d (d1\<lparr>db_stale := fst stale\<rparr>)" using g1 good_step_fields(1) by blast
    from startStaleClear_fine [OF c this] obtain d' where "startStaleClear c io (d1\<lparr>db_stale := fst stale\<rparr>) = Some d'"
      "good_step block c clean io d d'" "map_of (ix_map d') |` (- set (db_stale d')) = map_of (ix_map d) |` (- set (fst stale))"
      by (auto simp: same)
    then show ?thesis using False none t s(1) same by (auto simp: db_prune_def)
  qed
  then show ?thesis using s ts(3) t by blast
qed

end
