(* ===== verification/CacheReopen.thy ===== *)
theory CacheReopen
  imports CachePruning
begin

text \<open>
  Opening the disk cache: the records of the binlog give the map again, and the invariant holds.
\<close>

section \<open>Reading the records\<close>

lemma kind_ok:
  assumes "records_fit settings (r # rs)"
  shows "record_kind_ok settings r" "record_fits (maxBundledRecords settings) r" "records_fit settings rs"
  using assms by (auto simp: records_fit_def record_kind_ok_def binlog_kinds_def split: binlog_record.splits if_splits)

lemma MultiStore_time:
  assumes step: "\<And>r ix ix'. P r \<Longrightarrow> index_ok ix \<Longrightarrow> process r ix = Some (True, ix') \<Longrightarrow> time_ok (ix_time ix) \<Longrightarrow> time_ok (ix_time ix') \<and> index_ok ix'"
    and "list_all P rs" and "index_ok ix" and "processRecordMultiStore process rs ix = Some (True, ix')" and "time_ok (ix_time ix)"
  shows "time_ok (ix_time ix')"
  using assms(2-)
proof (induction rs arbitrary: ix)
  case (Cons r rs)
  obtain ix1 where "process r ix = Some (True, ix1)" "processRecordMultiStore process rs ix1 = Some (True, ix')"
    using Cons.prems(3) by (auto simp: bind_eq_Some_conv split: if_splits)
  then show ?case using step [of r ix ix1] Cons by auto
qed simp

lemma store_time:
  assumes "index_ok ix" and "processRecordStore rec0 ix = Some (True, ix')" and "time_ok (ix_time ix)"
  shows "time_ok (ix_time ix') \<and> index_ok ix'"
  using processRecordStore_time [OF assms(1,2)] processRecordStore_refines [OF assms(1), of rec0] assms(2,3)
  by (auto simp: refines_effect_def)

lemma store_with_time_time:
  assumes "time_ok (store_time rec0)" and "index_ok ix" and "processRecordStoreWithTime rec0 ix = Some (True, ix')" and "time_ok (ix_time ix)"
  shows "time_ok (ix_time ix') \<and> index_ok ix'"
  using processRecordStoreWithTime_time [OF assms(2,3)] processRecordStoreWithTime_refines [OF assms(2), of rec0] assms(1,3,4)
  by (auto simp: refines_effect_def applyTimePoint_def split: if_splits)

lemma handle_record_time:
  assumes ix: "index_ok ix" and h: "handle_record r ix = Some (True, ix')" and fit: "record_fits limit r" and t: "time_ok (ix_time ix)"
  shows "time_ok (ix_time ix')"
proof (cases r)
  case (RecordStore rec0)
  then show ?thesis using store_time [OF ix] h t by (simp add: handle_record_def)
next
  case (RecordStoreWithTime rec0)
  then show ?thesis using store_with_time_time [OF _ ix, of rec0 ix'] h t fit by (simp add: handle_record_def)
next
  case (RecordMultiStore records)
  then have "list_all (\<lambda>_. True) records" "processRecordMultiStore processRecordStore records ix = Some (True, ix')"
    using h by (simp_all add: handle_record_def list_all_iff)
  from MultiStore_time [OF _ this(1) ix this(2) t] show ?thesis using store_time by blast
next
  case (RecordMultiStoreWithTime records)
  then have "list_all (\<lambda>r. time_ok (store_time r)) records" "processRecordMultiStore processRecordStoreWithTime records ix = Some (True, ix')"
    using h fit by (auto simp: handle_record_def list_all_iff)
  from MultiStore_time [OF _ this(1) ix this(2) t] show ?thesis using store_with_time_time by blast
next
  case (RecordMultiRemove ks)
  have "index_ok (ix\<lparr>ix_excess := ix_excess ix + 16\<rparr>)" using excess_ok [OF ix] by simp
  from remove_elements_ok [OF this, of ks] show ?thesis
    using RecordMultiRemove h t by (auto simp: handle_record_def processRecordMultiRemove_def)
next
  case (RecordMultiAccess time ks)
  let ?ix = "(applyTimePoint time ix)\<lparr>ix_excess := ix_excess ix + 16\<rparr>"
  have "ix_time ix' = ix_time ?ix"
    using RecordMultiAccess h by (auto simp: handle_record_def processRecordMultiAccess_def Let_def access_elements_entries split: if_splits)
  then show ?thesis using RecordMultiAccess fit t by (auto simp: applyTimePoint_def)
qed

lemma fold_handle:
  assumes "index_ok ix" and "records_fit (ix_settings ix) rs" and "all_effects (record_effect (ix_settings ix)) rs (index_content ix) = (True, st)"
    and "time_ok (ix_time ix)"
  shows "\<exists>ix'. fold_records handle_record rs ix = Some (True, ix') \<and> index_content ix' = st \<and> index_ok ix' \<and> index_frame ix ix'
    \<and> time_ok (ix_time ix')"
  using assms
proof (induction rs arbitrary: ix)
  case Nil
  then show ?case by simp
next
  case (Cons r rs)
  note k = kind_ok [OF Cons.prems(2)]
  obtain st1 where e: "record_effect (ix_settings ix) r (index_content ix) = (True, st1)"
    "all_effects (record_effect (ix_settings ix)) rs st1 = (True, st)"
    using Cons.prems(3) by (auto split: prod.splits if_splits)
  obtain ix1 where h: "handle_record r ix = Some (True, ix1)" "index_content ix1 = st1" "index_ok ix1" "index_frame ix ix1"
    using handle_record_refines [OF Cons.prems(1) k(1)] e(1) by (auto simp: refines_effect_def)
  have s: "ix_settings ix1 = ix_settings ix" using h(4) by (simp add: index_frame_def)
  have "time_ok (ix_time ix1)" by (rule handle_record_time [OF Cons.prems(1) h(1) k(2) Cons.prems(4)])
  from Cons.IH [OF h(3) _ _ this] obtain ix' where "fold_records handle_record rs ix1 = Some (True, ix')" "index_content ix' = st"
    "index_ok ix'" "index_frame ix1 ix'" "time_ok (ix_time ix')" using k(3) e(2) h(2) s by auto
  then show ?case using h(1) index_frame_trans [OF h(4)] by auto
qed

section \<open>Entries from records\<close>

definition content_fine :: "Settings \<Rightarrow> content \<Rightarrow> bool" where
  "content_fine settings st \<longleftrightarrow> (\<forall>key entry. fst st key = Some entry \<longrightarrow> entry_fine settings entry) \<and> snd st < 2 ^ 64"

lemma content_fine_store:
  assumes "content_fine settings st" and "store_ok r" and "size_fits settings r" and "time < 2 ^ 64" and "time' < 2 ^ 64"
  shows "content_fine settings ((fst st)(store_key r \<mapsto> stored_entry r time), time')"
  using assms by (auto simp: content_fine_def entry_fine_def stored_entry_def size_fits_def store_ok_def)

lemma all_effects_fine:
  assumes "\<And>r st st'. P r \<Longrightarrow> content_fine settings st \<Longrightarrow> eff r st = (True, st') \<Longrightarrow> content_fine settings st'"
    and "list_all P rs" and "content_fine settings st" and "all_effects eff rs st = (True, st')"
  shows "content_fine settings st'"
  using assms(2-)
proof (induction rs arbitrary: st)
  case (Cons r rs)
  obtain st1 where "eff r st = (True, st1)" "all_effects eff rs st1 = (True, st')"
    using Cons.prems(3) by (auto split: prod.splits if_splits)
  then show ?case using assms(1) [of r st st1] Cons by auto
qed simp

lemma store_effect_fine:
  assumes "store_ok r" and "content_fine settings st" and "store_effect settings r st = (True, st')"
  shows "content_fine settings st'"
  using content_fine_store [OF assms(2,1), of "snd st" "snd st"] assms(2,3)
  by (auto simp: store_effect_def content_fine_def split: if_splits)

lemma store_with_time_effect_fine:
  assumes "store_ok r \<and> time_ok (store_time r)" and "content_fine settings st" and "store_with_time_effect settings r st = (True, st')"
  shows "content_fine settings st'"
  using content_fine_store [of settings st r "tp_relative (store_time r)" "max (snd st) (tp_relative (store_time r))"] assms
  by (auto simp: store_with_time_effect_def content_fine_def time_ok_def Let_def split: if_splits)

lemma record_effect_fine:
  assumes fit: "record_fits limit r" and fine: "content_fine settings st" and e: "record_effect settings r st = (True, st')"
  shows "content_fine settings st'"
proof (cases r)
  case (RecordStore rec0)
  then show ?thesis using store_effect_fine [OF _ fine] fit e by (simp add: record_effect_def)
next
  case (RecordStoreWithTime rec0)
  then show ?thesis using store_with_time_effect_fine [OF _ fine] fit e by (simp add: record_effect_def)
next
  case (RecordMultiStore records)
  then have "list_all store_ok records" "all_effects (store_effect settings) records st = (True, st')"
    using fit e by (simp_all add: record_effect_def)
  from all_effects_fine [OF store_effect_fine this(1) fine this(2)] show ?thesis .
next
  case (RecordMultiStoreWithTime records)
  then have "list_all (\<lambda>r. store_ok r \<and> time_ok (store_time r)) records" "all_effects (store_with_time_effect settings) records st = (True, st')"
    using fit e by (simp_all add: record_effect_def)
  from all_effects_fine [OF store_with_time_effect_fine this(1) fine this(2)] show ?thesis .
next
  case (RecordMultiRemove ks)
  then show ?thesis using fine e by (auto simp: record_effect_def content_fine_def restrict_map_def split: if_splits)
next
  case (RecordMultiAccess time ks)
  then show ?thesis
    using fine e fit by (auto simp: record_effect_def content_fine_def accessed_at_def entry_fine_def time_ok_def split: if_splits)
qed

lemma replays_fine:
  assumes "replays settings rs time st" and "time < 2 ^ 64"
  shows "content_fine settings st"
proof -
  have fit: "list_all (record_fits (maxBundledRecords settings)) rs" using assms(1) by (auto simp: replays_def records_fit_def list_all_iff)
  have start: "content_fine settings (Map.empty, time)" using assms(2) by (simp add: content_fine_def)
  have "all_effects (record_effect settings) rs (Map.empty, time) = (True, st)" using assms(1) by (simp add: replays_def)
  from all_effects_fine [OF record_effect_fine fit start this] show ?thesis .
qed

section \<open>Reading the binlog\<close>

lemma header_read_back:
  assumes "binlog_start settings start time"
  shows "basic_header_of_bytes start = \<lparr>bh_format = 0, bh_flags = (if trackEstimatedTime settings then 1 else 0), bh_systemTime = time\<rparr>"
proof -
  have "time < 256 ^ 4" using assms by (simp add: binlog_start_def)
  then show ?thesis
    using assms by (simp add: binlog_start_def basic_header_of_bytes_def bytes_of_basic_header_def ReadFrom_pack)
qed

text \<open>
  A database that has an open binlog after its header, and nothing yet; the result of reading it.
\<close>

definition before_reading :: "(bytes \<Rightarrow> bytes \<Rightarrow> bytes) \<Rightarrow> crypto \<Rightarrow> binlog_record list \<Rightarrow> content \<Rightarrow> Database \<Rightarrow> bool" where
  "before_reading block c rs st d \<longleftrightarrow>
     (\<exists>start time. binlog_start (ix_settings d) start time \<and> replays (ix_settings d) rs time st \<and> tp_relative (ix_time d) = time
       \<and> file_rep block c (db_key d) (db_binlog d) (start @ bytes_of_records rs) 16 (16 + length (bytes_of_records rs)))
     \<and> index_ok d \<and> ix_map d = [] \<and> time_ok (ix_time d) \<and> db_removing d = [] \<and> db_accessed d = []
     \<and> settings_fine (ix_settings d) \<and> db_disk d (db_binlogAt d) = Some (f_data (db_binlog d)) \<and> db_binlogAt d = binlogPath d"

lemma read_records:
  assumes c: "ctr_mode block c" and b: "before_reading block c rs st d"
  shows "\<exists>w d1. readBinlogHelper c (binlog_kinds (trackEstimatedTime (ix_settings d))) handle_record
      (BinlogWrapper_new (db_binlog d) (ix_settings d) 0) d = Some (w, d1)
    \<and> db_fine block c True (d1\<lparr>db_binlog := bw_binlog w\<rparr>) \<and> index_frame d d1 \<and> index_content d1 = st
    \<and> f_isOpen (bw_binlog w) \<and> f_data (bw_binlog w) = f_data (db_binlog d) \<and> f_results (bw_binlog w) = f_results (db_binlog d)
    \<and> (rs = [] \<longrightarrow> d1 = d \<and> File_offset (bw_binlog w) = 16)"
proof -
  let ?s = "ix_settings d"
  obtain start time where h: "binlog_start ?s start time" "replays ?s rs time st" "tp_relative (ix_time d) = time"
    "file_rep block c (db_key d) (db_binlog d) (start @ bytes_of_records rs) 16 (16 + length (bytes_of_records rs))"
    using b by (auto simp: before_reading_def)
  have d: "index_ok d" "ix_map d = []" "time_ok (ix_time d)" "db_removing d = []" "db_accessed d = []" "settings_fine ?s"
    "db_disk d (db_binlogAt d) = Some (f_data (db_binlog d))" "db_binlogAt d = binlogPath d"
    using b by (auto simp: before_reading_def)
  have fit: "records_fit ?s rs" and eff: "all_effects (record_effect ?s) rs (index_content d) = (True, st)"
    using h(2,3) d(2) by (simp_all add: replays_def index_content_def)
  obtain d1 where d1: "fold_records handle_record rs d = Some (True, d1)" "index_content d1 = st" "index_ok d1" "index_frame d d1"
    "time_ok (ix_time d1)" using fold_handle [OF d(1) fit eff d(3)] by blast
  have l: "length start = 16" by (rule length_binlog_start [OF h(1)])
  have cut: "cut_record ?s []" by (simp add: cut_record_def)
  have "take (16 + length (bytes_of_records rs) - 16) (drop 16 (start @ bytes_of_records rs)) = bytes_of_records rs @ []" using l by simp
  then have run: "run_records (binlog_kinds (trackEstimatedTime ?s)) ?s handle_record
      (take (16 + length (bytes_of_records rs) - 16) (drop 16 (start @ bytes_of_records rs))) d =
      Some (d1, length (bytes_of_records rs), False)" using run_written [OF fit cut d1(1)] by simp
  have rs: "reader_settings (binlog_kinds (trackEstimatedTime ?s)) ?s" using d(6) by (simp add: settings_fine_def)
  obtain w where w: "readBinlogHelper c (binlog_kinds (trackEstimatedTime ?s)) handle_record (BinlogWrapper_new (db_binlog d) ?s 0) d = Some (w, d1)"
    "file_rep block c (db_key d) (bw_binlog w) (start @ bytes_of_records rs) (16 + length (bytes_of_records rs)) (16 + length (bytes_of_records rs))"
    "f_data (bw_binlog w) = f_data (db_binlog d)" "f_results (bw_binlog w) = f_results (db_binlog d)"
    using read_in_blocks [OF c h(4) _ rs run] by auto
  note v = file_rep_valid [OF w(2)] and e = binlog_content_erase [OF d1(4)]
  let ?d = "d1\<lparr>db_binlog := bw_binlog w\<rparr>"
  have same: "ix_settings ?d = ?s" "db_key ?d = db_key d" "db_disk ?d = db_disk d" "db_binlogAt ?d = db_binlogAt d" "db_folder ?d = db_folder d"
    "db_removing ?d = []" "db_accessed ?d = []" using d1(4) e d(4,5) by (simp_all add: index_frame_def)
  have st: "map_of (ix_map ?d) = fst st" "tp_relative (ix_time ?d) = snd st" using d1(2) by (auto simp: index_content_def)
  have at: "binlog_at block c True ?s (db_key d) (bw_binlog w) st"
    unfolding binlog_at_def using h(1,2) w(2)
    by (intro exI [of _ start] exI [of _ time] exI [of _ rs] exI [of _ "[]"] exI [of _ "16 + length (bytes_of_records rs)"]) simp
  have "replays_to block c True ?d"
    unfolding replays_to_def binlog_content_def same using at st by (intro exI [of _ "fst st"]) (simp add: restrict_map_def)
  moreover have "binlog_ok ?d"
    using v w(3) d(7,8) same by (simp add: binlog_ok_def binlogPath_def)
  moreover have "time < 2 ^ 64" using d(3) h(3) by (simp add: time_ok_def)
  then have "content_fine ?s st" by (rule replays_fine [OF h(2)])
  then have "entry_fine ?s entry" if "map_of (ix_map ?d) key = Some entry" for key entry using that st(1) by (simp add: content_fine_def)
  moreover have "pending_fine ?s []" using settings_fineD(1) [OF d(6)] by (simp add: pending_fine_def)
  ultimately have "db_fine block c True ?d"
    unfolding db_fine_def using d1(3,5) d(6) same by simp
  moreover have "rs = [] \<longrightarrow> d1 = d \<and> File_offset (bw_binlog w) = 16" using d1(1) file_rep_simps(2) [OF w(2)] by auto
  ultimately show ?thesis using w v d1 by blast
qed

text \<open>Writing to the binlog changes no other file.\<close>

definition keeps_files :: "Database \<Rightarrow> Database \<Rightarrow> bool" where
  "keeps_files d d' \<longleftrightarrow>
     db_binlogAt d' = db_binlogAt d \<and> (\<forall>path. path \<noteq> db_binlogAt d \<longrightarrow> db_disk d' path = db_disk d path)"

lemma keeps_files_refl [simp]: "keeps_files d d"
  by (simp add: keeps_files_def)

lemma keeps_files_trans: "keeps_files d d1 \<Longrightarrow> keeps_files d1 d2 \<Longrightarrow> keeps_files d d2"
  by (simp add: keeps_files_def)

lemma keeps_files_fields [simp]:
  "keeps_files d (d'\<lparr>ix_excess := n\<rparr>) = keeps_files d d'" "keeps_files d (d'\<lparr>db_binlog := f\<rparr>) = keeps_files d d'"
  "keeps_files d (d'\<lparr>db_pruneTimer := timer\<rparr>) = keeps_files d d'" "keeps_files d (d'\<lparr>db_compactor := compactor\<rparr>) = keeps_files d d'"
  by (simp_all add: keeps_files_def)

lemma binlog_write_files: "binlog_write c bs d = Some (ok, d') \<Longrightarrow> keeps_files d d'"
  by (auto simp: binlog_write_def set_binlog_def keeps_files_def)

lemma write_bundle_files:
  assumes w: "write_bundle c header ks d = Some (e, d')"
  shows "keeps_files d d'"
proof -
  obtain ok1 d1 where w1: "binlog_write c header d = Some (ok1, d1)" using w by (auto simp: write_bundle_def bind_eq_Some_conv)
  note f1 = binlog_write_files [OF w1]
  show ?thesis
  proof (cases "ok1 \<and> ks \<noteq> []")
    case False
    then show ?thesis using w w1 f1 by (auto simp: write_bundle_def split: if_splits)
  next
    case True
    then obtain ok2 d2 where w2: "binlog_write c (concat (map bytes_of_key ks)) d1 = Some (ok2, d2)"
      using w w1 by (auto simp: write_bundle_def bind_eq_Some_conv)
    have "keeps_files d d2" by (rule keeps_files_trans [OF f1 binlog_write_files [OF w2]])
    then show ?thesis using w w1 w2 True by (auto simp: write_bundle_def split: if_splits)
  qed
qed

lemma writeMultiRemove_files: "writeMultiRemove c d = Some (e, d') \<Longrightarrow> keeps_files d d'"
  using write_bundle_files [of c _ "db_removing d" "d\<lparr>db_removing := []\<rparr>" e d']
  by (auto simp: writeMultiRemove_def bind_eq_Some_conv keeps_files_def split: if_splits)

lemma writeMultiAccessBlock_files:
  assumes "writeMultiAccessBlock c io d = Some (e, d')"
  shows "keeps_files d d'"
proof -
  let ?d0 = "d\<lparr>db_accessed := [], ix_time := countTimePoint io d,
      ix_map := use_entries (tp_relative (countTimePoint io d)) (db_accessed d) (ix_map d)\<rparr>"
  obtain header where "write_bundle c header (db_accessed d) ?d0 = Some (e, d')"
    using assms by (auto simp: writeMultiAccessBlock_def Let_def bind_eq_Some_conv split: if_splits)
  from write_bundle_files [OF this] show ?thesis by (simp add: keeps_files_def)
qed

lemma writeBundles_files:
  assumes "writeBundles c io d = Some d'"
  shows "keeps_files d d'"
proof -
  obtain e d1 where d1: "writeMultiRemove c d = Some (e, d1)" using assms by (auto simp: writeBundles_def bind_eq_Some_conv)
  then show ?thesis
    using assms writeMultiRemove_files [OF d1] writeMultiAccessBlock_files [of c io d1] keeps_files_trans
    by (auto simp: writeBundles_def writeMultiAccess_def split: if_splits)
qed

text \<open>Opening may have to write that the clock went back.\<close>

lemma adjustRelativeTime_fine:
  assumes c: "ctr_mode block c" and fine: "db_fine block c clean d" and none: "db_accessed d = []"
  shows "\<exists>d'. adjustRelativeTime c io d = Some d' \<and> db_fine block c clean d' \<and> db_frame d d' \<and> keeps_files d d'
    \<and> map_of (ix_map d') = map_of (ix_map d) \<and> db_removing d' = db_removing d \<and> db_accessed d' = [] \<and> db_stale d' = db_stale d
    \<and> (tp_system (ix_time d) \<le> GetUnixtime io \<longrightarrow> d' = d)"
proof (cases "trackEstimatedTime (ix_settings d) \<and> GetUnixtime io < tp_system (ix_time d)")
  case False
  then show ?thesis using fine none by (auto simp: adjustRelativeTime_def)
next
  case True
  have clock: "clock_fine io d" using True db_fineD(3) [OF fine] by (simp add: clock_fine_def time_ok_def)
  obtain e d' where w: "writeMultiAccessBlock c io d = Some (e, d')" "good_step block c clean io d d'" "db_accessed d' = []"
    "db_stale d' = db_stale d" "db_removing d' = db_removing d"
    "map_of (ix_map d') = accessed_at (tp_relative (ix_time d')) (set (db_accessed d)) (map_of (ix_map d))"
    using writeMultiAccessBlock_fine [OF c db_fine_accessed [OF fine] _ _ clock] True none settings_fineD(1) [OF db_fineD(2) [OF fine]] by auto
  then show ?thesis using True none writeMultiAccessBlock_files [OF w(1)] by (auto simp: adjustRelativeTime_def good_step_def accessed_at_def)
qed

lemma readBinlog_fine:
  assumes c: "ctr_mode block c" and b: "before_reading block c rs st d"
  shows "\<exists>d'. readBinlog c io d = Some d' \<and> db_fine block c True d' \<and> db_frame d d' \<and> keeps_files d d'
    \<and> map_of (ix_map d') = fst st \<and> db_removing d' = [] \<and> db_accessed d' = [] \<and> db_stale d' = db_stale d
    \<and> (rs = [] \<and> tp_system (ix_time d) \<le> GetUnixtime io \<longrightarrow>
        f_isOpen (db_binlog d') \<and> f_results (db_binlog d') = f_results (db_binlog d) \<and> ix_time d' = ix_time d \<and> File_offset (db_binlog d') = 16)"
proof -
  let ?s = "ix_settings d"
  have d: "db_removing d = []" "db_accessed d = []" "settings_fine ?s" "db_disk d (db_binlogAt d) = Some (f_data (db_binlog d))"
    using b by (auto simp: before_reading_def)
  obtain w d1 where r: "readBinlogHelper c (binlog_kinds (trackEstimatedTime ?s)) handle_record (BinlogWrapper_new (db_binlog d) ?s 0) d = Some (w, d1)"
    "db_fine block c True (d1\<lparr>db_binlog := bw_binlog w\<rparr>)" "index_frame d d1" "index_content d1 = st" "f_isOpen (bw_binlog w)" "f_results (bw_binlog w) = f_results (db_binlog d)" "rs = [] \<longrightarrow> d1 = d \<and> File_offset (bw_binlog w) = 16"
    using read_records [OF assms] by blast
  let ?d1 = "d1\<lparr>db_binlog := bw_binlog w\<rparr>"
  note e = binlog_content_erase [OF r(3)]
  have a1: "db_accessed ?d1 = []" using e(4) d(2) by simp
  obtain d2 where a: "adjustRelativeTime c io ?d1 = Some d2" "db_fine block c True d2" "db_frame ?d1 d2" "keeps_files ?d1 d2"
    "map_of (ix_map d2) = map_of (ix_map ?d1)" "db_removing d2 = db_removing ?d1" "db_accessed d2 = []" "db_stale d2 = db_stale ?d1"
    "tp_system (ix_time ?d1) \<le> GetUnixtime io \<longrightarrow> d2 = ?d1"
    using adjustRelativeTime_fine [OF c r(2) a1] by blast
  obtain timer compactor where o: "optimize io d2 = Some (d2\<lparr>db_pruneTimer := timer, db_compactor := compactor\<rparr>)"
    using optimize_fine by blast
  have k: "CheckSettings (binlog_kinds (trackEstimatedTime ?s)) ?s" using d(3) by (simp add: settings_fine_def reader_settings_def)
  have "readBinlog c io d = Some (d2\<lparr>db_pruneTimer := timer, db_compactor := compactor\<rparr>)"
    using k r(1) a(1) o by (simp add: readBinlog_def Let_def)
  moreover have "db_frame d ?d1" "keeps_files d ?d1" using r(3) e by (simp_all add: db_frame_def index_frame_def keeps_files_def)
  then have "db_frame d d2" "keeps_files d d2" using a(3,4) db_frame_trans keeps_files_trans by blast+
  moreover have "map_of (ix_map d2) = fst st" using a(5) r(4) by (auto simp: index_content_def)
  moreover have "f_isOpen (db_binlog d2) \<and> f_results (db_binlog d2) = f_results (db_binlog d) \<and> ix_time d2 = ix_time d \<and> File_offset (db_binlog d2) = 16"
    if "rs = []" "tp_system (ix_time d) \<le> GetUnixtime io"
    using that a(9) r(5-7) by simp
  ultimately show ?thesis using a(2,6-8) d(1) e(3,8)
    by (intro exI [of _ "d2\<lparr>db_pruneTimer := timer, db_compactor := compactor\<rparr>"]) (simp add: db_frame_def keeps_files_def)
qed

section \<open>Opening the binlog\<close>

text \<open>A database that was not opened, or was closed.\<close>

definition unopened :: "Database \<Rightarrow> bool" where
  "unopened d \<longleftrightarrow> index_ok d \<and> ix_map d = [] \<and> db_removing d = [] \<and> db_accessed d = [] \<and> db_stale d = [] \<and> settings_fine (ix_settings d)"

text \<open>The binlog of a folder on disk, with what its records say.\<close>

definition binlog_on_disk :: "(bytes \<Rightarrow> bytes \<Rightarrow> bytes) \<Rightarrow> crypto \<Rightarrow> Settings \<Rightarrow> bytes \<Rightarrow> int \<Rightarrow> disk \<Rightarrow> content \<Rightarrow> bool" where
  "binlog_on_disk block c settings key version disk st \<longleftrightarrow>
     (\<exists>start time rs data. disk (InFolder (Some version) BinlogFilename) = Some data \<and> binlog_start settings start time \<and> replays settings rs time st
       \<and> disk_holds block c key data (start @ bytes_of_records rs) \<and> length (bytes_of_records rs) < 2 ^ 60)
     \<and> disk (InFolder (Some version) CompactReadyFilename) = None"

definition opened_from :: "(bytes \<Rightarrow> bytes \<Rightarrow> bytes) \<Rightarrow> crypto \<Rightarrow> bytes \<Rightarrow> int \<Rightarrow> (Key \<Rightarrow> Entry option) \<Rightarrow> Database \<Rightarrow> Database \<Rightarrow> bool" where
  "opened_from block c key version m d d' \<longleftrightarrow>
     db_fine block c True d' \<and> ix_settings d' = ix_settings d \<and> db_key d' = key \<and> db_folder d' = Some version
     \<and> map_of (ix_map d') = m \<and> db_removing d' = [] \<and> db_accessed d' = [] \<and> db_stale d' = []
     \<and> (\<forall>path. path \<noteq> InFolder (Some version) BinlogFilename \<longrightarrow> db_disk d' path = db_disk d path)"

lemma createCleaner_fields [simp]:
  "ix_settings (createCleaner d) = ix_settings d" "ix_time (createCleaner d) = ix_time d" "ix_map (createCleaner d) = ix_map d"
  "db_removing (createCleaner d) = db_removing d" "db_accessed (createCleaner d) = db_accessed d" "db_stale (createCleaner d) = db_stale d"
  "db_key (createCleaner d) = db_key d" "db_binlog (createCleaner d) = db_binlog d" "db_folder (createCleaner d) = db_folder d"
  "db_disk (createCleaner d) = db_disk d" "db_binlogAt (createCleaner d) = db_binlogAt d" "index_ok (createCleaner d) = index_ok d"
  by (simp_all add: createCleaner_def pushStatsDelayed_def index_ok_def)

lemma opened_from_reading:
  assumes c: "ctr_mode block c" and b: "before_reading block c rs st d1" and d1: "ix_settings d1 = ix_settings d" "db_key d1 = key"
    "db_folder d1 = Some version" "db_stale d1 = []"
    and disk: "\<forall>path. path \<noteq> InFolder (Some version) BinlogFilename \<longrightarrow> db_disk d1 path = db_disk d path"
  shows "\<exists>d'. readBinlog c io d1 = Some d' \<and> opened_from block c key version (fst st) d d'
    \<and> (rs = [] \<and> tp_system (ix_time d1) \<le> GetUnixtime io \<longrightarrow>
        f_isOpen (db_binlog d') \<and> f_results (db_binlog d') = f_results (db_binlog d1) \<and> ix_time d' = ix_time d1 \<and> File_offset (db_binlog d') = 16)"
proof -
  obtain d' where d': "readBinlog c io d1 = Some d'" "db_fine block c True d'" "db_frame d1 d'" "keeps_files d1 d'"
    "map_of (ix_map d') = fst st" "db_removing d' = []" "db_accessed d' = []" "db_stale d' = db_stale d1"
    "rs = [] \<and> tp_system (ix_time d1) \<le> GetUnixtime io \<longrightarrow>
        f_isOpen (db_binlog d') \<and> f_results (db_binlog d') = f_results (db_binlog d1) \<and> ix_time d' = ix_time d1 \<and> File_offset (db_binlog d') = 16"
    using readBinlog_fine [OF c b] by blast
  have "opened_from block c key version (fst st) d d'"
    using d'(2-8) d1 disk b by (simp add: opened_from_def db_frame_def keeps_files_def before_reading_def binlogPath_def)
  then show ?thesis using d'(1,9) by blast
qed

lemma openBinlog_existing:
  assumes c: "ctr_mode block c" and d: "unopened d" and b: "binlog_on_disk block c (ix_settings d) key version (db_disk d) st"
    and env: "fe_folder (io_open io ReadAppend)" "fe_lock (io_open io ReadAppend) = Locked"
  shows "\<exists>d'. openBinlog c io version ReadAppend key d = Some (Success, d') \<and> opened_from block c key version (fst st) d d'"
proof -
  let ?s = "ix_settings d" and ?path = "InFolder (Some version) BinlogFilename" and ?env = "io_open io ReadAppend"
  obtain start time rs data where h: "db_disk d ?path = Some data" "binlog_start ?s start time" "replays ?s rs time st"
    "disk_holds block c key data (start @ bytes_of_records rs)" "length (bytes_of_records rs) < 2 ^ 60"
    and ready: "db_disk d (InFolder (Some version) CompactReadyFilename) = None" using b by (auto simp: binlog_on_disk_def)
  let ?D = "start @ bytes_of_records rs"
  have l: "length start = 16" by (rule length_binlog_start [OF h(2)])
  have m16: "length (bytes_of_records rs) mod 16 = 0" using h(3) length_bytes_of_records by (auto simp: replays_def)
  have small: "length ?D < 2 ^ 61" using l h(5) by simp
  have e: "fe_file (?env\<lparr>fe_file := Some data\<rparr>) = Some data" "fe_folder (?env\<lparr>fe_file := Some data\<rparr>)"
    "fe_lock (?env\<lparr>fe_file := Some data\<rparr>) = Locked" using env by simp_all
  obtain f where f: "File_open c ReadAppend key (?env\<lparr>fe_file := Some data\<rparr>) = Some (Success, f)"
    "file_rep block c key f ?D 0 (length ?D - length ?D mod 16)" "f_data f = data"
    using File_open_ReadAppend [OF c h(4) small e] by blast
  have sz: "length ?D - length ?D mod 16 = 16 + length (bytes_of_records rs)" using l m16 by simp
  have opened: "disk_open c ?path ReadAppend key ?env (db_disk d) = Some (Success, f, db_disk d)"
    using f(1,3) h(1) env by (auto simp: disk_open_def fun_upd_idem)
  have size: "0 < File_size f" and off: "File_offset f = 0" using file_rep_simps(2,3) [OF f(2)] sz by simp_all
  have whole: "whole_blocks (take 16 (drop 0 ?D)) = start" using l by (simp add: whole_blocks_def)
  obtain f' where r: "File_read c 16 f = Some (start, f')" "file_rep block c key f' ?D 16 (16 + length (bytes_of_records rs))"
    using File_read_rep [OF c f(2), of 16] sz l unfolding whole by auto
  have fd: "f_data f' = data" using File_read_total [OF c _ _, of f 16] file_rep_valid [OF f(2)] r(1) f(3) by auto
  have read: "ReadHeader c ?s f = Some (Some \<lparr>bh_format = 0, bh_flags = (if trackEstimatedTime ?s then 1 else 0), bh_systemTime = time\<rparr>, f')"
    using off r(1) l header_read_back [OF h(2)] by (simp add: ReadHeader_def Let_def)
  let ?d2 = "d\<lparr>db_binlog := f, db_binlogAt := ?path\<rparr>"
  let ?d3 = "?d2\<lparr>db_binlog := f', ix_time := \<lparr>tp_relative = time, tp_system = time\<rparr>\<rparr>"
  let ?d4 = "createCleaner (?d3\<lparr>db_folder := Some version, db_key := key\<rparr>)"
  have head: "db_readHeader c ?d2 = Some (True, ?d3)" using read by (simp add: db_readHeader_def)
  have t: "time < 2 ^ 32" using h(2) by (simp add: binlog_start_def)
  have u: "index_ok d" "ix_map d = []" "db_removing d = []" "db_accessed d = []" "db_stale d = []" "settings_fine ?s"
    using d by (simp_all add: unopened_def)
  have i: "index_ok (?d3\<lparr>db_folder := Some version, db_key := key\<rparr>)" using u(1) by (simp add: index_ok_def)
  have "before_reading block c rs st ?d4"
    unfolding before_reading_def using h(1-3) r(2) u i fd t
    by (simp add: binlogPath_def time_ok_def) (rule exI [of _ start]; simp)
  from opened_from_reading [OF c this, of d key version] obtain d' where d': "readBinlog c io ?d4 = Some d'"
    "opened_from block c key version (fst st) d d'" using u(5) by auto
  have "openBinlog c io version ReadAppend key d = Some (Success, d')"
    using ready opened size head d'(1) by (simp add: openBinlog_def Let_def)
  then show ?thesis using d'(2) by blast
qed

end
