(* ===== verification/CacheHealthy.thy ===== *)
theory CacheHealthy
  imports CacheReopen
begin

text \<open>
  A disk that takes all writes to the binlog: the binlog stays open.
\<close>

section \<open>Writes that succeed\<close>

definition healthy :: "Database \<Rightarrow> bool" where
  "healthy d \<longleftrightarrow> f_isOpen (db_binlog d) \<and> f_results (db_binlog d) = []"

lemma healthy_fields [simp]:
  "healthy (d\<lparr>db_disk := disk\<rparr>) = healthy d" "healthy (d\<lparr>db_removing := ks\<rparr>) = healthy d" "healthy (d\<lparr>db_accessed := ks\<rparr>) = healthy d"
  "healthy (d\<lparr>db_stale := ks\<rparr>) = healthy d" "healthy (d\<lparr>ix_time := time\<rparr>) = healthy d" "healthy (d\<lparr>ix_map := m\<rparr>) = healthy d"
  "healthy (d\<lparr>ix_excess := n\<rparr>) = healthy d" "healthy (d\<lparr>db_writeBundlesTimer := timer\<rparr>) = healthy d"
  "healthy (d\<lparr>db_pruneTimer := timer\<rparr>) = healthy d" "healthy (d\<lparr>db_compactor := compactor\<rparr>) = healthy d"
  "healthy (d\<lparr>db_fired := fs\<rparr>) = healthy d" "healthy (d\<lparr>db_clearingStale := b\<rparr>) = healthy d" "healthy (d\<lparr>db_cleanerDone := b\<rparr>) = healthy d"
  "healthy (d\<lparr>ix_minimalTime := t\<rparr>) = healthy d" "healthy (d\<lparr>ix_minimalCount := n\<rparr>) = healthy d" "healthy (d\<lparr>ix_settings := s\<rparr>) = healthy d"
  by (simp_all add: healthy_def)

lemma File_encrypt_length:
  assumes "ctr_mode block c" and "File_encrypt c bs f = Some (out, f')"
  shows "length out = length bs \<and> f_results f' = f_results f \<and> f_isOpen f' = f_isOpen f"
  using assms by (auto simp: File_encrypt_def CtrState_encrypt_def CtrState_process_def ctr_mode_def bind_eq_Some_conv split: if_splits)

lemma File_write_healthy:
  assumes c: "ctr_mode block c" and f: "f_isOpen f" "f_results f = []" and w: "File_write c bs f = Some (ok, f')"
  shows "ok \<and> f_isOpen f' \<and> f_results f' = []"
proof -
  obtain out f1 where e: "File_encrypt c bs f = Some (out, f1)" using w f(1) by (auto simp: File_write_def bind_eq_Some_conv split: if_splits)
  note l = File_encrypt_length [OF c e]
  have "writePlain out f1 = (int (length bs), f1\<lparr>f_data := overwrite (f_pos f1) out (f_data f1), f_pos := f_pos f1 + length bs\<rparr>)"
    using l f(2) by (simp add: writePlain_def write_result_def)
  then show ?thesis using w f e l by (auto simp: File_write_def split: if_splits)
qed

lemma binlog_write_healthy:
  assumes "ctr_mode block c" and "healthy d" and "binlog_write c bs d = Some (ok, d')"
  shows "ok \<and> healthy d'"
  using File_write_healthy [OF assms(1), of "db_binlog d" bs] assms(2,3)
  by (auto simp: binlog_write_def healthy_def set_binlog_def)

text \<open>Changes of the index leave the binlog.\<close>

lemma index_frame_healthy: "index_frame d d' \<Longrightarrow> healthy d' = healthy d"
  using binlog_content_erase(7) [of d d'] by (simp add: healthy_def)

lemma eraseMapEntry_healthy: "eraseMapEntry key d = Some d' \<Longrightarrow> healthy d' = healthy d"
  by (rule index_frame_healthy)
    (auto simp: eraseMapEntry_def lower_minimal_count_def index_frame_def Let_def split: option.splits if_splits)

lemma update_minimal_frame: "update_minimal already entry ix = Some ix' \<Longrightarrow> index_frame ix ix'"
  by (auto simp: update_minimal_def lower_minimal_count_def index_frame_def Let_def split: if_splits)

lemma setMapEntry_frame:
  assumes "setMapEntry key entry ix = Some ix'"
  shows "index_frame ix ix'"
proof -
  let ?u = "updateStats (entry_at ix key) entry ix"
  let ?v = "if en_size (entry_at ix key) \<noteq> 0 then ?u\<lparr>ix_excess := ix_excess ?u + store_record_size (ix_settings ?u)\<rparr> else ?u"
  obtain ix2 where "update_minimal (entry_at ix key) entry ?v = Some ix2" "ix' = ix2\<lparr>ix_map := AList.update key entry (ix_map ix2)\<rparr>"
    using assms by (auto simp: setMapEntry_def Let_def)
  then show ?thesis using update_minimal_frame [of "entry_at ix key" entry ?v ix2] by (simp add: index_frame_def)
qed

lemma processRecordStore_healthy: "processRecordStore r d = Some (ok, d') \<Longrightarrow> healthy d' = healthy d"
  using setMapEntry_frame index_frame_healthy
  by (fastforce simp: processRecordStore_def processRecordStoreGeneric_def Let_def split: if_splits)

lemma applyTimePoint_healthy [simp]: "healthy (applyTimePoint time d) = healthy d"
  by (simp add: applyTimePoint_def)

lemma processRecordStoreWithTime_healthy:
  assumes "processRecordStoreWithTime r d = Some (ok, d')"
  shows "healthy d' = healthy d"
proof -
  have "d' = d \<or> (\<exists>key entry. setMapEntry key entry (applyTimePoint (store_time r) d) = Some d')"
    using assms by (auto simp: processRecordStoreWithTime_def processRecordStoreGeneric_def Let_def split: if_splits)
  then show ?thesis using index_frame_healthy [OF setMapEntry_frame] by fastforce
qed

section \<open>The operations\<close>

lemma write_bundle_healthy:
  assumes c: "ctr_mode block c" and d: "healthy d" and w: "write_bundle c header ks d = Some (e, d')"
  shows "healthy d'"
proof -
  obtain ok1 d1 where w1: "binlog_write c header d = Some (ok1, d1)" using w by (auto simp: write_bundle_def bind_eq_Some_conv)
  note h1 = binlog_write_healthy [OF c d w1]
  show ?thesis
  proof (cases "ks = []")
    case True
    then show ?thesis using w w1 h1 by (auto simp: write_bundle_def)
  next
    case False
    then obtain ok2 d2 where w2: "binlog_write c (concat (map bytes_of_key ks)) d1 = Some (ok2, d2)"
      using w w1 h1 by (auto simp: write_bundle_def bind_eq_Some_conv)
    then show ?thesis using binlog_write_healthy [OF c _ w2] False w w1 h1 by (auto simp: write_bundle_def)
  qed
qed

lemma writeMultiRemove_healthy: "ctr_mode block c \<Longrightarrow> healthy d \<Longrightarrow> writeMultiRemove c d = Some (e, d') \<Longrightarrow> healthy d'"
  using write_bundle_healthy [of block c "d\<lparr>db_removing := []\<rparr>" _ "db_removing d" e d']
  by (auto simp: writeMultiRemove_def bind_eq_Some_conv split: if_splits)

lemma writeBundlesLazy_healthy [simp]: "healthy (writeBundlesLazy io d) = healthy d"
  by (simp add: writeBundlesLazy_def)

lemma writeMultiRemoveLazy_healthy: "ctr_mode block c \<Longrightarrow> healthy d \<Longrightarrow> writeMultiRemoveLazy c io d = Some d' \<Longrightarrow> healthy d'"
  using writeMultiRemove_healthy by (auto simp: writeMultiRemoveLazy_def split: if_splits)

lemma writeMultiAccessBlock_healthy:
  assumes c: "ctr_mode block c" and d: "healthy d" and w: "writeMultiAccessBlock c io d = Some (e, d')"
  shows "healthy d'"
proof -
  let ?d0 = "d\<lparr>db_accessed := [], ix_time := countTimePoint io d,
      ix_map := use_entries (tp_relative (countTimePoint io d)) (db_accessed d) (ix_map d)\<rparr>"
  obtain header where "write_bundle c header (db_accessed d) ?d0 = Some (e, d')"
    using w by (auto simp: writeMultiAccessBlock_def Let_def bind_eq_Some_conv split: if_splits)
  then show ?thesis using write_bundle_healthy [OF c, of ?d0] d by simp
qed

lemma writeMultiAccess_healthy: "ctr_mode block c \<Longrightarrow> healthy d \<Longrightarrow> writeMultiAccess c io d = Some (e, d') \<Longrightarrow> healthy d'"
  using writeMultiAccessBlock_healthy by (auto simp: writeMultiAccess_def split: if_splits)

lemma writeBundles_healthy:
  assumes "ctr_mode block c" and "healthy d" and "writeBundles c io d = Some d'"
  shows "healthy d'"
proof -
  obtain e d1 where d1: "writeMultiRemove c d = Some (e, d1)" using assms(3) by (auto simp: writeBundles_def bind_eq_Some_conv)
  have "healthy d1" by (rule writeMultiRemove_healthy [OF assms(1,2) d1])
  then show ?thesis using writeMultiAccess_healthy [OF assms(1), of d1 io] assms(3) d1 by (auto simp: writeBundles_def split: if_splits)
qed

text \<open>The binlog grows by the bytes of the records, with their keys.\<close>

lemma File_write_offset:
  assumes c: "ctr_mode block c" and f: "f_isOpen f" "f_results f = []" and w: "File_write c bs f = Some (ok, f')"
  shows "f_encryptionOffset f' = f_encryptionOffset f + int (length bs)"
proof -
  obtain out f1 where e: "File_encrypt c bs f = Some (out, f1)" using w f(1) by (auto simp: File_write_def bind_eq_Some_conv split: if_splits)
  note l = File_encrypt_length [OF c e]
  have "writePlain out f1 = (int (length bs), f1\<lparr>f_data := overwrite (f_pos f1) out (f_data f1), f_pos := f_pos f1 + length bs\<rparr>)"
    using l f(2) by (simp add: writePlain_def write_result_def)
  moreover have "f_encryptionOffset f1 = f_encryptionOffset f + int (length bs)" using e by (auto simp: File_encrypt_def bind_eq_Some_conv)
  ultimately show ?thesis using w f e l by (auto simp: File_write_def split: if_splits)
qed

lemma binlog_write_offset:
  assumes "ctr_mode block c" and "healthy d" and "binlog_write c bs d = Some (ok, d')"
  shows "f_encryptionOffset (db_binlog d') = f_encryptionOffset (db_binlog d) + int (length bs)"
  using File_write_offset [OF assms(1), of "db_binlog d" bs] assms(2,3)
  by (auto simp: binlog_write_def healthy_def set_binlog_def)

lemma write_bundle_offset:
  assumes c: "ctr_mode block c" and d: "healthy d" and w: "write_bundle c header ks d = Some (e, d')"
  shows "f_encryptionOffset (db_binlog d') = f_encryptionOffset (db_binlog d) + int (length header) + 16 * int (length ks)"
proof -
  obtain ok1 d1 where w1: "binlog_write c header d = Some (ok1, d1)" using w by (auto simp: write_bundle_def bind_eq_Some_conv)
  note h1 = binlog_write_healthy [OF c d w1] and o1 = binlog_write_offset [OF c d w1]
  show ?thesis
  proof (cases "ks = []")
    case True
    then show ?thesis using w w1 h1 o1 by (auto simp: write_bundle_def)
  next
    case False
    then obtain ok2 d2 where w2: "binlog_write c (concat (map bytes_of_key ks)) d1 = Some (ok2, d2)"
      using w w1 h1 by (auto simp: write_bundle_def bind_eq_Some_conv)
    have "length (concat (map bytes_of_key ks)) = 16 * length ks" by (simp add: length_concat comp_def sum_list_triv)
    then show ?thesis using binlog_write_healthy [OF c _ w2] binlog_write_offset [OF c _ w2] False w w1 w2 h1 o1 by (auto simp: write_bundle_def)
  qed
qed

lemma length_bundle_header: "bundle_header type n rest = Some header \<Longrightarrow> length header \<le> 4 + length rest"
  by (auto simp: bundle_header_def ReadTo_def split: if_splits)

lemma binlog_write_accessed: "binlog_write c bs d = Some (ok, d') \<Longrightarrow> db_accessed d' = db_accessed d"
  by (auto simp: binlog_write_def set_binlog_def)

lemma write_bundle_accessed:
  assumes "write_bundle c header ks d = Some (e, d')"
  shows "db_accessed d' = db_accessed d"
proof -
  obtain ok1 d1 where w1: "binlog_write c header d = Some (ok1, d1)" using assms by (auto simp: write_bundle_def bind_eq_Some_conv)
  show ?thesis
  proof (cases "ok1 \<and> ks \<noteq> []")
    case False
    then show ?thesis using assms w1 binlog_write_accessed [OF w1] by (auto simp: write_bundle_def split: if_splits)
  next
    case True
    then obtain ok2 d2 where w2: "binlog_write c (concat (map bytes_of_key ks)) d1 = Some (ok2, d2)"
      using assms w1 by (auto simp: write_bundle_def bind_eq_Some_conv)
    then show ?thesis using assms w1 True binlog_write_accessed [OF w1] binlog_write_accessed [OF w2]
      by (auto simp: write_bundle_def split: if_splits)
  qed
qed

lemma writeMultiRemove_offset:
  assumes c: "ctr_mode block c" and d: "healthy d" and w: "writeMultiRemove c d = Some (e, d')"
  shows "f_encryptionOffset (db_binlog d') \<le> f_encryptionOffset (db_binlog d) + 16 + 16 * int (length (db_removing d))
    \<and> db_accessed d' = db_accessed d"
proof (cases "db_removing d = []")
  case True
  then show ?thesis using w by (simp add: writeMultiRemove_def split: if_splits)
next
  case False
  obtain header where h: "MultiRemove_new (int (length (db_removing d))) = Some header"
    "write_bundle c header (db_removing d) (d\<lparr>db_removing := []\<rparr>) = Some (e, d')"
    using w False by (auto simp: writeMultiRemove_def bind_eq_Some_conv split: if_splits)
  have "length header \<le> 16" using length_bundle_header [OF h(1) [unfolded MultiRemove_new_def]] by simp
  then show ?thesis using write_bundle_offset [OF c _ h(2)] write_bundle_accessed [OF h(2)] d by simp
qed

lemma writeMultiAccess_offset:
  assumes c: "ctr_mode block c" and d: "healthy d" and w: "writeMultiAccess c io d = Some (e, d')"
  shows "f_encryptionOffset (db_binlog d') \<le> f_encryptionOffset (db_binlog d) + 16 + 16 * int (length (db_accessed d))"
proof (cases "db_accessed d = []")
  case True
  then show ?thesis using w by (simp add: writeMultiAccess_def)
next
  case False
  let ?d0 = "d\<lparr>db_accessed := [], ix_time := countTimePoint io d,
      ix_map := use_entries (tp_relative (countTimePoint io d)) (db_accessed d) (ix_map d)\<rparr>"
  obtain header where h: "MultiAccess_new (countTimePoint io d) (int (length (db_accessed d))) = Some header"
    "write_bundle c header (db_accessed d) ?d0 = Some (e, d')"
    using w False by (auto simp: writeMultiAccess_def writeMultiAccessBlock_def Let_def bind_eq_Some_conv split: if_splits)
  have "length header \<le> 16" using length_bundle_header [OF h(1) [unfolded MultiAccess_new_def]] by simp
  then show ?thesis using write_bundle_offset [OF c _ h(2)] d by simp
qed

lemma writeBundles_offset:
  assumes c: "ctr_mode block c" and d: "healthy d" and w: "writeBundles c io d = Some d'"
  shows "f_encryptionOffset (db_binlog d') \<le> f_encryptionOffset (db_binlog d) + 32 + 16 * int (length (db_removing d)) + 16 * int (length (db_accessed d))"
proof -
  obtain e d1 where d1: "writeMultiRemove c d = Some (e, d1)" using w by (auto simp: writeBundles_def bind_eq_Some_conv)
  have h1: "healthy d1" by (rule writeMultiRemove_healthy [OF c d d1])
  note o1 = writeMultiRemove_offset [OF c d d1]
  show ?thesis
  proof (cases "trackEstimatedTime (ix_settings d1)")
    case True
    then obtain e2 where "writeMultiAccess c io d1 = Some (e2, d')" using w d1 by (auto simp: writeBundles_def)
    from writeMultiAccess_offset [OF c h1 this] show ?thesis using o1 by simp
  next
    case False
    then show ?thesis using w d1 o1 by (simp add: writeBundles_def)
  qed
qed

lemma optimize_healthy: "optimize io d = Some d' \<Longrightarrow> healthy d' = healthy d"
  using optimize_fine [of io d] by auto

lemma recordEntryAccess_healthy:
  assumes "ctr_mode block c" and "healthy d" and "recordEntryAccess c io key d = Some d'"
  shows "healthy d'"
proof (cases "trackEstimatedTime (ix_settings d)")
  case True
  let ?d0 = "d\<lparr>db_accessed := set_emplace key (db_accessed d)\<rparr>"
  obtain d1 where d1: "writeMultiAccessLazy c io ?d0 = Some d1" "optimize io d1 = Some d'"
    using assms(3) True by (auto simp: recordEntryAccess_def bind_eq_Some_conv)
  have h0: "healthy ?d0" using assms(2) by simp
  have "healthy d1"
  proof (cases "int (length (db_accessed ?d0)) = maxBundledRecords (ix_settings ?d0)")
    case True
    then obtain e where "writeMultiAccess c io ?d0 = Some (e, d1)" using d1(1) by (auto simp: writeMultiAccessLazy_def)
    from writeMultiAccess_healthy [OF assms(1) h0 this] show ?thesis .
  next
    case False
    then have "d1 = writeBundlesLazy io ?d0" using d1(1) by (simp add: writeMultiAccessLazy_def)
    then show ?thesis using h0 by simp
  qed
  then show ?thesis using optimize_healthy [OF d1(2)] by simp
qed (use assms in \<open>simp add: recordEntryAccess_def\<close>)

lemma db_remove_healthy:
  assumes "ctr_mode block c" and "healthy d" and "db_remove c io key d = Some (e, d')"
  shows "healthy d'"
proof (cases "map_of (ix_map d) key")
  case (Some entry)
  let ?d0 = "d\<lparr>db_removing := set_emplace key (db_removing d)\<rparr>"
  obtain d1 where d1: "writeMultiRemoveLazy c io ?d0 = Some d1"
    using assms(3) Some by (auto simp: db_remove_def bind_eq_Some_conv)
  then obtain d2 where d2: "eraseMapEntry key d1 = Some d2"
    using assms(3) Some by (cases "eraseMapEntry key d1") (simp_all add: db_remove_def Let_def)
  have "healthy ?d0" using assms(2) by simp
  then have "healthy d1" by (rule writeMultiRemoveLazy_healthy [OF assms(1) _ d1])
  moreover have "healthy d' = healthy d2"
    using assms(3) Some d1 d2 by (auto simp: db_remove_def Let_def split: if_splits)
  ultimately show ?thesis using eraseMapEntry_healthy [OF d2] by simp
qed (use assms in \<open>simp add: db_remove_def\<close>)

lemma write_store_record_healthy:
  assumes "ctr_mode block c" and "healthy d" and "write_store_record c bytes_of process r d = Some (ok, d')"
    and "\<And>d1 ok d2. process r d1 = Some (ok, d2) \<Longrightarrow> healthy d2 = healthy d1"
  shows "ok \<and> healthy d'"
proof -
  obtain written d1 where w: "binlog_write c (bytes_of r) d = Some (written, d1)" using assms(3) by (auto simp: write_store_record_def bind_eq_Some_conv)
  note h = binlog_write_healthy [OF assms(1,2) w]
  then show ?thesis using assms(3,4) w by (auto simp: write_store_record_def bind_eq_Some_conv split: if_splits)
qed

lemma writeKeyPlaceGeneric_healthy:
  assumes "ctr_mode block c" and "healthy d" and "writeKeyPlaceGeneric c io bytes_of process r key value checksum d = Some (p, d')"
    and "\<And>r d1 ok d2. process r d1 = Some (ok, d2) \<Longrightarrow> healthy d2 = healthy d1"
  shows "healthy d'"
  using assms(2,3) write_store_record_healthy [OF assms(1,2) _ assms(4)]
  by (fastforce simp: writeKeyPlaceGeneric_def bind_eq_Some_conv split: if_splits option.splits)

lemma writeKeyPlace_healthy:
  assumes "ctr_mode block c" and "healthy d" and "writeKeyPlace c io key value checksum d = Some (p, d')"
  shows "healthy d'"
proof (cases "trackEstimatedTime (ix_settings d)")
  case True
  then obtain time where "writeKeyPlaceGeneric c io bytes_of_store_with_time processRecordStoreWithTime (new_store_with_time time) key value checksum d =
      Some (p, d')" using assms(3) by (cases "record_time io d") (simp_all add: writeKeyPlace_def)
  from writeKeyPlaceGeneric_healthy [OF assms(1,2) this processRecordStoreWithTime_healthy] show ?thesis .
next
  case False
  then have "writeKeyPlaceGeneric c io bytes_of_store processRecordStore Store_new key value checksum d = Some (p, d')"
    using assms(3) by (simp add: writeKeyPlace_def)
  from writeKeyPlaceGeneric_healthy [OF assms(1,2) this processRecordStore_healthy] show ?thesis .
qed

lemma put_data_healthy:
  assumes "ctr_mode block c" and "healthy d" and "put_data c io key value path d = Some (e, d')"
  shows "healthy d'"
proof -
  obtain r f disk where o: "disk_open c path Write (db_key d) (io_data io path) (db_disk d) = Some (r, f, disk)"
    using assms(3) by (auto simp: put_data_def bind_eq_Some_conv)
  have rm: "db_remove c io key (d\<lparr>db_disk := disk'\<rparr>) = Some (e, d') \<Longrightarrow> healthy d'" for disk' e d'
    using db_remove_healthy [OF assms(1), of "d\<lparr>db_disk := disk'\<rparr>"] assms(2) by simp
  show ?thesis
  proof (cases r)
    case Success
    then obtain ok f1 where w: "File_writeWithPadding c (io_padding io) (tv_bytes value) f = Some (ok, f1)"
      using assms(3) o by (auto simp: put_data_def bind_eq_Some_conv)
    show ?thesis using assms(2,3) o w Success rm optimize_healthy by (cases ok) (auto simp: put_data_def)
  qed (use assms(3) o rm in \<open>auto simp: put_data_def\<close>)
qed

lemma db_put_healthy:
  assumes "ctr_mode block c" and "healthy d" and "db_put c xxh io key value d = Some (e, d')"
  shows "healthy d'"
proof (cases "tv_bytes value = []")
  case True
  then show ?thesis using db_remove_healthy [OF assms(1,2)] assms(3) by (simp add: db_put_def)
next
  case False
  let ?d1 = "d\<lparr>db_removing := set_erase key (db_removing d), db_stale := filter (\<lambda>k. k \<noteq> key) (db_stale d)\<rparr>"
  obtain p d2 where p: "writeKeyPlace c io key value (xxh (tv_bytes value)) ?d1 = Some (p, d2)"
    using False assms(3) by (auto simp: db_put_def bind_eq_Some_conv Let_def)
  have "healthy ?d1" using assms(2) by simp
  then have h2: "healthy d2" by (rule writeKeyPlace_healthy [OF assms(1) _ p])
  show ?thesis
  proof (cases p)
    case NoPlace
    then show ?thesis using False assms(3) p h2 by (simp add: db_put_def Let_def)
  next
    case EmptyPath
    then have "recordEntryAccess c io key d2 = Some d'" using False assms(3) p by (auto simp: db_put_def Let_def)
    from recordEntryAccess_healthy [OF assms(1) h2 this] show ?thesis .
  next
    case (WrittenPath path)
    then have "put_data c io key value path d2 = Some (e, d')" using False assms(3) p by (auto simp: db_put_def Let_def)
    from put_data_healthy [OF assms(1) h2 this] show ?thesis .
  qed
qed

lemma db_get_healthy:
  assumes "ctr_mode block c" and "healthy d" and "db_get c xxh io key d = Some (v, d')"
  shows "healthy d'"
  using assms(2,3) db_remove_healthy [OF assms(1,2)] recordEntryAccess_healthy [OF assms(1,2)]
  by (auto simp: db_get_def bind_eq_Some_conv split: option.splits if_splits)

lemma writeExistingPlaceGeneric_healthy:
  assumes "ctr_mode block c" and "healthy d" and "writeExistingPlaceGeneric c io bytes_of process r key entry d = Some (e, d')"
    and "\<And>r d1 ok d2. process r d1 = Some (ok, d2) \<Longrightarrow> healthy d2 = healthy d1"
  shows "healthy d'"
  using assms(2,3) write_store_record_healthy [OF assms(1,2) _ assms(4)]
  by (fastforce simp: writeExistingPlaceGeneric_def bind_eq_Some_conv split: if_splits)

lemma writeExistingPlace_healthy:
  assumes "ctr_mode block c" and "healthy d" and "writeExistingPlace c io key entry d = Some (e, d')"
  shows "healthy d'"
proof (cases "trackEstimatedTime (ix_settings d)")
  case True
  then obtain time where "writeExistingPlaceGeneric c io bytes_of_store_with_time processRecordStoreWithTime (new_store_with_time time) key entry d =
      Some (e, d')" using assms(3) by (cases "record_time io d") (simp_all add: writeExistingPlace_def)
  from writeExistingPlaceGeneric_healthy [OF assms(1,2) this processRecordStoreWithTime_healthy] show ?thesis .
next
  case False
  then have "writeExistingPlaceGeneric c io bytes_of_store processRecordStore Store_new key entry d = Some (e, d')"
    using assms(3) by (simp add: writeExistingPlace_def)
  from writeExistingPlaceGeneric_healthy [OF assms(1,2) this processRecordStore_healthy] show ?thesis .
qed

lemma db_moveIfEmpty_healthy:
  assumes c: "ctr_mode block c" and d: "healthy d" and m: "db_moveIfEmpty c io source target d = Some (e, d')"
  shows "healthy d'"
proof (cases "map_of (ix_map d) target = None \<and> (\<exists>entry. map_of (ix_map d) source = Some entry)")
  case False
  then show ?thesis using d m by (cases "map_of (ix_map d) target") (auto simp: db_moveIfEmpty_def)
next
  case True
  then obtain entry where k: "map_of (ix_map d) target = None" "map_of (ix_map d) source = Some entry" by blast
  let ?d0 = "d\<lparr>db_removing := set_emplace source (db_removing d)\<rparr>"
  obtain d1 where d1: "eraseMapEntry source ?d0 = Some d1"
    using m k by (cases "eraseMapEntry source ?d0") (simp_all add: db_moveIfEmpty_def)
  obtain r d2 where d2: "writeMultiRemove c d1 = Some (r, d2)"
    using m k d1 by (cases "writeMultiRemove c d1") (auto simp: db_moveIfEmpty_def)
  have "healthy d1" using eraseMapEntry_healthy [OF d1] d by simp
  then have h2: "healthy d2" by (rule writeMultiRemove_healthy [OF c _ d2])
  let ?d3 = "d2\<lparr>db_removing := set_erase target (db_removing d2), db_stale := filter (\<lambda>k. k \<noteq> target) (db_stale d2)\<rparr>"
  have "d' = d2 \<or> writeExistingPlace c io target entry ?d3 = Some (e, d')"
    using m k d1 d2 by (auto simp: db_moveIfEmpty_def split: if_splits)
  moreover have "healthy ?d3" using h2 by simp
  ultimately show ?thesis using h2 writeExistingPlace_healthy [OF c] by blast
qed

end
