(* ===== verification/CacheRestart.thy ===== *)
theory CacheRestart
  imports CacheHealthy
begin

text \<open>
  Starting the disk cache: a new binlog is made, and what is on disk is what the cache had.
\<close>

section \<open>A new binlog\<close>

lemma File_open_ReadAppend_new:
  assumes c: "ctr_mode block c" and env: "fe_file env = None" "fe_folder env" "fe_lock env = Locked" "length (fe_salt env) = kSaltSize"
    "fe_results env = []"
  shows "\<exists>f. File_open c ReadAppend key env = Some (Success, f) \<and> file_rep block c key f [] 0 0 \<and> f_results f = []"
proof -
  obtain f where "File_writeHeader c key (fe_salt env) (opened_file [] env) = Some (True, f)"
    "file_rep block c key f [] 0 0" "f_results f = []" using File_writeHeader_rep [OF c env(4) refl env(5)] by blast
  then show ?thesis using env(1-3)
    by (simp add: File_open_def File_attemptOpen_def attemptOpenForReadAppend_def FileLock_lock_def header_written_def)
qed

definition new_binlog_env :: "file_env \<Rightarrow> bool" where
  "new_binlog_env env \<longleftrightarrow> fe_folder env \<and> fe_lock env = Locked \<and> length (fe_salt env) = kSaltSize \<and> fe_results env = []"

lemma openBinlog_new:
  assumes c: "ctr_mode block c" and d: "unopened d" and none: "db_disk d (InFolder (Some version) BinlogFilename) = None"
    "db_disk d (InFolder (Some version) CompactReadyFilename) = None" and env: "new_binlog_env (io_open io ReadAppend)"
  shows "\<exists>d'. openBinlog c io version ReadAppend key d = Some (Success, d') \<and> opened_from block c key version Map.empty d d'
    \<and> healthy d' \<and> tp_relative (ix_time d') < 2 ^ 31 \<and> tp_system (ix_time d') \<le> GetUnixtime io \<and> File_offset (db_binlog d') = 16"
proof -
  let ?s = "ix_settings d" and ?path = "InFolder (Some version) BinlogFilename" and ?env = "io_open io ReadAppend"
  define now where "now = (if trackEstimatedTime ?s then GetUnixtime io else 0)"
  let ?h = "\<lparr>bh_format = 0, bh_flags = (if trackEstimatedTime ?s then 1 else 0), bh_systemTime = now\<rparr>"
  let ?bs = "bytes_of_basic_header ?h"
  have e: "fe_file (?env\<lparr>fe_file := None\<rparr>) = None" "fe_folder (?env\<lparr>fe_file := None\<rparr>)" "fe_lock (?env\<lparr>fe_file := None\<rparr>) = Locked"
    "length (fe_salt (?env\<lparr>fe_file := None\<rparr>)) = kSaltSize" "fe_results (?env\<lparr>fe_file := None\<rparr>) = []"
    using env by (simp_all add: new_binlog_env_def)
  obtain f where f: "File_open c ReadAppend key (?env\<lparr>fe_file := None\<rparr>) = Some (Success, f)" "file_rep block c key f [] 0 0" "f_results f = []"
    using File_open_ReadAppend_new [OF c e] by blast
  let ?disk = "(db_disk d)(?path \<mapsto> f_data f)"
  have opened: "disk_open c ?path ReadAppend key ?env (db_disk d) = Some (Success, f, ?disk)"
    using f(1) none(1) e(2,3) by (simp add: disk_open_def)
  have small: "now < 2 ^ 31" using GetUnixtime_bounds(2) [of io] by (simp add: now_def)
  then have start: "binlog_start ?s ?bs now" by (simp add: binlog_start_def)
  note l = length_binlog_start [OF start]
  have l16: "length ?bs mod 16 = 0" "0 + length ?bs < 2 ^ 61" using l by simp_all
  have "write_result f ?bs = int (length ?bs)" by (simp add: write_result_def f(3))
  then obtain f' where w: "File_write c ?bs f = Some (True, f')" "file_rep block c key f' (overwrite 0 ?bs []) 16 16"
    using File_write_rep [OF c f(2) l16] l by auto
  have h': "f_isOpen f'" "f_results f' = []"
    using File_write_healthy [OF c _ f(3) w(1)] file_rep_valid [OF f(2)] by simp_all
  let ?d2 = "d\<lparr>db_binlog := f, db_binlogAt := ?path, db_disk := ?disk\<rparr>"
  let ?d3 = "set_binlog f' (?d2\<lparr>ix_time := \<lparr>tp_relative = now, tp_system = now\<rparr>\<rparr>)"
  let ?d4 = "createCleaner (?d3\<lparr>db_folder := Some version, db_key := key\<rparr>)"
  have head: "BasicHeader_new\<lparr>bh_systemTime := now, bh_flags := (if trackEstimatedTime ?s then kTrackEstimatedTime else 0)\<rparr> = ?h"
    by (simp add: BasicHeader_new_def kTrackEstimatedTime_def)
  have earlier: "now \<le> GetUnixtime io" by (simp add: now_def)
  have written: "db_writeHeader c io ?d2 = Some (True, ?d3)"
    using w(1) head unfolding db_writeHeader_def binlog_write_def Let_def now_def by simp
  have u: "index_ok d" "ix_map d = []" "db_removing d = []" "db_accessed d = []" "db_stale d = []" "settings_fine ?s"
    using d by (simp_all add: unopened_def)
  have i: "index_ok (?d3\<lparr>db_folder := Some version, db_key := key\<rparr>)" using u(1) by (simp add: index_ok_def set_binlog_def)
  have r: "replays ?s [] now (Map.empty, now)" by (simp add: replays_def records_fit_def)
  have "file_rep block c key f' (?bs @ bytes_of_records []) 16 (16 + length (bytes_of_records []))"
    using w(2) by (simp add: overwrite_def)
  then have "before_reading block c [] (Map.empty, now) ?d4"
    unfolding before_reading_def using start r u i h'(1) small
    by (auto simp: binlogPath_def time_ok_def set_binlog_def)
  from opened_from_reading [OF c this, of d key version io] obtain d' where d': "readBinlog c io ?d4 = Some d'"
    "opened_from block c key version Map.empty d d'" "f_isOpen (db_binlog d')" "f_results (db_binlog d') = []"
    "ix_time d' = \<lparr>tp_relative = now, tp_system = now\<rparr>" "File_offset (db_binlog d') = 16"
    using u(5) h' earlier place_not_binlog by (auto simp: set_binlog_def)
  have "File_size f = 0" using file_rep_simps(3) [OF f(2)] by simp
  then have "openBinlog c io version ReadAppend key d = Some (Success, d')"
    using none(2) opened written d'(1) by (simp add: openBinlog_def Let_def)
  then show ?thesis using d' small earlier by (auto simp: healthy_def)
qed

section \<open>Opening\<close>

lemma clearState_unopened: "settings_fine (ix_settings d) \<Longrightarrow> unopened (clearState d)"
  by (simp add: unopened_def clearState_def index_ok_def summary_at_def)

lemma clearState_fields [simp]:
  "ix_settings (clearState d) = ix_settings d" "db_disk (clearState d) = db_disk d" "db_binlog (clearState d) = db_binlog d"
  "readVersion (clearState d) = readVersion d"
  by (simp_all add: clearState_def readVersion_def)

lemma opened_from_disk: "db_disk d1 = db_disk d \<Longrightarrow> ix_settings d1 = ix_settings d \<Longrightarrow> opened_from block c key version m d1 d' = opened_from block c key version m d d'"
  by (simp add: opened_from_def)

lemma db_open_closed:
  assumes "\<not> f_isOpen (db_binlog d)" and "openBinlog c io (readVersion d) ReadAppend key (clearState d) = Some (Success, d')"
  shows "db_open c io key d = Some (noError, d')"
  using assms by (simp add: db_open_def db_close_def openSomeBinlog_def noError_def)

lemma Database_new_fields:
  assumes "Database_new settings disk = Some d"
  shows "ix_settings d = settings" "db_disk d = disk" "\<not> f_isOpen (db_binlog d)"
  using assms by (auto simp: Database_new_def Index.extend_def Database.fields_def Index_new_def no_file_def split: if_splits)

lemma db_open_new:
  assumes c: "ctr_mode block c" and new: "Database_new settings disk = Some d" and s: "settings_fine settings"
    and none: "disk VersionFile = None" "disk (InFolder (Some 0) BinlogFilename) = None" "disk (InFolder (Some 0) CompactReadyFilename) = None"
    and env: "new_binlog_env (io_open io ReadAppend)"
  shows "\<exists>d'. db_open c io key d = Some (noError, d') \<and> opened_from block c key 0 Map.empty d d'
    \<and> healthy d' \<and> tp_relative (ix_time d') < 2 ^ 31 \<and> tp_system (ix_time d') \<le> GetUnixtime io \<and> File_offset (db_binlog d') = 16"
proof -
  have d: "ix_settings d = settings" "db_disk d = disk" "\<not> f_isOpen (db_binlog d)"
    using Database_new_fields [OF new] .
  have v: "readVersion d = 0" using none(1) d(2) by (simp add: readVersion_def ReadVersionValue_def)
  have u: "unopened (clearState d)" using s d(1) by (simp add: clearState_unopened)
  obtain d' where "openBinlog c io 0 ReadAppend key (clearState d) = Some (Success, d')" "opened_from block c key 0 Map.empty (clearState d) d'"
    "healthy d'" "tp_relative (ix_time d') < 2 ^ 31" "tp_system (ix_time d') \<le> GetUnixtime io" "File_offset (db_binlog d') = 16"
    using openBinlog_new [OF c u _ _ env, of 0 key] none d(2) by auto
  then show ?thesis using db_open_closed [OF d(3)] v opened_from_disk [of "clearState d" d] by auto
qed

lemma db_open_reads:
  assumes c: "ctr_mode block c" and closed: "\<not> f_isOpen (db_binlog d)" and s: "settings_fine (ix_settings d)"
    and b: "binlog_on_disk block c (ix_settings d) key (readVersion d) (db_disk d) st"
    and env: "fe_folder (io_open io ReadAppend)" "fe_lock (io_open io ReadAppend) = Locked"
  shows "\<exists>d'. db_open c io key d = Some (noError, d') \<and> opened_from block c key (readVersion d) (fst st) d d'"
proof -
  have "binlog_on_disk block c (ix_settings (clearState d)) key (readVersion d) (db_disk (clearState d)) st" using b by simp
  from openBinlog_existing [OF c clearState_unopened [OF s] this env] obtain d' where
    "openBinlog c io (readVersion d) ReadAppend key (clearState d) = Some (Success, d')"
    "opened_from block c key (readVersion d) (fst st) (clearState d) d'" by blast
  then show ?thesis using db_open_closed [OF closed] opened_from_disk [of "clearState d" d] by auto
qed

section \<open>What is on disk\<close>

text \<open>The binlog of a database that is open has its map, but for removals that wait.\<close>

lemma fine_on_disk:
  assumes fine: "db_fine block c True d" and op: "f_isOpen (db_binlog d)" and size: "File_offset (db_binlog d) < 2 ^ 60"
    and v: "db_folder d = Some version" "db_disk d (InFolder (Some version) CompactReadyFilename) = None"
  shows "\<exists>st. binlog_on_disk block c (ix_settings d) (db_key d) version (db_disk d) st \<and> map_of (ix_map d) = fst st |` (- set (db_removing d))"
proof -
  note f = db_fineD [OF fine]
  obtain m where m: "binlog_content block c True d (m, tp_relative (ix_time d))" "map_of (ix_map d) = m |` (- set (db_removing d))"
    using f(10) by (auto simp: replays_to_def)
  then have "binlog_at block c True (ix_settings d) (db_key d) (db_binlog d) (m, tp_relative (ix_time d))"
    using op size by (simp add: binlog_content_def)
  then obtain start time rs where h: "binlog_start (ix_settings d) start time" "replays (ix_settings d) rs time (m, tp_relative (ix_time d))"
    "file_rep block c (db_key d) (db_binlog d) (start @ bytes_of_records rs) (16 + length (bytes_of_records rs)) (16 + length (bytes_of_records rs))"
    unfolding binlog_at_def by auto
  have "disk_holds block c (db_key d) (f_data (db_binlog d)) (start @ bytes_of_records rs)" by (rule file_rep_disk [OF h(3)])
  moreover have "db_disk d (InFolder (Some version) BinlogFilename) = Some (f_data (db_binlog d))"
    using f(9) op v(1) by (auto simp: binlog_ok_def binlogPath_def)
  moreover have "length (bytes_of_records rs) < 2 ^ 60"
    using size file_rep_simps(2) [OF h(3)] by simp
  ultimately show ?thesis using h(1,2) m(2) v(2)
    by (intro exI [of _ "(m, tp_relative (ix_time d))"]) (auto simp: binlog_on_disk_def)
qed

lemma opened_value_there:
  assumes "opened_from block c (db_key d) version m d0 d'" and "db_disk d0 = db_disk d" and "db_folder d = Some version"
    and "value_there c key checksum value d" and "values_of d' key = values_of d key"
  shows "value_there c key checksum value d'"
proof (rule value_there_same [OF assms(4,5)])
  show "data_kept d d'" using assms(1-3) place_not_binlog by (simp add: opened_from_def data_kept_def placePath_def)
  show "db_key d' = db_key d" using assms(1) by (simp add: opened_from_def)
qed

section \<open>Opening again\<close>

text \<open>The folder that is open is the one of the version on disk, and no compacted binlog waits in it.\<close>

definition current_on_disk :: "Database \<Rightarrow> bool" where
  "current_on_disk d \<longleftrightarrow>
     db_folder d = Some (readVersion d) \<and> db_disk d (InFolder (Some (readVersion d)) CompactReadyFilename) = None"

definition lets_open :: "cache_io \<Rightarrow> bool" where
  "lets_open io \<longleftrightarrow> fe_folder (io_open io ReadAppend) \<and> fe_lock (io_open io ReadAppend) = Locked"

lemma readVersion_disk: "db_disk d' = db_disk d \<Longrightarrow> readVersion d' = readVersion d"
  by (simp add: readVersion_def)

lemma db_open_again:
  assumes c: "ctr_mode block c" and fine: "db_fine block c True d" and op: "f_isOpen (db_binlog d)"
    and size: "File_offset (db_binlog d) < 2 ^ 60" and here: "current_on_disk d"
    and d0: "\<not> f_isOpen (db_binlog d0)" "ix_settings d0 = ix_settings d" "db_disk d0 = db_disk d" and io: "lets_open io"
  shows "\<exists>m d2. db_open c io (db_key d) d0 = Some (noError, d2) \<and> opened_from block c (db_key d) (readVersion d) m d0 d2
    \<and> map_of (ix_map d) = m |` (- set (db_removing d))"
proof -
  have v: "db_folder d = Some (readVersion d)" "db_disk d (InFolder (Some (readVersion d)) CompactReadyFilename) = None"
    using here by (simp_all add: current_on_disk_def)
  obtain st where st: "binlog_on_disk block c (ix_settings d) (db_key d) (readVersion d) (db_disk d) st"
    "map_of (ix_map d) = fst st |` (- set (db_removing d))" using fine_on_disk [OF fine op size v] by blast
  have b: "binlog_on_disk block c (ix_settings d0) (db_key d) (readVersion d0) (db_disk d0) st"
    using st(1) d0(2,3) readVersion_disk [OF d0(3)] by simp
  have s: "settings_fine (ix_settings d0)" using db_fineD(2) [OF fine] d0(2) by simp
  have "fe_folder (io_open io ReadAppend)" "fe_lock (io_open io ReadAppend) = Locked" using io by (simp_all add: lets_open_def)
  from db_open_reads [OF c d0(1) s b this] show ?thesis using st(2) readVersion_disk [OF d0(3)] by metis
qed

lemma opened_keeps_values:
  assumes o: "opened_from block c (db_key d) (readVersion d) m d0 d2" and disk: "db_disk d0 = db_disk d" and here: "current_on_disk d"
    and m: "map_of (ix_map d) = m |` (- set (db_removing d))" and there: "value_there c key checksum value d"
  shows "value_there c key checksum value d2"
proof -
  obtain entry where "map_of (ix_map d) key = Some entry" using there by (auto simp: value_there_def values_of_def)
  then have "m key = Some entry" using m by (auto simp: restrict_map_def split: if_splits)
  then have "values_of d2 key = values_of d key" using o \<open>map_of (ix_map d) key = Some entry\<close> by (simp add: opened_from_def values_of_def)
  then show ?thesis using opened_value_there [OF o disk _ there] here by (simp add: current_on_disk_def)
qed

text \<open>Closing writes what waits.\<close>

lemma db_close_healthy:
  assumes c: "ctr_mode block c" and fine: "db_fine block c clean d" and clock: "clock_fine io d" and h: "healthy d"
    and size: "File_offset (db_binlog d) < 2 ^ 59"
  shows "\<exists>d1. db_close c io d = Some (clearState (binlog_close d1)) \<and> good_step block c clean io d d1 \<and> healthy d1
    \<and> values_of d1 = values_of d \<and> db_removing d1 = [] \<and> data_kept d d1 \<and> keeps_files d d1 \<and> File_offset (db_binlog d1) < 2 ^ 60"
proof -
  obtain d1 where d1: "writeBundles c io d = Some d1" "good_step block c clean io d d1" "values_of d1 = values_of d" "db_removing d1 = []"
    "data_kept d d1" using writeBundles_fine [OF c fine clock] by blast
  have h1: "healthy d1" by (rule writeBundles_healthy [OF c h d1(1)])
  note f = db_fineD [OF fine]
  have "maxBundledRecords (ix_settings d) < 2 ^ 24" using f(2) by (simp add: settings_fine_def checkSettings_def kBundledRecordsLimit_def)
  then have "int (length (db_removing d)) < 2 ^ 24" "int (length (db_accessed d)) < 2 ^ 24" using f(5,6) by (simp_all add: pending_fine_def)
  moreover have enc: "48 \<le> f_encryptionOffset (db_binlog d)" using f(9) h by (simp add: binlog_ok_def healthy_def)
  then have "File_offset (db_binlog d) = f_encryptionOffset (db_binlog d) - 48"
    by (simp add: File_offset_def header_size_def kSaltSize_def kSha256Size_def Let_def)
  then have "f_encryptionOffset (db_binlog d) < 2 ^ 59 + 48" using size by simp
  ultimately have "f_encryptionOffset (db_binlog d1) < 2 ^ 60" using writeBundles_offset [OF c h d1(1)] by simp
  then have "File_offset (db_binlog d1) < 2 ^ 60" by (simp add: File_offset_def header_size_def kSaltSize_def kSha256Size_def Let_def)
  moreover have "db_close c io d = Some (clearState (binlog_close d1))" using h d1(1) by (simp add: db_close_def healthy_def)
  ultimately show ?thesis using d1 h1 writeBundles_files [OF d1(1)] by blast
qed

lemma values_total:
  assumes "index_ok d" and "index_ok d'" and "values_of d' = values_of d"
  shows "ix_totalSize d' = ix_totalSize d"
proof -
  have eq: "map_option en_size (map_of (ix_map d') key) = map_option en_size (map_of (ix_map d) key)" for key
    using fun_cong [OF assms(3), of key] by (cases "map_of (ix_map d') key"; cases "map_of (ix_map d) key") (auto simp: values_of_def dest: arg_cong [where f = en_size])
  then have "dom (map_of (ix_map d')) = dom (map_of (ix_map d))" by (auto simp: dom_def) (metis map_option_is_None not_None_eq)+
  moreover have "en_size (the (map_of (ix_map d') key)) = en_size (the (map_of (ix_map d) key))" if "key \<in> dom (map_of (ix_map d))" for key
    using eq [of key] that by auto
  ultimately have "sizes_of (map_of (ix_map d')) (dom (map_of (ix_map d'))) = sizes_of (map_of (ix_map d)) (dom (map_of (ix_map d)))"
    by (simp add: sizes_of_def)
  then show ?thesis unfolding index_total [OF assms(1)] index_total [OF assms(2)] .
qed

end
