(* ===== verification/CacheSteps.thy ===== *)
theory CacheSteps
  imports CacheRestart
begin

text \<open>
  The calls of an open disk cache, those of its clients and those of its timers, as the steps of a
  state machine.
\<close>

section \<open>The rest of the operations\<close>

lemma writeBundles_timer_fine:
  assumes c: "ctr_mode block c" and fine: "db_fine block c clean d" and clock: "clock_fine io d"
  shows "\<exists>d'. writeBundles_timer c io d = Some d' \<and> good_step block c clean io d d'"
proof -
  let ?d0 = "d\<lparr>db_writeBundlesTimer := None\<rparr>"
  have g0: "good_step block c clean io d ?d0" by (rule good_step_fields(3) [OF good_step_refl [OF fine clock]])
  obtain d1 where d1: "writeBundles c io ?d0 = Some d1" "good_step block c clean io ?d0 d1"
    using writeBundles_fine [OF c good_stepD(1,2) [OF g0]] by blast
  have "checkCompactor io d1 = d1\<lparr>db_pruneTimer := db_pruneTimer d1, db_compactor := db_compactor (checkCompactor io d1)\<rparr>"
    by (simp add: checkCompactor_def Let_def)
  then have "good_step block c clean io d (checkCompactor io d1)"
    using good_step_fields(2) [OF good_step_trans [OF g0 d1(2)]] by metis
  then show ?thesis using d1(1) by (simp add: writeBundles_timer_def)
qed

lemma prune_timer_good: "good_step block c clean io d d1 \<Longrightarrow> good_step block c clean io d (d1\<lparr>db_pruneTimer := timer\<rparr>)"
  using good_step_fields(2) [where timer = timer and compactor = "db_compactor d1" and d' = d1] by simp

lemma db_prune_any:
  assumes c: "ctr_mode block c" and fine: "db_fine block c clean d" and clock: "clock_fine io d" and io: "io_fine io"
  shows "\<exists>d'. db_prune c io d = Some d' \<and> good_step block c clean io d d'"
proof (cases "db_stale d = []")
  case True
  then show ?thesis using db_prune_fine [OF assms] by blast
next
  case False
  then show ?thesis using good_step_refl [OF fine clock] by (simp add: db_prune_def)
qed

lemma db_prune_timer_fine:
  assumes c: "ctr_mode block c" and fine: "db_fine block c clean d" and clock: "clock_fine io d" and io: "io_fine io"
  shows "\<exists>d'. db_prune_timer c io d = Some d' \<and> good_step block c clean io d d'"
proof -
  have g: "good_step block c clean io d (d\<lparr>db_pruneTimer := None\<rparr>)" by (rule prune_timer_good [OF good_step_refl [OF fine clock]])
  show ?thesis using db_prune_any [OF c good_stepD(1,2) [OF g] io] good_step_trans [OF g] by (auto simp: db_prune_timer_def)
qed

lemma db_clearByTag_fine:
  assumes c: "ctr_mode block c" and fine: "db_fine block c clean d" and clock: "clock_fine io d"
  shows "\<exists>d'. db_clearByTag c io tag d = Some (noError, d') \<and> good_step block c clean io d d'"
proof -
  let ?d1 = "d\<lparr>db_stale := db_stale d @ map fst (filter (\<lambda>(key, entry). en_tag entry = tag) (io_order io (ix_map d)))\<rparr>"
  have g: "good_step block c clean io d ?d1" by (rule good_step_fields(1) [OF good_step_refl [OF fine clock]])
  obtain d' where "startStaleClear c io ?d1 = Some d'" "good_step block c clean io d d'" using startStaleClear_fine [OF c g] by blast
  then show ?thesis using g unfolding db_clearByTag_def Let_def by (cases "db_stale d = []") auto
qed

lemma clearStaleChunk_posted_fine:
  assumes c: "ctr_mode block c" and fine: "db_fine block c clean d" and clock: "clock_fine io d"
  shows "\<exists>d'. clearStaleChunk_posted c io d = Some d' \<and> good_step block c clean io d d'"
proof -
  have g: "good_step block c clean io d (d\<lparr>db_clearingStale := False\<rparr>)" by (rule good_step_fields(4) [OF good_step_refl [OF fine clock]])
  show ?thesis using clearStaleChunk_fine [OF c good_stepD(1,2) [OF g]] good_step_trans [OF g] good_step_refl [OF fine clock]
    by (auto simp: clearStaleChunk_posted_def)
qed

lemma pushing_good: "db_fine block c clean d \<Longrightarrow> clock_fine io d \<Longrightarrow> good_step block c clean io d (d\<lparr>ix_pushing := b\<rparr>)"
  by (simp add: good_step_def db_frame_def keeps_free_def isFreePlace_def placePath_def clock_fine_def)

lemma pushStats_posted_fine:
  assumes "db_fine block c clean d" and "clock_fine io d"
  shows "good_step block c clean io d (pushStats_posted d)"
  using pushStats_good [OF pushing_good [OF assms, of False]] good_step_refl [OF assms] by (simp add: pushStats_posted_def)

lemma cleanerFinished_fine:
  assumes "db_fine block c clean d" and "clock_fine io d"
  shows "good_step block c clean io d (db_cleanerFinished d)"
  using assms by (simp add: db_cleanerFinished_def pushStatsDelayed_def good_step_def db_frame_def keeps_free_def isFreePlace_def placePath_def
    clock_fine_def)

section \<open>New limits\<close>

text \<open>The limits of the settings that may be changed while the cache is open are not those of the binlog.\<close>

definition new_limits :: "SettingsUpdate \<Rightarrow> Settings \<Rightarrow> Settings" where
  "new_limits update settings =
     settings\<lparr>totalSizeLimit := new_totalSizeLimit update, totalTimeLimit := new_totalTimeLimit update\<rparr>"

lemma size_fits_limits [simp]: "size_fits (new_limits update settings) r = size_fits settings r"
  by (simp add: size_fits_def new_limits_def)

lemma record_effect_limits [simp]: "record_effect (new_limits update settings) = record_effect settings"
proof -
  have same: "store_effect (new_limits update settings) = store_effect settings"
    "store_with_time_effect (new_limits update settings) = store_with_time_effect settings"
    by (simp_all add: fun_eq_iff store_effect_def store_with_time_effect_def Let_def)
  show ?thesis unfolding record_effect_def same by (rule refl)
qed

lemma binlog_at_limits: "binlog_at block c clean (new_limits update settings) key f st = binlog_at block c clean settings key f st"
proof -
  have "records_fit (new_limits update settings) rs = records_fit settings rs" for rs by (simp add: records_fit_def new_limits_def)
  moreover have "binlog_start (new_limits update settings) start time = binlog_start settings start time" for start time
    by (simp add: binlog_start_def new_limits_def)
  ultimately show ?thesis by (simp add: binlog_at_def replays_def)
qed

lemma limits_fine:
  assumes fine: "db_fine block c clean d" and ok: "checkSettings (new_limits update (ix_settings d))"
  shows "db_fine block c clean (d\<lparr>ix_settings := new_limits update (ix_settings d)\<rparr>)"
proof -
  note f = db_fineD [OF fine]
  let ?s = "new_limits update (ix_settings d)" and ?d = "d\<lparr>ix_settings := new_limits update (ix_settings d)\<rparr>"
  have fields: "maxDataSize ?s = maxDataSize (ix_settings d)" "maxBundledRecords ?s = maxBundledRecords (ix_settings d)"
    "trackEstimatedTime ?s = trackEstimatedTime (ix_settings d)" "readBlockSize ?s = readBlockSize (ix_settings d)"
    by (simp_all add: new_limits_def)
  have "settings_fine ?s"
    using f(2) ok unfolding settings_fine_def reader_settings_def CheckSettings_def fields by simp
  moreover have "index_ok ?d" using f(1) by (simp add: index_ok_def)
  moreover have "entry_fine ?s = entry_fine (ix_settings d)" "pending_fine ?s = pending_fine (ix_settings d)"
    by (simp_all add: fun_eq_iff entry_fine_def pending_fine_def fields)
  moreover have "binlog_ok ?d = binlog_ok d" by (simp add: binlog_ok_def binlogPath_def)
  moreover have "replays_to block c clean ?d = replays_to block c clean d"
    by (simp add: replays_to_def binlog_content_def binlog_at_limits)
  ultimately show ?thesis using f(3-10) fields by (simp add: db_fine_def)
qed

section \<open>Steps\<close>

datatype cache_call =
    CallPut Key TaggedValue
  | CallPutIfEmpty Key TaggedValue
  | CallCopyIfEmpty Key Key
  | CallMoveIfEmpty Key Key
  | CallGet Key
  | CallRemove Key
  | CallClearByTag "8 word"
  | CallWaitForCleaner
  | CallUpdateSettings SettingsUpdate
  | WriteBundlesTimer
  | PruneTimer
  | StaleChunkPosted
  | StatsPosted
  | CleanerFinished

fun cache_step :: "crypto \<Rightarrow> (bytes \<Rightarrow> 32 word) \<Rightarrow> cache_io \<Rightarrow> cache_call \<Rightarrow> Database \<Rightarrow> Database option" where
  "cache_step c xxh io (CallPut key value) d = map_option snd (db_put c xxh io key value d)"
| "cache_step c xxh io (CallPutIfEmpty key value) d = map_option snd (db_putIfEmpty c xxh io key value d)"
| "cache_step c xxh io (CallCopyIfEmpty source target) d = map_option snd (db_copyIfEmpty c xxh io source target d)"
| "cache_step c xxh io (CallMoveIfEmpty source target) d = map_option snd (db_moveIfEmpty c io source target d)"
| "cache_step c xxh io (CallGet key) d = map_option snd (db_get c xxh io key d)"
| "cache_step c xxh io (CallRemove key) d = map_option snd (db_remove c io key d)"
| "cache_step c xxh io (CallClearByTag tag) d = map_option snd (db_clearByTag c io tag d)"
| "cache_step c xxh io CallWaitForCleaner d = map_option snd (db_waitForCleaner c io d)"
| "cache_step c xxh io (CallUpdateSettings update) d = db_updateSettings io update d"
| "cache_step c xxh io WriteBundlesTimer d = writeBundles_timer c io d"
| "cache_step c xxh io PruneTimer d = db_prune_timer c io d"
| "cache_step c xxh io StaleChunkPosted d = clearStaleChunk_posted c io d"
| "cache_step c xxh io StatsPosted d = Some (pushStats_posted d)"
| "cache_step c xxh io CleanerFinished d = Some (db_cleanerFinished d)"

text \<open>
  What is asked of a caller and of the system: values are not too big, new limits are right, the clock
  did not run for \<open>2^64\<close> seconds, and some random place is free.
\<close>

fun call_allowed :: "cache_call \<Rightarrow> Database \<Rightarrow> bool" where
  "call_allowed (CallPut key value) d \<longleftrightarrow> int (length (tv_bytes value)) \<le> maxDataSize (ix_settings d)"
| "call_allowed (CallPutIfEmpty key value) d \<longleftrightarrow> int (length (tv_bytes value)) \<le> maxDataSize (ix_settings d)"
| "call_allowed (CallUpdateSettings update) d \<longleftrightarrow> checkSettings (new_limits update (ix_settings d))"
| "call_allowed _ d \<longleftrightarrow> True"

definition step_allowed :: "cache_io \<Rightarrow> cache_call \<Rightarrow> Database \<Rightarrow> bool" where
  "step_allowed io call d \<longleftrightarrow> io_fine io \<and> clock_fine io d \<and> places_free io d \<and> call_allowed call d"

lemma cache_step_fine:
  assumes c: "ctr_mode block c" and fine: "db_fine block c clean d" and a: "step_allowed io call d"
  shows "\<exists>d'. cache_step c xxh io call d = Some d' \<and> db_fine block c clean d'"
proof -
  have io: "io_fine io" and clock: "clock_fine io d" and free: "places_free io d" and call: "call_allowed call d"
    using a by (simp_all add: step_allowed_def)
  note good = good_stepD(1) and based = base_stepD(1)
  show ?thesis
  proof (cases call)
    case (CallPut key val)
    then show ?thesis using db_put_fine [OF c fine clock io free, of val xxh key] call based by fastforce
  next
    case (CallPutIfEmpty key val)
    then show ?thesis using db_putIfEmpty_fine [OF c fine clock io free, of val xxh key] call based by fastforce
  next
    case (CallCopyIfEmpty source target)
    then show ?thesis using db_copyIfEmpty_fine [OF c fine clock io free, of xxh source target] based by fastforce
  next
    case (CallMoveIfEmpty source target)
    then show ?thesis using db_moveIfEmpty_fine [OF c fine clock, of source target] good by fastforce
  next
    case (CallGet key)
    then show ?thesis using db_get_fine [OF c fine clock io, of xxh key] good by fastforce
  next
    case (CallRemove key)
    then show ?thesis using remove_base [OF c fine clock, of key] good by fastforce
  next
    case (CallClearByTag tag)
    then show ?thesis using db_clearByTag_fine [OF c fine clock, of tag] good by fastforce
  next
    case CallWaitForCleaner
    then show ?thesis using db_waitForCleaner_fine [OF c fine clock] good by fastforce
  next
    case (CallUpdateSettings update)
    have "checkSettings (new_limits update (ix_settings d))" using call CallUpdateSettings by simp
    from limits_fine [OF fine this] this show ?thesis
      using CallUpdateSettings optimize_fine [of io "d\<lparr>ix_settings := new_limits update (ix_settings d)\<rparr>"]
      by (auto simp: db_updateSettings_def new_limits_def Let_def)
  next
    case WriteBundlesTimer
    then show ?thesis using writeBundles_timer_fine [OF c fine clock] good by fastforce
  next
    case PruneTimer
    then show ?thesis using db_prune_timer_fine [OF c fine clock io] good by fastforce
  next
    case StaleChunkPosted
    then show ?thesis using clearStaleChunk_posted_fine [OF c fine clock] good by fastforce
  next
    case StatsPosted
    then show ?thesis using good [OF pushStats_posted_fine [OF fine clock]] by simp
  next
    case CleanerFinished
    then show ?thesis using good [OF cleanerFinished_fine [OF fine clock]] by simp
  qed
qed

inductive cache_reachable :: "crypto \<Rightarrow> (bytes \<Rightarrow> 32 word) \<Rightarrow> Database \<Rightarrow> Database \<Rightarrow> bool" for c xxh start where
  reach_start: "cache_reachable c xxh start start"
| reach_step: "cache_reachable c xxh start d \<Longrightarrow> step_allowed io call d \<Longrightarrow> cache_step c xxh io call d = Some d' \<Longrightarrow>
    cache_reachable c xxh start d'"

lemma cache_reachable_fine:
  assumes "ctr_mode block c" and "cache_reachable c xxh start d" and "db_fine block c clean start"
  shows "db_fine block c clean d"
  using assms(2,3)
proof induction
  case (reach_step d io call d')
  then show ?case using cache_step_fine [OF assms(1) _ reach_step.hyps(2), of clean xxh] by auto
qed

end
