(* ===== verification/CacheOldest.thy ===== *)
theory CacheOldest
  imports CachePruning
begin

text \<open>
  Which entries pruning takes when the disk cache is too big: the oldest ones, and no more than needed.
\<close>

section \<open>Buckets\<close>

lemma multi_map_insert_sorted:
  fixes b :: "int \<times> 'v"
  assumes s: "sorted_wrt (\<lambda>x y. fst y \<le> fst x) xs"
  shows "\<exists>pre post. xs = pre @ post \<and> fst (flat_multi_map_insert (>) b xs) = pre @ b # post
    \<and> (\<forall>x \<in> set pre. fst b \<le> fst x) \<and> (\<forall>x \<in> set post. fst x \<le> fst b) \<and> (pre = [] \<longrightarrow> xs = [] \<or> fst (hd xs) < fst b)"
proof (cases "xs = [] \<or> fst (hd xs) < fst b")
  case True
  have "\<forall>x \<in> set xs. fst x \<le> fst b" using True s by (cases xs) auto
  then show ?thesis using True by (intro exI [of _ "[]"] exI [of _ xs]) (auto simp: flat_multi_map_insert_def)
next
  case no: False
  show ?thesis
  proof (cases "fst (last xs) < fst b")
    case False
    obtain ys y where xs: "xs = ys @ [y]" using no by (cases xs rule: rev_cases) auto
    have "\<forall>x \<in> set xs. fst b \<le> fst x" using False s by (auto simp: xs sorted_wrt_append)
    then show ?thesis using no False by (intro exI [of _ xs] exI [of _ "[]"]) (auto simp: flat_multi_map_insert_def)
  next
    case True
    let ?P = "\<lambda>e. \<not> fst e < fst b"
    have i: "fst (flat_multi_map_insert (>) b xs) = takeWhile ?P xs @ b # dropWhile ?P xs"
      using no True by (simp add: flat_multi_map_insert_def flat_map_getUpperBound_def upper_bound_def insert_at_def
        take_partition_point drop_partition_point Let_def)
    have "\<forall>x \<in> set (dropWhile ?P xs). fst x \<le> fst b"
    proof (cases "dropWhile ?P xs")
      case (Cons z zs)
      then have "fst z < fst b" using hd_dropWhile [of ?P xs] by simp
      moreover have "sorted_wrt (\<lambda>x y. fst y \<le> fst x) (takeWhile ?P xs @ z # zs)" using s Cons takeWhile_dropWhile_id [of ?P xs] by metis
      ultimately show ?thesis using Cons by (auto simp: sorted_wrt_append)
    next
      case Nil
      show ?thesis unfolding Nil by simp
    qed
    moreover have "\<forall>x \<in> set (takeWhile ?P xs). fst b \<le> fst x" by (auto dest: set_takeWhileD)
    moreover have "takeWhile ?P xs \<noteq> []" using no by (cases xs) auto
    ultimately show ?thesis unfolding i by (intro exI [of _ "takeWhile ?P xs"] exI [of _ "dropWhile ?P xs"]) simp
  qed
qed

lemma drop_first_stops:
  assumes "drop_first removeSize adding oldest n = (oldest', n')"
  shows "\<exists>dropped. oldest = dropped @ oldest' \<and> n' = n - bucket_sizes dropped
    \<and> (dropped \<noteq> [] \<longrightarrow> removeSize \<le> n' + en_size adding)
    \<and> (\<forall>b \<in> set dropped. en_useTime adding \<le> en_useTime (snd (snd b)))
    \<and> (oldest' \<noteq> [] \<and> en_useTime adding \<le> en_useTime (snd (snd (hd oldest'))) \<longrightarrow>
        n' + en_size adding - en_size (snd (snd (hd oldest'))) < removeSize)"
  using assms
proof (induction removeSize adding oldest n rule: drop_first.induct)
  case (2 removeSize adding time key first oldest n)
  show ?case
  proof (cases "en_useTime adding \<le> en_useTime first \<and> en_size first \<le> n + en_size adding - removeSize")
    case True
    then obtain dropped where d: "oldest = dropped @ oldest'" "n' = n - en_size first - bucket_sizes dropped"
      "dropped \<noteq> [] \<longrightarrow> removeSize \<le> n' + en_size adding" "\<forall>b \<in> set dropped. en_useTime adding \<le> en_useTime (snd (snd b))"
      "oldest' \<noteq> [] \<and> en_useTime adding \<le> en_useTime (snd (snd (hd oldest'))) \<longrightarrow>
        n' + en_size adding - en_size (snd (snd (hd oldest'))) < removeSize"
      using "2.IH" "2.prems" by auto
    then show ?thesis using True by (intro exI [of _ "(time, key, first) # dropped"]) (cases "dropped = []"; auto)
  next
    case False
    then show ?thesis using "2.prems" by (intro exI [of _ "[]"]) auto
  qed
qed simp

text \<open>
  What the loop keeps: the newest bucket is first and needed, and what is not in a bucket is newer
  than all that are, which are enough.
\<close>

definition oldest_kept :: "int \<Rightarrow> Key list \<Rightarrow> (Key \<times> Entry) list \<Rightarrow> buckets \<Rightarrow> int \<Rightarrow> bool" where
  "oldest_kept removeSize stale seen oldest n \<longleftrightarrow>
     n = bucket_sizes oldest \<and> sorted_wrt (\<lambda>x y. fst y \<le> fst x) oldest
     \<and> (\<forall>b \<in> set oldest. fst b = int (en_useTime (snd (snd b))) \<and> 0 < en_size (snd (snd b)))
     \<and> (oldest \<noteq> [] \<longrightarrow> n - en_size (snd (snd (hd oldest))) < removeSize)
     \<and> (\<forall>key entry. (key, entry) \<in> buckets_of stale seen \<longrightarrow> (key, entry) \<notin> snd ` set oldest \<longrightarrow>
          removeSize \<le> n \<and> (\<forall>b \<in> set oldest. fst b \<le> int (en_useTime entry)))"

lemma oldest_kept_add:
  assumes kept: "oldest_kept removeSize stale seen oldest n" and add: "n < removeSize \<or> en_useTime entry < en_useTime (snd (snd (hd oldest)))"
    and d: "drop_first removeSize entry oldest n = (oldest1, n1)" and size: "0 < en_size entry" and pos: "0 < removeSize"
  shows "oldest_kept removeSize stale ((key, entry) # seen)
    (fst (flat_multi_map_insert (>) (int (en_useTime entry), key, entry) oldest1)) (n1 + en_size entry)"
proof -
  let ?b = "(int (en_useTime entry), key, entry)"
  let ?new = "fst (flat_multi_map_insert (>) ?b oldest1)"
  have k: "n = bucket_sizes oldest" "sorted_wrt (\<lambda>x y. fst y \<le> fst x) oldest"
    "\<And>b. b \<in> set oldest \<Longrightarrow> fst b = int (en_useTime (snd (snd b))) \<and> 0 < en_size (snd (snd b))"
    "oldest \<noteq> [] \<longrightarrow> n - en_size (snd (snd (hd oldest))) < removeSize"
    "\<And>k e. (k, e) \<in> buckets_of stale seen \<Longrightarrow> (k, e) \<notin> snd ` set oldest \<Longrightarrow>
          removeSize \<le> n \<and> (\<forall>b \<in> set oldest. fst b \<le> int (en_useTime e))"
    using kept unfolding oldest_kept_def by blast+
  from drop_first_stops [OF d] obtain dropped where dr: "oldest = dropped @ oldest1" "n1 = n - bucket_sizes dropped"
    "dropped \<noteq> [] \<longrightarrow> removeSize \<le> n1 + en_size entry" "\<forall>b \<in> set dropped. en_useTime entry \<le> en_useTime (snd (snd b))"
    "oldest1 \<noteq> [] \<and> en_useTime entry \<le> en_useTime (snd (snd (hd oldest1))) \<longrightarrow>
        n1 + en_size entry - en_size (snd (snd (hd oldest1))) < removeSize" by blast
  have s1: "sorted_wrt (\<lambda>x y. fst y \<le> fst x) oldest1" using k(2) by (simp add: dr(1) sorted_wrt_append)
  obtain pre post where i: "oldest1 = pre @ post" "?new = pre @ ?b # post" "\<forall>x \<in> set pre. int (en_useTime entry) \<le> fst x"
    "\<forall>x \<in> set post. fst x \<le> int (en_useTime entry)" "pre = [] \<longrightarrow> oldest1 = [] \<or> fst (hd oldest1) < int (en_useTime entry)"
    using multi_map_insert_sorted [OF s1, of ?b] unfolding fst_conv by blast
  have less: "n1 < removeSize" if "n < removeSize \<or> dropped \<noteq> []"
  proof (cases "dropped = []")
    case True
    then show ?thesis using that dr(2) by simp
  next
    case False
    then obtain b bs where b: "dropped = b # bs" by (cases dropped) auto
    have "0 \<le> en_size (snd (snd x))" if "x \<in> set bs" for x using k(3) [of x] that by (simp add: dr(1) b)
    then have "0 \<le> bucket_sizes bs" unfolding bucket_sizes_def case_prod_unfold by (intro sum_list_nonneg) auto
    then show ?thesis using k(4) dr(2) by (simp add: dr(1) b)
  qed
  have enough: "removeSize \<le> n1 + en_size entry" if "removeSize \<le> n"
    using that dr(2,3) size by (cases "dropped = []") auto
  have "n1 + en_size entry = bucket_sizes ?new" unfolding i(2) using k(1) by (simp add: dr(1,2) i(1))
  moreover have "sorted_wrt (\<lambda>x y. fst y \<le> fst x) ?new" unfolding i(2) using s1 i(3,4) by (auto simp: i(1) sorted_wrt_append)
  moreover have "\<forall>b \<in> set ?new. fst b = int (en_useTime (snd (snd b))) \<and> 0 < en_size (snd (snd b))"
    unfolding i(2) using k(3) size by (auto simp: dr(1) i(1))
  moreover have "n1 + en_size entry - en_size (snd (snd (hd ?new))) < removeSize"
  proof (cases "pre = []")
    case True
    have "n < removeSize \<or> dropped \<noteq> []"
    proof (rule ccontr)
      assume "\<not> ?thesis"
      then have "removeSize \<le> n" "oldest1 = oldest" using dr(1) by auto
      then have "en_useTime entry < en_useTime (snd (snd (hd oldest)))" "oldest \<noteq> []" using add k(1) pos by auto
      then show False using i(5) True k(3) [of "hd oldest"] \<open>oldest1 = oldest\<close> by auto
    qed
    then show ?thesis using less True by (simp add: i(2))
  next
    case False
    then have h: "hd ?new = hd oldest1" "hd oldest1 \<in> set pre" "oldest1 \<noteq> []"
      unfolding i(2) using i(1) by (simp_all add: hd_append)
    have "hd oldest1 \<in> set oldest" using h(3) by (simp add: dr(1))
    then have "en_useTime entry \<le> en_useTime (snd (snd (hd oldest1)))" using i(3) h(2) k(3) by fastforce
    then show ?thesis using dr(5) h by simp
  qed
  moreover have "removeSize \<le> n1 + en_size entry \<and> (\<forall>b \<in> set ?new. fst b \<le> int (en_useTime e))"
    if e: "(k, e) \<in> buckets_of stale ((key, entry) # seen)" "(k, e) \<notin> snd ` set ?new" for k e
  proof -
    have "(k, e) \<noteq> (key, entry)" "(k, e) \<notin> snd ` set oldest1" using e(2) unfolding i(2) by (auto simp: i(1))
    then have seen: "(k, e) \<in> buckets_of stale seen" using e(1) by (auto simp: buckets_of_def)
    show ?thesis
    proof (cases "(k, e) \<in> snd ` set dropped")
      case True
      then obtain t where t: "(t, k, e) \<in> set dropped" by auto
      have "\<forall>x \<in> set dropped. \<forall>y \<in> set oldest1. fst y \<le> fst x" using k(2) unfolding dr(1) sorted_wrt_append by simp
      from bspec [OF this t] have "\<forall>b \<in> set oldest1. fst b \<le> t" by simp
      moreover have "t = int (en_useTime e)" "en_useTime entry \<le> en_useTime e" using k(3) [of "(t, k, e)"] dr(4) t by (auto simp: dr(1))
      ultimately show ?thesis using dr(3) t unfolding i(2) by (auto simp: i(1))
    next
      case False
      then have "(k, e) \<notin> snd ` set oldest" using \<open>(k, e) \<notin> snd ` set oldest1\<close> by (auto simp: dr(1))
      from k(5) [OF seen this] have m: "removeSize \<le> n" "\<forall>b \<in> set oldest. fst b \<le> int (en_useTime e)" by auto
      then have ne: "oldest \<noteq> []" "en_useTime entry < en_useTime (snd (snd (hd oldest)))" using add k(1) pos by auto
      have "hd oldest \<in> set oldest" using ne(1) by simp
      then have "en_useTime entry < en_useTime e" using ne(2) m(2) k(3) by fastforce
      then show ?thesis using enough [OF m(1)] m(2) unfolding i(2) by (auto simp: dr(1) i(1))
    qed
  qed
  ultimately show ?thesis unfolding oldest_kept_def by blast
qed

lemma oldest_kept_loop:
  assumes "sorted_wrt (<) stale" and "\<forall>b \<in> set m. 0 < en_size (snd b)" and "0 < removeSize"
    and "oldest_kept removeSize stale seen oldest n" and "collectSizeStale_loop removeSize stale m (oldest, n) = Some (oldest', n')"
  shows "oldest_kept removeSize stale (rev m @ seen) oldest' n'"
  using assms(2,4,5)
proof (induction m arbitrary: seen oldest n)
  case (Cons x m)
  obtain key entry where x: "x = (key, entry)" by (cases x)
  have size: "0 < en_size entry" and rest: "\<forall>b \<in> set m. 0 < en_size (snd b)" using Cons.prems(1) by (auto simp: x)
  show ?case
  proof (cases "flat_set_contains (<) key stale")
    case True
    then have eq: "buckets_of stale (x # seen) = buckets_of stale seen"
      using lin.contains_set [OF assms(1), of key] by (auto simp: buckets_of_def x)
    have "oldest_kept removeSize stale (x # seen) oldest n" using Cons.prems(2) unfolding oldest_kept_def eq .
    from Cons.IH [OF rest this] show ?thesis using Cons.prems(3) True by (simp add: x)
  next
    case no: False
    have some: "\<not> (removeSize \<le> n \<and> oldest = [])" using Cons.prems(3) no by (auto simp: x)
    show ?thesis
    proof (cases "n < removeSize \<or> en_useTime entry < en_useTime (snd (snd (hd oldest)))")
      case True
      obtain oldest1 n1 where d: "drop_first removeSize entry oldest n = (oldest1, n1)" by (cases "drop_first removeSize entry oldest n")
      note k = oldest_kept_add [OF Cons.prems(2) True d size assms(3), of key]
      have "collectSizeStale_loop removeSize stale m
          (fst (flat_multi_map_insert (>) (int (en_useTime entry), key, entry) oldest1), n1 + en_size entry) = Some (oldest', n')"
        using Cons.prems(3) no some True d by (auto simp: x)
      from Cons.IH [OF rest k this] show ?thesis by (simp add: x)
    next
      case skip: False
      have k: "oldest_kept removeSize stale seen oldest n" by (rule Cons.prems(2))
      have most: "fst b \<le> int (en_useTime entry)" if b: "b \<in> set oldest" for b
      proof -
        have "fst b \<le> fst (hd oldest)" using k b by (cases oldest) (auto simp: oldest_kept_def)
        moreover have "hd oldest \<in> set oldest" using b by (cases oldest) auto
        then have "fst (hd oldest) = int (en_useTime (snd (snd (hd oldest))))" using k by (auto simp: oldest_kept_def)
        ultimately show ?thesis using skip by simp
      qed
      have "removeSize \<le> n \<and> (\<forall>b \<in> set oldest. fst b \<le> int (en_useTime e1))"
        if h: "(k1, e1) \<in> buckets_of stale (x # seen)" "(k1, e1) \<notin> snd ` set oldest" for k1 e1
      proof (cases "(k1, e1) = (key, entry)")
        case True
        then show ?thesis using most skip by auto
      next
        case False
        then have "(k1, e1) \<in> buckets_of stale seen" using h(1) by (auto simp: buckets_of_def x)
        then show ?thesis using k h(2) unfolding oldest_kept_def by blast
      qed
      then have "oldest_kept removeSize stale (x # seen) oldest n" using k unfolding oldest_kept_def by blast
      from Cons.IH [OF rest this] show ?thesis using Cons.prems(3) no some skip by (simp add: x)
    qed
  qed
qed simp

section \<open>The entries that go\<close>

lemma foldl_insert_keys:
  fixes ks :: "Key list"
  assumes "sorted_wrt (<) ks"
  shows "set (foldl (\<lambda>s b. fst (flat_set_insert (<) (fst (snd b)) s)) ks bs) = set ks \<union> (\<lambda>b. fst (snd b)) ` set bs"
  using assms
proof (induction bs arbitrary: ks)
  case (Cons b bs)
  show ?case using Cons.IH [OF lin.insert_sorted [OF Cons.prems, of "fst (snd b)"]] lin.insert_set_eq [OF Cons.prems, of "fst (snd b)"] by simp
qed simp

lemma collectSizeStale_oldest:
  assumes fine: "index_ok d" and io: "io_fine io" and stale: "stale_ok (map_of (ix_map d)) stale"
    and r: "collectSizeStale io stale d = Some stale'"
  shows "\<forall>k1 e1 k2 e2. map_of (ix_map d) k1 = Some e1 \<and> k1 \<in> set (fst stale') - set (fst stale)
      \<and> map_of (ix_map d) k2 = Some e2 \<and> k2 \<notin> set (fst stale') \<longrightarrow> en_useTime e1 \<le> en_useTime e2"
    and "set (fst stale') \<noteq> set (fst stale) \<longrightarrow>
      (\<exists>k e. map_of (ix_map d) k = Some e \<and> k \<in> set (fst stale') \<and> totalSizeLimit (ix_settings d) < ix_totalSize d - snd stale' + en_size e)"
proof -
  let ?m = "map_of (ix_map d)" and ?limit = "totalSizeLimit (ix_settings d)" and ?xs = "io_order io (ix_map d)"
  define remove where "remove = (if 0 < ?limit then ix_totalSize d - snd stale - ?limit else 0)"
  have c: "collectSizeStale io stale d = (if remove \<le> 0 then Some stale
         else map_option (\<lambda>(oldest, oldestTotal).
             (foldl (\<lambda>s bucket. fst (flat_set_insert (<) (fst (snd bucket)) s)) (fst stale) oldest, snd stale + oldestTotal))
           (collectSizeStale_loop remove (fst stale) ?xs ([], 0)))" by (simp add: collectSizeStale_def remove_def Let_def)
  have "(\<forall>k1 e1 k2 e2. ?m k1 = Some e1 \<and> k1 \<in> set (fst stale') - set (fst stale) \<and> ?m k2 = Some e2 \<and> k2 \<notin> set (fst stale') \<longrightarrow>
        en_useTime e1 \<le> en_useTime e2)
    \<and> (set (fst stale') \<noteq> set (fst stale) \<longrightarrow>
        (\<exists>k e. ?m k = Some e \<and> k \<in> set (fst stale') \<and> ?limit < ix_totalSize d - snd stale' + en_size e))"
  proof (cases "remove \<le> 0")
    case True
    then show ?thesis using r c by simp
  next
    case False
    then have l: "remove = ix_totalSize d - snd stale - ?limit" by (auto simp: remove_def split: if_splits)
    note o = io_order_map [OF io index_okD(1) [OF fine]]
    have s: "sorted_wrt (<) (fst stale)" using stale by (simp add: stale_ok_def)
    have pos: "\<forall>b \<in> set ?xs. 0 < en_size (snd b)" using o(3) index_okD(2) [OF fine] by auto
    have rem: "0 < remove" using False by simp
    have start: "oldest_kept remove (fst stale) [] [] 0" by (simp add: oldest_kept_def buckets_of_def)
    have start2: "buckets_ok remove (fst stale) [] ([], 0)" by (simp add: buckets_ok_def buckets_of_def)
    obtain oldest n where w: "collectSizeStale_loop remove (fst stale) ?xs ([], 0) = Some (oldest, n)"
      "stale' = (foldl (\<lambda>s bucket. fst (flat_set_insert (<) (fst (snd bucket)) s)) (fst stale) oldest, snd stale + n)"
      using r False by (auto simp: c)
    have kept: "oldest_kept remove (fst stale) (rev ?xs) oldest n" using oldest_kept_loop [OF s pos rem start w(1)] by simp
    have dist: "distinct (map fst [] @ map fst ?xs)" using o(1) by simp
    have ok: "buckets_ok remove (fst stale) (rev ?xs) (oldest, n)"
      using collectSizeStale_loop_spec [OF s dist pos start2 rem] w(1) by simp
    have ks: "set (fst stale') = set (fst stale) \<union> (\<lambda>b. fst (snd b)) ` set oldest" by (simp add: w(2) foldl_insert_keys [OF s])
    have entry: "?m (fst (snd b)) = Some (snd (snd b))" if "b \<in> set oldest" for b
      using that ok o(3) by (force simp: buckets_ok_def buckets_of_def)
    have older: "en_useTime e1 \<le> en_useTime e2"
      if h: "?m k1 = Some e1" "k1 \<in> set (fst stale') - set (fst stale)" "?m k2 = Some e2" "k2 \<notin> set (fst stale')" for k1 e1 k2 e2
    proof -
      obtain b where b: "b \<in> set oldest" "fst (snd b) = k1" using h(2) by (auto simp: ks)
      then have "snd (snd b) = e1" using entry [OF b(1)] h(1) by simp
      moreover have "(k2, e2) \<in> buckets_of (fst stale) (rev ?xs)" using h(3,4) o(3) by (simp add: buckets_of_def ks)
      moreover have "(k2, e2) \<notin> snd ` set oldest" using h(4) by (force simp: ks)
      ultimately show ?thesis using kept b(1) unfolding oldest_kept_def by fastforce
    qed
    have "\<exists>k e. ?m k = Some e \<and> k \<in> set (fst stale') \<and> ?limit < ix_totalSize d - snd stale' + en_size e"
      if "set (fst stale') \<noteq> set (fst stale)"
    proof -
      have ne: "oldest \<noteq> []" using that ks by auto
      then have h: "hd oldest \<in> set oldest" "n - en_size (snd (snd (hd oldest))) < remove" using kept by (simp_all add: oldest_kept_def)
      have "?limit < ix_totalSize d - snd stale' + en_size (snd (snd (hd oldest)))" using h(2) l by (simp add: w(2))
      moreover have "fst (snd (hd oldest)) \<in> set (fst stale')" using h(1) by (simp add: ks)
      ultimately show ?thesis using entry [OF h(1)] by blast
    qed
    then show ?thesis using older by blast
  qed
  then show "\<forall>k1 e1 k2 e2. ?m k1 = Some e1 \<and> k1 \<in> set (fst stale') - set (fst stale) \<and> ?m k2 = Some e2 \<and> k2 \<notin> set (fst stale') \<longrightarrow>
        en_useTime e1 \<le> en_useTime e2"
    "set (fst stale') \<noteq> set (fst stale) \<longrightarrow>
        (\<exists>k e. ?m k = Some e \<and> k \<in> set (fst stale') \<and> ?limit < ix_totalSize d - snd stale' + en_size e)" by blast+
qed

lemma collected_oldest:
  assumes fine: "index_ok d" and io: "io_fine io" and t: "collectTimeStale io ([], 0) d = (stale0, d1)" and r: "collectSizeStale io stale0 d1 = Some stale"
    and m: "map_of (ix_map d) k1 = Some e1" "k1 \<in> set (fst stale)"
  shows "map_of (ix_map d) k2 = Some e2 \<Longrightarrow> k2 \<notin> set (fst stale) \<Longrightarrow> en_useTime e1 \<le> en_useTime e2"
    and "pruneBeforeTime io d < en_useTime e1 \<Longrightarrow> \<exists>k e. map_of (ix_map d) k = Some e \<and> k \<in> set (fst stale)
      \<and> totalSizeLimit (ix_settings d) < ix_totalSize d - snd stale + en_size e"
proof -
  note ts = collectTimeStale_spec [OF fine io t]
  obtain ti n where d1: "d1 = d\<lparr>ix_minimalTime := ti, ix_minimalCount := n\<rparr>" "ti \<noteq> 0 \<longrightarrow> 0 < n" using ts(2) by blast
  have ok1: "index_ok d1" using fine d1(2) by (simp add: d1(1) index_ok_def)
  have same: "ix_map d1 = ix_map d" "ix_settings d1 = ix_settings d" "ix_totalSize d1 = ix_totalSize d" by (simp_all add: d1(1))
  have "stale_ok (map_of (ix_map d1)) stale0" using ts(1) same(1) by simp
  note old = collectSizeStale_oldest [OF ok1 io this r, unfolded same]
  have time: "en_useTime e1 \<le> pruneBeforeTime io d" if "k1 \<in> set (fst stale0)" using ts(4) that m(1) by auto
  have sub: "set (fst stale0) \<subseteq> set (fst stale)"
    using collectSizeStale_spec [OF ok1 io \<open>stale_ok (map_of (ix_map d1)) stale0\<close> index_total [OF ok1]] r by auto
  show "en_useTime e1 \<le> en_useTime e2" if k2: "map_of (ix_map d) k2 = Some e2" "k2 \<notin> set (fst stale)"
  proof (cases "k1 \<in> set (fst stale0)")
    case True
    have "\<not> (totalTimeLimit (ix_settings d) = 0 \<or> ix_minimalTime d = 0 \<or> pruneBeforeTime io d < ix_minimalTime d)"
    proof
      assume "totalTimeLimit (ix_settings d) = 0 \<or> ix_minimalTime d = 0 \<or> pruneBeforeTime io d < ix_minimalTime d"
      then have "stale0 = ([], 0)" using t by (auto simp: collectTimeStale_def Let_def split: if_splits)
      then show False using True by simp
    qed
    then have "set (fst stale0) = {key. \<exists>entry. map_of (ix_map d) key = Some entry \<and> en_useTime entry \<le> pruneBeforeTime io d}"
      using ts(3) by auto
    then have "pruneBeforeTime io d < en_useTime e2" using k2 sub by fastforce
    then show ?thesis using time [OF True] by simp
  next
    case False
    then show ?thesis using old(1) m k2 by blast
  qed
  show "\<exists>k e. map_of (ix_map d) k = Some e \<and> k \<in> set (fst stale) \<and> totalSizeLimit (ix_settings d) < ix_totalSize d - snd stale + en_size e"
    if "pruneBeforeTime io d < en_useTime e1"
  proof -
    have "k1 \<notin> set (fst stale0)" using time that by linarith
    then have "set (fst stale) \<noteq> set (fst stale0)" using m(2) by auto
    then show ?thesis using old(2) by blast
  qed
qed

end
