(* ===== verification/CacheProperties.thy ===== *)
theory CacheProperties
  imports CacheSteps CacheOldest
begin

text \<open>
  The properties of the disk cache, over all that the system may answer, and their instances on a
  cache that is made on an empty disk.
\<close>

section \<open>Records and the map\<close>

lemma fold_records_refines:
  assumes "index_ok ix" and "\<forall>r \<in> set rs. record_kind_ok (ix_settings ix) r"
  shows "refines_effect ix (all_effects (record_effect (ix_settings ix)) rs (index_content ix)) (fold_records handle_record rs ix)"
  using assms
proof (induction rs arbitrary: ix)
  case Nil
  then show ?case by (simp add: refines_effect_def)
next
  case (Cons r rs)
  obtain ok st where e: "record_effect (ix_settings ix) r (index_content ix) = (ok, st)" by (metis surj_pair)
  obtain ix1 where h: "handle_record r ix = Some (ok, ix1)" "index_content ix1 = st" "index_ok ix1" "index_frame ix ix1"
    using handle_record_refines [OF Cons.prems(1), of r] Cons.prems(2) e by (auto simp: refines_effect_def)
  have s: "ix_settings ix1 = ix_settings ix" using h(4) by (simp add: index_frame_def)
  show ?case
  proof (cases ok)
    case True
    have "refines_effect ix1 (all_effects (record_effect (ix_settings ix)) rs st) (fold_records handle_record rs ix1)"
      using Cons.IH [OF h(3)] Cons.prems(2) h(2) s by simp
    then show ?thesis using True e h index_frame_trans [OF h(4)] by (auto simp: refines_effect_def)
  next
    case False
    then show ?thesis using e h by (simp add: refines_effect_def)
  qed
qed

text \<open>
  C14: Replaying any list of binlog records never fails an assertion of the database and changes its
  hash table as the records say on a plain map with a time, stopping at a record of a wrong size; the
  total size and the counts and sizes of every tag stay the sums over the entries.
\<close>

theorem cache_replay_refines_map:
  assumes "index_ok ix" and "\<forall>r \<in> set rs. record_kind_ok (ix_settings ix) r"
  shows "\<exists>good ix' m t. fold_records handle_record rs ix = Some (good, ix')
    \<and> all_effects (record_effect (ix_settings ix)) rs (map_of (ix_map ix), tp_relative (ix_time ix)) = (good, (m, t))
    \<and> map_of (ix_map ix') = m \<and> tp_relative (ix_time ix') = t \<and> distinct (map fst (ix_map ix'))
    \<and> ix_totalSize ix' = (\<Sum>(key, entry)\<leftarrow>ix_map ix'. en_size entry)
    \<and> (\<forall>tag. tag \<noteq> 0 \<longrightarrow> summary_at (ix_tagged ix') tag =
        ((\<Sum>(key, entry)\<leftarrow>ix_map ix'. count_of tag entry), (\<Sum>(key, entry)\<leftarrow>ix_map ix'. size_of tag entry)))"
proof -
  obtain good m t where e: "all_effects (record_effect (ix_settings ix)) rs (map_of (ix_map ix), tp_relative (ix_time ix)) = (good, (m, t))"
    by (metis surj_pair)
  obtain ix' where "fold_records handle_record rs ix = Some (good, ix')" "index_content ix' = (m, t)" "index_ok ix'"
    using fold_records_refines [OF assms] e by (auto simp: refines_effect_def index_content_def)
  then show ?thesis using e index_okD [of ix'] by (auto simp: index_content_def entry_sum_def)
qed

section \<open>Calls\<close>


text \<open>
  C15: Every state of the cache that calls can reach is well-formed: keys are distinct, the total size is
  the sum of the entries, entries have sizes within the limit and places of seven bytes, keys that
  wait to be removed or used are sorted, distinct, fewer than a bundle, and the former are not in the map.
\<close>

theorem cache_reachable_wellformed:
  assumes "ctr_mode block c" and "db_fine block c clean start" and "cache_reachable c xxh start d"
  shows "distinct (map fst (ix_map d)) \<and> ix_totalSize d = (\<Sum>(key, entry)\<leftarrow>ix_map d. en_size entry)
    \<and> (\<forall>(key, entry) \<in> set (ix_map d). 0 < en_size entry \<and> en_size entry \<le> maxDataSize (ix_settings d) \<and> length (en_place entry) = 7)
    \<and> sorted (db_removing d) \<and> distinct (db_removing d) \<and> int (length (db_removing d)) < maxBundledRecords (ix_settings d)
    \<and> sorted (db_accessed d) \<and> distinct (db_accessed d) \<and> int (length (db_accessed d)) < maxBundledRecords (ix_settings d)
    \<and> set (db_removing d) \<inter> fst ` set (ix_map d) = {}"
proof -
  note f = db_fineD [OF cache_reachable_fine [OF assms(1,3,2)]]
  note i = index_okD [OF f(1)]
  have entries: "0 < en_size entry \<and> en_size entry \<le> maxDataSize (ix_settings d) \<and> length (en_place entry) = 7"
    if "(key, entry) \<in> set (ix_map d)" for key entry
    using f(4) [of key entry] map_of_is_SomeI [OF i(1) that] by (simp add: entry_fine_def)
  have "set (db_removing d) \<inter> fst ` set (ix_map d) = {}" using f(8) by (auto simp: map_of_eq_None_iff)
  then show ?thesis using entries i(1,3) f(5,6) by (auto simp: pending_fine_def entry_sum_def)
qed


text \<open>
  C16: Moving a value to a key that has none keeps its bytes, checksum and tag, and the old key has none.
\<close>

theorem cache_move_keeps_value:
  assumes "ctr_mode block c" and "db_fine block c clean d" and "healthy d" and "clock_fine io d"
    and "value_there c source checksum value d" and "values_of d target = None"
  shows "\<exists>e d'. db_moveIfEmpty c io source target d = Some (e, d') \<and> err_type e = NoError
    \<and> value_there c target checksum value d' \<and> values_of d' = (values_of d)(source := None, target := values_of d source)"
proof -
  obtain e d' where m: "db_moveIfEmpty c io source target d = Some (e, d')" "good_step block c clean io d d'" "data_kept d d'"
    "if values_of d target \<noteq> None \<or> values_of d source = None then e = noError \<and> d' = d
     else if err_type e = NoError then values_of d' = (values_of d)(source := None, target := values_of d source)
     else values_of d' = (values_of d)(source := None) \<and> \<not> f_isOpen (db_binlog d')"
    using db_moveIfEmpty_fine [OF assms(1,2,4), of source target] by blast
  have "values_of d source \<noteq> None" using assms(5) by (auto simp: value_there_def)
  moreover have "f_isOpen (db_binlog d')" using db_moveIfEmpty_healthy [OF assms(1,3) m(1)] by (simp add: healthy_def)
  ultimately have v: "err_type e = NoError" "values_of d' = (values_of d)(source := None, target := values_of d source)"
    using m(4) assms(6) by (auto split: if_splits)
  have "value_there c target checksum value (d\<lparr>ix_map := ix_map d'\<rparr>)"
  proof -
    obtain entry where t: "values_of d source = Some entry" "value_entry checksum value entry" "length (en_place entry) = 7"
      "\<And>io. readValueData c io (en_place entry) (en_size entry) d = Some (tv_bytes value)" using assms(5) by (auto simp: value_there_def)
    have "readValueData c io (en_place entry) (en_size entry) (d\<lparr>ix_map := ix_map d'\<rparr>) = Some (tv_bytes value)" for io
      using readValueData_same [of "d\<lparr>ix_map := ix_map d'\<rparr>" "en_place entry" d] t(4) by (simp add: placePath_def)
    moreover have "values_of (d\<lparr>ix_map := ix_map d'\<rparr>) target = Some entry" using v(2) t(1) by (simp add: values_of_def fun_upd_def fun_eq_iff)
    ultimately show ?thesis using t by (auto simp: value_there_def)
  qed
  from value_there_same [OF this, of d'] have "value_there c target checksum value d'"
    using m(3) good_stepD(4) [OF m(2)] by (simp add: values_of_def data_kept_def placePath_def)
  then show ?thesis using m(1) v by blast
qed

text \<open>
  C17: When the binlog cannot be written, because an earlier write failed and closed it, putting a value
  reports no error though nothing is stored.
\<close>

theorem cache_put_lost_without_error:
  assumes "ctr_mode block c" and "db_fine block c clean d" and "clock_fine io d" and "io_fine io" and "places_free io d"
    and "int (length (tv_bytes value)) \<le> maxDataSize (ix_settings d)" and "tv_bytes value \<noteq> []"
    and "\<not> f_isOpen (db_binlog d)" and "values_of d key = None"
  shows "\<exists>d'. db_put c xxh io key value d = Some (noError, d') \<and> values_of d' = values_of d"
  using put_value_fine [OF assms(1-7), of xxh key] assms(8,9) by blast

section \<open>Restarts\<close>

text \<open>
  C4: Whenever the program stops, at once and with nothing closed, opening the cache again from what is
  on disk gives every entry back, with its time and its bytes; only removals that waited for a bundle
  may be undone.
\<close>

theorem cache_reopen_restores:
  assumes "ctr_mode block c" and "db_fine block c True d" and "f_isOpen (db_binlog d)" and "File_offset (db_binlog d) < 2 ^ 60"
    and "current_on_disk d" and "Database_new (ix_settings d) (db_disk d) = Some d0" and "lets_open io"
  shows "\<exists>d2. db_open c io (db_key d) d0 = Some (noError, d2) \<and> db_fine block c True d2
    \<and> map_of (ix_map d) = map_of (ix_map d2) |` (- set (db_removing d))
    \<and> (\<forall>key checksum value. value_there c key checksum value d \<longrightarrow> value_there c key checksum value d2)"
proof -
  have d0: "\<not> f_isOpen (db_binlog d0)" "ix_settings d0 = ix_settings d" "db_disk d0 = db_disk d"
    using Database_new_fields [OF assms(6)] by simp_all
  obtain m d2 where o: "db_open c io (db_key d) d0 = Some (noError, d2)" "opened_from block c (db_key d) (readVersion d) m d0 d2"
    "map_of (ix_map d) = m |` (- set (db_removing d))"
    using db_open_again [OF assms(1-5) d0 assms(7)] by blast
  have "map_of (ix_map d2) = m" "db_fine block c True d2" using o(2) by (simp_all add: opened_from_def)
  then show ?thesis using o(1,3) opened_keeps_values [OF o(2) d0(3) assms(5) o(3)] by blast
qed

text \<open>
  C5: Closing the cache and opening it again gives the same values, bytes and total size, no key lost or
  back, and no error.
\<close>

theorem cache_close_open_roundtrip:
  assumes "ctr_mode block c" and "db_fine block c True d" and "healthy d" and "clock_fine io d" and "File_offset (db_binlog d) < 2 ^ 59"
    and "current_on_disk d" and "lets_open io2"
  shows "\<exists>d1 d2. db_close c io d = Some d1 \<and> db_open c io2 (db_key d) d1 = Some (noError, d2) \<and> db_fine block c True d2
    \<and> values_of d2 = values_of d \<and> ix_totalSize d2 = ix_totalSize d
    \<and> (\<forall>key checksum value. value_there c key checksum value d \<longrightarrow> value_there c key checksum value d2)"
proof -
  obtain d1 where d1: "db_close c io d = Some (clearState (binlog_close d1))" "good_step block c True io d d1" "healthy d1"
    "values_of d1 = values_of d" "db_removing d1 = []" "data_kept d d1" "keeps_files d d1" "File_offset (db_binlog d1) < 2 ^ 60"
    using db_close_healthy [OF assms(1,2,4,3,5)] by blast
  note g = good_stepD [OF d1(2)]
  let ?d0 = "clearState (binlog_close d1)"
  have op: "f_isOpen (db_binlog d1)" using d1(3) by (simp add: healthy_def)
  have "db_binlogAt d = binlogPath d" using db_fineD(9) [OF assms(2)] assms(3) by (simp add: binlog_ok_def healthy_def)
  then have here: "current_on_disk d1" "readVersion d1 = readVersion d"
    using assms(6) d1(7) g(5) by (simp_all add: current_on_disk_def keeps_files_def binlogPath_def readVersion_def ReadVersionValue_def
      BinlogFilename_def CompactReadyFilename_def)
  have d0: "\<not> f_isOpen (db_binlog ?d0)" "ix_settings ?d0 = ix_settings d1" "db_disk ?d0 = db_disk d1" by (simp_all add: File_close_def)
  obtain m d2 where o: "db_open c io2 (db_key d1) ?d0 = Some (noError, d2)" "opened_from block c (db_key d1) (readVersion d1) m ?d0 d2"
    "map_of (ix_map d1) = m |` (- set (db_removing d1))"
    using db_open_again [OF assms(1) g(1) op d1(8) here(1) d0 assms(7)] by blast
  have fine2: "db_fine block c True d2" using o(2) by (simp add: opened_from_def)
  have "values_of d2 = values_of d1" using o(2,3) d1(5) by (simp add: opened_from_def values_of_def)
  then have v: "values_of d2 = values_of d" using d1(4) by simp
  have "value_there c key checksum value d2" if "value_there c key checksum value d" for key checksum "value"
    using opened_keeps_values [OF o(2) d0(3) here(1) o(3)] value_there_same [OF that _ d1(6) g(4)] d1(4) by simp
  then show ?thesis
    using d1(1) o(1) g(4) fine2 v values_total [OF db_fineD(1) [OF assms(2)] db_fineD(1) [OF fine2] v] by auto
qed

section \<open>Limits\<close>



section \<open>A cache on an empty disk\<close>

definition sample_io :: cache_io where
  "sample_io = \<lparr>io_time = 1000000, io_crlNow = 0, io_place = (\<lambda>n. replicate 7 (of_nat n)), io_open = (\<lambda>_. new_env),
     io_move = (Locked, True, True), io_entries = [], io_version = (True, True, 4, True), io_data = (\<lambda>_. new_env),
     io_padding = replicate 16 9, io_removes = (\<lambda>_. True), io_order = (\<lambda>m. m)\<rparr>"

definition sample_value :: TaggedValue where "sample_value = \<lparr>tv_bytes = [1, 2, 3], tv_tag = 5\<rparr>"

definition sample_key :: Key where "sample_key = Key 1 2"

definition sample_cache :: "Database \<Rightarrow> bool" where
  "sample_cache d \<longleftrightarrow>
     db_fine plain_block plain_crypto True d \<and> healthy d \<and> clock_fine sample_io d \<and> places_free sample_io d
     \<and> ix_settings d = Settings_new \<and> map_of (ix_map d) = Map.empty \<and> db_stale d = [] \<and> db_removing d = []
     \<and> db_folder d = Some 0 \<and> db_key d = [1] \<and> tp_relative (ix_time d) < 2 ^ 31
     \<and> File_offset (db_binlog d) = 16 \<and> current_on_disk d"

lemma sample_checks: "checkSettings Settings_new" "settings_fine Settings_new"
  using sample_settings by (simp_all add: settings_fine_def checkSettings_def Settings_new_def kDataSizeLimit_def kBundledRecordsLimit_def)

lemma sample_io_fine: "io_fine sample_io" "\<forall>path. data_written sample_io path"
  by (simp_all add: io_fine_def data_written_def sample_io_def new_env_def kSaltSize_def)

lemma sample_opened:
  "\<exists>d0 d. Database_new Settings_new (\<lambda>_. None) = Some d0 \<and> db_open plain_crypto sample_io [1] d0 = Some (noError, d) \<and> sample_cache d"
proof -
  obtain d0 where d0: "Database_new Settings_new (\<lambda>_. None) = Some d0" using sample_checks(1) by (simp add: Database_new_def)
  have disk: "ix_settings d0 = Settings_new" "db_disk d0 = (\<lambda>_. None)"
    using d0 by (auto simp: Database_new_def Index.extend_def Database.fields_def Index_new_def split: if_splits)
  have env: "new_binlog_env (io_open sample_io ReadAppend)"
    by (simp add: new_binlog_env_def sample_io_def new_env_def kSaltSize_def)
  obtain d where d: "db_open plain_crypto sample_io [1] d0 = Some (noError, d)"
    "opened_from plain_block plain_crypto [1] 0 Map.empty d0 d" "healthy d" "tp_relative (ix_time d) < 2 ^ 31" "File_offset (db_binlog d) = 16"
    using db_open_new [OF plain_crypto_ok d0 sample_checks(2) _ _ _ env] by blast
  note o = d(2) [unfolded opened_from_def]
  have "clock_fine sample_io d" using d(4) GetUnixtime_bounds(2) [of sample_io] by (simp add: clock_fine_def)
  moreover have "isFreePlace d (io_place sample_io 0)" using o disk(2) place_not_binlog [of "replicate 7 0"] by (simp add: isFreePlace_def placePath_def sample_io_def)
  ultimately have "sample_cache d" using o d(3-5) disk
    by (auto simp: sample_cache_def places_free_def current_on_disk_def readVersion_def ReadVersionValue_def BinlogFilename_def CompactReadyFilename_def)
  then show ?thesis using d0 d(1) by blast
qed

lemma sample_cacheD:
  assumes "sample_cache d"
  shows "db_fine plain_block plain_crypto True d" "healthy d" "clock_fine sample_io d" "places_free sample_io d"
    "ix_settings d = Settings_new" "map_of (ix_map d) = Map.empty" "db_stale d = []" "db_removing d = []" "db_folder d = Some 0" "db_key d = [1]"
    "tp_relative (ix_time d) < 2 ^ 31" "File_offset (db_binlog d) = 16" "current_on_disk d"
  using assms by (simp_all add: sample_cache_def)

lemma sample_value_fits: "tv_bytes sample_value \<noteq> []" "int (length (tv_bytes sample_value)) \<le> maxDataSize Settings_new"
  by (simp_all add: sample_value_def Settings_new_def kDataSizeLimit_def)

section \<open>Instances\<close>

theorem cache_replay_refines_map_witness:
  "\<exists>good ix' m t. fold_records handle_record sample_records (Index_new Settings_new) = Some (good, ix')
    \<and> all_effects (record_effect Settings_new) sample_records (Map.empty, 0) = (good, (m, t)) \<and> map_of (ix_map ix') = m"
proof -
  have ok: "index_ok (Index_new Settings_new)" by (simp add: index_ok_def Index_new_def summary_at_def)
  have "\<forall>r \<in> set sample_records. record_kind_ok (ix_settings (Index_new Settings_new)) r"
    by (simp add: sample_records_def record_kind_ok_def Index_new_def Settings_new_def)
  from cache_replay_refines_map [OF ok this] show ?thesis by (auto simp: Index_new_def EstimatedTimePoint_new_def)
qed


theorem cache_reachable_wellformed_witness:
  "\<exists>d d'. sample_cache d \<and> cache_step plain_crypto (\<lambda>_. 0) sample_io (CallPut sample_key sample_value) d = Some d'
    \<and> distinct (map fst (ix_map d')) \<and> ix_totalSize d' = (\<Sum>(key, entry)\<leftarrow>ix_map d'. en_size entry)"
proof -
  obtain d where d: "sample_cache d" using sample_opened by blast
  have allowed: "step_allowed sample_io (CallPut sample_key sample_value) d"
    using sample_cacheD [OF d] sample_value_fits sample_io_fine by (simp add: step_allowed_def)
  obtain d' where d': "cache_step plain_crypto (\<lambda>_. 0) sample_io (CallPut sample_key sample_value) d = Some d'"
    using cache_step_fine [OF plain_crypto_ok sample_cacheD(1) [OF d] allowed] by blast
  then show ?thesis
    using d cache_reachable_wellformed [OF plain_crypto_ok sample_cacheD(1) [OF d] reach_step [OF reach_start allowed d']] by blast
qed


lemma sample_put:
  "\<exists>e d d1. sample_cache d \<and> db_put plain_crypto (\<lambda>_. 7) sample_io sample_key sample_value d = Some (e, d1)
    \<and> db_fine plain_block plain_crypto True d1 \<and> healthy d1 \<and> clock_fine sample_io d1
    \<and> value_there plain_crypto sample_key 7 sample_value d1 \<and> (\<forall>key. key \<noteq> sample_key \<longrightarrow> values_of d1 key = None)"
proof -
  obtain d where d: "sample_cache d" using sample_opened by blast
  note s = sample_cacheD [OF d]
  have small: "int (length (tv_bytes sample_value)) \<le> maxDataSize (ix_settings d)" using sample_value_fits(2) s(5) by simp
  obtain e d1 where p: "db_put plain_crypto (\<lambda>_. 7) sample_io sample_key sample_value d = Some (e, d1)"
    "base_step plain_block plain_crypto True sample_io d d1" "put_outcome 7 sample_key sample_value e d d1" "err_type e = NoError"
    "f_isOpen (db_binlog d1) \<longrightarrow> value_there plain_crypto sample_key 7 sample_value d1"
    using put_value_fine [where xxh = "\<lambda>_. 7" and key = sample_key, OF plain_crypto_ok s(1,3) sample_io_fine(1) s(4) small sample_value_fits(1)]
      sample_io_fine(2) by blast
  have h: "healthy d1" using db_put_healthy [OF plain_crypto_ok s(2) p(1)] .
  then have op: "f_isOpen (db_binlog d1)" by (simp add: healthy_def)
  have "values_of d1 key = None" if "key \<noteq> sample_key" for key
  proof -
    have "values_of d1 key = values_of d key" using p(3,4) op sample_value_fits(1) that by (auto simp: put_outcome_def)
    then show ?thesis using s(6) by (simp add: values_of_def)
  qed
  then show ?thesis using d p(1,5) h op base_stepD(1,2) [OF p(2)] by blast
qed

theorem cache_move_keeps_value_witness:
  "\<exists>d e d'. value_there plain_crypto sample_key 7 sample_value d
    \<and> db_moveIfEmpty plain_crypto sample_io sample_key (Key 3 4) d = Some (e, d') \<and> err_type e = NoError
    \<and> value_there plain_crypto (Key 3 4) 7 sample_value d'"
proof -
  obtain d where d: "db_fine plain_block plain_crypto True d" "healthy d" "clock_fine sample_io d"
    "value_there plain_crypto sample_key 7 sample_value d" "\<forall>key. key \<noteq> sample_key \<longrightarrow> values_of d key = None"
    using sample_put by blast
  have "values_of d (Key 3 4) = None" using d(5) by (simp add: sample_key_def)
  from cache_move_keeps_value [OF plain_crypto_ok d(1-4) this] show ?thesis using d(4) by blast
qed

lemma binlog_close_fine: "db_fine block c clean d \<Longrightarrow> db_fine block c clean (binlog_close d)"
  by (simp add: db_fine_def binlog_close_def index_ok_def binlog_ok_def replays_to_def binlog_content_def File_close_def) blast

theorem cache_put_lost_without_error_witness:
  "\<exists>d d'. sample_cache d \<and> db_put plain_crypto (\<lambda>_. 7) sample_io sample_key sample_value (binlog_close d) = Some (noError, d')
    \<and> values_of d' sample_key = None"
proof -
  obtain d where d: "sample_cache d" using sample_opened by blast
  note s = sample_cacheD [OF d]
  let ?d = "binlog_close d"
  have "clock_fine sample_io ?d" "places_free sample_io ?d" "int (length (tv_bytes sample_value)) \<le> maxDataSize (ix_settings ?d)"
    "\<not> f_isOpen (db_binlog ?d)" "values_of ?d sample_key = None"
    using s(3-6) sample_value_fits(2)
    by (simp_all add: binlog_close_def clock_fine_def places_free_def isFreePlace_def placePath_def File_close_def values_of_def)
  from cache_put_lost_without_error [OF plain_crypto_ok binlog_close_fine [OF s(1)] this(1) sample_io_fine(1) this(2,3) sample_value_fits(1) this(4,5),
      of "\<lambda>_. 7"]
  show ?thesis using d \<open>values_of ?d sample_key = None\<close> by metis
qed

theorem cache_reopen_restores_witness:
  "\<exists>d d0 d2. sample_cache d \<and> Database_new Settings_new (db_disk d) = Some d0
    \<and> db_open plain_crypto sample_io [1] d0 = Some (noError, d2) \<and> db_fine plain_block plain_crypto True d2"
proof -
  obtain d where d: "sample_cache d" using sample_opened by blast
  note s = sample_cacheD [OF d]
  obtain d0 where d0: "Database_new (ix_settings d) (db_disk d) = Some d0" using sample_checks(1) s(5) by (simp add: Database_new_def)
  have io: "lets_open sample_io" by (simp add: lets_open_def sample_io_def new_env_def)
  have op: "f_isOpen (db_binlog d)" "File_offset (db_binlog d) < 2 ^ 60" using s(2,12) by (simp_all add: healthy_def)
  from cache_reopen_restores [OF plain_crypto_ok s(1) op s(13) d0 io] show ?thesis using d d0 s(5,10) by auto
qed

theorem cache_close_open_roundtrip_witness:
  "\<exists>d d1 d2. sample_cache d \<and> db_close plain_crypto sample_io d = Some d1
    \<and> db_open plain_crypto sample_io [1] d1 = Some (noError, d2) \<and> ix_totalSize d2 = ix_totalSize d"
proof -
  obtain d where d: "sample_cache d" using sample_opened by blast
  note s = sample_cacheD [OF d]
  have io: "lets_open sample_io" by (simp add: lets_open_def sample_io_def new_env_def)
  have size: "File_offset (db_binlog d) < 2 ^ 59" using s(12) by simp
  from cache_close_open_roundtrip [OF plain_crypto_ok s(1,2,3) size s(13) io] show ?thesis using d s(10) by auto
qed



end
