(* ===== verification/CacheCompactor.thy ===== *)
theory CacheCompactor
  imports CachePrune
begin

text \<open>
  The compactor of the disk cache, \<^verbatim>\<open>storage/cache/storage_cache_compactor.cpp\<close>, and the part of
  \<^verbatim>\<open>storage_cache_database_object.cpp\<close> that takes its result. The compactor runs on a thread of its own:
  what it posts to the database is a list, the answers of the database are arguments, and the disk, which
  both change, is passed through every step. What the database writes while the compactor catches up
  is an argument of each round.
\<close>

section \<open>Catching up\<close>

text \<open>\<^verbatim>\<open>do ... while (from != till)\<close>, with the file of the compacted binlog on the disk.\<close>

partial_function (option) catch_up_loop ::
    "crypto \<Rightarrow> cache_path \<Rightarrow> int \<Rightarrow> int \<Rightarrow> File \<Rightarrow> File \<Rightarrow> int \<Rightarrow> disk \<Rightarrow> (int \<times> disk) option" where
  "catch_up_loop c path block till binlog compact from disk =
     (let limit = min (till - from) block
      in if limit < 0 then None
         else
           Option.bind (File_read c (nat limit) binlog) (\<lambda>(got, binlog1).
             if got = [] \<or> limit < int (length got) then Some (0, disk)
             else
               Option.bind (File_write c got compact) (\<lambda>(written, compact1).
                 let disk1 = disk(path \<mapsto> f_data compact1); from1 = from + int (length got)
                 in if \<not> written then Some (0, disk1)
                    else if from1 \<noteq> till then catch_up_loop c path block till binlog1 compact1 from1 disk1
                    else Some (till, disk1))))"

text \<open>The result is the size of the binlog that was reached, 0 after a failure.\<close>

definition CatchUp :: "crypto \<Rightarrow> cache_io \<Rightarrow> cache_path \<Rightarrow> cache_path \<Rightarrow> bytes \<Rightarrow> int \<Rightarrow> int \<Rightarrow> disk \<Rightarrow> (int \<times> disk) option" where
  "CatchUp c io target source key from block disk =
     do {
       (result1, binlog, _) \<leftarrow> disk_open c source Read key (io_data io source) disk;
       let till = File_size binlog;
       if result1 \<noteq> Success then Some (0, disk)
       else if till = from then Some (till, disk)
       else if till < from \<or> \<not> fst (File_seek from binlog) then Some (0, disk)
       else do {
         (result2, compact, disk1) \<leftarrow> disk_open c target ReadAppend key (io_data io target) disk;
         let (sought, compact1) = File_seek (File_size compact) compact;
         if result2 \<noteq> Success \<or> \<not> sought then Some (0, disk1)
         else catch_up_loop c target block till (snd (File_seek from binlog)) compact1 from disk1
       }
     }"

section \<open>The object\<close>

text \<open>\<^verbatim>\<open>base::variant\<close> of the two kinds of lists; the binlog is in the wrapper.\<close>

datatype compact_list = StoreList "Store list" | TimeList "StoreWithTime list"

record CompactorObject =
  co_folder :: "int option"
  co_settings :: Settings
  co_key :: bytes
  co_header :: BasicHeader
  co_info :: Compactor_Info
  co_compact :: File
  co_wrapper :: BinlogWrapper
  co_partSize :: int
  co_written :: "Key list"
  co_list :: compact_list

text \<open>What is posted to the database.\<close>

datatype compactor_post = AskValues "Key list" | PostFail | PostDone cache_path int

text \<open>A step gives the object, the disk and what was posted.\<close>

type_synonym compactor_step = "(CompactorObject \<times> disk \<times> compactor_post list) option"

definition CompactFilename :: string where "CompactFilename = ''binlog-temp''"

definition co_binlogPath :: "CompactorObject \<Rightarrow> cache_path" where
  "co_binlogPath co = InFolder (co_folder co) BinlogFilename"

definition compactPath :: "CompactorObject \<Rightarrow> cache_path" where
  "compactPath co = InFolder (co_folder co) CompactFilename"

definition set_compact :: "File \<Rightarrow> CompactorObject \<Rightarrow> disk \<Rightarrow> CompactorObject \<times> disk" where
  "set_compact f co disk = (co\<lparr>co_compact := f\<rparr>, if f_isOpen f then disk(compactPath co \<mapsto> f_data f) else disk)"

definition compact_write :: "crypto \<Rightarrow> bytes \<Rightarrow> CompactorObject \<Rightarrow> disk \<Rightarrow> (bool \<times> CompactorObject \<times> disk) option" where
  "compact_write c bs co disk =
     map_option (\<lambda>(written, f). (written, set_compact f co disk)) (File_write c bs (co_compact co))"

section \<open>Starting\<close>

definition co_openBinlog :: "crypto \<Rightarrow> cache_io \<Rightarrow> CompactorObject \<Rightarrow> disk \<Rightarrow> (bool \<times> CompactorObject) option" where
  "co_openBinlog c io co disk =
     (let path = co_binlogPath co
      in map_option (\<lambda>(result, f, _).
          (result = Success \<and> ci_till (co_info co) \<le> File_size f, co\<lparr>co_wrapper := (co_wrapper co)\<lparr>bw_binlog := f\<rparr>\<rparr>))
        (disk_open c path Read (co_key co) (io_data io path) disk))"

definition co_readHeader :: "crypto \<Rightarrow> CompactorObject \<Rightarrow> (bool \<times> CompactorObject) option" where
  "co_readHeader c co =
     map_option (\<lambda>(header, f).
       let co1 = co\<lparr>co_wrapper := (co_wrapper co)\<lparr>bw_binlog := f\<rparr>\<rparr>
       in case header of None \<Rightarrow> (False, co1) | Some h \<Rightarrow> (True, co1\<lparr>co_header := h\<rparr>))
       (ReadHeader c (co_settings co) (bw_binlog (co_wrapper co)))"

definition openCompact :: "crypto \<Rightarrow> cache_io \<Rightarrow> CompactorObject \<Rightarrow> disk \<Rightarrow> (bool \<times> CompactorObject \<times> disk) option" where
  "openCompact c io co disk =
     (let path = compactPath co
      in do {
        (result, f, disk1) \<leftarrow> disk_open c path Write (co_key co) (io_data io path) disk;
        let co1 = co\<lparr>co_compact := f\<rparr>;
        if result \<noteq> Success then Some (False, co1, disk1)
        else compact_write c (bytes_of_basic_header (co_header co1)) co1 disk1
      })"

definition co_fail :: "cache_io \<Rightarrow> CompactorObject \<Rightarrow> disk \<Rightarrow> CompactorObject \<times> disk \<times> compactor_post list" where
  "co_fail io co disk =
     (let path = compactPath co
      in (co\<lparr>co_compact := File_close (co_compact co)\<rparr>, if io_removes io path then disk(path := None) else disk, [PostFail]))"

section \<open>Writing a list\<close>

definition bytes_of_list :: "compact_list \<Rightarrow> bytes list" where
  "bytes_of_list list = (case list of StoreList records \<Rightarrow> map bytes_of_store records | TimeList records \<Rightarrow> map bytes_of_store_with_time records)"

definition clear_list :: "compact_list \<Rightarrow> compact_list" where
  "clear_list list = (case list of StoreList _ \<Rightarrow> StoreList [] | TimeList _ \<Rightarrow> TimeList [])"

definition writeMultiStore :: "crypto \<Rightarrow> CompactorObject \<Rightarrow> disk \<Rightarrow> (bool \<times> CompactorObject \<times> disk) option" where
  "writeMultiStore c co disk =
     (let list = bytes_of_list (co_list co)
      in if list = [] then Some (True, co, disk)
         else do {
           header \<leftarrow> MultiStore_new (int (length list));
           (written, co1, disk1) \<leftarrow> compact_write c header co disk;
           (written, co2, disk2) \<leftarrow> (if written then compact_write c (concat list) co1 disk1 else Some (False, co1, disk1));
           Some (written, co2\<lparr>co_list := clear_list (co_list co2)\<rparr>, disk2)
         })"

section \<open>The end\<close>

text \<open>
  A round of the loop has what the system answers and what the database has written to the disk by
  then. \<^verbatim>\<open>lastCatchUp\<close> is an \<^verbatim>\<open>int\<close>, so that a longer difference is cut to 32 bits.
\<close>

type_synonym catch_up_round = "cache_io \<times> (disk \<Rightarrow> disk)"

fun finalize_loop :: "crypto \<Rightarrow> CompactorObject \<Rightarrow> catch_up_round list \<Rightarrow> int \<Rightarrow> int \<Rightarrow> disk \<Rightarrow> compactor_step" where
  "finalize_loop c co [] lastCatchUp from disk = None"
| "finalize_loop c co ((io, wrote) # rounds) lastCatchUp from disk =
     do {
       (till, disk1) \<leftarrow> CatchUp c io (compactPath co) (co_binlogPath co) (co_key co) from (readBlockSize (co_settings co)) (wrote disk);
       if till = 0 then Some (co_fail io co disk1)
       else if till = from \<or> 0 < lastCatchUp \<and> lastCatchUp \<le> till - from
       then Some (co, disk1, [PostDone (compactPath co) till])
       else finalize_loop c co rounds (sint (word_of_int (till - from) :: 32 word)) till disk1
     }"

definition co_finalize :: "crypto \<Rightarrow> catch_up_round list \<Rightarrow> CompactorObject \<Rightarrow> disk \<Rightarrow> compactor_step" where
  "co_finalize c rounds co disk =
     (let co1 = co\<lparr>co_wrapper := (co_wrapper co)\<lparr>bw_binlog := File_close (bw_binlog (co_wrapper co))\<rparr>,
              co_compact := File_close (co_compact co)\<rparr>
      in finalize_loop c co1 rounds 0 (ci_till (co_info co1)) disk)"

definition co_finish :: "crypto \<Rightarrow> cache_io \<Rightarrow> catch_up_round list \<Rightarrow> CompactorObject \<Rightarrow> disk \<Rightarrow> compactor_step" where
  "co_finish c io rounds co disk =
     do {
       (written, co1, disk1) \<leftarrow> writeMultiStore c co disk;
       if written then co_finalize c rounds co1 disk1 else Some (co_fail io co1 disk1)
     }"

section \<open>Reading keys\<close>

text \<open>The handlers take the keys of stored values and pass over the rest.\<close>

definition push_keys :: "binlog_record \<Rightarrow> Key list \<Rightarrow> (bool \<times> Key list) option" where
  "push_keys record result =
     Some (True, case record of
         RecordStore store \<Rightarrow> result @ [store_key store]
       | RecordStoreWithTime store \<Rightarrow> result @ [store_key store]
       | RecordMultiStore stores \<Rightarrow> result @ map store_key stores
       | RecordMultiStoreWithTime stores \<Rightarrow> result @ map store_key stores
       | RecordMultiRemove _ \<Rightarrow> result
       | RecordMultiAccess _ _ \<Rightarrow> result)"

definition readBlock :: "crypto \<Rightarrow> BinlogWrapper \<Rightarrow> Key list \<Rightarrow> (bool \<times> BinlogWrapper \<times> Key list) option" where
  "readBlock c w result =
     (let kinds = binlog_kinds (trackEstimatedTime (bw_settings w))
      in if \<not> CheckSettings kinds (bw_settings w) then None
         else map_option (\<lambda>(ended, w1, result1). (\<not> ended, w1, result1)) (readTillEnd c kinds push_keys w result))"

partial_function (option) read_chunk_loop :: "crypto \<Rightarrow> int \<Rightarrow> BinlogWrapper \<Rightarrow> Key list \<Rightarrow> (BinlogWrapper \<times> Key list) option" where
  "read_chunk_loop c limit w result =
     (if limit \<le> int (length result) then Some (w, result)
      else Option.bind (readBlock c w result)
        (\<lambda>(more, w1, result1). if more then read_chunk_loop c limit w1 result1 else Some (w1, result1)))"

definition readChunk :: "crypto \<Rightarrow> CompactorObject \<Rightarrow> (Key list \<times> CompactorObject) option" where
  "readChunk c co =
     map_option (\<lambda>(w, result). (result, co\<lparr>co_wrapper := w\<rparr>))
       (read_chunk_loop c (compactChunkSize (co_settings co)) (co_wrapper co) [])"

definition parseChunk :: "crypto \<Rightarrow> cache_io \<Rightarrow> catch_up_round list \<Rightarrow> CompactorObject \<Rightarrow> disk \<Rightarrow> compactor_step" where
  "parseChunk c io rounds co disk =
     do {
       (ks, co1) \<leftarrow> readChunk c co;
       if bw_failed (co_wrapper co1) then Some (co_fail io co1 disk)
       else if ks = [] then co_finish c io rounds co1 disk
       else Some (co1, disk, [AskValues ks])
     }"

section \<open>Taking values\<close>

definition compact_store :: "'b Store_scheme \<Rightarrow> Key \<times> Entry \<Rightarrow> 'b Store_scheme option" where
  "compact_store record raw =
     map_option (\<lambda>record1. record1\<lparr>store_checksum := en_checksum (snd raw), store_tag := en_tag (snd raw), store_place := en_place (snd raw)\<rparr>)
       (Store_setSize (en_size (snd raw)) (record\<lparr>store_key := fst raw\<rparr>))"

definition addListRecord :: "Key \<times> Entry \<Rightarrow> CompactorObject \<Rightarrow> CompactorObject option" where
  "addListRecord raw co =
     (if fst raw \<in> set (co_written co) then Some co
      else
        let co1 = co\<lparr>co_written := fst raw # co_written co\<rparr>
        in case co_list co of
          StoreList list \<Rightarrow> map_option (\<lambda>record. co1\<lparr>co_list := StoreList (list @ [record])\<rparr>) (compact_store Store_new raw)
        | TimeList list \<Rightarrow>
            map_option (\<lambda>record. co1\<lparr>co_list := TimeList (list @
                [record\<lparr>store_time := \<lparr>tp_relative = en_useTime (snd raw), tp_system = ci_systemTime (co_info co)\<rparr>\<rparr>])\<rparr>)
              (compact_store (new_store_with_time EstimatedTimePoint_new) raw))"

fun fillList :: "(Key \<times> Entry) list \<Rightarrow> CompactorObject \<Rightarrow> ((Key \<times> Entry) list \<times> CompactorObject) option" where
  "fillList [] co = Some ([], co)"
| "fillList (raw # values) co =
     (if int (length (bytes_of_list (co_list co))) = co_partSize co then Some (raw # values, co)
      else Option.bind (addListRecord raw co) (fillList values))"

text \<open>The loop of \<^verbatim>\<open>processValues\<close>; the flag is false after a failed write.\<close>

partial_function (option) process_loop ::
    "crypto \<Rightarrow> (Key \<times> Entry) list \<Rightarrow> CompactorObject \<Rightarrow> disk \<Rightarrow> (bool \<times> CompactorObject \<times> disk) option" where
  "process_loop c left co disk =
     Option.bind (fillList left co) (\<lambda>(left1, co1).
       if left1 = [] then Some (True, co1, disk)
       else Option.bind (writeMultiStore c co1 disk) (\<lambda>(written, co2, disk2).
         if \<not> written then Some (False, co2, disk2) else process_loop c left1 co2 disk2))"

definition processValues :: "crypto \<Rightarrow> cache_io \<Rightarrow> catch_up_round list \<Rightarrow> (Key \<times> Entry) list \<Rightarrow> CompactorObject \<Rightarrow> disk \<Rightarrow> compactor_step" where
  "processValues c io rounds values co disk =
     do {
       (written, co1, disk1) \<leftarrow> process_loop c values co disk;
       if written then parseChunk c io rounds co1 disk1 else Some (co_fail io co1 disk1)
     }"

text \<open>Starting goes on after a failure.\<close>

definition co_start :: "crypto \<Rightarrow> cache_io \<Rightarrow> catch_up_round list \<Rightarrow> CompactorObject \<Rightarrow> disk \<Rightarrow> compactor_step" where
  "co_start c io rounds co disk =
     do {
       (opened, co1) \<leftarrow> co_openBinlog c io co disk;
       (good, co2) \<leftarrow> (if opened then co_readHeader c co1 else Some (False, co1));
       (ready, co3, disk3) \<leftarrow> (if good then openCompact c io co2 disk else Some (False, co2, disk));
       let (co4, disk4, posts) = (if ready then (co3, disk3, []) else co_fail io co3 disk3);
       let co5 = co4\<lparr>co_list := (if trackEstimatedTime (co_settings co4) then TimeList [] else StoreList [])\<rparr>;
       map_option (\<lambda>(co6, disk6, posts1). (co6, disk6, posts @ posts1)) (parseChunk c io rounds co5 disk4)
     }"

definition CompactorObject_new ::
    "crypto \<Rightarrow> cache_io \<Rightarrow> catch_up_round list \<Rightarrow> int option \<Rightarrow> Settings \<Rightarrow> bytes \<Rightarrow> Compactor_Info \<Rightarrow> disk \<Rightarrow> compactor_step" where
  "CompactorObject_new c io rounds folder settings key info disk =
     (if compactChunkSize settings \<le> 0 then None
      else co_start c io rounds
        \<lparr>co_folder = folder, co_settings = settings, co_key = key, co_header = BasicHeader_new, co_info = info, co_compact = no_file,
          co_wrapper = BinlogWrapper_new no_file settings (ci_till info), co_partSize = maxBundledRecords settings, co_written = [],
          co_list = StoreList []\<rparr> disk)"

text \<open>
  The messages between the compactor and the database: at each moment the database has written to
  the disk and answers a list of keys. After a failure it takes the compactor away.
\<close>

type_synonym compactor_moment = "(disk \<Rightarrow> disk) \<times> (Key list \<Rightarrow> (Key \<times> Entry) list)"

fun compactor_run :: "crypto \<Rightarrow> cache_io \<Rightarrow> catch_up_round list \<Rightarrow> compactor_moment list \<Rightarrow>
    CompactorObject \<times> disk \<times> compactor_post list \<Rightarrow> compactor_step" where
  "compactor_run c io rounds [] (co, disk, posts) = Some (co, disk, posts)"
| "compactor_run c io rounds ((wrote, answer) # moments) (co, disk, posts) =
     (case posts of
       [AskValues ks] \<Rightarrow> Option.bind (processValues c io rounds (answer ks) co (wrote disk)) (compactor_run c io rounds moments)
     | _ \<Rightarrow> Some (co, disk, posts))"

section \<open>In the database\<close>

definition kMaxDelayAfterFailure :: int where "kMaxDelayAfterFailure = 24 * 60 * 60 * 1000"

definition compactReadyPath :: "Database \<Rightarrow> cache_path" where
  "compactReadyPath d = InFolder (db_folder d) CompactReadyFilename"

definition compactorFail :: "cache_io \<Rightarrow> Database \<Rightarrow> Database" where
  "compactorFail io d =
     (let delay = cw_delayAfterFailure (db_compactor d); path = compactReadyPath d
      in d\<lparr>db_compactor := CompactorWrap_new\<lparr>cw_nextAttempt := io_crlNow io + delay,
             cw_delayAfterFailure := min (delay * 2) kMaxDelayAfterFailure\<rparr>,
           db_disk := (if io_removes io path then (db_disk d)(path := None) else db_disk d)\<rparr>)"

text \<open>The guard that resets the compactor when the function ends, also after a failure.\<close>

definition reset_compactor :: "Database \<Rightarrow> Database" where
  "reset_compactor d = d\<lparr>db_compactor := CompactorWrap_new\<rparr>"

text \<open>The first and the second move are answered by \<open>moved\<close> and \<open>io_move\<close>.\<close>

definition compactorDone ::
    "crypto \<Rightarrow> cache_io \<Rightarrow> lock_result \<times> bool \<times> bool \<Rightarrow> cache_path \<Rightarrow> int \<Rightarrow> Database \<Rightarrow> Database option" where
  "compactorDone c io moved path originalReadTill d =
     (let size = File_size (db_binlog d); binlog = binlogPath d; ready = compactReadyPath d
      in do {
        (till, disk1) \<leftarrow> (if originalReadTill \<noteq> size
           then CatchUp c io path binlog (db_key d) originalReadTill (readBlockSize (ix_settings d)) (db_disk d)
           else Some (originalReadTill, db_disk d));
        let d1 = d\<lparr>db_disk := disk1\<rparr>;
        if till \<noteq> size then Some (compactorFail io d1)
        else
          let (good, disk2) = move_on_disk moved path ready disk1; d2 = d1\<lparr>db_disk := disk2\<rparr>
          in if \<not> good then Some (compactorFail io d2)
             else
               let d3 = binlog_close d2; (good3, disk3) = move_on_disk (io_move io) ready binlog disk2; d4 = d3\<lparr>db_disk := disk3\<rparr>
               in if \<not> good3 then Some (reset_compactor (compactorFail io d4))
                  else do {
                    (result, f, disk5) \<leftarrow> disk_open c binlog ReadAppend (db_key d4) (io_open io ReadAppend) disk3;
                    let d5 = d4\<lparr>db_binlog := f, db_binlogAt := binlog, db_disk := disk5\<rparr>;
                    if result \<noteq> Success then Some (reset_compactor (compactorFail io d5))
                    else
                      let (sought, f1) = File_seek (File_size f) f; d6 = d5\<lparr>db_binlog := f1\<rparr>
                      in if \<not> sought then Some (reset_compactor (compactorFail io (binlog_close d6)))
                         else
                           let excess = ix_excess d6 - cw_excessLength (db_compactor d6)
                           in if excess < 0 then None else Some (reset_compactor (d6\<lparr>ix_excess := excess\<rparr>))
                  }
      })"

end
