(* ===== verification/CacheCompactRead.thy ===== *)
theory CacheCompactRead
  imports CacheCompactor CacheRestart
begin

text \<open>
  The compactor of the disk cache reads the keys of the stored values chunk by chunk, whatever the
  blocks of the binlog and the limit of a chunk are.
\<close>

section \<open>Keys of records\<close>

definition record_keys :: "binlog_record \<Rightarrow> Key list" where
  "record_keys r =
     (case r of RecordStore store \<Rightarrow> [store_key store] | RecordStoreWithTime store \<Rightarrow> [store_key store]
      | RecordMultiStore stores \<Rightarrow> map store_key stores | RecordMultiStoreWithTime stores \<Rightarrow> map store_key stores | _ \<Rightarrow> [])"

lemma push_keys_eq [simp]: "push_keys r ks = Some (True, ks @ record_keys r)"
  by (cases r) (simp_all add: push_keys_def record_keys_def)

lemma fold_push: "fold_records push_keys rs ks = Some (True, ks @ concat (map record_keys rs))"
  by (induction rs arbitrary: ks) simp_all

lemma run_push_shift:
  "run_records kinds settings push_keys bs (a @ ks) =
    map_option (\<lambda>(got, n, failed). (a @ got, n, failed)) (run_records kinds settings push_keys bs ks)"
proof (induction "length bs" arbitrary: bs ks rule: less_induct)
  case less
  define size where "size = ReadRecordSize kinds settings bs"
  have shorter: "\<not> (size = kRecordSizeUnknown \<or> int (length bs) < size) \<Longrightarrow> size \<noteq> kRecordSizeInvalid \<Longrightarrow> length (drop (nat size) bs) < length bs"
    using ReadRecordSize_cases [of kinds settings bs] by (auto simp: size_def)
  show ?case
    unfolding run_records.simps [of _ _ _ bs] size_def [symmetric] Let_def
    using less.hyps [OF shorter] by (auto split: option.splits simp: option.map_comp comp_def case_prod_unfold)
qed

lemma handle_push_extends: "handle_records kinds push_keys w acc = Some (ended, w1, got) \<Longrightarrow> \<exists>K. got = acc @ K"
proof (induction kinds "push_keys :: binlog_record \<Rightarrow> Key list \<Rightarrow> _" w acc rule: handle_records.induct)
  case (1 kinds w acc)
  show ?case
  proof (cases "\<exists>data w2 r. readRecord kinds w = Some (data, w2) \<and> data \<noteq> [] \<and> HandleRecord kinds data = Some r")
    case True
    then obtain data w2 r where r: "readRecord kinds w = Some (data, w2)" "data \<noteq> []" "HandleRecord kinds data = Some r" by blast
    have "handle_records kinds push_keys w2 (acc @ record_keys r) = Some (ended, w1, got)"
      using 1(2) r by (subst (asm) handle_records.simps) simp
    then show ?thesis using 1(1) [OF r(1) refl r(2,3) push_keys_eq refl TrueI] by auto
  next
    case False
    then show ?thesis using 1(2) by (subst (asm) handle_records.simps) (auto split: option.splits if_split_asm)
  qed
qed

section \<open>Blocks and chunks\<close>

text \<open>The reader stands at a whole record, the rest has the keys \<open>K\<close> and is whole.\<close>

definition chunks_at :: "(bytes \<Rightarrow> bytes \<Rightarrow> bytes) \<Rightarrow> crypto \<Rightarrow> bytes \<Rightarrow> bytes \<Rightarrow> nat \<Rightarrow> Settings \<Rightarrow> BinlogWrapper \<Rightarrow> nat \<Rightarrow> Key list \<Rightarrow> bool" where
  "chunks_at block c key D sz settings w p K \<longleftrightarrow>
     reader_at block c key D sz w p \<and> bw_settings w = settings \<and> reader_settings (binlog_kinds (trackEstimatedTime settings)) settings
     \<and> \<not> bw_finished w \<and> \<not> bw_failed w \<and> int (length (bw_part w)) < readBlockSize settings
     \<and> run_records (binlog_kinds (trackEstimatedTime settings)) settings push_keys (unread D sz p) [] = Some (K, sz - p, False)
     \<and> (p + length (bw_part w) = sz \<longrightarrow> p = sz)"

lemma readBlock_chunks:
  assumes c: "ctr_mode block c" and r: "chunks_at block c key D sz settings w p K"
  shows "(p = sz \<and> K = [] \<and> (\<exists>w1. readBlock c w acc = Some (False, w1, acc) \<and> chunks_at block c key D sz settings w1 p []))
    \<or> (\<exists>w1 p1 K1 K2. readBlock c w acc = Some (True, w1, acc @ K1) \<and> K = K1 @ K2 \<and> chunks_at block c key D sz settings w1 p1 K2
      \<and> p + length (bw_part w) < p1 + length (bw_part w1))"
proof -
  let ?kinds = "binlog_kinds (trackEstimatedTime settings)"
  have w: "reader_at block c key D sz w p" "bw_settings w = settings" "reader_settings ?kinds settings" "\<not> bw_finished w" "\<not> bw_failed w"
    "int (length (bw_part w)) < readBlockSize settings" "run_records ?kinds settings push_keys (unread D sz p) [] = Some (K, sz - p, False)"
    "p + length (bw_part w) = sz \<longrightarrow> p = sz"
    using r by (simp_all add: chunks_at_def)
  note l = reader_at_part [OF w(1)]
  have checked: "readBlock c w acc = map_option (\<lambda>(ended, w1, result1). (\<not> ended, w1, result1)) (readTillEnd c ?kinds push_keys w acc)"
    using w(2,3) by (simp add: readBlock_def reader_settings_def)
  show ?thesis
  proof (cases "p + length (bw_part w) = sz")
    case True
    then have p: "p = sz" "bw_part w = []" using w(8) by simp_all
    have k: "K = []" using w(7) p(1) by (subst (asm) run_records.simps) (simp add: unread_def ReadRecordSize_def)
    obtain f where f: "BinlogWrapper_finish 0 w = w\<lparr>bw_failed := bw_failed w \<or> 0 < (0::nat), bw_binlog := f\<rparr>"
      "file_rep block c key f D p sz"
      using finish_at [OF w(1), of p 0] l(6) by auto
    let ?w = "w\<lparr>bw_failed := False, bw_binlog := f\<rparr>"
    have "bw_till w = int sz" using w(1) by (auto simp: reader_at_def)
    then have "readTillEnd c ?kinds push_keys w acc = Some (True, ?w, acc)"
      using w(4,5) f(1) l(3) True by (simp add: readTillEnd_def readPart_def)
    moreover have "reader_at block c key D sz ?w p"
      using w(1,3) f(2) p l(6) by (auto simp: reader_at_def reader_settings_def intro!: exI [of _ sz])
    then have "chunks_at block c key D sz settings ?w p []" using w(2-8) k by (simp add: chunks_at_def)
    ultimately show ?thesis using checked p(1) k by auto
  next
    case False
    then have more: "p + length (bw_part w) < sz" using l(5) by simp
    have s: "reader_settings ?kinds (bw_settings w)" "int (length (bw_part w)) < readBlockSize (bw_settings w)" using w(2,3,6) by simp_all
    obtain w2 where w2: "readPart c w = Some (True, w2)" "reader_at block c key D sz w2 p"
      "length (bw_part w) < length (bw_part w2)" "same_wrapper w w2" "\<not> bw_finished w2" "\<not> bw_failed w2"
      using readPart_more [OF c w(1) s(1) w(4) more s(2)] w(4,5) by auto
    have s2: "bw_settings w2 = settings" using w2(4) w(2) by (simp add: same_wrapper_def)
    have shifted: "run_records ?kinds (bw_settings w2) push_keys (unread D sz p) acc = Some (acc @ K, sz - p, False)"
      using run_push_shift [of ?kinds settings "unread D sz p" acc "[]"] w(7) s2 by simp
    obtain ended w1 got where h: "handle_records ?kinds push_keys w2 acc = Some (ended, w1, got)" "same_wrapper w2 w1"
      "if ended \<or> bw_finished w1 then ended_at block c key D sz w1 (p + (sz - p)) \<and> got = acc @ K \<and> False \<and> bw_failed w1
       else \<exists>m \<le> sz - p. reader_at block c key D sz w1 (p + m) \<and> \<not> bw_failed w1
         \<and> p + m + length (bw_part w1) = p + length (bw_part w2)
         \<and> run_records ?kinds (bw_settings w2) push_keys (unread D sz (p + m)) got = Some (acc @ K, sz - p - m, False)
         \<and> int (length (bw_part w1)) < readBlockSize (bw_settings w2)
         \<and> (p + m + length (bw_part w1) = sz \<longrightarrow> m = sz - p \<and> got = acc @ K \<and> \<not> False)"
      using handle_records_ok [OF w2(2) _ w2(5,6) shifted] w(3) s2 by auto
    obtain m where e: "\<not> ended" "\<not> bw_finished w1" and m: "m \<le> sz - p" "reader_at block c key D sz w1 (p + m)" "\<not> bw_failed w1"
      "p + m + length (bw_part w1) = p + length (bw_part w2)"
      "run_records ?kinds settings push_keys (unread D sz (p + m)) got = Some (acc @ K, sz - p - m, False)"
      "int (length (bw_part w1)) < readBlockSize settings" "p + m + length (bw_part w1) = sz \<longrightarrow> m = sz - p"
      using h(3) s2 by (auto split: if_split_asm)
    obtain K1 where K1: "got = acc @ K1" using handle_push_extends [OF h(1)] by blast
    obtain K2 where K2: "run_records ?kinds settings push_keys (unread D sz (p + m)) [] = Some (K2, sz - (p + m), False)" "K = K1 @ K2"
      using m(5) run_push_shift [of ?kinds settings "unread D sz (p + m)" got "[]"] K1
      by (cases "run_records ?kinds settings push_keys (unread D sz (p + m)) []") auto
    have sw: "bw_settings w1 = settings" using h(2) s2 by (simp add: same_wrapper_def)
    have "chunks_at block c key D sz settings w1 (p + m) K2"
      using m(1-3,6,7) sw w(3) e(2) K2(1) l(5) by (auto simp: chunks_at_def)
    moreover have "readBlock c w acc = Some (True, w1, acc @ K1)"
      using checked w2(1) h(1) e(1) K1 by (simp add: readTillEnd_def)
    moreover have "p + length (bw_part w) < p + m + length (bw_part w1)" using m(4) w2(3) by simp
    ultimately show ?thesis using K2(2) by blast
  qed
qed

lemma read_chunk_takes:
  assumes c: "ctr_mode block c"
  shows "chunks_at block c key D sz settings w p K \<Longrightarrow>
    \<exists>w1 p1 K1 K2. read_chunk_loop c limit w acc = Some (w1, acc @ K1) \<and> K = K1 @ K2 \<and> chunks_at block c key D sz settings w1 p1 K2
      \<and> (K2 = [] \<or> limit \<le> int (length (acc @ K1)))"
proof (induction "sz - (p + length (bw_part w))" arbitrary: w p K acc rule: less_induct)
  case less
  show ?case
  proof (cases "limit \<le> int (length acc)")
    case True
    then have "read_chunk_loop c limit w acc = Some (w, acc @ [])" by (subst read_chunk_loop.simps) simp
    then show ?thesis using less.prems True by (metis append_Nil append_Nil2)
  next
    case False
    from readBlock_chunks [OF c less.prems, of acc] show ?thesis
    proof (elim disjE conjE exE)
      fix w1 assume e: "p = sz" "K = []" "readBlock c w acc = Some (False, w1, acc)" "chunks_at block c key D sz settings w1 p []"
      have "read_chunk_loop c limit w acc = Some (w1, acc @ [])" using False e(3) by (subst read_chunk_loop.simps) simp
      then show ?thesis using e(2,4) by (intro exI [of _ w1] exI [of _ p] exI [of _ "[]"]) auto
    next
      fix w1 p1 K1 K2
      assume e: "readBlock c w acc = Some (True, w1, acc @ K1)" "K = K1 @ K2" "chunks_at block c key D sz settings w1 p1 K2"
        "p + length (bw_part w) < p1 + length (bw_part w1)"
      have r: "reader_at block c key D sz w1 p1" using e(3) by (simp add: chunks_at_def)
      have "sz - (p1 + length (bw_part w1)) < sz - (p + length (bw_part w))" using e(4) reader_at_part(5) [OF r] by linarith
      from less.hyps [OF this e(3), of "acc @ K1"]
      obtain w2 p2 K3 K4 where s: "read_chunk_loop c limit w1 (acc @ K1) = Some (w2, (acc @ K1) @ K3)" "K2 = K3 @ K4"
        "chunks_at block c key D sz settings w2 p2 K4" "K4 = [] \<or> limit \<le> int (length ((acc @ K1) @ K3))" by blast
      have "read_chunk_loop c limit w acc = Some (w2, acc @ (K1 @ K3))" using False e(1) s(1) by (subst read_chunk_loop.simps) simp
      then show ?thesis using s(2-4) e(2) by (intro exI [of _ w2] exI [of _ p2] exI [of _ "K1 @ K3"] exI [of _ K4]) simp
    qed
  qed
qed

text \<open>A chunk is empty only at the end.\<close>

lemma readChunk_takes:
  assumes c: "ctr_mode block c" and r: "chunks_at block c key D sz settings (co_wrapper co) p K"
    and s: "co_settings co = settings" "0 < compactChunkSize settings"
  shows "\<exists>w1 p1 K1 K2. readChunk c co = Some (K1, co\<lparr>co_wrapper := w1\<rparr>) \<and> K = K1 @ K2 \<and> chunks_at block c key D sz settings w1 p1 K2
    \<and> (K1 = [] \<longrightarrow> K = [])"
proof -
  obtain w1 p1 K1 K2 where g: "read_chunk_loop c (compactChunkSize settings) (co_wrapper co) [] = Some (w1, [] @ K1)" "K = K1 @ K2"
    "chunks_at block c key D sz settings w1 p1 K2" "K2 = [] \<or> compactChunkSize settings \<le> int (length ([] @ K1))"
    using read_chunk_takes [OF c r, of "compactChunkSize settings" "[]"] by blast
  then show ?thesis using s by (auto simp: readChunk_def)
qed

text \<open>At the first record after the header.\<close>

lemma chunks_at_start:
  assumes f: "file_rep block c key f (start @ bytes_of_records P) 16 sz" and start: "length start = 16" and sz: "sz = 16 + length (bytes_of_records P)"
    and fit: "records_fit settings P" and s: "reader_settings (binlog_kinds (trackEstimatedTime settings)) settings"
  shows "chunks_at block c key (start @ bytes_of_records P) sz settings (BinlogWrapper_new f settings (int sz)) 16 (concat (map record_keys P))"
proof -
  let ?D = "start @ bytes_of_records P"
  have b: "16 \<le> readBlockSize settings" using s by (simp add: reader_settings_def)
  have "unread ?D sz 16 = bytes_of_records P @ []" using start sz by (simp add: unread_def)
  moreover have "cut_record settings []" by (simp add: cut_record_def)
  ultimately have "run_records (binlog_kinds (trackEstimatedTime settings)) settings push_keys (unread ?D sz 16) [] =
      Some (concat (map record_keys P), length (bytes_of_records P), False)" using run_written [OF fit _ fold_push, of "[]" "[]"] by simp
  moreover have "reader_at block c key ?D sz (BinlogWrapper_new f settings (int sz)) 16"
    using reader_at_start [OF f _, of settings] b sz by simp
  ultimately show ?thesis using s b sz by (auto simp: chunks_at_def BinlogWrapper_new_def)
qed

end
