(* ===== verification/CacheCatchUp.thy ===== *)
theory CacheCatchUp
  imports CacheCompactor CacheRestart
begin

text \<open>
  The compacted binlog of the disk cache gets what was written to the binlog meanwhile.
\<close>

section \<open>Copying\<close>

lemma overwrite_at_end [simp]: "overwrite (length D) bs D = D @ bs"
  by (simp add: overwrite_def)

lemma write_appends:
  assumes c: "ctr_mode block c" and r: "file_rep block c key f D (length D) (length D)" and h: "f_results f = []"
    and bs: "length bs mod 16 = 0" and small: "length D + length bs < 2 ^ 61"
  shows "\<exists>f'. File_write c bs f = Some (True, f') \<and> file_rep block c key f' (D @ bs) (length (D @ bs)) (length (D @ bs)) \<and> f_results f' = []"
proof -
  have w: "write_result f bs = int (length bs)" by (simp add: write_result_def h)
  show ?thesis using File_write_rep [OF c r bs small] by (auto simp: w h max_def)
qed

lemma catch_up_loop_copies:
  assumes c: "ctr_mode block c" and b: "file_rep block c key binlog D pos0 (length D)" and k: "file_rep block c key compact E (length E) (length E)"
    and h: "f_results compact = []" and m: "length D mod 16 = 0" and amount: "0 < amount" "amount mod 16 = 0" and less: "pos0 < length D"
    and small: "length E + (length D - pos0) < 2 ^ 61"
  shows "\<exists>disk' data. catch_up_loop c path amount (int (length D)) binlog compact (int pos0) disk = Some (int (length D), disk')
    \<and> disk' = disk(path \<mapsto> data) \<and> disk_holds block c key data (E @ drop pos0 D)"
  using b k h less small
proof (induction "length D - pos0" arbitrary: pos0 binlog compact E disk rule: less_induct)
  case less
  define n where "n = nat (min (int (length D) - int pos0) amount)"
  have limit: "min (int (length D) - int pos0) amount = int n" using less.prems(4) amount by (simp add: n_def)
  have n16: "n mod 16 = 0"
  proof (cases "int (length D) - int pos0 \<le> amount")
    case True
    have "pos0 mod 16 = 0" by (rule file_rep_simps(4) [OF less.prems(1)])
    then have "(length D - pos0) mod 16 = 0" using m less.prems(4) by (metis dvd_diff_nat mod_0_imp_dvd mod_eq_0_iff_dvd)
    moreover have "n = length D - pos0" using True by (simp add: n_def)
    ultimately show ?thesis by simp
  next
    case False
    then have "n = nat amount" by (simp add: n_def)
    then show ?thesis using amount by (simp add: nat_mod_distrib [symmetric] nat_mod_16)
  qed
  have pos: "0 < n" "n \<le> length D - pos0" using less.prems(4) amount by (simp_all add: n_def)
  define got where "got = take n (drop pos0 D)"
  have got: "length got = n" "whole_blocks got = got" using pos n16 by (simp_all add: got_def whole_blocks_def)
  obtain binlog1 where r: "File_read c n binlog = Some (got, binlog1)" "file_rep block c key binlog1 D (pos0 + n) (length D)"
    using File_read_rep [OF c less.prems(1) n16] unfolding got_def [symmetric] got by blast
  have g16: "length got mod 16 = 0" using got(1) n16 by simp
  have "length got \<le> length D - pos0" using got(1) pos(2) by simp
  then have s2: "length E + length got < 2 ^ 61" using less.prems(5) by linarith
  obtain compact1 where w: "File_write c got compact = Some (True, compact1)"
    "file_rep block c key compact1 (E @ got) (length (E @ got)) (length (E @ got))" "f_results compact1 = []"
    using write_appends [OF c less.prems(2,3) g16 s2] by blast
  have some: "got \<noteq> []" using got(1) pos by auto
  have step: "catch_up_loop c path amount (int (length D)) binlog compact (int pos0) disk =
      (if pos0 + n \<noteq> length D
       then catch_up_loop c path amount (int (length D)) binlog1 compact1 (int (pos0 + n)) (disk(path \<mapsto> f_data compact1))
       else Some (int (length D), disk(path \<mapsto> f_data compact1)))"
    using r(1) w(1) some unfolding catch_up_loop.simps [of c path amount "int (length D)" binlog] limit Let_def got(1) by (simp add: got(1))
  show ?case
  proof (cases "pos0 + n = length D")
    case True
    have "got = drop pos0 D" using True pos(2) by (simp add: got_def)
    then show ?thesis using step True file_rep_disk [OF w(2)] by auto
  next
    case False
    then have l: "length D - (pos0 + n) < length D - pos0" "pos0 + n < length D" using pos by simp_all
    have s3: "length (E @ got) + (length D - (pos0 + n)) < 2 ^ 61" using less.prems(5) got(1) pos by simp
    have e: "(E @ got) @ drop (pos0 + n) D = E @ drop pos0 D"
      unfolding got_def by (simp add: add.commute) (metis append_take_drop_id drop_drop add.commute)
    obtain disk' data where "catch_up_loop c path amount (int (length D)) binlog1 compact1 (int (pos0 + n)) (disk(path \<mapsto> f_data compact1)) =
        Some (int (length D), disk')" "disk' = disk(path \<mapsto> f_data compact1, path \<mapsto> data)"
      "disk_holds block c key data ((E @ got) @ drop (pos0 + n) D)"
      using less.hyps [OF l(1) r(2) w(2,3) l(2) s3] by blast
    then show ?thesis using step False unfolding e by auto
  qed
qed

definition lets_append :: "cache_io \<Rightarrow> cache_path \<Rightarrow> bool" where
  "lets_append io path \<longleftrightarrow> fe_folder (io_data io path) \<and> fe_lock (io_data io path) = Locked \<and> fe_results (io_data io path) = []"

lemma CatchUp_copies:
  assumes c: "ctr_mode block c" and source: "disk source = Some data" "disk_holds block c key data D" "length D mod 16 = 0" "length D < 2 ^ 61"
    and target: "disk target = Some compact" "disk_holds block c key compact E" "length E mod 16 = 0"
    and pos0: "pos0 mod 16 = 0" "pos0 \<le> length D" and amount: "0 < amount" "amount mod 16 = 0"
    and small: "length E + (length D - pos0) < 2 ^ 61" and io: "lets_append io target"
  shows "\<exists>disk' compact'. CatchUp c io target source key (int pos0) amount disk = Some (int (length D), disk')
    \<and> disk' = disk(target \<mapsto> compact') \<and> disk_holds block c key compact' (E @ drop pos0 D)"
proof -
  let ?e1 = "(io_data io source)\<lparr>fe_file := Some data\<rparr>" and ?e2 = "(io_data io target)\<lparr>fe_file := Some compact\<rparr>"
  obtain f where f: "File_open c Read key ?e1 = Some (Success, f)" "file_rep block c key f D 0 (length D)" "f_data f = data"
    using File_open_Read [OF c source(2,4), of ?e1] source(3) by auto
  have o1: "disk_open c source Read key (io_data io source) disk = Some (Success, f, disk)"
    using f(1) source(1) by (simp add: disk_open_def)
  have s: "File_size f = int (length D)" by (rule file_rep_simps(3) [OF f(2)])
  show ?thesis
  proof (cases "pos0 = length D")
    case True
    then show ?thesis using o1 s target(1,2) by (intro exI [of _ disk] exI [of _ compact]) (auto simp: CatchUp_def fun_upd_idem)
  next
    case False
    then have less: "pos0 < length D" using pos0(2) by simp
    obtain f1 where f1: "File_seek (int pos0) f = (True, f1)" "file_rep block c key f1 D pos0 (length D)"
      using File_seek_rep [OF f(2) pos0] by blast
    have sE: "length E < 2 ^ 61" using small by simp
    have env: "fe_file ?e2 = Some compact" "fe_folder ?e2" "fe_lock ?e2 = Locked" using io by (simp_all add: lets_append_def)
    obtain g where g: "File_open c ReadAppend key ?e2 = Some (Success, g)" "file_rep block c key g E 0 (length E)" "f_results g = []" "f_data g = compact"
      using File_open_ReadAppend [OF c target(2) sE env] target(3) io by (auto simp: lets_append_def)
    have o2: "disk_open c target ReadAppend key (io_data io target) disk = Some (Success, g, disk)"
      using g(1,4) target(1) by (auto simp: disk_open_def fun_upd_idem)
    obtain g1 where g1: "File_seek (File_size g) g = (True, g1)" "file_rep block c key g1 E (length E) (length E)" "f_results g1 = []"
      using File_seek_rep [OF g(2) target(3) order_refl] g(3) file_rep_simps(3) [OF g(2)] by auto
    obtain disk' compact' where l: "catch_up_loop c target amount (int (length D)) f1 g1 (int pos0) disk = Some (int (length D), disk')"
      "disk' = disk(target \<mapsto> compact')" "disk_holds block c key compact' (E @ drop pos0 D)"
      using catch_up_loop_copies [OF c f1(2) g1(2,3) source(3) amount less small] by blast
    have "CatchUp c io target source key (int pos0) amount disk = catch_up_loop c target amount (int (length D)) f1 g1 (int pos0) disk"
      using o1 o2 s f1(1) g1(1) less by (simp add: CatchUp_def Let_def)
    then show ?thesis using l by auto
  qed
qed

end
