(* ===== verification/CacheCompacted.thy ===== *)
theory CacheCompacted
  imports CacheCompactor CacheRestart
begin

text \<open>
  Compacting the binlog of the disk cache keeps what it says: stored values, taken from the database
  while it goes on writing, followed by what it wrote, give the map of the whole binlog.
\<close>

section \<open>What records do to one key\<close>

definition store_action :: "(Key \<times> Entry) list \<Rightarrow> Key \<Rightarrow> Entry option \<Rightarrow> Entry option" where
  "store_action entries key x = (case map_of (rev entries) key of Some entry \<Rightarrow> Some entry | None \<Rightarrow> x)"

definition with_time :: "nat \<Rightarrow> Entry \<Rightarrow> Entry" where "with_time time entry = entry\<lparr>en_useTime := time\<rparr>"

definition store_entry :: "nat \<Rightarrow> Store \<Rightarrow> Key \<times> Entry" where
  "store_entry t record = (store_key record, stored_entry record t)"

definition time_entry :: "StoreWithTime \<Rightarrow> Key \<times> Entry" where
  "time_entry record = (store_key record, stored_entry record (tp_relative (store_time record)))"

fun key_action :: "nat \<Rightarrow> binlog_record \<Rightarrow> Key \<Rightarrow> Entry option \<Rightarrow> Entry option" where
  "key_action t (RecordStore record) key = store_action [store_entry t record] key"
| "key_action t (RecordStoreWithTime record) key = store_action [time_entry record] key"
| "key_action t (RecordMultiStore records) key = store_action (map (store_entry t) records) key"
| "key_action t (RecordMultiStoreWithTime records) key = store_action (map time_entry records) key"
| "key_action t (RecordMultiRemove ks) key = (\<lambda>x. if key \<in> set ks then None else x)"
| "key_action t (RecordMultiAccess time ks) key = (\<lambda>x. if key \<in> set ks then map_option (with_time (tp_relative time)) x else x)"

definition key_actions :: "nat \<Rightarrow> binlog_record list \<Rightarrow> Key \<Rightarrow> Entry option \<Rightarrow> Entry option" where
  "key_actions t rs key x = fold (\<lambda>r. key_action t r key) rs x"

lemma key_actions_simps [simp]:
  "key_actions t [] key x = x" "key_actions t (r # rs) key x = key_actions t rs key (key_action t r key x)"
  "key_actions t (rs @ qs) key x = key_actions t qs key (key_actions t rs key x)"
  by (simp_all add: key_actions_def)

text \<open>Values that a key is given, set to, or keeps.\<close>

definition settled :: "(Entry option \<Rightarrow> Entry option) \<Rightarrow> bool" where
  "settled f \<longleftrightarrow> (\<exists>v. f = (\<lambda>_. v)) \<or> (\<exists>time. f = map_option (with_time time)) \<or> f = id"

lemma with_time_twice [simp]: "with_time a (with_time b entry) = with_time a entry"
  by (simp add: with_time_def)

lemma settled_comp: "settled f \<Longrightarrow> settled g \<Longrightarrow> settled (g \<circ> f)"
  unfolding settled_def
  by (elim disjE exE) (auto simp: comp_def fun_eq_iff option.map_comp)

lemma settled_id [simp]: "settled (\<lambda>x. x)"
  by (simp add: settled_def id_def)

lemma settled_const [simp]: "settled (\<lambda>x. v)"
  by (auto simp: settled_def)

lemma settled_time [simp]: "settled (map_option (with_time time))"
  by (auto simp: settled_def)

lemma settled_store [simp]: "settled (store_action entries key)"
  by (cases "map_of (rev entries) key") (auto simp: store_action_def settled_def id_def fun_eq_iff)

lemma settled_action: "settled (key_action t r key)"
proof (cases r)
  case (RecordMultiRemove ks)
  have "settled (\<lambda>x. if key \<in> set ks then None else x)" by (cases "key \<in> set ks") (simp_all only: if_True if_False settled_const settled_id)
  then show ?thesis using RecordMultiRemove by simp
next
  case (RecordMultiAccess time ks)
  have "settled (\<lambda>x. if key \<in> set ks then map_option (with_time (tp_relative time)) x else x)"
    by (cases "key \<in> set ks") (simp_all only: if_True if_False settled_time settled_id)
  then show ?thesis using RecordMultiAccess by simp
qed simp_all

lemma settled_actions: "settled (key_actions t rs key)"
proof (induction rs)
  case Nil
  then show ?case by (simp add: key_actions_def settled_def id_def)
next
  case (Cons r rs)
  have "key_actions t (r # rs) key = key_actions t rs key \<circ> key_action t r key" by (simp add: fun_eq_iff)
  then show ?case using settled_comp [OF settled_action Cons.IH] by metis
qed

lemma settled_twice: "settled f \<Longrightarrow> f (f x) = f x"
  by (auto simp: settled_def option.map_comp comp_def)

lemma settled_none: "settled f \<Longrightarrow> f x = None \<Longrightarrow> f None = None"
  by (auto simp: settled_def)

section \<open>The map after the records\<close>

text \<open>Only records without a time look at the time before them, and these do not change it.\<close>

definition kind_fits :: "bool \<Rightarrow> binlog_record \<Rightarrow> bool" where
  "kind_fits track r \<longleftrightarrow> kind_of_record r \<in> set (binlog_kinds track)"

lemma kind_fits_cases: "kind_fits track r \<Longrightarrow>
    (case r of RecordStore _ \<Rightarrow> \<not> track | RecordMultiStore _ \<Rightarrow> \<not> track | RecordMultiRemove _ \<Rightarrow> True | _ \<Rightarrow> track)"
  by (cases r) (auto simp: kind_fits_def binlog_kinds_def split: if_splits)

lemma stores_effect:
  "all_effects (store_effect settings) records (m, t) = (True, st) \<Longrightarrow>
    snd st = t \<and> (\<forall>key. fst st key = store_action (map (store_entry t) records) key (m key))"
proof (induction records arbitrary: m)
  case (Cons r records)
  have s: "size_fits settings r" and e: "all_effects (store_effect settings) records (m(store_key r \<mapsto> stored_entry r t), t) = (True, st)"
    using Cons.prems by (auto simp: store_effect_def [of settings r "(m, t)"] split: if_splits)
  show ?case using Cons.IH [OF e] by (auto simp: store_action_def store_entry_def map_add_def split: option.splits)
qed (auto simp: store_action_def)

lemma times_effect:
  "all_effects (store_with_time_effect settings) records (m, t) = (True, st) \<Longrightarrow>
    (\<forall>key. fst st key = store_action (map time_entry records) key (m key))"
proof (induction records arbitrary: m t)
  case (Cons r records)
  let ?time = "tp_relative (store_time r)"
  have s: "size_fits settings r" and e: "all_effects (store_with_time_effect settings) records
      (m(store_key r \<mapsto> stored_entry r ?time), max t ?time) = (True, st)"
    using Cons.prems by (auto simp: store_with_time_effect_def [of settings r "(m, t)"] Let_def split: if_splits)
  show ?case using Cons.IH [OF e] by (auto simp: store_action_def time_entry_def map_add_def split: option.splits)
qed (auto simp: store_action_def)

lemma record_effect_action:
  assumes "kind_fits track r" and "record_effect settings r (m, t) = (True, (m', t'))" and "\<not> track \<longrightarrow> t = t0"
  shows "m' key = key_action t0 r key (m key)" and "\<not> track \<longrightarrow> t' = t0"
proof -
  note k = kind_fits_cases [OF assms(1)]
  have "m' key = key_action t0 r key (m key) \<and> (\<not> track \<longrightarrow> t' = t0)"
  proof (cases r)
    case (RecordStore store)
    then show ?thesis using assms(2,3) k
      by (auto simp: record_effect_def store_effect_def store_action_def store_entry_def split: if_splits)
  next
    case (RecordStoreWithTime store)
    then show ?thesis using assms(2,3) k
      by (auto simp: record_effect_def store_with_time_effect_def store_action_def time_entry_def Let_def split: if_splits)
  next
    case (RecordMultiStore records)
    have "all_effects (store_effect settings) records (m, t) = (True, (m', t'))" using assms(2) RecordMultiStore by (simp add: record_effect_def)
    from stores_effect [OF this] show ?thesis using k assms(3) RecordMultiStore by auto
  next
    case (RecordMultiStoreWithTime records)
    have "all_effects (store_with_time_effect settings) records (m, t) = (True, (m', t'))"
      using assms(2) RecordMultiStoreWithTime by (simp add: record_effect_def)
    from times_effect [OF this] show ?thesis using k RecordMultiStoreWithTime by auto
  next
    case (RecordMultiRemove ks)
    then show ?thesis using assms(2,3) by (auto simp: record_effect_def restrict_map_def)
  next
    case (RecordMultiAccess time ks)
    have "m' = accessed_at (tp_relative time) (set ks) m" using assms(2) RecordMultiAccess by (simp add: record_effect_def)
    then show ?thesis using k RecordMultiAccess by (simp add: accessed_at_def with_time_def [abs_def])
  qed
  then show "m' key = key_action t0 r key (m key)" "\<not> track \<longrightarrow> t' = t0" by blast+
qed

lemma records_effect_actions:
  assumes "\<forall>r \<in> set rs. kind_fits track r" and "all_effects (record_effect settings) rs (m, t) = (True, (m', t'))" and "\<not> track \<longrightarrow> t = t0"
  shows "m' key = key_actions t0 rs key (m key)" and "\<not> track \<longrightarrow> t' = t0"
proof -
  have "m' key = key_actions t0 rs key (m key) \<and> (\<not> track \<longrightarrow> t' = t0)"
    using assms
  proof (induction rs arbitrary: m t)
    case (Cons r rs)
    obtain m1 t1 where e: "record_effect settings r (m, t) = (True, (m1, t1))" "all_effects (record_effect settings) rs (m1, t1) = (True, (m', t'))"
      using Cons.prems(2) by (auto split: prod.splits if_splits)
    have k: "kind_fits track r" using Cons.prems(1) by simp
    note a = record_effect_action [OF k e(1) Cons.prems(3)]
    show ?case using Cons.IH [OF _ e(2) a(2)] Cons.prems(1) a(1) [of key] by simp
  qed simp
  then show "m' key = key_actions t0 rs key (m key)" "\<not> track \<longrightarrow> t' = t0" by blast+
qed

text \<open>Records that could be replayed once can be replayed after others.\<close>

lemma stores_good: "fst (all_effects (store_effect settings) records st) = (\<forall>record \<in> set records. size_fits settings record)"
  by (induction records arbitrary: st) (auto simp: store_effect_def)

lemma times_good: "fst (all_effects (store_with_time_effect settings) records st) = (\<forall>record \<in> set records. size_fits settings record)"
  by (induction records arbitrary: st) (auto simp: store_with_time_effect_def Let_def)

lemma record_good: "fst (record_effect settings r st) = fst (record_effect settings r st')"
proof (cases r)
  case (RecordMultiStore records)
  then show ?thesis by (simp add: record_effect_def stores_good)
next
  case (RecordMultiStoreWithTime records)
  then show ?thesis by (simp add: record_effect_def times_good)
qed (simp_all add: record_effect_def store_effect_def store_with_time_effect_def Let_def)

lemma records_good: "fst (all_effects (record_effect settings) rs st) = fst (all_effects (record_effect settings) rs st')"
proof (induction rs arbitrary: st st')
  case (Cons r rs)
  obtain ok st1 ok' st1' where e: "record_effect settings r st = (ok, st1)" "record_effect settings r st' = (ok', st1')"
    by (metis surj_pair)
  moreover have "ok = ok'" using record_good [of settings r st st'] e by simp
  ultimately show ?case using Cons.IH [of st1 st1'] by simp
qed simp

section \<open>One key\<close>

lemma store_action_append [simp]: "store_action (a @ b) key x = store_action b key (store_action a key x)"
  by (auto simp: store_action_def map_add_def split: option.splits)

text \<open>What is done before and after a value is taken can be done to it again, or to no value.\<close>

lemma settled_cases:
  assumes "settled f"
  obtains (same) v where "\<And>x. f x = v" | (none) "f None = None"
  using assms by (auto simp: settled_def)

lemma taken_value: "settled f \<Longrightarrow> settled g \<Longrightarrow> g (f (f x)) = g (f x)"
  by (simp add: settled_twice)

lemma not_taken_value:
  assumes "settled f" and "settled g"
  shows "g (f None) = g (f x) \<or> g (f None) = None"
  using assms(1)
proof (cases rule: settled_cases)
  case none
  from assms(2) show ?thesis by (cases rule: settled_cases) (use none in auto)
qed auto

text \<open>Records without a time give all values the time before them.\<close>

lemma untracked_time:
  assumes "\<forall>r \<in> set rs. kind_fits False r" and "\<And>entry. x = Some entry \<Longrightarrow> en_useTime entry = t"
    and "key_actions t rs key x = Some entry"
  shows "en_useTime entry = t"
  using assms
proof (induction rs arbitrary: x)
  case (Cons r rs)
  have "en_useTime e = t" if "key_action t r key x = Some e" for e
  proof (cases r)
    case (RecordMultiStore records)
    then show ?thesis using that Cons.prems(2)
      by (auto simp: store_action_def store_entry_def stored_entry_def split: option.splits dest!: map_of_SomeD)
  qed (use that Cons.prems(1,2) in \<open>auto simp: store_action_def store_entry_def stored_entry_def kind_fits_def binlog_kinds_def split: if_splits\<close>)
  from Cons.IH [OF _ this] show ?case using Cons.prems(1,3) by simp
qed simp

end
