(* ===== verification/CacheCompactWrite.thy ===== *)
theory CacheCompactWrite
  imports CacheCatchUp CacheCompacted
begin

text \<open>
  The compactor of the disk cache writes every value that it is given once, in bundles, and the
  file of the compacted binlog is the header with these bundles.
\<close>

section \<open>What bundles hold\<close>

definition out_entries :: "nat \<Rightarrow> binlog_record \<Rightarrow> (Key \<times> Entry) list" where
  "out_entries t r = (case r of RecordMultiStore records \<Rightarrow> map (store_entry t) records
     | RecordMultiStoreWithTime records \<Rightarrow> map time_entry records | _ \<Rightarrow> [])"

definition list_record :: "compact_list \<Rightarrow> binlog_record" where
  "list_record list = (case list of StoreList records \<Rightarrow> RecordMultiStore records | TimeList records \<Rightarrow> RecordMultiStoreWithTime records)"

definition list_entries :: "nat \<Rightarrow> compact_list \<Rightarrow> (Key \<times> Entry) list" where
  "list_entries t list = out_entries t (list_record list)"

lemma list_simps [simp]:
  "bytes_of_list (StoreList rs) = map bytes_of_store rs" "bytes_of_list (TimeList qs) = map bytes_of_store_with_time qs"
  "list_entries t (StoreList rs) = map (store_entry t) rs" "list_entries t (TimeList qs) = map time_entry qs"
  "length (bytes_of_list list) = length (list_entries t list)" "list_entries t (clear_list list) = []"
  by (auto simp: bytes_of_list_def list_entries_def list_record_def out_entries_def clear_list_def split: compact_list.splits)

lemma length_concat_le: "\<forall>x \<in> set xs. length x \<le> n \<Longrightarrow> length (concat xs) \<le> n * length xs"
  by (induction xs) auto

text \<open>A list that can be written: of the kind of the settings, with good records.\<close>

definition list_fine :: "Settings \<Rightarrow> compact_list \<Rightarrow> bool" where
  "list_fine settings list \<longleftrightarrow> int (length (bytes_of_list list)) \<le> maxBundledRecords settings \<and>
     (case list of StoreList records \<Rightarrow> \<not> trackEstimatedTime settings \<and> list_all (\<lambda>r. store_ok r \<and> size_fits settings r) records
      | TimeList records \<Rightarrow> trackEstimatedTime settings \<and> list_all (\<lambda>r. store_ok r \<and> time_ok (store_time r) \<and> size_fits settings r) records)"

lemma list_fine_record:
  assumes "list_fine settings list" and "bytes_of_list list \<noteq> []" and "maxBundledRecords settings < kBundledRecordsLimit"
  shows "records_fit settings [list_record list]"
    and "\<exists>header. MultiStore_new (int (length (bytes_of_list list))) = Some header \<and> header @ concat (bytes_of_list list) = bytes_of_record (list_record list)
      \<and> length header = 16"
    and "length (bytes_of_record (list_record list)) \<le> 64 * length (list_entries t list)"
proof -
  have n: "int (length (bytes_of_list list)) < kBundledRecordsLimit" using assms(1,3) by (simp add: list_fine_def)
  show "records_fit settings [list_record list]"
    using assms n by (cases list) (auto simp: list_fine_def records_fit_def list_record_def count_fits_def binlog_kinds_def list_all_iff)
  have "ReadTo 3 (int (length (bytes_of_list list))) = Some (pack_elements 3 (length (bytes_of_list list)))"
    using n by (simp add: ReadTo_def kBundledRecordsLimit_def)
  then show h: "\<exists>header. MultiStore_new (int (length (bytes_of_list list))) = Some header \<and> header @ concat (bytes_of_list list) = bytes_of_record (list_record list)
      \<and> length header = 16"
    using n by (cases list) (auto simp: MultiStore_new_def bundle_header_def bundle_bytes_def list_record_def)
  have "\<forall>part \<in> set (bytes_of_list list). length part \<le> 48"
    using assms(1) by (cases list) (auto simp: list_fine_def list_all_iff)
  then have c: "length (concat (bytes_of_list list)) \<le> 48 * length (bytes_of_list list)" by (rule length_concat_le)
  have "length (bytes_of_record (list_record list)) = 16 + length (concat (bytes_of_list list))" using h by (metis length_append)
  moreover have "0 < length (bytes_of_list list)" using assms(2) by simp
  ultimately show "length (bytes_of_record (list_record list)) \<le> 64 * length (list_entries t list)"
    using c list_simps(5) [of list t] by linarith
qed

section \<open>The state while it writes\<close>

definition compact_frame :: "CompactorObject \<Rightarrow> CompactorObject \<Rightarrow> bool" where
  "compact_frame co co' \<longleftrightarrow> co' = co\<lparr>co_compact := co_compact co', co_written := co_written co', co_list := co_list co'\<rparr>"

definition compact_out :: "nat \<Rightarrow> binlog_record list \<Rightarrow> compact_list \<Rightarrow> (Key \<times> Entry) list" where
  "compact_out t C list = concat (map (out_entries t) C) @ list_entries t list"

text \<open>
  The file has the header and the bundles \<open>C\<close>, and these with the list are all the values \<open>out\<close>.
\<close>

definition compacted :: "(bytes \<Rightarrow> bytes \<Rightarrow> bytes) \<Rightarrow> crypto \<Rightarrow> nat \<Rightarrow> bytes \<Rightarrow> CompactorObject \<Rightarrow> disk \<Rightarrow> binlog_record list \<Rightarrow> (Key \<times> Entry) list \<Rightarrow> bool" where
  "compacted block c t start co disk C out \<longleftrightarrow>
     file_rep block c (co_key co) (co_compact co) (start @ bytes_of_records C) (length (start @ bytes_of_records C)) (length (start @ bytes_of_records C))
     \<and> f_results (co_compact co) = [] \<and> disk (compactPath co) = Some (f_data (co_compact co))
     \<and> co_partSize co = maxBundledRecords (co_settings co) \<and> records_fit (co_settings co) C \<and> list_fine (co_settings co) (co_list co)
     \<and> (\<forall>st. fst (all_effects (record_effect (co_settings co)) C st)) \<and> C \<in> lists (range list_record)
     \<and> compact_out t C (co_list co) = out
     \<and> set (co_written co) = fst ` set out \<and> distinct (map fst out) \<and> length (bytes_of_records C) \<le> 64 * length (concat (map (out_entries t) C))"

lemma list_fine_effect:
  assumes "list_fine settings list"
  shows "fst (record_effect settings (list_record list) st)"
  using assms by (cases list) (auto simp: list_fine_def record_effect_def list_record_def stores_good times_good list_all_iff)

lemma all_good_append:
  assumes "\<forall>st. fst (all_effects eff rs st)" and "\<And>st. fst (eff r st)"
  shows "\<forall>st. fst (all_effects eff (rs @ [r]) st)"
proof
  fix st
  obtain st1 where st1: "all_effects eff rs st = (True, st1)" using assms(1) by (metis (full_types) prod.collapse)
  obtain st2 where "eff r st1 = (True, st2)" using assms(2) by (metis (full_types) prod.collapse)
  then show "fst (all_effects eff (rs @ [r]) st)" using st1 by (simp add: all_effects_append)
qed

lemma compact_write_ok:
  assumes c: "ctr_mode block c" and r: "file_rep block c (co_key co) (co_compact co) D (length D) (length D)" and h: "f_results (co_compact co) = []"
    and bs: "length bs mod 16 = 0" and small: "length D + length bs < 2 ^ 61"
  shows "\<exists>f. compact_write c bs co disk = Some (True, co\<lparr>co_compact := f\<rparr>, disk(compactPath co \<mapsto> f_data f))
    \<and> file_rep block c (co_key co) f (D @ bs) (length (D @ bs)) (length (D @ bs)) \<and> f_results f = []"
proof -
  obtain f where f: "File_write c bs (co_compact co) = Some (True, f)" "file_rep block c (co_key co) f (D @ bs) (length (D @ bs)) (length (D @ bs))"
    "f_results f = []" using write_appends [OF c r h bs small] by blast
  then show ?thesis using file_rep_valid [OF f(2)] by (auto simp: compact_write_def set_compact_def)
qed

lemma writeMultiStore_ok:
  assumes c: "ctr_mode block c" and r: "compacted block c t start co disk C out" and limit: "maxBundledRecords (co_settings co) < kBundledRecordsLimit"
    and start: "length start = 16" and small: "16 + 64 * length out < 2 ^ 61"
  shows "\<exists>co' disk' C'. writeMultiStore c co disk = Some (True, co', disk') \<and> compacted block c t start co' disk' C' out
    \<and> list_entries t (co_list co') = [] \<and> compact_frame co co' \<and> co_written co' = co_written co
    \<and> (\<forall>path. path \<noteq> compactPath co \<longrightarrow> disk' path = disk path)"
proof (cases "bytes_of_list (co_list co) = []")
  case True
  then have "list_entries t (co_list co) = []" using list_simps(5) [of "co_list co" t] by simp
  then show ?thesis using True r by (intro exI [of _ co] exI [of _ disk] exI [of _ C]) (simp add: writeMultiStore_def compact_frame_def)
next
  case False
  note d = r [unfolded compacted_def]
  have fine: "list_fine (co_settings co) (co_list co)" using d by blast
  note l = list_fine_record [OF fine False limit]
  obtain header where h: "MultiStore_new (int (length (bytes_of_list (co_list co)))) = Some header"
    "header @ concat (bytes_of_list (co_list co)) = bytes_of_record (list_record (co_list co))" "length header = 16" using l(2) by blast
  define D where "D = start @ bytes_of_records C"
  let ?rec = "list_record (co_list co)"
  have total: "length D + length (bytes_of_record ?rec) \<le> 16 + 64 * length out"
    using l(3) [of t] d start by (auto simp: D_def compact_out_def)
  have r0: "file_rep block c (co_key co) (co_compact co) D (length D) (length D)" "f_results (co_compact co) = []" using d by (simp_all add: D_def)
  have m: "length (bytes_of_record ?rec) mod 16 = 0" using length_bytes_of_records [OF l(1)] by simp
  have len: "length (bytes_of_record ?rec) = 16 + length (concat (bytes_of_list (co_list co)))" using h(2,3) by (metis length_append)
  have s0: "length header mod 16 = 0" using h(3) by simp
  have s1: "length D + length header < 2 ^ 61" using total small len h(3) by linarith
  obtain f1 where f1: "compact_write c header co disk = Some (True, co\<lparr>co_compact := f1\<rparr>, disk(compactPath co \<mapsto> f_data f1))"
    "file_rep block c (co_key co) f1 (D @ header) (length (D @ header)) (length (D @ header))" "f_results f1 = []"
    using compact_write_ok [OF c r0 s0 s1] by blast
  let ?co1 = "co\<lparr>co_compact := f1\<rparr>"
  have r1: "file_rep block c (co_key ?co1) (co_compact ?co1) (D @ header) (length (D @ header)) (length (D @ header))" "f_results (co_compact ?co1) = []"
    using f1 by simp_all
  have s2: "length (concat (bytes_of_list (co_list co))) mod 16 = 0" using m len by simp
  have s3: "length (D @ header) + length (concat (bytes_of_list (co_list co))) < 2 ^ 61" using total small len h(3) by simp
  obtain f2 where f2: "compact_write c (concat (bytes_of_list (co_list co))) ?co1 (disk(compactPath co \<mapsto> f_data f1)) =
      Some (True, ?co1\<lparr>co_compact := f2\<rparr>, disk(compactPath co \<mapsto> f_data f1, compactPath ?co1 \<mapsto> f_data f2))"
    "file_rep block c (co_key co) f2 (D @ bytes_of_record ?rec) (length (D @ bytes_of_record ?rec)) (length (D @ bytes_of_record ?rec))" "f_results f2 = []"
    using compact_write_ok [OF c r1 s2 s3] h(2) by auto
  let ?co2 = "co\<lparr>co_compact := f2, co_list := clear_list (co_list co)\<rparr>"
  have e: "writeMultiStore c co disk = Some (True, ?co2, disk(compactPath co \<mapsto> f_data f2))"
    using False h(1) f1(1) f2(1) by (simp add: writeMultiStore_def Let_def compactPath_def)
  have "compacted block c t start ?co2 (disk(compactPath co \<mapsto> f_data f2)) (C @ [?rec]) out"
  proof -
    have "records_fit (co_settings co) (C @ [?rec])" using d l(1) by (auto simp: records_fit_def)
    moreover have "list_fine (co_settings co) (clear_list (co_list co))" using fine by (cases "co_list co") (auto simp: list_fine_def clear_list_def)
    moreover have "\<forall>st. fst (all_effects (record_effect (co_settings co)) (C @ [?rec]) st)"
      by (rule all_good_append) (use d list_fine_effect [OF fine] in blast)+
    moreover have "C @ [?rec] \<in> lists (range list_record)" using d by auto
    moreover have "compact_out t (C @ [?rec]) (clear_list (co_list co)) = out"
      using d by (simp add: compact_out_def) (simp add: list_entries_def)
    moreover have "length (bytes_of_records (C @ [?rec])) \<le> 64 * length (concat (map (out_entries t) (C @ [?rec])))"
      using d l(3) [of t] by (simp add: list_entries_def)
    ultimately show ?thesis using d f2(2,3) unfolding D_def by (simp add: compacted_def compactPath_def)
  qed
  then show ?thesis using e by (intro exI [of _ ?co2] exI [of _ "disk(compactPath co \<mapsto> f_data f2)"] exI [of _ "C @ [?rec]"]) (simp add: compact_frame_def)
qed

section \<open>Taking values\<close>

text \<open>Values of new keys, the first of each.\<close>

fun add_new :: "(Key \<times> Entry) list \<Rightarrow> (Key \<times> Entry) list \<Rightarrow> (Key \<times> Entry) list" where
  "add_new out [] = out"
| "add_new out (raw # raws) = add_new (if fst raw \<in> fst ` set out then out else out @ [raw]) raws"

lemma add_new_length: "length out \<le> length (add_new out raws)"
proof (induction raws arbitrary: out)
  case (Cons raw raws)
  show ?case using Cons.IH [of out] Cons.IH [of "out @ [raw]"] by simp
qed simp

definition raw_fine :: "nat \<Rightarrow> Settings \<Rightarrow> Key \<times> Entry \<Rightarrow> bool" where
  "raw_fine t settings raw \<longleftrightarrow> entry_fine settings (snd raw) \<and> (\<not> trackEstimatedTime settings \<longrightarrow> en_useTime (snd raw) = t)"

lemma addListRecord_ok:
  assumes r: "compacted block c t start co disk C out" and raw: "raw_fine t (co_settings co) raw" and s: "maxDataSize (co_settings co) < kDataSizeLimit"
    and time: "ci_systemTime (co_info co) < 2 ^ 32" and room: "int (length (bytes_of_list (co_list co))) \<noteq> co_partSize co"
  shows "\<exists>co'. addListRecord raw co = Some co' \<and> compacted block c t start co' disk C (add_new out [raw]) \<and> compact_frame co co'"
proof (cases "fst raw \<in> fst ` set out")
  case True
  then have "addListRecord raw co = Some co" using r by (simp add: addListRecord_def compacted_def)
  then show ?thesis using True r by (simp add: compact_frame_def)
next
  case False
  note d = r [unfolded compacted_def]
  have fine: "list_fine (co_settings co) (co_list co)" using d by blast
  have e: "entry_fine (co_settings co) (snd raw)" "\<not> trackEstimatedTime (co_settings co) \<longrightarrow> en_useTime (snd raw) = t" using raw by (simp_all add: raw_fine_def)
  have n: "0 \<le> en_size (snd raw)" "en_size (snd raw) < kDataSizeLimit" using e(1) s by (simp_all add: entry_fine_def)
  have new: "fst raw \<notin> set (co_written co)" using False d by simp
  have "\<exists>co' list. addListRecord raw co = Some co' \<and> co' = co\<lparr>co_written := fst raw # co_written co, co_list := list\<rparr>
    \<and> list_entries t list = list_entries t (co_list co) @ [raw] \<and> list_fine (co_settings co) list"
  proof (cases "co_list co")
    case (StoreList list)
    obtain packed where p: "Store_setSize (en_size (snd raw)) (Store_new\<lparr>store_key := fst raw\<rparr>) =
        Some (Store_new\<lparr>store_key := fst raw, store_size := packed\<rparr>)" "length packed = 3" "ReadFrom packed = en_size (snd raw)"
      using setSize_ok [of "en_size (snd raw)" "Store_new\<lparr>store_key := fst raw\<rparr>"] n by (auto simp: kDataSizeLimit_def)
    let ?r = "Store_new\<lparr>store_key := fst raw, store_size := packed, store_checksum := en_checksum (snd raw), store_tag := en_tag (snd raw),
        store_place := en_place (snd raw)\<rparr>"
    have "store_entry t ?r = raw" using p(3) e(2) fine StoreList
      by (cases raw) (simp add: store_entry_def stored_entry_def Store_getSize_def list_fine_def)
    moreover have "store_ok ?r \<and> size_fits (co_settings co) ?r" using p(2,3) e(1) by (simp add: store_ok_def size_fits_def Store_getSize_def entry_fine_def)
    ultimately show ?thesis using p(1) new fine room StoreList d
      by (auto simp: addListRecord_def compact_store_def list_fine_def)
  next
    case (TimeList list)
    let ?n = "new_store_with_time EstimatedTimePoint_new"
    obtain packed where p: "Store_setSize (en_size (snd raw)) (?n\<lparr>store_key := fst raw\<rparr>) =
        Some (?n\<lparr>store_key := fst raw, store_size := packed\<rparr>)" "length packed = 3" "ReadFrom packed = en_size (snd raw)"
      using setSize_ok [of "en_size (snd raw)" "?n\<lparr>store_key := fst raw\<rparr>"] n by (auto simp: kDataSizeLimit_def)
    let ?r = "?n\<lparr>store_key := fst raw, store_size := packed, store_checksum := en_checksum (snd raw), store_tag := en_tag (snd raw),
        store_place := en_place (snd raw), store_time := \<lparr>tp_relative = en_useTime (snd raw), tp_system = ci_systemTime (co_info co)\<rparr>\<rparr>"
    have "time_entry ?r = raw" using p(3)
      by (cases raw) (simp add: time_entry_def stored_entry_def Store_getSize_def)
    moreover have "store_ok ?r \<and> time_ok (store_time ?r) \<and> size_fits (co_settings co) ?r"
      using p(2,3) e(1) time by (simp add: store_ok_def size_fits_def Store_getSize_def entry_fine_def time_ok_def)
    ultimately show ?thesis using p(1) new fine room TimeList d
      by (auto simp: addListRecord_def compact_store_def list_fine_def)
  qed
  then obtain co' list where co': "addListRecord raw co = Some co'" "co' = co\<lparr>co_written := fst raw # co_written co, co_list := list\<rparr>"
    "list_entries t list = list_entries t (co_list co) @ [raw]" "list_fine (co_settings co) list" by blast
  have "compacted block c t start co' disk C (out @ [raw])"
  proof -
    have o: "compact_out t C list = out @ [raw]" using d co'(3) by (simp add: compact_out_def)
    have k: "distinct (map fst (out @ [raw]))" "set (fst raw # co_written co) = fst ` set (out @ [raw])" using d False by simp_all
    show ?thesis unfolding compacted_def using d co'(2,4) o k by (simp add: compactPath_def)
  qed
  then show ?thesis using co'(1,2) False by (intro exI [of _ co']) (simp add: compact_frame_def)
qed

lemma compact_frame_trans: "compact_frame a b \<Longrightarrow> compact_frame b d \<Longrightarrow> compact_frame a d"
  by (cases a; cases b; cases d) (auto simp: compact_frame_def)

lemma compact_frame_fields:
  "compact_frame co co' \<Longrightarrow> co_settings co' = co_settings co" "compact_frame co co' \<Longrightarrow> co_info co' = co_info co"
  "compact_frame co co' \<Longrightarrow> co_folder co' = co_folder co" "compact_frame co co' \<Longrightarrow> co_key co' = co_key co"
  "compact_frame co co' \<Longrightarrow> co_wrapper co' = co_wrapper co" "compact_frame co co' \<Longrightarrow> co_header co' = co_header co"
  "compact_frame co co' \<Longrightarrow> compactPath co' = compactPath co" "compact_frame co co' \<Longrightarrow> co_binlogPath co' = co_binlogPath co"
  by (cases co; cases co'; simp add: compact_frame_def compactPath_def co_binlogPath_def)+

lemma fillList_ok:
  assumes "compacted block c t start co disk C out" and "\<forall>raw \<in> set raws. raw_fine t (co_settings co) raw"
    and "maxDataSize (co_settings co) < kDataSizeLimit" and "ci_systemTime (co_info co) < 2 ^ 32"
  shows "\<exists>left co' out'. fillList raws co = Some (left, co') \<and> compacted block c t start co' disk C out' \<and> compact_frame co co'
    \<and> add_new out raws = add_new out' left \<and> (\<exists>done_raws. raws = done_raws @ left) \<and> length out \<le> length out'
    \<and> (left = [] \<or> int (length (bytes_of_list (co_list co'))) = co_partSize co')
    \<and> (left \<noteq> [] \<and> int (length (bytes_of_list (co_list co))) \<noteq> co_partSize co \<longrightarrow> length left < length raws)"
  using assms
proof (induction raws arbitrary: co out)
  case Nil
  then show ?case by (auto simp: compact_frame_def intro!: exI [of _ co])
next
  case (Cons raw raws)
  show ?case
  proof (cases "int (length (bytes_of_list (co_list co))) = co_partSize co")
    case True
    then show ?thesis using Cons.prems(1) by (intro exI [of _ "raw # raws"] exI [of _ co] exI [of _ out]) (simp add: compact_frame_def)
  next
    case False
    have f: "raw_fine t (co_settings co) raw" using Cons.prems(2) by simp
    obtain co1 where co1: "addListRecord raw co = Some co1" "compacted block c t start co1 disk C (add_new out [raw])" "compact_frame co co1"
      using addListRecord_ok [OF Cons.prems(1) f Cons.prems(3,4) False] by blast
    note s = compact_frame_fields(1,2) [OF co1(3)]
    have p: "\<forall>raw \<in> set raws. raw_fine t (co_settings co1) raw" "maxDataSize (co_settings co1) < kDataSizeLimit"
      "ci_systemTime (co_info co1) < 2 ^ 32" using Cons.prems(2-4) s by simp_all
    obtain left co' out' where IH: "fillList raws co1 = Some (left, co')" "compacted block c t start co' disk C out'" "compact_frame co1 co'"
      "add_new (add_new out [raw]) raws = add_new out' left" "\<exists>done_raws. raws = done_raws @ left" "length (add_new out [raw]) \<le> length out'"
      "left = [] \<or> int (length (bytes_of_list (co_list co'))) = co_partSize co'"
      using Cons.IH [OF co1(2) p] by blast
    obtain done_raws where dr: "raws = done_raws @ left" using IH(5) by blast
    have "fillList (raw # raws) co = Some (left, co')" using False co1(1) IH(1) by simp
    moreover have "compact_frame co co'" by (rule compact_frame_trans [OF co1(3) IH(3)])
    moreover have "raw # raws = (raw # done_raws) @ left" "length left < length (raw # raws)" using dr by simp_all
    moreover have "length out \<le> length out'" using IH(6) add_new_length [of out "[raw]"] by simp
    moreover have "add_new out (raw # raws) = add_new out' left" using IH(4) by simp
    ultimately show ?thesis using IH(2,7) by blast
  qed
qed

lemma process_loop_ok:
  assumes c: "ctr_mode block c" and start: "length start = 16" and s: "settings_fine settings"
  shows "compacted block c t start co disk C out \<Longrightarrow> co_settings co = settings \<Longrightarrow> \<forall>raw \<in> set raws. raw_fine t settings raw \<Longrightarrow>
    ci_systemTime (co_info co) < 2 ^ 32 \<Longrightarrow> 16 + 64 * length (add_new out raws) < 2 ^ 61 \<Longrightarrow>
    \<exists>co' disk' C'. process_loop c raws co disk = Some (True, co', disk') \<and> compacted block c t start co' disk' C' (add_new out raws)
      \<and> compact_frame co co' \<and> (\<forall>path. path \<noteq> compactPath co \<longrightarrow> disk' path = disk path)"
proof (induction "length raws + (if bytes_of_list (co_list co) = [] then 0 else 1)" arbitrary: raws co disk C out rule: less_induct)
  case less
  note limits = settings_fineD [OF s]
  have p: "\<forall>raw \<in> set raws. raw_fine t (co_settings co) raw" "maxDataSize (co_settings co) < kDataSizeLimit" using less.prems(2,3) limits by simp_all
  obtain left co1 out1 done_raws where f: "fillList raws co = Some (left, co1)" "compacted block c t start co1 disk C out1" "compact_frame co co1"
    "add_new out raws = add_new out1 left" "raws = done_raws @ left"
    "left = [] \<or> int (length (bytes_of_list (co_list co1))) = co_partSize co1"
    "left \<noteq> [] \<and> int (length (bytes_of_list (co_list co))) \<noteq> co_partSize co \<longrightarrow> length left < length raws"
    using fillList_ok [OF less.prems(1) p less.prems(4)] by blast
  note frame = compact_frame_fields [OF f(3)]
  show ?case
  proof (cases "left = []")
    case True
    have "process_loop c raws co disk = Some (True, co1, disk)" using f(1) True by (subst process_loop.simps) simp
    then show ?thesis using True f(2-4) by auto
  next
    case False
    have small: "16 + 64 * length out1 < 2 ^ 61" using less.prems(5) f(4) add_new_length [of out1 left] by simp
    have l1: "maxBundledRecords (co_settings co1) < kBundledRecordsLimit" using frame(1) less.prems(2) limits by simp
    obtain co2 disk2 C2 where w: "writeMultiStore c co1 disk = Some (True, co2, disk2)" "compacted block c t start co2 disk2 C2 out1"
      "list_entries t (co_list co2) = []" "compact_frame co1 co2" "\<forall>path. path \<noteq> compactPath co1 \<longrightarrow> disk2 path = disk path"
      using writeMultiStore_ok [OF c f(2) l1 start small] by blast
    note frame2 = compact_frame_fields [OF w(4)]
    have e: "bytes_of_list (co_list co2) = []" using w(3) list_simps(5) [of "co_list co2" t] by simp
    have step: "process_loop c raws co disk = process_loop c left co2 disk2" using f(1) False w(1) by (subst process_loop.simps) simp
    have part: "co_partSize co = maxBundledRecords settings" using less.prems(1,2) by (simp add: compacted_def)
    have dec: "length left + (if bytes_of_list (co_list co2) = [] then 0 else 1) <
        length raws + (if bytes_of_list (co_list co) = [] then 0 else 1)"
      using f(5,7) False e part limits(1) by (cases "bytes_of_list (co_list co) = []") auto
    have q: "co_settings co2 = settings" "\<forall>raw \<in> set left. raw_fine t settings raw" "ci_systemTime (co_info co2) < 2 ^ 32"
      "16 + 64 * length (add_new out1 left) < 2 ^ 61"
      using less.prems(2-5) frame(1,2) frame2(1,2) f(4,5) by simp_all
    obtain co' disk' C' where IH: "process_loop c left co2 disk2 = Some (True, co', disk')" "compacted block c t start co' disk' C' (add_new out1 left)"
      "compact_frame co2 co'" "\<forall>path. path \<noteq> compactPath co2 \<longrightarrow> disk' path = disk2 path"
      using less.hyps [OF dec w(2) q] by blast
    have "compact_frame co co'" using compact_frame_trans f(3) w(4) IH(3) by blast
    moreover have "\<forall>path. path \<noteq> compactPath co \<longrightarrow> disk' path = disk path" using IH(4) w(5) frame(7) frame2(7) by simp
    ultimately show ?thesis using step IH(1,2) f(4) by auto
  qed
qed

end
