(* ===== verification/CacheCompactRun.thy ===== *)
theory CacheCompactRun
  imports CacheCompactRead CacheCompactWrite
begin

text \<open>
  A run of the compactor of the disk cache beside the database: it asks for the values of the keys
  that it has read, chunk by chunk, writes them, and appends what the database has written meanwhile.
\<close>

section \<open>The map of bundles and what follows them\<close>

lemma bundles_action:
  "C \<in> lists (range list_record) \<Longrightarrow> key_actions t C key x = store_action (concat (map (out_entries t) C)) key x"
proof (induction C arbitrary: x)
  case (Cons r C)
  then obtain list where "r = list_record list" by auto
  then have "key_action t r key x = store_action (out_entries t r) key x" by (cases list) (simp_all add: list_record_def out_entries_def)
  then show ?case using Cons by simp
qed (simp add: store_action_def)

lemma bundles_map:
  "C \<in> lists (range list_record) \<Longrightarrow> distinct (map fst (concat (map (out_entries t) C))) \<Longrightarrow>
    key_actions t C key None = map_of (concat (map (out_entries t) C)) key"
proof -
  assume C: "C \<in> lists (range list_record)" and d: "distinct (map fst (concat (map (out_entries t) C)))"
  define out where "out = concat (map (out_entries t) C)"
  have "map_of (rev out) = map_of out" using d map_of_inject_set [of "rev out" out] by (simp add: out_def [symmetric] rev_map [symmetric])
  then show ?thesis unfolding bundles_action [OF C] out_def [symmetric] by (simp add: store_action_def split: option.splits)
qed

lemma no_store: "key \<notin> fst ` set entries \<Longrightarrow> store_action entries key x = x"
  by (simp add: store_action_def map_of_eq_None_iff [THEN iffD2])

lemma unstored_key: "key \<notin> set (concat (map record_keys P)) \<Longrightarrow> key_actions t P key None = None"
proof (induction P)
  case (Cons r P)
  have "key_action t r key None = None" using Cons.prems
    by (cases r) (auto simp: record_keys_def store_entry_def time_entry_def image_image intro!: no_store)
  then show ?case using Cons by simp
qed simp

text \<open>
  What the database says at some moment: it has written \<open>S\<close> of the records \<open>T\<close>, and its map has what the
  binlog says, but for values whose removal is not written yet.
\<close>

type_synonym moment = "binlog_record list \<times> (Key \<rightharpoonup> Entry)"

definition snapshot :: "nat \<Rightarrow> (Key \<rightharpoonup> Entry) \<Rightarrow> binlog_record list \<Rightarrow> moment \<Rightarrow> bool" where
  "snapshot t m0 T m \<longleftrightarrow> (\<exists>R. T = fst m @ R) \<and> (\<forall>key. snd m key = None \<or> snd m key = key_actions t (fst m) key (m0 key))"

text \<open>The removal of the value was not written at this moment.\<close>

definition removal_pending :: "nat \<Rightarrow> (Key \<rightharpoonup> Entry) \<Rightarrow> moment \<Rightarrow> Key \<Rightarrow> bool" where
  "removal_pending t m0 m key \<longleftrightarrow> snd m key = None \<and> key_actions t (fst m) key (m0 key) \<noteq> None"

text \<open>Every value was taken at some moment, and keys that were asked for and have no value had none then.\<close>

definition taken :: "nat \<Rightarrow> (Key \<rightharpoonup> Entry) \<Rightarrow> binlog_record list \<Rightarrow> moment set \<Rightarrow> Key set \<Rightarrow> (Key \<times> Entry) list \<Rightarrow> bool" where
  "taken t m0 T ms asked out \<longleftrightarrow>
     (\<forall>key entry. (key, entry) \<in> set out \<longrightarrow> (\<exists>S R. T = S @ R \<and> Some entry = key_actions t S key (m0 key)))
     \<and> (\<forall>key \<in> asked. key \<in> fst ` set out \<or> (\<exists>m \<in> ms. snd m key = None))"

lemma snapshot_more: "snapshot t m0 T m \<Longrightarrow> snapshot t m0 (T @ later) m"
  by (auto simp: snapshot_def)

lemma taken_more: "taken t m0 T ms asked out \<Longrightarrow> taken t m0 (T @ later) ms asked out"
  unfolding taken_def by (metis append_assoc)

lemma taken_compacts:
  assumes taken: "taken t m0 T ms asked out" and ms: "\<forall>m \<in> ms. snapshot t m0 T m" and rest: "\<And>key. key \<notin> asked \<Longrightarrow> m0 key = None"
  shows "key_actions t T key (map_of out key) = key_actions t T key (m0 key)
    \<or> key_actions t T key (map_of out key) = None \<and> (\<exists>m \<in> ms. removal_pending t m0 m key)"
proof (cases "map_of out key")
  case (Some entry)
  then have "(key, entry) \<in> set out" by (rule map_of_SomeD)
  then obtain S R where s: "T = S @ R" "Some entry = key_actions t S key (m0 key)" using taken unfolding taken_def by blast
  have "key_actions t R key (key_actions t S key (key_actions t S key (m0 key))) = key_actions t R key (key_actions t S key (m0 key))"
    by (rule taken_value [OF settled_actions settled_actions])
  then show ?thesis using Some s by simp
next
  case None
  then have no: "key \<notin> fst ` set out" by (simp add: map_of_eq_None_iff)
  show ?thesis
  proof (cases "key \<in> asked")
    case True
    then obtain m where m: "m \<in> ms" "snd m key = None" using taken no by (auto simp: taken_def)
    then obtain R where s: "T = fst m @ R" using ms by (auto simp: snapshot_def)
    have either: "key_actions t T key None = key_actions t T key (m0 key) \<or> key_actions t T key None = None"
      using not_taken_value [OF settled_actions [of t "fst m" key] settled_actions [of t R key], of "m0 key"] s by simp
    show ?thesis
    proof (cases "key_actions t (fst m) key (m0 key) = None")
      case True
      then have "key_actions t (fst m) key None = None" by (rule settled_none [OF settled_actions])
      then show ?thesis using None s True by simp
    next
      case False
      then show ?thesis using either None m by (auto simp: removal_pending_def)
    qed
  qed (simp add: None rest)
qed

section \<open>Asking\<close>

lemma map_filter_set: "set (List.map_filter (\<lambda>key. map_option (Pair key) (m key)) ks) = {(key, entry). key \<in> set ks \<and> m key = Some entry}"
  by (force simp: List.map_filter_def map_option_case split: option.splits)

lemma add_new_both: "set (add_new out raws) \<subseteq> set out \<union> set raws \<and> fst ` set (add_new out raws) = fst ` set out \<union> fst ` set raws"
proof (induction raws arbitrary: out)
  case (Cons raw raws)
  define o' where "o' = (if fst raw \<in> fst ` set out then out else out @ [raw])"
  have o': "set o' \<subseteq> insert raw (set out)" "fst ` set o' = insert (fst raw) (fst ` set out)" "add_new out (raw # raws) = add_new o' raws"
    by (auto simp: o'_def)
  show ?case unfolding o'(3) using Cons.IH [of o'] o'(1,2) by auto
qed simp

lemmas add_new_simps = add_new_both [THEN conjunct1] add_new_both [THEN conjunct2]

lemma taken_answer:
  assumes taken: "taken t m0 T ms asked out" and m: "m \<in> ms" "snapshot t m0 T m"
  shows "taken t m0 T ms (asked \<union> set ks) (add_new out (List.map_filter (\<lambda>key. map_option (Pair key) (snd m key)) ks))"
proof -
  let ?raws = "List.map_filter (\<lambda>key. map_option (Pair key) (snd m key)) ks"
  have "\<exists>S R. T = S @ R \<and> Some entry = key_actions t S key (m0 key)" if "(key, entry) \<in> set ?raws" for key entry
  proof -
    have e: "snd m key = Some entry" using that by (simp add: map_filter_set)
    obtain R where "T = fst m @ R" "\<forall>key. snd m key = None \<or> snd m key = key_actions t (fst m) key (m0 key)" using m(2) unfolding snapshot_def by blast
    then show ?thesis using e by (metis option.distinct(1))
  qed
  then have "\<forall>key entry. (key, entry) \<in> set (add_new out ?raws) \<longrightarrow> (\<exists>S R. T = S @ R \<and> Some entry = key_actions t S key (m0 key))"
    using taken add_new_simps(1) [of out ?raws] unfolding taken_def by blast
  moreover have "key \<in> fst ` set ?raws \<or> snd m key = None" if "key \<in> set ks" for key
    using that unfolding map_filter_set by (cases "snd m key") force+
  then have "\<forall>key \<in> asked \<union> set ks. key \<in> fst ` set (add_new out ?raws) \<or> (\<exists>m \<in> ms. snd m key = None)"
    using taken m(1) unfolding taken_def add_new_simps(2) by blast
  ultimately show ?thesis by (simp add: taken_def)
qed

lemma distinct_bound: "distinct (map fst out) \<Longrightarrow> fst ` set out \<subseteq> set all_keys \<Longrightarrow> length out \<le> length all_keys"
  by (metis card_length card_mono distinct_card finite_set le_trans length_map set_map)

text \<open>The compactor stands between two chunks.\<close>

definition running :: "(bytes \<Rightarrow> bytes \<Rightarrow> bytes) \<Rightarrow> crypto \<Rightarrow> nat \<Rightarrow> bytes \<Rightarrow> bytes \<Rightarrow> nat \<Rightarrow> CompactorObject \<Rightarrow> disk \<Rightarrow>
    (Key \<times> Entry) list \<Rightarrow> Key list \<Rightarrow> bool" where
  "running block c t start D sz co disk out K \<longleftrightarrow>
     (\<exists>C p. compacted block c t start co disk C out \<and> chunks_at block c (co_key co) D sz (co_settings co) (co_wrapper co) p K)"

definition wrapper_frame :: "CompactorObject \<Rightarrow> CompactorObject \<Rightarrow> bool" where
  "wrapper_frame co co' \<longleftrightarrow> co_settings co' = co_settings co \<and> co_info co' = co_info co \<and> co_folder co' = co_folder co \<and> co_key co' = co_key co"

lemma wrapper_frameD:
  assumes "wrapper_frame co co'"
  shows "co_settings co' = co_settings co" "co_info co' = co_info co" "co_key co' = co_key co"
    "compactPath co' = compactPath co" "co_binlogPath co' = co_binlogPath co"
  using assms by (simp_all add: wrapper_frame_def compactPath_def co_binlogPath_def)

lemma compact_wrapper_frame: "compact_frame co co' \<Longrightarrow> wrapper_frame co co'"
  by (simp add: wrapper_frame_def compact_frame_fields)

lemma wrapper_frame_trans: "wrapper_frame a b \<Longrightarrow> wrapper_frame b d \<Longrightarrow> wrapper_frame a d"
  by (simp add: wrapper_frame_def)

text \<open>Everything is written and the rest is to catch up.\<close>

definition all_written :: "(bytes \<Rightarrow> bytes \<Rightarrow> bytes) \<Rightarrow> crypto \<Rightarrow> nat \<Rightarrow> bytes \<Rightarrow> CompactorObject \<Rightarrow> disk \<Rightarrow> (Key \<times> Entry) list \<Rightarrow> bool" where
  "all_written block c t start co disk out \<longleftrightarrow> (\<exists>C. compacted block c t start co disk C out \<and> list_entries t (co_list co) = [])"

lemma compacted_wrapper [simp]: "compacted block c t start (co\<lparr>co_wrapper := w\<rparr>) disk C out = compacted block c t start co disk C out"
  by (simp add: compacted_def compactPath_def)

lemma parseChunk_ok:
  assumes c: "ctr_mode block c" and r: "running block c t start D sz co disk out K" and s: "settings_fine (co_settings co)"
    "0 < compactChunkSize (co_settings co)" and start: "length start = 16" and small: "16 + 64 * length out < 2 ^ 61"
  shows "(\<exists>K1 K2 co'. K = K1 @ K2 \<and> K1 \<noteq> [] \<and> parseChunk c io rounds co disk = Some (co', disk, [AskValues K1])
      \<and> running block c t start D sz co' disk out K2 \<and> wrapper_frame co co')
    \<or> (K = [] \<and> (\<exists>co' disk'. parseChunk c io rounds co disk = co_finalize c rounds co' disk' \<and> all_written block c t start co' disk' out
      \<and> wrapper_frame co co'))"
proof -
  obtain C p where cp: "compacted block c t start co disk C out" "chunks_at block c (co_key co) D sz (co_settings co) (co_wrapper co) p K"
    using r by (auto simp: running_def)
  obtain w1 p1 K1 K2 where k: "readChunk c co = Some (K1, co\<lparr>co_wrapper := w1\<rparr>)" "K = K1 @ K2"
    "chunks_at block c (co_key co) D sz (co_settings co) w1 p1 K2" "K1 = [] \<longrightarrow> K = []"
    using readChunk_takes [OF c cp(2) refl s(2)] by blast
  let ?co = "co\<lparr>co_wrapper := w1\<rparr>"
  have good: "\<not> bw_failed w1" using k(3) by (simp add: chunks_at_def)
  have f: "wrapper_frame co ?co" by (simp add: wrapper_frame_def)
  show ?thesis
  proof (cases "K1 = []")
    case False
    have "running block c t start D sz ?co disk out K2" using cp(1) k(3) unfolding running_def by auto
    then show ?thesis using False k(1,2) good f by (auto simp: parseChunk_def)
  next
    case True
    have l: "maxBundledRecords (co_settings ?co) < kBundledRecordsLimit" using settings_fineD(2) [OF s(1)] by simp
    have cw: "compacted block c t start ?co disk C out" using cp(1) by simp
    obtain co' disk' C' where w: "writeMultiStore c ?co disk = Some (True, co', disk')" "compacted block c t start co' disk' C' out"
      "list_entries t (co_list co') = []" "compact_frame ?co co'"
      using writeMultiStore_ok [OF c cw l start small] by blast
    have "parseChunk c io rounds co disk = co_finalize c rounds co' disk'"
      using True k(1) good w(1) by (simp add: parseChunk_def co_finish_def)
    moreover have "wrapper_frame co co'" using wrapper_frame_trans [OF f compact_wrapper_frame [OF w(4)]] .
    ultimately show ?thesis using True k(4) w(2,3) by (auto simp: all_written_def)
  qed
qed

lemma processValues_ok:
  assumes c: "ctr_mode block c" and r: "running block c t start D sz co disk out K" and s: "settings_fine (co_settings co)"
    "0 < compactChunkSize (co_settings co)" and start: "length start = 16" and raws: "\<forall>raw \<in> set raws. raw_fine t (co_settings co) raw"
    and time: "ci_systemTime (co_info co) < 2 ^ 32" and small: "16 + 64 * length (add_new out raws) < 2 ^ 61"
  shows "(\<exists>K1 K2 co' disk'. K = K1 @ K2 \<and> K1 \<noteq> [] \<and> processValues c io rounds raws co disk = Some (co', disk', [AskValues K1])
      \<and> running block c t start D sz co' disk' (add_new out raws) K2 \<and> wrapper_frame co co')
    \<or> (K = [] \<and> (\<exists>co' disk'. processValues c io rounds raws co disk = co_finalize c rounds co' disk'
      \<and> all_written block c t start co' disk' (add_new out raws) \<and> wrapper_frame co co'))"
proof -
  obtain C p where cp: "compacted block c t start co disk C out" "chunks_at block c (co_key co) D sz (co_settings co) (co_wrapper co) p K"
    using r by (auto simp: running_def)
  obtain co1 disk1 C1 where l: "process_loop c raws co disk = Some (True, co1, disk1)" "compacted block c t start co1 disk1 C1 (add_new out raws)"
    "compact_frame co co1" using process_loop_ok [OF c start s(1) cp(1) refl raws time small] by blast
  note f = compact_frame_fields [OF l(3)]
  have r1: "running block c t start D sz co1 disk1 (add_new out raws) K" using l(2) cp(2) f unfolding running_def by auto
  have s1: "settings_fine (co_settings co1)" "0 < compactChunkSize (co_settings co1)" using s f by simp_all
  have step: "processValues c io rounds raws co disk = parseChunk c io rounds co1 disk1" using l(1) by (simp add: processValues_def)
  have w: "wrapper_frame co1 co' \<Longrightarrow> wrapper_frame co co'" for co'
    using wrapper_frame_trans [OF compact_wrapper_frame [OF l(3)]] .
  show ?thesis using parseChunk_ok [OF c r1 s1 start small, of io rounds] w unfolding step by blast
qed

section \<open>All chunks\<close>

text \<open>What the database does between two messages: it writes to the disk, and says what it has at this moment.\<close>

definition moment_of :: "(disk \<Rightarrow> disk) \<times> moment \<Rightarrow> compactor_moment" where
  "moment_of moment = (fst moment, \<lambda>ks. List.map_filter (\<lambda>key. map_option (Pair key) (snd (snd moment) key)) ks)"

lemma running_disk: "running block c t start D sz co disk out K \<Longrightarrow> disk' (compactPath co) = disk (compactPath co) \<Longrightarrow>
    running block c t start D sz co disk' out K"
  by (auto simp: running_def compacted_def)

lemma running_distinct: "running block c t start D sz co disk out K \<Longrightarrow> distinct (map fst out)"
  by (auto simp: running_def compacted_def simp del: distinct_map)

lemma compactor_run_ok:
  assumes c: "ctr_mode block c" and s: "settings_fine settings" "0 < compactChunkSize settings" and start: "length start = 16"
    and ms: "\<forall>m \<in> ms. snapshot t m0 T m \<and> (\<forall>key entry. snd m key = Some entry \<longrightarrow> raw_fine t settings (key, entry))"
    and small: "16 + 64 * length all_keys < 2 ^ 61"
  shows "running block c t start D sz co disk out K2 \<Longrightarrow> co_settings co = settings \<Longrightarrow> ci_systemTime (co_info co) < 2 ^ 32 \<Longrightarrow>
    taken t m0 T ms asked out \<Longrightarrow> fst ` set out \<union> set K1 \<union> set K2 \<subseteq> set all_keys \<Longrightarrow> length (K1 @ K2) \<le> length moments \<Longrightarrow> K1 \<noteq> [] \<Longrightarrow>
    \<forall>moment \<in> set moments. snd moment \<in> ms \<and> (\<forall>disk. fst moment disk (compactPath co) = disk (compactPath co)) \<Longrightarrow>
    \<exists>co' disk' out' left. compactor_run c io rounds (map moment_of moments) (co, disk, [AskValues K1]) =
        Option.bind (co_finalize c rounds co' disk') (compactor_run c io rounds left)
      \<and> all_written block c t start co' disk' out' \<and> taken t m0 T ms (asked \<union> set K1 \<union> set K2) out' \<and> wrapper_frame co co'
      \<and> fst ` set out' \<subseteq> set all_keys"
proof (induction moments arbitrary: co disk out K1 K2 asked)
  case (Cons moment moments)
  obtain wrote m where m: "moment = (wrote, m)" by (cases moment) simp
  have mm: "m \<in> ms" "\<And>disk. wrote disk (compactPath co) = disk (compactPath co)" using Cons.prems(8) m by simp_all
  note snap = ms [rule_format, OF mm(1)]
  let ?raws = "List.map_filter (\<lambda>key. map_option (Pair key) (snd m key)) K1"
  have r: "running block c t start D sz co (wrote disk) out K2" using running_disk [OF Cons.prems(1), of "wrote disk"] mm(2) by blast
  have raws: "\<forall>raw \<in> set ?raws. raw_fine t (co_settings co) raw" using snap Cons.prems(2) unfolding map_filter_set by auto
  have sub: "fst ` set (add_new out ?raws) \<subseteq> set all_keys" using Cons.prems(5) unfolding add_new_simps(2) map_filter_set by auto
  have "distinct (map fst out) \<Longrightarrow> distinct (map fst (add_new out raws))" for raws
    by (induction out raws rule: add_new.induct) auto
  then have "length (add_new out ?raws) \<le> length all_keys" using distinct_bound [OF _ sub] running_distinct [OF r] by blast
  then have small1: "16 + 64 * length (add_new out ?raws) < 2 ^ 61" using small by linarith
  have taken1: "taken t m0 T ms (asked \<union> set K1) (add_new out ?raws)" using taken_answer [OF Cons.prems(4) mm(1)] snap by blast
  have s1: "settings_fine (co_settings co)" "0 < compactChunkSize (co_settings co)" using s Cons.prems(2) by simp_all
  have step: "compactor_run c io rounds (map moment_of (moment # moments)) (co, disk, [AskValues K1]) =
      Option.bind (processValues c io rounds ?raws co (wrote disk)) (compactor_run c io rounds (map moment_of moments))"
    using m by (simp add: moment_of_def)
  from processValues_ok [OF c r s1 start raws Cons.prems(3) small1, of io rounds] show ?case
  proof (elim disjE conjE exE)
    fix K3 K4 co1 disk1
    assume e: "K2 = K3 @ K4" "K3 \<noteq> []" "processValues c io rounds ?raws co (wrote disk) = Some (co1, disk1, [AskValues K3])"
      "running block c t start D sz co1 disk1 (add_new out ?raws) K4" "wrapper_frame co co1"
    note f = wrapper_frameD [OF e(5)]
    have p: "co_settings co1 = settings" "ci_systemTime (co_info co1) < 2 ^ 32" using Cons.prems(2,3) f by simp_all
    have sub1: "fst ` set (add_new out ?raws) \<union> set K3 \<union> set K4 \<subseteq> set all_keys" using sub Cons.prems(5) e(1) by simp
    have l: "length (K3 @ K4) \<le> length moments" using Cons.prems(6,7) e(1) by (cases K1) simp_all
    have q: "\<forall>moment \<in> set moments. snd moment \<in> ms \<and> (\<forall>disk. fst moment disk (compactPath co1) = disk (compactPath co1))"
      using Cons.prems(8) f(4) by simp
    from Cons.IH [OF e(4) p taken1 sub1 l e(2) q] obtain co' disk' out' left where
      IH: "compactor_run c io rounds (map moment_of moments) (co1, disk1, [AskValues K3]) =
          Option.bind (co_finalize c rounds co' disk') (compactor_run c io rounds left)"
        "all_written block c t start co' disk' out'" "taken t m0 T ms (asked \<union> set K1 \<union> set K3 \<union> set K4) out'" "wrapper_frame co1 co'"
        "fst ` set out' \<subseteq> set all_keys" by blast
    have "taken t m0 T ms (asked \<union> set K1 \<union> set K2) out'" using IH(3) e(1) by (simp add: Un_assoc)
    then show ?thesis using step e(3) IH(1,2,5) wrapper_frame_trans [OF e(5) IH(4)] by auto
  next
    fix co1 disk1
    assume e: "K2 = []" "processValues c io rounds ?raws co (wrote disk) = co_finalize c rounds co1 disk1"
      "all_written block c t start co1 disk1 (add_new out ?raws)" "wrapper_frame co co1"
    then show ?thesis using step taken1 sub by (intro exI [of _ co1] exI [of _ disk1] exI [of _ "add_new out ?raws"] exI [of _ "map moment_of moments"]) simp
  qed
qed simp

section \<open>The last rounds\<close>

text \<open>Files that grow, and the last one did not.\<close>

fun grows :: "bytes \<Rightarrow> bytes list \<Rightarrow> bool" where
  "grows D [] \<longleftrightarrow> False"
| "grows D (D1 # Ds) \<longleftrightarrow> (\<exists>new. D1 = D @ new \<and> length new mod 16 = 0 \<and> (if Ds = [] then new = [] else grows D1 Ds))"

lemma grows_extends: "grows D Ds \<Longrightarrow> D2 \<in> set Ds \<Longrightarrow> \<exists>more. D2 = D @ more"
proof (induction D Ds rule: grows.induct)
  case (2 D D1 Ds)
  then show ?case by (cases "Ds = []") auto
qed simp

definition round_ok :: "(bytes \<Rightarrow> bytes \<Rightarrow> bytes) \<Rightarrow> crypto \<Rightarrow> bytes \<Rightarrow> cache_path \<Rightarrow> cache_path \<Rightarrow> catch_up_round \<Rightarrow> bytes \<Rightarrow> bool" where
  "round_ok block c key binlog target r D \<longleftrightarrow>
     lets_append (fst r) target \<and> (\<forall>disk. snd r disk target = disk target)
     \<and> (\<forall>disk. \<exists>data. snd r disk binlog = Some data \<and> disk_holds block c key data D)"

lemma finalize_loop_ok:
  assumes c: "ctr_mode block c" and amount: "0 < readBlockSize (co_settings co)" "readBlockSize (co_settings co) mod 16 = 0"
    and paths: "compactPath co \<noteq> co_binlogPath co"
  shows "list_all2 (round_ok block c (co_key co) (co_binlogPath co) (compactPath co)) rounds Ds \<Longrightarrow> grows D Ds \<Longrightarrow> length D mod 16 = 0 \<Longrightarrow>
    disk (compactPath co) = Some compact \<Longrightarrow> disk_holds block c (co_key co) compact E \<Longrightarrow> length E mod 16 = 0 \<Longrightarrow> D \<noteq> [] \<Longrightarrow>
    \<forall>D1 \<in> set Ds. length E + (length D1 - length D) < 2 ^ 61 \<and> length D1 < 2 ^ 61 \<Longrightarrow>
    \<exists>D1 \<in> set Ds. \<exists>disk' compact' binlog'. finalize_loop c co rounds lastCatchUp (int (length D)) disk =
        Some (co, disk', [PostDone (compactPath co) (int (length D1))])
      \<and> disk' (compactPath co) = Some compact' \<and> disk_holds block c (co_key co) compact' (E @ drop (length D) D1)
      \<and> disk' (co_binlogPath co) = Some binlog' \<and> disk_holds block c (co_key co) binlog' D1"
proof (induction rounds Ds arbitrary: D E disk compact lastCatchUp rule: list_all2_induct)
  case (Cons r rounds D1 Ds)
  obtain io wrote where r: "r = (io, wrote)" by (cases r) simp
  have ok: "lets_append io (compactPath co)" "wrote disk (compactPath co) = disk (compactPath co)"
    using Cons.hyps(1) r by (simp_all add: round_ok_def)
  obtain binlog where b: "wrote disk (co_binlogPath co) = Some binlog" "disk_holds block c (co_key co) binlog D1"
    using Cons.hyps(1) r unfolding round_ok_def by auto
  obtain new where new: "D1 = D @ new" "length new mod 16 = 0" "Ds = [] \<longrightarrow> new = []" "Ds \<noteq> [] \<longrightarrow> grows D1 Ds" using Cons.prems(1) by (auto split: if_splits)
  have l1: "length D1 mod 16 = 0" using new(1,2) Cons.prems(2) add_mod_16 by simp
  have s1: "length D1 < 2 ^ 61" "length E + (length D1 - length D) < 2 ^ 61" using Cons.prems(7) by simp_all
  have le: "length D \<le> length D1" using new(1) by simp
  have tgt: "wrote disk (compactPath co) = Some compact" using ok(2) Cons.prems(3) by simp
  obtain disk1 compact1 where cu: "CatchUp c io (compactPath co) (co_binlogPath co) (co_key co) (int (length D)) (readBlockSize (co_settings co)) (wrote disk) =
      Some (int (length D1), disk1)" "disk1 = (wrote disk)(compactPath co \<mapsto> compact1)" "disk_holds block c (co_key co) compact1 (E @ drop (length D) D1)"
    using CatchUp_copies [OF c b l1 s1(1) tgt Cons.prems(4,5,2) le amount s1(2) ok(1)] by blast
  have some: "length D1 \<noteq> 0" using Cons.prems(6) new(1) by simp
  have here: "disk1 (compactPath co) = Some compact1" "disk1 (co_binlogPath co) = Some binlog" using cu(2) b(1) paths by auto
  show ?case
  proof (cases "length D1 = length D \<or> 0 < lastCatchUp \<and> lastCatchUp \<le> int (length D1) - int (length D)")
    case True
    then have "finalize_loop c co (r # rounds) lastCatchUp (int (length D)) disk = Some (co, disk1, [PostDone (compactPath co) (int (length D1))])"
      using cu(1) some r by auto
    then show ?thesis using here cu(3) b(2) by auto
  next
    case False
    then have g: "grows D1 Ds" using new by auto
    let ?last = "sint (word_of_int (int (length D1) - int (length D)) :: 32 word)"
    have step: "finalize_loop c co (r # rounds) lastCatchUp (int (length D)) disk = finalize_loop c co rounds ?last (int (length D1)) disk1"
      using cu(1) some r False by auto
    have e16: "length (E @ drop (length D) D1) mod 16 = 0" using Cons.prems(5) new(1,2) add_mod_16 by simp
    have ne: "D1 \<noteq> []" using some by auto
    have longer: "length D1 \<le> length D2" if "D2 \<in> set Ds" for D2
      using grows_extends [OF g that] by auto
    have s2: "\<forall>D2 \<in> set Ds. length (E @ drop (length D) D1) + (length D2 - length D1) < 2 ^ 61 \<and> length D2 < 2 ^ 61"
      using Cons.prems(7) longer le by fastforce
    obtain D2 disk' compact' binlog' where IH: "D2 \<in> set Ds" "finalize_loop c co rounds ?last (int (length D1)) disk1 =
        Some (co, disk', [PostDone (compactPath co) (int (length D2))])"
      "disk' (compactPath co) = Some compact'" "disk_holds block c (co_key co) compact' ((E @ drop (length D) D1) @ drop (length D1) D2)"
      "disk' (co_binlogPath co) = Some binlog'" "disk_holds block c (co_key co) binlog' D2"
      using Cons.IH [where disk = disk1 and lastCatchUp = ?last, OF g l1 here(1) cu(3) e16 ne s2] by blast
    have "\<exists>more. D2 = D1 @ more" by (rule grows_extends [OF g IH(1)])
    then have "(E @ drop (length D) D1) @ drop (length D1) D2 = E @ drop (length D) D2" using new(1) by auto
    then show ?thesis using step IH by auto
  qed
qed simp

end
