(* ===== verification/CacheCompaction.thy ===== *)
theory CacheCompaction
  imports CacheCompactRun
begin

text \<open>
  The whole work of the compactor of the disk cache: opening, writing and catching up give a binlog
  that says what the binlog of the database says.
\<close>

section \<open>Starting\<close>

lemma header_bytes_back:
  assumes "binlog_start settings start time"
  shows "bytes_of_basic_header (basic_header_of_bytes start) = start"
  using assms header_read_back [OF assms] by (simp add: binlog_start_def)

definition compact_open :: "(bytes \<Rightarrow> bytes \<Rightarrow> bytes) \<Rightarrow> crypto \<Rightarrow> bytes \<Rightarrow> cache_path \<Rightarrow> disk \<Rightarrow> bytes \<Rightarrow> bool" where
  "compact_open block c key path disk D \<longleftrightarrow> (\<exists>data. disk path = Some data \<and> disk_holds block c key data D)"

lemma start_ok:
  assumes c: "ctr_mode block c" and s: "settings_fine settings" "0 < compactChunkSize settings" and start: "binlog_start settings start time"
    and fit: "records_fit settings P" and disk: "compact_open block c key (InFolder folder BinlogFilename) disk (start @ bytes_of_records P)"
    and small: "16 + length (bytes_of_records P) < 2 ^ 61" and info: "ci_till info = 16 + int (length (bytes_of_records P))"
    and env: "new_binlog_env (io_data io (InFolder folder CompactFilename))"
  shows "\<exists>co disk1. CompactorObject_new c io rounds folder settings key info disk = parseChunk c io rounds co disk1
    \<and> running block c t start (start @ bytes_of_records P) (16 + length (bytes_of_records P)) co disk1 [] (concat (map record_keys P))
    \<and> co_settings co = settings \<and> co_info co = info \<and> co_folder co = folder \<and> co_key co = key"
proof -
  define D where "D = start @ bytes_of_records P"
  define sz where "sz = 16 + length (bytes_of_records P)"
  let ?source = "InFolder folder BinlogFilename" and ?target = "InFolder folder CompactFilename"
  have l: "length start = 16" by (rule length_binlog_start [OF start])
  have m16: "length (bytes_of_records P) mod 16 = 0" by (rule length_bytes_of_records [OF fit])
  have lD: "length D = sz" "length D < 2 ^ 61" using l small by (simp_all add: D_def sz_def)
  obtain data where data: "disk ?source = Some data" "disk_holds block c key data D" using disk by (auto simp: compact_open_def D_def)
  let ?e = "(io_data io ?source)\<lparr>fe_file := Some data\<rparr>"
  obtain f where f: "File_open c Read key ?e = Some (Success, f)" "file_rep block c key f D 0 (length D - length D mod 16)"
    using File_open_Read [OF c data(2) lD(2), of ?e] by auto
  have whole16: "length D - length D mod 16 = sz" using lD(1) m16 by (simp add: sz_def)
  have o1: "disk_open c ?source Read key (io_data io ?source) disk = Some (Success, f, disk)" using f(1) data(1) by (simp add: disk_open_def)
  have rf: "file_rep block c key f D 0 sz" using f(2) whole16 by simp
  have size: "File_size f = int sz" and off: "File_offset f = 0" using file_rep_simps(2,3) [OF rf] by simp_all
  have whole: "whole_blocks (take 16 (drop 0 D)) = start" using l by (simp add: whole_blocks_def D_def)
  obtain f' where r: "File_read c 16 f = Some (start, f')" "file_rep block c key f' D 16 sz"
    using File_read_rep [OF c rf, of 16] l unfolding whole by (auto simp: sz_def)
  have read: "ReadHeader c settings f = Some (Some (basic_header_of_bytes start), f')"
    using off r(1) l header_read_back [OF start] by (simp add: ReadHeader_def Let_def)
  have e2: "fe_folder ((io_data io ?target)\<lparr>fe_file := disk ?target\<rparr>)" "fe_lock ((io_data io ?target)\<lparr>fe_file := disk ?target\<rparr>) = Locked"
    "length (fe_salt ((io_data io ?target)\<lparr>fe_file := disk ?target\<rparr>)) = kSaltSize" "fe_results ((io_data io ?target)\<lparr>fe_file := disk ?target\<rparr>) = []"
    using env by (simp_all add: new_binlog_env_def)
  obtain g where g: "File_open c Write key ((io_data io ?target)\<lparr>fe_file := disk ?target\<rparr>) = Some (Success, g)" "file_rep block c key g [] 0 0" "f_results g = []"
    using File_open_Write [OF c e2] by blast
  have o2: "disk_open c ?target Write key (io_data io ?target) disk = Some (Success, g, disk(?target \<mapsto> f_data g))"
    using g(1) e2(1,2) by (simp add: disk_open_def)
  define co0 where "co0 = \<lparr>co_folder = folder, co_settings = settings, co_key = key, co_header = BasicHeader_new, co_info = info, co_compact = no_file,
      co_wrapper = BinlogWrapper_new no_file settings (ci_till info), co_partSize = maxBundledRecords settings, co_written = [], co_list = StoreList []\<rparr>"
  define w where "w = BinlogWrapper_new f' settings (int sz)"
  define co2 where "co2 = co0\<lparr>co_wrapper := w, co_header := basic_header_of_bytes start, co_compact := g\<rparr>"
  have i0: "int sz \<noteq> 0" "ci_till info = int sz" using info by (simp_all add: sz_def)
  have wrap: "(BinlogWrapper_new no_file settings (ci_till info))\<lparr>bw_binlog := f'\<rparr> = w" using i0 by (simp add: w_def BinlogWrapper_new_def)
  have opened: "co_openBinlog c io co0 disk = Some (True, co0\<lparr>co_wrapper := (co_wrapper co0)\<lparr>bw_binlog := f\<rparr>\<rparr>)"
    using o1 size i0 by (simp add: co_openBinlog_def co_binlogPath_def co0_def)
  have header: "co_readHeader c (co0\<lparr>co_wrapper := (co_wrapper co0)\<lparr>bw_binlog := f\<rparr>\<rparr>) =
      Some (True, co0\<lparr>co_wrapper := w, co_header := basic_header_of_bytes start\<rparr>)"
    using read wrap by (simp add: co_readHeader_def co0_def)
  have k: "file_rep block c (co_key co2) (co_compact co2) [] (length ([] :: bytes)) (length ([] :: bytes))" "f_results (co_compact co2) = []"
    using g(2,3) by (simp_all add: co2_def co0_def)
  have s16: "length start mod 16 = 0" "length ([] :: bytes) + length start < 2 ^ 61" using l by simp_all
  obtain h where h: "compact_write c start co2 (disk(?target \<mapsto> f_data g)) = Some (True, co2\<lparr>co_compact := h\<rparr>, disk(?target \<mapsto> f_data g, compactPath co2 \<mapsto> f_data h))"
    "file_rep block c (co_key co2) h start (length start) (length start)" "f_results h = []"
    using compact_write_ok [OF c k s16, of "disk(?target \<mapsto> f_data g)"] by auto
  have path: "compactPath co2 = ?target" by (simp add: compactPath_def co2_def co0_def)
  have made: "openCompact c io (co0\<lparr>co_wrapper := w, co_header := basic_header_of_bytes start\<rparr>) disk =
      Some (True, co2\<lparr>co_compact := h\<rparr>, disk(?target \<mapsto> f_data h))"
    using o2 h(1) header_bytes_back [OF start] unfolding path by (simp add: openCompact_def compactPath_def co2_def co0_def Let_def)
  define co where "co = co2\<lparr>co_compact := h, co_list := (if trackEstimatedTime settings then TimeList [] else StoreList [])\<rparr>"
  have started: "co_start c io rounds co0 disk = parseChunk c io rounds co (disk(?target \<mapsto> f_data h))"
    using opened header made by (simp add: co_start_def co_def co2_def co0_def map_option_case split: option.splits)
  have fine: "list_fine settings (if trackEstimatedTime settings then TimeList [] else StoreList [])" "list_entries t (co_list co) = []"
    using settings_fineD(1) [OF s(1)] by (simp_all add: list_fine_def co_def)
  have "compacted block c t start co (disk(?target \<mapsto> f_data h)) [] []"
    using h(2,3) fine path unfolding compacted_def
    by (simp add: co_def co2_def co0_def compactPath_def compact_out_def records_fit_def)
  moreover have "chunks_at block c key D sz settings w 16 (concat (map record_keys P))"
    using chunks_at_start [OF r(2) [unfolded D_def] l sz_def fit] s(1) unfolding D_def w_def by (simp add: settings_fine_def)
  ultimately have "running block c t start D sz co (disk(?target \<mapsto> f_data h)) [] (concat (map record_keys P))"
    unfolding running_def by (auto simp: co_def co2_def co0_def)
  moreover have "CompactorObject_new c io rounds folder settings key info disk = co_start c io rounds co0 disk"
    using s(2) by (simp add: CompactorObject_new_def co0_def)
  ultimately show ?thesis using started unfolding D_def sz_def
    by (intro exI [of _ co] exI [of _ "disk(?target \<mapsto> f_data h)"]) (simp add: co_def co2_def co0_def)
qed

section \<open>The records of the database\<close>

lemma replays_front: "replays settings (rs @ qs) time st \<Longrightarrow> \<exists>st1. replays settings rs time st1"
  by (auto simp: replays_def records_fit_def all_effects_append split: prod.splits if_splits)

lemma records_fit_kinds: "records_fit settings rs \<Longrightarrow> \<forall>r \<in> set rs. kind_fits (trackEstimatedTime settings) r"
  by (auto simp: records_fit_def kind_fits_def)

lemma replays_map:
  assumes "replays settings rs time st"
  shows "fst st key = key_actions time rs key None"
proof -
  have e: "all_effects (record_effect settings) rs (Map.empty, time) = (True, (fst st, snd st))" and fit: "records_fit settings rs"
    using assms by (simp_all add: replays_def)
  from records_effect_actions(1) [OF records_fit_kinds [OF fit] e, where key = key and ?t0.0 = time] show ?thesis by simp
qed

lemma replays_raw_fine:
  assumes r: "replays settings rs time st" and time: "time < 2 ^ 64" and e: "fst st key = Some entry"
  shows "raw_fine time settings (key, entry)"
proof -
  have "entry_fine settings entry" using replays_fine [OF r time] e by (simp add: content_fine_def)
  moreover have "en_useTime entry = time" if "\<not> trackEstimatedTime settings"
    using untracked_time [of rs None time key entry] records_fit_kinds [of settings rs] r that e replays_map [OF r]
    by (simp add: replays_def)
  ultimately show ?thesis by (simp add: raw_fine_def)
qed

text \<open>Every stored key takes its record of at least 32 bytes.\<close>

lemma record_keys_length:
  assumes "record_fits limit r"
  shows "32 * length (record_keys r) \<le> length (bytes_of_record r)"
proof (cases r)
  case (RecordMultiStore records)
  then have "\<forall>part \<in> set (map bytes_of_store records). length part = 32" using assms by (auto simp: list_all_iff)
  from length_concat_parts [OF this] show ?thesis using RecordMultiStore by (simp add: record_keys_def bundle_bytes_def)
next
  case (RecordMultiStoreWithTime records)
  then have "\<forall>part \<in> set (map bytes_of_store_with_time records). length part = 48" using assms by (auto simp: list_all_iff)
  from length_concat_parts [OF this] show ?thesis using RecordMultiStoreWithTime by (simp add: record_keys_def bundle_bytes_def)
qed (use assms in \<open>simp_all add: record_keys_def\<close>)

lemma keys_length: "records_fit settings rs \<Longrightarrow> 32 * length (concat (map record_keys rs)) \<le> length (bytes_of_records rs)"
proof (induction rs)
  case (Cons r rs)
  have "record_fits (maxBundledRecords settings) r" "records_fit settings rs" using Cons.prems by (simp_all add: records_fit_def)
  then show ?case using record_keys_length [of "maxBundledRecords settings" r] Cons.IH by simp
qed simp

lemma out_keys: "C \<in> lists (range list_record) \<Longrightarrow> concat (map record_keys C) = map fst (concat (map (out_entries t) C))"
proof (induction C)
  case (Cons r C)
  then obtain list where "r = list_record list" by auto
  then have "record_keys r = map fst (out_entries t r)"
    by (cases list) (simp_all add: list_record_def record_keys_def out_entries_def store_entry_def time_entry_def)
  then show ?case using Cons by simp
qed simp

text \<open>The records that the database has written at the end of each round; in the last there are no new ones.\<close>

fun written_by :: "binlog_record list \<Rightarrow> binlog_record list list \<Rightarrow> bool" where
  "written_by T [] \<longleftrightarrow> False"
| "written_by T (T1 # Ts) \<longleftrightarrow> (\<exists>new. T1 = T @ new \<and> (if Ts = [] then new = [] else written_by T1 Ts))"

lemma written_by_before: "written_by T Ts \<Longrightarrow> T1 \<in> set Ts \<Longrightarrow> \<exists>before. T1 = T @ before"
proof (induction T Ts rule: written_by.induct)
  case (2 T T0 Ts)
  then show ?case by (cases "Ts = []") auto
qed simp

lemma written_by_after: "written_by T Ts \<Longrightarrow> T1 \<in> set Ts \<Longrightarrow> \<exists>after. last Ts = T1 @ after"
proof (induction T Ts rule: written_by.induct)
  case (2 T T0 Ts)
  show ?case
  proof (cases "Ts = []")
    case False
    then have w: "written_by T0 Ts" using 2(2) by auto
    show ?thesis using 2 False w written_by_before [OF w last_in_set [OF False]] by auto
  qed (use 2 in auto)
qed simp

lemma written_by_hd: "written_by T Ts \<Longrightarrow> T1 \<in> set Ts \<Longrightarrow> \<exists>later. T1 = hd Ts @ later"
proof (cases Ts)
  case (Cons T0 Us)
  then show "written_by T Ts \<Longrightarrow> T1 \<in> set Ts \<Longrightarrow> \<exists>later. T1 = hd Ts @ later"
    using written_by_before [of T0 Us T1] by (cases "Us = []") auto
qed simp

lemma written_grows:
  "written_by T Ts \<Longrightarrow> records_fit settings (P @ last Ts) \<Longrightarrow> grows (start @ bytes_of_records (P @ T)) (map (\<lambda>T. start @ bytes_of_records (P @ T)) Ts)"
proof (induction T Ts rule: written_by.induct)
  case (2 T T0 Ts)
  obtain new where new: "T0 = T @ new" "if Ts = [] then new = [] else written_by T0 Ts" using 2(2) by auto
  show ?case
  proof (cases "Ts = []")
    case False
    obtain after where "last Ts = T0 @ after" using written_by_before [of T0 Ts "last Ts"] new(2) False by auto
    then have "records_fit settings new" using 2(3) False new(1) by (simp add: records_fit_def)
    then have "length (bytes_of_records new) mod 16 = 0" by (rule length_bytes_of_records)
    then show ?thesis using 2 False new by auto
  qed (use new in auto)
qed simp

section \<open>The whole run\<close>

text \<open>
  The database while the compactor works: between two messages it has written some of the records
  that are there in the end, and has in its map what they say but for values whose removal is not
  written yet; it does not touch the file of the compactor.
\<close>

definition works_beside :: "cache_path \<Rightarrow> nat \<Rightarrow> binlog_record list \<Rightarrow> binlog_record list \<Rightarrow> (disk \<Rightarrow> disk) \<times> moment \<Rightarrow> bool" where
  "works_beside target time P T moment \<longleftrightarrow>
     (\<forall>disk. fst moment disk target = disk target) \<and> snapshot time (\<lambda>key. key_actions time P key None) T (snd moment)"

definition says :: "Settings \<Rightarrow> nat \<Rightarrow> binlog_record list \<Rightarrow> (Key \<rightharpoonup> Entry) \<Rightarrow> bool" where
  "says settings time rs m \<longleftrightarrow> (\<exists>st. replays settings rs time st \<and> fst st = m)"

lemma compactor_run_done: "compactor_run c io rounds moments (co, disk, [PostDone path till]) = Some (co, disk, [PostDone path till])"
  by (cases moments) (auto split: prod.splits)

text \<open>Bundles and what follows them can be replayed.\<close>

lemma bundles_replay:
  assumes C: "records_fit settings C" "\<forall>st. fst (all_effects (record_effect settings) C st)" and T: "replays settings (P @ T) time st"
  shows "\<exists>st'. replays settings (C @ T) time st'"
proof -
  obtain st1 where st1: "all_effects (record_effect settings) C (Map.empty, time) = (True, st1)" using C(2) by (metis (full_types) prod.collapse)
  obtain st2 where "all_effects (record_effect settings) P (Map.empty, time) = (True, st2)" "all_effects (record_effect settings) T st2 = (True, st)"
    using T by (auto simp: replays_def all_effects_append split: prod.splits if_splits)
  then have "fst (all_effects (record_effect settings) T st1)" using records_good [of settings T st1 st2] by simp
  then obtain st' where "all_effects (record_effect settings) T st1 = (True, st')" by (metis (full_types) prod.collapse)
  then show ?thesis using st1 C(1) T by (auto simp: replays_def records_fit_def all_effects_append)
qed

lemma compaction:
  assumes c: "ctr_mode block c" and s: "settings_fine settings" "0 < compactChunkSize settings" and start: "binlog_start settings start time"
    and disk: "compact_open block c key source disk (start @ bytes_of_records P)"
    and paths: "source = InFolder folder BinlogFilename" "target = InFolder folder CompactFilename"
    and info: "ci_till info = 16 + int (length (bytes_of_records P))" "ci_systemTime info < 2 ^ 32"
    and env: "new_binlog_env (io_data io target)"
    and rec: "replays settings (P @ last Ts) time st" "length (bytes_of_records (P @ last Ts)) < 2 ^ 58" "written_by [] Ts"
    and rounds: "list_all2 (round_ok block c key source target) rounds (map (\<lambda>T. start @ bytes_of_records (P @ T)) Ts)"
    and moments: "list_all (works_beside target time P (hd Ts)) moments" "length (concat (map record_keys P)) \<le> length moments"
  shows "\<exists>co disk' C. \<exists>T \<in> set Ts. \<exists>m m'. Option.bind (CompactorObject_new c io rounds folder settings key info disk)
        (compactor_run c io rounds (map moment_of moments)) =
      Some (co, disk', [PostDone target (int (length (start @ bytes_of_records (P @ T))))])
    \<and> compact_open block c key target disk' (start @ bytes_of_records (C @ T))
    \<and> compact_open block c key source disk' (start @ bytes_of_records (P @ T))
    \<and> distinct (concat (map record_keys C)) \<and> says settings time (C @ T) m' \<and> says settings time (P @ T) m
    \<and> (\<forall>key. m' key = m key \<or> m' key = None \<and> (\<exists>moment \<in> set moments. removal_pending time (\<lambda>key. key_actions time P key None) (snd moment) key))"
proof -
  define D where "D = start @ bytes_of_records P"
  define keys_P where "keys_P = concat (map record_keys P)"
  define m0 where "m0 = (\<lambda>key. key_actions time P key None)"
  let ?T0 = "hd Ts" and ?ms = "set (map snd moments)"
  have Ts: "Ts \<noteq> []" using rec(3) by auto
  have l: "length start = 16" by (rule length_binlog_start [OF start])
  have t: "time < 2 ^ 64" using start by (simp add: binlog_start_def)
  have fit: "records_fit settings (P @ last Ts)" using rec(1) by (simp add: replays_def)
  then have fitP: "records_fit settings P" by (simp add: records_fit_def)
  have lP: "length (bytes_of_records P) < 2 ^ 58" using rec(2) by simp
  have smallP: "16 + length (bytes_of_records P) < 2 ^ 61" using lP by simp
  have nk: "32 * length keys_P \<le> length (bytes_of_records P)" using keys_length [OF fitP] by (simp add: keys_P_def)
  then have small: "16 + 64 * length keys_P < 2 ^ 61" using lP by simp
  have env': "new_binlog_env (io_data io (InFolder folder CompactFilename))" using env paths(2) by simp
  obtain co0 disk0 where c0: "CompactorObject_new c io rounds folder settings key info disk = parseChunk c io rounds co0 disk0"
    "running block c time start D (16 + length (bytes_of_records P)) co0 disk0 [] keys_P"
    "co_settings co0 = settings" "co_info co0 = info" "co_folder co0 = folder" "co_key co0 = key"
    using start_ok [OF c s start fitP disk [unfolded paths] smallP info(1) env', of rounds time] unfolding D_def keys_P_def by blast
  have p0: "compactPath co0 = target" "co_binlogPath co0 = source" using c0(5) paths by (simp_all add: compactPath_def co_binlogPath_def)
  have ne: "target \<noteq> source" using paths by (simp add: BinlogFilename_def CompactFilename_def)
  have snaps: "snapshot time m0 ?T0 (snd moment)" "\<forall>disk. fst moment disk target = disk target" if "moment \<in> set moments" for moment
    using moments(1) that by (auto simp: list_all_iff works_beside_def m0_def)
  have hd_last: "\<exists>later. last Ts = ?T0 @ later" by (rule written_by_hd [OF rec(3) last_in_set [OF Ts]])
  have fine: "raw_fine time settings (key, entry)" if m: "m \<in> ?ms" and e: "snd m key = Some entry" for m key entry
  proof -
    obtain moment where "moment \<in> set moments" "m = snd moment" using m by auto
    then have sn: "snapshot time m0 ?T0 m" using snaps(1) by simp
    then obtain R where R: "?T0 = fst m @ R" by (auto simp: snapshot_def)
    have v: "snd m key = key_actions time (P @ fst m) key None" using sn e unfolding snapshot_def m0_def by (metis key_actions_simps(3) option.distinct(1))
    obtain later where "P @ last Ts = (P @ fst m) @ (R @ later)" using hd_last R by auto
    then have "replays settings ((P @ fst m) @ (R @ later)) time st" using rec(1) by (simp only:)
    from replays_front [OF this] obtain st1 where st1: "replays settings (P @ fst m) time st1" by blast
    have "fst st1 key = Some entry" using replays_map [OF st1, of key] v e by simp
    then show ?thesis by (rule replays_raw_fine [OF st1 t])
  qed
  have ms: "\<forall>m \<in> ?ms. snapshot time m0 ?T0 m \<and> (\<forall>key entry. snd m key = Some entry \<longrightarrow> raw_fine time settings (key, entry))"
    using fine snaps(1) by auto
  have taken0: "taken time m0 ?T0 ?ms {} []" by (simp add: taken_def)
  have s0: "settings_fine (co_settings co0)" "0 < compactChunkSize (co_settings co0)" using s c0(3) by simp_all
  have small0: "16 + 64 * length ([] :: (Key \<times> Entry) list) < 2 ^ 61" by simp
  obtain co1 disk1 out left where run: "Option.bind (CompactorObject_new c io rounds folder settings key info disk)
        (compactor_run c io rounds (map moment_of moments)) = Option.bind (co_finalize c rounds co1 disk1) (compactor_run c io rounds left)"
    "all_written block c time start co1 disk1 out" "taken time m0 ?T0 ?ms (set keys_P) out" "wrapper_frame co0 co1"
    "fst ` set out \<subseteq> set keys_P"
  proof -
    from parseChunk_ok [OF c c0(2) s0 l small0, of io rounds] show ?thesis
    proof (elim disjE conjE exE)
      fix K1 K2 co' assume e: "keys_P = K1 @ K2" "K1 \<noteq> []" "parseChunk c io rounds co0 disk0 = Some (co', disk0, [AskValues K1])"
        "running block c time start D (16 + length (bytes_of_records P)) co' disk0 [] K2" "wrapper_frame co0 co'"
      note f = wrapper_frameD [OF e(5)]
      have q: "co_settings co' = settings" "ci_systemTime (co_info co') < 2 ^ 32" using f(1,2) c0(3,4) info(2) by simp_all
      have sub: "fst ` set ([] :: (Key \<times> Entry) list) \<union> set K1 \<union> set K2 \<subseteq> set keys_P" using e(1) by simp
      have len: "length (K1 @ K2) \<le> length moments" using moments(2) e(1) by (simp add: keys_P_def)
      have mo: "\<forall>moment \<in> set moments. snd moment \<in> ?ms \<and> (\<forall>disk. fst moment disk (compactPath co') = disk (compactPath co'))"
        using snaps(2) f(4) p0(1) by auto
      obtain co1 disk1 out left where r: "compactor_run c io rounds (map moment_of moments) (co', disk0, [AskValues K1]) =
          Option.bind (co_finalize c rounds co1 disk1) (compactor_run c io rounds left)"
        "all_written block c time start co1 disk1 out" "taken time m0 ?T0 ?ms ({} \<union> set K1 \<union> set K2) out" "wrapper_frame co' co1"
        "fst ` set out \<subseteq> set keys_P"
        using compactor_run_ok [OF c s l ms small e(4) q taken0 sub len e(2) mo, of io rounds] by blast
      have "taken time m0 ?T0 ?ms (set keys_P) out" using r(3) e(1) by simp
      then show ?thesis using that [OF _ r(2)] r(1,5) c0(1) e(3) wrapper_frame_trans [OF e(5) r(4)] by simp
    next
      fix co' disk' assume e: "keys_P = []" "parseChunk c io rounds co0 disk0 = co_finalize c rounds co' disk'"
        "all_written block c time start co' disk' []" "wrapper_frame co0 co'"
      show ?thesis using that [OF _ e(3) _ e(4), of "map moment_of moments"] c0(1) e(1,2) taken0 by simp
    qed
  qed
  obtain C where C: "compacted block c time start co1 disk1 C out" "list_entries time (co_list co1) = []" using run(2) by (auto simp: all_written_def)
  note f = wrapper_frameD [OF run(4)]
  have p1: "compactPath co1 = target" "co_binlogPath co1 = source" "co_key co1 = key" "co_settings co1 = settings" "co_info co1 = info"
    using f p0 c0(3,4,6) by simp_all
  define co2 where "co2 = co1\<lparr>co_wrapper := (co_wrapper co1)\<lparr>bw_binlog := File_close (bw_binlog (co_wrapper co1))\<rparr>,
      co_compact := File_close (co_compact co1)\<rparr>"
  have p2: "compactPath co2 = target" "co_binlogPath co2 = source" "co_key co2 = key" "co_settings co2 = settings"
    using p1 by (simp_all add: co2_def compactPath_def co_binlogPath_def)
  define E where "E = start @ bytes_of_records C"
  have r: "file_rep block c key (co_compact co1) E (length E) (length E)" "disk1 target = Some (f_data (co_compact co1))"
    "records_fit settings C" "\<forall>st. fst (all_effects (record_effect settings) C st)" "C \<in> lists (range list_record)"
    "distinct (map fst out)" "length (bytes_of_records C) \<le> 64 * length (concat (map (out_entries time) C))"
    using C(1) p1 unfolding compacted_def E_def by simp_all
  have out: "concat (map (out_entries time) C) = out" using C unfolding compacted_def compact_out_def by simp
  have "length out \<le> length keys_P" by (rule distinct_bound [OF r(6) run(5)])
  then have lC: "length (bytes_of_records C) \<le> 2 * length (bytes_of_records P)" using r(7) nk unfolding out by linarith
  have l16: "length D mod 16 = 0" "length E mod 16 = 0"
    using l length_bytes_of_records [OF fitP] length_bytes_of_records [OF r(3)] add_mod_16 [of 16] by (simp_all add: D_def E_def)
  have g: "grows D (map (\<lambda>T. start @ bytes_of_records (P @ T)) Ts)" using written_grows [OF rec(3) fit] by (simp add: D_def)
  have bound: "length E + (length D1 - length D) < 2 ^ 61 \<and> length D1 < 2 ^ 61"
    if D1: "D1 \<in> set (map (\<lambda>T. start @ bytes_of_records (P @ T)) Ts)" for D1
  proof -
    obtain T where T: "T \<in> set Ts" "D1 = start @ bytes_of_records (P @ T)" using D1 by auto
    obtain after where "last Ts = T @ after" using written_by_after [OF rec(3) T(1)] by blast
    then have "length (bytes_of_records (P @ T)) < 2 ^ 58" using rec(2) by simp
    then show ?thesis using lC l T(2) by (simp add: E_def D_def)
  qed
  have amount: "0 < readBlockSize (co_settings co2)" "readBlockSize (co_settings co2) mod 16 = 0"
    using s(1) p2(4) by (simp_all add: settings_fine_def reader_settings_def)
  have rounds2: "list_all2 (round_ok block c (co_key co2) (co_binlogPath co2) (compactPath co2)) rounds (map (\<lambda>T. start @ bytes_of_records (P @ T)) Ts)"
    using rounds p2 by simp
  have held: "disk1 (compactPath co2) = Some (f_data (co_compact co1))" "disk_holds block c (co_key co2) (f_data (co_compact co1)) E"
    using r(2) file_rep_disk [OF r(1)] p2 by simp_all
  have nD: "D \<noteq> []" using l by (auto simp: D_def)
  have pne: "compactPath co2 \<noteq> co_binlogPath co2" using ne p2 by simp
  obtain D1 disk' compact' binlog' where fin: "D1 \<in> set (map (\<lambda>T. start @ bytes_of_records (P @ T)) Ts)"
    "finalize_loop c co2 rounds 0 (int (length D)) disk1 = Some (co2, disk', [PostDone (compactPath co2) (int (length D1))])"
    "disk' (compactPath co2) = Some compact'" "disk_holds block c (co_key co2) compact' (E @ drop (length D) D1)"
    "disk' (co_binlogPath co2) = Some binlog'" "disk_holds block c (co_key co2) binlog' D1"
    using finalize_loop_ok [where disk = disk1 and lastCatchUp = 0, OF c amount pne rounds2 g l16(1) held l16(2) nD] bound by blast
  obtain T where T: "T \<in> set Ts" "D1 = start @ bytes_of_records (P @ T)" using fin(1) by auto
  have till: "ci_till (co_info co1) = int (length D)" using p1(5) info(1) l by (simp add: D_def)
  have final: "co_finalize c rounds co1 disk1 = finalize_loop c co2 rounds 0 (int (length D)) disk1"
    using till by (simp add: co_finalize_def co2_def Let_def)
  have whole: "Option.bind (CompactorObject_new c io rounds folder settings key info disk) (compactor_run c io rounds (map moment_of moments)) =
      Some (co2, disk', [PostDone target (int (length (start @ bytes_of_records (P @ T))))])"
    unfolding run(1) final fin(2) using p2(1) T(2) by (simp add: compactor_run_done)
  have "E @ drop (length D) D1 = start @ bytes_of_records (C @ T)" by (simp add: E_def D_def T(2))
  then have files: "compact_open block c key target disk' (start @ bytes_of_records (C @ T))"
    "compact_open block c key source disk' (start @ bytes_of_records (P @ T))"
    using fin(3-6) p2 T(2) by (auto simp: compact_open_def)
  obtain after where "last Ts = T @ after" using written_by_after [OF rec(3) T(1)] by blast
  then have "replays settings ((P @ T) @ after) time st" using rec(1) by simp
  from replays_front [OF this] obtain stP where stP: "replays settings (P @ T) time stP" by blast
  obtain stC where stC: "replays settings (C @ T) time stC" using bundles_replay [OF r(3,4) stP] by blast
  obtain later where later: "T = ?T0 @ later" using written_by_hd [OF rec(3) T(1)] by blast
  have "key_actions time C key None = map_of out key" for key using bundles_map [OF r(5), of time key] r(6) unfolding out by simp
  then have maps: "fst stC key = key_actions time T key (map_of out key)" "fst stP key = key_actions time T key (m0 key)" for key
    using replays_map [OF stC, of key] replays_map [OF stP, of key] by (simp_all add: m0_def)
  have rest: "key \<notin> set keys_P \<Longrightarrow> m0 key = None" for key unfolding keys_P_def m0_def by (rule unstored_key)
  have taken1: "taken time m0 T ?ms (set keys_P) out" unfolding later by (rule taken_more [OF run(3)])
  have snaps1: "\<forall>m \<in> ?ms. snapshot time m0 T m" using ms snapshot_more unfolding later by blast
  have same: "fst stC key = fst stP key \<or> fst stC key = None \<and> (\<exists>moment \<in> set moments. removal_pending time m0 (snd moment) key)" for key
    using taken_compacts [OF taken1 snaps1 rest, of key] maps [of key] by auto
  have once: "distinct (concat (map record_keys C))" using out_keys [OF r(5), of time] r(6) out by simp
  have "says settings time (C @ T) (fst stC)" "says settings time (P @ T) (fst stP)" using stC stP unfolding says_def by blast+
  then show ?thesis using whole files once same T(1) unfolding m0_def by blast
qed

end
