(* ===== verification/CacheCompactFiles.thy ===== *)
theory CacheCompactFiles
  imports CacheCompaction
begin

text \<open>
  What the compactor of the disk cache does to files: it writes only its own, whatever happens, and the
  database puts it in place of the binlog.
\<close>

section \<open>Only its own file\<close>

definition only_compact :: "CompactorObject \<Rightarrow> disk \<Rightarrow> CompactorObject \<Rightarrow> disk \<Rightarrow> bool" where
  "only_compact co disk co' disk' \<longleftrightarrow> co_folder co' = co_folder co \<and> (\<forall>path. path \<noteq> compactPath co \<longrightarrow> disk' path = disk path)"

lemma only_compact_refl [simp]: "only_compact co disk co disk"
  by (simp add: only_compact_def)

lemma only_compact_trans: "only_compact a d1 b d2 \<Longrightarrow> only_compact b d2 e d3 \<Longrightarrow> only_compact a d1 e d3"
  by (simp add: only_compact_def compactPath_def)

lemma only_compact_folder:
  "only_compact co disk co1 disk1 \<Longrightarrow> co_folder co2 = co_folder co1 \<Longrightarrow> only_compact co disk co2 disk1"
  "only_compact co1 disk co2 disk1 \<Longrightarrow> co_folder co = co_folder co1 \<Longrightarrow> only_compact co disk co2 disk1"
  by (simp_all add: only_compact_def compactPath_def)

lemma compact_write_only: "compact_write c bs co disk = Some (ok, co', disk') \<Longrightarrow> only_compact co disk co' disk'"
  by (auto simp: compact_write_def set_compact_def only_compact_def split: if_splits)

lemma writeMultiStore_only:
  assumes "writeMultiStore c co disk = Some (ok, co', disk')"
  shows "only_compact co disk co' disk'"
proof (cases "bytes_of_list (co_list co) = []")
  case False
  then obtain header written co1 disk1 written2 co2 disk2 where w: "compact_write c header co disk = Some (written, co1, disk1)"
    "(if written then compact_write c (concat (bytes_of_list (co_list co))) co1 disk1 else Some (False, co1, disk1)) = Some (written2, co2, disk2)"
    "co' = co2\<lparr>co_list := clear_list (co_list co2)\<rparr>" "disk' = disk2"
    using assms by (auto simp: writeMultiStore_def Let_def bind_eq_Some_conv)
  have "only_compact co disk co2 disk2"
    using w(2) compact_write_only [OF w(1)] compact_write_only [of c "concat (bytes_of_list (co_list co))" co1 disk1] only_compact_trans
    by (auto split: if_splits)
  then show ?thesis using w(3,4) only_compact_folder(1) by auto
qed (use assms in \<open>simp add: writeMultiStore_def\<close>)

lemma addListRecord_folder: "addListRecord raw co = Some co' \<Longrightarrow> co_folder co' = co_folder co"
  by (auto simp: addListRecord_def Let_def split: if_splits compact_list.splits)

lemma fillList_folder: "fillList raws co = Some (left, co') \<Longrightarrow> co_folder co' = co_folder co"
  by (induction raws arbitrary: co) (auto simp: bind_eq_Some_conv addListRecord_folder split: if_splits)

lemma process_loop_only:
  assumes "process_loop c raws co disk = Some result"
  shows "only_compact co disk (fst (snd result)) (snd (snd result))"
proof (rule process_loop.raw_induct [where P = "\<lambda>c raws co disk result. only_compact co disk (fst (snd result)) (snd (snd result))", OF _ assms])
  fix loop c raws co disk result
  assume IH: "\<And>c raws co disk result. loop c raws co disk = Some result \<Longrightarrow> only_compact co disk (fst (snd result)) (snd (snd result))"
    and body: "fillList raws co \<bind> (\<lambda>(left1, co1). if left1 = [] then Some (True, co1, disk)
      else writeMultiStore c co1 disk \<bind> (\<lambda>(written, co2, disk2). if \<not> written then Some (False, co2, disk2) else loop c left1 co2 disk2)) = Some result"
  obtain left co1 where f: "fillList raws co = Some (left, co1)" using body by (auto simp: bind_eq_Some_conv)
  note folder = fillList_folder [OF f]
  show "only_compact co disk (fst (snd result)) (snd (snd result))"
  proof (cases "left = []")
    case True
    then show ?thesis using body f folder by (auto simp: only_compact_def compactPath_def)
  next
    case False
    then obtain written co2 disk2 where w: "writeMultiStore c co1 disk = Some (written, co2, disk2)"
      "(if \<not> written then Some (False, co2, disk2) else loop c left co2 disk2) = Some result"
      using body f by (auto simp: bind_eq_Some_conv)
    have o: "only_compact co disk co2 disk2" using only_compact_folder(2) [OF writeMultiStore_only [OF w(1)]] folder by simp
    show ?thesis
    proof (cases written)
      case True
      then have "loop c left co2 disk2 = Some result" using w(2) by simp
      from only_compact_trans [OF o IH [OF this]] show ?thesis .
    next
      case False
      then show ?thesis using w(2) o by auto
    qed
  qed
qed

lemma catch_up_loop_only:
  assumes "catch_up_loop c target amount till binlog compact from0 disk = Some result" and "path \<noteq> target"
  shows "snd result path = disk path"
proof -
  have "path \<noteq> target \<longrightarrow> snd result path = disk path"
  proof (rule catch_up_loop.raw_induct [where P = "\<lambda>c target amount till binlog compact from0 disk result. path \<noteq> target \<longrightarrow> snd result path = disk path",
      OF _ assms(1)])
    fix loop c target amount till binlog compact from0 disk result
    assume IH: "\<And>c target amount till binlog compact from0 disk result. loop c target amount till binlog compact from0 disk = Some result \<Longrightarrow>
        path \<noteq> target \<longrightarrow> snd result path = disk path"
      and body: "(let limit = min (till - from0) amount in if limit < 0 then None
         else File_read c (nat limit) binlog \<bind> (\<lambda>(got, binlog1). if got = [] \<or> limit < int (length got) then Some (0, disk)
           else File_write c got compact \<bind> (\<lambda>(written, compact1).
             let disk1 = disk(target \<mapsto> f_data compact1); from1 = from0 + int (length got)
             in if \<not> written then Some (0, disk1) else if from1 \<noteq> till then loop c target amount till binlog1 compact1 from1 disk1 else Some (till, disk1)))) =
         Some result"
    obtain got binlog1 where g: "File_read c (nat (min (till - from0) amount)) binlog = Some (got, binlog1)"
      using body by (auto simp: Let_def bind_eq_Some_conv split: if_splits)
    show "path \<noteq> target \<longrightarrow> snd result path = disk path"
    proof (cases "got = [] \<or> min (till - from0) amount < int (length got)")
      case True
      then show ?thesis using body g by (auto simp: Let_def split: if_splits)
    next
      case False
      then obtain written compact1 where w: "File_write c got compact = Some (written, compact1)"
        "(if \<not> written then Some (0, disk(target \<mapsto> f_data compact1))
          else if from0 + int (length got) \<noteq> till
          then loop c target amount till binlog1 compact1 (from0 + int (length got)) (disk(target \<mapsto> f_data compact1))
          else Some (till, disk(target \<mapsto> f_data compact1))) = Some result"
        using body g by (auto simp: Let_def bind_eq_Some_conv split: if_split_asm)
      show ?thesis
      proof (cases "written \<and> from0 + int (length got) \<noteq> till")
        case True
        then have "loop c target amount till binlog1 compact1 (from0 + int (length got)) (disk(target \<mapsto> f_data compact1)) = Some result"
          using w(2) by simp
        from IH [OF this] show ?thesis by simp
      next
        case False
        then show ?thesis using w(2) by (auto split: if_split_asm)
      qed
    qed
  qed
  then show ?thesis using assms(2) by blast
qed

lemma disk_open_only: "disk_open c target mode key env disk = Some (result, f, disk') \<Longrightarrow> path \<noteq> target \<or> mode = Read \<Longrightarrow> disk' path = disk path"
  by (auto simp: disk_open_def split: if_splits)

lemma CatchUp_only:
  assumes "CatchUp c io target source key from0 amount disk = Some (reached, disk')" and "path \<noteq> target"
  shows "disk' path = disk path"
proof -
  obtain result1 binlog disk0 where o1: "disk_open c source Read key (io_data io source) disk = Some (result1, binlog, disk0)"
    using assms(1) by (auto simp: CatchUp_def bind_eq_Some_conv)
  let ?till = "File_size binlog"
  show ?thesis
  proof (cases "result1 \<noteq> Success \<or> ?till = from0 \<or> ?till < from0 \<or> \<not> fst (File_seek from0 binlog)")
    case True
    then have "disk' = disk" using assms(1) o1 by (auto simp: CatchUp_def Let_def split: if_splits)
    then show ?thesis by simp
  next
    case False
    then obtain result2 compact disk1 where o2: "disk_open c target ReadAppend key (io_data io target) disk = Some (result2, compact, disk1)"
      using assms(1) o1 by (auto simp: CatchUp_def Let_def bind_eq_Some_conv)
    have same: "disk1 path = disk path" by (rule disk_open_only [OF o2]) (simp add: assms(2))
    obtain sought compact1 where s: "File_seek (File_size compact) compact = (sought, compact1)" by (metis surj_pair)
    have "(if result2 \<noteq> Success \<or> \<not> sought then Some (0, disk1)
        else catch_up_loop c target amount ?till (snd (File_seek from0 binlog)) compact1 from0 disk1) = Some (reached, disk')"
      using assms(1) o1 o2 s False by (simp add: CatchUp_def Let_def)
    then show ?thesis
      using same catch_up_loop_only [of c target amount ?till "snd (File_seek from0 binlog)" compact1 from0 disk1 "(reached, disk')" path] assms(2)
      by (auto split: if_splits)
  qed
qed

lemma co_fail_only: "co_fail io co disk = (co', disk', posts) \<Longrightarrow> only_compact co disk co' disk'"
  by (auto simp: co_fail_def only_compact_def Let_def split: if_splits)

text \<open>What the database writes meanwhile leaves the file \<open>path\<close> alone.\<close>

lemma finalize_loop_only:
  assumes "finalize_loop c co rounds lastCatchUp from0 disk = Some (co', disk', posts)" and "path \<noteq> compactPath co"
    and "\<forall>r \<in> set rounds. \<forall>disk. snd r disk path = disk path"
  shows "co_folder co' = co_folder co \<and> disk' path = disk path"
  using assms
proof (induction c co rounds lastCatchUp from0 disk rule: finalize_loop.induct)
  case (2 c co io wrote rounds lastCatchUp from0 disk)
  obtain till disk1 where u: "CatchUp c io (compactPath co) (co_binlogPath co) (co_key co) from0 (readBlockSize (co_settings co)) (wrote disk) = Some (till, disk1)"
    using 2(2) by (auto simp: bind_eq_Some_conv)
  have same: "disk1 path = disk path" using CatchUp_only [OF u 2(3)] 2(4) by simp
  show ?case
  proof (cases "till = 0 \<or> till = from0 \<or> 0 < lastCatchUp \<and> lastCatchUp \<le> till - from0")
    case True
    then show ?thesis using 2(2,3) u same co_fail_only [of io co disk1 co' disk' posts]
      by (auto simp: only_compact_def split: if_splits)
  next
    case False
    then have next_round: "finalize_loop c co rounds (sint (word_of_int (till - from0) :: 32 word)) till disk1 = Some (co', disk', posts)"
      using 2(2) u by auto
    then show ?thesis using 2(1) [OF u refl _ _ next_round] False 2(3,4) same by auto
  qed
qed simp

definition leaves_alone :: "cache_path \<Rightarrow> catch_up_round list \<Rightarrow> bool" where
  "leaves_alone path rounds \<longleftrightarrow> (\<forall>r \<in> set rounds. \<forall>disk. snd r disk path = disk path)"

lemma parseChunk_only:
  assumes step: "parseChunk c io rounds co disk = Some (co', disk', posts)" and path: "path \<noteq> compactPath co" and rounds: "leaves_alone path rounds"
  shows "co_folder co' = co_folder co \<and> disk' path = disk path"
proof -
  obtain ks co1 where k: "readChunk c co = Some (ks, co1)" using step by (auto simp: parseChunk_def bind_eq_Some_conv)
  have f1: "co_folder co1 = co_folder co" using k by (auto simp: readChunk_def)
  consider (failed) "bw_failed (co_wrapper co1)" | (asks) "\<not> bw_failed (co_wrapper co1)" "ks \<noteq> []" | (ends) "\<not> bw_failed (co_wrapper co1)" "ks = []" by blast
  then show ?thesis
  proof cases
    case failed
    then have "co_fail io co1 disk = (co', disk', posts)" using step k by (simp add: parseChunk_def)
    from co_fail_only [OF this] show ?thesis using f1 path by (simp add: only_compact_def compactPath_def)
  next
    case asks
    then show ?thesis using step k f1 by (auto simp: parseChunk_def)
  next
    case ends
    then obtain written co2 disk2 where w: "writeMultiStore c co1 disk = Some (written, co2, disk2)"
      "(if written then co_finalize c rounds co2 disk2 else Some (co_fail io co2 disk2)) = Some (co', disk', posts)"
      using step k by (auto simp: parseChunk_def co_finish_def bind_eq_Some_conv)
    have o: "only_compact co1 disk co2 disk2" by (rule writeMultiStore_only [OF w(1)])
    have f2: "co_folder co2 = co_folder co" and same: "disk2 path = disk path" using o f1 path by (simp_all add: only_compact_def compactPath_def)
    show ?thesis
    proof (cases written)
      case True
      let ?co = "co2\<lparr>co_wrapper := (co_wrapper co2)\<lparr>bw_binlog := File_close (bw_binlog (co_wrapper co2))\<rparr>, co_compact := File_close (co_compact co2)\<rparr>"
      have r: "finalize_loop c ?co rounds 0 (ci_till (co_info ?co)) disk2 = Some (co', disk', posts)"
        using w(2) True by (simp add: co_finalize_def Let_def)
      have p: "path \<noteq> compactPath ?co" using path f2 by (simp add: compactPath_def)
      have "co_folder co' = co_folder ?co \<and> disk' path = disk2 path"
        using finalize_loop_only [OF r p] rounds by (simp add: leaves_alone_def)
      then show ?thesis using f2 same by simp
    next
      case False
      then have "co_fail io co2 disk2 = (co', disk', posts)" using w(2) by simp
      from co_fail_only [OF this] show ?thesis using f2 same path by (simp add: only_compact_def compactPath_def)
    qed
  qed
qed

lemma processValues_only:
  assumes step: "processValues c io rounds raws co disk = Some (co', disk', posts)" and path: "path \<noteq> compactPath co" and rounds: "leaves_alone path rounds"
  shows "co_folder co' = co_folder co \<and> disk' path = disk path"
proof -
  obtain written co1 disk1 where w: "process_loop c raws co disk = Some (written, co1, disk1)"
    "(if written then parseChunk c io rounds co1 disk1 else Some (co_fail io co1 disk1)) = Some (co', disk', posts)"
    using step by (auto simp: processValues_def bind_eq_Some_conv)
  have o: "co_folder co1 = co_folder co" "disk1 path = disk path" "path \<noteq> compactPath co1"
    using process_loop_only [OF w(1)] path by (simp_all add: only_compact_def compactPath_def)
  show ?thesis
  proof (cases written)
    case True
    then have "parseChunk c io rounds co1 disk1 = Some (co', disk', posts)" using w(2) by simp
    from parseChunk_only [OF this o(3) rounds] show ?thesis using o by simp
  next
    case False
    then have "co_fail io co1 disk1 = (co', disk', posts)" using w(2) by simp
    from co_fail_only [OF this] show ?thesis using o path by (simp add: only_compact_def compactPath_def)
  qed
qed

lemma co_start_only:
  assumes step: "co_start c io rounds co disk = Some (co', disk', posts)" and path: "path \<noteq> compactPath co" and rounds: "leaves_alone path rounds"
  shows "co_folder co' = co_folder co \<and> disk' path = disk path"
proof -
  obtain opened co1 where s1: "co_openBinlog c io co disk = Some (opened, co1)" using step by (auto simp: co_start_def bind_eq_Some_conv)
  obtain good co2 where s2: "(if opened then co_readHeader c co1 else Some (False, co1)) = Some (good, co2)"
    using step s1 by (cases "if opened then co_readHeader c co1 else Some (False, co1)") (auto simp: co_start_def split del: if_split)
  obtain ready co3 disk3 where s3: "(if good then openCompact c io co2 disk else Some (False, co2, disk)) = Some (ready, co3, disk3)"
    using step s1 s2 by (cases "if good then openCompact c io co2 disk else Some (False, co2, disk)") (auto simp: co_start_def split del: if_split)
  obtain co4 disk4 posts4 where e: "(if ready then (co3, disk3, []) else co_fail io co3 disk3) = (co4, disk4, posts4)" by (metis prod_cases3)
  let ?co5 = "co4\<lparr>co_list := (if trackEstimatedTime (co_settings co4) then TimeList [] else StoreList [])\<rparr>"
  have "map_option (\<lambda>(co6, disk6, posts1). (co6, disk6, posts4 @ posts1)) (parseChunk c io rounds ?co5 disk4) = Some (co', disk', posts)"
    using step s1 s2 s3 e by (simp add: co_start_def split del: if_split)
  then obtain posts1 where s5: "parseChunk c io rounds ?co5 disk4 = Some (co', disk', posts1)" by (auto split del: if_split)
  have f1: "co_folder co1 = co_folder co" using s1 by (auto simp: co_openBinlog_def Let_def)
  have f2: "co_folder co2 = co_folder co" using s2 f1 by (auto simp: co_readHeader_def Let_def split: if_splits option.splits)
  have o3: "co_folder co3 = co_folder co \<and> disk3 path = disk path"
  proof (cases good)
    case True
    then obtain result f disk1 where o: "disk_open c (compactPath co2) Write (co_key co2) (io_data io (compactPath co2)) disk = Some (result, f, disk1)"
      "(if result \<noteq> Success then Some (False, co2\<lparr>co_compact := f\<rparr>, disk1)
        else compact_write c (bytes_of_basic_header (co_header (co2\<lparr>co_compact := f\<rparr>))) (co2\<lparr>co_compact := f\<rparr>) disk1) = Some (ready, co3, disk3)"
      using s3 by (auto simp: openCompact_def Let_def bind_eq_Some_conv)
    have "path \<noteq> compactPath co2" using path f2 by (simp add: compactPath_def)
    then have same: "disk1 path = disk path" using disk_open_only [OF o(1)] by blast
    have w: "compact_write c (bytes_of_basic_header (co_header co2)) (co2\<lparr>co_compact := f\<rparr>) disk1 = Some (ready, co3, disk3) \<Longrightarrow> ?thesis"
      using compact_write_only [of c "bytes_of_basic_header (co_header co2)" "co2\<lparr>co_compact := f\<rparr>" disk1 ready co3 disk3] same f2 path
      by (simp add: only_compact_def compactPath_def)
    show ?thesis using o(2) w same f2 by (auto split: if_splits)
  next
    case False
    then show ?thesis using s3 f2 by simp
  qed
  have o4: "co_folder co4 = co_folder co \<and> disk4 path = disk path"
    using e o3 co_fail_only [of io co3 disk3 co4 disk4 posts4] path by (auto simp: only_compact_def compactPath_def split: if_splits)
  have p5: "path \<noteq> compactPath ?co5" using path o4 by (simp add: compactPath_def)
  from parseChunk_only [OF s5 p5 rounds] show ?thesis using o4 by simp
qed

lemma compactor_run_only:
  assumes "compactor_run c io rounds moments (co, disk, posts) = Some (co', disk', posts')" and "path \<noteq> compactPath co"
    and "leaves_alone path rounds" and "\<forall>moment \<in> set moments. \<forall>disk. fst moment disk path = disk path"
  shows "disk' path = disk path"
  using assms
proof (induction moments arbitrary: co disk posts)
  case (Cons moment moments)
  obtain wrote answer where m: "moment = (wrote, answer)" by (cases moment) simp
  show ?case
  proof (cases "\<exists>ks. posts = [AskValues ks]")
    case True
    then obtain ks where "posts = [AskValues ks]" by blast
    then obtain co1 disk1 posts1 where p: "processValues c io rounds (answer ks) co (wrote disk) = Some (co1, disk1, posts1)"
      "compactor_run c io rounds moments (co1, disk1, posts1) = Some (co', disk', posts')"
      using Cons.prems(1) m by (auto simp: bind_eq_Some_conv)
    have "wrote disk path = disk path" using Cons.prems(4) m by simp
    then have o: "co_folder co1 = co_folder co" "disk1 path = disk path" using processValues_only [OF p(1) Cons.prems(2,3)] by simp_all
    have "path \<noteq> compactPath co1" using Cons.prems(2) o(1) by (simp add: compactPath_def)
    then show ?thesis using Cons.IH [OF p(2) _ Cons.prems(3)] Cons.prems(4) o(2) by simp
  next
    case False
    then show ?thesis using Cons.prems(1) m by (auto split: list.splits compactor_post.splits)
  qed
qed simp

section \<open>In place of the binlog\<close>

lemma move_renamed:
  assumes "disk source = Some data" and "disk target = None \<or> lock = Locked \<and> removed"
  shows "move_on_disk (lock, removed, renamed) source target disk =
    (renamed, if renamed then disk(source := None, target := Some data) else disk(source := Some data, target := None))"
  using assms by (auto simp: move_on_disk_def File_Move_def FileLock_lock_def Let_def)

text \<open>The file of the compactor is read up to \<open>n\<close>, and the binlog has \<open>D\<close>.\<close>

definition compactor_ready :: "(bytes \<Rightarrow> bytes \<Rightarrow> bytes) \<Rightarrow> crypto \<Rightarrow> cache_path \<Rightarrow> nat \<Rightarrow> bytes \<Rightarrow> bytes \<Rightarrow> Database \<Rightarrow> bool" where
  "compactor_ready block c target n E D d \<longleftrightarrow>
     (\<exists>off. file_rep block c (db_key d) (db_binlog d) D off (length D))
     \<and> compact_open block c (db_key d) (binlogPath d) (db_disk d) D \<and> compact_open block c (db_key d) target (db_disk d) E
     \<and> db_disk d (compactReadyPath d) = None \<and> target = InFolder (db_folder d) CompactFilename
     \<and> length D mod 16 = 0 \<and> length E mod 16 = 0 \<and> n mod 16 = 0 \<and> n \<le> length D \<and> length D < 2 ^ 60 \<and> length E < 2 ^ 60
     \<and> settings_fine (ix_settings d) \<and> cw_excessLength (db_compactor d) \<le> ix_excess d"

lemma compactorDone_installs:
  assumes c: "ctr_mode block c" and d: "compactor_ready block c target n E D d" and io: "lets_append io target"
    "fe_folder (io_open io ReadAppend)" "fe_lock (io_open io ReadAppend) = Locked" "io_move io = (Locked, True, True)"
  shows "\<exists>f. compactorDone c io (lock, removed, True) target (int n) d = Some (d\<lparr>db_binlog := f, db_binlogAt := binlogPath d,
      db_disk := (db_disk d)(target := None, binlogPath d := Some (f_data f)), ix_excess := ix_excess d - cw_excessLength (db_compactor d),
      db_compactor := CompactorWrap_new\<rparr>)
    \<and> file_rep block c (db_key d) f (E @ drop n D) (length (E @ drop n D)) (length (E @ drop n D))"
proof -
  let ?binlog = "binlogPath d" and ?ready = "compactReadyPath d" and ?env = "io_open io ReadAppend"
  obtain off data edata where h: "file_rep block c (db_key d) (db_binlog d) D off (length D)" "db_disk d ?binlog = Some data"
    "disk_holds block c (db_key d) data D" "db_disk d target = Some edata" "disk_holds block c (db_key d) edata E" "db_disk d ?ready = None"
    "target = InFolder (db_folder d) CompactFilename" "length D mod 16 = 0" "length E mod 16 = 0" "n mod 16 = 0" "n \<le> length D"
    "length D < 2 ^ 60" "length E < 2 ^ 60" "settings_fine (ix_settings d)" "cw_excessLength (db_compactor d) \<le> ix_excess d"
    using d by (auto simp: compactor_ready_def compact_open_def)
  have ne: "target \<noteq> ?binlog" "target \<noteq> ?ready" "?ready \<noteq> ?binlog"
    using h(7) by (simp_all add: binlogPath_def compactReadyPath_def CompactFilename_def BinlogFilename_def CompactReadyFilename_def)
  have size: "File_size (db_binlog d) = int (length D)" by (rule file_rep_simps(3) [OF h(1)])
  have amount: "0 < readBlockSize (ix_settings d)" "readBlockSize (ix_settings d) mod 16 = 0"
    using h(14) by (simp_all add: settings_fine_def reader_settings_def)
  have small: "length E + (length D - n) < 2 ^ 61" "length D < 2 ^ 61" using h(12,13) by simp_all
  define E1 where "E1 = E @ drop n D"
  have "\<exists>disk1 edata1. (if int n \<noteq> File_size (db_binlog d)
      then CatchUp c io target ?binlog (db_key d) (int n) (readBlockSize (ix_settings d)) (db_disk d) else Some (int n, db_disk d)) = Some (int (length D), disk1)
    \<and> disk1 = (db_disk d)(target \<mapsto> edata1) \<and> disk_holds block c (db_key d) edata1 E1"
  proof (cases "n = length D")
    case True
    then show ?thesis using h(4,5) size unfolding E1_def by (intro exI [of _ "db_disk d"] exI [of _ edata]) (simp add: fun_upd_idem)
  next
    case False
    then show ?thesis using CatchUp_copies [OF c h(2,3,8) small(2) h(4,5,9,10,11) amount small(1) io(1)] size unfolding E1_def by auto
  qed
  then obtain disk1 edata1 where cu: "(if int n \<noteq> File_size (db_binlog d)
      then CatchUp c io target ?binlog (db_key d) (int n) (readBlockSize (ix_settings d)) (db_disk d) else Some (int n, db_disk d)) = Some (int (length D), disk1)"
    "disk1 = (db_disk d)(target \<mapsto> edata1)" "disk_holds block c (db_key d) edata1 E1" by blast
  define disk2 where "disk2 = disk1(target := None, ?ready := Some edata1)"
  define disk3 where "disk3 = disk2(?ready := None, ?binlog := Some edata1)"
  have m1: "move_on_disk (lock, removed, True) target ?ready disk1 = (True, disk2)"
    using move_renamed [of disk1 target edata1 ?ready lock removed True] cu(2) h(6) ne by (simp add: disk2_def)
  have m2: "move_on_disk (Locked, True, True) ?ready ?binlog disk2 = (True, disk3)"
    using move_renamed [of disk2 ?ready edata1 ?binlog Locked True True] by (simp add: disk2_def disk3_def)
  have e: "fe_file (?env\<lparr>fe_file := Some edata1\<rparr>) = Some edata1" "fe_folder (?env\<lparr>fe_file := Some edata1\<rparr>)" "fe_lock (?env\<lparr>fe_file := Some edata1\<rparr>) = Locked"
    using io(2,3) by simp_all
  have l1: "length E1 < 2 ^ 61" "length E1 mod 16 = 0"
  proof -
    show "length E1 < 2 ^ 61" using h(12,13) by (simp add: E1_def)
    have "(length D - n) mod 16 = 0" using h(8,10,11) by (metis dvd_diff_nat mod_0_imp_dvd mod_eq_0_iff_dvd)
    then show "length E1 mod 16 = 0" using h(9) add_mod_16 by (simp add: E1_def)
  qed
  obtain f where f: "File_open c ReadAppend (db_key d) (?env\<lparr>fe_file := Some edata1\<rparr>) = Some (Success, f)"
    "file_rep block c (db_key d) f E1 0 (length E1)" "f_data f = edata1"
    using File_open_ReadAppend [OF c cu(3) l1(1) e] l1(2) by auto
  have o: "disk_open c ?binlog ReadAppend (db_key d) ?env disk3 = Some (Success, f, disk3)"
    using f(1,3) io(2,3) by (auto simp: disk_open_def disk3_def fun_upd_idem)
  obtain f1 where f1: "File_seek (File_size f) f = (True, f1)" "file_rep block c (db_key d) f1 E1 (length E1) (length E1)" "f_data f1 = edata1"
    using File_seek_rep [OF f(2) l1(2) order_refl] f(3) file_rep_simps(3) [OF f(2)] by auto
  have disk: "disk3 = (db_disk d)(target := None, ?binlog := Some (f_data f1))"
    using cu(2) ne h(6) f1(3) by (auto simp: disk2_def disk3_def fun_eq_iff)
  have "compactorDone c io (lock, removed, True) target (int n) d = Some (d\<lparr>db_binlog := f1, db_binlogAt := ?binlog, db_disk := disk3,
      ix_excess := ix_excess d - cw_excessLength (db_compactor d), db_compactor := CompactorWrap_new\<rparr>)"
    unfolding compactorDone_def Let_def cu(1) using size m1 m2 io(4) o f1(1) h(15) by (simp add: reset_compactor_def binlog_close_def)
  then show ?thesis using f1(2) disk unfolding E1_def by auto
qed

lemma compactorDone_loses:
  assumes till: "readTill = File_size (db_binlog d)" and disk: "db_disk d target = Some data" "db_disk d (compactReadyPath d) = None"
    and target: "target = InFolder (db_folder d) CompactFilename" and io: "io_move io = (Locked, True, False)" "io_removes io (compactReadyPath d)"
  shows "\<exists>d'. compactorDone c io (lock, removed, True) target readTill d = Some d'
    \<and> db_disk d' = (db_disk d)(target := None, binlogPath d := None) \<and> \<not> f_isOpen (db_binlog d') \<and> ix_map d' = ix_map d
    \<and> db_compactor d' = CompactorWrap_new"
proof -
  let ?binlog = "binlogPath d" and ?ready = "compactReadyPath d"
  have ne: "target \<noteq> ?binlog" "target \<noteq> ?ready" "?ready \<noteq> ?binlog"
    using target by (simp_all add: binlogPath_def compactReadyPath_def CompactFilename_def BinlogFilename_def CompactReadyFilename_def)
  define disk2 where "disk2 = (db_disk d)(target := None, ?ready := Some data)"
  have m1: "move_on_disk (lock, removed, True) target ?ready (db_disk d) = (True, disk2)"
    using move_renamed [of "db_disk d" target data ?ready lock removed True] disk by (simp add: disk2_def)
  have m2: "move_on_disk (Locked, True, False) ?ready ?binlog disk2 = (False, disk2(?binlog := None))"
    using move_renamed [of disk2 ?ready data ?binlog Locked True False] by (auto simp: disk2_def)
  define d4 where "d4 = d\<lparr>db_binlog := File_close (db_binlog d), db_disk := disk2(?binlog := None)\<rparr>"
  have r: "compactorDone c io (lock, removed, True) target readTill d = Some (reset_compactor (compactorFail io d4))"
    using m1 m2 io(1) till by (simp add: compactorDone_def Let_def binlog_close_def d4_def)
  have p: "compactReadyPath d4 = ?ready" by (simp add: compactReadyPath_def d4_def)
  have "db_disk (reset_compactor (compactorFail io d4)) = (db_disk d)(target := None, ?binlog := None)"
    using io(2) p disk ne by (auto simp: reset_compactor_def compactorFail_def Let_def d4_def disk2_def fun_eq_iff)
  then show ?thesis using r by (simp add: reset_compactor_def compactorFail_def Let_def d4_def File_close_def)
qed

end
