(* ===== verification/CacheCleaner.thy ===== *)
theory CacheCleaner
  imports CacheOpen
begin

text \<open>
  The cleaner of the disk cache, \<^verbatim>\<open>storage/cache/storage_cache_cleaner.cpp\<close>: it removes the folders of
  all versions but the one in the file of the version, the last of its list first. Each folder is
  removed in a call of its own that is posted to the queue of the cleaner and runs only while the
  guard of the database holds.
\<close>

section \<open>Names of folders\<close>

fun nat_digits :: "nat \<Rightarrow> string" where
  "nat_digits n = (if n < 10 then [char_of (48 + n)] else nat_digits (n div 10) @ [char_of (48 + n mod 10)])"

declare nat_digits.simps [simp del]

definition QString_number :: "int \<Rightarrow> string" where
  "QString_number v = (if v < 0 then ''-'' @ nat_digits (nat (- v)) else nat_digits (nat v))"

section \<open>The object\<close>

text \<open>An empty path of an error is no path.\<close>

datatype clean_path = CleanVersion | CleanFolder string

record CleanerObject =
  cl_queue :: "string list"
  cl_errorPath :: "clean_path option"

text \<open>Either the next call is posted, or \<^verbatim>\<open>_done\<close> is called with the path of an error.\<close>

datatype cleaner_post = PostCleanNext | CleanerDone "clean_path option"

definition cleaner_done :: "CleanerObject \<Rightarrow> cleaner_post" where
  "cleaner_done cl = CleanerDone (cl_errorPath cl)"

definition scheduleNext :: "CleanerObject \<Rightarrow> cleaner_post" where
  "scheduleNext cl = (if cl_queue cl = [] then cleaner_done cl else PostCleanNext)"

definition cleaner_start :: "string list \<Rightarrow> disk \<Rightarrow> CleanerObject \<times> cleaner_post" where
  "cleaner_start entries disk =
     (let cl = \<lparr>cl_queue = entries, cl_errorPath = None\<rparr>
      in case ReadVersionValue disk of
        Some version \<Rightarrow>
          let cl1 = cl\<lparr>cl_queue := removeAll (QString_number version) (cl_queue cl)\<rparr> in (cl1, scheduleNext cl1)
      | None \<Rightarrow> let cl1 = cl\<lparr>cl_errorPath := Some CleanVersion\<rparr> in (cl1, cleaner_done cl1))"

text \<open>Removing a folder succeeds with all its files, or fails after some of them.\<close>

type_synonym removed_files = "bool \<times> (string \<Rightarrow> bool)"

definition removeRecursively :: "removed_files \<Rightarrow> string \<Rightarrow> disk \<Rightarrow> bool \<times> disk" where
  "removeRecursively answer name disk =
     (fst answer, \<lambda>path. case path of
        InFolder (Some version) file \<Rightarrow> if QString_number version = name \<and> (fst answer \<or> snd answer file) then None else disk path
      | _ \<Rightarrow> disk path)"

definition cleanNext :: "removed_files \<Rightarrow> CleanerObject \<Rightarrow> disk \<Rightarrow> CleanerObject \<times> cleaner_post \<times> disk" where
  "cleanNext answer cl disk =
     (let path = last (cl_queue cl);
          cl1 = cl\<lparr>cl_queue := butlast (cl_queue cl)\<rparr>;
          (removed, disk1) = removeRecursively answer path disk;
          cl2 = (if removed then cl1 else cl1\<lparr>cl_errorPath := Some (CleanFolder path)\<rparr>)
      in (cl2, scheduleNext cl2, disk1))"

text \<open>
  A round of the queue has whether the guard holds and what removing answers. Without the guard
  nothing is posted any more; \<open>None\<close> is a cleaner that has not called \<^verbatim>\<open>_done\<close>.
\<close>

fun cleaner_run :: "(bool \<times> removed_files) list \<Rightarrow> CleanerObject \<times> cleaner_post \<times> disk \<Rightarrow> clean_path option option \<times> disk" where
  "cleaner_run rounds (cl, CleanerDone path, disk) = (Some path, disk)"
| "cleaner_run [] (cl, PostCleanNext, disk) = (None, disk)"
| "cleaner_run ((holds, answer) # rounds) (cl, PostCleanNext, disk) =
     (if holds then cleaner_run rounds (cleanNext answer cl disk) else (None, disk))"

definition Cleaner_clean :: "string list \<Rightarrow> (bool \<times> removed_files) list \<Rightarrow> disk \<Rightarrow> clean_path option option \<times> disk" where
  "Cleaner_clean entries rounds disk = (let (cl, post) = cleaner_start entries disk in cleaner_run rounds (cl, post, disk))"

section \<open>Names are different\<close>

fun digits_nat :: "string \<Rightarrow> nat" where
  "digits_nat cs = foldl (\<lambda>n ch. 10 * n + (of_char ch - 48)) 0 cs"

lemma digits_roundtrip: "digits_nat (nat_digits n) = n"
proof (induction n rule: nat_digits.induct)
  case (1 n)
  show ?case
  proof (cases "n < 10")
    case True
    then show ?thesis by (simp add: nat_digits.simps [of n])
  next
    case False
    have "n mod 10 < 10" by simp
    then have d: "(48 + n mod 10) mod 256 = 48 + n mod 10" by (intro mod_less) linarith
    show ?thesis using 1 [OF False] False by (simp add: nat_digits.simps [of n] d)
  qed
qed

lemma nat_digits_inject: "nat_digits a = nat_digits b \<Longrightarrow> a = b"
  by (metis digits_roundtrip)

lemma nat_digits_not_minus: "nat_digits n \<noteq> CHR ''-'' # cs"
proof (induction n arbitrary: cs rule: nat_digits.induct)
  case (1 n)
  show ?case
  proof (cases "n < 10")
    case True
    have "char_of (48 + n) \<noteq> CHR ''-''"
    proof
      assume "char_of (48 + n) = CHR ''-''"
      then have "of_char (char_of (48 + n)) = (of_char CHR ''-'' :: nat)" by (rule arg_cong)
      then show False using True by simp
    qed
    then show ?thesis using True by (simp add: nat_digits.simps [of n])
  next
    case False
    have "nat_digits (n div 10) \<noteq> []" by (subst nat_digits.simps) simp
    then show ?thesis using 1 [OF False] False by (auto simp: nat_digits.simps [of n] append_eq_Cons_conv)
  qed
qed

lemma QString_number_inject [simp]: "QString_number a = QString_number b \<longleftrightarrow> a = b"
  using nat_digits_not_minus by (auto simp: QString_number_def split: if_splits dest!: nat_digits_inject) metis+

section \<open>What is removed\<close>

text \<open>A file is in a folder with a name of the list.\<close>

fun in_folders :: "string list \<Rightarrow> cache_path \<Rightarrow> bool" where
  "in_folders names (InFolder (Some version) file) \<longleftrightarrow> QString_number version \<in> set names"
| "in_folders names path \<longleftrightarrow> False"

lemma removed_disk:
  "snd (removeRecursively answer name disk) path = disk path \<or> snd (removeRecursively answer name disk) path = None \<and> in_folders [name] path"
  "fst answer \<Longrightarrow> in_folders [name] path \<Longrightarrow> snd (removeRecursively answer name disk) path = None"
  by (auto simp: removeRecursively_def split: cache_path.splits option.splits)

lemma in_folders_split:
  "names \<noteq> [] \<Longrightarrow> in_folders names path \<longleftrightarrow> in_folders (butlast names) path \<or> in_folders [last names] path"
proof -
  assume "names \<noteq> []"
  then have "set names = insert (last names) (set (butlast names))" by (induction names rule: rev_induct) auto
  then show ?thesis by (cases "(names, path)" rule: in_folders.cases) auto
qed

lemma cleanNext_parts:
  assumes "cleanNext answer cl disk = (cl2, post2, disk2)"
  shows "cl_queue cl2 = butlast (cl_queue cl)" "post2 = scheduleNext cl2" "disk2 = snd (removeRecursively answer (last (cl_queue cl)) disk)"
    "cl_errorPath cl2 = (if fst answer then cl_errorPath cl else Some (CleanFolder (last (cl_queue cl))))"
  using assms by (auto simp: cleanNext_def removeRecursively_def Let_def split: if_splits)

lemma cleaner_run_removes:
  assumes "cleaner_run rounds (cl, post, disk) = (called, disk')" "post = PostCleanNext \<longrightarrow> cl_queue cl \<noteq> []"
  shows "disk' path = disk path \<or> disk' path = None \<and> post = PostCleanNext \<and> in_folders (cl_queue cl) path"
  using assms
proof (induction rounds "(cl, post, disk)" arbitrary: cl post disk rule: cleaner_run.induct)
  case (3 holds answer rounds cl disk)
  show ?case
  proof (cases holds)
    case True
    obtain cl2 post2 disk2 where n: "cleanNext answer cl disk = (cl2, post2, disk2)" by (metis prod_cases3)
    note q = cleanNext_parts [OF n]
    have some: "cl_queue cl \<noteq> []" using 3(3) by simp
    have r: "cleaner_run rounds (cl2, post2, disk2) = (called, disk')" using 3(2) True n by simp
    have "post2 = PostCleanNext \<longrightarrow> cl_queue cl2 \<noteq> []" using q(2) by (simp add: scheduleNext_def cleaner_done_def)
    from 3(1) [OF True n r this] show ?thesis
      using in_folders_split [OF some, of path] q(1,3) removed_disk(1) [of answer "last (cl_queue cl)" disk path] by auto
  next
    case False
    then show ?thesis using 3(2) by simp
  qed
qed auto

lemma cleaner_run_ends:
  assumes "\<forall>r \<in> set rounds. fst r" "length (cl_queue cl) \<le> length rounds"
  shows "\<exists>e disk'. cleaner_run rounds (cl, scheduleNext cl, disk) = (Some e, disk')
    \<and> (e = None \<longleftrightarrow> cl_errorPath cl = None \<and> (\<forall>r \<in> set (take (length (cl_queue cl)) rounds). fst (snd r)))
    \<and> (e = None \<longrightarrow> (\<forall>path. in_folders (cl_queue cl) path \<longrightarrow> disk' path = None))"
  using assms
proof (induction rounds arbitrary: cl disk)
  case Nil
  then show ?case by (auto simp: scheduleNext_def cleaner_done_def elim!: in_folders.elims)
next
  case (Cons r rounds)
  obtain answer where r: "r = (True, answer)" using Cons.prems(1) by (cases r) simp
  show ?case
  proof (cases "cl_queue cl = []")
    case True
    then show ?thesis by (auto simp: scheduleNext_def cleaner_done_def elim!: in_folders.elims)
  next
    case False
    obtain cl2 post2 disk2 where n: "cleanNext answer cl disk = (cl2, post2, disk2)" by (metis prod_cases3)
    note q = cleanNext_parts [OF n]
    have l: "length (cl_queue cl) = Suc (length (cl_queue cl2))" using False q(1) by (cases "cl_queue cl") simp_all
    have small: "length (cl_queue cl2) \<le> length rounds" using Cons.prems(2) l by simp
    have guards: "\<forall>r \<in> set rounds. fst r" using Cons.prems(1) by simp
    obtain e disk' where IH: "cleaner_run rounds (cl2, scheduleNext cl2, disk2) = (Some e, disk')"
      "e = None \<longleftrightarrow> cl_errorPath cl2 = None \<and> (\<forall>r \<in> set (take (length (cl_queue cl2)) rounds). fst (snd r))"
      "e = None \<longrightarrow> (\<forall>path. in_folders (cl_queue cl2) path \<longrightarrow> disk' path = None)"
      using Cons.IH [OF guards small] by blast
    have run: "cleaner_run (r # rounds) (cl, scheduleNext cl, disk) = (Some e, disk')"
      using IH(1) False n q(2) r by (simp add: scheduleNext_def)
    have keep: "disk' path = disk2 path \<or> disk' path = None" for path
      using cleaner_run_removes [OF IH(1), of path] by (auto simp: scheduleNext_def cleaner_done_def)
    have gone: "e = None \<longrightarrow> in_folders (cl_queue cl) path \<longrightarrow> disk' path = None" for path
      using IH(2,3) keep [of path] in_folders_split [OF False, of path] q(1,3,4) removed_disk(2) [of answer "last (cl_queue cl)" path disk]
      by (auto split: if_splits)
    show ?thesis using run IH(2) gone q(4) r l by (auto split: if_splits)
  qed
qed

section \<open>A free version\<close>

lemma first_available_free:
  assumes "sorted_wrt (<) versions" "\<forall>v \<in> set versions. start \<le> v"
  shows "first_available versions start \<notin> set versions" "start \<le> first_available versions start"
    "first_available versions start \<le> start + int (length versions)"
    "start \<le> v \<Longrightarrow> v < first_available versions start \<Longrightarrow> v \<in> set versions"
proof -
  have "first_available versions start \<notin> set versions \<and> start \<le> first_available versions start
    \<and> first_available versions start \<le> start + int (length versions)
    \<and> (\<forall>v. start \<le> v \<longrightarrow> v < first_available versions start \<longrightarrow> v \<in> set versions)" using assms
  proof (induction versions arbitrary: start)
    case (Cons x versions)
    have s: "sorted_wrt (<) versions" "\<forall>v \<in> set versions. x + 1 \<le> v" using Cons.prems(1) by auto
    show ?case
    proof (cases "start = x")
      case True
      have "x + 1 \<le> v \<or> v = x" if "x \<le> v" for v using that by linarith
      then show ?thesis using Cons.IH [OF s] True by fastforce
    next
      case False
      then show ?thesis using Cons.prems by auto
    qed
  qed simp
  then show "first_available versions start \<notin> set versions" "start \<le> first_available versions start"
    "first_available versions start \<le> start + int (length versions)"
    "start \<le> v \<Longrightarrow> v < first_available versions start \<Longrightarrow> v \<in> set versions" by blast+
qed

lemma versions_sorted: "sorted_wrt (<) versions \<Longrightarrow>
    sorted_wrt (<) (foldl (\<lambda>versions v. fst (flat_set_insert (<) v versions)) versions (vs :: int list))
    \<and> set (foldl (\<lambda>versions v. fst (flat_set_insert (<) v versions)) versions vs) = set versions \<union> set vs
    \<and> length (foldl (\<lambda>versions v. fst (flat_set_insert (<) v versions)) versions vs) \<le> length versions + length vs"
proof (induction vs arbitrary: versions)
  case (Cons v vs)
  note s = lin.insert_sorted [OF Cons.prems, of v] and e = lin.insert_set_eq [OF Cons.prems, of v]
  have "length (fst (flat_set_insert (<) v versions)) = card (insert v (set versions))"
    using s e by (metis distinct_card strict_sorted_iff)
  also have "\<dots> \<le> Suc (length versions)" using card_length [of "v # versions"] by simp
  finally show ?case using Cons.IH [OF s] e by auto
qed simp

lemma findAvailableVersion_free:
  assumes "\<forall>v \<in> set (io_entries io). 0 \<le> v"
  shows "findAvailableVersion io \<notin> set (io_entries io)" "0 \<le> findAvailableVersion io" "findAvailableVersion io \<le> int (length (io_entries io))"
    "0 \<le> v \<Longrightarrow> v < findAvailableVersion io \<Longrightarrow> v \<in> set (io_entries io)"
proof -
  define vs where "vs = foldl (\<lambda>versions v. fst (flat_set_insert (<) v versions)) [] (io_entries io)"
  have vs: "sorted_wrt (<) vs" "set vs = set (io_entries io)" "length vs \<le> length (io_entries io)"
    using versions_sorted [of "[]" "io_entries io"] unfolding vs_def by simp_all
  have a: "\<forall>v \<in> set vs. 0 \<le> v" using assms vs(2) by simp
  note f = first_available_free [OF vs(1) a]
  have d: "findAvailableVersion io = first_available vs 0" by (simp add: findAvailableVersion_def vs_def)
  show "findAvailableVersion io \<notin> set (io_entries io)" "0 \<le> findAvailableVersion io" "findAvailableVersion io \<le> int (length (io_entries io))"
    using f(1-3) vs(2,3) d by simp_all
  show "0 \<le> v \<Longrightarrow> v < findAvailableVersion io \<Longrightarrow> v \<in> set (io_entries io)" using f(4) vs(2) d by simp
qed

end
