(* ===== verification/CacheUpkeep.thy ===== *)
theory CacheUpkeep
  imports CacheProperties CacheCompactFiles CacheCleaner
begin

text \<open>
  The properties of the compactor and of the cleaner of the disk cache.
\<close>

section \<open>The database beside the compactor\<close>

text \<open>
  A moment of the run of the compactor: what the database has written to the disk since the last
  message, which records it has written to the binlog by then, and the database that answers.
\<close>

type_synonym database_moment = "(disk \<Rightarrow> disk) \<times> binlog_record list \<times> Database"

definition answers_raw :: "database_moment \<Rightarrow> compactor_moment" where
  "answers_raw moment = (fst moment, \<lambda>ks. getManyRaw ks (snd (snd moment)))"

definition moment_map :: "database_moment \<Rightarrow> moment" where
  "moment_map moment = (fst (snd moment), map_of (ix_map (snd (snd moment))))"

lemma answers_raw_moment: "map answers_raw moments = map moment_of (map (\<lambda>moment. (fst moment, moment_map moment)) moments)"
  by (simp add: answers_raw_def moment_of_def moment_map_def getManyRaw_def)

section \<open>Properties of the compactor\<close>

text \<open>
  C7: Compacting keeps what the binlog says. While the compactor works the database goes on writing
  records and answering from its map, and the compactor asks in chunks and catches up in rounds; when it
  is done its file has a header, bundles in which every key occurs once, and the records that were
  written since the start, and replaying it gives for every key what replaying the binlog gives, but
  for values whose removal the database had not written when it was asked.
\<close>

theorem compactor_keeps_values:
  assumes "ctr_mode block c" and "settings_fine settings" "0 < compactChunkSize settings" and "binlog_start settings start time"
    and "compact_open block c key (InFolder folder BinlogFilename) disk (start @ bytes_of_records P)"
    and "ci_till info = 16 + int (length (bytes_of_records P))" "ci_systemTime info < 2 ^ 32"
    and "new_binlog_env (io_data io (InFolder folder CompactFilename))"
    and "replays settings (P @ last Ts) time st" "length (bytes_of_records (P @ last Ts)) < 2 ^ 58" "written_by [] Ts"
    and "list_all2 (round_ok block c key (InFolder folder BinlogFilename) (InFolder folder CompactFilename)) rounds
        (map (\<lambda>T. start @ bytes_of_records (P @ T)) Ts)"
    and "list_all (\<lambda>moment. works_beside (InFolder folder CompactFilename) time P (hd Ts) (fst moment, moment_map moment)) moments"
      "length (concat (map record_keys P)) \<le> length moments"
  shows "\<exists>co disk' C. \<exists>T \<in> set Ts. \<exists>m m'. Option.bind (CompactorObject_new c io rounds folder settings key info disk)
        (compactor_run c io rounds (map answers_raw moments)) =
      Some (co, disk', [PostDone (InFolder folder CompactFilename) (int (length (start @ bytes_of_records (P @ T))))])
    \<and> compact_open block c key (InFolder folder CompactFilename) disk' (start @ bytes_of_records (C @ T))
    \<and> compact_open block c key (InFolder folder BinlogFilename) disk' (start @ bytes_of_records (P @ T))
    \<and> distinct (concat (map record_keys C)) \<and> says settings time (C @ T) m' \<and> says settings time (P @ T) m
    \<and> (\<forall>key. m' key = m key
        \<or> m' key = None \<and> (\<exists>moment \<in> set moments. removal_pending time (\<lambda>key. key_actions time P key None) (moment_map moment) key))"
proof -
  let ?ms = "map (\<lambda>moment. (fst moment, moment_map moment)) moments"
  have m: "list_all (works_beside (InFolder folder CompactFilename) time P (hd Ts)) ?ms" "length (concat (map record_keys P)) \<le> length ?ms"
    using assms(13,14) by (simp_all add: list.pred_map comp_def)
  from compaction [OF assms(1-5) refl refl assms(6-12) m] show ?thesis unfolding answers_raw_moment by simp
qed

text \<open>
  C8: The database takes the result of the compactor: it appends the records \<open>X\<close> that it has written since,
  puts the file in place of the binlog and stands at its end, with what it has in memory unchanged.
\<close>

theorem compactor_result_installed:
  assumes "ctr_mode block c"
    and "compactor_ready block c target (length (start @ bytes_of_records (P @ T))) (start @ bytes_of_records (C @ T))
        (start @ bytes_of_records (P @ T @ X)) d"
    and "lets_append io target" "fe_folder (io_open io ReadAppend)" "fe_lock (io_open io ReadAppend) = Locked" "io_move io = (Locked, True, True)"
  shows "\<exists>f. compactorDone c io (lock, removed, True) target (int (length (start @ bytes_of_records (P @ T)))) d =
      Some (d\<lparr>db_binlog := f, db_binlogAt := binlogPath d, db_disk := (db_disk d)(target := None, binlogPath d := Some (f_data f)),
        ix_excess := ix_excess d - cw_excessLength (db_compactor d), db_compactor := CompactorWrap_new\<rparr>)
    \<and> file_rep block c (db_key d) f (start @ bytes_of_records (C @ T @ X)) (length (start @ bytes_of_records (C @ T @ X)))
        (length (start @ bytes_of_records (C @ T @ X)))"
proof -
  have e: "(start @ bytes_of_records (C @ T)) @ drop (length (start @ bytes_of_records (P @ T))) (start @ bytes_of_records (P @ T @ X)) =
      start @ bytes_of_records (C @ T @ X)" by simp
  from compactorDone_installs [OF assms(1-6), of lock removed] show ?thesis unfolding e .
qed

text \<open>
  C9: Whatever fails, the compactor writes and removes no file but its own: a file that the database
  leaves alone meanwhile is as it was, the binlog among them.
\<close>

theorem compactor_touches_only_its_file:
  assumes "Option.bind (CompactorObject_new c io rounds folder settings key info disk) (compactor_run c io rounds moments) = Some (co, disk', posts)"
    and "path \<noteq> InFolder folder CompactFilename"
    and "\<forall>r \<in> set rounds. \<forall>disk. snd r disk path = disk path" and "\<forall>moment \<in> set moments. \<forall>disk. fst moment disk path = disk path"
  shows "disk' path = disk path"
proof -
  obtain co1 disk1 posts1 where n: "CompactorObject_new c io rounds folder settings key info disk = Some (co1, disk1, posts1)"
    "compactor_run c io rounds moments (co1, disk1, posts1) = Some (co, disk', posts)"
    using assms(1) by (auto simp: bind_eq_Some_conv)
  have rounds: "leaves_alone path rounds" using assms(3) by (simp add: leaves_alone_def)
  obtain co0 where s: "co_start c io rounds co0 disk = Some (co1, disk1, posts1)" "co_folder co0 = folder"
    using n(1) by (auto simp: CompactorObject_new_def split: if_splits)
  have "path \<noteq> compactPath co0" using assms(2) s(2) by (simp add: compactPath_def)
  then have o: "co_folder co1 = folder" "disk1 path = disk path" using co_start_only [OF s(1) _ rounds] s(2) by simp_all
  have "path \<noteq> compactPath co1" using assms(2) o(1) by (simp add: compactPath_def)
  from compactor_run_only [OF n(2) this rounds assms(4)] show ?thesis using o(2) by simp
qed

text \<open>
  C10: When the old binlog was removed and the compacted one cannot be renamed to its place, the database
  removes the compacted one too: no binlog is left on the disk, the values that are in memory are not
  written any more, and the delay after a failure is forgotten.
\<close>

theorem compactor_failure_loses_binlog:
  assumes "readTill = File_size (db_binlog d)" and "db_disk d target = Some data" "db_disk d (compactReadyPath d) = None"
    and "target = InFolder (db_folder d) CompactFilename" and "io_move io = (Locked, True, False)" "io_removes io (compactReadyPath d)"
  shows "\<exists>d'. compactorDone c io (lock, removed, True) target readTill d = Some d'
    \<and> db_disk d' (binlogPath d) = None \<and> db_disk d' (compactReadyPath d) = None \<and> db_disk d' target = None
    \<and> \<not> f_isOpen (db_binlog d') \<and> ix_map d' = ix_map d \<and> cw_nextAttempt (db_compactor d') = 0"
  using compactorDone_loses [OF assms, of c lock removed] assms(3) by (auto simp: CompactorWrap_new_def)

section \<open>Properties of the cleaner\<close>

text \<open>
  C11: The cleaner never touches the folder of the current version nor the file of the version, whatever
  folders there are, whichever removals fail and whenever it is stopped; it makes no file; and without
  the file of the version it removes nothing and reports that file.
\<close>

theorem cleaner_keeps_current_version:
  assumes "Cleaner_clean entries rounds disk = (called, disk')"
  shows "(\<forall>path. disk' path = disk path \<or> disk' path = None) \<and> disk' VersionFile = disk VersionFile
    \<and> (case ReadVersionValue disk of
        Some version \<Rightarrow> \<forall>file. disk' (InFolder (Some version) file) = disk (InFolder (Some version) file)
      | None \<Rightarrow> disk' = disk \<and> called = Some (Some CleanVersion))"
proof (cases "ReadVersionValue disk")
  case None
  then show ?thesis using assms by (auto simp: Cleaner_clean_def cleaner_start_def cleaner_done_def)
next
  case (Some version)
  let ?cl = "\<lparr>cl_queue = removeAll (QString_number version) entries, cl_errorPath = None\<rparr>"
  have run: "cleaner_run rounds (?cl, scheduleNext ?cl, disk) = (called, disk')"
    using assms Some by (simp add: Cleaner_clean_def cleaner_start_def Let_def)
  have q: "scheduleNext ?cl = PostCleanNext \<longrightarrow> cl_queue ?cl \<noteq> []" by (simp add: scheduleNext_def cleaner_done_def)
  have r: "disk' path = disk path \<or> disk' path = None \<and> in_folders (cl_queue ?cl) path" for path
    using cleaner_run_removes [OF run q, of path] by blast
  have "disk' VersionFile = disk VersionFile" using r [of VersionFile] by simp
  moreover have "disk' (InFolder (Some version) name) = disk (InFolder (Some version) name)" for name
    using r [of "InFolder (Some version) name"] by simp
  moreover have "disk' path = disk path \<or> disk' path = None" for path using r [of path] by auto
  ultimately show ?thesis using Some by simp
qed

text \<open>
  C12: Clearing a closed cache writes the number of a version that has no folder, and the cleaner, when
  nothing fails, then ends after one call for each folder, with no error and no file of any version left.
  The folders of versions have numbers that are not negative.
\<close>

theorem clear_then_clean_removes_all:
  assumes "db_key d = []" and "io_version io = (True, True, 4, True)"
    and "\<forall>version file. db_disk d (InFolder (Some version) file) \<noteq> None \<longrightarrow> version \<in> set (io_entries io) \<and> QString_number version \<in> set names"
    and "\<forall>version \<in> set (io_entries io). 0 \<le> version" and "length (io_entries io) < 2 ^ 31"
    and "\<forall>r \<in> set rounds. fst r \<and> fst (snd r)" and "length names \<le> length rounds"
  shows "\<exists>d1 disk'. db_clear c io d = Some (noError, d1) \<and> db_cleaner d1 \<and> Cleaner_clean names rounds (db_disk d1) = (Some None, disk')
    \<and> ReadVersionValue disk' = Some (findAvailableVersion io) \<and> (\<forall>version file. disk' (InFolder (Some version) file) = None)"
proof -
  let ?v = "findAvailableVersion io"
  note free = findAvailableVersion_free [OF assms(4)]
  define d1 where "d1 = createCleaner (d\<lparr>db_key := [], db_disk := (db_disk d)(VersionFile \<mapsto> bytes_of_version ?v)\<rparr>)"
  have l: "length (bytes_of_version ?v) = 4" by (simp add: bytes_of_version_def)
  have cleared: "db_clear c io d = Some (noError, d1)"
    using assms(1,2) l by (simp add: db_clear_def writeVersion_def WriteVersionValue_def d1_def Let_def)
  have disk: "db_disk d1 = (db_disk d)(VersionFile \<mapsto> bytes_of_version ?v)" "db_cleaner d1"
    by (simp_all add: d1_def createCleaner_def pushStatsDelayed_def)
  have small: "0 \<le> ?v" "?v < 2 ^ 31" using free(2,3) assms(5) by simp_all
  have "int (unat (word_of_int ?v :: 32 word)) = ?v" using small by (simp add: unsigned_of_int take_bit_int_eq_self)
  then have "ReadFrom (bytes_of_version ?v) = ?v mod 2 ^ 32" unfolding bytes_of_version_def by (simp add: ReadFrom_pack zmod_int)
  then have "ReadFrom (bytes_of_version ?v) = ?v" using small by simp
  then have "sint (word_of_int (ReadFrom (bytes_of_version ?v)) :: 32 word) = ?v" using small by (simp add: signed_of_int signed_take_bit_int_eq_self)
  then have read: "disk VersionFile = Some (bytes_of_version ?v) \<Longrightarrow> ReadVersionValue disk = Some ?v" for disk using l by (simp add: ReadVersionValue_def)
  have current: "ReadVersionValue (db_disk d1) = Some ?v" by (rule read) (simp add: disk)
  define queue where "queue = removeAll (QString_number ?v) names"
  let ?cl = "\<lparr>cl_queue = queue, cl_errorPath = None\<rparr>"
  have start: "Cleaner_clean names rounds (db_disk d1) = cleaner_run rounds (?cl, scheduleNext ?cl, db_disk d1)"
    using current by (simp add: Cleaner_clean_def cleaner_start_def queue_def Let_def)
  have shorter: "length (removeAll name names) \<le> length names" for name by (induction names) (auto intro: le_SucI)
  have len: "length (cl_queue ?cl) \<le> length rounds" using le_trans [OF shorter assms(7)] by (simp add: queue_def)
  have guards: "\<forall>r \<in> set rounds. fst r" using assms(6) by blast
  obtain e disk' where run: "cleaner_run rounds (?cl, scheduleNext ?cl, db_disk d1) = (Some e, disk')"
    "e = None \<longleftrightarrow> cl_errorPath ?cl = None \<and> (\<forall>r \<in> set (take (length (cl_queue ?cl)) rounds). fst (snd r))"
    "e = None \<longrightarrow> (\<forall>path. in_folders (cl_queue ?cl) path \<longrightarrow> disk' path = None)"
    using cleaner_run_ends [OF guards len] by blast
  have e: "e = None" using run(2) assms(6) by (auto dest: in_set_takeD)
  have q: "scheduleNext ?cl = PostCleanNext \<longrightarrow> cl_queue ?cl \<noteq> []" by (simp add: scheduleNext_def cleaner_done_def)
  note keeps = cleaner_run_removes [OF run(1) q]
  have "disk' VersionFile = Some (bytes_of_version ?v)" using keeps [of VersionFile] disk(1) by simp
  then have v: "ReadVersionValue disk' = Some ?v" by (rule read)
  have none: "disk' (InFolder (Some version) name) = None" for version name
  proof (cases "db_disk d (InFolder (Some version) name) = None")
    case True
    then show ?thesis using keeps [of "InFolder (Some version) name"] disk(1) by auto
  next
    case False
    then have "version \<in> set (io_entries io)" "QString_number version \<in> set names" using assms(3) by blast+
    then have "in_folders (cl_queue ?cl) (InFolder (Some version) name)" using free(1) by (auto simp: queue_def)
    then show ?thesis using run(3) e by blast
  qed
  show ?thesis using cleared disk(2) start run(1) e v none by auto
qed

section \<open>An instance\<close>

text \<open>A file with any whole content, and a binlog with one value that the compactor writes again.\<close>

lemma plain_holds:
  assumes "length D mod 16 = 0" and "length D < 2 ^ 61"
  shows "\<exists>data. disk_holds plain_block plain_crypto key data D"
proof -
  obtain f where f: "file_rep plain_block plain_crypto key f [] (length ([] :: bytes)) (length ([] :: bytes))" "f_results f = []"
    using File_open_Write [OF plain_crypto_ok new_env_ok] by auto
  have small: "length ([] :: bytes) + length D < 2 ^ 61" using assms(2) by simp
  obtain f' where f': "file_rep plain_block plain_crypto key f' ([] @ D) (length ([] @ D)) (length ([] @ D))"
    using write_appends [OF plain_crypto_ok f assms(1) small] by blast
  show ?thesis using file_rep_disk [OF f'] by auto
qed

definition kept_store :: StoreWithTime where
  "kept_store = \<lparr>store_tag = 0, store_size = [5, 0, 0], store_place = [0, 0, 0, 0, 0, 0, 0], store_checksum = 0, store_key = Key 1 2,
     store_time = \<lparr>tp_relative = 1000, tp_system = 1000\<rparr>\<rparr>"

definition kept_records :: "binlog_record list" where "kept_records = [RecordStoreWithTime kept_store]"

definition kept_start :: bytes where
  "kept_start = bytes_of_basic_header \<lparr>bh_format = 0, bh_flags = 1, bh_systemTime = 1000\<rparr>"

definition kept_info :: Compactor_Info where "kept_info = \<lparr>ci_till = 64, ci_systemTime = 1000, ci_keysCount = 1\<rparr>"

lemma kept_size: "length (bytes_of_records kept_records) = 48" "length kept_start = 16"
  by (simp_all add: kept_records_def kept_store_def store_ok_def kept_start_def bytes_of_basic_header_def)

lemma kept_replays: "\<exists>st. replays Settings_new kept_records 1000 st"
proof -
  have fit: "records_fit Settings_new kept_records"
    by (simp add: records_fit_def kept_records_def kept_store_def store_ok_def time_ok_def binlog_kinds_def Settings_new_def)
  have "fst (all_effects (record_effect Settings_new) kept_records (Map.empty, 1000))"
    by (simp add: kept_records_def record_effect_def store_with_time_effect_def size_fits_def Store_getSize_def kept_store_def
        Settings_new_def kDataSizeLimit_def Let_def)
  then obtain st where "all_effects (record_effect Settings_new) kept_records (Map.empty, 1000) = (True, st)"
    by (metis (full_types) prod.collapse)
  then show ?thesis using fit by (auto simp: replays_def)
qed

lemma kept_map: "map_of [time_entry kept_store] key = key_actions 1000 kept_records key None"
  by (simp add: kept_records_def store_action_def split: option.splits)

text \<open>What the theorem asks for: the disk, one message and one round in which nothing is written.\<close>

definition kept_wrote :: "bytes \<Rightarrow> disk \<Rightarrow> disk" where
  "kept_wrote data disk = disk(InFolder (Some 0) BinlogFilename \<mapsto> data)"

lemma kept_parts:
  assumes "disk_holds plain_block plain_crypto [1] data (kept_start @ bytes_of_records kept_records)" and "ix_map d = [time_entry kept_store]"
  shows "compact_open plain_block plain_crypto [1] (InFolder (Some 0) BinlogFilename) (kept_wrote data Map.empty) (kept_start @ bytes_of_records kept_records)"
    and "list_all2 (round_ok plain_block plain_crypto [1] (InFolder (Some 0) BinlogFilename) (InFolder (Some 0) CompactFilename)) [(sample_io, kept_wrote data)]
        (map (\<lambda>T. kept_start @ bytes_of_records (kept_records @ T)) [[]])"
    and "list_all (\<lambda>moment. works_beside (InFolder (Some 0) CompactFilename) 1000 kept_records (hd [[]]) (fst moment, moment_map moment)) [(\<lambda>disk. disk, [], d)]"
    and "length (concat (map record_keys kept_records)) \<le> length [(\<lambda>disk :: disk. disk, [] :: binlog_record list, d)]"
    and "new_binlog_env (io_data sample_io (InFolder (Some 0) CompactFilename))" and "binlog_start Settings_new kept_start 1000"
    and "0 < compactChunkSize Settings_new" and "ci_till kept_info = 16 + int (length (bytes_of_records kept_records))" and "ci_systemTime kept_info < 2 ^ 32"
proof -
  show "compact_open plain_block plain_crypto [1] (InFolder (Some 0) BinlogFilename) (kept_wrote data Map.empty) (kept_start @ bytes_of_records kept_records)"
    using assms(1) by (simp add: compact_open_def kept_wrote_def)
  show "list_all2 (round_ok plain_block plain_crypto [1] (InFolder (Some 0) BinlogFilename) (InFolder (Some 0) CompactFilename)) [(sample_io, kept_wrote data)]
        (map (\<lambda>T. kept_start @ bytes_of_records (kept_records @ T)) [[]])"
    using assms(1) by (simp add: round_ok_def lets_append_def sample_io_def new_env_def kept_wrote_def BinlogFilename_def CompactFilename_def)
  show "list_all (\<lambda>moment. works_beside (InFolder (Some 0) CompactFilename) 1000 kept_records (hd [[]]) (fst moment, moment_map moment)) [(\<lambda>disk. disk, [], d)]"
    using assms(2) kept_map by (simp add: works_beside_def snapshot_def moment_map_def)
  show "length (concat (map record_keys kept_records)) \<le> length [(\<lambda>disk :: disk. disk, [] :: binlog_record list, d)]"
    by (simp add: kept_records_def record_keys_def)
  show "new_binlog_env (io_data sample_io (InFolder (Some 0) CompactFilename))"
    by (simp add: new_binlog_env_def sample_io_def new_env_def kSaltSize_def)
  show "binlog_start Settings_new kept_start 1000" by (simp add: binlog_start_def kept_start_def Settings_new_def)
qed (simp_all add: Settings_new_def kept_info_def kept_size)

theorem compactor_keeps_values_witness:
  "\<exists>data d co disk'. ix_map d = [time_entry kept_store]
    \<and> Option.bind (CompactorObject_new plain_crypto sample_io [(sample_io, kept_wrote data)] (Some 0) Settings_new [1] kept_info (kept_wrote data Map.empty))
        (compactor_run plain_crypto sample_io [(sample_io, kept_wrote data)] (map answers_raw [(\<lambda>disk. disk, [], d)])) =
      Some (co, disk', [PostDone (InFolder (Some 0) CompactFilename) 64])"
proof -
  have l: "length (kept_start @ bytes_of_records kept_records) = 64" by (simp add: kept_size)
  have l2: "length (kept_start @ bytes_of_records kept_records) mod 16 = 0" "length (kept_start @ bytes_of_records kept_records) < 2 ^ 61"
    unfolding l by simp_all
  obtain data where data: "disk_holds plain_block plain_crypto [1] data (kept_start @ bytes_of_records kept_records)"
    using plain_holds [OF l2] by blast
  obtain d :: Database where d: "ix_map d = [time_entry kept_store]" by (metis Database.select_convs Index.select_convs(2))
  note p = kept_parts [OF data d]
  obtain st where st: "replays Settings_new (kept_records @ last [[]]) 1000 st" using kept_replays by auto
  have small: "length (bytes_of_records (kept_records @ last [[]])) < 2 ^ 58" by (simp add: kept_size)
  have w: "written_by [] [[]]" by simp
  from compactor_keeps_values [OF plain_crypto_ok sample_checks(2) p(7,6,1,8,9,5) st small w p(2-4)]
  obtain co disk' where r: "Option.bind (CompactorObject_new plain_crypto sample_io [(sample_io, kept_wrote data)] (Some 0) Settings_new [1] kept_info
        (kept_wrote data Map.empty)) (compactor_run plain_crypto sample_io [(sample_io, kept_wrote data)] (map answers_raw [(\<lambda>disk. disk, [], d)])) =
      Some (co, disk', [PostDone (InFolder (Some 0) CompactFilename) (int (length (kept_start @ bytes_of_records (kept_records @ []))))])"
    by auto
  have "int (length (kept_start @ bytes_of_records (kept_records @ []))) = 64" using l by simp
  with r d show ?thesis by metis
qed

lemma kept_run:
  "\<exists>data d co disk'. Option.bind (CompactorObject_new plain_crypto sample_io [(sample_io, kept_wrote data)] (Some 0) Settings_new [1] kept_info
        (kept_wrote data Map.empty)) (compactor_run plain_crypto sample_io [(sample_io, kept_wrote data)]
        (map moment_of [(\<lambda>disk. disk, moment_map (\<lambda>disk. disk, [], d))])) =
      Some (co, disk', [PostDone (InFolder (Some 0) CompactFilename) (int (length (kept_start @ bytes_of_records (kept_records @ []))))])"
proof -
  have l: "length (kept_start @ bytes_of_records kept_records) = 64" by (simp add: kept_size)
  have l2: "length (kept_start @ bytes_of_records kept_records) mod 16 = 0" "length (kept_start @ bytes_of_records kept_records) < 2 ^ 61"
    unfolding l by simp_all
  obtain data where data: "disk_holds plain_block plain_crypto [1] data (kept_start @ bytes_of_records kept_records)"
    using plain_holds [OF l2] by blast
  obtain d :: Database where d: "ix_map d = [time_entry kept_store]" by (metis Database.select_convs Index.select_convs(2))
  note p = kept_parts [OF data d]
  obtain st where st: "replays Settings_new (kept_records @ last [[]]) 1000 st" using kept_replays by auto
  have small: "length (bytes_of_records (kept_records @ last [[]])) < 2 ^ 58" by (simp add: kept_size)
  have w: "written_by [] [[]]" by simp
  have m: "list_all (works_beside (InFolder (Some 0) CompactFilename) 1000 kept_records (hd [[]])) [(\<lambda>disk. disk, moment_map (\<lambda>disk. disk, [], d))]"
    "length (concat (map record_keys kept_records)) \<le> length [(\<lambda>disk :: disk. disk, moment_map (\<lambda>disk. disk, [], d))]"
    using p(3,4) by simp_all
  from compaction [OF plain_crypto_ok sample_checks(2) p(7,6,1) refl refl p(8,9,5) st small w p(2) m] show ?thesis by auto
qed

theorem compactor_touches_only_its_file_witness:
  "\<exists>data d co disk' posts. Option.bind (CompactorObject_new plain_crypto sample_io [(sample_io, kept_wrote data)] (Some 0) Settings_new [1] kept_info
        (kept_wrote data Map.empty)) (compactor_run plain_crypto sample_io [(sample_io, kept_wrote data)]
        (map moment_of [(\<lambda>disk. disk, moment_map (\<lambda>disk. disk, [], d))])) = Some (co, disk', posts)
    \<and> disk' VersionFile = kept_wrote data Map.empty VersionFile"
proof -
  obtain data d co disk' posts where r: "Option.bind (CompactorObject_new plain_crypto sample_io [(sample_io, kept_wrote data)] (Some 0) Settings_new [1] kept_info
        (kept_wrote data Map.empty)) (compactor_run plain_crypto sample_io [(sample_io, kept_wrote data)]
        (map moment_of [(\<lambda>disk. disk, moment_map (\<lambda>disk. disk, [], d))])) = Some (co, disk', posts)"
    using kept_run by blast
  have "disk' VersionFile = kept_wrote data Map.empty VersionFile"
    by (rule compactor_touches_only_its_file [OF r]) (simp_all add: kept_wrote_def moment_of_def)
  then show ?thesis using r by blast
qed

text \<open>A database whose binlog has only a header, and a compacted file that is the same.\<close>

definition compacted_cache :: "Database \<Rightarrow> Database" where
  "compacted_cache d = d\<lparr>ix_excess := 0, db_compactor := CompactorWrap_new,
     db_disk := (db_disk d)(InFolder (Some 0) CompactFilename \<mapsto> f_data (db_binlog d))\<rparr>"

lemma kept_database:
  assumes "sample_cache d"
  shows "\<exists>start. length start = 16 \<and> compactor_ready plain_block plain_crypto (InFolder (Some 0) CompactFilename)
      (length (start @ bytes_of_records ([] @ []))) (start @ bytes_of_records ([] @ [])) (start @ bytes_of_records ([] @ [] @ [])) (compacted_cache d)"
proof -
  note s = sample_cacheD [OF assms]
  have open_file: "f_isOpen (db_binlog d)" using s(2) by (simp add: healthy_def)
  have at: "db_disk d (db_binlogAt d) = Some (f_data (db_binlog d))" "db_binlogAt d = binlogPath d"
    using db_fineD(9) [OF s(1)] open_file unfolding binlog_ok_def by blast+
  have ok: "db_disk d (binlogPath d) = Some (f_data (db_binlog d))" using at(1) unfolding at(2) .
  obtain st where "binlog_at plain_block plain_crypto True Settings_new [1] (db_binlog d) st"
    using db_fineD(10) [OF s(1)] open_file s(5,10,12) by (auto simp: replays_to_def binlog_content_def)
  then obtain start time rs where b: "binlog_start Settings_new start time"
    "file_rep plain_block plain_crypto [1] (db_binlog d) (start @ bytes_of_records rs) (16 + length (bytes_of_records rs)) (16 + length (bytes_of_records rs))"
    unfolding binlog_at_def by auto
  have l: "length start = 16" by (rule length_binlog_start [OF b(1)])
  have "File_offset (db_binlog d) = int (16 + length (bytes_of_records rs))" by (rule file_rep_simps(2) [OF b(2)])
  then have empty: "bytes_of_records rs = []" using s(12) by simp
  have r: "file_rep plain_block plain_crypto [1] (db_binlog d) start 16 (length start)" using b(2) l empty by simp
  have "db_disk d (InFolder (Some 0) CompactReadyFilename) = None" using s(9,13) unfolding current_on_disk_def by (metis option.inject)
  then have "compactor_ready plain_block plain_crypto (InFolder (Some 0) CompactFilename) 16 start start (compacted_cache d)"
    using r file_rep_disk [OF r] ok l s(5,9,10) sample_checks(2)
    by (auto simp: compactor_ready_def compact_open_def compacted_cache_def compactReadyPath_def binlogPath_def CompactorWrap_new_def
        BinlogFilename_def CompactFilename_def CompactReadyFilename_def)
  then show ?thesis using l by auto
qed

theorem compactor_result_installed_witness:
  "\<exists>d d'. sample_cache d \<and> compactorDone plain_crypto sample_io (Locked, True, True) (InFolder (Some 0) CompactFilename) 16 (compacted_cache d) = Some d'
    \<and> db_disk d' (InFolder (Some 0) CompactFilename) = None"
proof -
  obtain d where d: "sample_cache d" using sample_opened by blast
  obtain start where r: "length start = 16" "compactor_ready plain_block plain_crypto (InFolder (Some 0) CompactFilename)
      (length (start @ bytes_of_records ([] @ []))) (start @ bytes_of_records ([] @ [])) (start @ bytes_of_records ([] @ [] @ [])) (compacted_cache d)"
    using kept_database [OF d] by blast
  have io: "lets_append sample_io (InFolder (Some 0) CompactFilename)" "fe_folder (io_open sample_io ReadAppend)"
    "fe_lock (io_open sample_io ReadAppend) = Locked" "io_move sample_io = (Locked, True, True)"
    by (simp_all add: lets_append_def sample_io_def new_env_def)
  let ?target = "InFolder (Some 0) CompactFilename"
  obtain f where f: "compactorDone plain_crypto sample_io (Locked, True, True) ?target (int (length (start @ bytes_of_records ([] @ [])))) (compacted_cache d) =
      Some ((compacted_cache d)\<lparr>db_binlog := f, db_binlogAt := binlogPath (compacted_cache d),
        db_disk := (db_disk (compacted_cache d))(?target := None, binlogPath (compacted_cache d) := Some (f_data f)),
        ix_excess := ix_excess (compacted_cache d) - cw_excessLength (db_compactor (compacted_cache d)), db_compactor := CompactorWrap_new\<rparr>)"
    using compactor_result_installed [OF plain_crypto_ok r(2) io, of Locked True] by blast
  obtain d' where d': "compactorDone plain_crypto sample_io (Locked, True, True) ?target 16 (compacted_cache d) = Some d'"
    "db_disk d' = (db_disk (compacted_cache d))(?target := None, binlogPath (compacted_cache d) := Some (f_data f))"
    using f r(1) by simp
  have "db_disk d' ?target = None" unfolding d'(2) by (simp add: binlogPath_def BinlogFilename_def CompactFilename_def)
  then show ?thesis using d d'(1) by blast
qed

theorem compactor_failure_loses_binlog_witness:
  "\<exists>d d'. sample_cache d \<and> compactorDone plain_crypto (sample_io\<lparr>io_move := (Locked, True, False)\<rparr>) (Locked, True, True)
      (InFolder (Some 0) CompactFilename) (File_size (db_binlog (compacted_cache d))) (compacted_cache d) = Some d'
    \<and> db_disk d' (InFolder (Some 0) BinlogFilename) = None"
proof -
  obtain d where d: "sample_cache d" using sample_opened by blast
  note s = sample_cacheD [OF d]
  have "db_disk d (InFolder (Some 0) CompactReadyFilename) = None" using s(9,13) unfolding current_on_disk_def by (metis option.inject)
  then have f: "db_disk (compacted_cache d) (InFolder (Some 0) CompactFilename) = Some (f_data (db_binlog d))"
    "db_disk (compacted_cache d) (compactReadyPath (compacted_cache d)) = None"
    "InFolder (Some 0) CompactFilename = InFolder (db_folder (compacted_cache d)) CompactFilename"
    using s(9) by (simp_all add: compacted_cache_def compactReadyPath_def CompactFilename_def CompactReadyFilename_def)
  have io: "io_move (sample_io\<lparr>io_move := (Locked, True, False)\<rparr>) = (Locked, True, False)"
    "io_removes (sample_io\<lparr>io_move := (Locked, True, False)\<rparr>) (compactReadyPath (compacted_cache d))"
    by (simp_all add: sample_io_def)
  have b: "binlogPath (compacted_cache d) = InFolder (Some 0) BinlogFilename" using s(9) by (simp add: binlogPath_def compacted_cache_def)
  from compactor_failure_loses_binlog [OF refl f io, of plain_crypto Locked True] show ?thesis using d unfolding b by blast
qed

theorem cleaner_keeps_current_version_witness:
  "\<exists>called disk'. Cleaner_clean [''0'', ''1''] [(True, True, \<lambda>_. True)] [VersionFile \<mapsto> [1, 0, 0, 0], InFolder (Some 1) ''binlog'' \<mapsto> [7]] = (called, disk')
    \<and> disk' (InFolder (Some 1) ''binlog'') = Some [7]"
proof -
  let ?disk = "[VersionFile \<mapsto> [1, 0, 0, 0], InFolder (Some 1) ''binlog'' \<mapsto> [7]] :: disk"
  obtain called disk' where r: "Cleaner_clean [''0'', ''1''] [(True, True, \<lambda>_. True)] ?disk = (called, disk')" by (metis surj_pair)
  have "ReadVersionValue ?disk = Some 1" by (simp add: ReadVersionValue_def)
  then show ?thesis using cleaner_keeps_current_version [OF r] r by auto
qed

theorem clear_then_clean_removes_all_witness:
  "\<exists>d d1 disk'. Database_new Settings_new [InFolder (Some 0) ''binlog'' \<mapsto> [7]] = Some d
    \<and> db_clear plain_crypto (sample_io\<lparr>io_entries := [0]\<rparr>) d = Some (noError, d1)
    \<and> Cleaner_clean [QString_number 0] [(True, True, \<lambda>_. True)] (db_disk d1) = (Some None, disk') \<and> disk' (InFolder (Some 0) ''binlog'') = None"
proof -
  let ?io = "sample_io\<lparr>io_entries := [0]\<rparr>"
  obtain d where d: "Database_new Settings_new [InFolder (Some 0) ''binlog'' \<mapsto> [7]] = Some d" using sample_checks(1) by (simp add: Database_new_def)
  have p: "db_key d = []" "db_disk d = [InFolder (Some 0) ''binlog'' \<mapsto> [7]]"
    using d by (auto simp: Database_new_def Index.extend_def Database.fields_def Index_new_def split: if_splits)
  have io: "io_version ?io = (True, True, 4, True)" "io_entries ?io = [0]" by (simp_all add: sample_io_def)
  have h: "\<forall>version file. db_disk d (InFolder (Some version) file) \<noteq> None \<longrightarrow> version \<in> set (io_entries ?io) \<and> QString_number version \<in> set [QString_number 0]"
    "\<forall>version \<in> set (io_entries ?io). 0 \<le> version" "length (io_entries ?io) < 2 ^ 31"
    "\<forall>r \<in> set [(True, True, \<lambda>_ :: string. True)]. fst r \<and> fst (snd r)" "length [QString_number 0] \<le> length [(True, True, \<lambda>_ :: string. True)]"
    unfolding io(2) using p(2) by auto
  from clear_then_clean_removes_all [OF p(1) io(1) h, of plain_crypto] show ?thesis using d by blast
qed

end
