(* ===== verification/Spec2Isabelle.thy ===== *)
theory Spec2Isabelle
  imports SparseIdsSlice MessagesList PtsWaiter StreamingSession LangRules LangTags StorageFileRoundtrip CacheUpkeep
begin

text \<open>
  A verification library of core logic of Telegram Desktop (\<^verbatim>\<open>src/Telegram/SourceFiles\<close>). Every
  theory opens with the files and the correspondence it models; this is the map of the whole.

  \<^bold>\<open>Containers.\<close> \<open>FlatSet\<close> and \<open>FlatMap\<close> are \<^verbatim>\<open>base/flat_set.h\<close> and \<^verbatim>\<open>base/flat_map.h\<close>: sorted lists
  with the comparator as an argument, iterators as positions. Their lemmas show that the operations
  keep the list sorted and act as a set or a map; \<open>modify\<close> is the exception, and a theorem shows
  the case it gets wrong. The other theories store their state in these lists, as the code does.

  \<^bold>\<open>Identifiers.\<close> \<open>DataTypes\<close> is \<^verbatim>\<open>data/data_types.h\<close> and the positions of \<^verbatim>\<open>data/data_messages.h\<close>:
  peer ids in 64 bits with their shifts, message ids, full ids and ranges.

  \<^bold>\<open>Sparse lists of messages.\<close> \<open>SparseIdsList\<close> is \<^verbatim>\<open>storage/storage_sparse_ids_list.cpp\<close>, the slices of
  ids that are known of a list that the server has; \<open>SliceBuilder\<close> and \<open>SparseIdsSlice\<close> are the views
  of \<^verbatim>\<open>data/data_sparse_ids.cpp\<close> that follow it, merged from two lists where a group was migrated;
  \<open>MessagesList\<close> is \<^verbatim>\<open>data/data_messages.cpp\<close>, the same with positions. The lists refine an abstract
  state of known ranges and ids, queries answer from it, and a builder that is told of every update
  keeps a view that is true of it.

  \<^bold>\<open>Order of updates.\<close> \<open>PtsWaiter\<close> is \<^verbatim>\<open>data/data_pts_waiter.cpp\<close>: updates numbered by the server that
  arrive in any order are applied in order, or the difference is requested.

  \<^bold>\<open>Streaming of media.\<close> \<open>StreamingLoader\<close> is the queue of \<^verbatim>\<open>media_streaming_loader.cpp\<close>.
  \<open>StreamingSlice\<close> and \<open>StreamingSlices\<close> are \<^verbatim>\<open>Reader::Slice\<close> and \<^verbatim>\<open>Reader::Slices\<close> of
  \<^verbatim>\<open>media_streaming_reader.cpp\<close>; an assertion of the code that fails is the value \<open>None\<close>. \<open>StreamingCache\<close>,
  \<open>StreamingInvariant\<close>, \<open>StreamingFill\<close> and \<open>StreamingReads\<close> show, for a file of fixed content, that the
  slices hold parts of it, that cache entries are read back, and that reads give its bytes.
  \<open>StreamingReader\<close> is the \<^verbatim>\<open>Reader\<close> around the slices: its calls of the cache, the loader and the
  semaphore are events of its state, and what other threads deliver while it waits is a sequence of
  batches, of any length, given to \<open>fill\<close>. \<open>StreamingReaderReads\<close> and \<open>StreamingSession\<close> show its
  properties over every reachable state.

  \<^bold>\<open>Language pack.\<close> \<open>LangPlural\<close> and \<open>LangRules\<close> are the plural rules of \<^verbatim>\<open>lang/lang_tag.cpp\<close> and the
  chart of rules they implement; \<open>LangTags\<close> is the parser of values of \<^verbatim>\<open>lang/lang_instance.cpp\<close> with
  the tags it makes and their replacement.

  \<^bold>\<open>Encrypted files.\<close> \<open>StorageEncryption\<close> is \<^verbatim>\<open>storage/storage_encryption.cpp\<close>, a cipher in counter mode
  over a block cipher that is a parameter; \<open>StorageFile\<close> is \<^verbatim>\<open>storage/storage_encrypted_file.cpp\<close>, over a
  file of the system that may write less than it was asked to. \<open>StorageFileRoundtrip\<close> shows that the
  operations act on the content as on a plain file, for sizes below \<open>2^61\<close>.

  \<^bold>\<open>Disk cache.\<close> \<open>CacheTypes\<close> are the records of \<^verbatim>\<open>storage/cache/storage_cache_types.h\<close> and their bytes,
  \<open>CacheBinlog\<close> the reader of the binlog, \<^verbatim>\<open>storage_cache_binlog_reader.h\<close>. \<open>CacheBinlogReads\<close> and
  \<open>CacheBinlogRoundtrip\<close> show that reading in blocks is reading at once and gives what was written.
  The database is \<^verbatim>\<open>storage_cache_database_object.cpp\<close>, in the state \<open>Database\<close> (its fields, the disk, and
  what was reported): \<open>CacheIndex\<close> the hash table with its totals and the handlers of records,
  \<open>CacheDatabase\<close> the bundles of removed and used keys, statistics and timers, \<open>CacheValues\<close> the calls
  of clients, \<open>CacheOpen\<close> opening, closing and clearing, \<open>CachePrune\<close> the removal of old values. What
  the system answers to a call (clocks, random places, files that open, lock, fail or take a part of a
  write) is an argument, \<open>cache_io\<close>; the hash of values and the cipher are parameters.
  \<open>CacheInvariant\<close> states what holds between calls (\<open>db_fine\<close>): above all, that replaying the binlog of
  the disk gives the map, up to removals that wait. \<open>CacheAppend\<close>, \<open>CacheOperations\<close>, \<open>CacheFiles\<close>,
  \<open>CachePut\<close>, \<open>CacheReads\<close>, \<open>CacheMoves\<close> and \<open>CachePruning\<close> show that every operation keeps it and what
  it does to the map, \<open>CacheOldest\<close> that pruning takes the oldest entries; \<open>CacheReopen\<close>, \<open>CacheHealthy\<close> and \<open>CacheRestart\<close> that opening gives it back;
  \<open>CacheSteps\<close> is the state machine of all calls and timers, \<open>CacheProperties\<close> has the properties.

  \<^bold>\<open>Upkeep of the cache.\<close> \<open>CacheCompactor\<close> is \<^verbatim>\<open>storage_cache_compactor.cpp\<close>, the thread that writes
  a shorter binlog, with its messages to the database (\<open>compactor_run\<close>), and what the database does
  with the result, \<open>compactorDone\<close>. \<open>CacheCompactRead\<close> shows that its passes over the binlog collect the
  keys a portion at a time, \<open>CacheCompactWrite\<close> that the bundles it writes read back, \<open>CacheCompacted\<close> and
  \<open>CacheCatchUp\<close> what a binlog says that was written so and caught up with, \<open>CacheCompactRun\<close> and
  \<open>CacheCompaction\<close> put this together: the compacted binlog says what the first did.
  \<open>CacheCompactFiles\<close> is what happens to the files. \<open>CacheCleaner\<close> is \<^verbatim>\<open>storage_cache_cleaner.cpp\<close>, which
  removes the folders of earlier versions, and the choice of the next version. \<open>CacheUpkeep\<close> has the properties.

  \<^bold>\<open>Bounds.\<close> Integers are words where the code packs or wraps (peer ids, cache keys, language keys,
  characters) and otherwise unbounded, with the bound as a hypothesis where the code relies on one:
  message ids fit the range of the list, a binlog is known up to \<open>2^60\<close> bytes and clocks run less than
  \<open>2^64\<close> seconds, a streamed file is smaller than \<open>2^31 - 2^23\<close> bytes, so that no
  offset, slice number or sum of sizes leaves \<^verbatim>\<open>int\<close>. No model uses fuel: loops are structural or
  have a termination proof, and the loops that end for a deeper reason (the unloading of slices when the reader closes, the search
  for a free place and the clearing of stale values of the cache, the loops of the compactor over the binlog) are partial
  functions that are shown to end.

  \<^bold>\<open>Parameters.\<close> Code outside the repository is an argument: the letters of \<^verbatim>\<open>QChar::toLower\<close>, the
  conversions of numbers and of UTF-8, the generated tables of tags, the content of the cache, what
  the loader delivers.

  \<^bold>\<open>Not modelled.\<close> Widgets, windows, dialogs and history views, audio and video, calls, platform
  integration and the application core are driven by Qt, FFmpeg or the operating system; the network
  protocol and the API layer by generated schemes. The parser of language files and the wrappers
  around the sparse lists are left out for their size. Threads are modelled by the order of what they deliver; memory, addresses and signals
  (\<^verbatim>\<open>rpl\<close>) are not.
\<close>

end
